(* ===== verification/Gem5_Prelude.thy ===== *)
theory Gem5_Prelude
  imports Main "HOL-Library.Word"
begin

text \<open>
  The prelude of the development: the machine types of the simulators, the outcome of an
  operation that can stop the simulator, and the generic lemmas the component theories share.

  A routine that calls \<open>assert\<close>, \<open>panic\<close> or \<open>fatal\<close> ends the simulation, and an access
  outside a vector or through a null pointer is undefined.  An operation with such a branch
  returns a value of \<^typ>\<open>'e + 'a\<close> (below: \<open>'a res\<close>), with \<^term>\<open>Inl\<close> for the stop.
  Tracing (\<open>DPRINTF\<close>) and printing change no state and are left out everywhere.
\<close>

unbundle bit_operations_syntax

section \<open>Machine types\<close>

type_synonym u8 = "8 word"
type_synonym u16 = "16 word"
type_synonym u32 = "32 word"
type_synonym u64 = "64 word"

text \<open>\<open>Addr\<close> and \<open>Tick\<close> are 64-bit (\<open>src/base/types.hh\<close>); \<open>unsigned\<close> is 32-bit.\<close>

type_synonym addr = u64

section \<open>Operations that can stop the simulator\<close>

datatype gem5_error =
    AssertFailed     \<comment> \<open>\<open>assert(...)\<close>\<close>
  | Panic            \<comment> \<open>\<open>panic(...)\<close>\<close>
  | Fatal            \<comment> \<open>\<open>fatal(...)\<close>\<close>
  | OutOfRange       \<comment> \<open>a vector index past the end, a null pointer, an invalid iterator\<close>
  | Diverges         \<comment> \<open>a walk along pointers that comes back to a node it has visited\<close>

type_synonym 'a res = "gem5_error + 'a"

definition res_bind :: "'a res \<Rightarrow> ('a \<Rightarrow> 'b res) \<Rightarrow> 'b res" where
  "res_bind m f = (case m of Inl e \<Rightarrow> Inl e | Inr x \<Rightarrow> f x)"

definition assert_that :: "bool \<Rightarrow> 'a res \<Rightarrow> 'a res" where
  "assert_that c k = (if c then k else Inl AssertFailed)"

definition vec_get :: "'a list \<Rightarrow> nat \<Rightarrow> 'a res" where
  "vec_get xs i = (if i < length xs then Inr (xs ! i) else Inl OutOfRange)"

definition vec_set :: "'a list \<Rightarrow> nat \<Rightarrow> 'a \<Rightarrow> 'a list res" where
  "vec_set xs i x = (if i < length xs then Inr (xs[i := x]) else Inl OutOfRange)"

definition is_ok :: "'a res \<Rightarrow> bool" where
  "is_ok m = (case m of Inl _ \<Rightarrow> False | Inr _ \<Rightarrow> True)"

named_theorems res_simps \<open>unfolding of the outcome combinators\<close>

lemma res_bind_simps [simp, res_simps]:
  "res_bind (Inl e) f = Inl e"
  "res_bind (Inr x) f = f x"
  by (simp_all add: res_bind_def)

lemma res_bind_eq_Inr [res_simps]:
  "res_bind m f = Inr y \<longleftrightarrow> (\<exists>x. m = Inr x \<and> f x = Inr y)"
  by (cases m) auto

lemma assert_that_simps [simp, res_simps]:
  "assert_that True k = k"
  "assert_that False k = Inl AssertFailed"
  by (simp_all add: assert_that_def)

lemma assert_that_eq_Inr [res_simps]:
  "assert_that c k = Inr y \<longleftrightarrow> c \<and> k = Inr y"
  by (simp add: assert_that_def)

lemma vec_get_in [simp]: "i < length xs \<Longrightarrow> vec_get xs i = Inr (xs ! i)"
  by (simp add: vec_get_def)

lemma vec_get_eq_Inr [res_simps]: "vec_get xs i = Inr x \<longleftrightarrow> i < length xs \<and> x = xs ! i"
  by (auto simp: vec_get_def)

lemma vec_set_in [simp]: "i < length xs \<Longrightarrow> vec_set xs i x = Inr (xs[i := x])"
  by (simp add: vec_set_def)

lemma vec_set_eq_Inr [res_simps]:
  "vec_set xs i x = Inr ys \<longleftrightarrow> i < length xs \<and> ys = xs[i := x]"
  by (auto simp: vec_set_def)

lemma is_ok_simps [simp]: "is_ok (Inr x)" "\<not> is_ok (Inl e)"
  by (simp_all add: is_ok_def)

lemma is_ok_iff: "is_ok m \<longleftrightarrow> (\<exists>x. m = Inr x)"
  by (cases m) auto

section \<open>Masks and powers of two\<close>

text \<open>A size that is a power of two, with its mask one below it.\<close>

lemma word_pow2_unat:
  "n < LENGTH('a) \<Longrightarrow> unat (2 ^ n :: 'a::len word) = 2 ^ n"
  by transfer (simp add: take_bit_int_eq_self nat_power_eq)

lemma word_pow2_minus_1: "(2 ^ n - 1 :: 'a::len word) = mask n"
  by (simp add: mask_eq_decr_exp)

lemma unat_and_mask: "unat (w AND mask n :: 'a::len word) = unat w mod 2 ^ n"
  by (simp add: unsigned_take_bit_eq take_bit_eq_mod [of n "unat w"] flip: take_bit_eq_mask)

lemma unat_and_mask_less: "unat (w AND mask n :: 'a::len word) < 2 ^ n"
  by (simp add: unat_and_mask)

lemma and_pow2_minus_1_less: "unat (w AND (2 ^ n - 1) :: 'a::len word) < 2 ^ n"
  by (simp add: word_pow2_minus_1 unat_and_mask)

lemma unat_drop_bit_div: "unat (drop_bit n w :: 'a::len word) = unat w div 2 ^ n"
  by (simp add: unat_drop_bit_eq drop_bit_eq_div [of n "unat w"])

lemma word_eq_0_unat: "w = 0 \<longleftrightarrow> unat w = 0" for w :: "'a::len word"
  by (simp add: unat_eq_0)

lemma bit_word_unat: "bit w n \<longleftrightarrow> odd (unat w div 2 ^ n)" for w :: "'a::len word"
proof -
  have "bit (unat w) n = bit w n" by (simp add: bit_unsigned_iff)
  then show ?thesis by (simp add: bit_iff_odd [of "unat w"])
qed

end
