(* ===== verification/Int_Math.thy ===== *)
theory Int_Math
  imports Gem5_Prelude
begin

text \<open>
  The integer helpers of \<open>src/base/intmath.hh\<close>, \<open>src/base/intmath.cc\<close> and
  \<open>src/base/bitfield.hh\<close>: logarithms by successive halving, powers of two, rounding to an
  alignment, prime search, and bit fields.  Templates are polymorphic in the word length;
  signed \<open>int\<close> values are \<^typ>\<open>int\<close> (their overflow is undefined in C++ and outside the
  model), results of type \<open>int\<close> that are never negative are \<^typ>\<open>nat\<close>.
\<close>

section \<open>intmath: powers of two and logarithms\<close>

definition leastSigBit :: "'a::len word \<Rightarrow> 'a word" where
  "leastSigBit n = n AND NOT (n - 1)"

definition isPowerOf2 :: "'a::len word \<Rightarrow> bool" where
  "isPowerOf2 n \<longleftrightarrow> n \<noteq> 0 \<and> leastSigBit n = n"

text \<open>One line of the halving cascades: \<open>if (x & m) { y += k; x >>= k; }\<close>.\<close>

definition halve_step :: "'a::len word \<Rightarrow> nat \<Rightarrow> nat \<times> 'a word \<Rightarrow> nat \<times> 'a word" where
  "halve_step m k = (\<lambda>(y, x). if x AND m \<noteq> 0 then (y + k, drop_bit k x) else (y, x))"

definition floorLog2_u32 :: "u32 \<Rightarrow> nat res" where
  "floorLog2_u32 x = assert_that (x > 0)
     (let s0 = (0, x);
          s1 = halve_step 0xffff0000 16 s0;
          s2 = halve_step 0x0000ff00 8 s1;
          s3 = halve_step 0x000000f0 4 s2;
          s4 = halve_step 0x0000000c 2 s3;
          s5 = (if snd s4 AND 0x00000002 \<noteq> 0 then (fst s4 + 1, snd s4) else s4)
      in Inr (fst s5))"

definition floorLog2_u64 :: "u64 \<Rightarrow> nat res" where
  "floorLog2_u64 x = assert_that (x > 0)
     (let s0 = (0, x);
          s1 = halve_step 0xffffffff00000000 32 s0;
          s2 = halve_step 0x00000000ffff0000 16 s1;
          s3 = halve_step 0x000000000000ff00 8 s2;
          s4 = halve_step 0x00000000000000f0 4 s3;
          s5 = halve_step 0x000000000000000c 2 s4;
          s6 = (if snd s5 AND 0x0000000000000002 \<noteq> 0 then (fst s5 + 1, snd s5) else s5)
      in Inr (fst s6))"

definition ceilLog2_u64 :: "u64 \<Rightarrow> nat res" where
  "ceilLog2_u64 n =
     (if n = 1 then Inr 0 else res_bind (floorLog2_u64 (n - 1)) (\<lambda>l. Inr (l + 1)))"

definition floorPow2_u64 :: "u64 \<Rightarrow> u64 res" where
  "floorPow2_u64 n = res_bind (floorLog2_u64 n) (\<lambda>l. Inr (push_bit l 1))"

definition floorPow2_u32 :: "u32 \<Rightarrow> u32 res" where
  "floorPow2_u32 n = res_bind (floorLog2_u32 n) (\<lambda>l. Inr (push_bit l 1))"

definition divCeil :: "'a::len word \<Rightarrow> 'a word \<Rightarrow> 'a word" where
  "divCeil a b = (a + b - 1) div b"

definition roundUp :: "'a::len word \<Rightarrow> 'a word \<Rightarrow> 'a word" where
  "roundUp val align = (let m = align - 1 in (val + m) AND NOT m)"

definition roundDown :: "'a::len word \<Rightarrow> 'a word \<Rightarrow> 'a word" where
  "roundDown val align = (let m = align - 1 in val AND NOT m)"

section \<open>intmath: prime search\<close>

text \<open>
  The trial-division loop \<open>for (i = 5; i*i <= n; i += 6)\<close> of \<open>isPrime\<close>, from the current \<open>i\<close>.
\<close>

function isPrime_loop :: "int \<Rightarrow> int \<Rightarrow> bool" where
  "isPrime_loop n i =
     (if i * i \<le> n then
        (if n mod i = 0 \<or> n mod (i + 2) = 0 then False else isPrime_loop n (i + 6))
      else True)"
  by pat_completeness auto
termination
proof (relation "measure (\<lambda>(n, i). nat (n - i + 7))")
  fix n i :: int
  assume "i * i \<le> n"
  moreover have "i \<le> i * i"
    by (cases "i \<le> 0") (auto simp: mult_le_cancel_left1 intro: order_trans [of i 0])
  ultimately show "((n, i + 6), (n, i)) \<in> measure (\<lambda>(n, i). nat (n - i + 7))"
    by simp
qed simp

declare isPrime_loop.simps [simp del]

definition isPrime :: "int \<Rightarrow> bool" where
  "isPrime n = (if n = 2 \<or> n = 3 then True else isPrime_loop n 5)"

text \<open>The endless \<open>for (;;)\<close> of \<open>prevPrime\<close>: \<^term>\<open>None\<close> would be "does not return".\<close>

partial_function (option) prevPrime_loop :: "int \<Rightarrow> int \<Rightarrow> int option" where
  "prevPrime_loop n decr =
     (if isPrime n then Some n else prevPrime_loop (n - decr) (6 - decr))"

text \<open>\<open>n % 3\<close> truncates towards zero, so it is negative for a negative \<open>n\<close>.\<close>

definition c_rem :: "int \<Rightarrow> int \<Rightarrow> int" where
  "c_rem a b = sgn a * (\<bar>a\<bar> mod \<bar>b\<bar>)"

definition prevPrime :: "int \<Rightarrow> int option" where
  "prevPrime n0 =
     (let n1 = (if n0 mod 2 = 0 then n0 - 1 else n0);
          decr = c_rem n1 3
      in if decr = 0 then prevPrime_loop (n1 - 2) 2
         else if decr = 1 then prevPrime_loop n1 4
         else prevPrime_loop n1 decr)"

section \<open>intmath: character classes\<close>

definition isHex :: "u8 \<Rightarrow> bool" where
  "isHex c \<longleftrightarrow> (c \<ge> 48 \<and> c \<le> 57) \<or> (c \<ge> 65 \<and> c \<le> 70) \<or> (c \<ge> 97 \<and> c \<le> 102)"

definition isDec :: "u8 \<Rightarrow> bool" where
  "isDec c \<longleftrightarrow> c \<ge> 48 \<and> c \<le> 57"

definition hex2Int :: "u8 \<Rightarrow> nat" where
  "hex2Int c =
     (if c \<ge> 48 \<and> c \<le> 57 then unat (c - 48)
      else if c \<ge> 65 \<and> c \<le> 70 then unat (c - 65) + 10
      else if c \<ge> 97 \<and> c \<le> 102 then unat (c - 97) + 10
      else 0)"

section \<open>bitfield\<close>

text \<open>\<open>mask(nbits)\<close>: the shift amount is the width for 64 bits and is tested first.\<close>

definition bmask :: "nat \<Rightarrow> u64" where
  "bmask nbits = (if nbits = 64 then - 1 else push_bit nbits 1 - 1)"

definition bits :: "u64 \<Rightarrow> nat \<Rightarrow> nat \<Rightarrow> u64" where
  "bits val first last' = drop_bit last' val AND bmask (first - last' + 1)"

definition mbits :: "u64 \<Rightarrow> nat \<Rightarrow> nat \<Rightarrow> u64" where
  "mbits val first last' = val AND (bmask (first + 1) AND NOT (bmask last'))"

definition sext :: "nat \<Rightarrow> u64 \<Rightarrow> u64" where
  "sext N val = (if bits val (N - 1) (N - 1) \<noteq> 0 then val OR NOT (bmask N) else val)"

definition insertBits :: "u64 \<Rightarrow> nat \<Rightarrow> nat \<Rightarrow> u64 \<Rightarrow> u64" where
  "insertBits val first last' bit_val =
     (let bm = push_bit last' (bmask (first - last' + 1))
      in (push_bit last' bit_val AND bm) OR (val AND NOT bm))"

text \<open>One line of the \<open>findMsbSet\<close>/\<open>findLsbSet\<close> cascades, on the tested field \<open>f:0..l\<close>.\<close>

definition msb_step :: "nat \<Rightarrow> nat \<Rightarrow> nat \<Rightarrow> nat \<times> u64 \<Rightarrow> nat \<times> u64" where
  "msb_step f l k = (\<lambda>(r, v). if bits v f l \<noteq> 0 then (r + k, drop_bit k v) else (r, v))"

definition lsb_step :: "nat \<Rightarrow> nat \<Rightarrow> nat \<times> u64 \<Rightarrow> nat \<times> u64" where
  "lsb_step f k = (\<lambda>(r, v). if bits v f 0 = 0 then (r + k, drop_bit k v) else (r, v))"

definition findMsbSet :: "u64 \<Rightarrow> nat" where
  "findMsbSet val =
     (if val = 0 then 0
      else let s = msb_step 3 2 2 (msb_step 7 4 4 (msb_step 15 8 8
                     (msb_step 31 16 16 (msb_step 63 32 32 (0, val)))))
           in if bits (snd s) 1 1 \<noteq> 0 then fst s + 1 else fst s)"

definition findLsbSet :: "u64 \<Rightarrow> nat" where
  "findLsbSet val =
     (if val = 0 then 64
      else let s = lsb_step 1 2 (lsb_step 3 4 (lsb_step 7 8
                     (lsb_step 15 16 (lsb_step 31 32 (0, val)))))
           in if bits (snd s) 0 0 = 0 then fst s + 1 else fst s)"

section \<open>Logarithms: what the cascades keep\<close>

lemma and_field_eq_0:
  fixes x :: "'a::len word"
  assumes "unat x < 2 ^ (2 * k)"
  shows "x AND push_bit k (mask k) = 0 \<longleftrightarrow> unat x < 2 ^ k"
proof -
  have small: "bit x i \<Longrightarrow> i < 2 * k" for i
  proof (rule ccontr)
    assume "bit x i" "\<not> i < 2 * k"
    then have "unat x < 2 ^ i"
      using assms by (meson less_le_trans not_less one_le_numeral power_increasing)
    then show False using \<open>bit x i\<close> by (simp add: bit_word_unat)
  qed
  have "x AND push_bit k (mask k) = 0 \<longleftrightarrow> drop_bit k x = 0"
  proof
    assume z: "x AND push_bit k (mask k) = 0"
    show "drop_bit k x = 0"
    proof (rule bit_word_eqI)
      fix n assume "n < LENGTH('a)"
      have "\<not> bit (x AND push_bit k (mask k)) (k + n)" by (simp add: z)
      then show "bit (drop_bit k x) n = bit 0 n"
        using small [of "k + n"] by (auto simp: bit_simps dest: bit_imp_le_length)
    qed
  next
    assume z: "drop_bit k x = 0"
    show "x AND push_bit k (mask k) = 0"
    proof (rule bit_word_eqI)
      fix n assume "n < LENGTH('a)"
      have "\<not> bit (drop_bit k x) (n - k)" by (simp add: z)
      then show "bit (x AND push_bit k (mask k)) n = bit 0 n"
        by (auto simp: bit_simps)
    qed
  qed
  also have "\<dots> \<longleftrightarrow> unat x < 2 ^ k"
    by (simp add: word_eq_0_unat unat_drop_bit_div div_eq_0_iff)
  finally show ?thesis .
qed

text \<open>What a halving cascade keeps: the current value is the input shifted by the count.\<close>

definition halved :: "'a::len word \<Rightarrow> nat \<Rightarrow> nat \<times> 'a word \<Rightarrow> bool" where
  "halved x0 k s \<longleftrightarrow> drop_bit (fst s) x0 = snd s \<and> snd s \<noteq> 0 \<and> unat (snd s) < 2 ^ k"

lemma halved_step:
  assumes "halved x0 (2 * k) s" and "m = push_bit k (mask k)"
  shows "halved x0 k (halve_step m k s)"
proof (cases s)
  case (Pair y x)
  with assms have x: "drop_bit y x0 = x" "x \<noteq> 0" "unat x < 2 ^ (2 * k)"
    by (auto simp: halved_def)
  have "unat (drop_bit k x) < 2 ^ k"
    using x(3) by (simp add: unat_drop_bit_div less_mult_imp_div_less mult_2 power_add)
  moreover have "drop_bit (y + k) x0 = drop_bit k x"
    by (simp add: x(1) [symmetric] add.commute)
  moreover have "drop_bit k x \<noteq> 0" if "\<not> unat x < 2 ^ k"
    using that by (simp add: word_eq_0_unat unat_drop_bit_div div_eq_0_iff)
  ultimately show ?thesis
    using x and_field_eq_0 [OF x(3)] assms(2) by (auto simp: Pair halved_def halve_step_def)
qed

lemma halved_last:
  assumes "halved x0 1 s"
  shows "2 ^ fst s \<le> unat x0 \<and> unat x0 < 2 ^ (fst s + 1)"
proof -
  have "unat (snd s) = 1"
    using assms by (auto simp: halved_def word_eq_0_unat)
  then have "unat x0 div 2 ^ fst s = 1"
    using assms by (metis halved_def unat_drop_bit_div)
  then show ?thesis
    by (metis One_nat_def Suc_1 add.commute div_less_iff_less_mult div_eq_0_iff lessI mult_1 not_less plus_1_eq_Suc power_Suc zero_less_numeral zero_less_power zero_neq_one)
qed

lemma fst_last: "fst (if snd s AND m \<noteq> 0 then (fst s + 1, snd s) else s) = fst (halve_step m 1 s)"
  by (cases s) (simp add: halve_step_def)

lemmas field_masks = mask_eq_exp_minus_1 push_bit_eq_mult

lemma halved_cascade_u64:
  fixes s :: "nat \<times> u64"
  shows "halved x 64 s \<Longrightarrow> halved x 32 (halve_step 0xffffffff00000000 32 s)"
    "halved x 32 s \<Longrightarrow> halved x 16 (halve_step 0xffff0000 16 s)"
    "halved x 16 s \<Longrightarrow> halved x 8 (halve_step 0xff00 8 s)"
    "halved x 8 s \<Longrightarrow> halved x 4 (halve_step 0xf0 4 s)"
    "halved x 4 s \<Longrightarrow> halved x 2 (halve_step 0xc 2 s)"
    "halved x 2 s \<Longrightarrow> halved x 1 (halve_step 2 1 s)"
  by (rule halved_step; simp add: field_masks)+

lemma halved_cascade_u32:
  fixes s :: "nat \<times> u32"
  shows "halved x 32 s \<Longrightarrow> halved x 16 (halve_step 0xffff0000 16 s)"
    "halved x 16 s \<Longrightarrow> halved x 8 (halve_step 0xff00 8 s)"
    "halved x 8 s \<Longrightarrow> halved x 4 (halve_step 0xf0 4 s)"
    "halved x 4 s \<Longrightarrow> halved x 2 (halve_step 0xc 2 s)"
    "halved x 2 s \<Longrightarrow> halved x 1 (halve_step 2 1 s)"
  by (rule halved_step; simp add: field_masks)+

lemma halved_start: "x \<noteq> 0 \<Longrightarrow> halved x LENGTH('a) (0, x)" for x :: "'a::len word"
  by (simp add: halved_def)

lemma floorLog2_u64_halved:
  assumes "x \<noteq> 0"
  shows "\<exists>s. floorLog2_u64 x = Inr (fst s) \<and> halved x 1 s"
proof (intro exI conjI)
  let ?s = "halve_step 2 1 (halve_step 0xc 2 (halve_step 0xf0 4 (halve_step 0xff00 8
    (halve_step 0xffff0000 16 (halve_step 0xffffffff00000000 32 (0, x))))))"
  show "floorLog2_u64 x = Inr (fst ?s)"
    using assms by (simp add: floorLog2_u64_def Let_def fst_last word_gt_0)
  show "halved x 1 ?s"
    using halved_start [OF assms] by (intro halved_cascade_u64) simp
qed

lemma floorLog2_u32_halved:
  assumes "x \<noteq> 0"
  shows "\<exists>s. floorLog2_u32 x = Inr (fst s) \<and> halved x 1 s"
proof (intro exI conjI)
  let ?s = "halve_step 2 1 (halve_step 0xc 2 (halve_step 0xf0 4 (halve_step 0xff00 8
    (halve_step 0xffff0000 16 (0, x)))))"
  show "floorLog2_u32 x = Inr (fst ?s)"
    using assms by (simp add: floorLog2_u32_def Let_def fst_last word_gt_0)
  show "halved x 1 ?s"
    using halved_start [OF assms] by (intro halved_cascade_u32) simp
qed

lemma halved_unique:
  assumes "halved x 1 s" and "2 ^ k \<le> unat x" and "unat x < 2 ^ (k + 1)"
  shows "fst s = k"
proof -
  from halved_last [OF assms(1)] assms(2,3)
  have "(2::nat) ^ k < 2 ^ (fst s + 1)" "(2::nat) ^ fst s < 2 ^ (k + 1)" by linarith+
  then have "k < fst s + 1" "fst s < k + 1"
    using power_less_imp_less_exp [of "2::nat" k "fst s + 1"]
      power_less_imp_less_exp [of "2::nat" "fst s" "k + 1"] by linarith+
  then show ?thesis by simp
qed

lemma floorLog2_u64_eqI:
  assumes "2 ^ k \<le> unat x" and "unat x < 2 ^ (k + 1)"
  shows "floorLog2_u64 x = Inr k"
proof -
  from assms(1) have "x \<noteq> 0"
    by (cases "x = 0") auto
  from floorLog2_u64_halved [OF this] show ?thesis
    using halved_unique [OF _ assms] by auto
qed

lemma floorLog2_u32_eqI:
  assumes "2 ^ k \<le> unat x" and "unat x < 2 ^ (k + 1)"
  shows "floorLog2_u32 x = Inr k"
proof -
  from assms(1) have "x \<noteq> 0"
    by (cases "x = 0") auto
  from floorLog2_u32_halved [OF this] show ?thesis
    using halved_unique [OF _ assms] by auto
qed

lemma floorLog2_pow2:
  "k < 64 \<Longrightarrow> floorLog2_u64 (2 ^ k) = Inr k"
  "k < 32 \<Longrightarrow> floorLog2_u32 (2 ^ k) = Inr k"
  by (rule floorLog2_u64_eqI floorLog2_u32_eqI; simp add: word_pow2_unat)+

lemma bmask_eq: "n \<le> 64 \<Longrightarrow> bmask n = mask n"
  by (auto simp: bmask_def mask_eq_exp_minus_1 push_bit_eq_mult)

lemma bit_bits:
  "l \<le> f \<Longrightarrow> f < 64 \<Longrightarrow> bit (bits v f l) i \<longleftrightarrow> i \<le> f - l \<and> bit v (i + l)"
  by (auto simp: bits_def bmask_eq bit_simps add.commute)

lemma bit_mbits:
  "l \<le> f \<Longrightarrow> f < 64 \<Longrightarrow> bit (mbits v f l) i \<longleftrightarrow> l \<le> i \<and> i \<le> f \<and> bit v i"
  by (auto simp: mbits_def bmask_eq bit_simps dest: bit_imp_le_length)

lemma bit_insertBits:
  assumes "l \<le> f" and "f < 64" and "i < 64"
  shows "bit (insertBits v f l b) i \<longleftrightarrow> (if l \<le> i \<and> i \<le> f then bit b (i - l) else bit v i)"
  using assms by (auto simp: insertBits_def bmask_eq bit_simps Let_def)


text \<open>The cascade of \<open>findMsbSet\<close> is the cascade of \<open>floorLog2\<close>.\<close>

lemma msb_step_halve:
  assumes "halved x (2 * k) s" and "2 * k \<le> 64" and "0 < k"
  shows "msb_step (2 * k - 1) k k s = halve_step (push_bit k (mask k)) k s"
proof (cases s)
  case (Pair y v)
  with assms have v: "unat v < 2 ^ (2 * k)" by (simp add: halved_def)
  have "unat (drop_bit k v) < 2 ^ k"
    using v by (simp add: unat_drop_bit_div less_mult_imp_div_less mult_2 power_add)
  then have "drop_bit k v AND mask k = drop_bit k v"
    by (metis mod_less unat_and_mask word_unat_eq_iff)
  moreover have "2 * k - 1 - k + 1 = k" using assms(3) by simp
  ultimately have "bits v (2 * k - 1) k = drop_bit k v"
    using assms(2) by (simp add: bits_def bmask_eq)
  moreover have "drop_bit k v = 0 \<longleftrightarrow> unat v < 2 ^ k"
    by (simp add: word_eq_0_unat unat_drop_bit_div div_eq_0_iff)
  ultimately show ?thesis
    using and_field_eq_0 [OF v] by (simp add: Pair msb_step_def halve_step_def)
qed

lemma msb_cascade:
  "halved x 64 s \<Longrightarrow> halved x 32 (msb_step 63 32 32 s)"
  "halved x 32 s \<Longrightarrow> halved x 16 (msb_step 31 16 16 s)"
  "halved x 16 s \<Longrightarrow> halved x 8 (msb_step 15 8 8 s)"
  "halved x 8 s \<Longrightarrow> halved x 4 (msb_step 7 4 4 s)"
  "halved x 4 s \<Longrightarrow> halved x 2 (msb_step 3 2 2 s)"
  "halved x 2 s \<Longrightarrow> halved x 1 (msb_step 1 1 1 s)"
  using msb_step_halve [of x 32 s] msb_step_halve [of x 16 s] msb_step_halve [of x 8 s]
    msb_step_halve [of x 4 s] msb_step_halve [of x 2 s] msb_step_halve [of x 1 s]
    halved_step [of x 32 s] halved_step [of x 16 s] halved_step [of x 8 s]
    halved_step [of x 4 s] halved_step [of x 2 s] halved_step [of x 1 s]
  by simp_all

lemma fst_msb_last:
  "(if bits (snd s) 1 1 \<noteq> 0 then fst s + 1 else fst s) = fst (msb_step 1 1 1 s)"
  by (cases s) (simp add: msb_step_def)

lemma findMsbSet_halved:
  assumes "x \<noteq> 0"
  shows "\<exists>s. findMsbSet x = fst s \<and> halved x 1 s"
proof (intro exI conjI)
  let ?s = "msb_step 3 2 2 (msb_step 7 4 4 (msb_step 15 8 8
                     (msb_step 31 16 16 (msb_step 63 32 32 (0, x)))))"
  show "findMsbSet x = fst (msb_step 1 1 1 ?s)"
    using assms by (simp add: findMsbSet_def Let_def fst_msb_last del: One_nat_def)
  show "halved x 1 (msb_step 1 1 1 ?s)"
    using halved_start [OF assms] by (intro msb_cascade) simp
qed


text \<open>The least set bit: everything below the count has been shifted out and was zero.\<close>

definition low_zeros :: "u64 \<Rightarrow> nat \<Rightarrow> nat \<times> u64 \<Rightarrow> bool" where
  "low_zeros x0 k s \<longleftrightarrow> drop_bit (fst s) x0 = snd s \<and> take_bit (fst s) x0 = 0
     \<and> take_bit k (snd s) \<noteq> 0"

lemma bits_low: "k \<le> 64 \<Longrightarrow> 0 < k \<Longrightarrow> bits v (k - 1) 0 = take_bit k v"
  by (simp add: bits_def bmask_eq take_bit_eq_mask)

lemma take_bit_add_eq_0:
  fixes x :: u64
  assumes "take_bit n x = 0" and "take_bit k (drop_bit n x) = 0"
  shows "take_bit (n + k) x = 0"
proof (rule bit_word_eqI)
  fix i assume "i < LENGTH(64)"
  have "\<not> bit (take_bit n x) i" "\<not> bit (take_bit k (drop_bit n x)) (i - n)"
    by (simp_all add: assms)
  then show "bit (take_bit (n + k) x) i = bit 0 i"
    by (auto simp: bit_simps)
qed

lemma take_bit_drop_bit_nonzero:
  fixes v :: u64
  assumes "take_bit (2 * k) v \<noteq> 0" and "take_bit k v = 0"
  shows "take_bit k (drop_bit k v) \<noteq> 0"
proof
  assume "take_bit k (drop_bit k v) = 0"
  with assms(2) have "take_bit (k + k) v = 0" by (rule take_bit_add_eq_0)
  with assms(1) show False by (simp add: mult_2)
qed

lemma low_zeros_step:
  assumes "low_zeros x (2 * k) s" and "k \<le> 32" and "0 < k"
  shows "low_zeros x k (lsb_step (k - 1) k s)"
proof (cases s)
  case (Pair r v)
  with assms have v: "drop_bit r x = v" "take_bit r x = 0" "take_bit (2 * k) v \<noteq> 0"
    by (auto simp: low_zeros_def)
  have b: "bits v (k - 1) 0 = take_bit k v" using assms bits_low [of k v] by simp
  have "take_bit (r + k) x = 0" if "take_bit k v = 0"
    using take_bit_add_eq_0 [of r x k] v that by simp
  then show ?thesis
    using v b take_bit_drop_bit_nonzero [OF v(3)]
    by (auto simp: Pair low_zeros_def lsb_step_def add.commute simp flip: drop_bit_drop_bit)
qed

lemma lsb_cascade:
  "low_zeros x 64 s \<Longrightarrow> low_zeros x 32 (lsb_step 31 32 s)"
  "low_zeros x 32 s \<Longrightarrow> low_zeros x 16 (lsb_step 15 16 s)"
  "low_zeros x 16 s \<Longrightarrow> low_zeros x 8 (lsb_step 7 8 s)"
  "low_zeros x 8 s \<Longrightarrow> low_zeros x 4 (lsb_step 3 4 s)"
  "low_zeros x 4 s \<Longrightarrow> low_zeros x 2 (lsb_step 1 2 s)"
  "low_zeros x 2 s \<Longrightarrow> low_zeros x 1 (lsb_step 0 1 s)"
  using low_zeros_step [of x 32 s] low_zeros_step [of x 16 s] low_zeros_step [of x 8 s]
    low_zeros_step [of x 4 s] low_zeros_step [of x 2 s] low_zeros_step [of x 1 s]
  by simp_all

lemma fst_lsb_last:
  "(if bits (snd s) 0 0 = 0 then fst s + 1 else fst s) = fst (lsb_step 0 1 s)"
  by (cases s) (simp add: lsb_step_def)

lemma findLsbSet_low_zeros:
  assumes "x \<noteq> 0"
  shows "\<exists>s. findLsbSet x = fst s \<and> low_zeros x 1 s"
proof (intro exI conjI)
  let ?s = "lsb_step 1 2 (lsb_step 3 4 (lsb_step 7 8
                     (lsb_step 15 16 (lsb_step 31 32 (0, x)))))"
  show "findLsbSet x = fst (lsb_step 0 1 ?s)"
    using assms by (simp add: findLsbSet_def Let_def fst_lsb_last del: One_nat_def)
  have "low_zeros x 64 (0, x)" using assms by (simp add: low_zeros_def take_bit_word_eq_self)
  then show "low_zeros x 1 (lsb_step 0 1 ?s)" by (intro lsb_cascade)
qed

section \<open>Powers of two, rounding, primes\<close>

lemma isPowerOf2_pow2:
  assumes "k < LENGTH('a)" shows "isPowerOf2 (2 ^ k :: 'a::len word)"
proof -
  have "leastSigBit (2 ^ k :: 'a word) = 2 ^ k"
    by (rule bit_word_eqI) (auto simp: leastSigBit_def word_pow2_minus_1 bit_simps)
  with assms show ?thesis by (simp add: isPowerOf2_def word_eq_0_unat word_pow2_unat)
qed

lemma isPowerOf2_pow2D:
  fixes n :: "'a::len word"
  assumes "isPowerOf2 n"
  obtains k where "k < LENGTH('a)" and "n = 2 ^ k"
proof -
  have n0: "unat n \<noteq> 0" and eq: "n AND NOT (n - 1) = n"
    using assms by (auto simp: isPowerOf2_def leastSigBit_def word_eq_0_unat)
  obtain k where k: "2 ^ k \<le> unat n" "unat n < 2 ^ (k + 1)"
    using ex_power_ivl1 [of 2 "unat n"] n0 by auto
  have len: "k < LENGTH('a)"
  proof (rule ccontr)
    assume "\<not> k < LENGTH('a)"
    then have "(2::nat) ^ LENGTH('a) \<le> 2 ^ k" by simp
    with k(1) show False using unsigned_less [of n, where ?'a = nat] by linarith
  qed
  have "unat n = 2 ^ k"
  proof (rule ccontr)
    assume "unat n \<noteq> 2 ^ k"
    then have "2 ^ k \<le> unat n - 1" "unat n - 1 < 2 ^ (k + 1)" using k by linarith+
    then have "(unat n - 1) div 2 ^ k = 1" "unat n div 2 ^ k = 1"
      using k by (simp_all add: div_nat_eqI)
    moreover have "unat (n - 1) = unat n - 1"
      using n0 by (simp add: unat_sub word_le_nat_alt)
    ultimately have "bit (n - 1) k" "bit n k" by (simp_all add: bit_word_unat)
    moreover have "bit (n AND NOT (n - 1)) k" using \<open>bit n k\<close> eq by simp
    ultimately show False by (simp add: bit_simps)
  qed
  then have "n = 2 ^ k" using len by (simp add: word_unat_eq_iff word_pow2_unat)
  with len show thesis by (rule that)
qed

lemma unat_and_not_mask:
  "unat (v AND NOT (mask k)) = 2 ^ k * (unat v div 2 ^ k)" for v :: "'a::len word"
proof -
  have "unat (v AND NOT (mask k)) = push_bit k (drop_bit k (unat v))"
    by (rule bit_eqI) (auto simp: bit_simps bit_unsigned_iff dest: bit_imp_le_length)
  then show ?thesis
    by (simp add: push_bit_eq_mult drop_bit_eq_div mult.commute)
qed

lemma unat_roundDown: "unat (roundDown v (2 ^ k)) = 2 ^ k * (unat v div 2 ^ k)"
  by (simp add: roundDown_def Let_def word_pow2_minus_1 unat_and_not_mask)

lemma unat_roundUp:
  fixes v :: "'a::len word"
  assumes "unat v + 2 ^ k \<le> 2 ^ LENGTH('a)" and "k < LENGTH('a)"
  shows "unat (roundUp v (2 ^ k)) = 2 ^ k * ((unat v + 2 ^ k - 1) div 2 ^ k)"
proof -
  have "unat (mask k :: 'a word) = 2 ^ k - 1"
    using assms(2) by (simp add: word_pow2_unat unat_minus_one word_eq_0_unat flip: word_pow2_minus_1)
  moreover have "0 < (2::nat) ^ k" by simp
  with assms(1) have "unat v + (2 ^ k - 1) < 2 ^ LENGTH('a)" by linarith
  ultimately have "unat (v + mask k) = unat v + (2 ^ k - 1)"
    by (simp add: unat_word_ariths)
  then show ?thesis
    by (simp add: roundUp_def Let_def word_pow2_minus_1 unat_and_not_mask)
qed

definition prime_int :: "int \<Rightarrow> bool" where
  "prime_int n \<longleftrightarrow> 1 < n \<and> (\<forall>d \<in> {2..<n}. \<not> d dvd n)"

definition no_divisor_pair :: "int \<Rightarrow> int \<Rightarrow> bool" where
  "no_divisor_pair n c \<longleftrightarrow> (c * c \<le> n \<longrightarrow> \<not> c dvd n \<and> \<not> (c + 2) dvd n)"

lemma isPrime_loop_step:
  "isPrime_loop n i \<longleftrightarrow> (if i * i \<le> n then no_divisor_pair n i \<and> isPrime_loop n (i + 6) else True)"
  by (subst isPrime_loop.simps) (auto simp: no_divisor_pair_def dvd_eq_mod_eq_0)

lemma isPrime_loop_iff:
  assumes "0 < i"
  shows "isPrime_loop n i \<longleftrightarrow> (\<forall>c. i \<le> c \<and> c mod 6 = i mod 6 \<longrightarrow> no_divisor_pair n c)"
  using assms
proof (induction n i rule: isPrime_loop.induct)
  case (1 n i)
  have split: "(\<forall>c. i \<le> c \<and> c mod 6 = i mod 6 \<longrightarrow> Q c) \<longleftrightarrow>
      Q i \<and> (\<forall>c. i + 6 \<le> c \<and> c mod 6 = (i + 6) mod 6 \<longrightarrow> Q c)" for Q
  proof -
    have "c = i \<or> i + 6 \<le> c" if "i \<le> c" "c mod 6 = i mod 6" for c
      using that by presburger
    then show ?thesis by (smt (verit) mod_add_self2)
  qed
  show ?case
  proof (cases "i * i \<le> n")
    case False
    have "no_divisor_pair n c" if "i \<le> c" for c
    proof -
      have "i * i \<le> c * c" using 1(2) that by (intro mult_mono) auto
      with False show ?thesis by (simp add: no_divisor_pair_def)
    qed
    with False show ?thesis by (subst isPrime_loop_step) simp
  next
    case True
    show ?thesis
    proof (cases "no_divisor_pair n i")
      case nd: True
      then have "\<not> (n mod i = 0 \<or> n mod (i + 2) = 0)"
        using True by (simp add: no_divisor_pair_def dvd_eq_mod_eq_0)
      from "1.IH" [OF True this] 1(2) True nd show ?thesis
        by (subst isPrime_loop_step, subst split) simp
    next
      case nd: False
      with True show ?thesis by (subst isPrime_loop_step, subst split) simp
    qed
  qed
qed

lemma least_divisor:
  assumes "1 < n" and "\<not> prime_int n"
  obtains p where "2 \<le> p" "p dvd n" "p * p \<le> n" "p < n"
proof -
  define P where "P k \<longleftrightarrow> 2 \<le> k \<and> int k dvd n \<and> int k < n" for k
  obtain d where "d \<in> {2..<n}" "d dvd n" using assms by (auto simp: prime_int_def)
  then have "P (nat d)" by (auto simp: P_def)
  define p where "p = (LEAST k. P k)"
  have p: "P p" unfolding p_def using \<open>P (nat d)\<close> by (rule LeastI)
  obtain q where q: "n = int p * q" using p by (auto simp: P_def)
  have "0 < q"
  proof -
    have "0 < int p * q" using q assms(1) by linarith
    then show ?thesis using p by (auto simp: P_def zero_less_mult_iff)
  qed
  moreover have "q \<noteq> 1" using q p by (auto simp: P_def)
  ultimately have "2 \<le> q" by linarith
  moreover have "q < n" using q p \<open>0 < q\<close> by (simp add: P_def)
  ultimately have "P (nat q)" using q by (simp add: P_def)
  then have "p \<le> nat q" unfolding p_def by (rule Least_le)
  then have "int p \<le> q" using \<open>0 < q\<close> by linarith
  then have "int p * int p \<le> n" using q by (simp add: mult_left_mono)
  with p show thesis by (intro that [of "int p"]) (auto simp: P_def)
qed

lemma isPrime_iff:
  assumes "5 \<le> n" and "n mod 2 = 1" and "n mod 3 \<noteq> 0"
  shows "isPrime n \<longleftrightarrow> prime_int n"
proof -
  have eq: "isPrime n \<longleftrightarrow>
    (\<forall>c. 5 \<le> c \<and> c mod 6 = 5 \<and> c * c \<le> n \<longrightarrow> \<not> c dvd n \<and> \<not> (c + 2) dvd n)"
    using assms(1) isPrime_loop_iff [of 5 n] by (auto simp: isPrime_def no_divisor_pair_def)
  show ?thesis
  proof
    assume p: "isPrime n"
    show "prime_int n"
    proof (rule ccontr)
      assume "\<not> prime_int n"
      with assms(1) obtain p where d: "2 \<le> p" "p dvd n" "p * p \<le> n" 
        by (metis least_divisor less_le_trans one_less_numeral_iff semiring_norm(77) zless_add1_eq numeral_le_one_iff order.strict_trans1 not_less)
      have "p mod 2 = 1"
        using d(2) assms(2) by (metis dvd_trans even_iff_mod_2_eq_zero odd_iff_mod_2_eq_one)
      moreover have "p mod 3 \<noteq> 0" using d(2) assms(3) by (meson dvd_trans mod_0_imp_dvd dvd_imp_mod_0)
      ultimately have "p mod 6 = 5 \<or> p mod 6 = 1" by presburger
      then consider "p mod 6 = 5" | "p mod 6 = 1" by blast
      then show False
      proof cases
        case 1
        with d(1) have "5 \<le> p" by presburger
        with 1 d p eq show False by blast
      next
        case 2
        with d(1) have "7 \<le> p" by presburger
        then have "(p - 2) * (p - 2) \<le> p * p" by (simp add: mult_mono)
        moreover have "(p - 2) mod 6 = 5" using 2 by presburger
        ultimately show False using \<open>7 \<le> p\<close> d p eq [THEN iffD1, rule_format, of "p - 2"] by auto
      qed
    qed
  next
    assume pr: "prime_int n"
    show "isPrime n" unfolding eq
    proof (intro allI impI)
      fix c assume c: "5 \<le> c \<and> c mod 6 = 5 \<and> c * c \<le> n"
      then have "5 * c \<le> c * c" by (simp add: mult_right_mono)
      with c have "c < n" "c + 2 < n" by linarith+
      with c pr show "\<not> c dvd n \<and> \<not> (c + 2) dvd n" by (auto simp: prime_int_def)
    qed
  qed
qed

lemma isPrime_small: "n < 25 \<Longrightarrow> isPrime n"
  by (subst isPrime_def, subst isPrime_loop.simps) simp

lemma prevPrime_loop_step:
  "prevPrime_loop n d = (if isPrime n then Some n else prevPrime_loop (n - d) (6 - d))"
  by (rule prevPrime_loop.simps)

lemma prevPrime_loop_returns:
  assumes "d = 2 \<or> d = 4"
  shows "\<exists>m. prevPrime_loop n d = Some m \<and> m \<le> n \<and> isPrime m"
  using assms
proof (induction "nat n" arbitrary: n d rule: less_induct)
  case less
  show ?case
  proof (cases "isPrime n")
    case True
    then show ?thesis by (subst prevPrime_loop_step) simp
  next
    case False
    then have "25 \<le> n" using isPrime_small [of n] by linarith
    with less.prems have "nat (n - d) < nat n" "6 - d = 2 \<or> 6 - d = 4" by auto
    from less.hyps [OF this] obtain m
      where "prevPrime_loop (n - d) (6 - d) = Some m \<and> m \<le> n - d \<and> isPrime m" by blast
    with False less.prems show ?thesis by (subst prevPrime_loop_step) auto
  qed
qed

lemma prevPrime_loop_correct:
  assumes "5 \<le> n" and "(n mod 6 = 1 \<and> d = 2) \<or> (n mod 6 = 5 \<and> d = 4)"
  shows "\<exists>m. prevPrime_loop n d = Some m \<and> m \<le> n \<and> prime_int m
     \<and> (\<forall>k. m < k \<and> k \<le> n \<longrightarrow> \<not> prime_int k)"
  using assms
proof (induction "nat n" arbitrary: n d rule: less_induct)
  case less
  have "n mod 2 = 1" "n mod 3 \<noteq> 0" using less.prems(2) by presburger+
  note iff = isPrime_iff [OF less.prems(1) this]
  show ?case
  proof (cases "isPrime n")
    case True
    then show ?thesis using iff by (subst prevPrime_loop_step) auto
  next
    case False
    then have n25: "25 \<le> n" using isPrime_small [of n] by linarith
    have d: "((n - d) mod 6 = 1 \<and> 6 - d = 2) \<or> ((n - d) mod 6 = 5 \<and> 6 - d = 4)"
      using less.prems(2) by presburger
    have "nat (n - d) < nat n" "5 \<le> n - d" using n25 less.prems(2) by auto
    from less.hyps [OF this d] obtain m where m: "prevPrime_loop (n - d) (6 - d) = Some m"
      "m \<le> n - d" "prime_int m" "\<And>k. m < k \<Longrightarrow> k \<le> n - d \<Longrightarrow> \<not> prime_int k" by blast
    have between: "\<not> prime_int k" if "n - d < k" "k < n" for k
    proof -
      have "2 dvd k \<or> 3 dvd k" using that less.prems(2) by presburger
      moreover have "3 < k" using that n25 less.prems(2) by linarith
      ultimately show ?thesis unfolding prime_int_def by force
    qed
    have "\<not> prime_int k" if "m < k" "k \<le> n" for k
      using that m(4) [of k] between [of k] False iff by (cases "k \<le> n - d"; cases "k = n") auto
    with m False less.prems(2) show ?thesis by (subst prevPrime_loop_step) auto
  qed
qed

section \<open>Properties\<close>

text \<open>\<open>floorLog2\<close> on a nonzero 64-bit value does not stop and returns the position of the
  leading one: \<open>2 ^ y <= x < 2 ^ (y + 1)\<close>.\<close>

theorem floorLog2_bounds:
  assumes "x \<noteq> 0"
  shows "\<exists>y. floorLog2_u64 x = Inr y \<and> 2 ^ y \<le> unat x \<and> unat x < 2 ^ (y + 1)"
  using floorLog2_u64_halved [OF assms] halved_last by blast

theorem floorLog2_bounds_witness:
  "\<exists>y. floorLog2_u64 1000 = Inr y \<and> 2 ^ y \<le> unat (1000 :: u64) \<and> unat (1000 :: u64) < 2 ^ (y + 1)"
  by (rule floorLog2_bounds) simp

text \<open>the two cascades of the code base agree: \<open>findMsbSet\<close> of \<open>bitfield.hh\<close> returns the
  logarithm that \<open>floorLog2\<close> of \<open>intmath.hh\<close> returns, for every nonzero value.\<close>

theorem findMsbSet_eq_floorLog2:
  assumes "x \<noteq> 0"
  shows "floorLog2_u64 x = Inr (findMsbSet x)"
proof -
  obtain s where s: "findMsbSet x = fst s" "halved x 1 s"
    using findMsbSet_halved [OF assms] by blast
  show ?thesis unfolding s(1) using halved_last [OF s(2)] by (intro floorLog2_u64_eqI) auto
qed

theorem findMsbSet_eq_floorLog2_witness: "floorLog2_u64 48 = Inr (findMsbSet 48)"
  by (rule findMsbSet_eq_floorLog2) simp

text \<open>\<open>findLsbSet\<close> returns the position of the least set bit: that bit is set and no bit
  below it is.\<close>

theorem findLsbSet_least:
  assumes "x \<noteq> 0"
  shows "bit x (findLsbSet x) \<and> (\<forall>i < findLsbSet x. \<not> bit x i)"
proof -
  obtain s where s: "findLsbSet x = fst s" "low_zeros x 1 s"
    using findLsbSet_low_zeros [OF assms] by blast
  then have "take_bit 1 (drop_bit (fst s) x) \<noteq> 0" and z: "take_bit (fst s) x = 0"
    by (auto simp: low_zeros_def)
  then have "bit x (fst s)"
    by (simp add: take_bit_Suc bit_iff_odd_drop_bit odd_iff_mod_2_eq_one)
  moreover have "\<not> bit x i" if "i < fst s" for i
  proof -
    have "\<not> bit (take_bit (fst s) x) i" by (simp add: z)
    with that show ?thesis by (simp add: bit_take_bit_iff)
  qed
  ultimately show ?thesis using s by simp
qed

theorem findLsbSet_least_witness:
  "bit (40 :: u64) (findLsbSet 40)"
  using findLsbSet_least [of 40] by simp

text \<open>writing a bit field and reading it back returns the low bits of the written value,
  and every bit outside the field keeps its value.\<close>

theorem insertBits_bits:
  assumes "l \<le> f" and "f < 64"
  shows "bits (insertBits v f l b) f l = bits b (f - l) 0
    \<and> (\<forall>i < 64. i < l \<or> f < i \<longrightarrow> bit (insertBits v f l b) i = bit v i)"
proof
  show "bits (insertBits v f l b) f l = bits b (f - l) 0"
  proof (rule bit_word_eqI)
    fix n assume "n < LENGTH(64)"
    show "bit (bits (insertBits v f l b) f l) n = bit (bits b (f - l) 0) n"
      using assms by (cases "n \<le> f - l") (auto simp: bit_bits bit_insertBits)
  qed
  show "\<forall>i < 64. i < l \<or> f < i \<longrightarrow> bit (insertBits v f l b) i = bit v i"
    using assms by (auto simp: bit_insertBits)
qed

theorem insertBits_bits_witness:
  "bits (insertBits 0xff 11 4 0xab) 11 4 = bits 0xab (11 - 4) 0
    \<and> bit (insertBits 0xff 11 4 0xab) 3 = bit (0xff :: u64) 3"
  using insertBits_bits [of 4 11 "0xff" "0xab"] by simp

text \<open>\<open>prevPrime\<close> returns for every argument, and the number it returns is at most the
  argument and passes \<open>isPrime\<close>.\<close>

theorem prevPrime_returns: "\<exists>m. prevPrime n = Some m \<and> m \<le> n \<and> isPrime m"
proof -
  define n1 where "n1 = (if n mod 2 = 0 then n - 1 else n)"
  have le: "n1 \<le> n" by (simp add: n1_def)
  have rem: "c_rem n1 3 = 0 \<or> c_rem n1 3 = 1 \<or> c_rem n1 3 = 2 \<or> n1 < 0"
  proof (cases "n1 < 0")
    case False
    then have "c_rem n1 3 = n1 mod 3" by (cases "n1 = 0") (auto simp: c_rem_def)
    then show ?thesis by presburger
  qed simp
  have neg: "\<exists>m. prevPrime_loop n1 d = Some m \<and> m \<le> n1 \<and> isPrime m" if "n1 < 0" for d
    using that isPrime_small [of n1] by (subst prevPrime_loop_step) auto
  have pos: "\<exists>m. prevPrime_loop k d = Some m \<and> m \<le> n \<and> isPrime m"
    if "k \<le> n1" "d = 2 \<or> d = 4" for k d
    using prevPrime_loop_returns [OF that(2), of k] that(1) le by (meson order_trans)
  show ?thesis
    using rem neg [of "c_rem n1 3"] pos [of "n1 - 2" 2] pos [of n1 4] pos [of n1 2] le
    unfolding prevPrime_def Let_def n1_def [symmetric]
    by (auto intro: order_trans)
qed

text \<open>where the odd candidate \<open>prevPrime\<close> starts from is divisible by three, the result is the
  largest prime not above the argument.  (For the other residues the stride of the search is
  the wrong one of 2 and 4, and composite numbers are returned: \<open>prevPrime_composite\<close>.)\<close>

theorem prevPrime_largest:
  assumes "9 \<le> n" and "n mod 6 = 3 \<or> n mod 6 = 4"
  shows "\<exists>m. prevPrime n = Some m \<and> m \<le> n \<and> prime_int m
    \<and> (\<forall>k. m < k \<and> k \<le> n \<longrightarrow> \<not> prime_int k)"
proof -
  define n1 where "n1 = (if n mod 2 = 0 then n - 1 else n)"
  have n1: "n1 mod 6 = 3" "9 \<le> n1" "n1 \<le> n" "n \<le> n1 + 1" "n = n1 \<or> 2 dvd n"
    using assms unfolding n1_def by presburger+
  have "c_rem n1 3 = n1 mod 3" using n1(2) by (simp add: c_rem_def)
  also have "\<dots> = 0" using n1(1) by presburger
  finally have pp: "prevPrime n = prevPrime_loop (n1 - 2) 2"
    by (simp add: prevPrime_def Let_def n1_def [symmetric])
  have "5 \<le> n1 - 2" "(n1 - 2) mod 6 = 1" using n1 by presburger+
  then obtain m where m: "prevPrime_loop (n1 - 2) 2 = Some m" "m \<le> n1 - 2" "prime_int m"
    "\<And>k. m < k \<Longrightarrow> k \<le> n1 - 2 \<Longrightarrow> \<not> prime_int k"
    using prevPrime_loop_correct [of "n1 - 2" 2] by blast
  moreover have "\<not> prime_int k" if "n1 - 2 < k" "k \<le> n" for k
  proof -
    have "2 dvd k \<or> 3 dvd k" using that n1 by presburger
    moreover have "3 < k" using that n1 by linarith
    ultimately show ?thesis unfolding prime_int_def by force
  qed
  ultimately have "\<not> prime_int k" if "m < k" "k \<le> n" for k
    using that by (cases "k \<le> n1 - 2") auto
  then show ?thesis using pp m(1-3) n1(3) by (intro exI [of _ m]) auto
qed

theorem prevPrime_largest_witness:
  "\<exists>m. prevPrime 27 = Some m \<and> m \<le> 27 \<and> prime_int m"
  using prevPrime_largest [of 27] by auto

lemma prevPrime_composite: "prevPrime 25 = Some 21 \<and> prevPrime 35 = Some 33"
  by (simp add: prevPrime_def c_rem_def prevPrime_loop.simps isPrime_def isPrime_loop.simps)

end
