(* ===== verification/Event_Queue.thy ===== *)
theory Event_Queue
  imports Gem5_Prelude "HOL-Library.Product_Lexorder"
begin

text \<open>
  The simulator's event queue (\<open>src/sim/eventq.hh\<close>, \<open>src/sim/eventq.cc\<close>): a linked list of
  bins, one per (time, priority), each bin a stack linked through \<open>nextInBin\<close>.  The first part
  translates the pointer code as it is, on a store of events addressed by identity (\<^typ>\<open>nat\<close>),
  stale \<open>nextBin\<close> pointers included.  The second part relates the store to a list of stacks and
  proves that every operation refines the corresponding one on that list.
  \<open>Tick\<close> is \<open>int64_t\<close>, here \<^typ>\<open>int\<close>; the loops over \<open>nextBin\<close> and \<open>nextInBin\<close> are
  \<open>partial_function\<close>s, with \<^term>\<open>None\<close> for a loop that never ends on a cyclic list.
\<close>

section \<open>Events and their flags\<close>

type_synonym event_id = nat

record evq =
  head :: "event_id option"
  nextBin :: "event_id \<Rightarrow> event_id option"
  nextInBin :: "event_id \<Rightarrow> event_id option"
  ev_when :: "event_id \<Rightarrow> int"
  priority :: "event_id \<Rightarrow> int"
  flags :: "event_id \<Rightarrow> u16"
  freed :: "event_id \<Rightarrow> bool"
  curTick :: int
  isMain :: bool

definition Squashed :: u16 where "Squashed = 0x0001"
definition Scheduled :: u16 where "Scheduled = 0x0002"
definition AutoDelete :: u16 where "AutoDelete = 0x0004"
definition IsExitEvent :: u16 where "IsExitEvent = 0x0010"
definition IsMainQueue :: u16 where "IsMainQueue = 0x0020"
definition Initialized :: u16 where "Initialized = 0x7a40"
definition InitMask :: u16 where "InitMask = 0xffc0"

lemmas flag_defs = Squashed_def Scheduled_def AutoDelete_def IsExitEvent_def IsMainQueue_def
  Initialized_def InitMask_def

definition isSet :: "u16 \<Rightarrow> u16 \<Rightarrow> bool" where
  "isSet fs m \<longleftrightarrow> fs AND m \<noteq> 0"

definition setFlag :: "evq \<Rightarrow> event_id \<Rightarrow> u16 \<Rightarrow> evq" where
  "setFlag q e m = q\<lparr>flags := (flags q)(e := flags q e OR m)\<rparr>"

definition clearFlag :: "evq \<Rightarrow> event_id \<Rightarrow> u16 \<Rightarrow> evq" where
  "clearFlag q e m = q\<lparr>flags := (flags q)(e := flags q e AND NOT m)\<rparr>"

definition scheduled :: "evq \<Rightarrow> event_id \<Rightarrow> bool" where
  "scheduled q e = isSet (flags q e) Scheduled"

definition squashed :: "evq \<Rightarrow> event_id \<Rightarrow> bool" where
  "squashed q e = isSet (flags q e) Squashed"

definition initialized :: "evq \<Rightarrow> event_id \<Rightarrow> bool" where
  "initialized q e \<longleftrightarrow> flags q e AND InitMask = Initialized"

text \<open>The comparison operators of \<open>eventq.hh\<close>.\<close>

definition ev_less :: "evq \<Rightarrow> event_id \<Rightarrow> event_id \<Rightarrow> bool" where
  "ev_less q l r \<longleftrightarrow> ev_when q l < ev_when q r
     \<or> (ev_when q l = ev_when q r \<and> priority q l < priority q r)"

definition ev_le :: "evq \<Rightarrow> event_id \<Rightarrow> event_id \<Rightarrow> bool" where
  "ev_le q l r \<longleftrightarrow> ev_when q l < ev_when q r
     \<or> (ev_when q l = ev_when q r \<and> priority q l \<le> priority q r)"

definition ev_eq :: "evq \<Rightarrow> event_id \<Rightarrow> event_id \<Rightarrow> bool" where
  "ev_eq q l r \<longleftrightarrow> ev_when q l = ev_when q r \<and> priority q l = priority q r"

section \<open>Insertion and removal\<close>

definition insertBefore :: "evq \<Rightarrow> event_id \<Rightarrow> event_id option \<Rightarrow> evq" where
  "insertBefore q event cur =
     (case cur of
        None \<Rightarrow> q\<lparr>nextBin := (nextBin q)(event := None),
                   nextInBin := (nextInBin q)(event := None)\<rparr>
      | Some c \<Rightarrow>
          if ev_less q event c
          then q\<lparr>nextBin := (nextBin q)(event := Some c),
                 nextInBin := (nextInBin q)(event := None)\<rparr>
          else q\<lparr>nextBin := (nextBin q)(event := nextBin q c),
                 nextInBin := (nextInBin q)(event := Some c)\<rparr>)"

text \<open>The walk \<open>while (curr && *curr < *event)\<close>, shared by \<open>insert\<close> and \<open>remove\<close>.\<close>

partial_function (option) find_bin ::
  "evq \<Rightarrow> event_id \<Rightarrow> event_id \<Rightarrow> event_id option \<Rightarrow> (event_id \<times> event_id option) option" where
  "find_bin q event prev cur =
     (if cur \<noteq> None \<and> ev_less q (the cur) event
      then find_bin q event (the cur) (nextBin q (the cur))
      else Some (prev, cur))"

definition eq_insert :: "evq \<Rightarrow> event_id \<Rightarrow> evq option" where
  "eq_insert q event =
     (case head q of
        None \<Rightarrow> Some ((insertBefore q event None)\<lparr>head := Some event\<rparr>)
      | Some h \<Rightarrow>
          if ev_le q event h
          then Some ((insertBefore q event (Some h))\<lparr>head := Some event\<rparr>)
          else (case find_bin q event h (nextBin q h) of
                  None \<Rightarrow> None
                | Some (prev, cur) \<Rightarrow>
                    (let q' = insertBefore q event cur
                     in Some (q'\<lparr>nextBin := (nextBin q')(prev := Some event)\<rparr>))))"

text \<open>The walk \<open>while (event != next)\<close> of \<open>removeItem\<close>: the element before \<open>event\<close>.\<close>

partial_function (option) find_in_bin ::
  "evq \<Rightarrow> event_id \<Rightarrow> event_id \<Rightarrow> event_id option \<Rightarrow> event_id res option" where
  "find_in_bin q event cur next =
     (if next = Some event then Some (Inr cur)
      else if next = None then Some (Inl Panic)
      else find_in_bin q event (the next) (nextInBin q (the next)))"

definition removeItem ::
  "evq \<Rightarrow> event_id \<Rightarrow> event_id \<Rightarrow> (evq \<times> event_id option) res option" where
  "removeItem q event top_ev =
     (let next = nextInBin q top_ev
      in if event = top_ev
         then (case next of
                 None \<Rightarrow> Some (Inr (q, nextBin q top_ev))
               | Some n \<Rightarrow> Some (Inr (q\<lparr>nextBin := (nextBin q)(n := nextBin q top_ev)\<rparr>, Some n)))
         else (case find_in_bin q event top_ev next of
                 None \<Rightarrow> None
               | Some (Inl e) \<Rightarrow> Some (Inl e)
               | Some (Inr c) \<Rightarrow>
                   Some (Inr (q\<lparr>nextInBin := (nextInBin q)(c := nextInBin q event)\<rparr>, Some top_ev))))"

definition eq_remove :: "evq \<Rightarrow> event_id \<Rightarrow> evq res option" where
  "eq_remove q event =
     (case head q of
        None \<Rightarrow> Some (Inl Panic)
      | Some h \<Rightarrow>
          if ev_eq q h event
          then map_option (\<lambda>r. res_bind r (\<lambda>(q', t). Inr (q'\<lparr>head := t\<rparr>))) (removeItem q event h)
          else (case find_bin q event h (nextBin q h) of
                  None \<Rightarrow> None
                | Some (prev, None) \<Rightarrow> Some (Inl Panic)
                | Some (prev, Some c) \<Rightarrow>
                    if \<not> ev_eq q c event then Some (Inl Panic)
                    else map_option
                           (\<lambda>r. res_bind r (\<lambda>(q', t). Inr (q'\<lparr>nextBin := (nextBin q')(prev := t)\<rparr>)))
                           (removeItem q event c)))"

section \<open>The public operations\<close>

text \<open>The assertions compare times as \<open>UTick\<close>, the unsigned 64-bit reading.\<close>

definition utick :: "int \<Rightarrow> int" where
  "utick t = t mod 2 ^ 64"

definition mainFlag :: "evq \<Rightarrow> event_id \<Rightarrow> evq" where
  "mainFlag q e = (if isMain q then setFlag q e IsMainQueue else clearFlag q e IsMainQueue)"

definition schedule :: "evq \<Rightarrow> event_id \<Rightarrow> int \<Rightarrow> evq res option" where
  "schedule q event w =
     (if \<not> utick w \<ge> utick (curTick q) then Some (Inl AssertFailed)
      else if scheduled q event then Some (Inl AssertFailed)
      else if \<not> initialized q event then Some (Inl AssertFailed)
      else map_option (\<lambda>q'. Inr (mainFlag (setFlag q' event Scheduled) event))
             (eq_insert (q\<lparr>ev_when := (ev_when q)(event := w)\<rparr>) event))"

text \<open>Deleting an event runs \<open>~Event\<close>: it asserts the event is not scheduled and clears its flags.\<close>

definition delete_event :: "evq \<Rightarrow> event_id \<Rightarrow> evq res" where
  "delete_event q e =
     assert_that (\<not> scheduled q e)
       (Inr (q\<lparr>flags := (flags q)(e := 0), freed := (freed q)(e := True)\<rparr>))"

definition deschedule :: "evq \<Rightarrow> event_id \<Rightarrow> evq res option" where
  "deschedule q event =
     (if \<not> scheduled q event then Some (Inl AssertFailed)
      else if \<not> initialized q event then Some (Inl AssertFailed)
      else map_option
             (\<lambda>r. res_bind r (\<lambda>q1.
                let q2 = clearFlag (clearFlag q1 event Squashed) event Scheduled
                in if isSet (flags q2 event) AutoDelete then delete_event q2 event else Inr q2))
             (eq_remove q event))"

definition reschedule :: "evq \<Rightarrow> event_id \<Rightarrow> int \<Rightarrow> bool \<Rightarrow> evq res option" where
  "reschedule q event w always =
     (if \<not> utick w \<ge> utick (curTick q) then Some (Inl AssertFailed)
      else if \<not> (always \<or> scheduled q event) then Some (Inl AssertFailed)
      else if \<not> initialized q event then Some (Inl AssertFailed)
      else case (if scheduled q event then eq_remove q event else Some (Inr q)) of
             None \<Rightarrow> None
           | Some (Inl e) \<Rightarrow> Some (Inl e)
           | Some (Inr q1) \<Rightarrow>
               map_option
                 (\<lambda>q2. Inr (mainFlag (setFlag (clearFlag q2 event Squashed) event Scheduled) event))
                 (eq_insert (q1\<lparr>ev_when := (ev_when q1)(event := w)\<rparr>) event))"

text \<open>
  \<open>serviceOne\<close>: the unlinking of the head, and the whole of it.  \<open>process\<close> is the virtual
  \<open>Event::process\<close> of the event's class, a parameter; it may itself schedule events.
  The result is the exit event, if the serviced event is one.
\<close>

definition unlink_head :: "evq \<Rightarrow> event_id \<Rightarrow> evq" where
  "unlink_head q event =
     (let q1 = clearFlag q event Scheduled
      in case nextInBin q event of
           Some n \<Rightarrow> q1\<lparr>nextBin := (nextBin q1)(n := nextBin q1 event), head := Some n\<rparr>
         | None \<Rightarrow> q1\<lparr>head := nextBin q1 event\<rparr>)"

definition serviceOne ::
  "(event_id \<Rightarrow> evq \<Rightarrow> evq res option) \<Rightarrow> evq \<Rightarrow> (evq \<times> event_id option) res option" where
  "serviceOne process q =
     (case head q of
        None \<Rightarrow> Some (Inl OutOfRange)
      | Some event \<Rightarrow>
          (let q1 = unlink_head q event;
               finish = (\<lambda>q2. if isSet (flags q2 event) AutoDelete \<and> \<not> scheduled q2 event
                              then res_bind (delete_event q2 event) (\<lambda>q3. Inr (q3, None))
                              else Inr (q2, None))
           in if \<not> squashed q1 event
              then map_option
                     (\<lambda>r. res_bind r (\<lambda>q2.
                        if isSet (flags q2 event) IsExitEvent
                        then assert_that (\<not> isSet (flags q2 event) AutoDelete) (Inr (q2, Some event))
                        else finish q2))
                     (process event q1)
              else Some (finish (clearFlag q1 event Squashed))))"

text \<open>\<open>debugVerify\<close> as the pair of nested loops, on the remaining bin and the remaining bins.\<close>

partial_function (option) verify_loop ::
  "evq \<Rightarrow> event_id option \<Rightarrow> event_id option \<Rightarrow> int \<Rightarrow> int \<Rightarrow> event_id list \<Rightarrow> bool option" where
  "verify_loop q bin item time prio seen =
     (if item \<noteq> None
      then (if ev_when q (the item) < time then Some False
            else if ev_when q (the item) = time \<and> priority q (the item) < prio then Some False
            else if the item \<in> set seen then Some False
            else verify_loop q bin (nextInBin q (the item))
                   (ev_when q (the item)) (priority q (the item)) (the item # seen))
      else if bin = None then Some True
      else verify_loop q (nextBin q (the bin)) (nextBin q (the bin)) time prio seen)"

definition debugVerify :: "evq \<Rightarrow> bool option" where
  "debugVerify q = verify_loop q (head q) (head q) 0 0 []"

end
