(* ===== verification/Event_Queue_Refine.thy ===== *)
theory Event_Queue_Refine
  imports Event_Queue
begin

text \<open>
  The event queue refines a sorted list.  \<open>represents q bs\<close> ties the pointer structure of
  \<open>Event_Queue\<close> to a list of stacks, one per (time, priority); \<open>insert\<close>, \<open>remove\<close> and the
  unlinking of the head implement the operations on that list, and \<open>evq_ok q es\<close> abstracts it to the
  list of events in service order.  The properties are stated on \<open>evq_ok\<close>.
\<close>

section \<open>Linked lists\<close>

fun chain :: "(event_id \<Rightarrow> event_id option) \<Rightarrow> event_id option \<Rightarrow> event_id list
    \<Rightarrow> event_id option \<Rightarrow> bool" where
  "chain nx p [] r \<longleftrightarrow> p = r"
| "chain nx p (x # xs) r \<longleftrightarrow> p = Some x \<and> chain nx (nx x) xs r"

lemma chain_append: "chain nx p (xs @ ys) r \<longleftrightarrow> (\<exists>m. chain nx p xs m \<and> chain nx m ys r)"
  by (induction xs arbitrary: p) auto

lemma chain_cong:
  "(\<And>x. x \<in> set xs \<Longrightarrow> nx x = nx' x) \<Longrightarrow> chain nx p xs r = chain nx' p xs r"
  by (induction xs arbitrary: p) auto

lemma chain_upd_last:
  "chain nx p (xs @ [x]) m \<Longrightarrow> x \<notin> set xs \<Longrightarrow> chain (nx(x := m')) p (xs @ [x]) m'"
  by (induction xs arbitrary: p) auto

lemma chain_upd_other: "x \<notin> set xs \<Longrightarrow> chain (nx(x := m)) p xs r = chain nx p xs r"
  by (rule chain_cong) auto

definition first_of :: "'a list \<Rightarrow> 'a option" where
  "first_of xs = (case xs of [] \<Rightarrow> None | x # _ \<Rightarrow> Some x)"

lemma first_of_simps [simp]: "first_of [] = None" "first_of (x # xs) = Some x"
  by (simp_all add: first_of_def)

lemma chain_None_first: "chain nx p xs None \<Longrightarrow> p = first_of xs"
  by (cases xs) auto

section \<open>The list of stacks\<close>

definition key :: "evq \<Rightarrow> event_id \<Rightarrow> int \<times> int" where
  "key q e = (ev_when q e, priority q e)"

lemma ev_order:
  "ev_less q a b \<longleftrightarrow> key q a < key q b"
  "ev_le q a b \<longleftrightarrow> key q a \<le> key q b"
  "ev_eq q a b \<longleftrightarrow> key q a = key q b"
  by (auto simp: ev_less_def ev_le_def ev_eq_def key_def less_prod_def less_eq_prod_def)

definition same_key :: "(event_id \<Rightarrow> 'k) \<Rightarrow> event_id list \<Rightarrow> bool" where
  "same_key k b \<longleftrightarrow> (\<forall>x \<in> set b. k x = k (hd b))"

lemma same_keyD: "same_key k b \<Longrightarrow> x \<in> set b \<Longrightarrow> k x = k (hd b)"
  by (simp add: same_key_def)

lemma same_keyI: "(\<And>x. x \<in> set b \<Longrightarrow> k x = c) \<Longrightarrow> same_key k b"
  unfolding same_key_def by (cases b) simp_all

lemma same_key_single [simp]: "same_key k [x]"
  by (simp add: same_key_def)

lemma same_key_Cons: "same_key k c \<Longrightarrow> k x = k (hd c) \<Longrightarrow> same_key k (x # c)"
  by (simp add: same_key_def)

lemma same_key_cong:
  assumes "\<And>x. x \<in> set b \<Longrightarrow> k' x = k x"
  shows "same_key k' b = same_key k b"
  unfolding same_key_def using assms by (cases b) auto

lemma key_record_simps [simp]:
  "key (q\<lparr>head := h\<rparr>) = key q" "key (q\<lparr>nextBin := nb\<rparr>) = key q"
  "key (q\<lparr>nextInBin := nb\<rparr>) = key q" "key (q\<lparr>flags := f\<rparr>) = key q"
  by (simp_all add: key_def fun_eq_iff)

definition bin_ok :: "evq \<Rightarrow> event_id list \<Rightarrow> bool" where
  "bin_ok q b \<longleftrightarrow> b \<noteq> [] \<and> chain (nextInBin q) (Some (hd b)) b None
     \<and> same_key (key q) b"

definition represents :: "evq \<Rightarrow> event_id list list \<Rightarrow> bool" where
  "represents q bs \<longleftrightarrow> chain (nextBin q) (head q) (map hd bs) None
     \<and> (\<forall>b \<in> set bs. bin_ok q b)
     \<and> sorted_wrt (<) (map (\<lambda>b. key q (hd b)) bs)
     \<and> distinct (concat bs)"

fun ins_bins :: "(event_id \<Rightarrow> 'k::linorder) \<Rightarrow> event_id \<Rightarrow> event_id list list
    \<Rightarrow> event_id list list" where
  "ins_bins k x [] = [[x]]"
| "ins_bins k x (b # bs) =
     (if k x < k (hd b) then [x] # b # bs
      else if k x = k (hd b) then (x # b) # bs
      else b # ins_bins k x bs)"

fun del_bins :: "(event_id \<Rightarrow> 'k::linorder) \<Rightarrow> event_id \<Rightarrow> event_id list list
    \<Rightarrow> event_id list list" where
  "del_bins k x [] = []"
| "del_bins k x (b # bs) =
     (if k x = k (hd b) then (if b = [x] then bs else remove1 x b # bs)
      else b # del_bins k x bs)"

definition push_bin :: "(event_id \<Rightarrow> 'k::linorder) \<Rightarrow> event_id \<Rightarrow> event_id list list
    \<Rightarrow> event_id list list" where
  "push_bin k x bs = (case bs of [] \<Rightarrow> [[x]]
     | b # bs' \<Rightarrow> if k x < k (hd b) then [x] # b # bs' else (x # b) # bs')"

lemma ins_bins_split:
  "ins_bins k x bs = takeWhile (\<lambda>b. k (hd b) < k x) bs
     @ push_bin k x (dropWhile (\<lambda>b. k (hd b) < k x) bs)"
  by (induction bs) (auto simp: push_bin_def)

lemma set_concat_ins_bins: "set (concat (ins_bins k x bs)) = insert x (set (concat bs))"
  by (induction bs) auto

lemma find_bin_walk:
  "chain (nextBin q) cur ts None \<Longrightarrow>
   find_bin q event prev cur =
     Some (last (prev # takeWhile (\<lambda>t. key q t < key q event) ts),
           first_of (dropWhile (\<lambda>t. key q t < key q event) ts))"
proof (induction ts arbitrary: prev cur)
  case Nil
  then show ?case by (subst find_bin.simps) simp
next
  case (Cons t ts)
  then show ?case by (subst find_bin.simps) (auto simp: ev_order)
qed

lemma find_in_bin_walk:
  "chain (nextInBin q) next xs None \<Longrightarrow>
   find_in_bin q event cur next =
     Some (if event \<in> set xs then Inr (last (cur # takeWhile (\<lambda>y. y \<noteq> event) xs)) else Inl Panic)"
proof (induction xs arbitrary: cur "next")
  case Nil
  then show ?case by (subst find_in_bin.simps) simp
next
  case (Cons x xs)
  then show ?case by (subst find_in_bin.simps) auto
qed

lemma represents_binD: "represents q bs \<Longrightarrow> b \<in> set bs \<Longrightarrow> bin_ok q b"
  by (simp add: represents_def)

lemma bin_ok_hd: "bin_ok q b \<Longrightarrow> hd b \<in> set b"
  by (simp add: bin_ok_def)

lemma distinct_tops:
  "distinct (concat bs) \<Longrightarrow> (\<And>b. b \<in> set bs \<Longrightarrow> bin_ok q b) \<Longrightarrow> distinct (map hd bs)"
proof (induction bs)
  case (Cons b bs)
  have "hd b \<in> set b" using Cons.prems(2) [of b] by (simp add: bin_ok_hd)
  moreover have "hd c \<in> set (concat bs)" if "c \<in> set bs" for c
    using Cons.prems(2) [of c] that bin_ok_hd by auto
  ultimately show ?case using Cons by auto
qed simp

lemma represents_hd: "represents q bs \<Longrightarrow> b \<in> set bs \<Longrightarrow> hd b \<in> set b"
  by (drule (1) represents_binD) (simp add: bin_ok_def)

lemma bin_ok_cong:
  assumes "\<And>x. x \<in> set b \<Longrightarrow> nextInBin q' x = nextInBin q x"
    and "\<And>x. x \<in> set b \<Longrightarrow> key q' x = key q x"
  shows "bin_ok q' b = bin_ok q b"
proof -
  have "chain (nextInBin q') (Some (hd b)) b None = chain (nextInBin q) (Some (hd b)) b None"
    using assms(1) by (rule chain_cong)
  moreover have "same_key (key q') b = same_key (key q) b" using assms(2) by (rule same_key_cong)
  ultimately show ?thesis by (simp add: bin_ok_def)
qed

lemma represents_cong:
  assumes "represents q bs" and "head q' = head q" and "nextBin q' = nextBin q"
    and "nextInBin q' = nextInBin q" and "\<And>x. x \<in> set (concat bs) \<Longrightarrow> key q' x = key q x"
  shows "represents q' bs"
proof -
  have in_concat: "x \<in> set (concat bs)" if "b \<in> set bs" "x \<in> set b" for b x
    using that by auto
  have "bin_ok q' b" if "b \<in> set bs" for b
  proof -
    have "bin_ok q' b = bin_ok q b"
      by (rule bin_ok_cong) (use assms(4,5) in_concat [OF that] in auto)
    with represents_binD [OF assms(1) that] show ?thesis by simp
  qed
  moreover have eq: "map (\<lambda>b. key q' (hd b)) bs = map (\<lambda>b. key q (hd b)) bs"
    by (rule map_cong) (use represents_hd [OF assms(1)] in_concat assms(5) in auto)
  ultimately show ?thesis using assms(1-4) unfolding represents_def eq by simp
qed

lemma sorted_ins_bins:
  assumes "sorted_wrt (<) (map (\<lambda>b. k (hd b)) bs)"
  shows "sorted_wrt (<) (map (\<lambda>b. k (hd b)) (ins_bins k x bs))"
proof -
  have hds: "(\<lambda>b. k (hd b)) ` set (ins_bins k x bs) \<subseteq> insert (k x) ((\<lambda>b. k (hd b)) ` set bs)" for bs
    by (induction bs) auto
  show ?thesis using assms
  proof (induction bs)
    case (Cons b bs)
    have "\<forall>y \<in> set (ins_bins k x bs). k (hd b) < k (hd y)" if "k (hd b) < k x"
      using hds [of bs] Cons.prems that by auto
    with Cons show ?case by auto
  qed simp
qed

lemma distinct_ins_bins:
  "distinct (concat bs) \<Longrightarrow> x \<notin> set (concat bs) \<Longrightarrow> distinct (concat (ins_bins k x bs))"
proof (induction bs)
  case (Cons b bs)
  have "set (concat (ins_bins k x bs)) = insert x (set (concat bs))" by (rule set_concat_ins_bins)
  with Cons show ?case by auto
qed simp

lemma insertBefore_same [simp]:
  "key (insertBefore q x c) = key q" "flags (insertBefore q x c) = flags q"
  "curTick (insertBefore q x c) = curTick q" "freed (insertBefore q x c) = freed q"
  "isMain (insertBefore q x c) = isMain q" "head (insertBefore q x c) = head q"
  "y \<noteq> x \<Longrightarrow> nextBin (insertBefore q x c) y = nextBin q y"
  "y \<noteq> x \<Longrightarrow> nextInBin (insertBefore q x c) y = nextInBin q y"
  by (auto simp: insertBefore_def key_def fun_eq_iff split: option.splits)

text \<open>Linking a new top event in front of the bins \<open>post\<close> that follow a prefix of the list.\<close>

lemma insertBefore_push_bin:
  assumes "chain (nextBin q) (first_of (map hd post)) (map hd post) None"
    and "\<And>b. b \<in> set post \<Longrightarrow> bin_ok q b"
    and "x \<notin> set (concat post)"
    and "post \<noteq> [] \<Longrightarrow> \<not> key q (hd (hd post)) < key q x"
  defines "q' \<equiv> insertBefore q x (first_of (map hd post))"
  shows "chain (nextBin q') (Some x) (map hd (push_bin (key q) x post)) None"
    and "\<And>b. b \<in> set (push_bin (key q) x post) \<Longrightarrow> bin_ok q' b"
proof -
  have upd: "chain ((nextBin q)(x := m)) p (map hd bs) None = chain (nextBin q) p (map hd bs) None"
    if "bs = post \<or> bs = tl post" for m p bs
  proof (rule chain_upd_other)
    have "hd b \<noteq> x" if "b \<in> set bs" for b
    proof -
      have b: "b \<in> set post" using that \<open>bs = post \<or> bs = tl post\<close> by (cases post) auto
      then have "hd b \<in> set (concat post)" using bin_ok_hd [OF assms(2) [OF b]] by auto
      with assms(3) show ?thesis by metis
    qed
    then show "x \<notin> set (map hd bs)" unfolding set_map by blast
  qed
  have bin: "bin_ok q' b" if "b \<in> set post" for b
  proof -
    have "y \<noteq> x" if "y \<in> set b" for y using assms(3) that \<open>b \<in> set post\<close> by auto
    then have "bin_ok q' b = bin_ok q b" by (intro bin_ok_cong) (simp_all add: q'_def)
    with assms(2) [OF that] show ?thesis by simp
  qed
  show "chain (nextBin q') (Some x) (map hd (push_bin (key q) x post)) None"
  proof (cases post)
    case Nil
    then show ?thesis by (simp add: q'_def insertBefore_def push_bin_def)
  next
    case (Cons c post')
    have "chain ((nextBin q)(x := m)) p (map hd post) None = chain (nextBin q) p (map hd post) None"
      "chain ((nextBin q)(x := m)) p (map hd post') None = chain (nextBin q) p (map hd post') None"
      for m p using upd [of post m p] upd [of post' m p] Cons by simp_all
    with assms(1) Cons show ?thesis by (simp add: q'_def insertBefore_def push_bin_def ev_order)
  qed
  show "bin_ok q' b" if b: "b \<in> set (push_bin (key q) x post)" for b
  proof (cases "b \<in> set post")
    case True
    then show ?thesis by (rule bin)
  next
    case False
    show ?thesis
    proof (cases post)
      case Nil
      with b show ?thesis
        by (simp add: push_bin_def q'_def insertBefore_def bin_ok_def)
    next
      case (Cons c post')
      show ?thesis
      proof (cases "key q x < key q (hd c)")
        case True
        with b False Cons have "b = [x]" by (auto simp: push_bin_def)
        with True Cons show ?thesis by (simp add: q'_def insertBefore_def bin_ok_def ev_order)
      next
        case ge: False
        have eq: "key q x = key q (hd c)" using ge assms(4) Cons by simp
        from b False Cons ge have bx: "b = x # c" by (auto simp: push_bin_def)
        have "bin_ok q c" using assms(2) [of c] Cons by simp
        moreover have "x \<notin> set c" using assms(3) Cons by simp
        moreover have "key q' = key q" by (simp add: q'_def)
        ultimately show ?thesis using ge eq Cons
          by (simp add: bx q'_def insertBefore_def bin_ok_def ev_order chain_upd_other same_key_Cons)
      qed
    qed
  qed
qed


text \<open>Replacing the bins behind a prefix of the list, the shape of every update of the queue.\<close>

lemma represents_relink:
  assumes R: "represents q (pre @ post)"
    and key: "\<And>x. key q' x = key q x"
    and inb: "\<And>x. x \<in> set (concat pre) \<Longrightarrow> nextInBin q' x = nextInBin q x"
    and nb: "\<And>b. b \<in> set (butlast pre) \<Longrightarrow> nextBin q' (hd b) = nextBin q (hd b)"
    and link: "if pre = [] then head q' = p else head q' = head q \<and> nextBin q' (hd (last pre)) = p"
    and ch: "chain (nextBin q') p (map hd post') None"
    and ok: "\<And>b. b \<in> set post' \<Longrightarrow> bin_ok q' b"
    and sorted: "sorted_wrt (<) (map (\<lambda>b. key q (hd b)) (pre @ post'))"
    and dist: "distinct (concat (pre @ post'))"
  shows "represents q' (pre @ post')"
proof -
  have "bin_ok q' b" if "b \<in> set pre" for b
  proof -
    have "bin_ok q' b = bin_ok q b"
      using that by (intro bin_ok_cong inb key) auto
    with R that show ?thesis by (simp add: represents_def)
  qed
  moreover have "chain (nextBin q') (head q') (map hd (pre @ post')) None"
  proof (cases pre rule: rev_cases)
    case Nil
    with link ch show ?thesis by simp
  next
    case (snoc pre1 b)
    obtain m where m: "chain (nextBin q) (head q) (map hd pre1) m" "m = Some (hd b)"
      using R by (auto simp: represents_def snoc chain_append)
    have "chain (nextBin q') (head q) (map hd pre1) m = chain (nextBin q) (head q) (map hd pre1) m"
      by (rule chain_cong) (use nb snoc in auto)
    with m link ch show ?thesis by (auto simp: snoc chain_append)
  qed
  ultimately show ?thesis using ok sorted dist by (auto simp: represents_def key)
qed

lemma represents_split:
  assumes "represents q (pre @ post)"
  obtains m where "chain (nextBin q) (head q) (map hd pre) m" "chain (nextBin q) m (map hd post) None"
    "m = first_of (map hd post)"
proof -
  from assms obtain m where m: "chain (nextBin q) (head q) (map hd pre) m"
      "chain (nextBin q) m (map hd post) None"
    by (auto simp: represents_def chain_append)
  show thesis using m chain_None_first [OF m(2)] by (rule that)
qed

text \<open>The walk to the bin of an event, from the first bin of the queue.\<close>

lemma find_bin_represents:
  assumes R: "represents q (b # bs)" and "key q (hd b) < key q x"
  defines "pre \<equiv> takeWhile (\<lambda>b. key q (hd b) < key q x) (b # bs)"
    and "post \<equiv> dropWhile (\<lambda>b. key q (hd b) < key q x) (b # bs)"
  shows "find_bin q x (hd b) (nextBin q (hd b)) = Some (hd (last pre), first_of (map hd post))"
proof -
  have "chain (nextBin q) (nextBin q (hd b)) (map hd bs) None" using R by (simp add: represents_def)
  from find_bin_walk [OF this, of x "hd b"] assms(2) show ?thesis
    by (simp add: pre_def post_def takeWhile_map dropWhile_map comp_def last_map)
qed

lemma eq_insert_eq:
  assumes R: "represents q bs" and x: "x \<notin> set (concat bs)"
  defines "pre \<equiv> takeWhile (\<lambda>b. key q (hd b) < key q x) bs"
    and "post \<equiv> dropWhile (\<lambda>b. key q (hd b) < key q x) bs"
  defines "q1 \<equiv> insertBefore q x (first_of (map hd post))"
  shows "eq_insert q x = Some (if pre = [] then q1\<lparr>head := Some x\<rparr>
     else q1\<lparr>nextBin := (nextBin q1)(hd (last pre) := Some x)\<rparr>)"
proof (cases bs)
  case Nil
  with R have "head q = None" by (simp add: represents_def)
  with Nil show ?thesis by (simp add: eq_insert_def pre_def post_def q1_def)
next
  case (Cons b bs')
  then have h: "head q = Some (hd b)" using R by (simp add: represents_def)
  show ?thesis
  proof (cases "key q (hd b) < key q x")
    case True
    then have "pre \<noteq> []" by (simp add: pre_def Cons)
    with h True find_bin_represents [OF R [unfolded Cons] True] show ?thesis
      by (simp add: eq_insert_def ev_order Let_def q1_def pre_def post_def Cons)
  next
    case False
    then have "pre = []" "post = bs" by (simp_all add: pre_def post_def Cons)
    with h False show ?thesis by (simp add: eq_insert_def ev_order q1_def Cons not_less)
  qed
qed

lemma eq_insert_refines:
  assumes R: "represents q bs" and x: "x \<notin> set (concat bs)"
  shows "\<exists>q'. eq_insert q x = Some q' \<and> represents q' (ins_bins (key q) x bs)
    \<and> key q' = key q \<and> flags q' = flags q \<and> curTick q' = curTick q
    \<and> freed q' = freed q \<and> isMain q' = isMain q"
proof -
  define pre where "pre = takeWhile (\<lambda>b. key q (hd b) < key q x) bs"
  define post where "post = dropWhile (\<lambda>b. key q (hd b) < key q x) bs"
  define q1 where "q1 = insertBefore q x (first_of (map hd post))"
  define q' where "q' = (if pre = [] then q1\<lparr>head := Some x\<rparr>
     else q1\<lparr>nextBin := (nextBin q1)(hd (last pre) := Some x)\<rparr>)"
  have bs: "bs = pre @ post" by (simp add: pre_def post_def)
  have ins: "ins_bins (key q) x bs = pre @ push_bin (key q) x post"
    by (simp add: ins_bins_split pre_def post_def)
  have bin: "bin_ok q b" if "b \<in> set bs" for b using R that by (rule represents_binD)
  have x_pre: "y \<noteq> x" if "y \<in> set (concat pre)" for y using that x bs by auto
  have x_post: "x \<notin> set (concat post)" using x bs by auto
  have hd_pre: "hd b \<in> set (concat pre)" if "b \<in> set pre" for b
    using bin_ok_hd [OF bin, of b] that bs by auto
  have "chain (nextBin q) (first_of (map hd post)) (map hd post) None"
    using R unfolding bs by (elim represents_split) simp
  moreover have "\<not> key q (hd (hd post)) < key q x" if "post \<noteq> []"
    using hd_dropWhile [of "\<lambda>b. key q (hd b) < key q x" bs] that by (simp add: post_def)
  ultimately have top: "chain (nextBin q1) (Some x) (map hd (push_bin (key q) x post)) None"
    and bins: "\<And>b. b \<in> set (push_bin (key q) x post) \<Longrightarrow> bin_ok q1 b"
    using insertBefore_push_bin [of q post x] x_post bin bs by (simp_all add: q1_def)
  have dist: "distinct (concat (pre @ push_bin (key q) x post))"
    using distinct_ins_bins [of bs x "key q"] R x by (simp add: represents_def flip: ins)
  have last_notin: "hd (last pre) \<notin> set (map hd (push_bin (key q) x post))" if ne: "pre \<noteq> []"
  proof
    assume "hd (last pre) \<in> set (map hd (push_bin (key q) x post))"
    then obtain b where "b \<in> set (push_bin (key q) x post)" "hd (last pre) = hd b" by auto
    then have "hd (last pre) \<in> set (concat (push_bin (key q) x post))"
      using bin_ok_hd [OF bins [of b]] by auto
    moreover have "hd (last pre) \<in> set (concat pre)" using ne by (intro hd_pre) simp
    ultimately show False using dist by auto
  qed
  have "represents q' (pre @ push_bin (key q) x post)"
  proof (rule represents_relink [where q = q and post = post and p = "Some x"])
    show "represents q (pre @ post)" using R bs by simp
    show "key q' y = key q y" for y by (simp add: q'_def q1_def)
    show "nextInBin q' y = nextInBin q y" if "y \<in> set (concat pre)" for y
      using x_pre [OF that] by (simp add: q'_def q1_def)
    show "nextBin q' (hd b) = nextBin q (hd b)" if b: "b \<in> set (butlast pre)" for b
    proof -
      have "distinct (map hd pre)" using R bin bs by (intro distinct_tops) (auto simp: represents_def)
      then have "hd b \<noteq> hd (last pre)"
        using b by (cases pre rule: rev_cases) (auto simp: image_iff)
      moreover have "hd b \<noteq> x" using x_pre [OF hd_pre [OF in_set_butlastD [OF b]]] .
      ultimately show ?thesis by (simp add: q'_def q1_def)
    qed
    show "if pre = [] then head q' = Some x
        else head q' = head q \<and> nextBin q' (hd (last pre)) = Some x"
      by (simp add: q'_def q1_def)
    show "chain (nextBin q') (Some x) (map hd (push_bin (key q) x post)) None"
      using top last_notin by (simp add: q'_def chain_upd_other)
    show "bin_ok q' b" if "b \<in> set (push_bin (key q) x post)" for b
      using bins [OF that] by (simp add: q'_def bin_ok_def)
    show "sorted_wrt (<) (map (\<lambda>b. key q (hd b)) (pre @ push_bin (key q) x post))"
      using sorted_ins_bins [of "key q" bs x] R by (simp add: represents_def flip: ins)
    show "distinct (concat (pre @ push_bin (key q) x post))" by (rule dist)
  qed
  moreover have "eq_insert q x = Some q'"
    using eq_insert_eq [OF R x] by (simp add: q'_def q1_def pre_def post_def)
  moreover have "key q' = key q" "flags q' = flags q" "curTick q' = curTick q"
    "freed q' = freed q" "isMain q' = isMain q"
    by (simp_all add: q'_def q1_def)
  ultimately show ?thesis by (simp add: ins)
qed


section \<open>Removal\<close>

lemma last_takeWhile_in: "last (a # takeWhile P xs) \<in> set (a # xs)"
proof -
  have "last (a # takeWhile P xs) \<in> set (a # takeWhile P xs)" by (rule last_in_set) simp
  moreover have "set (a # takeWhile P xs) \<subseteq> set (a # xs)" by (auto dest: set_takeWhileD)
  ultimately show ?thesis by blast
qed

lemma chain_remove_inner:
  assumes "chain nx (Some a) (a # xs) None" and "x \<in> set xs" and "distinct (a # xs)"
  shows "chain (nx(last (a # takeWhile (\<lambda>y. y \<noteq> x) xs) := nx x)) (Some a) (a # remove1 x xs) None"
  using assms
proof (induction xs arbitrary: a)
  case (Cons b xs)
  show ?case
  proof (cases "b = x")
    case True
    have "chain (nx(a := nx x)) (nx x) xs None = chain nx (nx x) xs None"
      by (rule chain_upd_other) (use Cons.prems(3) in simp)
    with True Cons.prems show ?thesis by (simp add: fun_upd_def)
  next
    case False
    define l where "l = last (b # takeWhile (\<lambda>y. y \<noteq> x) xs)"
    have x: "x \<in> set xs" using False Cons.prems(2) by auto
    have "l \<in> set (b # xs)" unfolding l_def by (rule last_takeWhile_in)
    then have la: "l \<noteq> a" using Cons.prems(3) by auto
    have "chain (nx(l := nx x)) (Some b) (b # remove1 x xs) None"
      unfolding l_def by (rule Cons.IH) (use Cons.prems x in simp_all)
    moreover have "last (a # takeWhile (\<lambda>y. y \<noteq> x) (b # xs)) = l" using False by (simp add: l_def)
    ultimately show ?thesis using la False Cons.prems by (simp del: last.simps add: fun_upd_def)
  qed
qed simp

lemma removeItem_hd:
  assumes "bin_ok q b" and "distinct b"
  defines "b' \<equiv> tl b"
  shows "removeItem q (hd b) (hd b) =
     Some (Inr (if b' = [] then (q, nextBin q (hd b))
                else (q\<lparr>nextBin := (nextBin q)(hd b' := nextBin q (hd b))\<rparr>, Some (hd b'))))"
proof -
  have "chain (nextInBin q) (nextInBin q (hd b)) b' None"
    using assms by (cases b) (auto simp: bin_ok_def)
  then have "nextInBin q (hd b) = first_of b'" by (rule chain_None_first)
  then show ?thesis by (cases b') (auto simp: removeItem_def)
qed

lemma removeItem_inner:
  assumes "bin_ok q (a # xs)" and "distinct (a # xs)" and x: "x \<in> set xs"
  shows "\<exists>nx. removeItem q x a = Some (Inr (q\<lparr>nextInBin := nx\<rparr>, Some a))
    \<and> chain nx (Some a) (a # remove1 x xs) None
    \<and> (\<forall>y. y \<notin> set (a # xs) \<longrightarrow> nx y = nextInBin q y)"
proof -
  let ?l = "last (a # takeWhile (\<lambda>y. y \<noteq> x) xs)"
  have ch: "chain (nextInBin q) (Some a) (a # xs) None" using assms(1) by (simp add: bin_ok_def)
  then have "chain (nextInBin q) (nextInBin q a) xs None" by simp
  from find_in_bin_walk [OF this, of x a] x
  have walk: "find_in_bin q x a (nextInBin q a) = Some (Inr ?l)" by simp
  let ?nx = "(nextInBin q)(?l := nextInBin q x)"
  have "chain ?nx (Some a) (a # remove1 x xs) None" using ch x assms(2) by (rule chain_remove_inner)
  moreover have "?l \<in> set (a # xs)" by (rule last_takeWhile_in)
  moreover have "removeItem q x a = Some (Inr (q\<lparr>nextInBin := ?nx\<rparr>, Some a))"
    using walk assms(2) x by (auto simp: removeItem_def Let_def)
  ultimately show ?thesis by (intro exI [of _ ?nx]) (metis fun_upd_other)
qed

lemma removeItem_missing:
  assumes "bin_ok q (a # xs)" and "x \<notin> set (a # xs)"
  shows "removeItem q x a = Some (Inl Panic)"
proof -
  have "chain (nextInBin q) (nextInBin q a) xs None" using assms(1) by (simp add: bin_ok_def)
  from find_in_bin_walk [OF this, of x a] assms(2)
  have "find_in_bin q x a (nextInBin q a) = Some (Inl Panic)" by simp
  with assms(2) show ?thesis by (simp add: removeItem_def Let_def)
qed

text \<open>The update of one bin, as \<open>removeItem\<close> leaves it.\<close>

definition drop_item :: "event_id \<Rightarrow> event_id list list \<Rightarrow> event_id list list" where
  "drop_item x post = (case post of [] \<Rightarrow> []
     | c # cs \<Rightarrow> if c = [x] then cs else remove1 x c # cs)"

lemma removeItem_drop_item:
  assumes B: "bin_ok q (a # xs)" and x: "x \<in> set (a # xs)" and D: "distinct (concat ((a # xs) # cs))"
    and cs: "\<And>b. b \<in> set cs \<Longrightarrow> bin_ok q b"
    and ch: "chain (nextBin q) (Some a) (map hd ((a # xs) # cs)) None"
  shows "\<exists>q' t. removeItem q x a = Some (Inr (q', t))
    \<and> chain (nextBin q') t (map hd (drop_item x ((a # xs) # cs))) None
    \<and> (\<forall>b \<in> set (drop_item x ((a # xs) # cs)). bin_ok q' b)
    \<and> (\<forall>y. y \<notin> set (a # xs) \<longrightarrow> nextBin q' y = nextBin q y \<and> nextInBin q' y = nextInBin q y)
    \<and> key q' = key q \<and> flags q' = flags q \<and> curTick q' = curTick q
    \<and> freed q' = freed q \<and> isMain q' = isMain q \<and> head q' = head q"
    (is "\<exists>q' t. ?P q' t")
proof -
  have dc: "distinct (a # xs)" using D by simp
  have disj: "y \<notin> set (a # xs)" if "b \<in> set cs" "y \<in> set b" for b y using D that by auto
  have tops: "hd b \<notin> set (a # xs)" if "b \<in> set cs" for b
    using disj [OF that bin_ok_hd [OF cs [OF that]]] .
  have rest: "chain nx (nextBin q a) (map hd cs) None"
    if "\<And>y. y \<notin> set (a # xs) \<Longrightarrow> nx y = nextBin q y" for nx
  proof -
    have "nx y = nextBin q y" if "y \<in> set (map hd cs)" for y
      using tops that \<open>\<And>y. y \<notin> set (a # xs) \<Longrightarrow> nx y = nextBin q y\<close> by auto
    then have "chain nx (nextBin q a) (map hd cs) None
      = chain (nextBin q) (nextBin q a) (map hd cs) None"
      by (rule chain_cong)
    with ch show ?thesis by simp
  qed
  have others: "bin_ok q' b" if "b \<in> set cs" "key q' = key q"
    "\<And>y. y \<notin> set (a # xs) \<Longrightarrow> nextInBin q' y = nextInBin q y" for q' b
  proof -
    have "bin_ok q' b = bin_ok q b"
      by (rule bin_ok_cong) (simp_all add: that(2) that(3) [OF disj [OF that(1)]])
    with cs [OF that(1)] show ?thesis by simp
  qed
  consider (top1) "x = a" "xs = []" | (top2) n ns where "x = a" "xs = n # ns" | (inner) "x \<noteq> a" "x \<in> set xs"
    using x by (cases xs) auto
  then show ?thesis
  proof cases
    case top1
    then have "removeItem q x a = Some (Inr (q, nextBin q a))"
      using removeItem_hd [OF B dc] by simp
    moreover have "drop_item x ((a # xs) # cs) = cs" using top1 by (simp add: drop_item_def)
    moreover have "chain (nextBin q) (nextBin q a) (map hd cs) None" by (rule rest) simp
    ultimately show ?thesis using cs by simp
  next
    case top2
    let ?q' = "q\<lparr>nextBin := (nextBin q)(n := nextBin q a)\<rparr>"
    have r: "removeItem q x a = Some (Inr (?q', Some n))"
      using removeItem_hd [OF B dc] top2 by simp
    have d: "drop_item x ((a # xs) # cs) = (n # ns) # cs" using top2 by (simp add: drop_item_def)
    have "chain (nextBin ?q') (nextBin q a) (map hd cs) None"
      by (rule rest) (simp add: top2)
    moreover have "bin_ok ?q' (n # ns)"
    proof -
      have "key q y = key q a" if "y \<in> set (n # ns)" for y
        using B that top2 unfolding bin_ok_def same_key_def by auto
      then have "same_key (key q) (n # ns)" by (rule same_keyI)
      with B top2 show ?thesis by (simp add: bin_ok_def)
    qed
    moreover have "bin_ok ?q' b" if "b \<in> set cs" for b
      by (rule others [OF that]) simp_all
    ultimately have "?P ?q' (Some n)" unfolding r d by (simp add: top2)
    then show ?thesis by blast
  next
    case inner
    from removeItem_inner [OF B dc inner(2)] obtain nx where
      nx: "removeItem q x a = Some (Inr (q\<lparr>nextInBin := nx\<rparr>, Some a))"
        "chain nx (Some a) (a # remove1 x xs) None"
        "\<And>y. y \<notin> set (a # xs) \<Longrightarrow> nx y = nextInBin q y" by blast
    have d: "drop_item x ((a # xs) # cs) = (a # remove1 x xs) # cs"
      using inner by (auto simp: drop_item_def)
    have "key q y = key q a" if "y \<in> set (a # remove1 x xs)" for y
      using B that set_remove1_subset [of x xs] unfolding bin_ok_def same_key_def by auto
    then have "same_key (key q) (a # remove1 x xs)" by (rule same_keyI)
    with nx(2) have "bin_ok (q\<lparr>nextInBin := nx\<rparr>) (a # remove1 x xs)" by (simp add: bin_ok_def)
    moreover have "bin_ok (q\<lparr>nextInBin := nx\<rparr>) b" if "b \<in> set cs" for b
      by (rule others [OF that]) (use nx(3) in simp_all)
    ultimately have "?P (q\<lparr>nextInBin := nx\<rparr>) (Some a)"
      unfolding d nx(1) using nx(3) ch by simp
    then show ?thesis by blast
  qed
qed


lemma del_bins_split:
  assumes "x \<in> set (concat bs)" and "\<And>b. b \<in> set bs \<Longrightarrow> \<forall>y \<in> set b. k y = k (hd b)"
    and "sorted_wrt (<) (map (\<lambda>b. k (hd b)) bs)"
  defines "post \<equiv> dropWhile (\<lambda>b. k (hd b) < k x) bs"
  shows "del_bins k x bs = takeWhile (\<lambda>b. k (hd b) < k x) bs @ drop_item x post"
    and "post \<noteq> []" and "x \<in> set (hd post)"
proof -
  have "del_bins k x bs = takeWhile (\<lambda>b. k (hd b) < k x) bs @ drop_item x post
    \<and> post \<noteq> [] \<and> x \<in> set (hd post)"
    using assms(1-3) unfolding post_def
  proof (induction bs)
    case (Cons b bs)
    show ?case
    proof (cases "x \<in> set b")
      case True
      then have "k x = k (hd b)" using Cons.prems(2) [of b] by simp
      with True show ?thesis by (simp add: drop_item_def)
    next
      case False
      then obtain c where c: "c \<in> set bs" "x \<in> set c" using Cons.prems(1) by auto
      then have "k x = k (hd c)" using Cons.prems(2) [of c] by simp
      moreover have "k (hd b) < k (hd c)" using Cons.prems(3) c by auto
      ultimately have "k (hd b) < k x" "k x \<noteq> k (hd b)" by auto
      moreover have "x \<in> set (concat bs)" using c by auto
      ultimately show ?thesis using Cons by simp
    qed
  qed simp
  then show "del_bins k x bs = takeWhile (\<lambda>b. k (hd b) < k x) bs @ drop_item x post"
    and "post \<noteq> []" and "x \<in> set (hd post)" by simp_all
qed

lemma drop_item_shrinks:
  "set (concat (drop_item x (c # cs))) \<subseteq> set (concat (c # cs))"
  "distinct (concat (c # cs)) \<Longrightarrow> distinct (concat (drop_item x (c # cs)))"
  using set_remove1_subset [of x c] by (auto simp: drop_item_def)

lemma represents_same_key: "represents q bs \<Longrightarrow> b \<in> set bs \<Longrightarrow> \<forall>y \<in> set b. key q y = key q (hd b)"
  using represents_binD unfolding bin_ok_def same_key_def by blast

lemma eq_remove_refines:
  assumes R: "represents q bs" and x: "x \<in> set (concat bs)"
  shows "\<exists>q'. eq_remove q x = Some (Inr q') \<and> represents q' (del_bins (key q) x bs)
    \<and> key q' = key q \<and> flags q' = flags q \<and> curTick q' = curTick q
    \<and> freed q' = freed q \<and> isMain q' = isMain q"
proof -
  define pre where "pre = takeWhile (\<lambda>b. key q (hd b) < key q x) bs"
  define post where "post = dropWhile (\<lambda>b. key q (hd b) < key q x) bs"
  have bs: "bs = pre @ post" by (simp add: pre_def post_def)
  have sorted: "sorted_wrt (<) (map (\<lambda>b. key q (hd b)) bs)" and dist: "distinct (concat bs)"
    and bin: "\<And>b. b \<in> set bs \<Longrightarrow> bin_ok q b"
    using R by (auto simp: represents_def)
  note split = del_bins_split [OF x represents_same_key [OF R] sorted, folded pre_def post_def]
  from split(2,3) obtain a xs cs where post: "post = (a # xs) # cs" "x \<in> set (a # xs)"
    by (metis list.exhaust list.sel(1) empty_iff list.set(1))
  have kx: "key q x = key q a"
    using represents_same_key [OF R, of "a # xs"] post bs by auto
  from R bs have "represents q (pre @ post)" by simp
  from represents_split [OF this] post
  have ch: "chain (nextBin q) (Some a) (map hd ((a # xs) # cs)) None" by (metis first_of_simps(2) list.sel(1) list.simps(9))
  have "\<exists>q1 t. removeItem q x a = Some (Inr (q1, t))
    \<and> chain (nextBin q1) t (map hd (drop_item x ((a # xs) # cs))) None
    \<and> (\<forall>b \<in> set (drop_item x ((a # xs) # cs)). bin_ok q1 b)
    \<and> (\<forall>y. y \<notin> set (a # xs) \<longrightarrow> nextBin q1 y = nextBin q y \<and> nextInBin q1 y = nextInBin q y)
    \<and> key q1 = key q \<and> flags q1 = flags q \<and> curTick q1 = curTick q
    \<and> freed q1 = freed q \<and> isMain q1 = isMain q \<and> head q1 = head q"
  proof (rule removeItem_drop_item)
    show "bin_ok q (a # xs)" and "\<And>b. b \<in> set cs \<Longrightarrow> bin_ok q b" using bin bs post(1) by simp_all
    show "distinct (concat ((a # xs) # cs))" using dist unfolding bs post(1) by simp
  qed (fact post(2), fact ch)
  then obtain q1 t where q1: "removeItem q x a = Some (Inr (q1, t))"
      "chain (nextBin q1) t (map hd (drop_item x post)) None"
      "\<And>b. b \<in> set (drop_item x post) \<Longrightarrow> bin_ok q1 b"
      "\<And>y. y \<notin> set (a # xs) \<Longrightarrow> nextBin q1 y = nextBin q y"
      "\<And>y. y \<notin> set (a # xs) \<Longrightarrow> nextInBin q1 y = nextInBin q y"
    and same: "key q1 = key q" "flags q1 = flags q" "curTick q1 = curTick q" "freed q1 = freed q"
      "isMain q1 = isMain q" "head q1 = head q"
    unfolding post(1) by blast
  define q' where "q' = (if pre = [] then q1\<lparr>head := t\<rparr>
     else q1\<lparr>nextBin := (nextBin q1)(hd (last pre) := t)\<rparr>)"
  have pre_post: "y \<notin> set (concat post)" if "y \<in> set (concat pre)" for y
    using dist that unfolding bs by auto
  have pre_a: "y \<notin> set (a # xs)" if "y \<in> set (concat pre)" for y
    using pre_post [OF that] post(1) by auto
  have hd_pre: "hd b \<in> set (concat pre)" if "b \<in> set pre" for b
    using bin_ok_hd [OF bin, of b] that bs by auto
  have del: "del_bins (key q) x bs = pre @ drop_item x post" by (rule split(1))
  have dd: "distinct (concat (pre @ drop_item x post))"
  proof -
    have "distinct (concat post)" using dist unfolding bs by simp
    then have "distinct (concat (drop_item x post))"
      unfolding post(1) by (rule drop_item_shrinks(2))
    moreover have "set (concat (drop_item x post)) \<subseteq> set (concat post)"
      unfolding post(1) by (rule drop_item_shrinks(1))
    then have "set (concat pre) \<inter> set (concat (drop_item x post)) = {}" using pre_post by blast
    moreover have "distinct (concat pre)" using dist unfolding bs by simp
    ultimately show ?thesis by simp
  qed
  have last_notin: "hd (last pre) \<notin> set (map hd (drop_item x post))" if ne: "pre \<noteq> []"
  proof
    assume "hd (last pre) \<in> set (map hd (drop_item x post))"
    then obtain b where "b \<in> set (drop_item x post)" "hd (last pre) = hd b" by auto
    then have "hd (last pre) \<in> set (concat (drop_item x post))"
      using bin_ok_hd [OF q1(3) [of b]] by auto
    moreover have "hd (last pre) \<in> set (concat pre)" using ne by (intro hd_pre) simp
    ultimately show False using dd by auto
  qed
  have sorted': "sorted_wrt (<) (map (\<lambda>b. key q (hd b)) (pre @ drop_item x post))"
  proof -
    have "key q (hd (remove1 x (a # xs))) = key q a" if "a # xs \<noteq> [x]"
    proof -
      have "remove1 x (a # xs) \<noteq> []" using that by (cases xs) auto
      then have "hd (remove1 x (a # xs)) \<in> set (a # xs)"
        by (meson hd_in_set notin_set_remove1)
      then show ?thesis using represents_same_key [OF R, of "a # xs"] post bs by auto
    qed
    then show ?thesis using sorted unfolding bs post(1)
      by (auto simp: drop_item_def sorted_wrt_append)
  qed
  have "represents q' (pre @ drop_item x post)"
  proof (rule represents_relink [where q = q and post = post and p = t])
    show "represents q (pre @ post)" using R bs by simp
    show "key q' y = key q y" for y by (simp add: q'_def same)
    show "nextInBin q' y = nextInBin q y" if "y \<in> set (concat pre)" for y
      using q1(5) pre_a [OF that] by (simp add: q'_def)
    show "nextBin q' (hd b) = nextBin q (hd b)" if b: "b \<in> set (butlast pre)" for b
    proof -
      have "distinct (map hd pre)" using dist bin bs by (intro distinct_tops) auto
      then have "hd b \<noteq> hd (last pre)"
        using b by (cases pre rule: rev_cases) (auto simp: image_iff)
      moreover have "hd b \<notin> set (a # xs)" using pre_a [OF hd_pre [OF in_set_butlastD [OF b]]] .
      ultimately show ?thesis using q1(4) by (simp add: q'_def)
    qed
    show "if pre = [] then head q' = t else head q' = head q \<and> nextBin q' (hd (last pre)) = t"
      by (simp add: q'_def same)
    show "chain (nextBin q') t (map hd (drop_item x post)) None"
      using q1(2) last_notin by (simp add: q'_def chain_upd_other)
    show "bin_ok q' b" if "b \<in> set (drop_item x post)" for b
      using q1(3) [OF that] by (simp add: q'_def bin_ok_def)
  qed (fact sorted', fact dd)
  moreover have "eq_remove q x = Some (Inr q')"
  proof (cases pre)
    case Nil
    then have "head q = Some a" using R bs post(1) by (simp add: represents_def)
    with q1(1) kx Nil show ?thesis by (simp add: eq_remove_def ev_order q'_def)
  next
    case (Cons b pre')
    then have h: "head q = Some (hd b)" using R bs by (simp add: represents_def)
    have lt: "key q (hd b) < key q x" using Cons set_takeWhileD [of b _ bs] unfolding pre_def by force
    have bb: "bs = b # (pre' @ post)" using bs Cons by simp
    from find_bin_represents [OF R [unfolded bb] lt, folded bb, folded pre_def post_def]
    have "find_bin q x (hd b) (nextBin q (hd b)) = Some (hd (last pre), Some a)"
      by (simp add: post(1))
    with h lt less_imp_neq [OF lt] q1(1) kx Cons show ?thesis by (simp add: eq_remove_def ev_order q'_def)
  qed
  moreover have "key q' = key q" "flags q' = flags q" "curTick q' = curTick q"
    "freed q' = freed q" "isMain q' = isMain q"
    by (simp_all add: q'_def same)
  ultimately show ?thesis by (simp add: del)
qed

lemma eq_remove_missing:
  assumes R: "represents q bs" and x: "x \<notin> set (concat bs)"
  shows "eq_remove q x = Some (Inl Panic)"
proof (cases bs)
  case Nil
  with R show ?thesis by (simp add: represents_def eq_remove_def)
next
  case (Cons b bs')
  have miss: "removeItem q x (hd c) = Some (Inl Panic)" if "c \<in> set bs" for c
  proof -
    have c: "bin_ok q c" "x \<notin> set c" using R x that by (auto simp: represents_def)
    then obtain a xs where "c = a # xs" by (cases c) (auto simp: bin_ok_def)
    with removeItem_missing c show ?thesis by (metis list.sel(1))
  qed
  have h: "head q = Some (hd b)" using R Cons by (simp add: represents_def)
  consider "key q (hd b) = key q x" | "key q x < key q (hd b)" | "key q (hd b) < key q x"
    by fastforce
  then show ?thesis
  proof cases
    case 1
    with h miss Cons show ?thesis by (simp add: eq_remove_def ev_order)
  next
    case 2
    have "chain (nextBin q) (nextBin q (hd b)) (map hd bs') None"
      using R Cons by (simp add: represents_def)
    from find_bin_walk [OF this, of x "hd b"]
    have w: "find_bin q x (hd b) (nextBin q (hd b)) =
        Some (hd b, first_of (map hd bs'))"
    proof (cases bs')
      case Nil
      with \<open>find_bin q x (hd b) (nextBin q (hd b)) = _\<close> show ?thesis by simp
    next
      case (Cons c cs)
      have "key q (hd b) < key q (hd c)" using R \<open>bs = b # bs'\<close> Cons by (simp add: represents_def)
      with 2 have "\<not> key q (hd c) < key q x" by simp
      with \<open>find_bin q x (hd b) (nextBin q (hd b)) = _\<close> Cons show ?thesis by simp
    qed
    show ?thesis
    proof (cases bs')
      case Nil
      moreover have "key q (hd b) \<noteq> key q x" using 2 by simp
      ultimately show ?thesis using w h by (simp add: eq_remove_def ev_order)
    next
      case (Cons c cs)
      have "key q (hd b) < key q (hd c)" using R \<open>bs = b # bs'\<close> Cons by (simp add: represents_def)
      with 2 have "key q (hd c) \<noteq> key q x" "key q (hd b) \<noteq> key q x" by auto
      with w h Cons show ?thesis by (simp add: eq_remove_def ev_order)
    qed
  next
    case 3
    let ?post = "dropWhile (\<lambda>b. key q (hd b) < key q x) bs"
    from find_bin_represents [OF R [unfolded Cons] 3, folded Cons] obtain p where
      w: "find_bin q x (hd b) (nextBin q (hd b)) = Some (p, first_of (map hd ?post))" by blast
    show ?thesis
    proof (cases ?post)
      case Nil
      with w h 3 less_imp_neq [OF 3] show ?thesis by (simp add: eq_remove_def ev_order)
    next
      case post: (Cons c cs)
      then have "c \<in> set bs" by (metis list.set_intros(1) set_dropWhileD)
      with miss [of c] w h 3 less_imp_neq [OF 3] post show ?thesis by (simp add: eq_remove_def ev_order)
    qed
  qed
qed


section \<open>The queue as a sorted list\<close>

text \<open>
  The abstract queue is the list of events in the order they will be serviced: \<open>insert\<close> puts an
  event in front of those with the same time and priority, which is \<^const>\<open>insort_key\<close>.
\<close>

definition evq_ok :: "evq \<Rightarrow> event_id list \<Rightarrow> bool" where
  "evq_ok q es \<longleftrightarrow> (\<exists>bs. represents q bs \<and> concat bs = es)
     \<and> (\<forall>e. scheduled q e \<longleftrightarrow> e \<in> set es)"

lemma insort_key_below: "\<forall>y \<in> set b. k y < k x \<Longrightarrow>
    insort_key k x (b @ ys) = b @ insort_key k x ys"
  by (induction b) auto

lemma insort_key_front: "\<forall>y \<in> set ys. k x \<le> k y \<Longrightarrow> insort_key k x ys = x # ys"
  by (cases ys) auto

lemma later_bins:
  assumes "\<And>b. b \<in> set bs \<Longrightarrow> same_key k b" and "sorted_wrt (<) (map (\<lambda>b. k (hd b)) (b # bs))"
    and "y \<in> set (concat bs)"
  shows "k (hd b) < k y"
proof -
  from assms(3) obtain c where c: "c \<in> set bs" "y \<in> set c" by auto
  then have "k (hd b) < k (hd c)" using assms(2) by auto
  then show ?thesis using same_keyD [OF assms(1) [OF c(1)] c(2)] by simp
qed

lemma concat_ins_bins:
  assumes "\<And>b. b \<in> set bs \<Longrightarrow> same_key k b" and "\<And>b. b \<in> set bs \<Longrightarrow> b \<noteq> []"
    and "sorted_wrt (<) (map (\<lambda>b. k (hd b)) bs)"
  shows "concat (ins_bins k x bs) = insort_key k x (concat bs)"
  using assms
proof (induction bs)
  case (Cons b bs)
  have kb: "k y = k (hd b)" if "y \<in> set b" for y
    using same_keyD [OF Cons.prems(1) [of b] that] by simp
  have above: "k (hd b) < k y" if "y \<in> set (concat bs)" for y
    by (rule later_bins [OF _ Cons.prems(3) that]) (use Cons.prems(1) in simp)
  have IH: "concat (ins_bins k x bs) = insort_key k x (concat bs)"
    by (rule Cons.IH) (use Cons.prems in simp_all)
  show ?case
  proof (cases "k (hd b) < k x")
    case True
    have "\<forall>y \<in> set b. k y < k x" using kb True by metis
    from insort_key_below [OF this, of "concat bs"] True IH show ?thesis by auto
  next
    case False
    have "\<forall>y \<in> set (b @ concat bs). k x \<le> k y"
    proof
      fix y assume "y \<in> set (b @ concat bs)"
      then have "k (hd b) \<le> k y" using kb [of y] above [of y] by fastforce
      with False show "k x \<le> k y" by simp
    qed
    from insort_key_front [OF this] False show ?thesis by auto
  qed
qed simp

lemma concat_del_bins:
  assumes "x \<in> set (concat bs)" and "\<And>b. b \<in> set bs \<Longrightarrow> same_key k b"
    and "sorted_wrt (<) (map (\<lambda>b. k (hd b)) bs)"
  shows "concat (del_bins k x bs) = remove1 x (concat bs)"
proof -
  let ?pre = "takeWhile (\<lambda>b. k (hd b) < k x) bs" and ?post = "dropWhile (\<lambda>b. k (hd b) < k x) bs"
  note split = del_bins_split [OF assms(1) assms(2) [unfolded same_key_def] assms(3)]
  have "x \<notin> set b" if "b \<in> set ?pre" for b
    using set_takeWhileD [OF that] same_keyD [OF assms(2), of b x] by auto
  then have "x \<notin> set (concat ?pre)" by auto
  then have "remove1 x (concat ?pre @ concat ?post) = concat ?pre @ remove1 x (concat ?post)"
    by (simp add: remove1_append)
  moreover have "concat bs = concat ?pre @ concat ?post" by (simp flip: concat_append)
  moreover have "remove1 x (concat ?post) = concat (drop_item x ?post)"
    using split(2,3) by (cases ?post) (auto simp: drop_item_def remove1_append)
  ultimately show ?thesis by (simp add: split(1))
qed

lemma represents_sorted_bins:
  assumes "represents q bs"
  shows "\<And>b. b \<in> set bs \<Longrightarrow> same_key (key q) b" "\<And>b. b \<in> set bs \<Longrightarrow> b \<noteq> []"
    "sorted_wrt (<) (map (\<lambda>b. key q (hd b)) bs)"
  using assms by (simp_all add: represents_def bin_ok_def)

lemma represents_concat_ins:
  "represents q bs \<Longrightarrow> concat (ins_bins (key q) x bs) = insort_key (key q) x (concat bs)"
  by (rule concat_ins_bins) (rule represents_sorted_bins, assumption+)+

lemma represents_concat_del:
  "represents q bs \<Longrightarrow> x \<in> set (concat bs) \<Longrightarrow>
   concat (del_bins (key q) x bs) = remove1 x (concat bs)"
  by (rule concat_del_bins) (assumption | rule represents_sorted_bins)+

lemma sorted_concat_bins:
  assumes "\<And>b. b \<in> set bs \<Longrightarrow> same_key k b" and "sorted_wrt (<) (map (\<lambda>b. k (hd b)) bs)"
  shows "sorted (map k (concat bs))"
  using assms
proof (induction bs)
  case (Cons b bs)
  have b: "map k b = replicate (length b) (k (hd b))"
    using same_keyD [OF Cons.prems(1) [of b]] by (intro replicate_eqI) auto
  have "k (hd b) \<le> y" if "y \<in> set (map k (concat bs))" for y
    using that later_bins [OF _ Cons.prems(2)] Cons.prems(1) less_imp_le by (metis imageE list.set_map list.set_intros(2))
  moreover have "sorted (map k (concat bs))" by (rule Cons.IH) (use Cons.prems in simp_all)
  ultimately show ?case by (simp add: b sorted_append)
qed simp

lemma represents_sorted: "represents q bs \<Longrightarrow> sorted (map (key q) (concat bs))"
  by (rule sorted_concat_bins) (assumption | rule represents_sorted_bins)+


section \<open>The operations on a well-formed queue\<close>

lemma represents_flags [simp]: "represents (q\<lparr>flags := f\<rparr>) bs = represents q bs"
  by (simp add: represents_def bin_ok_def)

lemma represents_freed [simp]: "represents (q\<lparr>freed := f\<rparr>) bs = represents q bs"
  by (simp add: represents_def bin_ok_def key_def fun_eq_iff same_key_def)

lemma setFlag_simps [simp]:
  "represents (setFlag q e m) bs = represents q bs" "represents (clearFlag q e m) bs = represents q bs"
  "key (setFlag q e m) = key q" "key (clearFlag q e m) = key q"
  "ev_when (setFlag q e m) = ev_when q" "ev_when (clearFlag q e m) = ev_when q"
  "curTick (setFlag q e m) = curTick q" "curTick (clearFlag q e m) = curTick q"
  "priority (setFlag q e m) = priority q" "priority (clearFlag q e m) = priority q"
  "freed (setFlag q e m) = freed q" "freed (clearFlag q e m) = freed q"
  "isMain (setFlag q e m) = isMain q" "isMain (clearFlag q e m) = isMain q"
  "flags (setFlag q e m) = (flags q)(e := flags q e OR m)"
  "flags (clearFlag q e m) = (flags q)(e := flags q e AND NOT m)"
  by (simp_all add: setFlag_def clearFlag_def)

lemma mainFlag_simps [simp]:
  "represents (mainFlag q e) bs = represents q bs" "key (mainFlag q e) = key q"
  "ev_when (mainFlag q e) = ev_when q" "curTick (mainFlag q e) = curTick q"
  "freed (mainFlag q e) = freed q"
  by (simp_all add: mainFlag_def)

lemma isSet_clear_same: "\<not> isSet (f AND NOT m) m"
  by (simp add: isSet_def and.assoc)

lemma isSet_clear_other: "m AND a = 0 \<Longrightarrow> isSet (f AND NOT m) a = isSet f a"
proof -
  assume "m AND a = 0"
  moreover have "a = (m OR NOT m) AND a" by simp
  ultimately have "NOT m AND a = a" by (simp only: bit.conj_disj_distrib2 or.left_neutral)
  then show ?thesis by (simp add: isSet_def and.assoc)
qed

lemma isSet_set_other: "m AND a = 0 \<Longrightarrow> isSet (f OR m) a = isSet f a"
  by (simp add: isSet_def bit.conj_disj_distrib2)

lemma isSet_set_same: "m \<noteq> 0 \<Longrightarrow> isSet (f OR m) m"
  by (simp add: isSet_def bit.conj_disj_distrib2)

lemma flag_disjoint:
  "Scheduled \<noteq> 0" "IsMainQueue AND Scheduled = 0" "Squashed AND Scheduled = 0"
  "Scheduled AND Squashed = 0" "Scheduled AND AutoDelete = 0" "Squashed AND AutoDelete = 0"
  "IsMainQueue AND Squashed = 0"
  by (simp_all add: flag_defs)

lemma flag_word_simps [simp]:
  "isSet (f OR Scheduled) Scheduled" "\<not> isSet (f AND NOT m) m"
  "isSet (f OR IsMainQueue) Scheduled = isSet f Scheduled"
  "isSet (f AND NOT IsMainQueue) Scheduled = isSet f Scheduled"
  "isSet (f AND NOT Squashed) Scheduled = isSet f Scheduled"
  "isSet (f AND NOT Scheduled) Squashed = isSet f Squashed"
  "isSet (f AND NOT Scheduled) AutoDelete = isSet f AutoDelete"
  "isSet (f AND NOT Squashed) AutoDelete = isSet f AutoDelete"
  "\<not> isSet 0 m"
  by (simp_all add: isSet_clear_same isSet_clear_other isSet_set_other isSet_set_same flag_disjoint)
     (simp add: isSet_def)

lemma scheduled_simps [simp]:
  "scheduled (mainFlag (setFlag q e Scheduled) e) x \<longleftrightarrow> x = e \<or> scheduled q x"
  "scheduled (clearFlag q e Scheduled) x \<longleftrightarrow> x \<noteq> e \<and> scheduled q x"
  "scheduled (clearFlag q e Squashed) x \<longleftrightarrow> scheduled q x"
  by (auto simp: scheduled_def mainFlag_def)

lemma key_upd: "key (q\<lparr>ev_when := (ev_when q)(e := w)\<rparr>) = (key q)(e := (w, priority q e))"
  by (simp add: key_def fun_eq_iff)

lemma schedule_refines:
  assumes "evq_ok q es" and "e \<notin> set es" and "utick (curTick q) \<le> utick w" and "initialized q e"
  defines "k \<equiv> (key q)(e := (w, priority q e))"
  shows "\<exists>q'. schedule q e w = Some (Inr q') \<and> evq_ok q' (insort_key k e es) \<and> key q' = k"
proof -
  obtain bs where R: "represents q bs" and es: "concat bs = es" and sch: "\<And>x. scheduled q x \<longleftrightarrow> x \<in> set es"
    using assms(1) by (auto simp: evq_ok_def)
  let ?q = "q\<lparr>ev_when := (ev_when q)(e := w)\<rparr>"
  have "represents ?q bs"
    by (rule represents_cong [OF R]) (use assms(2) es in \<open>auto simp: key_def\<close>)
  from eq_insert_refines [OF this, of e] assms(2) es obtain q1 where
    q1: "eq_insert ?q e = Some q1" "represents q1 (ins_bins (key ?q) e bs)" "key q1 = key ?q" "flags q1 = flags q"
    by auto
  have "concat (ins_bins (key ?q) e bs) = insort_key k e es"
    using represents_concat_ins [OF \<open>represents ?q bs\<close>] es by (simp add: key_upd k_def)
  moreover have "scheduled q1 x \<longleftrightarrow> x \<in> set es" for x
    using sch q1(4) by (simp add: scheduled_def)
  moreover have "\<not> scheduled q e" using sch assms(2) by simp
  ultimately show ?thesis using q1 assms(3,4)
    by (auto simp: schedule_def evq_ok_def set_insort_key key_upd k_def)
qed


lemma deschedule_refines:
  assumes "evq_ok q es" and "e \<in> set es" and "initialized q e"
  shows "\<exists>q'. deschedule q e = Some (Inr q') \<and> evq_ok q' (remove1 e es) \<and> key q' = key q
    \<and> \<not> scheduled q' e \<and> \<not> squashed q' e
    \<and> freed q' = (if isSet (flags q e) AutoDelete then (freed q)(e := True) else freed q)"
proof -
  obtain bs where R: "represents q bs" and es: "concat bs = es"
    and sch: "\<And>x. scheduled q x \<longleftrightarrow> x \<in> set es"
    using assms(1) by (auto simp: evq_ok_def)
  from eq_remove_refines [OF R, of e] assms(2) es obtain q1 where
    q1: "eq_remove q e = Some (Inr q1)" "represents q1 (del_bins (key q) e bs)" "key q1 = key q"
      "flags q1 = flags q" "freed q1 = freed q"
    by auto
  let ?q2 = "clearFlag (clearFlag q1 e Squashed) e Scheduled"
  have "concat (del_bins (key q) e bs) = remove1 e es"
    using represents_concat_del [OF R, of e] assms(2) es by simp
  moreover have "distinct es" using R es by (auto simp: represents_def)
  moreover have sch1: "scheduled q1 x \<longleftrightarrow> x \<in> set es" for x
    using sch q1(4) by (simp add: scheduled_def)
  ultimately have ok2: "evq_ok ?q2 (remove1 e es)"
    using q1(2) by (auto simp: evq_ok_def)
  have d: "deschedule q e = Some (if isSet (flags ?q2 e) AutoDelete then delete_event ?q2 e else Inr ?q2)"
    using sch assms(2,3) q1(1) by (simp add: deschedule_def)
  have auto: "isSet (flags ?q2 e) AutoDelete = isSet (flags q e) AutoDelete"
    by (simp add: q1(4))
  have ns: "\<not> scheduled ?q2 e" "\<not> squashed ?q2 e"
    by (simp_all add: squashed_def)
  show ?thesis
  proof (cases "isSet (flags q e) AutoDelete")
    case True
    let ?q3 = "?q2\<lparr>flags := (flags ?q2)(e := 0), freed := (freed ?q2)(e := True)\<rparr>"
    have "deschedule q e = Some (Inr ?q3)" using True d auto ns by (simp add: delete_event_def)
    moreover have "scheduled ?q3 x = scheduled ?q2 x" for x
      using ns(1) by (simp add: scheduled_def)
    then have "evq_ok ?q3 (remove1 e es)" using ok2 unfolding evq_ok_def by simp
    moreover have "\<not> scheduled ?q3 e" "\<not> squashed ?q3 e"
      by (simp_all add: scheduled_def squashed_def)
    ultimately show ?thesis using True q1(3,5) by (simp add: key_def fun_eq_iff)
  next
    case False
    then show ?thesis using d auto ns ok2 q1(3,5) by simp
  qed
qed

lemma reschedule_refines:
  assumes "evq_ok q es" and "e \<in> set es" and "utick (curTick q) \<le> utick w" and "initialized q e"
  defines "k \<equiv> (key q)(e := (w, priority q e))"
  shows "\<exists>q'. reschedule q e w always = Some (Inr q')
    \<and> evq_ok q' (insort_key k e (remove1 e es)) \<and> key q' = k \<and> \<not> squashed q' e"
proof -
  obtain bs where R: "represents q bs" and es: "concat bs = es"
    and sch: "\<And>x. scheduled q x \<longleftrightarrow> x \<in> set es"
    using assms(1) by (auto simp: evq_ok_def)
  from eq_remove_refines [OF R, of e] assms(2) es obtain q1 where
    q1: "eq_remove q e = Some (Inr q1)" "represents q1 (del_bins (key q) e bs)" "key q1 = key q"
      "flags q1 = flags q" "freed q1 = freed q"
    by auto
  have prio: "priority q1 = priority q"
    using q1(3) by (auto simp: key_def fun_eq_iff)
  let ?bs = "del_bins (key q) e bs" and ?q = "q1\<lparr>ev_when := (ev_when q1)(e := w)\<rparr>"
  have cc: "concat ?bs = remove1 e es"
    using represents_concat_del [OF R, of e] assms(2) es by simp
  moreover have dist: "distinct es" using R es by (auto simp: represents_def)
  ultimately have notin: "e \<notin> set (concat ?bs)" by simp
  have "represents ?q ?bs"
    by (rule represents_cong [OF q1(2)]) (use notin in \<open>auto simp: key_def\<close>)
  from eq_insert_refines [OF this notin] obtain q2 where
    q2: "eq_insert ?q e = Some q2" "represents q2 (ins_bins (key ?q) e ?bs)" "key q2 = key ?q"
      "flags q2 = flags q1"
    by auto
  let ?q3 = "mainFlag (setFlag (clearFlag q2 e Squashed) e Scheduled) e"
  have k: "key ?q = k" by (simp add: key_upd k_def q1(3) prio)
  have "concat (ins_bins (key ?q) e ?bs) = insort_key k e (remove1 e es)"
    using represents_concat_ins [OF \<open>represents ?q ?bs\<close>, of e] cc k by simp
  moreover have "scheduled q2 x \<longleftrightarrow> x \<in> set es" for x
    using sch q2(4) q1(4) by (simp add: scheduled_def)
  ultimately have "evq_ok ?q3 (insort_key k e (remove1 e es))"
    using q2(2) dist assms(2) by (auto simp: evq_ok_def set_insort_key)
  moreover have "reschedule q e w always = Some (Inr ?q3)"
    using assms(2-4) sch q1(1) q2(1) by (simp add: reschedule_def)
  moreover have "key ?q3 = k" using q2(3) k by simp
  moreover have "\<not> squashed ?q3 e"
    by (simp add: squashed_def mainFlag_def isSet_set_other isSet_clear_other isSet_clear_same flag_disjoint)
  ultimately show ?thesis by blast
qed

lemma unlink_head_refines:
  assumes "evq_ok q (e # es)"
  shows "head q = Some e" and "evq_ok (unlink_head q e) es" and "\<forall>y \<in> set es. key q e \<le> key q y"
    and "key (unlink_head q e) = key q"
    and "flags (unlink_head q e) = (flags q)(e := flags q e AND NOT Scheduled)"
proof -
  obtain bs where R: "represents q bs" and es: "concat bs = e # es"
    and sch: "\<And>x. scheduled q x \<longleftrightarrow> x \<in> set (e # es)"
    using assms by (auto simp: evq_ok_def)
  obtain b cs where b: "bs = b # cs" using es by (cases bs) auto
  then obtain xs where xs: "b = e # xs" using R es by (cases b) (auto simp: represents_def bin_ok_def)
  have bsx: "bs = (e # xs) # cs" "es = xs @ concat cs" using b xs es by simp_all
  then show h: "head q = Some e" using R by (simp add: represents_def)
  show "\<forall>y \<in> set es. key q e \<le> key q y"
    using represents_sorted [OF R] es by simp
  have B: "bin_ok q (e # xs)" and D: "distinct (concat bs)" using R bsx by (simp_all add: represents_def)
  have dx: "distinct (e # xs)" using D bsx by simp
  have ni: "nextInBin q e = first_of xs"
    by (rule chain_None_first [of "nextInBin q"]) (use B in \<open>simp add: bin_ok_def\<close>)
  from eq_remove_refines [OF R, of e] es obtain q1 where
    q1: "eq_remove q e = Some (Inr q1)" "represents q1 (del_bins (key q) e bs)" by auto
  have "eq_remove q e = Some (Inr (if xs = [] then q\<lparr>head := nextBin q e\<rparr>
      else q\<lparr>nextBin := (nextBin q)(hd xs := nextBin q e), head := Some (hd xs)\<rparr>))"
    using removeItem_hd [OF B dx] h by (simp add: eq_remove_def ev_order)
  with q1(1) have q1': "q1 = (if xs = [] then q\<lparr>head := nextBin q e\<rparr>
      else q\<lparr>nextBin := (nextBin q)(hd xs := nextBin q e), head := Some (hd xs)\<rparr>)" by simp
  have u: "unlink_head q e = clearFlag q1 e Scheduled"
    by (cases xs) (simp_all add: unlink_head_def ni q1' clearFlag_def Let_def)
  have "concat (del_bins (key q) e bs) = es"
    using represents_concat_del [OF R, of e] es by simp
  moreover have "e \<notin> set es" using D es by simp
  moreover have "flags q1 = flags q" by (simp add: q1')
  then have "scheduled q1 x \<longleftrightarrow> x \<in> set (e # es)" for x using sch [of x] by (simp add: scheduled_def)
  ultimately show "evq_ok (unlink_head q e) es"
    unfolding u evq_ok_def using q1(2) by (simp, blast)
  show "key (unlink_head q e) = key q" by (simp add: u q1')
  show "flags (unlink_head q e) = (flags q)(e := flags q e AND NOT Scheduled)" by (simp add: u q1')
qed


section \<open>The consistency check\<close>

lemma verify_item:
  "verify_loop q bin (Some x) t p seen =
     (if key q x < (t, p) \<or> x \<in> set seen then Some False
      else verify_loop q bin (nextInBin q x) (ev_when q x) (priority q x) (x # seen))"
  by (subst verify_loop.simps) (auto simp: key_def less_prod_def)

lemma verify_bin_end:
  "verify_loop q (Some b) None t p seen = verify_loop q (nextBin q b) (nextBin q b) t p seen"
  "verify_loop q None None t p seen = Some True"
  by (subst verify_loop.simps, simp)+

lemma verify_bin:
  assumes "chain (nextInBin q) item xs None" and "xs \<noteq> []" and "\<And>x. x \<in> set xs \<Longrightarrow> key q x = (t', p')"
    and "(t, p) \<le> (t', p')" and "distinct xs" and "set xs \<inter> set seen = {}"
  shows "verify_loop q bin item t p seen = verify_loop q bin None t' p' (rev xs @ seen)"
  using assms
proof (induction xs arbitrary: item t p seen)
  case (Cons x xs)
  have kx: "key q x = (t', p')" using Cons.prems(3) by simp
  then have wp: "ev_when q x = t'" "priority q x = p'" by (simp_all add: key_def)
  have "\<not> key q x < (t, p)" using kx Cons.prems(4) by (simp only: not_less)
  moreover have item: "item = Some x" using Cons.prems(1) by simp
  ultimately have step: "verify_loop q bin item t p seen
      = verify_loop q bin (nextInBin q x) t' p' (x # seen)"
    using Cons.prems(6) wp by (simp add: verify_item)
  show ?case
  proof (cases "xs = []")
    case True
    with step Cons.prems(1) show ?thesis by simp
  next
    case False
    have "verify_loop q bin (nextInBin q x) t' p' (x # seen)
        = verify_loop q bin None t' p' (rev xs @ x # seen)"
      by (rule Cons.IH) (use Cons.prems False in auto)
    with step show ?thesis by simp
  qed
qed simp

lemma verify_bins:
  assumes "chain (nextBin q) bin (map hd bs) None" and "\<And>b. b \<in> set bs \<Longrightarrow> bin_ok q b"
    and "sorted_wrt (<) (map (\<lambda>b. key q (hd b)) bs)" and "distinct (concat bs)"
    and "set (concat bs) \<inter> set seen = {}" and "bs \<noteq> [] \<Longrightarrow> (t, p) \<le> key q (hd (hd bs))"
  shows "verify_loop q bin bin t p seen = Some True"
  using assms
proof (induction bs arbitrary: bin t p seen)
  case Nil
  then show ?case by (simp add: verify_bin_end)
next
  case (Cons b bs)
  have B: "bin_ok q b" using Cons.prems(2) by simp
  have bin: "bin = Some (hd b)" and rest: "chain (nextBin q) (nextBin q (hd b)) (map hd bs) None"
    using Cons.prems(1) by simp_all
  obtain t' p' where k: "key q (hd b) = (t', p')" by fastforce
  have "verify_loop q bin (Some (hd b)) t p seen = verify_loop q bin None t' p' (rev b @ seen)"
  proof (rule verify_bin)
    show "chain (nextInBin q) (Some (hd b)) b None" "b \<noteq> []" using B by (simp_all add: bin_ok_def)
    show "key q x = (t', p')" if "x \<in> set b" for x
      using B same_keyD [OF _ that, of "key q"] k by (simp add: bin_ok_def)
  qed (use Cons.prems k in auto)
  also have "\<dots> = verify_loop q (nextBin q (hd b)) (nextBin q (hd b)) t' p' (rev b @ seen)"
    by (simp add: bin verify_bin_end)
  also have "\<dots> = Some True"
  proof (rule Cons.IH [OF rest])
    show "bin_ok q c" if "c \<in> set bs" for c using Cons.prems(2) that by simp
    show "sorted_wrt (<) (map (\<lambda>b. key q (hd b)) bs)" "distinct (concat bs)"
      using Cons.prems(3,4) by simp_all
    show "set (concat bs) \<inter> set (rev b @ seen) = {}" using Cons.prems(4,5) by auto
    show "(t', p') \<le> key q (hd (hd bs))" if "bs \<noteq> []"
      using Cons.prems(3) k that by (cases bs) (auto intro: less_imp_le)
  qed
  finally show ?case using bin by simp
qed

lemma debugVerify_represents:
  assumes "represents q bs" and "\<And>e. e \<in> set (concat bs) \<Longrightarrow> (0, 0) \<le> key q e"
  shows "debugVerify q = Some True"
  unfolding debugVerify_def
proof (rule verify_bins)
  show "(0, 0) \<le> key q (hd (hd bs))" if "bs \<noteq> []"
  proof -
    have "hd bs \<in> set bs" using that by simp
    moreover from this have "hd (hd bs) \<in> set (hd bs)" by (rule represents_hd [OF assms(1)])
    ultimately have "hd (hd bs) \<in> set (concat bs)" by auto
    then show ?thesis by (rule assms(2))
  qed
qed (use assms(1) in \<open>simp_all add: represents_def\<close>)


section \<open>Sequences of operations\<close>

text \<open>
  The steps the simulator and the handlers of events take on a queue: the public operations, the
  unlinking of the head by \<open>serviceOne\<close>, and the deletion of an event that is not scheduled.
\<close>

inductive qstep :: "evq \<Rightarrow> evq \<Rightarrow> bool" where
  step_schedule: "schedule q e w = Some (Inr q') \<Longrightarrow> qstep q q'"
| step_deschedule: "deschedule q e = Some (Inr q') \<Longrightarrow> qstep q q'"
| step_reschedule: "reschedule q e w always = Some (Inr q') \<Longrightarrow> qstep q q'"
| step_take: "head q = Some e \<Longrightarrow> qstep q (unlink_head q e)"
| step_delete: "delete_event q e = Inr q' \<Longrightarrow> qstep q q'"

inductive_cases qstepE: "qstep q q'"

lemma schedule_InrD:
  assumes "schedule q e w = Some (Inr q')"
  shows "utick (curTick q) \<le> utick w" "\<not> scheduled q e" "initialized q e"
  using assms by (auto simp: schedule_def split: if_splits)

lemma deschedule_InrD:
  assumes "deschedule q e = Some (Inr q')"
  shows "scheduled q e" "initialized q e"
  using assms by (auto simp: deschedule_def split: if_splits)

lemma reschedule_InrD:
  assumes "reschedule q e w always = Some (Inr q')"
  shows "utick (curTick q) \<le> utick w" "always \<or> scheduled q e" "initialized q e"
  using assms by (auto simp: reschedule_def split: if_splits)

lemma reschedule_unscheduled:
  assumes "\<not> scheduled q e" and "reschedule q e w always = Some (Inr q')" and "evq_ok q es"
  shows "evq_ok q' (insort_key ((key q)(e := (w, priority q e))) e es)"
proof -
  note c = reschedule_InrD [OF assms(2)]
  have e: "e \<notin> set es" using assms(1,3) by (auto simp: evq_ok_def)
  obtain q1 where q1: "schedule q e w = Some (Inr q1)"
      "evq_ok q1 (insort_key ((key q)(e := (w, priority q e))) e es)"
    using schedule_refines [OF assms(3) e c(1,3)] by blast
  obtain q2 where q2: "eq_insert (q\<lparr>ev_when := (ev_when q)(e := w)\<rparr>) e = Some q2"
      "q1 = mainFlag (setFlag q2 e Scheduled) e"
    using q1(1) by (auto simp: schedule_def split: if_splits)
  have q': "q' = mainFlag (setFlag (clearFlag q2 e Squashed) e Scheduled) e"
    using assms(1,2) c q2(1) by (auto simp: reschedule_def)
  from q1(2) show ?thesis unfolding q' q2(2) evq_ok_def by simp
qed

lemma qstep_keeps_ok: "qstep q q' \<Longrightarrow> evq_ok q es \<Longrightarrow> \<exists>es'. evq_ok q' es'"
proof (erule qstepE)
  assume ok: "evq_ok q es"
  then have sch: "\<And>e. scheduled q e \<longleftrightarrow> e \<in> set es" by (simp add: evq_ok_def)
  { fix e w assume s: "schedule q e w = Some (Inr q')"
    have "e \<notin> set es" using schedule_InrD(2) [OF s] sch by simp
    from schedule_refines [OF ok this schedule_InrD(1,3) [OF s]] s
    show "\<exists>es'. evq_ok q' es'" by auto }
  { fix e assume s: "deschedule q e = Some (Inr q')"
    have "e \<in> set es" using deschedule_InrD(1) [OF s] sch by simp
    from deschedule_refines [OF ok this deschedule_InrD(2) [OF s]] s
    show "\<exists>es'. evq_ok q' es'" by auto }
  { fix e w always assume s: "reschedule q e w always = Some (Inr q')"
    show "\<exists>es'. evq_ok q' es'"
    proof (cases "scheduled q e")
      case True
      then have "e \<in> set es" using sch by simp
      from reschedule_refines [OF ok this reschedule_InrD(1,3) [OF s], of always] s
      show ?thesis by auto
    next
      case False
      from reschedule_unscheduled [OF this s ok] show ?thesis by blast
    qed }
  { fix e assume h: "q' = unlink_head q e" "head q = Some e"
    show "\<exists>es'. evq_ok q' es'"
    proof (cases es)
      case Nil
      then have "head q = None" using ok by (auto simp: evq_ok_def represents_def bin_ok_def)
      with h show ?thesis by simp
    next
      case (Cons x xs)
      with unlink_head_refines(1,2) [of q x xs] ok h show ?thesis by auto
    qed }
  { fix e assume d: "delete_event q e = Inr q'"
    then have q': "\<not> scheduled q e" "q' = q\<lparr>flags := (flags q)(e := 0), freed := (freed q)(e := True)\<rparr>"
      by (auto simp: delete_event_def res_simps)
    then have "scheduled q' x = scheduled q x" for x by (simp add: scheduled_def)
    with ok show "\<exists>es'. evq_ok q' es'" unfolding evq_ok_def q'(2) by auto }
qed

section \<open>Properties\<close>

text \<open>C26: In every queue that a sequence of the public operations, of servicing and of deleting can
  reach from a well-formed queue, the scheduled events form one list, sorted by time and
  priority, that the linked bins represent; \<open>Scheduled\<close> is set on exactly these events.\<close>
theorem reachable_queue_ok:
  assumes "evq_ok q0 es0" and "qstep\<^sup>*\<^sup>* q0 q"
  shows "\<exists>es. evq_ok q es \<and> sorted (map (key q) es) \<and> distinct es"
proof -
  from assms(2) have "\<exists>es. evq_ok q es"
    by (induction) (use assms(1) qstep_keeps_ok in blast)+
  then obtain es where es: "evq_ok q es" ..
  then have "sorted (map (key q) es)" "distinct es"
    using represents_sorted by (auto simp: evq_ok_def represents_def)
  with es show ?thesis by blast
qed

text \<open>A queue with no event and one initialised event, for the concrete runs.\<close>

definition queue0 :: evq where
  "queue0 = \<lparr>head = None, nextBin = (\<lambda>_. None), nextInBin = (\<lambda>_. None), ev_when = (\<lambda>_. 0),
     priority = (\<lambda>_. 0), flags = (\<lambda>_. Initialized), freed = (\<lambda>_. False), curTick = 0, isMain = True\<rparr>"

lemma queue0_ok: "evq_ok queue0 []"
proof -
  have "represents queue0 []" by (simp add: represents_def queue0_def)
  moreover have "\<not> scheduled queue0 e" for e
    by (simp add: scheduled_def queue0_def isSet_def flag_defs)
  ultimately show ?thesis unfolding evq_ok_def by (metis concat.simps(1) empty_iff list.set(1))
qed

lemma reachable_queue_ok_witness:
  "\<exists>q es. qstep\<^sup>*\<^sup>* queue0 q \<and> evq_ok q es \<and> scheduled q 5 \<and> sorted (map (key q) es)"
proof -
  have "utick (curTick queue0) \<le> utick 10" "initialized queue0 5"
    by (simp_all add: queue0_def utick_def initialized_def flag_defs)
  with schedule_refines [OF queue0_ok, of 5 10] obtain q where
    q: "schedule queue0 5 10 = Some (Inr q)" "evq_ok q [5]" by auto
  then have "qstep\<^sup>*\<^sup>* queue0 q" by (blast intro: step_schedule)
  with reachable_queue_ok [OF queue0_ok this] q(2) show ?thesis
    unfolding evq_ok_def by (metis list.set_intros(1))
qed


text \<open>C27: \<open>schedule\<close> on every branch: it stops on a time in the past, an event already scheduled or
  one not initialised; otherwise it terminates, and the event stands at its new time in front of
  the events with the same time and priority, the order of the others unchanged.\<close>
theorem schedule_outcome:
  assumes "evq_ok q es"
  shows "if utick w < utick (curTick q) \<or> scheduled q e \<or> \<not> initialized q e
    then schedule q e w = Some (Inl AssertFailed)
    else \<exists>q'. schedule q e w = Some (Inr q') \<and> key q' = (key q)(e := (w, priority q e))
      \<and> evq_ok q' (insort_key (key q') e es)"
proof (cases "utick w < utick (curTick q) \<or> scheduled q e \<or> \<not> initialized q e")
  case True
  then show ?thesis by (auto simp: schedule_def not_le)
next
  case False
  with assms have "e \<notin> set es" by (simp add: evq_ok_def)
  with False schedule_refines [OF assms this, of w] show ?thesis by (auto simp: not_less)
qed

lemma schedule_outcome_witness:
  "\<exists>q'. schedule queue0 7 10 = Some (Inr q') \<and> evq_ok q' [7]"
  using schedule_outcome [OF queue0_ok, of 10 7]
  by (auto simp: queue0_def utick_def scheduled_def initialized_def isSet_def flag_defs)

text \<open>\<open>deschedule\<close> on every branch: it stops on an event that is not scheduled or not
  initialised; otherwise it terminates without reaching the panics of \<open>remove\<close>, takes out exactly
  that event, clears \<open>Squashed\<close> and \<open>Scheduled\<close>, and deletes the event iff it is \<open>AutoDelete\<close>.\<close>
theorem deschedule_outcome:
  assumes "evq_ok q es"
  shows "if \<not> scheduled q e \<or> \<not> initialized q e then deschedule q e = Some (Inl AssertFailed)
    else \<exists>q'. deschedule q e = Some (Inr q') \<and> key q' = key q \<and> evq_ok q' (remove1 e es)
      \<and> \<not> squashed q' e
      \<and> freed q' = (if isSet (flags q e) AutoDelete then (freed q)(e := True) else freed q)"
proof (cases "\<not> scheduled q e \<or> \<not> initialized q e")
  case True
  then show ?thesis by (auto simp: deschedule_def)
next
  case False
  with assms have "e \<in> set es" by (simp add: evq_ok_def)
  from deschedule_refines [OF assms this] False show ?thesis by auto
qed

definition queue1 :: evq where
  "queue1 = queue0\<lparr>head := Some 3, nextBin := (\<lambda>e. if e = 3 then Some 4 else None),
     nextInBin := (\<lambda>e. if e = 3 then Some 2 else None),
     ev_when := (\<lambda>e. if e = 4 then 9 else 5),
     flags := (\<lambda>e. if e \<in> {2, 3, 4} then Initialized OR Scheduled else Initialized)\<rparr>"

lemma queue1_ok: "evq_ok queue1 [3, 2, 4]"
proof -
  have "represents queue1 [[3, 2], [4]]"
    by (simp add: represents_def bin_ok_def same_key_def key_def queue1_def queue0_def)
  moreover have "scheduled queue1 e \<longleftrightarrow> e \<in> set [3, 2, 4]" for e
    by (simp add: scheduled_def queue1_def queue0_def isSet_def flag_defs)
  ultimately show ?thesis unfolding evq_ok_def
    by (intro conjI allI exI [of _ "[[3, 2], [4]]"]) simp_all
qed

lemma deschedule_outcome_witness:
  "\<exists>q'. deschedule queue1 2 = Some (Inr q') \<and> evq_ok q' [3, 4]"
  using deschedule_outcome [OF queue1_ok, of 2]
  by (auto simp: queue1_def queue0_def scheduled_def initialized_def isSet_def flag_defs)

text \<open>\<open>reschedule\<close> of a scheduled event moves it: the result is the queue without the event with
  the event inserted again at the new time, and a squashed event is live again.\<close>
theorem reschedule_moves:
  assumes "evq_ok q es" and "scheduled q e" and "initialized q e" and "utick (curTick q) \<le> utick w"
  shows "\<exists>q'. reschedule q e w always = Some (Inr q') \<and> key q' = (key q)(e := (w, priority q e))
    \<and> evq_ok q' (insort_key (key q') e (remove1 e es)) \<and> \<not> squashed q' e"
proof -
  have "e \<in> set es" using assms(1,2) by (simp add: evq_ok_def)
  from reschedule_refines [OF assms(1) this assms(4,3), of always] show ?thesis by auto
qed

lemma reschedule_moves_witness:
  "\<exists>q'. reschedule queue1 3 20 False = Some (Inr q') \<and> evq_ok q' [2, 4, 3]"
proof -
  have g: "scheduled queue1 3" "initialized queue1 3" "utick (curTick queue1) \<le> utick 20"
    by (simp_all add: queue1_def queue0_def scheduled_def initialized_def isSet_def flag_defs utick_def)
  have "key queue1 = (\<lambda>e. (if e = 4 then 9 else 5, 0))"
    by (simp add: key_def fun_eq_iff queue1_def queue0_def)
  with reschedule_moves [OF queue1_ok g, of False] show ?thesis by auto
qed

text \<open>C28: \<open>serviceOne\<close> takes the head, which has the least time and priority of the queue; \<open>process\<close>
  runs on the queue without it, with its \<open>Scheduled\<close> flag cleared, and if it fails or does not return so
  does \<open>serviceOne\<close>.  After it an exit event is returned, an assertion failing if it is marked
  \<open>AutoDelete\<close>; another event is deleted when it is marked \<open>AutoDelete\<close> and not scheduled again.  A squashed
  event is taken out the same way, its mark cleared, its \<open>process\<close> not run, and it too is deleted when
  marked \<open>AutoDelete\<close>.\<close>
theorem serviceOne_takes_least:
  assumes "evq_ok q (e # es)"
  shows "(\<forall>y \<in> set es. key q e \<le> key q y) \<and> (\<exists>q1. evq_ok q1 es \<and> key q1 = key q \<and> \<not> scheduled q1 e \<and>
     (if squashed q e
      then \<exists>q2. serviceOne process q = Some (Inr (q2, None)) \<and> evq_ok q2 es \<and> \<not> squashed q2 e \<and>
             freed q2 = (if isSet (flags q e) AutoDelete then (freed q)(e := True) else freed q)
      else (process e q1 = None \<longrightarrow> serviceOne process q = None) \<and>
           (\<forall>x. process e q1 = Some (Inl x) \<longrightarrow> serviceOne process q = Some (Inl x)) \<and>
           (\<forall>q2. process e q1 = Some (Inr q2) \<longrightarrow> serviceOne process q = Some (
              if isSet (flags q2 e) IsExitEvent
              then if isSet (flags q2 e) AutoDelete then Inl AssertFailed else Inr (q2, Some e)
              else if isSet (flags q2 e) AutoDelete \<and> \<not> scheduled q2 e
              then Inr (q2\<lparr>flags := (flags q2)(e := 0), freed := (freed q2)(e := True)\<rparr>, None)
              else Inr (q2, None)))))"
proof (intro conjI exI)
  note u = unlink_head_refines [OF assms]
  let ?q1 = "unlink_head q e"
  show "\<forall>y \<in> set es. key q e \<le> key q y" "evq_ok ?q1 es" "key ?q1 = key q" by (rule u(3) u(2) u(4))+
  have sq: "squashed ?q1 e = squashed q e" by (simp add: squashed_def u(5))
  show ns: "\<not> scheduled ?q1 e" by (simp add: scheduled_def u(5))
  show "if squashed q e
      then \<exists>q2. serviceOne process q = Some (Inr (q2, None)) \<and> evq_ok q2 es \<and> \<not> squashed q2 e \<and>
             freed q2 = (if isSet (flags q e) AutoDelete then (freed q)(e := True) else freed q)
      else (process e ?q1 = None \<longrightarrow> serviceOne process q = None) \<and>
           (\<forall>x. process e ?q1 = Some (Inl x) \<longrightarrow> serviceOne process q = Some (Inl x)) \<and>
           (\<forall>q2. process e ?q1 = Some (Inr q2) \<longrightarrow> serviceOne process q = Some (
              if isSet (flags q2 e) IsExitEvent
              then if isSet (flags q2 e) AutoDelete then Inl AssertFailed else Inr (q2, Some e)
              else if isSet (flags q2 e) AutoDelete \<and> \<not> scheduled q2 e
              then Inr (q2\<lparr>flags := (flags q2)(e := 0), freed := (freed q2)(e := True)\<rparr>, None)
              else Inr (q2, None)))"
  proof (cases "squashed q e")
    case True
    let ?q2 = "clearFlag ?q1 e Squashed"
    let ?q3 = "?q2\<lparr>flags := (flags ?q2)(e := 0), freed := (freed ?q2)(e := True)\<rparr>"
    have nd: "\<not> scheduled ?q2 e" using ns by (simp add: scheduled_def isSet_clear_other flag_disjoint)
    have ad: "isSet (flags ?q2 e) AutoDelete = isSet (flags q e) AutoDelete"
      by (simp add: u(5) isSet_clear_other flag_disjoint)
    have fr: "freed ?q2 = freed q" by (simp add: unlink_head_def clearFlag_def Let_def split: option.split)
    have o2: "evq_ok ?q2 es" using u(2) unfolding evq_ok_def by simp
    have o3: "evq_ok ?q3 es"
    proof -
      have "scheduled ?q3 x = scheduled ?q2 x" for x using nd by (simp add: scheduled_def)
      then show ?thesis using o2 unfolding evq_ok_def by simp
    qed
    have "\<not> squashed ?q2 e" "\<not> squashed ?q3 e"
      by (simp_all add: squashed_def isSet_clear_same)
    moreover have "serviceOne process q = Some (Inr (if isSet (flags q e) AutoDelete then ?q3 else ?q2, None))"
      using True nd ad by (simp add: serviceOne_def u(1) sq Let_def delete_event_def res_simps)
    ultimately show ?thesis using True o2 o3 fr by auto
  next
    case False
    then show ?thesis by (auto simp: serviceOne_def u(1) sq Let_def delete_event_def res_simps)
  qed
qed

lemma serviceOne_takes_least_witness:
  "\<exists>q'. serviceOne (\<lambda>e q. Some (Inr q)) queue1 = Some (Inr (q', None)) \<and> key queue1 3 \<le> key queue1 4"
proof -
  from serviceOne_takes_least [OF queue1_ok] have "key queue1 3 \<le> key queue1 4" by simp
  moreover have "\<exists>q'. serviceOne (\<lambda>e q. Some (Inr q)) queue1 = Some (Inr (q', None))"
    by (simp add: serviceOne_def queue1_def queue0_def unlink_head_def squashed_def isSet_def flag_defs
      clearFlag_def scheduled_def)
  ultimately show ?thesis by blast
qed

text \<open>\<open>debugVerify\<close> terminates and answers true on every well-formed queue whose first event is
  not before (time 0, priority 0); an event at time 0 with a negative priority makes it answer
  false on a well-formed queue.\<close>
theorem debugVerify_answer:
  assumes "evq_ok q es"
  shows "debugVerify q = Some (\<forall>e \<in> set es. (0, 0) \<le> key q e)"
proof -
  obtain bs where R: "represents q bs" and es: "concat bs = es"
    using assms by (auto simp: evq_ok_def)
  show ?thesis
  proof (cases "\<forall>e \<in> set es. (0, 0) \<le> key q e")
    case True
    with debugVerify_represents [OF R] es show ?thesis by simp
  next
    case False
    obtain y ys where y: "es = y # ys" using False by (cases es) auto
    from represents_sorted [OF R] es y have "\<forall>e \<in> set es. key q y \<le> key q e" by auto
    with False have lt: "key q y < (0, 0)" by (meson dual_order.trans not_le)
    from assms y have "head q = Some y" by (simp add: unlink_head_refines(1))
    with lt False show ?thesis by (simp add: debugVerify_def verify_item)
  qed
qed

lemma debugVerify_answer_witness: "debugVerify queue1 = Some True"
  using debugVerify_answer [OF queue1_ok] by (simp add: key_def queue1_def queue0_def)

end
