(* ===== verification/Branch_Pred.thy ===== *)
theory Branch_Pred
  imports Int_Math
begin

text \<open>
  The branch prediction structures of the out-of-order CPU: the saturating counter
  (\<open>src/cpu/o3/sat_counter.hh\<close>), the local and the tournament direction predictors
  (\<open>src/cpu/pred/2bit_local.cc\<close>, \<open>src/cpu/pred/tournament.cc\<close>), the branch target buffer
  (\<open>src/cpu/pred/btb.cc\<close>) and the return address stack (\<open>src/cpu/pred/ras.cc\<close>).
  Vectors are lists; an index past the end is \<^const>\<open>OutOfRange\<close>.  The direction predictors meet
  one interface, the locale \<open>dir_predictor\<close>.  The type \<open>TheISA::PCState\<close> of targets depends on
  the target architecture and is a type variable.
\<close>

section \<open>Saturating counters\<close>

record SatCounter =
  initialVal :: u8
  maxVal :: u8
  counter :: u8

text \<open>\<open>(1 << n) - 1\<close> on \<open>unsigned\<close>.\<close>

definition ones :: "u32 \<Rightarrow> u32" where
  "ones n = push_bit (unat n) 1 - 1"

definition SatCounter_init :: "u32 \<Rightarrow> u8 \<Rightarrow> SatCounter res" where
  "SatCounter_init nbits initial_val =
     (let m = ucast (ones nbits)
      in if initial_val > m then Inl Fatal
         else Inr \<lparr>initialVal = initial_val, maxVal = m, counter = initial_val\<rparr>)"

definition setBits :: "SatCounter \<Rightarrow> u32 \<Rightarrow> SatCounter" where
  "setBits c nbits = c\<lparr>maxVal := ucast (ones nbits)\<rparr>"

definition sat_reset :: "SatCounter \<Rightarrow> SatCounter" where
  "sat_reset c = c\<lparr>counter := initialVal c\<rparr>"

definition increment :: "SatCounter \<Rightarrow> SatCounter" where
  "increment c = (if counter c < maxVal c then c\<lparr>counter := counter c + 1\<rparr> else c)"

definition decrement :: "SatCounter \<Rightarrow> SatCounter" where
  "decrement c = (if counter c > 0 then c\<lparr>counter := counter c - 1\<rparr> else c)"

text \<open>A default-constructed counter with its bits set, as the predictors' vectors hold it.\<close>

definition fresh_counter :: "u32 \<Rightarrow> SatCounter" where
  "fresh_counter nbits = setBits \<lparr>initialVal = 0, maxVal = 0, counter = 0\<rparr> nbits"

definition upd_at :: "'a list \<Rightarrow> nat \<Rightarrow> ('a \<Rightarrow> 'a) \<Rightarrow> 'a list res" where
  "upd_at xs i f = res_bind (vec_get xs i) (\<lambda>x. vec_set xs i (f x))"

text \<open>What a direction predictor records for a predicted branch (\<open>TournamentBP::BPHistory\<close>).\<close>

record BPHistory =
  h_globalHistory :: u32
  h_localHistory :: u32
  localPredTaken :: bool
  globalPredTaken :: bool
  globalUsed :: bool

section \<open>The local predictor\<close>

record LocalBP =
  lb_localCtrs :: "SatCounter list"
  lb_localPredictorSize :: u32
  lb_localPredictorSets :: u32
  lb_localCtrBits :: u32
  lb_instShiftAmt :: u32
  lb_indexMask :: u32

text \<open>A zero \<open>localCtrBits\<close> traps in the division.\<close>

definition LocalBP_init :: "u32 \<Rightarrow> u32 \<Rightarrow> u32 \<Rightarrow> LocalBP res" where
  "LocalBP_init psize cbits shift =
     (if \<not> isPowerOf2 psize then Inl Fatal
      else if cbits = 0 then Inl OutOfRange
      else let sets = psize div cbits
           in if \<not> isPowerOf2 sets then Inl Fatal
              else Inr \<lparr>lb_localCtrs = replicate (unat sets) (fresh_counter cbits),
                        lb_localPredictorSize = psize, lb_localPredictorSets = sets,
                        lb_localCtrBits = cbits, lb_instShiftAmt = shift, lb_indexMask = sets - 1\<rparr>)"

definition lb_reset :: "LocalBP \<Rightarrow> LocalBP" where
  "lb_reset p = p\<lparr>lb_localCtrs := List.map sat_reset (lb_localCtrs p)\<rparr>"

definition getLocalIndex :: "LocalBP \<Rightarrow> addr \<Rightarrow> u32" where
  "getLocalIndex p a = ucast (drop_bit (unat (lb_instShiftAmt p)) a AND ucast (lb_indexMask p))"

definition getPrediction :: "LocalBP \<Rightarrow> u8 \<Rightarrow> bool" where
  "getPrediction p c \<longleftrightarrow> drop_bit (unat (lb_localCtrBits p - 1)) c \<noteq> 0"

definition lb_lookup :: "LocalBP \<Rightarrow> addr \<Rightarrow> bool res" where
  "lb_lookup p a =
     res_bind (vec_get (lb_localCtrs p) (unat (getLocalIndex p a)))
       (\<lambda>c. Inr (getPrediction p (counter c)))"

definition lb_BTBUpdate :: "LocalBP \<Rightarrow> addr \<Rightarrow> LocalBP" where
  "lb_BTBUpdate p a = p"

definition lb_update :: "LocalBP \<Rightarrow> addr \<Rightarrow> bool \<Rightarrow> BPHistory option \<Rightarrow> LocalBP res" where
  "lb_update p a taken h = assert_that (h = None)
     (res_bind (upd_at (lb_localCtrs p) (unat (getLocalIndex p a)) (if taken then increment else decrement))
       (\<lambda>cs. Inr (p\<lparr>lb_localCtrs := cs\<rparr>)))"

definition lb_squash :: "LocalBP \<Rightarrow> BPHistory option \<Rightarrow> LocalBP res" where
  "lb_squash p h = assert_that (h = None) (Inr p)"

section \<open>The tournament predictor\<close>

record TournamentBP =
  localCtrs :: "SatCounter list"
  localPredictorSize :: u32
  localPredictorMask :: u32
  localCtrBits :: u32
  localHistoryTable :: "u32 list"
  localHistoryTableSize :: u32
  localHistoryBits :: u32
  localHistoryMask :: u32
  globalCtrs :: "SatCounter list"
  globalPredictorSize :: u32
  globalCtrBits :: u32
  globalHistory :: u32
  globalHistoryBits :: u32
  globalHistoryMask :: u32
  choiceCtrs :: "SatCounter list"
  choicePredictorSize :: u32
  choiceCtrBits :: u32
  instShiftAmt :: u32
  threshold :: u32

text \<open>The choice predictor takes the size of the global one; its own argument is ignored.\<close>

definition TournamentBP_init ::
  "u32 \<Rightarrow> u32 \<Rightarrow> u32 \<Rightarrow> u32 \<Rightarrow> u32 \<Rightarrow> u32 \<Rightarrow> u32 \<Rightarrow> u32 \<Rightarrow> u32 \<Rightarrow> u32 \<Rightarrow> TournamentBP res" where
  "TournamentBP_init lsize lcbits htsize hbits gsize ghbits gcbits csize ccbits shift =
     (if \<not> isPowerOf2 lsize then Inl Fatal
      else res_bind (floorPow2_u32 lsize) (\<lambda>fp.
        if \<not> isPowerOf2 htsize then Inl Fatal
        else if \<not> isPowerOf2 gsize then Inl Fatal
        else Inr \<lparr>localCtrs = replicate (unat lsize) (fresh_counter lcbits),
                  localPredictorSize = lsize, localPredictorMask = fp - 1, localCtrBits = lcbits,
                  localHistoryTable = replicate (unat htsize) 0, localHistoryTableSize = htsize,
                  localHistoryBits = hbits, localHistoryMask = ones hbits,
                  globalCtrs = replicate (unat gsize) (fresh_counter gcbits),
                  globalPredictorSize = gsize, globalCtrBits = gcbits, globalHistory = 0,
                  globalHistoryBits = ghbits, globalHistoryMask = ones ghbits,
                  choiceCtrs = replicate (unat gsize) (fresh_counter ccbits),
                  choicePredictorSize = gsize, choiceCtrBits = ccbits, instShiftAmt = shift,
                  threshold = ones (lcbits - 1)\<rparr>))"

definition calcLocHistIdx :: "TournamentBP \<Rightarrow> addr \<Rightarrow> u32" where
  "calcLocHistIdx p a =
     ucast (drop_bit (unat (instShiftAmt p)) a AND ucast (localHistoryTableSize p - 1))"

definition updateGlobalHistTaken :: "TournamentBP \<Rightarrow> TournamentBP" where
  "updateGlobalHistTaken p =
     p\<lparr>globalHistory := (push_bit 1 (globalHistory p) OR 1) AND globalHistoryMask p\<rparr>"

definition updateGlobalHistNotTaken :: "TournamentBP \<Rightarrow> TournamentBP" where
  "updateGlobalHistNotTaken p =
     p\<lparr>globalHistory := push_bit 1 (globalHistory p) AND globalHistoryMask p\<rparr>"

definition updateLocalHistTaken :: "u32 \<Rightarrow> TournamentBP \<Rightarrow> TournamentBP res" where
  "updateLocalHistTaken idx p =
     res_bind (upd_at (localHistoryTable p) (unat idx) (\<lambda>h. push_bit 1 h OR 1))
       (\<lambda>t. Inr (p\<lparr>localHistoryTable := t\<rparr>))"

definition updateLocalHistNotTaken :: "u32 \<Rightarrow> TournamentBP \<Rightarrow> TournamentBP res" where
  "updateLocalHistNotTaken idx p =
     res_bind (upd_at (localHistoryTable p) (unat idx) (\<lambda>h. push_bit 1 h))
       (\<lambda>t. Inr (p\<lparr>localHistoryTable := t\<rparr>))"

definition t_BTBUpdate :: "TournamentBP \<Rightarrow> addr \<Rightarrow> TournamentBP res" where
  "t_BTBUpdate p a =
     res_bind (upd_at (localHistoryTable p) (unat (calcLocHistIdx p a))
                 (\<lambda>h. h AND (localPredictorMask p - 1)))
       (\<lambda>t. Inr (p\<lparr>globalHistory := globalHistory p AND (globalHistoryMask p - 1),
                   localHistoryTable := t\<rparr>))"

text \<open>A counter of one of the three tables against the common threshold.\<close>

definition predicts :: "TournamentBP \<Rightarrow> SatCounter \<Rightarrow> bool" where
  "predicts p c \<longleftrightarrow> (ucast (counter c) :: u32) > threshold p"

definition t_lookup :: "TournamentBP \<Rightarrow> addr \<Rightarrow> (bool \<times> BPHistory \<times> TournamentBP) res" where
  "t_lookup p a =
     (let local_history_idx = calcLocHistIdx p a
      in res_bind (vec_get (localHistoryTable p) (unat local_history_idx)) (\<lambda>lh.
           let local_predictor_idx = lh AND localPredictorMask p
           in res_bind (vec_get (localCtrs p) (unat local_predictor_idx)) (\<lambda>lc.
              res_bind (vec_get (globalCtrs p) (unat (globalHistory p))) (\<lambda>gc.
              res_bind (vec_get (choiceCtrs p) (unat (globalHistory p))) (\<lambda>cc.
                let local_prediction = predicts p lc;
                    global_prediction = predicts p gc;
                    choice_prediction = predicts p cc;
                    history = \<lparr>h_globalHistory = globalHistory p,
                               h_localHistory = local_predictor_idx,
                               localPredTaken = local_prediction,
                               globalPredTaken = global_prediction,
                               globalUsed = choice_prediction\<rparr>
                in assert_that (globalHistory p < globalPredictorSize p
                     \<and> local_history_idx < localHistoryTableSize p
                     \<and> local_predictor_idx < localPredictorSize p)
                     (if (if choice_prediction then global_prediction else local_prediction)
                      then res_bind (updateLocalHistTaken local_history_idx (updateGlobalHistTaken p))
                             (\<lambda>p'. Inr (True, history, p'))
                      else res_bind (updateLocalHistNotTaken local_history_idx (updateGlobalHistNotTaken p))
                             (\<lambda>p'. Inr (False, history, p'))))))))"

text \<open>\<open>invalidPredictorIndex\<close> is \<open>-1\<close>, all ones as \<open>unsigned\<close>.\<close>

definition invalidPredictorIndex :: u32 where
  "invalidPredictorIndex = - 1"

definition t_uncondBr :: "TournamentBP \<Rightarrow> BPHistory \<times> TournamentBP" where
  "t_uncondBr p =
     (\<lparr>h_globalHistory = globalHistory p, h_localHistory = invalidPredictorIndex,
       localPredTaken = True, globalPredTaken = True, globalUsed = True\<rparr>,
      updateGlobalHistTaken p)"

text \<open>The parts of \<open>update\<close>: training the counters, and repairing the histories of a squash.\<close>

definition t_train :: "BPHistory \<Rightarrow> bool \<Rightarrow> u32 \<Rightarrow> TournamentBP \<Rightarrow> TournamentBP res" where
  "t_train h taken old_idx p =
     (let g = unat (h_globalHistory h)
      in res_bind
           (if localPredTaken h \<noteq> globalPredTaken h
            then if localPredTaken h = taken then upd_at (choiceCtrs p) g decrement
                 else if globalPredTaken h = taken then upd_at (choiceCtrs p) g increment
                 else Inr (choiceCtrs p)
            else Inr (choiceCtrs p)) (\<lambda>cc.
         res_bind (upd_at (globalCtrs p) g (if taken then increment else decrement)) (\<lambda>gc.
         res_bind (if old_idx \<noteq> invalidPredictorIndex
                   then upd_at (localCtrs p) (unat old_idx) (if taken then increment else decrement)
                   else Inr (localCtrs p)) (\<lambda>lc.
           Inr (p\<lparr>choiceCtrs := cc, globalCtrs := gc, localCtrs := lc\<rparr>)))))"

definition t_repair :: "BPHistory \<Rightarrow> bool \<Rightarrow> u32 \<Rightarrow> TournamentBP \<Rightarrow> TournamentBP res" where
  "t_repair h taken old_idx p =
     (let bit_in = (\<lambda>w. if taken then push_bit 1 w OR 1 else push_bit 1 w);
          p1 = p\<lparr>globalHistory := bit_in (h_globalHistory h) AND globalHistoryMask p\<rparr>
      in if old_idx \<noteq> invalidPredictorIndex
         then res_bind (vec_set (localHistoryTable p) (unat old_idx) (bit_in (h_localHistory h)))
                (\<lambda>t. Inr (p1\<lparr>localHistoryTable := t\<rparr>))
         else Inr p1)"

definition t_update ::
  "TournamentBP \<Rightarrow> addr \<Rightarrow> bool \<Rightarrow> BPHistory option \<Rightarrow> bool \<Rightarrow> TournamentBP res" where
  "t_update p a taken bp_history squashed =
     (let local_history_idx = calcLocHistIdx p a
      in res_bind (vec_get (localHistoryTable p) (unat local_history_idx)) (\<lambda>lh.
           let local_predictor_idx = lh AND localPredictorMask p
           in res_bind
                (case bp_history of
                   None \<Rightarrow> Inr p
                 | Some h \<Rightarrow>
                     let old_idx = h_localHistory h AND localPredictorMask p;
                         historyPred = (if globalUsed h then globalPredTaken h else localPredTaken h)
                     in res_bind (if historyPred \<noteq> taken \<or> \<not> squashed then t_train h taken old_idx p
                                  else Inr p)
                          (\<lambda>p1. if squashed then t_repair h taken old_idx p1 else Inr p1))
                (\<lambda>p2. assert_that (globalHistory p2 < globalPredictorSize p2
                         \<and> local_history_idx < localHistoryTableSize p2
                         \<and> local_predictor_idx < localPredictorSize p2) (Inr p2))))"

text \<open>A null history is dereferenced.\<close>

definition t_squash :: "TournamentBP \<Rightarrow> BPHistory option \<Rightarrow> TournamentBP res" where
  "t_squash p bp_history =
     (case bp_history of
        None \<Rightarrow> Inl OutOfRange
      | Some h \<Rightarrow> Inr (p\<lparr>globalHistory := h_globalHistory h\<rparr>))"

section \<open>The branch target buffer\<close>

text \<open>A thread id is never assigned in the constructor of an entry; the fresh value is an argument.\<close>

record 'pc BTBEntry =
  btb_tag :: addr
  target :: 'pc
  btb_tid :: int
  valid :: bool

record 'pc DefaultBTB =
  btb :: "'pc BTBEntry list"
  btb_numEntries :: u32
  idxMask :: u32
  tagBits :: u32
  tagMask :: u32
  btb_instShiftAmt :: u32
  tagShiftAmt :: u32

definition DefaultBTB_init :: "'pc \<Rightarrow> int \<Rightarrow> u32 \<Rightarrow> u32 \<Rightarrow> u32 \<Rightarrow> 'pc DefaultBTB res" where
  "DefaultBTB_init zero tid0 n tbits shift =
     (if \<not> isPowerOf2 n then Inl Fatal
      else res_bind (floorLog2_u32 n) (\<lambda>l.
        Inr \<lparr>btb = replicate (unat n) \<lparr>btb_tag = 0, target = zero, btb_tid = tid0, valid = False\<rparr>,
             btb_numEntries = n, idxMask = n - 1, tagBits = tbits, tagMask = ones tbits,
             btb_instShiftAmt = shift, tagShiftAmt = shift + of_nat l\<rparr>))"

definition BTB_reset :: "'pc DefaultBTB \<Rightarrow> 'pc DefaultBTB" where
  "BTB_reset b = b\<lparr>btb := List.map (\<lambda>e. e\<lparr>valid := False\<rparr>) (btb b)\<rparr>"

definition BTB_getIndex :: "'pc DefaultBTB \<Rightarrow> addr \<Rightarrow> u32" where
  "BTB_getIndex b pc = ucast (drop_bit (unat (btb_instShiftAmt b)) pc AND ucast (idxMask b))"

definition BTB_getTag :: "'pc DefaultBTB \<Rightarrow> addr \<Rightarrow> addr" where
  "BTB_getTag b pc = drop_bit (unat (tagShiftAmt b)) pc AND ucast (tagMask b)"

definition BTB_hit :: "'pc DefaultBTB \<Rightarrow> addr \<Rightarrow> int \<Rightarrow> 'pc BTBEntry \<Rightarrow> bool" where
  "BTB_hit b pc tid e \<longleftrightarrow> valid e \<and> BTB_getTag b pc = btb_tag e \<and> btb_tid e = tid"

definition BTB_valid :: "'pc DefaultBTB \<Rightarrow> addr \<Rightarrow> int \<Rightarrow> bool res" where
  "BTB_valid b pc tid = assert_that (BTB_getIndex b pc < btb_numEntries b)
     (res_bind (vec_get (btb b) (unat (BTB_getIndex b pc))) (\<lambda>e. Inr (BTB_hit b pc tid e)))"

definition BTB_lookup :: "'pc \<Rightarrow> 'pc DefaultBTB \<Rightarrow> addr \<Rightarrow> int \<Rightarrow> 'pc res" where
  "BTB_lookup zero b pc tid = assert_that (BTB_getIndex b pc < btb_numEntries b)
     (res_bind (vec_get (btb b) (unat (BTB_getIndex b pc)))
        (\<lambda>e. Inr (if BTB_hit b pc tid e then target e else zero)))"

definition BTB_update :: "'pc DefaultBTB \<Rightarrow> addr \<Rightarrow> 'pc \<Rightarrow> int \<Rightarrow> 'pc DefaultBTB res" where
  "BTB_update b pc tgt tid = assert_that (BTB_getIndex b pc < btb_numEntries b)
     (res_bind (upd_at (btb b) (unat (BTB_getIndex b pc))
          (\<lambda>e. e\<lparr>btb_tid := tid, valid := True, target := tgt, btb_tag := BTB_getTag b pc\<rparr>))
        (\<lambda>es. Inr (b\<lparr>btb := es\<rparr>)))"

section \<open>The return address stack\<close>

record 'pc RAS =
  addrStack :: "'pc list"
  ras_numEntries :: u32
  usedEntries :: u32
  tos :: u32

definition ras_init :: "'pc \<Rightarrow> u32 \<Rightarrow> 'pc RAS" where
  "ras_init zero n =
     \<lparr>addrStack = replicate (unat n) zero, ras_numEntries = n, usedEntries = 0, tos = 0\<rparr>"

definition ras_reset :: "'pc \<Rightarrow> 'pc RAS \<Rightarrow> 'pc RAS" where
  "ras_reset zero s =
     s\<lparr>usedEntries := 0, tos := 0, addrStack := List.map (\<lambda>_. zero) (addrStack s)\<rparr>"

definition incrTos :: "'pc RAS \<Rightarrow> 'pc RAS" where
  "incrTos s = s\<lparr>tos := (if tos s + 1 = ras_numEntries s then 0 else tos s + 1)\<rparr>"

definition decrTos :: "'pc RAS \<Rightarrow> 'pc RAS" where
  "decrTos s = s\<lparr>tos := (if tos s = 0 then ras_numEntries s - 1 else tos s - 1)\<rparr>"

definition ras_top :: "'pc RAS \<Rightarrow> 'pc res" where
  "ras_top s = vec_get (addrStack s) (unat (tos s))"

definition ras_push :: "'pc RAS \<Rightarrow> 'pc \<Rightarrow> 'pc RAS res" where
  "ras_push s ret =
     (let s1 = incrTos s
      in res_bind (vec_set (addrStack s1) (unat (tos s1)) ret) (\<lambda>st.
           Inr (s1\<lparr>addrStack := st,
                   usedEntries := (if usedEntries s1 \<noteq> ras_numEntries s1 then usedEntries s1 + 1
                                   else usedEntries s1)\<rparr>)))"

definition ras_pop :: "'pc RAS \<Rightarrow> 'pc RAS" where
  "ras_pop s =
     decrTos (if usedEntries s > 0 then s\<lparr>usedEntries := usedEntries s - 1\<rparr> else s)"

definition ras_restore :: "'pc RAS \<Rightarrow> u32 \<Rightarrow> 'pc \<Rightarrow> 'pc RAS res" where
  "ras_restore s idx restored =
     res_bind (vec_set (addrStack s) (unat idx) restored)
       (\<lambda>st. Inr (s\<lparr>tos := idx, addrStack := st\<rparr>))"

definition ras_empty :: "'pc RAS \<Rightarrow> bool" where
  "ras_empty s \<longleftrightarrow> usedEntries s = 0"

definition ras_full :: "'pc RAS \<Rightarrow> bool" where
  "ras_full s \<longleftrightarrow> usedEntries s = ras_numEntries s"

end
