(* ===== verification/Predictor_Laws.thy ===== *)
theory Predictor_Laws
  imports Branch_Pred
begin

text \<open>
  Correctness of the structures of \<open>Branch_Pred\<close>: the interface \<open>dir_predictor\<close> that the CPU's
  \<open>BPredUnit\<close> relies on, its interpretation on the local and the tournament predictor, the
  learning of the local predictor, the update/lookup law of the branch target buffer, and the
  refinement of the return address stack to a bounded list.
\<close>

section \<open>Indices\<close>

lemma unat_masked_index:
  "unat (ucast ((x :: addr) AND ucast (m :: u32)) :: u32) \<le> unat m"
proof -
  have "unat (x AND ucast m) \<le> unat (ucast m :: addr)"
    by (simp add: word_and_le1 word_le_nat_alt [symmetric])
  also have "\<dots> = unat m" using unsigned_less [of m, where ?'a = nat]
    by (simp add: unsigned_ucast_eq take_bit_nat_eq_self)
  finally have le: "unat (x AND ucast m) \<le> unat m" .
  have "unat (ucast (x AND ucast m) :: u32) \<le> unat (x AND ucast m)"
    by (simp add: unsigned_ucast_eq)
  with le show ?thesis by simp
qed

lemma masked_index_less:
  "n \<noteq> 0 \<Longrightarrow> ucast ((x :: addr) AND ucast (n - 1 :: u32)) < n"
proof -
  assume "n \<noteq> 0"
  then have "unat (n - 1) < unat n" by (simp add: unat_minus_one unat_gt_0)
  with unat_masked_index [of x "n - 1"] show ?thesis by (simp add: word_less_nat_alt)
qed

lemma upd_at_in [simp]: "i < length xs \<Longrightarrow> upd_at xs i f = Inr (xs[i := f (xs ! i)])"
  by (simp add: upd_at_def)

text \<open>Running a fallible step over a list, stopping at the first failure.\<close>

fun fold_res :: "('a \<Rightarrow> 's \<Rightarrow> 's res) \<Rightarrow> 'a list \<Rightarrow> 's \<Rightarrow> 's res" where
  "fold_res f [] s = Inr s"
| "fold_res f (x # xs) s = res_bind (f x s) (fold_res f xs)"

section \<open>The interface of a direction predictor\<close>

text \<open>
  \<open>BPredUnit\<close> calls its predictor through five operations.  What it relies on: none of them stops
  the simulator on a predictor in a good state with a history the predictor handed out, the state
  stays good, and histories handed out before stay usable.
\<close>

locale dir_predictor =
  fixes inv :: "'s \<Rightarrow> bool" and hist_ok :: "'s \<Rightarrow> 'h \<Rightarrow> bool"
    and uncond :: "'s \<Rightarrow> 'h \<times> 's"
    and lookup :: "'s \<Rightarrow> addr \<Rightarrow> (bool \<times> 'h \<times> 's) res"
    and btb_miss :: "'s \<Rightarrow> addr \<Rightarrow> 's res"
    and update :: "'s \<Rightarrow> addr \<Rightarrow> bool \<Rightarrow> 'h \<Rightarrow> bool \<Rightarrow> 's res"
    and squash :: "'s \<Rightarrow> 'h \<Rightarrow> 's res"
  assumes uncond_ok: "inv s \<Longrightarrow> inv (snd (uncond s)) \<and> hist_ok (snd (uncond s)) (fst (uncond s))
      \<and> (\<forall>g. hist_ok s g \<longrightarrow> hist_ok (snd (uncond s)) g)"
    and lookup_ok: "inv s \<Longrightarrow> \<exists>p h s'. lookup s a = Inr (p, h, s') \<and> inv s' \<and> hist_ok s' h
      \<and> (\<forall>g. hist_ok s g \<longrightarrow> hist_ok s' g)"
    and btb_miss_ok: "inv s \<Longrightarrow> \<exists>s'. btb_miss s a = Inr s' \<and> inv s'
      \<and> (\<forall>g. hist_ok s g \<longrightarrow> hist_ok s' g)"
    and update_ok: "inv s \<Longrightarrow> hist_ok s h \<Longrightarrow> \<exists>s'. update s a t h sq = Inr s' \<and> inv s'
      \<and> (\<forall>g. hist_ok s g \<longrightarrow> hist_ok s' g)"
    and squash_ok: "inv s \<Longrightarrow> hist_ok s h \<Longrightarrow> \<exists>s'. squash s h = Inr s' \<and> inv s'
      \<and> (\<forall>g. hist_ok s g \<longrightarrow> hist_ok s' g)"
begin

lemma commit_all_ok:
  "inv s \<Longrightarrow> (\<And>x. x \<in> set xs \<Longrightarrow> hist_ok s (hist x)) \<Longrightarrow>
   \<exists>s'. fold_res (\<lambda>x s. update s (pc x) (taken x) (hist x) False) xs s = Inr s' \<and> inv s'
     \<and> (\<forall>g. hist_ok s g \<longrightarrow> hist_ok s' g)"
proof (induction xs arbitrary: s)
  case (Cons x xs)
  then obtain s1 where s1: "update s (pc x) (taken x) (hist x) False = Inr s1" "inv s1"
      "\<forall>g. hist_ok s g \<longrightarrow> hist_ok s1 g"
    using update_ok [of s "hist x" "pc x" "taken x" False] by auto
  with Cons.IH [of s1] Cons.prems(2) show ?case by fastforce
qed simp

lemma squash_all_ok:
  "inv s \<Longrightarrow> (\<And>x. x \<in> set xs \<Longrightarrow> hist_ok s (hist x)) \<Longrightarrow>
   \<exists>s'. fold_res (\<lambda>x s. squash s (hist x)) xs s = Inr s' \<and> inv s'
     \<and> (\<forall>g. hist_ok s g \<longrightarrow> hist_ok s' g)"
proof (induction xs arbitrary: s)
  case (Cons x xs)
  then obtain s1 where s1: "squash s (hist x) = Inr s1" "inv s1"
      "\<forall>g. hist_ok s g \<longrightarrow> hist_ok s1 g"
    using squash_ok [of s "hist x"] by auto
  with Cons.IH [of s1] Cons.prems(2) show ?case by fastforce
qed simp

end

section \<open>The local predictor\<close>

definition lb_inv :: "LocalBP \<Rightarrow> bool" where
  "lb_inv p \<longleftrightarrow> lb_localPredictorSets p \<noteq> 0
     \<and> length (lb_localCtrs p) = unat (lb_localPredictorSets p)
     \<and> lb_indexMask p = lb_localPredictorSets p - 1"

lemma lb_index_less: "lb_inv p \<Longrightarrow> unat (getLocalIndex p a) < length (lb_localCtrs p)"
  using masked_index_less [of "lb_localPredictorSets p" "drop_bit (unat (lb_instShiftAmt p)) a"]
  by (simp add: lb_inv_def getLocalIndex_def word_less_nat_alt)

lemma lb_inv_ctrs [simp]:
  "length cs = length (lb_localCtrs p) \<Longrightarrow> lb_inv (p\<lparr>lb_localCtrs := cs\<rparr>) = lb_inv p"
  by (simp add: lb_inv_def)

lemma LocalBP_init_inv: "LocalBP_init psize cbits shift = Inr p \<Longrightarrow> lb_inv p"
  by (auto simp: LocalBP_init_def lb_inv_def Let_def isPowerOf2_def split: if_splits)

interpretation local_bp: dir_predictor lb_inv "\<lambda>_ h. h = None" "\<lambda>p. (None, p)"
  "\<lambda>p a. res_bind (lb_lookup p a) (\<lambda>t. Inr (t, None, p))" "\<lambda>p a. Inr (lb_BTBUpdate p a)"
  "\<lambda>p a t h sq. lb_update p a t h" lb_squash
proof
  fix s :: LocalBP and a t and h :: "BPHistory option"
  assume inv: "lb_inv s"
  note idx = lb_index_less [OF inv, of a]
  show "\<exists>p h s'. res_bind (lb_lookup s a) (\<lambda>t. Inr (t, None, s)) = Inr (p, h, s')
      \<and> lb_inv s' \<and> h = None \<and> (\<forall>g::BPHistory option. g = None \<longrightarrow> g = None)"
    using inv idx by (simp add: lb_lookup_def)
  show "\<exists>s'. lb_update s a t h = Inr s' \<and> lb_inv s' \<and> (\<forall>g::BPHistory option. g = None \<longrightarrow> g = None)"
    if "h = None"
    using inv idx that by (simp add: lb_update_def)
qed (simp_all add: lb_BTBUpdate_def lb_squash_def)

text \<open>Training: repeated updates of one branch with one outcome.\<close>

primrec lb_train :: "LocalBP \<Rightarrow> addr \<Rightarrow> bool \<Rightarrow> nat \<Rightarrow> LocalBP res" where
  "lb_train p a taken 0 = Inr p"
| "lb_train p a taken (Suc n) =
     res_bind (lb_update p a taken None) (\<lambda>p'. lb_train p' a taken n)"

definition sat_ok :: "nat \<Rightarrow> SatCounter \<Rightarrow> bool" where
  "sat_ok n c \<longleftrightarrow> maxVal c = mask n \<and> counter c \<le> maxVal c"

lemma unat_increment: "unat (counter (increment c)) = (if unat (counter c) < unat (maxVal c)
    then unat (counter c) + 1 else unat (counter c))"
proof (cases "counter c < maxVal c")
  case True
  then have "unat (counter c) + 1 < 2 ^ 8"
    using unsigned_less [of "maxVal c", where ?'a = nat] by (simp add: word_less_nat_alt)
  with True show ?thesis by (simp add: increment_def word_less_nat_alt unat_word_ariths)
next
  case False
  then show ?thesis by (simp add: increment_def word_less_nat_alt)
qed

lemma unat_decrement: "unat (counter (decrement c)) = unat (counter c) - 1"
  by (auto simp: decrement_def unat_minus_one word_gt_0)

lemma sat_step_simps [simp]:
  "maxVal (increment c) = maxVal c" "maxVal (decrement c) = maxVal c"
  "initialVal (increment c) = initialVal c" "initialVal (decrement c) = initialVal c"
  by (simp_all add: increment_def decrement_def)

lemma sat_ok_step: "sat_ok n c \<Longrightarrow> sat_ok n (if t then increment c else decrement c)"
  using unat_increment [of c] unat_decrement [of c]
  by (auto simp: sat_ok_def word_le_nat_alt split: if_splits)

lemma getPrediction_msb:
  assumes "sat_ok n c" and "lb_localCtrBits p = of_nat n" and "0 < n" and "n \<le> 8"
  shows "getPrediction p (counter c) \<longleftrightarrow> 2 ^ (n - 1) \<le> unat (counter c)"
proof -
  have "unat (of_nat n :: u32) = n" using assms(4) by (simp add: unat_of_nat)
  moreover have "(of_nat n :: u32) \<noteq> 0" using assms(3,4) by (simp add: word_eq_0_unat unat_of_nat)
  ultimately have "unat (lb_localCtrBits p - 1) = n - 1" by (simp add: assms(2) unat_minus_one)
  then show ?thesis
    by (simp add: getPrediction_def word_eq_0_unat unat_drop_bit_div div_eq_0_iff not_less)
qed

lemma unat_mask_word: "n \<le> LENGTH('a) \<Longrightarrow> unat (mask n :: 'a::len word) = 2 ^ n - 1"
proof -
  assume "n \<le> LENGTH('a)"
  then have "uint (mask n :: 'a word) = 2 ^ n - 1"
    by (simp add: uint_mask_eq min_absorb2) (simp add: mask_eq_exp_minus_1)
  then have "int (unat (mask n :: 'a word)) = int (2 ^ n - 1)"
    by (simp add: of_nat_diff)
  then show ?thesis by (simp only: of_nat_eq_iff)
qed

lemma sat_ok_bounds:
  assumes "sat_ok n c" and "n \<le> 8"
  shows "unat (maxVal c) = 2 ^ n - 1" "unat (counter c) \<le> 2 ^ n - 1"
  using assms unat_mask_word [where ?'a = 8, of n] unfolding sat_ok_def word_le_nat_alt by auto

definition trained :: "bool \<Rightarrow> nat \<Rightarrow> nat \<Rightarrow> SatCounter \<Rightarrow> nat" where
  "trained taken n k c = (if taken then min (2 ^ n - 1) (unat (counter c) + k)
     else unat (counter c) - k)"

lemma lb_train_counter:
  assumes "lb_inv p" and "list_all (sat_ok n) (lb_localCtrs p)" and "n \<le> 8"
  shows "\<exists>p'. lb_train p a taken k = Inr p' \<and> lb_inv p' \<and> list_all (sat_ok n) (lb_localCtrs p')
    \<and> getLocalIndex p' = getLocalIndex p \<and> lb_localCtrBits p' = lb_localCtrBits p
    \<and> unat (counter (lb_localCtrs p' ! unat (getLocalIndex p a)))
        = trained taken n k (lb_localCtrs p ! unat (getLocalIndex p a))
    \<and> (\<forall>i. i \<noteq> unat (getLocalIndex p a) \<longrightarrow> lb_localCtrs p' ! i = lb_localCtrs p ! i)"
  using assms(1,2)
proof (induction k arbitrary: p)
  case 0
  let ?c = "lb_localCtrs p ! unat (getLocalIndex p a)"
  have "sat_ok n ?c" using 0(2) lb_index_less [OF 0(1)] by (simp add: list_all_length)
  then have "unat (counter ?c) \<le> 2 ^ n - 1"
    using assms(3) by (rule sat_ok_bounds)
  with 0 show ?case by (simp add: trained_def)
next
  case (Suc k)
  let ?i = "unat (getLocalIndex p a)"
  let ?f = "if taken then increment else decrement"
  let ?c = "lb_localCtrs p ! ?i"
  let ?p = "p\<lparr>lb_localCtrs := (lb_localCtrs p)[?i := ?f ?c]\<rparr>"
  have i: "?i < length (lb_localCtrs p)" by (rule lb_index_less [OF Suc.prems(1)])
  have c: "sat_ok n ?c" using Suc.prems(2) i by (simp add: list_all_length)
  have "sat_ok n (?f ?c)" using sat_ok_step [OF c, of taken] by (simp split: if_splits)
  then have all: "list_all (sat_ok n) (lb_localCtrs ?p)"
    using Suc.prems(2) i by (simp add: list_all_length nth_list_update split del: if_split) (simp split: if_splits)
  have idx: "getLocalIndex ?p = getLocalIndex p" by (simp add: getLocalIndex_def fun_eq_iff)
  have m: "unat (maxVal ?c) = 2 ^ n - 1" "unat (counter ?c) \<le> 2 ^ n - 1"
    using sat_ok_bounds [OF c assms(3)] by simp_all
  have t: "trained taken n k (?f ?c) = trained taken n (Suc k) ?c"
    using m unat_increment [of ?c] unat_decrement [of ?c] by (auto simp: trained_def)
  have "lb_update p a taken None = Inr ?p" using i by (simp add: lb_update_def)
  moreover have "lb_inv ?p" using Suc.prems(1) by simp
  from Suc.IH [OF this all] obtain p' where p': "lb_train ?p a taken k = Inr p'" "lb_inv p'"
      "list_all (sat_ok n) (lb_localCtrs p')" "getLocalIndex p' = getLocalIndex p"
      "lb_localCtrBits p' = lb_localCtrBits p"
      "unat (counter (lb_localCtrs p' ! ?i)) = trained taken n k (?f ?c)"
      "\<forall>j. j \<noteq> ?i \<longrightarrow> lb_localCtrs p' ! j = lb_localCtrs p ! j"
    using idx i by auto
  ultimately show ?case using t by (intro exI [of _ p']) simp
qed

text \<open>A branch resolved \<open>2 ^ (bits - 1)\<close> times in a row the same way is predicted that way by the
  local predictor, whatever the counter held before; predictions of branches with another index
  do not change, and no update or lookup runs past the table.\<close>
theorem local_predictor_learns:
  assumes "lb_inv p" and "list_all (sat_ok n) (lb_localCtrs p)" and "lb_localCtrBits p = of_nat n"
    and "0 < n" and "n \<le> 8" and "2 ^ (n - 1) \<le> k"
  shows "\<exists>p'. lb_train p a taken k = Inr p' \<and> lb_lookup p' a = Inr taken
    \<and> (\<forall>b. getLocalIndex p b \<noteq> getLocalIndex p a \<longrightarrow> lb_lookup p' b = lb_lookup p b)"
proof -
  let ?i = "unat (getLocalIndex p a)"
  from lb_train_counter [OF assms(1,2,5), of a taken k] obtain p' where
    p': "lb_train p a taken k = Inr p'" "lb_inv p'" "list_all (sat_ok n) (lb_localCtrs p')"
      "getLocalIndex p' = getLocalIndex p" "lb_localCtrBits p' = lb_localCtrBits p"
      "unat (counter (lb_localCtrs p' ! ?i)) = trained taken n k (lb_localCtrs p ! ?i)"
      "\<forall>j. j \<noteq> ?i \<longrightarrow> lb_localCtrs p' ! j = lb_localCtrs p ! j" by blast
  have len: "length (lb_localCtrs p') > unat (getLocalIndex p b)"
    "length (lb_localCtrs p) > unat (getLocalIndex p b)" for b
    using lb_index_less [OF p'(2), of b] lb_index_less [OF assms(1), of b] p'(4) by simp_all
  have c: "sat_ok n (lb_localCtrs p' ! ?i)" "sat_ok n (lb_localCtrs p ! ?i)"
    using p'(3) assms(2) len [of a] by (simp_all add: list_all_length)
  have pow: "(2::nat) ^ n = 2 * 2 ^ (n - 1)" using assms(4) by (cases n) simp_all
  have le: "unat (counter (lb_localCtrs p ! ?i)) \<le> 2 ^ n - 1"
    using c(2) assms(5) by (rule sat_ok_bounds)
  have half: "2 ^ (n - 1) \<le> (2::nat) ^ n - 1"
    using pow one_le_power [of "2::nat" "n - 1"] by simp
  have "2 ^ (n - 1) \<le> trained taken n k (lb_localCtrs p ! ?i) \<longleftrightarrow> taken"
    using le pow half assms(6) one_le_power [of "2::nat" "n - 1"] by (auto simp: trained_def)
  moreover have "getPrediction p' (counter (lb_localCtrs p' ! ?i))
      \<longleftrightarrow> 2 ^ (n - 1) \<le> unat (counter (lb_localCtrs p' ! ?i))"
    by (rule getPrediction_msb [OF c(1)]) (use assms(3-5) p'(5) in simp_all)
  ultimately have "lb_lookup p' a = Inr taken"
    using len p'(4,6) by (simp add: lb_lookup_def)
  moreover have "lb_lookup p' b = lb_lookup p b" if "getLocalIndex p b \<noteq> getLocalIndex p a" for b
  proof -
    have "unat (getLocalIndex p b) \<noteq> ?i" using that by (simp add: word_unat_eq_iff)
    then show ?thesis using len [of b] p'(4,5,7)
      by (simp add: lb_lookup_def getPrediction_def)
  qed
  ultimately show ?thesis using p'(1) by blast
qed

lemma local_predictor_learns_witness:
  "\<exists>p p'. LocalBP_init 8 2 2 = Inr p \<and> lb_train p 0x1004 True 2 = Inr p' \<and> lb_lookup p' 0x1004 = Inr True
    \<and> lb_lookup p' 0x1008 = Inr False"
proof -
  obtain p where p: "LocalBP_init 8 2 2 = Inr p"
      "p = \<lparr>lb_localCtrs = replicate 4 (fresh_counter 2), lb_localPredictorSize = 8,
         lb_localPredictorSets = 4, lb_localCtrBits = 2, lb_instShiftAmt = 2, lb_indexMask = 3\<rparr>"
    by (simp add: LocalBP_init_def isPowerOf2_def leastSigBit_def)
  have g: "list_all (sat_ok 2) (lb_localCtrs p)" "lb_localCtrBits p = of_nat 2"
    by (simp_all add: p(2) sat_ok_def fresh_counter_def setBits_def ones_def list_all_length mask_eq_exp_minus_1)
  have "getLocalIndex p 0x1008 \<noteq> getLocalIndex p 0x1004" "lb_lookup p 0x1008 = Inr False"
    by (simp_all add: p(2) getLocalIndex_def lb_lookup_def getPrediction_def fresh_counter_def setBits_def)
  moreover from local_predictor_learns [OF LocalBP_init_inv [OF p(1)] g, of 2 "0x1004" True]
  obtain p' where "lb_train p 0x1004 True 2 = Inr p'" "lb_lookup p' 0x1004 = Inr True"
    "\<forall>b. getLocalIndex p b \<noteq> getLocalIndex p 0x1004 \<longrightarrow> lb_lookup p' b = lb_lookup p b" by auto
  ultimately show ?thesis using p(1) by auto
qed


section \<open>The tournament predictor\<close>

text \<open>
  The last conjunct is not checked by the constructor: \<open>update\<close> indexes the local history table
  with a masked counter index, so the table must have at least as many entries as there are
  local counters.  \<open>globalHistoryMask\<close> must fit the global table.
\<close>

definition t_inv :: "TournamentBP \<Rightarrow> bool" where
  "t_inv p \<longleftrightarrow> length (localCtrs p) = unat (localPredictorSize p)
     \<and> localPredictorMask p < localPredictorSize p
     \<and> localHistoryTableSize p \<noteq> 0 \<and> length (localHistoryTable p) = unat (localHistoryTableSize p)
     \<and> length (globalCtrs p) = unat (globalPredictorSize p)
     \<and> length (choiceCtrs p) = unat (globalPredictorSize p)
     \<and> globalHistoryMask p < globalPredictorSize p \<and> globalHistory p < globalPredictorSize p
     \<and> localPredictorSize p \<le> localHistoryTableSize p"

definition t_hist :: "TournamentBP \<Rightarrow> BPHistory option \<Rightarrow> bool" where
  "t_hist p h \<longleftrightarrow> (\<exists>r. h = Some r \<and> h_globalHistory r < globalPredictorSize p)"

lemma and_le_mask: "x AND m < n" if "m < n" for x m n :: "'a::len word"
  using that word_and_le1 [of x m] by (rule order.strict_trans1 [rotated])

lemma calcLocHistIdx_less: "t_inv p \<Longrightarrow> calcLocHistIdx p a < localHistoryTableSize p"
  unfolding calcLocHistIdx_def by (rule masked_index_less) (simp add: t_inv_def)

lemma t_indices:
  assumes "t_inv p"
  shows "unat (calcLocHistIdx p a) < length (localHistoryTable p)"
    "unat (x AND localPredictorMask p) < length (localCtrs p)"
    "unat (x AND localPredictorMask p) < length (localHistoryTable p)"
    "g < globalPredictorSize p \<Longrightarrow> unat g < length (globalCtrs p)"
    "g < globalPredictorSize p \<Longrightarrow> unat g < length (choiceCtrs p)"
    "unat (globalHistory p) < length (globalCtrs p)"
    "unat (globalHistory p) < length (choiceCtrs p)"
    "x AND localPredictorMask p < localPredictorSize p"
  using assms calcLocHistIdx_less [OF assms, of a] and_le_mask [of "localPredictorMask p" "localPredictorSize p" x]
  by (auto simp: t_inv_def word_less_nat_alt word_le_nat_alt)

lemma t_inv_globalHistory:
  "t_inv p \<Longrightarrow> h < globalPredictorSize p \<Longrightarrow> t_inv (p\<lparr>globalHistory := h\<rparr>)"
  by (simp add: t_inv_def)

lemma t_inv_tables:
  assumes "t_inv p"
  shows "length t = length (localHistoryTable p) \<Longrightarrow> t_inv (p\<lparr>localHistoryTable := t\<rparr>)"
    "length lc = length (localCtrs p) \<Longrightarrow> length gc = length (globalCtrs p) \<Longrightarrow>
       length cc = length (choiceCtrs p) \<Longrightarrow>
       t_inv (p\<lparr>choiceCtrs := cc, globalCtrs := gc, localCtrs := lc\<rparr>)"
  using assms by (simp_all add: t_inv_def)

lemma masked_global: "t_inv p \<Longrightarrow> x AND globalHistoryMask p < globalPredictorSize p"
  by (rule and_le_mask) (simp add: t_inv_def)

lemma t_hist_mono: "globalPredictorSize p' = globalPredictorSize p \<Longrightarrow> t_hist p' h = t_hist p h"
  by (simp add: t_hist_def)

lemma t_inv_globalHist [simp]:
  assumes "t_inv p"
  shows "t_inv (updateGlobalHistTaken p)" "t_inv (updateGlobalHistNotTaken p)"
  unfolding updateGlobalHistTaken_def updateGlobalHistNotTaken_def
  using assms by (intro t_inv_globalHistory masked_global; assumption)+

lemma updateGlobalHist_simps [simp]:
  "localHistoryTable (updateGlobalHistTaken p) = localHistoryTable p"
  "localHistoryTable (updateGlobalHistNotTaken p) = localHistoryTable p"
  "globalPredictorSize (updateGlobalHistTaken p) = globalPredictorSize p"
  "globalPredictorSize (updateGlobalHistNotTaken p) = globalPredictorSize p"
  by (simp_all add: updateGlobalHistTaken_def updateGlobalHistNotTaken_def)

text \<open>\<open>lookup\<close> with the checks of its indices discharged.\<close>

lemma t_lookup_eq:
  fixes p a
  assumes inv: "t_inv p"
  defines "i \<equiv> calcLocHistIdx p a"
  defines "j \<equiv> localHistoryTable p ! unat i AND localPredictorMask p"
  defines "l \<equiv> predicts p (localCtrs p ! unat j)"
    and "g \<equiv> predicts p (globalCtrs p ! unat (globalHistory p))"
    and "c \<equiv> predicts p (choiceCtrs p ! unat (globalHistory p))"
  defines "taken \<equiv> if c then g else l"
    and "h0 \<equiv> localHistoryTable p ! unat i"
  shows "t_lookup p a = Inr (taken,
      \<lparr>h_globalHistory = globalHistory p, h_localHistory = j, localPredTaken = l,
       globalPredTaken = g, globalUsed = c\<rparr>,
      (if taken then updateGlobalHistTaken p else updateGlobalHistNotTaken p)
        \<lparr>localHistoryTable := (localHistoryTable p)
           [unat i := if taken then push_bit 1 h0 OR 1 else push_bit 1 h0]\<rparr>)"
proof -
  note ix = t_indices [OF inv]
  have i: "unat i < length (localHistoryTable p)" "i < localHistoryTableSize p"
    using ix(1) calcLocHistIdx_less [OF inv] by (simp_all add: i_def)
  have gh: "globalHistory p < globalPredictorSize p" using inv by (simp add: t_inv_def)
  show ?thesis
    using i ix(2,6,7,8) gh
    by (simp add: t_lookup_def Let_def taken_def l_def g_def c_def h0_def j_def
        updateLocalHistTaken_def updateLocalHistNotTaken_def flip: i_def)
qed

lemma t_train_ok:
  assumes inv: "t_inv p" and h: "h_globalHistory h < globalPredictorSize p"
    and j: "j = x AND localPredictorMask p"
  shows "\<exists>lc gc cc. t_train h taken j p = Inr (p\<lparr>choiceCtrs := cc, globalCtrs := gc, localCtrs := lc\<rparr>)
    \<and> length lc = length (localCtrs p) \<and> length gc = length (globalCtrs p)
    \<and> length cc = length (choiceCtrs p)"
proof -
  let ?g = "unat (h_globalHistory h)" and ?f = "if taken then increment else decrement"
  note ix = t_indices(4,5) [OF inv h] t_indices(2) [OF inv, of x]
  obtain cc where cc: "(if localPredTaken h \<noteq> globalPredTaken h
        then if localPredTaken h = taken then upd_at (choiceCtrs p) ?g decrement
             else if globalPredTaken h = taken then upd_at (choiceCtrs p) ?g increment
             else Inr (choiceCtrs p)
        else Inr (choiceCtrs p)) = Inr cc" "length cc = length (choiceCtrs p)"
    using ix(2) by (cases "localPredTaken h"; cases "globalPredTaken h"; cases taken; simp)
  obtain gc where gc: "upd_at (globalCtrs p) ?g ?f = Inr gc" "length gc = length (globalCtrs p)"
    using ix(1) by simp
  obtain lc where lc: "(if j \<noteq> invalidPredictorIndex then upd_at (localCtrs p) (unat j) ?f
        else Inr (localCtrs p)) = Inr lc" "length lc = length (localCtrs p)"
    using ix(3) by (cases "j = invalidPredictorIndex"; simp add: j)
  show ?thesis
    unfolding t_train_def Let_def cc(1) gc(1) lc(1) res_bind_simps
    using cc(2) gc(2) lc(2) by blast
qed

lemma t_repair_ok:
  assumes inv: "t_inv p" and h: "h_globalHistory h < globalPredictorSize p"
    and j: "j = x AND localPredictorMask p"
  shows "\<exists>p'. t_repair h taken j p = Inr p' \<and> t_inv p'
    \<and> globalPredictorSize p' = globalPredictorSize p"
  using t_indices(3) [OF inv, of x] t_inv_globalHistory [OF inv masked_global [OF inv]]
  by (auto simp: t_repair_def Let_def j intro!: t_inv_tables(1))

lemma t_update_ok:
  assumes inv: "t_inv p" and h: "t_hist p h"
  shows "\<exists>p'. t_update p a t h sq = Inr p' \<and> t_inv p' \<and> globalPredictorSize p' = globalPredictorSize p"
proof -
  obtain r where r: "h = Some r" "h_globalHistory r < globalPredictorSize p"
    using h by (auto simp: t_hist_def)
  let ?j = "h_localHistory r AND localPredictorMask p"
  let ?pred = "if globalUsed r then globalPredTaken r else localPredTaken r"
  have "\<exists>p1. (if ?pred \<noteq> t \<or> \<not> sq then t_train r t ?j p else Inr p) = Inr p1 \<and> t_inv p1
      \<and> globalPredictorSize p1 = globalPredictorSize p \<and> localPredictorMask p1 = localPredictorMask p
      \<and> localHistoryTableSize p1 = localHistoryTableSize p \<and> localPredictorSize p1 = localPredictorSize p"
    using t_train_ok [OF inv r(2) refl, of t "h_localHistory r"] inv t_inv_tables(2) [OF inv] by auto
  then obtain p1 where p1: "(if ?pred \<noteq> t \<or> \<not> sq then t_train r t ?j p else Inr p) = Inr p1" "t_inv p1"
      "globalPredictorSize p1 = globalPredictorSize p" "localPredictorMask p1 = localPredictorMask p"
      "localHistoryTableSize p1 = localHistoryTableSize p" "localPredictorSize p1 = localPredictorSize p"
    by blast
  have "\<exists>p2. (if sq then t_repair r t ?j p1 else Inr p1) = Inr p2 \<and> t_inv p2
      \<and> globalPredictorSize p2 = globalPredictorSize p
      \<and> localHistoryTableSize p2 = localHistoryTableSize p \<and> localPredictorSize p2 = localPredictorSize p"
  proof (cases sq)
    case True
    have "\<exists>p2. t_repair r t ?j p1 = Inr p2 \<and> t_inv p2 \<and> globalPredictorSize p2 = globalPredictorSize p1"
      by (rule t_repair_ok [OF p1(2) _ arg_cong [OF p1(4) [symmetric], of "\<lambda>m. h_localHistory r AND m"]])
         (use r(2) p1(3) in simp)
    then obtain p2 where p2: "t_repair r t ?j p1 = Inr p2" "t_inv p2"
        "globalPredictorSize p2 = globalPredictorSize p1" by blast
    from p2(1) have "localHistoryTableSize p2 = localHistoryTableSize p1"
      "localPredictorSize p2 = localPredictorSize p1"
      by (auto simp: t_repair_def Let_def res_simps split: if_splits)
    with p2 p1 True show ?thesis by simp
  qed (use p1 in simp)
  then obtain p2 where p2: "(if sq then t_repair r t ?j p1 else Inr p1) = Inr p2" "t_inv p2"
      "globalPredictorSize p2 = globalPredictorSize p"
      "localHistoryTableSize p2 = localHistoryTableSize p" "localPredictorSize p2 = localPredictorSize p"
    by blast
  have "globalHistory p2 < globalPredictorSize p2" using p2(2) by (simp add: t_inv_def)
  with calcLocHistIdx_less [OF inv, of a] p1(1) p2 r(1) t_indices(1,8) [OF inv]
  have "t_update p a t h sq = Inr p2"
    by (simp add: t_update_def Let_def)
  with p2 show ?thesis by blast
qed

interpretation tournament_bp: dir_predictor t_inv t_hist
  "\<lambda>p. (Some (fst (t_uncondBr p)), snd (t_uncondBr p))"
  "\<lambda>p a. res_bind (t_lookup p a) (\<lambda>(t, h, p'). Inr (t, Some h, p'))"
  t_BTBUpdate t_update t_squash
proof
  fix s a t h sq
  assume inv: "t_inv s"
  have gh: "globalHistory s < globalPredictorSize s" using inv by (simp add: t_inv_def)
  show "t_inv (snd (Some (fst (t_uncondBr s)), snd (t_uncondBr s))) \<and>
      t_hist (snd (Some (fst (t_uncondBr s)), snd (t_uncondBr s)))
        (fst (Some (fst (t_uncondBr s)), snd (t_uncondBr s))) \<and>
      (\<forall>g. t_hist s g \<longrightarrow> t_hist (snd (Some (fst (t_uncondBr s)), snd (t_uncondBr s))) g)"
    using inv gh by (simp add: t_uncondBr_def t_hist_def)
  show "\<exists>p h s'. res_bind (t_lookup s a) (\<lambda>(t, h, p'). Inr (t, Some h, p')) = Inr (p, h, s')
      \<and> t_inv s' \<and> t_hist s' h \<and> (\<forall>g. t_hist s g \<longrightarrow> t_hist s' g)"
    using inv gh by (auto simp: t_lookup_eq [OF inv] t_hist_def intro!: t_inv_tables(1))
  show "\<exists>s'. t_BTBUpdate s a = Inr s' \<and> t_inv s' \<and> (\<forall>g. t_hist s g \<longrightarrow> t_hist s' g)"
  proof -
    have "globalHistory s AND (globalHistoryMask s - 1) \<le> globalHistory s" by (rule word_and_le2)
    with gh have "globalHistory s AND (globalHistoryMask s - 1) < globalPredictorSize s" by simp
    from t_inv_globalHistory [OF inv this] t_indices(1) [OF inv, of a] show ?thesis
      by (auto simp: t_BTBUpdate_def t_hist_def intro!: t_inv_tables(1))
  qed
  show "\<exists>s'. t_update s a t h sq = Inr s' \<and> t_inv s' \<and> (\<forall>g. t_hist s g \<longrightarrow> t_hist s' g)"
    if "t_hist s h"
    using t_update_ok [OF inv that, of a t sq] by (auto simp: t_hist_def)
  show "\<exists>s'. t_squash s h = Inr s' \<and> t_inv s' \<and> (\<forall>g. t_hist s g \<longrightarrow> t_hist s' g)"
    if "t_hist s h"
    using that inv by (auto simp: t_squash_def t_hist_def intro!: t_inv_globalHistory)
qed


text \<open>Any sequence of predictions (conditional or not), BTB misses, resolutions and squashes with
  histories the tournament predictor handed out runs without an index out of range or a failed
  assertion: each operation returns, keeps \<open>t_inv\<close>, and keeps every outstanding history usable.\<close>
theorem tournament_operations_safe:
  assumes "t_inv p" and "t_hist p h"
  shows "(\<exists>t g p'. t_lookup p a = Inr (t, g, p') \<and> t_inv p' \<and> t_hist p' (Some g) \<and> t_hist p' h)
    \<and> (\<exists>p'. t_BTBUpdate p a = Inr p' \<and> t_inv p' \<and> t_hist p' h)
    \<and> (\<exists>p'. t_update p a taken h squashed = Inr p' \<and> t_inv p' \<and> (\<forall>g. t_hist p g \<longrightarrow> t_hist p' g))
    \<and> (\<exists>p'. t_squash p h = Inr p' \<and> t_inv p' \<and> (\<forall>g. t_hist p g \<longrightarrow> t_hist p' g))
    \<and> t_inv (snd (t_uncondBr p)) \<and> t_hist (snd (t_uncondBr p)) (Some (fst (t_uncondBr p)))"
proof (intro conjI)
  show "\<exists>t g p'. t_lookup p a = Inr (t, g, p') \<and> t_inv p' \<and> t_hist p' (Some g) \<and> t_hist p' h"
    using tournament_bp.lookup_ok [OF assms(1), of a] assms(2)
    by (auto simp: res_bind_eq_Inr)
  show "\<exists>p'. t_BTBUpdate p a = Inr p' \<and> t_inv p' \<and> t_hist p' h"
    using tournament_bp.btb_miss_ok [OF assms(1), of a] assms(2) by blast
  show "\<exists>p'. t_update p a taken h squashed = Inr p' \<and> t_inv p' \<and> (\<forall>g. t_hist p g \<longrightarrow> t_hist p' g)"
    by (rule tournament_bp.update_ok [OF assms])
  show "\<exists>p'. t_squash p h = Inr p' \<and> t_inv p' \<and> (\<forall>g. t_hist p g \<longrightarrow> t_hist p' g)"
    by (rule tournament_bp.squash_ok [OF assms])
qed (use tournament_bp.uncond_ok [OF assms(1)] in simp_all)

definition tbp0 :: TournamentBP where
  "tbp0 = \<lparr>localCtrs = replicate 4 (fresh_counter 2), localPredictorSize = 4, localPredictorMask = 3,
     localCtrBits = 2, localHistoryTable = replicate 4 0, localHistoryTableSize = 4,
     localHistoryBits = 2, localHistoryMask = 3, globalCtrs = replicate 8 (fresh_counter 2),
     globalPredictorSize = 8, globalCtrBits = 2, globalHistory = 0, globalHistoryBits = 3,
     globalHistoryMask = 7, choiceCtrs = replicate 8 (fresh_counter 2), choicePredictorSize = 8,
     choiceCtrBits = 2, instShiftAmt = 2, threshold = 1\<rparr>"

lemma tbp0_init: "TournamentBP_init 4 2 4 2 8 3 2 99 2 2 = Inr tbp0"
proof -
  have "floorPow2_u32 4 = Inr 4"
    by (simp add: floorPow2_u32_def floorLog2_u32_def halve_step_def Let_def)
  then show ?thesis
    by (simp add: TournamentBP_init_def isPowerOf2_def leastSigBit_def ones_def tbp0_def)
qed

lemma tbp0_inv: "t_inv tbp0"
  by (simp add: t_inv_def tbp0_def)

lemma tournament_operations_safe_witness:
  "\<exists>p'. t_update tbp0 0x40 True (Some (fst (t_uncondBr tbp0))) True = Inr p' \<and> t_inv p'"
proof -
  have "t_hist tbp0 (Some (fst (t_uncondBr tbp0)))"
    by (simp add: t_hist_def t_uncondBr_def tbp0_def)
  from tournament_operations_safe [OF tbp0_inv this, of "0x40" True True] show ?thesis by blast
qed

text \<open>What a squash undoes.  After a \<open>lookup\<close>, \<open>squash\<close> with its history restores the global history
  register and nothing else: the branch's local history keeps the speculated outcome, although
  the class comment says only the global history is updated speculatively.\<close>
theorem squash_restores_only_global:
  assumes "t_inv p" and "t_lookup p a = Inr (taken, h, p1)"
  shows "t_squash p1 (Some h) = Inr (p\<lparr>localHistoryTable := (localHistoryTable p)
    [unat (calcLocHistIdx p a) :=
       push_bit 1 (localHistoryTable p ! unat (calcLocHistIdx p a)) OR (if taken then 1 else 0)]\<rparr>)"
  using assms(2) unfolding t_lookup_eq [OF assms(1)]
  by (auto simp: t_squash_def updateGlobalHistTaken_def updateGlobalHistNotTaken_def)

lemma squash_restores_only_global_witness:
  "\<exists>h p1. t_lookup tbp0 0x44 = Inr (False, h, p1) \<and> t_squash p1 (Some h) =
     Inr (tbp0\<lparr>localHistoryTable := (localHistoryTable tbp0)[1 := 0]\<rparr>)"
proof -
  obtain t h p1 where l: "t_lookup tbp0 0x44 = Inr (t, h, p1)"
    using tournament_bp.lookup_ok [OF tbp0_inv, of "0x44"] by (auto simp: res_bind_eq_Inr)
  moreover have "t = False"
    using l unfolding t_lookup_eq [OF tbp0_inv]
    by (simp add: predicts_def tbp0_def fresh_counter_def setBits_def calcLocHistIdx_def)
  ultimately show ?thesis using squash_restores_only_global [OF tbp0_inv l]
    by (simp add: calcLocHistIdx_def tbp0_def)
qed

text \<open>
  The test against \<open>invalidPredictorIndex\<close> never fires: \<open>-1 & mask\<close> is \<open>mask\<close>.  So the squash of an
  unconditional branch overwrites the local history entry of the last index.
\<close>

lemma uncond_repair_overwrites:
  assumes "t_inv p" and "localPredictorMask p \<noteq> invalidPredictorIndex"
  shows "t_repair (fst (t_uncondBr p)) True
      (h_localHistory (fst (t_uncondBr p)) AND localPredictorMask p) p =
    Inr (p\<lparr>globalHistory := (push_bit 1 (globalHistory p) OR 1) AND globalHistoryMask p,
      localHistoryTable := (localHistoryTable p)[unat (localPredictorMask p) := - 1]\<rparr>)"
proof -
  have e: "(- 1 :: u32) AND localPredictorMask p = localPredictorMask p" by simp
  have "unat (localPredictorMask p) < length (localHistoryTable p)"
    using t_indices(3) [OF assms(1), of "- 1"] by simp
  moreover have "push_bit 1 (- 1 :: u32) OR 1 = - 1" by simp
  ultimately show ?thesis using assms(2)
    by (simp add: t_repair_def t_uncondBr_def invalidPredictorIndex_def Let_def)
qed

text \<open>With fewer local histories than local counters the same index leaves the table.\<close>

lemma small_history_table_out_of_range:
  "\<exists>p. TournamentBP_init 8 2 4 2 8 3 2 8 2 2 = Inr p
     \<and> t_update p 0x40 True (Some (fst (t_uncondBr p))) True = Inl OutOfRange"
proof -
  have "floorPow2_u32 8 = Inr 8"
    by (simp add: floorPow2_u32_def floorLog2_u32_def halve_step_def Let_def)
  then show ?thesis
    by (simp add: TournamentBP_init_def isPowerOf2_def leastSigBit_def ones_def t_update_def
        calcLocHistIdx_def t_uncondBr_def t_repair_def invalidPredictorIndex_def vec_set_def)
qed


section \<open>The branch target buffer\<close>

definition btb_inv :: "'pc DefaultBTB \<Rightarrow> bool" where
  "btb_inv b \<longleftrightarrow> btb_numEntries b \<noteq> 0 \<and> length (btb b) = unat (btb_numEntries b)
     \<and> idxMask b = btb_numEntries b - 1"

lemma DefaultBTB_init_inv: "DefaultBTB_init zero tid0 n tbits shift = Inr b \<Longrightarrow> btb_inv b"
  by (auto simp: DefaultBTB_init_def btb_inv_def isPowerOf2_def res_simps split: if_splits)

lemma btb_index_less:
  assumes "btb_inv b"
  shows "BTB_getIndex b pc < btb_numEntries b" "unat (BTB_getIndex b pc) < length (btb b)"
proof -
  show "BTB_getIndex b pc < btb_numEntries b"
    unfolding BTB_getIndex_def using assms masked_index_less by (simp add: btb_inv_def)
  then show "unat (BTB_getIndex b pc) < length (btb b)"
    using assms by (simp add: btb_inv_def word_less_nat_alt)
qed

lemma btb_total:
  assumes "btb_inv b"
  shows "\<exists>v. BTB_valid b pc tid = Inr v" "\<exists>t. BTB_lookup zero b pc tid = Inr t"
    "\<exists>b'. BTB_update b pc t tid = Inr b' \<and> btb_inv b'"
  using btb_index_less [OF assms, of pc] assms
  by (simp_all add: BTB_valid_def BTB_lookup_def BTB_update_def btb_inv_def)

text \<open>After an update, a lookup in the branch target buffer that maps to the same entry hits iff
  the tag and the thread are those of the update, and then returns its target (0 otherwise);
  lookups that map elsewhere are as before.  No access leaves the table.\<close>
theorem btb_update_lookup:
  assumes "btb_inv b"
  shows "\<exists>b'. BTB_update b pc t tid = Inr b' \<and> btb_inv b' \<and>
    (\<forall>pc2 tid2. if BTB_getIndex b pc2 = BTB_getIndex b pc
      then BTB_valid b' pc2 tid2 = Inr (BTB_getTag b pc2 = BTB_getTag b pc \<and> tid2 = tid)
        \<and> BTB_lookup zero b' pc2 tid2
            = Inr (if BTB_getTag b pc2 = BTB_getTag b pc \<and> tid2 = tid then t else zero)
      else BTB_valid b' pc2 tid2 = BTB_valid b pc2 tid2
        \<and> BTB_lookup zero b' pc2 tid2 = BTB_lookup zero b pc2 tid2)"
proof -
  note i = btb_index_less [OF assms]
  let ?i = "unat (BTB_getIndex b pc)"
  let ?b = "b\<lparr>btb := (btb b)[?i := (btb b ! ?i)\<lparr>btb_tid := tid, valid := True, target := t,
    btb_tag := BTB_getTag b pc\<rparr>]\<rparr>"
  have u: "BTB_update b pc t tid = Inr ?b" using i by (simp add: BTB_update_def)
  have idx: "BTB_getIndex ?b = BTB_getIndex b" "BTB_getTag ?b = BTB_getTag b"
    by (simp_all add: BTB_getIndex_def BTB_getTag_def fun_eq_iff)
  have inv: "btb_inv ?b" using assms by (simp add: btb_inv_def)
  have eq: "BTB_getIndex b pc2 = BTB_getIndex b pc \<longleftrightarrow> unat (BTB_getIndex b pc2) = ?i" for pc2
    by (simp add: word_unat_eq_iff)
  show ?thesis
    by (rule exI [of _ ?b], intro conjI allI, rule u, rule inv)
      (use i in \<open>auto simp: BTB_valid_def BTB_lookup_def BTB_hit_def idx eq\<close>)
qed

lemma btb_update_lookup_witness:
  "\<exists>b b'. DefaultBTB_init (0::nat) 0 16 8 2 = Inr b \<and> BTB_update b 0x1040 77 3 = Inr b'
    \<and> BTB_lookup 0 b' 0x1040 3 = Inr 77 \<and> BTB_lookup 0 b' 0x1040 4 = Inr 0"
proof -
  have "\<exists>b. DefaultBTB_init (0::nat) 0 16 8 2 = Inr b"
    by (simp add: DefaultBTB_init_def isPowerOf2_def leastSigBit_def floorLog2_u32_def
        halve_step_def Let_def)
  then obtain b where b: "DefaultBTB_init (0::nat) 0 16 8 2 = Inr b" ..
  obtain b' where "BTB_update b 0x1040 77 3 = Inr b'"
    and l: "\<And>pc2 tid2. if BTB_getIndex b pc2 = BTB_getIndex b 0x1040
      then BTB_valid b' pc2 tid2 = Inr (BTB_getTag b pc2 = BTB_getTag b 0x1040 \<and> tid2 = 3)
        \<and> BTB_lookup 0 b' pc2 tid2
            = Inr (if BTB_getTag b pc2 = BTB_getTag b 0x1040 \<and> tid2 = 3 then 77 else 0)
      else BTB_valid b' pc2 tid2 = BTB_valid b pc2 tid2
        \<and> BTB_lookup 0 b' pc2 tid2 = BTB_lookup 0 b pc2 tid2"
    using btb_update_lookup [OF DefaultBTB_init_inv [OF b], of "0x1040" 77 3 0] by blast
  with b l [of "0x1040" 3] l [of "0x1040" 4] show ?thesis by auto
qed

section \<open>The return address stack\<close>

definition ras_inv :: "'pc RAS \<Rightarrow> bool" where
  "ras_inv s \<longleftrightarrow> ras_numEntries s \<noteq> 0 \<and> length (addrStack s) = unat (ras_numEntries s)
     \<and> usedEntries s \<le> ras_numEntries s \<and> tos s < ras_numEntries s"

text \<open>The stack the ring buffer stands for: the used entries, from the top down.\<close>

definition ras_slot :: "'pc RAS \<Rightarrow> nat \<Rightarrow> nat" where
  "ras_slot s i = (unat (tos s) + (unat (ras_numEntries s) - i)) mod unat (ras_numEntries s)"

definition ras_abs :: "'pc RAS \<Rightarrow> 'pc list" where
  "ras_abs s = List.map (\<lambda>i. addrStack s ! ras_slot s i) [0..<unat (usedEntries s)]"

lemma ras_inv_nat:
  assumes "ras_inv s"
  shows "0 < unat (ras_numEntries s)" "length (addrStack s) = unat (ras_numEntries s)"
    "unat (usedEntries s) \<le> unat (ras_numEntries s)" "unat (tos s) < unat (ras_numEntries s)"
  using assms by (auto simp: ras_inv_def word_le_nat_alt word_less_nat_alt unat_gt_0)

lemma unat_incrTos:
  assumes "ras_inv s"
  shows "unat (tos (incrTos s)) = (unat (tos s) + 1) mod unat (ras_numEntries s)"
proof -
  note r = ras_inv_nat [OF assms]
  have "unat (tos s) + 1 < 2 ^ 32"
    using r(4) unsigned_less [of "ras_numEntries s", where ?'a = nat] by simp
  then have u: "unat (tos s + 1) = unat (tos s) + 1" by (simp add: unat_word_ariths)
  show ?thesis
  proof (cases "tos s + 1 = ras_numEntries s")
    case True
    then have "unat (tos s) + 1 = unat (ras_numEntries s)" using u by metis
    with True show ?thesis by (simp add: incrTos_def)
  next
    case False
    then have "unat (tos s) + 1 \<noteq> unat (ras_numEntries s)" using u by (metis word_unat_eq_iff)
    with False u r(4) show ?thesis by (simp add: incrTos_def)
  qed
qed

lemma unat_decrTos:
  assumes "ras_inv s"
  shows "unat (tos (decrTos s)) = (unat (tos s) + (unat (ras_numEntries s) - 1)) mod unat (ras_numEntries s)"
proof (cases "tos s = 0")
  case True
  have "ras_numEntries s \<noteq> 0" using assms by (simp add: ras_inv_def)
  then have "unat (ras_numEntries s - 1) = unat (ras_numEntries s) - 1" by (rule unat_minus_one)
  moreover have "unat (ras_numEntries s) - 1 < unat (ras_numEntries s)"
    using ras_inv_nat(1) [OF assms] by simp
  ultimately show ?thesis using True by (simp add: decrTos_def)
next
  case False
  note r = ras_inv_nat [OF assms]
  have "0 < unat (tos s)" using False by (simp add: unat_gt_0)
  then have e: "unat (tos s) + (unat (ras_numEntries s) - 1) = (unat (tos s) - 1) + unat (ras_numEntries s)"
    using r(1) by simp
  have "(unat (tos s) + (unat (ras_numEntries s) - 1)) mod unat (ras_numEntries s) = unat (tos s) - 1"
    unfolding e mod_add_self2 using r(4) by (intro mod_less) simp
  moreover have "unat (tos s - 1) = unat (tos s) - 1" using False by (rule unat_minus_one)
  ultimately show ?thesis using False by (simp add: decrTos_def)
qed

lemma map_upt_Suc_shift: "List.map f [0..<Suc n] = f 0 # List.map (\<lambda>i. f (Suc i)) [0..<n]"
  by (induction n) simp_all

lemma slot_eq:
  fixes n :: nat
  assumes "i < n" and "t < n"
  shows "(t + (n - i)) mod n = (if i \<le> t then t - i else t + (n - i))"
proof (cases "i \<le> t")
  case True
  then have "t + (n - i) = (t - i) + n" using assms by simp
  then have "(t + (n - i)) mod n = (t - i) mod n" by (simp only: mod_add_self2)
  then show ?thesis using True assms by simp
next
  case False
  then have "t + (n - i) < n" using assms by arith
  with False show ?thesis by simp
qed

lemma slot_distinct:
  fixes n :: nat
  assumes "i < n" and "j < n" and "t < n" and "(t + (n - i)) mod n = (t + (n - j)) mod n"
  shows "i = j"
  using assms(4) unfolding slot_eq [OF assms(1,3)] slot_eq [OF assms(2,3)]
  using assms(1-3) by (simp split: if_splits)

lemma slot_after_push:
  assumes "tos' = (t + 1) mod n" and "i < n" and "t < n"
  shows "(tos' + (n - Suc i)) mod n = (t + (n - i)) mod (n::nat)"
proof -
  have "(tos' + (n - Suc i)) mod n = ((t + 1) + (n - Suc i)) mod n"
    unfolding assms(1) by (rule mod_add_left_eq)
  also have "(t + 1) + (n - Suc i) = t + (n - i)" using assms(2) by simp
  finally show ?thesis .
qed

lemma ras_push_refines:
  assumes "ras_inv s"
  shows "\<exists>s'. ras_push s x = Inr s' \<and> ras_inv s' \<and> ras_numEntries s' = ras_numEntries s
    \<and> ras_abs s' = take (unat (ras_numEntries s)) (x # ras_abs s)
    \<and> tos s' = tos (incrTos s)"
proof -
  note r = ras_inv_nat [OF assms]
  let ?n = "unat (ras_numEntries s)" and ?u = "unat (usedEntries s)" and ?t = "unat (tos s)"
  let ?t' = "unat (tos (incrTos s))"
  have t': "?t' = (?t + 1) mod ?n" by (rule unat_incrTos [OF assms])
  have t'n: "?t' < ?n" using r(1) t' by simp
  let ?s = "(incrTos s)\<lparr>addrStack := (addrStack s)[?t' := x],
    usedEntries := (if usedEntries s \<noteq> ras_numEntries s then usedEntries s + 1 else usedEntries s)\<rparr>"
  have inc: "addrStack (incrTos s) = addrStack s" "usedEntries (incrTos s) = usedEntries s"
    "ras_numEntries (incrTos s) = ras_numEntries s" by (simp_all add: incrTos_def)
  have push: "ras_push s x = Inr ?s" using t'n r(2) by (simp add: ras_push_def Let_def inc)
  have u': "unat (usedEntries ?s) = min ?n (?u + 1)"
  proof (cases "usedEntries s = ras_numEntries s")
    case False
    then have "?u < ?n" using r(3) by (metis le_neq_implies_less word_unat_eq_iff)
    moreover from this have "?u + 1 < 2 ^ 32"
      using unsigned_less [of "ras_numEntries s", where ?'a = nat] by simp
    ultimately show ?thesis using False by (simp add: unat_word_ariths)
  qed simp
  have slots: "ras_slot ?s (Suc i) = ras_slot s i" if "Suc i < ?n" for i
    using slot_after_push [OF t', of i] that r(4) by (simp add: ras_slot_def inc)
  have slot0: "ras_slot ?s 0 = ?t'" using t'n by (simp add: ras_slot_def inc)
  have differ: "ras_slot ?s (Suc i) \<noteq> ?t'" if "Suc i < ?n" for i
  proof
    assume "ras_slot ?s (Suc i) = ?t'"
    then have "(?t' + (?n - Suc i)) mod ?n = (?t' + (?n - 0)) mod ?n"
      using t'n by (simp add: ras_slot_def inc)
    with slot_distinct [OF that r(1) t'n] show False by simp
  qed
  obtain m where m: "min ?n (?u + 1) = Suc m" "m \<le> ?u" "Suc m \<le> ?n"
  proof
    show "min ?n (?u + 1) = Suc (min (?n - 1) ?u)" using r(1) by simp
  qed (use r(1) in simp_all)
  have "ras_abs ?s = x # List.map (\<lambda>i. addrStack s ! ras_slot s i) [0..<m]"
  proof -
    have "addrStack ?s ! ras_slot ?s (Suc i) = addrStack s ! ras_slot s i" if "i < m" for i
      using that m differ [of i] slots [of i] by simp
    moreover have "addrStack ?s ! ras_slot ?s 0 = x" using slot0 t'n r(2) by simp
    ultimately show ?thesis unfolding ras_abs_def u' m(1) map_upt_Suc_shift by simp
  qed
  also have "\<dots> = take ?n (x # ras_abs s)"
  proof -
    obtain k where k: "?n = Suc k" using r(1) by (cases ?n) auto
    have "m = min k ?u" using m k by simp
    moreover have "take k [0..<?u] = [0..<min k ?u]" by (cases "k \<le> ?u") (simp_all add: take_upt)
    ultimately show ?thesis by (simp add: k ras_abs_def take_map min.commute)
  qed
  finally have "ras_abs ?s = take ?n (x # ras_abs s)" .
  moreover have "ras_inv ?s"
    using assms u' t'n by (simp add: ras_inv_def inc word_le_nat_alt word_less_nat_alt split del: if_split)
  ultimately show ?thesis using push by (intro exI [of _ ?s]) (simp add: inc)
qed

lemma ras_pop_refines:
  assumes "ras_inv s"
  shows "ras_inv (ras_pop s)" "ras_abs (ras_pop s) = tl (ras_abs s)"
    "ras_numEntries (ras_pop s) = ras_numEntries s"
    "addrStack (ras_pop s) = addrStack s"
    "unat (tos (ras_pop s)) = (unat (tos s) + (unat (ras_numEntries s) - 1)) mod unat (ras_numEntries s)"
proof -
  note r = ras_inv_nat [OF assms]
  let ?n = "unat (ras_numEntries s)" and ?t = "unat (tos s)"
  have u': "unat (usedEntries (ras_pop s)) = unat (usedEntries s) - 1"
    by (auto simp: ras_pop_def decrTos_def unat_minus_one word_gt_0)
  then have u'n: "unat (usedEntries (ras_pop s)) \<le> ?n" using r(3) by simp
  have same: "ras_numEntries (ras_pop s) = ras_numEntries s" "addrStack (ras_pop s) = addrStack s"
    "tos (ras_pop s) = tos (decrTos s)"
    by (simp_all add: ras_pop_def decrTos_def)
  have t': "unat (tos (ras_pop s)) = (?t + (?n - 1)) mod ?n"
    using unat_decrTos [OF assms] same by simp
  then have t'n: "unat (tos (ras_pop s)) < ?n" using r(1) by simp
  show inv: "ras_inv (ras_pop s)"
    using assms u'n t'n by (simp add: ras_inv_def same(1,2) word_le_nat_alt word_less_nat_alt)
  have slots: "ras_slot (ras_pop s) i = ras_slot s (Suc i)" if "Suc i < ?n" for i
  proof -
    have "((?t + (?n - 1)) mod ?n + (?n - i)) mod ?n = (?t + (?n - 1) + (?n - i)) mod ?n"
      by (rule mod_add_left_eq)
    also have "?t + (?n - 1) + (?n - i) = (?t + (?n - Suc i)) + ?n" using that by simp
    finally show ?thesis by (simp add: ras_slot_def same(1) t')
  qed
  show "ras_abs (ras_pop s) = tl (ras_abs s)"
  proof (cases "unat (usedEntries s)")
    case 0
    then show ?thesis by (simp add: ras_abs_def u')
  next
    case (Suc k)
    have "List.map (\<lambda>i. addrStack s ! ras_slot (ras_pop s) i) [0..<k]
        = List.map (\<lambda>i. addrStack s ! ras_slot s (Suc i)) [0..<k]"
      using slots Suc r(3) by simp
    then show ?thesis unfolding ras_abs_def u' Suc map_upt_Suc_shift by (simp add: same(2))
  qed
  show "ras_numEntries (ras_pop s) = ras_numEntries s" "addrStack (ras_pop s) = addrStack s" by (fact same)+
  show "unat (tos (ras_pop s)) = (?t + (?n - 1)) mod ?n" by (fact t')
qed

text \<open>The return address stack is a stack bounded by its size: \<open>push\<close> adds on top and drops the
  oldest address of a full stack, \<open>pop\<close> removes the top, and \<open>top\<close> of a nonempty stack is its
  head.  A \<open>push\<close> never fails.\<close>
theorem ras_is_bounded_stack:
  assumes "ras_inv s"
  shows "(\<exists>s'. ras_push s x = Inr s' \<and> ras_inv s'
      \<and> ras_abs s' = take (unat (ras_numEntries s)) (x # ras_abs s))
    \<and> ras_inv (ras_pop s) \<and> ras_abs (ras_pop s) = tl (ras_abs s)
    \<and> (\<exists>t. ras_top s = Inr t \<and> (\<not> ras_empty s \<longrightarrow> t = hd (ras_abs s)))"
proof (intro conjI)
  show "\<exists>s'. ras_push s x = Inr s' \<and> ras_inv s'
      \<and> ras_abs s' = take (unat (ras_numEntries s)) (x # ras_abs s)"
    using ras_push_refines [OF assms] by blast
  note r = ras_inv_nat [OF assms]
  show "\<exists>t. ras_top s = Inr t \<and> (\<not> ras_empty s \<longrightarrow> t = hd (ras_abs s))"
  proof -
    have "hd (ras_abs s) = addrStack s ! unat (tos s)" if ne: "\<not> ras_empty s"
    proof -
      obtain k where "unat (usedEntries s) = Suc k"
        using ne by (metis ras_empty_def unat_eq_0 not0_implies_Suc)
      then show ?thesis using r(4) by (simp add: ras_abs_def ras_slot_def map_upt_Suc_shift del: upt_Suc)
    qed
    then show ?thesis using r(2,4) by (simp add: ras_top_def)
  qed
qed (fact ras_pop_refines(1,2) [OF assms])+

lemma ras_init_inv: "n \<noteq> 0 \<Longrightarrow> ras_inv (ras_init zero n)"
  by (simp add: ras_inv_def ras_init_def word_gt_0)

lemma ras_is_bounded_stack_witness:
  "\<exists>s'. ras_push (ras_init (0::int) 2) 7 = Inr s' \<and> ras_abs s' = [7]"
proof -
  have a: "ras_abs (ras_init (0::int) 2) = []" "ras_numEntries (ras_init (0::int) 2) = 2"
    by (simp_all add: ras_abs_def ras_init_def)
  have "(2::u32) \<noteq> 0" by simp
  from ras_is_bounded_stack [OF ras_init_inv [OF this], of 0 7] a show ?thesis by auto
qed

text \<open>A speculated return is undone exactly for the stack pointer and the top: \<open>restore\<close> with the
  index and address read before a \<open>pop\<close> gives the ring buffer back, but \<open>usedEntries\<close> stays
  decremented when the stack was not empty.\<close>
theorem ras_restore_after_pop:
  assumes "ras_inv s" and "ras_top s = Inr x"
  shows "ras_restore (ras_pop s) (tos s) x = Inr (s\<lparr>usedEntries :=
      (if ras_empty s then 0 else usedEntries s - 1)\<rparr>)"
proof -
  note r = ras_inv_nat [OF assms(1)]
  have "x = addrStack s ! unat (tos s)" using assms(2) r by (simp add: ras_top_def)
  then show ?thesis using r(2,4)
    by (auto simp: ras_restore_def ras_pop_def decrTos_def ras_empty_def word_gt_0)
qed

lemma ras_restore_after_pop_witness:
  "ras_restore (ras_pop (ras_init (5::int) 4)) 0 5 = Inr (ras_init 5 4)"
proof -
  have g: "ras_inv (ras_init (5::int) 4)" "ras_top (ras_init (5::int) 4) = Inr 5"
    using ras_init_inv [of 4 5] by (simp, simp add: ras_top_def ras_init_def)
  show ?thesis using ras_restore_after_pop [OF g] by (simp add: ras_init_def ras_empty_def)
qed

end
