(* ===== verification/BPred_Unit.thy ===== *)
theory BPred_Unit
  imports Predictor_Laws
begin

text \<open>
  The branch prediction unit of the out-of-order CPU (\<open>src/cpu/o3/bpred_unit.hh\<close>,
  \<open>src/cpu/o3/bpred_unit_impl.hh\<close>): a direction predictor, the branch target buffer, one return
  address stack and one list of outstanding predictions per thread.  The architecture's
  \<open>PCState\<close> is a type variable; its operations \<open>instAddr\<close>, \<open>buildRetPC\<close> and \<open>advancePC\<close> and the
  \<open>PCState\<close> built from 0 belong to the target configured at build time and are parameters,
  collected in a record.  Sequence numbers are \<open>uint64_t\<close>, statistics are counted in the state.
\<close>

section \<open>State\<close>

datatype dir_pred = Local LocalBP | Tournament TournamentBP

record 'pc PredictorHistory =
  seqNum :: u64
  pc :: addr
  bpHistory :: "BPHistory option"
  RASTarget :: 'pc
  RASIndex :: u32
  hist_tid :: int
  predTaken :: bool
  usedRAS :: bool
  wasCall :: bool
  wasReturn :: bool
  validBTB :: bool

record 'pc BPredUnit =
  predictor :: dir_pred
  predHist :: "int \<Rightarrow> 'pc PredictorHistory list"
  bpu_BTB :: "'pc DefaultBTB"
  bpu_RAS :: "int \<Rightarrow> 'pc RAS"
  lookups :: nat
  condPredicted :: nat
  condIncorrect :: nat
  BTBLookups :: nat
  BTBHits :: nat
  stat_usedRAS :: nat
  RASIncorrect :: nat

record 'pc isa =
  pc_zero :: 'pc
  instAddr :: "'pc \<Rightarrow> addr"
  buildRetPC :: "'pc \<Rightarrow> 'pc \<Rightarrow> 'pc"

record 'pc dyn_inst =
  inst_seqNum :: u64
  isUncondCtrl :: bool
  isReturn :: bool
  isCall :: bool
  advancePC :: "'pc \<Rightarrow> 'pc"

definition PredictorHistory_init ::
  "'pc \<Rightarrow> u64 \<Rightarrow> addr \<Rightarrow> bool \<Rightarrow> BPHistory option \<Rightarrow> int \<Rightarrow> 'pc PredictorHistory" where
  "PredictorHistory_init zero sn a taken h tid =
     \<lparr>seqNum = sn, pc = a, bpHistory = h, RASTarget = zero, RASIndex = 0, hist_tid = tid,
      predTaken = taken, usedRAS = False, wasCall = False, wasReturn = False, validBTB = False\<rparr>"

section \<open>Dispatch to the selected predictor\<close>

definition BPUncond :: "dir_pred \<Rightarrow> BPHistory option \<times> dir_pred" where
  "BPUncond d =
     (case d of
        Local p \<Rightarrow> (None, Local p)
      | Tournament p \<Rightarrow> (Some (fst (t_uncondBr p)), Tournament (snd (t_uncondBr p))))"

definition BPSquash :: "dir_pred \<Rightarrow> BPHistory option \<Rightarrow> dir_pred res" where
  "BPSquash d h =
     (case d of
        Local p \<Rightarrow> res_bind (lb_squash p h) (\<lambda>p'. Inr (Local p'))
      | Tournament p \<Rightarrow> res_bind (t_squash p h) (\<lambda>p'. Inr (Tournament p')))"

definition BPLookup :: "dir_pred \<Rightarrow> addr \<Rightarrow> (bool \<times> BPHistory option \<times> dir_pred) res" where
  "BPLookup d a =
     (case d of
        Local p \<Rightarrow> res_bind (lb_lookup p a) (\<lambda>t. Inr (t, None, Local p))
      | Tournament p \<Rightarrow> res_bind (t_lookup p a) (\<lambda>(t, h, p'). Inr (t, Some h, Tournament p')))"

definition BPBTBUpdate :: "dir_pred \<Rightarrow> addr \<Rightarrow> dir_pred res" where
  "BPBTBUpdate d a =
     (case d of
        Local p \<Rightarrow> Inr (Local (lb_BTBUpdate p a))
      | Tournament p \<Rightarrow> res_bind (t_BTBUpdate p a) (\<lambda>p'. Inr (Tournament p')))"

definition BPUpdate :: "dir_pred \<Rightarrow> addr \<Rightarrow> bool \<Rightarrow> BPHistory option \<Rightarrow> bool \<Rightarrow> dir_pred res" where
  "BPUpdate d a taken h squashed =
     (case d of
        Local p \<Rightarrow> res_bind (lb_update p a taken h) (\<lambda>p'. Inr (Local p'))
      | Tournament p \<Rightarrow> res_bind (t_update p a taken h squashed) (\<lambda>p'. Inr (Tournament p')))"

section \<open>Prediction\<close>

text \<open>The update of one thread's return address stack.\<close>

definition set_RAS :: "int \<Rightarrow> 'pc RAS \<Rightarrow> 'pc BPredUnit \<Rightarrow> 'pc BPredUnit" where
  "set_RAS tid r u = u\<lparr>bpu_RAS := (bpu_RAS u)(tid := r)\<rparr>"

text \<open>The direction: \<open>pred_taken\<close> and the history, before any target is looked up.\<close>

definition predict_direction ::
  "'pc isa \<Rightarrow> 'pc dyn_inst \<Rightarrow> 'pc \<Rightarrow> 'pc BPredUnit \<Rightarrow> (bool \<times> BPHistory option \<times> 'pc BPredUnit) res" where
  "predict_direction isa inst p u =
     (let u1 = u\<lparr>lookups := lookups u + 1\<rparr>
      in if isUncondCtrl inst
         then (let (h, d) = BPUncond (predictor u1) in Inr (True, h, u1\<lparr>predictor := d\<rparr>))
         else let u2 = u1\<lparr>condPredicted := condPredicted u1 + 1\<rparr>
              in res_bind (BPLookup (predictor u2) (instAddr isa p))
                   (\<lambda>(taken, h, d). Inr (taken, h, u2\<lparr>predictor := d\<rparr>)))"

text \<open>A predicted return takes its target from the return address stack.\<close>

definition predict_return ::
  "'pc isa \<Rightarrow> 'pc \<Rightarrow> int \<Rightarrow> 'pc PredictorHistory \<Rightarrow> 'pc BPredUnit
     \<Rightarrow> ('pc \<times> 'pc PredictorHistory \<times> 'pc BPredUnit) res" where
  "predict_return isa p tid r u =
     (let u1 = u\<lparr>stat_usedRAS := stat_usedRAS u + 1\<rparr>; ras = bpu_RAS u1 tid
      in res_bind (ras_top ras) (\<lambda>rasTop.
           let r1 = r\<lparr>wasReturn := True, usedRAS := True, RASIndex := tos ras, RASTarget := rasTop\<rparr>
           in assert_that (RASIndex r1 < 16)
                (Inr (buildRetPC isa p rasTop, r1, set_RAS tid (ras_pop ras) u1))))"

text \<open>Another predicted-taken branch takes it from the BTB, or falls through on a BTB miss.\<close>

definition predict_btb ::
  "'pc isa \<Rightarrow> 'pc dyn_inst \<Rightarrow> 'pc \<Rightarrow> int \<Rightarrow> 'pc PredictorHistory \<Rightarrow> 'pc BPredUnit
     \<Rightarrow> (bool \<times> 'pc \<times> 'pc PredictorHistory \<times> 'pc BPredUnit) res" where
  "predict_btb isa inst p tid r u =
     (let u1 = u\<lparr>BTBLookups := BTBLookups u + 1\<rparr>
      in res_bind (if isCall inst
                   then res_bind (ras_push (bpu_RAS u1 tid) p)
                          (\<lambda>ras. Inr (r\<lparr>wasCall := True\<rparr>, set_RAS tid ras u1))
                   else Inr (r, u1)) (\<lambda>(r2, u2).
         res_bind (BTB_valid (bpu_BTB u2) (instAddr isa p) tid) (\<lambda>hit.
           if hit
           then res_bind (BTB_lookup (pc_zero isa) (bpu_BTB u2) (instAddr isa p) tid)
                  (\<lambda>target. Inr (True, target, r2\<lparr>validBTB := True\<rparr>, u2\<lparr>BTBHits := BTBHits u2 + 1\<rparr>))
           else res_bind
                  (if \<not> isCall inst \<and> \<not> isReturn inst
                   then res_bind (BPBTBUpdate (predictor u2) (instAddr isa p))
                          (\<lambda>d. Inr (u2\<lparr>predictor := d\<rparr>))
                   else if isCall inst \<and> \<not> isUncondCtrl inst
                   then Inr (set_RAS tid (ras_pop (bpu_RAS u2 tid)) u2)
                   else Inr u2)
                  (\<lambda>u3. Inr (False, advancePC inst p, r2, u3)))))"

definition predict ::
  "'pc isa \<Rightarrow> 'pc dyn_inst \<Rightarrow> 'pc \<Rightarrow> int \<Rightarrow> 'pc BPredUnit \<Rightarrow> (bool \<times> 'pc \<times> 'pc BPredUnit) res" where
  "predict isa inst p tid u =
     res_bind (predict_direction isa inst p u) (\<lambda>(taken, h, u1).
       let r = PredictorHistory_init (pc_zero isa) (inst_seqNum inst) (instAddr isa p) taken h tid
       in res_bind
            (if taken
             then if isReturn inst
                  then res_bind (predict_return isa p tid r u1)
                         (\<lambda>(target, r', u'). Inr (True, target, r', u'))
                  else predict_btb isa inst p tid r u1
             else Inr (False, advancePC inst p,
                       if isReturn inst then r\<lparr>wasReturn := True\<rparr> else r, u1))
            (\<lambda>(taken', target, r', u').
               Inr (taken', target, u'\<lparr>predHist := (predHist u')(tid := r' # predHist u' tid)\<rparr>)))"

section \<open>Commit and squash\<close>

text \<open>The loop of \<open>update\<close> on the outstanding predictions, the oldest first.\<close>

fun commit_loop ::
  "u64 \<Rightarrow> 'pc PredictorHistory list \<Rightarrow> dir_pred \<Rightarrow> ('pc PredictorHistory list \<times> dir_pred) res" where
  "commit_loop done_sn [] d = Inr ([], d)"
| "commit_loop done_sn (r # rs) d =
     (if seqNum r \<le> done_sn
      then res_bind (BPUpdate d (pc r) (predTaken r) (bpHistory r) False) (commit_loop done_sn rs)
      else Inr (r # rs, d))"

definition bpu_update :: "u64 \<Rightarrow> int \<Rightarrow> 'pc BPredUnit \<Rightarrow> 'pc BPredUnit res" where
  "bpu_update done_sn tid u =
     res_bind (commit_loop done_sn (List.rev (predHist u tid)) (predictor u))
       (\<lambda>(rs, d). Inr (u\<lparr>predictor := d, predHist := (predHist u)(tid := List.rev rs)\<rparr>))"

text \<open>Undoing what one prediction did to the return address stack.\<close>

definition undo_RAS :: "'pc PredictorHistory \<Rightarrow> 'pc RAS \<Rightarrow> 'pc RAS res" where
  "undo_RAS r ras =
     (if usedRAS r then ras_restore ras (RASIndex r) (RASTarget r)
      else if wasCall r \<and> validBTB r then Inr (ras_pop ras)
      else Inr ras)"

fun squash_loop ::
  "u64 \<Rightarrow> 'pc PredictorHistory list \<Rightarrow> 'pc RAS \<Rightarrow> dir_pred
     \<Rightarrow> ('pc PredictorHistory list \<times> 'pc RAS \<times> dir_pred) res" where
  "squash_loop sn [] ras d = Inr ([], ras, d)"
| "squash_loop sn (r # rs) ras d =
     (if seqNum r > sn
      then res_bind (undo_RAS r ras) (\<lambda>ras'.
           res_bind (BPSquash d (bpHistory r)) (\<lambda>d'. squash_loop sn rs ras' d'))
      else Inr (r # rs, ras, d))"

definition bpu_squash :: "u64 \<Rightarrow> int \<Rightarrow> 'pc BPredUnit \<Rightarrow> 'pc BPredUnit res" where
  "bpu_squash sn tid u =
     res_bind (squash_loop sn (predHist u tid) (bpu_RAS u tid) (predictor u))
       (\<lambda>(rs, ras, d).
          Inr (set_RAS tid ras (u\<lparr>predictor := d, predHist := (predHist u)(tid := rs)\<rparr>)))"

definition bpu_squash_correct ::
  "u64 \<Rightarrow> 'pc \<Rightarrow> bool \<Rightarrow> int \<Rightarrow> 'pc BPredUnit \<Rightarrow> 'pc BPredUnit res" where
  "bpu_squash_correct sn corrTarget actually_taken tid u =
     res_bind (bpu_squash sn tid (u\<lparr>condIncorrect := condIncorrect u + 1\<rparr>)) (\<lambda>u1.
       case predHist u1 tid of
         [] \<Rightarrow> Inr u1
       | r # rs \<Rightarrow> assert_that (seqNum r = sn)
           (let u2 = (if usedRAS r then u1\<lparr>RASIncorrect := RASIncorrect u1 + 1\<rparr> else u1)
            in res_bind (BPUpdate (predictor u2) (pc r) actually_taken (bpHistory r) True) (\<lambda>d.
               let u3 = u2\<lparr>predictor := d\<rparr>
               in res_bind
                    (if actually_taken
                     then let u4 = (if wasReturn r \<and> \<not> usedRAS r
                                    then set_RAS tid (ras_pop (bpu_RAS u3 tid)) u3 else u3)
                          in res_bind (BTB_update (bpu_BTB u4) (pc r) corrTarget tid)
                               (\<lambda>b. Inr (u4\<lparr>bpu_BTB := b\<rparr>))
                     else res_bind (undo_RAS r (bpu_RAS u3 tid)) (\<lambda>ras. Inr (set_RAS tid ras u3)))
                    (\<lambda>u5. Inr (u5\<lparr>predHist := (predHist u5)(tid := rs)\<rparr>)))))"

fun switchOut_loop :: "int list \<Rightarrow> 'pc BPredUnit \<Rightarrow> 'pc BPredUnit res" where
  "switchOut_loop [] u = Inr u"
| "switchOut_loop (i # is) u = res_bind (bpu_squash 0 i u) (switchOut_loop is)"

definition switchOut :: "nat \<Rightarrow> 'pc BPredUnit \<Rightarrow> 'pc BPredUnit res" where
  "switchOut maxThreads u = switchOut_loop (List.map int [0..<maxThreads]) u"

end
