(* ===== verification/BPred_Unit_Laws.thy ===== *)
theory BPred_Unit_Laws
  imports BPred_Unit
begin

text \<open>
  Correctness of the branch prediction unit.  \<open>bpu_ok\<close> holds the invariants of the predictor, of
  the BTB and of every return stack, and the usability of every outstanding record; \<open>extends\<close>
  is the relation of a step that keeps old records usable.  The dispatcher over the two predictors
  meets the interface \<open>dir_predictor\<close>, and the loops of commit and squash use its lemmas.
\<close>

section \<open>The dispatcher meets the interface\<close>

definition dir_inv :: "dir_pred \<Rightarrow> bool" where
  "dir_inv d = (case d of Local p \<Rightarrow> lb_inv p | Tournament p \<Rightarrow> t_inv p)"

definition dir_hist :: "dir_pred \<Rightarrow> BPHistory option \<Rightarrow> bool" where
  "dir_hist d h = (case d of Local p \<Rightarrow> h = None | Tournament p \<Rightarrow> t_hist p h)"

interpretation bpu: dir_predictor dir_inv dir_hist BPUncond BPLookup BPBTBUpdate BPUpdate BPSquash
proof
  fix s a t h sq
  assume inv: "dir_inv s"
  show "dir_inv (snd (BPUncond s)) \<and> dir_hist (snd (BPUncond s)) (fst (BPUncond s))
      \<and> (\<forall>g. dir_hist s g \<longrightarrow> dir_hist (snd (BPUncond s)) g)"
    using inv tournament_bp.uncond_ok
    by (cases s) (auto simp: dir_inv_def dir_hist_def BPUncond_def)
  show "\<exists>p h s'. BPLookup s a = Inr (p, h, s') \<and> dir_inv s' \<and> dir_hist s' h
      \<and> (\<forall>g. dir_hist s g \<longrightarrow> dir_hist s' g)"
    using inv local_bp.lookup_ok [of _ a] tournament_bp.lookup_ok [of _ a]
    by (cases s) (fastforce simp: dir_inv_def dir_hist_def BPLookup_def res_bind_eq_Inr)+
  show "\<exists>s'. BPBTBUpdate s a = Inr s' \<and> dir_inv s' \<and> (\<forall>g. dir_hist s g \<longrightarrow> dir_hist s' g)"
    using inv local_bp.btb_miss_ok [of _ a] tournament_bp.btb_miss_ok [of _ a]
    by (cases s) (fastforce simp: dir_inv_def dir_hist_def BPBTBUpdate_def)+
  show "\<exists>s'. BPUpdate s a t h sq = Inr s' \<and> dir_inv s' \<and> (\<forall>g. dir_hist s g \<longrightarrow> dir_hist s' g)"
    if "dir_hist s h"
    using inv that local_bp.update_ok [of _ h a t] tournament_bp.update_ok [of _ h a t sq]
    by (cases s) (fastforce simp: dir_inv_def dir_hist_def BPUpdate_def)+
  show "\<exists>s'. BPSquash s h = Inr s' \<and> dir_inv s' \<and> (\<forall>g. dir_hist s g \<longrightarrow> dir_hist s' g)"
    if "dir_hist s h"
    using inv that local_bp.squash_ok [of _ h] tournament_bp.squash_ok [of _ h]
    by (cases s) (fastforce simp: dir_inv_def dir_hist_def BPSquash_def)+
qed

section \<open>The invariant of the unit\<close>

definition rec_ok :: "'pc BPredUnit \<Rightarrow> int \<Rightarrow> 'pc PredictorHistory \<Rightarrow> bool" where
  "rec_ok u tid r \<longleftrightarrow> dir_hist (predictor u) (bpHistory r)
     \<and> (usedRAS r \<longrightarrow> RASIndex r < ras_numEntries (bpu_RAS u tid))"

definition bpu_ok :: "'pc BPredUnit \<Rightarrow> bool" where
  "bpu_ok u \<longleftrightarrow> dir_inv (predictor u) \<and> btb_inv (bpu_BTB u)
     \<and> (\<forall>tid. ras_inv (bpu_RAS u tid) \<and> ras_numEntries (bpu_RAS u tid) \<le> 16)
     \<and> (\<forall>tid. \<forall>r \<in> set (predHist u tid). rec_ok u tid r)"

lemma bpu_okD:
  assumes "bpu_ok u"
  shows "dir_inv (predictor u)" "btb_inv (bpu_BTB u)" "ras_inv (bpu_RAS u tid)"
    "ras_numEntries (bpu_RAS u tid) \<le> 16" "r \<in> set (predHist u tid) \<Longrightarrow> rec_ok u tid r"
  using assms by (auto simp: bpu_ok_def)

text \<open>A step that keeps the geometry keeps the records of the predictions already made.\<close>

definition extends :: "'pc BPredUnit \<Rightarrow> 'pc BPredUnit \<Rightarrow> bool" where
  "extends u u' \<longleftrightarrow> dir_inv (predictor u') \<and> btb_inv (bpu_BTB u')
     \<and> (\<forall>tid. ras_inv (bpu_RAS u' tid)
          \<and> ras_numEntries (bpu_RAS u' tid) = ras_numEntries (bpu_RAS u tid))
     \<and> (\<forall>g. dir_hist (predictor u) g \<longrightarrow> dir_hist (predictor u') g)"

lemma extends_refl: "bpu_ok u \<Longrightarrow> extends u u"
  by (simp add: extends_def bpu_ok_def)

lemma extends_trans: "extends u v \<Longrightarrow> extends v w \<Longrightarrow> extends u w"
  by (simp add: extends_def)

lemma extends_rec: "extends u u' \<Longrightarrow> rec_ok u tid r \<Longrightarrow> rec_ok u' tid r"
  by (auto simp: extends_def rec_ok_def)

lemma extends_bpu_ok:
  assumes "bpu_ok u" and "extends u u'"
    and "\<And>tid r. r \<in> set (predHist u' tid) \<Longrightarrow> r \<in> set (predHist u tid) \<or> rec_ok u' tid r"
  shows "bpu_ok u'"
proof -
  have "rec_ok u' tid r" if "r \<in> set (predHist u' tid)" for tid r
    using assms(3) [OF that] extends_rec [OF assms(2)] bpu_okD(5) [OF assms(1)] by blast
  then show ?thesis using assms(1,2) by (simp add: bpu_ok_def extends_def)
qed

lemma extends_RAS:
  "extends u v \<Longrightarrow> ras_inv ras \<Longrightarrow> ras_numEntries ras = ras_numEntries (bpu_RAS v tid) \<Longrightarrow>
   extends u (set_RAS tid ras v)"
  by (simp add: extends_def set_RAS_def)

section \<open>Prediction\<close>

lemma predict_direction_ok:
  assumes "bpu_ok u"
  shows "\<exists>t h u'. predict_direction isa inst p u = Inr (t, h, u') \<and> extends u u'
    \<and> dir_hist (predictor u') h \<and> predHist u' = predHist u \<and> bpu_RAS u' = bpu_RAS u
    \<and> bpu_BTB u' = bpu_BTB u"
proof (cases "isUncondCtrl inst")
  case True
  obtain h d where hd: "BPUncond (predictor u) = (h, d)" by fastforce
  with bpu.uncond_ok [OF bpu_okD(1) [OF assms]]
  have "dir_inv d" "dir_hist d h" "\<forall>g. dir_hist (predictor u) g \<longrightarrow> dir_hist d g" by auto
  with True hd bpu_okD(2,3) [OF assms] show ?thesis
    by (simp add: predict_direction_def extends_def exI [of _ True])
next
  case False
  obtain t h d where l: "BPLookup (predictor u) (instAddr isa p) = Inr (t, h, d)"
    "dir_inv d" "dir_hist d h" "\<forall>g. dir_hist (predictor u) g \<longrightarrow> dir_hist d g"
    using bpu.lookup_ok [OF bpu_okD(1) [OF assms], of "instAddr isa p"] by blast
  with False bpu_okD(2,3) [OF assms] show ?thesis
    by (simp add: predict_direction_def extends_def)
qed

lemma extends_stats [simp]:
  "extends u (v\<lparr>BTBLookups := n\<rparr>) = extends u v" "extends u (v\<lparr>BTBHits := n\<rparr>) = extends u v"
  "extends u (v\<lparr>stat_usedRAS := n\<rparr>) = extends u v" "extends u (v\<lparr>condIncorrect := n\<rparr>) = extends u v"
  "extends u (v\<lparr>RASIncorrect := n\<rparr>) = extends u v" "extends u (v\<lparr>predHist := q\<rparr>) = extends u v"
  by (simp_all add: extends_def)

lemma set_RAS_simps [simp]:
  "predHist (set_RAS tid r u) = predHist u" "predictor (set_RAS tid r u) = predictor u"
  "bpu_BTB (set_RAS tid r u) = bpu_BTB u" "bpu_RAS (set_RAS tid r u) = (bpu_RAS u)(tid := r)"
  by (simp_all add: set_RAS_def)

lemma predict_return_ok:
  assumes ext: "extends u v" and "bpu_ok u" and "dir_hist (predictor v) (bpHistory r)"
    and ras: "bpu_RAS v = bpu_RAS u"
  shows "\<exists>tg v'. predict_return isa p tid r v = Inr (tg,
      r\<lparr>wasReturn := True, usedRAS := True, RASIndex := tos (bpu_RAS u tid),
        RASTarget := addrStack (bpu_RAS u tid) ! unat (tos (bpu_RAS u tid))\<rparr>, v')
    \<and> extends u v' \<and> predHist v' = predHist v \<and> bpu_BTB v' = bpu_BTB v \<and> predictor v' = predictor v
    \<and> bpu_RAS v' = (bpu_RAS u)(tid := ras_pop (bpu_RAS u tid))"
proof -
  let ?ras = "bpu_RAS u tid"
  have inv: "ras_inv ?ras" "ras_numEntries ?ras \<le> 16" using bpu_okD(3,4) [OF assms(2)] by blast+
  have top: "ras_top ?ras = Inr (addrStack ?ras ! unat (tos ?ras))"
    using ras_inv_nat(2,4) [OF inv(1)] by (simp add: ras_top_def)
  have "tos ?ras < ras_numEntries ?ras" using inv(1) by (simp add: ras_inv_def)
  with inv(2) have "tos ?ras < 16" by (rule order.strict_trans2 [rotated])
  moreover have "extends u (set_RAS tid (ras_pop ?ras) v)"
    by (rule extends_RAS [OF ext]) (simp_all add: ras ras_pop_refines(1,3) [OF inv(1)])
  ultimately show ?thesis
    using top by (simp add: predict_return_def Let_def ras) (simp add: set_RAS_def extends_def ras)
qed

lemma predict_btb_ok:
  assumes ok: "bpu_ok u" and ext: "extends u v"
    and ras: "bpu_RAS v = bpu_RAS u" and btb: "bpu_BTB v = bpu_BTB u"
  shows "\<exists>t tg v' c b. predict_btb isa inst p tid r v = Inr (t, tg, r\<lparr>wasCall := c, validBTB := b\<rparr>, v')
    \<and> extends u v' \<and> predHist v' = predHist v"
proof -
  define v1 where "v1 = v\<lparr>BTBLookups := BTBLookups v + 1\<rparr>"
  have v1: "extends u v1" "predHist v1 = predHist v" "bpu_RAS v1 = bpu_RAS u" "bpu_BTB v1 = bpu_BTB u"
    using ext ras btb by (simp_all add: v1_def)
  note inv = bpu_okD(3) [OF ok, of tid]
  have "\<exists>v2 c. (if isCall inst then res_bind (ras_push (bpu_RAS v1 tid) p)
        (\<lambda>ras. Inr (r\<lparr>wasCall := True\<rparr>, set_RAS tid ras v1)) else Inr (r, v1)) = Inr (r\<lparr>wasCall := c\<rparr>, v2)
      \<and> extends u v2 \<and> predHist v2 = predHist v \<and> bpu_BTB v2 = bpu_BTB u"
  proof (cases "isCall inst")
    case True
    from ras_push_refines [OF inv, of p] obtain s' where s': "ras_push (bpu_RAS u tid) p = Inr s'"
      "ras_inv s'" "ras_numEntries s' = ras_numEntries (bpu_RAS u tid)" by blast
    have "extends u (set_RAS tid s' v1)"
      by (rule extends_RAS [OF v1(1)]) (simp_all add: s' v1)
    with True s' v1 show ?thesis by (intro exI [of _ "set_RAS tid s' v1"] exI [of _ True]) simp
  next
    case False
    with v1 show ?thesis by (intro exI [of _ v1] exI [of _ "wasCall r"]) simp
  qed
  then obtain v2 c where v2: "(if isCall inst then res_bind (ras_push (bpu_RAS v1 tid) p)
        (\<lambda>ras. Inr (r\<lparr>wasCall := True\<rparr>, set_RAS tid ras v1)) else Inr (r, v1)) = Inr (r\<lparr>wasCall := c\<rparr>, v2)"
      "extends u v2" "predHist v2 = predHist v" "bpu_BTB v2 = bpu_BTB u" by blast
  note binv = bpu_okD(2) [OF ok]
  obtain hit where hit: "BTB_valid (bpu_BTB v2) (instAddr isa p) tid = Inr hit"
    using btb_total(1) [OF binv] v2(4) by metis
  obtain tg where tg: "BTB_lookup (pc_zero isa) (bpu_BTB v2) (instAddr isa p) tid = Inr tg"
    using btb_total(2) [OF binv] v2(4) by metis
  have red: "predict_btb isa inst p tid r v =
    (if hit then Inr (True, tg, r\<lparr>wasCall := c, validBTB := True\<rparr>, v2\<lparr>BTBHits := BTBHits v2 + 1\<rparr>)
     else res_bind
       (if \<not> isCall inst \<and> \<not> isReturn inst
        then res_bind (BPBTBUpdate (predictor v2) (instAddr isa p)) (\<lambda>d. Inr (v2\<lparr>predictor := d\<rparr>))
        else if isCall inst \<and> \<not> isUncondCtrl inst
        then Inr (set_RAS tid (ras_pop (bpu_RAS v2 tid)) v2)
        else Inr v2)
       (\<lambda>u3. Inr (False, advancePC inst p, r\<lparr>wasCall := c\<rparr>, u3)))"
    unfolding predict_btb_def Let_def v1_def [symmetric] v2(1) res_bind_simps prod.case hit tg
    by (simp only: res_bind_simps)
  show ?thesis
  proof (cases hit)
    case True
    have "predict_btb isa inst p tid r v =
        Inr (True, tg, r\<lparr>wasCall := c, validBTB := True\<rparr>, v2\<lparr>BTBHits := BTBHits v2 + 1\<rparr>)"
      using True red by simp
    moreover have "extends u (v2\<lparr>BTBHits := BTBHits v2 + 1\<rparr>)"
      "predHist (v2\<lparr>BTBHits := BTBHits v2 + 1\<rparr>) = predHist v" using v2(2,3) by simp_all
    ultimately show ?thesis by blast
  next
    case False
    have "\<exists>v3. (if \<not> isCall inst \<and> \<not> isReturn inst
        then res_bind (BPBTBUpdate (predictor v2) (instAddr isa p)) (\<lambda>d. Inr (v2\<lparr>predictor := d\<rparr>))
        else if isCall inst \<and> \<not> isUncondCtrl inst
        then Inr (set_RAS tid (ras_pop (bpu_RAS v2 tid)) v2)
        else Inr v2) = Inr v3 \<and> extends u v3 \<and> predHist v3 = predHist v"
    proof -
      have d: "dir_inv (predictor v2)" and i2: "ras_inv (bpu_RAS v2 tid)"
        using v2(2) by (simp_all add: extends_def)
      from bpu.btb_miss_ok [OF d, of "instAddr isa p"] obtain d' where
        d': "BPBTBUpdate (predictor v2) (instAddr isa p) = Inr d'" "dir_inv d'"
          "\<forall>g. dir_hist (predictor v2) g \<longrightarrow> dir_hist d' g" by blast
      have "extends u (v2\<lparr>predictor := d'\<rparr>)" using v2(2) d' by (simp add: extends_def)
      moreover have "extends u (set_RAS tid (ras_pop (bpu_RAS v2 tid)) v2)"
        by (rule extends_RAS [OF v2(2)]) (simp_all add: ras_pop_refines(1,3) [OF i2])
      ultimately show ?thesis using d'(1) v2(2,3)
        by (cases "\<not> isCall inst \<and> \<not> isReturn inst"; cases "isCall inst \<and> \<not> isUncondCtrl inst") simp_all
    qed
    then obtain v3 where v3: "(if \<not> isCall inst \<and> \<not> isReturn inst
        then res_bind (BPBTBUpdate (predictor v2) (instAddr isa p)) (\<lambda>d. Inr (v2\<lparr>predictor := d\<rparr>))
        else if isCall inst \<and> \<not> isUncondCtrl inst
        then Inr (set_RAS tid (ras_pop (bpu_RAS v2 tid)) v2)
        else Inr v2) = Inr v3" "extends u v3" "predHist v3 = predHist v" by blast
    have "predict_btb isa inst p tid r v = Inr (False, advancePC inst p, r\<lparr>wasCall := c\<rparr>, v3)"
      using False red v3(1) by simp
    moreover have "r\<lparr>wasCall := c\<rparr> = r\<lparr>wasCall := c, validBTB := validBTB r\<rparr>" by simp
    ultimately show ?thesis using v3(2,3) by metis
  qed
qed

lemma record_no_ras [simp]:
  "rec_ok u tid (r\<lparr>wasCall := c, validBTB := b\<rparr>) = rec_ok u tid r"
  "rec_ok u tid (r\<lparr>wasReturn := c\<rparr>) = rec_ok u tid r"
  by (simp_all add: rec_ok_def)

lemma rec_ok_init: "dir_hist (predictor u) h \<Longrightarrow>
    rec_ok u tid (PredictorHistory_init zero sn a t h i)"
  by (simp add: rec_ok_def PredictorHistory_init_def)

lemma predict_ok:
  assumes ok: "bpu_ok u"
  shows "\<exists>taken tg r u'. predict isa inst p tid u = Inr (taken, tg, u') \<and> bpu_ok u'
    \<and> predHist u' = (predHist u)(tid := r # predHist u tid)
    \<and> seqNum r = inst_seqNum inst \<and> pc r = instAddr isa p"
proof -
  obtain t h u1 where u1: "predict_direction isa inst p u = Inr (t, h, u1)" "extends u u1"
      "dir_hist (predictor u1) h" "predHist u1 = predHist u" "bpu_RAS u1 = bpu_RAS u"
      "bpu_BTB u1 = bpu_BTB u"
    using predict_direction_ok [OF ok, of isa inst p] by blast
  define r where "r = PredictorHistory_init (pc_zero isa) (inst_seqNum inst) (instAddr isa p) t h tid"
  have r: "seqNum r = inst_seqNum inst" "pc r = instAddr isa p" "bpHistory r = h" "\<not> usedRAS r"
    by (simp_all add: r_def PredictorHistory_init_def)
  have ok1: "bpu_ok u1"
    by (rule extends_bpu_ok [OF ok u1(2)]) (simp add: u1(4))
  have rok: "rec_ok u' tid r" if "extends u1 u'" for u'
    by (rule extends_rec [OF that]) (simp add: r_def rec_ok_init u1(3))
  let ?step = "if t then if isReturn inst
             then res_bind (predict_return isa p tid r u1) (\<lambda>(target, r', u'). Inr (True, target, r', u'))
             else predict_btb isa inst p tid r u1
           else Inr (False, advancePC inst p, if isReturn inst then r\<lparr>wasReturn := True\<rparr> else r, u1)"
  have "\<exists>tk tg r' u'. ?step = Inr (tk, tg, r', u') \<and> extends u1 u' \<and> predHist u' = predHist u1
      \<and> rec_ok u' tid r' \<and> seqNum r' = seqNum r \<and> pc r' = pc r"
  proof (cases t)
    case True
    show ?thesis
    proof (cases "isReturn inst")
      case ret: True
      let ?ras = "bpu_RAS u1 tid"
      let ?r = "r\<lparr>wasReturn := True, usedRAS := True, RASIndex := tos ?ras,
        RASTarget := addrStack ?ras ! unat (tos ?ras)\<rparr>"
      from predict_return_ok [OF extends_refl [OF ok1] ok1, of r isa p tid] u1(3) r(3) obtain tg u'
        where u': "predict_return isa p tid r u1 = Inr (tg, ?r, u')" "extends u1 u'"
          "predHist u' = predHist u1" "predictor u' = predictor u1"
          "bpu_RAS u' = (bpu_RAS u1)(tid := ras_pop ?ras)" by blast
      have inv: "ras_inv ?ras" by (rule bpu_okD(3) [OF ok1])
      then have "tos ?ras < ras_numEntries ?ras" by (simp add: ras_inv_def)
      then have "rec_ok u' tid ?r"
        using u' u1(3) r(3) ras_pop_refines(3) [OF inv] by (simp add: rec_ok_def)
      with u' have "?step = Inr (True, tg, ?r, u') \<and> extends u1 u' \<and> predHist u' = predHist u1
          \<and> rec_ok u' tid ?r \<and> seqNum ?r = seqNum r \<and> pc ?r = pc r"
        using True ret by simp
      then show ?thesis by blast
    next
      case False
      from predict_btb_ok [OF ok1 extends_refl [OF ok1] refl refl, of isa inst p tid r]
      obtain tk tg u' c b where u': "predict_btb isa inst p tid r u1
          = Inr (tk, tg, r\<lparr>wasCall := c, validBTB := b\<rparr>, u')"
        "extends u1 u'" "predHist u' = predHist u1" by blast
      with True False rok show ?thesis by simp
    qed
  next
    case False
    with rok [OF extends_refl [OF ok1]] extends_refl [OF ok1] show ?thesis by auto
  qed
  then obtain tk tg r' u' where step: "?step = Inr (tk, tg, r', u')" "extends u1 u'"
      "predHist u' = predHist u1" "rec_ok u' tid r'" "seqNum r' = seqNum r" "pc r' = pc r" by blast
  let ?u = "u'\<lparr>predHist := (predHist u')(tid := r' # predHist u' tid)\<rparr>"
  have "predict isa inst p tid u = Inr (tk, tg, ?u)"
    unfolding predict_def u1(1) res_bind_simps prod.case Let_def r_def [symmetric] step(1) ..
  moreover have "bpu_ok ?u"
  proof (rule extends_bpu_ok [OF ok1])
    show "extends u1 ?u" using step(2) by simp
    show "x \<in> set (predHist u1 i) \<or> rec_ok ?u i x" if "x \<in> set (predHist ?u i)" for i x
      using that step(3,4) by (auto simp: rec_ok_def split: if_splits)
  qed
  ultimately show ?thesis using step(3,5,6) u1(4) r(1,2) by auto
qed

section \<open>Commit and squash\<close>

lemma commit_loop_eq:
  "commit_loop sn rs d = res_bind
     (fold_res (\<lambda>r d. BPUpdate d (pc r) (predTaken r) (bpHistory r) False)
        (takeWhile (\<lambda>r. seqNum r \<le> sn) rs) d)
     (\<lambda>d'. Inr (dropWhile (\<lambda>r. seqNum r \<le> sn) rs, d'))"
proof (induction rs arbitrary: d)
  case (Cons r rs)
  show ?case
  proof (cases "seqNum r \<le> sn")
    case True
    then show ?thesis
      by (cases "BPUpdate d (pc r) (predTaken r) (bpHistory r) False") (simp_all add: Cons.IH)
  qed simp
qed simp

text \<open>The outstanding predictions, youngest first, have decreasing sequence numbers.\<close>

definition by_age :: "'pc PredictorHistory list \<Rightarrow> bool" where
  "by_age rs \<longleftrightarrow> sorted_wrt (\<lambda>a b. seqNum a > seqNum b) rs"

lemma dropWhile_filter:
  assumes "sorted_wrt (\<lambda>a b. P b \<longrightarrow> P a) xs"
  shows "takeWhile P xs = filter P xs" "dropWhile P xs = filter (\<lambda>x. \<not> P x) xs"
proof -
  have "takeWhile P xs = filter P xs \<and> dropWhile P xs = filter (\<lambda>x. \<not> P x) xs"
    using assms
  proof (induction xs)
    case (Cons x xs)
    have none: "\<not> P x \<Longrightarrow> \<forall>y \<in> set xs. \<not> P y" using Cons.prems by auto
    show ?case
    proof (cases "P x")
      case False
      with none have "filter P xs = []" "filter (\<lambda>x. \<not> P x) xs = xs" by (auto intro: filter_True)
      with False show ?thesis by simp
    qed (use Cons in simp)
  qed simp
  then show "takeWhile P xs = filter P xs" "dropWhile P xs = filter (\<lambda>x. \<not> P x) xs" by simp_all
qed

lemma by_age_filter:
  assumes "by_age rs"
  shows "takeWhile (\<lambda>r. seqNum r > sn) rs = filter (\<lambda>r. seqNum r > sn) rs"
    "dropWhile (\<lambda>r. seqNum r > sn) rs = filter (\<lambda>r. seqNum r \<le> sn) rs"
    "rev (dropWhile (\<lambda>r. seqNum r \<le> sn) (rev rs)) = filter (\<lambda>r. seqNum r > sn) rs"
proof -
  have "sorted_wrt (\<lambda>a b. seqNum b > sn \<longrightarrow> seqNum a > sn) rs"
    using assms unfolding by_age_def by (rule sorted_wrt_mono_rel [rotated]) auto
  from dropWhile_filter [OF this]
  show "takeWhile (\<lambda>r. seqNum r > sn) rs = filter (\<lambda>r. seqNum r > sn) rs"
    "dropWhile (\<lambda>r. seqNum r > sn) rs = filter (\<lambda>r. seqNum r \<le> sn) rs"
    by (simp_all add: not_less)
  have "sorted_wrt (\<lambda>a b. seqNum b \<le> sn \<longrightarrow> seqNum a \<le> sn) (rev rs)"
    using assms unfolding by_age_def sorted_wrt_rev by (rule sorted_wrt_mono_rel [rotated]) auto
  from dropWhile_filter(2) [OF this]
  show "rev (dropWhile (\<lambda>r. seqNum r \<le> sn) (rev rs)) = filter (\<lambda>r. seqNum r > sn) rs"
    by (simp add: not_le rev_filter)
qed

lemma bpu_update_ok:
  assumes ok: "bpu_ok u" and age: "by_age (predHist u tid)"
  shows "\<exists>u'. bpu_update sn tid u = Inr u' \<and> bpu_ok u'
    \<and> predHist u' = (predHist u)(tid := filter (\<lambda>r. seqNum r > sn) (predHist u tid))"
proof -
  let ?rs = "takeWhile (\<lambda>r. seqNum r \<le> sn) (rev (predHist u tid))"
  have h: "dir_hist (predictor u) (bpHistory x)" if "x \<in> set ?rs" for x
  proof -
    have "x \<in> set (predHist u tid)" using set_takeWhileD [OF that] by simp
    then show ?thesis using bpu_okD(5) [OF ok] by (simp add: rec_ok_def)
  qed
  from bpu.commit_all_ok [OF bpu_okD(1) [OF ok], of ?rs bpHistory pc predTaken] h
  obtain d where d: "fold_res (\<lambda>r d. BPUpdate d (pc r) (predTaken r) (bpHistory r) False) ?rs (predictor u) = Inr d"
      "dir_inv d" "\<forall>g. dir_hist (predictor u) g \<longrightarrow> dir_hist d g" by blast
  let ?u = "u\<lparr>predictor := d, predHist := (predHist u)(tid := filter (\<lambda>r. seqNum r > sn) (predHist u tid))\<rparr>"
  have "bpu_update sn tid u = Inr ?u"
    unfolding bpu_update_def commit_loop_eq d(1) res_bind_simps prod.case by_age_filter(3) [OF age] ..
  moreover have "bpu_ok ?u"
  proof (rule extends_bpu_ok [OF ok])
    show "extends u ?u" using d(2,3) bpu_okD(2,3) [OF ok] by (simp add: extends_def)
  qed (auto split: if_splits)
  ultimately show ?thesis by (intro exI [of _ ?u]) simp
qed

lemma undo_RAS_ok:
  assumes "ras_inv ras" and "usedRAS r \<longrightarrow> RASIndex r < ras_numEntries ras"
  shows "\<exists>ras'. undo_RAS r ras = Inr ras' \<and> ras_inv ras' \<and> ras_numEntries ras' = ras_numEntries ras"
proof (cases "usedRAS r")
  case True
  with assms have "unat (RASIndex r) < length (addrStack ras)"
    by (simp add: ras_inv_def word_less_nat_alt)
  with True assms show ?thesis by (simp add: undo_RAS_def ras_restore_def ras_inv_def)
next
  case False
  then show ?thesis using assms ras_pop_refines(1,3) [OF assms(1)] by (auto simp: undo_RAS_def)
qed

lemma squash_loop_ok:
  assumes "dir_inv d" and "ras_inv ras"
    and "\<And>r. r \<in> set rs \<Longrightarrow> dir_hist d (bpHistory r) \<and> (usedRAS r \<longrightarrow> RASIndex r < ras_numEntries ras)"
  shows "\<exists>ras' d'. squash_loop sn rs ras d = Inr (dropWhile (\<lambda>r. seqNum r > sn) rs, ras', d')
    \<and> dir_inv d' \<and> ras_inv ras' \<and> ras_numEntries ras' = ras_numEntries ras
    \<and> (\<forall>g. dir_hist d g \<longrightarrow> dir_hist d' g)"
  using assms
proof (induction rs arbitrary: ras d)
  case (Cons r rs)
  show ?case
  proof (cases "seqNum r > sn")
    case True
    from undo_RAS_ok [OF Cons.prems(2)] Cons.prems(3) [of r] obtain ras1 where
      ras1: "undo_RAS r ras = Inr ras1" "ras_inv ras1" "ras_numEntries ras1 = ras_numEntries ras" by auto
    from bpu.squash_ok [OF Cons.prems(1)] Cons.prems(3) [of r] obtain d1 where
      d1: "BPSquash d (bpHistory r) = Inr d1" "dir_inv d1" "\<forall>g. dir_hist d g \<longrightarrow> dir_hist d1 g" by auto
    have "\<exists>ras' d'. squash_loop sn rs ras1 d1 = Inr (dropWhile (\<lambda>r. seqNum r > sn) rs, ras', d')
      \<and> dir_inv d' \<and> ras_inv ras' \<and> ras_numEntries ras' = ras_numEntries ras1
      \<and> (\<forall>g. dir_hist d1 g \<longrightarrow> dir_hist d' g)"
      by (rule Cons.IH [OF d1(2) ras1(2)]) (use Cons.prems(3) d1(3) ras1(3) in auto)
    then show ?thesis using True ras1 d1 by auto
  qed (use Cons.prems in auto)
qed auto

lemma bpu_squash_ok:
  assumes ok: "bpu_ok u" and age: "by_age (predHist u tid)"
  shows "\<exists>u'. bpu_squash sn tid u = Inr u' \<and> bpu_ok u' \<and> bpu_BTB u' = bpu_BTB u
    \<and> predHist u' = (predHist u)(tid := filter (\<lambda>r. seqNum r \<le> sn) (predHist u tid))
    \<and> (\<forall>i. i \<noteq> tid \<longrightarrow> bpu_RAS u' i = bpu_RAS u i)"
proof -
  have "\<exists>ras d. squash_loop sn (predHist u tid) (bpu_RAS u tid) (predictor u)
      = Inr (dropWhile (\<lambda>r. seqNum r > sn) (predHist u tid), ras, d)
    \<and> dir_inv d \<and> ras_inv ras \<and> ras_numEntries ras = ras_numEntries (bpu_RAS u tid)
    \<and> (\<forall>g. dir_hist (predictor u) g \<longrightarrow> dir_hist d g)"
    by (rule squash_loop_ok [OF bpu_okD(1) [OF ok] bpu_okD(3) [OF ok]])
      (use bpu_okD(5) [OF ok] in \<open>simp add: rec_ok_def\<close>)
  then obtain ras d where sq: "squash_loop sn (predHist u tid) (bpu_RAS u tid) (predictor u)
      = Inr (dropWhile (\<lambda>r. seqNum r > sn) (predHist u tid), ras, d)"
    "dir_inv d" "ras_inv ras" "ras_numEntries ras = ras_numEntries (bpu_RAS u tid)"
    "\<forall>g. dir_hist (predictor u) g \<longrightarrow> dir_hist d g" by blast
  let ?u = "set_RAS tid ras (u\<lparr>predictor := d,
    predHist := (predHist u)(tid := filter (\<lambda>r. seqNum r \<le> sn) (predHist u tid))\<rparr>)"
  have "bpu_squash sn tid u = Inr ?u"
    unfolding bpu_squash_def sq(1) res_bind_simps prod.case by_age_filter(2) [OF age] ..
  moreover have "bpu_ok ?u"
  proof (rule extends_bpu_ok [OF ok])
    show "extends u ?u" using sq(2-5) bpu_okD(2,3) [OF ok] by (simp add: extends_def)
  qed (auto split: if_splits)
  ultimately show ?thesis by (intro exI [of _ ?u]) simp
qed


lemma BTB_lookup_updated:
  assumes "btb_inv b" and "BTB_update b a t tid = Inr b'"
  shows "BTB_lookup zero b' a tid = Inr t"
proof -
  note i = btb_index_less [OF assms(1), of a]
  have "b' = b\<lparr>btb := (btb b)[unat (BTB_getIndex b a) := (btb b ! unat (BTB_getIndex b a))
      \<lparr>btb_tid := tid, valid := True, target := t, btb_tag := BTB_getTag b a\<rparr>]\<rparr>"
    using assms(2) i by (simp add: BTB_update_def)
  moreover from this have "BTB_getIndex b' a = BTB_getIndex b a" "BTB_getTag b' a = BTB_getTag b a"
    by (simp_all add: BTB_getIndex_def BTB_getTag_def)
  ultimately show ?thesis using i by (simp add: BTB_lookup_def BTB_hit_def)
qed

lemma bpu_squash_correct_ok:
  assumes ok: "bpu_ok u" and age: "by_age (predHist u tid)"
    and rs: "filter (\<lambda>r. seqNum r \<le> sn) (predHist u tid) = r # rs" and sn: "seqNum r = sn"
  shows "\<exists>u'. bpu_squash_correct sn t taken tid u = Inr u' \<and> bpu_ok u'
    \<and> predHist u' = (predHist u)(tid := rs)
    \<and> (taken \<longrightarrow> BTB_lookup zero (bpu_BTB u') (pc r) tid = Inr t)
    \<and> (\<not> taken \<longrightarrow> bpu_BTB u' = bpu_BTB u)"
proof -
  let ?u0 = "u\<lparr>condIncorrect := condIncorrect u + 1\<rparr>"
  have ok0: "bpu_ok ?u0" using ok by (simp add: bpu_ok_def rec_ok_def)
  have age0: "by_age (predHist ?u0 tid)" using age by simp
  from bpu_squash_ok [OF ok0 age0, of sn] obtain u1 where u1: "bpu_squash sn tid ?u0 = Inr u1" "bpu_ok u1"
    "bpu_BTB u1 = bpu_BTB u" "predHist u1 = (predHist u)(tid := r # rs)" using rs by auto
  have rok: "rec_ok u1 tid r" by (rule bpu_okD(5) [OF u1(2)]) (simp add: u1(4))
  define u2 where "u2 = (if usedRAS r then u1\<lparr>RASIncorrect := RASIncorrect u1 + 1\<rparr> else u1)"
  have u2: "predictor u2 = predictor u1" "bpu_RAS u2 = bpu_RAS u1" "bpu_BTB u2 = bpu_BTB u1"
    "predHist u2 = predHist u1" by (simp_all add: u2_def)
  from bpu.update_ok [OF bpu_okD(1) [OF u1(2)], of "bpHistory r" "pc r" taken True] rok
  obtain d where d: "BPUpdate (predictor u2) (pc r) taken (bpHistory r) True = Inr d" "dir_inv d"
    "\<forall>g. dir_hist (predictor u1) g \<longrightarrow> dir_hist d g" by (auto simp: rec_ok_def u2)
  let ?u3 = "u2\<lparr>predictor := d\<rparr>"
  have e3: "extends u1 ?u3" using d bpu_okD(2,3) [OF u1(2)] by (simp add: extends_def u2)
  have inv: "ras_inv (bpu_RAS u1 tid)" by (rule bpu_okD(3) [OF u1(2)])
  let ?fix = "if taken
     then let u4 = (if wasReturn r \<and> \<not> usedRAS r then set_RAS tid (ras_pop (bpu_RAS ?u3 tid)) ?u3 else ?u3)
          in res_bind (BTB_update (bpu_BTB u4) (pc r) t tid) (\<lambda>b. Inr (u4\<lparr>bpu_BTB := b\<rparr>))
     else res_bind (undo_RAS r (bpu_RAS ?u3 tid)) (\<lambda>ras. Inr (set_RAS tid ras ?u3))"
  have "\<exists>u5. ?fix = Inr u5 \<and> extends u1 u5 \<and> predHist u5 = predHist u1
      \<and> (taken \<longrightarrow> BTB_lookup zero (bpu_BTB u5) (pc r) tid = Inr t) \<and> (\<not> taken \<longrightarrow> bpu_BTB u5 = bpu_BTB u1)"
  proof (cases taken)
    case True
    let ?u4 = "if wasReturn r \<and> \<not> usedRAS r then set_RAS tid (ras_pop (bpu_RAS ?u3 tid)) ?u3 else ?u3"
    have e4: "extends u1 ?u4" "predHist ?u4 = predHist u1" "bpu_BTB ?u4 = bpu_BTB u1"
      using e3 extends_RAS [OF e3, of "ras_pop (bpu_RAS u1 tid)" tid] ras_pop_refines(1,3) [OF inv]
      by (simp_all add: u2)
    from btb_total(3) [OF bpu_okD(2) [OF u1(2)], of "pc r" t tid] obtain b where
      b: "BTB_update (bpu_BTB u1) (pc r) t tid = Inr b" "btb_inv b" by blast
    have "BTB_lookup zero b (pc r) tid = Inr t"
      by (rule BTB_lookup_updated [OF bpu_okD(2) [OF u1(2)] b(1)])
    moreover have "extends u1 (?u4\<lparr>bpu_BTB := b\<rparr>)" using e4(1) b(2) by (simp add: extends_def)
    moreover have "?fix = Inr (?u4\<lparr>bpu_BTB := b\<rparr>)"
      unfolding Let_def e4(3) b(1) res_bind_simps by (simp only: True if_True)
    moreover have "predHist (?u4\<lparr>bpu_BTB := b\<rparr>) = predHist u1" using e4(2) by simp
    ultimately show ?thesis using True by (intro exI [of _ "?u4\<lparr>bpu_BTB := b\<rparr>"]) simp
  next
    case False
    from undo_RAS_ok [OF inv, of r] rok obtain ras where ras: "undo_RAS r (bpu_RAS u1 tid) = Inr ras"
      "ras_inv ras" "ras_numEntries ras = ras_numEntries (bpu_RAS u1 tid)" by (auto simp: rec_ok_def)
    have "extends u1 (set_RAS tid ras ?u3)"
      by (rule extends_RAS [OF e3]) (simp_all add: ras u2)
    with False ras(1) show ?thesis by (simp add: u2)
  qed
  then obtain u5 where u5: "?fix = Inr u5" "extends u1 u5" "predHist u5 = predHist u1"
    "taken \<longrightarrow> BTB_lookup zero (bpu_BTB u5) (pc r) tid = Inr t" "\<not> taken \<longrightarrow> bpu_BTB u5 = bpu_BTB u1"
    by blast
  let ?u6 = "u5\<lparr>predHist := (predHist u5)(tid := rs)\<rparr>"
  have "bpu_squash_correct sn t taken tid u = Inr ?u6"
    unfolding bpu_squash_correct_def u1(1) res_bind_simps u1(4) fun_upd_same list.case sn
      simp_thms assert_that_simps u2_def [symmetric]
    unfolding Let_def d(1) res_bind_simps u5(1) [unfolded Let_def] ..
  moreover have "bpu_ok ?u6"
  proof (rule extends_bpu_ok [OF u1(2)])
    show "extends u1 ?u6" using u5(2) by simp
  qed (auto simp: u5(3) u1(4) split: if_splits)
  ultimately show ?thesis using u5(3-5) u1(3,4) by (intro exI [of _ ?u6]) auto
qed

section \<open>Properties\<close>

text \<open>C29: \<open>predict\<close> never stops the simulator on a unit in a good state (return stacks of at most 16
  entries): it keeps the invariant and pushes exactly one record, with the instruction's sequence
  number and address, in front of its thread's outstanding predictions.\<close>
theorem predict_records:
  assumes "bpu_ok u"
  shows "\<exists>taken target r u'. predict isa inst p tid u = Inr (taken, target, u') \<and> bpu_ok u'
    \<and> predHist u' = (predHist u)(tid := r # predHist u tid)
    \<and> seqNum r = inst_seqNum inst \<and> pc r = instAddr isa p"
  by (rule predict_ok [OF assms])

definition bpu0 :: "nat BPredUnit" where
  "bpu0 = \<lparr>predictor = Tournament tbp0, predHist = (\<lambda>_. []),
     bpu_BTB = \<lparr>btb = replicate 4 \<lparr>btb_tag = 0, target = 0, btb_tid = 0, valid = False\<rparr>,
       btb_numEntries = 4, idxMask = 3, tagBits = 8, tagMask = 255, btb_instShiftAmt = 2, tagShiftAmt = 4\<rparr>,
     bpu_RAS = (\<lambda>_. ras_init 0 4), lookups = 0, condPredicted = 0, condIncorrect = 0, BTBLookups = 0,
     BTBHits = 0, stat_usedRAS = 0, RASIncorrect = 0\<rparr>"

lemma bpu0_ok: "bpu_ok bpu0"
  using tbp0_inv ras_init_inv [of 4 0]
  by (simp add: bpu_ok_def bpu0_def dir_inv_def btb_inv_def) (simp add: ras_init_def)

definition isa0 :: "nat isa" where
  "isa0 = \<lparr>pc_zero = 0, instAddr = of_nat, buildRetPC = (\<lambda>_ r. r + 4)\<rparr>"

definition branch0 :: "u64 \<Rightarrow> nat dyn_inst" where
  "branch0 sn = \<lparr>inst_seqNum = sn, isUncondCtrl = False, isReturn = False, isCall = False,
     advancePC = (\<lambda>p. p + 4)\<rparr>"

lemma predict_records_witness:
  "\<exists>taken target r u'. predict isa0 (branch0 9) 64 0 bpu0 = Inr (taken, target, u')
    \<and> predHist u' 0 = [r] \<and> seqNum r = 9"
  using predict_records [OF bpu0_ok, of isa0 "branch0 9" 64 0]
  by (auto simp: branch0_def) (simp add: bpu0_def)

text \<open>Committing up to a sequence number trains the predictor with each prediction at or below it,
  oldest first, without a failure, and leaves exactly the younger predictions outstanding.\<close>
theorem update_commits_prefix:
  assumes "bpu_ok u" and "by_age (predHist u tid)"
  shows "\<exists>u'. bpu_update sn tid u = Inr u' \<and> bpu_ok u'
    \<and> predHist u' = (predHist u)(tid := filter (\<lambda>r. seqNum r > sn) (predHist u tid))"
  by (rule bpu_update_ok [OF assms])

lemma update_commits_prefix_witness:
  "\<exists>t a u1 u'. predict isa0 (branch0 9) 64 0 bpu0 = Inr (t, a, u1) \<and> bpu_update 9 0 u1 = Inr u'
    \<and> predHist u' 0 = []"
proof -
  obtain t a r u1 where u1: "predict isa0 (branch0 9) 64 0 bpu0 = Inr (t, a, u1)" "bpu_ok u1"
    "predHist u1 = (predHist bpu0)(0 := r # predHist bpu0 0)" "seqNum r = 9"
    using predict_ok [OF bpu0_ok, of isa0 "branch0 9" 64 0] by (auto simp: branch0_def)
  have "predHist u1 0 = [r]" by (simp add: u1(3)) (simp add: bpu0_def)
  then show ?thesis using update_commits_prefix [OF u1(2), of 0 9] u1(1,4) by (auto simp: by_age_def)
qed

text \<open>Squashing back to a sequence number undoes the younger predictions, youngest first, without a
  failure, and leaves exactly those at or below it; other threads and the BTB are untouched.\<close>
theorem squash_drops_younger:
  assumes "bpu_ok u" and "by_age (predHist u tid)"
  shows "\<exists>u'. bpu_squash sn tid u = Inr u' \<and> bpu_ok u' \<and> bpu_BTB u' = bpu_BTB u
    \<and> predHist u' = (predHist u)(tid := filter (\<lambda>r. seqNum r \<le> sn) (predHist u tid))
    \<and> (\<forall>i. i \<noteq> tid \<longrightarrow> bpu_RAS u' i = bpu_RAS u i)"
  by (rule bpu_squash_ok [OF assms])

lemma squash_drops_younger_witness:
  "\<exists>u'. bpu_squash 3 0 bpu0 = Inr u' \<and> bpu_ok u' \<and> predHist u' 0 = []"
proof -
  have "by_age (predHist bpu0 0)" "predHist bpu0 0 = []" by (simp_all add: by_age_def bpu0_def)
  with squash_drops_younger [OF bpu0_ok, of 0 3] show ?thesis by auto
qed

text \<open>C30: Correcting a mispredicted branch.  With the branch still outstanding, the younger ones and
  it are removed, and if it was taken the BTB holds the correct target for it afterwards; when
  the youngest remaining prediction is another one, the assertion on its sequence number fails.\<close>
theorem squash_correct_repairs:
  assumes "bpu_ok u" and "by_age (predHist u tid)"
    and "filter (\<lambda>r. seqNum r \<le> sn) (predHist u tid) = r # rs"
  shows "if seqNum r \<noteq> sn then bpu_squash_correct sn t taken tid u = Inl AssertFailed
    else \<exists>u'. bpu_squash_correct sn t taken tid u = Inr u' \<and> bpu_ok u'
      \<and> predHist u' = (predHist u)(tid := rs)
      \<and> (taken \<longrightarrow> BTB_lookup zero (bpu_BTB u') (pc r) tid = Inr t)
      \<and> (\<not> taken \<longrightarrow> bpu_BTB u' = bpu_BTB u)"
proof (cases "seqNum r = sn")
  case True
  with bpu_squash_correct_ok [OF assms True] show ?thesis by simp
next
  case False
  have "bpu_ok (u\<lparr>condIncorrect := condIncorrect u + 1\<rparr>)"
    using assms(1) by (simp add: bpu_ok_def rec_ok_def)
  from bpu_squash_ok [OF this, of tid sn] assms(2,3) obtain u1 where
    "bpu_squash sn tid (u\<lparr>condIncorrect := condIncorrect u + 1\<rparr>) = Inr u1"
    "predHist u1 tid = r # rs" by auto
  with False show ?thesis by (simp add: bpu_squash_correct_def)
qed

lemma squash_correct_repairs_witness:
  "\<exists>t a u1 u'. predict isa0 (branch0 9) 64 0 bpu0 = Inr (t, a, u1)
    \<and> bpu_squash_correct 9 400 True 0 u1 = Inr u' \<and> predHist u' 0 = []
    \<and> BTB_lookup 0 (bpu_BTB u') 64 0 = Inr 400"
proof -
  obtain t a r u1 where u1: "predict isa0 (branch0 9) 64 0 bpu0 = Inr (t, a, u1)" "bpu_ok u1"
    "predHist u1 = (predHist bpu0)(0 := r # predHist bpu0 0)" "seqNum r = 9" "pc r = 64"
    using predict_ok [OF bpu0_ok, of isa0 "branch0 9" 64 0] by (auto simp: branch0_def isa0_def)
  have h: "predHist u1 0 = [r]" by (simp add: u1(3)) (simp add: bpu0_def)
  then have "by_age (predHist u1 0)" "filter (\<lambda>r. seqNum r \<le> 9) (predHist u1 0) = [r]"
    using u1(4) by (simp_all add: by_age_def)
  from squash_correct_repairs [OF u1(2) this, of 400 True 0] u1(1,4,5) show ?thesis by auto
qed

text \<open>A return stack of more than 16 entries makes \<open>predict\<close> fail its own assertion.\<close>

lemma big_RAS_asserts:
  "predict_return isa p tid r (u\<lparr>bpu_RAS := \<lambda>_. (ras_init z 32)\<lparr>tos := 16\<rparr>\<rparr>) = Inl AssertFailed"
  by (simp add: predict_return_def ras_top_def ras_init_def Let_def)

end
