(* ===== verification/Store_Set.thy ===== *)
theory Store_Set
  imports Int_Math
begin

text \<open>
  The store set memory-dependence predictor of the out-of-order CPU (\<open>src/cpu/o3/store_set.hh\<close>,
  \<open>src/cpu/o3/store_set.cc\<close>).  The \<open>int\<close> sizes, indices and counters are never negative and are
  \<^typ>\<open>nat\<close>.  \<open>storeList\<close> is a \<open>std::map\<close> ordered by decreasing sequence number, here the
  association list in that order.  The loop of \<open>squash\<close> removes the front or leaves the list as
  it is, in which case it runs forever: \<^term>\<open>None\<close>.
\<close>

record StoreSet =
  SSIT :: "u32 list"
  validSSIT :: "bool list"
  LFST :: "u64 list"
  validLFST :: "bool list"
  storeList :: "(u64 \<times> nat) list"
  clearPeriod :: u64
  SSITSize :: nat
  LFSTSize :: nat
  indexMask :: nat
  offsetBits :: nat
  memOpsPred :: nat

section \<open>The ordered map of stores in flight\<close>

fun map_put :: "u64 \<Rightarrow> nat \<Rightarrow> (u64 \<times> nat) list \<Rightarrow> (u64 \<times> nat) list" where
  "map_put k v [] = [(k, v)]"
| "map_put k v ((k', v') # m) =
     (if k = k' then (k, v) # m else if k > k' then (k, v) # (k', v') # m
      else (k', v') # map_put k v m)"

definition map_erase :: "u64 \<Rightarrow> (u64 \<times> nat) list \<Rightarrow> (u64 \<times> nat) list" where
  "map_erase k m = filter (\<lambda>p. fst p \<noteq> k) m"

section \<open>Construction\<close>

text \<open>\<open>SSIT\<close> entries are value-initialised by \<open>resize\<close>.\<close>

definition ss_tables :: "u64 \<Rightarrow> nat \<Rightarrow> nat \<Rightarrow> StoreSet" where
  "ss_tables period ssit lfst =
     \<lparr>SSIT = replicate ssit 0, validSSIT = replicate ssit False, LFST = replicate lfst 0,
      validLFST = replicate lfst False, storeList = [], clearPeriod = period, SSITSize = ssit,
      LFSTSize = lfst, indexMask = ssit - 1, offsetBits = 2, memOpsPred = 0\<rparr>"

definition StoreSet_init :: "u64 \<Rightarrow> nat \<Rightarrow> nat \<Rightarrow> StoreSet res" where
  "StoreSet_init period ssit lfst =
     (if \<not> isPowerOf2 (of_nat ssit :: u32) then Inl Fatal
      else if \<not> isPowerOf2 (of_nat lfst :: u32) then Inl Fatal
      else Inr (ss_tables period ssit lfst))"

definition calcIndex :: "StoreSet \<Rightarrow> addr \<Rightarrow> nat" where
  "calcIndex s pc = unat (drop_bit (offsetBits s) pc AND of_nat (indexMask s))"

definition calcSSID :: "StoreSet \<Rightarrow> addr \<Rightarrow> u32" where
  "calcSSID s pc = ucast ((pc XOR drop_bit 10 pc) mod of_nat (LFSTSize s))"

definition ss_clear :: "StoreSet \<Rightarrow> StoreSet" where
  "ss_clear s = s\<lparr>validSSIT := replicate (SSITSize s) False,
                  validLFST := replicate (LFSTSize s) False, storeList := []\<rparr>"

section \<open>Operations\<close>

definition set_SSIT :: "nat \<Rightarrow> u32 \<Rightarrow> StoreSet \<Rightarrow> StoreSet res" where
  "set_SSIT i v s = res_bind (vec_set (SSIT s) i v) (\<lambda>t. Inr (s\<lparr>SSIT := t\<rparr>))"

definition set_validSSIT :: "nat \<Rightarrow> StoreSet \<Rightarrow> StoreSet res" where
  "set_validSSIT i s = res_bind (vec_set (validSSIT s) i True) (\<lambda>t. Inr (s\<lparr>validSSIT := t\<rparr>))"

definition violation :: "addr \<Rightarrow> addr \<Rightarrow> StoreSet \<Rightarrow> StoreSet res" where
  "violation store_PC load_PC s =
     (let li = calcIndex s load_PC; si = calcIndex s store_PC
      in assert_that (li < SSITSize s \<and> si < SSITSize s)
         (res_bind (vec_get (validSSIT s) li) (\<lambda>valid_load.
          res_bind (vec_get (validSSIT s) si) (\<lambda>valid_store.
            if \<not> valid_load \<and> \<not> valid_store
            then let new_set = calcSSID s load_PC
                 in res_bind (set_validSSIT li s) (\<lambda>s1.
                    res_bind (set_SSIT li new_set s1) (\<lambda>s2.
                    res_bind (set_validSSIT si s2) (\<lambda>s3.
                    res_bind (set_SSIT si new_set s3) (\<lambda>s4.
                      assert_that (unat new_set < LFSTSize s) (Inr s4)))))
            else if valid_load \<and> \<not> valid_store
            then res_bind (vec_get (SSIT s) li) (\<lambda>load_SSID.
                 res_bind (set_validSSIT si s) (\<lambda>s1.
                 res_bind (set_SSIT si load_SSID s1) (\<lambda>s2.
                   assert_that (unat load_SSID < LFSTSize s) (Inr s2))))
            else if \<not> valid_load \<and> valid_store
            then res_bind (vec_get (SSIT s) si) (\<lambda>store_SSID.
                 res_bind (set_validSSIT li s) (\<lambda>s1. set_SSIT li store_SSID s1))
            else res_bind (vec_get (SSIT s) li) (\<lambda>load_SSID.
                 res_bind (vec_get (SSIT s) si) (\<lambda>store_SSID.
                   assert_that (unat load_SSID < LFSTSize s \<and> unat store_SSID < LFSTSize s)
                     (if store_SSID > load_SSID then set_SSIT si load_SSID s
                      else set_SSIT li store_SSID s)))))))"

definition checkClear :: "StoreSet \<Rightarrow> StoreSet" where
  "checkClear s =
     (let s1 = s\<lparr>memOpsPred := memOpsPred s + 1\<rparr>
      in if memOpsPred s1 > unat (clearPeriod s1) then ss_clear (s1\<lparr>memOpsPred := 0\<rparr>) else s1)"

definition insertLoad :: "StoreSet \<Rightarrow> StoreSet" where
  "insertLoad s = checkClear s"

definition insertStore :: "addr \<Rightarrow> u64 \<Rightarrow> StoreSet \<Rightarrow> StoreSet res" where
  "insertStore store_PC sn s =
     (let index = calcIndex s store_PC; s1 = checkClear s
      in assert_that (index < SSITSize s1)
         (res_bind (vec_get (validSSIT s1) index) (\<lambda>valid.
            if \<not> valid then Inr s1
            else res_bind (vec_get (SSIT s1) index) (\<lambda>ssid.
                 assert_that (unat ssid < LFSTSize s1)
                   (res_bind (vec_set (LFST s1) (unat ssid) sn) (\<lambda>l.
                    res_bind (vec_set (validLFST s1) (unat ssid) True) (\<lambda>v.
                      Inr (s1\<lparr>LFST := l, validLFST := v,
                              storeList := map_put sn (unat ssid) (storeList s1)\<rparr>))))))))"

definition checkInst :: "addr \<Rightarrow> StoreSet \<Rightarrow> u64 res" where
  "checkInst pc s =
     (let index = calcIndex s pc
      in assert_that (index < SSITSize s)
         (res_bind (vec_get (validSSIT s) index) (\<lambda>valid.
            if \<not> valid then Inr 0
            else res_bind (vec_get (SSIT s) index) (\<lambda>ssid.
                 assert_that (unat ssid < LFSTSize s)
                   (res_bind (vec_get (validLFST s) (unat ssid)) (\<lambda>v.
                      if \<not> v then Inr 0 else vec_get (LFST s) (unat ssid)))))))"

definition issued :: "addr \<Rightarrow> u64 \<Rightarrow> bool \<Rightarrow> StoreSet \<Rightarrow> StoreSet res" where
  "issued pc sn is_store s =
     (if \<not> is_store then Inr s
      else let index = calcIndex s pc
           in assert_that (index < SSITSize s)
              (let s1 = s\<lparr>storeList := map_erase sn (storeList s)\<rparr>
               in res_bind (vec_get (validSSIT s1) index) (\<lambda>valid.
                    if \<not> valid then Inr s1
                    else res_bind (vec_get (SSIT s1) index) (\<lambda>ssid.
                         assert_that (unat ssid < LFSTSize s1)
                           (res_bind (vec_get (validLFST s1) (unat ssid)) (\<lambda>v.
                            res_bind (vec_get (LFST s1) (unat ssid)) (\<lambda>l.
                              if v \<and> l = sn
                              then res_bind (vec_set (validLFST s1) (unat ssid) False)
                                     (\<lambda>t. Inr (s1\<lparr>validLFST := t\<rparr>))
                              else Inr s1)))))))"

text \<open>One pass of the loop of \<open>squash\<close> either erases the front entry or leaves the state alone.\<close>

partial_function (option) ss_squash :: "u64 \<Rightarrow> StoreSet \<Rightarrow> StoreSet res option" where
  "ss_squash sq s =
     (if storeList s = [] then Some (Inr s)
      else let idx = snd (hd (storeList s))
           in if fst (hd (storeList s)) \<le> sq then Some (Inr s)
              else if \<not> (idx < length (LFST s) \<and> idx < length (validLFST s)) then Some (Inl OutOfRange)
              else let younger = LFST s ! idx > sq
                   in if validLFST s ! idx \<and> younger
                      then ss_squash sq (s\<lparr>validLFST := (validLFST s)[idx := False],
                                           storeList := tl (storeList s)\<rparr>)
                      else if \<not> validLFST s ! idx \<and> younger
                      then ss_squash sq (s\<lparr>storeList := tl (storeList s)\<rparr>)
                      else ss_squash sq s)"

end
