(* ===== verification/Store_Set_Laws.thy ===== *)
theory Store_Set_Laws
  imports Store_Set
begin

text \<open>
  Correctness of the store set predictor: the table invariant \<open>ss_inv\<close> (sizes, valid set ids, and
  no store in flight younger than the last fetched store of its set), the result of every
  operation on it, and the termination of \<open>squash\<close>, with the shape of state on which it loops.
\<close>

section \<open>The invariant and the operations\<close>


definition ss_geom :: "StoreSet \<Rightarrow> bool" where
  "ss_geom s \<longleftrightarrow> 0 < SSITSize s \<and> SSITSize s < 2 ^ 31 \<and> 0 < LFSTSize s \<and> LFSTSize s < 2 ^ 31
     \<and> indexMask s = SSITSize s - 1
     \<and> length (SSIT s) = SSITSize s \<and> length (validSSIT s) = SSITSize s
     \<and> length (LFST s) = LFSTSize s \<and> length (validLFST s) = LFSTSize s"

definition ss_inv :: "StoreSet \<Rightarrow> bool" where
  "ss_inv s \<longleftrightarrow> ss_geom s
     \<and> (\<forall>i < SSITSize s. validSSIT s ! i \<longrightarrow> unat (SSIT s ! i) < LFSTSize s)
     \<and> sorted_wrt (\<lambda>a b. fst a > fst b) (storeList s)
     \<and> (\<forall>p \<in> set (storeList s). snd p < LFSTSize s \<and> fst p \<le> LFST s ! snd p)"

lemma calcIndex_less:
  assumes "ss_geom s"
  shows "calcIndex s pc < SSITSize s"
proof -
  have "unat (of_nat (SSITSize s - 1) :: u64) = SSITSize s - 1"
    unfolding unat_of_nat using assms by (intro mod_less) (auto simp: ss_geom_def)
  moreover have "unat (drop_bit (offsetBits s) pc AND of_nat (SSITSize s - 1)) \<le> unat (of_nat (SSITSize s - 1) :: u64)"
    by (simp add: word_and_le1 word_le_nat_alt [symmetric])
  ultimately have "calcIndex s pc \<le> SSITSize s - 1"
    using assms by (simp add: calcIndex_def ss_geom_def)
  moreover have "0 < SSITSize s" using assms by (simp add: ss_geom_def)
  ultimately show ?thesis by linarith
qed

lemma calcSSID_less:
  assumes "ss_geom s"
  shows "unat (calcSSID s pc) < LFSTSize s"
proof -
  let ?n = "of_nat (LFSTSize s) :: u64"
  have n: "unat ?n = LFSTSize s" using assms by (simp add: ss_geom_def unat_of_nat)
  then have "unat ((pc XOR drop_bit 10 pc) mod ?n) < LFSTSize s"
    using assms by (simp add: unat_mod ss_geom_def)
  moreover have "unat (ucast w :: u32) \<le> unat w" for w :: u64
    by (simp add: unsigned_ucast_eq)
  ultimately show ?thesis unfolding calcSSID_def by (rule le_less_trans [rotated])
qed

lemma calcIndex_cong:
  "indexMask s' = indexMask s \<Longrightarrow> offsetBits s' = offsetBits s \<Longrightarrow> calcIndex s' = calcIndex s"
  by (simp add: calcIndex_def fun_eq_iff)

text \<open>\<open>violation\<close>: no assertion fails, and afterwards load and store are in one set.\<close>

lemma violation_result:
  assumes inv: "ss_inv s"
  defines "li \<equiv> \<lambda>ld. calcIndex s ld"
  shows "\<exists>v t. violation st ld s = Inr (s\<lparr>validSSIT := v, SSIT := t\<rparr>)
    \<and> ss_inv (s\<lparr>validSSIT := v, SSIT := t\<rparr>) \<and> length v = SSITSize s \<and> length t = SSITSize s
    \<and> v ! calcIndex s ld \<and> v ! calcIndex s st \<and> t ! calcIndex s ld = t ! calcIndex s st"
proof -
  let ?l = "calcIndex s ld" and ?s = "calcIndex s st"
  have g: "ss_geom s" using inv by (simp add: ss_inv_def)
  have i: "?l < SSITSize s" "?s < SSITSize s" by (rule calcIndex_less [OF g])+
  have len: "length (SSIT s) = SSITSize s" "length (validSSIT s) = SSITSize s"
    using g by (simp_all add: ss_geom_def)
  have b: "validSSIT s ! j \<Longrightarrow> j < SSITSize s \<Longrightarrow> unat (SSIT s ! j) < LFSTSize s" for j
    using inv by (simp add: ss_inv_def)
  have keep: "ss_inv (s\<lparr>validSSIT := v, SSIT := t\<rparr>)"
    if "length v = SSITSize s" "length t = SSITSize s"
      "\<And>j. j < SSITSize s \<Longrightarrow> v ! j \<Longrightarrow> unat (t ! j) < LFSTSize s" for v t
    using inv that by (simp add: ss_inv_def ss_geom_def)
  have upd: "validSSIT s = validSSIT s" ..
  consider "\<not> validSSIT s ! ?l" "\<not> validSSIT s ! ?s" | "validSSIT s ! ?l" "\<not> validSSIT s ! ?s"
    | "\<not> validSSIT s ! ?l" "validSSIT s ! ?s" | "validSSIT s ! ?l" "validSSIT s ! ?s" by blast
  then show ?thesis
  proof cases
    case 1
    let ?v = "(validSSIT s)[?l := True, ?s := True]"
    let ?t = "(SSIT s)[?l := calcSSID s ld, ?s := calcSSID s ld]"
    have "violation st ld s = Inr (s\<lparr>validSSIT := ?v, SSIT := ?t\<rparr>)"
      using 1 i len calcSSID_less [OF g] by (simp add: violation_def Let_def set_SSIT_def set_validSSIT_def)
    moreover have "ss_inv (s\<lparr>validSSIT := ?v, SSIT := ?t\<rparr>)"
      by (rule keep) (use len i b calcSSID_less [OF g] in \<open>auto simp: nth_list_update split: if_splits\<close>)
    ultimately show ?thesis using i len by (intro exI [of _ ?v] exI [of _ ?t]) (simp add: nth_list_update)
  next
    case 2
    let ?v = "(validSSIT s)[?s := True]" and ?t = "(SSIT s)[?s := SSIT s ! ?l]"
    have "violation st ld s = Inr (s\<lparr>validSSIT := ?v, SSIT := ?t\<rparr>)"
      using 2 i len b [OF 2(1)] by (simp add: violation_def Let_def set_SSIT_def set_validSSIT_def)
    moreover have "ss_inv (s\<lparr>validSSIT := ?v, SSIT := ?t\<rparr>)"
      by (rule keep) (use len i b 2 in \<open>auto simp: nth_list_update split: if_splits\<close>)
    ultimately show ?thesis using i len 2 by (intro exI [of _ ?v] exI [of _ ?t]) (simp add: nth_list_update)
  next
    case 3
    let ?v = "(validSSIT s)[?l := True]" and ?t = "(SSIT s)[?l := SSIT s ! ?s]"
    have "violation st ld s = Inr (s\<lparr>validSSIT := ?v, SSIT := ?t\<rparr>)"
      using 3 i len by (simp add: violation_def Let_def set_SSIT_def set_validSSIT_def)
    moreover have "ss_inv (s\<lparr>validSSIT := ?v, SSIT := ?t\<rparr>)"
      by (rule keep) (use len i b 3 in \<open>auto simp: nth_list_update split: if_splits\<close>)
    ultimately show ?thesis using i len 3 by (intro exI [of _ ?v] exI [of _ ?t]) (simp add: nth_list_update)
  next
    case 4
    let ?t = "if SSIT s ! ?s > SSIT s ! ?l then (SSIT s)[?s := SSIT s ! ?l] else (SSIT s)[?l := SSIT s ! ?s]"
    have "violation st ld s = Inr (s\<lparr>validSSIT := validSSIT s, SSIT := ?t\<rparr>)"
      using 4 i len b [OF 4(1)] b [OF 4(2)] by (simp add: violation_def Let_def set_SSIT_def)
    moreover have "ss_inv (s\<lparr>validSSIT := validSSIT s, SSIT := ?t\<rparr>)"
      by (rule keep) (use len i b 4 in \<open>auto simp: nth_list_update split: if_splits\<close>)
    ultimately show ?thesis using i len 4
      by (intro exI [of _ "validSSIT s"] exI [of _ ?t]) (simp add: nth_list_update)
  qed
qed

lemma ss_clear_inv:
  assumes "ss_geom s"
  shows "ss_inv (ss_clear s)"
  using assms by (simp add: ss_inv_def ss_geom_def ss_clear_def)

lemma checkClear_cases:
  "checkClear s = (if memOpsPred s + 1 > unat (clearPeriod s) then ss_clear (s\<lparr>memOpsPred := 0\<rparr>)
     else s\<lparr>memOpsPred := memOpsPred s + 1\<rparr>)"
  by (simp add: checkClear_def Let_def)

lemma ss_inv_memOps [simp]: "ss_inv (s\<lparr>memOpsPred := n\<rparr>) = ss_inv s" "ss_geom (s\<lparr>memOpsPred := n\<rparr>) = ss_geom s"
  by (simp_all add: ss_inv_def ss_geom_def)

lemma checkClear_inv: "ss_inv s \<Longrightarrow> ss_inv (checkClear s)"
  unfolding checkClear_cases using ss_clear_inv [of "s\<lparr>memOpsPred := 0\<rparr>"] by (simp add: ss_inv_def [of s])

lemma checkClear_same [simp]:
  "SSITSize (checkClear s) = SSITSize s" "LFSTSize (checkClear s) = LFSTSize s"
  "calcIndex (checkClear s) = calcIndex s"
  by (auto simp: checkClear_cases ss_clear_def intro!: calcIndex_cong)

lemma map_put_set: "set (map_put k v m) \<subseteq> insert (k, v) (set m)" "(k, v) \<in> set (map_put k v m)"
  by (induction m) (auto split: if_splits)

lemma map_put_sorted:
  "sorted_wrt (\<lambda>a b. fst a > fst b) m \<Longrightarrow> sorted_wrt (\<lambda>a b. fst a > fst b) (map_put k v m)"
proof (induction m)
  case (Cons p m)
  show ?case
  proof (cases p)
    case (Pair k' v')
    have "fst q < k'" if "q \<in> set (map_put k v m)" "k < k'" for q
      using that map_put_set(1) [of k v m] Cons.prems by (auto simp: Pair)
    with Cons show ?thesis by (auto simp: Pair)
  qed
qed simp

text \<open>\<open>insertStore\<close> with a sequence number not below the stores of its set in flight.\<close>

lemma insertStore_result:
  assumes inv: "ss_inv s" and order: "\<And>p. p \<in> set (storeList s) \<Longrightarrow> fst p \<le> sn"
  shows "\<exists>s'. insertStore pc sn s = Inr s' \<and> ss_inv s' \<and> validSSIT s' = validSSIT (checkClear s)
    \<and> SSIT s' = SSIT (checkClear s) \<and> SSITSize s' = SSITSize s \<and> LFSTSize s' = LFSTSize s
    \<and> calcIndex s' = calcIndex s
    \<and> (validSSIT (checkClear s) ! calcIndex s pc \<longrightarrow>
        validLFST s' ! unat (SSIT s' ! calcIndex s pc) \<and> LFST s' ! unat (SSIT s' ! calcIndex s pc) = sn)"
proof -
  let ?s = "checkClear s" and ?i = "calcIndex s pc"
  have inv': "ss_inv ?s" by (rule checkClear_inv [OF inv])
  have g: "ss_geom s" "ss_geom ?s" using inv inv' by (simp_all add: ss_inv_def)
  have i: "?i < SSITSize s" by (rule calcIndex_less [OF g(1)])
  have len: "length (SSIT ?s) = SSITSize s" "length (validSSIT ?s) = SSITSize s"
    "length (LFST ?s) = LFSTSize s" "length (validLFST ?s) = LFSTSize s"
    using g(2) by (simp_all add: ss_geom_def)
  show ?thesis
  proof (cases "validSSIT ?s ! ?i")
    case False
    then have "insertStore pc sn s = Inr ?s" using i len by (simp add: insertStore_def Let_def)
    with False inv' show ?thesis by (intro exI [of _ ?s]) simp
  next
    case True
    let ?k = "unat (SSIT ?s ! ?i)"
    have k: "?k < LFSTSize s" using inv' True i by (simp add: ss_inv_def)
    let ?s' = "?s\<lparr>LFST := (LFST ?s)[?k := sn], validLFST := (validLFST ?s)[?k := True],
      storeList := map_put sn ?k (storeList ?s)\<rparr>"
    have ins: "insertStore pc sn s = Inr ?s'"
      using True i len k by (simp add: insertStore_def Let_def)
    have sub: "set (storeList ?s) \<subseteq> set (storeList s)" by (simp add: checkClear_cases ss_clear_def)
    have "ss_inv ?s'"
    proof -
      have "snd p < LFSTSize s \<and> fst p \<le> (LFST ?s)[?k := sn] ! snd p"
        if "p \<in> set (map_put sn ?k (storeList ?s))" for p
      proof (cases "p = (sn, ?k)")
        case True
        with k len show ?thesis by simp
      next
        case False
        then have p: "p \<in> set (storeList ?s)" using that map_put_set(1) by blast
        then have "snd p < LFSTSize s \<and> fst p \<le> LFST ?s ! snd p" using inv' by (simp add: ss_inv_def)
        moreover have "fst p \<le> sn" using order p sub by blast
        ultimately show ?thesis using len by (cases "snd p = ?k") simp_all
      qed
      moreover have "sorted_wrt (\<lambda>a b. fst a > fst b) (map_put sn ?k (storeList ?s))"
        using inv' by (intro map_put_sorted) (simp add: ss_inv_def)
      ultimately show ?thesis using inv' by (simp add: ss_inv_def ss_geom_def)
    qed
    moreover have "calcIndex ?s' = calcIndex s"
      using calcIndex_cong [of ?s' ?s] by simp
    ultimately show ?thesis using ins k len by (intro exI [of _ ?s']) simp
  qed
qed

lemma checkInst_result:
  assumes "ss_inv s"
  shows "checkInst pc s = Inr (if validSSIT s ! calcIndex s pc \<and> validLFST s ! unat (SSIT s ! calcIndex s pc)
    then LFST s ! unat (SSIT s ! calcIndex s pc) else 0)"
proof -
  have g: "ss_geom s" using assms by (simp add: ss_inv_def)
  have i: "calcIndex s pc < SSITSize s" by (rule calcIndex_less [OF g])
  have k: "validSSIT s ! calcIndex s pc \<Longrightarrow> unat (SSIT s ! calcIndex s pc) < LFSTSize s"
    using assms i by (simp add: ss_inv_def)
  show ?thesis using g i k by (simp add: checkInst_def Let_def ss_geom_def)
qed

lemma issued_result:
  assumes inv: "ss_inv s"
  shows "\<exists>s'. issued pc sn is_store s = Inr s' \<and> ss_inv s'
    \<and> storeList s' = (if is_store then map_erase sn (storeList s) else storeList s)"
proof -
  have g: "ss_geom s" using inv by (simp add: ss_inv_def)
  have i: "calcIndex s pc < SSITSize s" by (rule calcIndex_less [OF g])
  let ?s = "s\<lparr>storeList := map_erase sn (storeList s)\<rparr>" and ?k = "unat (SSIT s ! calcIndex s pc)"
  have inv': "ss_inv ?s"
    using inv by (simp add: ss_inv_def ss_geom_def map_erase_def sorted_wrt_filter)
  have inv'': "ss_inv (?s\<lparr>validLFST := (validLFST s)[?k := False]\<rparr>)"
    using inv' by (simp add: ss_inv_def ss_geom_def)
  have k: "validSSIT s ! calcIndex s pc \<Longrightarrow> ?k < LFSTSize s"
    using inv i by (simp add: ss_inv_def)
  show ?thesis
    using g i k inv inv' inv'' unfolding issued_def ss_geom_def Let_def
    by (cases is_store; cases "validSSIT s ! calcIndex s pc"; cases "validLFST s ! ?k \<and> LFST s ! ?k = sn"; simp)
qed


section \<open>Squash\<close>

lemma ss_squash_Nil: "storeList s = [] \<Longrightarrow> ss_squash sq s = Some (Inr s)"
  by (subst ss_squash.simps) simp

lemma ss_squash_old: "storeList s = (k, i) # m \<Longrightarrow> k \<le> sq \<Longrightarrow> ss_squash sq s = Some (Inr s)"
  by (subst ss_squash.simps) simp

lemma ss_squash_young:
  assumes "storeList s = (k, i) # m" and "sq < k" and "i < length (LFST s)" and "i < length (validLFST s)"
    and "sq < LFST s ! i"
  shows "ss_squash sq s = ss_squash sq (s\<lparr>validLFST := (validLFST s)[i := False], storeList := m\<rparr>)"
proof (cases "validLFST s ! i")
  case True
  moreover have "\<not> k \<le> sq" using assms(2) by simp
  ultimately show ?thesis using assms by (subst ss_squash.simps) (simp add: Let_def)
next
  case False
  have "\<not> k \<le> sq" using assms(2) by simp
  moreover from False have "(validLFST s)[i := False] = validLFST s" by (simp add: list_update_same_conv assms(4))
  ultimately show ?thesis using False assms by (subst ss_squash.simps) (simp add: Let_def)
qed

lemma squash_result:
  assumes "ss_inv s"
  shows "\<exists>s'. ss_squash sq s = Some (Inr s') \<and> ss_inv s'
    \<and> storeList s' = filter (\<lambda>p. fst p \<le> sq) (storeList s)
    \<and> s' = s\<lparr>validLFST := validLFST s', storeList := storeList s'\<rparr>
    \<and> (\<forall>i < LFSTSize s. validLFST s' ! i \<longleftrightarrow> validLFST s ! i \<and> (\<forall>k. (k, i) \<in> set (storeList s) \<longrightarrow> k \<le> sq))"
  using assms
proof (induction "storeList s" arbitrary: s)
  case Nil
  have "ss_squash sq s = Some (Inr s)" using Nil(1) by (intro ss_squash_Nil) simp
  with Nil show ?case by (intro exI [of _ s]) (simp add: Nil(1) [symmetric])
next
  case (Cons p m)
  obtain k i where p: "p = (k, i)" by fastforce
  have sl: "storeList s = (k, i) # m" using Cons.hyps(2) p by simp
  have sorted: "\<forall>q \<in> set m. fst q < k" "sorted_wrt (\<lambda>a b. fst a > fst b) m"
    using Cons.prems sl by (auto simp: ss_inv_def)
  show ?case
  proof (cases "k \<le> sq")
    case True
    then have old: "\<forall>q \<in> set ((k, i) # m). fst q \<le> sq" using sorted(1) by fastforce
    have "ss_squash sq s = Some (Inr s)" using sl True by (rule ss_squash_old)
    moreover have "filter (\<lambda>p. fst p \<le> sq) (storeList s) = storeList s"
      using old sl by (simp add: filter_id_conv)
    moreover have "\<And>j k'. (k', j) \<in> set (storeList s) \<Longrightarrow> k' \<le> sq" using old sl by fastforce
    ultimately show ?thesis using Cons.prems by (intro exI [of _ s]) auto
  next
    case False
    have i: "i < LFSTSize s" "k \<le> LFST s ! i" using Cons.prems sl by (auto simp: ss_inv_def)
    let ?s = "s\<lparr>validLFST := (validLFST s)[i := False], storeList := m\<rparr>"
    have len: "length (LFST s) = LFSTSize s" "length (validLFST s) = LFSTSize s"
      using Cons.prems by (simp_all add: ss_inv_def ss_geom_def)
    have step: "ss_squash sq s = ss_squash sq ?s"
      by (rule ss_squash_young [OF sl]) (use False i len in auto)
    have inv: "ss_inv ?s" using Cons.prems sl by (simp add: ss_inv_def ss_geom_def)
    from Cons.hyps(1) [of ?s] inv obtain s' where s': "ss_squash sq ?s = Some (Inr s')" "ss_inv s'"
      "storeList s' = filter (\<lambda>p. fst p \<le> sq) m"
      "s' = ?s\<lparr>validLFST := validLFST s', storeList := storeList s'\<rparr>"
      "\<forall>j < LFSTSize s. validLFST s' ! j \<longleftrightarrow>
         (validLFST s)[i := False] ! j \<and> (\<forall>k. (k, j) \<in> set m \<longrightarrow> k \<le> sq)" by auto
    have "validLFST s' ! j \<longleftrightarrow> validLFST s ! j \<and> (\<forall>k. (k, j) \<in> set (storeList s) \<longrightarrow> k \<le> sq)"
      if "j < LFSTSize s" for j
      using s'(5) that sl False len by (cases "j = i") auto
    moreover have "s' = s\<lparr>validLFST := validLFST s', storeList := storeList s'\<rparr>"
      by (subst s'(4)) simp
    ultimately show ?thesis using s'(1-3) step sl False by (intro exI [of _ s']) simp
  qed
qed

section \<open>Properties\<close>

text \<open>C36: A memory-order violation is learned: after \<open>violation\<close> of a store and a load, the next
  insertion, of an instance of that store, makes \<open>checkInst\<close> of the load answer that store's sequence
  number; but when this insertion is the operation that ends the clearing period, it clears the tables and
  \<open>checkInst\<close> answers 0.  No assertion fails and no table is overrun.\<close>
theorem violation_learned:
  assumes "ss_inv s" and "\<forall>p \<in> set (storeList s). fst p \<le> sn"
  shows "\<exists>s1 s2. violation st ld s = Inr s1 \<and> insertStore st sn s1 = Inr s2 \<and> ss_inv s2
    \<and> checkInst ld s2 = Inr (if memOpsPred s < unat (clearPeriod s) then sn else 0)"
proof -
  obtain v t where vt: "violation st ld s = Inr (s\<lparr>validSSIT := v, SSIT := t\<rparr>)"
    "ss_inv (s\<lparr>validSSIT := v, SSIT := t\<rparr>)" "v ! calcIndex s ld" "v ! calcIndex s st"
    "t ! calcIndex s ld = t ! calcIndex s st"
    using violation_result [OF assms(1), of st ld] by blast
  let ?s1 = "s\<lparr>validSSIT := v, SSIT := t\<rparr>"
  have idx: "calcIndex ?s1 = calcIndex s" by (rule calcIndex_cong) simp_all
  show ?thesis
  proof (cases "memOpsPred s < unat (clearPeriod s)")
    case True
    have cc: "checkClear ?s1 = ?s1\<lparr>memOpsPred := memOpsPred s + 1\<rparr>"
      using True by (simp add: checkClear_cases)
    have "\<And>p. p \<in> set (storeList ?s1) \<Longrightarrow> fst p \<le> sn" using assms(2) by simp
    from insertStore_result [OF vt(2) this, of st] obtain s2 where s2: "insertStore st sn ?s1 = Inr s2"
      "ss_inv s2" "validSSIT s2 = v" "SSIT s2 = t" "calcIndex s2 = calcIndex s"
      "validLFST s2 ! unat (t ! calcIndex s st)" "LFST s2 ! unat (t ! calcIndex s st) = sn"
      using vt(4) by (auto simp: cc idx)
    have "checkInst ld s2 = Inr sn"
      using checkInst_result [OF s2(2), of ld] s2(3-7) vt(3,5) by simp
    with vt(1) s2(1,2) True show ?thesis by auto
  next
    case False
    let ?s2 = "checkClear ?s1"
    have inv: "ss_inv ?s2" by (rule checkClear_inv [OF vt(2)])
    then have g: "ss_geom ?s2" by (simp add: ss_inv_def)
    have i: "calcIndex ?s2 pc < SSITSize ?s2" "\<not> validSSIT ?s2 ! calcIndex ?s2 pc" for pc
    proof -
      show l: "calcIndex ?s2 pc < SSITSize ?s2" by (rule calcIndex_less [OF g])
      have "validSSIT ?s2 = replicate (SSITSize ?s2) False" using False by (simp add: checkClear_cases ss_clear_def)
      then show "\<not> validSSIT ?s2 ! calcIndex ?s2 pc" using l by simp
    qed
    have len: "length (validSSIT ?s2) = SSITSize ?s2" using g by (simp add: ss_geom_def)
    have "insertStore st sn ?s1 = Inr ?s2"
      using i [of st] len by (simp add: insertStore_def Let_def)
    moreover have "checkInst ld ?s2 = Inr 0" using checkInst_result [OF inv, of ld] i(2) [of ld] by simp
    ultimately show ?thesis using vt(1) inv False by auto
  qed
qed

lemma ss_tables_inv:
  "0 < a \<Longrightarrow> a < 2 ^ 31 \<Longrightarrow> 0 < b \<Longrightarrow> b < 2 ^ 31 \<Longrightarrow> ss_inv (ss_tables p a b)"
  by (simp add: ss_inv_def ss_geom_def ss_tables_def)

lemma violation_learned_witness:
  "\<exists>s1 s2. violation 0x1000 0x2008 (ss_tables 1000 16 8) = Inr s1 \<and> insertStore 0x1000 42 s1 = Inr s2
    \<and> checkInst 0x2008 s2 = Inr 42"
  using violation_learned [OF ss_tables_inv [of 16 8 1000], of 42 "0x1000" "0x2008"]
  by (auto simp: ss_tables_def)

text \<open>On a table whose stores in flight are not younger than the last fetched store of their set,
  \<open>squash\<close> terminates, drops exactly the younger stores, and leaves no last-fetched entry valid
  for a set one of them belonged to; every other entry keeps its validity.\<close>
theorem squash_terminates:
  assumes "ss_inv s"
  shows "\<exists>s'. ss_squash sq s = Some (Inr s') \<and> ss_inv s'
    \<and> storeList s' = filter (\<lambda>p. fst p \<le> sq) (storeList s)
    \<and> (\<forall>i < LFSTSize s. validLFST s' ! i \<longleftrightarrow> validLFST s ! i \<and> (\<forall>k. (k, i) \<in> set (storeList s) \<longrightarrow> k \<le> sq))"
  using squash_result [OF assms] by blast

lemma squash_terminates_witness:
  "\<exists>s'. ss_squash 5 ((ss_tables 9 4 2)\<lparr>LFST := [7, 0], validLFST := [True, False],
      storeList := [(7, 0), (4, 0)]\<rparr>) = Some (Inr s') \<and> storeList s' = [(4, 0)] \<and> \<not> validLFST s' ! 0"
proof -
  let ?s = "(ss_tables 9 4 2)\<lparr>LFST := [7, 0], validLFST := [True, False], storeList := [(7, 0), (4, 0)]\<rparr>"
  have "ss_inv ?s" by (simp add: ss_inv_def ss_geom_def ss_tables_def)
  from squash_terminates [OF this, of 5] obtain s' where s': "ss_squash 5 ?s = Some (Inr s')"
    "storeList s' = filter (\<lambda>p. fst p \<le> 5) (storeList ?s)"
    "\<forall>i < LFSTSize ?s. validLFST s' ! i \<longleftrightarrow> validLFST ?s ! i \<and> (\<forall>k. (k, i) \<in> set (storeList ?s) \<longrightarrow> k \<le> 5)"
    by blast
  have "LFSTSize ?s = 2" by (simp add: ss_tables_def)
  with s'(3) have "\<not> validLFST s' ! 0" by auto
  with s'(1,2) show ?thesis by auto
qed

text \<open>
  Without that order the loop can stand still: a store in flight younger than the squash point
  whose set's last fetched store is older is neither erased nor passed.
\<close>

lemma ss_squash_stuck:
  assumes "storeList s = (k, i) # m" and "sq < k" and "i < length (LFST s)" and "i < length (validLFST s)"
    and "LFST s ! i \<le> sq"
  shows "ss_squash sq s = None"
proof -
  have "ss_squash sq s = Some r \<Longrightarrow> storeList s \<noteq> (k, i) # m \<or> \<not> i < length (LFST s) \<or> \<not> sq < k
      \<or> \<not> i < length (validLFST s) \<or> sq < LFST s ! i" for r
    by (induction rule: ss_squash.raw_induct [rotated 1, consumes 1]) (auto split: if_splits simp: Let_def)
  with assms show ?thesis by (metis not_Some_eq not_le)
qed

end
