(* ===== verification/O3_Rename.thy ===== *)
theory O3_Rename
  imports Gem5_Prelude
begin

text \<open>
  Register renaming in the out-of-order CPU: the free list (\<open>src/cpu/o3/free_list.cc\<close>,
  \<open>free_list.hh\<close>), the rename map (\<open>src/cpu/o3/rename_map.cc\<close>, \<open>rename_map.hh\<close>) and the scoreboard
  (\<open>src/cpu/o3/scoreboard.cc\<close>, \<open>scoreboard.hh\<close>).  Register indices and counts are never negative
  and are \<^typ>\<open>nat\<close>; that they fit \<open>short\<close> and \<open>RegIndex\<close> is outside the model.  \<open>std::queue\<close> is a
  list with its front first.  What the source selects by \<open>THE_ISA == ALPHA_ISA\<close> is selected by
  the argument \<open>alpha\<close>; \<open>TheISA::ZeroReg\<close> is an argument.  The rename map's pointer to the
  free list is the free list passed with it.
\<close>

section \<open>Free list\<close>

record SimpleFreeList =
  freeIntRegs :: "nat list"
  freeFloatRegs :: "nat list"
  fl_numLogicalIntRegs :: nat
  fl_numPhysicalIntRegs :: nat
  fl_numLogicalFloatRegs :: nat
  fl_numPhysicalFloatRegs :: nat
  fl_numPhysicalRegs :: nat

definition SimpleFreeList_init :: "nat \<Rightarrow> nat \<Rightarrow> nat \<Rightarrow> nat \<Rightarrow> nat \<Rightarrow> SimpleFreeList" where
  "SimpleFreeList_init activeThreads li pi lf pf =
     \<lparr>freeIntRegs = [li * activeThreads ..< pi],
      freeFloatRegs = [pi + lf * activeThreads ..< pi + pf],
      fl_numLogicalIntRegs = li, fl_numPhysicalIntRegs = pi, fl_numLogicalFloatRegs = lf,
      fl_numPhysicalFloatRegs = pf, fl_numPhysicalRegs = pi + pf\<rparr>"

definition getIntReg :: "SimpleFreeList \<Rightarrow> (nat \<times> SimpleFreeList) res" where
  "getIntReg f =
     (case freeIntRegs f of
        [] \<Rightarrow> Inl Panic
      | r # rs \<Rightarrow> Inr (r, f\<lparr>freeIntRegs := rs\<rparr>))"

definition getFloatReg :: "SimpleFreeList \<Rightarrow> (nat \<times> SimpleFreeList) res" where
  "getFloatReg f =
     (case freeFloatRegs f of
        [] \<Rightarrow> Inl Panic
      | r # rs \<Rightarrow> Inr (r, f\<lparr>freeFloatRegs := rs\<rparr>))"

definition addIntReg :: "nat \<Rightarrow> SimpleFreeList \<Rightarrow> SimpleFreeList" where
  "addIntReg r f = f\<lparr>freeIntRegs := freeIntRegs f @ [r]\<rparr>"

definition addFloatReg :: "nat \<Rightarrow> SimpleFreeList \<Rightarrow> SimpleFreeList" where
  "addFloatReg r f = f\<lparr>freeFloatRegs := freeFloatRegs f @ [r]\<rparr>"

definition addReg :: "bool \<Rightarrow> nat \<Rightarrow> nat \<Rightarrow> SimpleFreeList \<Rightarrow> SimpleFreeList" where
  "addReg alpha zeroReg r f =
     (if r < fl_numPhysicalIntRegs f then (if r \<noteq> zeroReg then addIntReg r f else f)
      else if r < fl_numPhysicalRegs f
      then (if \<not> alpha \<or> r \<noteq> zeroReg + fl_numPhysicalIntRegs f then addFloatReg r f else f)
      else f)"

definition numFreeIntRegs :: "SimpleFreeList \<Rightarrow> nat" where
  "numFreeIntRegs f = length (freeIntRegs f)"

definition numFreeFloatRegs :: "SimpleFreeList \<Rightarrow> nat" where
  "numFreeFloatRegs f = length (freeFloatRegs f)"

section \<open>Rename map\<close>

record RenameEntry =
  physical_reg :: nat
  re_valid :: bool

record SimpleRenameMap =
  rm_id :: nat
  numLogicalIntRegs :: nat
  numPhysicalIntRegs :: nat
  numLogicalFloatRegs :: nat
  numPhysicalFloatRegs :: nat
  numMiscRegs :: nat
  numLogicalRegs :: nat
  numPhysicalRegs :: nat
  intZeroReg :: nat
  floatZeroReg :: nat
  intRenameMap :: "RenameEntry list"
  floatRenameMap :: "RenameEntry list"

text \<open>
  \<open>init\<close> fills both maps with consecutive registers from \<open>ireg_idx\<close> and \<open>freg_idx\<close>, advancing the
  caller's variables when \<open>bindRegs\<close> is set; the float map leaves the integer indices default.
\<close>

definition SimpleRenameMap_init ::
  "nat \<Rightarrow> nat \<Rightarrow> nat \<Rightarrow> nat \<Rightarrow> nat \<Rightarrow> nat \<Rightarrow> nat \<Rightarrow> nat \<Rightarrow> nat \<Rightarrow> nat \<Rightarrow> bool
     \<Rightarrow> SimpleRenameMap \<times> nat \<times> nat" where
  "SimpleRenameMap_init li pi ireg lf pf freg misc izero fzero map_id bindRegs =
     (let m = \<lparr>rm_id = map_id, numLogicalIntRegs = li, numPhysicalIntRegs = pi,
               numLogicalFloatRegs = lf, numPhysicalFloatRegs = pf, numMiscRegs = misc,
               numLogicalRegs = li + lf, numPhysicalRegs = pi + pf,
               intZeroReg = izero, floatZeroReg = fzero,
               intRenameMap = List.map (\<lambda>i. \<lparr>physical_reg = ireg + i, re_valid = False\<rparr>) [0..<li],
               floatRenameMap = replicate li \<lparr>physical_reg = 0, re_valid = False\<rparr>
                 @ List.map (\<lambda>i. \<lparr>physical_reg = freg + i, re_valid = False\<rparr>) [0..<lf]\<rparr>
      in (m, if bindRegs then ireg + li else ireg, if bindRegs then freg + lf else freg))"

definition set_phys :: "RenameEntry list \<Rightarrow> nat \<Rightarrow> nat \<Rightarrow> RenameEntry list res" where
  "set_phys xs i r = res_bind (vec_get xs i) (\<lambda>e. vec_set xs i (e\<lparr>physical_reg := r\<rparr>))"

definition rename ::
  "bool \<Rightarrow> nat \<Rightarrow> SimpleRenameMap \<Rightarrow> SimpleFreeList
     \<Rightarrow> ((nat \<times> nat) \<times> SimpleRenameMap \<times> SimpleFreeList) res" where
  "rename alpha arch_reg m fl =
     (if arch_reg < numLogicalIntRegs m
      then res_bind (vec_get (intRenameMap m) arch_reg) (\<lambda>e.
        let prev_reg = physical_reg e
        in if arch_reg \<noteq> intZeroReg m
           then res_bind (getIntReg fl) (\<lambda>(renamed_reg, fl').
                res_bind (set_phys (intRenameMap m) arch_reg renamed_reg) (\<lambda>xs.
                  assert_that (renamed_reg < numPhysicalIntRegs m)
                    (Inr ((renamed_reg, prev_reg), m\<lparr>intRenameMap := xs\<rparr>, fl'))))
           else Inr ((intZeroReg m, prev_reg), m, fl))
      else if arch_reg < numLogicalRegs m
      then res_bind (vec_get (floatRenameMap m) arch_reg) (\<lambda>e.
        let prev_reg = physical_reg e
        in if \<not> alpha \<or> arch_reg \<noteq> floatZeroReg m
           then res_bind (getFloatReg fl) (\<lambda>(renamed_reg, fl').
                res_bind (set_phys (floatRenameMap m) arch_reg renamed_reg) (\<lambda>xs.
                  assert_that (renamed_reg < numPhysicalRegs m \<and> renamed_reg \<ge> numPhysicalIntRegs m)
                    (Inr ((renamed_reg, prev_reg), m\<lparr>floatRenameMap := xs\<rparr>, fl'))))
           else Inr ((floatZeroReg m, prev_reg), m, fl))
      else let renamed_reg = arch_reg - numLogicalRegs m + numPhysicalRegs m
           in Inr ((renamed_reg, renamed_reg), m, fl))"

definition rm_lookup :: "SimpleRenameMap \<Rightarrow> nat \<Rightarrow> nat res" where
  "rm_lookup m arch_reg =
     (if arch_reg < numLogicalIntRegs m
      then res_bind (vec_get (intRenameMap m) arch_reg) (\<lambda>e. Inr (physical_reg e))
      else if arch_reg < numLogicalRegs m
      then res_bind (vec_get (floatRenameMap m) arch_reg) (\<lambda>e. Inr (physical_reg e))
      else Inr (numPhysicalRegs m + (arch_reg - numLogicalRegs m)))"

definition setEntry :: "nat \<Rightarrow> nat \<Rightarrow> SimpleRenameMap \<Rightarrow> SimpleRenameMap res" where
  "setEntry arch_reg renamed_reg m =
     (if arch_reg < numLogicalIntRegs m
      then res_bind (set_phys (intRenameMap m) arch_reg renamed_reg) (\<lambda>xs. Inr (m\<lparr>intRenameMap := xs\<rparr>))
      else if arch_reg < numLogicalIntRegs m + numLogicalFloatRegs m
      then res_bind (set_phys (floatRenameMap m) arch_reg renamed_reg) (\<lambda>xs. Inr (m\<lparr>floatRenameMap := xs\<rparr>))
      else Inr m)"

definition numFreeEntries :: "SimpleFreeList \<Rightarrow> nat" where
  "numFreeEntries f =
     (if numFreeIntRegs f < numFreeFloatRegs f then numFreeIntRegs f else numFreeFloatRegs f)"

section \<open>Scoreboard\<close>

record Scoreboard =
  regScoreBoard :: "bool list"
  sb_numLogicalIntRegs :: nat
  sb_numPhysicalIntRegs :: nat
  sb_numLogicalFloatRegs :: nat
  sb_numPhysicalFloatRegs :: nat
  sb_numMiscRegs :: nat
  sb_numLogicalRegs :: nat
  sb_numPhysicalRegs :: nat
  zeroRegIdx :: nat
  currentSize :: nat

text \<open>A loop of the constructor: every index is asserted to be in bounds, then set ready.\<close>

fun mark_ready :: "nat list \<Rightarrow> bool list \<Rightarrow> bool list res" where
  "mark_ready [] sb = Inr sb"
| "mark_ready (i # is) sb = assert_that (i < length sb) (mark_ready is (sb[i := True]))"

definition Scoreboard_init ::
  "nat \<Rightarrow> nat \<Rightarrow> nat \<Rightarrow> nat \<Rightarrow> nat \<Rightarrow> nat \<Rightarrow> nat \<Rightarrow> Scoreboard res" where
  "Scoreboard_init threads li pi lf pf misc zero =
     (let size = pi + pf + misc * threads
      in res_bind (mark_ready [0 ..< li * threads] (replicate size False)) (\<lambda>b1.
         res_bind (mark_ready [pi ..< pi + lf * threads] b1) (\<lambda>b2.
         res_bind (mark_ready [pi + pf ..< pi + pf + misc * threads] b2) (\<lambda>b3.
           Inr \<lparr>regScoreBoard = b3, sb_numLogicalIntRegs = li, sb_numPhysicalIntRegs = pi,
                sb_numLogicalFloatRegs = lf, sb_numPhysicalFloatRegs = pf, sb_numMiscRegs = misc,
                sb_numLogicalRegs = li + lf, sb_numPhysicalRegs = pi + pf, zeroRegIdx = zero,
                currentSize = size\<rparr>))))"

definition always_ready :: "bool \<Rightarrow> Scoreboard \<Rightarrow> nat \<Rightarrow> bool" where
  "always_ready alpha s r \<longleftrightarrow> r = zeroRegIdx s \<or> (alpha \<and> r = zeroRegIdx s + sb_numPhysicalIntRegs s)"

definition getReg :: "bool \<Rightarrow> Scoreboard \<Rightarrow> nat \<Rightarrow> bool res" where
  "getReg alpha s r =
     (if always_ready alpha s r then Inr True
      else assert_that (r < currentSize s) (vec_get (regScoreBoard s) r))"

definition setReg :: "Scoreboard \<Rightarrow> nat \<Rightarrow> Scoreboard res" where
  "setReg s r = assert_that (r < currentSize s)
     (res_bind (vec_set (regScoreBoard s) r True) (\<lambda>b. Inr (s\<lparr>regScoreBoard := b\<rparr>)))"

definition unsetReg :: "bool \<Rightarrow> Scoreboard \<Rightarrow> nat \<Rightarrow> Scoreboard res" where
  "unsetReg alpha s r =
     (if always_ready alpha s r then Inr s
      else assert_that (r < currentSize s)
        (res_bind (vec_set (regScoreBoard s) r False) (\<lambda>b. Inr (s\<lparr>regScoreBoard := b\<rparr>))))"

end
