(* ===== verification/O3_Rename_Laws.thy ===== *)
theory O3_Rename_Laws
  imports O3_Rename "HOL-Library.Multiset"
begin

text \<open>
  Correctness of renaming: \<open>rename_ok\<close> says that no physical register is mapped twice or both
  mapped and free; renaming keeps it and can be undone exactly.  The scoreboard's readiness laws.
\<close>


section \<open>The renaming invariant\<close>

definition int_phys :: "SimpleRenameMap \<Rightarrow> nat list" where
  "int_phys m = List.map physical_reg (intRenameMap m)"

definition float_phys :: "SimpleRenameMap \<Rightarrow> nat list" where
  "float_phys m = List.map physical_reg (drop (numLogicalIntRegs m) (floatRenameMap m))"

text \<open>
  Every physical register is in the map or in the free list at most once, and free registers are
  of their kind.
\<close>

definition rename_ok :: "SimpleRenameMap \<Rightarrow> SimpleFreeList \<Rightarrow> bool" where
  "rename_ok m fl \<longleftrightarrow> length (intRenameMap m) = numLogicalIntRegs m
     \<and> length (floatRenameMap m) = numLogicalRegs m
     \<and> numLogicalRegs m = numLogicalIntRegs m + numLogicalFloatRegs m
     \<and> numPhysicalRegs m = numPhysicalIntRegs m + numPhysicalFloatRegs m
     \<and> fl_numPhysicalIntRegs fl = numPhysicalIntRegs m \<and> fl_numPhysicalRegs fl = numPhysicalRegs m
     \<and> (\<forall>r \<in> set (freeIntRegs fl). r < numPhysicalIntRegs m)
     \<and> (\<forall>r \<in> set (freeFloatRegs fl). numPhysicalIntRegs m \<le> r \<and> r < numPhysicalRegs m)
     \<and> distinct (int_phys m @ freeIntRegs fl) \<and> distinct (float_phys m @ freeFloatRegs fl)"

definition is_int :: "SimpleRenameMap \<Rightarrow> nat \<Rightarrow> bool" where
  "is_int m a \<longleftrightarrow> a < numLogicalIntRegs m"

definition is_float :: "SimpleRenameMap \<Rightarrow> nat \<Rightarrow> bool" where
  "is_float m a \<longleftrightarrow> numLogicalIntRegs m \<le> a \<and> a < numLogicalRegs m"

text \<open>The registers renaming leaves alone: the zero registers.\<close>

definition is_zero :: "bool \<Rightarrow> SimpleRenameMap \<Rightarrow> nat \<Rightarrow> bool" where
  "is_zero alpha m a \<longleftrightarrow> (is_int m a \<and> a = intZeroReg m) \<or> (is_float m a \<and> alpha \<and> a = floatZeroReg m)"

lemma set_phys_in: "i < length xs \<Longrightarrow> set_phys xs i r = Inr (xs[i := (xs ! i)\<lparr>physical_reg := r\<rparr>])"
  by (simp add: set_phys_def)

lemma map_set_phys: "List.map physical_reg (xs[i := (xs ! i)\<lparr>physical_reg := r\<rparr>]) =
    (List.map physical_reg xs)[i := r]"
  by (simp add: map_update)

lemma distinct_replace:
  assumes "distinct (xs @ r # fs)" and "i < length xs"
  shows "distinct (xs[i := r] @ fs)" "xs ! i \<notin> set (xs[i := r] @ fs)"
proof -
  have d: "distinct xs" "r \<notin> set xs" "r \<notin> set fs" "distinct fs" "set xs \<inter> set fs = {}"
    using assms(1) by auto
  have sub: "set (xs[i := r]) \<subseteq> insert r (set xs)" by (rule set_update_subset_insert)
  show "distinct (xs[i := r] @ fs)"
    using d sub distinct_list_update [of xs r i] by auto
  have "xs ! i \<in> set xs" using assms(2) by simp
  moreover have "xs ! i \<notin> set (xs[i := r])"
  proof
    assume "xs ! i \<in> set (xs[i := r])"
    then obtain j where j: "j < length xs" "xs[i := r] ! j = xs ! i" by (auto simp: in_set_conv_nth)
    show False
    proof (cases "j = i")
      case True
      then show False using j assms(2) d(2) nth_mem [of i xs] by simp
    next
      case False
      then show False using j assms(2) d(1) by (simp add: nth_eq_iff_index_eq)
    qed
  qed
  ultimately show "xs ! i \<notin> set (xs[i := r] @ fs)" using d(5) by auto
qed

lemma rename_int:
  assumes ok: "rename_ok m fl" and a: "is_int m a" "\<not> is_zero alpha m a" and f: "freeIntRegs fl = r # rs"
  defines "m' \<equiv> m\<lparr>intRenameMap := (intRenameMap m)[a := (intRenameMap m ! a)\<lparr>physical_reg := r\<rparr>]\<rparr>"
    and "fl' \<equiv> fl\<lparr>freeIntRegs := rs\<rparr>"
  shows "rename alpha a m fl = Inr ((r, int_phys m ! a), m', fl')" and "rename_ok m' fl'"
    and "int_phys m ! a \<notin> set (int_phys m' @ freeIntRegs fl')" and "r \<notin> set (int_phys m)"
proof -
  have a': "a < numLogicalIntRegs m" "a \<noteq> intZeroReg m" using a by (simp_all add: is_int_def is_zero_def)
  have len: "length (intRenameMap m) = numLogicalIntRegs m" using ok by (simp add: rename_ok_def)
  have r: "r < numPhysicalIntRegs m" using ok f by (simp add: rename_ok_def)
  show "rename alpha a m fl = Inr ((r, int_phys m ! a), m', fl')"
    using a' len r f by (simp add: rename_def getIntReg_def set_phys_in int_phys_def m'_def fl'_def)
  have d: "distinct (int_phys m @ r # rs)" using ok f by (simp add: rename_ok_def)
  have p: "int_phys m' = (int_phys m)[a := r]" by (simp add: int_phys_def m'_def map_set_phys)
  have l: "a < length (int_phys m)" using a' len by (simp add: int_phys_def)
  have fp: "float_phys m' = float_phys m" by (simp add: float_phys_def m'_def)
  have d': "distinct (int_phys m' @ rs)" unfolding p by (rule distinct_replace(1) [OF d l])
  show "rename_ok m' fl'"
    using ok f d' fp unfolding rename_ok_def by (auto simp: m'_def fl'_def)
  show "int_phys m ! a \<notin> set (int_phys m' @ freeIntRegs fl')"
    using distinct_replace(2) [OF d l] p by (simp add: fl'_def)
  show "r \<notin> set (int_phys m)" using d by auto
qed

lemma rename_float:
  assumes ok: "rename_ok m fl" and a: "is_float m a" "\<not> is_zero alpha m a" and f: "freeFloatRegs fl = r # rs"
  defines "m' \<equiv> m\<lparr>floatRenameMap := (floatRenameMap m)[a := (floatRenameMap m ! a)\<lparr>physical_reg := r\<rparr>]\<rparr>"
    and "fl' \<equiv> fl\<lparr>freeFloatRegs := rs\<rparr>"
  defines "i \<equiv> a - numLogicalIntRegs m"
  shows "rename alpha a m fl = Inr ((r, float_phys m ! i), m', fl')" and "rename_ok m' fl'"
    and "float_phys m ! i \<notin> set (float_phys m' @ freeFloatRegs fl')" and "r \<notin> set (float_phys m)"
proof -
  have a': "\<not> a < numLogicalIntRegs m" "a < numLogicalRegs m" "\<not> alpha \<or> a \<noteq> floatZeroReg m"
    using a by (auto simp: is_float_def is_zero_def)
  have len: "length (floatRenameMap m) = numLogicalRegs m" using ok by (simp add: rename_ok_def)
  have r: "r < numPhysicalRegs m" "numPhysicalIntRegs m \<le> r" using ok f by (simp_all add: rename_ok_def)
  have nth: "float_phys m ! i = physical_reg (floatRenameMap m ! a)"
    using a' len by (simp add: float_phys_def i_def)
  show "rename alpha a m fl = Inr ((r, float_phys m ! i), m', fl')"
    using a' len r f unfolding nth
    by (simp add: rename_def getFloatReg_def set_phys_in m'_def fl'_def)
  have d: "distinct (float_phys m @ r # rs)" using ok f by (simp add: rename_ok_def)
  have p: "float_phys m' = (float_phys m)[i := r]"
    using a' by (simp add: float_phys_def m'_def drop_update_swap i_def map_update)
  have l: "i < length (float_phys m)" using a' len by (simp add: float_phys_def i_def)
  have ip: "int_phys m' = int_phys m" by (simp add: int_phys_def m'_def)
  have d': "distinct (float_phys m' @ rs)" unfolding p by (rule distinct_replace(1) [OF d l])
  show "rename_ok m' fl'"
    using ok f d' ip unfolding rename_ok_def by (auto simp: m'_def fl'_def)
  show "float_phys m ! i \<notin> set (float_phys m' @ freeFloatRegs fl')"
    using distinct_replace(2) [OF d l] p by (simp add: fl'_def)
  show "r \<notin> set (float_phys m)" using d by auto
qed

lemma rm_lookup_eq:
  assumes "rename_ok m fl"
  shows "rm_lookup m a = Inr (if is_int m a then int_phys m ! a
    else if is_float m a then float_phys m ! (a - numLogicalIntRegs m)
    else numPhysicalRegs m + (a - numLogicalRegs m))"
  using assms
  by (auto simp: rm_lookup_def rename_ok_def is_int_def is_float_def int_phys_def float_phys_def)

text \<open>The state of the renamer as one map, with the registers in use.\<close>

definition free_of :: "SimpleRenameMap \<Rightarrow> SimpleFreeList \<Rightarrow> nat \<Rightarrow> nat list" where
  "free_of m fl a = (if is_int m a then freeIntRegs fl else freeFloatRegs fl)"

definition mapped :: "SimpleRenameMap \<Rightarrow> nat \<Rightarrow> nat \<Rightarrow> bool" where
  "mapped m a r \<longleftrightarrow> r \<in> set (if is_int m a then int_phys m else float_phys m)"

text \<open>
  Renaming an architected register that is neither a zero register nor a miscellaneous one.
\<close>
lemma rename_general:
  assumes "rename_ok m fl" and "is_int m a \<or> is_float m a" and "\<not> is_zero alpha m a"
  shows "case free_of m fl a of
      [] \<Rightarrow> rename alpha a m fl = Inl Panic
    | r # rs \<Rightarrow> \<exists>prev m' fl'. rename alpha a m fl = Inr ((r, prev), m', fl') \<and> rename_ok m' fl'
        \<and> free_of m' fl' a = rs \<and> \<not> mapped m a r
        \<and> rm_lookup m a = Inr prev \<and> rm_lookup m' a = Inr r
        \<and> (\<forall>b. b \<noteq> a \<longrightarrow> rm_lookup m' b = rm_lookup m b)
        \<and> \<not> mapped m' a prev \<and> prev \<notin> set (free_of m' fl' a)"
proof (cases "is_int m a")
  case True
  note l = rm_lookup_eq [OF assms(1)]
  have len: "length (intRenameMap m) = numLogicalIntRegs m" using assms(1) by (simp add: rename_ok_def)
  show ?thesis
  proof (cases "freeIntRegs fl")
    case Nil
    have "a < numLogicalIntRegs m" "a \<noteq> intZeroReg m" using True assms(3) by (simp_all add: is_int_def is_zero_def)
    with Nil True len show ?thesis by (simp add: free_of_def rename_def getIntReg_def)
  next
    case (Cons r rs)
    note R = rename_int [OF assms(1) True assms(3) Cons]
    let ?m = "m\<lparr>intRenameMap := (intRenameMap m)[a := (intRenameMap m ! a)\<lparr>physical_reg := r\<rparr>]\<rparr>"
    have same: "is_int ?m = is_int m" "is_float ?m = is_float m" "float_phys ?m = float_phys m"
      "int_phys ?m = (int_phys m)[a := r]"
      by (simp_all add: is_int_def is_float_def fun_eq_iff float_phys_def int_phys_def map_set_phys)
    have la: "a < length (int_phys m)" using True len by (simp add: int_phys_def is_int_def)
    have "rm_lookup ?m b = rm_lookup m b" if "b \<noteq> a" for b
      unfolding l rm_lookup_eq [OF R(2)] same using that by simp
    moreover have "rm_lookup ?m a = Inr r" unfolding rm_lookup_eq [OF R(2)] same using True la by simp
    moreover have "rm_lookup m a = Inr (int_phys m ! a)" unfolding l using True by simp
    ultimately show ?thesis using R True Cons same(1)
      by (simp add: free_of_def mapped_def del: rename_ok_def)
  qed
next
  case False
  then have fa: "is_float m a" using assms(2) by simp
  note l = rm_lookup_eq [OF assms(1)]
  have len: "length (floatRenameMap m) = numLogicalRegs m" using assms(1) by (simp add: rename_ok_def)
  let ?i = "a - numLogicalIntRegs m"
  show ?thesis
  proof (cases "freeFloatRegs fl")
    case Nil
    have "\<not> a < numLogicalIntRegs m" "a < numLogicalRegs m" "\<not> alpha \<or> a \<noteq> floatZeroReg m"
      using fa assms(3) by (auto simp: is_float_def is_zero_def)
    with Nil False len show ?thesis by (simp add: free_of_def rename_def getFloatReg_def)
  next
    case (Cons r rs)
    note R = rename_float [OF assms(1) fa assms(3) Cons]
    let ?m = "m\<lparr>floatRenameMap := (floatRenameMap m)[a := (floatRenameMap m ! a)\<lparr>physical_reg := r\<rparr>]\<rparr>"
    have same: "is_int ?m = is_int m" "is_float ?m = is_float m" "int_phys ?m = int_phys m"
      by (simp_all add: is_int_def is_float_def fun_eq_iff int_phys_def)
    have fp: "float_phys ?m = (float_phys m)[?i := r]"
      using fa by (simp add: float_phys_def drop_update_swap is_float_def map_update)
    have la: "?i < length (float_phys m)" using fa len by (auto simp: float_phys_def is_float_def)
    have "rm_lookup ?m b = rm_lookup m b" if "b \<noteq> a" for b
    proof -
      have "is_float m b \<Longrightarrow> b - numLogicalIntRegs m \<noteq> ?i" using that fa by (auto simp: is_float_def)
      then have "is_float m b \<Longrightarrow> (float_phys m)[?i := r] ! (b - numLogicalIntRegs m)
          = float_phys m ! (b - numLogicalIntRegs m)" by (metis nth_list_update_neq)
      then show ?thesis unfolding l rm_lookup_eq [OF R(2)] same fp by simp
    qed
    moreover have "rm_lookup ?m a = Inr r" unfolding rm_lookup_eq [OF R(2)] same fp using False fa la by simp
    moreover have "rm_lookup m a = Inr (float_phys m ! ?i)" unfolding l using False fa by simp
    ultimately show ?thesis using R False Cons same(1)
      by (simp add: free_of_def mapped_def del: rename_ok_def)
  qed
qed


text \<open>C35: Renaming on every branch.  A miscellaneous register is renamed to its fixed place behind the
  physical registers and a zero register (the floating-point one on Alpha only) to itself, both without a
  change; the previous register reported is the one it is mapped to.  Any other register: with no free
  register of its kind renaming panics.  Otherwise the new register is the front of the free list and was not
  mapped to anything; the register's mapping becomes it and no other mapping changes; the previous register
  is neither mapped nor free afterwards, so it can be freed at commit; the invariant holds again.\<close>
theorem rename_fresh:
  assumes "rename_ok m fl"
  shows "if numLogicalRegs m \<le> a
    then let r = numPhysicalRegs m + (a - numLogicalRegs m)
         in rename alpha a m fl = Inr ((r, r), m, fl) \<and> rm_lookup m a = Inr r
    else if is_zero alpha m a
    then \<exists>prev. rename alpha a m fl = Inr ((a, prev), m, fl) \<and> rm_lookup m a = Inr prev
    else case free_of m fl a of
      [] \<Rightarrow> rename alpha a m fl = Inl Panic
    | r # rs \<Rightarrow> \<exists>prev m' fl'. rename alpha a m fl = Inr ((r, prev), m', fl') \<and> rename_ok m' fl'
        \<and> free_of m' fl' a = rs \<and> \<not> mapped m a r
        \<and> rm_lookup m a = Inr prev \<and> rm_lookup m' a = Inr r
        \<and> (\<forall>b. b \<noteq> a \<longrightarrow> rm_lookup m' b = rm_lookup m b)
        \<and> \<not> mapped m' a prev \<and> prev \<notin> set (free_of m' fl' a)"
proof -
  have len: "length (intRenameMap m) = numLogicalIntRegs m" "length (floatRenameMap m) = numLogicalRegs m"
    "numLogicalRegs m = numLogicalIntRegs m + numLogicalFloatRegs m"
    using assms by (simp_all add: rename_ok_def)
  show ?thesis
  proof (cases "numLogicalRegs m \<le> a")
    case True
    then show ?thesis using len by (simp add: rename_def rm_lookup_def Let_def)
  next
    case False
    then have k: "is_int m a \<or> is_float m a" by (simp add: is_int_def is_float_def) linarith
    show ?thesis
    proof (cases "is_zero alpha m a")
      case True
      then show ?thesis using False len
        by (auto simp: rename_def rm_lookup_def Let_def is_zero_def is_int_def is_float_def)
    next
      case nz: False
      then show ?thesis using rename_general [OF assms k nz] False by simp
    qed
  qed
qed

definition rm0 :: SimpleRenameMap where
  "rm0 = fst (SimpleRenameMap_init 2 4 0 1 3 4 0 0 9 0 True)"

lemma rm0_ok: "rename_ok rm0 (SimpleFreeList_init 1 2 4 1 3)"
  by (simp add: rename_ok_def rm0_def SimpleRenameMap_init_def SimpleFreeList_init_def int_phys_def
      float_phys_def upt_rec Let_def)

lemma rename_fresh_witness:
  "\<exists>m' fl'. rename True 1 rm0 (SimpleFreeList_init 1 2 4 1 3) = Inr ((2, 1), m', fl') \<and> rm_lookup m' 1 = Inr 2"
proof -
  have g: "\<not> numLogicalRegs rm0 \<le> 1" "\<not> is_zero True rm0 1"
    by (simp_all add: is_int_def is_float_def is_zero_def rm0_def SimpleRenameMap_init_def Let_def)
  have "free_of rm0 (SimpleFreeList_init 1 2 4 1 3) 1 = [2, 3]" "rm_lookup rm0 1 = Inr 1"
    by (simp_all add: free_of_def rm0_def SimpleRenameMap_init_def SimpleFreeList_init_def is_int_def
        Let_def upt_rec rm_lookup_def)
  with rename_fresh [OF rm0_ok, of 1 True] g show ?thesis by auto
qed

text \<open>Undoing a renaming, as a squash does: setting the entry back to the previous register gives
  the old map exactly, and adding the new register to the free list gives the old set of free
  registers (unless it is the architecture's zero register, which is never freed).\<close>
theorem rename_undo:
  assumes "rename_ok m fl" and "is_int m a \<or> is_float m a" and "\<not> is_zero alpha m a"
    and "rename alpha a m fl = Inr ((r, prev), m', fl')"
    and "zeroReg \<notin> set (freeIntRegs fl)" and "zeroReg + numPhysicalIntRegs m \<notin> set (freeFloatRegs fl)"
  shows "setEntry a prev m' = Inr m
    \<and> mset (freeIntRegs (addReg alpha zeroReg r fl')) = mset (freeIntRegs fl)
    \<and> mset (freeFloatRegs (addReg alpha zeroReg r fl')) = mset (freeFloatRegs fl)"
proof (cases "is_int m a")
  case True
  have len: "length (intRenameMap m) = numLogicalIntRegs m" using assms(1) by (simp add: rename_ok_def)
  have a: "a < numLogicalIntRegs m" "a \<noteq> intZeroReg m" using True assms(3) by (simp_all add: is_int_def is_zero_def)
  obtain rs where f: "freeIntRegs fl = r # rs"
    using assms(4) a len by (auto simp: rename_def getIntReg_def res_simps split: list.splits)
  have e: "prev = int_phys m ! a" "fl' = fl\<lparr>freeIntRegs := rs\<rparr>"
    "m' = m\<lparr>intRenameMap := (intRenameMap m)[a := (intRenameMap m ! a)\<lparr>physical_reg := r\<rparr>]\<rparr>"
    using rename_int(1) [OF assms(1) True assms(3) f] assms(4) by simp_all
  have "r < numPhysicalIntRegs m" "r \<noteq> zeroReg" "fl_numPhysicalIntRegs fl = numPhysicalIntRegs m"
    using assms(1,5) f by (auto simp: rename_ok_def)
  then show ?thesis using a len f by (simp add: e setEntry_def set_phys_in int_phys_def addReg_def addIntReg_def)
next
  case False
  then have fa: "is_float m a" using assms(2) by simp
  have len: "length (floatRenameMap m) = numLogicalRegs m" "numLogicalRegs m = numLogicalIntRegs m + numLogicalFloatRegs m"
    using assms(1) by (simp_all add: rename_ok_def)
  have a: "\<not> a < numLogicalIntRegs m" "a < numLogicalRegs m" "\<not> alpha \<or> a \<noteq> floatZeroReg m"
    using fa assms(3) by (auto simp: is_float_def is_zero_def)
  obtain rs where f: "freeFloatRegs fl = r # rs"
    using assms(4) a len by (auto simp: rename_def getFloatReg_def res_simps split: list.splits)
  have e: "prev = float_phys m ! (a - numLogicalIntRegs m)" "fl' = fl\<lparr>freeFloatRegs := rs\<rparr>"
    "m' = m\<lparr>floatRenameMap := (floatRenameMap m)[a := (floatRenameMap m ! a)\<lparr>physical_reg := r\<rparr>]\<rparr>"
    using rename_float(1) [OF assms(1) fa assms(3) f] assms(4) by simp_all
  have nth: "float_phys m ! (a - numLogicalIntRegs m) = physical_reg (floatRenameMap m ! a)"
    using a len by (simp add: float_phys_def)
  have "\<not> r < numPhysicalIntRegs m" "r < numPhysicalRegs m" "r \<noteq> zeroReg + numPhysicalIntRegs m"
    "fl_numPhysicalIntRegs fl = numPhysicalIntRegs m" "fl_numPhysicalRegs fl = numPhysicalRegs m"
    using assms(1,6) f by (auto simp: rename_ok_def)
  then show ?thesis using a len f
    by (simp add: e nth setEntry_def set_phys_in addReg_def addFloatReg_def)
qed

lemma rename_undo_witness:
  "\<exists>r prev m' fl'. rename True 1 rm0 (SimpleFreeList_init 1 2 4 1 3) = Inr ((r, prev), m', fl')
    \<and> setEntry 1 prev m' = Inr rm0"
proof -
  have g: "is_int rm0 1 \<or> is_float rm0 1" "\<not> is_zero True rm0 1"
    by (simp_all add: is_int_def is_float_def is_zero_def rm0_def SimpleRenameMap_init_def Let_def)
  have z: "0 \<notin> set (freeIntRegs (SimpleFreeList_init 1 2 4 1 3))"
    "0 + numPhysicalIntRegs rm0 \<notin> set (freeFloatRegs (SimpleFreeList_init 1 2 4 1 3))"
    by (simp_all add: SimpleFreeList_init_def rm0_def SimpleRenameMap_init_def Let_def)
  have "is_int rm0 1" "freeIntRegs (SimpleFreeList_init 1 2 4 1 3) = 2 # [3]"
    by (simp_all add: is_int_def rm0_def SimpleRenameMap_init_def SimpleFreeList_init_def Let_def upt_rec)
  from rename_int(1) [OF rm0_ok this(1) g(2) this(2)] obtain prev m' fl' where
    r: "rename True 1 rm0 (SimpleFreeList_init 1 2 4 1 3) = Inr ((2, prev), m', fl')" by blast
  from rename_undo [OF rm0_ok g r z] r show ?thesis by blast
qed

section \<open>The scoreboard\<close>

definition sb_ok :: "Scoreboard \<Rightarrow> bool" where
  "sb_ok s \<longleftrightarrow> length (regScoreBoard s) = currentSize s"

lemma mark_ready_result:
  assumes "\<forall>i \<in> set is. i < length sb"
  shows "\<exists>sb'. mark_ready is sb = Inr sb' \<and> length sb' = length sb
     \<and> (\<forall>j < length sb. sb' ! j \<longleftrightarrow> sb ! j \<or> j \<in> set is)"
  using assms
proof (induction "is" arbitrary: sb)
  case (Cons i "is")
  have i: "i < length sb" using Cons.prems by simp
  have "\<forall>k \<in> set is. k < length (sb[i := True])" using Cons.prems by simp
  from Cons.IH [OF this] obtain sb' where sb': "mark_ready is (sb[i := True]) = Inr sb'"
      "length sb' = length sb" "\<forall>j < length sb. sb' ! j \<longleftrightarrow> sb[i := True] ! j \<or> j \<in> set is" by auto
  have "sb' ! j \<longleftrightarrow> sb ! j \<or> j \<in> set (i # is)" if "j < length sb" for j
    using sb'(3) that by (cases "j = i") simp_all
  with sb'(1,2) i show ?case by simp
qed simp

text \<open>The scoreboard's constructor succeeds when every thread's architected registers fit the
  physical files, and marks exactly the registers the threads start with as ready; afterwards
  \<open>setReg\<close> and \<open>unsetReg\<close> change the readiness of their register only, and the zero registers
  are always ready.\<close>
theorem scoreboard_ready:
  assumes "li * threads \<le> pi" and "lf * threads \<le> pf"
  shows "\<exists>s. Scoreboard_init threads li pi lf pf misc zero = Inr s \<and> sb_ok s
    \<and> (\<forall>r < currentSize s. getReg alpha s r = Inr (always_ready alpha s r \<or> r < li * threads
         \<or> (pi \<le> r \<and> r < pi + lf * threads) \<or> pi + pf \<le> r))
    \<and> (\<forall>r q. r < currentSize s \<and> q < currentSize s \<longrightarrow>
         (\<exists>s1 s2. setReg s r = Inr s1 \<and> unsetReg alpha s r = Inr s2
          \<and> getReg alpha s1 q = (if q = r then Inr True else getReg alpha s q)
          \<and> getReg alpha s2 q = (if q = r then Inr (always_ready alpha s r) else getReg alpha s q)))"
proof -
  let ?n = "pi + pf + misc * threads"
  have p1: "\<forall>i \<in> set [0 ..< li * threads]. i < length (replicate ?n False)" using assms by auto
  obtain b1 where b1: "mark_ready [0 ..< li * threads] (replicate ?n False) = Inr b1" "length b1 = ?n"
      "\<forall>j < ?n. b1 ! j \<longleftrightarrow> j < li * threads"
    using mark_ready_result [OF p1] by auto
  have p2: "\<forall>i \<in> set [pi ..< pi + lf * threads]. i < length b1" using assms b1(2) by auto
  obtain b2 where b2: "mark_ready [pi ..< pi + lf * threads] b1 = Inr b2" "length b2 = ?n"
      "\<forall>j < ?n. b2 ! j \<longleftrightarrow> j < li * threads \<or> (pi \<le> j \<and> j < pi + lf * threads)"
    using mark_ready_result [OF p2] b1(2,3) by auto
  have p3: "\<forall>i \<in> set [pi + pf ..< ?n]. i < length b2" using b2(2) by auto
  obtain b3 where b3: "mark_ready [pi + pf ..< ?n] b2 = Inr b3" "length b3 = ?n"
      "\<forall>j < ?n. b3 ! j \<longleftrightarrow> j < li * threads \<or> (pi \<le> j \<and> j < pi + lf * threads) \<or> pi + pf \<le> j"
    using mark_ready_result [OF p3] b2(2,3) by auto
  obtain s where s: "Scoreboard_init threads li pi lf pf misc zero = Inr s" "regScoreBoard s = b3"
      "currentSize s = ?n"
    using b1(1) b2(1) b3(1) by (simp add: Scoreboard_init_def Let_def)
  have ok: "sb_ok s" using s b3(2) by (simp add: sb_ok_def)
  have A: "\<forall>r < currentSize s. getReg alpha s r = Inr (always_ready alpha s r \<or> r < li * threads
         \<or> (pi \<le> r \<and> r < pi + lf * threads) \<or> pi + pf \<le> r)"
  proof (intro allI impI)
    fix r assume r: "r < currentSize s"
    then have "b3 ! r \<longleftrightarrow> r < li * threads \<or> (pi \<le> r \<and> r < pi + lf * threads) \<or> pi + pf \<le> r"
      using b3(3) s(3) by metis
    with r s b3(2) show "getReg alpha s r = Inr (always_ready alpha s r \<or> r < li * threads
         \<or> (pi \<le> r \<and> r < pi + lf * threads) \<or> pi + pf \<le> r)"
      by (cases "always_ready alpha s r") (simp_all add: getReg_def)
  qed
  have "\<exists>s1 s2. setReg s r = Inr s1 \<and> unsetReg alpha s r = Inr s2
          \<and> getReg alpha s1 q = (if q = r then Inr True else getReg alpha s q)
          \<and> getReg alpha s2 q = (if q = r then Inr (always_ready alpha s r) else getReg alpha s q)"
    if "r < currentSize s" "q < currentSize s" for r q
  proof -
    have len: "length (regScoreBoard s) = currentSize s" using ok by (simp add: sb_ok_def)
    let ?s1 = "s\<lparr>regScoreBoard := (regScoreBoard s)[r := True]\<rparr>"
      and ?s2 = "s\<lparr>regScoreBoard := (regScoreBoard s)[r := False]\<rparr>"
    have ar: "always_ready alpha ?s1 = always_ready alpha s" "always_ready alpha ?s2 = always_ready alpha s"
      by (simp_all add: always_ready_def fun_eq_iff)
    have "setReg s r = Inr ?s1" using that len by (simp add: setReg_def)
    moreover have "getReg alpha ?s1 q = (if q = r then Inr True else getReg alpha s q)"
      using that len by (auto simp: getReg_def ar)
    moreover have "\<exists>s2. unsetReg alpha s r = Inr s2
        \<and> getReg alpha s2 q = (if q = r then Inr (always_ready alpha s r) else getReg alpha s q)"
    proof (cases "always_ready alpha s r")
      case True
      then show ?thesis by (simp add: unsetReg_def getReg_def)
    next
      case False
      then have "unsetReg alpha s r = Inr ?s2" using that len by (simp add: unsetReg_def)
      moreover have "getReg alpha ?s2 q = (if q = r then Inr (always_ready alpha s r) else getReg alpha s q)"
        using that len False by (auto simp: getReg_def ar)
      ultimately show ?thesis by blast
    qed
    ultimately show ?thesis by blast
  qed
  then have "\<forall>r q. r < currentSize s \<and> q < currentSize s \<longrightarrow>
         (\<exists>s1 s2. setReg s r = Inr s1 \<and> unsetReg alpha s r = Inr s2
          \<and> getReg alpha s1 q = (if q = r then Inr True else getReg alpha s q)
          \<and> getReg alpha s2 q = (if q = r then Inr (always_ready alpha s r) else getReg alpha s q))"
    by (intro allI impI) (elim conjE)
  with s(1) ok A show ?thesis by (intro exI [of _ s] conjI)
qed

lemma scoreboard_ready_witness:
  "\<exists>s. Scoreboard_init 1 2 4 1 3 1 31 = Inr s \<and> getReg False s 3 = Inr False \<and> getReg False s 4 = Inr True"
proof -
  from scoreboard_ready [of 2 1 4 1 3 1 31 False] obtain s where
    s: "Scoreboard_init 1 2 4 1 3 1 31 = Inr s"
    "\<forall>r < currentSize s. getReg False s r = Inr (always_ready False s r \<or> r < 2
         \<or> (4 \<le> r \<and> r < 5) \<or> 7 \<le> r)" by auto
  have "currentSize s = 8" "zeroRegIdx s = 31"
    using s(1) by (auto simp: Scoreboard_init_def Let_def res_simps)
  with s show ?thesis by (auto simp: always_ready_def)
qed

end
