(* ===== verification/LRU_Tags.thy ===== *)
theory LRU_Tags
  imports Int_Math
begin

text \<open>
  The set-associative LRU tag store of the classic cache: cache blocks with their load locks
  (\<open>src/mem/cache/blk.hh\<close>), sets in recency order (\<open>src/mem/cache/tags/cacheset.cc\<close>) and the tag
  store (\<open>src/mem/cache/tags/lru.hh\<close>, \<open>lru.cc\<close>).  The blocks are one array, and pointers to
  blocks are indices into it; a set is the array of its block pointers, most recent first.
  \<open>curTick()\<close> and the number of masters of the system are arguments.
\<close>

section \<open>Cache blocks\<close>

record CacheBlk =
  asid :: int
  tag :: addr
  data_at :: nat        \<comment> \<open>the offset of \<open>data\<close> in the tag store's data array\<close>
  blk_size :: nat
  status :: u32
  whenReady :: int
  blk_set :: int
  isTouched :: bool
  refCount :: int
  srcMasterId :: nat
  lockList :: "int list"

definition BlkValid :: u32 where "BlkValid = 0x01"
definition BlkWritable :: u32 where "BlkWritable = 0x02"
definition BlkReadable :: u32 where "BlkReadable = 0x04"
definition BlkDirty :: u32 where "BlkDirty = 0x08"
definition BlkReferenced :: u32 where "BlkReferenced = 0x10"
definition BlkHWPrefetched :: u32 where "BlkHWPrefetched = 0x20"

text \<open>\<open>Request::invldMasterId\<close> is \<open>USHRT_MAX\<close>.\<close>

definition invldMasterId :: nat where "invldMasterId = 65535"

definition CacheBlk_init :: CacheBlk where
  "CacheBlk_init = \<lparr>asid = - 1, tag = 0, data_at = 0, blk_size = 0, status = 0, whenReady = 0,
     blk_set = - 1, isTouched = False, refCount = 0, srcMasterId = invldMasterId, lockList = []\<rparr>"

text \<open>The assignment operator copies neither \<open>isTouched\<close>, \<open>srcMasterId\<close> nor the locks.\<close>

definition blk_assign :: "CacheBlk \<Rightarrow> CacheBlk \<Rightarrow> CacheBlk" where
  "blk_assign lhs rhs = lhs\<lparr>asid := asid rhs, tag := tag rhs, data_at := data_at rhs,
     blk_size := blk_size rhs, status := status rhs, whenReady := whenReady rhs,
     blk_set := blk_set rhs, refCount := refCount rhs\<rparr>"

definition isWritable :: "CacheBlk \<Rightarrow> bool" where
  "isWritable b = (let needed = BlkWritable OR BlkValid in status b AND needed = needed)"

definition isReadable :: "CacheBlk \<Rightarrow> bool" where
  "isReadable b = (let needed = BlkReadable OR BlkValid in status b AND needed = needed)"

definition isValid :: "CacheBlk \<Rightarrow> bool" where
  "isValid b \<longleftrightarrow> status b AND BlkValid \<noteq> 0"

definition isDirty :: "CacheBlk \<Rightarrow> bool" where
  "isDirty b \<longleftrightarrow> status b AND BlkDirty \<noteq> 0"

definition isReferenced :: "CacheBlk \<Rightarrow> bool" where
  "isReferenced b \<longleftrightarrow> status b AND BlkReferenced \<noteq> 0"

definition wasPrefetched :: "CacheBlk \<Rightarrow> bool" where
  "wasPrefetched b \<longleftrightarrow> status b AND BlkHWPrefetched \<noteq> 0"

text \<open>The locks of load-locked/store-conditional; a packet is its \<open>isLLSC\<close> and context id.\<close>

definition trackLoadLocked :: "bool \<Rightarrow> int \<Rightarrow> CacheBlk \<Rightarrow> CacheBlk res" where
  "trackLoadLocked isLLSC ctx b = assert_that isLLSC (Inr (b\<lparr>lockList := ctx # lockList b\<rparr>))"

definition clearLoadLocks :: "CacheBlk \<Rightarrow> CacheBlk" where
  "clearLoadLocks b = b\<lparr>lockList := []\<rparr>"

text \<open>The result: may the write go ahead, and the request's extra data if it is set.\<close>

definition checkWrite :: "bool \<Rightarrow> int \<Rightarrow> CacheBlk \<Rightarrow> bool \<times> nat option \<times> CacheBlk" where
  "checkWrite isLLSC ctx b =
     (if isLLSC
      then let success = list_ex (\<lambda>c. c = ctx) (lockList b)
           in (success, Some (if success then 1 else 0), clearLoadLocks b)
      else (True, None, clearLoadLocks b))"

section \<open>A set\<close>

fun findBlk :: "CacheBlk list \<Rightarrow> nat list \<Rightarrow> addr \<Rightarrow> nat option" where
  "findBlk blks [] t = None"
| "findBlk blks (i # is) t =
     (if tag (blks ! i) = t \<and> isValid (blks ! i) then Some i else findBlk blks is t)"

text \<open>The loop of \<open>moveToHead\<close> on the rest of the array, writing \<open>next\<close> into its first cell.\<close>

fun shift_loop :: "nat \<Rightarrow> nat \<Rightarrow> nat list \<Rightarrow> nat list res" where
  "shift_loop blk next [] = Inl AssertFailed"
| "shift_loop blk next (tmp # rest) =
     (if tmp = blk then Inr (next # rest)
      else res_bind (shift_loop blk tmp rest) (\<lambda>xs. Inr (next # xs)))"

definition moveToHead :: "nat \<Rightarrow> nat list \<Rightarrow> nat list res" where
  "moveToHead blk xs =
     res_bind (vec_get xs 0) (\<lambda>b0. if b0 = blk then Inr xs else shift_loop blk blk xs)"

section \<open>The tag store\<close>

record LRU =
  numSets :: u32
  blkSize :: u32
  assoc :: u32
  hitLatency :: u32
  sets :: "nat list list"
  blks :: "CacheBlk list"
  dataBlks :: "u8 list"
  setShift :: nat
  tagShift :: nat
  setMask :: u32
  blkMask :: u32
  warmupBound :: int
  warmedUp :: bool
  numBlocks :: nat
  replacements :: nat
  tagsInUse :: int
  totalRefs :: int
  sampledRefs :: nat
  warmupCycle :: int
  occupancies :: "nat \<Rightarrow> int"

text \<open>
  The product \<open>numSets * assoc\<close> is taken at 32 bits, and when it wraps the loop runs past the blocks; so
  are the size of the data array and the offsets into it.
\<close>

definition LRU_init :: "u32 \<Rightarrow> u32 \<Rightarrow> u32 \<Rightarrow> u32 \<Rightarrow> LRU res" where
  "LRU_init nsets bsize ass lat =
     (if bsize < 4 \<or> \<not> isPowerOf2 bsize then Inl Fatal
      else if nsets = 0 \<or> \<not> isPowerOf2 nsets then Inl Fatal
      else if ass = 0 then Inl Fatal
      else if lat = 0 then Inl Fatal
      else res_bind (floorLog2_u32 bsize) (\<lambda>lb. res_bind (floorLog2_u32 nsets) (\<lambda>ls.
        let n = unat (nsets * ass)
        in if n < unat nsets * unat ass then Inl OutOfRange else Inr \<lparr>numSets = nsets, blkSize = bsize, assoc = ass, hitLatency = lat,
                sets = List.map (\<lambda>i. [i * unat ass ..< i * unat ass + unat ass]) [0 ..< unat nsets],
                blks = List.map (\<lambda>k. CacheBlk_init\<lparr>data_at := unat (bsize * of_nat k), status := 0,
                           tag := of_nat (k mod unat ass), whenReady := 0, isTouched := False,
                           blk_size := unat bsize, blk_set := int (k div unat ass)\<rparr>) [0 ..< n],
                dataBlks = replicate (unat (nsets * ass * bsize)) 0,
                setShift = lb, tagShift = lb + ls, setMask = nsets - 1, blkMask = bsize - 1,
                warmupBound = int n, warmedUp = False, numBlocks = n, replacements = 0,
                tagsInUse = 0, totalRefs = 0, sampledRefs = 0, warmupCycle = 0,
                occupancies = (\<lambda>_. 0)\<rparr>)))"

definition extractTag :: "LRU \<Rightarrow> addr \<Rightarrow> addr" where
  "extractTag l a = drop_bit (tagShift l) a"

definition extractSet :: "LRU \<Rightarrow> addr \<Rightarrow> nat" where
  "extractSet l a = unat (drop_bit (setShift l) a AND ucast (setMask l))"

definition extractBlkOffset :: "LRU \<Rightarrow> addr \<Rightarrow> nat" where
  "extractBlkOffset l a = unat (a AND ucast (blkMask l))"

definition blkAlign :: "LRU \<Rightarrow> addr \<Rightarrow> addr" where
  "blkAlign l a = a AND NOT (ucast (blkMask l))"

definition regenerateBlkAddr :: "LRU \<Rightarrow> addr \<Rightarrow> u32 \<Rightarrow> addr" where
  "regenerateBlkAddr l t st = push_bit (tagShift l) t OR push_bit (setShift l) (ucast st)"

definition set_blk :: "nat \<Rightarrow> CacheBlk \<Rightarrow> LRU \<Rightarrow> LRU" where
  "set_blk i b l = l\<lparr>blks := (blks l)[i := b]\<rparr>"

definition move_in_set :: "nat \<Rightarrow> nat \<Rightarrow> LRU \<Rightarrow> LRU res" where
  "move_in_set st i l =
     res_bind (vec_get (sets l) st) (\<lambda>s. res_bind (moveToHead i s) (\<lambda>s'.
       Inr (l\<lparr>sets := (sets l)[st := s']\<rparr>)))"

definition findBlock :: "LRU \<Rightarrow> addr \<Rightarrow> nat option res" where
  "findBlock l a = res_bind (vec_get (sets l) (extractSet l a)) (\<lambda>s. Inr (findBlk (blks l) s (extractTag l a)))"

text \<open>A value stored into a C \<open>int\<close>: the latency is computed at other widths.\<close>

definition c_int :: "int \<Rightarrow> int" where
  "c_int x = signed_take_bit 31 x"

definition accessBlock :: "int \<Rightarrow> LRU \<Rightarrow> addr \<Rightarrow> (nat option \<times> int \<times> LRU) res" where
  "accessBlock curTick l a =
     res_bind (findBlock l a) (\<lambda>r.
       case r of
         None \<Rightarrow> Inr (None, c_int (uint (hitLatency l)), l)
       | Some i \<Rightarrow>
           res_bind (move_in_set (extractSet l a) i l) (\<lambda>l1.
             let b = blks l1 ! i;
                 hl = uint (hitLatency l);
                 lat = c_int (if whenReady b > curTick \<and> whenReady b - curTick > hl
                              then whenReady b - curTick else hl)
             in Inr (Some i, lat, set_blk i (b\<lparr>refCount := refCount b + 1\<rparr>) l1)))"

definition findVictim :: "LRU \<Rightarrow> addr \<Rightarrow> nat res" where
  "findVictim l a = res_bind (vec_get (sets l) (extractSet l a)) (\<lambda>s. vec_get s (unat (assoc l - 1)))"

definition touch :: "int \<Rightarrow> nat \<Rightarrow> LRU \<Rightarrow> LRU" where
  "touch curTick i l =
     (if \<not> isTouched (blks l ! i)
      then let l1 = set_blk i ((blks l ! i)\<lparr>isTouched := True\<rparr>) (l\<lparr>tagsInUse := tagsInUse l + 1\<rparr>)
           in if \<not> warmedUp l1 \<and> tagsInUse l1 \<ge> warmupBound l1
              then l1\<lparr>warmedUp := True, warmupCycle := curTick\<rparr> else l1
      else l)"

definition add_occ :: "nat \<Rightarrow> int \<Rightarrow> LRU \<Rightarrow> LRU" where
  "add_occ m d l = l\<lparr>occupancies := (occupancies l)(m := occupancies l m + d)\<rparr>"

text \<open>
  \<open>insertBlock\<close> in the two halves of its body: the statistics of the valid block it replaces, and
  the new tag, master and position.
\<close>

definition retire_old :: "nat \<Rightarrow> nat \<Rightarrow> LRU \<Rightarrow> LRU res" where
  "retire_old maxMasters i l =
     (let b = blks l ! i
      in if isValid b
         then assert_that (srcMasterId b < maxMasters)
                (Inr (add_occ (srcMasterId b) (- 1)
                   (set_blk i (b\<lparr>refCount := 0\<rparr>)
                      (l\<lparr>replacements := replacements l + 1, totalRefs := totalRefs l + refCount b,
                         sampledRefs := sampledRefs l + 1\<rparr>))))
         else Inr l)"

definition install_new :: "nat \<Rightarrow> nat \<Rightarrow> LRU \<Rightarrow> addr \<Rightarrow> nat \<Rightarrow> LRU res" where
  "install_new maxMasters i l a master_id =
     (let l3 = set_blk i ((blks l ! i)\<lparr>tag := extractTag l a\<rparr>) l
      in assert_that (master_id < maxMasters)
           (let l4 = add_occ master_id 1 l3;
                l5 = set_blk i ((blks l4 ! i)\<lparr>srcMasterId := master_id\<rparr>) l4
            in move_in_set (extractSet l5 a) i l5))"

definition insertBlock :: "int \<Rightarrow> nat \<Rightarrow> LRU \<Rightarrow> addr \<Rightarrow> nat \<Rightarrow> nat \<Rightarrow> LRU res" where
  "insertBlock curTick maxMasters l a i master_id =
     (if \<not> i < length (blks l) then Inl OutOfRange
      else res_bind (retire_old maxMasters i (touch curTick i l))
             (\<lambda>l2. install_new maxMasters i l2 a master_id))"

text \<open>The block pointer may be null.\<close>

definition invalidateBlk :: "nat \<Rightarrow> LRU \<Rightarrow> nat option \<Rightarrow> LRU res" where
  "invalidateBlk maxMasters l p =
     (case p of
        None \<Rightarrow> Inr l
      | Some i \<Rightarrow>
          if \<not> i < length (blks l) then Inl OutOfRange
          else let b = blks l ! i
          in res_bind
               (if isValid b
                then assert_that (srcMasterId b < maxMasters)
                       (Inr (set_blk i (b\<lparr>srcMasterId := invldMasterId\<rparr>)
                          (add_occ (srcMasterId b) (- 1) (l\<lparr>tagsInUse := tagsInUse l - 1\<rparr>))))
                else Inr l) (\<lambda>l1.
             Inr (set_blk i (clearLoadLocks ((blks l1 ! i)\<lparr>status := 0, isTouched := False\<rparr>)) l1)))"

definition clearLocks :: "LRU \<Rightarrow> LRU" where
  "clearLocks l = l\<lparr>blks := List.map clearLoadLocks (blks l)\<rparr>"

definition cleanupRefs :: "LRU \<Rightarrow> LRU" where
  "cleanupRefs l =
     (let vs = filter isValid (blks l)
      in l\<lparr>totalRefs := totalRefs l + sum_list (List.map refCount vs),
           sampledRefs := sampledRefs l + length vs\<rparr>)"

end
