(* ===== verification/LRU_Tags_Laws.thy ===== *)
theory LRU_Tags_Laws
  imports LRU_Tags
begin

text \<open>
  The tag store of \<open>LRU_Tags\<close>: the recency order of a set as a list operation (\<open>to_front\<close>), the
  invariant of a store (\<open>lru_inv\<close>: the shape of the sets, no tag twice in a set; \<open>lru_stats\<close>: the
  counters), each operation's result under it, the reachable stores (\<open>lru_reach\<close>), and the
  properties that rest on them.
\<close>

section \<open>Sets in recency order\<close>

lemma shift_loop_front:
  "b \<in> set xs \<Longrightarrow> distinct xs \<Longrightarrow> shift_loop b n xs = Inr (n # remove1 b xs)"
proof (induction xs arbitrary: n)
  case (Cons x xs)
  then show ?case by (cases "x = b") auto
qed simp

lemma moveToHead_eq:
  assumes "b \<in> set xs" and "distinct xs"
  shows "moveToHead b xs = Inr (b # remove1 b xs)"
proof -
  obtain y ys where xs: "xs = y # ys" using assms(1) by (cases xs) auto
  show ?thesis
  proof (cases "y = b")
    case True
    then show ?thesis by (simp add: moveToHead_def xs)
  next
    case False
    then have "moveToHead b xs = shift_loop b b xs" by (simp add: moveToHead_def xs)
    then show ?thesis using shift_loop_front [OF assms] by simp
  qed
qed

lemma moveToHead_missing:
  assumes "b \<notin> set xs"
  shows "moveToHead b xs = Inl (if xs = [] then OutOfRange else AssertFailed)"
proof -
  have "shift_loop b n ys = Inl AssertFailed" if "b \<notin> set ys" for n ys
    using that by (induction ys arbitrary: n) auto
  then show ?thesis using assms by (cases xs) (auto simp: moveToHead_def vec_get_def)
qed

definition to_front :: "nat \<Rightarrow> nat list \<Rightarrow> nat list" where
  "to_front b xs = b # remove1 b xs"

lemma set_to_front [simp]: "b \<in> set xs \<Longrightarrow> set (to_front b xs) = set xs"
proof -
  have "insert b (set (remove1 b xs)) = insert b (set xs)" by (induction xs) auto
  then show "b \<in> set xs \<Longrightarrow> ?thesis" by (auto simp: to_front_def)
qed

lemma length_to_front [simp]: "b \<in> set xs \<Longrightarrow> length (to_front b xs) = length xs"
  using length_pos_if_in_set [of b xs] by (simp add: to_front_def length_remove1)

lemma distinct_to_front [simp]: "distinct xs \<Longrightarrow> distinct (to_front b xs)"
  by (simp add: to_front_def)

lemma fold_to_front:
  assumes "distinct xs" and "set bs \<subseteq> set xs"
  shows "fold to_front bs xs = rev (remdups bs) @ filter (\<lambda>x. x \<notin> set bs) xs"
  using assms(2)
proof (induction bs rule: rev_induct)
  case (snoc b bs)
  have IH: "fold to_front bs xs = rev (remdups bs) @ filter (\<lambda>x. x \<notin> set bs) xs" using snoc by simp
  have r: "remdups (bs @ [b]) = filter (\<lambda>x. x \<noteq> b) (remdups bs) @ [b]"
    by (induction bs) auto
  have rem: "remove1 b ys = filter (\<lambda>x. x \<noteq> b) ys" if "distinct ys" for ys
    using that by (simp add: distinct_remove1_removeAll removeAll_filter_not_eq neq_commute)
  have d: "distinct (rev (remdups bs) @ filter (\<lambda>x. x \<notin> set bs) xs)" using assms(1) by auto
  have "fold to_front (bs @ [b]) xs
      = b # filter (\<lambda>x. x \<noteq> b) (rev (remdups bs) @ filter (\<lambda>x. x \<notin> set bs) xs)"
    by (simp add: IH to_front_def rem [OF d])
  also have "\<dots> = rev (remdups (bs @ [b])) @ filter (\<lambda>x. x \<notin> set (bs @ [b])) xs"
    by (simp add: r rev_filter) (rule filter_cong, auto)
  finally show ?case .
qed simp

section \<open>The invariant of the tag store\<close>

definition lru_geom :: "LRU \<Rightarrow> bool" where
  "lru_geom l \<longleftrightarrow> numSets l \<noteq> 0 \<and> setMask l = numSets l - 1 \<and> assoc l \<noteq> 0
     \<and> length (sets l) = unat (numSets l)"

definition lru_shape :: "LRU \<Rightarrow> bool" where
  "lru_shape l \<longleftrightarrow> (\<forall>s < length (sets l). length (sets l ! s) = unat (assoc l) \<and> distinct (sets l ! s)
       \<and> (\<forall>i \<in> set (sets l ! s). i < length (blks l)))
     \<and> (\<forall>s < length (sets l). \<forall>s' < length (sets l). s \<noteq> s' \<longrightarrow>
          set (sets l ! s) \<inter> set (sets l ! s') = {})"

definition lru_unique :: "LRU \<Rightarrow> bool" where
  "lru_unique l \<longleftrightarrow> (\<forall>s < length (sets l). \<forall>i \<in> set (sets l ! s). \<forall>j \<in> set (sets l ! s).
     isValid (blks l ! i) \<and> isValid (blks l ! j) \<and> tag (blks l ! i) = tag (blks l ! j) \<longrightarrow> i = j)"

definition lru_inv :: "LRU \<Rightarrow> bool" where
  "lru_inv l \<longleftrightarrow> lru_geom l \<and> lru_shape l \<and> lru_unique l"

lemma extractSet_less:
  assumes "lru_geom l"
  shows "extractSet l a < length (sets l)"
proof -
  have "unat (drop_bit (setShift l) a AND ucast (setMask l)) \<le> unat (ucast (setMask l) :: addr)"
    by (simp add: word_and_le1 word_le_nat_alt [symmetric])
  also have "\<dots> \<le> unat (setMask l)" by (simp add: unsigned_ucast_eq)
  also have "\<dots> < unat (numSets l)" using assms by (simp add: lru_geom_def unat_minus_one unat_gt_0)
  finally show ?thesis using assms by (simp add: extractSet_def lru_geom_def)
qed

text \<open>The lookup within a set, as a property of the block found.\<close>

definition holds :: "LRU \<Rightarrow> addr \<Rightarrow> nat \<Rightarrow> bool" where
  "holds l a i \<longleftrightarrow> i \<in> set (sets l ! extractSet l a) \<and> isValid (blks l ! i)
     \<and> tag (blks l ! i) = extractTag l a"

lemma findBlk_SomeD: "findBlk bs xs t = Some i \<Longrightarrow> i \<in> set xs \<and> isValid (bs ! i) \<and> tag (bs ! i) = t"
  by (induction xs) (auto split: if_splits)

lemma findBlk_NoneD: "findBlk bs xs t = None \<Longrightarrow> i \<in> set xs \<Longrightarrow> \<not> (isValid (bs ! i) \<and> tag (bs ! i) = t)"
  by (induction xs) (auto split: if_splits)

lemma findBlock_iff:
  assumes "lru_inv l"
  shows "findBlock l a = Inr (Some i) \<longleftrightarrow> holds l a i"
    and "findBlock l a = Inr None \<longleftrightarrow> (\<forall>i. \<not> holds l a i)"
    and "\<exists>r. findBlock l a = Inr r"
proof -
  have g: "extractSet l a < length (sets l)" using assms by (simp add: lru_inv_def extractSet_less)
  have u: "j = i" if "holds l a i" "holds l a j" for i j
    using assms that g unfolding lru_inv_def lru_unique_def holds_def by metis
  have f: "findBlock l a = Inr (findBlk (blks l) (sets l ! extractSet l a) (extractTag l a))"
    using g by (simp add: findBlock_def)
  show "\<exists>r. findBlock l a = Inr r" using f by blast
  show some: "findBlock l a = Inr (Some i) \<longleftrightarrow> holds l a i" for i
  proof
    assume "findBlock l a = Inr (Some i)"
    then have "findBlk (blks l) (sets l ! extractSet l a) (extractTag l a) = Some i" using f by simp
    from findBlk_SomeD [OF this] show "holds l a i" by (simp add: holds_def)
  next
    assume h: "holds l a i"
    show "findBlock l a = Inr (Some i)"
    proof (cases "findBlk (blks l) (sets l ! extractSet l a) (extractTag l a)")
      case None
      from findBlk_NoneD [OF this] h show ?thesis by (auto simp: holds_def)
    next
      case (Some j)
      from findBlk_SomeD [OF this] have "holds l a j" by (simp add: holds_def)
      with u [OF h] Some f show ?thesis by simp
    qed
  qed
  show "findBlock l a = Inr None \<longleftrightarrow> (\<forall>i. \<not> holds l a i)"
    using some f by (metis Inr_inject option.exhaust option.distinct(1))
qed

lemma findBlock_cong:
  assumes "lru_inv l" and "lru_inv l'" and "\<And>i. holds l' a i = holds l a i"
  shows "findBlock l' a = findBlock l a"
proof (cases "\<exists>i. holds l a i")
  case True
  then obtain i where "holds l a i" ..
  with assms show ?thesis using findBlock_iff(1) by metis
next
  case False
  with assms show ?thesis using findBlock_iff(2) by metis
qed

lemma lru_shapeD:
  assumes "lru_inv l" and "s < length (sets l)"
  shows "length (sets l ! s) = unat (assoc l)" "distinct (sets l ! s)"
    "i \<in> set (sets l ! s) \<Longrightarrow> i < length (blks l)"
    "i \<in> set (sets l ! s) \<Longrightarrow> s' < length (sets l) \<Longrightarrow> i \<in> set (sets l ! s') \<Longrightarrow> s' = s"
proof -
  have "lru_shape l" using assms(1) by (simp add: lru_inv_def)
  then show "length (sets l ! s) = unat (assoc l)" "distinct (sets l ! s)"
    "i \<in> set (sets l ! s) \<Longrightarrow> i < length (blks l)"
    "i \<in> set (sets l ! s) \<Longrightarrow> s' < length (sets l) \<Longrightarrow> i \<in> set (sets l ! s') \<Longrightarrow> s' = s"
    unfolding lru_shape_def using assms(2) by blast+
qed

text \<open>Moving a block within its set, and any update that leaves sets, tags and validity alone.\<close>

lemma lru_inv_reorder:
  assumes "lru_inv l" and "length ss = length (sets l)"
    and "\<And>s. s < length (sets l) \<Longrightarrow> set (ss ! s) = set (sets l ! s) \<and> distinct (ss ! s)
           \<and> length (ss ! s) = length (sets l ! s)"
    and "length bs = length (blks l)"
    and "\<And>i. i < length (blks l) \<Longrightarrow> isValid (bs ! i) = isValid (blks l ! i) \<and> tag (bs ! i) = tag (blks l ! i)"
    and l': "sets l' = ss" "blks l' = bs" "numSets l' = numSets l" "setMask l' = setMask l" "assoc l' = assoc l"
      "setShift l' = setShift l" "tagShift l' = tagShift l"
  shows "lru_inv l'" and "holds l' a i = holds l a i"
proof -
  have g: "lru_geom l'" using assms(1,2) l' by (simp add: lru_inv_def lru_geom_def)
  have shape: "lru_shape l'"
    using assms(1) unfolding lru_inv_def lru_shape_def l' assms(2,4) by (simp add: assms(3))
  have idx: "i < length (blks l)" if "s < length (sets l)" "i \<in> set (sets l ! s)" for s i
    using lru_shapeD(3) [OF assms(1) that(1,2)] .
  have "lru_unique l'"
    using assms(1) unfolding lru_inv_def lru_unique_def l' assms(2)
    using assms(3,5) idx by metis
  with g shape show "lru_inv l'" by (simp add: lru_inv_def)
  have e: "extractSet l' a = extractSet l a" "extractTag l' a = extractTag l a"
    by (simp_all add: extractSet_def extractTag_def l')
  have "extractSet l a < length (sets l)" using assms(1) by (simp add: lru_inv_def extractSet_less)
  then show "holds l' a i = holds l a i"
    unfolding holds_def e l' using assms(3) assms(5) idx by metis
qed

lemma move_in_set_eq:
  assumes "lru_inv l" and "s < length (sets l)" and "i \<in> set (sets l ! s)"
  shows "move_in_set s i l = Inr (l\<lparr>sets := (sets l)[s := to_front i (sets l ! s)]\<rparr>)"
  using moveToHead_eq [OF assms(3) lru_shapeD(2) [OF assms(1,2)]] assms(2)
  by (simp add: move_in_set_def to_front_def)


section \<open>Access\<close>

lemma accessBlock_hit:
  assumes inv: "lru_inv l" and h: "holds l a i"
  shows "\<exists>l'. accessBlock t l a = Inr (Some i, c_int (max (uint (hitLatency l)) (whenReady (blks l ! i) - t)), l')
    \<and> lru_inv l'
    \<and> sets l' = (sets l)[extractSet l a := to_front i (sets l ! extractSet l a)]
    \<and> blks l' = (blks l)[i := (blks l ! i)\<lparr>refCount := refCount (blks l ! i) + 1\<rparr>]
    \<and> extractSet l' = extractSet l \<and> extractTag l' = extractTag l \<and> assoc l' = assoc l
    \<and> (\<forall>b j. holds l' b j = holds l b j)"
proof -
  let ?s = "extractSet l a"
  have s: "?s < length (sets l)" using inv by (simp add: lru_inv_def extractSet_less)
  have i: "i \<in> set (sets l ! ?s)" using h by (simp add: holds_def)
  have ib: "i < length (blks l)" using lru_shapeD(3) [OF inv s i] .
  let ?l1 = "l\<lparr>sets := (sets l)[?s := to_front i (sets l ! ?s)]\<rparr>"
  let ?b = "blks l ! i" and ?hl = "uint (hitLatency l)"
  let ?lat = "c_int (max ?hl (whenReady ?b - t))"
  let ?l' = "set_blk i (?b\<lparr>refCount := refCount ?b + 1\<rparr>) ?l1"
  have f: "findBlock l a = Inr (Some i)" using findBlock_iff(1) [OF inv] h by blast
  have e: "accessBlock t l a = Inr (Some i, ?lat, ?l')"
  proof -
    have "(if whenReady ?b > t \<and> whenReady ?b - t > ?hl then whenReady ?b - t else ?hl) = max ?hl (whenReady ?b - t)"
    proof (cases "t < whenReady ?b")
      case False
      then have "whenReady ?b - t \<le> ?hl" using uint_ge_0 [of "hitLatency l"] by linarith
      with False show ?thesis by (simp add: max_def)
    qed (simp add: max_def)
    then show ?thesis using move_in_set_eq [OF inv s i] by (simp add: accessBlock_def f Let_def cong: if_cong split del: if_split)
  qed
  have pres: "lru_inv ?l'" "holds ?l' b j = holds l b j" for b j
  proof -
    have 1: "set ((sets l)[?s := to_front i (sets l ! ?s)] ! s') = set (sets l ! s')
        \<and> distinct ((sets l)[?s := to_front i (sets l ! ?s)] ! s')
        \<and> length ((sets l)[?s := to_front i (sets l ! ?s)] ! s') = length (sets l ! s')"
      if "s' < length (sets l)" for s'
      using that i lru_shapeD(2) [OF inv that] by (cases "s' = ?s") simp_all
    have 2: "isValid ((blks l)[i := ?b\<lparr>refCount := refCount ?b + 1\<rparr>] ! j) = isValid (blks l ! j)
        \<and> tag ((blks l)[i := ?b\<lparr>refCount := refCount ?b + 1\<rparr>] ! j) = tag (blks l ! j)"
      if "j < length (blks l)" for j
      using that by (cases "j = i") (simp_all add: isValid_def)
    note R = lru_inv_reorder [OF inv _ 1 _ 2, where l' = ?l']
    show "lru_inv ?l'" by (rule R(1)) (simp_all add: set_blk_def)
    show "holds ?l' b j = holds l b j" by (rule R(2)) (simp_all add: set_blk_def)
  qed
  have ex: "extractSet ?l' = extractSet l" "extractTag ?l' = extractTag l"
    by (simp_all add: extractSet_def extractTag_def fun_eq_iff set_blk_def)
  show ?thesis
    by (intro exI [of _ ?l'] conjI e pres(1) ex allI pres(2))
      (simp_all add: set_blk_def)
qed

lemma accessBlock_miss:
  assumes "findBlock l a = Inr None"
  shows "accessBlock t l a = Inr (None, c_int (uint (hitLatency l)), l)"
  by (simp add: accessBlock_def assms)

text \<open>A run of accesses.\<close>

fun access_all :: "int \<Rightarrow> LRU \<Rightarrow> addr list \<Rightarrow> LRU res" where
  "access_all t l [] = Inr l"
| "access_all t l (a # as) = res_bind (accessBlock t l a) (\<lambda>(_, _, l'). access_all t l' as)"

lemma access_all_hits:
  assumes "lru_inv l" and "list_all2 (\<lambda>a i. extractSet l a = s \<and> holds l a i) as bs" and "s < length (sets l)"
  shows "\<exists>l'. access_all t l as = Inr l' \<and> lru_inv l' \<and> sets l' ! s = fold to_front bs (sets l ! s)
    \<and> length (sets l') = length (sets l) \<and> extractSet l' = extractSet l \<and> assoc l' = assoc l"
  using assms
proof (induction as arbitrary: l bs)
  case (Cons a as)
  then obtain i bs' where bs: "bs = i # bs'" "extractSet l a = s" "holds l a i"
    "list_all2 (\<lambda>a i. extractSet l a = s \<and> holds l a i) as bs'" by (auto simp: list_all2_Cons1)
  from accessBlock_hit [OF Cons.prems(1) bs(3), of t] obtain l1 where
    l1: "\<exists>lat. accessBlock t l a = Inr (Some i, lat, l1)" "lru_inv l1"
      "sets l1 = (sets l)[s := to_front i (sets l ! s)]" "extractSet l1 = extractSet l"
      "assoc l1 = assoc l" "\<forall>b j. holds l1 b j = holds l b j"
    unfolding bs(2) by blast
  have "list_all2 (\<lambda>a i. extractSet l1 a = s \<and> holds l1 a i) as bs'" using bs(4) l1(4,6) by simp
  from Cons.IH [OF l1(2) this] Cons.prems(3) l1(3) obtain l' where
    "access_all t l1 as = Inr l'" "lru_inv l'" "sets l' ! s = fold to_front bs' (sets l1 ! s)"
    "length (sets l') = length (sets l1)" "extractSet l' = extractSet l1" "assoc l' = assoc l1" by auto
  then show ?case using l1 Cons.prems(3) by (auto simp: bs(1))
qed simp

section \<open>Insertion\<close>

lemma touch_same [simp]:
  "sets (touch t i l) = sets l" "numSets (touch t i l) = numSets l" "setMask (touch t i l) = setMask l"
  "assoc (touch t i l) = assoc l" "setShift (touch t i l) = setShift l" "tagShift (touch t i l) = tagShift l"
  "occupancies (touch t i l) = occupancies l" "replacements (touch t i l) = replacements l"
  by (simp_all add: touch_def Let_def set_blk_def)

lemma touch_blks: "blks (touch t i l) = (blks l)[i := (blks l ! i)\<lparr>isTouched := True\<rparr>]"
proof -
  have b: "b\<lparr>isTouched := True\<rparr> = b" if "isTouched b" for b :: CacheBlk
    using that by (cases b) simp
  show ?thesis by (simp add: touch_def Let_def set_blk_def b)
qed

text \<open>
  The block as \<open>insertBlock\<close> leaves it; its status is still that of the evicted block, and the
  caller sets it.
\<close>

definition inserted :: "nat \<Rightarrow> addr \<Rightarrow> CacheBlk \<Rightarrow> CacheBlk" where
  "inserted m tg b = b\<lparr>isTouched := True, refCount := (if isValid b then 0 else refCount b), tag := tg,
     srcMasterId := m\<rparr>"

definition same_shape :: "LRU \<Rightarrow> LRU \<Rightarrow> bool" where
  "same_shape l l' \<longleftrightarrow> sets l' = sets l \<and> numSets l' = numSets l \<and> setMask l' = setMask l
     \<and> assoc l' = assoc l \<and> setShift l' = setShift l \<and> tagShift l' = tagShift l"

lemma retire_old_eq:
  assumes "isValid (blks l ! i) \<longrightarrow> srcMasterId (blks l ! i) < maxMasters"
  shows "\<exists>l'. retire_old maxMasters i l = Inr l' \<and> same_shape l l'
    \<and> blks l' = (blks l)[i := (blks l ! i)\<lparr>refCount := (if isValid (blks l ! i) then 0 else refCount (blks l ! i))\<rparr>]"
proof (cases "isValid (blks l ! i)")
  case True
  then show ?thesis using assms
    by (simp add: retire_old_def Let_def same_shape_def add_occ_def set_blk_def)
next
  case False
  have b: "b\<lparr>refCount := refCount b\<rparr> = b" for b :: CacheBlk by (cases b) simp
  from False show ?thesis by (simp add: retire_old_def Let_def same_shape_def b)
qed

lemma install_new_eq:
  assumes i: "i \<in> set (sets l ! extractSet l a)" "i < length (blks l)"
    and s: "extractSet l a < length (sets l)" "distinct (sets l ! extractSet l a)" and m: "m < maxMasters"
  shows "\<exists>l'. install_new maxMasters i l a m = Inr l' \<and> same_shape (l\<lparr>sets := sets l'\<rparr>) l'
    \<and> sets l' = (sets l)[extractSet l a := to_front i (sets l ! extractSet l a)]
    \<and> blks l' = (blks l)[i := (blks l ! i)\<lparr>tag := extractTag l a, srcMasterId := m\<rparr>]"
proof -
  define l5 where "l5 = (add_occ m 1 l)\<lparr>blks := (blks l)[i := (blks l ! i)\<lparr>tag := extractTag l a, srcMasterId := m\<rparr>]\<rparr>"
  have l5: "sets l5 = sets l" "same_shape l l5"
    "blks l5 = (blks l)[i := (blks l ! i)\<lparr>tag := extractTag l a, srcMasterId := m\<rparr>]"
    by (simp_all add: l5_def add_occ_def same_shape_def)
  have es: "extractSet l5 a = extractSet l a" using l5(2) by (simp add: extractSet_def same_shape_def)
  have "install_new maxMasters i l a m = move_in_set (extractSet l5 a) i l5"
    using i(2) m by (simp add: install_new_def Let_def l5_def add_occ_def set_blk_def)
  moreover have "move_in_set (extractSet l a) i l5
      = Inr (l5\<lparr>sets := (sets l)[extractSet l a := to_front i (sets l ! extractSet l a)]\<rparr>)"
    using moveToHead_eq [OF i(1) s(2)] s(1) by (simp add: move_in_set_def to_front_def l5)
  ultimately show ?thesis using l5 by (simp add: es same_shape_def)
qed

lemma insertBlock_eq:
  assumes inv: "lru_inv l" and i: "i \<in> set (sets l ! extractSet l a)"
    and m: "m < maxMasters" and old: "isValid (blks l ! i) \<longrightarrow> srcMasterId (blks l ! i) < maxMasters"
  shows "\<exists>l'. insertBlock t maxMasters l a i m = Inr l' \<and> same_shape (l\<lparr>sets := sets l'\<rparr>) l'
    \<and> sets l' = (sets l)[extractSet l a := to_front i (sets l ! extractSet l a)]
    \<and> blks l' = (blks l)[i := inserted m (extractTag l a) (blks l ! i)]"
proof -
  let ?s = "extractSet l a" and ?b = "blks l ! i"
  have s: "?s < length (sets l)" using inv by (simp add: lru_inv_def extractSet_less)
  have ib: "i < length (blks l)" using lru_shapeD(3) [OF inv s i] .
  define l1 where "l1 = touch t i l"
  have b1: "blks l1 ! i = ?b\<lparr>isTouched := True\<rparr>" "isValid (?b\<lparr>isTouched := True\<rparr>) = isValid ?b"
    and l1: "same_shape l l1" "blks l1 = (blks l)[i := ?b\<lparr>isTouched := True\<rparr>]"
    using ib by (simp_all add: l1_def touch_blks isValid_def same_shape_def)
  have "\<exists>l2. retire_old maxMasters i l1 = Inr l2 \<and> same_shape l1 l2
      \<and> blks l2 = (blks l1)[i := ?b\<lparr>isTouched := True, refCount := (if isValid ?b then 0 else refCount ?b)\<rparr>]"
    using retire_old_eq [of l1 i maxMasters] old by (simp add: b1 cong: if_cong split del: if_split)
  then obtain l2 where
    l2: "retire_old maxMasters i l1 = Inr l2" "same_shape l1 l2"
      "blks l2 = (blks l)[i := ?b\<lparr>isTouched := True, refCount := (if isValid ?b then 0 else refCount ?b)\<rparr>]"
    unfolding l1(2) list_update_overwrite by blast
  have sh: "same_shape l l2" using l1(1) l2(2) by (simp add: same_shape_def)
  then have e: "extractSet l2 a = ?s" "extractTag l2 a = extractTag l a" "sets l2 = sets l"
    by (simp_all add: extractSet_def extractTag_def same_shape_def)
  have "i < length (blks l2)" using ib l2(3) by simp
  from install_new_eq [of i l2 a m maxMasters, unfolded e, OF i this s lru_shapeD(2) [OF inv s] m] obtain l' where
    l': "install_new maxMasters i l2 a m = Inr l'" "same_shape (l2\<lparr>sets := sets l'\<rparr>) l'"
      "sets l' = (sets l)[?s := to_front i (sets l ! ?s)]"
      "blks l' = (blks l2)[i := (blks l2 ! i)\<lparr>tag := extractTag l a, srcMasterId := m\<rparr>]"
    by blast
  have "insertBlock t maxMasters l a i m = Inr l'"
    using ib by (simp add: insertBlock_def l1_def [symmetric] l2(1) l'(1))
  moreover have "same_shape (l\<lparr>sets := sets l'\<rparr>) l'" using l'(2) sh by (simp add: same_shape_def)
  moreover have "blks l' = (blks l)[i := inserted m (extractTag l a) ?b]"
    using ib by (simp add: l'(4) l2(3) inserted_def)
  ultimately show ?thesis using l'(3) by blast
qed


section \<open>Insertion, then lookup\<close>

text \<open>
  What the caller of \<open>insertBlock\<close> does next: it sets the status of the block.
\<close>

definition fill :: "int \<Rightarrow> nat \<Rightarrow> LRU \<Rightarrow> addr \<Rightarrow> nat \<Rightarrow> u32 \<Rightarrow> LRU res" where
  "fill t maxMasters l a m st =
     res_bind (findVictim l a) (\<lambda>i. res_bind (insertBlock t maxMasters l a i m) (\<lambda>l'.
       Inr (set_blk i ((blks l' ! i)\<lparr>status := st\<rparr>) l')))"

lemma findVictim_eq:
  assumes inv: "lru_inv l"
  shows "findVictim l a = Inr (last (sets l ! extractSet l a))"
    and "last (sets l ! extractSet l a) \<in> set (sets l ! extractSet l a)"
proof -
  let ?xs = "sets l ! extractSet l a"
  have g: "lru_geom l" and s: "extractSet l a < length (sets l)"
    using inv by (simp_all add: lru_inv_def extractSet_less)
  have len: "length ?xs = unat (assoc l)" using lru_shapeD(1) [OF inv s] .
  have pos: "unat (assoc l - 1) = unat (assoc l) - 1" "0 < unat (assoc l)"
    using g by (simp_all add: lru_geom_def unat_minus_one unat_gt_0)
  then have ne: "?xs \<noteq> []" using len by auto
  then show "last ?xs \<in> set ?xs" by simp
  show "findVictim l a = Inr (last ?xs)"
    using s pos len ne by (simp add: findVictim_def last_conv_nth)
qed

lemma fill_eq:
  assumes inv: "lru_inv l" and m: "m < maxMasters"
    and masters: "\<forall>i < length (blks l). isValid (blks l ! i) \<longrightarrow> srcMasterId (blks l ! i) < maxMasters"
    and v: "v = last (sets l ! extractSet l a)"
  shows "\<exists>l'. fill t maxMasters l a m st = Inr l' \<and> same_shape (l\<lparr>sets := sets l'\<rparr>) l'
    \<and> sets l' = (sets l)[extractSet l a := to_front v (sets l ! extractSet l a)]
    \<and> blks l' = (blks l)[v := (inserted m (extractTag l a) (blks l ! v))\<lparr>status := st\<rparr>]"
proof -
  have s: "extractSet l a < length (sets l)" using inv by (simp add: lru_inv_def extractSet_less)
  have vi: "v \<in> set (sets l ! extractSet l a)" using findVictim_eq(2) [OF inv] v by simp
  have vb: "v < length (blks l)" using lru_shapeD(3) [OF inv s vi] .
  have "isValid (blks l ! v) \<longrightarrow> srcMasterId (blks l ! v) < maxMasters" using masters vb by blast
  from insertBlock_eq [OF inv vi m this, of t] obtain l1 where
    l1: "insertBlock t maxMasters l a v m = Inr l1" "same_shape (l\<lparr>sets := sets l1\<rparr>) l1"
      "sets l1 = (sets l)[extractSet l a := to_front v (sets l ! extractSet l a)]"
      "blks l1 = (blks l)[v := inserted m (extractTag l a) (blks l ! v)]" by blast
  have "fill t maxMasters l a m st = Inr (set_blk v ((blks l1 ! v)\<lparr>status := st\<rparr>) l1)"
    by (simp add: fill_def findVictim_eq(1) [OF inv] v [symmetric] l1(1))
  then show ?thesis using l1(2-4) vb by (simp add: set_blk_def same_shape_def)
qed

lemma fill_lookup:
  assumes inv: "lru_inv l" and m: "m < maxMasters"
    and masters: "\<forall>i < length (blks l). isValid (blks l ! i) \<longrightarrow> srcMasterId (blks l ! i) < maxMasters"
    and st: "st AND BlkValid \<noteq> 0" and miss: "findBlock l a = Inr None"
    and v: "v = last (sets l ! extractSet l a)"
  shows "\<exists>l'. fill t maxMasters l a m st = Inr l' \<and> lru_inv l' \<and> findBlock l' a = Inr (Some v)
    \<and> sets l' ! extractSet l a = v # butlast (sets l ! extractSet l a)
    \<and> (\<forall>b. findBlock l b \<noteq> Inr (Some v) \<longrightarrow> extractTag l b \<noteq> extractTag l a \<or> extractSet l b \<noteq> extractSet l a
         \<longrightarrow> findBlock l' b = findBlock l b)
    \<and> (\<forall>b. findBlock l b = Inr (Some v) \<longrightarrow> findBlock l' b = Inr None)"
proof -
  let ?s = "extractSet l a"
  have s: "?s < length (sets l)" using inv by (simp add: lru_inv_def extractSet_less)
  have vi: "v \<in> set (sets l ! ?s)" using findVictim_eq(2) [OF inv] v by simp
  have vb: "v < length (blks l)" using lru_shapeD(3) [OF inv s vi] .
  have dist: "distinct (sets l ! ?s)" using lru_shapeD(2) [OF inv s] .
  from fill_eq [OF inv m masters v, of t st] obtain l' where
    l': "fill t maxMasters l a m st = Inr l'" "same_shape (l\<lparr>sets := sets l'\<rparr>) l'"
      "sets l' = (sets l)[?s := to_front v (sets l ! ?s)]"
      "blks l' = (blks l)[v := (inserted m (extractTag l a) (blks l ! v))\<lparr>status := st\<rparr>]" by blast
  have ext: "extractSet l' = extractSet l" "extractTag l' = extractTag l"
    using l'(2) by (simp_all add: extractSet_def extractTag_def same_shape_def fun_eq_iff)
  have set_eq: "set (sets l' ! k) = set (sets l ! k)" "length (sets l' ! k) = length (sets l ! k)"
    "distinct (sets l' ! k) = distinct (sets l ! k)" for k
    using vi dist s by (cases "k = ?s", simp_all add: l'(3))+
  have bv: "isValid (blks l' ! v)" "tag (blks l' ! v) = extractTag l a"
    using vb st by (simp_all add: l'(4) inserted_def isValid_def)
  have bo: "blks l' ! k = blks l ! k" if "k \<noteq> v" for k using that by (simp add: l'(4))
  have only: "k = ?s" if "k < length (sets l)" "v \<in> set (sets l ! k)" for k
    using lru_shapeD(4) [OF inv s vi that] .
  have nomiss: "\<not> holds l a i" for i using miss findBlock_iff(2) [OF inv] by blast
  have hold_iff: "holds l' b i \<longleftrightarrow> (if i = v then ?s = extractSet l b \<and> extractTag l b = extractTag l a
      else holds l b i)" for b i
  proof (cases "i = v")
    case True
    have "extractSet l b < length (sets l)" using inv by (simp add: lru_inv_def extractSet_less)
    then have "v \<in> set (sets l ! extractSet l b) \<longleftrightarrow> ?s = extractSet l b" using only vi by metis
    then have "holds l' b v \<longleftrightarrow> ?s = extractSet l b \<and> extractTag l a = extractTag l b"
      unfolding holds_def ext set_eq bv(2) using bv(1) by blast
    then show ?thesis using True by auto
  next
    case False
    then show ?thesis by (simp add: holds_def ext set_eq bo)
  qed
  have geom: "lru_geom l'" using inv l'(2,3) by (simp add: lru_inv_def lru_geom_def same_shape_def)
  have ls: "length (sets l') = length (sets l)" "length (blks l') = length (blks l)" "assoc l' = assoc l"
    using l'(2) by (simp_all add: l'(3,4) same_shape_def)
  have shape: "lru_shape l'" using inv unfolding lru_inv_def lru_shape_def ls set_eq by simp
  have unique: "lru_unique l'"
    unfolding lru_unique_def ls set_eq
  proof (intro allI impI ballI)
    fix k i j assume k: "k < length (sets l)" and i: "i \<in> set (sets l ! k)" and j: "j \<in> set (sets l ! k)"
      and h: "isValid (blks l' ! i) \<and> isValid (blks l' ! j) \<and> tag (blks l' ! i) = tag (blks l' ! j)"
    have old: "\<not> (isValid (blks l ! n) \<and> tag (blks l ! n) = extractTag l a)" if "n \<in> set (sets l ! ?s)" for n
      using nomiss [of n] that by (simp add: holds_def)
    show "i = j"
    proof (cases "i = v \<or> j = v")
      case True
      then have "k = ?s" using only [OF k] i j by blast
      then show ?thesis using True h old [of i] old [of j] i j bo [of i] bo [of j] bv by metis
    next
      case False
      then have "isValid (blks l ! i) \<and> isValid (blks l ! j) \<and> tag (blks l ! i) = tag (blks l ! j)"
        using h bo by simp
      then show ?thesis using inv k i j unfolding lru_inv_def lru_unique_def by blast
    qed
  qed
  have inv': "lru_inv l'" using geom shape unique by (simp add: lru_inv_def)
  have "holds l' a v" using hold_iff by simp
  then have found: "findBlock l' a = Inr (Some v)" using findBlock_iff(1) [OF inv'] by blast
  have front: "sets l' ! ?s = v # butlast (sets l ! ?s)"
  proof -
    have ne: "sets l ! ?s \<noteq> []" using vi by auto
    then have eq: "sets l ! ?s = butlast (sets l ! ?s) @ [v]" using v by simp
    then have "v \<notin> set (butlast (sets l ! ?s))" using dist by (metis distinct_append disjoint_iff list.set_intros(1))
    then have "remove1 v (butlast (sets l ! ?s) @ [v]) = butlast (sets l ! ?s)"
      by (simp add: remove1_append)
    with eq have "remove1 v (sets l ! ?s) = butlast (sets l ! ?s)" by simp
    then show ?thesis using s by (simp add: l'(3) to_front_def)
  qed
  have other: "findBlock l' b = findBlock l b"
    if "findBlock l b \<noteq> Inr (Some v)" "extractTag l b \<noteq> extractTag l a \<or> extractSet l b \<noteq> extractSet l a" for b
  proof (rule findBlock_cong [OF inv inv'])
    fix i
    have "\<not> holds l b v" using that(1) findBlock_iff(1) [OF inv] by blast
    then show "holds l' b i = holds l b i" using hold_iff [of b i] that(2) by auto
  qed
  have gone: "findBlock l' b = Inr None" if "findBlock l b = Inr (Some v)" for b
  proof -
    have h: "holds l b v" using that findBlock_iff(1) [OF inv] by blast
    have "\<not> holds l b i" if "i \<noteq> v" for i
    proof
      assume "holds l b i"
      then have "findBlock l b = Inr (Some i)" using findBlock_iff(1) [OF inv] by blast
      with \<open>findBlock l b = Inr (Some v)\<close> that show False by simp
    qed
    moreover have "\<not> (?s = extractSet l b \<and> extractTag l b = extractTag l a)"
      using h nomiss [of v] by (auto simp: holds_def)
    ultimately have "\<forall>i. \<not> holds l' b i" using hold_iff by auto
    then show ?thesis using findBlock_iff(2) [OF inv'] by blast
  qed
  have A: "\<forall>b. findBlock l b \<noteq> Inr (Some v) \<longrightarrow> extractTag l b \<noteq> extractTag l a \<or> extractSet l b \<noteq> extractSet l a
         \<longrightarrow> findBlock l' b = findBlock l b" using other by blast
  have B: "\<forall>b. findBlock l b = Inr (Some v) \<longrightarrow> findBlock l' b = Inr None" using gone by blast
  show ?thesis by (intro exI [of _ l'] conjI l'(1) inv' found front A B)
qed


section \<open>The state the constructor builds\<close>

lemma mod_interval_disjoint:
  fixes A :: nat assumes "s \<noteq> s'"
  shows "{s * A ..< s * A + A} \<inter> {s' * A ..< s' * A + A} = {}"
proof -
  have "i div A = s" if "i \<in> {s * A ..< s * A + A}" for i s
  proof -
    from that have "i = s * A + (i - s * A)" "i - s * A < A" by auto
    then show ?thesis by (metis add.commute add.right_neutral div_less div_mult_self1 less_nat_zero_code mult.commute)
  qed
  with assms show ?thesis by blast
qed

text \<open>The masks and shifts of a store whose sizes are powers of two.\<close>

definition lru_pow2 :: "nat \<Rightarrow> nat \<Rightarrow> LRU \<Rightarrow> bool" where
  "lru_pow2 b k l \<longleftrightarrow> b < 32 \<and> k < 32 \<and> numSets l = 2 ^ k \<and> setShift l = b \<and> tagShift l = b + k
     \<and> setMask l = mask k \<and> blkMask l = mask b"

lemma LRU_init_cases:
  "if bsize < 4 \<or> \<not> isPowerOf2 bsize \<or> nsets = 0 \<or> \<not> isPowerOf2 nsets \<or> ass = 0 \<or> lat = 0
   then LRU_init nsets bsize ass lat = Inl Fatal
   else if 2 ^ 32 \<le> unat nsets * unat ass then LRU_init nsets bsize ass lat = Inl OutOfRange
   else is_ok (LRU_init nsets bsize ass lat)"
proof (cases "bsize < 4 \<or> \<not> isPowerOf2 bsize \<or> nsets = 0 \<or> \<not> isPowerOf2 nsets \<or> ass = 0 \<or> lat = 0")
  case True
  then have "LRU_init nsets bsize ass lat = Inl Fatal" unfolding LRU_init_def by (elim disjE) simp_all
  with True show ?thesis by simp
next
  case False
  have log: "\<exists>n. floorLog2_u32 v = Inr n" if "isPowerOf2 v" for v :: u32
    by (rule isPowerOf2_pow2D [OF that]) (use floorLog2_pow2(2) in auto)
  from False log [of bsize] log [of nsets] obtain m n where
    "floorLog2_u32 bsize = Inr m" "floorLog2_u32 nsets = Inr n" by blast
  moreover have "unat (nsets * ass) < unat nsets * unat ass \<longleftrightarrow> 2 ^ 32 \<le> unat nsets * unat ass"
  proof (cases "2 ^ 32 \<le> unat nsets * unat ass")
    case True
    then show ?thesis using unsigned_less [of "nsets * ass", where 'a = nat] by simp
  next
    case False
    then show ?thesis by (simp add: unat_word_ariths)
  qed
  ultimately show ?thesis using False by (simp add: LRU_init_def Let_def del: not_less)
qed

lemma LRU_init_state:
  assumes "LRU_init nsets bsize ass lat = Inr l" and fits: "unat nsets * unat ass < 2 ^ 32"
  shows "\<exists>b k. lru_pow2 b k l \<and> bsize = 2 ^ b" and "lru_inv l" and "\<forall>i < length (blks l). \<not> isValid (blks l ! i)"
    and "tagsInUse l = 0" "occupancies l = (\<lambda>_. 0)" "\<forall>i < length (blks l). \<not> isTouched (blks l ! i)"
proof -
  from assms(1) have c: "\<not> bsize < 4" "isPowerOf2 bsize" "nsets \<noteq> 0" "isPowerOf2 nsets" "ass \<noteq> 0" "lat \<noteq> 0"
    by (auto simp: LRU_init_def split: if_splits)
  obtain b where b: "b < 32" "bsize = 2 ^ b" using isPowerOf2_pow2D [OF c(2)] by auto
  obtain k where k: "k < 32" "nsets = 2 ^ k" using isPowerOf2_pow2D [OF c(4)] by auto
  let ?A = "unat ass" and ?N = "unat nsets"
  have n: "unat (nsets * ass) = ?N * ?A" using fits by (simp add: unat_word_ariths)
  have l: "l = \<lparr>numSets = nsets, blkSize = bsize, assoc = ass, hitLatency = lat,
                sets = List.map (\<lambda>i. [i * ?A ..< i * ?A + ?A]) [0 ..< ?N],
                blks = List.map (\<lambda>k. CacheBlk_init\<lparr>data_at := unat (bsize * of_nat k), status := 0,
                           tag := of_nat (k mod ?A), whenReady := 0, isTouched := False,
                           blk_size := unat bsize, blk_set := int (k div ?A)\<rparr>) [0 ..< ?N * ?A],
                dataBlks = replicate (unat (nsets * ass * bsize)) 0,
                setShift = b, tagShift = b + k, setMask = nsets - 1, blkMask = bsize - 1,
                warmupBound = int (?N * ?A), warmedUp = False, numBlocks = ?N * ?A, replacements = 0,
                tagsInUse = 0, totalRefs = 0, sampledRefs = 0, warmupCycle = 0,
                occupancies = (\<lambda>_. 0)\<rparr>"
    using assms(1) c floorLog2_pow2(2) [OF b(1)] floorLog2_pow2(2) [OF k(1)]
    unfolding LRU_init_def n Let_def by (simp add: b(2)[symmetric] k(2)[symmetric] del: not_less)
  show "\<exists>b k. lru_pow2 b k l \<and> bsize = 2 ^ b"
    using b k by (intro exI [of _ b] exI [of _ k]) (simp add: l lru_pow2_def word_pow2_minus_1)
  show inval: "\<forall>i < length (blks l). \<not> isValid (blks l ! i)" "\<forall>i < length (blks l). \<not> isTouched (blks l ! i)"
    by (simp_all add: l isValid_def CacheBlk_init_def)
  show "tagsInUse l = 0" "occupancies l = (\<lambda>_. 0)" by (simp_all add: l)
  have S: "length (sets l) = ?N" "length (blks l) = ?N * ?A"
    "\<And>s. s < ?N \<Longrightarrow> sets l ! s = [s * ?A ..< s * ?A + ?A]" by (simp_all add: l)
  have bound: "i < ?N * ?A" if "s < ?N" "i < s * ?A + ?A" for s i
  proof -
    have "Suc s * ?A \<le> ?N * ?A" using that(1) by (intro mult_right_mono) simp_all
    with that(2) show ?thesis by simp
  qed
  have geom: "lru_geom l" using c by (simp add: lru_geom_def S) (simp add: l)
  have as: "assoc l = ass" by (simp add: l)
  have shape: "lru_shape l"
    unfolding lru_shape_def S(1,2) as
    using bound mod_interval_disjoint [of _ _ ?A] by (simp add: S(3))
  have "i < length (blks l)" if "s < length (sets l)" "i \<in> set (sets l ! s)" for s i
    using that bound by (simp add: S)
  then have unique: "lru_unique l" using inval(1) unfolding lru_unique_def by blast
  show "lru_inv l" using geom shape unique by (simp add: lru_inv_def)
qed

lemma addr_parts:
  assumes "lru_pow2 b k l"
  shows "extractSet l a < unat (numSets l)"
    and "regenerateBlkAddr l (extractTag l a) (of_nat (extractSet l a)) = blkAlign l a"
    and "blkAlign l a + of_nat (extractBlkOffset l a) = a"
proof -
  note d = assms [unfolded lru_pow2_def]
  have m: "(ucast (mask j :: u32) :: addr) = mask j" if "j < 32" for j
    using that by (simp add: ucast_mask_eq min_def)
  have es: "extractSet l a = unat (drop_bit b a AND mask k)" using d m by (simp add: extractSet_def)
  show "extractSet l a < unat (numSets l)" using d by (simp add: es word_pow2_unat unat_and_mask_less)
  have "(of_nat (unat (drop_bit b a AND mask k :: addr)) :: u32) = ucast (drop_bit b a AND mask k)" by simp
  then have uc: "(ucast (of_nat (unat (drop_bit b a AND mask k :: addr)) :: u32) :: addr) = drop_bit b a AND mask k"
    using d by (simp only:) (rule bit_word_eqI, auto simp: bit_simps)
  show "regenerateBlkAddr l (extractTag l a) (of_nat (extractSet l a)) = blkAlign l a"
  proof (rule bit_word_eqI)
    fix n assume "n < LENGTH(64)"
    then show "bit (regenerateBlkAddr l (extractTag l a) (of_nat (extractSet l a))) n = bit (blkAlign l a) n"
      using d unfolding regenerateBlkAddr_def extractTag_def blkAlign_def es uc
      by (cases "n < b + k"; cases "n < b") (simp_all add: bit_simps m, auto)
  qed
  have off: "of_nat (extractBlkOffset l a) = a AND mask b" using d m by (simp add: extractBlkOffset_def)
  have al: "blkAlign l a = a AND NOT (mask b)" using d m by (simp add: blkAlign_def)
  have "blkAlign l a AND of_nat (extractBlkOffset l a) = 0"
    unfolding off al by (rule bit_word_eqI) (auto simp: bit_simps)
  then have "blkAlign l a + of_nat (extractBlkOffset l a) = blkAlign l a OR of_nat (extractBlkOffset l a)"
    by (simp add: disjunctive_add_eq_or)
  also have "\<dots> = a" unfolding off al by (rule bit_word_eqI) (auto simp: bit_simps)
  finally show "blkAlign l a + of_nat (extractBlkOffset l a) = a" .
qed


section \<open>Statistics\<close>

text \<open>The counters agree with the blocks: one in use for each valid block, charged to its master.\<close>

definition blocks_of :: "nat \<Rightarrow> LRU \<Rightarrow> nat set" where
  "blocks_of m l = {i. i < length (blks l) \<and> isValid (blks l ! i) \<and> srcMasterId (blks l ! i) = m}"

definition valid_blocks :: "LRU \<Rightarrow> nat set" where
  "valid_blocks l = {i. i < length (blks l) \<and> isValid (blks l ! i)}"

definition lru_stats :: "nat \<Rightarrow> LRU \<Rightarrow> bool" where
  "lru_stats maxMasters l \<longleftrightarrow>
     (\<forall>i < length (blks l). isTouched (blks l ! i) = isValid (blks l ! i)
        \<and> (isValid (blks l ! i) \<longrightarrow> srcMasterId (blks l ! i) < maxMasters))
     \<and> tagsInUse l = int (card (valid_blocks l))
     \<and> (\<forall>m. occupancies l m = int (card (blocks_of m l)))"

lemma finite_blocks [simp]: "finite (blocks_of m l)" "finite (valid_blocks l)"
  by (simp_all add: blocks_of_def valid_blocks_def)

lemma touch_inuse: "tagsInUse (touch t i l) = tagsInUse l + (if isTouched (blks l ! i) then 0 else 1)"
  by (simp add: touch_def Let_def set_blk_def)

lemma retire_stats:
  assumes "retire_old maxMasters i l = Inr l'"
  shows "tagsInUse l' = tagsInUse l"
    "occupancies l' = (if isValid (blks l ! i)
       then (occupancies l)(srcMasterId (blks l ! i) := occupancies l (srcMasterId (blks l ! i)) - 1) else occupancies l)"
  using assms by (auto simp: retire_old_def Let_def set_blk_def add_occ_def assert_that_def split: if_splits)

lemma install_stats:
  assumes "install_new maxMasters i l a m = Inr l'"
  shows "tagsInUse l' = tagsInUse l" "occupancies l' = (occupancies l)(m := occupancies l m + 1)"
  using assms by (auto simp: install_new_def Let_def set_blk_def add_occ_def assert_that_def move_in_set_def
      res_bind_eq_Inr split: if_splits)

lemma insertBlock_stats:
  assumes "insertBlock t maxMasters l a i m = Inr l'"
  shows "tagsInUse l' = tagsInUse l + (if isTouched (blks l ! i) then 0 else 1)"
    "occupancies l' n = occupancies l n - (if isValid (blks l ! i) \<and> srcMasterId (blks l ! i) = n then 1 else 0)
       + (if n = m then 1 else 0)"
proof -
  have i: "i < length (blks l)" using assms by (simp add: insertBlock_def split: if_splits)
  from assms i obtain l2 where r: "retire_old maxMasters i (touch t i l) = Inr l2"
    and n: "install_new maxMasters i l2 a m = Inr l'" by (auto simp: insertBlock_def res_bind_eq_Inr)
  have b: "isValid (blks (touch t i l) ! i) = isValid (blks l ! i)"
    "srcMasterId (blks (touch t i l) ! i) = srcMasterId (blks l ! i)" using i by (simp_all add: touch_blks isValid_def)
  show "tagsInUse l' = tagsInUse l + (if isTouched (blks l ! i) then 0 else 1)"
    using install_stats(1) [OF n] retire_stats(1) [OF r] touch_inuse by simp
  show "occupancies l' n = occupancies l n - (if isValid (blks l ! i) \<and> srcMasterId (blks l ! i) = n then 1 else 0)
       + (if n = m then 1 else 0)"
    using install_stats(2) [OF n] retire_stats(2) [OF r] b by simp
qed

lemma card_replace:
  assumes "finite S" shows "int (card (insert v S)) = int (card S) + (if v \<in> S then 0 else 1)"
    and "int (card (S - {v})) = int (card S) - (if v \<in> S then 1 else 0)"
proof -
  show "int (card (insert v S)) = int (card S) + (if v \<in> S then 0 else 1)"
    using assms by (cases "v \<in> S") (simp_all add: insert_absorb)
  show "int (card (S - {v})) = int (card S) - (if v \<in> S then 1 else 0)"
  proof (cases "v \<in> S")
    case True
    then have "card S = Suc (card (S - {v}))" using card_Suc_Diff1 [OF assms] by simp
    then show ?thesis by (subst if_P [OF True]) linarith
  qed simp
qed

text \<open>A block list with one block replaced.\<close>

lemma blocks_update:
  assumes "v < length (blks l)" and "blks l' = (blks l)[v := b]"
  shows "valid_blocks l' = (if isValid b then insert v (valid_blocks l) else valid_blocks l - {v})"
    "blocks_of m l' = (if isValid b \<and> srcMasterId b = m then insert v (blocks_of m l) else blocks_of m l - {v})"
  using assms by (auto simp: valid_blocks_def blocks_of_def nth_list_update split: if_splits)

lemma fill_stats:
  assumes inv: "lru_inv l" and st: "lru_stats maxMasters l" and m: "m < maxMasters"
    and valid: "st AND BlkValid \<noteq> 0" and f: "fill t maxMasters l a m st = Inr l'"
  shows "lru_stats maxMasters l'"
proof -
  let ?v = "last (sets l ! extractSet l a)"
  have masters: "\<forall>i < length (blks l). isValid (blks l ! i) \<longrightarrow> srcMasterId (blks l ! i) < maxMasters"
    using st by (simp add: lru_stats_def)
  from fill_eq [OF inv m masters refl, of t a st] f
  have b: "blks l' = (blks l)[?v := (inserted m (extractTag l a) (blks l ! ?v))\<lparr>status := st\<rparr>]" by auto
  have v: "?v < length (blks l)"
    using lru_shapeD(3) [OF inv _ findVictim_eq(2) [OF inv]] inv by (simp add: lru_inv_def extractSet_less)
  from f obtain l1 where ins: "insertBlock t maxMasters l a ?v m = Inr l1"
    and l': "l' = set_blk ?v ((blks l1 ! ?v)\<lparr>status := st\<rparr>) l1"
    by (auto simp: fill_def findVictim_eq(1) [OF inv] res_bind_eq_Inr)
  have nb: "isValid ((inserted m (extractTag l a) (blks l ! ?v))\<lparr>status := st\<rparr>)"
    "srcMasterId ((inserted m (extractTag l a) (blks l ! ?v))\<lparr>status := st\<rparr>) = m"
    "isTouched ((inserted m (extractTag l a) (blks l ! ?v))\<lparr>status := st\<rparr>)"
    using valid by (simp_all add: inserted_def isValid_def)
  note up = blocks_update [OF v b, unfolded nb]
  have tv: "isTouched (blks l ! ?v) = isValid (blks l ! ?v)" using st v by (simp add: lru_stats_def)
  have cnt: "tagsInUse l = int (card (valid_blocks l))" "\<And>n. occupancies l n = int (card (blocks_of n l))"
    using st by (simp_all add: lru_stats_def)
  have mem: "?v \<in> valid_blocks l \<longleftrightarrow> isValid (blks l ! ?v)"
    "\<And>n. ?v \<in> blocks_of n l \<longleftrightarrow> isValid (blks l ! ?v) \<and> srcMasterId (blks l ! ?v) = n"
    using v by (simp_all add: valid_blocks_def blocks_of_def)
  have same: "tagsInUse l' = tagsInUse l1" "occupancies l' = occupancies l1" by (simp_all add: l' set_blk_def)
  have "tagsInUse l' = int (card (valid_blocks l'))"
    using insertBlock_stats(1) [OF ins] by (simp add: same cnt up nb card_replace mem tv)
  moreover have "occupancies l' n = int (card (blocks_of n l'))" for n
    using insertBlock_stats(2) [OF ins, of n]
    by (cases "n = m") (simp_all add: same cnt up(2) nb card_replace mem)
  moreover have "isTouched (blks l' ! i) = isValid (blks l' ! i) \<and> (isValid (blks l' ! i) \<longrightarrow> srcMasterId (blks l' ! i) < maxMasters)"
    if "i < length (blks l')" for i
    using that st nb m by (cases "i = ?v") (simp_all add: b lru_stats_def)
  ultimately show ?thesis by (simp add: lru_stats_def)
qed


section \<open>Invalidation\<close>

definition invalidated :: "CacheBlk \<Rightarrow> CacheBlk" where
  "invalidated b = b\<lparr>srcMasterId := (if isValid b then invldMasterId else srcMasterId b), status := 0,
     isTouched := False, lockList := []\<rparr>"

lemma invalidateBlk_eq:
  assumes i: "i < length (blks l)" and m: "isValid (blks l ! i) \<longrightarrow> srcMasterId (blks l ! i) < maxMasters"
  shows "\<exists>l'. invalidateBlk maxMasters l (Some i) = Inr l' \<and> same_shape l l'
    \<and> blks l' = (blks l)[i := invalidated (blks l ! i)]
    \<and> tagsInUse l' = tagsInUse l - (if isValid (blks l ! i) then 1 else 0)
    \<and> (\<forall>n. occupancies l' n = occupancies l n - (if isValid (blks l ! i) \<and> srcMasterId (blks l ! i) = n then 1 else 0))"
proof (cases "isValid (blks l ! i)")
  case True
  then show ?thesis using i m
    by (simp add: invalidateBlk_def Let_def same_shape_def set_blk_def add_occ_def clearLoadLocks_def invalidated_def)
next
  case False
  have b: "b\<lparr>srcMasterId := srcMasterId b\<rparr> = b" for b :: CacheBlk by (cases b) simp
  from False show ?thesis using i m
    by (simp add: invalidateBlk_def Let_def same_shape_def set_blk_def clearLoadLocks_def invalidated_def b)
qed

lemma invalidated_valid [simp]: "\<not> isValid (invalidated b)" "\<not> isTouched (invalidated b)"
  by (simp_all add: invalidated_def isValid_def)

lemma invalidate_stats:
  assumes st: "lru_stats maxMasters l" and i: "i < length (blks l)"
    and e: "invalidateBlk maxMasters l (Some i) = Inr l'"
  shows "lru_stats maxMasters l'"
proof -
  have "isValid (blks l ! i) \<longrightarrow> srcMasterId (blks l ! i) < maxMasters" using st i by (simp add: lru_stats_def)
  from invalidateBlk_eq [OF i this] e have
    b: "blks l' = (blks l)[i := invalidated (blks l ! i)]" and
    tu: "tagsInUse l' = tagsInUse l - (if isValid (blks l ! i) then 1 else 0)" and
    oc: "\<And>n. occupancies l' n = occupancies l n - (if isValid (blks l ! i) \<and> srcMasterId (blks l ! i) = n then 1 else 0)"
    by auto
  note up = blocks_update [OF i b, simplified]
  have cnt: "tagsInUse l = int (card (valid_blocks l))" "\<And>n. occupancies l n = int (card (blocks_of n l))"
    using st by (simp_all add: lru_stats_def)
  have mem: "i \<in> valid_blocks l \<longleftrightarrow> isValid (blks l ! i)"
    "\<And>n. i \<in> blocks_of n l \<longleftrightarrow> isValid (blks l ! i) \<and> srcMasterId (blks l ! i) = n"
    using i by (simp_all add: valid_blocks_def blocks_of_def)
  have "tagsInUse l' = int (card (valid_blocks l'))"
    using card_replace(2) [OF finite_blocks(2), of l i] unfolding tu up(1) cnt(1) mem by linarith
  moreover have "occupancies l' n = int (card (blocks_of n l'))" for n
    using card_replace(2) [OF finite_blocks(1), of n l i] unfolding oc up(2) cnt(2) mem by linarith
  moreover have "isTouched (blks l' ! k) = isValid (blks l' ! k) \<and> (isValid (blks l' ! k) \<longrightarrow> srcMasterId (blks l' ! k) < maxMasters)"
    if "k < length (blks l')" for k
    using that st by (cases "k = i") (simp_all add: b lru_stats_def)
  ultimately show ?thesis by (simp add: lru_stats_def)
qed

lemma invalidate_lookup:
  assumes inv: "lru_inv l" and i: "i < length (blks l)"
    and m: "isValid (blks l ! i) \<longrightarrow> srcMasterId (blks l ! i) < maxMasters"
  shows "\<exists>l'. invalidateBlk maxMasters l (Some i) = Inr l' \<and> lru_inv l'
    \<and> (\<forall>a. findBlock l' a = (if findBlock l a = Inr (Some i) then Inr None else findBlock l a))"
proof -
  from invalidateBlk_eq [OF i m] obtain l' where
    e: "invalidateBlk maxMasters l (Some i) = Inr l'" "same_shape l l'"
      "blks l' = (blks l)[i := invalidated (blks l ! i)]" by blast
  have sh: "sets l' = sets l" "numSets l' = numSets l" "setMask l' = setMask l" "assoc l' = assoc l"
    "extractSet l' = extractSet l" "extractTag l' = extractTag l" "length (blks l') = length (blks l)"
    using e(2,3) by (simp_all add: same_shape_def extractSet_def extractTag_def fun_eq_iff)
  have bi: "\<not> isValid (blks l' ! i)" using i by (simp add: e(3))
  have bo: "blks l' ! k = blks l ! k" if "k \<noteq> i" for k using that by (simp add: e(3))
  have h: "holds l' a k \<longleftrightarrow> k \<noteq> i \<and> holds l a k" for a k
    using bi bo [of k] by (cases "k = i") (simp_all add: holds_def sh)
  have "lru_unique l'"
    unfolding lru_unique_def sh
  proof (intro allI impI ballI)
    fix s p q assume s: "s < length (sets l)" "p \<in> set (sets l ! s)" "q \<in> set (sets l ! s)"
      and v: "isValid (blks l' ! p) \<and> isValid (blks l' ! q) \<and> tag (blks l' ! p) = tag (blks l' ! q)"
    then have "p \<noteq> i" "q \<noteq> i" using bi by auto
    with v have "isValid (blks l ! p) \<and> isValid (blks l ! q) \<and> tag (blks l ! p) = tag (blks l ! q)" by (simp add: bo)
    with s inv show "p = q" unfolding lru_inv_def lru_unique_def by blast
  qed
  then have inv': "lru_inv l'" using inv by (simp add: lru_inv_def lru_geom_def lru_shape_def sh)
  have "findBlock l' a = (if findBlock l a = Inr (Some i) then Inr None else findBlock l a)" for a
  proof (cases "findBlock l a = Inr (Some i)")
    case True
    have "\<not> holds l a k" if "k \<noteq> i" for k
      using that True findBlock_iff(1) [OF inv, of a k] by simp
    then have "findBlock l' a = Inr None" unfolding findBlock_iff(2) [OF inv'] h by blast
    with True show ?thesis by simp
  next
    case False
    then have "\<not> holds l a i" using findBlock_iff(1) [OF inv] by blast
    then have "holds l' a k = holds l a k" for k using h by (cases "k = i") simp_all
    from findBlock_cong [OF inv inv' this] False show ?thesis by simp
  qed
  then show ?thesis using e(1) inv' by blast
qed

section \<open>Reachable tag stores\<close>

lemma clear_inv:
  assumes "lru_inv l" shows "lru_inv (clearLocks l)"
proof -
  have R: "length (sets l) = length (sets l)"
    "\<And>s. s < length (sets l) \<Longrightarrow> set (sets l ! s) = set (sets l ! s) \<and> distinct (sets l ! s)
           \<and> length (sets l ! s) = length (sets l ! s)"
    "length (blks (clearLocks l)) = length (blks l)"
    "\<And>i. i < length (blks l) \<Longrightarrow> isValid (blks (clearLocks l) ! i) = isValid (blks l ! i)
       \<and> tag (blks (clearLocks l) ! i) = tag (blks l ! i)"
    using lru_shapeD(2) [OF assms] by (simp_all add: clearLocks_def clearLoadLocks_def isValid_def)
  show ?thesis by (rule lru_inv_reorder(1) [OF assms R]) (simp_all add: clearLocks_def)
qed

lemma stats_same:
  assumes "lru_stats maxMasters l" and "tagsInUse l' = tagsInUse l" "occupancies l' = occupancies l"
    and "length (blks l') = length (blks l)"
    and "\<And>i. i < length (blks l) \<Longrightarrow> isValid (blks l' ! i) = isValid (blks l ! i)
      \<and> isTouched (blks l' ! i) = isTouched (blks l ! i) \<and> srcMasterId (blks l' ! i) = srcMasterId (blks l ! i)"
  shows "lru_stats maxMasters l'"
proof -
  have "valid_blocks l' = valid_blocks l" "blocks_of m l' = blocks_of m l" for m
    using assms(4,5) by (auto simp: valid_blocks_def blocks_of_def)
  with assms show ?thesis by (simp add: lru_stats_def)
qed

lemma access_stats:
  assumes inv: "lru_inv l" and st: "lru_stats maxMasters l" and e: "accessBlock t l a = Inr (r, lat, l')"
  shows "lru_inv l' \<and> lru_stats maxMasters l'"
proof (cases r)
  case None
  have "findBlock l a = Inr None"
  proof (rule ccontr)
    assume "findBlock l a \<noteq> Inr None"
    then obtain i where "holds l a i" using findBlock_iff(2) [OF inv] by blast
    from accessBlock_hit [OF inv this, of t] e None show False by auto
  qed
  from accessBlock_miss [OF this, of t] e inv st show ?thesis by simp
next
  case (Some i)
  have f: "findBlock l a = Inr (Some i)"
    using e Some by (auto simp: accessBlock_def res_bind_eq_Inr Let_def split: option.splits)
  then have h: "holds l a i" using findBlock_iff(1) [OF inv] by blast
  from accessBlock_hit [OF inv h, of t] e
  have l': "lru_inv l'" "blks l' = (blks l)[i := (blks l ! i)\<lparr>refCount := refCount (blks l ! i) + 1\<rparr>]" by auto
  have c: "tagsInUse l' = tagsInUse l" "occupancies l' = occupancies l"
    using e f by (auto simp: accessBlock_def res_bind_eq_Inr Let_def move_in_set_def set_blk_def)
  have "lru_stats maxMasters l'"
  proof (rule stats_same [OF st c])
    fix k assume "k < length (blks l)"
    then show "isValid (blks l' ! k) = isValid (blks l ! k)
      \<and> isTouched (blks l' ! k) = isTouched (blks l ! k) \<and> srcMasterId (blks l' ! k) = srcMasterId (blks l ! k)"
      by (cases "k = i") (simp_all add: l'(2) isValid_def)
  qed (simp add: l'(2))
  with l'(1) show ?thesis by blast
qed


text \<open>
  The states the operations reach: the constructor, an access, a miss followed by the
  replacement of its victim, an invalidation, and the clearing of the locks.
\<close>

inductive lru_reach :: "nat \<Rightarrow> LRU \<Rightarrow> bool" for maxMasters where
  init: "LRU_init nsets bsize ass lat = Inr l \<Longrightarrow> unat nsets * unat ass < 2 ^ 32 \<Longrightarrow> lru_reach maxMasters l"
| access: "lru_reach maxMasters l \<Longrightarrow> accessBlock t l a = Inr (r, lat, l') \<Longrightarrow> lru_reach maxMasters l'"
| refill: "lru_reach maxMasters l \<Longrightarrow> findBlock l a = Inr None \<Longrightarrow> m < maxMasters \<Longrightarrow> st AND BlkValid \<noteq> 0 \<Longrightarrow>
    fill t maxMasters l a m st = Inr l' \<Longrightarrow> lru_reach maxMasters l'"
| invalidate: "lru_reach maxMasters l \<Longrightarrow> invalidateBlk maxMasters l p = Inr l' \<Longrightarrow> lru_reach maxMasters l'"
| clear: "lru_reach maxMasters l \<Longrightarrow> lru_reach maxMasters (clearLocks l)"

lemma reach_good: "lru_reach maxMasters l \<Longrightarrow> lru_inv l \<and> lru_stats maxMasters l"
proof (induction rule: lru_reach.induct)
  case (init nsets bsize ass lat l)
  note S = LRU_init_state [OF init]
  have "valid_blocks l = {}" "blocks_of m l = {}" for m using S(3) by (auto simp: valid_blocks_def blocks_of_def)
  then show ?case using S by (simp add: lru_stats_def)
next
  case (access l t a r lat l')
  then show ?case using access_stats by blast
next
  case (refill l a m st t l')
  have ms: "\<forall>i < length (blks l). isValid (blks l ! i) \<longrightarrow> srcMasterId (blks l ! i) < maxMasters"
    using refill.IH by (simp add: lru_stats_def)
  have inv: "lru_inv l" using refill.IH by blast
  from fill_lookup [OF inv refill(3) ms refill(4,2) refl, of t] refill(5) have "lru_inv l'" by auto
  then show ?case using fill_stats refill by blast
next
  case (invalidate l p l')
  show ?case
  proof (cases p)
    case None
    then show ?thesis using invalidate by (simp add: invalidateBlk_def)
  next
    case (Some i)
    have i: "i < length (blks l)" using invalidate(2) Some by (simp add: invalidateBlk_def split: if_splits)
    then have m: "isValid (blks l ! i) \<longrightarrow> srcMasterId (blks l ! i) < maxMasters"
      using invalidate.IH by (simp add: lru_stats_def)
    from invalidate_lookup [OF _ i m] invalidate Some have "lru_inv l'" by auto
    then show ?thesis using invalidate_stats [OF _ i] invalidate Some by blast
  qed
next
  case (clear l)
  have "lru_stats maxMasters (clearLocks l)"
    by (rule stats_same [of _ l])
      (use clear in \<open>simp_all add: clearLocks_def clearLoadLocks_def isValid_def\<close>)
  then show ?case using clear clear_inv by blast
qed

lemma reach_masters:
  "lru_reach maxMasters l \<Longrightarrow> \<forall>i < length (blks l). isValid (blks l ! i) \<longrightarrow> srcMasterId (blks l ! i) < maxMasters"
  using reach_good by (simp add: lru_stats_def)

section \<open>A small store\<close>

definition demo :: LRU where
  "demo = (case LRU_init 2 4 2 1 of Inr l \<Rightarrow> l)"

lemma demo_init: "LRU_init 2 4 2 1 = Inr demo"
proof -
  have "isPowerOf2 (4 :: u32)" "isPowerOf2 (2 :: u32)" by code_simp+
  then have "is_ok (LRU_init 2 4 2 1)" using LRU_init_cases [of 4 2 2 1] by simp
  then show ?thesis by (auto simp: is_ok_iff demo_def)
qed

lemma demo_reach: "lru_reach n demo"
  by (rule lru_reach.init [OF demo_init]) simp

lemma demo_sets: "sets demo = [[0, 1], [2, 3]]" "length (blks demo) = 4"
proof -
  have "floorLog2_u32 4 = Inr 2" "floorLog2_u32 2 = Inr 1" by code_simp+
  moreover have "isPowerOf2 (4 :: u32)" "isPowerOf2 (2 :: u32)" by code_simp+
  moreover have "[0 ..< 2] = [0, 1 :: nat]" "[2 ..< 4] = [2, 3 :: nat]" by (simp_all add: upt_rec)
  ultimately have "sets demo = [[0, 1], [2, 3]] \<and> length (blks demo) = 4"
    by (simp add: demo_def LRU_init_def Let_def)
  then show "sets demo = [[0, 1], [2, 3]]" "length (blks demo) = 4" by simp_all
qed

lemma demo_set: "extractSet demo 0x10 = 0" "findBlock demo 0x10 = Inr None"
proof -
  have "floorLog2_u32 4 = Inr 2" "floorLog2_u32 2 = Inr 1" by code_simp+
  moreover have "isPowerOf2 (4 :: u32)" "isPowerOf2 (2 :: u32)" by code_simp+
  ultimately have "setShift demo = 2 \<and> setMask demo = 1" by (simp add: demo_def LRU_init_def Let_def)
  then have "extractSet demo 0x10 = unat (drop_bit 2 0x10 AND 1 :: addr)" by (simp add: extractSet_def)
  also have "\<dots> = 0" by code_simp
  finally show "extractSet demo 0x10 = 0" .
  have inv: "lru_inv demo" using reach_good [OF demo_reach [of 2]] by blast
  have "\<not> isValid (blks demo ! i)" if "i < 4" for i
    using LRU_init_state(3) [OF demo_init] that demo_sets by simp
  then have "\<not> holds demo 0x10 i" for i
    using lru_shapeD(3) [OF inv extractSet_less] inv demo_sets(2) by (auto simp: holds_def lru_inv_def)
  then show "findBlock demo 0x10 = Inr None" using findBlock_iff(2) [OF inv] by blast
qed


lemma demo_filled:
  "\<exists>l. lru_reach 2 l \<and> findBlock l 0x10 = Inr (Some 1) \<and> extractSet l 0x10 = 0 \<and> sets l ! 0 = [1, 0]"
proof -
  have inv: "lru_inv demo" using reach_good [OF demo_reach [of 2]] by blast
  have v: "1 = last (sets demo ! extractSet demo 0x10)" by (simp add: demo_set demo_sets)
  have st: "BlkValid AND BlkValid \<noteq> 0" by (simp add: BlkValid_def)
  have m: "(1 :: nat) < 2" by simp
  from fill_lookup [OF inv m reach_masters [OF demo_reach] st demo_set(2) v, where t = 0] obtain l where
    l: "fill 0 2 demo 0x10 1 BlkValid = Inr l" "findBlock l 0x10 = Inr (Some 1)"
      "sets l ! extractSet demo 0x10 = 1 # butlast (sets demo ! extractSet demo 0x10)" by blast
  have r: "lru_reach 2 l" by (rule lru_reach.refill [OF demo_reach demo_set(2) m st l(1)])
  from fill_eq [OF inv m reach_masters [OF demo_reach] v, of 0 BlkValid] l(1)
  have "extractSet l 0x10 = extractSet demo 0x10" by (auto simp: same_shape_def extractSet_def)
  then show ?thesis using r l(2,3) demo_set(1) demo_sets(1) by auto
qed

section \<open>Load-locked and store-conditional\<close>

datatype lock_op = LoadLocked int | StoreCond int | PlainStore

text \<open>The accesses a block sees, in order; each leaves the block and answers whether it went ahead.\<close>

fun lock_step :: "lock_op \<Rightarrow> CacheBlk \<Rightarrow> (bool \<times> CacheBlk) res" where
  "lock_step (LoadLocked c) b = res_bind (trackLoadLocked True c b) (\<lambda>b'. Inr (True, b'))"
| "lock_step (StoreCond c) b = (case checkWrite True c b of (ok, _, b') \<Rightarrow> Inr (ok, b'))"
| "lock_step PlainStore b = (case checkWrite False 0 b of (ok, _, b') \<Rightarrow> Inr (ok, b'))"

fun lock_run :: "lock_op list \<Rightarrow> CacheBlk \<Rightarrow> CacheBlk res" where
  "lock_run [] b = Inr b"
| "lock_run (x # xs) b = res_bind (lock_step x b) (\<lambda>(_, b'). lock_run xs b')"

fun is_load :: "lock_op \<Rightarrow> bool" where
  "is_load (LoadLocked c) = True"
| "is_load _ = False"

lemma lock_run_append: "lock_run (xs @ ys) b = res_bind (lock_run xs b) (lock_run ys)"
proof (induction xs arbitrary: b)
  case (Cons x xs)
  then show ?case by (cases "lock_step x b") (auto split: prod.splits)
qed simp

lemma lock_run_locks:
  "\<exists>b'. lock_run ops b = Inr b'
    \<and> lockList b' = (List.map (\<lambda>x. case x of LoadLocked c \<Rightarrow> c) (takeWhile is_load (rev ops)))
        @ (if list_all is_load ops then lockList b else [])"
proof (induction ops rule: rev_induct)
  case (snoc x ops)
  then obtain b' where b': "lock_run ops b = Inr b'"
    "lockList b' = (List.map (\<lambda>x. case x of LoadLocked c \<Rightarrow> c) (takeWhile is_load (rev ops)))
        @ (if list_all is_load ops then lockList b else [])" by blast
  then show ?case
    by (cases x) (simp_all add: lock_run_append trackLoadLocked_def checkWrite_def Let_def clearLoadLocks_def)
qed simp


lemma reserved_iff:
  "c \<in> set (List.map (\<lambda>x. case x of LoadLocked c \<Rightarrow> c) (takeWhile is_load (rev ops)))
    \<longleftrightarrow> (\<exists>p q. ops = p @ LoadLocked c # q \<and> list_all is_load q)"
proof (induction ops rule: rev_induct)
  case (snoc x ops)
  show ?case
  proof (cases "is_load x")
    case True
    then obtain d where x: "x = LoadLocked d" by (cases x) auto
    have "(\<exists>p q. ops @ [x] = p @ LoadLocked c # q \<and> list_all is_load q)
      \<longleftrightarrow> d = c \<or> (\<exists>p q. ops = p @ LoadLocked c # q \<and> list_all is_load q)"
    proof
      assume "\<exists>p q. ops @ [x] = p @ LoadLocked c # q \<and> list_all is_load q"
      then obtain p q where pq: "ops @ [x] = p @ LoadLocked c # q" "list_all is_load q" by blast
      then show "d = c \<or> (\<exists>p q. ops = p @ LoadLocked c # q \<and> list_all is_load q)"
        by (cases q rule: rev_cases) (auto simp: x)
    next
      assume "d = c \<or> (\<exists>p q. ops = p @ LoadLocked c # q \<and> list_all is_load q)"
      then show "\<exists>p q. ops @ [x] = p @ LoadLocked c # q \<and> list_all is_load q"
      proof
        assume "d = c" then show ?thesis by (intro exI [of _ ops] exI [of _ "[]"]) (simp add: x)
      next
        assume "\<exists>p q. ops = p @ LoadLocked c # q \<and> list_all is_load q"
        then obtain p q where "ops = p @ LoadLocked c # q" "list_all is_load q" by blast
        then show ?thesis by (intro exI [of _ p] exI [of _ "q @ [x]"]) (simp add: x)
      qed
    qed
    then show ?thesis using snoc by (auto simp: x)
  next
    case False
    have "\<not> (\<exists>p q. ops @ [x] = p @ LoadLocked c # q \<and> list_all is_load q)"
    proof
      assume "\<exists>p q. ops @ [x] = p @ LoadLocked c # q \<and> list_all is_load q"
      then obtain p q where pq: "ops @ [x] = p @ LoadLocked c # q" "list_all is_load q" by blast
      then show False using False by (cases q rule: rev_cases) auto
    qed
    with False show ?thesis by simp
  qed
qed simp

section \<open>Properties\<close>

text \<open>C33: in every tag store the operations reach (lookups, misses filled over the victim,
  invalidations), each set holds its own blocks once each, no set has two valid blocks with one
  tag, a block is marked touched iff it is valid, the in-use counter is the number of valid
  blocks and the occupancy of a master the number of valid blocks charged to it.\<close>

theorem tag_store_invariant:
  assumes "lru_reach maxMasters l"
  shows "lru_inv l \<and> tagsInUse l = int (card {i. i < length (blks l) \<and> isValid (blks l ! i)})
    \<and> occupancies l m = int (card {i. i < length (blks l) \<and> isValid (blks l ! i) \<and> srcMasterId (blks l ! i) = m})"
  using reach_good [OF assms] by (simp add: lru_stats_def valid_blocks_def blocks_of_def)

theorem tag_store_invariant_witness: "lru_inv (clearLocks demo) \<and> tagsInUse (clearLocks demo)
    = int (card {i. i < length (blks (clearLocks demo)) \<and> isValid (blks (clearLocks demo) ! i)})"
  using tag_store_invariant [OF lru_reach.clear [OF demo_reach [of 2]]] by blast

text \<open>an access never fails.  On a miss it changes nothing and costs the hit latency; on a
  hit it returns the block, costs the time until the block is ready but at least the hit latency,
  counts the reference, puts the block at the head of its set, and no lookup changes.\<close>

theorem access_hit_or_miss:
  assumes "lru_reach maxMasters l"
  shows "findBlock l a = Inr None \<and> accessBlock t l a = Inr (None, c_int (uint (hitLatency l)), l)
    \<or> (\<exists>i l'. findBlock l a = Inr (Some i)
         \<and> accessBlock t l a = Inr (Some i, c_int (max (uint (hitLatency l)) (whenReady (blks l ! i) - t)), l')
         \<and> sets l' = (sets l)[extractSet l a := i # remove1 i (sets l ! extractSet l a)]
         \<and> blks l' = (blks l)[i := (blks l ! i)\<lparr>refCount := refCount (blks l ! i) + 1\<rparr>]
         \<and> (\<forall>b. findBlock l' b = findBlock l b))"
proof (cases "findBlock l a = Inr None")
  case True
  then show ?thesis using accessBlock_miss by blast
next
  case False
  have inv: "lru_inv l" using reach_good [OF assms] by blast
  obtain i where f: "findBlock l a = Inr (Some i)" using False findBlock_iff(3) [OF inv, of a] by (metis not_None_eq)
  from accessBlock_hit [OF inv, of a i t] f findBlock_iff(1) [OF inv] obtain l' where
    l': "accessBlock t l a = Inr (Some i, c_int (max (uint (hitLatency l)) (whenReady (blks l ! i) - t)), l')"
    "lru_inv l'" "sets l' = (sets l)[extractSet l a := to_front i (sets l ! extractSet l a)]"
    "blks l' = (blks l)[i := (blks l ! i)\<lparr>refCount := refCount (blks l ! i) + 1\<rparr>]"
    "\<forall>b j. holds l' b j = holds l b j" by blast
  have "findBlock l' b = findBlock l b" for b using findBlock_cong [OF inv l'(2)] l'(5) by blast
  then show ?thesis using f l'(1,3,4) unfolding to_front_def by blast
qed

theorem access_hit_or_miss_witness: "accessBlock 7 demo 0x10 = Inr (None, c_int (uint (hitLatency demo)), demo)"
  using access_hit_or_miss [OF demo_reach, of "0x10" 7] demo_set(2) by auto

text \<open>the replacement policy is least recently used.  After any run of hits in a set, the set
  lists first the blocks hit, by their last hit, latest first, then the others in their old
  order; the victim is the last of the others, or, if every block was hit, the one whose last
  hit is the oldest.\<close>

theorem victim_is_least_recently_used:
  assumes "lru_reach maxMasters l"
    and "list_all2 (\<lambda>a i. extractSet l a = extractSet l c \<and> findBlock l a = Inr (Some i)) as bs"
  shows "\<exists>l'. access_all t l as = Inr l'
    \<and> sets l' ! extractSet l c = rev (remdups bs) @ filter (\<lambda>i. i \<notin> set bs) (sets l ! extractSet l c)
    \<and> findVictim l' c = Inr (if set (sets l ! extractSet l c) \<subseteq> set bs then hd (remdups bs)
        else last (filter (\<lambda>i. i \<notin> set bs) (sets l ! extractSet l c)))"
proof -
  let ?s = "extractSet l c"
  have inv: "lru_inv l" using reach_good [OF assms(1)] by blast
  then have s: "?s < length (sets l)" by (simp add: lru_inv_def extractSet_less)
  have h: "list_all2 (\<lambda>a i. extractSet l a = ?s \<and> holds l a i) as bs"
    using assms(2) by (rule list_all2_mono) (use findBlock_iff(1) [OF inv] in blast)
  then have sub: "set bs \<subseteq> set (sets l ! ?s)"
    by (induction as bs rule: list_all2_induct) (auto simp: holds_def)
  from access_all_hits [OF inv h s, of t] obtain l' where
    l': "access_all t l as = Inr l'" "lru_inv l'" "sets l' ! ?s = fold to_front bs (sets l ! ?s)"
      "extractSet l' = extractSet l" by blast
  have order: "sets l' ! ?s = rev (remdups bs) @ filter (\<lambda>i. i \<notin> set bs) (sets l ! ?s)" (is "_ = ?r @ ?f")
    using l'(3) fold_to_front [OF lru_shapeD(2) [OF inv s] sub] by simp
  have ne: "sets l' ! ?s \<noteq> []" using findVictim_eq(2) [OF l'(2), of c] l'(4) by auto
  have fe: "?f = [] \<longleftrightarrow> set (sets l ! ?s) \<subseteq> set bs" by (auto simp: filter_empty_conv)
  have "last (?r @ ?f) = (if set (sets l ! ?s) \<subseteq> set bs then hd (remdups bs) else last ?f)"
    using ne fe order by (simp add: last_rev)
  then show ?thesis using l'(1) order findVictim_eq(1) [OF l'(2), of c] l'(4) by auto
qed

theorem victim_is_least_recently_used_witness:
  "\<exists>l l'. lru_reach 2 l \<and> access_all 5 l [0x10, 0x10] = Inr l' \<and> sets l' ! 0 = [1, 0] \<and> findVictim l' 0x10 = Inr 0"
proof -
  obtain l where l: "lru_reach 2 l" "findBlock l 0x10 = Inr (Some 1)" "extractSet l 0x10 = 0" "sets l ! 0 = [1, 0]"
    using demo_filled by blast
  from victim_is_least_recently_used [OF l(1), of "0x10" "[0x10, 0x10]" "[1, 1]" 5] l show ?thesis by auto
qed

text \<open>C34: replacing the victim on a miss, with the status the caller sets, cannot fail, and the
  store stays reachable; afterwards every lookup answers as before, except that the new address is
  found in the victim's place and what the victim held is gone.\<close>

theorem miss_insert_find:
  assumes r: "lru_reach maxMasters l" and miss: "findBlock l a = Inr None"
    and m: "m < maxMasters" and st: "st AND BlkValid \<noteq> 0"
  shows "\<exists>v l1 l'. findVictim l a = Inr v \<and> insertBlock t maxMasters l a v m = Inr l1
    \<and> l' = set_blk v ((blks l1 ! v)\<lparr>status := st\<rparr>) l1 \<and> lru_reach maxMasters l'
    \<and> (\<forall>b. findBlock l' b = (if extractTag l b = extractTag l a \<and> extractSet l b = extractSet l a then Inr (Some v)
           else if findBlock l b = Inr (Some v) then Inr None else findBlock l b))"
proof -
  let ?v = "last (sets l ! extractSet l a)"
  have inv: "lru_inv l" using reach_good [OF r] by blast
  from fill_lookup [OF inv m reach_masters [OF r] st miss refl, of t] obtain l' where
    l': "fill t maxMasters l a m st = Inr l'" "findBlock l' a = Inr (Some ?v)"
    "\<forall>b. findBlock l b \<noteq> Inr (Some ?v) \<longrightarrow> extractTag l b \<noteq> extractTag l a \<or> extractSet l b \<noteq> extractSet l a
         \<longrightarrow> findBlock l' b = findBlock l b"
    "\<forall>b. findBlock l b = Inr (Some ?v) \<longrightarrow> findBlock l' b = Inr None" by blast
  from l'(1) obtain l1 where l1: "insertBlock t maxMasters l a ?v m = Inr l1"
    "l' = set_blk ?v ((blks l1 ! ?v)\<lparr>status := st\<rparr>) l1"
    by (auto simp: fill_def findVictim_eq(1) [OF inv] res_bind_eq_Inr)
  from fill_eq [OF inv m reach_masters [OF r] refl, of t a st] l'(1)
  have e: "extractSet l' = extractSet l" "extractTag l' = extractTag l"
    by (auto simp: same_shape_def extractSet_def extractTag_def fun_eq_iff)
  have same: "findBlock x b = findBlock x a" if "extractTag x b = extractTag x a" "extractSet x b = extractSet x a" for x b
    using that by (simp add: findBlock_def)
  have "findBlock l' b = (if extractTag l b = extractTag l a \<and> extractSet l b = extractSet l a then Inr (Some ?v)
           else if findBlock l b = Inr (Some ?v) then Inr None else findBlock l b)" for b
    using same [of l' b] l'(2-4) e by simp
  moreover have "lru_reach maxMasters l'" using lru_reach.refill [OF r miss m st l'(1)] .
  ultimately show ?thesis using findVictim_eq(1) [OF inv, of a] l1 by blast
qed

theorem miss_insert_find_witness:
  "\<exists>v l1. insertBlock 0 2 demo 0x10 v 1 = Inr l1 \<and> findBlock (set_blk v ((blks l1 ! v)\<lparr>status := BlkValid\<rparr>) l1) 0x10 = Inr (Some v)"
proof -
  have "BlkValid AND BlkValid \<noteq> 0" by (simp add: BlkValid_def)
  from miss_insert_find [OF demo_reach demo_set(2) _ this, where m = 1 and t = 0 and maxMasters = 2] show ?thesis
    by force
qed

text \<open>invalidating a block of a reachable store makes exactly the addresses it held miss.\<close>

theorem invalidate_forgets:
  assumes "lru_reach maxMasters l" and "i < length (blks l)"
  shows "\<exists>l'. invalidateBlk maxMasters l (Some i) = Inr l'
    \<and> (\<forall>a. findBlock l' a = (if findBlock l a = Inr (Some i) then Inr None else findBlock l a))
    \<and> isTouched (blks l' ! i) = False \<and> lockList (blks l' ! i) = []"
proof -
  have m: "isValid (blks l ! i) \<longrightarrow> srcMasterId (blks l ! i) < maxMasters" and inv: "lru_inv l"
    using reach_masters [OF assms(1)] reach_good [OF assms(1)] assms(2) by blast+
  from invalidate_lookup [OF inv assms(2) m] invalidateBlk_eq [OF assms(2) m] show ?thesis
    using assms(2) by (auto simp: invalidated_def)
qed

theorem invalidate_forgets_witness:
  "\<exists>l'. invalidateBlk 2 demo (Some 3) = Inr l' \<and> findBlock l' 0x10 = Inr None"
  using invalidate_forgets [OF demo_reach, of 3 2] demo_sets(2) demo_set(2) by force

text \<open>in a store the constructor accepts, the parts of an address give it back: the tag and the
  set rebuild the aligned address, the offset the rest, and the set index is in range.\<close>

theorem address_parts_roundtrip:
  assumes "LRU_init nsets bsize ass lat = Inr l" and "unat nsets * unat ass < 2 ^ 32"
  shows "extractSet l a < unat nsets
    \<and> regenerateBlkAddr l (extractTag l a) (of_nat (extractSet l a)) = blkAlign l a
    \<and> blkAlign l a + of_nat (extractBlkOffset l a) = a"
proof -
  from LRU_init_state(1) [OF assms] obtain b k where p: "lru_pow2 b k l" by blast
  have "numSets l = nsets" using assms(1)
    by (auto simp: LRU_init_def res_bind_eq_Inr Let_def split: if_splits)
  then show ?thesis using addr_parts [OF p, of a] by simp
qed

theorem address_parts_roundtrip_witness:
  "regenerateBlkAddr demo (extractTag demo 0xabcd) (of_nat (extractSet demo 0xabcd)) = blkAlign demo 0xabcd"
  using address_parts_roundtrip [OF demo_init, of "0xabcd"] by simp

text \<open>a store-conditional succeeds exactly when its context has a load-locked access to the block
  with no store, conditional or not, successful or not, after it; and it clears every lock.\<close>

theorem store_conditional_succeeds_iff:
  assumes "lockList b = []"
  shows "\<exists>b' b''. lock_run ops b = Inr b'
    \<and> checkWrite True c b' = (\<exists>p q. ops = p @ LoadLocked c # q \<and> list_all is_load q,
        Some (if \<exists>p q. ops = p @ LoadLocked c # q \<and> list_all is_load q then 1 else 0), b'')
    \<and> lockList b'' = []"
proof -
  from lock_run_locks [of ops b] assms obtain b' where b': "lock_run ops b = Inr b'"
    "lockList b' = List.map (\<lambda>x. case x of LoadLocked c \<Rightarrow> c) (takeWhile is_load (rev ops))" by auto
  have "c \<in> set (lockList b') \<longleftrightarrow> (\<exists>p q. ops = p @ LoadLocked c # q \<and> list_all is_load q)"
    unfolding b'(2) by (rule reserved_iff)
  then show ?thesis using b'(1)
    by (simp add: checkWrite_def Let_def list_ex_iff clearLoadLocks_def)
qed

theorem store_conditional_succeeds_iff_witness:
  "\<exists>b' b''. lock_run [LoadLocked 1, LoadLocked 2, StoreCond 1] CacheBlk_init = Inr b'
     \<and> checkWrite True 2 b' = (False, Some 0, b'')"
  using store_conditional_succeeds_iff [of CacheBlk_init "[LoadLocked 1, LoadLocked 2, StoreCond 1]" 2]
  by (simp add: CacheBlk_init_def checkWrite_def trackLoadLocked_def clearLoadLocks_def)

end
