(* ===== verification/O3_ROB.thy ===== *)
theory O3_ROB
  imports Gem5_Prelude
begin

text \<open>
  The reorder buffer of the out-of-order core (\<open>src/cpu/o3/rob.hh\<close>, \<open>rob_impl.hh\<close>): one list of
  instructions per thread, its counters under the three sharing policies, and the squash that
  walks a list backwards a few instructions a cycle.  Instructions are shared objects: a list
  holds their identities, and \<open>insts\<close> the objects.  An iterator into a thread's list is the
  instruction it stands on, \<open>None\<close> for \<open>end()\<close>; reading through one that is not in the list is an
  error.  \<open>removeInstsThisCycle\<close> and \<open>removeList\<close> are the CPU's, set by \<open>removeFrontInst\<close>.
\<close>

type_synonym inst_id = nat

text \<open>What the buffer uses of \<open>BaseDynInst\<close>: its status bits, sequence number and thread.\<close>

record rob_inst =
  seqNum :: u64
  threadNumber :: nat
  RobEntry :: bool
  Committed :: bool
  Squashed :: bool
  CanCommit :: bool

datatype Status = Running | Idle | ROBSquashing

datatype ROBPolicy = Dynamic | Partitioned | Threshold

record ROB =
  robStatus :: "nat \<Rightarrow> Status"
  robPolicy :: ROBPolicy
  numEntries :: u32
  threadEntries :: "nat \<Rightarrow> u32"
  maxEntries :: "nat \<Rightarrow> u32"
  instList :: "nat \<Rightarrow> inst_id list"
  squashWidth :: nat
  rob_tail :: "inst_id option"
  rob_head :: "inst_id option"
  squashIt :: "nat \<Rightarrow> inst_id option"
  numInstsInROB :: int
  squashedSeqNum :: "nat \<Rightarrow> u64"
  doneSquashing :: "nat \<Rightarrow> bool"
  numThreads :: nat
  activeThreads :: "nat list"
  robReads :: nat
  robWrites :: nat
  insts :: "inst_id \<Rightarrow> rob_inst"
  removeInstsThisCycle :: bool
  removeList :: "inst_id list"

section \<open>Construction and sharing\<close>

text \<open>The C library's \<open>tolower\<close> on ASCII.\<close>

definition to_lower :: "char \<Rightarrow> char" where
  "to_lower c = (let n = of_char c :: nat in if 65 \<le> n \<and> n \<le> 90 then char_of (n + 32) else c)"

definition below :: "nat \<Rightarrow> 'a \<Rightarrow> (nat \<Rightarrow> 'a) \<Rightarrow> nat \<Rightarrow> 'a" where
  "below n x f = (\<lambda>tid. if tid < n then x else f tid)"

text \<open>The first argument is the memory the buffer is built in: what no loop sets keeps its value.\<close>

definition ROB_init :: "ROB \<Rightarrow> u32 \<Rightarrow> nat \<Rightarrow> string \<Rightarrow> u32 \<Rightarrow> nat \<Rightarrow> ROB res" where
  "ROB_init mem entries width policy_name threshold threads =
     (let r = mem\<lparr>numEntries := entries, squashWidth := width, numInstsInROB := 0, numThreads := threads,
                squashedSeqNum := below threads 0 (squashedSeqNum mem),
                doneSquashing := below threads True (doneSquashing mem),
                threadEntries := below threads 0 (threadEntries mem),
                instList := (\<lambda>tid. []), robReads := 0, robWrites := 0,
                squashIt := below threads None (squashIt mem), rob_head := None, rob_tail := None\<rparr>;
          policy = List.map to_lower policy_name
      in if policy = ''dynamic''
         then Inr (r\<lparr>robPolicy := Dynamic, maxEntries := below threads entries (maxEntries r)\<rparr>)
         else if policy = ''partitioned''
         then (if threads = 0 then Inl OutOfRange \<comment> \<open>the division by \<open>numThreads\<close>\<close>
               else Inr (r\<lparr>robPolicy := Partitioned,
                           maxEntries := below threads (entries div of_nat threads) (maxEntries r)\<rparr>))
         else if policy = ''threshold''
         then Inr (r\<lparr>robPolicy := Threshold, maxEntries := below threads threshold (maxEntries r)\<rparr>)
         else Inl AssertFailed)"

definition setActiveThreads :: "nat list \<Rightarrow> ROB \<Rightarrow> ROB" where
  "setActiveThreads ts r = r\<lparr>activeThreads := ts\<rparr>"

definition rob_switchOut :: "ROB \<Rightarrow> ROB" where
  "rob_switchOut r = r\<lparr>instList := below (numThreads r) [] (instList r)\<rparr>"

definition rob_takeOverFrom :: "ROB \<Rightarrow> ROB" where
  "rob_takeOverFrom r =
     r\<lparr>doneSquashing := below (numThreads r) True (doneSquashing r),
       threadEntries := below (numThreads r) 0 (threadEntries r),
       squashIt := below (numThreads r) None (squashIt r),
       numInstsInROB := 0, rob_head := None, rob_tail := None\<rparr>"

definition resetEntries :: "ROB \<Rightarrow> ROB" where
  "resetEntries r =
     (if robPolicy r \<noteq> Dynamic \<or> numThreads r > 1
      then let active_threads = length (activeThreads r)
           in r\<lparr>maxEntries := (\<lambda>tid.
                 if tid \<in> set (activeThreads r)
                 then if robPolicy r = Partitioned then numEntries r div of_nat active_threads
                      else if robPolicy r = Threshold \<and> active_threads = 1 then numEntries r
                      else maxEntries r tid
                 else maxEntries r tid)\<rparr>
      else r)"

definition entryAmount :: "ROB \<Rightarrow> nat \<Rightarrow> int res" where
  "entryAmount r num_threads =
     (if robPolicy r = Partitioned
      then if num_threads = 0 then Inl OutOfRange else Inr (sint (numEntries r div of_nat num_threads))
      else Inr 0)"

definition countInsts_thread :: "ROB \<Rightarrow> nat \<Rightarrow> nat" where
  "countInsts_thread r tid = length (instList r tid)"

definition countInsts :: "ROB \<Rightarrow> nat" where
  "countInsts r = sum_list (List.map (countInsts_thread r) [0 ..< numThreads r])"

section \<open>The oldest and the youngest instruction\<close>

text \<open>The loop of \<open>updateHead\<close>; the accumulator is \<open>head\<close> and \<open>lowest_num\<close> once one is found.\<close>

fun updateHead_loop :: "ROB \<Rightarrow> nat list \<Rightarrow> (inst_id \<times> u64) option \<Rightarrow> (inst_id \<times> u64) option" where
  "updateHead_loop r [] acc = acc"
| "updateHead_loop r (tid # ts) acc =
     (case instList r tid of
        [] \<Rightarrow> updateHead_loop r ts acc
      | i # _ \<Rightarrow>
          (case acc of
             None \<Rightarrow> updateHead_loop r ts (Some (i, seqNum (insts r i)))
           | Some (h, lowest_num) \<Rightarrow>
               if seqNum (insts r i) < lowest_num
               then updateHead_loop r ts (Some (i, seqNum (insts r i)))
               else updateHead_loop r ts acc))"

definition updateHead :: "ROB \<Rightarrow> ROB" where
  "updateHead r = r\<lparr>rob_head := map_option fst (updateHead_loop r (activeThreads r) None)\<rparr>"

fun updateTail_loop :: "ROB \<Rightarrow> nat list \<Rightarrow> inst_id option \<Rightarrow> inst_id option" where
  "updateTail_loop r [] t = t"
| "updateTail_loop r (tid # ts) t =
     (if instList r tid = [] then updateTail_loop r ts t
      else let tail_thread = last (instList r tid)
           in (case t of
                 None \<Rightarrow> updateTail_loop r ts (Some tail_thread)
               | Some cur \<Rightarrow>
                   if seqNum (insts r tail_thread) > seqNum (insts r cur)
                   then updateTail_loop r ts (Some tail_thread)
                   else updateTail_loop r ts t))"

definition updateTail :: "ROB \<Rightarrow> ROB" where
  "updateTail r = r\<lparr>rob_tail := updateTail_loop r (activeThreads r) None\<rparr>"

section \<open>Insertion and retirement\<close>

definition set_inst :: "inst_id \<Rightarrow> (rob_inst \<Rightarrow> rob_inst) \<Rightarrow> ROB \<Rightarrow> ROB" where
  "set_inst i f r = r\<lparr>insts := (insts r)(i := f (insts r i))\<rparr>"

definition insertInst :: "inst_id \<Rightarrow> ROB \<Rightarrow> ROB res" where
  "insertInst i r =
     (let r1 = r\<lparr>robWrites := robWrites r + 1\<rparr>
      in assert_that (word_of_int (numInstsInROB r1) \<noteq> numEntries r1)
        (let tid = threadNumber (insts r1 i);
             r2 = r1\<lparr>instList := (instList r1)(tid := instList r1 tid @ [i])\<rparr>;
             r3 = (if numInstsInROB r2 = 0 then r2\<lparr>rob_head := Some (hd (instList r2 tid))\<rparr> else r2)
         in assert_that (numInstsInROB r2 = 0 \<longrightarrow> rob_head r3 = Some i)
           (let r4 = set_inst i (\<lambda>x. x\<lparr>RobEntry := True\<rparr>) (r3\<lparr>rob_tail := Some (last (instList r3 tid))\<rparr>);
                r5 = r4\<lparr>numInstsInROB := numInstsInROB r4 + 1,
                        threadEntries := (threadEntries r4)(tid := threadEntries r4 tid + 1)\<rparr>
            in assert_that (rob_tail r5 = Some i) (Inr r5))))"

text \<open>\<open>cpu->removeFrontInst\<close> queues the instruction for removal from the CPU's list.\<close>

definition removeFrontInst :: "inst_id \<Rightarrow> ROB \<Rightarrow> ROB" where
  "removeFrontInst i r = r\<lparr>removeInstsThisCycle := True, removeList := removeList r @ [i]\<rparr>"

definition retireHead :: "nat \<Rightarrow> ROB \<Rightarrow> ROB res" where
  "retireHead tid r =
     (let r1 = r\<lparr>robWrites := robWrites r + 1\<rparr>
      in assert_that (numInstsInROB r1 > 0)
        (case instList r1 tid of
           [] \<Rightarrow> Inl OutOfRange
         | head_inst # rest \<Rightarrow>
             assert_that (CanCommit (insts r1 head_inst))
               (let r2 = r1\<lparr>numInstsInROB := numInstsInROB r1 - 1,
                            threadEntries := (threadEntries r1)(tid := threadEntries r1 tid - 1)\<rparr>;
                    r3 = set_inst head_inst (\<lambda>x. x\<lparr>RobEntry := False, Committed := True\<rparr>) r2;
                    r4 = r3\<lparr>instList := (instList r3)(tid := rest)\<rparr>
                in Inr (removeFrontInst head_inst (updateHead r4)))))"

definition isHeadReady :: "nat \<Rightarrow> ROB \<Rightarrow> (bool \<times> ROB) res" where
  "isHeadReady tid r =
     (let r1 = r\<lparr>robReads := robReads r + 1\<rparr>
      in if threadEntries r1 tid \<noteq> 0
         then (case instList r1 tid of [] \<Rightarrow> Inl OutOfRange | i # _ \<Rightarrow> Inr (CanCommit (insts r1 i), r1))
         else Inr (False, r1))"

fun canCommit_loop :: "nat list \<Rightarrow> ROB \<Rightarrow> (bool \<times> ROB) res" where
  "canCommit_loop [] r = Inr (False, r)"
| "canCommit_loop (tid # ts) r =
     res_bind (isHeadReady tid r) (\<lambda>(b, r1). if b then Inr (True, r1) else canCommit_loop ts r1)"

definition canCommit :: "ROB \<Rightarrow> (bool \<times> ROB) res" where
  "canCommit r = canCommit_loop (activeThreads r) r"

definition numFreeEntries :: "ROB \<Rightarrow> u32" where
  "numFreeEntries r = numEntries r - word_of_int (numInstsInROB r)"

definition numFreeEntries_thread :: "ROB \<Rightarrow> nat \<Rightarrow> u32" where
  "numFreeEntries_thread r tid = maxEntries r tid - threadEntries r tid"

definition isFull :: "ROB \<Rightarrow> bool" where
  "isFull r \<longleftrightarrow> word_of_int (numInstsInROB r) = numEntries r"

definition isFull_thread :: "ROB \<Rightarrow> nat \<Rightarrow> bool" where
  "isFull_thread r tid \<longleftrightarrow> threadEntries r tid = numEntries r"

definition isEmpty :: "ROB \<Rightarrow> bool" where
  "isEmpty r \<longleftrightarrow> numInstsInROB r = 0"

definition isEmpty_thread :: "ROB \<Rightarrow> nat \<Rightarrow> bool" where
  "isEmpty_thread r tid \<longleftrightarrow> threadEntries r tid = 0"

text \<open>The head instruction, or \<open>None\<close> for the dummy instruction of an empty thread.\<close>

definition readHeadInst :: "nat \<Rightarrow> ROB \<Rightarrow> inst_id option res" where
  "readHeadInst tid r =
     (if threadEntries r tid \<noteq> 0
      then (case instList r tid of
              [] \<Rightarrow> Inl OutOfRange
            | i # _ \<Rightarrow> assert_that (RobEntry (insts r i)) (Inr (Some i)))
      else Inr None)"

definition readTailInst :: "nat \<Rightarrow> ROB \<Rightarrow> inst_id res" where
  "readTailInst tid r = (if instList r tid = [] then Inl OutOfRange else Inr (last (instList r tid)))"

fun findInst_loop :: "ROB \<Rightarrow> u64 \<Rightarrow> inst_id list \<Rightarrow> inst_id option" where
  "findInst_loop r sn [] = None"
| "findInst_loop r sn (i # is) = (if seqNum (insts r i) = sn then Some i else findInst_loop r sn is)"

definition findInst :: "nat \<Rightarrow> u64 \<Rightarrow> ROB \<Rightarrow> inst_id option" where
  "findInst tid squash_inst r = findInst_loop r squash_inst (instList r tid)"

section \<open>Squashing\<close>

text \<open>The iterator one step back.\<close>

fun before :: "inst_id \<Rightarrow> inst_id list \<Rightarrow> inst_id option" where
  "before i (x # y # ys) = (if y = i then Some x else before i (y # ys))"
| "before i _ = None"

definition finish_squash :: "nat \<Rightarrow> ROB \<Rightarrow> ROB" where
  "finish_squash tid r = r\<lparr>squashIt := (squashIt r)(tid := None),
     doneSquashing := (doneSquashing r)(tid := True)\<rparr>"

text \<open>
  The loop of \<open>doSquash\<close> with what is left of the squash width; the results are whether it returned
  from the middle, and \<open>robTailUpdate\<close>.
\<close>

fun squash_insts :: "nat \<Rightarrow> nat \<Rightarrow> bool \<Rightarrow> ROB \<Rightarrow> (bool \<times> bool \<times> ROB) res" where
  "squash_insts tid 0 upd r = Inr (False, upd, r)"
| "squash_insts tid (Suc n) upd r =
     (case squashIt r tid of
        None \<Rightarrow> Inr (False, upd, r)
      | Some i \<Rightarrow>
          if i \<notin> set (instList r tid) then Inl OutOfRange
          else if \<not> seqNum (insts r i) > squashedSeqNum r tid then Inr (False, upd, r)
          else let r1 = set_inst i (\<lambda>x. x\<lparr>Squashed := True, CanCommit := True\<rparr>) r
               in if hd (instList r1 tid) = i then Inr (True, upd, finish_squash tid r1)
                  else squash_insts tid n (upd \<or> i = last (instList r1 tid))
                         (r1\<lparr>squashIt := (squashIt r1)(tid := before i (instList r1 tid))\<rparr>))"

definition doSquash :: "nat \<Rightarrow> ROB \<Rightarrow> ROB res" where
  "doSquash tid r =
     (let r1 = r\<lparr>robWrites := robWrites r + 1\<rparr>
      in case squashIt r1 tid of
           None \<Rightarrow> Inl AssertFailed
         | Some i \<Rightarrow>
             if i \<notin> set (instList r1 tid) then Inl OutOfRange
             else if seqNum (insts r1 i) < squashedSeqNum r1 tid then Inr (finish_squash tid r1)
             else res_bind (squash_insts tid (squashWidth r1) False r1) (\<lambda>(returned, robTailUpdate, r2).
               if returned then Inr r2
               else (case squashIt r2 tid of
                       None \<Rightarrow> Inl OutOfRange
                     | Some j \<Rightarrow>
                         let r3 = (if seqNum (insts r2 j) \<le> squashedSeqNum r2 tid
                                   then finish_squash tid r2 else r2)
                         in Inr (if robTailUpdate then updateTail r3 else r3))))"

definition rob_squash :: "u64 \<Rightarrow> nat \<Rightarrow> ROB \<Rightarrow> ROB res" where
  "rob_squash squash_num tid r =
     (if isEmpty r then Inr r
      else let r1 = r\<lparr>robStatus := (robStatus r)(tid := ROBSquashing),
                      doneSquashing := (doneSquashing r)(tid := False),
                      squashedSeqNum := (squashedSeqNum r)(tid := squash_num)\<rparr>
           in if instList r1 tid \<noteq> []
              then doSquash tid (r1\<lparr>squashIt := (squashIt r1)(tid := Some (last (instList r1 tid)))\<rparr>)
              else Inr r1)"

end
