(* ===== verification/O3_ROB_Laws.thy ===== *)
theory O3_ROB_Laws
  imports O3_ROB
begin

text \<open>
  The reorder buffer of \<open>O3_ROB\<close>: lists in age order, the squash loop as a count of steps down a
  list (\<open>squash_state\<close>), the invariant (\<open>rob_inv\<close>: lists, counters, squash iterators) that each
  operation keeps, the reachable buffers (\<open>rob_reach\<close>) and the properties that rest on them.
\<close>

section \<open>Age order\<close>

definition by_age :: "(inst_id \<Rightarrow> rob_inst) \<Rightarrow> inst_id list \<Rightarrow> bool" where
  "by_age f xs \<longleftrightarrow> sorted_wrt (\<lambda>i j. seqNum (f i) < seqNum (f j)) xs"

lemma by_age_nil [simp]: "by_age f []" by (simp add: by_age_def)

lemma by_age_Cons [simp]: "by_age f (x # xs) \<longleftrightarrow> (\<forall>j \<in> set xs. seqNum (f x) < seqNum (f j)) \<and> by_age f xs"
  by (simp add: by_age_def)

lemma by_age_append [simp]: "by_age f (xs @ ys) \<longleftrightarrow> by_age f xs \<and> by_age f ys
    \<and> (\<forall>i \<in> set xs. \<forall>j \<in> set ys. seqNum (f i) < seqNum (f j))"
  by (auto simp: by_age_def sorted_wrt_append)

lemma by_age_distinct: "by_age f xs \<Longrightarrow> distinct xs"
  by (induction xs) auto

lemma by_age_cong: "(\<And>i. i \<in> set xs \<Longrightarrow> seqNum (g i) = seqNum (f i)) \<Longrightarrow> by_age g xs = by_age f xs"
  by (induction xs) auto

lemma by_age_nth: "by_age f xs \<Longrightarrow> a < b \<Longrightarrow> b < length xs \<Longrightarrow> seqNum (f (xs ! a)) < seqNum (f (xs ! b))"
  by (simp add: by_age_def sorted_wrt_iff_nth_less)

text \<open>The instructions of a list younger than a sequence number are a suffix of it.\<close>

definition old_part :: "(inst_id \<Rightarrow> rob_inst) \<Rightarrow> u64 \<Rightarrow> inst_id list \<Rightarrow> inst_id list" where
  "old_part f s xs = filter (\<lambda>i. seqNum (f i) \<le> s) xs"

definition young_part :: "(inst_id \<Rightarrow> rob_inst) \<Rightarrow> u64 \<Rightarrow> inst_id list \<Rightarrow> inst_id list" where
  "young_part f s xs = filter (\<lambda>i. s < seqNum (f i)) xs"

lemma old_young: "by_age f xs \<Longrightarrow> xs = old_part f s xs @ young_part f s xs"
proof (induction xs)
  case (Cons x xs)
  show ?case
  proof (cases "seqNum (f x) \<le> s")
    case True
    then show ?thesis using Cons by (auto simp: old_part_def young_part_def)
  next
    case False
    have "s < seqNum (f i)" if "i \<in> set xs" for i
      using Cons.prems that False by (meson by_age_Cons less_trans not_le)
    then have "old_part f s xs = []" "young_part f s xs = xs"
      by (auto simp: old_part_def young_part_def filter_empty_conv not_le intro!: filter_True)
    then show ?thesis using False by (simp add: old_part_def young_part_def)
  qed
qed (simp add: old_part_def young_part_def)

lemma nth_young:
  assumes "by_age f xs" and "j < length xs"
  shows "s < seqNum (f (xs ! j)) \<longleftrightarrow> length (old_part f s xs) \<le> j"
proof -
  let ?o = "old_part f s xs" and ?y = "young_part f s xs"
  have xs: "xs = ?o @ ?y" using old_young [OF assms(1)] .
  show ?thesis
  proof (cases "length ?o \<le> j")
    case True
    then have "xs ! j = ?y ! (j - length ?o)" using xs by (metis not_le nth_append)
    moreover have "j - length ?o < length ?y" using xs assms(2) True by (metis add_diff_inverse_nat length_append nat_add_left_cancel_less not_le)
    ultimately have "xs ! j \<in> set ?y" by simp
    then show ?thesis using True by (auto simp: young_part_def)
  next
    case False
    then have "xs ! j = ?o ! j" using xs by (metis not_le nth_append)
    then have "xs ! j \<in> set ?o" using False by simp
    then show ?thesis using False by (auto simp: old_part_def)
  qed
qed

lemma before_nth:
  assumes "distinct xs" and "Suc j < length xs"
  shows "before (xs ! Suc j) xs = Some (xs ! j)"
  using assms
proof (induction "xs ! Suc j" xs arbitrary: j rule: before.induct)
  case (1 x y ys)
  show ?case
  proof (cases j)
    case 0 then show ?thesis by simp
  next
    case (Suc k)
    then have ne: "y \<noteq> (x # y # ys) ! Suc j" using "1.prems" by (auto simp: in_set_conv_nth)
    have "before ((y # ys) ! Suc k) (y # ys) = Some ((y # ys) ! k)"
      using "1.hyps" [of k] ne "1.prems" Suc by simp
    then show ?thesis using ne Suc by simp
  qed
qed auto

section \<open>Squashing\<close>

definition squashed_inst :: "rob_inst \<Rightarrow> rob_inst" where
  "squashed_inst x = x\<lparr>Squashed := True, CanCommit := True\<rparr>"

definition mark_squashed :: "inst_id set \<Rightarrow> ROB \<Rightarrow> ROB" where
  "mark_squashed A r = r\<lparr>insts := (\<lambda>i. if i \<in> A then squashed_inst (insts r i) else insts r i)\<rparr>"

lemma squashed_inst_simps [simp]:
  "seqNum (squashed_inst x) = seqNum x" "threadNumber (squashed_inst x) = threadNumber x"
  "RobEntry (squashed_inst x) = RobEntry x" "squashed_inst (squashed_inst x) = squashed_inst x"
  by (simp_all add: squashed_inst_def)

lemma mark_seqNum [simp]: "seqNum (insts (mark_squashed A r) i) = seqNum (insts r i)"
  by (simp add: mark_squashed_def)

lemma mark_update [simp]:
  "mark_squashed A (r\<lparr>squashIt := f\<rparr>) = (mark_squashed A r)\<lparr>squashIt := f\<rparr>"
  "mark_squashed A (r\<lparr>robWrites := n\<rparr>) = (mark_squashed A r)\<lparr>robWrites := n\<rparr>"
  by (simp_all add: mark_squashed_def cong: if_cong)

lemma mark_fields [simp]:
  "squashIt (mark_squashed A r) = squashIt r" "doneSquashing (mark_squashed A r) = doneSquashing r"
  "instList (mark_squashed A r) = instList r" "squashedSeqNum (mark_squashed A r) = squashedSeqNum r"
  "robWrites (mark_squashed A r) = robWrites r" "squashWidth (mark_squashed A r) = squashWidth r"
  by (simp_all add: mark_squashed_def)

lemma mark_mark: "mark_squashed A (mark_squashed B r) = mark_squashed (A \<union> B) r"
proof -
  have "(\<lambda>i. if i \<in> A then squashed_inst (insts (mark_squashed B r) i) else insts (mark_squashed B r) i)
      = (\<lambda>i. if i \<in> A \<union> B then squashed_inst (insts r i) else insts r i)"
    by (auto simp: mark_squashed_def)
  then show ?thesis unfolding mark_squashed_def by simp
qed

text \<open>
  The loop from position \<open>j\<close>, where the younger instructions start at position \<open>k\<close>: it takes
  \<open>min w (j + 1 - k)\<close> steps down, and returns from the middle at position 0.
\<close>

lemma squash_insts_run:
  assumes age: "by_age (insts r) (instList r tid)" and it: "squashIt r tid = Some (instList r tid ! j)"
    and j: "j < length (instList r tid)"
    and k: "k = length (old_part (insts r) (squashedSeqNum r tid) (instList r tid))" and kj: "k \<le> Suc j"
    and c: "c = min w (Suc j - k)"
  shows "\<exists>upd'. squash_insts tid w upd r =
    (if c = Suc j then Inr (True, upd', finish_squash tid (mark_squashed ((!) (instList r tid) ` {Suc j - c ..< Suc j}) r))
     else Inr (False, upd', (mark_squashed ((!) (instList r tid) ` {Suc j - c ..< Suc j}) r)
       \<lparr>squashIt := (squashIt r)(tid := Some (instList r tid ! (j - c)))\<rparr>))"
  using assms
proof (induction w arbitrary: r j c upd)
  case 0
  have "r\<lparr>insts := insts r, squashIt := (squashIt r)(tid := Some (instList r tid ! j))\<rparr> = r"
    using 0 by (cases r) (simp add: fun_upd_idem)
  then show ?case using 0 by (simp add: mark_squashed_def)
next
  case (Suc w)
  let ?xs = "instList r tid" and ?s = "squashedSeqNum r tid"
  let ?i = "?xs ! j"
  have inl: "?i \<in> set ?xs" using Suc.prems(3) by simp
  have young: "?s < seqNum (insts r ?i) \<longleftrightarrow> k \<le> j" using nth_young [OF Suc.prems(1,3)] Suc.prems(4) by simp
  show ?case
  proof (cases "k \<le> j")
    case False
    then have c0: "c = 0" using Suc.prems(5,6) by simp
    have "r\<lparr>insts := insts r, squashIt := (squashIt r)(tid := Some (instList r tid ! j))\<rparr> = r"
      using Suc.prems(2) by (cases r) (simp add: fun_upd_idem)
    then show ?thesis using c0 False young inl Suc.prems(2) by (simp add: mark_squashed_def)
  next
    case True
    let ?r1 = "set_inst ?i (\<lambda>x. x\<lparr>Squashed := True, CanCommit := True\<rparr>) r"
    have r1: "?r1 = mark_squashed {?i} r"
      by (simp add: set_inst_def mark_squashed_def squashed_inst_def fun_eq_iff)
    have hd: "hd ?xs = ?i \<longleftrightarrow> j = 0"
      using Suc.prems(3) by_age_distinct [OF Suc.prems(1)]
      by (cases ?xs) (auto simp: nth_eq_iff_index_eq nth_Cons split: nat.splits)
    show ?thesis
    proof (cases j)
      case 0
      then have "c = 1" using True Suc.prems(6) by simp
      then show ?thesis using 0 True young inl Suc.prems(2) hd r1
        by (simp add: Let_def)
    next
      case (Suc j')
      let ?r2 = "?r1\<lparr>squashIt := (squashIt ?r1)(tid := before ?i (instList ?r1 tid))\<rparr>"
      have b: "before ?i ?xs = Some (?xs ! j')"
        using before_nth [OF by_age_distinct [OF Suc.prems(1)], of j'] Suc.prems(3) Suc by simp
      have l2: "instList ?r2 = instList r" "squashedSeqNum ?r2 = squashedSeqNum r"
        "squashIt ?r2 tid = Some (?xs ! j')" using b by (simp_all add: set_inst_def)
      have sn1: "seqNum (insts ?r1 i) = seqNum (insts r i)" for i by (simp add: set_inst_def)
      then have sn: "seqNum (insts ?r2 i) = seqNum (insts r i)" for i by simp
      have age2: "by_age (insts ?r2) (instList ?r2 tid)"
        using Suc.prems(1) by_age_cong [of ?xs "insts ?r2" "insts r"] sn l2 by simp
      have k2: "k = length (old_part (insts ?r2) (squashedSeqNum ?r2 tid) (instList ?r2 tid))"
        using Suc.prems(4) unfolding old_part_def sn l2 .
      have c2: "c = Suc (min w (Suc j' - k))" using Suc.prems(6) True Suc by simp
      from Suc.IH [OF age2 _ _ k2 _ refl, of j' "upd \<or> ?i = last ?xs"] True Suc Suc.prems(3) l2
      obtain upd' where u: "squash_insts tid w (upd \<or> ?i = last ?xs) ?r2 =
        (if min w (Suc j' - k) = Suc j' then Inr (True, upd', finish_squash tid (mark_squashed ((!) ?xs ` {Suc j' - min w (Suc j' - k) ..< Suc j'}) ?r2))
         else Inr (False, upd', (mark_squashed ((!) ?xs ` {Suc j' - min w (Suc j' - k) ..< Suc j'}) ?r2)
           \<lparr>squashIt := (squashIt ?r2)(tid := Some (?xs ! (j' - min w (Suc j' - k))))\<rparr>))" by auto
      have set_eq: "(!) ?xs ` {Suc j - c ..< Suc j} = insert ?i ((!) ?xs ` {Suc j' - min w (Suc j' - k) ..< Suc j'})"
      proof -
        have "{Suc j - c ..< Suc j} = insert j {Suc j' - min w (Suc j' - k) ..< Suc j'}" using Suc c2 by auto
        then show ?thesis by simp
      qed
      have m: "mark_squashed (insert ?i A) r = mark_squashed A ?r1" for A
        by (simp add: r1 mark_mark)
      have fin: "finish_squash tid (mark_squashed A ?r2) = finish_squash tid (mark_squashed A ?r1)" for A
        by (simp add: finish_squash_def r1)
      have step: "squash_insts tid (Suc w) upd r = squash_insts tid w (upd \<or> ?i = last ?xs) ?r2"
        using True young inl Suc.prems(2) hd Suc by (simp add: Let_def set_inst_def)
      have over: "(mark_squashed A ?r2)\<lparr>squashIt := (squashIt ?r2)(tid := v)\<rparr> = (mark_squashed A ?r1)\<lparr>squashIt := (squashIt r)(tid := v)\<rparr>" for A v
        by (simp add: r1)
      show ?thesis unfolding step u set_eq m fin over using c2 Suc by (intro exI [of _ upd']) (auto simp: fun_upd_def)
    qed
  qed
qed


text \<open>What a squash leaves after \<open>p\<close> of the younger instructions below and at position \<open>j\<close>.\<close>

definition squash_state :: "nat \<Rightarrow> nat \<Rightarrow> nat \<Rightarrow> nat \<Rightarrow> ROB \<Rightarrow> ROB" where
  "squash_state tid k j p r = (mark_squashed ((!) (instList r tid) ` {Suc j - p ..< Suc j}) r)
     \<lparr>squashIt := (squashIt r)(tid := if Suc j - p \<le> k then None else Some (instList r tid ! (j - p))),
      doneSquashing := (doneSquashing r)(tid := doneSquashing r tid \<or> Suc j - p \<le> k)\<rparr>"

definition at_squash :: "nat \<Rightarrow> nat \<Rightarrow> nat \<Rightarrow> ROB \<Rightarrow> bool" where
  "at_squash tid k j r \<longleftrightarrow> by_age (insts r) (instList r tid) \<and> squashIt r tid = Some (instList r tid ! j)
     \<and> j < length (instList r tid)
     \<and> k = length (old_part (insts r) (squashedSeqNum r tid) (instList r tid)) \<and> k \<le> Suc j"

lemma mark_empty [simp]: "mark_squashed {} r = r"
  by (simp add: mark_squashed_def)

lemma finish_state:
  fixes tid k j c r n
  defines "R \<equiv> (mark_squashed ((!) (instList r tid) ` {Suc j - c ..< Suc j}) (r\<lparr>robWrites := n\<rparr>))
    \<lparr>squashIt := (squashIt r)(tid := Some (instList r tid ! (j - c)))\<rparr>"
  shows "(if Suc j - c \<le> k then finish_squash tid R else R) = (squash_state tid k j c r)\<lparr>robWrites := n\<rparr>"
proof (cases "Suc j - c \<le> k")
  case True
  then show ?thesis by (simp add: R_def squash_state_def finish_squash_def)
next
  case False
  have "(doneSquashing r)(tid := doneSquashing r tid) = doneSquashing r" by simp
  moreover have "x\<lparr>doneSquashing := doneSquashing x\<rparr> = x" for x :: ROB by (cases x) simp
  ultimately have "(mark_squashed A r)\<lparr>squashIt := f, doneSquashing := doneSquashing r, robWrites := n\<rparr>
      = (mark_squashed A r)\<lparr>squashIt := f, robWrites := n\<rparr>" for A f
    by (metis (no_types) mark_fields(2) ROB.surjective ROB.update_convs(10) ROB.update_convs(13))
  then show ?thesis using False by (simp add: R_def squash_state_def)
qed

lemma squash_state_done:
  "doneSquashing (squash_state tid k j p r) tid \<longleftrightarrow> doneSquashing r tid \<or> Suc j - p \<le> k"
  by (simp add: squash_state_def)

lemma tail_same: "rob_tail x = t \<Longrightarrow> x\<lparr>rob_tail := t\<rparr> = x"
  by (cases x) simp

lemma updated_tail: "\<exists>t. (if upd then updateTail x else x) = x\<lparr>rob_tail := t\<rparr>"
  using tail_same [of x, OF refl] by (cases upd) (auto simp: updateTail_def intro: exI [of _ "rob_tail x"])

lemma squash_state_tail [simp]: "rob_tail (squash_state tid k j p r) = rob_tail r"
  by (simp add: squash_state_def mark_squashed_def)

lemma doSquash_run:
  assumes at: "at_squash tid k j r" and w: "0 < squashWidth r"
  shows "\<exists>t. doSquash tid r = Inr ((squash_state tid k j (min (squashWidth r) (Suc j - k)) r)
    \<lparr>robWrites := Suc (robWrites r), rob_tail := t\<rparr>)"
proof -
  let ?xs = "instList r tid" and ?s = "squashedSeqNum r tid" and ?c = "min (squashWidth r) (Suc j - k)"
  note A = at [unfolded at_squash_def]
  from A have age: "by_age (insts r) ?xs" and it: "squashIt r tid = Some (?xs ! j)" and j: "j < length ?xs"
    and k: "k = length (old_part (insts r) ?s ?xs)" and kj: "k \<le> Suc j" by blast+
  have young: "?s < seqNum (insts r (?xs ! a)) \<longleftrightarrow> k \<le> a" if "a < length ?xs" for a
    using nth_young [OF age that] k by simp
  define r1 where "r1 = r\<lparr>robWrites := Suc (robWrites r)\<rparr>"
  have r1: "instList r1 = instList r" "squashIt r1 = squashIt r" "squashedSeqNum r1 = squashedSeqNum r"
    "insts r1 = insts r" "squashWidth r1 = squashWidth r" "doneSquashing r1 = doneSquashing r"
    by (simp_all add: r1_def)
  have fin: "finish_squash tid r1 = (finish_squash tid r)\<lparr>robWrites := Suc (robWrites r)\<rparr>"
    by (simp add: finish_squash_def r1_def)
  from squash_insts_run [of r1 tid j k ?c "squashWidth r" False] age it j k kj obtain upd where run:
    "squash_insts tid (squashWidth r) False r1 =
    (if ?c = Suc j then Inr (True, upd, finish_squash tid (mark_squashed ((!) ?xs ` {Suc j - ?c ..< Suc j}) r1))
     else Inr (False, upd, (mark_squashed ((!) ?xs ` {Suc j - ?c ..< Suc j}) r1)
       \<lparr>squashIt := (squashIt r1)(tid := Some (?xs ! (j - ?c)))\<rparr>))"
    unfolding r1 by auto
  have inl: "?xs ! j \<in> set ?xs" using j by simp
  show ?thesis
  proof (cases "seqNum (insts r (?xs ! j)) < ?s")
    case True
    then have "\<not> k \<le> j" using young [OF j] by (meson less_asym)
    then have c0: "?c = 0" "Suc j \<le> k" by simp_all
    have "doSquash tid r = Inr (finish_squash tid r1)"
      using True it inl by (simp add: doSquash_def Let_def r1_def [symmetric] r1)
    moreover have "finish_squash tid r1 = (squash_state tid k j ?c r)\<lparr>robWrites := Suc (robWrites r)\<rparr>"
      using c0 by (simp add: squash_state_def finish_squash_def r1_def)
    ultimately show ?thesis by (intro exI [of _ "rob_tail r"]) (simp add: tail_same)
  next
    case False
    have base: "doSquash tid r = res_bind (squash_insts tid (squashWidth r) False r1) (\<lambda>(returned, robTailUpdate, r2).
               if returned then Inr r2
               else (case squashIt r2 tid of
                       None \<Rightarrow> Inl OutOfRange
                     | Some j \<Rightarrow>
                         let r3 = (if seqNum (insts r2 j) \<le> squashedSeqNum r2 tid
                                   then finish_squash tid r2 else r2)
                         in Inr (if robTailUpdate then updateTail r3 else r3)))"
      using False it inl unfolding doSquash_def Let_def by (simp add: r1_def [symmetric] r1)
    show ?thesis
    proof (cases "?c = Suc j")
      case True
      then have k0: "k = 0" by simp
      have "doSquash tid r = Inr (finish_squash tid (mark_squashed ((!) ?xs ` {Suc j - ?c ..< Suc j}) r1))"
        unfolding base run using True by simp
      moreover have "finish_squash tid (mark_squashed ((!) ?xs ` {Suc j - ?c ..< Suc j}) r1)
        = (squash_state tid k j ?c r)\<lparr>robWrites := Suc (robWrites r)\<rparr>"
        unfolding squash_state_def True by (simp add: finish_squash_def r1_def)
      ultimately show ?thesis by (intro exI [of _ "rob_tail r"]) (simp add: tail_same)
    next
      case False
      let ?r2 = "(mark_squashed ((!) ?xs ` {Suc j - ?c ..< Suc j}) r1)\<lparr>squashIt := (squashIt r1)(tid := Some (?xs ! (j - ?c)))\<rparr>"
      let ?r3 = "if Suc j - ?c \<le> k then finish_squash tid ?r2 else ?r2"
      have cj: "?c \<le> j" using False by simp
      have sn: "seqNum (insts ?r2 (?xs ! (j - ?c))) = seqNum (insts r (?xs ! (j - ?c)))" using r1 by simp
      have "seqNum (insts r (?xs ! (j - ?c))) \<le> ?s \<longleftrightarrow> \<not> k \<le> j - ?c" using young [of "j - ?c"] j by (simp add: not_less [symmetric])
      also have "\<dots> \<longleftrightarrow> Suc j - ?c \<le> k" using cj by (simp add: Suc_diff_le not_le Suc_le_eq)
      finally have dn: "seqNum (insts ?r2 (?xs ! (j - ?c))) \<le> ?s \<longleftrightarrow> Suc j - ?c \<le> k" unfolding sn .
      have sq2: "squashIt ?r2 tid = Some (?xs ! (j - ?c))" "squashedSeqNum ?r2 = squashedSeqNum r"
        by (simp_all add: mark_squashed_def r1)
      have "doSquash tid r = Inr (if upd then updateTail ?r3 else ?r3)"
        unfolding base run if_not_P [OF False] res_bind_simps prod.case if_False sq2 option.case Let_def dn ..
      moreover have "?r3 = (squash_state tid k j ?c r)\<lparr>robWrites := Suc (robWrites r)\<rparr>"
        using finish_state [of j ?c k tid r "Suc (robWrites r)"] unfolding r1(2) by (simp only: r1_def)
      moreover obtain t where "(if upd then updateTail ?r3 else ?r3) = ?r3\<lparr>rob_tail := t\<rparr>"
        using updated_tail by blast
      ultimately show ?thesis by (intro exI [of _ t]) (simp only:)
    qed
  qed
qed


text \<open>The commit stage calls \<open>doSquash\<close> once a cycle.\<close>

fun squash_cycles :: "nat \<Rightarrow> nat \<Rightarrow> ROB \<Rightarrow> ROB res" where
  "squash_cycles tid 0 r = Inr r"
| "squash_cycles tid (Suc n) r = res_bind (doSquash tid r) (squash_cycles tid n)"

lemma squash_state_fields [simp]:
  "instList (squash_state tid k j p r) = instList r" "squashedSeqNum (squash_state tid k j p r) = squashedSeqNum r"
  "squashWidth (squash_state tid k j p r) = squashWidth r"
  "seqNum (insts (squash_state tid k j p r) i) = seqNum (insts r i)"
  by (simp_all add: squash_state_def)

lemma squash_state_next:
  assumes p: "Suc j - p > k" and q: "k < Suc j"
  shows "squash_state tid k (j - p) q' ((squash_state tid k j p r)\<lparr>robWrites := n, rob_tail := t\<rparr>)
     = (squash_state tid k j (p + q') r)\<lparr>robWrites := n, rob_tail := t\<rparr>"
proof -
  have pj: "p \<le> j" using p by simp
  have i: "Suc (j - p) - q' = Suc j - (p + q')" "j - p - q' = j - (p + q')" using pj by simp_all
  have u: "{Suc (j - p) - q' ..< Suc (j - p)} \<union> {Suc j - p ..< Suc j} = {Suc j - (p + q') ..< Suc j}" using pj by auto
  have m: "mark_squashed A ((mark_squashed B r)\<lparr>squashIt := f, doneSquashing := g, robWrites := n, rob_tail := t\<rparr>)
     = (mark_squashed (A \<union> B) r)\<lparr>squashIt := f, doneSquashing := g, robWrites := n, rob_tail := t\<rparr>" for A B f g
  proof -
    have "mark_squashed A (x\<lparr>squashIt := f, doneSquashing := g, robWrites := n, rob_tail := t\<rparr>)
      = (mark_squashed A x)\<lparr>squashIt := f, doneSquashing := g, robWrites := n, rob_tail := t\<rparr>" for x
      by (simp add: mark_squashed_def cong: if_cong)
    then show ?thesis by (simp add: mark_mark)
  qed
  have np: "\<not> Suc j - p \<le> k" using p by simp
  show ?thesis
    unfolding squash_state_def [of tid k "j - p"]
    unfolding squash_state_def [of tid k j p r] squash_state_def [of tid k j "p + q'" r] i
    using np by (simp add: m image_Un [symmetric] u [unfolded i])
qed

lemma squash_cycles_run:
  assumes "at_squash tid k j r" and "0 < squashWidth r" and "n * squashWidth r < Suc j - k \<or> n = 0"
  shows "\<exists>t. squash_cycles tid (Suc n) r = Inr ((squash_state tid k j (min (Suc n * squashWidth r) (Suc j - k)) r)
    \<lparr>robWrites := robWrites r + Suc n, rob_tail := t\<rparr>)"
  using assms
proof (induction n arbitrary: j r)
  case 0
  from doSquash_run [OF 0(1,2)] show ?case by auto
next
  case (Suc n)
  let ?w = "squashWidth r"
  have wk: "?w < Suc j - k" "?w + n * ?w < Suc j - k" using Suc.prems(2,3) by auto
  then have c: "min ?w (Suc j - k) = ?w" and np: "Suc j - ?w > k" and kj: "k < Suc j" by simp_all
  from doSquash_run [OF Suc.prems(1,2)] obtain t where
    d: "doSquash tid r = Inr ((squash_state tid k j ?w r)\<lparr>robWrites := Suc (robWrites r), rob_tail := t\<rparr>)"
    unfolding c by blast
  let ?r1 = "(squash_state tid k j ?w r)\<lparr>robWrites := Suc (robWrites r), rob_tail := t\<rparr>"
  have at: "at_squash tid k (j - ?w) ?r1"
    using Suc.prems(1) np by_age_cong [of "instList r tid" "insts ?r1" "insts r"]
    by (auto simp: at_squash_def old_part_def) (auto simp: squash_state_def)
  have j': "Suc (j - ?w) - k = Suc j - k - ?w" using wk by simp
  have sw: "squashWidth ?r1 = ?w" by simp
  have cond: "n * squashWidth ?r1 < Suc (j - ?w) - k \<or> n = 0" unfolding sw j' using wk by linarith
  have pos: "0 < squashWidth ?r1" unfolding sw by (rule Suc.prems(2))
  from Suc.IH [OF at pos cond] obtain t' where
    e: "squash_cycles tid (Suc n) ?r1 = Inr ((squash_state tid k (j - ?w) (min (Suc n * ?w) (Suc (j - ?w) - k)) ?r1)
    \<lparr>robWrites := robWrites ?r1 + Suc n, rob_tail := t'\<rparr>)" unfolding sw by blast
  have mm: "?w + min (Suc n * ?w) (Suc (j - ?w) - k) = min (Suc (Suc n) * ?w) (Suc j - k)"
    using wk j' by simp
  show ?case
    using squash_state_next [OF np kj, where tid = tid and q' = "min (Suc n * ?w) (Suc (j - ?w) - k)" and r = r
        and n = "Suc (robWrites r)" and t = t] e
    unfolding squash_cycles.simps(2) [of tid "Suc n" r] d res_bind_simps mm by auto
qed


section \<open>The invariant\<close>

definition rob_lists :: "ROB \<Rightarrow> bool" where
  "rob_lists r \<longleftrightarrow> (\<forall>tid. by_age (insts r) (instList r tid)
     \<and> (\<forall>i \<in> set (instList r tid). threadNumber (insts r i) = tid \<and> RobEntry (insts r i))
     \<and> (numThreads r \<le> tid \<longrightarrow> instList r tid = []))"

definition rob_counts :: "ROB \<Rightarrow> bool" where
  "rob_counts r \<longleftrightarrow> (\<forall>tid < numThreads r. threadEntries r tid = of_nat (length (instList r tid)))
     \<and> numInstsInROB r = int (\<Sum>t < numThreads r. length (instList r t))
     \<and> numInstsInROB r \<le> uint (numEntries r)"

definition rob_squashes :: "ROB \<Rightarrow> bool" where
  "rob_squashes r \<longleftrightarrow> (\<forall>tid < numThreads r. if doneSquashing r tid \<or> instList r tid = [] then squashIt r tid = None
     else \<exists>i. squashIt r tid = Some i \<and> i \<in> set (instList r tid) \<and> squashedSeqNum r tid < seqNum (insts r i))"

definition rob_inv :: "ROB \<Rightarrow> bool" where
  "rob_inv r \<longleftrightarrow> rob_lists r \<and> rob_counts r \<and> rob_squashes r"

lemma sum_list_upd:
  fixes f :: "nat \<Rightarrow> 'a list"
  assumes "t < n"
  shows "int (\<Sum>k < n. length ((f(t := v)) k)) = int (\<Sum>k < n. length (f k)) - int (length (f t)) + int (length v)"
proof -
  have "(\<Sum>k < n. length ((f(t := v)) k)) = length v + (\<Sum>k \<in> {..<n} - {t}. length (f k))"
    using assms by (subst sum.remove [of _ t]) (auto intro!: sum.cong)
  moreover have "(\<Sum>k < n. length (f k)) = length (f t) + (\<Sum>k \<in> {..<n} - {t}. length (f k))"
    using assms by (subst sum.remove [of _ t]) auto
  ultimately show ?thesis by simp
qed

lemma threadEntries_0:
  assumes "rob_counts r" and "tid < numThreads r"
  shows "threadEntries r tid = 0 \<longleftrightarrow> instList r tid = []" and "length (instList r tid) < 2 ^ 32"
proof -
  have "length (instList r tid) \<le> (\<Sum>t < numThreads r. length (instList r t))"
    using assms(2) by (intro member_le_sum) auto
  moreover have "uint (numEntries r) < 2 ^ 32" using uint_lt2p [of "numEntries r"] by simp
  moreover have "int (\<Sum>t < numThreads r. length (instList r t)) \<le> uint (numEntries r)"
    using assms(1) unfolding rob_counts_def by simp
  ultimately have "int (length (instList r tid)) < 2 ^ 32" by linarith
  then show l: "length (instList r tid) < 2 ^ 32" by simp
  then show "threadEntries r tid = 0 \<longleftrightarrow> instList r tid = []"
    using assms by (simp add: rob_counts_def word_eq_0_unat unat_of_nat)
qed

lemma insertInst_eq:
  assumes "rob_inv r" and "numInstsInROB r < uint (numEntries r)"
  shows "\<exists>r'. insertInst i r = Inr r' \<and> numThreads r' = numThreads r \<and> numEntries r' = numEntries r
      \<and> instList r' = (instList r)(threadNumber (insts r i) := instList r (threadNumber (insts r i)) @ [i])
      \<and> insts r' = (insts r)(i := (insts r i)\<lparr>RobEntry := True\<rparr>) \<and> numInstsInROB r' = numInstsInROB r + 1
      \<and> threadEntries r' = (threadEntries r)(threadNumber (insts r i) := threadEntries r (threadNumber (insts r i)) + 1)
      \<and> doneSquashing r' = doneSquashing r \<and> squashIt r' = squashIt r \<and> squashedSeqNum r' = squashedSeqNum r"
proof -
  have nn: "0 \<le> numInstsInROB r" using assms(1) unfolding rob_inv_def rob_counts_def by linarith
  have ne: "word_of_int (numInstsInROB r) \<noteq> numEntries r"
  proof
    assume e: "word_of_int (numInstsInROB r) = numEntries r"
    have "uint (word_of_int (numInstsInROB r) :: u32) = numInstsInROB r"
      using nn assms(2) uint_lt2p [of "numEntries r"] by (simp add: uint_word_of_int take_bit_int_eq_self)
    with e assms(2) show False by simp
  qed
  have empty: "instList r tid = []" if "numInstsInROB r = 0" "rob_inv r" for tid
  proof (cases "tid < numThreads r")
    case True
    have "length (instList r tid) \<le> (\<Sum>t < numThreads r. length (instList r t))" using True by (intro member_le_sum) auto
    moreover have "int (\<Sum>t < numThreads r. length (instList r t)) = 0"
      using that unfolding rob_inv_def rob_counts_def by linarith
    then have "(\<Sum>t < numThreads r. length (instList r t)) = 0" by (simp only: of_nat_eq_0_iff)
    ultimately show ?thesis by simp
  qed (use that in \<open>simp add: rob_inv_def rob_lists_def\<close>)
  show ?thesis
    using ne empty [OF _ assms(1)]
    by (cases "numInstsInROB r = 0") (simp_all add: insertInst_def Let_def set_inst_def)
qed

lemma insertInst_inv:
  assumes inv: "rob_inv r" and room: "numInstsInROB r < uint (numEntries r)"
    and t: "threadNumber (insts r i) < numThreads r" and idle: "doneSquashing r (threadNumber (insts r i))"
    and age: "\<forall>j \<in> set (instList r (threadNumber (insts r i))). seqNum (insts r j) < seqNum (insts r i)"
    and e: "insertInst i r = Inr r'"
  shows "rob_inv r'"
proof -
  let ?t = "threadNumber (insts r i)"
  from insertInst_eq [OF inv room, of i] e have
    f: "instList r' = (instList r)(?t := instList r ?t @ [i])" "insts r' = (insts r)(i := (insts r i)\<lparr>RobEntry := True\<rparr>)"
      "numInstsInROB r' = numInstsInROB r + 1" "threadEntries r' = (threadEntries r)(?t := threadEntries r ?t + 1)"
      "numThreads r' = numThreads r" "numEntries r' = numEntries r" "doneSquashing r' = doneSquashing r"
      "squashIt r' = squashIt r" "squashedSeqNum r' = squashedSeqNum r" by simp_all
  have sn: "seqNum (insts r' j) = seqNum (insts r j)" "threadNumber (insts r' j) = threadNumber (insts r j)" for j
    by (simp_all add: f(2))
  have L: "rob_lists r" and C: "rob_counts r" and S: "rob_squashes r" using inv by (simp_all add: rob_inv_def)
  have "rob_lists r'"
    unfolding rob_lists_def
  proof (intro allI conjI ballI impI)
    fix tid
    have ba: "by_age (insts r') xs = by_age (insts r) xs" for xs by (rule by_age_cong) (simp add: sn)
    show "by_age (insts r') (instList r' tid)" using L age unfolding ba f(1) rob_lists_def by simp
    show "threadNumber (insts r' j) = tid" "RobEntry (insts r' j)" if "j \<in> set (instList r' tid)" for j
      using that L unfolding rob_lists_def f(1,2) by (auto split: if_splits)
    show "instList r' tid = []" if "numThreads r' \<le> tid" using that L t unfolding rob_lists_def f(1,5) by auto
  qed
  moreover have "rob_counts r'"
    using C t room sum_list_upd [OF t, of "instList r" "instList r ?t @ [i]"]
    unfolding rob_counts_def f by (simp add: algebra_simps)
  moreover have "rob_squashes r'"
    unfolding rob_squashes_def f(1,3-9)
  proof (intro allI impI)
    fix tid assume "tid < numThreads r"
    with S have "if doneSquashing r tid \<or> instList r tid = [] then squashIt r tid = None
      else \<exists>i. squashIt r tid = Some i \<and> i \<in> set (instList r tid) \<and> squashedSeqNum r tid < seqNum (insts r i)" by (simp add: rob_squashes_def)
    then show "if doneSquashing r tid \<or> ((instList r)(?t := instList r ?t @ [i])) tid = [] then squashIt r tid = None
      else \<exists>k. squashIt r tid = Some k \<and> k \<in> set (((instList r)(?t := instList r ?t @ [i])) tid)
        \<and> squashedSeqNum r tid < seqNum (insts r' k)"
      using idle unfolding sn by (cases "tid = ?t") (auto split: if_splits)
  qed
  ultimately show ?thesis by (simp add: rob_inv_def)
qed


text \<open>The loop picks, among the heads of the lists, one with the least sequence number.\<close>

definition is_head :: "ROB \<Rightarrow> nat list \<Rightarrow> inst_id \<Rightarrow> bool" where
  "is_head r ts h \<longleftrightarrow> (\<exists>t \<in> set ts. instList r t \<noteq> [] \<and> h = hd (instList r t))"

lemma is_head_simps [simp]:
  "\<not> is_head r [] h"
  "is_head r (t # ts) h \<longleftrightarrow> (instList r t \<noteq> [] \<and> h = hd (instList r t)) \<or> is_head r ts h"
  by (auto simp: is_head_def)

lemma updateHead_loop_Some:
  "\<exists>h. updateHead_loop r ts (Some (h0, seqNum (insts r h0))) = Some (h, seqNum (insts r h))
    \<and> (h = h0 \<or> is_head r ts h) \<and> seqNum (insts r h) \<le> seqNum (insts r h0)
    \<and> (\<forall>x. is_head r ts x \<longrightarrow> seqNum (insts r h) \<le> seqNum (insts r x))"
proof (induction ts arbitrary: h0)
  case (Cons t ts)
  show ?case
  proof (cases "instList r t")
    case (Cons i xs)
    note L = this
    show ?thesis
    proof (cases "seqNum (insts r i) < seqNum (insts r h0)")
      case True
      from Cons.IH [of i] obtain h where h: "updateHead_loop r ts (Some (i, seqNum (insts r i))) = Some (h, seqNum (insts r h))"
        "h = i \<or> is_head r ts h" "seqNum (insts r h) \<le> seqNum (insts r i)"
        "\<forall>x. is_head r ts x \<longrightarrow> seqNum (insts r h) \<le> seqNum (insts r x)" by blast
      have "seqNum (insts r h) \<le> seqNum (insts r h0)" using h(3) True by (rule order.trans [OF _ less_imp_le])
      then show ?thesis using h L True by (intro exI [of _ h]) auto
    next
      case False
      from Cons.IH [of h0] obtain h where h: "updateHead_loop r ts (Some (h0, seqNum (insts r h0))) = Some (h, seqNum (insts r h))"
        "h = h0 \<or> is_head r ts h" "seqNum (insts r h) \<le> seqNum (insts r h0)"
        "\<forall>x. is_head r ts x \<longrightarrow> seqNum (insts r h) \<le> seqNum (insts r x)" by blast
      have "seqNum (insts r h) \<le> seqNum (insts r i)" using h(3) False by (meson not_less order.trans)
      then show ?thesis using h L False by (intro exI [of _ h]) auto
    qed
  qed (use Cons.IH [of h0] in simp)
qed simp

lemma updateHead_loop_None:
  "if \<forall>t \<in> set ts. instList r t = [] then updateHead_loop r ts None = None
   else \<exists>h. updateHead_loop r ts None = Some (h, seqNum (insts r h)) \<and> is_head r ts h
     \<and> (\<forall>x. is_head r ts x \<longrightarrow> seqNum (insts r h) \<le> seqNum (insts r x))"
proof (induction ts)
  case (Cons t ts)
  show ?case
  proof (cases "instList r t")
    case (Cons i xs)
    from updateHead_loop_Some [of r ts i] obtain h where h: "updateHead_loop r ts (Some (i, seqNum (insts r i))) = Some (h, seqNum (insts r h))"
      "h = i \<or> is_head r ts h" "seqNum (insts r h) \<le> seqNum (insts r i)"
      "\<forall>x. is_head r ts x \<longrightarrow> seqNum (insts r h) \<le> seqNum (insts r x)" by blast
    then show ?thesis using Cons by auto
  qed (use Cons.IH in \<open>auto split: if_splits\<close>)
qed simp

text \<open>\<open>updateHead\<close> finds the oldest instruction of the active threads.\<close>

lemma updateHead_oldest:
  assumes "\<And>t. by_age (insts r) (instList r t)"
  shows "(rob_head (updateHead r) = None \<longleftrightarrow> (\<forall>t \<in> set (activeThreads r). instList r t = []))
    \<and> (\<forall>h. rob_head (updateHead r) = Some h \<longrightarrow> (\<exists>t \<in> set (activeThreads r). h \<in> set (instList r t))
        \<and> (\<forall>t \<in> set (activeThreads r). \<forall>i \<in> set (instList r t). seqNum (insts r h) \<le> seqNum (insts r i)))"
proof -
  have hd: "seqNum (insts r (hd (instList r t))) \<le> seqNum (insts r i)" if "i \<in> set (instList r t)" for t i
    using that assms [of t] by (cases "instList r t") (auto dest!: less_imp_le)
  show ?thesis
  proof (cases "\<forall>t \<in> set (activeThreads r). instList r t = []")
    case True
    then show ?thesis using updateHead_loop_None [of "activeThreads r" r] by (simp add: updateHead_def)
  next
    case False
    with updateHead_loop_None [of "activeThreads r" r] obtain h where
      h: "updateHead_loop r (activeThreads r) None = Some (h, seqNum (insts r h))" "is_head r (activeThreads r) h"
        "\<forall>x. is_head r (activeThreads r) x \<longrightarrow> seqNum (insts r h) \<le> seqNum (insts r x)" by auto
    have le: "seqNum (insts r h) \<le> seqNum (insts r i)" if "t \<in> set (activeThreads r)" "i \<in> set (instList r t)" for t i
    proof -
      have "is_head r (activeThreads r) (hd (instList r t))" unfolding is_head_def using that by (intro bexI [of _ t]) auto
      then show ?thesis using h(3) hd [OF that(2)] by (meson order.trans)
    qed
    have "\<exists>t \<in> set (activeThreads r). h \<in> set (instList r t)" using h(2) hd_in_set unfolding is_head_def by metis
    then show ?thesis using h(1) le False by (auto simp: updateHead_def)
  qed
qed

lemma retireHead_eq:
  assumes inv: "rob_inv r" and t: "tid < numThreads r" and l: "instList r tid = i # rest" and c: "CanCommit (insts r i)"
  shows "\<exists>r'. retireHead tid r = Inr r' \<and> numThreads r' = numThreads r \<and> numEntries r' = numEntries r
      \<and> instList r' = (instList r)(tid := rest) \<and> activeThreads r' = activeThreads r
      \<and> insts r' = (insts r)(i := (insts r i)\<lparr>RobEntry := False, Committed := True\<rparr>)
      \<and> numInstsInROB r' = numInstsInROB r - 1 \<and> threadEntries r' = (threadEntries r)(tid := threadEntries r tid - 1)
      \<and> doneSquashing r' = doneSquashing r \<and> squashIt r' = squashIt r \<and> removeList r' = removeList r @ [i]
      \<and> rob_head r' = rob_head (updateHead r') \<and> squashedSeqNum r' = squashedSeqNum r"
proof -
  have "length (instList r tid) \<le> (\<Sum>t < numThreads r. length (instList r t))" using t by (intro member_le_sum) auto
  then have "0 < (\<Sum>t < numThreads r. length (instList r t))" using l by simp
  then have "0 < int (\<Sum>t < numThreads r. length (instList r t))" by (simp only: of_nat_0_less_iff)
  then have pos: "0 < numInstsInROB r" using inv unfolding rob_inv_def rob_counts_def by linarith
  have loop: "updateHead_loop (x\<lparr>rob_head := h, removeInstsThisCycle := b, removeList := q\<rparr>) ts acc = updateHead_loop x ts acc"
    for x h b q ts acc
    by (induction x ts acc rule: updateHead_loop.induct) (auto split: list.splits option.splits)
  show ?thesis
    using pos l c by (simp add: retireHead_def Let_def set_inst_def removeFrontInst_def updateHead_def loop)
qed


lemma retireHead_inv:
  assumes inv: "rob_inv r" and t: "tid < numThreads r" and idle: "doneSquashing r tid"
    and e: "retireHead tid r = Inr r'"
  shows "rob_inv r'"
proof -
  from e obtain i rest where l: "instList r tid = i # rest" and c: "CanCommit (insts r i)"
    by (auto simp: retireHead_def Let_def assert_that_def split: list.splits if_splits)
  from retireHead_eq [OF inv t l c] e have
    f: "instList r' = (instList r)(tid := rest)" "insts r' = (insts r)(i := (insts r i)\<lparr>RobEntry := False, Committed := True\<rparr>)"
      "numInstsInROB r' = numInstsInROB r - 1" "threadEntries r' = (threadEntries r)(tid := threadEntries r tid - 1)"
      "numThreads r' = numThreads r" "numEntries r' = numEntries r" "doneSquashing r' = doneSquashing r"
      "squashIt r' = squashIt r" "squashedSeqNum r' = squashedSeqNum r" by simp_all
  have sn: "seqNum (insts r' j) = seqNum (insts r j)" "threadNumber (insts r' j) = threadNumber (insts r j)" for j
    by (simp_all add: f(2))
  have L: "rob_lists r" and C: "rob_counts r" and S: "rob_squashes r" using inv by (simp_all add: rob_inv_def)
  have ir: "i \<notin> set rest" using L l by_age_distinct [of "insts r" "i # rest"] unfolding rob_lists_def by (metis distinct.simps(2))
  have it: "threadNumber (insts r i) = tid" using L l unfolding rob_lists_def by (metis list.set_intros(1))
  have "rob_lists r'"
    unfolding rob_lists_def
  proof (intro allI conjI ballI impI)
    fix k
    have ba: "by_age (insts r') xs = by_age (insts r) xs" for xs by (rule by_age_cong) (simp add: sn)
    have old: "by_age (insts r) (instList r k)" "\<forall>j \<in> set (instList r k). threadNumber (insts r j) = k \<and> RobEntry (insts r j)"
      "numThreads r \<le> k \<longrightarrow> instList r k = []" using L by (simp_all add: rob_lists_def)
    show "by_age (insts r') (instList r' k)" using old(1) l unfolding ba f(1) by (cases "k = tid") auto
    show "threadNumber (insts r' j) = k" "RobEntry (insts r' j)" if "j \<in> set (instList r' k)" for j
    proof -
      have jo: "j \<in> set (instList r k)" using that l by (cases "k = tid") (auto simp: f(1))
      then show "threadNumber (insts r' j) = k" using old(2) by (simp add: sn)
      have "j \<noteq> i" using that ir jo old(2) it by (cases "k = tid") (auto simp: f(1))
      then show "RobEntry (insts r' j)" using jo old(2) by (simp add: f(2))
    qed
    show "instList r' k = []" if "numThreads r' \<le> k" using that old(3) t unfolding f(1,5) by auto
  qed
  moreover have "rob_counts r'"
    using C t sum_list_upd [OF t, of "instList r" rest] l
    unfolding rob_counts_def f by (auto simp: algebra_simps)
  moreover have "rob_squashes r'"
    unfolding rob_squashes_def f(1,3-9) sn
  proof (intro allI impI)
    fix k assume "k < numThreads r"
    with S have "if doneSquashing r k \<or> instList r k = [] then squashIt r k = None
      else \<exists>i. squashIt r k = Some i \<and> i \<in> set (instList r k) \<and> squashedSeqNum r k < seqNum (insts r i)" by (simp add: rob_squashes_def)
    then show "if doneSquashing r k \<or> ((instList r)(tid := rest)) k = [] then squashIt r k = None
      else \<exists>n. squashIt r k = Some n \<and> n \<in> set (((instList r)(tid := rest)) k) \<and> squashedSeqNum r k < seqNum (insts r n)"
      using idle by (cases "k = tid") auto
  qed
  ultimately show ?thesis by (simp add: rob_inv_def)
qed

lemma squash_state_inv:
  assumes L: "rob_lists r" and C: "rob_counts r" and at: "at_squash tid k j r"
    and S: "\<And>t. t < numThreads r \<Longrightarrow> t \<noteq> tid \<Longrightarrow> if doneSquashing r t \<or> instList r t = [] then squashIt r t = None
       else \<exists>i. squashIt r t = Some i \<and> i \<in> set (instList r t) \<and> squashedSeqNum r t < seqNum (insts r i)"
    and nd: "\<not> doneSquashing r tid"
  shows "rob_inv ((squash_state tid k j p r)\<lparr>robWrites := n, rob_tail := t\<rparr>)" (is "rob_inv ?r'")
proof -
  have f: "instList ?r' = instList r" "numInstsInROB ?r' = numInstsInROB r" "threadEntries ?r' = threadEntries r"
    "numThreads ?r' = numThreads r" "numEntries ?r' = numEntries r" "squashedSeqNum ?r' = squashedSeqNum r"
    "seqNum (insts ?r' i) = seqNum (insts r i)" "threadNumber (insts ?r' i) = threadNumber (insts r i)"
    "RobEntry (insts ?r' i) = RobEntry (insts r i)"
    "squashIt ?r' = (squashIt r)(tid := if Suc j - p \<le> k then None else Some (instList r tid ! (j - p)))"
    "doneSquashing ?r' = (doneSquashing r)(tid := doneSquashing r tid \<or> Suc j - p \<le> k)" for i
    by (simp_all add: squash_state_def mark_squashed_def)
  have ba: "by_age (insts ?r') xs = by_age (insts r) xs" for xs by (rule by_age_cong) (simp add: f)
  have "rob_lists ?r'" using L unfolding rob_lists_def ba f .
  moreover have "rob_counts ?r'" using C unfolding rob_counts_def f .
  moreover have "rob_squashes ?r'"
    unfolding rob_squashes_def f
  proof (intro allI impI)
    fix u assume u: "u < numThreads r"
    have y: "squashedSeqNum r tid < seqNum (insts r (instList r tid ! (j - p)))" if "\<not> Suc j - p \<le> k"
      using at that nth_young [of "insts r" "instList r tid" "j - p" "squashedSeqNum r tid"] by (auto simp: at_squash_def)
    show "if ((doneSquashing r)(tid := doneSquashing r tid \<or> Suc j - p \<le> k)) u \<or> instList r u = []
      then ((squashIt r)(tid := if Suc j - p \<le> k then None else Some (instList r tid ! (j - p)))) u = None
      else \<exists>i. ((squashIt r)(tid := if Suc j - p \<le> k then None else Some (instList r tid ! (j - p)))) u = Some i
        \<and> i \<in> set (instList r u) \<and> squashedSeqNum r u < seqNum (insts r i)"
    proof (cases "u = tid")
      case True
      then show ?thesis using nd y at by (auto simp: at_squash_def)
    next
      case False
      then show ?thesis using S [OF u False] by simp
    qed
  qed
  ultimately show ?thesis by (simp add: rob_inv_def)
qed

lemma rob_squashesD:
  assumes "rob_squashes r" and "t < numThreads r"
  shows "if doneSquashing r t \<or> instList r t = [] then squashIt r t = None
       else \<exists>i. squashIt r t = Some i \<and> i \<in> set (instList r t) \<and> squashedSeqNum r t < seqNum (insts r i)"
  using assms by (simp add: rob_squashes_def)

lemma doSquash_inv:
  assumes inv: "rob_inv r" and t: "tid < numThreads r" and nd: "\<not> doneSquashing r tid" and w: "0 < squashWidth r"
    and l: "instList r tid \<noteq> []"
  shows "\<exists>r'. doSquash tid r = Inr r' \<and> rob_inv r' \<and> squashWidth r' = squashWidth r"
proof -
  have L: "rob_lists r" and C: "rob_counts r" and S: "rob_squashes r" using inv by (simp_all add: rob_inv_def)
  from rob_squashesD [OF S t] nd l obtain i where i: "squashIt r tid = Some i" "i \<in> set (instList r tid)"
    "squashedSeqNum r tid < seqNum (insts r i)" by auto
  then obtain j where j: "j < length (instList r tid)" "i = instList r tid ! j" by (auto simp: in_set_conv_nth)
  let ?k = "length (old_part (insts r) (squashedSeqNum r tid) (instList r tid))"
  have ba: "by_age (insts r) (instList r tid)" using L by (simp add: rob_lists_def)
  have at: "at_squash tid ?k j r"
    using i j nth_young [OF ba j(1), of "squashedSeqNum r tid"] ba by (auto simp: at_squash_def)
  from doSquash_run [OF at w] squash_state_inv [OF L C at rob_squashesD [OF S] nd] show ?thesis by auto
qed


text \<open>A thread without instructions has no squash iterator, and a cycle of its squash stops at the assertion.\<close>

lemma doSquash_idle:
  assumes "rob_inv r" and "tid < numThreads r" and "instList r tid = []"
  shows "doSquash tid r = Inl AssertFailed"
  using assms rob_squashesD [of r tid] by (simp add: rob_inv_def doSquash_def Let_def)

lemma rob_squash_start:
  assumes ne: "\<not> isEmpty r" and l: "instList r tid \<noteq> []"
  shows "rob_squash s tid r = doSquash tid (r\<lparr>robStatus := (robStatus r)(tid := ROBSquashing),
      doneSquashing := (doneSquashing r)(tid := False), squashedSeqNum := (squashedSeqNum r)(tid := s),
      squashIt := (squashIt r)(tid := Some (last (instList r tid)))\<rparr>)"
  using assms by (simp add: rob_squash_def)

lemma inv_nonempty:
  assumes "rob_inv r" and "instList r tid \<noteq> []"
  shows "\<not> isEmpty r" and "tid < numThreads r"
proof -
  show t: "tid < numThreads r" using assms unfolding rob_inv_def rob_lists_def by (meson not_le)
  have "length (instList r tid) \<le> (\<Sum>t < numThreads r. length (instList r t))" using t by (intro member_le_sum) auto
  then have "0 < (\<Sum>t < numThreads r. length (instList r t))" using assms(2) by (cases "instList r tid") auto
  then have "0 < int (\<Sum>t < numThreads r. length (instList r t))" by (simp only: of_nat_0_less_iff)
  then show "\<not> isEmpty r" using assms(1) unfolding rob_inv_def rob_counts_def isEmpty_def by linarith
qed

lemma rob_squash_inv:
  assumes inv: "rob_inv r" and l: "instList r tid \<noteq> []" and w: "0 < squashWidth r"
  shows "\<exists>r'. rob_squash s tid r = Inr r' \<and> rob_inv r' \<and> squashWidth r' = squashWidth r"
proof -
  let ?xs = "instList r tid" and ?j = "length (instList r tid) - 1"
  let ?r0 = "r\<lparr>robStatus := (robStatus r)(tid := ROBSquashing),
      doneSquashing := (doneSquashing r)(tid := False), squashedSeqNum := (squashedSeqNum r)(tid := s),
      squashIt := (squashIt r)(tid := Some (last (instList r tid)))\<rparr>"
  have L: "rob_lists r" and C: "rob_counts r" and S: "rob_squashes r" using inv by (simp_all add: rob_inv_def)
  have L0: "rob_lists ?r0" and C0: "rob_counts ?r0" using L C by (simp_all add: rob_lists_def rob_counts_def)
  have S0: "if doneSquashing ?r0 t \<or> instList ?r0 t = [] then squashIt ?r0 t = None
       else \<exists>i. squashIt ?r0 t = Some i \<and> i \<in> set (instList ?r0 t) \<and> squashedSeqNum ?r0 t < seqNum (insts ?r0 i)"
    if "t < numThreads ?r0" "t \<noteq> tid" for t
    using rob_squashesD [OF S, of t] that by simp
  let ?k = "length (old_part (insts ?r0) (squashedSeqNum ?r0 tid) ?xs)"
  have k: "?k \<le> length ?xs" by (simp add: old_part_def)
  have at: "at_squash tid ?k ?j ?r0"
    using L l k by (simp add: at_squash_def rob_lists_def last_conv_nth)
  have "0 < squashWidth ?r0" using w by simp
  from doSquash_run [OF at this] squash_state_inv [OF L0 C0 at S0] rob_squash_start [OF inv_nonempty(1) [OF inv l] l, of s]
  show ?thesis by auto
qed

text \<open>The squash of a thread without instructions leaves it waiting for cycles no iterator is there for.\<close>

lemma rob_squash_idle:
  assumes inv: "rob_inv r" and l: "instList r tid = []"
  shows "\<exists>r'. rob_squash s tid r = Inr r' \<and> rob_inv r' \<and> squashWidth r' = squashWidth r \<and> instList r' = instList r
      \<and> numThreads r' = numThreads r \<and> (\<not> isEmpty r \<longrightarrow> \<not> doneSquashing r' tid)"
proof (cases "isEmpty r")
  case True
  then show ?thesis using inv by (simp add: rob_squash_def)
next
  case False
  let ?r1 = "r\<lparr>robStatus := (robStatus r)(tid := ROBSquashing),
      doneSquashing := (doneSquashing r)(tid := False), squashedSeqNum := (squashedSeqNum r)(tid := s)\<rparr>"
  have L: "rob_lists r" and C: "rob_counts r" and S: "rob_squashes r" using inv by (simp_all add: rob_inv_def)
  have "rob_squashes ?r1"
    unfolding rob_squashes_def
  proof (intro allI impI)
    fix t assume "t < numThreads ?r1"
    then show "if doneSquashing ?r1 t \<or> instList ?r1 t = [] then squashIt ?r1 t = None
       else \<exists>i. squashIt ?r1 t = Some i \<and> i \<in> set (instList ?r1 t) \<and> squashedSeqNum ?r1 t < seqNum (insts ?r1 i)"
      using rob_squashesD [OF S, of t] l by (cases "t = tid") auto
  qed
  moreover have "rob_lists ?r1" "rob_counts ?r1" using L C by (simp_all add: rob_lists_def rob_counts_def)
  ultimately have "rob_inv ?r1" by (simp add: rob_inv_def)
  moreover have "rob_squash s tid r = Inr ?r1" using False l by (simp add: rob_squash_def)
  ultimately show ?thesis by simp
qed

text \<open>What inserting does: it fails exactly when the buffer is full.\<close>

lemma insertInst_full:
  assumes "rob_inv r"
  shows "numInstsInROB r < uint (numEntries r) \<or> numInstsInROB r = uint (numEntries r) \<and> insertInst i r = Inl AssertFailed"
proof -
  have "numInstsInROB r \<le> uint (numEntries r)" using assms by (simp add: rob_inv_def rob_counts_def)
  moreover have "insertInst i r = Inl AssertFailed" if "numInstsInROB r = uint (numEntries r)"
    using that by (simp add: insertInst_def Let_def)
  ultimately show ?thesis by linarith
qed

section \<open>Reachable reorder buffers\<close>

text \<open>
  The commit stage's use of the buffer: instructions enter a thread that is not squashing, in program
  order; it retires from a thread that is not squashing, marks instructions ready, squashes any thread,
  and calls \<open>doSquash\<close> while a squash is unfinished.  A step that fails ends the run.
\<close>

inductive rob_reach :: "ROB \<Rightarrow> bool" where
  init: "ROB_init mem entries width policy threshold threads = Inr r \<Longrightarrow> 0 < width \<Longrightarrow> rob_reach r"
| activate: "rob_reach r \<Longrightarrow> rob_reach (setActiveThreads ts r)"
| reset: "rob_reach r \<Longrightarrow> rob_reach (resetEntries r)"
| fetch: "rob_reach r \<Longrightarrow> \<not> (\<exists>t. i \<in> set (instList r t)) \<Longrightarrow> rob_reach (set_inst i (\<lambda>_. x) r)"
| insert: "rob_reach r \<Longrightarrow> threadNumber (insts r i) < numThreads r \<Longrightarrow>
    doneSquashing r (threadNumber (insts r i)) \<Longrightarrow>
    (\<forall>j \<in> set (instList r (threadNumber (insts r i))). seqNum (insts r j) < seqNum (insts r i)) \<Longrightarrow>
    insertInst i r = Inr r' \<Longrightarrow> rob_reach r'"
| complete: "rob_reach r \<Longrightarrow> rob_reach (set_inst i (\<lambda>x. x\<lparr>CanCommit := True\<rparr>) r)"
| retire: "rob_reach r \<Longrightarrow> tid < numThreads r \<Longrightarrow> doneSquashing r tid \<Longrightarrow> retireHead tid r = Inr r' \<Longrightarrow> rob_reach r'"
| squash: "rob_reach r \<Longrightarrow> tid < numThreads r \<Longrightarrow> rob_squash s tid r = Inr r' \<Longrightarrow> rob_reach r'"
| squashing: "rob_reach r \<Longrightarrow> tid < numThreads r \<Longrightarrow> \<not> doneSquashing r tid \<Longrightarrow> doSquash tid r = Inr r' \<Longrightarrow> rob_reach r'"

lemma rob_inv_cong:
  assumes "rob_inv r" and "instList r' = instList r" "numInstsInROB r' = numInstsInROB r" "threadEntries r' = threadEntries r"
    "numThreads r' = numThreads r" "numEntries r' = numEntries r" "squashedSeqNum r' = squashedSeqNum r"
    "squashIt r' = squashIt r" "doneSquashing r' = doneSquashing r"
    and i: "\<And>t i. i \<in> set (instList r t) \<Longrightarrow> seqNum (insts r' i) = seqNum (insts r i)
      \<and> threadNumber (insts r' i) = threadNumber (insts r i) \<and> RobEntry (insts r' i) = RobEntry (insts r i)"
  shows "rob_inv r'"
proof -
  note f = assms(2-9)
  have L: "rob_lists r" and C: "rob_counts r" and S: "rob_squashes r" using assms(1) by (simp_all add: rob_inv_def)
  have "by_age (insts r') (instList r t) = by_age (insts r) (instList r t)" for t
    by (rule by_age_cong) (simp add: i [of _ t])
  then have "rob_lists r'" using L i unfolding rob_lists_def f by simp
  moreover have "rob_counts r'" using C unfolding rob_counts_def f .
  moreover have "rob_squashes r'" using S i unfolding rob_squashes_def f by metis
  ultimately show ?thesis by (simp add: rob_inv_def)
qed

lemma width_const:
  "insertInst i r = Inr r' \<Longrightarrow> squashWidth r' = squashWidth r"
  "retireHead tid r = Inr r' \<Longrightarrow> squashWidth r' = squashWidth r"
  by (auto simp: insertInst_def retireHead_def Let_def set_inst_def assert_that_def removeFrontInst_def updateHead_def
      split: if_splits list.splits)

lemma rob_reach_inv: "rob_reach r \<Longrightarrow> rob_inv r \<and> 0 < squashWidth r"
proof (induction rule: rob_reach.induct)
  case (init mem entries width policy threshold threads r)
  then have f: "instList r = (\<lambda>_. [])" "numInstsInROB r = 0" "\<forall>t < numThreads r. threadEntries r t = 0"
    "\<forall>t < numThreads r. doneSquashing r t \<and> squashIt r t = None" "squashWidth r = width"
    by (auto simp: ROB_init_def Let_def below_def split: if_splits)
  then show ?case using init by (simp add: rob_inv_def rob_lists_def rob_counts_def rob_squashes_def)
next
  case (activate r ts)
  then show ?case using rob_inv_cong [of r "setActiveThreads ts r"] by (simp add: setActiveThreads_def)
next
  case (reset r)
  then show ?case using rob_inv_cong [of r "resetEntries r"] by (simp add: resetEntries_def Let_def)
next
  case (fetch r i x)
  have "rob_inv (set_inst i (\<lambda>_. x) r)"
    by (rule rob_inv_cong [of r]) (use fetch in \<open>auto simp: set_inst_def\<close>)
  then show ?case using fetch by (simp add: set_inst_def)
next
  case (insert r i r')
  have room: "numInstsInROB r < uint (numEntries r)"
    using insertInst_full [of r i] insert.IH insert.hyps by auto
  show ?case using insertInst_inv [OF _ room] insert width_const(1) by metis
next
  case (complete r i)
  then show ?case using rob_inv_cong [of r "set_inst i (\<lambda>x. x\<lparr>CanCommit := True\<rparr>) r"] by (simp add: set_inst_def)
next
  case (retire r tid r')
  then show ?case using retireHead_inv width_const(2) by metis
next
  case (squash r tid s r')
  then show ?case using rob_squash_inv [of r tid s] rob_squash_idle [of r tid s] by (cases "instList r tid = []") auto
next
  case (squashing r tid r')
  then show ?case using doSquash_inv [of r tid] doSquash_idle [of r tid] by (cases "instList r tid = []") auto
qed


lemma squash_cycles_outcome:
  assumes "rob_reach r" and "instList r tid \<noteq> []"
    and "m = length (filter (\<lambda>i. s < seqNum (insts r i)) (instList r tid))"
  shows "\<exists>r'. res_bind (rob_squash s tid r) (squash_cycles tid ((m - 1) div squashWidth r)) = Inr r'
    \<and> doneSquashing r' tid \<and> instList r' = instList r
    \<and> insts r' = (\<lambda>i. if i \<in> set (instList r tid) \<and> s < seqNum (insts r i)
        then (insts r i)\<lparr>Squashed := True, CanCommit := True\<rparr> else insts r i)"
    and "n < (m - 1) div squashWidth r \<Longrightarrow>
      \<exists>r'. res_bind (rob_squash s tid r) (squash_cycles tid n) = Inr r' \<and> \<not> doneSquashing r' tid"
proof -
  let ?xs = "instList r tid" and ?j = "length (instList r tid) - 1" and ?w = "squashWidth r"
  let ?r0 = "r\<lparr>robStatus := (robStatus r)(tid := ROBSquashing),
      doneSquashing := (doneSquashing r)(tid := False), squashedSeqNum := (squashedSeqNum r)(tid := s),
      squashIt := (squashIt r)(tid := Some (last (instList r tid)))\<rparr>"
  have inv: "rob_inv r" and w: "0 < ?w" using rob_reach_inv [OF assms(1)] by auto
  then have ba: "by_age (insts r) ?xs" by (simp add: rob_inv_def rob_lists_def)
  let ?k = "length (old_part (insts ?r0) (squashedSeqNum ?r0 tid) ?xs)"
  have len: "length ?xs = ?k + m"
    using arg_cong [OF old_young [OF ba, of s], of length] by (simp add: young_part_def assms(3))
  have l0: "0 < length ?xs" using assms(2) by simp
  have jm: "Suc ?j = length ?xs" "Suc ?j - ?k = m" "?j < length ?xs" "?k \<le> Suc ?j" using l0 len by linarith+
  have at: "at_squash tid ?k ?j ?r0"
    using ba assms(2) jm(3,4) by (simp add: at_squash_def last_conv_nth)
  have w0: "0 < squashWidth ?r0" using w by simp
  have run: "\<exists>t. res_bind (rob_squash s tid r) (squash_cycles tid n)
      = Inr ((squash_state tid ?k ?j (min (Suc n * ?w) m) ?r0)\<lparr>robWrites := robWrites r + Suc n, rob_tail := t\<rparr>)"
    if "n * ?w < m \<or> n = 0" for n
  proof -
    have "n * squashWidth ?r0 < Suc ?j - ?k \<or> n = 0" using that unfolding jm(2) by simp
    from squash_cycles_run [OF at w0 this] show ?thesis
      unfolding rob_squash_start [OF inv_nonempty(1) [OF inv assms(2)] assms(2), of s] jm(2) by simp
  qed
  have marked: "insts (squash_state tid ?k ?j m ?r0) = (\<lambda>i. if i \<in> set ?xs \<and> s < seqNum (insts r i)
        then (insts r i)\<lparr>Squashed := True, CanCommit := True\<rparr> else insts r i)"
  proof
    fix i
    have "i \<in> (!) ?xs ` {Suc ?j - m ..< Suc ?j} \<longleftrightarrow> i \<in> set ?xs \<and> s < seqNum (insts r i)"
    proof -
      have "Suc ?j - m = ?k" using jm(1) len by simp
      then have "i \<in> (!) ?xs ` {Suc ?j - m ..< Suc ?j} \<longleftrightarrow> (\<exists>a. ?k \<le> a \<and> a < length ?xs \<and> i = ?xs ! a)" using jm(1) by auto
      also have "\<dots> \<longleftrightarrow> (\<exists>a < length ?xs. i = ?xs ! a \<and> s < seqNum (insts r i))" using nth_young [OF ba, of _ s] by auto
      finally show ?thesis by (auto simp: in_set_conv_nth)
    qed
    then show "insts (squash_state tid ?k ?j m ?r0) i = (if i \<in> set ?xs \<and> s < seqNum (insts r i)
        then (insts r i)\<lparr>Squashed := True, CanCommit := True\<rparr> else insts r i)"
      by (simp add: squash_state_def mark_squashed_def squashed_inst_def)
  qed
  show "\<exists>r'. res_bind (rob_squash s tid r) (squash_cycles tid ((m - 1) div ?w)) = Inr r'
    \<and> doneSquashing r' tid \<and> instList r' = instList r
    \<and> insts r' = (\<lambda>i. if i \<in> set ?xs \<and> s < seqNum (insts r i)
        then (insts r i)\<lparr>Squashed := True, CanCommit := True\<rparr> else insts r i)"
  proof -
    let ?n = "(m - 1) div ?w"
    have "?n * ?w < m \<or> ?n = 0" using div_times_less_eq_dividend [of "m - 1" ?w] by (cases m) (simp_all add: le_imp_less_Suc)
    moreover have "min (Suc ?n * ?w) m = m"
      using dividend_less_div_times [OF w, of "m - 1"] by (simp add: min_def) linarith
    ultimately obtain t where t: "res_bind (rob_squash s tid r) (squash_cycles tid ?n)
      = Inr ((squash_state tid ?k ?j m ?r0)\<lparr>robWrites := robWrites r + Suc ?n, rob_tail := t\<rparr>)" using run [of ?n] by auto
    have "Suc ?j - m \<le> ?k" using jm(1) len by simp
    then have "doneSquashing (squash_state tid ?k ?j m ?r0) tid" unfolding squash_state_done by blast
    then show ?thesis using t marked by simp
  qed
  show "\<exists>r'. res_bind (rob_squash s tid r) (squash_cycles tid n) = Inr r' \<and> \<not> doneSquashing r' tid"
    if n: "n < (m - 1) div ?w"
  proof -
    have "Suc n * ?w \<le> (m - 1) div ?w * ?w" using n by (intro mult_right_mono) simp_all
    then have a: "Suc n * ?w \<le> m - 1" using div_times_less_eq_dividend [of "m - 1" ?w] by linarith
    have m0: "0 < m" using n by (cases m) auto
    have "n * ?w < m" using a m0 by simp
    then obtain t where t: "res_bind (rob_squash s tid r) (squash_cycles tid n)
      = Inr ((squash_state tid ?k ?j (min (Suc n * ?w) m) ?r0)\<lparr>robWrites := robWrites r + Suc n, rob_tail := t\<rparr>)" using run [of n] by auto
    have "min (Suc n * ?w) m < m" using a m0 by simp
    then have "\<not> Suc ?j - min (Suc n * ?w) m \<le> ?k" using jm(1) len by linarith
    then have "\<not> doneSquashing (squash_state tid ?k ?j (min (Suc n * ?w) m) ?r0) tid" unfolding squash_state_done by simp
    with t show ?thesis by simp
  qed
qed

section \<open>A small buffer\<close>

definition demo_inst :: "u64 \<Rightarrow> rob_inst" where
  "demo_inst n = \<lparr>seqNum = n, threadNumber = 0, RobEntry = False, Committed = False, Squashed = False, CanCommit = True\<rparr>"

definition demo_rob :: ROB where
  "demo_rob = \<lparr>robStatus = (\<lambda>_. Running), robPolicy = Dynamic, numEntries = 8, threadEntries = (\<lambda>_. 0)(0 := 3),
     maxEntries = (\<lambda>_. 8), instList = (\<lambda>_. [])(0 := [1, 2, 3]), squashWidth = 1, rob_tail = Some 3, rob_head = Some 1,
     squashIt = (\<lambda>_. None), numInstsInROB = 3, squashedSeqNum = (\<lambda>_. 0), doneSquashing = (\<lambda>_. True),
     numThreads = 1, activeThreads = [0], robReads = 0, robWrites = 3,
     insts = (\<lambda>i. (demo_inst (of_nat i))\<lparr>RobEntry := i \<in> {1, 2, 3}\<rparr>), removeInstsThisCycle = False, removeList = []\<rparr>"

definition demo_rob0 :: ROB where
  "demo_rob0 = demo_rob\<lparr>threadEntries := (\<lambda>_. 0), instList := (\<lambda>_. []), rob_tail := None, rob_head := None,
     numInstsInROB := 0, robWrites := 0, insts := (\<lambda>i. demo_inst (of_nat i))\<rparr>"

lemma demo_rob_reach: "\<exists>r. rob_reach r \<and> instList r 0 = [1, 2, 3] \<and> squashWidth r = 1 \<and> numThreads r = 1
    \<and> (\<forall>i. seqNum (insts r i) = of_nat i \<and> CanCommit (insts r i)) \<and> doneSquashing r 0"
proof -
  define r0 where "r0 = (case ROB_init demo_rob0 8 1 ''Dynamic'' 8 1 of Inr r \<Rightarrow> r)"
  have l: "to_lower CHR ''D'' = CHR ''d''" "to_lower CHR ''y'' = CHR ''y''" "to_lower CHR ''n'' = CHR ''n''"
    "to_lower CHR ''a'' = CHR ''a''" "to_lower CHR ''m'' = CHR ''m''" "to_lower CHR ''i'' = CHR ''i''"
    "to_lower CHR ''c'' = CHR ''c''" by (simp_all add: to_lower_def char_of_def) (simp add: bit_0)
  have i0: "ROB_init demo_rob0 8 1 ''Dynamic'' 8 1 = Inr r0" by (simp add: ROB_init_def Let_def l r0_def)
  have r0: "rob_reach r0" by (rule rob_reach.init [OF i0]) simp
  have f0: "instList r0 = (\<lambda>_. [])" "numInstsInROB r0 = 0" "numEntries r0 = 8" "numThreads r0 = 1" "squashWidth r0 = 1"
    "insts r0 = (\<lambda>i. demo_inst (of_nat i))" "doneSquashing r0 0"
    using i0 by (auto simp: ROB_init_def Let_def l demo_rob0_def below_def)
  have step: "\<exists>r'. rob_reach r' \<and> instList r' 0 = instList r 0 @ [i] \<and> squashWidth r' = 1 \<and> numThreads r' = 1 \<and> numEntries r' = 8
      \<and> (\<forall>i. seqNum (insts r' i) = of_nat i \<and> CanCommit (insts r' i) \<and> threadNumber (insts r' i) = 0) \<and> doneSquashing r' 0
      \<and> numInstsInROB r' = numInstsInROB r + 1"
    if r: "rob_reach r" "squashWidth r = 1" "numThreads r = 1" "numEntries r = 8" "numInstsInROB r < 8" "doneSquashing r 0"
      "\<forall>i. seqNum (insts r i) = of_nat i \<and> CanCommit (insts r i) \<and> threadNumber (insts r i) = 0"
      "\<forall>j \<in> set (instList r 0). (of_nat j :: u64) < of_nat i" for r i
  proof -
    have room: "numInstsInROB r < uint (numEntries r)" using r(4,5) by simp
    from insertInst_eq [OF conjunct1 [OF rob_reach_inv [OF r(1)]] room, of i] r(7) obtain r' where
      e: "insertInst i r = Inr r'" "numThreads r' = numThreads r" "numEntries r' = numEntries r"
      "instList r' = (instList r)(0 := instList r 0 @ [i])" "insts r' = (insts r)(i := (insts r i)\<lparr>RobEntry := True\<rparr>)"
      "numInstsInROB r' = numInstsInROB r + 1" "doneSquashing r' = doneSquashing r" by auto
    have "rob_reach r'" by (rule rob_reach.insert [OF r(1) _ _ _ e(1)]) (use r in auto)
    then show ?thesis using e r width_const(1) [OF e(1)] by auto
  qed
  from step [of r0 1] r0 f0 obtain r1 where r1: "rob_reach r1" "instList r1 0 = [1]" "squashWidth r1 = 1" "numThreads r1 = 1"
    "numEntries r1 = 8" "\<forall>i. seqNum (insts r1 i) = of_nat i \<and> CanCommit (insts r1 i) \<and> threadNumber (insts r1 i) = 0" "doneSquashing r1 0"
    "numInstsInROB r1 = 1" by (auto simp: demo_inst_def)
  from step [of r1 2] r1 obtain r2 where r2: "rob_reach r2" "instList r2 0 = [1, 2]" "squashWidth r2 = 1" "numThreads r2 = 1"
    "numEntries r2 = 8" "\<forall>i. seqNum (insts r2 i) = of_nat i \<and> CanCommit (insts r2 i) \<and> threadNumber (insts r2 i) = 0" "doneSquashing r2 0"
    "numInstsInROB r2 = 2" by auto
  from step [of r2 3] r2 show ?thesis by auto
qed

section \<open>Properties\<close>

text \<open>C31: however the commit stage inserts, retires, marks and squashes, each thread's list stays in
  program order with only its own instructions, the two counters are the lengths of the lists, and the
  buffer never holds more than its capacity.  Inserting fails, with its assertion, exactly when the buffer
  is full; squashing never fails; a cycle of an unfinished squash fails, with its assertion, exactly when
  the thread has no instructions.\<close>

theorem rob_stays_consistent:
  assumes "rob_reach r" and "tid < numThreads r"
  shows "sorted_wrt (\<lambda>i j. seqNum (insts r i) < seqNum (insts r j)) (instList r tid)
    \<and> list_all (\<lambda>i. threadNumber (insts r i) = tid \<and> RobEntry (insts r i)) (instList r tid)
    \<and> threadEntries r tid = of_nat (countInsts_thread r tid) \<and> numInstsInROB r = int (countInsts r)
    \<and> int (countInsts r) \<le> uint (numEntries r)
    \<and> (if int (countInsts r) = uint (numEntries r) then insertInst new r = Inl AssertFailed else is_ok (insertInst new r))
    \<and> is_ok (rob_squash s tid r)
    \<and> (doneSquashing r tid
       \<or> (if instList r tid = [] then doSquash tid r = Inl AssertFailed else is_ok (doSquash tid r)))"
proof -
  have inv: "rob_inv r" and w: "0 < squashWidth r" using rob_reach_inv [OF assms(1)] by auto
  then have L: "rob_lists r" and C: "rob_counts r" by (simp_all add: rob_inv_def)
  have "countInsts r = (\<Sum>t < numThreads r. length (instList r t))"
    by (simp add: countInsts_def countInsts_thread_def sum_list_distinct_conv_sum_set atLeast0LessThan comp_def)
  then have c: "numInstsInROB r = int (countInsts r)" "int (countInsts r) \<le> uint (numEntries r)"
    "threadEntries r tid = of_nat (countInsts_thread r tid)"
    using C assms(2) by (simp_all add: rob_counts_def countInsts_thread_def)
  have "is_ok (rob_squash s tid r)"
    using rob_squash_inv [OF inv _ w, of tid s] rob_squash_idle [OF inv, of tid s]
    by (cases "instList r tid = []") (auto simp: is_ok_iff)
  moreover have "doneSquashing r tid
     \<or> (if instList r tid = [] then doSquash tid r = Inl AssertFailed else is_ok (doSquash tid r))"
    using doSquash_inv [OF inv assms(2) _ w] doSquash_idle [OF inv assms(2)] by (auto simp: is_ok_iff)
  moreover have "if int (countInsts r) = uint (numEntries r) then insertInst new r = Inl AssertFailed else is_ok (insertInst new r)"
    using insertInst_full [OF inv, of new] insertInst_eq [OF inv, of new] c by (auto simp: is_ok_iff)
  ultimately show ?thesis using L c by (simp add: rob_lists_def by_age_def list_all_iff)
qed

theorem rob_stays_consistent_witness: "\<exists>r. instList r 0 = [1, 2, 3] \<and> is_ok (rob_squash 1 0 r)"
proof -
  obtain r where "rob_reach r" "instList r 0 = [1, 2, 3]" "numThreads r = 1" using demo_rob_reach by blast
  with rob_stays_consistent [of r 0 _ 1] show ?thesis by auto
qed

text \<open>retiring a thread's head fails when the thread has no instruction or its head is not ready;
  otherwise it takes the oldest instruction off the list, marks it committed, queues it for removal from
  the CPU's list, and makes \<open>head\<close> the oldest instruction left in the active threads.\<close>

theorem retire_takes_oldest:
  assumes "rob_reach r" and "tid < numThreads r"
  shows "case instList r tid of
      [] \<Rightarrow> \<not> is_ok (retireHead tid r)
    | i # rest \<Rightarrow> if \<not> CanCommit (insts r i) then retireHead tid r = Inl AssertFailed
        else \<exists>r'. retireHead tid r = Inr r' \<and> instList r' = (instList r)(tid := rest)
          \<and> insts r' = (insts r)(i := (insts r i)\<lparr>RobEntry := False, Committed := True\<rparr>)
          \<and> removeList r' = removeList r @ [i] \<and> numInstsInROB r' = numInstsInROB r - 1
          \<and> (case rob_head r' of None \<Rightarrow> list_all (\<lambda>t. instList r' t = []) (activeThreads r)
             | Some h \<Rightarrow> list_all (\<lambda>t. list_all (\<lambda>j. seqNum (insts r' h) \<le> seqNum (insts r' j)) (instList r' t)) (activeThreads r)
                 \<and> list_ex (\<lambda>t. h \<in> set (instList r' t)) (activeThreads r))"
proof (cases "instList r tid")
  case Nil
  then show ?thesis by (simp add: retireHead_def Let_def assert_that_def)
next
  case (Cons i rest)
  have inv: "rob_inv r" using rob_reach_inv [OF assms(1)] by auto
  show ?thesis
  proof (cases "CanCommit (insts r i)")
    case False
    then show ?thesis using Cons by (simp add: retireHead_def Let_def assert_that_def)
  next
    case True
    from retireHead_eq [OF inv assms(2) Cons True] obtain r' where
      r': "retireHead tid r = Inr r'" "numThreads r' = numThreads r" "instList r' = (instList r)(tid := rest)"
      "activeThreads r' = activeThreads r" "insts r' = (insts r)(i := (insts r i)\<lparr>RobEntry := False, Committed := True\<rparr>)"
      "removeList r' = removeList r @ [i]" "numInstsInROB r' = numInstsInROB r - 1" "rob_head r' = rob_head (updateHead r')"
      by blast
    have lists: "by_age (insts r') (instList r' t)" for t
    proof -
      have "by_age (insts r') xs = by_age (insts r) xs" for xs by (rule by_age_cong) (simp add: r'(5))
      moreover have "by_age (insts r) (instList r t)" using inv by (simp add: rob_inv_def rob_lists_def)
      ultimately show ?thesis using Cons by (cases "t = tid") (simp_all add: r'(3))
    qed
    have "case rob_head r' of None \<Rightarrow> list_all (\<lambda>t. instList r' t = []) (activeThreads r)
             | Some h \<Rightarrow> list_all (\<lambda>t. list_all (\<lambda>j. seqNum (insts r' h) \<le> seqNum (insts r' j)) (instList r' t)) (activeThreads r)
                 \<and> list_ex (\<lambda>t. h \<in> set (instList r' t)) (activeThreads r)"
      using updateHead_oldest [of r', OF lists] unfolding r'(8) [symmetric] r'(4)
      by (cases "rob_head r'") (simp_all add: list_all_iff list_ex_iff)
    with r' show ?thesis using Cons True by auto
  qed
qed


theorem retire_takes_oldest_witness:
  "\<exists>r r'. instList r 0 = [1, 2, 3] \<and> retireHead 0 r = Inr r' \<and> instList r' 0 = [2, 3] \<and> Committed (insts r' 1)"
proof -
  obtain r where r: "rob_reach r" "instList r 0 = [1, 2, 3]" "numThreads r = 1"
    "\<forall>i. seqNum (insts r i) = of_nat i \<and> CanCommit (insts r i)" using demo_rob_reach by blast
  with retire_takes_oldest [of r 0] obtain r' where "retireHead 0 r = Inr r'" "instList r' = (instList r)(0 := [2, 3])"
    "insts r' = (insts r)(1 := (insts r 1)\<lparr>RobEntry := False, Committed := True\<rparr>)" by auto
  with r(2) show ?thesis by (intro exI [of _ r] exI [of _ r']) simp
qed

text \<open>C32: squashing a thread with \<open>m\<close> instructions younger than the given number takes exactly
  \<open>1 + (m - 1) div squashWidth\<close> cycles, the first within \<open>squash\<close>: before that the thread is not done,
  then it is, and exactly the younger instructions of the thread are marked squashed and ready to
  commit; no list changes.\<close>

theorem squash_takes_cycles:
  assumes "rob_reach r" and "instList r tid \<noteq> []"
    and "m = length (filter (\<lambda>i. s < seqNum (insts r i)) (instList r tid))"
  shows "(\<exists>r'. res_bind (rob_squash s tid r) (squash_cycles tid ((m - 1) div squashWidth r)) = Inr r'
      \<and> doneSquashing r' tid \<and> instList r' = instList r
      \<and> insts r' = (\<lambda>i. if i \<in> set (instList r tid) \<and> s < seqNum (insts r i)
          then (insts r i)\<lparr>Squashed := True, CanCommit := True\<rparr> else insts r i))
    \<and> (\<forall>n < (m - 1) div squashWidth r.
          \<exists>r'. res_bind (rob_squash s tid r) (squash_cycles tid n) = Inr r' \<and> \<not> doneSquashing r' tid)"
  using squash_cycles_outcome [OF assms] by blast

theorem squash_takes_cycles_witness:
  "\<exists>r r'. instList r 0 = [1, 2, 3] \<and> res_bind (rob_squash 1 0 r) (squash_cycles 0 1) = Inr r' \<and> doneSquashing r' 0
     \<and> Squashed (insts r' 2) \<and> Squashed (insts r' 3)"
proof -
  obtain r where r: "rob_reach r" "instList r 0 = [1, 2, 3]" "squashWidth r = 1"
    "\<forall>i. seqNum (insts r i) = of_nat i \<and> CanCommit (insts r i)" using demo_rob_reach by blast
  have ne: "instList r 0 \<noteq> []" and m: "2 = length (filter (\<lambda>i. (1 :: u64) < seqNum (insts r i)) (instList r 0))"
    using r(2,4) by simp_all
  have "(2 - 1) div squashWidth r = 1" using r(3) by simp
  with squash_takes_cycles [OF r(1) ne m] obtain r' where
    r': "res_bind (rob_squash 1 0 r) (squash_cycles 0 1) = Inr r'" "doneSquashing r' 0"
    "insts r' = (\<lambda>i. if i \<in> set (instList r 0) \<and> 1 < seqNum (insts r i)
       then (insts r i)\<lparr>Squashed := True, CanCommit := True\<rparr> else insts r i)" by auto
  have "Squashed (insts r' 2)" "Squashed (insts r' 3)" using r(2,4) by (simp_all add: r'(3))
  with r(2) r' show ?thesis by blast
qed

text \<open>
  A thread without instructions is the exception: while another thread keeps the buffer non-empty, a
  squash of it is never done, and the next \<open>doSquash\<close> stops the simulation.
\<close>

lemma squash_idle_thread_asserts:
  assumes "rob_reach r" and "tid < numThreads r" and "doneSquashing r tid" and "instList r tid = []" and "\<not> isEmpty r"
  shows "\<exists>r'. rob_squash s tid r = Inr r' \<and> \<not> doneSquashing r' tid \<and> doSquash tid r' = Inl AssertFailed"
proof -
  have "squashIt r tid = None"
    using rob_reach_inv [OF assms(1)] rob_squashesD [of r tid] assms(2,3) by (simp add: rob_inv_def)
  moreover have "rob_squash s tid r = Inr (r\<lparr>robStatus := (robStatus r)(tid := ROBSquashing),
      doneSquashing := (doneSquashing r)(tid := False), squashedSeqNum := (squashedSeqNum r)(tid := s)\<rparr>)"
    using assms(4,5) by (simp add: rob_squash_def Let_def)
  moreover have "doSquash tid q = Inl AssertFailed" if "squashIt q tid = None" for q
    using that by (simp add: doSquash_def Let_def)
  ultimately show ?thesis by simp
qed

end
