(* ===== verification/Pisa_Machine.thy ===== *)
theory Pisa_Machine
  imports Gem5_Prelude
begin

text \<open>
  What the SimpleScalar labs share of the PISA machine definition (\<open>target-pisa/pisa.h\<close>): the number
  of registers the dependence tables are indexed by, the flags of an opcode and the size of an
  instruction.  The table \<open>md_op2flags\<close> itself (\<open>MD_OP_FLAGS\<close>) is expanded from the machine
  definition at build time and is an argument (\<open>op_flags\<close>) of the definitions that read it.
\<close>

section \<open>Registers and opcode flags\<close>

definition MD_TOTAL_REGS :: nat where "MD_TOTAL_REGS = 32 + 32 + 3 + 1 + 1 + 1"

type_synonym op_flags = "nat \<Rightarrow> u32"

definition has_flag :: "op_flags \<Rightarrow> u32 \<Rightarrow> nat \<Rightarrow> bool" where
  "has_flag fl bits opc \<longleftrightarrow> fl opc AND bits \<noteq> 0"

definition F_ICOMP :: u32 where "F_ICOMP = 0x1"
definition F_FCOMP :: u32 where "F_FCOMP = 0x2"
definition F_UNCOND :: u32 where "F_UNCOND = 0x8"
definition F_COND :: u32 where "F_COND = 0x10"
definition F_MEM :: u32 where "F_MEM = 0x20"
definition F_LOAD :: u32 where "F_LOAD = 0x40"
definition F_STORE :: u32 where "F_STORE = 0x80"
definition F_TRAP :: u32 where "F_TRAP = 0x800"
definition F_CALL :: u32 where "F_CALL = 0x8000"

text \<open>Addresses are 32-bit, and \<open>sizeof(md_inst_t)\<close> is 8.\<close>

type_synonym md_addr = u32

definition MD_INST_SIZE :: u32 where "MD_INST_SIZE = 8"

end
