(* ===== verification/Tomasulo.thy ===== *)
theory Tomasulo
  imports Pisa_Machine
begin

text \<open>
  The Tomasulo simulator of lab 4 (\<open>lab4/tomasulo.c\<close>) and the instruction trace it runs on
  (\<open>lab4/instr.c\<close>, \<open>instr.h\<close>).  An \<open>instruction_t*\<close> is the position of the entry in the trace,
  \<open>None\<close> for \<open>NULL\<close>; the entries themselves are the state component \<open>insn\<close>.  The C arrays of
  pointers are lists of a fixed length.  The table \<open>md_op2flags\<close> (\<open>MD_OP_FLAGS\<close>), which the machine
  definition is expanded into at build time, is an argument.  Cycle counts are unbounded, and
  \<open>index\<close> is compared as the C code compares it.
\<close>

section \<open>Instructions and the trace\<close>

type_synonym iptr = nat

record instruction =
  index :: int
  r_out :: "int list"
  r_in :: "int list"
  opcode :: nat
  Q :: "iptr option list"
  tom_dispatch_cycle :: nat
  tom_issue_cycle :: nat
  tom_execute_cycle :: nat
  tom_cdb_cycle :: nat

text \<open>A trace is a linked list of tables; a table holds \<open>size\<close> entries, the rest is zeroed memory.\<close>

definition INSTR_TRACE_SIZE :: nat where "INSTR_TRACE_SIZE = 16384"

type_synonym instruction_trace = "instruction list list"

definition zero_instr :: instruction where
  "zero_instr = \<lparr>index = 0, r_out = [0, 0], r_in = [0, 0, 0], opcode = 0, Q = [None, None, None],
     tom_dispatch_cycle = 0, tom_issue_cycle = 0, tom_execute_cycle = 0, tom_cdb_cycle = 0\<rparr>"

fun put_instr :: "instruction_trace \<Rightarrow> instruction \<Rightarrow> instruction_trace" where
  "put_instr [] i = [[i]]"
| "put_instr [t] i = (if length t = INSTR_TRACE_SIZE then [t, [i]] else [t @ [i]])"
| "put_instr (t # u # ts) i =
     (if length t = INSTR_TRACE_SIZE then t # put_instr (u # ts) i else (t @ [i]) # u # ts)"

fun get_instr :: "instruction_trace \<Rightarrow> nat \<Rightarrow> instruction res" where
  "get_instr [] k = Inl AssertFailed"
| "get_instr (t # ts) k =
     (if k \<ge> INSTR_TRACE_SIZE then get_instr ts (k - INSTR_TRACE_SIZE)
      else Inr (if k < length t then t ! k else zero_instr))"

section \<open>Parameters and opcode classes\<close>

definition INSTR_QUEUE_SIZE :: nat where "INSTR_QUEUE_SIZE = 10"
definition RESERV_INT_SIZE :: nat where "RESERV_INT_SIZE = 4"
definition RESERV_FP_SIZE :: nat where "RESERV_FP_SIZE = 2"
definition FU_INT_SIZE :: nat where "FU_INT_SIZE = 2"
definition FU_FP_SIZE :: nat where "FU_FP_SIZE = 1"
definition FU_INT_LATENCY :: nat where "FU_INT_LATENCY = 4"
definition FU_FP_LATENCY :: nat where "FU_FP_LATENCY = 9"
definition MAX_INPUT_REGS :: nat where "MAX_INPUT_REGS = 3"
definition MAX_OUTPUT_REGS :: nat where "MAX_OUTPUT_REGS = 2"

definition IS_UNCOND_CTRL :: "op_flags \<Rightarrow> nat \<Rightarrow> bool" where
  "IS_UNCOND_CTRL fl opc \<longleftrightarrow> has_flag fl F_CALL opc \<or> has_flag fl F_UNCOND opc"

definition IS_COND_CTRL :: "op_flags \<Rightarrow> nat \<Rightarrow> bool" where
  "IS_COND_CTRL fl opc \<longleftrightarrow> has_flag fl F_COND opc"

definition IS_STORE :: "op_flags \<Rightarrow> nat \<Rightarrow> bool" where
  "IS_STORE fl opc \<longleftrightarrow> has_flag fl F_STORE opc"

definition IS_TRAP :: "op_flags \<Rightarrow> nat \<Rightarrow> bool" where
  "IS_TRAP fl opc \<longleftrightarrow> has_flag fl F_TRAP opc"

definition USES_INT_FU :: "op_flags \<Rightarrow> nat \<Rightarrow> bool" where
  "USES_INT_FU fl opc \<longleftrightarrow> has_flag fl F_ICOMP opc \<or> has_flag fl F_LOAD opc \<or> has_flag fl F_STORE opc"

definition USES_FP_FU :: "op_flags \<Rightarrow> nat \<Rightarrow> bool" where
  "USES_FP_FU fl opc \<longleftrightarrow> has_flag fl F_FCOMP opc"

section \<open>The state\<close>

record tomasulo =
  insn :: "iptr \<Rightarrow> instruction"
  instr_queue :: "iptr option list"
  instr_queue_size :: nat
  instr_queue_head :: nat
  reservINT :: "iptr option list"
  reservFP :: "iptr option list"
  fuINT :: "iptr option list"
  fuFP :: "iptr option list"
  commonDataBus :: "iptr option"
  map_table :: "iptr option list"
  fetch_index :: nat

definition upd_insn :: "iptr \<Rightarrow> (instruction \<Rightarrow> instruction) \<Rightarrow> tomasulo \<Rightarrow> tomasulo" where
  "upd_insn i f s = s\<lparr>insn := (insn s)(i := f (insn s i))\<rparr>"

section \<open>Arrays of instructions\<close>

fun insn_array_is_empty :: "iptr option list \<Rightarrow> bool" where
  "insn_array_is_empty [] = True"
| "insn_array_is_empty (x # xs) = (if x \<noteq> None then False else insn_array_is_empty xs)"

fun insn_array_is_full :: "iptr option list \<Rightarrow> bool" where
  "insn_array_is_full [] = True"
| "insn_array_is_full (x # xs) = (if x = None then False else insn_array_is_full xs)"

text \<open>
  The three searches for the oldest instruction run the same loop, each skipping the instructions
  that are not \<open>ok\<close>; \<open>oldest_index\<close> starts at \<open>0x7FFFFFFF\<close>.
\<close>

fun oldest_loop :: "(iptr \<Rightarrow> bool) \<Rightarrow> (iptr \<Rightarrow> instruction) \<Rightarrow> iptr option list \<Rightarrow> int \<Rightarrow> iptr option \<Rightarrow> iptr option" where
  "oldest_loop ok f [] oldest_index oldest_insn = oldest_insn"
| "oldest_loop ok f (None # xs) oldest_index oldest_insn = oldest_loop ok f xs oldest_index oldest_insn"
| "oldest_loop ok f (Some i # xs) oldest_index oldest_insn =
     (if ok i \<and> index (f i) < oldest_index then oldest_loop ok f xs (index (f i)) (Some i)
      else oldest_loop ok f xs oldest_index oldest_insn)"

definition insn_array_get_oldest :: "tomasulo \<Rightarrow> iptr option list \<Rightarrow> iptr option" where
  "insn_array_get_oldest s xs = oldest_loop (\<lambda>_. True) (insn s) xs 0x7FFFFFFF None"

definition insn_array_get_oldest_ready_for_execute :: "tomasulo \<Rightarrow> iptr option list \<Rightarrow> iptr option" where
  "insn_array_get_oldest_ready_for_execute s xs =
     oldest_loop (\<lambda>i. insn_array_is_empty (Q (insn s i))) (insn s) xs 0x7FFFFFFF None"

definition latency :: "op_flags \<Rightarrow> nat \<Rightarrow> nat" where
  "latency fl opc = (if USES_INT_FU fl opc then FU_INT_LATENCY
     else if USES_FP_FU fl opc then FU_FP_LATENCY else 0)"

text \<open>Its loop asserts that every instruction of the array has started.\<close>

definition insn_array_get_oldest_ready_for_CDB ::
  "op_flags \<Rightarrow> tomasulo \<Rightarrow> iptr option list \<Rightarrow> nat \<Rightarrow> iptr option res" where
  "insn_array_get_oldest_ready_for_CDB fl s xs current_cycle =
     assert_that (list_all (\<lambda>x. case x of None \<Rightarrow> True | Some i \<Rightarrow> tom_execute_cycle (insn s i) \<noteq> 0) xs)
       (Inr (oldest_loop (\<lambda>i. \<not> tom_execute_cycle (insn s i) + latency fl (opcode (insn s i)) > current_cycle)
               (insn s) xs 0x7FFFFFFF None))"

fun insn_array_insert_insn :: "iptr \<Rightarrow> iptr option list \<Rightarrow> iptr option list" where
  "insn_array_insert_insn i [] = []"
| "insn_array_insert_insn i (x # xs) = (if x = None then Some i # xs else x # insn_array_insert_insn i xs)"

fun insn_array_remove_insn :: "iptr \<Rightarrow> iptr option list \<Rightarrow> iptr option list" where
  "insn_array_remove_insn i [] = []"
| "insn_array_remove_insn i (x # xs) = (if x = Some i then None # xs else x # insn_array_remove_insn i xs)"

section \<open>The instruction queue\<close>

definition instr_queue_is_empty :: "tomasulo \<Rightarrow> bool" where
  "instr_queue_is_empty s \<longleftrightarrow> instr_queue_size s = 0"

definition instr_queue_is_full :: "tomasulo \<Rightarrow> bool" where
  "instr_queue_is_full s \<longleftrightarrow> instr_queue_size s = INSTR_QUEUE_SIZE"

definition instr_queue_peek :: "tomasulo \<Rightarrow> iptr option res" where
  "instr_queue_peek s = vec_get (instr_queue s) (instr_queue_head s)"

text \<open>The remainder of a negative number is negative in C.\<close>

definition instr_queue_peek_tail :: "tomasulo \<Rightarrow> iptr option res" where
  "instr_queue_peek_tail s =
     (if instr_queue_head s + instr_queue_size s = 0 then Inl OutOfRange
      else vec_get (instr_queue s) ((instr_queue_head s + instr_queue_size s - 1) mod INSTR_QUEUE_SIZE))"

definition instr_queue_dequeue :: "tomasulo \<Rightarrow> (iptr option \<times> tomasulo) res" where
  "instr_queue_dequeue s =
     assert_that (instr_queue_size s \<noteq> 0)
       (res_bind (vec_get (instr_queue s) (instr_queue_head s)) (\<lambda>i.
        res_bind (vec_set (instr_queue s) (instr_queue_head s) None) (\<lambda>q.
          Inr (i, s\<lparr>instr_queue := q, instr_queue_head := (instr_queue_head s + 1) mod INSTR_QUEUE_SIZE,
                    instr_queue_size := instr_queue_size s - 1\<rparr>))))"

definition instr_queue_enqueue :: "iptr \<Rightarrow> tomasulo \<Rightarrow> tomasulo res" where
  "instr_queue_enqueue i s =
     assert_that (instr_queue_size s < INSTR_QUEUE_SIZE)
       (let tail = (instr_queue_head s + instr_queue_size s) mod INSTR_QUEUE_SIZE
        in res_bind (vec_set (instr_queue s) tail (Some i)) (\<lambda>q.
             Inr (s\<lparr>instr_queue := q, instr_queue_size := instr_queue_size s + 1\<rparr>)))"

section \<open>From the common data bus to retirement\<close>

definition is_simulation_done :: "nat \<Rightarrow> tomasulo \<Rightarrow> bool" where
  "is_simulation_done sim_insn s \<longleftrightarrow> fetch_index s > sim_insn
     \<and> insn_array_is_empty (reservINT s) \<and> insn_array_is_empty (reservFP s)
     \<and> insn_array_is_empty (fuINT s) \<and> insn_array_is_empty (fuFP s)"

text \<open>Clears the dependencies on \<open>p\<close> of every instruction in a reservation station.\<close>

fun clear_dependencies :: "iptr \<Rightarrow> iptr option list \<Rightarrow> tomasulo \<Rightarrow> tomasulo" where
  "clear_dependencies p [] s = s"
| "clear_dependencies p (None # xs) s = clear_dependencies p xs s"
| "clear_dependencies p (Some i # xs) s =
     clear_dependencies p xs
       (upd_insn i (\<lambda>n. n\<lparr>Q := (insn_array_remove_insn p ^^ MAX_INPUT_REGS) (Q n)\<rparr>) s)"

definition CDB_To_retire :: "tomasulo \<Rightarrow> tomasulo" where
  "CDB_To_retire s =
     (case commonDataBus s of
        None \<Rightarrow> s
      | Some p \<Rightarrow>
          let s1 = clear_dependencies p (reservINT s) s;
              s2 = clear_dependencies p (reservFP s1) s1
          in s2\<lparr>map_table := (insn_array_remove_insn p ^^ MAX_OUTPUT_REGS) (map_table s2),
                commonDataBus := None\<rparr>)"

section \<open>From execution to the common data bus\<close>

text \<open>The loop over the functional units; the results are the units and the reservation stations.\<close>

fun remove_completed_stores ::
  "op_flags \<Rightarrow> nat \<Rightarrow> (iptr \<Rightarrow> instruction) \<Rightarrow> iptr option list \<Rightarrow> iptr option list
     \<Rightarrow> iptr option list \<times> iptr option list" where
  "remove_completed_stores fl current_cycle f [] reserv = ([], reserv)"
| "remove_completed_stores fl current_cycle f (x # xs) reserv =
     (case x of
        None \<Rightarrow> (case remove_completed_stores fl current_cycle f xs reserv of (ys, r) \<Rightarrow> (None # ys, r))
      | Some i \<Rightarrow>
          if IS_STORE fl (opcode (f i)) \<and> tom_execute_cycle (f i) + FU_INT_LATENCY \<le> current_cycle
          then (case remove_completed_stores fl current_cycle f xs (insn_array_remove_insn i reserv) of
                  (ys, r) \<Rightarrow> (None # ys, r))
          else (case remove_completed_stores fl current_cycle f xs reserv of (ys, r) \<Rightarrow> (Some i # ys, r)))"

definition insn_array_remove_completed_stores_for_CDB :: "op_flags \<Rightarrow> nat \<Rightarrow> tomasulo \<Rightarrow> tomasulo" where
  "insn_array_remove_completed_stores_for_CDB fl current_cycle s =
     (case remove_completed_stores fl current_cycle (insn s) (fuINT s) (reservINT s) of
        (f, r) \<Rightarrow> s\<lparr>fuINT := f, reservINT := r\<rparr>)"

definition execute_To_CDB :: "op_flags \<Rightarrow> nat \<Rightarrow> tomasulo \<Rightarrow> tomasulo res" where
  "execute_To_CDB fl current_cycle s =
     (if commonDataBus s \<noteq> None then Inr s
      else let s1 = insn_array_remove_completed_stores_for_CDB fl current_cycle s
      in res_bind (insn_array_get_oldest_ready_for_CDB fl s1 (fuINT s1) current_cycle) (\<lambda>oldest0.
         res_bind (insn_array_get_oldest_ready_for_CDB fl s1 (fuFP s1) current_cycle) (\<lambda>oldest1.
           case insn_array_get_oldest s1 [oldest0, oldest1] of
             None \<Rightarrow> Inr s1
           | Some i \<Rightarrow>
               let s2 = s1\<lparr>fuINT := insn_array_remove_insn i (fuINT s1),
                           fuFP := insn_array_remove_insn i (fuFP s1),
                           reservINT := insn_array_remove_insn i (reservINT s1),
                           reservFP := insn_array_remove_insn i (reservFP s1)\<rparr>
               in Inr ((upd_insn i (\<lambda>n. n\<lparr>tom_cdb_cycle := current_cycle\<rparr>) s2)\<lparr>commonDataBus := Some i\<rparr>))))"

section \<open>From issue to execution\<close>

text \<open>The instructions in an array, in the order of their slots.\<close>

fun elems :: "iptr option list \<Rightarrow> iptr list" where
  "elems [] = []"
| "elems (None # xs) = elems xs"
| "elems (Some i # xs) = i # elems xs"

lemma elems_iff: "i \<in> set (elems xs) \<longleftrightarrow> Some i \<in> set xs"
  by (induction xs rule: elems.induct) auto

lemma oldest_loop_in:
  "oldest_loop ok f xs n acc = Some i \<Longrightarrow> acc = Some i \<or> (i \<in> set (elems xs) \<and> ok i)"
  by (induction ok f xs n acc rule: oldest_loop.induct) (auto split: if_splits)

lemma elems_remove: "elems (insn_array_remove_insn i xs) = remove1 i (elems xs)"
  by (induction xs rule: elems.induct) auto

lemma length_remove1_less: "i \<in> set xs \<Longrightarrow> length (remove1 i xs) < length xs"
  using length_pos_if_in_set [of i xs] by (simp add: length_remove1)

text \<open>
  The loop of \<open>issue_To_execute_helper\<close> on the copy of the reservation stations; it ends because
  every pass takes an instruction off the copy.
\<close>

function issue_loop :: "nat \<Rightarrow> iptr option list \<Rightarrow> iptr option list \<Rightarrow> tomasulo \<Rightarrow> iptr option list \<times> tomasulo" where
  "issue_loop current_cycle copy fu s =
     (if insn_array_is_empty copy \<or> insn_array_is_full fu then (fu, s)
      else case insn_array_get_oldest_ready_for_execute s copy of
             None \<Rightarrow> (fu, s)
           | Some i \<Rightarrow>
               issue_loop current_cycle (insn_array_remove_insn i copy) (insn_array_insert_insn i fu)
                 (upd_insn i (\<lambda>n. n\<lparr>tom_execute_cycle := current_cycle\<rparr>) s))"
  by pat_completeness auto
termination
  by (relation "measure (\<lambda>(c, copy, fu, s). length (elems copy))")
    (auto simp: insn_array_get_oldest_ready_for_execute_def elems_remove
      dest!: oldest_loop_in intro: length_remove1_less)

declare issue_loop.simps [simp del]

fun remove_executing :: "iptr option list \<Rightarrow> iptr option list \<Rightarrow> iptr option list" where
  "remove_executing [] copy = copy"
| "remove_executing (x # fu) copy =
     remove_executing fu (case x of None \<Rightarrow> copy | Some i \<Rightarrow> insn_array_remove_insn i copy)"

definition issue_To_execute_helper ::
  "nat \<Rightarrow> iptr option list \<Rightarrow> iptr option list \<Rightarrow> tomasulo \<Rightarrow> iptr option list \<times> tomasulo" where
  "issue_To_execute_helper current_cycle reserv fu s = issue_loop current_cycle (remove_executing fu reserv) fu s"

definition issue_To_execute :: "nat \<Rightarrow> tomasulo \<Rightarrow> tomasulo" where
  "issue_To_execute current_cycle s =
     (case issue_To_execute_helper current_cycle (reservINT s) (fuINT s) s of (fu1, s1) \<Rightarrow>
        let s2 = s1\<lparr>fuINT := fu1\<rparr>
        in case issue_To_execute_helper current_cycle (reservFP s2) (fuFP s2) s2 of (fu2, s3) \<Rightarrow>
             s3\<lparr>fuFP := fu2\<rparr>)"

section \<open>From dispatch to issue\<close>

text \<open>The loop that records in \<open>Q\<close> the producers of the input registers, from position \<open>k\<close> on.\<close>

fun set_inputs :: "iptr \<Rightarrow> nat \<Rightarrow> int list \<Rightarrow> tomasulo \<Rightarrow> tomasulo res" where
  "set_inputs i k [] s = Inr s"
| "set_inputs i k (r # rs) s =
     (if r < 0 then set_inputs i (k + 1) rs s
      else res_bind (vec_get (map_table s) (nat r)) (\<lambda>m.
             case m of
               None \<Rightarrow> set_inputs i (k + 1) rs s
             | Some p \<Rightarrow> set_inputs i (k + 1) rs (upd_insn i (\<lambda>n. n\<lparr>Q := (Q n)[k := Some p]\<rparr>) s)))"

fun set_outputs :: "iptr \<Rightarrow> int list \<Rightarrow> tomasulo \<Rightarrow> tomasulo res" where
  "set_outputs i [] s = Inr s"
| "set_outputs i (r # rs) s =
     (if r < 0 then set_outputs i rs s
      else res_bind (vec_set (map_table s) (nat r) (Some i)) (\<lambda>m. set_outputs i rs (s\<lparr>map_table := m\<rparr>)))"

definition issue_insn :: "iptr \<Rightarrow> nat \<Rightarrow> tomasulo \<Rightarrow> tomasulo res" where
  "issue_insn i current_cycle s =
     (let s1 = upd_insn i (\<lambda>n. n\<lparr>tom_issue_cycle := current_cycle\<rparr>) s
      in res_bind (set_inputs i 0 (r_in (insn s1 i)) s1) (\<lambda>s2.
           set_outputs i (r_out (insn s2 i)) s2))"

definition dispatch_To_issue :: "op_flags \<Rightarrow> nat \<Rightarrow> tomasulo \<Rightarrow> tomasulo res" where
  "dispatch_To_issue fl current_cycle s =
     (if instr_queue_is_empty s then Inr s
      else res_bind (instr_queue_peek s) (\<lambda>x.
        case x of
          None \<Rightarrow> Inr s
        | Some i \<Rightarrow>
            let opc = opcode (insn s i)
            in if IS_UNCOND_CTRL fl opc \<or> IS_COND_CTRL fl opc
               then res_bind (instr_queue_dequeue s) (\<lambda>(_, s1). Inr s1)
               else if USES_INT_FU fl opc
               then if insn_array_is_full (reservINT s) then Inr s
                    else res_bind (instr_queue_dequeue s) (\<lambda>(_, s1).
                         issue_insn i current_cycle (s1\<lparr>reservINT := insn_array_insert_insn i (reservINT s1)\<rparr>))
               else if USES_FP_FU fl opc
               then if insn_array_is_full (reservFP s) then Inr s
                    else res_bind (instr_queue_dequeue s) (\<lambda>(_, s1).
                         issue_insn i current_cycle (s1\<lparr>reservFP := insn_array_insert_insn i (reservFP s1)\<rparr>))
               else Inr s))"


section \<open>Fetch and dispatch\<close>

text \<open>
  The loop of \<open>fetch\<close> skips traps and the null opcode; \<open>None\<close> when the trace is exhausted.
\<close>

function fetch_loop ::
  "op_flags \<Rightarrow> instruction_trace \<Rightarrow> nat \<Rightarrow> tomasulo \<Rightarrow> (iptr option \<times> tomasulo) res" where
  "fetch_loop fl trace sim_num_insn s =
     (let k = fetch_index s + 1; s1 = s\<lparr>fetch_index := k\<rparr>
      in if k \<ge> sim_num_insn + 1 then Inr (None, s1)
         else res_bind (get_instr trace k) (\<lambda>_.
           let opc = opcode (insn s1 k)
           in if IS_TRAP fl opc \<or> opc = 0 then fetch_loop fl trace sim_num_insn s1
              else Inr (Some k, s1)))"
  by pat_completeness auto
termination
  by (relation "measure (\<lambda>(fl, trace, n, s). Suc n - fetch_index s)") auto

declare fetch_loop.simps [simp del]

definition fetch :: "op_flags \<Rightarrow> instruction_trace \<Rightarrow> nat \<Rightarrow> tomasulo \<Rightarrow> tomasulo res" where
  "fetch fl trace sim_num_insn s =
     (if instr_queue_is_full s then Inr s
      else res_bind (fetch_loop fl trace sim_num_insn s) (\<lambda>(x, s1).
        case x of None \<Rightarrow> Inr s1 | Some i \<Rightarrow> instr_queue_enqueue i s1))"

definition fetch_To_dispatch ::
  "op_flags \<Rightarrow> instruction_trace \<Rightarrow> nat \<Rightarrow> nat \<Rightarrow> tomasulo \<Rightarrow> tomasulo res" where
  "fetch_To_dispatch fl trace sim_num_insn current_cycle s =
     res_bind (fetch fl trace sim_num_insn s) (\<lambda>s1.
     res_bind (instr_queue_peek_tail s1) (\<lambda>x.
       case x of
         None \<Rightarrow> Inr s1
       | Some i \<Rightarrow>
           if tom_dispatch_cycle (insn s1 i) = 0
           then Inr (upd_insn i (\<lambda>n. n\<lparr>tom_dispatch_cycle := current_cycle\<rparr>) s1)
           else Inr s1))"

section \<open>The simulation\<close>

text \<open>
  \<open>sim_main\<close> (\<open>lab4/sim-safe.c\<close>) skips entry 0 of the trace and records every instruction it
  executes, numbered from 1, with its opcode, output registers and input registers.
\<close>

type_synonym decoded = "nat \<times> (int \<times> int) \<times> (int \<times> int \<times> int)"

fun sim_instr :: "nat \<Rightarrow> decoded \<Rightarrow> instruction" where
  "sim_instr n (opc, (o1, o2), (i1, i2, i3)) =
     zero_instr\<lparr>index := int n, opcode := opc, r_out := [o1, o2], r_in := [i1, i2, i3]\<rparr>"

definition sim_trace :: "decoded list \<Rightarrow> instruction_trace" where
  "sim_trace ops = fold (\<lambda>(n, d) t. put_instr t (sim_instr n d)) (List.enumerate 1 ops) [[zero_instr]]"

definition trace_insn :: "instruction_trace \<Rightarrow> iptr \<Rightarrow> instruction" where
  "trace_insn trace i = (case get_instr trace i of Inl _ \<Rightarrow> zero_instr | Inr n \<Rightarrow> n)"

definition init_tomasulo :: "instruction_trace \<Rightarrow> tomasulo" where
  "init_tomasulo trace =
     \<lparr>insn = trace_insn trace,
      instr_queue = replicate INSTR_QUEUE_SIZE None, instr_queue_size = 0, instr_queue_head = 0,
      reservINT = replicate RESERV_INT_SIZE None, reservFP = replicate RESERV_FP_SIZE None,
      fuINT = replicate FU_INT_SIZE None, fuFP = replicate FU_FP_SIZE None,
      commonDataBus = None, map_table = replicate MD_TOTAL_REGS None, fetch_index = 0\<rparr>"

definition cycle_step ::
  "op_flags \<Rightarrow> instruction_trace \<Rightarrow> nat \<Rightarrow> nat \<Rightarrow> tomasulo \<Rightarrow> tomasulo res" where
  "cycle_step fl trace sim_num_insn cycle s =
     res_bind (execute_To_CDB fl cycle (CDB_To_retire s)) (\<lambda>s2.
     res_bind (dispatch_To_issue fl cycle (issue_To_execute cycle s2)) (\<lambda>s4.
       fetch_To_dispatch fl trace sim_num_insn cycle s4))"

text \<open>The cycle loop has no bound: \<open>None\<close> is a run that does not end.\<close>

partial_function (option) tomasulo_loop ::
  "op_flags \<Rightarrow> instruction_trace \<Rightarrow> nat \<Rightarrow> nat \<Rightarrow> tomasulo \<Rightarrow> (nat \<times> tomasulo) res option" where
  "tomasulo_loop fl trace sim_num_insn cycle s =
     (case cycle_step fl trace sim_num_insn cycle s of
        Inl e \<Rightarrow> Some (Inl e)
      | Inr s1 \<Rightarrow>
          if is_simulation_done sim_num_insn s1 then Some (Inr (cycle + 1, s1))
          else tomasulo_loop fl trace sim_num_insn (cycle + 1) s1)"

declare tomasulo_loop.simps [code]

definition runTomasulo :: "op_flags \<Rightarrow> instruction_trace \<Rightarrow> nat \<Rightarrow> (nat \<times> tomasulo) res option" where
  "runTomasulo fl trace sim_num_insn = tomasulo_loop fl trace sim_num_insn 1 (init_tomasulo trace)"

end
