(* ===== verification/Tomasulo_Laws.thy ===== *)
theory Tomasulo_Laws
  imports Tomasulo
begin


section \<open>Arrays of instructions\<close>

lemma insn_array_is_empty_iff: "insn_array_is_empty xs \<longleftrightarrow> elems xs = []"
  by (induction xs rule: elems.induct) auto

lemma insn_array_is_full_iff: "insn_array_is_full xs \<longleftrightarrow> length (elems xs) = length xs"
proof -
  have le: "length (elems xs) \<le> length xs" for xs :: "iptr option list"
    by (induction xs rule: elems.induct) auto
  show ?thesis
  proof (induction xs rule: elems.induct)
    case (2 xs)
    then show ?case using le [of xs] by auto
  qed auto
qed

lemma length_elems_le: "length (elems xs) \<le> length xs"
  by (induction xs rule: elems.induct) auto

lemma elems_replicate_None [simp]: "elems (replicate n None) = []"
  by (induction n) auto

lemma length_insert_insn [simp]: "length (insn_array_insert_insn i xs) = length xs"
  by (induction xs) auto

lemma length_remove_insn [simp]: "length (insn_array_remove_insn i xs) = length xs"
  by (induction xs) auto

lemma mset_elems_insert:
  "\<not> insn_array_is_full xs \<Longrightarrow> set (elems (insn_array_insert_insn i xs)) = insert i (set (elems xs))
     \<and> length (elems (insn_array_insert_insn i xs)) = Suc (length (elems xs))
     \<and> (distinct (elems (insn_array_insert_insn i xs)) \<longleftrightarrow> i \<notin> set (elems xs) \<and> distinct (elems xs))"
  by (induction xs rule: elems.induct) auto

lemmas elems_insert = mset_elems_insert [THEN conjunct1]
  mset_elems_insert [THEN conjunct2, THEN conjunct1] mset_elems_insert [THEN conjunct2, THEN conjunct2]

text \<open>Taking every occurrence of an instruction out of an array.\<close>

definition wipe :: "iptr \<Rightarrow> iptr option list \<Rightarrow> iptr option list" where
  "wipe i xs = map (\<lambda>x. if x = Some i then None else x) xs"

lemma wipe_noop: "Some i \<notin> set xs \<Longrightarrow> wipe i xs = xs"
  by (induction xs) (auto simp: wipe_def)

lemma remove_insn_noop: "Some i \<notin> set xs \<Longrightarrow> insn_array_remove_insn i xs = xs"
  by (induction xs) auto

lemma wipe_remove_insn: "wipe i (insn_array_remove_insn i xs) = wipe i xs"
  by (induction xs) (auto simp: wipe_def)

lemma count_remove_insn:
  "count_list (insn_array_remove_insn i xs) (Some i) = count_list xs (Some i) - 1"
  by (induction xs) (auto simp: Suc_diff_le count_list_0_iff[symmetric])

lemma remove_insn_pow:
  "count_list xs (Some i) \<le> n \<Longrightarrow> (insn_array_remove_insn i ^^ n) xs = wipe i xs"
proof (induction n arbitrary: xs)
  case 0
  then show ?case by (simp add: wipe_noop count_list_0_iff)
next
  case (Suc n)
  then have "(insn_array_remove_insn i ^^ n) (insn_array_remove_insn i xs) = wipe i xs"
    by (simp add: count_remove_insn wipe_remove_insn)
  then show ?case by (simp add: funpow_swap1)
qed

lemma count_list_le_length: "count_list xs x \<le> length xs"
  by (induction xs) auto

lemma count_list_card:
  "count_list xs x = card {k. k < length xs \<and> xs ! k = x}"
proof (induction xs)
  case (Cons a xs)
  have "{k. k < length (a # xs) \<and> (a # xs) ! k = x}
      = (if a = x then {0} else {}) \<union> Suc ` {k. k < length xs \<and> xs ! k = x}"
    by (auto simp: less_Suc_eq_0_disj)
  then show ?case using Cons by (auto simp: card_image card_insert_if)
qed simp

lemma length_wipe [simp]: "length (wipe i xs) = length xs"
  by (simp add: wipe_def)

lemma nth_wipe: "k < length xs \<Longrightarrow> wipe i xs ! k = (if xs ! k = Some i then None else xs ! k)"
  by (simp add: wipe_def)

lemma elems_wipe: "elems (wipe i xs) = filter (\<lambda>j. j \<noteq> i) (elems xs)"
  by (induction xs rule: elems.induct) (auto simp: wipe_def)

text \<open>The searches return the instruction with the least index among the eligible ones.\<close>

lemma oldest_loop_None:
  "oldest_loop ok f xs n acc = None \<longleftrightarrow> acc = None \<and> (\<forall>i\<in>set (elems xs). ok i \<longrightarrow> index (f i) \<ge> n)"
  by (induction ok f xs n acc rule: oldest_loop.induct) auto

lemma oldest_loop_least:
  "\<lbrakk>oldest_loop ok f xs n acc = Some i; \<And>j. acc = Some j \<Longrightarrow> index (f j) = n\<rbrakk>
    \<Longrightarrow> index (f i) \<le> n \<and> (\<forall>i'\<in>set (elems xs). ok i' \<longrightarrow> index (f i) \<le> index (f i'))"
  by (induction ok f xs n acc rule: oldest_loop.induct) (fastforce split: if_splits)+

section \<open>The program and the order of its register accesses\<close>

text \<open>
  A program is the function from positions to trace entries before the run.  Traps and null
  opcodes are never fetched; branches leave the queue without being issued.
\<close>

type_synonym program = "iptr \<Rightarrow> instruction"

definition kept :: "op_flags \<Rightarrow> program \<Rightarrow> iptr \<Rightarrow> bool" where
  "kept fl p i \<longleftrightarrow> \<not> IS_TRAP fl (opcode (p i)) \<and> opcode (p i) \<noteq> 0"

definition branch :: "op_flags \<Rightarrow> program \<Rightarrow> iptr \<Rightarrow> bool" where
  "branch fl p i \<longleftrightarrow> IS_UNCOND_CTRL fl (opcode (p i)) \<or> IS_COND_CTRL fl (opcode (p i))"

definition uses_int :: "op_flags \<Rightarrow> program \<Rightarrow> iptr \<Rightarrow> bool" where
  "uses_int fl p i \<longleftrightarrow> USES_INT_FU fl (opcode (p i))"

definition works :: "op_flags \<Rightarrow> program \<Rightarrow> iptr \<Rightarrow> bool" where
  "works fl p i \<longleftrightarrow> kept fl p i \<and> \<not> branch fl p i \<and> (uses_int fl p i \<or> USES_FP_FU fl (opcode (p i)))"

definition writes :: "program \<Rightarrow> nat \<Rightarrow> iptr \<Rightarrow> bool" where
  "writes p r j \<longleftrightarrow> int r \<in> set (r_out (p j))"

text \<open>Position \<open>j\<close> is the last instruction before \<open>i\<close> that writes register \<open>r\<close>.\<close>

definition producer :: "op_flags \<Rightarrow> program \<Rightarrow> iptr \<Rightarrow> nat \<Rightarrow> iptr \<Rightarrow> bool" where
  "producer fl p i r j \<longleftrightarrow> 1 \<le> j \<and> j < i \<and> works fl p j \<and> writes p r j
     \<and> (\<forall>m. j < m \<and> m < i \<and> works fl p m \<longrightarrow> \<not> writes p r m)"

definition fresh_instr :: "instruction \<Rightarrow> bool" where
  "fresh_instr n \<longleftrightarrow> Q n = [None, None, None] \<and> tom_dispatch_cycle n = 0 \<and> tom_issue_cycle n = 0
     \<and> tom_execute_cycle n = 0 \<and> tom_cdb_cycle n = 0"

definition wf_instr :: "nat \<Rightarrow> instruction \<Rightarrow> bool" where
  "wf_instr i n \<longleftrightarrow> index n = int i \<and> length (r_in n) = MAX_INPUT_REGS \<and> length (r_out n) = MAX_OUTPUT_REGS
     \<and> (\<forall>r\<in>set (r_in n) \<union> set (r_out n). r < int MD_TOTAL_REGS)"

definition wf_program :: "instruction_trace \<Rightarrow> program \<Rightarrow> nat \<Rightarrow> bool" where
  "wf_program trace p N \<longleftrightarrow> N < 0x7FFFFFFF \<and> (\<forall>i. fresh_instr (p i)) \<and>
     (\<forall>i. 1 \<le> i \<and> i \<le> N \<longrightarrow> get_instr trace i = Inr (p i) \<and> wf_instr i (p i))"

section \<open>The invariant of the pipeline\<close>

definition same_code :: "program \<Rightarrow> tomasulo \<Rightarrow> bool" where
  "same_code p s \<longleftrightarrow> (\<forall>i. index (insn s i) = index (p i) \<and> r_in (insn s i) = r_in (p i)
     \<and> r_out (insn s i) = r_out (p i) \<and> opcode (insn s i) = opcode (p i))"

definition shape :: "tomasulo \<Rightarrow> bool" where
  "shape s \<longleftrightarrow> length (instr_queue s) = INSTR_QUEUE_SIZE \<and> instr_queue_head s < INSTR_QUEUE_SIZE
     \<and> length (reservINT s) = RESERV_INT_SIZE \<and> length (reservFP s) = RESERV_FP_SIZE
     \<and> length (fuINT s) = FU_INT_SIZE \<and> length (fuFP s) = FU_FP_SIZE
     \<and> length (map_table s) = MD_TOTAL_REGS"

text \<open>The instruction queue holds the fetched instructions past position \<open>d\<close>, in order.\<close>

definition queue_list :: "op_flags \<Rightarrow> program \<Rightarrow> nat \<Rightarrow> nat \<Rightarrow> tomasulo \<Rightarrow> iptr list" where
  "queue_list fl p N d s = filter (kept fl p) [Suc d..<Suc (min (fetch_index s) N)]"

text \<open>The number of instructions up to position \<open>d\<close> that go through the queue.\<close>

definition kept_upto :: "op_flags \<Rightarrow> program \<Rightarrow> nat \<Rightarrow> nat" where
  "kept_upto fl p d = length (filter (kept fl p) [1..<Suc d])"

definition queue_ok :: "op_flags \<Rightarrow> program \<Rightarrow> nat \<Rightarrow> nat \<Rightarrow> tomasulo \<Rightarrow> bool" where
  "queue_ok fl p N d s \<longleftrightarrow> d \<le> min (fetch_index s) N
     \<and> instr_queue_size s = length (queue_list fl p N d s) \<and> instr_queue_size s \<le> INSTR_QUEUE_SIZE
     \<and> instr_queue_head s = kept_upto fl p d mod INSTR_QUEUE_SIZE
     \<and> (\<forall>k<INSTR_QUEUE_SIZE. instr_queue s ! ((instr_queue_head s + k) mod INSTR_QUEUE_SIZE)
          = (if k < instr_queue_size s then Some (queue_list fl p N d s ! k) else None))"

lemma queue_ok_cong:
  "\<lbrakk>instr_queue t = instr_queue s; instr_queue_size t = instr_queue_size s;
    instr_queue_head t = instr_queue_head s; fetch_index t = fetch_index s\<rbrakk>
    \<Longrightarrow> queue_ok fl p N d t \<longleftrightarrow> queue_ok fl p N d s"
  unfolding queue_ok_def queue_list_def by (simp only:)

definition issued :: "op_flags \<Rightarrow> program \<Rightarrow> nat \<Rightarrow> iptr \<Rightarrow> bool" where
  "issued fl p d i \<longleftrightarrow> 1 \<le> i \<and> i \<le> d \<and> works fl p i"

abbreviation executing :: "tomasulo \<Rightarrow> iptr \<Rightarrow> bool" where
  "executing s i \<equiv> tom_execute_cycle (insn s i) \<noteq> 0"

text \<open>The stations hold distinct issued instructions; the units hold those that have started.\<close>

definition units_ok :: "op_flags \<Rightarrow> program \<Rightarrow> nat \<Rightarrow> tomasulo \<Rightarrow> bool" where
  "units_ok fl p d s \<longleftrightarrow> distinct (elems (reservINT s)) \<and> distinct (elems (reservFP s))
     \<and> distinct (elems (fuINT s)) \<and> distinct (elems (fuFP s))
     \<and> (\<forall>i\<in>set (elems (reservINT s)). issued fl p d i \<and> uses_int fl p i)
     \<and> (\<forall>i\<in>set (elems (reservFP s)). issued fl p d i \<and> \<not> uses_int fl p i)
     \<and> set (elems (fuINT s)) = {i \<in> set (elems (reservINT s)). executing s i}
     \<and> set (elems (fuFP s)) = {i \<in> set (elems (reservFP s)). executing s i}"

definition in_station :: "tomasulo \<Rightarrow> iptr \<Rightarrow> bool" where
  "in_station s i \<longleftrightarrow> i \<in> set (elems (reservINT s)) \<or> i \<in> set (elems (reservFP s))"

text \<open>The stages an instruction has entered, and their cycles, none later than \<open>c\<close>.\<close>

definition progress_ok :: "op_flags \<Rightarrow> program \<Rightarrow> nat \<Rightarrow> tomasulo \<Rightarrow> bool" where
  "progress_ok fl p d s \<longleftrightarrow> (\<forall>i.
     (tom_issue_cycle (insn s i) \<noteq> 0 \<longleftrightarrow> issued fl p d i)
     \<and> (executing s i \<longrightarrow> issued fl p d i \<and> tom_issue_cycle (insn s i) < tom_execute_cycle (insn s i))
     \<and> (tom_cdb_cycle (insn s i) \<noteq> 0 \<longrightarrow> executing s i \<and> \<not> in_station s i \<and> \<not> IS_STORE fl (opcode (p i))
          \<and> tom_execute_cycle (insn s i) + latency fl (opcode (p i)) \<le> tom_cdb_cycle (insn s i))
     \<and> (issued fl p d i \<and> \<not> in_station s i \<longrightarrow>
          tom_cdb_cycle (insn s i) \<noteq> 0 \<or> executing s i \<and> IS_STORE fl (opcode (p i))))"

definition dispatch_ok :: "op_flags \<Rightarrow> program \<Rightarrow> nat \<Rightarrow> tomasulo \<Rightarrow> bool" where
  "dispatch_ok fl p N s \<longleftrightarrow>
     (\<forall>i. (tom_dispatch_cycle (insn s i) \<noteq> 0 \<longleftrightarrow> 1 \<le> i \<and> i \<le> min (fetch_index s) N \<and> kept fl p i)
        \<and> (tom_issue_cycle (insn s i) \<noteq> 0 \<longrightarrow> tom_dispatch_cycle (insn s i) < tom_issue_cycle (insn s i)))
     \<and> (\<forall>i j. i < j \<and> tom_dispatch_cycle (insn s i) \<noteq> 0 \<and> tom_dispatch_cycle (insn s j) \<noteq> 0 \<longrightarrow>
          tom_dispatch_cycle (insn s i) < tom_dispatch_cycle (insn s j))
     \<and> (\<forall>i j. i < j \<and> tom_issue_cycle (insn s i) \<noteq> 0 \<and> tom_issue_cycle (insn s j) \<noteq> 0 \<longrightarrow>
          tom_issue_cycle (insn s i) < tom_issue_cycle (insn s j))"

definition stamps_le :: "(instruction \<Rightarrow> nat) \<Rightarrow> nat \<Rightarrow> tomasulo \<Rightarrow> bool" where
  "stamps_le f c s \<longleftrightarrow> (\<forall>i. f (insn s i) \<le> c)"

text \<open>An instruction is retired once the bus no longer carries its broadcast.\<close>

definition retired :: "tomasulo \<Rightarrow> iptr \<Rightarrow> bool" where
  "retired s j \<longleftrightarrow> tom_cdb_cycle (insn s j) \<noteq> 0 \<and> commonDataBus s \<noteq> Some j"

definition bus_ok :: "nat \<Rightarrow> tomasulo \<Rightarrow> bool" where
  "bus_ok c s \<longleftrightarrow> (\<forall>j. commonDataBus s = Some j \<longleftrightarrow> tom_cdb_cycle (insn s j) = c \<and> c \<noteq> 0)"

definition one_broadcast :: "tomasulo \<Rightarrow> bool" where
  "one_broadcast s \<longleftrightarrow> (\<forall>i j. tom_cdb_cycle (insn s i) \<noteq> 0 \<and> tom_cdb_cycle (insn s i) = tom_cdb_cycle (insn s j) \<longrightarrow> i = j)"

definition map_ok :: "op_flags \<Rightarrow> program \<Rightarrow> nat \<Rightarrow> tomasulo \<Rightarrow> bool" where
  "map_ok fl p d s \<longleftrightarrow> (\<forall>r<MD_TOTAL_REGS. \<forall>j.
     map_table s ! r = Some j \<longleftrightarrow> producer fl p (Suc d) r j \<and> \<not> retired s j)"

definition Q_ok :: "op_flags \<Rightarrow> program \<Rightarrow> tomasulo \<Rightarrow> bool" where
  "Q_ok fl p s \<longleftrightarrow> (\<forall>i. length (Q (insn s i)) = MAX_INPUT_REGS \<and>
     (\<forall>k<MAX_INPUT_REGS. \<forall>j. Q (insn s i) ! k = Some j \<longleftrightarrow>
        tom_issue_cycle (insn s i) \<noteq> 0 \<and> (\<exists>r. r_in (p i) ! k = int r \<and> producer fl p i r j) \<and> \<not> retired s j))"

definition raw_ok :: "op_flags \<Rightarrow> program \<Rightarrow> tomasulo \<Rightarrow> bool" where
  "raw_ok fl p s \<longleftrightarrow> (\<forall>i r j. executing s i \<and> int r \<in> set (r_in (p i)) \<and> producer fl p i r j \<longrightarrow>
     tom_cdb_cycle (insn s j) \<noteq> 0 \<and> tom_cdb_cycle (insn s j) < tom_execute_cycle (insn s i))"

definition pipe_ok :: "op_flags \<Rightarrow> program \<Rightarrow> nat \<Rightarrow> nat \<Rightarrow> tomasulo \<Rightarrow> bool" where
  "pipe_ok fl p N d s \<longleftrightarrow> same_code p s \<and> shape s \<and> queue_ok fl p N d s \<and> units_ok fl p d s
     \<and> progress_ok fl p d s \<and> dispatch_ok fl p N s \<and> one_broadcast s \<and> map_ok fl p d s
     \<and> Q_ok fl p s \<and> raw_ok fl p s"

text \<open>The invariant between two cycles; \<open>c\<close> is the cycle that has ended.\<close>

definition tom_inv :: "op_flags \<Rightarrow> program \<Rightarrow> nat \<Rightarrow> nat \<Rightarrow> nat \<Rightarrow> tomasulo \<Rightarrow> bool" where
  "tom_inv fl p N c d s \<longleftrightarrow> pipe_ok fl p N d s \<and> bus_ok c s
     \<and> stamps_le tom_dispatch_cycle c s \<and> stamps_le tom_issue_cycle c s
     \<and> stamps_le tom_execute_cycle c s \<and> stamps_le tom_cdb_cycle c s"


lemmas pipe_defs = same_code_def shape_def queue_ok_def units_ok_def progress_ok_def dispatch_ok_def
  one_broadcast_def map_ok_def Q_ok_def raw_ok_def

section \<open>Retirement\<close>

lemma clear_dependencies_eq:
  assumes "\<And>i. length (Q (insn s i)) = MAX_INPUT_REGS"
  shows "clear_dependencies p xs s =
    s\<lparr>insn := (\<lambda>i. if i \<in> set (elems xs) then (insn s i)\<lparr>Q := wipe p (Q (insn s i))\<rparr> else insn s i)\<rparr>"
  using assms
proof (induction p xs s rule: clear_dependencies.induct)
  case (1 p s)
  then show ?case by (cases s) simp
next
  case (3 p i xs s)
  let ?s = "upd_insn i (\<lambda>n. n\<lparr>Q := (insn_array_remove_insn p ^^ MAX_INPUT_REGS) (Q n)\<rparr>) s"
  have pow: "(insn_array_remove_insn p ^^ MAX_INPUT_REGS) (Q (insn s i)) = wipe p (Q (insn s i))"
    using 3(2) [of i] count_list_le_length [of "Q (insn s i)" "Some p"] by (simp add: remove_insn_pow)
  have IH: "clear_dependencies p xs ?s =
    ?s\<lparr>insn := (\<lambda>i. if i \<in> set (elems xs) then (insn ?s i)\<lparr>Q := wipe p (Q (insn ?s i))\<rparr> else insn ?s i)\<rparr>"
    by (rule 3(1)) (simp add: upd_insn_def pow 3(2))
  have idem: "wipe p (wipe p zs) = wipe p zs" for zs
    by (auto simp: wipe_def)
  show ?case
    by (simp only: clear_dependencies.simps IH) (auto simp: upd_insn_def pow idem intro!: tomasulo.fold_congs ext)
qed simp

definition retire_spec :: "iptr \<Rightarrow> tomasulo \<Rightarrow> tomasulo" where
  "retire_spec b s = s\<lparr>insn := (\<lambda>i. (insn s i)\<lparr>Q := wipe b (Q (insn s i))\<rparr>),
     map_table := wipe b (map_table s), commonDataBus := None\<rparr>"

lemma producer_unique: "\<lbrakk>producer fl p i r j; producer fl p i r j'\<rbrakk> \<Longrightarrow> j = j'"
  unfolding producer_def by (metis linorder_neqE_nat)

lemma map_count:
  assumes "map_ok fl p d s" "shape s" "length (r_out (p b)) = MAX_OUTPUT_REGS"
  shows "count_list (map_table s) (Some b) \<le> MAX_OUTPUT_REGS"
proof -
  have "{k. k < length (map_table s) \<and> map_table s ! k = Some b} \<subseteq> {k. int k \<in> set (r_out (p b))}"
    using assms(1,2) by (auto simp: map_ok_def shape_def producer_def writes_def)
  moreover have "{k. int k \<in> set (r_out (p b))} \<subseteq> nat ` set (r_out (p b))"
    by force
  ultimately have "card {k. k < length (map_table s) \<and> map_table s ! k = Some b} \<le> card (nat ` set (r_out (p b)))"
    by (intro card_mono) auto
  also have "\<dots> \<le> MAX_OUTPUT_REGS"
    using card_image_le [of "set (r_out (p b))" nat] card_length [of "r_out (p b)"] assms(3) by simp
  finally show ?thesis by (simp add: count_list_card)
qed

lemma retire_eq:
  assumes wf: "wf_program trace p N" and inv: "tom_inv fl p N c d s" and bus: "commonDataBus s = Some b"
  shows "CDB_To_retire s = retire_spec b s"
proof -
  note pipe = inv [unfolded tom_inv_def pipe_ok_def]
  have cdb: "tom_cdb_cycle (insn s b) = c" "c \<noteq> 0"
    using pipe bus by (auto simp: bus_ok_def)
  have b: "issued fl p d b" "executing s b" using pipe cdb by (auto simp: progress_ok_def)
  then have "1 \<le> b" "b \<le> N" using pipe by (auto simp: issued_def queue_ok_def)
  then have "length (r_out (p b)) = MAX_OUTPUT_REGS"
    using wf by (auto simp: wf_program_def wf_instr_def)
  then have count: "count_list (map_table s) (Some b) \<le> MAX_OUTPUT_REGS"
    using pipe map_count [of fl p d s b] by auto
  have lenQ: "length (Q (insn s i)) = MAX_INPUT_REGS" for i using pipe by (auto simp: Q_ok_def)
  have out: "wipe b (Q (insn s i)) = Q (insn s i)" if ni: "\<not> in_station s i" for i
  proof (rule wipe_noop, rule notI)
    assume "Some b \<in> set (Q (insn s i))"
    then obtain k where k: "k < MAX_INPUT_REGS" "Q (insn s i) ! k = Some b"
      using lenQ [of i] by (auto simp: in_set_conv_nth)
    then obtain r where r: "r_in (p i) ! k = int r" "producer fl p i r b" "tom_issue_cycle (insn s i) \<noteq> 0"
      using pipe by (auto simp: Q_ok_def)
    have iss: "issued fl p d i" using pipe r(3) by (auto simp: progress_ok_def)
    then have "1 \<le> i" "i \<le> N" using pipe by (auto simp: issued_def queue_ok_def)
    then have "int r \<in> set (r_in (p i))"
      using wf k(1) r(1) nth_mem [of k "r_in (p i)"] by (auto simp: wf_program_def wf_instr_def)
    moreover have "executing s i" using pipe iss ni unfolding progress_ok_def by blast
    ultimately have "c < tom_execute_cycle (insn s i)"
      using pipe r(2) cdb by (auto simp: raw_ok_def)
    then show False using pipe by (auto simp: stamps_le_def not_le [symmetric])
  qed
  have idem: "wipe b (wipe b zs) = wipe b zs" for zs by (auto simp: wipe_def)
  let ?s1 = "clear_dependencies b (reservINT s) s"
  let ?f = "\<lambda>xs f i. if i \<in> set (elems xs) then (f i)\<lparr>Q := wipe b (Q (f i))\<rparr> else f i"
  have s1: "?s1 = s\<lparr>insn := ?f (reservINT s) (insn s)\<rparr>"
    by (rule clear_dependencies_eq) (rule lenQ)
  have s2: "clear_dependencies b (reservFP s) ?s1 = ?s1\<lparr>insn := ?f (reservFP s) (insn ?s1)\<rparr>"
    by (rule clear_dependencies_eq) (simp add: s1 lenQ)
  have Qself: "(insn s i)\<lparr>Q := Q (insn s i)\<rparr> = insn s i" for i by (cases "insn s i") simp
  have ins: "?f (reservFP s) (?f (reservINT s) (insn s)) i = (insn s i)\<lparr>Q := wipe b (Q (insn s i))\<rparr>" for i
    using out [of i] by (auto simp: idem in_station_def Qself)
  show ?thesis
    unfolding CDB_To_retire_def bus option.case Let_def s2 [unfolded s1, simplified]
    by (simp add: s1 s2 [unfolded s1, simplified] retire_spec_def remove_insn_pow count idem ins cong: if_cong)
qed

lemma retire_spec_simps [simp]:
  "instr_queue (retire_spec b s) = instr_queue s" "instr_queue_size (retire_spec b s) = instr_queue_size s"
  "instr_queue_head (retire_spec b s) = instr_queue_head s" "reservINT (retire_spec b s) = reservINT s"
  "reservFP (retire_spec b s) = reservFP s" "fuINT (retire_spec b s) = fuINT s"
  "fuFP (retire_spec b s) = fuFP s" "fetch_index (retire_spec b s) = fetch_index s"
  "commonDataBus (retire_spec b s) = None" "map_table (retire_spec b s) = wipe b (map_table s)"
  "insn (retire_spec b s) = (\<lambda>i. (insn s i)\<lparr>Q := wipe b (Q (insn s i))\<rparr>)"
  by (simp_all add: retire_spec_def)

lemma retire_inv:
  assumes wf: "wf_program trace p N" and inv: "tom_inv fl p N c d s"
  shows "pipe_ok fl p N d (CDB_To_retire s) \<and> commonDataBus (CDB_To_retire s) = None
    \<and> stamps_le tom_dispatch_cycle c (CDB_To_retire s) \<and> stamps_le tom_issue_cycle c (CDB_To_retire s)
    \<and> stamps_le tom_execute_cycle c (CDB_To_retire s) \<and> stamps_le tom_cdb_cycle c (CDB_To_retire s)"
proof (cases "commonDataBus s")
  case None
  then show ?thesis using inv by (simp add: tom_inv_def CDB_To_retire_def)
next
  case (Some b)
  have eq: "CDB_To_retire s = retire_spec b s" by (rule retire_eq [OF wf inv Some])
  note pipe = inv [unfolded tom_inv_def pipe_ok_def]
  have b: "tom_cdb_cycle (insn s b) \<noteq> 0" using pipe Some by (auto simp: bus_ok_def)
  have ret: "retired (retire_spec b s) j \<longleftrightarrow> retired s j \<or> j = b" for j
    using b Some by (auto simp: retired_def)
  have q: "queue_list fl p N d (retire_spec b s) = queue_list fl p N d s"
    by (simp add: queue_list_def)
  have st: "in_station (retire_spec b s) i = in_station s i" for i by (simp add: in_station_def)
  have "same_code p (retire_spec b s)" using pipe by (simp add: same_code_def)
  moreover have "shape (retire_spec b s)" using pipe by (simp add: shape_def)
  moreover have "queue_ok fl p N d (retire_spec b s)" using pipe by (subst queue_ok_cong [of _ s]) simp_all
  moreover have "units_ok fl p d (retire_spec b s)" using pipe by (simp add: units_ok_def)
  moreover have "progress_ok fl p d (retire_spec b s)" using pipe by (simp add: progress_ok_def st)
  moreover have "dispatch_ok fl p N (retire_spec b s)" using pipe by (simp add: dispatch_ok_def)
  moreover have "one_broadcast (retire_spec b s)" using pipe unfolding one_broadcast_def by simp
  moreover have "raw_ok fl p (retire_spec b s)" using pipe by (auto simp: raw_ok_def)
  moreover have "map_ok fl p d (retire_spec b s)" using pipe
    by (auto simp: map_ok_def shape_def nth_wipe ret dest: producer_unique)
  moreover have "Q_ok fl p (retire_spec b s)" using pipe
    by (auto simp: Q_ok_def nth_wipe ret dest: producer_unique)
  ultimately show ?thesis using pipe by (simp add: eq pipe_ok_def stamps_le_def)
qed

section \<open>The common data bus\<close>

lemma remove_completed_stores_eq:
  "remove_completed_stores fl c f xs r =
     (let D = (\<lambda>i. IS_STORE fl (opcode (f i)) \<and> tom_execute_cycle (f i) + FU_INT_LATENCY \<le> c)
      in (map (\<lambda>x. case x of None \<Rightarrow> None | Some i \<Rightarrow> if D i then None else Some i) xs,
          fold insn_array_remove_insn (filter D (elems xs)) r))"
  by (induction xs arbitrary: r) (auto simp: Let_def split: option.split)

lemma elems_filter_map:
  "elems (map (\<lambda>x. case x of None \<Rightarrow> None | Some i \<Rightarrow> if D i then None else Some i) xs)
     = filter (\<lambda>i. \<not> D i) (elems xs)"
  by (induction xs rule: elems.induct) auto

lemma elems_fold_remove:
  "distinct (elems r) \<Longrightarrow> distinct (elems (fold insn_array_remove_insn zs r))
     \<and> set (elems (fold insn_array_remove_insn zs r)) = set (elems r) - set zs
     \<and> length (fold insn_array_remove_insn zs r) = length r"
  by (induction zs arbitrary: r) (auto simp: elems_remove)

definition store_done :: "op_flags \<Rightarrow> nat \<Rightarrow> tomasulo \<Rightarrow> iptr \<Rightarrow> bool" where
  "store_done fl c s i \<longleftrightarrow> i \<in> set (elems (fuINT s)) \<and> IS_STORE fl (opcode (insn s i))
     \<and> tom_execute_cycle (insn s i) + FU_INT_LATENCY \<le> c"

abbreviation sweep where "sweep \<equiv> insn_array_remove_completed_stores_for_CDB"

lemma sweep_simps [simp]:
  "insn (sweep fl c s) = insn s" "instr_queue (sweep fl c s) = instr_queue s"
  "instr_queue_size (sweep fl c s) = instr_queue_size s" "instr_queue_head (sweep fl c s) = instr_queue_head s"
  "reservFP (sweep fl c s) = reservFP s" "fuFP (sweep fl c s) = fuFP s"
  "commonDataBus (sweep fl c s) = commonDataBus s" "map_table (sweep fl c s) = map_table s"
  "fetch_index (sweep fl c s) = fetch_index s"
  by (simp_all add: insn_array_remove_completed_stores_for_CDB_def split: prod.split)

lemma sweep_fu:
  "elems (fuINT (sweep fl c s)) = filter (\<lambda>i. \<not> store_done fl c s i) (elems (fuINT s))"
  "length (fuINT (sweep fl c s)) = length (fuINT s)"
  by (auto simp: insn_array_remove_completed_stores_for_CDB_def remove_completed_stores_eq Let_def
      elems_filter_map store_done_def intro!: filter_cong)

lemma sweep_reserv:
  assumes "distinct (elems (reservINT s))"
  shows "distinct (elems (reservINT (sweep fl c s)))"
    "set (elems (reservINT (sweep fl c s))) = {i \<in> set (elems (reservINT s)). \<not> store_done fl c s i}"
    "length (reservINT (sweep fl c s)) = length (reservINT s)"
  using elems_fold_remove [OF assms]
  by (auto simp: insn_array_remove_completed_stores_for_CDB_def remove_completed_stores_eq Let_def
      store_done_def)

lemma sweep_inv:
  assumes pipe: "pipe_ok fl p N d s"
  shows "pipe_ok fl p N d (sweep fl c s)"
proof -
  have sc: "same_code p s" and sh: "shape s" and qo: "queue_ok fl p N d s" and uo: "units_ok fl p d s"
    and po: "progress_ok fl p d s" and di: "dispatch_ok fl p N s" and ob: "one_broadcast s"
    and mo: "map_ok fl p d s" and Qo: "Q_ok fl p s" and ra: "raw_ok fl p s"
    using pipe by (simp_all add: pipe_ok_def)
  have dist: "distinct (elems (reservINT s))" using uo by (simp add: units_ok_def)
  note sw = sweep_fu [of fl c s] sweep_reserv [OF dist, of fl c]
  have ret: "retired (sweep fl c s) = retired s" by (auto simp: retired_def)
  have q: "queue_list fl p N d (sweep fl c s) = queue_list fl p N d s" by (simp add: queue_list_def)
  have st: "in_station (sweep fl c s) i \<longleftrightarrow> in_station s i \<and> \<not> (i \<in> set (elems (reservINT s)) \<and> store_done fl c s i)" for i
    using uo by (auto simp: in_station_def sw units_ok_def)
  have sd: "store_done fl c s i \<Longrightarrow> executing s i \<and> IS_STORE fl (opcode (p i))" for i
    using uo sc by (auto simp: store_done_def units_ok_def same_code_def)
  have "same_code p (sweep fl c s)" using sc by (simp add: same_code_def)
  moreover have "shape (sweep fl c s)" using sh by (simp add: shape_def sw)
  moreover have "queue_ok fl p N d (sweep fl c s)" using qo by (subst queue_ok_cong [of _ s]) simp_all
  moreover have "progress_ok fl p d (sweep fl c s)"
    using po sd unfolding progress_ok_def st sweep_simps by blast
  moreover have "units_ok fl p d (sweep fl c s)"
    using uo unfolding units_ok_def sw by (auto simp: sw)
  moreover have "dispatch_ok fl p N (sweep fl c s)" using di by (simp add: dispatch_ok_def)
  moreover have "one_broadcast (sweep fl c s)" using ob unfolding one_broadcast_def sweep_simps .
  moreover have "map_ok fl p d (sweep fl c s)" using mo unfolding map_ok_def sweep_simps ret .
  moreover have "Q_ok fl p (sweep fl c s)" using Qo unfolding Q_ok_def sweep_simps ret .
  moreover have "raw_ok fl p (sweep fl c s)" using ra unfolding raw_ok_def sweep_simps .
  ultimately show ?thesis by (simp add: pipe_ok_def)
qed

text \<open>The state after instruction \<open>i\<close> left the units and the stations for the bus.\<close>

definition broadcast :: "iptr \<Rightarrow> nat \<Rightarrow> tomasulo \<Rightarrow> tomasulo" where
  "broadcast i c s = (upd_insn i (\<lambda>n. n\<lparr>tom_cdb_cycle := c\<rparr>)
     (s\<lparr>fuINT := insn_array_remove_insn i (fuINT s), fuFP := insn_array_remove_insn i (fuFP s),
        reservINT := insn_array_remove_insn i (reservINT s),
        reservFP := insn_array_remove_insn i (reservFP s)\<rparr>))\<lparr>commonDataBus := Some i\<rparr>"

lemma broadcast_simps [simp]:
  "instr_queue (broadcast i c s) = instr_queue s" "instr_queue_size (broadcast i c s) = instr_queue_size s"
  "instr_queue_head (broadcast i c s) = instr_queue_head s"
  "reservINT (broadcast i c s) = insn_array_remove_insn i (reservINT s)"
  "reservFP (broadcast i c s) = insn_array_remove_insn i (reservFP s)"
  "fuINT (broadcast i c s) = insn_array_remove_insn i (fuINT s)"
  "fuFP (broadcast i c s) = insn_array_remove_insn i (fuFP s)"
  "fetch_index (broadcast i c s) = fetch_index s" "commonDataBus (broadcast i c s) = Some i"
  "map_table (broadcast i c s) = map_table s"
  "insn (broadcast i c s) = (insn s)(i := (insn s i)\<lparr>tom_cdb_cycle := c\<rparr>)"
  by (simp_all add: broadcast_def upd_insn_def)

lemma broadcast_inv:
  assumes pipe: "pipe_ok fl p N d s" and bus: "commonDataBus s = None"
    and le: "stamps_le tom_cdb_cycle c s" and i: "i \<in> set (elems (fuINT s)) \<union> set (elems (fuFP s))"
    and ready: "tom_execute_cycle (insn s i) + latency fl (opcode (p i)) \<le> Suc c"
    and nst: "\<not> IS_STORE fl (opcode (p i))"
  shows "pipe_ok fl p N d (broadcast i (Suc c) s) \<and> bus_ok (Suc c) (broadcast i (Suc c) s)
    \<and> stamps_le tom_cdb_cycle (Suc c) (broadcast i (Suc c) s)"
proof -
  let ?s = "broadcast i (Suc c) s"
  have sc: "same_code p s" and sh: "shape s" and qo: "queue_ok fl p N d s" and uo: "units_ok fl p d s"
    and po: "progress_ok fl p d s" and di: "dispatch_ok fl p N s" and ob: "one_broadcast s"
    and mo: "map_ok fl p d s" and Qo: "Q_ok fl p s" and ra: "raw_ok fl p s"
    using pipe by (simp_all add: pipe_ok_def)
  have ins: "executing s i" "in_station s i" using uo i by (auto simp: units_ok_def in_station_def)
  then have cdb0: "tom_cdb_cycle (insn s i) = 0" using po by (auto simp: progress_ok_def)
  have ltc: "tom_cdb_cycle (insn s j) \<le> c" for j using le by (auto simp: stamps_le_def)
  have neq: "tom_cdb_cycle (insn s j) \<noteq> Suc c" for j using ltc [of j] by auto
  have ret: "retired ?s = retired s" using cdb0 bus by (auto simp: retired_def fun_eq_iff)
  have q: "queue_list fl p N d ?s = queue_list fl p N d s" by (simp add: queue_list_def)
  have dist: "distinct (elems (reservINT s))" "distinct (elems (reservFP s))" using uo by (auto simp: units_ok_def)
  have val: "tom_cdb_cycle (insn ?s j) = (if j = i then Suc c else tom_cdb_cycle (insn s j))"
    and exe: "tom_execute_cycle (insn ?s j) = tom_execute_cycle (insn s j)" for j
    by simp_all
  have st: "in_station ?s j \<longleftrightarrow> in_station s j \<and> j \<noteq> i" for j
    using dist by (auto simp: in_station_def elems_remove)
  have "same_code p ?s" using sc by (simp add: same_code_def)
  moreover have "shape ?s" using sh by (simp add: shape_def)
  moreover have "queue_ok fl p N d ?s" using qo by (subst queue_ok_cong [of _ s]) simp_all
  moreover have "units_ok fl p d ?s" using uo by (auto simp: units_ok_def elems_remove)
  moreover have "progress_ok fl p d ?s" using ins ready nst
    unfolding progress_ok_def st by (intro allI) (use po [unfolded progress_ok_def, rule_format] in \<open>simp split: if_split\<close>)
  moreover have "dispatch_ok fl p N ?s" using di by (auto simp: dispatch_ok_def)
  moreover have "one_broadcast ?s" 
  proof -
    have "k = j" if "tom_cdb_cycle (insn s k) \<noteq> 0" "tom_cdb_cycle (insn s k) = tom_cdb_cycle (insn s j)" for j k
      using ob that unfolding one_broadcast_def by blast
    then show ?thesis unfolding one_broadcast_def val using neq
      by (metis (no_types))
  qed
  moreover have "raw_ok fl p ?s" 
    unfolding raw_ok_def
  proof (intro allI impI)
    fix k r j assume a: "executing ?s k \<and> int r \<in> set (r_in (p k)) \<and> producer fl p k r j"
    then have "tom_cdb_cycle (insn s j) \<noteq> 0 \<and> tom_cdb_cycle (insn s j) < tom_execute_cycle (insn s k)"
      using ra unfolding raw_ok_def exe by blast
    then show "tom_cdb_cycle (insn ?s j) \<noteq> 0 \<and> tom_cdb_cycle (insn ?s j) < tom_execute_cycle (insn ?s k)"
      using cdb0 unfolding val exe by auto
  qed
  moreover have "map_ok fl p d ?s" using mo by (auto simp: map_ok_def ret)
  moreover have "Q_ok fl p ?s" using Qo by (auto simp: Q_ok_def ret)
  moreover have "bus_ok (Suc c) ?s" using neq by (simp add: bus_ok_def)
  moreover have "stamps_le tom_cdb_cycle (Suc c) ?s" using ltc by (simp add: stamps_le_def le_SucI)
  ultimately show ?thesis by (simp add: pipe_ok_def)
qed


text \<open>The instruction that gets the bus: the oldest finished one of the two kinds of unit.\<close>

definition cdb_choice :: "op_flags \<Rightarrow> nat \<Rightarrow> tomasulo \<Rightarrow> iptr option" where
  "cdb_choice fl c s =
     (let rdy = (\<lambda>i. \<not> tom_execute_cycle (insn s i) + latency fl (opcode (insn s i)) > c)
      in insn_array_get_oldest s [oldest_loop rdy (insn s) (fuINT s) 0x7FFFFFFF None,
                                  oldest_loop rdy (insn s) (fuFP s) 0x7FFFFFFF None])"

lemma list_all_elems: "list_all (\<lambda>x. case x of None \<Rightarrow> True | Some i \<Rightarrow> P i) xs \<longleftrightarrow> (\<forall>i\<in>set (elems xs). P i)"
  by (induction xs rule: elems.induct) auto

lemma execute_To_CDB_eq:
  assumes "units_ok fl p d (sweep fl c s)" "commonDataBus s = None"
  shows "execute_To_CDB fl c s = Inr (case cdb_choice fl c (sweep fl c s) of
     None \<Rightarrow> sweep fl c s | Some i \<Rightarrow> broadcast i c (sweep fl c s))"
proof -
  have "\<forall>i\<in>set (elems (fuINT (sweep fl c s))). executing (sweep fl c s) i"
    "\<forall>i\<in>set (elems (fuFP (sweep fl c s))). executing (sweep fl c s) i"
    using assms(1) by (auto simp: units_ok_def)
  then show ?thesis
    using assms(2)
    by (simp add: execute_To_CDB_def insn_array_get_oldest_ready_for_CDB_def list_all_elems Let_def
        cdb_choice_def broadcast_def split: option.split)
qed

lemma cdb_choice_SomeD:
  assumes "cdb_choice fl c s = Some i"
  shows "i \<in> set (elems (fuINT s)) \<union> set (elems (fuFP s))"
    "tom_execute_cycle (insn s i) + latency fl (opcode (insn s i)) \<le> c"
proof -
  let ?rdy = "\<lambda>i. \<not> tom_execute_cycle (insn s i) + latency fl (opcode (insn s i)) > c"
  let ?o = "\<lambda>xs. oldest_loop ?rdy (insn s) xs 0x7FFFFFFF None"
  have "i \<in> set (elems [?o (fuINT s), ?o (fuFP s)])"
    using assms oldest_loop_in [of "\<lambda>_. True" "insn s" "[?o (fuINT s), ?o (fuFP s)]" _ None i]
    unfolding cdb_choice_def Let_def insn_array_get_oldest_def by blast
  then have "?o (fuINT s) = Some i \<or> ?o (fuFP s) = Some i"
    by (auto simp: elems_iff)
  then show "i \<in> set (elems (fuINT s)) \<union> set (elems (fuFP s))"
    "tom_execute_cycle (insn s i) + latency fl (opcode (insn s i)) \<le> c"
    using oldest_loop_in [of ?rdy "insn s" _ _ None i] by fastforce+
qed

lemma cdb_inv:
  assumes pipe: "pipe_ok fl p N d s" and bus: "commonDataBus s = None" and le: "stamps_le tom_cdb_cycle c s"
  shows "\<exists>s'. execute_To_CDB fl (Suc c) s = Inr s' \<and> pipe_ok fl p N d s' \<and> bus_ok (Suc c) s'
    \<and> stamps_le tom_cdb_cycle (Suc c) s'
    \<and> (\<forall>i. (insn s' i)\<lparr>tom_cdb_cycle := 0\<rparr> = (insn s i)\<lparr>tom_cdb_cycle := 0\<rparr>)"
proof -
  let ?s = "sweep fl (Suc c) s"
  have sw: "pipe_ok fl p N d ?s" by (rule sweep_inv [OF pipe])
  have le': "stamps_le tom_cdb_cycle c ?s" using le by (simp add: stamps_le_def)
  have eq: "execute_To_CDB fl (Suc c) s = Inr (case cdb_choice fl (Suc c) ?s of
     None \<Rightarrow> ?s | Some i \<Rightarrow> broadcast i (Suc c) ?s)"
    by (rule execute_To_CDB_eq [of fl p d, OF _ bus]) (use sw in \<open>simp add: pipe_ok_def\<close>)
  show ?thesis
  proof (cases "cdb_choice fl (Suc c) ?s")
    case None
    have "bus_ok (Suc c) ?s" using le' bus unfolding bus_ok_def stamps_le_def
      by (metis Suc_n_not_le_n option.distinct(1) sweep_simps(7))
    moreover have "stamps_le tom_cdb_cycle (Suc c) ?s" using le' by (simp add: stamps_le_def le_SucI)
    ultimately show ?thesis using sw by (simp add: eq None)
  next
    case (Some i)
    have op: "opcode (insn s i) = opcode (p i)" using pipe by (simp add: pipe_ok_def same_code_def)
    have i: "i \<in> set (elems (fuINT ?s)) \<union> set (elems (fuFP ?s))"
      and rdy: "tom_execute_cycle (insn ?s i) + latency fl (opcode (p i)) \<le> Suc c"
      using cdb_choice_SomeD [OF Some] by (simp_all add: op)
    have nst: "\<not> IS_STORE fl (opcode (p i))"
    proof
      assume st: "IS_STORE fl (opcode (p i))"
      then have int: "uses_int fl p i" by (simp add: uses_int_def USES_INT_FU_def IS_STORE_def)
      have "i \<in> set (elems (fuINT ?s))"
        using i int sw by (auto simp: pipe_ok_def units_ok_def)
      moreover have "latency fl (opcode (p i)) = FU_INT_LATENCY"
        using int by (simp add: latency_def uses_int_def)
      ultimately show False using rdy st by (auto simp: sweep_fu store_done_def op)
    qed
    show ?thesis
      using broadcast_inv [OF sw _ le' i rdy nst] bus by (simp add: eq Some)
  qed
qed

section \<open>Execution\<close>

definition start :: "iptr set \<Rightarrow> nat \<Rightarrow> tomasulo \<Rightarrow> tomasulo" where
  "start X c s = s\<lparr>insn := (\<lambda>i. if i \<in> X then (insn s i)\<lparr>tom_execute_cycle := c\<rparr> else insn s i)\<rparr>"

lemma start_simps [simp]:
  "instr_queue (start X c s) = instr_queue s" "instr_queue_size (start X c s) = instr_queue_size s"
  "instr_queue_head (start X c s) = instr_queue_head s" "reservINT (start X c s) = reservINT s"
  "reservFP (start X c s) = reservFP s" "fuINT (start X c s) = fuINT s" "fuFP (start X c s) = fuFP s"
  "fetch_index (start X c s) = fetch_index s" "commonDataBus (start X c s) = commonDataBus s"
  "map_table (start X c s) = map_table s"
  "insn (start X c s) i = (if i \<in> X then (insn s i)\<lparr>tom_execute_cycle := c\<rparr> else insn s i)"
  by (simp_all add: start_def)

lemma start_empty [simp]: "start {} c s = s"
  by (cases s) (simp add: start_def)

lemma start_start: "start X c (upd_insn i (\<lambda>n. n\<lparr>tom_execute_cycle := c\<rparr>) s) = start (insert i X) c s"
  by (cases s) (auto simp: start_def upd_insn_def intro!: ext)

lemma ready_iff: "insn_array_get_oldest_ready_for_execute s xs = Some i \<Longrightarrow>
    i \<in> set (elems xs) \<and> elems (Q (insn s i)) = []"
  by (auto simp: insn_array_get_oldest_ready_for_execute_def insn_array_is_empty_iff dest: oldest_loop_in)

lemma issue_loop_eq:
  assumes "distinct (elems copy)" "distinct (elems fu)" "set (elems copy) \<inter> set (elems fu) = {}"
  shows "\<exists>X. X \<subseteq> {i \<in> set (elems copy). elems (Q (insn s i)) = []}
    \<and> snd (issue_loop c copy fu s) = start X c s
    \<and> set (elems (fst (issue_loop c copy fu s))) = set (elems fu) \<union> X
    \<and> distinct (elems (fst (issue_loop c copy fu s)))
    \<and> length (fst (issue_loop c copy fu s)) = length fu
    \<and> (X = {} \<longrightarrow> insn_array_is_full fu \<or> insn_array_get_oldest_ready_for_execute s copy = None)"
  using assms
proof (induction c copy fu s rule: issue_loop.induct)
  case (1 c copy fu s)
  show ?case
  proof (cases "insn_array_is_empty copy \<or> insn_array_is_full fu
      \<or> insn_array_get_oldest_ready_for_execute s copy = None")
    case True
    then have "issue_loop c copy fu s = (fu, s)" by (auto simp: issue_loop.simps [of c copy fu s])
    moreover have "insn_array_is_empty copy \<Longrightarrow> insn_array_get_oldest_ready_for_execute s copy = None"
      using ready_iff [of s copy] by (cases "insn_array_get_oldest_ready_for_execute s copy") (auto simp: insn_array_is_empty_iff)
    ultimately show ?thesis using 1(3) True by (intro exI [of _ "{}"]) auto
  next
    case False
    then obtain i where i: "insn_array_get_oldest_ready_for_execute s copy = Some i"
      and nf: "\<not> insn_array_is_full fu" and ne: "\<not> insn_array_is_empty copy" by auto
    let ?s = "upd_insn i (\<lambda>n. n\<lparr>tom_execute_cycle := c\<rparr>) s"
    let ?r = "issue_loop c (insn_array_remove_insn i copy) (insn_array_insert_insn i fu) ?s"
    have eq: "issue_loop c copy fu s = ?r"
      using i nf ne by (subst issue_loop.simps) simp
    have ii: "i \<in> set (elems copy)" "elems (Q (insn s i)) = []" using ready_iff [OF i] by auto
    have "\<exists>X. X \<subseteq> {j \<in> set (elems (insn_array_remove_insn i copy)). elems (Q (insn ?s j)) = []}
      \<and> snd ?r = start X c ?s \<and> set (elems (fst ?r)) = set (elems (insn_array_insert_insn i fu)) \<union> X
      \<and> distinct (elems (fst ?r)) \<and> length (fst ?r) = length (insn_array_insert_insn i fu)
      \<and> (X = {} \<longrightarrow> insn_array_is_full (insn_array_insert_insn i fu)
          \<or> insn_array_get_oldest_ready_for_execute ?s (insn_array_remove_insn i copy) = None)"
      by (rule 1(1)) (use 1(2-) i nf ne ii in \<open>auto simp: elems_insert elems_remove\<close>)
    then obtain X where X: "X \<subseteq> {j \<in> set (elems (insn_array_remove_insn i copy)). elems (Q (insn ?s j)) = []}"
      "snd ?r = start X c ?s" "set (elems (fst ?r)) = set (elems (insn_array_insert_insn i fu)) \<union> X"
      "distinct (elems (fst ?r))" "length (fst ?r) = length (insn_array_insert_insn i fu)" by blast
    have Qeq: "Q (insn ?s j) = Q (insn s j)" for j by (simp add: upd_insn_def)
    have "insert i X \<subseteq> {j \<in> set (elems copy). elems (Q (insn s j)) = []}"
      using X(1) ii set_remove1_subset [of i "elems copy"] by (auto simp: Qeq elems_remove)
    then show ?thesis
      using X nf by (intro exI [of _ "insert i X"]) (simp add: eq start_start elems_insert)
  qed
qed

lemma elems_remove_executing:
  "distinct (elems copy) \<Longrightarrow> distinct (elems (remove_executing fu copy))
     \<and> set (elems (remove_executing fu copy)) = set (elems copy) - set (elems fu)"
  by (induction fu copy rule: remove_executing.induct) (auto simp: elems_remove split: option.split)

lemma issue_To_execute_helper_eq:
  assumes "distinct (elems reserv)" "distinct (elems fu)"
  shows "\<exists>X. X \<subseteq> {i \<in> set (elems reserv). i \<notin> set (elems fu) \<and> elems (Q (insn s i)) = []}
    \<and> snd (issue_To_execute_helper c reserv fu s) = start X c s
    \<and> set (elems (fst (issue_To_execute_helper c reserv fu s))) = set (elems fu) \<union> X
    \<and> distinct (elems (fst (issue_To_execute_helper c reserv fu s)))
    \<and> length (fst (issue_To_execute_helper c reserv fu s)) = length fu
    \<and> (X = {} \<longrightarrow> insn_array_is_full fu \<or>
          insn_array_get_oldest_ready_for_execute s (remove_executing fu reserv) = None)"
proof -
  let ?r = "remove_executing fu reserv"
  have r: "distinct (elems ?r)" "set (elems ?r) = set (elems reserv) - set (elems fu)"
    using elems_remove_executing [OF assms(1), of fu] by auto
  obtain X where X: "X \<subseteq> {i \<in> set (elems ?r). elems (Q (insn s i)) = []}"
    "snd (issue_loop c ?r fu s) = start X c s" "set (elems (fst (issue_loop c ?r fu s))) = set (elems fu) \<union> X"
    "distinct (elems (fst (issue_loop c ?r fu s)))" "length (fst (issue_loop c ?r fu s)) = length fu"
    "X = {} \<longrightarrow> insn_array_is_full fu \<or> insn_array_get_oldest_ready_for_execute s ?r = None"
    using issue_loop_eq [OF r(1) assms(2), of s c] r(2) by blast
  have "X \<subseteq> {i \<in> set (elems reserv). i \<notin> set (elems fu) \<and> elems (Q (insn s i)) = []}"
    using X(1) r(2) by blast
  then show ?thesis
    unfolding issue_To_execute_helper_def by (intro exI [of _ X] conjI X(2-6))
qed

text \<open>The effect of the stage: the sets of instructions that start in the two kinds of unit.\<close>

lemma issue_To_execute_eq:
  assumes "units_ok fl p d s"
  shows "\<exists>X Y f g. X \<subseteq> {i \<in> set (elems (reservINT s)). i \<notin> set (elems (fuINT s)) \<and> elems (Q (insn s i)) = []}
    \<and> Y \<subseteq> {i \<in> set (elems (reservFP s)). i \<notin> set (elems (fuFP s)) \<and> elems (Q (insn s i)) = []}
    \<and> issue_To_execute c s = (start (X \<union> Y) c s)\<lparr>fuINT := f, fuFP := g\<rparr>
    \<and> set (elems f) = set (elems (fuINT s)) \<union> X \<and> distinct (elems f) \<and> length f = length (fuINT s)
    \<and> set (elems g) = set (elems (fuFP s)) \<union> Y \<and> distinct (elems g) \<and> length g = length (fuFP s)
    \<and> (X = {} \<longrightarrow> insn_array_is_full (fuINT s) \<or>
          insn_array_get_oldest_ready_for_execute s (remove_executing (fuINT s) (reservINT s)) = None)
    \<and> (X = {} \<and> Y = {} \<longrightarrow> insn_array_is_full (fuFP s) \<or>
          insn_array_get_oldest_ready_for_execute s (remove_executing (fuFP s) (reservFP s)) = None)"
proof -
  have dist: "distinct (elems (reservINT s))" "distinct (elems (reservFP s))"
    "distinct (elems (fuINT s))" "distinct (elems (fuFP s))"
    using assms by (auto simp: units_ok_def)
  let ?h = "issue_To_execute_helper c (reservINT s) (fuINT s) s"
  obtain X where X: "X \<subseteq> {i \<in> set (elems (reservINT s)). i \<notin> set (elems (fuINT s)) \<and> elems (Q (insn s i)) = []}"
    "snd ?h = start X c s" "set (elems (fst ?h)) = set (elems (fuINT s)) \<union> X"
    "distinct (elems (fst ?h))" "length (fst ?h) = length (fuINT s)"
    "X = {} \<longrightarrow> insn_array_is_full (fuINT s) \<or>
          insn_array_get_oldest_ready_for_execute s (remove_executing (fuINT s) (reservINT s)) = None"
    using issue_To_execute_helper_eq [OF dist(1,3), of s c] by (elim exE conjE) (rule that)
  let ?s = "(start X c s)\<lparr>fuINT := fst ?h\<rparr>"
  let ?k = "issue_To_execute_helper c (reservFP s) (fuFP s) ?s"
  obtain Y where Y: "Y \<subseteq> {i \<in> set (elems (reservFP s)). i \<notin> set (elems (fuFP s)) \<and> elems (Q (insn ?s i)) = []}"
    "snd ?k = start Y c ?s" "set (elems (fst ?k)) = set (elems (fuFP s)) \<union> Y"
    "distinct (elems (fst ?k))" "length (fst ?k) = length (fuFP s)"
    "Y = {} \<longrightarrow> insn_array_is_full (fuFP s) \<or>
          insn_array_get_oldest_ready_for_execute ?s (remove_executing (fuFP s) (reservFP s)) = None"
    using issue_To_execute_helper_eq [OF dist(2,4), of ?s c] by (elim exE conjE) (rule that)
  have "issue_To_execute c s = (snd ?k)\<lparr>fuFP := fst ?k\<rparr>"
    by (simp add: issue_To_execute_def Let_def case_prod_beta X(2))
  also have "\<dots> = (start (X \<union> Y) c s)\<lparr>fuINT := fst ?h, fuFP := fst ?k\<rparr>"
    unfolding Y(2) by (cases s) (auto simp: start_def intro!: ext)
  finally have eq: "issue_To_execute c s = (start (X \<union> Y) c s)\<lparr>fuINT := fst ?h, fuFP := fst ?k\<rparr>" .
  have Qeq: "Q (insn ?s i) = Q (insn s i)" for i by simp
  have last: "X = {} \<and> Y = {} \<longrightarrow> insn_array_is_full (fuFP s) \<or>
          insn_array_get_oldest_ready_for_execute s (remove_executing (fuFP s) (reservFP s)) = None"
    using Y(6) by (auto simp: insn_array_get_oldest_ready_for_execute_def)
  show ?thesis
    by (intro exI [of _ X] exI [of _ Y] exI [of _ "fst ?h"] exI [of _ "fst ?k"] conjI
        eq X(1) Y(1) [unfolded Qeq] X(3-6) Y(3-5) last)
qed

lemma pipe_okD:
  assumes "pipe_ok fl p N d s"
  shows "same_code p s" "shape s" "queue_ok fl p N d s" "units_ok fl p d s" "progress_ok fl p d s"
    "dispatch_ok fl p N s" "one_broadcast s" "map_ok fl p d s" "Q_ok fl p s" "raw_ok fl p s"
  using assms by (simp_all add: pipe_ok_def)

lemma execute_inv:
  assumes wf: "wf_program trace p N" and pipe: "pipe_ok fl p N d s" and bus: "bus_ok (Suc c) s"
    and cle: "stamps_le tom_cdb_cycle (Suc c) s" and ile: "stamps_le tom_issue_cycle c s"
  shows "pipe_ok fl p N d (issue_To_execute (Suc c) s)"
    "commonDataBus (issue_To_execute (Suc c) s) = commonDataBus s"
    "(insn (issue_To_execute (Suc c) s) i)\<lparr>tom_execute_cycle := 0\<rparr> = (insn s i)\<lparr>tom_execute_cycle := 0\<rparr>"
    "tom_execute_cycle (insn (issue_To_execute (Suc c) s) i) = tom_execute_cycle (insn s i)
      \<or> tom_execute_cycle (insn (issue_To_execute (Suc c) s) i) = Suc c"
proof -
  note ok = pipe_okD [OF pipe]
  from issue_To_execute_eq [OF ok(4), of "Suc c"]
  obtain X Y f g where X: "X \<subseteq> {i \<in> set (elems (reservINT s)). i \<notin> set (elems (fuINT s)) \<and> elems (Q (insn s i)) = []}"
    and Y: "Y \<subseteq> {i \<in> set (elems (reservFP s)). i \<notin> set (elems (fuFP s)) \<and> elems (Q (insn s i)) = []}"
    and eq: "issue_To_execute (Suc c) s = (start (X \<union> Y) (Suc c) s)\<lparr>fuINT := f, fuFP := g\<rparr>"
    and f: "set (elems f) = set (elems (fuINT s)) \<union> X" "distinct (elems f)" "length f = length (fuINT s)"
    and g: "set (elems g) = set (elems (fuFP s)) \<union> Y" "distinct (elems g)" "length g = length (fuFP s)"
    by (elim exE conjE) (rule that)
  let ?s = "issue_To_execute (Suc c) s"
  have fld [simp]: "instr_queue ?s = instr_queue s" "instr_queue_size ?s = instr_queue_size s"
    "instr_queue_head ?s = instr_queue_head s" "reservINT ?s = reservINT s" "reservFP ?s = reservFP s"
    "fuINT ?s = f" "fuFP ?s = g" "fetch_index ?s = fetch_index s" "commonDataBus ?s = commonDataBus s"
    "map_table ?s = map_table s"
    by (simp_all add: eq)
  have ins: "insn ?s j = (if j \<in> X \<union> Y then (insn s j)\<lparr>tom_execute_cycle := Suc c\<rparr> else insn s j)" for j
    by (simp add: eq)
  have same [simp]: "tom_cdb_cycle (insn ?s j) = tom_cdb_cycle (insn s j)"
    "tom_issue_cycle (insn ?s j) = tom_issue_cycle (insn s j)" "Q (insn ?s j) = Q (insn s j)"
    "tom_dispatch_cycle (insn ?s j) = tom_dispatch_cycle (insn s j)" "index (insn ?s j) = index (insn s j)"
    "r_in (insn ?s j) = r_in (insn s j)" "r_out (insn ?s j) = r_out (insn s j)"
    "opcode (insn ?s j) = opcode (insn s j)" for j
    by (simp_all add: ins)
  have exe: "tom_execute_cycle (insn ?s j) = (if j \<in> X \<union> Y then Suc c else tom_execute_cycle (insn s j))" for j
    by (simp add: ins)
  have Z: "issued fl p d j" "in_station s j" "\<not> executing s j" "elems (Q (insn s j)) = []" if "j \<in> X \<union> Y" for j
    using that X Y ok(4) by (auto simp: units_ok_def in_station_def)
  have ret: "retired ?s = retired s" by (auto simp: retired_def)
  have st: "in_station ?s = in_station s" by (auto simp: in_station_def)
  have q: "queue_list fl p N d ?s = queue_list fl p N d s" by (simp add: queue_list_def)
  have "same_code p ?s" using ok(1) by (simp add: same_code_def)
  moreover have "shape ?s" using ok(2) by (simp add: shape_def f g)
  moreover have "queue_ok fl p N d ?s" using ok(3) by (subst queue_ok_cong [of _ s]) simp_all
  moreover have "units_ok fl p d ?s"
  proof -
    have "X \<subseteq> set (elems (reservINT s))" "Y \<subseteq> set (elems (reservFP s))"
      "set (elems (reservINT s)) \<inter> set (elems (reservFP s)) = {}"
      using X Y ok(4) by (auto simp: units_ok_def)
    then show ?thesis using ok(4) unfolding units_ok_def fld exe f g by (auto simp: f(2) g(2))
  qed
  moreover have "progress_ok fl p d ?s"
    unfolding progress_ok_def st
  proof (rule allI)
    fix j
    have "tom_issue_cycle (insn s j) \<le> c" using ile by (simp add: stamps_le_def)
    then show "(tom_issue_cycle (insn ?s j) \<noteq> 0) = issued fl p d j \<and>
      (executing ?s j \<longrightarrow> issued fl p d j \<and> tom_issue_cycle (insn ?s j) < tom_execute_cycle (insn ?s j)) \<and>
      (tom_cdb_cycle (insn ?s j) \<noteq> 0 \<longrightarrow> executing ?s j \<and> \<not> in_station s j \<and> \<not> IS_STORE fl (opcode (p j)) \<and>
         tom_execute_cycle (insn ?s j) + latency fl (opcode (p j)) \<le> tom_cdb_cycle (insn ?s j)) \<and>
      (issued fl p d j \<and> \<not> in_station s j \<longrightarrow> tom_cdb_cycle (insn ?s j) \<noteq> 0
         \<or> executing ?s j \<and> IS_STORE fl (opcode (p j)))"
      using ok(5) [unfolded progress_ok_def, rule_format, of j] Z [of j] unfolding exe same by auto
  qed
  moreover have "dispatch_ok fl p N ?s" using ok(6) by (simp add: dispatch_ok_def)
  moreover have "one_broadcast ?s" using ok(7) unfolding one_broadcast_def same .
  moreover have "map_ok fl p d ?s" using ok(8) unfolding map_ok_def fld ret .
  moreover have "Q_ok fl p ?s" using ok(9) unfolding Q_ok_def same ret .
  moreover have "raw_ok fl p ?s"
    unfolding raw_ok_def
  proof (intro allI impI)
    fix k r j assume a: "executing ?s k \<and> int r \<in> set (r_in (p k)) \<and> producer fl p k r j"
    show "tom_cdb_cycle (insn ?s j) \<noteq> 0 \<and> tom_cdb_cycle (insn ?s j) < tom_execute_cycle (insn ?s k)"
    proof (cases "k \<in> X \<union> Y")
      case True
      note z = Z [OF True]
      have k: "1 \<le> k" "k \<le> N" using z(1) ok(3) by (auto simp: issued_def queue_ok_def)
      obtain m where m: "m < MAX_INPUT_REGS" "r_in (p k) ! m = int r"
        using a wf k by (auto simp: in_set_conv_nth wf_program_def wf_instr_def)
      have "length (Q (insn s k)) = MAX_INPUT_REGS" using ok(9) by (simp add: Q_ok_def)
      moreover have "Some j \<notin> set (Q (insn s k))"
        using z(4) elems_iff [of j "Q (insn s k)"] by simp
      ultimately have "Q (insn s k) ! m \<noteq> Some j"
        using m(1) nth_mem [of m "Q (insn s k)"] by metis
      moreover have "tom_issue_cycle (insn s k) \<noteq> 0"
        using z(1) ok(5) by (auto simp: progress_ok_def)
      ultimately have "retired s j"
        using ok(9) m a unfolding Q_ok_def by blast
      then have "tom_cdb_cycle (insn s j) \<noteq> 0" "tom_cdb_cycle (insn s j) \<noteq> Suc c"
        using bus by (auto simp: retired_def bus_ok_def)
      moreover have "tom_cdb_cycle (insn s j) \<le> Suc c" using cle by (simp add: stamps_le_def)
      ultimately show ?thesis using True by (simp add: exe)
    next
      case False
      then have "executing s k" using a by (simp add: exe)
      then have "tom_cdb_cycle (insn s j) \<noteq> 0 \<and> tom_cdb_cycle (insn s j) < tom_execute_cycle (insn s k)"
        using a ok(10) unfolding raw_ok_def by blast
      then show ?thesis using False by (simp add: exe)
    qed
  qed
  ultimately show "pipe_ok fl p N d ?s" by (simp add: pipe_ok_def)
  show "commonDataBus ?s = commonDataBus s" by simp
  show "(insn ?s i)\<lparr>tom_execute_cycle := 0\<rparr> = (insn s i)\<lparr>tom_execute_cycle := 0\<rparr>"
    by (simp add: ins)
  show "tom_execute_cycle (insn ?s i) = tom_execute_cycle (insn s i) \<or> tom_execute_cycle (insn ?s i) = Suc c"
    by (simp add: exe)
qed

section \<open>Issue\<close>

lemma filter_upt_Cons:
  "filter P [a..<b] = i # xs \<Longrightarrow> xs = filter P [Suc i..<b] \<and> a \<le> i \<and> i < b \<and> P i \<and> (\<forall>m. a \<le> m \<and> m < i \<longrightarrow> \<not> P m)"
proof (induction "b - a" arbitrary: a)
  case 0
  then show ?case by simp
next
  case (Suc n)
  then have ab: "a < b" by simp
  then have u: "[a..<b] = a # [Suc a..<b]" by (rule upt_conv_Cons)
  show ?case
  proof (cases "P a")
    case True
    then show ?thesis using Suc(3) ab by (auto simp: u)
  next
    case False
    have "n = b - Suc a" using Suc(2) by simp
    moreover have "filter P [Suc a..<b] = i # xs" using Suc(3) False by (simp add: u)
    ultimately have "xs = filter P [Suc i..<b] \<and> Suc a \<le> i \<and> i < b \<and> P i \<and> (\<forall>m. Suc a \<le> m \<and> m < i \<longrightarrow> \<not> P m)"
      using Suc(1) by blast
    then show ?thesis using False by (metis Suc_leD Suc_leI le_neq_implies_less)
  qed
qed

lemma queue_head:
  assumes q: "queue_ok fl p N d s" and sh: "shape s" and ne: "instr_queue_size s \<noteq> 0"
  obtains i where "instr_queue_peek s = Inr (Some i)" "instr_queue s ! instr_queue_head s = Some i"
    "queue_list fl p N d s = i # queue_list fl p N i s" "d < i" "i \<le> min (fetch_index s) N" "kept fl p i"
    "\<And>m. d < m \<Longrightarrow> m < i \<Longrightarrow> \<not> kept fl p m"
proof -
  obtain i xs where ix: "queue_list fl p N d s = i # xs"
    using q ne by (cases "queue_list fl p N d s") (auto simp: queue_ok_def)
  have fc: "xs = filter (kept fl p) [Suc i..<Suc (min (fetch_index s) N)] \<and> Suc d \<le> i
      \<and> i < Suc (min (fetch_index s) N) \<and> kept fl p i \<and> (\<forall>m. Suc d \<le> m \<and> m < i \<longrightarrow> \<not> kept fl p m)"
    by (rule filter_upt_Cons) (use ix in \<open>simp add: queue_list_def\<close>)
  have h: "instr_queue_head s < INSTR_QUEUE_SIZE" using sh by (simp add: shape_def)
  have pos: "0 < INSTR_QUEUE_SIZE" by (simp add: INSTR_QUEUE_SIZE_def)
  have at: "instr_queue s ! instr_queue_head s = Some i"
    using q ne ix pos h unfolding queue_ok_def
    by (metis add.right_neutral mod_less neq0_conv nth_Cons_0)
  show ?thesis
  proof (rule that)
    show "instr_queue_peek s = Inr (Some i)" using at sh by (simp add: instr_queue_peek_def shape_def)
  qed (use at ix fc in \<open>auto simp: queue_list_def\<close>)
qed

definition dequeued :: "tomasulo \<Rightarrow> tomasulo" where
  "dequeued s = s\<lparr>instr_queue := (instr_queue s)[instr_queue_head s := None],
     instr_queue_head := (instr_queue_head s + 1) mod INSTR_QUEUE_SIZE,
     instr_queue_size := instr_queue_size s - 1\<rparr>"

lemma dequeue_eq:
  "\<lbrakk>shape s; instr_queue_size s \<noteq> 0\<rbrakk> \<Longrightarrow>
    instr_queue_dequeue s = Inr (instr_queue s ! instr_queue_head s, dequeued s)"
  by (simp add: instr_queue_dequeue_def shape_def dequeued_def)

lemma dequeued_simps [simp]:
  "insn (dequeued s) = insn s" "reservINT (dequeued s) = reservINT s" "reservFP (dequeued s) = reservFP s"
  "fuINT (dequeued s) = fuINT s" "fuFP (dequeued s) = fuFP s" "fetch_index (dequeued s) = fetch_index s"
  "commonDataBus (dequeued s) = commonDataBus s" "map_table (dequeued s) = map_table s"
  "instr_queue_size (dequeued s) = instr_queue_size s - 1"
  "instr_queue_head (dequeued s) = (instr_queue_head s + 1) mod INSTR_QUEUE_SIZE"
  by (simp_all add: dequeued_def)

lemma queue_dequeued:
  assumes q: "queue_ok fl p N d s" and sh: "shape s"
    and ql: "queue_list fl p N d s = i # queue_list fl p N i s" and i: "i \<le> min (fetch_index s) N"
  shows "queue_ok fl p N i (dequeued s)" "shape (dequeued s)"
proof -
  let ?n = INSTR_QUEUE_SIZE
  have n: "0 < ?n" by (simp add: INSTR_QUEUE_SIZE_def)
  have size: "instr_queue_size s = Suc (length (queue_list fl p N i s))" "instr_queue_size s \<le> ?n"
    using q ql by (auto simp: queue_ok_def)
  have h: "instr_queue_head s < ?n" and len: "length (instr_queue s) = ?n" using sh by (simp_all add: shape_def)
  have q': "queue_list fl p N i (dequeued s) = queue_list fl p N i s" by (simp add: queue_list_def)
  have at: "(instr_queue s)[instr_queue_head s := None] ! (((instr_queue_head s + 1) mod ?n + k) mod ?n)
      = (if k < instr_queue_size s - 1 then Some (queue_list fl p N i s ! k) else None)" if k: "k < ?n" for k
  proof (cases "Suc k = ?n")
    case True
    have "((instr_queue_head s + 1) mod ?n + k) mod ?n = instr_queue_head s"
      using h True by (simp add: mod_simps(1) add.assoc) (metis True add_Suc_right mod_add_self2 mod_less)
    then show ?thesis using h len size True by simp
  next
    case False
    then have sk: "Suc k < ?n" using k by simp
    have eq: "((instr_queue_head s + 1) mod ?n + k) mod ?n = (instr_queue_head s + Suc k) mod ?n"
      by (simp add: mod_simps)
    have "(instr_queue_head s + Suc k) mod ?n \<noteq> instr_queue_head s"
      using h sk by (cases "instr_queue_head s + Suc k < ?n") (simp_all add: le_mod_geq not_less)
    then have "(instr_queue s)[instr_queue_head s := None] ! ((instr_queue_head s + Suc k) mod ?n)
        = instr_queue s ! ((instr_queue_head s + Suc k) mod ?n)" by simp
    also have "\<dots> = (if Suc k < instr_queue_size s then Some (queue_list fl p N d s ! Suc k) else None)"
      using q sk unfolding queue_ok_def by blast
    also have "queue_list fl p N d s ! Suc k = queue_list fl p N i s ! k" by (simp add: ql)
    finally show ?thesis unfolding eq using size by simp
  qed
  have d: "d \<le> min (fetch_index s) N" using q by (simp add: queue_ok_def)
  have fc: "Suc d \<le> i \<and> kept fl p i \<and> (\<forall>m. Suc d \<le> m \<and> m < i \<longrightarrow> \<not> kept fl p m)"
    using filter_upt_Cons [of "kept fl p" "Suc d" "Suc (min (fetch_index s) N)" i] ql
    unfolding queue_list_def by blast
  have "[1..<Suc i] = [1..<Suc d] @ [Suc d..<i] @ [i]"
    using fc upt_add_eq_append [of 1 "Suc d" "i - Suc d"] by simp
  moreover have "filter (kept fl p) [Suc d..<i] = []" using fc by (intro filter_False) auto
  ultimately have "kept_upto fl p i = Suc (kept_upto fl p d)"
    using fc unfolding kept_upto_def by simp
  moreover have "instr_queue_head s = kept_upto fl p d mod ?n"
    using q unfolding queue_ok_def by blast
  ultimately have hd: "(instr_queue_head s + 1) mod ?n = kept_upto fl p i mod ?n"
    by (simp add: mod_simps)
  show "queue_ok fl p N i (dequeued s)"
    unfolding queue_ok_def q' dequeued_simps hd [symmetric]
    by (intro conjI allI impI) (use size i at in \<open>simp_all add: dequeued_def\<close>)
  show "shape (dequeued s)" using sh n by (simp add: shape_def dequeued_def)
qed

text \<open>Moving the issue position from \<open>d\<close> to the head \<open>i\<close> of the queue.\<close>

lemma issued_step:
  assumes "d < i" "\<And>m. d < m \<Longrightarrow> m < i \<Longrightarrow> \<not> kept fl p m"
  shows "issued fl p i j \<longleftrightarrow> issued fl p d j \<or> (j = i \<and> works fl p i)"
proof -
  have "\<not> works fl p m" if "d < m" "m < i" for m using assms(2) [OF that] by (simp add: works_def)
  then show ?thesis using assms(1) unfolding issued_def
    by (metis One_nat_def le_neq_implies_less less_Suc_eq_le less_imp_le linorder_not_le not_less_zero order_trans less_one)
qed

lemma producer_step:
  assumes "d < i" "\<And>m. d < m \<Longrightarrow> m < i \<Longrightarrow> \<not> kept fl p m"
  shows "producer fl p i r j \<longleftrightarrow> producer fl p (Suc d) r j"
    and "producer fl p (Suc i) r j \<longleftrightarrow>
      (if works fl p i \<and> writes p r i then j = i else producer fl p (Suc d) r j)"
proof -
  have nw: "\<not> works fl p m" if "d < m" "m < i" for m using assms(2) [OF that] by (simp add: works_def)
  have eq: "works fl p m \<and> m < i \<longleftrightarrow> works fl p m \<and> m < Suc d" for m
  proof
    assume "works fl p m \<and> m < i"
    then show "works fl p m \<and> m < Suc d" using nw [of m] by (cases "d < m") auto
  qed (use assms(1) in auto)
  have alt: "producer fl p k r j \<longleftrightarrow> 1 \<le> j \<and> (works fl p j \<and> j < k) \<and> writes p r j
      \<and> (\<forall>m. j < m \<and> (works fl p m \<and> m < k) \<longrightarrow> \<not> writes p r m)" for k
    unfolding producer_def by blast
  show a: "producer fl p i r j \<longleftrightarrow> producer fl p (Suc d) r j"
    unfolding alt eq ..
  show "producer fl p (Suc i) r j \<longleftrightarrow>
      (if works fl p i \<and> writes p r i then j = i else producer fl p (Suc d) r j)"
  proof (cases "works fl p i \<and> writes p r i")
    case True
    then show ?thesis using assms(1) by (auto simp: producer_def less_Suc_eq)
  next
    case False
    then have "producer fl p (Suc i) r j \<longleftrightarrow> producer fl p i r j"
      by (auto simp: producer_def less_Suc_eq)
    then show ?thesis using a False by auto
  qed
qed

lemma branch_step:
  assumes pipe: "pipe_ok fl p N d s" and ql: "queue_list fl p N d s = i # queue_list fl p N i s"
    and i: "d < i" "i \<le> min (fetch_index s) N" "\<And>m. d < m \<Longrightarrow> m < i \<Longrightarrow> \<not> kept fl p m"
    and nw: "\<not> works fl p i"
  shows "pipe_ok fl p N i (dequeued s)"
proof -
  note ok = pipe_okD [OF pipe]
  have iss: "issued fl p i = issued fl p d" using issued_step [OF i(1,3)] nw by (auto simp: fun_eq_iff)
  have pr: "producer fl p (Suc i) r j \<longleftrightarrow> producer fl p (Suc d) r j" for r j
    using producer_step(2) [OF i(1,3)] nw by simp
  have ret: "retired (dequeued s) = retired s" by (auto simp: retired_def)
  have st: "in_station (dequeued s) = in_station s" by (auto simp: in_station_def)
  have "queue_ok fl p N i (dequeued s)" "shape (dequeued s)"
    using queue_dequeued [OF ok(3,2) ql i(2)] by auto
  moreover have "same_code p (dequeued s)" using ok(1) by (simp add: same_code_def)
  moreover have "units_ok fl p i (dequeued s)" using ok(4) unfolding units_ok_def dequeued_simps iss .
  moreover have "progress_ok fl p i (dequeued s)" using ok(5) unfolding progress_ok_def dequeued_simps iss st .
  moreover have "dispatch_ok fl p N (dequeued s)" using ok(6) unfolding dispatch_ok_def dequeued_simps .
  moreover have "one_broadcast (dequeued s)" using ok(7) unfolding one_broadcast_def dequeued_simps .
  moreover have "map_ok fl p i (dequeued s)" using ok(8) unfolding map_ok_def dequeued_simps ret pr .
  moreover have "Q_ok fl p (dequeued s)" using ok(9) unfolding Q_ok_def dequeued_simps ret .
  moreover have "raw_ok fl p (dequeued s)" using ok(10) unfolding raw_ok_def dequeued_simps .
  ultimately show ?thesis by (simp add: pipe_ok_def)
qed

lemma set_inputs_eq:
  "\<lbrakk>\<forall>r\<in>set rs. r < int (length (map_table s)); k + length rs \<le> length (Q (insn s i))\<rbrakk> \<Longrightarrow>
    \<exists>q. set_inputs i k rs s = Inr (upd_insn i (\<lambda>n. n\<lparr>Q := q\<rparr>) s) \<and> length q = length (Q (insn s i))
      \<and> (\<forall>m<length q. q ! m = (if k \<le> m \<and> m < k + length rs \<and> 0 \<le> rs ! (m - k)
            \<and> map_table s ! nat (rs ! (m - k)) \<noteq> None
          then map_table s ! nat (rs ! (m - k)) else Q (insn s i) ! m))"
proof (induction rs arbitrary: k s)
  case Nil
  have "upd_insn i (\<lambda>n. n\<lparr>Q := Q (insn s i)\<rparr>) s = s"
    by (cases s; cases "insn s i") (auto simp: upd_insn_def)
  then show ?case by (intro exI [of _ "Q (insn s i)"]) auto
next
  case (Cons r rs)
  define x where "x = (if r < 0 then None else map_table s ! nat r)"
  define s1 where "s1 = (case x of None \<Rightarrow> s | Some p \<Rightarrow> upd_insn i (\<lambda>n. n\<lparr>Q := (Q n)[k := Some p]\<rparr>) s)"
  have r: "0 \<le> r \<Longrightarrow> nat r < length (map_table s)" using Cons(2) by auto
  have step: "set_inputs i k (r # rs) s = set_inputs i (k + 1) rs s1"
    using r by (auto simp: s1_def x_def split: option.split)
  have mt: "map_table s1 = map_table s" by (simp add: s1_def upd_insn_def split: option.split)
  have Q1: "Q (insn s1 i) = (if x = None then Q (insn s i) else (Q (insn s i))[k := x])"
    by (auto simp: s1_def upd_insn_def split: option.split)
  have upd: "upd_insn i (\<lambda>n. n\<lparr>Q := q\<rparr>) s1 = upd_insn i (\<lambda>n. n\<lparr>Q := q\<rparr>) s" for q
    by (cases s) (auto simp: s1_def upd_insn_def split: option.split)
  have len1: "length (Q (insn s1 i)) = length (Q (insn s i))" by (simp add: Q1)
  obtain q where q: "set_inputs i (k + 1) rs s1 = Inr (upd_insn i (\<lambda>n. n\<lparr>Q := q\<rparr>) s)"
    "length q = length (Q (insn s i))"
    "\<And>m. m < length q \<Longrightarrow> q ! m = (if k + 1 \<le> m \<and> m < k + 1 + length rs \<and> 0 \<le> rs ! (m - (k + 1))
            \<and> map_table s ! nat (rs ! (m - (k + 1))) \<noteq> None
          then map_table s ! nat (rs ! (m - (k + 1))) else Q (insn s1 i) ! m)"
  proof -
    have "\<forall>r\<in>set rs. r < int (length (map_table s))" "k + 1 + length rs \<le> length (Q (insn s i))"
      using Cons(2,3) by auto
    then show ?thesis using Cons(1) [of s1 "k + 1", unfolded mt len1 upd] that by blast
  qed
  have "q ! m = (if k \<le> m \<and> m < k + length (r # rs) \<and> 0 \<le> (r # rs) ! (m - k)
            \<and> map_table s ! nat ((r # rs) ! (m - k)) \<noteq> None
          then map_table s ! nat ((r # rs) ! (m - k)) else Q (insn s i) ! m)" if m: "m < length q" for m
  proof (cases "k = m")
    case True
    then show ?thesis using q(3) [OF m] m q(2) by (auto simp: Q1 x_def)
  next
    case False
    then have "Q (insn s1 i) ! m = Q (insn s i) ! m" by (simp add: Q1)
    moreover have "(r # rs) ! (m - k) = rs ! (m - (k + 1))" if "k \<le> m"
      using that False by (simp add: nth_Cons' )
    moreover have "k \<le> m \<longleftrightarrow> k + 1 \<le> m" using False by auto
    ultimately show ?thesis using q(3) [OF m] by auto
  qed
  then show ?case using q(1,2) unfolding step by blast
qed

lemma set_outputs_eq:
  "\<forall>r\<in>set rs. r < int (length (map_table s)) \<Longrightarrow>
    \<exists>mt. set_outputs i rs s = Inr (s\<lparr>map_table := mt\<rparr>) \<and> length mt = length (map_table s)
      \<and> (\<forall>r<length mt. mt ! r = (if int r \<in> set rs then Some i else map_table s ! r))"
proof (induction rs arbitrary: s)
  case Nil
  then show ?case by (intro exI [of _ "map_table s"]) simp
next
  case (Cons r rs)
  show ?case
  proof (cases "r < 0")
    case True
    then show ?thesis using Cons(1) [of s] Cons(2) by auto
  next
    case False
    let ?s = "s\<lparr>map_table := (map_table s)[nat r := Some i]\<rparr>"
    have nr: "nat r < length (map_table s)" using Cons(2) False by auto
    obtain mt where mt: "set_outputs i rs ?s = Inr (?s\<lparr>map_table := mt\<rparr>)" "length mt = length (map_table s)"
      "\<forall>j<length mt. mt ! j = (if int j \<in> set rs then Some i else (map_table s)[nat r := Some i] ! j)"
      using Cons(1) [of ?s] Cons(2) by auto
    show ?thesis
      using mt nr False by (intro exI [of _ mt]) (auto simp: nth_list_update)
  qed
qed

lemma issue_insn_eq:
  assumes "length (Q (insn s i)) = MAX_INPUT_REGS" "length (r_in (insn s i)) = MAX_INPUT_REGS"
    "\<forall>r\<in>set (r_in (insn s i)) \<union> set (r_out (insn s i)). r < int (length (map_table s))"
  shows "\<exists>q mt. issue_insn i c s = Inr ((upd_insn i (\<lambda>n. n\<lparr>tom_issue_cycle := c, Q := q\<rparr>) s)\<lparr>map_table := mt\<rparr>)
    \<and> length q = MAX_INPUT_REGS \<and> length mt = length (map_table s)
    \<and> (\<forall>m<MAX_INPUT_REGS. q ! m = (if 0 \<le> r_in (insn s i) ! m \<and> map_table s ! nat (r_in (insn s i) ! m) \<noteq> None
          then map_table s ! nat (r_in (insn s i) ! m) else Q (insn s i) ! m))
    \<and> (\<forall>r<length mt. mt ! r = (if int r \<in> set (r_out (insn s i)) then Some i else map_table s ! r))"
proof -
  let ?s1 = "upd_insn i (\<lambda>n. n\<lparr>tom_issue_cycle := c\<rparr>) s"
  have f: "Q (insn ?s1 i) = Q (insn s i)" "r_in (insn ?s1 i) = r_in (insn s i)" "map_table ?s1 = map_table s"
    "r_out (insn ?s1 i) = r_out (insn s i)"
    by (simp_all add: upd_insn_def)
  have "\<forall>r\<in>set (r_in (insn s i)). r < int (length (map_table ?s1))"
    "0 + length (r_in (insn s i)) \<le> length (Q (insn ?s1 i))"
    using assms unfolding f by auto
  from set_inputs_eq [OF this, unfolded f assms(1,2)]
  obtain q where q: "set_inputs i 0 (r_in (insn s i)) ?s1 = Inr (upd_insn i (\<lambda>n. n\<lparr>Q := q\<rparr>) ?s1)"
    "length q = MAX_INPUT_REGS"
    "\<forall>m<length q. q ! m = (if 0 \<le> m \<and> m < 0 + MAX_INPUT_REGS \<and> 0 \<le> r_in (insn s i) ! (m - 0)
        \<and> map_table s ! nat (r_in (insn s i) ! (m - 0)) \<noteq> None
      then map_table s ! nat (r_in (insn s i) ! (m - 0)) else Q (insn s i) ! m)"
    by blast
  let ?s2 = "upd_insn i (\<lambda>n. n\<lparr>Q := q\<rparr>) ?s1"
  have s2: "?s2 = upd_insn i (\<lambda>n. n\<lparr>tom_issue_cycle := c, Q := q\<rparr>) s"
    by (simp add: upd_insn_def)
  have g: "r_out (insn ?s2 i) = r_out (insn s i)" "map_table ?s2 = map_table s" by (simp_all add: upd_insn_def)
  have "\<forall>r\<in>set (r_out (insn s i)). r < int (length (map_table ?s2))" using assms(3) unfolding g by auto
  from set_outputs_eq [OF this, of i, unfolded g]
  obtain mt where mt: "set_outputs i (r_out (insn s i)) ?s2 = Inr (?s2\<lparr>map_table := mt\<rparr>)"
    "length mt = length (map_table s)"
    "\<forall>r<length mt. mt ! r = (if int r \<in> set (r_out (insn s i)) then Some i else map_table s ! r)"
    by blast
  have "issue_insn i c s = Inr (?s2\<lparr>map_table := mt\<rparr>)"
    unfolding issue_insn_def Let_def f q(1) res_bind_simps g mt(1) ..
  then show ?thesis
    unfolding s2 using q(2) q(3) [unfolded diff_zero q(2)] mt(2,3)
    by (intro exI [where P = "\<lambda>q. \<exists>mt. _ q mt" and x = q] exI [where P = "\<lambda>mt. _ mt" and x = mt] conjI) auto
qed

lemma issue_step:
  assumes wf: "wf_program trace p N" and pipe: "pipe_ok fl p N d s"
    and ql: "queue_list fl p N d s = i # queue_list fl p N i s"
    and i: "d < i" "i \<le> min (fetch_index s) N" "\<And>m. d < m \<Longrightarrow> m < i \<Longrightarrow> \<not> kept fl p m"
    and w: "works fl p i"
    and s1: "s1 = (dequeued s)\<lparr>reservINT := a, reservFP := b\<rparr>"
    and a: "length a = length (reservINT s)" "distinct (elems a)"
      "set (elems a) = (if uses_int fl p i then insert i (set (elems (reservINT s))) else set (elems (reservINT s)))"
    and b: "length b = length (reservFP s)" "distinct (elems b)"
      "set (elems b) = (if uses_int fl p i then set (elems (reservFP s)) else insert i (set (elems (reservFP s))))"
    and le: "stamps_le tom_dispatch_cycle c s" "stamps_le tom_issue_cycle c s"
  shows "\<exists>s'. issue_insn i (Suc c) s1 = Inr s' \<and> pipe_ok fl p N i s' \<and> commonDataBus s' = commonDataBus s
    \<and> (\<forall>j. tom_dispatch_cycle (insn s' j) = tom_dispatch_cycle (insn s j)
         \<and> tom_execute_cycle (insn s' j) = tom_execute_cycle (insn s j)
         \<and> tom_cdb_cycle (insn s' j) = tom_cdb_cycle (insn s j)
         \<and> (tom_issue_cycle (insn s' j) = tom_issue_cycle (insn s j) \<or> tom_issue_cycle (insn s' j) = Suc c))"
proof -
  note ok = pipe_okD [OF pipe]
  have iN: "1 \<le> i" "i \<le> N" "wf_instr i (p i)" using i wf by (auto simp: wf_program_def)
  have fld1: "insn s1 = insn s" "map_table s1 = map_table s" using s1 by simp_all
  have code: "r_in (insn s i) = r_in (p i)" "r_out (insn s i) = r_out (p i)" using ok(1) by (simp_all add: same_code_def)
  have mlen: "length (map_table s) = MD_TOTAL_REGS" using ok(2) by (simp add: shape_def)
  have Qlen: "length (Q (insn s i)) = MAX_INPUT_REGS" using ok(9) by (simp add: Q_ok_def)
  have rlen: "length (r_in (p i)) = MAX_INPUT_REGS" using iN(3) by (simp add: wf_instr_def)
  have regs: "\<forall>r\<in>set (r_in (p i)) \<union> set (r_out (p i)). r < int MD_TOTAL_REGS"
    using iN(3) by (simp add: wf_instr_def)
  obtain q mt where eq: "issue_insn i (Suc c) s1 =
        Inr ((upd_insn i (\<lambda>n. n\<lparr>tom_issue_cycle := Suc c, Q := q\<rparr>) s1)\<lparr>map_table := mt\<rparr>)"
    and q: "length q = MAX_INPUT_REGS" "\<And>m. m < MAX_INPUT_REGS \<Longrightarrow>
       q ! m = (if 0 \<le> r_in (p i) ! m \<and> map_table s ! nat (r_in (p i) ! m) \<noteq> None
          then map_table s ! nat (r_in (p i) ! m) else Q (insn s i) ! m)"
    and mt: "length mt = MD_TOTAL_REGS"
      "\<And>r. r < MD_TOTAL_REGS \<Longrightarrow> mt ! r = (if int r \<in> set (r_out (p i)) then Some i else map_table s ! r)"
    using issue_insn_eq [of s1 i "Suc c", unfolded fld1 code mlen, OF Qlen rlen regs] by auto
  let ?s = "(upd_insn i (\<lambda>n. n\<lparr>tom_issue_cycle := Suc c, Q := q\<rparr>) s1)\<lparr>map_table := mt\<rparr>"
  have fld [simp]: "instr_queue ?s = instr_queue (dequeued s)" "instr_queue_size ?s = instr_queue_size (dequeued s)"
    "instr_queue_head ?s = instr_queue_head (dequeued s)" "reservINT ?s = a" "reservFP ?s = b"
    "fuINT ?s = fuINT s" "fuFP ?s = fuFP s" "fetch_index ?s = fetch_index (dequeued s)"
    "commonDataBus ?s = commonDataBus s" "map_table ?s = mt"
    by (simp_all add: s1 upd_insn_def)
  have same [simp]: "tom_cdb_cycle (insn ?s j) = tom_cdb_cycle (insn s j)"
    "tom_execute_cycle (insn ?s j) = tom_execute_cycle (insn s j)"
    "tom_dispatch_cycle (insn ?s j) = tom_dispatch_cycle (insn s j)" "index (insn ?s j) = index (insn s j)"
    "r_in (insn ?s j) = r_in (insn s j)" "r_out (insn ?s j) = r_out (insn s j)"
    "opcode (insn ?s j) = opcode (insn s j)"
    and iss: "tom_issue_cycle (insn ?s j) = (if j = i then Suc c else tom_issue_cycle (insn s j))"
    and Qs: "Q (insn ?s j) = (if j = i then q else Q (insn s j))" for j
    by (simp_all add: s1 upd_insn_def)
  have isd: "issued fl p i j \<longleftrightarrow> issued fl p d j \<or> j = i" for j
    using issued_step [OF i(1,3)] w by auto
  have ni: "\<not> issued fl p d i" using i(1) by (simp add: issued_def)
  have i0: "tom_issue_cycle (insn s i) = 0" "\<not> executing s i"
    using ni ok(5) unfolding progress_ok_def by blast+
  then have cdb0: "tom_cdb_cycle (insn s i) = 0" using ok(5) unfolding progress_ok_def by blast
  have nst: "\<not> in_station s i" using ni ok(4) by (auto simp: in_station_def units_ok_def)
  have ret: "retired ?s = retired s" by (rule ext) (simp only: retired_def same fld)
  have st: "in_station ?s j \<longleftrightarrow> in_station s j \<or> j = i" for j
    unfolding in_station_def fld a b by auto
  have Q0: "Q (insn s i) ! m = None" if "m < MAX_INPUT_REGS" for m
    using ok(9) i0 that unfolding Q_ok_def by (metis not_None_eq)
  have pd: "producer fl p i r j \<longleftrightarrow> producer fl p (Suc d) r j"
    and pS: "producer fl p (Suc i) r j \<longleftrightarrow> (if writes p r i then j = i else producer fl p (Suc d) r j)" for r j
    using producer_step [OF i(1,3), of r j] w by auto
  have "same_code p ?s" using ok(1) unfolding same_code_def same .
  moreover have "shape ?s"
    using queue_dequeued(2) [OF ok(3,2) ql i(2)] a(1) b(1) mt(1) unfolding shape_def fld by simp
  moreover have "queue_ok fl p N i ?s"
    using queue_dequeued(1) [OF ok(3,2) ql i(2)] unfolding queue_ok_def queue_list_def fld .
  moreover have "units_ok fl p i ?s"
    using ok(4) i0(2) unfolding units_ok_def fld same isd a b by (auto simp: a(2) b(2))
  moreover have "progress_ok fl p i ?s"
    unfolding progress_ok_def st isd
  proof (rule allI)
    fix j
    show "(tom_issue_cycle (insn ?s j) \<noteq> 0) = (issued fl p d j \<or> j = i) \<and>
      (executing ?s j \<longrightarrow> (issued fl p d j \<or> j = i) \<and> tom_issue_cycle (insn ?s j) < tom_execute_cycle (insn ?s j)) \<and>
      (tom_cdb_cycle (insn ?s j) \<noteq> 0 \<longrightarrow> executing ?s j \<and> \<not> (in_station s j \<or> j = i)
         \<and> \<not> IS_STORE fl (opcode (p j)) \<and>
         tom_execute_cycle (insn ?s j) + latency fl (opcode (p j)) \<le> tom_cdb_cycle (insn ?s j)) \<and>
      ((issued fl p d j \<or> j = i) \<and> \<not> (in_station s j \<or> j = i) \<longrightarrow> tom_cdb_cycle (insn ?s j) \<noteq> 0
         \<or> executing ?s j \<and> IS_STORE fl (opcode (p j)))"
      using ok(5) [unfolded progress_ok_def, rule_format, of j] ni i0 cdb0 unfolding same iss
      by (cases "j = i") auto
  qed
  moreover have "dispatch_ok fl p N ?s"
  proof -
    have disp: "tom_dispatch_cycle (insn s i) \<noteq> 0"
      using ok(6) iN i(2) w unfolding dispatch_ok_def works_def by blast
    have lc: "tom_dispatch_cycle (insn s j) \<le> c" "tom_issue_cycle (insn s j) \<le> c" for j
      using le by (auto simp: stamps_le_def)
    have di: "j < i" if "tom_issue_cycle (insn s j) \<noteq> 0" for j
      using that ok(5) i(1) unfolding progress_ok_def issued_def by fastforce
    have 1: "(tom_dispatch_cycle (insn s j) \<noteq> 0 \<longleftrightarrow> 1 \<le> j \<and> j \<le> min (fetch_index s) N \<and> kept fl p j)
        \<and> (tom_issue_cycle (insn s j) \<noteq> 0 \<longrightarrow> tom_dispatch_cycle (insn s j) < tom_issue_cycle (insn s j))" for j
      using ok(6) unfolding dispatch_ok_def by blast
    have 2: "tom_dispatch_cycle (insn s j) < tom_dispatch_cycle (insn s k)"
      if "j < k" "tom_dispatch_cycle (insn s j) \<noteq> 0" "tom_dispatch_cycle (insn s k) \<noteq> 0" for j k
      using ok(6) that unfolding dispatch_ok_def by blast
    have 3: "tom_issue_cycle (insn s j) < tom_issue_cycle (insn s k)"
      if "j < k" "tom_issue_cycle (insn s j) \<noteq> 0" "tom_issue_cycle (insn s k) \<noteq> 0" for j k
      using ok(6) that unfolding dispatch_ok_def by blast
    have 4: "tom_issue_cycle (insn ?s j) < tom_issue_cycle (insn ?s k)"
      if jk: "j < k" "tom_issue_cycle (insn ?s j) \<noteq> 0" "tom_issue_cycle (insn ?s k) \<noteq> 0" for j k
    proof -
      have "j \<noteq> i" using jk di [of k] unfolding iss by (auto split: if_splits)
      then show ?thesis using jk 3 [of j k] lc(2) [of j] unfolding iss by (auto simp: less_Suc_eq_le)
    qed
    have 5: "tom_issue_cycle (insn ?s j) \<noteq> 0 \<longrightarrow> tom_dispatch_cycle (insn ?s j) < tom_issue_cycle (insn ?s j)" for j
      using 1 [of j] lc(1) [of j] unfolding iss same by (auto simp: less_Suc_eq_le)
    show ?thesis
      unfolding dispatch_ok_def using 1 2 4 5 unfolding same fld dequeued_simps by blast
  qed
  moreover have "one_broadcast ?s" using ok(7) unfolding one_broadcast_def same .
  moreover have "map_ok fl p i ?s"
    unfolding map_ok_def
  proof (intro allI impI)
    fix r j assume r: "r < MD_TOTAL_REGS"
    have nr: "\<not> retired s i" using cdb0 by (simp add: retired_def)
    have "map_table s ! r = Some j \<longleftrightarrow> producer fl p (Suc d) r j \<and> \<not> retired s j"
      using ok(8) r unfolding map_ok_def by blast
    then show "map_table ?s ! r = Some j \<longleftrightarrow> producer fl p (Suc i) r j \<and> \<not> retired ?s j"
      unfolding fld pS ret mt(2) [OF r] writes_def using nr by auto
  qed
  moreover have "Q_ok fl p ?s"
    unfolding Q_ok_def
  proof (intro allI impI conjI)
    fix j show "length (Q (insn ?s j)) = MAX_INPUT_REGS" using ok(9) q(1) unfolding Q_ok_def Qs by simp
  next
    fix j k m assume k: "k < MAX_INPUT_REGS"
    show "Q (insn ?s j) ! k = Some m \<longleftrightarrow> tom_issue_cycle (insn ?s j) \<noteq> 0
      \<and> (\<exists>r. r_in (p j) ! k = int r \<and> producer fl p j r m) \<and> \<not> retired ?s m"
    proof (cases "j = i")
      case False
      then show ?thesis using ok(9) k unfolding Q_ok_def Qs iss ret by auto
    next
      case True
      let ?r = "r_in (p i) ! k"
      have rk: "?r < int MD_TOTAL_REGS" using regs k rlen nth_mem [of k "r_in (p i)"] by auto
      have "q ! k = Some m \<longleftrightarrow> 0 \<le> ?r \<and> map_table s ! nat ?r = Some m"
        using q(2) [OF k] Q0 [OF k] by auto
      also have "\<dots> \<longleftrightarrow> 0 \<le> ?r \<and> producer fl p (Suc d) (nat ?r) m \<and> \<not> retired s m"
        using ok(8) rk unfolding map_ok_def by (metis nat_less_iff)
      also have "\<dots> \<longleftrightarrow> (\<exists>r. ?r = int r \<and> producer fl p i r m) \<and> \<not> retired s m"
        unfolding pd by (metis nat_int of_nat_0_le_iff zero_le_imp_eq_int)
      finally show ?thesis using True unfolding Qs iss ret by simp
    qed
  qed
  moreover have "raw_ok fl p ?s" using ok(10) unfolding raw_ok_def same .
  ultimately have "pipe_ok fl p N i ?s" by (simp only: pipe_ok_def simp_thms)
  then show ?thesis
    using eq by (intro exI [of _ ?s] conjI allI) (simp_all only: same fld iss, auto)
qed

lemma insert_station:
  assumes "distinct (elems xs)" "\<not> insn_array_is_full xs" "i \<notin> set (elems xs)"
  shows "length (insn_array_insert_insn i xs) = length xs \<and> distinct (elems (insn_array_insert_insn i xs))
    \<and> set (elems (insn_array_insert_insn i xs)) = insert i (set (elems xs))"
  using assms by (simp add: elems_insert)

lemma dispatch_inv:
  assumes wf: "wf_program trace p N" and pipe: "pipe_ok fl p N d s"
    and le: "stamps_le tom_dispatch_cycle c s" "stamps_le tom_issue_cycle c s"
  shows "\<exists>s' d'. dispatch_To_issue fl (Suc c) s = Inr s' \<and> pipe_ok fl p N d' s' \<and> commonDataBus s' = commonDataBus s
    \<and> (\<forall>j. tom_dispatch_cycle (insn s' j) = tom_dispatch_cycle (insn s j)
         \<and> tom_execute_cycle (insn s' j) = tom_execute_cycle (insn s j)
         \<and> tom_cdb_cycle (insn s' j) = tom_cdb_cycle (insn s j)
         \<and> (tom_issue_cycle (insn s' j) = tom_issue_cycle (insn s j) \<or> tom_issue_cycle (insn s' j) = Suc c))"
proof (cases "instr_queue_size s = 0")
  case True
  then show ?thesis
    using pipe by (intro exI [of _ s] exI [of _ d]) (simp add: dispatch_To_issue_def instr_queue_is_empty_def)
next
  case False
  note ok = pipe_okD [OF pipe]
  obtain i where i: "instr_queue_peek s = Inr (Some i)" "instr_queue s ! instr_queue_head s = Some i"
    "queue_list fl p N d s = i # queue_list fl p N i s" "d < i" "i \<le> min (fetch_index s) N" "kept fl p i"
    "\<And>m. d < m \<Longrightarrow> m < i \<Longrightarrow> \<not> kept fl p m"
    using queue_head [OF ok(3,2) False] by blast
  have op: "opcode (insn s i) = opcode (p i)" using ok(1) by (simp add: same_code_def)
  have deq: "instr_queue_dequeue s = Inr (Some i, dequeued s)" using dequeue_eq [OF ok(2) False] i(2) by simp
  have dist: "distinct (elems (reservINT s))" "distinct (elems (reservFP s))" using ok(4) by (auto simp: units_ok_def)
  have ni: "i \<notin> set (elems (reservINT s))" "i \<notin> set (elems (reservFP s))"
    using ok(4) i(4) by (auto simp: units_ok_def issued_def)
  note D = dispatch_To_issue_def instr_queue_is_empty_def
  consider (branch) "branch fl p i"
    | (int) "\<not> branch fl p i" "uses_int fl p i" "\<not> insn_array_is_full (reservINT s)"
    | (fp) "\<not> branch fl p i" "\<not> uses_int fl p i" "USES_FP_FU fl (opcode (p i))" "\<not> insn_array_is_full (reservFP s)"
    | (stall) "dispatch_To_issue fl (Suc c) s = Inr s"
  proof -
    have "dispatch_To_issue fl (Suc c) s = Inr s"
      if "\<not> branch fl p i" "uses_int fl p i \<longrightarrow> insn_array_is_full (reservINT s)"
        "\<not> uses_int fl p i \<longrightarrow> USES_FP_FU fl (opcode (p i)) \<longrightarrow> insn_array_is_full (reservFP s)"
      using that False i(1) by (simp add: D op branch_def uses_int_def Let_def cong: if_cong)
    then show ?thesis using that by blast
  qed
  then show ?thesis
  proof cases
    case branch
    have "pipe_ok fl p N i (dequeued s)"
      by (rule branch_step [OF pipe i(3,4,5,7)]) (use branch in \<open>simp_all add: works_def\<close>)
    moreover have "dispatch_To_issue fl (Suc c) s = Inr (dequeued s)"
      using False i(1) branch by (simp add: D op branch_def Let_def deq)
    ultimately show ?thesis by (intro exI [of _ "dequeued s"] exI [of _ i]) simp
  next
    case int
    let ?a = "insn_array_insert_insn i (reservINT s)"
    let ?s1 = "(dequeued s)\<lparr>reservINT := ?a, reservFP := reservFP s\<rparr>"
    have sd: "?s1 = (dequeued s)\<lparr>reservINT := ?a\<rparr>"
      by (simp add: dequeued_def)
    have eq: "dispatch_To_issue fl (Suc c) s = issue_insn i (Suc c) ?s1"
      unfolding sd using False i(1) int by (simp add: D op branch_def uses_int_def Let_def deq)
    have w: "works fl p i" using int i(6) by (simp add: works_def)
    show ?thesis
      unfolding eq
      using issue_step [OF wf pipe i(3,4,5,7) w refl, of ?a "reservFP s" c] insert_station [OF dist(1) int(3) ni(1)]
        int(2) dist(2) le by auto
  next
    case fp
    let ?b = "insn_array_insert_insn i (reservFP s)"
    let ?s1 = "(dequeued s)\<lparr>reservINT := reservINT s, reservFP := ?b\<rparr>"
    have sd: "?s1 = (dequeued s)\<lparr>reservFP := ?b\<rparr>"
      by (simp add: dequeued_def)
    have eq: "dispatch_To_issue fl (Suc c) s = issue_insn i (Suc c) ?s1"
      unfolding sd using False i(1) fp by (simp add: D op branch_def uses_int_def Let_def deq)
    have w: "works fl p i" using fp i(6) by (simp add: works_def)
    show ?thesis
      unfolding eq
      using issue_step [OF wf pipe i(3,4,5,7) w refl, of "reservINT s" ?b c] insert_station [OF dist(2) fp(4) ni(2)]
        fp(2) dist(1) le by auto
  next
    case stall
    then show ?thesis using pipe by (intro exI [of _ s] exI [of _ d]) simp
  qed
qed

section \<open>Fetch\<close>

lemma fetch_loop_eq:
  assumes "wf_program trace p N" "same_code p s"
  shows "\<exists>x k. fetch_loop fl trace N s = Inr (x, s\<lparr>fetch_index := k\<rparr>) \<and> fetch_index s < k
    \<and> (\<forall>m. fetch_index s < m \<and> m < k \<and> m \<le> N \<longrightarrow> \<not> kept fl p m)
    \<and> (case x of None \<Rightarrow> N < k | Some i \<Rightarrow> i = k \<and> k \<le> N \<and> kept fl p k)"
  using assms
proof (induction fl trace N s rule: fetch_loop.induct)
  case (1 fl trace N s)
  let ?k = "fetch_index s + 1"
  let ?s = "s\<lparr>fetch_index := ?k\<rparr>"
  show ?case
  proof (cases "N + 1 \<le> ?k")
    case True
    then have "fetch_loop fl trace N s = Inr (None, ?s)" by (simp add: fetch_loop.simps [of fl trace N s])
    then show ?thesis using True by (intro exI [of _ None] exI [of _ ?k]) auto
  next
    case False
    have g: "get_instr trace ?k = Inr (p ?k)" using 1(2) False by (simp add: wf_program_def)
    have op: "opcode (insn s ?k) = opcode (p ?k)" using 1(3) by (simp add: same_code_def)
    show ?thesis
    proof (cases "kept fl p ?k")
      case True
      then have "fetch_loop fl trace N s = Inr (Some ?k, ?s)"
        using False g op by (subst fetch_loop.simps) (auto simp: kept_def Let_def)
      then show ?thesis using True False by (intro exI [of _ "Some ?k"] exI [of _ ?k]) auto
    next
      case nk: False
      then have eq: "fetch_loop fl trace N s = fetch_loop fl trace N ?s"
        using False g op by (subst fetch_loop.simps) (auto simp: kept_def Let_def)
      have "\<exists>x k. fetch_loop fl trace N ?s = Inr (x, ?s\<lparr>fetch_index := k\<rparr>) \<and> fetch_index ?s < k
        \<and> (\<forall>m. fetch_index ?s < m \<and> m < k \<and> m \<le> N \<longrightarrow> \<not> kept fl p m)
        \<and> (case x of None \<Rightarrow> N < k | Some i \<Rightarrow> i = k \<and> k \<le> N \<and> kept fl p k)"
        by (rule 1(1) [OF refl refl])
          (use False g nk op 1(2,3) in \<open>auto simp: kept_def same_code_def\<close>)
      then obtain x k where x: "fetch_loop fl trace N ?s = Inr (x, s\<lparr>fetch_index := k\<rparr>)" "?k < k"
        "\<forall>m. ?k < m \<and> m < k \<and> m \<le> N \<longrightarrow> \<not> kept fl p m"
        "case x of None \<Rightarrow> N < k | Some i \<Rightarrow> i = k \<and> k \<le> N \<and> kept fl p k" by auto
      have "\<forall>m. fetch_index s < m \<and> m < k \<and> m \<le> N \<longrightarrow> \<not> kept fl p m"
        using x(3) nk by (metis Suc_eq_plus1 Suc_leI le_neq_implies_less)
      then show ?thesis unfolding eq using x(1,2,4) by (intro exI [of _ x] exI [of _ k]) simp
    qed
  qed
qed

text \<open>The entry the stage looks at after the fetch, for a queue that satisfies the invariant.\<close>

lemma peek_tail_eq:
  assumes "queue_ok fl p N d s" "shape s"
  shows "instr_queue_peek_tail s =
    (if instr_queue_size s = 0 then if instr_queue_head s = 0 then Inl OutOfRange else Inr None
     else Inr (Some (last (queue_list fl p N d s))))"
proof -
  let ?n = INSTR_QUEUE_SIZE
  have n: "?n = 10" by (simp add: INSTR_QUEUE_SIZE_def)
  have q: "instr_queue_size s = length (queue_list fl p N d s)" "instr_queue_size s \<le> ?n"
    "\<And>k. k < ?n \<Longrightarrow> instr_queue s ! ((instr_queue_head s + k) mod ?n)
       = (if k < instr_queue_size s then Some (queue_list fl p N d s ! k) else None)"
    using assms(1) unfolding queue_ok_def by auto
  have len: "length (instr_queue s) = ?n" using assms(2) by (simp add: shape_def)
  show ?thesis
  proof (cases "instr_queue_size s = 0")
    case True
    show ?thesis
    proof (cases "instr_queue_head s = 0")
      case False
      have "(instr_queue_head s + 9) mod ?n = (instr_queue_head s - 1) mod ?n"
        using False mod_add_self2 [of "instr_queue_head s - 1" ?n] by (simp add: n add.commute)
      then show ?thesis using True False q(3) [of 9] len by (simp add: instr_queue_peek_tail_def n)
    qed (use True in \<open>simp add: instr_queue_peek_tail_def\<close>)
  next
    case False
    have eq: "instr_queue_head s + (instr_queue_size s - 1) = instr_queue_head s + instr_queue_size s - 1"
      using False by simp
    have ne: "queue_list fl p N d s \<noteq> []" using False q(1) by auto
    have at: "instr_queue s ! ((instr_queue_head s + instr_queue_size s - 1) mod ?n) = Some (last (queue_list fl p N d s))"
      using q(3) [of "instr_queue_size s - 1", unfolded eq] False q(1,2) ne by (simp add: n last_conv_nth)
    show ?thesis
      unfolding instr_queue_peek_tail_def vec_get_def at len using False by (simp add: n)
  qed
qed

lemma enqueue_eq:
  "\<lbrakk>shape s; instr_queue_size s < INSTR_QUEUE_SIZE\<rbrakk> \<Longrightarrow> instr_queue_enqueue i s =
    Inr (s\<lparr>instr_queue := (instr_queue s)[(instr_queue_head s + instr_queue_size s) mod INSTR_QUEUE_SIZE := Some i],
       instr_queue_size := instr_queue_size s + 1\<rparr>)"
  by (simp add: instr_queue_enqueue_def shape_def Let_def INSTR_QUEUE_SIZE_def)

lemma mod_add_cancel: "\<lbrakk>(h + m) mod n = (h + z) mod n; m < n; z < n\<rbrakk> \<Longrightarrow> m = z" for h :: nat
proof (induction m z rule: linorder_wlog)
  case (le m z)
  then have "n dvd z - m" using mod_eq_dvd_iff_nat [of "h + m" "h + z" n] by simp
  then have "z - m = 0" using le(4) by (metis dvd_imp_le less_imp_diff_less neq0_conv not_less)
  then show ?case using le(1) by simp
qed simp

lemma queue_enqueued:
  assumes q: "queue_ok fl p N d s" and sh: "shape s" and room: "instr_queue_size s < INSTR_QUEUE_SIZE"
    and k: "fetch_index s < k" "k \<le> N" "kept fl p k"
      "\<And>m. fetch_index s < m \<Longrightarrow> m < k \<Longrightarrow> \<not> kept fl p m"
    and t: "t = s\<lparr>fetch_index := k,
      instr_queue := (instr_queue s)[(instr_queue_head s + instr_queue_size s) mod INSTR_QUEUE_SIZE := Some k],
      instr_queue_size := instr_queue_size s + 1\<rparr>"
  shows "queue_list fl p N d t = queue_list fl p N d s @ [k]" "queue_ok fl p N d t" "shape t"
proof -
  let ?n = INSTR_QUEUE_SIZE
  have fi: "min (fetch_index s) N = fetch_index s" "min (fetch_index t) N = k" using k t by auto
  have d: "d \<le> fetch_index s" using q by (simp add: queue_ok_def)
  have "[Suc d..<Suc k] = [Suc d..<Suc (fetch_index s)] @ [Suc (fetch_index s)..<k] @ [k]"
    using d k(1) upt_add_eq_append [of "Suc d" "Suc (fetch_index s)" "k - Suc (fetch_index s)"] by simp
  moreover have "filter (kept fl p) [Suc (fetch_index s)..<k] = []"
    using k(4) by (auto simp: filter_empty_conv)
  ultimately show ql: "queue_list fl p N d t = queue_list fl p N d s @ [k]"
    using k(3) by (simp add: queue_list_def fi)
  have h: "instr_queue_head s < ?n" and len: "length (instr_queue s) = ?n" using sh by (simp_all add: shape_def)
  have size: "instr_queue_size s = length (queue_list fl p N d s)" using q by (simp add: queue_ok_def)
  have at: "instr_queue t ! ((instr_queue_head t + m) mod ?n)
      = (if m < instr_queue_size t then Some (queue_list fl p N d t ! m) else None)" if m: "m < ?n" for m
  proof -
    have old: "instr_queue s ! ((instr_queue_head s + m) mod ?n)
        = (if m < instr_queue_size s then Some (queue_list fl p N d s ! m) else None)"
      using q m unfolding queue_ok_def by blast
    have neq: "(instr_queue_head s + m) mod ?n \<noteq> (instr_queue_head s + instr_queue_size s) mod ?n"
      if "m \<noteq> instr_queue_size s"
      using that m room mod_add_cancel by blast
    show ?thesis
    proof (cases "m = instr_queue_size s")
      case True
      then show ?thesis using h len size ql by (simp add: t INSTR_QUEUE_SIZE_def)
    next
      case False
      then show ?thesis using neq old size unfolding ql by (simp add: t nth_append cong: if_cong)
    qed
  qed
  have fld: "fetch_index t = k" "instr_queue_size t = instr_queue_size s + 1"
    "instr_queue_head t = kept_upto fl p d mod ?n"
    using q by (simp_all add: t queue_ok_def)
  show "queue_ok fl p N d t"
    unfolding queue_ok_def
  proof (intro conjI allI impI)
    fix m assume "m < ?n"
    then show "instr_queue t ! ((instr_queue_head t + m) mod ?n)
      = (if m < instr_queue_size t then Some (queue_list fl p N d t ! m) else None)" by (rule at)
  qed (use d k(1,2) size room in \<open>unfold ql fld, simp_all\<close>)
  show "shape t" using sh by (simp add: t shape_def)
qed

lemma fetch_end:
  assumes pipe: "pipe_ok fl p N d s" and k: "fetch_index s < k" "N < k"
    and nk: "\<And>m. fetch_index s < m \<Longrightarrow> m < k \<Longrightarrow> m \<le> N \<Longrightarrow> \<not> kept fl p m"
  shows "pipe_ok fl p N d (s\<lparr>fetch_index := k\<rparr>)"
proof -
  let ?s = "s\<lparr>fetch_index := k\<rparr>"
  note ok = pipe_okD [OF pipe]
  have d: "d \<le> min (fetch_index s) N" using ok(3) by (simp add: queue_ok_def)
  have mono: "m \<le> min (fetch_index s) N \<and> kept fl p m \<longleftrightarrow> m \<le> N \<and> kept fl p m" for m
  proof
    assume "m \<le> N \<and> kept fl p m"
    then show "m \<le> min (fetch_index s) N \<and> kept fl p m"
      using nk [of m] k by (cases "fetch_index s < m") auto
  qed simp
  have "[Suc d..<Suc N] = [Suc d..<Suc (min (fetch_index s) N)] @ [Suc (min (fetch_index s) N)..<Suc N]"
    using d upt_add_eq_append [of "Suc d" "Suc (min (fetch_index s) N)" "N - min (fetch_index s) N"] by simp
  moreover have "filter (kept fl p) [Suc (min (fetch_index s) N)..<Suc N] = []"
  proof (rule filter_False, rule ballI)
    fix m assume "m \<in> set [Suc (min (fetch_index s) N)..<Suc N]"
    then show "\<not> kept fl p m" using mono [of m] by (auto simp: less_Suc_eq_le)
  qed
  ultimately have ql: "queue_list fl p N d ?s = queue_list fl p N d s"
    using k by (simp add: queue_list_def)
  have ret: "retired ?s = retired s" by (rule ext) (simp add: retired_def)
  have st: "in_station ?s = in_station s" by (rule ext) (simp add: in_station_def)
  have sel: "fetch_index ?s = k" "insn ?s = insn s" "instr_queue ?s = instr_queue s"
    "instr_queue_size ?s = instr_queue_size s" "instr_queue_head ?s = instr_queue_head s"
    "reservINT ?s = reservINT s" "reservFP ?s = reservFP s" "fuINT ?s = fuINT s" "fuFP ?s = fuFP s"
    "commonDataBus ?s = commonDataBus s" "map_table ?s = map_table s" by simp_all
  have "queue_ok fl p N d ?s"
  proof -
    have "d \<le> min k N" using d k by simp
    then show ?thesis using ok(3) unfolding queue_ok_def sel ql by blast
  qed
  moreover have "same_code p ?s" using ok(1) unfolding same_code_def sel .
  moreover have "shape ?s" using ok(2) unfolding shape_def sel .
  moreover have "units_ok fl p d ?s" using ok(4) unfolding units_ok_def sel .
  moreover have "progress_ok fl p d ?s" using ok(5) unfolding progress_ok_def sel st .
  moreover have "dispatch_ok fl p N ?s"
  proof -
    have "1 \<le> m \<and> m \<le> min (fetch_index s) N \<and> kept fl p m \<longleftrightarrow> 1 \<le> m \<and> m \<le> min k N \<and> kept fl p m" for m
      using mono [of m] k by auto
    then show ?thesis using ok(6) unfolding dispatch_ok_def sel by simp
  qed
  moreover have "one_broadcast ?s" using ok(7) unfolding one_broadcast_def sel .
  moreover have "map_ok fl p d ?s" using ok(8) unfolding map_ok_def sel ret .
  moreover have "Q_ok fl p ?s" using ok(9) unfolding Q_ok_def sel ret .
  moreover have "raw_ok fl p ?s" using ok(10) unfolding raw_ok_def sel .
  ultimately show ?thesis by (simp only: pipe_ok_def simp_thms)
qed

lemma fetch_step:
  assumes pipe: "pipe_ok fl p N d s" and room: "instr_queue_size s < INSTR_QUEUE_SIZE"
    and k: "fetch_index s < k" "k \<le> N" "kept fl p k"
      "\<And>m. fetch_index s < m \<Longrightarrow> m < k \<Longrightarrow> \<not> kept fl p m"
    and le: "stamps_le tom_dispatch_cycle c s"
    and t: "t = s\<lparr>fetch_index := k,
      instr_queue := (instr_queue s)[(instr_queue_head s + instr_queue_size s) mod INSTR_QUEUE_SIZE := Some k],
      instr_queue_size := instr_queue_size s + 1\<rparr>"
  shows "pipe_ok fl p N d (upd_insn k (\<lambda>n. n\<lparr>tom_dispatch_cycle := Suc c\<rparr>) t)"
    and "tom_dispatch_cycle (insn s k) = 0"
proof -
  let ?s = "upd_insn k (\<lambda>n. n\<lparr>tom_dispatch_cycle := Suc c\<rparr>) t"
  note ok = pipe_okD [OF pipe]
  have qe: "queue_ok fl p N d t" "shape t" using queue_enqueued [OF ok(3,2) room k t] by simp_all
  have disp: "tom_dispatch_cycle (insn s m) \<noteq> 0 \<longleftrightarrow> 1 \<le> m \<and> m \<le> min (fetch_index s) N \<and> kept fl p m"
    "tom_issue_cycle (insn s m) \<noteq> 0 \<Longrightarrow> tom_dispatch_cycle (insn s m) < tom_issue_cycle (insn s m)" for m
    using ok(6) unfolding dispatch_ok_def by blast+
  have ord: "m < m' \<Longrightarrow> tom_dispatch_cycle (insn s m) \<noteq> 0 \<Longrightarrow> tom_dispatch_cycle (insn s m') \<noteq> 0
      \<Longrightarrow> tom_dispatch_cycle (insn s m) < tom_dispatch_cycle (insn s m')" for m m'
    using ok(6) unfolding dispatch_ok_def by blast
  show k0: "tom_dispatch_cycle (insn s k) = 0" using disp(1) [of k] k(1) by (metis leD min.boundedE)
  have ki: "tom_issue_cycle (insn s k) = 0"
  proof -
    have "d \<le> fetch_index s" using ok(3) by (simp add: queue_ok_def)
    then have "\<not> issued fl p d k" using k(1) by (simp add: issued_def)
    then show ?thesis using ok(5) unfolding progress_ok_def by blast
  qed
  have sel: "fetch_index ?s = k" "instr_queue ?s = instr_queue t"
    "instr_queue_size ?s = instr_queue_size t" "instr_queue_head ?s = instr_queue_head t"
    "reservINT ?s = reservINT s" "reservFP ?s = reservFP s" "fuINT ?s = fuINT s" "fuFP ?s = fuFP s"
    "commonDataBus ?s = commonDataBus s" "map_table ?s = map_table s" by (simp_all add: t upd_insn_def)
  have ft: "fetch_index t = k" "reservINT t = reservINT s" "reservFP t = reservFP s" "fuINT t = fuINT s"
    "fuFP t = fuFP s" "map_table t = map_table s" by (simp_all add: t)
  have same: "tom_cdb_cycle (insn ?s j) = tom_cdb_cycle (insn s j)"
    "tom_execute_cycle (insn ?s j) = tom_execute_cycle (insn s j)"
    "tom_issue_cycle (insn ?s j) = tom_issue_cycle (insn s j)" "index (insn ?s j) = index (insn s j)"
    "r_in (insn ?s j) = r_in (insn s j)" "r_out (insn ?s j) = r_out (insn s j)"
    "opcode (insn ?s j) = opcode (insn s j)" "Q (insn ?s j) = Q (insn s j)"
    and dis: "tom_dispatch_cycle (insn ?s j) = (if j = k then Suc c else tom_dispatch_cycle (insn s j))" for j
    by (simp_all add: t upd_insn_def)
  have ret: "retired ?s = retired s" by (rule ext) (simp only: retired_def same sel)
  have st: "in_station ?s = in_station s" by (rule ext) (simp only: in_station_def sel)
  have ql: "queue_list fl p N d ?s = queue_list fl p N d t" by (simp only: queue_list_def sel ft)
  have "queue_ok fl p N d ?s" using qe(1) unfolding queue_ok_def sel ql ft .
  moreover have "same_code p ?s" using ok(1) unfolding same_code_def same .
  moreover have "shape ?s" using qe(2) unfolding shape_def sel ft .
  moreover have "units_ok fl p d ?s" using ok(4) unfolding units_ok_def sel same .
  moreover have "progress_ok fl p d ?s" using ok(5) unfolding progress_ok_def same st .
  moreover have "dispatch_ok fl p N ?s"
  proof -
    have lc: "tom_dispatch_cycle (insn s j) \<le> c" for j using le by (simp add: stamps_le_def)
    have 1: "tom_dispatch_cycle (insn ?s m) \<noteq> 0 \<longleftrightarrow> 1 \<le> m \<and> m \<le> min k N \<and> kept fl p m" for m
    proof (cases "m = k")
      case False
      have "m \<le> fetch_index s \<longleftrightarrow> m \<le> k" if "kept fl p m"
        using k(1) k(4) [of m] that False by (cases "fetch_index s < m") auto
      then show ?thesis using False disp(1) [of m] k(1,2) unfolding dis by auto
    qed (use k in \<open>auto simp: dis\<close>)
    have 2: "tom_issue_cycle (insn s m) \<noteq> 0 \<longrightarrow> tom_dispatch_cycle (insn ?s m) < tom_issue_cycle (insn s m)" for m
      using disp(2) [of m] ki unfolding dis by auto
    have 3: "tom_dispatch_cycle (insn ?s m) < tom_dispatch_cycle (insn ?s m')"
      if m: "m < m'" "tom_dispatch_cycle (insn ?s m) \<noteq> 0" "tom_dispatch_cycle (insn ?s m') \<noteq> 0" for m m'
    proof -
      have "m \<noteq> k" using m(1) m(3) 1 [of m'] k(2) by auto
      then show ?thesis using ord [of m m'] m lc [of m] unfolding dis by (auto simp: less_Suc_eq_le)
    qed
    have 4: "\<forall>i j. i < j \<and> tom_issue_cycle (insn s i) \<noteq> 0 \<and> tom_issue_cycle (insn s j) \<noteq> 0 \<longrightarrow>
        tom_issue_cycle (insn s i) < tom_issue_cycle (insn s j)"
      using ok(6) unfolding dispatch_ok_def by (elim conjE)
    show ?thesis
      unfolding dispatch_ok_def same sel by (intro conjI allI impI 1 2 3 4 [rule_format]) blast+
  qed
  moreover have "one_broadcast ?s" using ok(7) unfolding one_broadcast_def same .
  moreover have "map_ok fl p d ?s" using ok(8) unfolding map_ok_def sel ret .
  moreover have "Q_ok fl p ?s" using ok(9) unfolding Q_ok_def same ret .
  moreover have "raw_ok fl p ?s" using ok(10) unfolding raw_ok_def same .
  ultimately show "pipe_ok fl p N d ?s" by (simp only: pipe_ok_def simp_thms)
qed

lemma fetch_inv:
  assumes wf: "wf_program trace p N" and pipe: "pipe_ok fl p N d s" and le: "stamps_le tom_dispatch_cycle c s"
  shows "fetch_To_dispatch fl trace N (Suc c) s = Inl OutOfRange \<and> instr_queue_size s = 0 \<and> instr_queue_head s = 0
      \<and> (\<forall>m. fetch_index s < m \<and> m \<le> N \<longrightarrow> \<not> kept fl p m)
    \<or> (\<exists>s'. fetch_To_dispatch fl trace N (Suc c) s = Inr s' \<and> pipe_ok fl p N d s' \<and> commonDataBus s' = commonDataBus s
      \<and> (\<forall>j. (insn s' j)\<lparr>tom_dispatch_cycle := 0\<rparr> = (insn s j)\<lparr>tom_dispatch_cycle := 0\<rparr>
           \<and> (tom_dispatch_cycle (insn s' j) = tom_dispatch_cycle (insn s j) \<or> tom_dispatch_cycle (insn s' j) = Suc c)))"
proof -
  note ok = pipe_okD [OF pipe]
  have stay: "(case peek of None \<Rightarrow> Inr t | Some i \<Rightarrow> if tom_dispatch_cycle (insn t i) = 0
      then Inr (upd_insn i (\<lambda>n. n\<lparr>tom_dispatch_cycle := Suc c\<rparr>) t) else Inr t) = Inr t"
    if t: "pipe_ok fl p N d t" "instr_queue_peek_tail t = Inr peek" for t peek
  proof (cases peek)
    case (Some i)
    note tk = pipe_okD [OF t(1)]
    have ne: "instr_queue_size t \<noteq> 0" and i: "i = last (queue_list fl p N d t)"
      using peek_tail_eq [OF tk(3,2)] t(2) Some by (auto split: if_splits)
    then have "i \<in> set (queue_list fl p N d t)"
      using tk(3) by (auto simp: queue_ok_def intro!: last_in_set)
    then have "1 \<le> i \<and> i \<le> min (fetch_index t) N \<and> kept fl p i"
      by (auto simp: queue_list_def)
    then have "tom_dispatch_cycle (insn t i) \<noteq> 0"
      using tk(6) unfolding dispatch_ok_def by blast
    then show ?thesis using Some by simp
  qed simp
  show ?thesis
  proof (cases "instr_queue_is_full s")
    case True
    then have f: "fetch fl trace N s = Inr s" by (simp add: fetch_def)
    have "instr_queue_size s \<noteq> 0" using True by (simp add: instr_queue_is_full_def INSTR_QUEUE_SIZE_def)
    then obtain peek where pk: "instr_queue_peek_tail s = Inr peek"
      using peek_tail_eq [OF ok(3,2)] by auto
    have "fetch_To_dispatch fl trace N (Suc c) s = Inr s"
      by (simp add: fetch_To_dispatch_def f pk stay [OF pipe pk])
    then show ?thesis using pipe by auto
  next
    case False
    have room: "instr_queue_size s < INSTR_QUEUE_SIZE"
      using False ok(3) by (auto simp: instr_queue_is_full_def queue_ok_def)
    obtain x k where x: "fetch_loop fl trace N s = Inr (x, s\<lparr>fetch_index := k\<rparr>)" "fetch_index s < k"
      "\<forall>m. fetch_index s < m \<and> m < k \<and> m \<le> N \<longrightarrow> \<not> kept fl p m"
      "case x of None \<Rightarrow> N < k | Some i \<Rightarrow> i = k \<and> k \<le> N \<and> kept fl p k"
      using fetch_loop_eq [OF wf ok(1)] by blast
    show ?thesis
    proof (cases x)
      case None
      let ?t = "s\<lparr>fetch_index := k\<rparr>"
      have f: "fetch fl trace N s = Inr ?t" using False x(1) None by (simp add: fetch_def)
      have pt: "pipe_ok fl p N d ?t" by (rule fetch_end [OF pipe x(2)]) (use x(3,4) None in auto)
      show ?thesis
      proof (cases "instr_queue_peek_tail ?t")
        case (Inl e)
        then have "e = OutOfRange \<and> instr_queue_size s = 0 \<and> instr_queue_head s = 0"
          using peek_tail_eq [OF pipe_okD(3,2) [OF pt]] by (auto split: if_splits)
        moreover have "fetch_To_dispatch fl trace N (Suc c) s = Inl e"
          by (simp add: fetch_To_dispatch_def f Inl)
        moreover have "\<forall>m. fetch_index s < m \<and> m \<le> N \<longrightarrow> \<not> kept fl p m"
          using x(3,4) None by auto
        ultimately show ?thesis by auto
      next
        case (Inr peek)
        have "fetch_To_dispatch fl trace N (Suc c) s = Inr ?t"
          unfolding fetch_To_dispatch_def f res_bind_simps Inr by (rule stay [OF pt Inr])
        then show ?thesis using pt by auto
      qed
    next
      case (Some i)
      let ?t = "s\<lparr>fetch_index := k,
        instr_queue := (instr_queue s)[(instr_queue_head s + instr_queue_size s) mod INSTR_QUEUE_SIZE := Some k],
        instr_queue_size := instr_queue_size s + 1\<rparr>"
      have k: "i = k" "k \<le> N" "kept fl p k" "\<And>m. fetch_index s < m \<Longrightarrow> m < k \<Longrightarrow> \<not> kept fl p m"
        using x(3,4) Some by auto
      note fs = fetch_step [OF pipe room x(2) k(2,3,4) le refl]
      note qe = queue_enqueued [OF ok(3,2) room x(2) k(2,3,4) refl]
      have "shape (s\<lparr>fetch_index := k\<rparr>)" using ok(2) by (simp add: shape_def)
      then have f: "fetch fl trace N s = Inr ?t"
        using False x(1) Some k(1) room enqueue_eq [of "s\<lparr>fetch_index := k\<rparr>" k] by (simp add: fetch_def)
      have pk: "instr_queue_peek_tail ?t = Inr (Some k)"
        using peek_tail_eq [OF qe(2,3)] qe(1) by simp
      have "fetch_To_dispatch fl trace N (Suc c) s = Inr (upd_insn k (\<lambda>n. n\<lparr>tom_dispatch_cycle := Suc c\<rparr>) ?t)"
        unfolding fetch_To_dispatch_def f res_bind_simps pk option.case using fs(2) by simp
      then show ?thesis
        using fs(1) by (intro disjI2 exI [of _ "upd_insn k (\<lambda>n. n\<lparr>tom_dispatch_cycle := Suc c\<rparr>) ?t"] conjI)
          (simp_all add: upd_insn_def)
    qed
  qed
qed

section \<open>Whole cycles\<close>

lemma stamps_le_same: "\<lbrakk>stamps_le f c s; \<And>j. f (insn t j) = f (insn s j)\<rbrakk> \<Longrightarrow> stamps_le f c t"
  by (simp add: stamps_le_def)

lemma stamps_le_step:
  "\<lbrakk>stamps_le f c s; \<And>j. f (insn t j) = f (insn s j) \<or> f (insn t j) = Suc c\<rbrakk> \<Longrightarrow> stamps_le f (Suc c) t"
  unfolding stamps_le_def by (metis le_Suc_eq)

lemma stamps_le_Suc: "stamps_le f c s \<Longrightarrow> stamps_le f (Suc c) s"
  by (simp add: stamps_le_def le_SucI)

lemma instr_upd_eqD:
  "a\<lparr>tom_cdb_cycle := 0\<rparr> = b\<lparr>tom_cdb_cycle := 0\<rparr> \<Longrightarrow> tom_dispatch_cycle a = tom_dispatch_cycle b
     \<and> tom_issue_cycle a = tom_issue_cycle b \<and> tom_execute_cycle a = tom_execute_cycle b"
  "a\<lparr>tom_execute_cycle := 0\<rparr> = b\<lparr>tom_execute_cycle := 0\<rparr> \<Longrightarrow> tom_dispatch_cycle a = tom_dispatch_cycle b
     \<and> tom_issue_cycle a = tom_issue_cycle b \<and> tom_cdb_cycle a = tom_cdb_cycle b"
  "a\<lparr>tom_dispatch_cycle := 0\<rparr> = b\<lparr>tom_dispatch_cycle := 0\<rparr> \<Longrightarrow> tom_execute_cycle a = tom_execute_cycle b
     \<and> tom_issue_cycle a = tom_issue_cycle b \<and> tom_cdb_cycle a = tom_cdb_cycle b"
  by (cases a; cases b; simp)+

lemma bus_ok_same:
  "\<lbrakk>bus_ok c s; commonDataBus t = commonDataBus s; \<And>j. tom_cdb_cycle (insn t j) = tom_cdb_cycle (insn s j)\<rbrakk>
    \<Longrightarrow> bus_ok c t"
  by (simp add: bus_ok_def)

text \<open>A cycle keeps the invariant, or stops at the read in front of the instruction queue.\<close>

theorem cycle_inv:
  assumes wf: "wf_program trace p N" and inv: "tom_inv fl p N c d s"
  shows "(cycle_step fl trace N (Suc c) s = Inl OutOfRange \<and> kept_upto fl p N mod INSTR_QUEUE_SIZE = 0)
    \<or> (\<exists>s' d'. cycle_step fl trace N (Suc c) s = Inr s' \<and> tom_inv fl p N (Suc c) d' s')"
proof -
  let ?s1 = "CDB_To_retire s"
  have r: "pipe_ok fl p N d ?s1" "commonDataBus ?s1 = None" "stamps_le tom_dispatch_cycle c ?s1"
    "stamps_le tom_issue_cycle c ?s1" "stamps_le tom_execute_cycle c ?s1" "stamps_le tom_cdb_cycle c ?s1"
    using retire_inv [OF wf inv] by auto
  obtain s2 where s2: "execute_To_CDB fl (Suc c) ?s1 = Inr s2" "pipe_ok fl p N d s2" "bus_ok (Suc c) s2"
    "stamps_le tom_cdb_cycle (Suc c) s2"
    "\<And>i. (insn s2 i)\<lparr>tom_cdb_cycle := 0\<rparr> = (insn ?s1 i)\<lparr>tom_cdb_cycle := 0\<rparr>"
    using cdb_inv [OF r(1,2,6)] by blast
  note e2 = instr_upd_eqD(1) [OF s2(5)]
  have le2: "stamps_le tom_dispatch_cycle c s2" "stamps_le tom_issue_cycle c s2" "stamps_le tom_execute_cycle c s2"
    using stamps_le_same [OF r(3), of s2] stamps_le_same [OF r(4), of s2] stamps_le_same [OF r(5), of s2] e2 by auto
  let ?s3 = "issue_To_execute (Suc c) s2"
  note x = execute_inv [OF wf s2(2,3,4) le2(2)]
  note e3 = instr_upd_eqD(2) [OF x(3)]
  have le3: "stamps_le tom_dispatch_cycle c ?s3" "stamps_le tom_issue_cycle c ?s3" "stamps_le tom_cdb_cycle (Suc c) ?s3"
    using stamps_le_same [OF le2(1), of ?s3] stamps_le_same [OF le2(2), of ?s3] stamps_le_same [OF s2(4), of ?s3] e3 by auto
  have le3x: "stamps_le tom_execute_cycle (Suc c) ?s3" using stamps_le_step [OF le2(3), of ?s3] x(4) by auto
  have b3: "bus_ok (Suc c) ?s3" using bus_ok_same [OF s2(3), of ?s3] x(2) e3 by auto
  obtain s4 d4 where s4: "dispatch_To_issue fl (Suc c) ?s3 = Inr s4" "pipe_ok fl p N d4 s4"
    "commonDataBus s4 = commonDataBus ?s3"
    "\<And>j. tom_dispatch_cycle (insn s4 j) = tom_dispatch_cycle (insn ?s3 j)"
    "\<And>j. tom_execute_cycle (insn s4 j) = tom_execute_cycle (insn ?s3 j)"
    "\<And>j. tom_cdb_cycle (insn s4 j) = tom_cdb_cycle (insn ?s3 j)"
    "\<And>j. tom_issue_cycle (insn s4 j) = tom_issue_cycle (insn ?s3 j) \<or> tom_issue_cycle (insn s4 j) = Suc c"
    using dispatch_inv [OF wf x(1) le3(1,2)] by blast
  have le4: "stamps_le tom_dispatch_cycle c s4" "stamps_le tom_cdb_cycle (Suc c) s4" "stamps_le tom_execute_cycle (Suc c) s4"
    using stamps_le_same [OF le3(1) s4(4)] stamps_le_same [OF le3(3) s4(6)] stamps_le_same [OF le3x s4(5)] by auto
  have le4i: "stamps_le tom_issue_cycle (Suc c) s4" using stamps_le_step [OF le3(2) s4(7)] .
  have b4: "bus_ok (Suc c) s4" by (rule bus_ok_same [OF b3 s4(3,6)])
  have eq: "cycle_step fl trace N (Suc c) s = fetch_To_dispatch fl trace N (Suc c) s4"
    by (simp add: cycle_step_def s2(1) s4(1))
  from fetch_inv [OF wf s4(2) le4(1)] show ?thesis
  proof (elim disjE exE conjE)
    fix s5
    assume s5: "fetch_To_dispatch fl trace N (Suc c) s4 = Inr s5" "pipe_ok fl p N d4 s5"
      "commonDataBus s5 = commonDataBus s4"
      "\<forall>j. (insn s5 j)\<lparr>tom_dispatch_cycle := 0\<rparr> = (insn s4 j)\<lparr>tom_dispatch_cycle := 0\<rparr>
         \<and> (tom_dispatch_cycle (insn s5 j) = tom_dispatch_cycle (insn s4 j) \<or> tom_dispatch_cycle (insn s5 j) = Suc c)"
    have e5: "tom_execute_cycle (insn s5 j) = tom_execute_cycle (insn s4 j)"
      "tom_issue_cycle (insn s5 j) = tom_issue_cycle (insn s4 j)"
      "tom_cdb_cycle (insn s5 j) = tom_cdb_cycle (insn s4 j)"
      "tom_dispatch_cycle (insn s5 j) = tom_dispatch_cycle (insn s4 j) \<or> tom_dispatch_cycle (insn s5 j) = Suc c" for j
      using instr_upd_eqD(3) [of "insn s5 j" "insn s4 j"] s5(4) by auto
    have "tom_inv fl p N (Suc c) d4 s5"
      unfolding tom_inv_def
      by (intro conjI s5(2) bus_ok_same [OF b4 s5(3) e5(3)] stamps_le_step [OF le4(1) e5(4)]
          stamps_le_same [OF le4i e5(2)] stamps_le_same [OF le4(3) e5(1)] stamps_le_same [OF le4(2) e5(3)])
    then have "\<exists>d'. tom_inv fl p N (Suc c) d' s5" by (rule exI)
    with s5(1) show ?thesis unfolding eq by simp
  next
    assume err: "fetch_To_dispatch fl trace N (Suc c) s4 = Inl OutOfRange" "instr_queue_size s4 = 0"
      "instr_queue_head s4 = 0" "\<forall>m. fetch_index s4 < m \<and> m \<le> N \<longrightarrow> \<not> kept fl p m"
    have q: "d4 \<le> N" "queue_list fl p N d4 s4 = []" "kept_upto fl p d4 mod INSTR_QUEUE_SIZE = 0"
      using pipe_okD(3) [OF s4(2)] err(2,3) by (auto simp: queue_ok_def)
    have none: "\<not> kept fl p m" if "d4 < m" "m \<le> N" for m
    proof (cases "m \<le> fetch_index s4")
      case True
      have "m \<notin> set (queue_list fl p N d4 s4)" by (simp add: q(2))
      then show ?thesis using True that by (auto simp: queue_list_def simp del: upt_Suc)
    qed (use err(4) that in auto)
    have "[1..<Suc N] = [1..<Suc d4] @ [Suc d4..<Suc N]"
      using q(1) upt_add_eq_append [of 1 "Suc d4" "N - d4"] by simp
    moreover have "filter (kept fl p) [Suc d4..<Suc N] = []" using none by (intro filter_False) auto
    ultimately have "kept_upto fl p N = kept_upto fl p d4" by (simp add: kept_upto_def)
    then show ?thesis using eq err(1) q(3) by simp
  qed
qed

text \<open>The start of the simulation.\<close>

lemma init_inv:
  assumes wf: "wf_program trace (trace_insn trace) N"
  shows "tom_inv fl (trace_insn trace) N 0 0 (init_tomasulo trace)"
proof -
  let ?p = "trace_insn trace" and ?s = "init_tomasulo trace"
  have fr: "fresh_instr (?p i)" for i using wf by (simp add: wf_program_def)
  have ins: "insn ?s = ?p" by (simp add: init_tomasulo_def)
  have zero: "tom_dispatch_cycle (insn ?s i) = 0" "tom_issue_cycle (insn ?s i) = 0"
    "tom_execute_cycle (insn ?s i) = 0" "tom_cdb_cycle (insn ?s i) = 0" "Q (insn ?s i) = [None, None, None]" for i
    using fr [of i] by (auto simp: ins fresh_instr_def)
  have sel: "elems (reservINT ?s) = []" "elems (reservFP ?s) = []" "elems (fuINT ?s) = []" "elems (fuFP ?s) = []"
    "fetch_index ?s = 0" "commonDataBus ?s = None" "map_table ?s = replicate MD_TOTAL_REGS None"
    by (simp_all add: init_tomasulo_def)
  have "queue_ok fl ?p N 0 ?s"
    by (simp add: queue_ok_def init_tomasulo_def queue_list_def kept_upto_def INSTR_QUEUE_SIZE_def)
  moreover have "shape ?s" by (simp add: shape_def init_tomasulo_def INSTR_QUEUE_SIZE_def)
  moreover have "same_code ?p ?s" by (simp add: same_code_def ins)
  moreover have "units_ok fl ?p 0 ?s" by (simp add: units_ok_def sel)
  moreover have "progress_ok fl ?p 0 ?s" by (simp add: progress_ok_def zero issued_def)
  moreover have "dispatch_ok fl ?p N ?s" by (simp add: dispatch_ok_def zero sel)
  moreover have "one_broadcast ?s" by (simp add: one_broadcast_def zero)
  moreover have "map_ok fl ?p 0 ?s" by (auto simp: map_ok_def sel producer_def)
  moreover have "Q_ok fl ?p ?s" by (auto simp: Q_ok_def zero MAX_INPUT_REGS_def less_Suc_eq numeral_3_eq_3)
  moreover have "raw_ok fl ?p ?s" by (simp add: raw_ok_def zero)
  ultimately show ?thesis
    by (simp add: tom_inv_def pipe_ok_def bus_ok_def sel stamps_le_def zero)
qed

end
