(* ===== verification/Tomasulo_Live.thy ===== *)
theory Tomasulo_Live
  imports Tomasulo_Laws
begin

text \<open>
  Termination of the Tomasulo simulator: a measure of the work left that every cycle lowers unless
  the functional units are still busy, the bound on the time they are busy, and from both the
  result that the simulation ends.
\<close>


section \<open>Progress\<close>

text \<open>
  The work left: every move of an instruction to a later stage lowers it.  An instruction counts
  5 before it is fetched, 4 in the queue, 3 in a station, 2 in a unit and 1 on the bus.
\<close>

definition work_left :: "nat \<Rightarrow> tomasulo \<Rightarrow> nat" where
  "work_left N s = 5 * (Suc N - fetch_index s) + 4 * instr_queue_size s
     + (3 * (length (elems (reservINT s)) + length (elems (reservFP s)))
        - (length (elems (fuINT s)) + length (elems (fuFP s))))
     + (if commonDataBus s = None then 0 else 1)"

lemma length_elems_card: "distinct (elems xs) \<Longrightarrow> length (elems xs) = card (set (elems xs))"
  by (simp add: distinct_card)

lemma units_le:
  assumes "units_ok fl p d s"
  shows "length (elems (fuINT s)) \<le> length (elems (reservINT s))"
    "length (elems (fuFP s)) \<le> length (elems (reservFP s))"
  using assms by (auto simp: units_ok_def length_elems_card intro!: card_mono)

lemma retire_work:
  assumes "wf_program trace p N" "tom_inv fl p N c d s"
  shows "commonDataBus s \<noteq> None \<Longrightarrow> work_left N (CDB_To_retire s) < work_left N s"
    and "commonDataBus s = None \<Longrightarrow> CDB_To_retire s = s"
proof -
  assume "commonDataBus s \<noteq> None"
  then obtain b where b: "commonDataBus s = Some b" by auto
  show "work_left N (CDB_To_retire s) < work_left N s"
    unfolding retire_eq [OF assms b] by (simp add: work_left_def b)
qed (simp add: CDB_To_retire_def)

lemma sweep_work:
  assumes "pipe_ok fl p N d s"
  shows "(\<exists>i. store_done fl c s i) \<Longrightarrow> work_left N (sweep fl c s) < work_left N s"
    and "\<not> (\<exists>i. store_done fl c s i) \<Longrightarrow> work_left N (sweep fl c s) = work_left N s
       \<and> elems (fuINT (sweep fl c s)) = elems (fuINT s)
       \<and> set (elems (reservINT (sweep fl c s))) = set (elems (reservINT s))"
proof -
  note ok = pipe_okD(4) [OF assms] and ok' = pipe_okD(4) [OF sweep_inv [OF assms, of c]]
  have d: "distinct (elems (reservINT s))" "distinct (elems (fuINT s))" using ok by (auto simp: units_ok_def)
  let ?S = "{i. store_done fl c s i}"
  note sw = sweep_fu [of fl c s] sweep_reserv [OF d(1), of fl c]
  have S: "?S \<subseteq> set (elems (fuINT s))" "?S \<subseteq> set (elems (reservINT s))"
    using ok by (auto simp: store_done_def units_ok_def)
  have fin: "finite ?S" using S(1) finite_subset by blast
  have f: "length (elems (fuINT (sweep fl c s))) = length (elems (fuINT s)) - card ?S"
    and cf: "card ?S \<le> length (elems (fuINT s))"
  proof -
    have e: "set (elems (fuINT (sweep fl c s))) = set (elems (fuINT s)) - ?S" by (auto simp: sw)
    have "distinct (elems (fuINT (sweep fl c s)))" using ok' by (simp add: units_ok_def)
    then show "length (elems (fuINT (sweep fl c s))) = length (elems (fuINT s)) - card ?S"
      using d(2) by (simp add: length_elems_card e card_Diff_subset [OF fin S(1)])
    show "card ?S \<le> length (elems (fuINT s))" using S(1) d(2) by (simp add: length_elems_card card_mono)
  qed
  have r: "length (elems (reservINT (sweep fl c s))) = length (elems (reservINT s)) - card ?S"
    and cr: "card ?S \<le> length (elems (reservINT s))"
  proof -
    have e: "set (elems (reservINT (sweep fl c s))) = set (elems (reservINT s)) - ?S" by (auto simp: sw)
    then show "length (elems (reservINT (sweep fl c s))) = length (elems (reservINT s)) - card ?S"
      using d(1) sw(3) by (simp only: length_elems_card card_Diff_subset [OF fin S(2)])
    show "card ?S \<le> length (elems (reservINT s))" using S(2) d(1) by (simp add: length_elems_card card_mono)
  qed
  note le = units_le [OF ok]
  show "(\<exists>i. store_done fl c s i) \<Longrightarrow> work_left N (sweep fl c s) < work_left N s"
  proof -
    assume "\<exists>i. store_done fl c s i"
    then have "card ?S > 0" using fin by (auto simp: card_gt_0_iff)
    then show ?thesis using f r cf cr le by (simp add: work_left_def)
  qed
  show "\<not> (\<exists>i. store_done fl c s i) \<Longrightarrow> work_left N (sweep fl c s) = work_left N s
       \<and> elems (fuINT (sweep fl c s)) = elems (fuINT s)
       \<and> set (elems (reservINT (sweep fl c s))) = set (elems (reservINT s))"
    using f r sw by (simp add: work_left_def)
qed

lemma broadcast_work:
  assumes "pipe_ok fl p N d s" "commonDataBus s = None" "i \<in> set (elems (fuINT s)) \<union> set (elems (fuFP s))"
  shows "work_left N (broadcast i c s) < work_left N s"
proof -
  note ok = pipe_okD(4) [OF assms(1)]
  note le = units_le [OF ok]
  have d: "distinct (elems (fuINT s))" "distinct (elems (fuFP s))" "distinct (elems (reservINT s))" "distinct (elems (reservFP s))"
    and sub: "set (elems (fuINT s)) \<subseteq> set (elems (reservINT s))" "set (elems (fuFP s)) \<subseteq> set (elems (reservFP s))"
    and dis: "set (elems (reservINT s)) \<inter> set (elems (reservFP s)) = {}"
    using ok by (auto simp: units_ok_def)
  have rem: "length (remove1 i xs) = (if i \<in> set xs then length xs - 1 else length xs)" for xs
    by (simp add: length_remove1)
  have pos: "\<exists>n. length xs = Suc n" if "i \<in> set xs" for xs :: "iptr list" using that by (cases xs) auto
  show ?thesis
  proof (cases "i \<in> set (elems (fuINT s))")
    case True
    then have "i \<in> set (elems (reservINT s))" "i \<notin> set (elems (fuFP s))" "i \<notin> set (elems (reservFP s))"
      using sub dis by auto
    moreover obtain m n where "length (elems (fuINT s)) = Suc m" "length (elems (reservINT s)) = Suc n"
      using pos True calculation(1) by blast
    ultimately show ?thesis
      using True assms(2) le by (simp add: work_left_def elems_remove rem)
  next
    case False
    then have F: "i \<in> set (elems (fuFP s))" using assms(3) by simp
    then have "i \<in> set (elems (reservFP s))" "i \<notin> set (elems (reservINT s))"
      using sub dis by auto
    moreover obtain m n where "length (elems (fuFP s)) = Suc m" "length (elems (reservFP s)) = Suc n"
      using pos F calculation(1) by blast
    ultimately show ?thesis
      using F False assms(2) le by (simp add: work_left_def elems_remove rem)
  qed
qed

lemma execute_work:
  assumes pipe: "pipe_ok fl p N d s"
  shows "work_left N (issue_To_execute c s) < work_left N s \<or>
    (work_left N (issue_To_execute c s) = work_left N s
     \<and> insn (issue_To_execute c s) = insn s
     \<and> set (elems (fuINT (issue_To_execute c s))) = set (elems (fuINT s))
     \<and> set (elems (fuFP (issue_To_execute c s))) = set (elems (fuFP s))
     \<and> (insn_array_is_full (fuINT s) \<or>
          insn_array_get_oldest_ready_for_execute s (remove_executing (fuINT s) (reservINT s)) = None)
     \<and> (insn_array_is_full (fuFP s) \<or>
          insn_array_get_oldest_ready_for_execute s (remove_executing (fuFP s) (reservFP s)) = None))"
    "reservINT (issue_To_execute c s) = reservINT s" "reservFP (issue_To_execute c s) = reservFP s"
    "fetch_index (issue_To_execute c s) = fetch_index s"
    "instr_queue_size (issue_To_execute c s) = instr_queue_size s"
proof -
  note ok = pipe_okD(4) [OF pipe]
  from issue_To_execute_eq [OF ok, of c]
  obtain X Y f g where X: "X \<subseteq> {i \<in> set (elems (reservINT s)). i \<notin> set (elems (fuINT s)) \<and> elems (Q (insn s i)) = []}"
    and Y: "Y \<subseteq> {i \<in> set (elems (reservFP s)). i \<notin> set (elems (fuFP s)) \<and> elems (Q (insn s i)) = []}"
    and eq: "issue_To_execute c s = (start (X \<union> Y) c s)\<lparr>fuINT := f, fuFP := g\<rparr>"
    and f: "set (elems f) = set (elems (fuINT s)) \<union> X" "distinct (elems f)"
    and g: "set (elems g) = set (elems (fuFP s)) \<union> Y" "distinct (elems g)"
    and x: "X = {} \<longrightarrow> insn_array_is_full (fuINT s) \<or>
          insn_array_get_oldest_ready_for_execute s (remove_executing (fuINT s) (reservINT s)) = None"
      "X = {} \<and> Y = {} \<longrightarrow> insn_array_is_full (fuFP s) \<or>
          insn_array_get_oldest_ready_for_execute s (remove_executing (fuFP s) (reservFP s)) = None"
    by (elim exE conjE) (rule that)
  show "reservINT (issue_To_execute c s) = reservINT s" "reservFP (issue_To_execute c s) = reservFP s"
    "fetch_index (issue_To_execute c s) = fetch_index s"
    "instr_queue_size (issue_To_execute c s) = instr_queue_size s"
    by (simp_all add: eq)
  have d: "distinct (elems (fuINT s))" "distinct (elems (fuFP s))" "distinct (elems (reservINT s))" "distinct (elems (reservFP s))"
    and sub: "set (elems f) \<subseteq> set (elems (reservINT s))" "set (elems g) \<subseteq> set (elems (reservFP s))"
    using ok X Y f g by (auto simp: units_ok_def)
  have fin: "finite X" "finite Y" using X Y finite_subset [of _ "set _"] by (metis (no_types, lifting) List.finite_set finite_subset mem_Collect_eq subsetI)+
  have len: "length (elems f) = length (elems (fuINT s)) + card X" "length (elems g) = length (elems (fuFP s)) + card Y"
    using X Y f g d fin by (auto simp: length_elems_card intro!: card_Un_disjoint)
  have le: "length (elems f) \<le> length (elems (reservINT s))" "length (elems g) \<le> length (elems (reservFP s))"
    using sub d f(2) g(2) by (auto simp: length_elems_card intro!: card_mono)
  show "work_left N (issue_To_execute c s) < work_left N s \<or>
    (work_left N (issue_To_execute c s) = work_left N s
     \<and> insn (issue_To_execute c s) = insn s
     \<and> set (elems (fuINT (issue_To_execute c s))) = set (elems (fuINT s))
     \<and> set (elems (fuFP (issue_To_execute c s))) = set (elems (fuFP s))
     \<and> (insn_array_is_full (fuINT s) \<or>
          insn_array_get_oldest_ready_for_execute s (remove_executing (fuINT s) (reservINT s)) = None)
     \<and> (insn_array_is_full (fuFP s) \<or>
          insn_array_get_oldest_ready_for_execute s (remove_executing (fuFP s) (reservFP s)) = None))"
  proof (cases "X = {} \<and> Y = {}")
    case True
    then have "issue_To_execute c s = s\<lparr>fuINT := f, fuFP := g\<rparr>" by (simp add: eq)
    then show ?thesis using True f g x len by (intro disjI2) (simp add: work_left_def)
  next
    case False
    then have "0 < card X + card Y" using fin by (auto simp: card_gt_0_iff)
    let ?R = "3 * (length (elems (reservINT s)) + length (elems (reservFP s)))"
    have "?R - (length (elems f) + length (elems g)) < ?R - (length (elems (fuINT s)) + length (elems (fuFP s)))"
      by (rule diff_less_mono2) (use \<open>0 < card X + card Y\<close> len le in auto)
    then show ?thesis by (intro disjI1) (simp add: work_left_def eq)
  qed
qed

lemma set_inputs_frame:
  "set_inputs i k rs s = Inr t \<Longrightarrow> reservINT t = reservINT s \<and> reservFP t = reservFP s \<and> fuINT t = fuINT s
     \<and> fuFP t = fuFP s \<and> commonDataBus t = commonDataBus s \<and> fetch_index t = fetch_index s
     \<and> instr_queue_size t = instr_queue_size s"
  by (induction i k rs s rule: set_inputs.induct)
    (auto simp: res_bind_eq_Inr upd_insn_def split: if_splits option.splits)

lemma set_outputs_frame:
  "set_outputs i rs s = Inr t \<Longrightarrow> reservINT t = reservINT s \<and> reservFP t = reservFP s \<and> fuINT t = fuINT s
     \<and> fuFP t = fuFP s \<and> commonDataBus t = commonDataBus s \<and> fetch_index t = fetch_index s
     \<and> instr_queue_size t = instr_queue_size s"
  by (induction i rs s rule: set_outputs.induct)
    (auto simp: res_bind_eq_Inr split: if_splits)

lemma issue_insn_frame:
  "issue_insn i c s = Inr t \<Longrightarrow> reservINT t = reservINT s \<and> reservFP t = reservFP s \<and> fuINT t = fuINT s
     \<and> fuFP t = fuFP s \<and> commonDataBus t = commonDataBus s \<and> fetch_index t = fetch_index s
     \<and> instr_queue_size t = instr_queue_size s"
  by (auto simp: issue_insn_def Let_def res_bind_eq_Inr upd_insn_def
      dest!: set_inputs_frame set_outputs_frame)

text \<open>Every instruction that enters the queue is a branch or has a functional unit.\<close>

definition all_served :: "op_flags \<Rightarrow> program \<Rightarrow> nat \<Rightarrow> bool" where
  "all_served fl p N \<longleftrightarrow> (\<forall>i. 1 \<le> i \<and> i \<le> N \<and> kept fl p i \<longrightarrow> branch fl p i \<or> works fl p i)"

lemma dispatch_work:
  assumes pipe: "pipe_ok fl p N d s" and served: "all_served fl p N"
    and eq: "dispatch_To_issue fl c s = Inr t"
  shows "work_left N t < work_left N s \<or> t = s \<and>
    (instr_queue_size s = 0 \<or> insn_array_is_full (reservINT s) \<or> insn_array_is_full (reservFP s))"
proof (cases "instr_queue_size s = 0")
  case True
  then show ?thesis using eq by (simp add: dispatch_To_issue_def instr_queue_is_empty_def)
next
  case False
  note ok = pipe_okD [OF pipe]
  obtain i where i: "instr_queue_peek s = Inr (Some i)" "instr_queue s ! instr_queue_head s = Some i"
    "queue_list fl p N d s = i # queue_list fl p N i s" "d < i" "i \<le> min (fetch_index s) N" "kept fl p i"
    using queue_head [OF ok(3,2) False] by blast
  have op: "opcode (insn s i) = opcode (p i)" using ok(1) by (simp add: same_code_def)
  have deq: "instr_queue_dequeue s = Inr (Some i, dequeued s)" using dequeue_eq [OF ok(2) False] i(2) by simp
  have sv: "branch fl p i \<or> uses_int fl p i \<or> USES_FP_FU fl (opcode (p i))"
  proof -
    have "1 \<le> i \<and> i \<le> N \<and> kept fl p i" using i(4-6) by simp
    then show ?thesis using served unfolding all_served_def works_def by blast
  qed
  note le = units_le [OF ok(4)]
  note D = dispatch_To_issue_def instr_queue_is_empty_def op branch_def uses_int_def Let_def deq i(1)
  have ins: "length (elems (insn_array_insert_insn i xs)) = Suc (length (elems xs))" if "\<not> insn_array_is_full xs" for xs
    using that by (simp add: elems_insert)
  obtain q where q: "instr_queue_size s = Suc q" using False not0_implies_Suc by auto
  let ?f = "length (elems (fuINT s)) + length (elems (fuFP s))"
  define z where "z = 3 * (length (elems (reservINT s)) + length (elems (reservFP s))) - ?f"
  have more: "3 * (Suc (length (elems (reservINT s))) + length (elems (reservFP s))) - ?f = 3 + z"
    "3 * (length (elems (reservINT s)) + Suc (length (elems (reservFP s)))) - ?f = 3 + z"
    using le by (simp_all add: z_def)
  note ws = work_left_def [of N s, folded z_def]
  consider (branch) "t = dequeued s"
    | (int) "\<not> insn_array_is_full (reservINT s)"
        "issue_insn i c ((dequeued s)\<lparr>reservINT := insn_array_insert_insn i (reservINT s)\<rparr>) = Inr t"
    | (fp) "\<not> insn_array_is_full (reservFP s)"
        "issue_insn i c ((dequeued s)\<lparr>reservFP := insn_array_insert_insn i (reservFP s)\<rparr>) = Inr t"
    | (stall) "t = s" "insn_array_is_full (reservINT s) \<or> insn_array_is_full (reservFP s)"
    using eq False sv by (simp add: D cong: if_cong split: if_splits)
  then show ?thesis
  proof cases
    case branch
    then show ?thesis using False by (simp add: work_left_def)
  next
    case int
    have "work_left N t = 5 * (Suc N - fetch_index s) + 4 * q + (3 + z) + (if commonDataBus s = None then 0 else 1)"
      using issue_insn_frame [OF int(2)] by (simp only: work_left_def) (simp add: ins [OF int(1)] more [simplified] q)
    then show ?thesis unfolding ws q by simp
  next
    case fp
    have "work_left N t = 5 * (Suc N - fetch_index s) + 4 * q + (3 + z) + (if commonDataBus s = None then 0 else 1)"
      using issue_insn_frame [OF fp(2)] by (simp only: work_left_def) (simp add: ins [OF fp(1)] more [simplified] q)
    then show ?thesis unfolding ws q by simp
  qed simp
qed

lemma fetch_work:
  assumes wf: "wf_program trace p N" and pipe: "pipe_ok fl p N d s"
    and eq: "fetch_To_dispatch fl trace N c s = Inr t"
  shows "(work_left N t < work_left N s \<or> work_left N t = work_left N s
       \<and> (instr_queue_is_full s \<or> N < fetch_index t))
    \<and> reservINT t = reservINT s \<and> reservFP t = reservFP s \<and> fuINT t = fuINT s \<and> fuFP t = fuFP s
    \<and> commonDataBus t = commonDataBus s \<and> (\<forall>i. tom_execute_cycle (insn t i) = tom_execute_cycle (insn s i)
      \<and> opcode (insn t i) = opcode (insn s i))"
proof -
  note ok = pipe_okD [OF pipe]
  obtain s1 where s1: "fetch fl trace N s = Inr s1"
    using eq by (auto simp: fetch_To_dispatch_def res_bind_eq_Inr)
  obtain peek where pk: "instr_queue_peek_tail s1 = Inr peek"
    using eq s1 by (auto simp: fetch_To_dispatch_def res_bind_eq_Inr)
  have t: "t = s1 \<or> (\<exists>i. t = upd_insn i (\<lambda>n. n\<lparr>tom_dispatch_cycle := c\<rparr>) s1)"
    using eq s1 pk by (cases peek) (auto simp: fetch_To_dispatch_def split: if_splits)
  have wt: "work_left N t = work_left N s1" "fetch_index t = fetch_index s1" "reservINT t = reservINT s1"
    "reservFP t = reservFP s1" "fuINT t = fuINT s1" "fuFP t = fuFP s1" "commonDataBus t = commonDataBus s1"
    "tom_execute_cycle (insn t i) = tom_execute_cycle (insn s1 i)" "opcode (insn t i) = opcode (insn s1 i)" for i
    using t by (auto simp: upd_insn_def work_left_def)
  show ?thesis
  proof (cases "instr_queue_is_full s")
    case True
    then show ?thesis using s1 by (simp add: wt fetch_def)
  next
    case False
    obtain x k where x: "fetch_loop fl trace N s = Inr (x, s\<lparr>fetch_index := k\<rparr>)" "fetch_index s < k"
      "case x of None \<Rightarrow> N < k | Some i \<Rightarrow> i = k \<and> k \<le> N \<and> kept fl p k"
      using fetch_loop_eq [OF wf ok(1)] by blast
    show ?thesis
    proof (cases x)
      case None
      have "s1 = s\<lparr>fetch_index := k\<rparr>" using s1 x(1) None False by (simp add: fetch_def)
      moreover from this have "work_left N s1 < work_left N s \<or> work_left N s1 = work_left N s"
        using x(2,3) None by (auto simp: work_left_def)
      ultimately show ?thesis using x(3) None by (auto simp: wt)
    next
      case (Some i)
      then have "instr_queue_enqueue i (s\<lparr>fetch_index := k\<rparr>) = Inr s1" using s1 x(1) False by (simp add: fetch_def)
      then have "work_left N s1 < work_left N s" "reservINT s1 = reservINT s" "reservFP s1 = reservFP s"
        "fuINT s1 = fuINT s" "fuFP s1 = fuFP s" "commonDataBus s1 = commonDataBus s" "insn s1 = insn s"
        using x(2,3) Some
        by (auto simp: instr_queue_enqueue_def Let_def res_simps work_left_def)
      then show ?thesis by (simp add: wt)
    qed
  qed
qed

lemma oldest_loop_SomeI:
  assumes "i \<in> set (elems xs)" "ok i" "index (f i) < n"
  shows "\<exists>j. oldest_loop ok f xs n None = Some j \<and> index (f j) < n"
proof -
  have "oldest_loop ok f xs n None \<noteq> None" using assms by (auto simp: oldest_loop_None)
  then obtain j where j: "oldest_loop ok f xs n None = Some j" by auto
  have "index (f j) \<le> index (f i)" using oldest_loop_least [OF j] assms(1,2) by simp
  then show ?thesis using j assms(3) by auto
qed

lemma cdb_choice_NoneD:
  assumes none: "cdb_choice fl c s = None" and i: "i \<in> set (elems (fuINT s)) \<union> set (elems (fuFP s))"
    and idx: "index (insn s i) < 0x7FFFFFFF"
  shows "c < tom_execute_cycle (insn s i) + latency fl (opcode (insn s i))"
proof (rule ccontr)
  let ?rdy = "\<lambda>i. \<not> tom_execute_cycle (insn s i) + latency fl (opcode (insn s i)) > c"
  let ?o = "\<lambda>xs. oldest_loop ?rdy (insn s) xs 0x7FFFFFFF None"
  assume "\<not> c < tom_execute_cycle (insn s i) + latency fl (opcode (insn s i))"
  then have rdy: "?rdy i" by simp
  have "\<exists>j. (?o (fuINT s) = Some j \<or> ?o (fuFP s) = Some j) \<and> index (insn s j) < 0x7FFFFFFF"
    using i oldest_loop_SomeI [of i _ ?rdy "insn s", OF _ rdy idx] by blast
  then obtain j where o: "?o (fuINT s) = Some j \<or> ?o (fuFP s) = Some j" and idj: "index (insn s j) < 0x7FFFFFFF"
    by (elim exE conjE) (rule that)
  have "Some j \<in> set [?o (fuINT s), ?o (fuFP s)]" using o by (elim disjE) simp_all
  then have j: "j \<in> set (elems [?o (fuINT s), ?o (fuFP s)])" "index (insn s j) < 0x7FFFFFFF"
    using idj unfolding elems_iff by blast+
  have "insn_array_get_oldest s [?o (fuINT s), ?o (fuFP s)] \<noteq> None"
    using oldest_loop_SomeI [of j "[?o (fuINT s), ?o (fuFP s)]" "\<lambda>_. True" "insn s", OF j(1) TrueI j(2)]
    unfolding insn_array_get_oldest_def by auto
  then show False using none unfolding cdb_choice_def Let_def by simp
qed

lemma ready_NoneD:
  "\<lbrakk>insn_array_get_oldest_ready_for_execute s xs = None; i \<in> set (elems xs); index (insn s i) < 0x7FFFFFFF\<rbrakk>
    \<Longrightarrow> elems (Q (insn s i)) \<noteq> []"
  using oldest_loop_SomeI [of i xs "\<lambda>i. insn_array_is_empty (Q (insn s i))" "insn s" "0x7FFFFFFF"]
  by (auto simp: insn_array_get_oldest_ready_for_execute_def insn_array_is_empty_iff)

lemma station_index:
  assumes wf: "wf_program trace p N" and pipe: "pipe_ok fl p N d s" and i: "issued fl p d i"
  shows "index (insn s i) = int i" "i \<le> N" "index (insn s i) < 0x7FFFFFFF"
proof -
  have "1 \<le> i" "i \<le> N" using i pipe_okD(3) [OF pipe] by (auto simp: issued_def queue_ok_def)
  then show "index (insn s i) = int i" "i \<le> N" "index (insn s i) < 0x7FFFFFFF"
    using wf pipe_okD(1) [OF pipe] by (auto simp: wf_program_def wf_instr_def same_code_def)
qed

lemma cdb_work:
  assumes wf: "wf_program trace p N" and pipe: "pipe_ok fl p N d s" and bus: "commonDataBus s = None"
    and eq: "execute_To_CDB fl c s = Inr t"
  shows "work_left N t < work_left N s \<or> work_left N t = work_left N s \<and> insn t = insn s
    \<and> commonDataBus t = None \<and> set (elems (fuINT t)) = set (elems (fuINT s)) \<and> fuFP t = fuFP s
    \<and> (\<forall>i\<in>set (elems (fuINT t)) \<union> set (elems (fuFP t)).
         c < tom_execute_cycle (insn t i) + latency fl (opcode (insn t i)))"
proof -
  let ?s = "sweep fl c s"
  have sw: "pipe_ok fl p N d ?s" by (rule sweep_inv [OF pipe])
  note ok = pipe_okD(4) [OF sw]
  have t: "t = (case cdb_choice fl c ?s of None \<Rightarrow> ?s | Some i \<Rightarrow> broadcast i c ?s)"
    using execute_To_CDB_eq [OF ok bus] eq by simp
  note w = sweep_work [OF pipe, of c]
  have wle: "work_left N ?s \<le> work_left N s" using w by (cases "\<exists>i. store_done fl c s i") auto
  show ?thesis
  proof (cases "cdb_choice fl c ?s")
    case (Some i)
    have "work_left N t < work_left N ?s"
      using broadcast_work [OF sw _ cdb_choice_SomeD(1) [OF Some]] bus t Some by simp
    then show ?thesis using wle by simp
  next
    case None
    then have t: "t = ?s" using t by simp
    have "c < tom_execute_cycle (insn ?s i) + latency fl (opcode (insn ?s i))"
      if "i \<in> set (elems (fuINT ?s)) \<union> set (elems (fuFP ?s))" for i
    proof -
      have "issued fl p d i" using that ok by (auto simp: units_ok_def)
      then show ?thesis using cdb_choice_NoneD [OF None that station_index(3) [OF wf sw]] by blast
    qed
    then show ?thesis using w bus unfolding t by (cases "\<exists>i. store_done fl c s i") auto
  qed
qed

text \<open>Stores write no register.\<close>

definition stores_silent :: "op_flags \<Rightarrow> program \<Rightarrow> nat \<Rightarrow> bool" where
  "stores_silent fl p N \<longleftrightarrow> (\<forall>i r. 1 \<le> i \<and> i \<le> N \<and> IS_STORE fl (opcode (p i)) \<longrightarrow> \<not> writes p r i)"

text \<open>
  With an empty bus and every unit idle, the oldest instruction in the stations waits for nothing.
\<close>

lemma oldest_is_ready:
  assumes wf: "wf_program trace p N" and pipe: "pipe_ok fl p N d s" and bus: "commonDataBus s = None"
    and silent: "stores_silent fl p N" and ne: "\<exists>i. in_station s i"
  shows "\<exists>i. in_station s i \<and> elems (Q (insn s i)) = []"
proof -
  note ok = pipe_okD [OF pipe]
  define i where "i = (LEAST i. in_station s i)"
  have i: "in_station s i" using ne unfolding i_def by (rule LeastI_ex)
  have least: "\<not> in_station s j" if "j < i" for j using that not_less_Least unfolding i_def by blast
  have "elems (Q (insn s i)) = []"
  proof (rule ccontr)
    assume "elems (Q (insn s i)) \<noteq> []"
    then obtain j where "j \<in> set (elems (Q (insn s i)))" by (cases "elems (Q (insn s i))") auto
    then have "Some j \<in> set (Q (insn s i))" by (simp add: elems_iff)
    moreover have "length (Q (insn s i)) = MAX_INPUT_REGS" using ok(9) unfolding Q_ok_def by blast
    ultimately obtain k where k: "k < MAX_INPUT_REGS" "Q (insn s i) ! k = Some j"
      by (auto simp: in_set_conv_nth)
    then obtain r where r: "producer fl p i r j" "\<not> retired s j"
      using ok(9) unfolding Q_ok_def by blast
    have ii: "issued fl p d i" using i ok(4) by (auto simp: in_station_def units_ok_def)
    then have jj: "issued fl p d j" "j < i" "writes p r j" using r(1) by (auto simp: producer_def issued_def)
    have "tom_cdb_cycle (insn s j) = 0" using r(2) bus by (simp add: retired_def)
    then have "IS_STORE fl (opcode (p j))"
      using ok(5) least [OF jj(2)] jj(1) unfolding progress_ok_def by blast
    moreover have "1 \<le> j" "j \<le> N" using jj(1) ok(3) by (auto simp: issued_def queue_ok_def)
    ultimately show False using silent jj(3) unfolding stores_silent_def by blast
  qed
  then show ?thesis using i by blast
qed

definition in_units :: "tomasulo \<Rightarrow> iptr set" where
  "in_units s = set (elems (fuINT s)) \<union> set (elems (fuFP s))"

definition finish :: "op_flags \<Rightarrow> tomasulo \<Rightarrow> iptr \<Rightarrow> nat" where
  "finish fl s i = tom_execute_cycle (insn s i) + latency fl (opcode (insn s i))"

lemma station_full_in:
  assumes "shape s" "insn_array_is_full (reservINT s) \<or> insn_array_is_full (reservFP s)"
  shows "\<exists>i. in_station s i"
proof -
  have "elems (reservINT s) \<noteq> [] \<or> elems (reservFP s) \<noteq> []"
    using assms by (auto simp: insn_array_is_full_iff shape_def RESERV_INT_SIZE_def RESERV_FP_SIZE_def)
  then show ?thesis by (auto simp: in_station_def neq_Nil_conv)
qed

lemma unit_full_in: "\<lbrakk>shape s; insn_array_is_full (fuINT s) \<or> insn_array_is_full (fuFP s)\<rbrakk> \<Longrightarrow> in_units s \<noteq> {}"
  unfolding insn_array_is_full_iff in_units_def shape_def FU_INT_SIZE_def FU_FP_SIZE_def
  by auto

text \<open>
  A cycle lowers the work left, or ends the simulation, or leaves the units busy with the same
  instructions.
\<close>

lemma cycle_progress:
  assumes wf: "wf_program trace p N" and inv: "tom_inv fl p N c d s"
    and served: "all_served fl p N" and silent: "stores_silent fl p N"
    and eq: "cycle_step fl trace N (Suc c) s = Inr t"
  shows "work_left N t < work_left N s \<or> is_simulation_done N t \<or>
    (work_left N t = work_left N s \<and> in_units t = in_units s \<and> (\<forall>i. finish fl t i = finish fl s i)
     \<and> (\<exists>i\<in>in_units t. Suc c < finish fl t i))"
proof -
  let ?s1 = "CDB_To_retire s"
  have r: "pipe_ok fl p N d ?s1" "commonDataBus ?s1 = None" "stamps_le tom_dispatch_cycle c ?s1"
    "stamps_le tom_issue_cycle c ?s1" "stamps_le tom_execute_cycle c ?s1" "stamps_le tom_cdb_cycle c ?s1"
    using retire_inv [OF wf inv] by auto
  have w1: "work_left N ?s1 < work_left N s \<or> ?s1 = s"
    using retire_work [OF wf inv] by (cases "commonDataBus s") auto
  obtain s2 where s2: "execute_To_CDB fl (Suc c) ?s1 = Inr s2" "pipe_ok fl p N d s2" "bus_ok (Suc c) s2"
    "stamps_le tom_cdb_cycle (Suc c) s2"
    "\<And>i. (insn s2 i)\<lparr>tom_cdb_cycle := 0\<rparr> = (insn ?s1 i)\<lparr>tom_cdb_cycle := 0\<rparr>"
    using cdb_inv [OF r(1,2,6)] by blast
  have le2: "stamps_le tom_dispatch_cycle c s2" "stamps_le tom_issue_cycle c s2"
    using stamps_le_same [OF r(3), of s2] stamps_le_same [OF r(4), of s2] instr_upd_eqD(1) [OF s2(5)] by auto
  note w2 = cdb_work [OF wf r(1,2) s2(1)]
  let ?s3 = "issue_To_execute (Suc c) s2"
  note x = execute_inv [OF wf s2(2,3,4) le2(2)]
  note w3 = execute_work [OF s2(2), of "Suc c"]
  have le3: "stamps_le tom_dispatch_cycle c ?s3" "stamps_le tom_issue_cycle c ?s3"
    using stamps_le_same [OF le2(1), of ?s3] stamps_le_same [OF le2(2), of ?s3] instr_upd_eqD(2) [OF x(3)] by auto
  obtain s4 d4 where s4: "dispatch_To_issue fl (Suc c) ?s3 = Inr s4" "pipe_ok fl p N d4 s4"
    using dispatch_inv [OF wf x(1) le3] by blast
  note w4 = dispatch_work [OF x(1) served s4(1)]
  have eq5: "fetch_To_dispatch fl trace N (Suc c) s4 = Inr t"
    using eq by (simp add: cycle_step_def s2(1) s4(1))
  note w5 = fetch_work [OF wf s4(2) eq5]
  show ?thesis
  proof (cases "work_left N t < work_left N s")
    case False
    have le: "work_left N ?s1 \<le> work_left N s" "work_left N s2 \<le> work_left N ?s1"
      "work_left N ?s3 \<le> work_left N s2" "work_left N s4 \<le> work_left N ?s3" "work_left N t \<le> work_left N s4"
      using w1 w2 w3(1) w4 w5 by (metis less_imp_le order_refl)+
    have same1: "?s1 = s" using False w1 le by linarith
    have e2: "work_left N s2 = work_left N s" and e3: "work_left N ?s3 = work_left N s"
      and e5: "work_left N t = work_left N s" and e4': "work_left N s4 = work_left N ?s3"
      using False le by linarith+
    have e4: "s4 = ?s3" using w4 e4' by (metis less_irrefl)
    have f2: "insn s2 = insn s" "commonDataBus s2 = None" "in_units s2 = in_units s"
      "\<And>i. i \<in> in_units s2 \<Longrightarrow> Suc c < finish fl s2 i"
      using w2 e2 unfolding same1 in_units_def finish_def by auto
    have f3: "insn ?s3 = insn s2" "in_units ?s3 = in_units s2"
      "insn_array_is_full (fuINT s2) \<or>
          insn_array_get_oldest_ready_for_execute s2 (remove_executing (fuINT s2) (reservINT s2)) = None"
      "insn_array_is_full (fuFP s2) \<or>
          insn_array_get_oldest_ready_for_execute s2 (remove_executing (fuFP s2) (reservFP s2)) = None"
      using w3(1) e2 e3 unfolding in_units_def by auto
    have f4: "instr_queue_size ?s3 = 0 \<or> insn_array_is_full (reservINT ?s3) \<or> insn_array_is_full (reservFP ?s3)"
      using w4 e3 e4 by auto
    have f5: "instr_queue_is_full ?s3 \<or> N < fetch_index t" "in_units t = in_units ?s3"
      "reservINT t = reservINT ?s3" "reservFP t = reservFP ?s3" "\<And>i. finish fl t i = finish fl ?s3 i"
      using w5 e5 e3 e4 unfolding in_units_def finish_def by auto
    have fin: "finish fl t i = finish fl s i" for i
      using f5(5) [of i] by (simp add: finish_def f3(1) f2(1))
    show ?thesis
    proof (cases "in_units t = {}")
      case False
      then obtain i where i: "i \<in> in_units t" by auto
      then have "i \<in> in_units s2" by (simp add: f5(2) f3(2))
      then have "Suc c < finish fl s2 i" by (rule f2(4))
      then have "Suc c < finish fl t i" unfolding fin by (simp add: finish_def f2(1))
      then show ?thesis using i e5 fin f5(2) f3(2) f2(3) by auto
    next
      case True
      then have nf: "elems (fuINT s2) = []" "elems (fuFP s2) = []"
        using f5(2) f3(2) by (auto simp: in_units_def)
      have nst: "\<not> in_station s2 i" for i
      proof
        assume "in_station s2 i"
        then obtain j where j: "in_station s2 j" "elems (Q (insn s2 j)) = []"
          using oldest_is_ready [OF wf s2(2) f2(2) silent] by blast
        have u: "units_ok fl p d s2" by (rule pipe_okD(4) [OF s2(2)])
        have "issued fl p d j" using j(1) u by (auto simp: units_ok_def in_station_def)
        note idx = station_index(3) [OF wf s2(2) this]
        have full: "\<not> insn_array_is_full (fuINT s2)" "\<not> insn_array_is_full (fuFP s2)"
          using unit_full_in [OF pipe_okD(2) [OF s2(2)]] nf by (auto simp: in_units_def)
        have "j \<in> set (elems (remove_executing (fuINT s2) (reservINT s2)))
            \<or> j \<in> set (elems (remove_executing (fuFP s2) (reservFP s2)))"
          using j(1) nf elems_remove_executing u by (auto simp: in_station_def units_ok_def)
        then show False
          using f3(3,4) full ready_NoneD [OF _ _ idx] j(2) by blast
      qed
      then have ns3: "\<not> in_station ?s3 i" for i using w3(2,3) by (simp add: in_station_def)
      then have "\<not> insn_array_is_full (reservINT ?s3)" "\<not> insn_array_is_full (reservFP ?s3)"
        using station_full_in [OF pipe_okD(2) [OF x(1)]] by blast+
      then have "instr_queue_size ?s3 = 0" using f4 by simp
      then have "N < fetch_index t" using f5(1) by (simp add: instr_queue_is_full_def INSTR_QUEUE_SIZE_def)
      moreover have "elems (reservINT t) = []" "elems (reservFP t) = []"
        using ns3 unfolding f5(3,4) in_station_def by (meson list.set_sel(1))+
      moreover have "elems (fuINT t) = []" "elems (fuFP t) = []" using True by (auto simp: in_units_def)
      ultimately show ?thesis by (simp add: is_simulation_done_def insn_array_is_empty_iff)
    qed
  qed simp
qed

lemma finish_bound:
  assumes "stamps_le tom_execute_cycle c s"
  shows "finish fl s i \<le> c + FU_FP_LATENCY"
proof -
  have "latency fl opc \<le> FU_FP_LATENCY" for opc
    by (simp add: latency_def FU_INT_LATENCY_def FU_FP_LATENCY_def)
  then show ?thesis using assms by (simp add: finish_def stamps_le_def add_mono)
qed

lemma loop_ends:
  assumes wf: "wf_program trace p N" and served: "all_served fl p N" and silent: "stores_silent fl p N"
  shows "\<lbrakk>tom_inv fl p N c d s; work_left N s = w; \<forall>i\<in>in_units s. finish fl s i \<le> c + r\<rbrakk>
    \<Longrightarrow> \<exists>y. tomasulo_loop fl trace N (Suc c) s = Some y
      \<and> (kept_upto fl p N mod INSTR_QUEUE_SIZE \<noteq> 0 \<longrightarrow> (\<exists>x. y = Inr x))"
proof (induction w arbitrary: c d s r rule: less_induct)
  case (less w)
  note outer = less.IH
  from less.prems show ?case
  proof (induction r arbitrary: c d s rule: less_induct)
    case (less r)
    note inner = less.IH and inv = less.prems(1) and w = less.prems(2) and bnd = less.prems(3)
    let ?go = "\<lambda>c s. \<exists>y. tomasulo_loop fl trace N (Suc c) s = Some y
      \<and> (kept_upto fl p N mod INSTR_QUEUE_SIZE \<noteq> 0 \<longrightarrow> (\<exists>x. y = Inr x))"
    note unf = tomasulo_loop.simps [of fl trace N "Suc c" s]
    from cycle_inv [OF wf inv] show ?case
    proof (elim disjE exE conjE)
      assume "cycle_step fl trace N (Suc c) s = Inl OutOfRange" "kept_upto fl p N mod INSTR_QUEUE_SIZE = 0"
      then show ?thesis by (simp add: unf)
    next
      fix t d' assume t: "cycle_step fl trace N (Suc c) s = Inr t" and inv': "tom_inv fl p N (Suc c) d' t"
      show ?thesis
      proof (cases "is_simulation_done N t")
        case True
        then show ?thesis by (simp add: unf t)
      next
        case False
        have eq: "tomasulo_loop fl trace N (Suc c) s = tomasulo_loop fl trace N (Suc (Suc c)) t"
          using False by (simp add: unf t)
        have "?go (Suc c) t"
        proof (cases "work_left N t < work_left N s")
          case True
          have "stamps_le tom_execute_cycle (Suc c) t" using inv' by (simp add: tom_inv_def)
          then have "\<forall>i\<in>in_units t. finish fl t i \<le> Suc c + FU_FP_LATENCY" using finish_bound by blast
          then show ?thesis using outer [of "work_left N t" "Suc c" d' t] True w inv' by blast
        next
          case same: False
          then have u: "work_left N t = work_left N s" "in_units t = in_units s" "\<And>i. finish fl t i = finish fl s i"
            and ex: "\<exists>i\<in>in_units t. Suc c < finish fl t i"
            using cycle_progress [OF wf inv served silent t] False by auto
          then obtain i where "i \<in> in_units s" "Suc c < finish fl s i" by auto
          then have r: "Suc c < c + r" using bnd by fastforce
          then have "\<forall>i\<in>in_units t. finish fl t i \<le> Suc c + (r - 1)" using bnd u(2,3) by auto
          then show ?thesis using inner [of "r - 1" "Suc c" d' t] r inv' u(1) w by simp
        qed
        then show ?thesis unfolding eq .
      qed
    qed
  qed
qed

end
