(* ===== verification/Tomasulo_Props.thy ===== *)
theory Tomasulo_Props
  imports Tomasulo_Live
begin

text \<open>
  What a run of the Tomasulo simulator promises, for the programs the functional simulator records.
\<close>


section \<open>The trace\<close>

text \<open>Every table of the list but the last is full.\<close>

fun tables_ok :: "instruction_trace \<Rightarrow> bool" where
  "tables_ok [] = False"
| "tables_ok [t] = (length t \<le> INSTR_TRACE_SIZE)"
| "tables_ok (t # u # ts) = (length t = INSTR_TRACE_SIZE \<and> tables_ok (u # ts))"

lemma get_instr_concat:
  "\<lbrakk>tables_ok t; k < length (concat t)\<rbrakk> \<Longrightarrow> get_instr t k = Inr (concat t ! k)"
proof (induction t arbitrary: k rule: tables_ok.induct)
  case (3 t u ts)
  show ?case
  proof (cases "k < length t")
    case False
    then have "get_instr (u # ts) (k - length t) = Inr (concat (u # ts) ! (k - length t))"
      using 3 by (intro 3(1)) auto
    moreover have "get_instr (t # u # ts) k = get_instr (u # ts) (k - length t)"
      using False 3(2) by (subst get_instr.simps) simp
    moreover have "concat (t # u # ts) ! k = concat (u # ts) ! (k - length t)"
      using False unfolding concat.simps(2) [of t] by (simp only: nth_append if_False)
    ultimately show ?thesis by (simp only:)
  qed (use 3(2) in \<open>simp add: nth_append\<close>)
qed (auto simp: nth_append)

lemma put_instr_concat:
  "tables_ok t \<Longrightarrow> concat (put_instr t i) = concat t @ [i] \<and> tables_ok (put_instr t i)"
proof (induction t i rule: put_instr.induct)
  case (3 t u ts i)
  then have "put_instr (u # ts) i \<noteq> []" by (cases ts) auto
  then show ?case using 3 by (cases "put_instr (u # ts) i") auto
qed (auto simp: INSTR_TRACE_SIZE_def)

lemma get_instr_cases: "get_instr t k = Inr n \<Longrightarrow> n = zero_instr \<or> n \<in> set (concat t)"
  by (induction t k rule: get_instr.induct) (auto split: if_splits)

lemma sim_trace_concat:
  "concat (sim_trace ops) = zero_instr # map (\<lambda>(n, d). sim_instr n d) (List.enumerate 1 ops) \<and> tables_ok (sim_trace ops)"
proof -
  have "tables_ok t \<Longrightarrow> concat (fold (\<lambda>(n, d) t. put_instr t (sim_instr n d)) es t)
      = concat t @ map (\<lambda>(n, d). sim_instr n d) es
    \<and> tables_ok (fold (\<lambda>(n, d) t. put_instr t (sim_instr n d)) es t)" for es t
    by (induction es arbitrary: t) (auto simp: put_instr_concat)
  from this [of "[[zero_instr]]" "List.enumerate 1 ops"]
  show ?thesis by (simp add: sim_trace_def INSTR_TRACE_SIZE_def)
qed

text \<open>The program a run sees, and the programs whose registers are in range.\<close>

definition program_of :: "decoded list \<Rightarrow> program" where
  "program_of ops = trace_insn (sim_trace ops)"

fun regs_ok :: "decoded \<Rightarrow> bool" where
  "regs_ok (opc, (o1, o2), (i1, i2, i3)) \<longleftrightarrow> list_all (\<lambda>r. r < int MD_TOTAL_REGS) [o1, o2, i1, i2, i3]"

definition wf_ops :: "decoded list \<Rightarrow> bool" where
  "wf_ops ops \<longleftrightarrow> length ops < 0x7FFFFFFF \<and> list_all regs_ok ops"

lemma get_sim_trace:
  assumes "k < length ops"
  shows "get_instr (sim_trace ops) (Suc k) = Inr (sim_instr (Suc k) (ops ! k))"
  using get_instr_concat [of "sim_trace ops" "Suc k"] sim_trace_concat [of ops] assms
  by (simp add: nth_enumerate_eq)

lemma fresh_sim: "fresh_instr (sim_instr n d)" "fresh_instr zero_instr"
  by (cases "(n, d)" rule: sim_instr.cases; simp add: fresh_instr_def zero_instr_def)+

lemma fresh_program: "fresh_instr (program_of ops i)"
proof (cases "get_instr (sim_trace ops) i")
  case (Inr n)
  then have "n = zero_instr \<or> n \<in> set (concat (sim_trace ops))" by (rule get_instr_cases)
  then have "fresh_instr n" using sim_trace_concat [of ops] fresh_sim by auto
  then show ?thesis using Inr by (simp add: program_of_def trace_insn_def)
qed (simp add: program_of_def trace_insn_def fresh_sim)

lemma program_of_nth:
  "\<lbrakk>1 \<le> i; i \<le> length ops\<rbrakk> \<Longrightarrow> program_of ops i = sim_instr i (ops ! (i - 1))"
  using get_sim_trace [of "i - 1" ops] by (simp add: program_of_def trace_insn_def)

lemma wf_sim_trace:
  assumes "wf_ops ops"
  shows "wf_program (sim_trace ops) (program_of ops) (length ops)"
  unfolding wf_program_def
proof (intro conjI allI impI)
  show "length ops < 0x7FFFFFFF" using assms by (simp add: wf_ops_def)
  fix i
  show "fresh_instr (program_of ops i)" by (rule fresh_program)
  assume i: "1 \<le> i \<and> i \<le> length ops"
  then have "i - 1 < length ops" by linarith
  then show "get_instr (sim_trace ops) i = Inr (program_of ops i)"
    using get_sim_trace [of "i - 1" ops] program_of_nth [of i ops] i by simp
  have "regs_ok (ops ! (i - 1))" using assms i by (auto simp: wf_ops_def list_all_length)
  then show "wf_instr i (program_of ops i)"
    using program_of_nth [of i ops] i
    by (cases "ops ! (i - 1)" rule: regs_ok.cases)
      (simp add: wf_instr_def zero_instr_def MAX_INPUT_REGS_def MAX_OUTPUT_REGS_def)
qed

section \<open>Reachable states\<close>

inductive tom_reach :: "op_flags \<Rightarrow> instruction_trace \<Rightarrow> nat \<Rightarrow> nat \<Rightarrow> tomasulo \<Rightarrow> bool"
  for fl trace N where
  reach_start: "tom_reach fl trace N 0 (init_tomasulo trace)"
| reach_cycle: "\<lbrakk>tom_reach fl trace N c s; cycle_step fl trace N (Suc c) s = Inr t\<rbrakk>
    \<Longrightarrow> tom_reach fl trace N (Suc c) t"

lemma reach_inv:
  assumes "tom_reach fl (sim_trace ops) (length ops) c s" "wf_ops ops"
  shows "\<exists>d. tom_inv fl (program_of ops) (length ops) c d s"
  using assms(1)
proof induction
  case reach_start
  then show ?case
    using init_inv [of "sim_trace ops"] wf_sim_trace [OF assms(2)] unfolding program_of_def by blast
next
  case (reach_cycle c s t)
  then show ?case using cycle_inv [OF wf_sim_trace [OF assms(2)]] by (metis Inr_inject sum.distinct(1))
qed

lemma loop_reach:
  assumes "tomasulo_loop fl trace N c s = Some y" "y = Inr (c', t)" "c = Suc c0" "tom_reach fl trace N c0 s"
  shows "\<exists>c1. c' = Suc c1 \<and> tom_reach fl trace N c1 t \<and> is_simulation_done N t"
  using assms
proof (induction arbitrary: c0 rule: tomasulo_loop.raw_induct [rotated 1, consumes 1])
  case (1 loop fl trace N cycle s y)
  show ?case
  proof (cases "cycle_step fl trace N cycle s")
    case (Inl e)
    then show ?thesis using 1(2,3) by simp
  next
    case (Inr s1)
    have "tom_reach fl trace N cycle s1" using reach_cycle [OF 1(5)] Inr 1(4) by simp
    then show ?thesis
      using 1(1) [of fl trace N "cycle + 1" s1 y cycle] 1(2,3,4) Inr by (auto split: if_splits)
  qed
qed

lemma run_reach:
  "runTomasulo fl trace N = Some (Inr (c, s)) \<Longrightarrow>
    \<exists>c1. c = Suc c1 \<and> tom_reach fl trace N c1 s \<and> is_simulation_done N s"
  unfolding runTomasulo_def by (rule loop_reach [OF _ refl _ reach_start]) simp_all

section \<open>A demonstration machine and its evaluation\<close>

text \<open>A machine of five opcodes: an integer operation, a floating-point one, a branch, a store and a trap.\<close>

definition demo_flags :: op_flags where
  "demo_flags opc = (if opc = 1 then F_ICOMP else if opc = 2 then F_FCOMP else if opc = 3 then F_COND
     else if opc = 4 then F_STORE else if opc = 5 then F_TRAP else 0)"

definition demo_ops :: "decoded list" where
  "demo_ops = [(1, (2, -1), (1, -1, -1)), (1, (3, -1), (2, -1, -1))]"

lemma demo_flag_simps [simp]:
  "IS_TRAP demo_flags opc \<longleftrightarrow> opc = 5" "IS_UNCOND_CTRL demo_flags opc \<longleftrightarrow> False"
  "IS_COND_CTRL demo_flags opc \<longleftrightarrow> opc = 3" "IS_STORE demo_flags opc \<longleftrightarrow> opc = 4"
  "USES_INT_FU demo_flags opc \<longleftrightarrow> opc = 1 \<or> opc = 4" "USES_FP_FU demo_flags opc \<longleftrightarrow> opc = 2"
  by (simp_all add: demo_flags_def IS_TRAP_def IS_UNCOND_CTRL_def IS_COND_CTRL_def IS_STORE_def USES_INT_FU_def
      USES_FP_FU_def has_flag_def F_ICOMP_def F_FCOMP_def F_UNCOND_def F_COND_def F_LOAD_def F_STORE_def F_TRAP_def F_CALL_def)

definition tables :: "decoded list \<Rightarrow> iptr \<Rightarrow> instruction" where
  "tables ops i = (if i = 0 \<or> length ops < i then zero_instr else sim_instr i (ops ! (i - 1)))"

lemma program_of_eq: "program_of ops = tables ops"
proof (rule ext)
  fix i
  show "program_of ops i = tables ops i"
  proof (cases "1 \<le> i \<and> i \<le> length ops")
    case True
    then show ?thesis using program_of_nth [of i ops] by (auto simp: tables_def)
  next
    case False
    have len: "length (concat (sim_trace ops)) = Suc (length ops)" and ok: "tables_ok (sim_trace ops)"
      using sim_trace_concat [of ops] by auto
    show ?thesis
    proof (cases "i = 0")
      case True
      then show ?thesis using get_instr_concat [OF ok, of i] len sim_trace_concat [of ops]
        by (simp add: program_of_def trace_insn_def tables_def)
    next
      case i0: False
      have past: "tables_ok t \<Longrightarrow> length (concat t) \<le> k \<Longrightarrow> trace_insn t k = zero_instr" for t k
      proof (induction t arbitrary: k rule: tables_ok.induct)
        case (3 t u ts)
        then have "trace_insn (u # ts) (k - length t) = zero_instr" by (intro 3(1)) auto
        moreover have "trace_insn (t # u # ts) k = trace_insn (u # ts) (k - length t)"
          using 3(2,3) unfolding trace_insn_def by (subst get_instr.simps) simp
        ultimately show ?case by simp
      qed (auto simp: trace_insn_def)
      then show ?thesis using False i0 ok len by (simp add: program_of_def tables_def)
    qed
  qed
qed

lemma get_demo [simp]: "1 \<le> k \<Longrightarrow> k \<le> length ops \<Longrightarrow> get_instr (sim_trace ops) k = Inr (tables ops k)"
  using get_sim_trace [of "k - 1" ops] by (auto simp: tables_def)

lemmas eval_defs = cycle_step_def CDB_To_retire_def execute_To_CDB_def issue_To_execute_def dispatch_To_issue_def
  fetch_To_dispatch_def fetch_def instr_queue_is_full_def instr_queue_is_empty_def instr_queue_peek_def
  instr_queue_peek_tail_def instr_queue_dequeue_def instr_queue_enqueue_def issue_insn_def
  issue_To_execute_helper_def insn_array_get_oldest_def insn_array_get_oldest_ready_for_execute_def
  insn_array_get_oldest_ready_for_CDB_def insn_array_remove_completed_stores_for_CDB_def upd_insn_def
  latency_def INSTR_QUEUE_SIZE_def RESERV_INT_SIZE_def RESERV_FP_SIZE_def FU_INT_SIZE_def FU_FP_SIZE_def
  FU_INT_LATENCY_def FU_FP_LATENCY_def MAX_INPUT_REGS_def MAX_OUTPUT_REGS_def MD_TOTAL_REGS_def
  is_simulation_done_def Let_def

abbreviation st where "st f q qs qh ri rf fi ff b m k \<equiv>
  \<lparr>insn = f, instr_queue = q, instr_queue_size = qs, instr_queue_head = qh, reservINT = ri, reservFP = rf,
   fuINT = fi, fuFP = ff, commonDataBus = b, map_table = m, fetch_index = k\<rparr>"

lemma init_demo: "init_tomasulo (sim_trace ops) = st (tables ops) (replicate 10 None) 0 0 [None, None, None, None]
   [None, None] [None, None] [None] None (replicate 70 None) 0"
  by (simp add: init_tomasulo_def program_of_eq [symmetric] program_of_def INSTR_QUEUE_SIZE_def RESERV_INT_SIZE_def
    RESERV_FP_SIZE_def FU_INT_SIZE_def FU_FP_SIZE_def MD_TOTAL_REGS_def numeral_eq_Suc)

lemma demo_len: "length demo_ops = 2" by (simp add: demo_ops_def)
lemma demo_tab: "tables demo_ops 1 = sim_instr 1 (1, (2, -1), (1, -1, -1))" "tables demo_ops 2 = sim_instr 2 (1, (3, -1), (2, -1, -1))"
  by (simp_all add: tables_def demo_ops_def)

lemmas demo_simps = eval_defs issue_loop.simps fetch_loop.simps demo_len demo_tab



lemma eval_lists:
  "replicate (numeral k) x = x # replicate (pred_numeral k) x" "replicate 1 x = [x]"
  "case_nat y g 1 = g 0"
  "(y # ys) ! 1 = ys ! 0" "f ^^ 1 = f" "f ^^ (numeral k) = f \<circ> f ^^ (pred_numeral k)"
  by (simp_all add: numeral_eq_Suc)

lemma demo_run: "\<exists>s. runTomasulo demo_flags (sim_trace demo_ops) 2 = Some (Inr (13, s))
   \<and> map (\<lambda>i. (tom_dispatch_cycle (insn s i), tom_issue_cycle (insn s i), tom_execute_cycle (insn s i), tom_cdb_cycle (insn s i))) [1, 2]
     = [(1, 2, 3, 7), (2, 3, 8, 12)]"
  unfolding runTomasulo_def init_demo
  by (simp add: demo_simps tomasulo_loop.simps zero_instr_def eval_lists del: One_nat_def)

definition ten_branches :: "decoded list" where
  "ten_branches = replicate 10 (3, (-1, -1), (-1, -1, -1))"

lemma ten_branches_run: "runTomasulo demo_flags (sim_trace ten_branches) 10 = Some (Inl OutOfRange)"
  unfolding runTomasulo_def init_demo
  by (simp add: demo_simps ten_branches_def tables_def tomasulo_loop.simps zero_instr_def eval_lists del: One_nat_def)

definition lost_ops :: "decoded list" where
  "lost_ops = replicate 5 (1, (2, -1), (1, -1, -1)) @ replicate 8 (3, (-1, -1), (-1, -1, -1)) @ [(1, (2, -1), (1, -1, -1))]"

lemma lost_run: "\<exists>s. runTomasulo demo_flags (sim_trace lost_ops) 14 = Some (Inr (16, s))
   \<and> tom_dispatch_cycle (insn s 14) = 14 \<and> tom_issue_cycle (insn s 14) = 0"
  unfolding runTomasulo_def init_demo
  by (simp add: demo_simps lost_ops_def tables_def tomasulo_loop.simps zero_instr_def eval_lists del: One_nat_def)

section \<open>The properties\<close>

text \<open>The stages of every instruction, and the order of the stages across instructions.\<close>

definition legal_schedule :: "op_flags \<Rightarrow> program \<Rightarrow> nat \<Rightarrow> tomasulo \<Rightarrow> bool" where
  "legal_schedule fl p c s \<longleftrightarrow>
     (\<forall>i. let n = insn s i in
        (tom_issue_cycle n \<noteq> 0 \<longrightarrow> 0 < tom_dispatch_cycle n \<and> tom_dispatch_cycle n < tom_issue_cycle n)
        \<and> (tom_execute_cycle n \<noteq> 0 \<longrightarrow> 0 < tom_issue_cycle n \<and> tom_issue_cycle n < tom_execute_cycle n)
        \<and> (tom_cdb_cycle n \<noteq> 0 \<longrightarrow> 0 < tom_execute_cycle n
             \<and> tom_execute_cycle n + latency fl (opcode (p i)) \<le> tom_cdb_cycle n)
        \<and> tom_dispatch_cycle n \<le> c \<and> tom_issue_cycle n \<le> c \<and> tom_execute_cycle n \<le> c \<and> tom_cdb_cycle n \<le> c)
     \<and> (\<forall>i j. i < j \<and> tom_issue_cycle (insn s j) \<noteq> 0 \<and> tom_issue_cycle (insn s i) \<noteq> 0 \<longrightarrow>
          tom_issue_cycle (insn s i) < tom_issue_cycle (insn s j))
     \<and> (\<forall>i j. tom_cdb_cycle (insn s i) \<noteq> 0 \<and> tom_cdb_cycle (insn s i) = tom_cdb_cycle (insn s j) \<longrightarrow> i = j)"

lemma inv_legal:
  assumes "tom_inv fl p N c d s"
  shows "legal_schedule fl p c s"
proof -
  have pipe: "pipe_ok fl p N d s" and le: "stamps_le tom_dispatch_cycle c s" "stamps_le tom_issue_cycle c s"
    "stamps_le tom_execute_cycle c s" "stamps_le tom_cdb_cycle c s"
    using assms by (auto simp: tom_inv_def)
  note ok = pipe_okD [OF pipe]
  have po: "(tom_issue_cycle (insn s i) \<noteq> 0 \<longleftrightarrow> issued fl p d i)
     \<and> (executing s i \<longrightarrow> issued fl p d i \<and> tom_issue_cycle (insn s i) < tom_execute_cycle (insn s i))
     \<and> (tom_cdb_cycle (insn s i) \<noteq> 0 \<longrightarrow> executing s i
          \<and> tom_execute_cycle (insn s i) + latency fl (opcode (p i)) \<le> tom_cdb_cycle (insn s i))" for i
    using ok(5) unfolding progress_ok_def by blast
  have di: "(tom_dispatch_cycle (insn s i) \<noteq> 0 \<longleftrightarrow> 1 \<le> i \<and> i \<le> min (fetch_index s) N \<and> kept fl p i)
     \<and> (tom_issue_cycle (insn s i) \<noteq> 0 \<longrightarrow> tom_dispatch_cycle (insn s i) < tom_issue_cycle (insn s i))" for i
    using ok(6) unfolding dispatch_ok_def by blast
  have dis: "tom_dispatch_cycle (insn s i) \<noteq> 0" if "issued fl p d i" for i
    using that di [of i] ok(3) by (auto simp: issued_def works_def queue_ok_def)
  have io: "\<forall>i j. i < j \<and> tom_issue_cycle (insn s i) \<noteq> 0 \<and> tom_issue_cycle (insn s j) \<noteq> 0 \<longrightarrow>
      tom_issue_cycle (insn s i) < tom_issue_cycle (insn s j)"
    using ok(6) unfolding dispatch_ok_def by (elim conjE)
  show ?thesis
    unfolding legal_schedule_def Let_def
  proof (intro conjI allI impI)
    fix i
    note p = po [of i] di [of i] dis [of i] le [unfolded stamps_le_def, rule_format, of i]
    show "0 < tom_dispatch_cycle (insn s i)" "tom_dispatch_cycle (insn s i) < tom_issue_cycle (insn s i)"
      if "tom_issue_cycle (insn s i) \<noteq> 0" using p that by auto
    show "0 < tom_issue_cycle (insn s i)" "tom_issue_cycle (insn s i) < tom_execute_cycle (insn s i)"
      if "executing s i" using p that by auto
    show "0 < tom_execute_cycle (insn s i)"
      "tom_execute_cycle (insn s i) + latency fl (opcode (p i)) \<le> tom_cdb_cycle (insn s i)"
      if "tom_cdb_cycle (insn s i) \<noteq> 0" using p that by auto
    show "tom_dispatch_cycle (insn s i) \<le> c" "tom_issue_cycle (insn s i) \<le> c"
      "tom_execute_cycle (insn s i) \<le> c" "tom_cdb_cycle (insn s i) \<le> c" using p by auto
  next
    fix i j assume "i < j \<and> tom_issue_cycle (insn s j) \<noteq> 0 \<and> tom_issue_cycle (insn s i) \<noteq> 0"
    then show "tom_issue_cycle (insn s i) < tom_issue_cycle (insn s j)" using io by blast
  next
    fix i j assume "tom_cdb_cycle (insn s i) \<noteq> 0 \<and> tom_cdb_cycle (insn s i) = tom_cdb_cycle (insn s j)"
    then show "i = j" using ok(7) unfolding one_broadcast_def by blast
  qed
qed

lemma inv_units:
  assumes "tom_inv fl p N c d s"
  shows "card {i. in_station s i \<and> executing s i \<and> uses_int fl p i} \<le> FU_INT_SIZE
    \<and> card {i. in_station s i \<and> executing s i \<and> \<not> uses_int fl p i} \<le> FU_FP_SIZE"
proof -
  have pipe: "pipe_ok fl p N d s" using assms by (simp add: tom_inv_def)
  note u = pipe_okD(4) [OF pipe] and sh = pipe_okD(2) [OF pipe]
  have I: "{i. in_station s i \<and> executing s i \<and> uses_int fl p i} = set (elems (fuINT s))"
    and F: "{i. in_station s i \<and> executing s i \<and> \<not> uses_int fl p i} = set (elems (fuFP s))"
    using u by (auto simp: units_ok_def in_station_def)
  have "card (set (elems (fuINT s))) \<le> length (fuINT s)" "card (set (elems (fuFP s))) \<le> length (fuFP s)"
    using card_length [of "elems (fuINT s)"] card_length [of "elems (fuFP s)"]
      length_elems_le [of "fuINT s"] length_elems_le [of "fuFP s"] by linarith+
  then show ?thesis unfolding I F using sh by (simp add: shape_def)
qed

lemma inv_drained:
  assumes inv: "tom_inv fl p N c d s" and done': "is_simulation_done N s" and iss: "tom_issue_cycle (insn s i) \<noteq> 0"
  shows "tom_cdb_cycle (insn s i) \<noteq> 0 \<or> executing s i \<and> IS_STORE fl (opcode (p i))"
proof -
  have pipe: "pipe_ok fl p N d s" using inv by (simp add: tom_inv_def)
  have "\<not> in_station s i" using done' by (simp add: is_simulation_done_def insn_array_is_empty_iff in_station_def)
  then show ?thesis using pipe_okD(5) [OF pipe] iss unfolding progress_ok_def by blast
qed

lemma run_invE:
  assumes "runTomasulo fl (sim_trace ops) (length ops) = Some (Inr (c, s))" "wf_ops ops"
  obtains c1 d where "c = Suc c1" "tom_inv fl (program_of ops) (length ops) c1 d s" "is_simulation_done (length ops) s"
  using run_reach [OF assms(1)] reach_inv [OF _ assms(2)] by blast

lemma run_ends:
  assumes "wf_ops ops" "all_served fl (program_of ops) (length ops)" "stores_silent fl (program_of ops) (length ops)"
  shows "\<exists>y. runTomasulo fl (sim_trace ops) (length ops) = Some y
    \<and> (kept_upto fl (program_of ops) (length ops) mod INSTR_QUEUE_SIZE \<noteq> 0 \<longrightarrow> (\<exists>x. y = Inr x))"
proof -
  have "tom_inv fl (program_of ops) (length ops) 0 0 (init_tomasulo (sim_trace ops))"
    using init_inv [of "sim_trace ops"] wf_sim_trace [OF assms(1)] unfolding program_of_def by blast
  then show ?thesis
    using loop_ends [OF wf_sim_trace [OF assms(1)] assms(2,3), of 0 0 "init_tomasulo (sim_trace ops)" _ 0]
    unfolding runTomasulo_def by (simp add: in_units_def init_tomasulo_def)
qed

lemma loop_error:
  assumes "tomasulo_loop fl trace N c s = Some y" "y = Inl e" "c = Suc c0" "tom_inv fl p N c0 d s"
    and "wf_program trace p N"
  shows "e = OutOfRange \<and> kept_upto fl p N mod INSTR_QUEUE_SIZE = 0"
  using assms
proof (induction arbitrary: c0 d rule: tomasulo_loop.raw_induct [rotated 1, consumes 1])
  case (1 loop fl trace N cycle s y)
  from cycle_inv [OF 1(6,5)] show ?case
  proof (elim disjE exE conjE)
    assume "cycle_step fl trace N (Suc c0) s = Inl OutOfRange" "kept_upto fl p N mod INSTR_QUEUE_SIZE = 0"
    then show ?thesis using 1(2,3,4) by simp
  next
    fix t d' assume t: "cycle_step fl trace N (Suc c0) s = Inr t" "tom_inv fl p N (Suc c0) d' t"
    then have "loop fl trace N (Suc (Suc c0)) t = Some y" using 1(2,3,4) by (auto split: if_splits)
    then show ?thesis using 1(1) [of fl trace N "Suc (Suc c0)" t y "Suc c0" d'] 1(3,6) t(2) by simp
  qed
qed


text \<open>a trace gives back the instructions in the order they were put in: position \<open>k\<close> of a trace whose
  tables are filled in order is the \<open>k\<close>-th instruction put, also past the end of the first table.\<close>

theorem put_instr_get_instr:
  assumes "tables_ok t" and "k \<le> length (concat t)"
  shows "get_instr (put_instr t i) k = Inr (if k = length (concat t) then i else concat t ! k)"
  using get_instr_concat [of "put_instr t i" k] put_instr_concat [OF assms(1), of i] assms(2)
  by (simp add: nth_append)

theorem put_instr_get_instr_witness:
  "get_instr (put_instr [[zero_instr]] (zero_instr\<lparr>opcode := 7\<rparr>)) 1 = Inr (zero_instr\<lparr>opcode := 7\<rparr>)"
  using put_instr_get_instr [of "[[zero_instr]]" 1 "zero_instr\<lparr>opcode := 7\<rparr>"]
  by (simp add: INSTR_TRACE_SIZE_def)

text \<open>
  Position \<open>j\<close> is the last instruction before \<open>i\<close> that writes register \<open>r\<close>, whatever its kind.  It is the
  \<open>producer\<close> of the pipeline unless it never enters it: traps and null opcodes are not fetched, and
  branches and calls leave the queue without touching the map table, also those that write a link register.
\<close>

definition last_writer :: "program \<Rightarrow> iptr \<Rightarrow> nat \<Rightarrow> iptr \<Rightarrow> bool" where
  "last_writer p i r j \<longleftrightarrow> 1 \<le> j \<and> j < i \<and> writes p r j \<and> (\<forall>m. j < m \<and> m < i \<longrightarrow> \<not> writes p r m)"

lemma last_writer_producer: "\<lbrakk>last_writer p i r j; works fl p j\<rbrakk> \<Longrightarrow> producer fl p i r j"
  by (auto simp: last_writer_def producer_def)

lemma reach_untracked:
  assumes "tom_reach fl (sim_trace ops) (length ops) c s" "wf_ops ops" "\<not> works fl (program_of ops) j"
  shows "tom_issue_cycle (insn s j) = 0 \<and> tom_execute_cycle (insn s j) = 0 \<and> tom_cdb_cycle (insn s j) = 0"
proof -
  obtain d where inv: "tom_inv fl (program_of ops) (length ops) c d s" using reach_inv [OF assms(1,2)] by blast
  then have "pipe_ok fl (program_of ops) (length ops) d s" by (simp add: tom_inv_def)
  note ok = pipe_okD [OF this]
  have "\<not> issued fl (program_of ops) d j" using assms(3) by (simp add: issued_def)
  then show ?thesis using ok(5) unfolding progress_ok_def by blast
qed

text \<open>C1: no instruction starts to execute before the values the pipeline provides are there.  For every
  register it reads, the last earlier writer that enters the pipeline (\<open>producer\<close>) was broadcast in an earlier
  cycle.  That is the last earlier writer of all (\<open>last_writer\<close>) unless this one is a branch, a call, a trap
  or has no functional unit: such an instruction is never issued and never broadcast, so the link register
  of a call is not waited for.\<close>

theorem raw_respected:
  assumes "wf_ops ops" and "tom_reach fl (sim_trace ops) (length ops) c s"
    and "tom_execute_cycle (insn s i) \<noteq> 0" and "int r \<in> set (r_in (program_of ops i))"
  shows "(\<forall>j. producer fl (program_of ops) i r j \<longrightarrow>
      0 < tom_cdb_cycle (insn s j) \<and> tom_cdb_cycle (insn s j) < tom_execute_cycle (insn s i))
    \<and> (\<forall>j. last_writer (program_of ops) i r j \<longrightarrow>
      (if works fl (program_of ops) j
       then 0 < tom_cdb_cycle (insn s j) \<and> tom_cdb_cycle (insn s j) < tom_execute_cycle (insn s i)
       else tom_issue_cycle (insn s j) = 0 \<and> tom_cdb_cycle (insn s j) = 0))"
proof -
  obtain d where "tom_inv fl (program_of ops) (length ops) c d s" using reach_inv [OF assms(2,1)] by blast
  then have "raw_ok fl (program_of ops) s" by (simp add: tom_inv_def pipe_ok_def)
  then have *: "\<forall>j. producer fl (program_of ops) i r j \<longrightarrow>
      0 < tom_cdb_cycle (insn s j) \<and> tom_cdb_cycle (insn s j) < tom_execute_cycle (insn s i)"
    using assms(3,4) unfolding raw_ok_def by blast
  then show ?thesis using reach_untracked [OF assms(2,1)] last_writer_producer by auto
qed

text \<open>The demonstration run as a reachable state.\<close>

lemma demo_run_reach:
  obtains s where "tom_reach demo_flags (sim_trace demo_ops) (length demo_ops) 12 s" "is_simulation_done 2 s"
    "tom_execute_cycle (insn s 2) = 8" "tom_issue_cycle (insn s 2) = 3" "tom_cdb_cycle (insn s 1) = 7"
    "runTomasulo demo_flags (sim_trace demo_ops) (length demo_ops) = Some (Inr (13, s))"
proof -
  obtain s where s: "runTomasulo demo_flags (sim_trace demo_ops) 2 = Some (Inr (13, s))"
    "map (\<lambda>i. (tom_dispatch_cycle (insn s i), tom_issue_cycle (insn s i), tom_execute_cycle (insn s i), tom_cdb_cycle (insn s i))) [1, 2]
     = [(1, 2, 3, 7), (2, 3, 8, 12)]"
    using demo_run by (elim exE conjE) (rule that)
  have "tom_reach demo_flags (sim_trace demo_ops) 2 12 s \<and> is_simulation_done 2 s"
    using run_reach [OF s(1)] by auto
  then show ?thesis using that [of s] s by (simp add: demo_len)
qed

lemma demo_wf: "wf_ops demo_ops" by (simp add: wf_ops_def demo_ops_def MD_TOTAL_REGS_def)

lemma demo_program:
  "program_of demo_ops 1 = sim_instr 1 (1, (2, -1), (1, -1, -1))"
  "program_of demo_ops 2 = sim_instr 2 (1, (3, -1), (2, -1, -1))"
  using program_of_nth [of 1 demo_ops] program_of_nth [of 2 demo_ops] by (simp_all add: demo_ops_def)

lemma demo_works: "works demo_flags (program_of demo_ops) 1" "works demo_flags (program_of demo_ops) 2"
  unfolding works_def kept_def branch_def uses_int_def demo_program by (simp_all add: zero_instr_def)

lemma demo_producer: "producer demo_flags (program_of demo_ops) 2 2 1"
proof -
  have "writes (program_of demo_ops) 2 1" unfolding writes_def demo_program by (simp add: zero_instr_def)
  then show ?thesis using demo_works(1) unfolding producer_def by auto
qed

theorem raw_respected_witness:
  "\<exists>s. tom_reach demo_flags (sim_trace demo_ops) (length demo_ops) 12 s
    \<and> 0 < tom_cdb_cycle (insn s 1) \<and> tom_cdb_cycle (insn s 1) < tom_execute_cycle (insn s 2)"
proof -
  obtain s where s: "tom_reach demo_flags (sim_trace demo_ops) (length demo_ops) 12 s" "tom_execute_cycle (insn s 2) = 8"
    by (rule demo_run_reach)
  have "int 2 \<in> set (r_in (program_of demo_ops 2))" unfolding demo_program by (simp add: zero_instr_def)
  then show ?thesis using raw_respected [OF demo_wf s(1), of 2 2] demo_producer s by auto
qed

text \<open>C2: in every reachable state the stages of an instruction have increasing cycles, execution lasts at
  least the latency of its unit, instructions are issued in program order, one per cycle, and no two are
  broadcast in one cycle.\<close>

theorem schedule_is_legal:
  assumes "wf_ops ops" and "tom_reach fl (sim_trace ops) (length ops) c s"
  shows "legal_schedule fl (program_of ops) c s"
proof -
  obtain d where "tom_inv fl (program_of ops) (length ops) c d s" using reach_inv [OF assms(2,1)] by blast
  then show ?thesis by (rule inv_legal)
qed

theorem schedule_is_legal_witness: "\<exists>s. legal_schedule demo_flags (program_of demo_ops) 12 s \<and> tom_cdb_cycle (insn s 1) = 7"
proof -
  obtain s where s: "tom_reach demo_flags (sim_trace demo_ops) (length demo_ops) 12 s" "tom_cdb_cycle (insn s 1) = 7"
    by (rule demo_run_reach)
  show ?thesis using schedule_is_legal [OF demo_wf s(1)] s(2) by (intro exI [of _ s] conjI)
qed

text \<open>C7: never more instructions execute than there are functional units of their kind.\<close>

theorem units_not_oversubscribed:
  assumes "wf_ops ops" and "tom_reach fl (sim_trace ops) (length ops) c s"
  shows "card {i. in_station s i \<and> tom_execute_cycle (insn s i) \<noteq> 0 \<and> uses_int fl (program_of ops) i} \<le> FU_INT_SIZE
    \<and> card {i. in_station s i \<and> tom_execute_cycle (insn s i) \<noteq> 0 \<and> \<not> uses_int fl (program_of ops) i} \<le> FU_FP_SIZE"
proof -
  obtain d where "tom_inv fl (program_of ops) (length ops) c d s" using reach_inv [OF assms(2,1)] by blast
  then show ?thesis by (rule inv_units)
qed

theorem units_not_oversubscribed_witness:
  "\<exists>s. tom_cdb_cycle (insn s 1) = 7
    \<and> card {i. in_station s i \<and> tom_execute_cycle (insn s i) \<noteq> 0 \<and> uses_int demo_flags (program_of demo_ops) i} \<le> 2"
proof -
  obtain s where s: "tom_reach demo_flags (sim_trace demo_ops) (length demo_ops) 12 s" "tom_cdb_cycle (insn s 1) = 7"
    by (rule demo_run_reach)
  show ?thesis using units_not_oversubscribed [OF demo_wf s(1)] s(2) unfolding FU_INT_SIZE_def by blast
qed

text \<open>C3: what an instruction waits for: entry \<open>k\<close> of its \<open>Q\<close> names an instruction exactly when it has been
  issued and that instruction is the last earlier writer of its \<open>k\<close>-th input register that enters the
  pipeline, not yet retired from the bus.  Branches and calls do not enter it: no \<open>Q\<close> ever names one, and
  when the last writer of all (\<open>last_writer\<close>) is a call it is not the one waited for.\<close>

theorem Q_names_producers:
  assumes "wf_ops ops" and "tom_reach fl (sim_trace ops) (length ops) c s" and "k < MAX_INPUT_REGS"
  shows "(Q (insn s i) ! k = Some j \<longleftrightarrow> tom_issue_cycle (insn s i) \<noteq> 0
      \<and> (\<exists>r. r_in (program_of ops i) ! k = int r \<and> producer fl (program_of ops) i r j) \<and> \<not> retired s j)
    \<and> (branch fl (program_of ops) j \<longrightarrow> Q (insn s i) ! k \<noteq> Some j)
    \<and> (\<forall>r. r_in (program_of ops i) ! k = int r \<and> last_writer (program_of ops) i r j \<longrightarrow>
        (Q (insn s i) ! k = Some j \<longleftrightarrow> tom_issue_cycle (insn s i) \<noteq> 0 \<and> works fl (program_of ops) j \<and> \<not> retired s j))"
proof -
  obtain d where "tom_inv fl (program_of ops) (length ops) c d s" using reach_inv [OF assms(2,1)] by blast
  then have "Q_ok fl (program_of ops) s" by (simp add: tom_inv_def pipe_ok_def)
  then have *: "Q (insn s i) ! k = Some j \<longleftrightarrow> tom_issue_cycle (insn s i) \<noteq> 0
      \<and> (\<exists>r. r_in (program_of ops i) ! k = int r \<and> producer fl (program_of ops) i r j) \<and> \<not> retired s j"
    using assms(3) unfolding Q_ok_def by blast
  moreover have "\<not> producer fl (program_of ops) i r j" if "branch fl (program_of ops) j" for r
    using that by (simp add: producer_def works_def)
  moreover have "producer fl (program_of ops) i r j \<longleftrightarrow> works fl (program_of ops) j"
    if "last_writer (program_of ops) i r j" for r
    using last_writer_producer [OF that] by (auto simp: producer_def)
  ultimately show ?thesis by (metis of_nat_eq_iff)
qed

theorem Q_names_producers_witness:
  "\<exists>s. tom_cdb_cycle (insn s 1) = 7 \<and> (Q (insn s 2) ! 0 = Some 1 \<longleftrightarrow> \<not> retired s 1)"
proof -
  obtain s where s: "tom_reach demo_flags (sim_trace demo_ops) (length demo_ops) 12 s" "tom_issue_cycle (insn s 2) = 3"
    "tom_cdb_cycle (insn s 1) = 7" by (rule demo_run_reach)
  have "r_in (program_of demo_ops 2) ! 0 = int 2" unfolding demo_program by (simp add: zero_instr_def)
  then have "\<exists>r. r_in (program_of demo_ops 2) ! 0 = int r \<and> producer demo_flags (program_of demo_ops) 2 r 1"
    using demo_producer by blast
  then show ?thesis
    using Q_names_producers [OF demo_wf s(1), of 0 2 1] s(2,3) by (auto simp: MAX_INPUT_REGS_def)
qed

text \<open>C5: when the simulation returns, every instruction it issued has finished: it was broadcast, or it is a
  store that executed.\<close>

theorem run_drains_the_pipeline:
  assumes "wf_ops ops" and "runTomasulo fl (sim_trace ops) (length ops) = Some (Inr (c, s))"
    and "tom_issue_cycle (insn s i) \<noteq> 0"
  shows "tom_cdb_cycle (insn s i) \<noteq> 0 \<or> tom_execute_cycle (insn s i) \<noteq> 0 \<and> IS_STORE fl (opcode (program_of ops i))"
  by (rule run_invE [OF assms(2,1)]) (rule inv_drained [OF _ _ assms(3)])

theorem run_drains_the_pipeline_witness:
  "\<exists>s. runTomasulo demo_flags (sim_trace demo_ops) (length demo_ops) = Some (Inr (13, s)) \<and> tom_cdb_cycle (insn s 2) \<noteq> 0"
proof -
  obtain s where s: "runTomasulo demo_flags (sim_trace demo_ops) (length demo_ops) = Some (Inr (13, s))"
    "tom_issue_cycle (insn s 2) = 3" by (rule demo_run_reach)
  have "\<not> IS_STORE demo_flags (opcode (program_of demo_ops 2))"
    unfolding demo_program by (simp add: zero_instr_def)
  then show ?thesis using run_drains_the_pipeline [OF demo_wf s(1), of 2] s by auto
qed

text \<open>C4: the simulation returns a cycle count when every instruction is a branch or has a functional unit,
  stores write no register, and the number of instructions that go through the queue is not a multiple of
  its size.  When it is one the run may stop instead with the read before the queue; and without a unit for
  some instruction it never ends.\<close>

theorem simulation_returns:
  assumes "wf_ops ops" and "all_served fl (program_of ops) (length ops)"
    and "stores_silent fl (program_of ops) (length ops)"
    and "kept_upto fl (program_of ops) (length ops) mod INSTR_QUEUE_SIZE \<noteq> 0"
  shows "\<exists>c s. runTomasulo fl (sim_trace ops) (length ops) = Some (Inr (c, s))"
  using run_ends [OF assms(1-3)] assms(4) by auto

theorem simulation_returns_witness:
  "\<exists>c s. runTomasulo demo_flags (sim_trace demo_ops) (length demo_ops) = Some (Inr (c, s))"
proof (rule simulation_returns [OF demo_wf])
  have two: "i = 1 \<or> i = 2" if "1 \<le> i \<and> i \<le> length demo_ops" for i using that by (auto simp: demo_len)
  show "all_served demo_flags (program_of demo_ops) (length demo_ops)"
    unfolding all_served_def using two demo_works by blast
  show "stores_silent demo_flags (program_of demo_ops) (length demo_ops)"
    unfolding stores_silent_def using two demo_program by (fastforce simp: zero_instr_def)
  have "filter (kept demo_flags (program_of demo_ops)) [1..<Suc (length demo_ops)] = [1, 2]"
    using demo_works by (simp add: demo_len works_def upt_rec numeral_eq_Suc)
  then show "kept_upto demo_flags (program_of demo_ops) (length demo_ops) mod INSTR_QUEUE_SIZE \<noteq> 0"
    by (simp add: kept_upto_def INSTR_QUEUE_SIZE_def)
qed

text \<open>C6: no assertion of the simulator fails: the only way it stops without a result is the read of the slot
  before the instruction queue, when a multiple of the queue's size has gone through it.\<close>

theorem only_the_tail_read_fails:
  assumes "wf_ops ops" and "runTomasulo fl (sim_trace ops) (length ops) = Some (Inl e)"
  shows "e = OutOfRange \<and> kept_upto fl (program_of ops) (length ops) mod INSTR_QUEUE_SIZE = 0"
proof -
  have "tom_inv fl (program_of ops) (length ops) 0 0 (init_tomasulo (sim_trace ops))"
    using init_inv [of "sim_trace ops"] wf_sim_trace [OF assms(1)] unfolding program_of_def by blast
  then show ?thesis
    using loop_error [OF assms(2) [unfolded runTomasulo_def] refl, of 0] wf_sim_trace [OF assms(1)] by simp
qed

theorem only_the_tail_read_fails_witness:
  "runTomasulo demo_flags (sim_trace ten_branches) (length ten_branches) = Some (Inl OutOfRange)
    \<and> kept_upto demo_flags (program_of ten_branches) (length ten_branches) mod INSTR_QUEUE_SIZE = 0"
proof -
  have wf: "wf_ops ten_branches" by (simp add: wf_ops_def ten_branches_def MD_TOTAL_REGS_def list_all_iff)
  have run: "runTomasulo demo_flags (sim_trace ten_branches) (length ten_branches) = Some (Inl OutOfRange)"
    using ten_branches_run by (simp add: ten_branches_def)
  show ?thesis using only_the_tail_read_fails [OF wf run] run by simp
qed

text \<open>The simulation ends before a fetched instruction is issued: the last of the program stays in the queue.\<close>

theorem simulation_stops_early:
  "\<exists>s. runTomasulo demo_flags (sim_trace lost_ops) (length lost_ops) = Some (Inr (16, s))
     \<and> tom_dispatch_cycle (insn s 14) = 14 \<and> tom_issue_cycle (insn s 14) = 0"
  using lost_run by (simp add: lost_ops_def)

end
