(* ===== verification/Lab2_Predictors.thy ===== *)
theory Lab2_Predictors
  imports Pisa_Machine
begin

text \<open>
  The branch predictors lab 2 adds to the functional simulator (\<open>lab2/sim-safe.c\<close>): the static
  predictor, the table of 2-bit counters, the two-level predictor and the open-ended tournament
  predictor, as they are trained by each conditional branch the simulator executes.  The variables
  of \<open>sim_main\<close> are the fields of one record.  A C \<open>int\<close> is an \<^typ>\<open>int\<close>; the theory
  \<open>Lab2_Laws\<close> shows that every one stays small.  An access outside a C array is \<^const>\<open>OutOfRange\<close>.
\<close>

section \<open>Arrays of ints\<close>

definition arr_get :: "'a list \<Rightarrow> int \<Rightarrow> 'a res" where
  "arr_get xs i = (if 0 \<le> i then vec_get xs (nat i) else Inl OutOfRange)"

definition arr_set :: "'a list \<Rightarrow> int \<Rightarrow> 'a \<Rightarrow> 'a list res" where
  "arr_set xs i x = (if 0 \<le> i then vec_set xs (nat i) x else Inl OutOfRange)"

definition arr2_get :: "'a list list \<Rightarrow> int \<Rightarrow> int \<Rightarrow> 'a res" where
  "arr2_get xss i j = res_bind (arr_get xss i) (\<lambda>xs. arr_get xs j)"

definition arr2_set :: "'a list list \<Rightarrow> int \<Rightarrow> int \<Rightarrow> 'a \<Rightarrow> 'a list list res" where
  "arr2_set xss i j x = res_bind (arr_get xss i) (\<lambda>xs. res_bind (arr_set xs j x) (\<lambda>ys. arr_set xss i ys))"

section \<open>The state\<close>

definition STRONGLY_TAKEN :: int where "STRONGLY_TAKEN = 3"
definition WEAKLY_TAKEN :: int where "WEAKLY_TAKEN = 2"
definition WEAKLY_NOT_TAKEN :: int where "WEAKLY_NOT_TAKEN = 1"
definition STRONGLY_NOT_TAKEN :: int where "STRONGLY_NOT_TAKEN = 0"

definition OFFSET :: nat where "OFFSET = 3"
definition Q4_SATURATING_COUNTER_MAX_STATES :: int where "Q4_SATURATING_COUNTER_MAX_STATES = 4"
definition Q4_SATURATING_COUNTER_THRESHOLD :: int where "Q4_SATURATING_COUNTER_THRESHOLD = 2"
definition Q4_CHOOSER_ROWS :: nat where "Q4_CHOOSER_ROWS = 16384"
definition Q4_CHOOSER_MASK :: u32 where "Q4_CHOOSER_MASK = 0x3FFF"
definition Q4_SIMPLE_PRIVATE_PREDICTOR_ROWS :: nat where "Q4_SIMPLE_PRIVATE_PREDICTOR_ROWS = 16384"
definition Q4_SIMPLE_PRIVATE_PREDICTOR_PC_MASK :: u32 where "Q4_SIMPLE_PRIVATE_PREDICTOR_PC_MASK = 0x003F"
definition Q4_GLOBAL_HISTORY_REGISTER_SIZE :: nat where "Q4_GLOBAL_HISTORY_REGISTER_SIZE = 8"
definition Q4_GLOBAL_HISTORY_REGISTER_MASK :: int where "Q4_GLOBAL_HISTORY_REGISTER_MASK = 0x00FF"
definition Q4_PRIVATE_BRANCH_HISTORY_ROWS :: nat where "Q4_PRIVATE_BRANCH_HISTORY_ROWS = 8192"
definition Q4_PRIVATE_BRANCH_HISTORY_MASK :: u32 where "Q4_PRIVATE_BRANCH_HISTORY_MASK = 0x1FFF"
definition Q4_L2_PRIVATE_PREDICTOR_NUM :: nat where "Q4_L2_PRIVATE_PREDICTOR_NUM = 8"
definition Q4_L2_PRIVATE_PREDICTOR_NUM_MASK :: u32 where "Q4_L2_PRIVATE_PREDICTOR_NUM_MASK = 0x7"
definition Q4_L2_PRIVATE_PREDICTOR_ROWS :: nat where "Q4_L2_PRIVATE_PREDICTOR_ROWS = 64"
definition Q4_L2_PRIVATE_PREDICTOR_ROWS_MASK :: int where
  "Q4_L2_PRIVATE_PREDICTOR_ROWS_MASK = push_bit 3 0x3F"

record lab2 =
  sim_num_br :: nat
  sim_num_mispred_static :: nat
  sim_num_mispred_2bitsat :: nat
  sim_num_mispred_2level :: nat
  sim_num_mispred_openend :: nat
  prediction_table_q2 :: "int list"
  branch_history_table_q3 :: "int list"
  private_history_tables_q3 :: "int list list"
  q4_chooser :: "int list"
  q4_global_history_register :: int
  q4_simple_private_predictor :: "int list"
  q4_private_branch_history :: "int list"
  q4_l2_private_predictor :: "int list list"

definition lab2_init :: lab2 where
  "lab2_init = \<lparr>sim_num_br = 0, sim_num_mispred_static = 0, sim_num_mispred_2bitsat = 0,
     sim_num_mispred_2level = 0, sim_num_mispred_openend = 0,
     prediction_table_q2 = replicate 4096 WEAKLY_NOT_TAKEN,
     branch_history_table_q3 = replicate 512 0,
     private_history_tables_q3 = replicate 8 (replicate 64 WEAKLY_NOT_TAKEN),
     q4_chooser = replicate Q4_CHOOSER_ROWS Q4_SATURATING_COUNTER_THRESHOLD,
     q4_global_history_register = 0,
     q4_simple_private_predictor =
       replicate Q4_SIMPLE_PRIVATE_PREDICTOR_ROWS Q4_SATURATING_COUNTER_THRESHOLD,
     q4_private_branch_history = replicate Q4_PRIVATE_BRANCH_HISTORY_ROWS 0,
     q4_l2_private_predictor = replicate Q4_L2_PRIVATE_PREDICTOR_NUM
       (replicate Q4_L2_PRIVATE_PREDICTOR_ROWS Q4_SATURATING_COUNTER_THRESHOLD)\<rparr>"

text \<open>
  \<open>((regs.regs_PC & (mask << offset)) >> offset) & mask\<close>, computed unsigned and stored in an \<open>int\<close>;
  a branch is taken when the next PC is not the following instruction.
\<close>

definition pc_field :: "md_addr \<Rightarrow> u32 \<Rightarrow> nat \<Rightarrow> int" where
  "pc_field pc m offset = uint (drop_bit offset (pc AND push_bit offset m) AND m)"

definition is_taken :: "md_addr \<Rightarrow> md_addr \<Rightarrow> bool" where
  "is_taken pc npc \<longleftrightarrow> npc \<noteq> pc + MD_INST_SIZE"

section \<open>The static and the 2-bit predictor\<close>

definition static_branch :: "md_addr \<Rightarrow> md_addr \<Rightarrow> lab2 \<Rightarrow> lab2" where
  "static_branch pc npc s =
     (if is_taken pc npc then s\<lparr>sim_num_mispred_static := sim_num_mispred_static s + 1\<rparr> else s)"

definition bitsat_branch :: "md_addr \<Rightarrow> md_addr \<Rightarrow> lab2 \<Rightarrow> lab2 res" where
  "bitsat_branch pc npc s =
     (let index = pc_field pc 0x0FFF 3 in
      if index < 0 \<or> index \<ge> 4096 then Inl Panic
      else res_bind (arr_get (prediction_table_q2 s) index) (\<lambda>prediction.
        if \<not> is_taken pc npc then
          (let s1 = (if prediction = WEAKLY_TAKEN \<or> prediction = STRONGLY_TAKEN
                     then s\<lparr>sim_num_mispred_2bitsat := sim_num_mispred_2bitsat s + 1\<rparr> else s) in
           if prediction > 0
           then res_bind (arr_set (prediction_table_q2 s1) index (prediction - 1))
                  (\<lambda>t. Inr (s1\<lparr>prediction_table_q2 := t\<rparr>))
           else Inr s1)
        else
          (let s1 = (if prediction = WEAKLY_NOT_TAKEN \<or> prediction = STRONGLY_NOT_TAKEN
                     then s\<lparr>sim_num_mispred_2bitsat := sim_num_mispred_2bitsat s + 1\<rparr> else s) in
           if prediction < 3
           then res_bind (arr_set (prediction_table_q2 s1) index (prediction + 1))
                  (\<lambda>t. Inr (s1\<lparr>prediction_table_q2 := t\<rparr>))
           else Inr s1)))"

section \<open>The two-level predictor\<close>

text \<open>
  The history read from the branch history table is bound to \<open>privateHistoryTableIndex\<close>; as in the
  source, the private history tables are then indexed by \<open>branchHistoryTableIndex\<close>.
\<close>

definition twolevel_branch :: "md_addr \<Rightarrow> md_addr \<Rightarrow> lab2 \<Rightarrow> lab2 res" where
  "twolevel_branch pc npc s =
     (let branchHistoryTableIndex = pc_field pc 0x01FF 6 in
      if branchHistoryTableIndex < 0 \<or> branchHistoryTableIndex \<ge> 512 then Inl Panic
      else res_bind (arr_get (branch_history_table_q3 s) branchHistoryTableIndex) (\<lambda>privateHistoryTableIndex.
       (let privateHistoryTableNumber = pc_field pc 0x0007 3 in
        if privateHistoryTableNumber < 0 \<or> privateHistoryTableNumber \<ge> 8 then Inl Panic
        else res_bind (arr2_get (private_history_tables_q3 s) privateHistoryTableNumber branchHistoryTableIndex)
          (\<lambda>prediction.
            if \<not> is_taken pc npc then
              (let s1 = (if prediction = WEAKLY_TAKEN \<or> prediction = STRONGLY_TAKEN
                         then s\<lparr>sim_num_mispred_2level := sim_num_mispred_2level s + 1\<rparr> else s) in
               res_bind
                 (if prediction > 0
                  then arr2_set (private_history_tables_q3 s1) privateHistoryTableNumber
                         branchHistoryTableIndex (prediction - 1)
                  else Inr (private_history_tables_q3 s1)) (\<lambda>t.
               res_bind (arr_set (branch_history_table_q3 s1) branchHistoryTableIndex
                          (push_bit 1 privateHistoryTableIndex AND 0x003F)) (\<lambda>h.
               Inr (s1\<lparr>private_history_tables_q3 := t, branch_history_table_q3 := h\<rparr>))))
            else
              (let s1 = (if prediction = WEAKLY_NOT_TAKEN \<or> prediction = STRONGLY_NOT_TAKEN
                         then s\<lparr>sim_num_mispred_2level := sim_num_mispred_2level s + 1\<rparr> else s) in
               res_bind
                 (if prediction < 3
                  then arr2_set (private_history_tables_q3 s1) privateHistoryTableNumber
                         branchHistoryTableIndex (prediction + 1)
                  else Inr (private_history_tables_q3 s1)) (\<lambda>t.
               res_bind (arr_set (branch_history_table_q3 s1) branchHistoryTableIndex
                          (push_bit 1 privateHistoryTableIndex + 1 AND 0x003F)) (\<lambda>h.
               Inr (s1\<lparr>private_history_tables_q3 := t, branch_history_table_q3 := h\<rparr>))))))))"

section \<open>The tournament predictor\<close>

definition q4_simple_index :: "md_addr \<Rightarrow> lab2 \<Rightarrow> int" where
  "q4_simple_index pc s =
     push_bit Q4_GLOBAL_HISTORY_REGISTER_SIZE (pc_field pc Q4_SIMPLE_PRIVATE_PREDICTOR_PC_MASK OFFSET)
       OR q4_global_history_register s"

definition q4_predict :: "md_addr \<Rightarrow> lab2 \<Rightarrow> (int \<times> bool \<times> int) res" where
  "q4_predict pc s =
     res_bind (arr_get (q4_chooser s) (pc_field pc Q4_CHOOSER_MASK OFFSET)) (\<lambda>choice.
       if choice \<ge> Q4_SATURATING_COUNTER_THRESHOLD then
         res_bind (arr_get (q4_simple_private_predictor s) (q4_simple_index pc s)) (\<lambda>prediction.
           Inr (choice, True, prediction))
       else
         res_bind (arr_get (q4_private_branch_history s)
                    (pc_field pc Q4_PRIVATE_BRANCH_HISTORY_MASK OFFSET)) (\<lambda>predictorIndex.
         res_bind (arr2_get (q4_l2_private_predictor s)
                    (pc_field pc Q4_L2_PRIVATE_PREDICTOR_NUM_MASK OFFSET) predictorIndex) (\<lambda>prediction.
           Inr (choice, False, prediction))))"

definition q4_adjust_simple :: "md_addr \<Rightarrow> bool \<Rightarrow> int \<Rightarrow> lab2 \<Rightarrow> lab2 res" where
  "q4_adjust_simple pc taken prediction s =
     (let predictorIndex = q4_simple_index pc s in
      if taken then
        (if prediction < Q4_SATURATING_COUNTER_MAX_STATES
         then res_bind (arr_set (q4_simple_private_predictor s) predictorIndex (prediction + 1))
                (\<lambda>t. Inr (s\<lparr>q4_simple_private_predictor := t\<rparr>))
         else Inr s)
      else
        (if prediction > 0
         then res_bind (arr_set (q4_simple_private_predictor s) predictorIndex (prediction - 1))
                (\<lambda>t. Inr (s\<lparr>q4_simple_private_predictor := t\<rparr>))
         else Inr s))"

definition q4_adjust_l2 :: "md_addr \<Rightarrow> bool \<Rightarrow> int \<Rightarrow> lab2 \<Rightarrow> lab2 res" where
  "q4_adjust_l2 pc taken prediction s =
     (let predictorNum = pc_field pc Q4_L2_PRIVATE_PREDICTOR_NUM_MASK OFFSET;
          branchHistoryIndex = pc_field pc Q4_PRIVATE_BRANCH_HISTORY_MASK OFFSET in
      res_bind (arr_get (q4_private_branch_history s) branchHistoryIndex) (\<lambda>predictorIndex.
      res_bind
        (if taken then
           (if prediction < Q4_SATURATING_COUNTER_MAX_STATES
            then arr2_set (q4_l2_private_predictor s) predictorNum predictorIndex (prediction + 1)
            else Inr (q4_l2_private_predictor s))
         else
           (if prediction > 0
            then arr2_set (q4_l2_private_predictor s) predictorNum predictorIndex (prediction - 1)
            else Inr (q4_l2_private_predictor s))) (\<lambda>t.
      res_bind (arr_set (q4_private_branch_history s) branchHistoryIndex
                 (push_bit 1 predictorIndex + of_bool taken AND Q4_L2_PRIVATE_PREDICTOR_ROWS_MASK)) (\<lambda>h.
      Inr (s\<lparr>q4_l2_private_predictor := t, q4_private_branch_history := h\<rparr>)))))"

definition q4_adjust_chooser :: "md_addr \<Rightarrow> bool \<Rightarrow> bool \<Rightarrow> int \<Rightarrow> lab2 \<Rightarrow> lab2 res" where
  "q4_adjust_chooser pc correct usingSimple choice s =
     (let chooserIndex = pc_field pc Q4_CHOOSER_MASK OFFSET;
          inc = (if choice < Q4_SATURATING_COUNTER_MAX_STATES
                 then res_bind (arr_set (q4_chooser s) chooserIndex (choice + 1))
                        (\<lambda>t. Inr (s\<lparr>q4_chooser := t\<rparr>))
                 else Inr s);
          dec = (if choice > 0
                 then res_bind (arr_set (q4_chooser s) chooserIndex (choice - 1))
                        (\<lambda>t. Inr (s\<lparr>q4_chooser := t\<rparr>))
                 else Inr s) in
      if correct then (if usingSimple then inc else dec)
      else (if usingSimple then dec else inc))"

definition tournament_branch :: "md_addr \<Rightarrow> md_addr \<Rightarrow> lab2 \<Rightarrow> lab2 res" where
  "tournament_branch pc npc s =
     res_bind (q4_predict pc s) (\<lambda>(choice, usingSimple, prediction).
       (let taken = is_taken pc npc;
            correct = (if \<not> taken then \<not> prediction \<ge> Q4_SATURATING_COUNTER_THRESHOLD
                       else \<not> prediction < Q4_SATURATING_COUNTER_THRESHOLD);
            s1 = (if correct then s
                  else s\<lparr>sim_num_mispred_openend := sim_num_mispred_openend s + 1\<rparr>) in
        res_bind (if usingSimple then q4_adjust_simple pc taken prediction s1
                  else q4_adjust_l2 pc taken prediction s1) (\<lambda>s2.
        (let s3 = s2\<lparr>q4_global_history_register :=
                       push_bit 1 (q4_global_history_register s2) + of_bool taken
                         AND Q4_GLOBAL_HISTORY_REGISTER_MASK\<rparr> in
         q4_adjust_chooser pc correct usingSimple choice s3))))"

section \<open>An executed instruction\<close>

text \<open>
  \<open>sim_main\<close> runs the predictors on each instruction whose opcode has the flag \<open>F_COND\<close>; the
  instruction is given by its opcode, its PC and the next PC its execution computed.
\<close>

definition predict_branch :: "md_addr \<Rightarrow> md_addr \<Rightarrow> lab2 \<Rightarrow> lab2 res" where
  "predict_branch pc npc s =
     (let s1 = static_branch pc npc (s\<lparr>sim_num_br := sim_num_br s + 1\<rparr>) in
      res_bind (bitsat_branch pc npc s1) (\<lambda>s2.
      res_bind (twolevel_branch pc npc s2) (\<lambda>s3.
      tournament_branch pc npc s3)))"

type_synonym executed = "nat \<times> md_addr \<times> md_addr"

definition sim_step :: "op_flags \<Rightarrow> executed \<Rightarrow> lab2 \<Rightarrow> lab2 res" where
  "sim_step fl e s =
     (case e of (op, pc, npc) \<Rightarrow> if has_flag fl F_COND op then predict_branch pc npc s else Inr s)"

fun sim_run :: "op_flags \<Rightarrow> executed list \<Rightarrow> lab2 \<Rightarrow> lab2 res" where
  "sim_run fl [] s = Inr s"
| "sim_run fl (e # es) s = res_bind (sim_step fl e s) (sim_run fl es)"

end
