(* ===== verification/Lab2_Laws.thy ===== *)
theory Lab2_Laws
  imports Lab2_Predictors
begin

text \<open>
  The lemmas of the lab 2 predictors: the fields of the PC as arithmetic, the invariant of the tables,
  the exact effect of each predictor on a state of the invariant, and the properties of whole runs.
\<close>


section \<open>Fields of the PC\<close>

lemma pc_field_mask:
  assumes "n + k \<le> 32"
  shows "pc_field pc (mask n) k = int (unat pc div 2 ^ k mod 2 ^ n)"
proof -
  have "drop_bit k (pc AND push_bit k (mask n)) AND mask n = drop_bit k pc AND mask n"
    using assms by (intro bit_word_eqI) (auto simp: bit_simps)
  then have "pc_field pc (mask n) k = int (unat (drop_bit k pc AND mask n))"
    by (simp only: pc_field_def) simp
  then show ?thesis
    by (simp only: unat_and_mask unat_drop_bit_div)
qed

lemma masks_32:
  "(0x0FFF :: u32) = mask 12" "(0x01FF :: u32) = mask 9" "(7 :: u32) = mask 3"
  "(0x3FFF :: u32) = mask 14" "(0x3F :: u32) = mask 6" "(0x1FFF :: u32) = mask 13"
  by (simp_all add: mask_eq_exp_minus_1)

definition bitsat_index :: "md_addr \<Rightarrow> nat" where
  "bitsat_index pc = unat pc div 8 mod 4096"

definition history_row :: "md_addr \<Rightarrow> nat" where
  "history_row pc = unat pc div 64 mod 512"

definition table_number :: "md_addr \<Rightarrow> nat" where
  "table_number pc = unat pc div 8 mod 8"

lemma pc_fields:
  "pc_field pc 0x0FFF 3 = int (bitsat_index pc)"
  "pc_field pc 0x01FF 6 = int (history_row pc)"
  "pc_field pc 0x0007 3 = int (table_number pc)"
  "pc_field pc Q4_CHOOSER_MASK OFFSET = int (unat pc div 8 mod 16384)"
  "pc_field pc Q4_SIMPLE_PRIVATE_PREDICTOR_PC_MASK OFFSET = int (unat pc div 8 mod 64)"
  "pc_field pc Q4_PRIVATE_BRANCH_HISTORY_MASK OFFSET = int (unat pc div 8 mod 8192)"
  "pc_field pc Q4_L2_PRIVATE_PREDICTOR_NUM_MASK OFFSET = int (table_number pc)"
  unfolding Q4_CHOOSER_MASK_def Q4_SIMPLE_PRIVATE_PREDICTOR_PC_MASK_def
    Q4_PRIVATE_BRANCH_HISTORY_MASK_def Q4_L2_PRIVATE_PREDICTOR_NUM_MASK_def OFFSET_def masks_32
    bitsat_index_def history_row_def table_number_def
  by (simp_all add: pc_field_mask)

lemma field_bounds [simp]:
  "bitsat_index pc < 4096" "history_row pc < 512" "table_number pc < 8"
  by (simp_all add: bitsat_index_def history_row_def table_number_def)

lemma field_not_above [simp]:
  "\<not> 4096 \<le> bitsat_index pc" "\<not> 512 \<le> history_row pc" "\<not> 8 \<le> table_number pc"
  by (simp_all add: not_le)

lemma arr_int [simp]:
  "arr_get xs (int i) = vec_get xs i"
  "arr_set xs (int i) x = vec_set xs i x"
  by (simp_all add: arr_get_def arr_set_def)

lemma arr_zero [simp]: "arr_get xs 0 = vec_get xs 0" "arr_set xs 0 x = vec_set xs 0 x"
  by (simp_all add: arr_get_def arr_set_def)

text \<open>A table entry of an array of arrays, updated in place.\<close>

definition cell_update :: "'a list list \<Rightarrow> nat \<Rightarrow> nat \<Rightarrow> 'a \<Rightarrow> 'a list list" where
  "cell_update xss i j x = xss[i := (xss ! i)[j := x]]"

lemma arr2_int:
  "i < length xss \<Longrightarrow> arr2_get xss (int i) (int j) = vec_get (xss ! i) j"
  "i < length xss \<Longrightarrow> j < length (xss ! i) \<Longrightarrow> arr2_set xss (int i) (int j) x = Inr (cell_update xss i j x)"
  by (simp_all add: arr2_get_def arr2_set_def cell_update_def)

lemma cell_update_same: "cell_update xss i j (xss ! i ! j) = xss"
  by (simp add: cell_update_def)

lemma length_cell_update [simp]: "length (cell_update xss i j x) = length xss"
  by (simp add: cell_update_def)

lemma nth_cell_update:
  assumes "i < length xss" and "j < length (xss ! i)"
  shows "cell_update xss i j x ! k ! l = (if k = i \<and> l = j then x else xss ! k ! l)"
  using assms by (auto simp: cell_update_def nth_list_update)

lemma length_nth_cell_update [simp]: "length (cell_update xss i j x ! k) = length (xss ! k)"
  by (cases "i < length xss"; cases "k = i") (simp_all add: cell_update_def list_update_beyond)

section \<open>One saturating counter\<close>

definition train :: "int \<Rightarrow> bool \<Rightarrow> int \<Rightarrow> int" where
  "train hi taken c = (if taken then (if c < hi then c + 1 else c) else (if c > 0 then c - 1 else c))"

definition wrong :: "bool \<Rightarrow> int \<Rightarrow> nat" where
  "wrong taken c = of_bool (taken \<noteq> (2 \<le> c))"

lemma train_range: "c \<in> {0..hi} \<Longrightarrow> train hi tk c \<in> {0..hi}"
  by (auto simp: train_def)

section \<open>The invariant and the effect of each predictor\<close>

definition table_ok :: "nat \<Rightarrow> int \<Rightarrow> int list \<Rightarrow> bool" where
  "table_ok n hi xs \<longleftrightarrow> length xs = n \<and> (\<forall>x \<in> set xs. 0 \<le> x \<and> x \<le> hi)"

definition tables_ok :: "nat \<Rightarrow> nat \<Rightarrow> int \<Rightarrow> int list list \<Rightarrow> bool" where
  "tables_ok m n hi xss \<longleftrightarrow> length xss = m \<and> (\<forall>xs \<in> set xss. table_ok n hi xs)"

lemma table_ok_nth: "table_ok n hi xs \<Longrightarrow> i < n \<Longrightarrow> 0 \<le> xs ! i \<and> xs ! i \<le> hi"
  by (auto simp: table_ok_def)

lemma table_ok_0: "table_ok n 0 xs \<Longrightarrow> i < n \<Longrightarrow> xs ! i = 0"
  using table_ok_nth by fastforce

lemma table_ok_update: "table_ok n hi xs \<Longrightarrow> 0 \<le> x \<Longrightarrow> x \<le> hi \<Longrightarrow> table_ok n hi (xs[i := x])"
  by (auto simp: table_ok_def dest: set_update_subset_insert [THEN subsetD])

lemma tables_ok_nth: "tables_ok m n hi xss \<Longrightarrow> i < m \<Longrightarrow> table_ok n hi (xss ! i)"
  by (auto simp: tables_ok_def)

lemma tables_ok_update:
  "tables_ok m n hi xss \<Longrightarrow> i < m \<Longrightarrow> 0 \<le> x \<Longrightarrow> x \<le> hi \<Longrightarrow> tables_ok m n hi (cell_update xss i j x)"
  unfolding cell_update_def tables_ok_def
  by (auto simp: table_ok_update dest!: set_update_subset_insert [THEN subsetD])

definition lab2_inv :: "lab2 \<Rightarrow> bool" where
  "lab2_inv s \<longleftrightarrow>
     table_ok 4096 3 (prediction_table_q2 s) \<and>
     table_ok 512 63 (branch_history_table_q3 s) \<and>
     tables_ok 8 64 3 (private_history_tables_q3 s) \<and>
     table_ok 16384 4 (q4_chooser s) \<and>
     table_ok 16384 4 (q4_simple_private_predictor s) \<and>
     table_ok 8192 0 (q4_private_branch_history s) \<and>
     tables_ok 8 64 4 (q4_l2_private_predictor s) \<and>
     (\<forall>i < 8. \<forall>j < 64. 0 < j \<longrightarrow> q4_l2_private_predictor s ! i ! j = 2) \<and>
     0 \<le> q4_global_history_register s \<and> q4_global_history_register s < 256"

lemma lab2_inv_init: "lab2_inv lab2_init"
  by (simp add: lab2_inv_def lab2_init_def table_ok_def tables_ok_def WEAKLY_NOT_TAKEN_def
      Q4_SATURATING_COUNTER_THRESHOLD_def Q4_CHOOSER_ROWS_def Q4_SIMPLE_PRIVATE_PREDICTOR_ROWS_def
      Q4_PRIVATE_BRANCH_HISTORY_ROWS_def Q4_L2_PRIVATE_PREDICTOR_NUM_def Q4_L2_PRIVATE_PREDICTOR_ROWS_def)

lemmas bitsat_states = STRONGLY_TAKEN_def WEAKLY_TAKEN_def WEAKLY_NOT_TAKEN_def STRONGLY_NOT_TAKEN_def

lemma counter_values:
  fixes c :: int
  shows "0 \<le> c \<Longrightarrow> c \<le> 3 \<Longrightarrow> c = 0 \<or> c = 1 \<or> c = 2 \<or> c = 3"
  by auto

lemma bitsat_effect:
  fixes pc npc :: md_addr
  assumes inv: "lab2_inv s"
  defines "c \<equiv> prediction_table_q2 s ! bitsat_index pc"
  shows "bitsat_branch pc npc s = Inr
    (s\<lparr>prediction_table_q2 := (prediction_table_q2 s)[bitsat_index pc := train 3 (is_taken pc npc) c],
       sim_num_mispred_2bitsat := sim_num_mispred_2bitsat s + wrong (is_taken pc npc) c\<rparr>)"
proof -
  have len: "length (prediction_table_q2 s) = 4096" and c: "0 \<le> c" "c \<le> 3"
    using inv table_ok_nth [of 4096 3 "prediction_table_q2 s" "bitsat_index pc"]
    by (auto simp: lab2_inv_def table_ok_def c_def)
  have reads: "vec_get (prediction_table_q2 s) (bitsat_index pc) = Inr c"
    using len by (simp add: c_def)
  have same: "(prediction_table_q2 s)[bitsat_index pc := c] = prediction_table_q2 s"
    by (simp add: c_def)
  show ?thesis
    unfolding bitsat_branch_def Let_def pc_fields
    using len same counter_values [OF c] 
    by (cases "is_taken pc npc"; elim disjE; simp add: reads bitsat_states wrong_def train_def)
qed


lemma history_mask_range: "0 \<le> (x::int) AND 63 \<and> (x::int) AND 63 \<le> 63"
  by (simp add: AND_upper2)

lemma twolevel_out_of_range:
  assumes inv: "lab2_inv s" and row: "64 \<le> history_row pc"
  shows "twolevel_branch pc npc s = Inl OutOfRange"
proof -
  have len: "length (branch_history_table_q3 s) = 512" "length (private_history_tables_q3 s) = 8"
    "length (private_history_tables_q3 s ! table_number pc) = 64"
    using inv tables_ok_nth [of 8 64 3 "private_history_tables_q3 s" "table_number pc"]
    by (auto simp: lab2_inv_def table_ok_def tables_ok_def)
  then show ?thesis
    unfolding twolevel_branch_def Let_def pc_fields
    using row by (simp add: arr2_int vec_get_def)
qed

lemma twolevel_effect:
  fixes pc npc :: md_addr
  assumes inv: "lab2_inv s" and row: "history_row pc < 64"
  defines "c \<equiv> private_history_tables_q3 s ! table_number pc ! history_row pc"
    and "h \<equiv> branch_history_table_q3 s ! history_row pc"
  shows "twolevel_branch pc npc s = Inr
    (s\<lparr>private_history_tables_q3 := cell_update (private_history_tables_q3 s) (table_number pc)
         (history_row pc) (train 3 (is_taken pc npc) c),
       branch_history_table_q3 := (branch_history_table_q3 s)
         [history_row pc := push_bit 1 h + of_bool (is_taken pc npc) AND 63],
       sim_num_mispred_2level := sim_num_mispred_2level s + wrong (is_taken pc npc) c\<rparr>)"
proof -
  have len: "length (branch_history_table_q3 s) = 512" "length (private_history_tables_q3 s) = 8"
    "length (private_history_tables_q3 s ! table_number pc) = 64" and c: "0 \<le> c" "c \<le> 3"
    using inv tables_ok_nth [of 8 64 3 "private_history_tables_q3 s" "table_number pc"]
      table_ok_nth [of 64 3 "private_history_tables_q3 s ! table_number pc" "history_row pc"] row
    by (auto simp: lab2_inv_def table_ok_def tables_ok_def c_def)
  have same: "cell_update (private_history_tables_q3 s) (table_number pc) (history_row pc) c
      = private_history_tables_q3 s"
    by (simp add: c_def cell_update_same)
  have reads: "vec_get (branch_history_table_q3 s) (history_row pc) = Inr h"
    "vec_get (private_history_tables_q3 s ! table_number pc) (history_row pc) = Inr c"
    using len row by (simp_all add: c_def h_def)
  show ?thesis
    unfolding twolevel_branch_def Let_def pc_fields
    using len same row counter_values [OF c]
    by (cases "is_taken pc npc"; elim disjE; simp add: reads arr2_int bitsat_states wrong_def train_def)
qed

lemmas q4_constants = Q4_SATURATING_COUNTER_THRESHOLD_def Q4_SATURATING_COUNTER_MAX_STATES_def
  Q4_GLOBAL_HISTORY_REGISTER_SIZE_def Q4_GLOBAL_HISTORY_REGISTER_MASK_def
  Q4_L2_PRIVATE_PREDICTOR_ROWS_MASK_def

definition chooser_index :: "md_addr \<Rightarrow> nat" where
  "chooser_index pc = unat pc div 8 mod 16384"

definition simple_index :: "md_addr \<Rightarrow> int \<Rightarrow> nat" where
  "simple_index pc g = 256 * (unat pc div 8 mod 64) + nat g"

lemma q4_simple_index_eq:
  assumes "0 \<le> q4_global_history_register s" "q4_global_history_register s < 256"
  shows "q4_simple_index pc s = int (simple_index pc (q4_global_history_register s))"
proof -
  obtain g where g: "q4_global_history_register s = int g" "g < 256"
    using assms by (metis nonneg_int_cases of_nat_less_numeral_iff)
  have dis: "push_bit 8 u OR g = push_bit 8 u + g" for u :: nat
  proof (rule disjunctive_add_eq_or [symmetric])
    have "\<not> bit g i" if "8 \<le> i" for i
    proof -
      have "g < 2 ^ i" using g(2) power_increasing [OF that, of "2::nat"] by simp
      then show ?thesis by (simp add: bit_iff_odd)
    qed
    then show "push_bit 8 u AND g = 0"
      by (auto simp: bit_eq_iff bit_simps)
  qed
  have "int (push_bit 8 (unat pc div 8 mod 64) OR g) = int (256 * (unat pc div 8 mod 64) + g)"
    using dis [of "unat pc div 8 mod 64"] by (simp only: push_bit_eq_mult) simp
  then show ?thesis
    unfolding q4_simple_index_def pc_fields Q4_GLOBAL_HISTORY_REGISTER_SIZE_def simple_index_def g(1)
    by (simp only: of_nat_or_eq of_nat_push_bit nat_int)
qed

lemma simple_index_less: "g < 256 \<Longrightarrow> 0 \<le> g \<Longrightarrow> simple_index pc g < 16384"
proof -
  assume "g < 256" "0 \<le> g"
  moreover have "unat pc div 8 mod 64 < 64" by simp
  ultimately show ?thesis unfolding simple_index_def by linarith
qed

lemma history_never_kept: "of_bool tk AND push_bit 3 (0x3F :: int) = 0"
  by (cases tk) simp_all

lemma chooser_index_less [simp]: "chooser_index pc < 16384"
  by (simp add: chooser_index_def)

text \<open>
  The effect of the tournament predictor: the local side reads and trains the counter of the
  branch's table at history 0 whatever the branch did before.
\<close>

definition q4_global_next :: "bool \<Rightarrow> int \<Rightarrow> int" where
  "q4_global_next taken g = push_bit 1 g + of_bool taken AND 255"

lemma q4_global_next_range: "0 \<le> q4_global_next tk g \<and> q4_global_next tk g < 256"
  by (simp add: q4_global_next_def AND_upper2'' order.strict_trans1 [OF AND_upper2])

definition tournament_effect :: "md_addr \<Rightarrow> bool \<Rightarrow> lab2 \<Rightarrow> lab2" where
  "tournament_effect pc tk s =
     (let choice = q4_chooser s ! chooser_index pc;
          i = simple_index pc (q4_global_history_register s);
          p = (if choice \<ge> 2 then q4_simple_private_predictor s ! i
               else q4_l2_private_predictor s ! table_number pc ! 0);
          correct = (tk = (2 \<le> p)) in
      s\<lparr>sim_num_mispred_openend := sim_num_mispred_openend s + wrong tk p,
        q4_simple_private_predictor := (if choice \<ge> 2
          then (q4_simple_private_predictor s)[i := train 4 tk p] else q4_simple_private_predictor s),
        q4_l2_private_predictor := (if choice \<ge> 2 then q4_l2_private_predictor s
          else cell_update (q4_l2_private_predictor s) (table_number pc) 0 (train 4 tk p)),
        q4_global_history_register := q4_global_next tk (q4_global_history_register s),
        q4_chooser := (q4_chooser s)[chooser_index pc :=
          train 4 (correct = (choice \<ge> 2)) choice]\<rparr>)"

lemma q4_predict_effect:
  fixes s :: lab2 and pc :: md_addr
  assumes inv: "lab2_inv s"
  defines "ch \<equiv> q4_chooser s ! chooser_index pc"
  shows "q4_predict pc s = Inr (ch, ch \<ge> 2,
    if ch \<ge> 2 then q4_simple_private_predictor s ! simple_index pc (q4_global_history_register s)
    else q4_l2_private_predictor s ! table_number pc ! 0)"
proof -
  have g: "0 \<le> q4_global_history_register s" "q4_global_history_register s < 256"
    using inv by (auto simp: lab2_inv_def)
  have len: "length (q4_chooser s) = 16384" "length (q4_simple_private_predictor s) = 16384"
    "length (q4_l2_private_predictor s) = 8" "length (q4_l2_private_predictor s ! table_number pc) = 64"
    and hist: "table_ok 8192 0 (q4_private_branch_history s)"
    using inv tables_ok_nth [of 8 64 4 "q4_l2_private_predictor s" "table_number pc"]
    by (auto simp: lab2_inv_def table_ok_def tables_ok_def)
  have l2: "arr2_get (q4_l2_private_predictor s) (int (table_number pc)) 0
      = Inr (q4_l2_private_predictor s ! table_number pc ! 0)"
    using arr2_int(1) [of "table_number pc" "q4_l2_private_predictor s" 0] len by simp
  show ?thesis
    unfolding q4_predict_def pc_fields q4_simple_index_eq [OF g]
    using len hist table_ok_0 [OF hist, of "unat pc div 8 mod 8192"] l2 simple_index_less [OF g(2,1)]
    by (simp add: q4_constants ch_def table_ok_def flip: chooser_index_def)
qed

lemma q4_adjust_simple_effect:
  fixes s :: lab2 and pc :: md_addr
  assumes g: "0 \<le> q4_global_history_register s" "q4_global_history_register s < 256"
    and len: "length (q4_simple_private_predictor s) = 16384"
  defines "i \<equiv> simple_index pc (q4_global_history_register s)"
  defines "p \<equiv> q4_simple_private_predictor s ! i"
  shows "q4_adjust_simple pc tk p s = Inr
    (s\<lparr>q4_simple_private_predictor := (q4_simple_private_predictor s)[i := train 4 tk p]\<rparr>)"
proof -
  have same: "(q4_simple_private_predictor s)[i := p] = q4_simple_private_predictor s"
    by (simp add: p_def)
  have "i < 16384" using simple_index_less [OF g(2,1)] by (simp add: i_def)
  then show ?thesis
    unfolding q4_adjust_simple_def Let_def q4_simple_index_eq [OF g] i_def [symmetric]
    using len same by (simp add: q4_constants train_def)
qed

lemma q4_adjust_l2_effect:
  fixes s :: lab2 and pc :: md_addr
  assumes inv: "lab2_inv s"
  defines "p \<equiv> q4_l2_private_predictor s ! table_number pc ! 0"
  shows "q4_adjust_l2 pc tk p s = Inr
    (s\<lparr>q4_l2_private_predictor := cell_update (q4_l2_private_predictor s) (table_number pc) 0 (train 4 tk p)\<rparr>)"
proof -
  have len: "length (q4_l2_private_predictor s) = 8" "length (q4_l2_private_predictor s ! table_number pc) = 64"
    using inv tables_ok_nth [of 8 64 4 "q4_l2_private_predictor s" "table_number pc"]
    by (auto simp: lab2_inv_def table_ok_def tables_ok_def)
  have same: "cell_update (q4_l2_private_predictor s) (table_number pc) 0 p = q4_l2_private_predictor s"
    by (simp add: p_def cell_update_same)
  have set: "arr2_set (q4_l2_private_predictor s) (int (table_number pc)) 0 x
      = Inr (cell_update (q4_l2_private_predictor s) (table_number pc) 0 x)" for x
    using arr2_int(2) [of "table_number pc" "q4_l2_private_predictor s" 0] len by simp
  define H j where "H = q4_private_branch_history s" and "j = unat pc div 8 mod 8192"
  have H: "vec_get H j = Inr 0" "vec_set H j 0 = Inr H"
  proof -
    have j: "j < 8192" by (simp add: j_def)
    have H': "table_ok 8192 0 H" using inv by (simp add: lab2_inv_def H_def)
    have len: "length H = 8192" and at: "H ! j = 0"
      using H' table_ok_0 [OF H' j] by (simp_all add: table_ok_def)
    show "vec_get H j = Inr 0" using len at j by simp
    show "vec_set H j 0 = Inr H" using len at j by (metis list_update_id vec_set_in)
  qed
  have zero: "push_bit 1 0 + of_bool tk AND push_bit 3 63 = (0 :: int)"
    by (cases tk) simp_all
  have step: "(if tk
      then if p < 4 then arr2_set (q4_l2_private_predictor s) (int (table_number pc)) 0 (p + 1)
           else Inr (q4_l2_private_predictor s)
      else if p > 0 then arr2_set (q4_l2_private_predictor s) (int (table_number pc)) 0 (p - 1)
           else Inr (q4_l2_private_predictor s))
    = Inr (cell_update (q4_l2_private_predictor s) (table_number pc) 0 (train 4 tk p))"
    using same by (simp add: set train_def)
  have kept: "s\<lparr>q4_l2_private_predictor := t, q4_private_branch_history := H\<rparr>
      = s\<lparr>q4_l2_private_predictor := t\<rparr>" for t
    by (simp add: H_def)
  show ?thesis
    unfolding q4_adjust_l2_def Let_def pc_fields q4_constants arr_int H_def [symmetric] j_def [symmetric]
      H res_bind_simps step zero kept ..
qed

lemma q4_adjust_chooser_effect:
  fixes s :: lab2 and pc :: md_addr
  assumes len: "length (q4_chooser s) = 16384"
  defines "ch \<equiv> q4_chooser s ! chooser_index pc"
  shows "q4_adjust_chooser pc correct us ch s = Inr
    (s\<lparr>q4_chooser := (q4_chooser s)[chooser_index pc := train 4 (correct = us) ch]\<rparr>)"
proof -
  have same: "(q4_chooser s)[chooser_index pc := ch] = q4_chooser s" by (simp add: ch_def)
  show ?thesis
    unfolding q4_adjust_chooser_def Let_def pc_fields chooser_index_def [symmetric]
    using len same by (simp add: q4_constants train_def)
qed

lemma tournament_branch_effect:
  fixes pc npc :: md_addr
  assumes inv: "lab2_inv s"
  shows "tournament_branch pc npc s = Inr (tournament_effect pc (is_taken pc npc) s)"
proof -
  define tk where "tk = is_taken pc npc"
  define g where "g = q4_global_history_register s"
  define ch where "ch = q4_chooser s ! chooser_index pc"
  define p where "p = (if ch \<ge> 2 then q4_simple_private_predictor s ! simple_index pc g
    else q4_l2_private_predictor s ! table_number pc ! 0)"
  define correct where "correct \<longleftrightarrow> tk = (2 \<le> p)"
  define s1 where "s1 = s\<lparr>sim_num_mispred_openend := sim_num_mispred_openend s + wrong tk p\<rparr>"
  have read: "q4_predict pc s = Inr (ch, ch \<ge> 2, p)"
    using q4_predict_effect [OF inv] by (simp add: ch_def p_def g_def)
  have ok: "(if \<not> tk then \<not> Q4_SATURATING_COUNTER_THRESHOLD \<le> p
      else \<not> p < Q4_SATURATING_COUNTER_THRESHOLD) = correct"
    by (auto simp: q4_constants correct_def)
  have count: "(if correct then s else s\<lparr>sim_num_mispred_openend := sim_num_mispred_openend s + 1\<rparr>) = s1"
    by (auto simp: s1_def correct_def wrong_def)
  have inv1: "lab2_inv s1" using inv by (simp add: s1_def lab2_inv_def)
  define s2 where "s2 = s1\<lparr>q4_simple_private_predictor := (if ch \<ge> 2
       then (q4_simple_private_predictor s)[simple_index pc g := train 4 tk p] else q4_simple_private_predictor s),
     q4_l2_private_predictor := (if ch \<ge> 2 then q4_l2_private_predictor s
          else cell_update (q4_l2_private_predictor s) (table_number pc) 0 (train 4 tk p))\<rparr>"
  have adjust: "(if ch \<ge> 2 then q4_adjust_simple pc tk p s1 else q4_adjust_l2 pc tk p s1) = Inr s2"
  proof (cases "ch \<ge> 2")
    case True
    have "q4_adjust_simple pc tk (q4_simple_private_predictor s1 ! simple_index pc (q4_global_history_register s1)) s1 = Inr
      (s1\<lparr>q4_simple_private_predictor := (q4_simple_private_predictor s1)
        [simple_index pc (q4_global_history_register s1) := train 4 tk
          (q4_simple_private_predictor s1 ! simple_index pc (q4_global_history_register s1))]\<rparr>)"
      using inv1 by (intro q4_adjust_simple_effect) (simp_all add: lab2_inv_def table_ok_def)
    then show ?thesis using True by (simp add: s2_def s1_def p_def g_def)
  next
    case False
    then show ?thesis
      using q4_adjust_l2_effect [OF inv1, of pc tk] by (simp add: s2_def s1_def p_def)
  qed
  define s3 where "s3 = s2\<lparr>q4_global_history_register := q4_global_next tk g\<rparr>"
  have hist: "s2\<lparr>q4_global_history_register := push_bit 1 (q4_global_history_register s2) + of_bool tk
      AND Q4_GLOBAL_HISTORY_REGISTER_MASK\<rparr> = s3"
    by (simp add: s3_def s2_def s1_def g_def q4_global_next_def q4_constants)
  have "length (q4_chooser s3) = 16384" "q4_chooser s3 ! chooser_index pc = ch"
    using inv by (simp_all add: s3_def s2_def s1_def lab2_inv_def table_ok_def ch_def)
  then have choose: "q4_adjust_chooser pc correct (ch \<ge> 2) ch s3 = Inr (s3\<lparr>q4_chooser :=
      (q4_chooser s3)[chooser_index pc := train 4 (correct = (ch \<ge> 2)) ch]\<rparr>)"
    using q4_adjust_chooser_effect by metis
  show ?thesis
    unfolding tournament_branch_def read res_bind_simps prod.case Let_def tk_def [symmetric] ok count
      adjust hist choose
    by (simp add: tournament_effect_def Let_def s3_def s2_def s1_def flip: ch_def g_def)
      (simp add: p_def correct_def tk_def)
qed

section \<open>The effect of a branch\<close>

definition bitsat_trained :: "md_addr \<Rightarrow> bool \<Rightarrow> lab2 \<Rightarrow> lab2" where
  "bitsat_trained pc tk s =
     (let c = prediction_table_q2 s ! bitsat_index pc in
      s\<lparr>prediction_table_q2 := (prediction_table_q2 s)[bitsat_index pc := train 3 tk c],
        sim_num_mispred_2bitsat := sim_num_mispred_2bitsat s + wrong tk c\<rparr>)"

definition twolevel_trained :: "md_addr \<Rightarrow> bool \<Rightarrow> lab2 \<Rightarrow> lab2" where
  "twolevel_trained pc tk s =
     (let c = private_history_tables_q3 s ! table_number pc ! history_row pc;
          h = branch_history_table_q3 s ! history_row pc in
      s\<lparr>private_history_tables_q3 :=
          cell_update (private_history_tables_q3 s) (table_number pc) (history_row pc) (train 3 tk c),
        branch_history_table_q3 :=
          (branch_history_table_q3 s)[history_row pc := push_bit 1 h + of_bool tk AND 63],
        sim_num_mispred_2level := sim_num_mispred_2level s + wrong tk c\<rparr>)"

definition branch_effect :: "md_addr \<Rightarrow> md_addr \<Rightarrow> lab2 \<Rightarrow> lab2" where
  "branch_effect pc npc s =
     (let tk = is_taken pc npc in
      tournament_effect pc tk (twolevel_trained pc tk (bitsat_trained pc tk
        (static_branch pc npc (s\<lparr>sim_num_br := sim_num_br s + 1\<rparr>)))))"

lemma tournament_fields:
  "sim_num_mispred_2bitsat (tournament_effect pc tk s) = sim_num_mispred_2bitsat s"
  "sim_num_mispred_2level (tournament_effect pc tk s) = sim_num_mispred_2level s"
  "sim_num_mispred_static (tournament_effect pc tk s) = sim_num_mispred_static s"
  "sim_num_br (tournament_effect pc tk s) = sim_num_br s"
  "prediction_table_q2 (tournament_effect pc tk s) = prediction_table_q2 s"
  "private_history_tables_q3 (tournament_effect pc tk s) = private_history_tables_q3 s"
  unfolding tournament_effect_def Let_def by simp_all

lemma twolevel_fields:
  "sim_num_mispred_2bitsat (twolevel_trained pc tk s) = sim_num_mispred_2bitsat s"
  "sim_num_mispred_2level (twolevel_trained pc tk s) = sim_num_mispred_2level s
     + wrong tk (private_history_tables_q3 s ! table_number pc ! history_row pc)"
  "sim_num_mispred_static (twolevel_trained pc tk s) = sim_num_mispred_static s"
  "sim_num_br (twolevel_trained pc tk s) = sim_num_br s"
  "prediction_table_q2 (twolevel_trained pc tk s) = prediction_table_q2 s"
  "private_history_tables_q3 (twolevel_trained pc tk s) = cell_update (private_history_tables_q3 s)
     (table_number pc) (history_row pc) (train 3 tk (private_history_tables_q3 s ! table_number pc ! history_row pc))"
  unfolding twolevel_trained_def Let_def by simp_all

lemma bitsat_fields:
  "sim_num_mispred_2bitsat (bitsat_trained pc tk s) = sim_num_mispred_2bitsat s
     + wrong tk (prediction_table_q2 s ! bitsat_index pc)"
  "sim_num_mispred_2level (bitsat_trained pc tk s) = sim_num_mispred_2level s"
  "sim_num_mispred_static (bitsat_trained pc tk s) = sim_num_mispred_static s"
  "sim_num_br (bitsat_trained pc tk s) = sim_num_br s"
  "prediction_table_q2 (bitsat_trained pc tk s) = (prediction_table_q2 s)
     [bitsat_index pc := train 3 tk (prediction_table_q2 s ! bitsat_index pc)]"
  "private_history_tables_q3 (bitsat_trained pc tk s) = private_history_tables_q3 s"
  unfolding bitsat_trained_def Let_def by simp_all

lemma static_fields:
  "sim_num_mispred_2bitsat (static_branch pc npc (s\<lparr>sim_num_br := n\<rparr>)) = sim_num_mispred_2bitsat s"
  "sim_num_mispred_2level (static_branch pc npc (s\<lparr>sim_num_br := n\<rparr>)) = sim_num_mispred_2level s"
  "sim_num_mispred_static (static_branch pc npc (s\<lparr>sim_num_br := n\<rparr>))
     = sim_num_mispred_static s + of_bool (is_taken pc npc)"
  "sim_num_br (static_branch pc npc (s\<lparr>sim_num_br := n\<rparr>)) = n"
  "prediction_table_q2 (static_branch pc npc (s\<lparr>sim_num_br := n\<rparr>)) = prediction_table_q2 s"
  "private_history_tables_q3 (static_branch pc npc (s\<lparr>sim_num_br := n\<rparr>)) = private_history_tables_q3 s"
  unfolding static_branch_def by simp_all

lemma train_3_range: "0 \<le> c \<Longrightarrow> c \<le> 3 \<Longrightarrow> 0 \<le> train 3 tk c \<and> train 3 tk c \<le> 3"
  by (simp add: train_def)

lemma train_4_range: "0 \<le> c \<Longrightarrow> c \<le> 4 \<Longrightarrow> 0 \<le> train 4 tk c \<and> train 4 tk c \<le> 4"
  by (simp add: train_def)

lemma bitsat_trained_inv:
  assumes "lab2_inv s" shows "lab2_inv (bitsat_trained pc tk s)"
proof -
  have t: "table_ok 4096 3 (prediction_table_q2 s)" using assms by (simp add: lab2_inv_def)
  have "table_ok 4096 3 ((prediction_table_q2 s)[bitsat_index pc :=
      train 3 tk (prediction_table_q2 s ! bitsat_index pc)])"
    using table_ok_nth [OF t, of "bitsat_index pc"] train_3_range t by (intro table_ok_update) auto
  then show ?thesis using assms by (simp add: bitsat_trained_def Let_def lab2_inv_def)
qed

lemma twolevel_trained_inv:
  assumes "lab2_inv s" and row: "history_row pc < 64"
  shows "lab2_inv (twolevel_trained pc tk s)"
proof -
  have t: "tables_ok 8 64 3 (private_history_tables_q3 s)" and h: "table_ok 512 63 (branch_history_table_q3 s)"
    using assms by (simp_all add: lab2_inv_def)
  have "tables_ok 8 64 3 (cell_update (private_history_tables_q3 s) (table_number pc) (history_row pc)
      (train 3 tk (private_history_tables_q3 s ! table_number pc ! history_row pc)))"
    using table_ok_nth [OF tables_ok_nth [OF t, of "table_number pc"] row] train_3_range t
    by (intro tables_ok_update) auto
  moreover have "table_ok 512 63 ((branch_history_table_q3 s)[history_row pc := x AND 63])" for x
    using table_ok_update [OF h] history_mask_range by blast
  ultimately show ?thesis using assms by (simp add: twolevel_trained_def Let_def lab2_inv_def)
qed

lemma tournament_effect_inv:
  assumes inv: "lab2_inv s" shows "lab2_inv (tournament_effect pc tk s)"
proof -
  define i where "i = simple_index pc (q4_global_history_register s)"
  have i: "i < 16384" using inv simple_index_less by (simp add: lab2_inv_def i_def)
  have t: "table_ok 16384 4 (q4_chooser s)" "table_ok 16384 4 (q4_simple_private_predictor s)"
    "tables_ok 8 64 4 (q4_l2_private_predictor s)"
    using inv by (simp_all add: lab2_inv_def)
  have "table_ok 16384 4 ((q4_chooser s)[chooser_index pc := train 4 x (q4_chooser s ! chooser_index pc)])" for x
    using table_ok_nth [OF t(1), of "chooser_index pc"] train_4_range t(1) by (intro table_ok_update) auto
  moreover have "table_ok 16384 4 ((q4_simple_private_predictor s)
      [i := train 4 tk (q4_simple_private_predictor s ! i)])"
    using table_ok_nth [OF t(2) i] train_4_range t(2) by (intro table_ok_update) auto
  moreover have "tables_ok 8 64 4 (cell_update (q4_l2_private_predictor s) (table_number pc) 0
      (train 4 tk (q4_l2_private_predictor s ! table_number pc ! 0)))"
    using table_ok_nth [OF tables_ok_nth [OF t(3), of "table_number pc"], of 0] train_4_range t(3)
    by (intro tables_ok_update) auto
  moreover have "cell_update (q4_l2_private_predictor s) (table_number pc) 0 x ! n ! j
      = q4_l2_private_predictor s ! n ! j" if "0 < j" for n j x
    using that t(3) tables_ok_nth [OF t(3), of "table_number pc"]
    by (subst nth_cell_update) (auto simp: tables_ok_def table_ok_def)
  ultimately show ?thesis
    using inv q4_global_next_range by (auto simp: tournament_effect_def Let_def lab2_inv_def simp flip: i_def)
qed

lemma static_branch_inv: "lab2_inv s \<Longrightarrow> lab2_inv (static_branch pc npc (s\<lparr>sim_num_br := n\<rparr>))"
  by (simp add: static_branch_def lab2_inv_def)

lemma branch_effect_inv:
  "lab2_inv s \<Longrightarrow> history_row pc < 64 \<Longrightarrow> lab2_inv (branch_effect pc npc s)"
  unfolding branch_effect_def Let_def
  by (intro tournament_effect_inv twolevel_trained_inv bitsat_trained_inv static_branch_inv)

lemma predict_branch_effect:
  assumes "lab2_inv s"
  shows "predict_branch pc npc s
    = (if history_row pc < 64 then Inr (branch_effect pc npc s) else Inl OutOfRange)"
proof -
  define s1 where "s1 = static_branch pc npc (s\<lparr>sim_num_br := sim_num_br s + 1\<rparr>)"
  have inv1: "lab2_inv s1" using static_branch_inv [OF assms] by (simp add: s1_def)
  have 1: "bitsat_branch pc npc s1 = Inr (bitsat_trained pc (is_taken pc npc) s1)"
    using bitsat_effect [OF inv1] by (simp add: bitsat_trained_def Let_def)
  note inv2 = bitsat_trained_inv [OF inv1, of pc "is_taken pc npc"]
  show ?thesis
  proof (cases "history_row pc < 64")
    case True
    have "twolevel_branch pc npc (bitsat_trained pc (is_taken pc npc) s1)
        = Inr (twolevel_trained pc (is_taken pc npc) (bitsat_trained pc (is_taken pc npc) s1))"
      using twolevel_effect [OF inv2 True] by (simp add: twolevel_trained_def Let_def)
    then show ?thesis
      using True tournament_branch_effect [OF twolevel_trained_inv [OF inv2 True]]
      unfolding predict_branch_def branch_effect_def Let_def s1_def [symmetric] 1 res_bind_simps by simp
  next
    case False
    then show ?thesis
      unfolding predict_branch_def Let_def s1_def [symmetric] 1 res_bind_simps
      using twolevel_out_of_range [OF inv2] by simp
  qed
qed

section \<open>Whole runs\<close>

text \<open>The conditional branches of an execution, and whether each is in the range of the tables.\<close>

definition branches :: "op_flags \<Rightarrow> executed list \<Rightarrow> (md_addr \<times> md_addr) list" where
  "branches fl es = map snd (filter (\<lambda>e. has_flag fl F_COND (fst e)) es)"

lemma branches_simps [simp]:
  "branches fl [] = []"
  "branches fl ((op, pc, npc) # es) =
     (if has_flag fl F_COND op then [(pc, npc)] else []) @ branches fl es"
  by (simp_all add: branches_def)

definition run_effect :: "(md_addr \<times> md_addr) list \<Rightarrow> lab2 \<Rightarrow> lab2" where
  "run_effect bs s = fold (\<lambda>(pc, npc). branch_effect pc npc) bs s"

definition in_tables :: "md_addr \<times> md_addr \<Rightarrow> bool" where
  "in_tables b \<longleftrightarrow> history_row (fst b) < 64"

lemma run_effect_inv:
  "lab2_inv s \<Longrightarrow> list_all in_tables bs \<Longrightarrow> lab2_inv (run_effect bs s)"
  by (induction bs arbitrary: s) (auto simp: run_effect_def in_tables_def branch_effect_inv)

lemma sim_run_effect:
  "lab2_inv s \<Longrightarrow> sim_run fl es s =
    (if list_all in_tables (branches fl es) then Inr (run_effect (branches fl es) s) else Inl OutOfRange)"
proof (induction es arbitrary: s)
  case Nil
  show ?case by (simp add: run_effect_def)
next
  case (Cons e es)
  obtain op pc npc where e: "e = (op, pc, npc)" by (cases e)
  show ?case
    using Cons.IH [OF branch_effect_inv [OF Cons.prems]] Cons.IH [OF Cons.prems]
    by (auto simp: e sim_step_def predict_branch_effect [OF Cons.prems] in_tables_def run_effect_def)
qed

lemmas lab2_run_effect = sim_run_effect [OF lab2_inv_init]

lemma lab2_run_Inr:
  "sim_run fl es lab2_init = Inr s \<longleftrightarrow>
     list_all in_tables (branches fl es) \<and> s = run_effect (branches fl es) lab2_init"
  by (auto simp: lab2_run_effect)

text \<open>The row of a PC is inside the 64 columns exactly when its bits 12 to 14 are zero.\<close>

lemma in_tables_bits: "in_tables (pc, npc) \<longleftrightarrow> pc AND 0x7000 = 0"
proof -
  have m: "(0x7000 :: u32) = push_bit 12 (mask 3)" by (simp add: mask_eq_exp_minus_1)
  have "pc AND 0x7000 = push_bit 12 (drop_bit 12 pc AND mask 3)"
    unfolding m by (rule bit_word_eqI) (auto simp: bit_simps)
  moreover have "drop_bit 12 (pc AND 0x7000) = drop_bit 12 pc AND mask 3"
    unfolding m by (rule bit_word_eqI) (auto simp: bit_simps)
  ultimately have "pc AND 0x7000 = 0 \<longleftrightarrow> drop_bit 12 pc AND mask 3 = 0"
    by (metis drop_bit_of_0 push_bit_of_0)
  also have "\<dots> \<longleftrightarrow> unat pc div 4096 mod 8 = 0"
    using unat_and_mask [of "drop_bit 12 pc" 3]
    by (simp add: word_eq_0_unat unat_drop_bit_div)
  also have "\<dots> \<longleftrightarrow> unat pc div 64 mod 512 < 64"
  proof -
    have "unat pc div 64 mod 512 = 64 * (unat pc div 64 div 64 mod 8) + unat pc div 64 mod 64"
      using mod_mult2_eq [of "unat pc div 64" 64 8] by simp
    moreover have "unat pc div 64 mod 64 < 64" by simp
    moreover have "(a = 0) = (64 * a + b < 64)" if "b < 64" for a b :: nat
      using that by (cases a) auto
    ultimately show ?thesis by (simp add: div_mult2_eq [symmetric])
  qed
  finally show ?thesis by (simp add: in_tables_def history_row_def)
qed

section \<open>Properties\<close>

text \<open>a run of the simulator from its initial tables returns exactly when every conditional branch
  has bits 12 to 14 of its PC zero; otherwise it reads past the 64 columns of the private history
  tables of the two-level predictor.  None of the panics is reached.\<close>

theorem lab2_run_returns_iff:
  "sim_run fl es lab2_init = Inl e \<longleftrightarrow>
     e = OutOfRange \<and> (\<exists>(op, pc, npc) \<in> set es. has_flag fl F_COND op \<and> pc AND 0x7000 \<noteq> 0)"
proof -
  have "list_all in_tables (branches fl es) \<longleftrightarrow>
      (\<forall>(op, pc, npc) \<in> set es. has_flag fl F_COND op \<longrightarrow> pc AND 0x7000 = 0)"
    by (induction es) (auto simp: in_tables_bits)
  then show ?thesis by (auto simp: lab2_run_effect)
qed

lemma effect_fields:
  "sim_num_mispred_2bitsat (branch_effect pc npc s) = sim_num_mispred_2bitsat s
     + wrong (is_taken pc npc) (prediction_table_q2 s ! bitsat_index pc)"
  "sim_num_mispred_2level (branch_effect pc npc s) = sim_num_mispred_2level s
     + wrong (is_taken pc npc) (private_history_tables_q3 s ! table_number pc ! history_row pc)"
  "prediction_table_q2 (branch_effect pc npc s) = (prediction_table_q2 s)[bitsat_index pc :=
     train 3 (is_taken pc npc) (prediction_table_q2 s ! bitsat_index pc)]"
  "private_history_tables_q3 (branch_effect pc npc s) = cell_update (private_history_tables_q3 s)
     (table_number pc) (history_row pc)
     (train 3 (is_taken pc npc) (private_history_tables_q3 s ! table_number pc ! history_row pc))"
  unfolding branch_effect_def Let_def tournament_fields twolevel_fields bitsat_fields static_fields
  by (rule refl)+

lemma branch_effect_keeps_pairing:
  assumes inv: "lab2_inv s" and row: "history_row pc < 64"
    and eq: "sim_num_mispred_2level s = sim_num_mispred_2bitsat s"
    and tables: "\<And>n r. n < 8 \<Longrightarrow> r < 64 \<Longrightarrow>
      private_history_tables_q3 s ! n ! r = prediction_table_q2 s ! (8 * r + n)"
  shows "sim_num_mispred_2level (branch_effect pc npc s) = sim_num_mispred_2bitsat (branch_effect pc npc s)"
    and "n < 8 \<Longrightarrow> r < 64 \<Longrightarrow> private_history_tables_q3 (branch_effect pc npc s) ! n ! r
      = prediction_table_q2 (branch_effect pc npc s) ! (8 * r + n)"
proof -
  have len: "length (prediction_table_q2 s) = 4096" "length (private_history_tables_q3 s) = 8"
    "length (private_history_tables_q3 s ! table_number pc) = 64"
    using inv tables_ok_nth [of 8 64 3 "private_history_tables_q3 s" "table_number pc"]
    by (auto simp: lab2_inv_def table_ok_def tables_ok_def)
  have index: "bitsat_index pc = 8 * history_row pc + table_number pc"
  proof -
    have "unat pc div 8 mod 4096 = 8 * (unat pc div 64 mod 512) + unat pc div 8 mod 8"
      using mod_mult2_eq [of "unat pc div 8" 8 512] by (simp add: div_mult2_eq [symmetric])
    then show ?thesis by (simp add: bitsat_index_def history_row_def table_number_def)
  qed
  have split: "8 * r + n = 8 * r' + n' \<longleftrightarrow> r = r' \<and> n = n'" if "n < 8" "n' < 8" for r r' n n' :: nat
  proof -
    have "(8 * a + b) div 8 = a \<and> (8 * a + b) mod 8 = b" if "b < 8" for a b :: nat
      using that by simp
    then show ?thesis using that by metis
  qed
  have same: "private_history_tables_q3 s ! table_number pc ! history_row pc
      = prediction_table_q2 s ! bitsat_index pc"
    using tables [of "table_number pc" "history_row pc"] row by (simp add: index)
  show "sim_num_mispred_2level (branch_effect pc npc s) = sim_num_mispred_2bitsat (branch_effect pc npc s)"
    by (simp only: effect_fields eq same)
  show "private_history_tables_q3 (branch_effect pc npc s) ! n ! r
      = prediction_table_q2 (branch_effect pc npc s) ! (8 * r + n)" if n: "n < 8" and r: "r < 64"
  proof -
    have at: "bitsat_index pc = 8 * r + n \<longleftrightarrow> n = table_number pc \<and> r = history_row pc"
      using split [of n "table_number pc" r "history_row pc"] n by (auto simp: index)
    have cell: "cell_update (private_history_tables_q3 s) (table_number pc) (history_row pc) x ! n ! r
        = (if n = table_number pc \<and> r = history_row pc then x else private_history_tables_q3 s ! n ! r)" for x
      using len row by (intro nth_cell_update) auto
    have entry: "(prediction_table_q2 s)[bitsat_index pc := x] ! (8 * r + n)
        = (if n = table_number pc \<and> r = history_row pc then x else prediction_table_q2 s ! (8 * r + n))" for x
      using len by (simp add: nth_list_update at [symmetric])
    show ?thesis unfolding effect_fields cell entry same tables [OF n r] ..
  qed
qed

lemma run_keeps_pairing:
  assumes "lab2_inv s" and "list_all in_tables bs"
    and "sim_num_mispred_2level s = sim_num_mispred_2bitsat s"
    and "\<And>n r. n < 8 \<Longrightarrow> r < 64 \<Longrightarrow>
      private_history_tables_q3 s ! n ! r = prediction_table_q2 s ! (8 * r + n)"
  shows "sim_num_mispred_2level (run_effect bs s) = sim_num_mispred_2bitsat (run_effect bs s) \<and>
    (\<forall>n < 8. \<forall>r < 64. private_history_tables_q3 (run_effect bs s) ! n ! r
      = prediction_table_q2 (run_effect bs s) ! (8 * r + n))"
  using assms
proof (induction bs arbitrary: s)
  case Nil
  then show ?case by (simp add: run_effect_def)
next
  case (Cons b bs)
  obtain pc npc where b: "b = (pc, npc)" by (cases b)
  have row: "history_row pc < 64" using Cons.prems(2) by (simp add: b in_tables_def)
  show ?case
    using Cons.IH [OF branch_effect_inv [OF Cons.prems(1) row, of npc]] Cons.prems(2)
      branch_effect_keeps_pairing [OF Cons.prems(1) row Cons.prems(3,4)]
    by (simp add: run_effect_def b)
qed

text \<open>C16: on every run that returns, the two-level predictor is the table of 2-bit counters: entry
  \<open>r\<close> of private history table \<open>n\<close> is entry \<open>8 r + n\<close> of the 2-bit table, and both report the same
  number of mispredictions.  The branch history the two-level predictor records selects nothing.\<close>

theorem twolevel_equals_bitsat:
  assumes "sim_run fl es lab2_init = Inr s"
  shows "sim_num_mispred_2level s = sim_num_mispred_2bitsat s \<and>
    (\<forall>n < 8. \<forall>r < 64. private_history_tables_q3 s ! n ! r = prediction_table_q2 s ! (8 * r + n))"
proof -
  have count: "sim_num_mispred_2level lab2_init = sim_num_mispred_2bitsat lab2_init"
    by (simp add: lab2_init_def)
  have tables: "private_history_tables_q3 lab2_init ! n ! r = prediction_table_q2 lab2_init ! (8 * r + n)"
    if "n < 8" "r < 64" for n r
  proof -
    have "8 * r + n < 4096" using that by linarith
    then show ?thesis using that by (simp add: lab2_init_def)
  qed
  show ?thesis
    using assms run_keeps_pairing [OF lab2_inv_init _ count tables, of "branches fl es"]
    unfolding lab2_run_Inr by blast
qed







text \<open>the local side of the tournament predictor has no history.  In every state a run returns, all
  entries of its branch history table are zero and only column 0 of its predictors has ever been
  trained, so a further branch reads and trains either the global predictor at its global history or
  the one counter its PC bits 3 to 5 select, and moves the chooser towards the side that was right.\<close>

theorem tournament_has_no_local_history:
  assumes "sim_run fl es lab2_init = Inr s"
  shows "tournament_branch pc npc s = Inr (tournament_effect pc (is_taken pc npc) s) \<and>
    q4_private_branch_history s = replicate 8192 0 \<and>
    (\<forall>n < 8. \<forall>j \<in> {1..<64}. q4_l2_private_predictor s ! n ! j = 2) \<and>
    q4_global_history_register s \<in> {0..<256}"
proof -
  have inv: "lab2_inv s"
    using assms run_effect_inv [OF lab2_inv_init] by (auto simp: lab2_run_Inr)
  have "table_ok 8192 0 (q4_private_branch_history s)" using inv by (simp add: lab2_inv_def)
  then have "q4_private_branch_history s = replicate 8192 0"
    by (intro nth_equalityI) (simp_all add: table_ok_0 table_ok_def [of _ _ "q4_private_branch_history s"])
  then show ?thesis
    using inv tournament_branch_effect [OF inv] by (auto simp: lab2_inv_def)
qed

section \<open>A demonstration run\<close>

text \<open>A loop branch at PC 8, taken twice and then left; every opcode is a conditional branch.\<close>

definition lab2_demo :: "executed list" where
  "lab2_demo = [(0, 8, 64), (0, 8, 64), (0, 8, 16)]"

definition all_cond :: op_flags where "all_cond = (\<lambda>_. F_COND)"

lemma lab2_demo_branches: "branches all_cond lab2_demo = [(8, 64), (8, 64), (8, 16)]"
  by (simp add: lab2_demo_def all_cond_def has_flag_def F_COND_def)

lemma lab2_demo_returns:
  "sim_run all_cond lab2_demo lab2_init = Inr (run_effect [(8, 64), (8, 64), (8, 16)] lab2_init)"
  by (simp add: lab2_run_Inr lab2_demo_branches in_tables_bits)

lemma lab2_run_returns_iff_witness:
  "sim_run all_cond [(0, 8, 64), (0, 0x4000, 0x4008)] lab2_init = Inl OutOfRange \<and>
   \<not> (\<exists>e. sim_run all_cond lab2_demo lab2_init = Inl e)"
proof -
  have flag: "has_flag all_cond F_COND op" for op by (simp add: all_cond_def has_flag_def F_COND_def)
  show ?thesis
    unfolding lab2_run_returns_iff by (simp add: flag lab2_demo_def)
qed

lemma twolevel_equals_bitsat_witness:
  "\<exists>s. sim_run all_cond lab2_demo lab2_init = Inr s \<and>
     sim_num_mispred_2level s = sim_num_mispred_2bitsat s"
  using twolevel_equals_bitsat [OF lab2_demo_returns] lab2_demo_returns by blast



lemma tournament_has_no_local_history_witness:
  "\<exists>s. sim_run all_cond lab2_demo lab2_init = Inr s \<and>
     q4_private_branch_history s = replicate 8192 0 \<and> q4_l2_private_predictor s ! 3 ! 5 = 2 \<and>
     tournament_branch 8 64 s = Inr (tournament_effect 8 True s)"
proof -
  define s where "s = run_effect [(8, 64), (8, 64), (8, 16)] lab2_init"
  have run: "sim_run all_cond lab2_demo lab2_init = Inr s" using lab2_demo_returns by (simp only: s_def)
  note local_side = tournament_has_no_local_history [OF run, of 8 64]
  have "tournament_branch 8 64 s = Inr (tournament_effect 8 True s)"
    using local_side by (simp add: is_taken_def MD_INST_SIZE_def)
  moreover have "q4_private_branch_history s = replicate 8192 0" using local_side by blast
  moreover have "q4_l2_private_predictor s ! 3 ! 5 = 2" using local_side by simp
  ultimately show ?thesis using run by blast
qed

end
