(* ===== verification/Lab1_Hazards.thy ===== *)
theory Lab1_Hazards
  imports Pisa_Machine
begin

text \<open>
  The hazard counters lab 1 adds to the functional simulator
  (\<open>preassignment/simplesim-3.0d-ece552f-assign1/sim-safe.c\<close>): load-use hazards, the read-after-write
  stalls of a pipeline without forwarding (\<open>q1\<close>) and of one with forwarding and two execute stages
  (\<open>q2\<close>), and the write-after-write and structural hazards of a pipeline where only memory
  instructions pass through the memory stage (\<open>q3\<close>).  Each counter compares the instruction number
  with a table that holds, for each register, the number from which its value can be read.  The
  executed instruction is given by its opcode and the registers the machine definition names for it.
\<close>

section \<open>The state\<close>

record executed1 =
  opcode1 :: nat
  r_out1 :: "nat list"
  r_in1 :: "nat list"

definition DNA :: nat where "DNA = 0"

record lab1 =
  reg_ready :: "nat list"
  reg_ready_q1 :: "nat list"
  reg_ready_q2 :: "nat list"
  reg_ready_q3 :: "nat list"
  sim_num_insn :: nat
  sim_num_loads :: nat
  sim_num_lduh :: nat
  sim_num_RAW_hazard_q1 :: nat
  sim_num_RAW_hazard_q2 :: nat
  sim_num_WAW_hazard_q3 :: nat
  sim_num_structural_hazard_q3 :: nat
  single_cycle_stalls_q1 :: nat
  double_cycle_stalls_q1 :: nat
  single_cycle_stalls_q2 :: nat
  double_cycle_stalls_q2 :: nat
  single_cycle_stalls_q3 :: nat
  double_cycle_stalls_q3 :: nat
  last_mem_op_q3 :: int
  second_last_mem_op_q3 :: int

definition lab1_init :: lab1 where
  "lab1_init = \<lparr>reg_ready = replicate MD_TOTAL_REGS 0, reg_ready_q1 = replicate MD_TOTAL_REGS 0,
     reg_ready_q2 = replicate MD_TOTAL_REGS 0, reg_ready_q3 = replicate MD_TOTAL_REGS 0,
     sim_num_insn = 0, sim_num_loads = 0, sim_num_lduh = 0,
     sim_num_RAW_hazard_q1 = 0, sim_num_RAW_hazard_q2 = 0,
     sim_num_WAW_hazard_q3 = 0, sim_num_structural_hazard_q3 = 0,
     single_cycle_stalls_q1 = 0, double_cycle_stalls_q1 = 0,
     single_cycle_stalls_q2 = 0, double_cycle_stalls_q2 = 0,
     single_cycle_stalls_q3 = 0, double_cycle_stalls_q3 = 0,
     last_mem_op_q3 = 0, second_last_mem_op_q3 = 0\<rparr>"

definition is_mem :: "op_flags \<Rightarrow> nat \<Rightarrow> bool" where
  "is_mem fl op \<longleftrightarrow> has_flag fl F_MEM op"

definition is_load :: "op_flags \<Rightarrow> nat \<Rightarrow> bool" where
  "is_load fl op \<longleftrightarrow> has_flag fl F_MEM op \<and> has_flag fl F_LOAD op"

definition is_mem_store :: "op_flags \<Rightarrow> nat \<Rightarrow> bool" where
  "is_mem_store fl op \<longleftrightarrow> has_flag fl F_MEM op \<and> has_flag fl F_STORE op"

text \<open>Marking the output registers of an instruction as ready from instruction \<open>m\<close> on.\<close>

fun mark_outputs :: "nat list \<Rightarrow> nat \<Rightarrow> nat list \<Rightarrow> nat list res" where
  "mark_outputs [] m t = Inr t"
| "mark_outputs (r # rs) m t =
     (if r \<noteq> DNA then res_bind (vec_set t r m) (mark_outputs rs m) else mark_outputs rs m t)"

text \<open>
  The three hazard loops.  The first hazard found ends the loop (\<open>break\<close>): its stall is counted and
  the register's entry is brought forward by the stall.
\<close>

fun q1_loop :: "nat list \<Rightarrow> lab1 \<Rightarrow> lab1 res" where
  "q1_loop [] s = Inr s"
| "q1_loop (r # rs) s =
     (if r = DNA then q1_loop rs s
      else res_bind (vec_get (reg_ready_q1 s) r) (\<lambda>ready.
        if ready > sim_num_insn s then
          (let s1 = s\<lparr>sim_num_RAW_hazard_q1 := sim_num_RAW_hazard_q1 s + 1\<rparr>;
               stallOffset = ready - sim_num_insn s;
               s2 = (if stallOffset = 1 then s1\<lparr>single_cycle_stalls_q1 := single_cycle_stalls_q1 s + 1\<rparr>
                     else if stallOffset = 2 then s1\<lparr>double_cycle_stalls_q1 := double_cycle_stalls_q1 s + 1\<rparr>
                     else s1) in
           res_bind (vec_set (reg_ready_q1 s2) r (ready - stallOffset)) (\<lambda>t.
             Inr (s2\<lparr>reg_ready_q1 := t\<rparr>)))
        else q1_loop rs s))"

fun q2_loop :: "bool \<Rightarrow> nat \<Rightarrow> nat list \<Rightarrow> lab1 \<Rightarrow> lab1 res" where
  "q2_loop store i [] s = Inr s"
| "q2_loop store i (r # rs) s =
     (if r = DNA then q2_loop store (i + 1) rs s
      else res_bind (vec_get (reg_ready_q2 s) r) (\<lambda>ready.
        if ready > sim_num_insn s then
          (if i = 0 \<and> store then q2_loop store (i + 1) rs s
           else
            (let s1 = s\<lparr>sim_num_RAW_hazard_q2 := sim_num_RAW_hazard_q2 s + 1\<rparr>;
                 stallOffset = ready - sim_num_insn s;
                 s2 = (if stallOffset = 1 then s1\<lparr>single_cycle_stalls_q2 := single_cycle_stalls_q2 s + 1\<rparr>
                       else if stallOffset = 2 then s1\<lparr>double_cycle_stalls_q2 := double_cycle_stalls_q2 s + 1\<rparr>
                       else s1) in
             res_bind (vec_set (reg_ready_q2 s2) r (ready - stallOffset)) (\<lambda>t.
               Inr (s2\<lparr>reg_ready_q2 := t\<rparr>))))
        else q2_loop store (i + 1) rs s))"

text \<open>The third loop runs over the outputs and also reports whether it found a hazard.\<close>

fun q3_loop :: "bool \<Rightarrow> nat \<Rightarrow> nat list \<Rightarrow> lab1 \<Rightarrow> (bool \<times> lab1) res" where
  "q3_loop mem i [] s = Inr (False, s)"
| "q3_loop mem i (r # rs) s =
     (if r = DNA then q3_loop mem (i + 1) rs s
      else res_bind (vec_get (reg_ready_q3 s) r) (\<lambda>ready.
        if ready > sim_num_insn s then
          (if i = 0 \<and> mem then q3_loop mem (i + 1) rs s
           else
            (let s1 = s\<lparr>sim_num_WAW_hazard_q3 := sim_num_WAW_hazard_q3 s + 1\<rparr>;
                 stallOffset = ready - sim_num_insn s;
                 s2 = (if stallOffset = 1 then s1\<lparr>single_cycle_stalls_q3 := single_cycle_stalls_q3 s + 1\<rparr>
                       else if stallOffset = 2 then s1\<lparr>double_cycle_stalls_q3 := double_cycle_stalls_q3 s + 1\<rparr>
                       else s1) in
             res_bind (vec_set (reg_ready_q3 s2) r (ready - stallOffset)) (\<lambda>t.
               Inr (True, s2\<lparr>reg_ready_q3 := t\<rparr>))))
        else q3_loop mem (i + 1) rs s))"

fun lduh_loop :: "bool \<Rightarrow> nat \<Rightarrow> nat list \<Rightarrow> lab1 \<Rightarrow> lab1 res" where
  "lduh_loop store i [] s = Inr s"
| "lduh_loop store i (r # rs) s =
     (if r = DNA then lduh_loop store (i + 1) rs s
      else res_bind (vec_get (reg_ready s) r) (\<lambda>ready.
        if ready > sim_num_insn s then
          (if i = 0 \<and> store then lduh_loop store (i + 1) rs s
           else Inr (s\<lparr>sim_num_lduh := sim_num_lduh s + 1\<rparr>))
        else lduh_loop store (i + 1) rs s))"

section \<open>The counters for one instruction\<close>

definition q1_step :: "op_flags \<Rightarrow> executed1 \<Rightarrow> lab1 \<Rightarrow> lab1 res" where
  "q1_step fl e s =
     res_bind (q1_loop (r_in1 e) s) (\<lambda>s1.
     res_bind (mark_outputs (r_out1 e) (sim_num_insn s1 + 3) (reg_ready_q1 s1)) (\<lambda>t.
     Inr (s1\<lparr>reg_ready_q1 := t\<rparr>)))"

definition q2_step :: "op_flags \<Rightarrow> executed1 \<Rightarrow> lab1 \<Rightarrow> lab1 res" where
  "q2_step fl e s =
     res_bind (q2_loop (is_mem_store fl (opcode1 e)) 0 (r_in1 e) s) (\<lambda>s1.
     res_bind (mark_outputs (r_out1 e)
                (if is_load fl (opcode1 e) then sim_num_insn s1 + 3 else sim_num_insn s1 + 2)
                (reg_ready_q2 s1)) (\<lambda>t.
     Inr (s1\<lparr>reg_ready_q2 := t\<rparr>)))"

definition q3_structural :: "op_flags \<Rightarrow> nat \<Rightarrow> bool \<Rightarrow> lab1 \<Rightarrow> lab1" where
  "q3_structural fl op WAWHazardFound s =
     (if \<not> is_mem fl op \<and> \<not> WAWHazardFound then
        (let s1 = s\<lparr>sim_num_structural_hazard_q3 := sim_num_structural_hazard_q3 s + 1\<rparr> in
         if int (sim_num_insn s) - last_mem_op_q3 s = 2
         then s1\<lparr>single_cycle_stalls_q3 := single_cycle_stalls_q3 s + 1\<rparr>
         else if int (sim_num_insn s) - second_last_mem_op_q3 s = 2
         then s1\<lparr>double_cycle_stalls_q3 := double_cycle_stalls_q3 s + 1\<rparr>
         else s1)
      else s)"

definition q3_step :: "op_flags \<Rightarrow> executed1 \<Rightarrow> lab1 \<Rightarrow> lab1 res" where
  "q3_step fl e s =
     res_bind (q3_loop (is_mem fl (opcode1 e)) 0 (r_out1 e) s) (\<lambda>(WAWHazardFound, s1).
     (let s2 = (if is_load fl (opcode1 e)
                then s1\<lparr>second_last_mem_op_q3 := last_mem_op_q3 s1, last_mem_op_q3 := int (sim_num_insn s1)\<rparr>
                else s1);
          s3 = q3_structural fl (opcode1 e) WAWHazardFound s2 in
      if is_load fl (opcode1 e)
      then res_bind (mark_outputs (r_out1 e) (sim_num_insn s3 + 3) (reg_ready_q3 s3)) (\<lambda>t.
             Inr (s3\<lparr>reg_ready_q3 := t\<rparr>))
      else Inr s3))"

definition lduh_step :: "op_flags \<Rightarrow> executed1 \<Rightarrow> lab1 \<Rightarrow> lab1 res" where
  "lduh_step fl e s =
     (let s1 = (if is_load fl (opcode1 e) then s\<lparr>sim_num_loads := sim_num_loads s + 1\<rparr> else s) in
      res_bind (lduh_loop (is_mem_store fl (opcode1 e)) 0 (r_in1 e) s1) (\<lambda>s2.
      if is_load fl (opcode1 e)
      then res_bind (mark_outputs (r_out1 e) (sim_num_insn s2 + 2) (reg_ready s2)) (\<lambda>t.
             Inr (s2\<lparr>reg_ready := t\<rparr>))
      else Inr s2))"

definition lab1_step :: "op_flags \<Rightarrow> executed1 \<Rightarrow> lab1 \<Rightarrow> lab1 res" where
  "lab1_step fl e s =
     res_bind (q1_step fl e (s\<lparr>sim_num_insn := sim_num_insn s + 1\<rparr>)) (\<lambda>s1.
     res_bind (q2_step fl e s1) (\<lambda>s2.
     res_bind (q3_step fl e s2) (\<lambda>s3.
     lduh_step fl e s3)))"

fun lab1_run :: "op_flags \<Rightarrow> executed1 list \<Rightarrow> lab1 \<Rightarrow> lab1 res" where
  "lab1_run fl [] s = Inr s"
| "lab1_run fl (e # es) s = res_bind (lab1_step fl e s) (lab1_run fl es)"

end
