(* ===== verification/Lab1_Laws.thy ===== *)
theory Lab1_Laws
  imports Lab1_Hazards
begin

text \<open>
  The lemmas of the lab 1 hazard counters.  The four tables of ready times implement one interface,
  the locale \<open>ready_table\<close>: under its laws the wait a table encodes is the declarative one of
  \<open>wait_at\<close>, read off the two instructions before.  The interpretations \<open>q1\<close>, \<open>q2\<close>, \<open>q3\<close> and
  \<open>lduh\<close> discharge the laws for the code's tables, and the counters are then exact.
\<close>


section \<open>What a hazard is\<close>

text \<open>
  A hazard counter is described by the registers an instruction marks (\<open>marks\<close>), the number of
  following instructions that have to wait for a marked register (\<open>lat\<close>, at most two) and the
  registers it checks, in order (\<open>srcs\<close>).  \<open>stall_reg\<close> is the register instruction \<open>k\<close> of a program
  stalls on: the first it checks that was marked by the instruction before, or by the one before that
  with two cycles to wait unless the instruction in between has already stalled on it.
\<close>

record board =
  marks :: "executed1 \<Rightarrow> nat set"
  lat :: "executed1 \<Rightarrow> nat"
  srcs :: "executed1 \<Rightarrow> nat list"

definition wait_after :: "board \<Rightarrow> executed1 list \<Rightarrow> nat option \<Rightarrow> nat \<Rightarrow> nat \<Rightarrow> nat" where
  "wait_after b es stalled k r =
     (if k = 0 then 0
      else if r \<in> marks b (es ! (k - 1)) then lat b (es ! (k - 1))
      else if 2 \<le> k \<and> r \<in> marks b (es ! (k - 2)) \<and> stalled \<noteq> Some r then lat b (es ! (k - 2)) - 1
      else 0)"

fun stall_reg :: "board \<Rightarrow> executed1 list \<Rightarrow> nat \<Rightarrow> nat option" where
  "stall_reg b es 0 = None"
| "stall_reg b es (Suc k) =
     find (\<lambda>r. r \<noteq> DNA \<and> 0 < wait_after b es (stall_reg b es k) (Suc k) r) (srcs b (es ! Suc k))"

definition wait_at :: "board \<Rightarrow> executed1 list \<Rightarrow> nat \<Rightarrow> nat \<Rightarrow> nat" where
  "wait_at b es k r = wait_after b es (if k = 0 then None else stall_reg b es (k - 1)) k r"

definition stall_cycles :: "board \<Rightarrow> executed1 list \<Rightarrow> nat \<Rightarrow> nat" where
  "stall_cycles b es k = (case stall_reg b es k of None \<Rightarrow> 0 | Some r \<Rightarrow> wait_at b es k r)"

lemma stall_reg_find:
  "stall_reg b es k = find (\<lambda>r. r \<noteq> DNA \<and> 0 < wait_at b es k r) (srcs b (es ! k))"
  by (cases k) (simp_all add: wait_at_def wait_after_def find_None_iff[THEN iffD2] eq_commute [of None])

lemma wait_at_Suc:
  assumes "\<And>e. lat b e \<le> 2"
  shows "wait_at b es (Suc k) r =
    (if r \<in> marks b (es ! k) then lat b (es ! k)
     else if stall_reg b es k = Some r then 0 else wait_at b es k r - 1)"
proof (cases k)
  case 0
  then show ?thesis by (simp add: wait_at_def wait_after_def)
next
  case (Suc j)
  have "lat b e - Suc 0 \<le> Suc 0" for e using assms [of e] by simp
  then show ?thesis by (simp add: Suc wait_at_def wait_after_def del: stall_reg.simps)
qed

section \<open>Tables of ready times\<close>

text \<open>
  The interface the four tables share: \<open>upd n e t\<close> is the table after instruction number \<open>n\<close>.  A
  marked register becomes readable \<open>lat\<close> instructions later than the next one; the register stalled
  on, if any, is readable at once; the others keep their time.
\<close>

definition first_hazard :: "board \<Rightarrow> nat \<Rightarrow> executed1 \<Rightarrow> (nat \<Rightarrow> nat) \<Rightarrow> nat option" where
  "first_hazard b n e t = find (\<lambda>r. r \<noteq> DNA \<and> t r > n) (srcs b e)"

locale ready_table =
  fixes b :: board and upd :: "nat \<Rightarrow> executed1 \<Rightarrow> (nat \<Rightarrow> nat) \<Rightarrow> nat \<Rightarrow> nat" and horizon :: nat
  assumes lat_le: "lat b e \<le> horizon" and horizon_le: "horizon \<le> 2"
    and upd: "(\<And>r. t r \<le> n + horizon) \<Longrightarrow> upd n e t r - (n + 1) =
      (if r \<in> marks b e then lat b e else if first_hazard b n e t = Some r then 0 else t r - (n + 1))"
begin

lemma lat_le_2: "lat b e \<le> 2"
  using lat_le [of e] horizon_le by linarith

primrec table :: "executed1 list \<Rightarrow> nat \<Rightarrow> nat \<Rightarrow> nat" where
  "table es 0 = (\<lambda>r. 0)"
| "table es (Suc k) = upd (Suc k) (es ! k) (table es k)"

lemma wait_le: "wait_at b es k r \<le> horizon"
  using lat_le by (auto simp: wait_at_def wait_after_def intro: le_trans [OF diff_le_self])

lemma table_wait: "table es k r - Suc k = wait_at b es k r"
proof (induction k arbitrary: r)
  case 0
  show ?case by (simp add: wait_at_def wait_after_def)
next
  case (Suc k)
  have bound: "table es k r \<le> Suc k + horizon" for r
    using Suc [of r] wait_le [of es k r] by linarith
  have "first_hazard b (Suc k) (es ! k) (table es k) = stall_reg b es k"
  proof -
    have "(\<lambda>r. r \<noteq> DNA \<and> table es k r > Suc k) = (\<lambda>r. r \<noteq> DNA \<and> 0 < wait_at b es k r)"
      by (simp flip: Suc)
    then show ?thesis by (simp add: first_hazard_def stall_reg_find)
  qed
  moreover have "table es k r - Suc (Suc k) = wait_at b es k r - Suc 0"
    using Suc [of r] by linarith
  ultimately show ?case
    using upd [of "table es k" "Suc k" "es ! k" r, OF bound] by (simp add: Suc wait_at_Suc [OF lat_le_2])
qed

lemma table_hazard:
  "first_hazard b (Suc k) (es ! k) (table es k) = stall_reg b es k"
proof -
  have "(\<lambda>r. r \<noteq> DNA \<and> table es k r > Suc k) = (\<lambda>r. r \<noteq> DNA \<and> 0 < wait_at b es k r)"
    by (simp flip: table_wait)
  then show ?thesis by (simp add: first_hazard_def stall_reg_find)
qed

lemma stall_offset: "stall_reg b es k = Some r \<Longrightarrow> table es k r - Suc k = stall_cycles b es k"
  by (simp add: table_wait stall_cycles_def)

lemma stall_cycles_le: "stall_cycles b es k \<le> 2"
  using wait_le horizon_le by (auto simp: stall_cycles_def split: option.split intro: le_trans)

lemma stall_cycles_pos: "stall_cycles b es k = 0 \<longleftrightarrow> stall_reg b es k = None"
proof (cases "stall_reg b es k")
  case (Some r)
  then have "0 < wait_at b es k r" by (auto simp: stall_reg_find find_Some_iff)
  then show ?thesis by (simp add: stall_cycles_def Some)
qed (simp add: stall_cycles_def)

end


section \<open>The four tables of the simulator\<close>

definition outs :: "executed1 \<Rightarrow> nat set" where
  "outs e = set (r_out1 e) - {DNA}"

definition checked :: "op_flags \<Rightarrow> executed1 \<Rightarrow> nat list" where
  "checked fl e = (if is_mem_store fl (opcode1 e) then drop 1 (r_in1 e) else r_in1 e)"

definition board_q1 :: board where
  "board_q1 = \<lparr>marks = outs, lat = (\<lambda>_. 2), srcs = r_in1\<rparr>"

definition board_q2 :: "op_flags \<Rightarrow> board" where
  "board_q2 fl = \<lparr>marks = outs, lat = (\<lambda>e. if is_load fl (opcode1 e) then 2 else 1), srcs = checked fl\<rparr>"

definition board_q3 :: "op_flags \<Rightarrow> board" where
  "board_q3 fl = \<lparr>marks = (\<lambda>e. if is_load fl (opcode1 e) then outs e else {}), lat = (\<lambda>_. 2),
     srcs = (\<lambda>e. if is_mem fl (opcode1 e) then drop 1 (r_out1 e) else r_out1 e)\<rparr>"

definition board_lduh :: "op_flags \<Rightarrow> board" where
  "board_lduh fl = \<lparr>marks = (\<lambda>e. if is_load fl (opcode1 e) then outs e else {}), lat = (\<lambda>_. 1),
     srcs = checked fl\<rparr>"

text \<open>The table after one instruction: a mark, and the entry of the register stalled on brought forward.\<close>

definition bring_forward :: "nat \<Rightarrow> nat option \<Rightarrow> (nat \<Rightarrow> nat) \<Rightarrow> nat \<Rightarrow> nat" where
  "bring_forward n h t = (case h of None \<Rightarrow> t | Some r \<Rightarrow> t(r := n))"

definition mark_all :: "nat set \<Rightarrow> nat \<Rightarrow> (nat \<Rightarrow> nat) \<Rightarrow> nat \<Rightarrow> nat" where
  "mark_all R m t = (\<lambda>r. if r \<in> R then m else t r)"

definition board_upd :: "board \<Rightarrow> nat \<Rightarrow> executed1 \<Rightarrow> (nat \<Rightarrow> nat) \<Rightarrow> nat \<Rightarrow> nat" where
  "board_upd b n e t = mark_all (marks b e) (n + 1 + lat b e) (bring_forward n (first_hazard b n e t) t)"

definition lduh_upd :: "op_flags \<Rightarrow> nat \<Rightarrow> executed1 \<Rightarrow> (nat \<Rightarrow> nat) \<Rightarrow> nat \<Rightarrow> nat" where
  "lduh_upd fl n e t = mark_all (marks (board_lduh fl) e) (n + 2) t"

lemma board_upd_law:
  "board_upd b n e t r - (n + 1) =
     (if r \<in> marks b e then lat b e else if first_hazard b n e t = Some r then 0 else t r - (n + 1))"
  by (auto simp: board_upd_def mark_all_def bring_forward_def split: option.split)

interpretation q1: ready_table board_q1 "board_upd board_q1" 2
  by unfold_locales (simp_all only: board_upd_law, simp_all add: board_q1_def)

interpretation q2: ready_table "board_q2 fl" "board_upd (board_q2 fl)" 2 for fl
  by unfold_locales (simp_all only: board_upd_law, simp_all add: board_q2_def)

interpretation q3: ready_table "board_q3 fl" "board_upd (board_q3 fl)" 2 for fl
  by unfold_locales (simp_all only: board_upd_law, simp_all add: board_q3_def)

interpretation lduh: ready_table "board_lduh fl" "lduh_upd fl" 1 for fl
proof unfold_locales
  fix t :: "nat \<Rightarrow> nat" and n e r
  assume "\<And>r. t r \<le> n + 1"
  then have "t r \<le> n + 1" .
  then show "lduh_upd fl n e t r - (n + 1) = (if r \<in> marks (board_lduh fl) e then lat (board_lduh fl) e
      else if first_hazard (board_lduh fl) n e t = Some r then 0 else t r - (n + 1))"
    by (simp add: lduh_upd_def mark_all_def board_lduh_def)
qed (simp_all add: board_lduh_def)

section \<open>The loops of the simulator\<close>

definition regs_ok :: "nat list \<Rightarrow> bool" where
  "regs_ok rs \<longleftrightarrow> (\<forall>r \<in> set rs. r < MD_TOTAL_REGS)"

definition wf_executed :: "executed1 \<Rightarrow> bool" where
  "wf_executed e \<longleftrightarrow> regs_ok (r_in1 e) \<and> regs_ok (r_out1 e)"

definition entries :: "nat list \<Rightarrow> nat \<Rightarrow> nat" where
  "entries t r = (if r < length t then t ! r else 0)"

lemma entries_in: "r < length t \<Longrightarrow> entries t r = t ! r"
  by (simp add: entries_def)

lemma regs_ok_simps [simp]:
  "regs_ok []" "regs_ok (r # rs) \<longleftrightarrow> r < MD_TOTAL_REGS \<and> regs_ok rs"
  by (auto simp: regs_ok_def)

lemma mark_outputs_ok:
  "regs_ok rs \<Longrightarrow> length t = MD_TOTAL_REGS \<Longrightarrow>
    \<exists>u. mark_outputs rs m t = Inr u \<and> length u = MD_TOTAL_REGS \<and>
      entries u = mark_all (set rs - {DNA}) m (entries t)"
proof (induction rs arbitrary: t)
  case Nil
  then show ?case by (simp add: mark_all_def)
next
  case (Cons r rs)
  show ?case
  proof (cases "r = DNA")
    case True
    then show ?thesis using Cons by simp
  next
    case False
    obtain u where "mark_outputs rs m (t[r := m]) = Inr u" "length u = MD_TOTAL_REGS"
      "entries u = mark_all (set rs - {DNA}) m (entries (t[r := m]))"
      using Cons.IH [of "t[r := m]"] Cons.prems by auto
    then show ?thesis
      using False Cons.prems
      by (auto simp: mark_all_def entries_def nth_list_update fun_eq_iff)
  qed
qed

definition hazard_in :: "nat \<Rightarrow> nat list \<Rightarrow> nat list \<Rightarrow> nat option" where
  "hazard_in n rs t = find (\<lambda>r. r \<noteq> DNA \<and> entries t r > n) rs"

definition stall_count :: "nat option \<Rightarrow> nat list \<Rightarrow> nat \<Rightarrow> nat \<Rightarrow> nat" where
  "stall_count h t n c = (case h of None \<Rightarrow> 0 | Some r \<Rightarrow> of_bool (entries t r - n = c))"

definition forward :: "nat option \<Rightarrow> nat list \<Rightarrow> nat \<Rightarrow> nat list" where
  "forward h t n = (case h of None \<Rightarrow> t | Some r \<Rightarrow> t[r := n])"

lemma hazard_in_simps [simp]:
  "hazard_in n [] t = None"
  "hazard_in n (r # rs) t = (if r \<noteq> DNA \<and> entries t r > n then Some r else hazard_in n rs t)"
  by (simp_all add: hazard_in_def)

lemma q1_loop_effect:
  assumes "regs_ok rs" and "length (reg_ready_q1 s) = MD_TOTAL_REGS"
  defines "h \<equiv> hazard_in (sim_num_insn s) rs (reg_ready_q1 s)"
  shows "q1_loop rs s = Inr (s\<lparr>
     sim_num_RAW_hazard_q1 := sim_num_RAW_hazard_q1 s + of_bool (h \<noteq> None),
     single_cycle_stalls_q1 := single_cycle_stalls_q1 s + stall_count h (reg_ready_q1 s) (sim_num_insn s) 1,
     double_cycle_stalls_q1 := double_cycle_stalls_q1 s + stall_count h (reg_ready_q1 s) (sim_num_insn s) 2,
     reg_ready_q1 := forward h (reg_ready_q1 s) (sim_num_insn s)\<rparr>)"
  using assms(1,2) unfolding h_def
proof (induction rs)
  case Nil
  then show ?case by (simp add: stall_count_def forward_def)
next
  case (Cons r rs)
  then show ?case
    by (cases s) (auto simp: stall_count_def forward_def entries_in Let_def)
qed


lemma q2_loop_tail:
  assumes "regs_ok rs" and "length (reg_ready_q2 s) = MD_TOTAL_REGS" and "i \<noteq> 0 \<or> \<not> store"
  defines "h \<equiv> hazard_in (sim_num_insn s) rs (reg_ready_q2 s)"
  shows "q2_loop store i rs s = Inr (s\<lparr>
     sim_num_RAW_hazard_q2 := sim_num_RAW_hazard_q2 s + of_bool (h \<noteq> None),
     single_cycle_stalls_q2 := single_cycle_stalls_q2 s + stall_count h (reg_ready_q2 s) (sim_num_insn s) 1,
     double_cycle_stalls_q2 := double_cycle_stalls_q2 s + stall_count h (reg_ready_q2 s) (sim_num_insn s) 2,
     reg_ready_q2 := forward h (reg_ready_q2 s) (sim_num_insn s)\<rparr>)"
  using assms(1-3) unfolding h_def
proof (induction rs arbitrary: i)
  case Nil
  then show ?case by (simp add: stall_count_def forward_def)
next
  case (Cons r rs)
  then show ?case
    by (cases s) (auto simp: stall_count_def forward_def entries_in Let_def)
qed

lemma q2_loop_skip:
  "regs_ok (r # rs) \<Longrightarrow> length (reg_ready_q2 s) = MD_TOTAL_REGS \<Longrightarrow>
    q2_loop True 0 (r # rs) s = q2_loop True 1 rs s"
  by simp

lemma q2_loop_effect:
  fixes store :: bool and s :: lab1
  assumes "regs_ok rs" and "length (reg_ready_q2 s) = MD_TOTAL_REGS"
  defines "h \<equiv> hazard_in (sim_num_insn s) (if store then drop 1 rs else rs) (reg_ready_q2 s)"
  shows "q2_loop store 0 rs s = Inr (s\<lparr>
     sim_num_RAW_hazard_q2 := sim_num_RAW_hazard_q2 s + of_bool (h \<noteq> None),
     single_cycle_stalls_q2 := single_cycle_stalls_q2 s + stall_count h (reg_ready_q2 s) (sim_num_insn s) 1,
     double_cycle_stalls_q2 := double_cycle_stalls_q2 s + stall_count h (reg_ready_q2 s) (sim_num_insn s) 2,
     reg_ready_q2 := forward h (reg_ready_q2 s) (sim_num_insn s)\<rparr>)"
proof (cases "store \<and> rs \<noteq> []")
  case True
  then obtain r rs' where rs: "rs = r # rs'" by (cases rs) auto
  have "q2_loop store 0 rs s = q2_loop True 1 rs' s"
    using True assms(1,2) unfolding rs by (simp only: q2_loop_skip) 
  then show ?thesis
    using True assms(1,2) q2_loop_tail [of rs' s 1 True] by (simp only: h_def rs) simp
next
  case False
  then show ?thesis
    using assms(1,2) q2_loop_tail [of rs s 0 store] by (cases store) (simp_all add: h_def stall_count_def forward_def)
qed

lemma q3_loop_tail:
  assumes "regs_ok rs" and "length (reg_ready_q3 s) = MD_TOTAL_REGS" and "i \<noteq> 0 \<or> \<not> mem"
  defines "h \<equiv> hazard_in (sim_num_insn s) rs (reg_ready_q3 s)"
  shows "q3_loop mem i rs s = Inr (h \<noteq> None, s\<lparr>
     sim_num_WAW_hazard_q3 := sim_num_WAW_hazard_q3 s + of_bool (h \<noteq> None),
     single_cycle_stalls_q3 := single_cycle_stalls_q3 s + stall_count h (reg_ready_q3 s) (sim_num_insn s) 1,
     double_cycle_stalls_q3 := double_cycle_stalls_q3 s + stall_count h (reg_ready_q3 s) (sim_num_insn s) 2,
     reg_ready_q3 := forward h (reg_ready_q3 s) (sim_num_insn s)\<rparr>)"
  using assms(1-3) unfolding h_def
proof (induction rs arbitrary: i)
  case Nil
  then show ?case by (simp add: stall_count_def forward_def)
next
  case (Cons r rs)
  then show ?case
    by (cases s) (auto simp: stall_count_def forward_def entries_in Let_def)
qed

lemma q3_loop_skip:
  "regs_ok (r # rs) \<Longrightarrow> length (reg_ready_q3 s) = MD_TOTAL_REGS \<Longrightarrow>
    q3_loop True 0 (r # rs) s = q3_loop True 1 rs s"
  by simp

lemma q3_loop_effect:
  fixes mem :: bool and s :: lab1
  assumes "regs_ok rs" and "length (reg_ready_q3 s) = MD_TOTAL_REGS"
  defines "h \<equiv> hazard_in (sim_num_insn s) (if mem then drop 1 rs else rs) (reg_ready_q3 s)"
  shows "q3_loop mem 0 rs s = Inr (h \<noteq> None, s\<lparr>
     sim_num_WAW_hazard_q3 := sim_num_WAW_hazard_q3 s + of_bool (h \<noteq> None),
     single_cycle_stalls_q3 := single_cycle_stalls_q3 s + stall_count h (reg_ready_q3 s) (sim_num_insn s) 1,
     double_cycle_stalls_q3 := double_cycle_stalls_q3 s + stall_count h (reg_ready_q3 s) (sim_num_insn s) 2,
     reg_ready_q3 := forward h (reg_ready_q3 s) (sim_num_insn s)\<rparr>)"
proof (cases "mem \<and> rs \<noteq> []")
  case True
  then obtain r rs' where rs: "rs = r # rs'" by (cases rs) auto
  have "q3_loop mem 0 rs s = q3_loop True 1 rs' s"
    using True assms(1,2) unfolding rs by (simp only: q3_loop_skip)
  then show ?thesis
    using True assms(1,2) q3_loop_tail [of rs' s 1 True] by (simp only: h_def rs) simp
next
  case False
  then show ?thesis
    using assms(1,2) q3_loop_tail [of rs s 0 mem] by (cases mem) (simp_all add: h_def stall_count_def forward_def)
qed

lemma lduh_loop_tail:
  assumes "regs_ok rs" and "length (reg_ready s) = MD_TOTAL_REGS" and "i \<noteq> 0 \<or> \<not> store"
  shows "lduh_loop store i rs s = Inr (s\<lparr>sim_num_lduh := sim_num_lduh s
     + of_bool (hazard_in (sim_num_insn s) rs (reg_ready s) \<noteq> None)\<rparr>)"
  using assms
proof (induction rs arbitrary: i)
  case (Cons r rs)
  then show ?case by (auto simp: entries_in)
qed simp

lemma lduh_loop_skip:
  "regs_ok (r # rs) \<Longrightarrow> length (reg_ready s) = MD_TOTAL_REGS \<Longrightarrow>
    lduh_loop True 0 (r # rs) s = lduh_loop True 1 rs s"
  by simp

lemma lduh_loop_effect:
  assumes "regs_ok rs" and "length (reg_ready s) = MD_TOTAL_REGS"
  shows "lduh_loop store 0 rs s = Inr (s\<lparr>sim_num_lduh := sim_num_lduh s
     + of_bool (hazard_in (sim_num_insn s) (if store then drop 1 rs else rs) (reg_ready s) \<noteq> None)\<rparr>)"
proof (cases "store \<and> rs \<noteq> []")
  case True
  then obtain r rs' where rs: "rs = r # rs'" by (cases rs) auto
  have "lduh_loop store 0 rs s = lduh_loop True 1 rs' s"
    using True assms(1,2) unfolding rs by (simp only: lduh_loop_skip)
  then show ?thesis
    using True assms lduh_loop_tail [of rs' s 1 True] by (simp only: rs) simp
next
  case False
  then show ?thesis
    using assms lduh_loop_tail [of rs s 0 store] by (cases store) simp_all
qed


section \<open>The effect of one instruction\<close>

lemma first_hazard_eq: "hazard_in n (srcs b e) t = first_hazard b n e (entries t)"
  by (simp add: hazard_in_def first_hazard_def)

lemma hazard_in_Some: "hazard_in n rs t = Some r \<Longrightarrow> r \<in> set rs"
  by (auto simp: hazard_in_def find_Some_iff)

lemma entries_forward:
  assumes "\<And>r. h = Some r \<Longrightarrow> r < length t"
  shows "entries (forward h t n) = bring_forward n h (entries t)"
  using assms by (cases h) (auto simp: forward_def bring_forward_def entries_def fun_eq_iff)

lemma length_forward [simp]: "length (forward h t n) = length t"
  by (simp add: forward_def split: option.split)

lemma mark_step:
  fixes n :: nat
  assumes "wf_executed e" and "length t = MD_TOTAL_REGS" and "set (srcs b e) \<subseteq> set (r_in1 e) \<union> set (r_out1 e)"
  defines "h \<equiv> hazard_in n (srcs b e) t"
  shows "\<exists>u. mark_outputs (r_out1 e) m (forward h t n) = Inr u \<and> length u = MD_TOTAL_REGS \<and>
    entries u = mark_all (outs e) m (bring_forward n (first_hazard b n e (entries t)) (entries t))"
    and "entries (forward h t n) = bring_forward n (first_hazard b n e (entries t)) (entries t)"
proof -
  have "r < length t" if "h = Some r" for r
    using that assms(1,2,3) hazard_in_Some [of n "srcs b e" t r]
    by (auto simp: h_def wf_executed_def regs_ok_def)
  then show fwd: "entries (forward h t n) = bring_forward n (first_hazard b n e (entries t)) (entries t)"
    by (simp add: entries_forward h_def flip: first_hazard_eq)
  have "length (forward h t n) = MD_TOTAL_REGS" using assms(2) by simp
  then show "\<exists>u. mark_outputs (r_out1 e) m (forward h t n) = Inr u \<and> length u = MD_TOTAL_REGS \<and>
    entries u = mark_all (outs e) m (bring_forward n (first_hazard b n e (entries t)) (entries t))"
    using mark_outputs_ok [of "r_out1 e" "forward h t n" m] assms(1)
    by (simp add: wf_executed_def outs_def fwd)
qed

lemma q1_step_effect:
  fixes s :: lab1
  assumes "wf_executed e" and "length (reg_ready_q1 s) = MD_TOTAL_REGS"
  defines "n \<equiv> sim_num_insn s"
  defines "h \<equiv> hazard_in n (r_in1 e) (reg_ready_q1 s)"
  obtains u where "q1_step fl e s = Inr (s\<lparr>
     sim_num_RAW_hazard_q1 := sim_num_RAW_hazard_q1 s + of_bool (h \<noteq> None),
     single_cycle_stalls_q1 := single_cycle_stalls_q1 s + stall_count h (reg_ready_q1 s) n 1,
     double_cycle_stalls_q1 := double_cycle_stalls_q1 s + stall_count h (reg_ready_q1 s) n 2,
     reg_ready_q1 := u\<rparr>)"
    and "length u = MD_TOTAL_REGS" and "entries u = board_upd board_q1 n e (entries (reg_ready_q1 s))"
proof -
  have b: "srcs board_q1 e = r_in1 e" "marks board_q1 e = outs e" "lat board_q1 e = 2"
    by (simp_all add: board_q1_def)
  obtain u where u: "mark_outputs (r_out1 e) (n + 3) (forward h (reg_ready_q1 s) n) = Inr u"
    "length u = MD_TOTAL_REGS"
    "entries u = mark_all (outs e) (n + 3) (bring_forward n (first_hazard board_q1 n e (entries (reg_ready_q1 s)))
       (entries (reg_ready_q1 s)))"
    using mark_step(1) [OF assms(1,2), of board_q1 "n + 3" n] unfolding b h_def by blast
  show thesis
  proof (rule that [OF _ u(2)])
    show "q1_step fl e s = Inr (s\<lparr>
     sim_num_RAW_hazard_q1 := sim_num_RAW_hazard_q1 s + of_bool (h \<noteq> None),
     single_cycle_stalls_q1 := single_cycle_stalls_q1 s + stall_count h (reg_ready_q1 s) n 1,
     double_cycle_stalls_q1 := double_cycle_stalls_q1 s + stall_count h (reg_ready_q1 s) n 2,
     reg_ready_q1 := u\<rparr>)"
      using assms(1,2) u(1) q1_loop_effect [of "r_in1 e" s]
      by (simp add: q1_step_def wf_executed_def h_def n_def)
    show "entries u = board_upd board_q1 n e (entries (reg_ready_q1 s))"
      by (simp add: u(3) board_upd_def b numeral_3_eq_3)
  qed
qed

lemma q2_step_effect:
  fixes s :: lab1 and fl :: op_flags
  assumes "wf_executed e" and "length (reg_ready_q2 s) = MD_TOTAL_REGS"
  defines "n \<equiv> sim_num_insn s"
  defines "h \<equiv> hazard_in n (checked fl e) (reg_ready_q2 s)"
  obtains u where "q2_step fl e s = Inr (s\<lparr>
     sim_num_RAW_hazard_q2 := sim_num_RAW_hazard_q2 s + of_bool (h \<noteq> None),
     single_cycle_stalls_q2 := single_cycle_stalls_q2 s + stall_count h (reg_ready_q2 s) n 1,
     double_cycle_stalls_q2 := double_cycle_stalls_q2 s + stall_count h (reg_ready_q2 s) n 2,
     reg_ready_q2 := u\<rparr>)"
    and "length u = MD_TOTAL_REGS" and "entries u = board_upd (board_q2 fl) n e (entries (reg_ready_q2 s))"
proof -
  define m where "m = (if is_load fl (opcode1 e) then n + 3 else n + 2)"
  have loop: "q2_loop (is_mem_store fl (opcode1 e)) 0 (r_in1 e) s = Inr (s\<lparr>
     sim_num_RAW_hazard_q2 := sim_num_RAW_hazard_q2 s + of_bool (h \<noteq> None),
     single_cycle_stalls_q2 := single_cycle_stalls_q2 s + stall_count h (reg_ready_q2 s) n 1,
     double_cycle_stalls_q2 := double_cycle_stalls_q2 s + stall_count h (reg_ready_q2 s) n 2,
     reg_ready_q2 := forward h (reg_ready_q2 s) n\<rparr>)"
    unfolding h_def n_def checked_def using assms(1,2) by (intro q2_loop_effect) (simp_all add: wf_executed_def)
  have insn: "sim_num_insn s = n" by (simp add: n_def)
  have b: "srcs (board_q2 fl) e = checked fl e" "marks (board_q2 fl) e = outs e"
    "n + 1 + lat (board_q2 fl) e = m"
    by (simp_all add: board_q2_def m_def)
  have "set (checked fl e) \<subseteq> set (r_in1 e) \<union> set (r_out1 e)"
    using set_drop_subset [of 1 "r_in1 e"] by (auto simp: checked_def)
  then obtain u where u: "mark_outputs (r_out1 e) m (forward h (reg_ready_q2 s) n) = Inr u"
    "length u = MD_TOTAL_REGS"
    "entries u = mark_all (outs e) m (bring_forward n (first_hazard (board_q2 fl) n e (entries (reg_ready_q2 s)))
       (entries (reg_ready_q2 s)))"
    using mark_step(1) [OF assms(1,2), of "board_q2 fl" m n] unfolding b h_def by blast
  show thesis
  proof (rule that [OF _ u(2)])
    show "q2_step fl e s = Inr (s\<lparr>
     sim_num_RAW_hazard_q2 := sim_num_RAW_hazard_q2 s + of_bool (h \<noteq> None),
     single_cycle_stalls_q2 := single_cycle_stalls_q2 s + stall_count h (reg_ready_q2 s) n 1,
     double_cycle_stalls_q2 := double_cycle_stalls_q2 s + stall_count h (reg_ready_q2 s) n 2,
     reg_ready_q2 := u\<rparr>)"
      by (cases "is_load fl (opcode1 e)") (use u(1) in \<open>simp_all add: q2_step_def loop insn m_def\<close>)
    show "entries u = board_upd (board_q2 fl) n e (entries (reg_ready_q2 s))"
      by (simp only: u(3) board_upd_def b)
  qed
qed

lemma stall_count_cycles:
  "stall_count h t n 1 + stall_count h t n 2 \<le> of_bool (h \<noteq> None)"
  by (auto simp: stall_count_def split: option.split)

definition q3_checked :: "op_flags \<Rightarrow> executed1 \<Rightarrow> nat list" where
  "q3_checked fl e = (if is_mem fl (opcode1 e) then drop 1 (r_out1 e) else r_out1 e)"

lemma q3_step_effect:
  fixes s :: lab1 and fl :: op_flags
  assumes "wf_executed e" and "length (reg_ready_q3 s) = MD_TOTAL_REGS"
  defines "n \<equiv> sim_num_insn s"
  defines "h \<equiv> hazard_in n (q3_checked fl e) (reg_ready_q3 s)"
  obtains s' where "q3_step fl e s = Inr s'"
    and "sim_num_WAW_hazard_q3 s' = sim_num_WAW_hazard_q3 s + of_bool (h \<noteq> None)"
    and "sim_num_structural_hazard_q3 s' = sim_num_structural_hazard_q3 s
      + of_bool (\<not> is_mem fl (opcode1 e) \<and> h = None)"
    and "length (reg_ready_q3 s') = MD_TOTAL_REGS"
    and "entries (reg_ready_q3 s') = board_upd (board_q3 fl) n e (entries (reg_ready_q3 s))"
    and "reg_ready s' = reg_ready s" "reg_ready_q1 s' = reg_ready_q1 s" "reg_ready_q2 s' = reg_ready_q2 s"
    and "sim_num_insn s' = n" "sim_num_loads s' = sim_num_loads s" "sim_num_lduh s' = sim_num_lduh s"
    and "sim_num_RAW_hazard_q1 s' = sim_num_RAW_hazard_q1 s"
    and "single_cycle_stalls_q1 s' = single_cycle_stalls_q1 s" "double_cycle_stalls_q1 s' = double_cycle_stalls_q1 s"
    and "sim_num_RAW_hazard_q2 s' = sim_num_RAW_hazard_q2 s"
    and "single_cycle_stalls_q2 s' = single_cycle_stalls_q2 s" "double_cycle_stalls_q2 s' = double_cycle_stalls_q2 s"
proof -
  define t where "t = forward h (reg_ready_q3 s) n"
  have len: "length t = MD_TOTAL_REGS" using assms(2) by (simp add: t_def)
  define s1 where "s1 = s\<lparr>
     sim_num_WAW_hazard_q3 := sim_num_WAW_hazard_q3 s + of_bool (h \<noteq> None),
     single_cycle_stalls_q3 := single_cycle_stalls_q3 s + stall_count h (reg_ready_q3 s) n 1,
     double_cycle_stalls_q3 := double_cycle_stalls_q3 s + stall_count h (reg_ready_q3 s) n 2,
     reg_ready_q3 := t\<rparr>"
  define s2 where "s2 = (if is_load fl (opcode1 e)
     then s1\<lparr>second_last_mem_op_q3 := last_mem_op_q3 s1, last_mem_op_q3 := int (sim_num_insn s1)\<rparr> else s1)"
  define s3 where "s3 = q3_structural fl (opcode1 e) (h \<noteq> None) s2"
  have loop: "q3_loop (is_mem fl (opcode1 e)) 0 (r_out1 e) s = Inr (h \<noteq> None, s1)"
    unfolding h_def n_def q3_checked_def s1_def t_def using assms(1,2)
    by (intro q3_loop_effect) (simp_all add: wf_executed_def)
  have s3: "sim_num_WAW_hazard_q3 s3 = sim_num_WAW_hazard_q3 s + of_bool (h \<noteq> None)"
    "sim_num_structural_hazard_q3 s3 = sim_num_structural_hazard_q3 s
      + of_bool (\<not> is_mem fl (opcode1 e) \<and> h = None)"
    "reg_ready_q3 s3 = t" "reg_ready s3 = reg_ready s" "reg_ready_q1 s3 = reg_ready_q1 s"
    "reg_ready_q2 s3 = reg_ready_q2 s" "sim_num_insn s3 = n" "sim_num_loads s3 = sim_num_loads s"
    "sim_num_lduh s3 = sim_num_lduh s" "sim_num_RAW_hazard_q1 s3 = sim_num_RAW_hazard_q1 s"
    "single_cycle_stalls_q1 s3 = single_cycle_stalls_q1 s" "double_cycle_stalls_q1 s3 = double_cycle_stalls_q1 s"
    "sim_num_RAW_hazard_q2 s3 = sim_num_RAW_hazard_q2 s"
    "single_cycle_stalls_q2 s3 = single_cycle_stalls_q2 s" "double_cycle_stalls_q2 s3 = double_cycle_stalls_q2 s"
    unfolding s3_def q3_structural_def s2_def s1_def n_def by (simp_all add: Let_def)
  have b: "srcs (board_q3 fl) e = q3_checked fl e" "lat (board_q3 fl) e = 2"
    "marks (board_q3 fl) e = (if is_load fl (opcode1 e) then outs e else {})"
    by (simp_all add: board_q3_def q3_checked_def)
  have sub: "set (srcs (board_q3 fl) e) \<subseteq> set (r_in1 e) \<union> set (r_out1 e)"
    using set_drop_subset [of 1 "r_out1 e"] by (auto simp: b q3_checked_def)
  note mark = mark_step(1) [OF assms(1,2) sub, of "n + 3" n, unfolded b(1), folded h_def, folded t_def]
    mark_step(2) [OF assms(1,2) sub, of n, unfolded b(1), folded h_def, folded t_def]
  obtain u where u: "mark_outputs (r_out1 e) (n + 3) t = Inr u" "length u = MD_TOTAL_REGS"
    "entries u = mark_all (outs e) (n + 3) (entries t)"
    using mark(1) unfolding mark(2) by blast
  show thesis
  proof (cases "is_load fl (opcode1 e)")
    case True
    have "q3_step fl e s = Inr (s3\<lparr>reg_ready_q3 := u\<rparr>)"
      unfolding q3_step_def loop res_bind_simps prod.case Let_def s2_def [symmetric] s3_def [symmetric]
      using True s3 u(1) by simp
    then show thesis
      by (rule that) (use s3 u True in \<open>simp_all add: board_upd_def b mark(2) numeral_3_eq_3\<close>)
  next
    case False
    have "q3_step fl e s = Inr s3"
      unfolding q3_step_def loop res_bind_simps prod.case Let_def s2_def [symmetric] s3_def [symmetric]
      using False by simp
    then show thesis
      by (rule that) (use s3 False len in \<open>simp_all add: board_upd_def b mark(2) mark_all_def\<close>)
  qed
qed

lemma lduh_step_effect:
  fixes s :: lab1 and fl :: op_flags
  assumes "wf_executed e" and "length (reg_ready s) = MD_TOTAL_REGS"
  defines "n \<equiv> sim_num_insn s"
  obtains u where "lduh_step fl e s = Inr (s\<lparr>
      sim_num_loads := sim_num_loads s + of_bool (is_load fl (opcode1 e)),
      sim_num_lduh := sim_num_lduh s + of_bool (hazard_in n (checked fl e) (reg_ready s) \<noteq> None),
      reg_ready := u\<rparr>)"
    and "length u = MD_TOTAL_REGS" and "entries u = lduh_upd fl n e (entries (reg_ready s))"
proof -
  define h where "h = hazard_in n (checked fl e) (reg_ready s)"
  define s1 where "s1 = s\<lparr>sim_num_loads := sim_num_loads s + of_bool (is_load fl (opcode1 e))\<rparr>"
  have s1: "(if is_load fl (opcode1 e) then s\<lparr>sim_num_loads := sim_num_loads s + 1\<rparr> else s) = s1"
    by (simp add: s1_def)
  have loop: "lduh_loop (is_mem_store fl (opcode1 e)) 0 (r_in1 e) s1
      = Inr (s1\<lparr>sim_num_lduh := sim_num_lduh s + of_bool (h \<noteq> None)\<rparr>)"
    using lduh_loop_effect [of "r_in1 e" s1 "is_mem_store fl (opcode1 e)"] assms(1,2)
    unfolding h_def n_def checked_def by (simp only: s1_def wf_executed_def) simp
  obtain u where u: "mark_outputs (r_out1 e) (n + 2) (reg_ready s) = Inr u" "length u = MD_TOTAL_REGS"
    "entries u = mark_all (outs e) (n + 2) (entries (reg_ready s))"
    using mark_outputs_ok [of "r_out1 e" "reg_ready s" "n + 2"] assms(1,2)
    by (auto simp: wf_executed_def outs_def)
  define v where "v = (if is_load fl (opcode1 e) then u else reg_ready s)"
  show thesis
  proof (rule that [of v])
    show "lduh_step fl e s = Inr (s\<lparr>
      sim_num_loads := sim_num_loads s + of_bool (is_load fl (opcode1 e)),
      sim_num_lduh := sim_num_lduh s + of_bool (hazard_in n (checked fl e) (reg_ready s) \<noteq> None),
      reg_ready := v\<rparr>)"
      unfolding lduh_step_def Let_def s1 loop res_bind_simps h_def [symmetric]
      using u(1) by (cases "is_load fl (opcode1 e)") (simp_all add: s1_def n_def v_def)
    show "length v = MD_TOTAL_REGS" using u(2) assms(2) by (simp add: v_def)
    show "entries v = lduh_upd fl n e (entries (reg_ready s))"
      using u(3) by (simp add: v_def lduh_upd_def board_lduh_def mark_all_def)
  qed
qed

section \<open>Whole runs\<close>

text \<open>The number of the first \<open>k\<close> instructions with a property of their position.\<close>

definition positions :: "(nat \<Rightarrow> bool) \<Rightarrow> nat \<Rightarrow> nat" where
  "positions P k = length (filter P [0..<k])"

lemma positions_0 [simp]: "positions P 0 = 0"
  by (simp add: positions_def)

lemma positions_Suc [simp]: "positions P (Suc k) = positions P k + of_bool (P k)"
  by (simp add: positions_def)

definition lab1_rel :: "op_flags \<Rightarrow> executed1 list \<Rightarrow> nat \<Rightarrow> lab1 \<Rightarrow> bool" where
  "lab1_rel fl es k s \<longleftrightarrow>
     sim_num_insn s = k \<and>
     length (reg_ready s) = MD_TOTAL_REGS \<and> length (reg_ready_q1 s) = MD_TOTAL_REGS \<and>
     length (reg_ready_q2 s) = MD_TOTAL_REGS \<and> length (reg_ready_q3 s) = MD_TOTAL_REGS \<and>
     entries (reg_ready s) = lduh.table fl es k \<and> entries (reg_ready_q1 s) = q1.table es k \<and>
     entries (reg_ready_q2 s) = q2.table fl es k \<and> entries (reg_ready_q3 s) = q3.table fl es k \<and>
     sim_num_loads s = positions (\<lambda>j. is_load fl (opcode1 (es ! j))) k \<and>
     sim_num_lduh s = positions (\<lambda>j. stall_reg (board_lduh fl) es j \<noteq> None) k \<and>
     sim_num_RAW_hazard_q1 s = positions (\<lambda>j. stall_reg board_q1 es j \<noteq> None) k \<and>
     single_cycle_stalls_q1 s = positions (\<lambda>j. stall_cycles board_q1 es j = 1) k \<and>
     double_cycle_stalls_q1 s = positions (\<lambda>j. stall_cycles board_q1 es j = 2) k \<and>
     sim_num_RAW_hazard_q2 s = positions (\<lambda>j. stall_reg (board_q2 fl) es j \<noteq> None) k \<and>
     single_cycle_stalls_q2 s = positions (\<lambda>j. stall_cycles (board_q2 fl) es j = 1) k \<and>
     double_cycle_stalls_q2 s = positions (\<lambda>j. stall_cycles (board_q2 fl) es j = 2) k \<and>
     sim_num_WAW_hazard_q3 s = positions (\<lambda>j. stall_reg (board_q3 fl) es j \<noteq> None) k \<and>
     sim_num_structural_hazard_q3 s = positions (\<lambda>j. \<not> is_mem fl (opcode1 (es ! j)) \<and>
       stall_reg (board_q3 fl) es j = None) k"

lemma lab1_rel_init: "lab1_rel fl es 0 lab1_init"
  by (simp add: lab1_rel_def lab1_init_def entries_def fun_eq_iff)

context ready_table
begin

lemma stall_count_stall:
  assumes "entries t = table es k" and "0 < c"
  shows "stall_count (stall_reg b es k) t (Suc k) c = of_bool (stall_cycles b es k = c)"
proof (cases "stall_reg b es k")
  case None
  then show ?thesis using assms(2) by (simp add: stall_count_def stall_cycles_def)
next
  case (Some r)
  then show ?thesis using stall_offset [OF Some] assms(1) by (simp add: stall_count_def)
qed

lemma hazard_in_stall:
  assumes "entries t = table es k"
  shows "hazard_in (Suc k) (srcs b (es ! k)) t = stall_reg b es k"
  by (simp add: first_hazard_eq assms table_hazard)

end

lemma checked_srcs:
  "checked fl = srcs (board_q2 fl)" "checked fl = srcs (board_lduh fl)" "r_in1 = srcs board_q1"
  "q3_checked fl = srcs (board_q3 fl)"
  by (simp_all add: board_q2_def board_lduh_def board_q1_def board_q3_def q3_checked_def fun_eq_iff)

lemma lab1_step_rel:
  assumes rel: "lab1_rel fl es k s" and wf: "wf_executed (es ! k)"
  shows "\<exists>s'. lab1_step fl (es ! k) s = Inr s' \<and> lab1_rel fl es (Suc k) s'"
proof -
  define e where "e = es ! k"
  define s0 where "s0 = s\<lparr>sim_num_insn := sim_num_insn s + 1\<rparr>"
  note R = rel [unfolded lab1_rel_def]
  have wf: "wf_executed e" using wf by (simp add: e_def)
  have n0: "sim_num_insn s0 = Suc k" using R by (simp add: s0_def)
  have l1: "length (reg_ready_q1 s0) = MD_TOTAL_REGS" using R by (simp add: s0_def)
  obtain u1 where 1: "q1_step fl e s0 = Inr (s0\<lparr>
     sim_num_RAW_hazard_q1 := sim_num_RAW_hazard_q1 s0 + of_bool (hazard_in (Suc k) (r_in1 e) (reg_ready_q1 s0) \<noteq> None),
     single_cycle_stalls_q1 := single_cycle_stalls_q1 s0
       + stall_count (hazard_in (Suc k) (r_in1 e) (reg_ready_q1 s0)) (reg_ready_q1 s0) (Suc k) 1,
     double_cycle_stalls_q1 := double_cycle_stalls_q1 s0
       + stall_count (hazard_in (Suc k) (r_in1 e) (reg_ready_q1 s0)) (reg_ready_q1 s0) (Suc k) 2,
     reg_ready_q1 := u1\<rparr>)" "length u1 = MD_TOTAL_REGS"
    "entries u1 = board_upd board_q1 (Suc k) e (entries (reg_ready_q1 s0))"
    using q1_step_effect [OF wf l1, of fl] unfolding n0 by blast
  have t1: "entries (reg_ready_q1 s0) = q1.table es k" using R by (simp add: s0_def)
  note h1 = q1.hazard_in_stall [OF t1, folded e_def, folded checked_srcs]
  note 1 = 1 [unfolded h1 t1 q1.stall_count_stall [OF t1 zero_less_one] q1.stall_count_stall [OF t1 zero_less_numeral]]
  define s1 where "s1 = s0\<lparr>
     sim_num_RAW_hazard_q1 := sim_num_RAW_hazard_q1 s0 + of_bool (stall_reg board_q1 es k \<noteq> None),
     single_cycle_stalls_q1 := single_cycle_stalls_q1 s0 + of_bool (stall_cycles board_q1 es k = 1),
     double_cycle_stalls_q1 := double_cycle_stalls_q1 s0 + of_bool (stall_cycles board_q1 es k = 2),
     reg_ready_q1 := u1\<rparr>"
  have n1: "sim_num_insn s1 = Suc k" and l2: "length (reg_ready_q2 s1) = MD_TOTAL_REGS"
    and t2: "entries (reg_ready_q2 s1) = q2.table fl es k"
    using R n0 by (simp_all add: s1_def s0_def)
  obtain u2 where 2: "q2_step fl e s1 = Inr (s1\<lparr>
     sim_num_RAW_hazard_q2 := sim_num_RAW_hazard_q2 s1 + of_bool (hazard_in (Suc k) (checked fl e) (reg_ready_q2 s1) \<noteq> None),
     single_cycle_stalls_q2 := single_cycle_stalls_q2 s1
       + stall_count (hazard_in (Suc k) (checked fl e) (reg_ready_q2 s1)) (reg_ready_q2 s1) (Suc k) 1,
     double_cycle_stalls_q2 := double_cycle_stalls_q2 s1
       + stall_count (hazard_in (Suc k) (checked fl e) (reg_ready_q2 s1)) (reg_ready_q2 s1) (Suc k) 2,
     reg_ready_q2 := u2\<rparr>)" "length u2 = MD_TOTAL_REGS"
    "entries u2 = board_upd (board_q2 fl) (Suc k) e (entries (reg_ready_q2 s1))"
    using q2_step_effect [OF wf l2, of fl] unfolding n1 by blast
  note h2 = q2.hazard_in_stall [OF t2, folded e_def, folded checked_srcs(1)]
  note 2 = 2 [unfolded h2 t2 q2.stall_count_stall [OF t2 zero_less_one] q2.stall_count_stall [OF t2 zero_less_numeral]]
  define s2 where "s2 = s1\<lparr>
     sim_num_RAW_hazard_q2 := sim_num_RAW_hazard_q2 s1 + of_bool (stall_reg (board_q2 fl) es k \<noteq> None),
     single_cycle_stalls_q2 := single_cycle_stalls_q2 s1 + of_bool (stall_cycles (board_q2 fl) es k = 1),
     double_cycle_stalls_q2 := double_cycle_stalls_q2 s1 + of_bool (stall_cycles (board_q2 fl) es k = 2),
     reg_ready_q2 := u2\<rparr>"
  have n2: "sim_num_insn s2 = Suc k" and l3: "length (reg_ready_q3 s2) = MD_TOTAL_REGS"
    and t3: "entries (reg_ready_q3 s2) = q3.table fl es k"
    using R n1 by (simp_all add: s2_def s1_def s0_def)
  note h3 = q3.hazard_in_stall [OF t3, folded e_def, folded checked_srcs(4)]
  obtain s3 where 3: "q3_step fl e s2 = Inr s3"
    "sim_num_WAW_hazard_q3 s3 = sim_num_WAW_hazard_q3 s2 + of_bool (stall_reg (board_q3 fl) es k \<noteq> None)"
    "sim_num_structural_hazard_q3 s3 = sim_num_structural_hazard_q3 s2
      + of_bool (\<not> is_mem fl (opcode1 e) \<and> stall_reg (board_q3 fl) es k = None)"
    "length (reg_ready_q3 s3) = MD_TOTAL_REGS"
    "entries (reg_ready_q3 s3) = board_upd (board_q3 fl) (Suc k) e (q3.table fl es k)"
    "reg_ready s3 = reg_ready s2" "reg_ready_q1 s3 = reg_ready_q1 s2" "reg_ready_q2 s3 = reg_ready_q2 s2"
    "sim_num_insn s3 = Suc k" "sim_num_loads s3 = sim_num_loads s2" "sim_num_lduh s3 = sim_num_lduh s2"
    "sim_num_RAW_hazard_q1 s3 = sim_num_RAW_hazard_q1 s2"
    "single_cycle_stalls_q1 s3 = single_cycle_stalls_q1 s2" "double_cycle_stalls_q1 s3 = double_cycle_stalls_q1 s2"
    "sim_num_RAW_hazard_q2 s3 = sim_num_RAW_hazard_q2 s2"
    "single_cycle_stalls_q2 s3 = single_cycle_stalls_q2 s2" "double_cycle_stalls_q2 s3 = double_cycle_stalls_q2 s2"
    by (rule q3_step_effect [OF wf l3, of fl, unfolded n2 t3 h3])
  have l4: "length (reg_ready s3) = MD_TOTAL_REGS" and t4: "entries (reg_ready s3) = lduh.table fl es k"
    using R by (simp_all add: 3 s2_def s1_def s0_def)
  note h4 = lduh.hazard_in_stall [OF t4, folded e_def, folded checked_srcs(2)]
  obtain u4 where 4: "lduh_step fl e s3 = Inr (s3\<lparr>
      sim_num_loads := sim_num_loads s3 + of_bool (is_load fl (opcode1 e)),
      sim_num_lduh := sim_num_lduh s3 + of_bool (stall_reg (board_lduh fl) es k \<noteq> None),
      reg_ready := u4\<rparr>)" "length u4 = MD_TOTAL_REGS"
    "entries u4 = lduh_upd fl (Suc k) e (lduh.table fl es k)"
    by (rule lduh_step_effect [OF wf l4, of fl, unfolded 3(9) t4 h4])
  define s4 where "s4 = s3\<lparr>
      sim_num_loads := sim_num_loads s3 + of_bool (is_load fl (opcode1 e)),
      sim_num_lduh := sim_num_lduh s3 + of_bool (stall_reg (board_lduh fl) es k \<noteq> None),
      reg_ready := u4\<rparr>"
  have "lab1_step fl (es ! k) s = Inr s4"
    unfolding lab1_step_def e_def [symmetric] s0_def [symmetric] 1(1) res_bind_simps s1_def [symmetric]
      2(1) s2_def [symmetric] 3(1) 4(1) s4_def [symmetric] ..
  moreover have "lab1_rel fl es (Suc k) s4"
  proof -
    have "sim_num_insn s4 = Suc k" by (simp add: s4_def 3)
    moreover have "length (reg_ready s4) = MD_TOTAL_REGS" "length (reg_ready_q1 s4) = MD_TOTAL_REGS"
      "length (reg_ready_q2 s4) = MD_TOTAL_REGS" "length (reg_ready_q3 s4) = MD_TOTAL_REGS"
      using 1(2) 2(2) 3(4) 4(2) by (simp_all add: s4_def 3(7,8) s2_def s1_def)
    moreover have "entries (reg_ready s4) = lduh.table fl es (Suc k)"
      using 4(3) by (simp add: s4_def e_def)
    moreover have "entries (reg_ready_q1 s4) = q1.table es (Suc k)"
      using 1(3) by (simp add: s4_def 3(7) s2_def s1_def e_def)
    moreover have "entries (reg_ready_q2 s4) = q2.table fl es (Suc k)"
      using 2(3) by (simp add: s4_def 3(8) s2_def e_def)
    moreover have "entries (reg_ready_q3 s4) = q3.table fl es (Suc k)"
      using 3(5) by (simp add: s4_def e_def)
    moreover have
      "sim_num_loads s4 = sim_num_loads s + of_bool (is_load fl (opcode1 e))"
      "sim_num_lduh s4 = sim_num_lduh s + of_bool (stall_reg (board_lduh fl) es k \<noteq> None)"
      "sim_num_RAW_hazard_q1 s4 = sim_num_RAW_hazard_q1 s + of_bool (stall_reg board_q1 es k \<noteq> None)"
      "single_cycle_stalls_q1 s4 = single_cycle_stalls_q1 s + of_bool (stall_cycles board_q1 es k = 1)"
      "double_cycle_stalls_q1 s4 = double_cycle_stalls_q1 s + of_bool (stall_cycles board_q1 es k = 2)"
      "sim_num_RAW_hazard_q2 s4 = sim_num_RAW_hazard_q2 s + of_bool (stall_reg (board_q2 fl) es k \<noteq> None)"
      "single_cycle_stalls_q2 s4 = single_cycle_stalls_q2 s + of_bool (stall_cycles (board_q2 fl) es k = 1)"
      "double_cycle_stalls_q2 s4 = double_cycle_stalls_q2 s + of_bool (stall_cycles (board_q2 fl) es k = 2)"
      "sim_num_WAW_hazard_q3 s4 = sim_num_WAW_hazard_q3 s + of_bool (stall_reg (board_q3 fl) es k \<noteq> None)"
      "sim_num_structural_hazard_q3 s4 = sim_num_structural_hazard_q3 s
        + of_bool (\<not> is_mem fl (opcode1 e) \<and> stall_reg (board_q3 fl) es k = None)"
      unfolding s4_def by (simp_all add: 3 s2_def s1_def s0_def)
    ultimately show ?thesis
      using R unfolding lab1_rel_def positions_Suc e_def [symmetric] by (simp only: simp_thms)
  qed
  ultimately show ?thesis by blast
qed

lemma lab1_run_rel:
  "lab1_rel fl es k s \<Longrightarrow> \<forall>j \<in> {k..<length es}. wf_executed (es ! j) \<Longrightarrow> k \<le> length es \<Longrightarrow>
    \<exists>s'. lab1_run fl (drop k es) s = Inr s' \<and> lab1_rel fl es (length es) s'"
proof (induction "length es - k" arbitrary: k s)
  case 0
  then show ?case by auto
next
  case (Suc d)
  have k: "k < length es" using Suc.hyps by linarith
  obtain s1 where s1: "lab1_step fl (es ! k) s = Inr s1" "lab1_rel fl es (Suc k) s1"
    using lab1_step_rel [OF Suc.prems(1)] Suc.prems(2) k by auto
  have "\<exists>s'. lab1_run fl (drop (Suc k) es) s1 = Inr s' \<and> lab1_rel fl es (length es) s'"
    by (rule Suc.hyps(1)) (use Suc s1 k in auto)
  then show ?case
    using k s1 by (simp add: Cons_nth_drop_Suc [symmetric])
qed

lemma lab1_run_init:
  assumes "list_all wf_executed es"
  shows "\<exists>s. lab1_run fl es lab1_init = Inr s \<and> lab1_rel fl es (length es) s"
  using lab1_run_rel [OF lab1_rel_init, of es fl] assms by (simp add: list_all_length)

section \<open>Properties\<close>

text \<open>A load-use pair: the second instruction checks a register the first, a load, writes.\<close>

definition load_use :: "op_flags \<Rightarrow> executed1 \<Rightarrow> executed1 \<Rightarrow> bool" where
  "load_use fl a b \<longleftrightarrow> is_load fl (opcode1 a) \<and> (\<exists>r \<in> set (checked fl b). r \<in> outs a)"

lemma stall_lduh:
  "stall_reg (board_lduh fl) es k \<noteq> None \<longleftrightarrow> 0 < k \<and> load_use fl (es ! (k - 1)) (es ! k)"
proof (cases k)
  case (Suc j)
  have "(r \<noteq> DNA \<and> 0 < wait_at (board_lduh fl) es (Suc j) r)
      \<longleftrightarrow> is_load fl (opcode1 (es ! j)) \<and> r \<in> outs (es ! j)" for r
    by (auto simp: wait_at_def wait_after_def board_lduh_def outs_def)
  then have "stall_reg (board_lduh fl) es (Suc j) =
      find (\<lambda>r. is_load fl (opcode1 (es ! j)) \<and> r \<in> outs (es ! j)) (checked fl (es ! Suc j))"
    unfolding stall_reg_find by (simp add: board_lduh_def)
  then show ?thesis
    by (auto simp: Suc find_None_iff load_use_def simp del: stall_reg.simps)
qed simp

text \<open>The load-use counter is exact: on every program whose registers exist the run returns, the
  loads counter is the number of loads, and a load-use hazard is counted exactly for each instruction
  that checks a register written by the load just before it.  The first input of a store, the stored
  value, is not checked.\<close>

theorem load_use_counted_exactly:
  assumes "list_all wf_executed es"
  shows "\<exists>s. lab1_run fl es lab1_init = Inr s \<and> sim_num_insn s = length es \<and>
    sim_num_loads s = length (filter (\<lambda>e. is_load fl (opcode1 e)) es) \<and>
    sim_num_lduh s = positions (\<lambda>k. 0 < k \<and> load_use fl (es ! (k - 1)) (es ! k)) (length es)"
proof -
  obtain s where s: "lab1_run fl es lab1_init = Inr s" "lab1_rel fl es (length es) s"
    using lab1_run_init [OF assms] by blast
  have "positions (\<lambda>j. is_load fl (opcode1 (es ! j))) (length es)
      = length (filter (\<lambda>e. is_load fl (opcode1 e)) (map ((!) es) [0..<length es]))"
    by (simp add: positions_def filter_map o_def)
  then have "positions (\<lambda>j. is_load fl (opcode1 (es ! j))) (length es)
      = length (filter (\<lambda>e. is_load fl (opcode1 e)) es)"
    by (simp add: map_nth)
  then show ?thesis
    using s unfolding lab1_rel_def stall_lduh by (intro exI [of _ s]) simp
qed

lemma positions_add:
  "(\<And>k. of_bool (P k) + of_bool (Q k) = (of_bool (R k) :: nat)) \<Longrightarrow>
    positions P n + positions Q n = positions R n"
proof (induction n)
  case (Suc n)
  have "of_bool (P n) + of_bool (Q n) = (of_bool (R n) :: nat)" using Suc.prems .
  then show ?case using Suc.IH [OF Suc.prems] by (simp only: positions_Suc)
qed simp

context ready_table
begin

lemma stalls_sum:
  "positions (\<lambda>k. stall_cycles b es k = 1) n + positions (\<lambda>k. stall_cycles b es k = 2) n
    = positions (\<lambda>k. stall_reg b es k \<noteq> None) n"
proof (rule positions_add)
  fix k
  have "stall_cycles b es k \<le> 2" "stall_cycles b es k = 0 \<longleftrightarrow> stall_reg b es k = None"
    by (simp_all add: stall_cycles_le stall_cycles_pos)
  then show "of_bool (stall_cycles b es k = 1) + of_bool (stall_cycles b es k = 2)
      = (of_bool (stall_reg b es k \<noteq> None) :: nat)"
    by (cases "stall_reg b es k") auto
qed

end

text \<open>C18: the read-after-write counters are exact, for the pipeline without forwarding (\<open>q1\<close>) and the
  one with forwarding (\<open>q2\<close>).  An instruction is counted, once, exactly when it stalls in the
  declarative sense: the first input it checks that was written by the instruction before, or by the
  one before that if nothing has stalled on it yet, decides the stall of two cycles or of one.  Every
  hazard is a single or a double stall.\<close>

theorem raw_stalls_counted_exactly:
  assumes "list_all wf_executed es"
  shows "\<exists>s. lab1_run fl es lab1_init = Inr s \<and>
    sim_num_RAW_hazard_q1 s = positions (\<lambda>k. stall_reg board_q1 es k \<noteq> None) (length es) \<and>
    single_cycle_stalls_q1 s = positions (\<lambda>k. stall_cycles board_q1 es k = 1) (length es) \<and>
    double_cycle_stalls_q1 s = positions (\<lambda>k. stall_cycles board_q1 es k = 2) (length es) \<and>
    sim_num_RAW_hazard_q2 s = positions (\<lambda>k. stall_reg (board_q2 fl) es k \<noteq> None) (length es) \<and>
    single_cycle_stalls_q2 s = positions (\<lambda>k. stall_cycles (board_q2 fl) es k = 1) (length es) \<and>
    double_cycle_stalls_q2 s = positions (\<lambda>k. stall_cycles (board_q2 fl) es k = 2) (length es) \<and>
    sim_num_RAW_hazard_q1 s = single_cycle_stalls_q1 s + double_cycle_stalls_q1 s \<and>
    sim_num_RAW_hazard_q2 s = single_cycle_stalls_q2 s + double_cycle_stalls_q2 s"
proof -
  obtain s where s: "lab1_run fl es lab1_init = Inr s" "lab1_rel fl es (length es) s"
    using lab1_run_init [OF assms] by blast
  then show ?thesis
    unfolding lab1_rel_def by (intro exI [of _ s]) (simp only: q1.stalls_sum q2.stalls_sum simp_thms)
qed

text \<open>the third pipeline.  A write-after-write hazard is counted exactly for the instructions that
  write (in an output they check) a register a load one or two instructions before also writes; and
  every instruction that is not a memory access and has no such hazard is counted as a structural
  hazard, whether or not another instruction writes back in its cycle.\<close>

theorem structural_hazards_counted:
  assumes "list_all wf_executed es"
  shows "\<exists>s. lab1_run fl es lab1_init = Inr s \<and>
    sim_num_WAW_hazard_q3 s = positions (\<lambda>k. stall_reg (board_q3 fl) es k \<noteq> None) (length es) \<and>
    sim_num_structural_hazard_q3 s
      + positions (\<lambda>k. \<not> is_mem fl (opcode1 (es ! k)) \<and> stall_reg (board_q3 fl) es k \<noteq> None) (length es)
      = positions (\<lambda>k. \<not> is_mem fl (opcode1 (es ! k))) (length es)"
proof -
  obtain s where s: "lab1_run fl es lab1_init = Inr s" "lab1_rel fl es (length es) s"
    using lab1_run_init [OF assms] by blast
  have "positions (\<lambda>j. \<not> is_mem fl (opcode1 (es ! j)) \<and> stall_reg (board_q3 fl) es j = None) (length es)
      + positions (\<lambda>k. \<not> is_mem fl (opcode1 (es ! k)) \<and> stall_reg (board_q3 fl) es k \<noteq> None) (length es)
      = positions (\<lambda>k. \<not> is_mem fl (opcode1 (es ! k))) (length es)"
    by (rule positions_add) auto
  then show ?thesis
    using s unfolding lab1_rel_def by (intro exI [of _ s]) simp
qed

section \<open>A demonstration program\<close>

text \<open>A load of register 3, an addition that reads it twice into 4, a use of both, and a store.\<close>

definition demo_flags1 :: op_flags where
  "demo_flags1 op = (if op = 1 then F_MEM OR F_LOAD else if op = 2 then F_MEM OR F_STORE else F_ICOMP)"

definition demo_es :: "executed1 list" where
  "demo_es = [\<lparr>opcode1 = 1, r_out1 = [3, 0], r_in1 = [0, 29, 0]\<rparr>,
     \<lparr>opcode1 = 0, r_out1 = [4, 0], r_in1 = [3, 3, 0]\<rparr>,
     \<lparr>opcode1 = 0, r_out1 = [5, 0], r_in1 = [3, 4, 0]\<rparr>,
     \<lparr>opcode1 = 2, r_out1 = [0, 0], r_in1 = [5, 29, 0]\<rparr>]"

lemma demo_es_wf: "list_all wf_executed demo_es"
  by (simp add: demo_es_def wf_executed_def MD_TOTAL_REGS_def)

lemma demo_counts:
  "length (filter (\<lambda>e. is_load demo_flags1 (opcode1 e)) demo_es) = 1"
  "positions (\<lambda>k. 0 < k \<and> load_use demo_flags1 (demo_es ! (k - 1)) (demo_es ! k)) (length demo_es) = 1"
  "positions (\<lambda>k. stall_reg board_q1 demo_es k \<noteq> None) (length demo_es) = 3"
  "positions (\<lambda>k. stall_cycles board_q1 demo_es k = 2) (length demo_es) = 3"
  "positions (\<lambda>k. stall_reg (board_q2 demo_flags1) demo_es k \<noteq> None) (length demo_es) = 2"
  "positions (\<lambda>k. stall_reg (board_q3 demo_flags1) demo_es k \<noteq> None) (length demo_es) = 0"
  "positions (\<lambda>k. \<not> is_mem demo_flags1 (opcode1 (demo_es ! k))
     \<and> stall_reg (board_q3 demo_flags1) demo_es k \<noteq> None) (length demo_es) = 0"
  "positions (\<lambda>k. \<not> is_mem demo_flags1 (opcode1 (demo_es ! k))) (length demo_es) = 2"
  by code_simp+

lemma load_use_counted_exactly_witness:
  "\<exists>s. lab1_run demo_flags1 demo_es lab1_init = Inr s \<and> sim_num_loads s = 1 \<and> sim_num_lduh s = 1"
  using load_use_counted_exactly [OF demo_es_wf, of demo_flags1] unfolding demo_counts by blast

lemma raw_stalls_counted_exactly_witness:
  "\<exists>s. lab1_run demo_flags1 demo_es lab1_init = Inr s \<and> sim_num_RAW_hazard_q1 s = 3 \<and>
     double_cycle_stalls_q1 s = 3 \<and> sim_num_RAW_hazard_q2 s = 2"
  using raw_stalls_counted_exactly [OF demo_es_wf, of demo_flags1] unfolding demo_counts by blast

lemma structural_hazards_counted_witness:
  "\<exists>s. lab1_run demo_flags1 demo_es lab1_init = Inr s \<and> sim_num_WAW_hazard_q3 s = 0 \<and>
     sim_num_structural_hazard_q3 s = 2"
  using structural_hazards_counted [OF demo_es_wf, of demo_flags1] unfolding demo_counts by simp

end
