(* ===== verification/Lab5_Cache.thy ===== *)
theory Lab5_Cache
  imports Pisa_Machine
begin

text \<open>
  The cache of lab 5 (\<open>lab5/cache.h\<close>, \<open>cache.c\<close>): blocks linked into an ordered way list and, in highly
  associative caches, into hash chains; next-line, stride and open-ended prefetchers; the access, the
  probe and the flushes.  A \<open>struct cache_blk_t*\<close> is the index of the block in the array the cache
  allocates, \<^const>\<open>None\<close> for \<open>NULL\<close>.  The handler of misses \<open>blk_access_fn\<close>, the random numbers and the
  program counter are given by an environment, with a state \<open>'w\<close> the handler may change: the next level
  of memory.  The model is of caches that keep no contents (\<open>balloc\<close> is 0, as in every call of
  \<open>cache_create\<close>) and leaves the user data of blocks out.  Times and latencies are unbounded integers.
\<close>

section \<open>Data\<close>

datatype cache_policy = LRU | Random | FIFO

datatype mem_cmd = Read | Write

datatype list_loc_t = Head | Tail

datatype rpt_state_t = Initial | Transient | Steady | NoPrediction

type_synonym blk_ptr = "nat option"

definition CACHE_BLK_VALID :: u32 where "CACHE_BLK_VALID = 0x1"
definition CACHE_BLK_DIRTY :: u32 where "CACHE_BLK_DIRTY = 0x2"

record cache_blk_t =
  way_next :: blk_ptr
  way_prev :: blk_ptr
  hash_next :: blk_ptr
  tag :: md_addr
  status :: u32
  ready :: int

record cache_set_t =
  hash :: "blk_ptr list"
  way_head :: blk_ptr
  way_tail :: blk_ptr
  blks :: nat

record rpt_t =
  tags :: "md_addr list"
  prev_addrs :: "md_addr list"
  strides :: "md_addr list"
  is_negative :: "bool list"
  states :: "rpt_state_t list"

record cache_t =
  nsets :: nat
  bsize :: nat
  assoc :: nat
  policy :: cache_policy
  hit_latency :: nat
  prefetch_type :: nat
  hsize :: nat
  blk_mask :: md_addr
  set_shift :: nat
  set_mask :: md_addr
  tag_shift :: nat
  tagset_mask :: md_addr
  bus_free :: int
  hits :: nat
  misses :: nat
  replacements :: nat
  writebacks :: nat
  invalidations :: nat
  read_hits :: nat
  read_misses :: nat
  prefetch_hits :: nat
  prefetch_misses :: nat
  last_tagset :: md_addr
  last_blk :: blk_ptr
  data :: "cache_blk_t list"
  rpt :: "rpt_t option"
  miss_queue :: "md_addr list"
  miss_queue_size :: nat
  miss_queue_head :: nat
  sets :: "cache_set_t list"

definition MISS_QUEUE_MAX_SIZE :: nat where "MISS_QUEUE_MAX_SIZE = 2048"
definition RPT_DEFAULT_SIZE :: nat where "RPT_DEFAULT_SIZE = 1024"

text \<open>What the cache calls: the miss handler, \<open>myrand()\<close> and \<open>get_PC()\<close>.\<close>

record 'w env =
  blk_access_fn :: "mem_cmd \<Rightarrow> md_addr \<Rightarrow> nat \<Rightarrow> int \<Rightarrow> bool \<Rightarrow> 'w \<Rightarrow> (int \<times> 'w) res"
  myrand :: "'w \<Rightarrow> nat \<times> 'w"
  get_PC :: md_addr

section \<open>Addresses\<close>

definition CACHE_TAG :: "cache_t \<Rightarrow> md_addr \<Rightarrow> md_addr" where
  "CACHE_TAG cp addr = drop_bit (tag_shift cp) addr"

definition CACHE_SET :: "cache_t \<Rightarrow> md_addr \<Rightarrow> md_addr" where
  "CACHE_SET cp addr = drop_bit (set_shift cp) addr AND set_mask cp"

definition CACHE_TAGSET :: "cache_t \<Rightarrow> md_addr \<Rightarrow> md_addr" where
  "CACHE_TAGSET cp addr = addr AND tagset_mask cp"

definition CACHE_BADDR :: "cache_t \<Rightarrow> md_addr \<Rightarrow> md_addr" where
  "CACHE_BADDR cp addr = addr AND NOT (blk_mask cp)"

definition CACHE_MK_BADDR :: "cache_t \<Rightarrow> md_addr \<Rightarrow> md_addr \<Rightarrow> md_addr" where
  "CACHE_MK_BADDR cp tg k = push_bit (tag_shift cp) tg OR push_bit (set_shift cp) k"

definition CACHE_HASH :: "cache_t \<Rightarrow> md_addr \<Rightarrow> nat" where
  "CACHE_HASH cp key = unat
     ((drop_bit 24 key XOR drop_bit 16 key XOR drop_bit 8 key XOR key) AND (of_nat (hsize cp) - 1))"

definition BOUND_POS :: "int \<Rightarrow> int" where
  "BOUND_POS n = min (max 0 n) 2147483647"

definition is_valid :: "cache_blk_t \<Rightarrow> bool" where
  "is_valid b \<longleftrightarrow> status b AND CACHE_BLK_VALID \<noteq> 0"

definition is_dirty :: "cache_blk_t \<Rightarrow> bool" where
  "is_dirty b \<longleftrightarrow> status b AND CACHE_BLK_DIRTY \<noteq> 0"

section \<open>Memory accesses\<close>

text \<open>Reading and updating through a pointer; a null pointer is \<^const>\<open>OutOfRange\<close>.\<close>

definition blk_at :: "cache_t \<Rightarrow> blk_ptr \<Rightarrow> cache_blk_t res" where
  "blk_at cp p = (case p of None \<Rightarrow> Inl OutOfRange | Some i \<Rightarrow> vec_get (data cp) i)"

definition upd_blk :: "blk_ptr \<Rightarrow> (cache_blk_t \<Rightarrow> cache_blk_t) \<Rightarrow> cache_t \<Rightarrow> cache_t res" where
  "upd_blk p f cp =
     (case p of None \<Rightarrow> Inl OutOfRange
      | Some i \<Rightarrow> res_bind (vec_get (data cp) i) (\<lambda>b. Inr (cp\<lparr>data := (data cp)[i := f b]\<rparr>)))"

definition upd_set :: "nat \<Rightarrow> (cache_set_t \<Rightarrow> cache_set_t) \<Rightarrow> cache_t \<Rightarrow> cache_t res" where
  "upd_set k f cp =
     res_bind (vec_get (sets cp) k) (\<lambda>st. Inr (cp\<lparr>sets := (sets cp)[k := f st]\<rparr>))"

text \<open>
  The loops \<open>for (blk = start; blk; blk = blk->next)\<close> of the source.  A walk that has not ended after as
  many steps as there are blocks has met one twice, and then it never ends; \<open>Lab5_Chains\<close> proves it.
\<close>

fun chain_find :: "nat \<Rightarrow> (cache_blk_t \<Rightarrow> blk_ptr) \<Rightarrow> (nat \<Rightarrow> cache_blk_t \<Rightarrow> bool) \<Rightarrow> cache_blk_t list \<Rightarrow> blk_ptr \<Rightarrow> blk_ptr res" where
  "chain_find n nxt P d None = Inr None"
| "chain_find 0 nxt P d (Some p) = Inl Diverges"
| "chain_find (Suc n) nxt P d (Some p) =
     res_bind (vec_get d p) (\<lambda>b. if P p b then Inr (Some p) else chain_find n nxt P d (nxt b))"

definition find_blk :: "md_addr \<Rightarrow> md_addr \<Rightarrow> cache_t \<Rightarrow> blk_ptr res" where
  "find_blk k tg cp =
     res_bind (vec_get (sets cp) (unat k)) (\<lambda>st.
       if hsize cp \<noteq> 0 then
         res_bind (vec_get (hash st) (CACHE_HASH cp tg)) (\<lambda>start.
           chain_find (length (data cp)) hash_next (\<lambda>_ b. tag b = tg \<and> is_valid b) (data cp) start)
       else chain_find (length (data cp)) way_next (\<lambda>_ b. tag b = tg \<and> is_valid b) (data cp) (way_head st))"

section \<open>Hash chains and way lists\<close>

text \<open>
  The search of \<open>unlink_htab_ent\<close> keeps the block before the current one; it returns that block and
  the current one, \<^const>\<open>None\<close> at the end of the chain.
\<close>

fun unlink_find :: "nat \<Rightarrow> cache_blk_t list \<Rightarrow> nat \<Rightarrow> blk_ptr \<Rightarrow> blk_ptr \<Rightarrow> (blk_ptr \<times> blk_ptr) res" where
  "unlink_find n d blk prev None = Inr (prev, None)"
| "unlink_find 0 d blk prev (Some ent) = Inl Diverges"
| "unlink_find (Suc n) d blk prev (Some ent) =
     (if ent = blk then Inr (prev, Some ent)
      else res_bind (vec_get d ent) (\<lambda>b. unlink_find n d blk (Some ent) (hash_next b)))"

definition unlink_htab_ent :: "nat \<Rightarrow> nat \<Rightarrow> cache_t \<Rightarrow> cache_t res" where
  "unlink_htab_ent k blk cp =
     res_bind (blk_at cp (Some blk)) (\<lambda>b.
     res_bind (vec_get (sets cp) k) (\<lambda>st.
      (let index = CACHE_HASH cp (tag b) in
       res_bind (vec_get (hash st) index) (\<lambda>start.
       res_bind (unlink_find (length (data cp)) (data cp) blk None start) (\<lambda>(prev, ent).
       (case ent of
          None \<Rightarrow> Inl AssertFailed
        | Some e \<Rightarrow>
            res_bind (blk_at cp (Some e)) (\<lambda>be.
            res_bind
              (case prev of
                 None \<Rightarrow> upd_set k (\<lambda>st. st\<lparr>hash := (hash st)[index := hash_next be]\<rparr>) cp
               | Some p \<Rightarrow> upd_blk (Some p) (\<lambda>b. b\<lparr>hash_next := hash_next be\<rparr>) cp) (\<lambda>cp1.
            upd_blk (Some e) (\<lambda>b. b\<lparr>hash_next := None\<rparr>) cp1)))))))) "

definition link_htab_ent :: "nat \<Rightarrow> nat \<Rightarrow> cache_t \<Rightarrow> cache_t res" where
  "link_htab_ent k blk cp =
     res_bind (blk_at cp (Some blk)) (\<lambda>b.
     res_bind (vec_get (sets cp) k) (\<lambda>st.
      (let index = CACHE_HASH cp (tag b) in
       res_bind (vec_get (hash st) index) (\<lambda>start.
       res_bind (upd_blk (Some blk) (\<lambda>b. b\<lparr>hash_next := start\<rparr>) cp) (\<lambda>cp1.
       upd_set k (\<lambda>st. st\<lparr>hash := (hash st)[index := Some blk]\<rparr>) cp1)))))"

text \<open>The part of \<open>update_way_list\<close> that links a block back at either end.\<close>

definition link_way :: "nat \<Rightarrow> nat \<Rightarrow> list_loc_t \<Rightarrow> cache_t \<Rightarrow> cache_t res" where
  "link_way k blk loc cp =
     res_bind (vec_get (sets cp) k) (\<lambda>st.
     (case loc of
        Head \<Rightarrow>
          res_bind (upd_blk (Some blk) (\<lambda>b. b\<lparr>way_next := way_head st, way_prev := None\<rparr>) cp) (\<lambda>cp1.
          res_bind (upd_blk (way_head st) (\<lambda>b. b\<lparr>way_prev := Some blk\<rparr>) cp1) (\<lambda>cp2.
          upd_set k (\<lambda>st. st\<lparr>way_head := Some blk\<rparr>) cp2))
      | Tail \<Rightarrow>
          res_bind (upd_blk (Some blk) (\<lambda>b. b\<lparr>way_prev := way_tail st, way_next := None\<rparr>) cp) (\<lambda>cp1.
          res_bind (upd_blk (way_tail st) (\<lambda>b. b\<lparr>way_next := Some blk\<rparr>) cp1) (\<lambda>cp2.
          upd_set k (\<lambda>st. st\<lparr>way_tail := Some blk\<rparr>) cp2))))"

definition update_way_list :: "nat \<Rightarrow> nat \<Rightarrow> list_loc_t \<Rightarrow> cache_t \<Rightarrow> cache_t res" where
  "update_way_list k blk loc cp =
     res_bind (blk_at cp (Some blk)) (\<lambda>b.
     res_bind (vec_get (sets cp) k) (\<lambda>st.
       if way_prev b = None \<and> way_next b = None then
         assert_that (way_head st = Some blk \<and> way_tail st = Some blk) (Inr cp)
       else if way_prev b = None then
         assert_that (way_head st = Some blk \<and> way_tail st \<noteq> Some blk)
           (if loc = Head then Inr cp
            else res_bind (upd_set k (\<lambda>st. st\<lparr>way_head := way_next b\<rparr>) cp) (\<lambda>cp1.
                 res_bind (upd_blk (way_next b) (\<lambda>n. n\<lparr>way_prev := None\<rparr>) cp1) (\<lambda>cp2.
                 link_way k blk loc cp2)))
       else if way_next b = None then
         assert_that (way_head st \<noteq> Some blk \<and> way_tail st = Some blk)
           (if loc = Tail then Inr cp
            else res_bind (upd_set k (\<lambda>st. st\<lparr>way_tail := way_prev b\<rparr>) cp) (\<lambda>cp1.
                 res_bind (upd_blk (way_prev b) (\<lambda>p. p\<lparr>way_next := None\<rparr>) cp1) (\<lambda>cp2.
                 link_way k blk loc cp2)))
       else
         assert_that (way_head st \<noteq> Some blk \<and> way_tail st \<noteq> Some blk)
           (res_bind (upd_blk (way_prev b) (\<lambda>p. p\<lparr>way_next := way_next b\<rparr>) cp) (\<lambda>cp1.
            res_bind (upd_blk (way_next b) (\<lambda>n. n\<lparr>way_prev := way_prev b\<rparr>) cp1) (\<lambda>cp2.
            link_way k blk loc cp2)))))"

section \<open>Creation\<close>

fun log_loop :: "nat \<Rightarrow> nat \<Rightarrow> nat" where
  "log_loop n pw = (if n div 2 = 0 then pw else log_loop (n div 2) (pw + 1))"

declare log_loop.simps [simp del]

definition log_base2 :: "int \<Rightarrow> nat res" where
  "log_base2 n = (if n \<le> 0 \<or> n AND (n - 1) \<noteq> 0 then Inl Panic else Inr (log_loop (nat n) 0))"

definition CACHE_HIGHLY_ASSOC :: "int \<Rightarrow> bool" where
  "CACHE_HIGHLY_ASSOC n \<longleftrightarrow> n > 4"

definition new_rpt :: "nat \<Rightarrow> rpt_t" where
  "new_rpt rpt_size = \<lparr>tags = replicate rpt_size 0, prev_addrs = replicate rpt_size 0,
     strides = replicate rpt_size 0, is_negative = replicate rpt_size False,
     states = replicate rpt_size Initial\<rparr>"

definition zero_blk :: cache_blk_t where
  "zero_blk = \<lparr>way_next = None, way_prev = None, hash_next = None, tag = 0, status = 0, ready = 0\<rparr>"

text \<open>One round of the inner loop of \<open>cache_create\<close>: block \<open>bindex\<close> enters set \<open>k\<close>.\<close>

definition create_blk :: "nat \<Rightarrow> nat \<Rightarrow> cache_t \<Rightarrow> cache_t res" where
  "create_blk k bindex cp =
     res_bind (upd_blk (Some bindex) (\<lambda>b. b\<lparr>status := 0, tag := 0, ready := 0\<rparr>) cp) (\<lambda>cp1.
     res_bind (if hsize cp1 \<noteq> 0 then link_htab_ent k bindex cp1 else Inr cp1) (\<lambda>cp2.
     res_bind (vec_get (sets cp2) k) (\<lambda>st.
     res_bind (upd_blk (Some bindex) (\<lambda>b. b\<lparr>way_next := way_head st, way_prev := None\<rparr>) cp2) (\<lambda>cp3.
     res_bind (if way_head st \<noteq> None then upd_blk (way_head st) (\<lambda>b. b\<lparr>way_prev := Some bindex\<rparr>) cp3
               else Inr cp3) (\<lambda>cp4.
     upd_set k (\<lambda>st. st\<lparr>way_head := Some bindex,
       way_tail := (if way_tail st = None then Some bindex else way_tail st)\<rparr>) cp4)))))"

fun create_blks :: "nat \<Rightarrow> nat \<Rightarrow> nat \<Rightarrow> cache_t \<Rightarrow> cache_t res" where
  "create_blks k bindex 0 cp = Inr cp"
| "create_blks k bindex (Suc j) cp = res_bind (create_blk k bindex cp) (create_blks k (bindex + 1) j)"

text \<open>
  The allocator of the C library is an argument: \<open>alloc n\<close> says whether the \<open>n\<close>-th allocation whose result
  the code checks succeeds.  The structure is number 0, the blocks number 1 and the hash table of set \<open>k\<close>
  number \<open>2 + k\<close>.
\<close>

fun create_sets :: "(nat \<Rightarrow> bool) \<Rightarrow> nat \<Rightarrow> nat \<Rightarrow> nat \<Rightarrow> cache_t \<Rightarrow> cache_t res" where
  "create_sets alloc k bindex 0 cp = Inr cp"
| "create_sets alloc k bindex (Suc i) cp =
     (if hsize cp \<noteq> 0 \<and> \<not> alloc (2 + k) then Inl Fatal
      else
        res_bind (upd_set k (\<lambda>st. st\<lparr>way_head := None, way_tail := None,
          hash := replicate (hsize cp) None, blks := bindex\<rparr>) cp) (\<lambda>cp1.
        res_bind (create_blks k bindex (assoc cp1) cp1) (create_sets alloc (k + 1) (bindex + assoc cp1) i)))"

text \<open>
  The loop over the sets allocates the reference prediction table again for each set and keeps the
  last one, so the table is created once here; the memory of the earlier ones is never released.  The
  results of these allocations are not checked, and they are taken to succeed.  \<open>blk_fn\<close> says whether a
  handler of misses is given.  The shift by \<open>32 - tag_shift\<close> is undefined when it is negative, the product
  of the numbers of sets and ways when it leaves the range of \<open>int\<close>.
\<close>

definition cache_create :: "(nat \<Rightarrow> bool) \<Rightarrow> bool \<Rightarrow> int \<Rightarrow> int \<Rightarrow> int \<Rightarrow> int \<Rightarrow> cache_policy \<Rightarrow> nat \<Rightarrow> int \<Rightarrow> cache_t res" where
  "cache_create alloc blk_fn ns bs usize as pol hit_lat pf_type =
     (if ns \<le> 0 then Inl Fatal
      else if ns AND (ns - 1) \<noteq> 0 then Inl Fatal
      else if bs < 8 then Inl Fatal
      else if bs AND (bs - 1) \<noteq> 0 then Inl Fatal
      else if usize < 0 then Inl Fatal
      else if as \<le> 0 then Inl Fatal
      else if as AND (as - 1) \<noteq> 0 then Inl Fatal
      else if \<not> blk_fn then Inl Fatal
      else if pf_type < 0 then Inl Fatal
      else if \<not> alloc 0 then Inl Fatal
      else
        res_bind (log_base2 bs) (\<lambda>lb.
        res_bind (log_base2 ns) (\<lambda>ls.
        if 32 < lb + ls \<or> 2 ^ 31 \<le> ns * as then Inl OutOfRange
        else if \<not> alloc 1 then Inl Fatal
        else
        (let pt = nat pf_type;
             rpt_size = (if pt = 2 then RPT_DEFAULT_SIZE else pt);
             bmask = of_int (bs - 1);
             cp = \<lparr>nsets = nat ns, bsize = nat bs, assoc = nat as, policy = pol, hit_latency = hit_lat,
               prefetch_type = pt,
               hsize = (if CACHE_HIGHLY_ASSOC as then nat as div 4 else 0),
               blk_mask = bmask, set_shift = lb, set_mask = of_int (ns - 1), tag_shift = lb + ls,
               tagset_mask = NOT bmask, bus_free = 0, hits = 0, misses = 0, replacements = 0,
               writebacks = 0, invalidations = 0, read_hits = 0, read_misses = 0, prefetch_hits = 0,
               prefetch_misses = 0, last_tagset = 0, last_blk = None,
               data = replicate (nat ns * nat as) zero_blk,
               rpt = (if pt \<ge> 2 then Some (new_rpt rpt_size) else None),
               miss_queue = (if pt = 2 then replicate MISS_QUEUE_MAX_SIZE 0 else []),
               miss_queue_size = 0, miss_queue_head = 0,
               sets = replicate (nat ns) \<lparr>hash = [], way_head = None, way_tail = None, blks = 0\<rparr>\<rparr> in
         create_sets alloc 0 0 (nat ns) cp))))"

section \<open>The miss queue of the open-ended prefetcher\<close>

definition miss_queue_insert :: "md_addr \<Rightarrow> cache_t \<Rightarrow> cache_t res" where
  "miss_queue_insert addr cp =
     assert_that (addr \<noteq> 0) (assert_that (prefetch_type cp = 2)
       (let cp1 = (if miss_queue_size cp = MISS_QUEUE_MAX_SIZE
                   then cp\<lparr>miss_queue_head := miss_queue_head cp + 1\<rparr> else cp);
            insert_index = (miss_queue_head cp1 + miss_queue_size cp1) mod MISS_QUEUE_MAX_SIZE in
        res_bind (vec_set (miss_queue cp1) insert_index addr) (\<lambda>q.
        (let cp2 = cp1\<lparr>miss_queue := q\<rparr> in
         Inr (if miss_queue_size cp2 < MISS_QUEUE_MAX_SIZE
              then cp2\<lparr>miss_queue_size := miss_queue_size cp2 + 1\<rparr> else cp2)))))"

fun next_miss_loop :: "nat \<Rightarrow> nat \<Rightarrow> md_addr list \<Rightarrow> md_addr \<Rightarrow> md_addr res" where
  "next_miss_loop i 0 q addr = Inr 0"
| "next_miss_loop i (Suc n) q addr =
     res_bind (vec_get q i) (\<lambda>x.
       if x = addr then vec_get q ((i + 1) mod MISS_QUEUE_MAX_SIZE) else next_miss_loop (i + 1) n q addr)"

definition miss_queue_get_next_miss_addr :: "md_addr \<Rightarrow> cache_t \<Rightarrow> md_addr res" where
  "miss_queue_get_next_miss_addr addr cp =
     assert_that (addr \<noteq> 0) (assert_that (prefetch_type cp = 2)
       (next_miss_loop 0 MISS_QUEUE_MAX_SIZE (miss_queue cp) addr))"

section \<open>The reference prediction table\<close>

fun get_next_rpt_state :: "rpt_state_t \<Rightarrow> bool \<Rightarrow> rpt_state_t" where
  "get_next_rpt_state Initial condition = (if condition then Steady else Transient)"
| "get_next_rpt_state Transient condition = (if condition then Steady else NoPrediction)"
| "get_next_rpt_state Steady condition = (if condition then Steady else Initial)"
| "get_next_rpt_state NoPrediction condition = (if condition then Transient else NoPrediction)"

text \<open>
  Both prefetchers that use the table look the instruction up by its PC.  \<open>rpt_update\<close> is their
  common body: a new entry (\<open>None\<close>), or the entry after the access.
\<close>

definition rpt_index :: "nat \<Rightarrow> md_addr \<Rightarrow> nat" where
  "rpt_index rpt_size pc = unat (drop_bit 3 pc AND (of_nat rpt_size - 1))"

definition rpt_tag :: "nat \<Rightarrow> md_addr \<Rightarrow> md_addr res" where
  "rpt_tag rpt_size pc =
     res_bind (log_base2 8) (\<lambda>index_offset.
     res_bind (log_base2 (int rpt_size)) (\<lambda>l. Inr (drop_bit (index_offset + l) pc)))"

definition rpt_new_entry :: "nat \<Rightarrow> md_addr \<Rightarrow> md_addr \<Rightarrow> rpt_t \<Rightarrow> rpt_t res" where
  "rpt_new_entry i tg addr r =
     res_bind (vec_set (tags r) i tg) (\<lambda>ts.
     res_bind (vec_set (prev_addrs r) i addr) (\<lambda>ps.
     res_bind (vec_set (strides r) i 0) (\<lambda>ss.
     res_bind (vec_set (states r) i Initial) (\<lambda>sts.
     res_bind (vec_set (is_negative r) i False) (\<lambda>ns.
     Inr (r\<lparr>tags := ts, prev_addrs := ps, strides := ss, states := sts, is_negative := ns\<rparr>))))))"

definition rpt_old_entry :: "nat \<Rightarrow> md_addr \<Rightarrow> rpt_t \<Rightarrow> rpt_t res" where
  "rpt_old_entry i addr r =
     res_bind (vec_get (prev_addrs r) i) (\<lambda>prev_addr.
     res_bind (vec_get (strides r) i) (\<lambda>stride.
     res_bind (vec_get (is_negative r) i) (\<lambda>neg.
     res_bind (vec_get (states r) i) (\<lambda>st.
      (let new_stride = max addr prev_addr - min addr prev_addr;
           neg' = (prev_addr > addr);
           stride_condition = (new_stride = stride \<and> neg' = neg);
           st' = get_next_rpt_state st stride_condition in
       res_bind (vec_set (states r) i st') (\<lambda>sts.
       res_bind (vec_set (prev_addrs r) i addr) (\<lambda>ps.
       if \<not> stride_condition \<and> (st' = Transient \<or> st' = NoPrediction) then
         res_bind (vec_set (strides r) i new_stride) (\<lambda>ss.
         res_bind (vec_set (is_negative r) i neg') (\<lambda>ns.
         Inr (r\<lparr>states := sts, strides := ss, is_negative := ns, prev_addrs := ps\<rparr>)))
       else Inr (r\<lparr>states := sts, prev_addrs := ps\<rparr>))))))))"

text \<open>The address an entry predicts.\<close>

definition rpt_target :: "nat \<Rightarrow> md_addr \<Rightarrow> rpt_t \<Rightarrow> md_addr res" where
  "rpt_target i addr r =
     res_bind (vec_get (strides r) i) (\<lambda>stride.
     res_bind (vec_get (is_negative r) i) (\<lambda>neg.
     Inr (if neg then addr - stride else addr + stride)))"

section \<open>The access\<close>

text \<open>A cache with the state of what it calls.\<close>

type_synonym 'w mem = "cache_t \<times> 'w"

text \<open>The counters of a hit and of a miss; \<open>pf\<close> is set for the accesses of a prefetcher.\<close>

definition count_hit :: "mem_cmd \<Rightarrow> bool \<Rightarrow> cache_t \<Rightarrow> cache_t" where
  "count_hit cmd pf cp =
     (if \<not> pf then
        (let cp1 = cp\<lparr>hits := hits cp + 1\<rparr> in
         if cmd = Read then cp1\<lparr>read_hits := read_hits cp + 1\<rparr> else cp1)
      else cp\<lparr>prefetch_hits := prefetch_hits cp + 1\<rparr>)"

definition count_miss :: "mem_cmd \<Rightarrow> md_addr \<Rightarrow> bool \<Rightarrow> cache_t \<Rightarrow> cache_t res" where
  "count_miss cmd addr pf cp =
     (if \<not> pf then
        (let cp1 = cp\<lparr>misses := misses cp + 1\<rparr>;
             cp2 = (if cmd = Read then cp1\<lparr>read_misses := read_misses cp + 1\<rparr> else cp1) in
         if prefetch_type cp = 2 then miss_queue_insert addr cp2 else Inr cp2)
      else Inr (cp\<lparr>prefetch_misses := prefetch_misses cp + 1\<rparr>))"

definition mark_dirty :: "mem_cmd \<Rightarrow> nat \<Rightarrow> cache_t \<Rightarrow> cache_t res" where
  "mark_dirty cmd blk cp =
     (if cmd = Write then upd_blk (Some blk) (\<lambda>b. b\<lparr>status := status b OR CACHE_BLK_DIRTY\<rparr>) cp else Inr cp)"

definition hit_lat :: "nat \<Rightarrow> int \<Rightarrow> cache_t \<Rightarrow> int res" where
  "hit_lat blk now cp =
     res_bind (blk_at cp (Some blk)) (\<lambda>b. Inr (max (int (hit_latency cp)) (ready b - now)))"

text \<open>
  The handlers of a fast and of a slow hit; \<open>gen\<close> is \<open>generate_prefetch\<close>.  A fast hit without a last
  block dereferences a null pointer, at once for a write, after the prefetch for a read.
\<close>

definition fast_hit :: "(md_addr \<Rightarrow> 'w mem \<Rightarrow> 'w mem res) \<Rightarrow> mem_cmd \<Rightarrow> md_addr \<Rightarrow> int \<Rightarrow> bool \<Rightarrow> blk_ptr \<Rightarrow>
    'w mem \<Rightarrow> (int \<times> md_addr \<times> 'w mem) res" where
  "fast_hit gen cmd addr now pf bp = (\<lambda>(cp, w).
     (let cp1 = count_hit cmd pf cp in
      case bp of
        None \<Rightarrow>
          if cmd = Write then Inl OutOfRange
          else
            (let cp3 = cp1\<lparr>last_tagset := CACHE_TAGSET cp1 addr, last_blk := None\<rparr> in
             res_bind (if \<not> pf then gen addr (cp3, w) else Inr (cp3, w)) (\<lambda>_. Inl OutOfRange))
      | Some blk \<Rightarrow>
          res_bind (mark_dirty cmd blk cp1) (\<lambda>cp2.
          (let cp3 = cp2\<lparr>last_tagset := CACHE_TAGSET cp2 addr, last_blk := Some blk\<rparr> in
           res_bind (if \<not> pf then gen addr (cp3, w) else Inr (cp3, w)) (\<lambda>(cp4, w1).
           res_bind (hit_lat blk now cp4) (\<lambda>lat. Inr (lat, 0, cp4, w1)))))))"

definition slow_hit :: "(md_addr \<Rightarrow> 'w mem \<Rightarrow> 'w mem res) \<Rightarrow> mem_cmd \<Rightarrow> md_addr \<Rightarrow> int \<Rightarrow> bool \<Rightarrow> nat \<Rightarrow>
    'w mem \<Rightarrow> (int \<times> md_addr \<times> 'w mem) res" where
  "slow_hit gen cmd addr now pf blk = (\<lambda>(cp, w).
     (let cp1 = count_hit cmd pf cp in
      res_bind (mark_dirty cmd blk cp1) (\<lambda>cp2.
      res_bind (blk_at cp2 (Some blk)) (\<lambda>b.
      res_bind (if way_prev b \<noteq> None \<and> policy cp2 = LRU
                then update_way_list (unat (CACHE_SET cp2 addr)) blk Head cp2 else Inr cp2) (\<lambda>cp3.
      (let cp4 = cp3\<lparr>last_tagset := CACHE_TAGSET cp3 addr, last_blk := Some blk\<rparr> in
       res_bind (if \<not> pf then gen addr (cp4, w) else Inr (cp4, w)) (\<lambda>(cp5, w1).
       res_bind (hit_lat blk now cp5) (\<lambda>lat. Inr (lat, 0, cp5, w1)))))))))"

text \<open>The choice of the block to replace.\<close>

definition select_repl :: "'w env \<Rightarrow> nat \<Rightarrow> 'w mem \<Rightarrow> (nat \<times> 'w mem) res" where
  "select_repl env k = (\<lambda>(cp, w).
     res_bind (vec_get (sets cp) k) (\<lambda>st.
     (case policy cp of
        Random \<Rightarrow>
          (let (r, w1) = myrand env w in
           Inr (blks st + unat ((of_nat r :: u32) AND (of_nat (assoc cp) - 1)), cp, w1))
      | _ \<Rightarrow>
          (case way_tail st of None \<Rightarrow> Inl OutOfRange
           | Some repl \<Rightarrow>
               res_bind (update_way_list k repl Head cp) (\<lambda>cp1. Inr (repl, cp1, w))))))"

text \<open>
  Writing back the replaced block, when it is valid: the latency so far and the replaced address.
\<close>

definition write_back :: "'w env \<Rightarrow> md_addr \<Rightarrow> nat \<Rightarrow> int \<Rightarrow> 'w mem \<Rightarrow> (int \<times> md_addr \<times> 'w mem) res" where
  "write_back env k repl now = (\<lambda>(cp, w).
     res_bind (blk_at cp (Some repl)) (\<lambda>b.
       if is_valid b then
         (let cp1 = cp\<lparr>replacements := replacements cp + 1\<rparr>;
              repl_addr = CACHE_MK_BADDR cp (tag b) k;
              lat1 = BOUND_POS (ready b - now);
              lat2 = lat1 + BOUND_POS (bus_free cp1 - (now + lat1));
              cp2 = cp1\<lparr>bus_free := max (bus_free cp1) (now + lat2) + 1\<rparr> in
          if is_dirty b then
            (let cp3 = cp2\<lparr>writebacks := writebacks cp2 + 1\<rparr> in
             res_bind (blk_access_fn env Write repl_addr (bsize cp3) (now + lat2) False w) (\<lambda>(l, w1).
             Inr (lat2 + l, repl_addr, cp3, w1)))
          else Inr (lat2, repl_addr, cp2, w))
       else Inr (0, 0, cp, w)))"

definition cache_miss :: "(md_addr \<Rightarrow> 'w mem \<Rightarrow> 'w mem res) \<Rightarrow> 'w env \<Rightarrow> mem_cmd \<Rightarrow> md_addr \<Rightarrow> int \<Rightarrow> bool \<Rightarrow>
    'w mem \<Rightarrow> (int \<times> md_addr \<times> 'w mem) res" where
  "cache_miss gen env cmd addr now pf = (\<lambda>(cp, w).
     (let tg = CACHE_TAG cp addr; k = CACHE_SET cp addr in
      res_bind (count_miss cmd addr pf cp) (\<lambda>cp1.
      res_bind (select_repl env (unat k) (cp1, w)) (\<lambda>(repl, cp2, w2).
      res_bind (if hsize cp2 \<noteq> 0 then unlink_htab_ent (unat k) repl cp2 else Inr cp2) (\<lambda>cp3.
      res_bind (write_back env k repl now (cp3\<lparr>last_tagset := 0, last_blk := None\<rparr>, w2)) (\<lambda>(lat, repl_addr, cp4, w4).
      res_bind (upd_blk (Some repl) (\<lambda>b. b\<lparr>tag := tg, status := CACHE_BLK_VALID\<rparr>) cp4) (\<lambda>cp5.
      res_bind (blk_access_fn env Read (CACHE_BADDR cp5 addr) (bsize cp5) (now + lat) pf w4) (\<lambda>(l, w5).
      res_bind (mark_dirty cmd repl cp5) (\<lambda>cp6.
      res_bind (upd_blk (Some repl) (\<lambda>b. b\<lparr>ready := now + lat + l\<rparr>) cp6) (\<lambda>cp7.
      res_bind (if hsize cp7 \<noteq> 0 then link_htab_ent (unat k) repl cp7 else Inr cp7) (\<lambda>cp8.
      res_bind (if \<not> pf then gen addr (cp8, w5) else Inr (cp8, w5)) (\<lambda>m.
      Inr (lat + l, repl_addr, m)))))))))))))"

definition cache_access_gen :: "(md_addr \<Rightarrow> 'w mem \<Rightarrow> 'w mem res) \<Rightarrow> 'w env \<Rightarrow> mem_cmd \<Rightarrow> md_addr \<Rightarrow> u32 \<Rightarrow> int \<Rightarrow>
    bool \<Rightarrow> 'w mem \<Rightarrow> (int \<times> md_addr \<times> 'w mem) res" where
  "cache_access_gen gen env cmd addr nbytes now pf = (\<lambda>(cp, w).
     if nbytes AND (nbytes - 1) \<noteq> 0 \<or> addr AND (nbytes - 1) \<noteq> 0 then Inl Fatal
     else if addr + nbytes > (addr AND NOT (blk_mask cp)) + of_nat (bsize cp) then Inl Fatal
     else if CACHE_TAGSET cp addr = last_tagset cp then fast_hit gen cmd addr now pf (last_blk cp) (cp, w)
     else res_bind (find_blk (CACHE_SET cp addr) (CACHE_TAG cp addr) cp) (\<lambda>bp.
       (case bp of
          Some blk \<Rightarrow> slow_hit gen cmd addr now pf blk (cp, w)
        | None \<Rightarrow> cache_miss gen env cmd addr now pf (cp, w))))"

definition cache_probe :: "md_addr \<Rightarrow> cache_t \<Rightarrow> bool res" where
  "cache_probe addr cp =
     res_bind (find_blk (CACHE_SET cp addr) (CACHE_TAG cp addr) cp) (\<lambda>bp. Inr (bp \<noteq> None))"

section \<open>The prefetchers\<close>

text \<open>
  A prefetch is an access with the prefetch flag, which never generates another prefetch; the source
  passes \<open>NULL\<close> for the time of the access, which is time 0.
\<close>

definition prefetch_access :: "'w env \<Rightarrow> md_addr \<Rightarrow> 'w mem \<Rightarrow> (int \<times> md_addr \<times> 'w mem) res" where
  "prefetch_access env addr = (\<lambda>(cp, w).
     cache_access_gen (\<lambda>_. Inr) env Read addr (of_nat (bsize cp)) 0 True (cp, w))"

definition prefetch :: "'w env \<Rightarrow> md_addr \<Rightarrow> 'w mem \<Rightarrow> 'w mem res" where
  "prefetch env prefetch_addr = (\<lambda>(cp, w).
     assert_that (prefetch_addr \<noteq> 0)
       (let k = CACHE_SET cp prefetch_addr; tg = CACHE_TAG cp prefetch_addr;
            baddr = CACHE_MK_BADDR cp tg k in
        res_bind (cache_probe baddr cp) (\<lambda>present.
          if present then Inr (cp, w)
          else res_bind (prefetch_access env baddr (cp, w)) (\<lambda>(_, _, m). Inr m))))"

definition next_line_prefetcher :: "'w env \<Rightarrow> md_addr \<Rightarrow> 'w mem \<Rightarrow> 'w mem res" where
  "next_line_prefetcher env addr = (\<lambda>(cp, w). prefetch env (addr + of_nat (bsize cp)) (cp, w))"

definition next_miss_prefetch :: "'w env \<Rightarrow> md_addr \<Rightarrow> 'w mem \<Rightarrow> 'w mem res" where
  "next_miss_prefetch env addr = (\<lambda>(cp, w).
     res_bind (miss_queue_get_next_miss_addr addr cp) (\<lambda>prefetch_addr.
       if prefetch_addr \<noteq> 0 then prefetch env prefetch_addr (cp, w) else Inr (cp, w)))"

definition open_ended_prefetcher :: "'w env \<Rightarrow> md_addr \<Rightarrow> 'w mem \<Rightarrow> 'w mem res" where
  "open_ended_prefetcher env addr = (\<lambda>(cp, w).
     assert_that (addr \<noteq> 0)
      (let i = rpt_index RPT_DEFAULT_SIZE (get_PC env) in
       res_bind (rpt_tag RPT_DEFAULT_SIZE (get_PC env)) (\<lambda>tg.
       (case rpt cp of None \<Rightarrow> Inl OutOfRange
        | Some r \<Rightarrow>
            res_bind (vec_get (tags r) i) (\<lambda>old_tag.
              if old_tag \<noteq> tg then
                res_bind (rpt_new_entry i tg addr r) (\<lambda>r1.
                next_miss_prefetch env addr (cp\<lparr>rpt := Some r1\<rparr>, w))
              else
                res_bind (rpt_old_entry i addr r) (\<lambda>r1.
                res_bind (vec_get (states r1) i) (\<lambda>st.
                  if st = Steady then
                    res_bind (rpt_target i addr r1) (\<lambda>a. prefetch env a (cp\<lparr>rpt := Some r1\<rparr>, w))
                  else next_miss_prefetch env addr (cp\<lparr>rpt := Some r1\<rparr>, w))))))))"

definition stride_prefetcher :: "'w env \<Rightarrow> md_addr \<Rightarrow> 'w mem \<Rightarrow> 'w mem res" where
  "stride_prefetcher env addr = (\<lambda>(cp, w).
     (let rpt_size = prefetch_type cp in
      assert_that (int rpt_size AND (int rpt_size - 1) = 0)
      (let i = rpt_index rpt_size (get_PC env) in
       res_bind (rpt_tag rpt_size (get_PC env)) (\<lambda>tg.
       (case rpt cp of None \<Rightarrow> Inl OutOfRange
        | Some r \<Rightarrow>
            res_bind (vec_get (tags r) i) (\<lambda>old_tag.
              if old_tag \<noteq> tg then
                res_bind (rpt_new_entry i tg addr r) (\<lambda>r1. Inr (cp\<lparr>rpt := Some r1\<rparr>, w))
              else
                res_bind (rpt_old_entry i addr r) (\<lambda>r1.
                res_bind (vec_get (states r1) i) (\<lambda>st.
                  if st \<noteq> NoPrediction then
                    res_bind (rpt_target i addr r1) (\<lambda>a. prefetch env a (cp\<lparr>rpt := Some r1\<rparr>, w))
                  else Inr (cp\<lparr>rpt := Some r1\<rparr>, w)))))))))"

definition generate_prefetch :: "'w env \<Rightarrow> md_addr \<Rightarrow> 'w mem \<Rightarrow> 'w mem res" where
  "generate_prefetch env addr = (\<lambda>(cp, w).
     if prefetch_type cp = 0 then Inr (cp, w)
     else if prefetch_type cp = 1 then next_line_prefetcher env addr (cp, w)
     else if prefetch_type cp = 2 then open_ended_prefetcher env addr (cp, w)
     else stride_prefetcher env addr (cp, w))"

definition cache_access :: "'w env \<Rightarrow> mem_cmd \<Rightarrow> md_addr \<Rightarrow> u32 \<Rightarrow> int \<Rightarrow> bool \<Rightarrow> 'w mem \<Rightarrow>
    (int \<times> md_addr \<times> 'w mem) res" where
  "cache_access env = cache_access_gen (generate_prefetch env) env"

section \<open>Flushes\<close>

text \<open>Invalidating a valid block; a dirty one is written back.\<close>

definition flush_blk :: "'w env \<Rightarrow> md_addr \<Rightarrow> nat \<Rightarrow> int \<Rightarrow> int \<times> 'w mem \<Rightarrow> (int \<times> 'w mem) res" where
  "flush_blk env k blk now = (\<lambda>(lat, cp, w).
     res_bind (upd_blk (Some blk) (\<lambda>b. b\<lparr>status := status b AND NOT CACHE_BLK_VALID\<rparr>)
                (cp\<lparr>invalidations := invalidations cp + 1\<rparr>)) (\<lambda>cp1.
     res_bind (blk_at cp1 (Some blk)) (\<lambda>b.
       if is_dirty b then
         res_bind (blk_access_fn env Write (CACHE_MK_BADDR cp1 (tag b) k) (bsize cp1) (now + lat) False w) (\<lambda>(l, w1).
         Inr (lat + l, cp1\<lparr>writebacks := writebacks cp1 + 1\<rparr>, w1))
       else Inr (lat, cp1, w))))"

fun flush_chain :: "nat \<Rightarrow> 'w env \<Rightarrow> md_addr \<Rightarrow> int \<Rightarrow> blk_ptr \<Rightarrow> int \<times> 'w mem \<Rightarrow> (int \<times> 'w mem) res" where
  "flush_chain n env k now None s = Inr s"
| "flush_chain 0 env k now (Some blk) s = Inl Diverges"
| "flush_chain (Suc n) env k now (Some blk) s =
     res_bind (blk_at (fst (snd s)) (Some blk)) (\<lambda>b.
     res_bind (if is_valid b then flush_blk env k blk now s else Inr s) (\<lambda>s1.
     res_bind (blk_at (fst (snd s1)) (Some blk)) (\<lambda>b1.
     flush_chain n env k now (way_next b1) s1)))"

fun flush_sets :: "nat \<Rightarrow> nat \<Rightarrow> 'w env \<Rightarrow> int \<Rightarrow> int \<times> 'w mem \<Rightarrow> (int \<times> 'w mem) res" where
  "flush_sets i 0 env now s = Inr s"
| "flush_sets i (Suc n) env now s =
     res_bind (vec_get (sets (fst (snd s))) i) (\<lambda>st.
     res_bind (flush_chain (length (data (fst (snd s)))) env (of_nat i) now (way_head st) s)
       (flush_sets (i + 1) n env now))"

definition cache_flush :: "'w env \<Rightarrow> int \<Rightarrow> 'w mem \<Rightarrow> (int \<times> 'w mem) res" where
  "cache_flush env now = (\<lambda>(cp, w).
     flush_sets 0 (nsets cp) env now (int (hit_latency cp), cp\<lparr>last_tagset := 0, last_blk := None\<rparr>, w))"

definition cache_flush_addr :: "'w env \<Rightarrow> md_addr \<Rightarrow> int \<Rightarrow> 'w mem \<Rightarrow> (int \<times> 'w mem) res" where
  "cache_flush_addr env addr now = (\<lambda>(cp, w).
     res_bind (find_blk (CACHE_SET cp addr) (CACHE_TAG cp addr) cp) (\<lambda>bp.
     (case bp of
        None \<Rightarrow> Inr (int (hit_latency cp), cp, w)
      | Some blk \<Rightarrow>
          res_bind (flush_blk env (CACHE_SET cp addr) blk now
            (int (hit_latency cp), cp\<lparr>last_tagset := 0, last_blk := None\<rparr>, w)) (\<lambda>(lat, cp1, w1).
          res_bind (update_way_list (unat (CACHE_SET cp addr)) blk Tail cp1) (\<lambda>cp2.
          Inr (lat, cp2, w1))))))"

section \<open>A data cache over a second level\<close>

text \<open>
  \<open>dl1_access_fn\<close> and \<open>dl2_access_fn\<close> of \<open>lab5/sim-cache.c\<close>: a miss of the first level is an access of
  the second level, when there is one, and costs one cycle otherwise.  Both levels draw random
  numbers from one generator, the state \<open>'r\<close>.
\<close>

definition dl2_env :: "('r \<Rightarrow> nat \<times> 'r) \<Rightarrow> md_addr \<Rightarrow> 'r env" where
  "dl2_env rnd pc = \<lparr>blk_access_fn = (\<lambda>cmd baddr bs now pf r. Inr (1, r)), myrand = rnd, get_PC = pc\<rparr>"

definition dl1_access_fn :: "('r \<Rightarrow> nat \<times> 'r) \<Rightarrow> md_addr \<Rightarrow> mem_cmd \<Rightarrow> md_addr \<Rightarrow> nat \<Rightarrow> int \<Rightarrow> bool \<Rightarrow>
    cache_t option \<times> 'r \<Rightarrow> (int \<times> cache_t option \<times> 'r) res" where
  "dl1_access_fn rnd pc cmd baddr bs now pf = (\<lambda>(dl2, r).
     (case dl2 of
        None \<Rightarrow> Inr (1, dl2, r)
      | Some l2 \<Rightarrow>
          res_bind (cache_access (dl2_env rnd pc) cmd baddr (of_nat bs) now pf (l2, r)) (\<lambda>(lat, _, l2', r1).
          Inr (lat, Some l2', r1))))"

definition dl1_env :: "('r \<Rightarrow> nat \<times> 'r) \<Rightarrow> md_addr \<Rightarrow> (cache_t option \<times> 'r) env" where
  "dl1_env rnd pc = \<lparr>blk_access_fn = dl1_access_fn rnd pc,
     myrand = (\<lambda>(dl2, r). (let (n, r1) = rnd r in (n, dl2, r1))), get_PC = pc\<rparr>"

end
