(* ===== verification/Lab5_Chains.thy ===== *)
theory Lab5_Chains
  imports Lab5_Cache
begin

text \<open>
  Linked lists of blocks.  \<open>seg f p xs q\<close> says that following the link \<open>f\<close> from \<open>p\<close> meets the blocks
  \<open>xs\<close> and then \<open>q\<close>; a doubly linked list (\<open>dll\<close>) is a segment along one link whose reverse is a
  segment along the other.  The lemmas give the effect of unlinking and linking a block, and the
  meaning of the walks of the cache on such lists; a walk that exceeds the number of blocks is endless.
\<close>

section \<open>Segments\<close>

primrec seg :: "(nat \<Rightarrow> blk_ptr) \<Rightarrow> blk_ptr \<Rightarrow> nat list \<Rightarrow> blk_ptr \<Rightarrow> bool" where
  "seg f p [] q \<longleftrightarrow> p = q"
| "seg f p (x # xs) q \<longleftrightarrow> p = Some x \<and> seg f (f x) xs q"

lemma seg_append [simp]: "seg f p (xs @ ys) q \<longleftrightarrow> (\<exists>r. seg f p xs r \<and> seg f r ys q)"
  by (induction xs arbitrary: p) auto

lemma seg_upd [simp]: "x \<notin> set xs \<Longrightarrow> seg (f(x := y)) p xs q = seg f p xs q"
  by (induction xs arbitrary: p) auto

lemma seg_cong:
  "(\<And>x. x \<in> set xs \<Longrightarrow> f x = g x) \<Longrightarrow> seg f p xs q = seg g p xs q"
  by (induction xs arbitrary: p) auto

lemma seg_None_Cons: "seg f None xs q \<longleftrightarrow> xs = [] \<and> q = None"
  by (cases xs) auto

lemma seg_unique: "seg f p xs None \<Longrightarrow> seg f p ys None \<Longrightarrow> xs = ys"
proof (induction xs arbitrary: p ys)
  case Nil
  then show ?case by (simp add: seg_None_Cons)
next
  case (Cons x xs)
  then show ?case by (cases ys) auto
qed

lemma seg_distinct: "seg f p xs None \<Longrightarrow> distinct xs"
proof (induction xs arbitrary: p)
  case (Cons x xs)
  have "x \<notin> set xs"
  proof
    assume "x \<in> set xs"
    then obtain us vs where xs: "xs = us @ x # vs" by (meson split_list)
    have "seg f (f x) (us @ x # vs) None" using Cons.prems by (simp add: xs)
    then have "seg f (Some x) (x # vs) None" by auto
    moreover have "seg f (Some x) (x # xs) None" using Cons.prems by simp
    ultimately have "x # vs = x # xs" by (rule seg_unique)
    then show False by (simp add: xs)
  qed
  then show ?case using Cons by auto
qed simp

lemma seg_hd: "seg f p xs None \<Longrightarrow> p = (case xs of [] \<Rightarrow> None | x # _ \<Rightarrow> Some x)"
  by (cases xs) auto

text \<open>Segments that end in \<open>None\<close>: insertion at the front, removal anywhere.\<close>

lemma seg_push: "seg f p xs None \<Longrightarrow> b \<notin> set xs \<Longrightarrow> seg (f(b := p)) (Some b) (b # xs) None"
  by simp

definition unlink_f :: "nat list \<Rightarrow> nat \<Rightarrow> (nat \<Rightarrow> blk_ptr) \<Rightarrow> nat \<Rightarrow> blk_ptr" where
  "unlink_f us b f = (if us = [] then f else f(last us := f b))"

lemma seg_unlink:
  assumes "seg f p (us @ b # vs) None"
  shows "seg (unlink_f us b f) (if us = [] then f b else p) (us @ vs) None"
proof (cases us rule: rev_cases)
  case Nil
  then show ?thesis using assms by (simp add: unlink_f_def)
next
  case (snoc us' a)
  have "distinct (us @ b # vs)" using seg_distinct [OF assms] .
  then show ?thesis using assms by (simp add: unlink_f_def snoc)
qed

section \<open>Doubly linked lists\<close>

definition dll :: "(nat \<Rightarrow> blk_ptr) \<Rightarrow> (nat \<Rightarrow> blk_ptr) \<Rightarrow> blk_ptr \<Rightarrow> blk_ptr \<Rightarrow> nat list \<Rightarrow> bool" where
  "dll f g h t xs \<longleftrightarrow> seg f h xs None \<and> seg g t (rev xs) None"

lemma dll_rev: "dll f g h t xs \<longleftrightarrow> dll g f t h (rev xs)"
  by (auto simp: dll_def)

lemma dll_distinct: "dll f g h t xs \<Longrightarrow> distinct xs"
  by (auto simp: dll_def dest: seg_distinct)

lemma dll_unique: "dll f g h t xs \<Longrightarrow> dll f g' h t' ys \<Longrightarrow> xs = ys"
  by (auto simp: dll_def dest: seg_unique)

lemma dll_ends:
  assumes "dll f g h t xs" and "xs \<noteq> []"
  shows "h = Some (hd xs)" and "t = Some (last xs)" and "g (hd xs) = None" and "f (last xs) = None"
proof -
  obtain y ys where xs: "xs = y # ys" using assms(2) by (cases xs) auto
  obtain zs z where xs': "xs = zs @ [z]" using assms(2) by (cases xs rule: rev_cases) auto
  show "h = Some (hd xs)" using assms(1) by (simp add: dll_def xs)
  show "t = Some (last xs)" using assms(1) by (simp add: dll_def xs')
  show "g (hd xs) = None" using assms(1) by (simp add: dll_def xs)
  show "f (last xs) = None" using assms(1) by (simp add: dll_def xs')
qed

lemma dll_links:
  assumes "dll f g h t (us @ b # vs)"
  shows "f b = (if vs = [] then None else Some (hd vs))" and "g b = (if us = [] then None else Some (last us))"
proof -
  show "f b = (if vs = [] then None else Some (hd vs))"
    using assms by (cases vs) (auto simp: dll_def)
  show "g b = (if us = [] then None else Some (last us))"
    using assms by (cases us rule: rev_cases) (auto simp: dll_def)
qed

lemma dll_push:
  assumes "dll f g h t xs" and "b \<notin> set xs" and "h = Some y"
  shows "dll (f(b := h)) (g(b := None, y := Some b)) (Some b) t (b # xs)"
proof -
  obtain ys where xs: "xs = y # ys" using assms(1,3) by (cases xs) (auto simp: dll_def)
  have "distinct xs" using dll_distinct [OF assms(1)] .
  then show ?thesis using assms by (auto simp: dll_def xs)
qed

lemma dll_snoc:
  assumes "dll f g h t xs" and "b \<notin> set xs" and "t = Some y"
  shows "dll (f(b := None, y := Some b)) (g(b := t)) h (Some b) (xs @ [b])"
  using dll_push [of g f t h "rev xs" b y] assms by (simp add: dll_rev [of _ _ h])

lemma dll_unlink:
  assumes "dll f g h t (us @ b # vs)"
  shows "dll (unlink_f us b f) (unlink_f (rev vs) b g)
    (if us = [] then f b else h) (if vs = [] then g b else t) (us @ vs)"
  using seg_unlink [of f h us b vs] seg_unlink [of g t "rev vs" b "rev us"] assms
  by (simp add: dll_def)

lemma dll_cong:
  "(\<And>x. x \<in> set xs \<Longrightarrow> f x = f' x) \<Longrightarrow> (\<And>x. x \<in> set xs \<Longrightarrow> g x = g' x) \<Longrightarrow>
    dll f g h t xs = dll f' g' h t xs"
  unfolding dll_def by (intro arg_cong2 [where f = conj] seg_cong) auto

lemma split_member:
  assumes "b \<in> set xs" and "distinct xs"
  obtains us vs where "xs = us @ b # vs" and "remove1 b xs = us @ vs" and "b \<notin> set us" and "b \<notin> set vs"
proof -
  obtain us vs where xs: "xs = us @ b # vs" "b \<notin> set us" by (meson assms(1) split_list_first)
  moreover have "b \<notin> set vs" using assms(2) xs by simp
  ultimately show thesis by (intro that [of us vs]) (simp_all add: remove1_append)
qed

section \<open>Walks\<close>

lemma chain_find_seg:
  assumes "seg (\<lambda>x. nxt (d ! x)) p xs None" and "set xs \<subseteq> {..<length d}" and "length xs \<le> n"
  shows "chain_find n nxt P d p = Inr (find (\<lambda>x. P x (d ! x)) xs)"
  using assms
proof (induction xs arbitrary: p n)
  case (Cons x xs)
  then obtain m where n: "n = Suc m" by (cases n) auto
  show ?case using Cons by (simp add: n)
qed simp

lemma distinct_bounded: "distinct xs \<Longrightarrow> set xs \<subseteq> {..<n} \<Longrightarrow> length xs \<le> n"
  using card_mono [of "{..<n}" "set xs"] by (simp add: distinct_card)

lemma chain_find_list:
  assumes "seg (\<lambda>x. nxt (d ! x)) p xs None" and "set xs \<subseteq> {..<length d}"
  shows "chain_find (length d) nxt P d p = Inr (find (\<lambda>x. P x (d ! x)) xs)"
  using assms seg_distinct [OF assms(1)] distinct_bounded chain_find_seg by blast

lemma unlink_find_seg:
  assumes "seg (\<lambda>x. hash_next (d ! x)) p (us @ b # vs) None" and "set us \<subseteq> {..<length d}"
    and "length us < n" and "b \<notin> set us"
  shows "unlink_find n d b prev p = Inr (if us = [] then prev else Some (last us), Some b)"
  using assms
proof (induction us arbitrary: p n prev)
  case Nil
  then show ?case by (cases n) auto
next
  case (Cons x us)
  then obtain m where n: "n = Suc m" by (cases n) auto
  show ?case using Cons by (auto simp: n)
qed

text \<open>The bound on the walks loses no answer: what any number of steps finds, the bounded walk finds.\<close>

lemma chain_find_answer:
  assumes "chain_find n nxt P d p = Inr y"
  obtains ws where "seg (\<lambda>x. if P x (d ! x) then None else nxt (d ! x)) p ws None"
    and "set ws \<subseteq> {..<length d}" and "y = find (\<lambda>x. P x (d ! x)) ws"
  using assms
proof (induction n arbitrary: p thesis)
  case 0
  then show ?case by (cases p) (auto intro: 0(1) [of "[]"])
next
  case (Suc n)
  show ?case
  proof (cases p)
    case None
    then show ?thesis using Suc.prems by (auto intro: Suc.prems(1) [of "[]"])
  next
    case (Some x)
    then have x: "x < length d" using Suc.prems(2) by (auto simp: vec_get_def split: if_splits)
    show ?thesis
    proof (cases "P x (d ! x)")
      case True
      then show ?thesis
        using Suc.prems(2) x Some by (intro Suc.prems(1) [of "[x]"]) auto
    next
      case False
      then have "chain_find n nxt P d (nxt (d ! x)) = Inr y"
        using Suc.prems(2) x Some by simp
      then obtain ws where "seg (\<lambda>x. if P x (d ! x) then None else nxt (d ! x)) (nxt (d ! x)) ws None"
        "set ws \<subseteq> {..<length d}" "y = find (\<lambda>x. P x (d ! x)) ws"
        using Suc.IH by blast
      then show ?thesis
        using False x Some by (intro Suc.prems(1) [of "x # ws"]) auto
    qed
  qed
qed

lemma chain_find_stops:
  assumes "seg (\<lambda>x. if P x (d ! x) then None else nxt (d ! x)) p ws None"
    and "set ws \<subseteq> {..<length d}" and "length ws \<le> n"
  shows "chain_find n nxt P d p = Inr (find (\<lambda>x. P x (d ! x)) ws)"
  using assms
proof (induction ws arbitrary: p n)
  case (Cons x ws)
  then obtain m where n: "n = Suc m" by (cases n) auto
  show ?case using Cons by (auto simp: n seg_None_Cons)
qed simp

lemma chain_find_fuel:
  assumes "chain_find n nxt P d p = Inr y"
  shows "chain_find (length d) nxt P d p = Inr y"
proof -
  obtain ws where ws: "seg (\<lambda>x. if P x (d ! x) then None else nxt (d ! x)) p ws None"
    "set ws \<subseteq> {..<length d}" "y = find (\<lambda>x. P x (d ! x)) ws"
    using chain_find_answer [OF assms] .
  then have "length ws \<le> length d" using seg_distinct distinct_bounded by blast
  then show ?thesis using chain_find_stops [where P = P and nxt = nxt and d = d, OF ws(1,2)] ws(3) by simp
qed

end
