(* ===== verification/Lab5_Lists.thy ===== *)
theory Lab5_Lists
  imports Lab5_Chains
begin

text \<open>
  The effect of the list operations of the cache on well-formed lists: \<open>update_way_list\<close> moves a block
  to either end of the way list of its set, \<open>unlink_htab_ent\<close> and \<open>link_htab_ent\<close> take a block out of its
  bucket and put it into the one its tag selects.  Nothing else of the cache changes.
\<close>


section \<open>The links of the blocks\<close>

abbreviation nextf :: "cache_blk_t list \<Rightarrow> nat \<Rightarrow> blk_ptr" where
  "nextf d \<equiv> (\<lambda>x. way_next (d ! x))"

abbreviation prevf :: "cache_blk_t list \<Rightarrow> nat \<Rightarrow> blk_ptr" where
  "prevf d \<equiv> (\<lambda>x. way_prev (d ! x))"

abbreviation hashf :: "cache_blk_t list \<Rightarrow> nat \<Rightarrow> blk_ptr" where
  "hashf d \<equiv> (\<lambda>x. hash_next (d ! x))"

lemma links_update:
  assumes "x < length d"
  shows "nextf (d[x := b]) = (nextf d)(x := way_next b)"
    and "prevf (d[x := b]) = (prevf d)(x := way_prev b)"
    and "hashf (d[x := b]) = (hashf d)(x := hash_next b)"
  using assms by (auto simp: nth_list_update fun_eq_iff)

lemma links_triv [simp]:
  "(nextf d)(x := way_next (d ! x)) = nextf d" "(prevf d)(x := way_prev (d ! x)) = prevf d"
  "(hashf d)(x := hash_next (d ! x)) = hashf d"
  by (simp_all add: fun_eq_iff)

lemma upd_blk_Some [simp]:
  "x < length (data cp) \<Longrightarrow> upd_blk (Some x) f cp = Inr (cp\<lparr>data := (data cp)[x := f (data cp ! x)]\<rparr>)"
  by (simp add: upd_blk_def)

lemma blk_at_Some [simp]: "x < length (data cp) \<Longrightarrow> blk_at cp (Some x) = Inr (data cp ! x)"
  by (simp add: blk_at_def)

lemma upd_set_in [simp]:
  "k < length (sets cp) \<Longrightarrow> upd_set k f cp = Inr (cp\<lparr>sets := (sets cp)[k := f (sets cp ! k)]\<rparr>)"
  by (simp add: upd_set_def)

text \<open>A block without its way links, and without its hash link.\<close>

definition no_ways :: "cache_blk_t \<Rightarrow> cache_blk_t" where
  "no_ways b = b\<lparr>way_next := None, way_prev := None\<rparr>"

lemma no_ways_fields:
  "no_ways b = no_ways c \<longleftrightarrow>
     hash_next b = hash_next c \<and> tag b = tag c \<and> status b = status c \<and> ready b = ready c"
  by (cases b; cases c) (simp add: no_ways_def)

text \<open>
  The change of a cache by the way-list operations: only the way links of the blocks in \<open>B\<close> and the
  ends of the list of set \<open>k\<close> differ.
\<close>

definition ways_change :: "nat \<Rightarrow> nat set \<Rightarrow> cache_t \<Rightarrow> cache_t \<Rightarrow> bool" where
  "ways_change k B cp cp' \<longleftrightarrow>
     cp' = cp\<lparr>data := data cp', sets := sets cp'\<rparr> \<and>
     length (data cp') = length (data cp) \<and> length (sets cp') = length (sets cp) \<and>
     (\<forall>x. no_ways (data cp' ! x) = no_ways (data cp ! x)) \<and>
     (\<forall>x. x \<notin> B \<longrightarrow> data cp' ! x = data cp ! x) \<and>
     (\<forall>j. j \<noteq> k \<longrightarrow> sets cp' ! j = sets cp ! j) \<and>
     hash (sets cp' ! k) = hash (sets cp ! k) \<and> blks (sets cp' ! k) = blks (sets cp ! k)"

lemma ways_change_refl: "ways_change k B cp cp"
  by (simp add: ways_change_def)

lemma ways_change_trans:
  assumes "ways_change k B cp cp'" and "ways_change k B cp' cp''"
  shows "ways_change k B cp cp''"
proof -
  have "cp'' = cp'\<lparr>data := data cp'', sets := sets cp''\<rparr>" "cp' = cp\<lparr>data := data cp', sets := sets cp'\<rparr>"
    using assms by (simp_all add: ways_change_def)
  then have "cp'' = cp\<lparr>data := data cp', sets := sets cp'\<rparr>\<lparr>data := data cp'', sets := sets cp''\<rparr>"
    by simp
  then have "cp'' = cp\<lparr>data := data cp'', sets := sets cp''\<rparr>" by simp
  then show ?thesis using assms unfolding ways_change_def by simp
qed

lemma ways_change_blk:
  assumes "x \<in> B" and "x < length (data cp)" and "no_ways b = no_ways (data cp ! x)"
  shows "ways_change k B cp (cp\<lparr>data := (data cp)[x := b]\<rparr>)"
  using assms by (auto simp: ways_change_def nth_list_update)

lemma ways_change_set:
  assumes "k < length (sets cp)" and "hash st = hash (sets cp ! k)" and "blks st = blks (sets cp ! k)"
  shows "ways_change k B cp (cp\<lparr>sets := (sets cp)[k := st]\<rparr>)"
  using assms by (simp add: ways_change_def)

text \<open>The list of a set, with the blocks it holds.\<close>

definition way_list :: "nat \<Rightarrow> cache_t \<Rightarrow> nat list \<Rightarrow> bool" where
  "way_list k cp xs \<longleftrightarrow>
     dll (nextf (data cp)) (prevf (data cp)) (way_head (sets cp ! k)) (way_tail (sets cp ! k)) xs \<and>
     k < length (sets cp) \<and> set xs \<subseteq> {..<length (data cp)}"

lemma ends_below: "xs \<noteq> [] \<Longrightarrow> set xs \<subseteq> {..<n} \<Longrightarrow> hd xs < n \<and> last xs < n"
  by (meson hd_in_set last_in_set lessThan_iff subsetD)

lemma ends_in: "xs \<noteq> [] \<Longrightarrow> hd xs \<in> set xs \<and> last xs \<in> set xs"
  by simp

lemma link_way_ok:
  assumes wl: "way_list k cp ys" and ys: "ys \<noteq> []" and b: "b \<notin> set ys" "b < length (data cp)"
  shows "\<exists>cp'. link_way k b loc cp = Inr cp' \<and> ways_change k (insert b (set ys)) cp cp' \<and>
    way_list k cp' (case loc of Head \<Rightarrow> b # ys | Tail \<Rightarrow> ys @ [b])"
proof (cases loc)
  case Head
  define d where "d = data cp"
  define y where "y = hd ys"
  have dll: "dll (nextf d) (prevf d) (way_head (sets cp ! k)) (way_tail (sets cp ! k)) ys"
    and k: "k < length (sets cp)" and sub: "set ys \<subseteq> {..<length d}"
    using wl by (simp_all add: way_list_def d_def)
  have h: "way_head (sets cp ! k) = Some y" using dll_ends(1) [OF dll ys] by (simp add: y_def)
  have y: "y < length d" "y \<in> set ys" "y \<noteq> b" using ends_below [OF ys sub] ends_in [OF ys] b(1) by (auto simp: y_def)
  define d1 where "d1 = d[b := (d ! b)\<lparr>way_next := Some y, way_prev := None\<rparr>]"
  define d2 where "d2 = d1[y := (d1 ! y)\<lparr>way_prev := Some b\<rparr>]"
  define cp' where "cp' = cp\<lparr>data := d2, sets := (sets cp)[k := (sets cp ! k)\<lparr>way_head := Some b\<rparr>]\<rparr>"
  have len: "length d2 = length d" "length d1 = length d" by (simp_all add: d2_def d1_def)
  have "link_way k b Head cp = Inr cp'"
    using k b(2) y by (simp add: link_way_def h d2_def d1_def cp'_def d_def)
  moreover have "nextf d2 = (nextf d)(b := Some y)" "prevf d2 = (prevf d)(b := None, y := Some b)"
    using b(2) y unfolding d2_def d1_def d_def
    by (simp_all add: links_update nth_list_update fun_eq_iff)
  then have "dll (nextf d2) (prevf d2) (Some b) (way_tail (sets cp ! k)) (b # ys)"
    using dll_push [OF dll b(1) h] by (simp add: h)
  then have "way_list k cp' (b # ys)"
    using k sub b(2) by (simp add: way_list_def cp'_def len) (simp add: d_def)
  moreover have "ways_change k (insert b (set ys)) cp cp'"
    using k b(2) y unfolding ways_change_def cp'_def d2_def d1_def d_def
    by (auto simp: nth_list_update no_ways_def)
  ultimately show ?thesis by (auto simp: Head)
next
  case Tail
  define d where "d = data cp"
  define y where "y = last ys"
  have dll: "dll (nextf d) (prevf d) (way_head (sets cp ! k)) (way_tail (sets cp ! k)) ys"
    and k: "k < length (sets cp)" and sub: "set ys \<subseteq> {..<length d}"
    using wl by (simp_all add: way_list_def d_def)
  have t: "way_tail (sets cp ! k) = Some y" using dll_ends(2) [OF dll ys] by (simp add: y_def)
  have y: "y < length d" "y \<in> set ys" "y \<noteq> b" using ends_below [OF ys sub] ends_in [OF ys] b(1) by (auto simp: y_def)
  define d1 where "d1 = d[b := (d ! b)\<lparr>way_prev := Some y, way_next := None\<rparr>]"
  define d2 where "d2 = d1[y := (d1 ! y)\<lparr>way_next := Some b\<rparr>]"
  define cp' where "cp' = cp\<lparr>data := d2, sets := (sets cp)[k := (sets cp ! k)\<lparr>way_tail := Some b\<rparr>]\<rparr>"
  have len: "length d2 = length d" "length d1 = length d" by (simp_all add: d2_def d1_def)
  have "link_way k b Tail cp = Inr cp'"
    using k b(2) y by (simp add: link_way_def t d2_def d1_def cp'_def d_def)
  moreover have "prevf d2 = (prevf d)(b := Some y)" "nextf d2 = (nextf d)(b := None, y := Some b)"
    using b(2) y unfolding d2_def d1_def d_def
    by (simp_all add: links_update nth_list_update fun_eq_iff)
  then have "dll (nextf d2) (prevf d2) (way_head (sets cp ! k)) (Some b) (ys @ [b])"
    using dll_snoc [OF dll b(1) t] by (simp add: t)
  then have "way_list k cp' (ys @ [b])"
    using k sub b(2) by (simp add: way_list_def cp'_def len) (simp add: d_def)
  moreover have "ways_change k (insert b (set ys)) cp cp'"
    using k b(2) y unfolding ways_change_def cp'_def d2_def d1_def d_def
    by (auto simp: nth_list_update no_ways_def)
  ultimately show ?thesis by (auto simp: Tail)
qed

definition placed :: "list_loc_t \<Rightarrow> nat \<Rightarrow> nat list \<Rightarrow> nat list" where
  "placed loc b xs = (case loc of Head \<Rightarrow> b # remove1 b xs | Tail \<Rightarrow> remove1 b xs @ [b])"

lemma update_way_list_ok:
  assumes wl: "way_list k cp xs" and b: "b \<in> set xs"
  shows "\<exists>cp'. update_way_list k b loc cp = Inr cp' \<and> ways_change k (set xs) cp cp' \<and>
    way_list k cp' (placed loc b xs)"
proof -
  define d where "d = data cp"
  have dll: "dll (nextf d) (prevf d) (way_head (sets cp ! k)) (way_tail (sets cp ! k)) xs"
    and k: "k < length (sets cp)" and sub: "set xs \<subseteq> {..<length d}"
    using wl by (simp_all add: way_list_def d_def)
  obtain us vs where xs: "xs = us @ b # vs" and rem: "remove1 b xs = us @ vs" and nb: "b \<notin> set us" "b \<notin> set vs"
    using split_member [OF b dll_distinct [OF dll]] .
  have bd: "b < length d" using sub xs by auto
  have links: "way_next (d ! b) = (if vs = [] then None else Some (hd vs))"
    "way_prev (d ! b) = (if us = [] then None else Some (last us))"
    using dll_links [of "nextf d" "prevf d" _ _ us b vs] dll by (simp_all add: xs)
  have head: "way_head (sets cp ! k) = Some (hd xs)" "way_tail (sets cp ! k) = Some (last xs)"
    using dll_ends(1,2) [OF dll] xs by auto
  have hdv: "vs \<noteq> [] \<Longrightarrow> hd vs < length d \<and> hd vs \<in> set xs \<and> hd vs \<noteq> b"
    using ends_below [of vs "length d"] ends_in [of vs] sub xs nb by auto
  have lastu: "us \<noteq> [] \<Longrightarrow> last us < length d \<and> last us \<in> set xs \<and> last us \<noteq> b"
    using ends_below [of us "length d"] ends_in [of us] sub xs nb by auto
  have lv: "vs \<noteq> [] \<Longrightarrow> List.last vs \<noteq> b" and hu: "us \<noteq> [] \<Longrightarrow> hd us \<noteq> b"
    using ends_in [of us] ends_in [of vs] nb by auto
  have at: "blk_at cp (Some b) = Inr (d ! b)" using bd by (simp add: d_def)
  have st: "vec_get (sets cp) k = Inr (sets cp ! k)" using k by simp
  text \<open>Unlinking the block, in the three cases that do it, leaves the list without it.\<close>
  have relink: "\<exists>cp'. link_way k b loc cp2 = Inr cp' \<and> ways_change k (set xs) cp cp' \<and>
      way_list k cp' (placed loc b xs)"
    if "ways_change k (set xs) cp cp2" and "way_list k cp2 (us @ vs)" and "us @ vs \<noteq> []" for cp2
  proof -
    note asm = that
    have "b < length (data cp2)" "b \<notin> set (us @ vs)" using asm(1) bd nb by (simp_all add: ways_change_def d_def)
    then obtain cp' where cp': "link_way k b loc cp2 = Inr cp'" "ways_change k (insert b (set (us @ vs))) cp2 cp'"
      "way_list k cp' (case loc of Head \<Rightarrow> b # us @ vs | Tail \<Rightarrow> (us @ vs) @ [b])"
      using link_way_ok [OF asm(2,3), of b loc] by blast
    have "insert b (set (us @ vs)) = set xs" by (auto simp: xs)
    then show ?thesis
      using cp' ways_change_trans [OF asm(1), of cp'] by (auto simp: placed_def rem split: list_loc_t.splits)
  qed
  note un = dll_unlink [of "nextf d" "prevf d" _ _ us b vs, folded xs, OF dll]
  consider (only) "us = []" "vs = []" | (first) "us = []" "vs \<noteq> []" | (last) "us \<noteq> []" "vs = []"
    | (mid) "us \<noteq> []" "vs \<noteq> []" by blast
  then show ?thesis
  proof cases
    case only
    then have "update_way_list k b loc cp = Inr cp"
      by (simp add: update_way_list_def at st links head xs)
    moreover have "placed loc b xs = xs" using only by (simp add: placed_def xs split: list_loc_t.split)
    ultimately show ?thesis using wl ways_change_refl by auto
  next
    case first
    show ?thesis
    proof (cases loc)
      case Head
      have "update_way_list k b loc cp = Inr cp"
        using first hdv lv by (auto simp: update_way_list_def at st links head xs Head)
      moreover have "placed loc b xs = xs" using first by (simp add: placed_def xs Head)
      ultimately show ?thesis using wl ways_change_refl by auto
    next
      case Tail
      define cp2 where "cp2 = cp\<lparr>sets := (sets cp)[k := (sets cp ! k)\<lparr>way_head := Some (hd vs)\<rparr>],
        data := d[hd vs := (d ! hd vs)\<lparr>way_prev := None\<rparr>]\<rparr>"
      have "update_way_list k b loc cp = link_way k b loc cp2"
        using first hdv lv k by (auto simp: update_way_list_def at [unfolded d_def] st links [unfolded d_def] head xs Tail cp2_def d_def)
      moreover have "ways_change k (set xs) cp cp2"
        using hdv first k unfolding ways_change_def cp2_def d_def by (auto simp: nth_list_update no_ways_def)
      moreover have "way_list k cp2 (us @ vs)"
        using un first hdv sub k links
        by (simp add: way_list_def cp2_def links_update unlink_f_def last_rev head xs)
      ultimately show ?thesis using relink first by auto
    qed
  next
    case last
    show ?thesis
    proof (cases loc)
      case Tail
      have "update_way_list k b loc cp = Inr cp"
        using last lastu hu by (auto simp: update_way_list_def at st links head xs Tail)
      moreover have "placed loc b xs = xs" using last nb by (simp add: placed_def xs Tail remove1_append)
      ultimately show ?thesis using wl ways_change_refl by auto
    next
      case Head
      define cp2 where "cp2 = cp\<lparr>sets := (sets cp)[k := (sets cp ! k)\<lparr>way_tail := Some (List.last us)\<rparr>],
        data := d[List.last us := (d ! List.last us)\<lparr>way_next := None\<rparr>]\<rparr>"
      have "update_way_list k b loc cp = link_way k b loc cp2"
        using last lastu hu k by (auto simp: update_way_list_def at [unfolded d_def] st links [unfolded d_def] head xs Head cp2_def d_def)
      moreover have "ways_change k (set xs) cp cp2"
        using lastu last k unfolding ways_change_def cp2_def d_def by (auto simp: nth_list_update no_ways_def)
      moreover have "way_list k cp2 (us @ vs)"
        using un last lastu sub k links
        by (simp add: way_list_def cp2_def links_update unlink_f_def head xs)
      ultimately show ?thesis using relink last by auto
    qed
  next
    case mid
    define p n where "p = List.last us" and "n = hd vs"
    have "p \<in> set us" "n \<in> set vs" using mid by (simp_all add: p_def n_def)
    moreover have "set us \<inter> set vs = {}" using dll_distinct [OF dll] by (auto simp: xs)
    ultimately have pn: "p < length d" "n < length d" "p \<noteq> n" "p \<noteq> b" "n \<noteq> b" "p \<in> set xs" "n \<in> set xs"
      using sub nb by (auto simp: xs)
    define cp2 where "cp2 = cp\<lparr>data := d[p := (d ! p)\<lparr>way_next := Some n\<rparr>, n := (d ! n)\<lparr>way_prev := Some p\<rparr>]\<rparr>"
    have "hd xs \<noteq> b" "List.last xs \<noteq> b" using mid nb by (auto simp: xs hd_append)
    then have "update_way_list k b loc cp = link_way k b loc cp2"
      using mid pn k by (simp add: update_way_list_def at [unfolded d_def] st links [unfolded d_def] head cp2_def)
        (simp add: d_def flip: p_def n_def)
    moreover have "ways_change k (set xs) cp cp2"
      using pn k unfolding ways_change_def cp2_def d_def by (auto simp: nth_list_update no_ways_def)
    moreover have "way_list k cp2 (us @ vs)"
    proof -
      have "nextf (d[p := (d ! p)\<lparr>way_next := Some n\<rparr>, n := (d ! n)\<lparr>way_prev := Some p\<rparr>])
          = unlink_f us b (nextf d)"
        "prevf (d[p := (d ! p)\<lparr>way_next := Some n\<rparr>, n := (d ! n)\<lparr>way_prev := Some p\<rparr>])
          = unlink_f (rev vs) b (prevf d)"
        using pn mid links by (auto simp: unlink_f_def p_def n_def last_rev nth_list_update fun_eq_iff)
      then show ?thesis
        using un mid sub k by (simp add: way_list_def cp2_def xs)
    qed
    ultimately show ?thesis using relink mid by auto
  qed
qed

section \<open>Hash chains\<close>

definition no_hash :: "cache_blk_t \<Rightarrow> cache_blk_t" where
  "no_hash b = b\<lparr>hash_next := None\<rparr>"

lemma no_hash_fields:
  "no_hash b = no_hash c \<longleftrightarrow> way_next b = way_next c \<and> way_prev b = way_prev c \<and>
     tag b = tag c \<and> status b = status c \<and> ready b = ready c"
  by (cases b; cases c) (simp add: no_hash_def)

definition hash_change :: "nat \<Rightarrow> nat set \<Rightarrow> cache_t \<Rightarrow> cache_t \<Rightarrow> bool" where
  "hash_change k B cp cp' \<longleftrightarrow>
     cp' = cp\<lparr>data := data cp', sets := sets cp'\<rparr> \<and>
     length (data cp') = length (data cp) \<and> length (sets cp') = length (sets cp) \<and>
     (\<forall>x. no_hash (data cp' ! x) = no_hash (data cp ! x)) \<and>
     (\<forall>x. x \<notin> B \<longrightarrow> data cp' ! x = data cp ! x) \<and>
     (\<forall>j. j \<noteq> k \<longrightarrow> sets cp' ! j = sets cp ! j) \<and>
     way_head (sets cp' ! k) = way_head (sets cp ! k) \<and> way_tail (sets cp' ! k) = way_tail (sets cp ! k) \<and>
     blks (sets cp' ! k) = blks (sets cp ! k)"

text \<open>The blocks \<open>X\<close> are in the buckets of set \<open>k\<close>, each in the one its tag selects.\<close>

definition buckets :: "nat \<Rightarrow> nat set \<Rightarrow> cache_t \<Rightarrow> bool" where
  "buckets k X cp \<longleftrightarrow> k < length (sets cp) \<and> X \<subseteq> {..<length (data cp)} \<and>
     length (hash (sets cp ! k)) = hsize cp \<and>
     (\<forall>j < hsize cp. \<exists>xs. seg (hashf (data cp)) (hash (sets cp ! k) ! j) xs None \<and>
        set xs = {x \<in> X. CACHE_HASH cp (tag (data cp ! x)) = j})"

lemma bucketsD:
  assumes "buckets k X cp" and "j < hsize cp"
  obtains xs where "seg (hashf (data cp)) (hash (sets cp ! k) ! j) xs None"
    and "set xs = {x \<in> X. CACHE_HASH cp (tag (data cp ! x)) = j}"
  using assms unfolding buckets_def by blast

lemma CACHE_HASH_less:
  assumes "0 < hsize cp" and "hsize cp < 2 ^ 32"
  shows "CACHE_HASH cp tg < hsize cp"
proof -
  have "unat (of_nat (hsize cp) :: u32) = hsize cp" using assms(2) by (simp add: unat_of_nat take_bit_nat_eq_self)
  then have h: "unat (of_nat (hsize cp) - 1 :: u32) = hsize cp - 1"
    using assms(1) unat_minus_one [of "of_nat (hsize cp) :: u32"] by (metis less_irrefl unat_0)
  have "unat (w AND (of_nat (hsize cp) - 1)) \<le> hsize cp - 1" for w :: u32
    using word_and_le1 [of w "of_nat (hsize cp) - 1"] by (simp add: word_le_nat_alt h)
  then show ?thesis
    using assms(1) unfolding CACHE_HASH_def by (meson diff_less le_less_trans zero_less_one)
qed

lemma CACHE_HASH_cong: "hsize cp' = hsize cp \<Longrightarrow> CACHE_HASH cp' = CACHE_HASH cp"
  by (simp add: CACHE_HASH_def fun_eq_iff)

lemma link_htab_ent_ok:
  assumes bk: "buckets k X cp" and b: "b \<notin> X" "b < length (data cp)" and h: "0 < hsize cp" "hsize cp < 2 ^ 32"
  shows "\<exists>cp'. link_htab_ent k b cp = Inr cp' \<and> hash_change k (insert b X) cp cp' \<and> buckets k (insert b X) cp'"
proof -
  define d where "d = data cp"
  define hs where "hs = hash (sets cp ! k)"
  define i where "i = CACHE_HASH cp (tag (d ! b))"
  have k: "k < length (sets cp)" and X: "X \<subseteq> {..<length d}" and hl: "length hs = hsize cp"
    using bk by (simp_all add: buckets_def d_def hs_def)
  have i: "i < hsize cp" using CACHE_HASH_less [OF h] by (simp add: i_def)
  define d' where "d' = d[b := (d ! b)\<lparr>hash_next := hs ! i\<rparr>]"
  define cp' where "cp' = cp\<lparr>data := d', sets := (sets cp)[k := (sets cp ! k)\<lparr>hash := hs[i := Some b]\<rparr>]\<rparr>"
  have "link_htab_ent k b cp = Inr cp'"
    using k b(2) i hl by (simp add: link_htab_ent_def cp'_def d'_def d_def hs_def i_def Let_def)
  moreover have "hash_change k (insert b X) cp cp'"
    using k b(2) unfolding hash_change_def cp'_def d'_def d_def by (auto simp: nth_list_update no_hash_def)
  moreover have "buckets k (insert b X) cp'"
    unfolding buckets_def
  proof (intro conjI allI impI)
    show "k < length (sets cp')" using k by (simp add: cp'_def)
    show "insert b X \<subseteq> {..<length (data cp')}" using X b(2) by (auto simp: cp'_def d'_def d_def)
    show "length (hash (sets cp' ! k)) = hsize cp'" using k hl by (simp add: cp'_def)
    fix j assume j: "j < hsize cp'"
    then obtain xs where xs: "seg (hashf d) (hs ! j) xs None"
      "set xs = {x \<in> X. CACHE_HASH cp (tag (d ! x)) = j}"
      using bucketsD [OF bk, of j] by (auto simp: cp'_def d_def hs_def)
    have bx: "b \<notin> set xs" using xs(2) b(1) by simp
    have hf: "hashf (data cp') = (hashf d)(b := hs ! i)"
      using b(2) by (simp add: cp'_def d'_def links_update d_def)
    have tags: "CACHE_HASH cp' (tag (data cp' ! x)) = CACHE_HASH cp (tag (d ! x))" for x
      using b(2) CACHE_HASH_cong [of cp' cp] by (simp add: cp'_def d'_def d_def nth_list_update)
    have at: "hash (sets cp' ! k) ! j = (if j = i then Some b else hs ! j)"
      using k j hl by (simp add: cp'_def nth_list_update)
    show "\<exists>xs. seg (hashf (data cp')) (hash (sets cp' ! k) ! j) xs None \<and>
        set xs = {x \<in> insert b X. CACHE_HASH cp' (tag (data cp' ! x)) = j}"
    proof (cases "j = i")
      case True
      have "seg (hashf (data cp')) (hash (sets cp' ! k) ! j) (b # xs) None"
        unfolding hf at using xs(1) bx True by simp
      moreover have "set (b # xs) = {x \<in> insert b X. CACHE_HASH cp' (tag (data cp' ! x)) = j}"
        unfolding tags using xs(2) True by (auto simp: i_def)
      ultimately show ?thesis by blast
    next
      case False
      have "seg (hashf (data cp')) (hash (sets cp' ! k) ! j) xs None"
        unfolding hf at using xs(1) bx False by simp
      moreover have "set xs = {x \<in> insert b X. CACHE_HASH cp' (tag (data cp' ! x)) = j}"
        unfolding tags using xs(2) False by (auto simp: i_def)
      ultimately show ?thesis by blast
    qed
  qed
  ultimately show ?thesis by blast
qed

lemma unlink_htab_ent_ok:
  assumes bk: "buckets k X cp" and b: "b \<in> X" and h: "0 < hsize cp" "hsize cp < 2 ^ 32"
  shows "\<exists>cp'. unlink_htab_ent k b cp = Inr cp' \<and> hash_change k X cp cp' \<and> buckets k (X - {b}) cp'"
proof -
  define d where "d = data cp"
  define hs where "hs = hash (sets cp ! k)"
  define i where "i = CACHE_HASH cp (tag (d ! b))"
  have k: "k < length (sets cp)" and X: "X \<subseteq> {..<length d}" and hl: "length hs = hsize cp"
    using bk by (simp_all add: buckets_def d_def hs_def)
  have i: "i < hsize cp" using CACHE_HASH_less [OF h] by (simp add: i_def)
  have bd: "b < length d" using b X by auto
  obtain xs where xs: "seg (hashf d) (hs ! i) xs None" "set xs = {x \<in> X. CACHE_HASH cp (tag (d ! x)) = i}"
    using bucketsD [OF bk i] by (auto simp: d_def hs_def)
  have sub: "set xs \<subseteq> {..<length d}" using xs(2) X by auto
  have "b \<in> set xs" using b xs(2) by (simp add: i_def)
  then obtain us vs where sp: "xs = us @ b # vs" "b \<notin> set us" "b \<notin> set vs"
    using split_member [OF _ seg_distinct [OF xs(1)]] by metis
  have "length xs \<le> length d" using seg_distinct [OF xs(1)] sub distinct_bounded by blast
  then have found: "unlink_find (length d) d b None (hs ! i) = Inr (if us = [] then None else Some (last us), Some b)"
    using unlink_find_seg [of d "hs ! i" us b vs "length d" None] xs(1) sub sp by simp
  define nxt where "nxt = hash_next (d ! b)"
  define hs' where "hs' = (if us = [] then hs[i := nxt] else hs)"
  define d1 where "d1 = (if us = [] then d else d[last us := (d ! last us)\<lparr>hash_next := nxt\<rparr>])"
  define d' where "d' = d1[b := (d1 ! b)\<lparr>hash_next := None\<rparr>]"
  define cp' where "cp' = cp\<lparr>data := d', sets := (sets cp)[k := (sets cp ! k)\<lparr>hash := hs'\<rparr>]\<rparr>"
  have lu: "us \<noteq> [] \<Longrightarrow> last us < length d \<and> last us \<noteq> b \<and> last us \<in> X"
  proof -
    assume "us \<noteq> []"
    then have "last us \<in> set us" by simp
    then show "last us < length d \<and> last us \<noteq> b \<and> last us \<in> X" using sub sp xs(2) by auto
  qed
  have len: "length d1 = length d" "length d' = length d" by (simp_all add: d1_def d'_def)
  have "unlink_htab_ent k b cp = Inr cp'"
  proof -
    have "unlink_htab_ent k b cp =
        res_bind (case if us = [] then None else Some (last us) of
             None \<Rightarrow> upd_set k (\<lambda>st. st\<lparr>hash := (hash st)[i := nxt]\<rparr>) cp
           | Some p \<Rightarrow> upd_blk (Some p) (\<lambda>b. b\<lparr>hash_next := nxt\<rparr>) cp) (\<lambda>cp1.
          upd_blk (Some b) (\<lambda>b. b\<lparr>hash_next := None\<rparr>) cp1)"
      using k bd i hl found by (simp add: unlink_htab_ent_def Let_def nxt_def flip: d_def hs_def i_def)
    also have "\<dots> = Inr cp'"
    proof (cases "us = []")
      case True
      then show ?thesis using k bd by (simp add: cp'_def d'_def d1_def hs'_def hs_def d_def)
    next
      case False
      then show ?thesis using k bd lu by (simp add: cp'_def d'_def d1_def hs'_def hs_def d_def)
    qed
    finally show ?thesis .
  qed
  moreover have "hash_change k X cp cp'"
    using k bd b lu unfolding hash_change_def cp'_def d'_def d1_def d_def hs'_def
    by (cases "us = []") (auto simp: nth_list_update no_hash_def)
  moreover have "buckets k (X - {b}) cp'"
    unfolding buckets_def
  proof (intro conjI allI impI)
    show "k < length (sets cp')" using k by (simp add: cp'_def)
    show "X - {b} \<subseteq> {..<length (data cp')}" using X by (auto simp: cp'_def len)
    show "length (hash (sets cp' ! k)) = hsize cp'" using k hl by (simp add: cp'_def hs'_def)
    fix j assume j: "j < hsize cp'"
    have hf: "hashf (data cp') = (unlink_f us b (hashf d))(b := None)"
      using bd lu by (auto simp: cp'_def d'_def d1_def unlink_f_def nxt_def nth_list_update fun_eq_iff)
    have tags: "CACHE_HASH cp' (tag (data cp' ! x)) = CACHE_HASH cp (tag (d ! x))" for x
      using bd lu CACHE_HASH_cong [of cp' cp]
      by (auto simp: cp'_def d'_def d1_def nth_list_update)
    show "\<exists>xs. seg (hashf (data cp')) (hash (sets cp' ! k) ! j) xs None \<and>
        set xs = {x \<in> X - {b}. CACHE_HASH cp' (tag (data cp' ! x)) = j}"
    proof (cases "j = i")
      case True
      have "hash (sets cp' ! k) ! j = (if us = [] then hashf d b else hs ! i)"
        using k i hl True by (simp add: cp'_def hs'_def nxt_def)
      then have "seg (hashf (data cp')) (hash (sets cp' ! k) ! j) (us @ vs) None"
        unfolding hf using seg_unlink [of "hashf d" "hs ! i" us b vs] xs(1) sp by simp
      moreover have "set (us @ vs) = {x \<in> X - {b}. CACHE_HASH cp' (tag (data cp' ! x)) = j}"
      proof -
        have "set (us @ vs) = set xs - {b}" using sp by auto
        then show ?thesis unfolding tags using xs(2) True by auto
      qed
      ultimately show ?thesis by blast
    next
      case False
      then obtain ys where ys: "seg (hashf d) (hs ! j) ys None" "set ys = {x \<in> X. CACHE_HASH cp (tag (d ! x)) = j}"
        using bucketsD [OF bk, of j] j by (auto simp: cp'_def d_def hs_def)
      have "set ys \<inter> set xs = {}" using ys(2) xs(2) False by auto
      then have "b \<notin> set ys" "us \<noteq> [] \<Longrightarrow> last us \<notin> set ys" using sp by auto
      then have "seg (hashf (data cp')) (hs ! j) ys None"
        unfolding hf using ys(1) by (simp add: unlink_f_def)
      moreover have "hash (sets cp' ! k) ! j = hs ! j" using k False by (simp add: cp'_def hs'_def)
      moreover have "set ys = {x \<in> X - {b}. CACHE_HASH cp' (tag (data cp' ! x)) = j}"
        unfolding tags using ys(2) \<open>b \<notin> set ys\<close> by auto
      ultimately show ?thesis by auto
    qed
  qed
  ultimately show ?thesis by blast
qed

end
