(* ===== verification/Lab5_Inv.thy ===== *)
theory Lab5_Inv
  imports Lab5_Lists
begin

text \<open>
  The invariant of the lab 5 cache and how each elementary change keeps it: the geometry that
  \<open>cache_create\<close> computes, the way list of each set over the blocks of the set, its hash chains, at most
  one valid block per tag, and the block of the last hit, through which the fast path goes.
\<close>


section \<open>Geometry\<close>

definition geom :: "cache_t \<Rightarrow> bool" where
  "geom cp \<longleftrightarrow> 3 \<le> set_shift cp \<and> set_shift cp \<le> tag_shift cp \<and> tag_shift cp < 32 \<and>
     bsize cp = 2 ^ set_shift cp \<and> nsets cp = 2 ^ (tag_shift cp - set_shift cp) \<and>
     (\<exists>la < 31. assoc cp = 2 ^ la) \<and>
     blk_mask cp = mask (set_shift cp) \<and> set_mask cp = mask (tag_shift cp - set_shift cp) \<and>
     tagset_mask cp = NOT (mask (set_shift cp)) \<and>
     hsize cp = (if assoc cp > 4 then assoc cp div 4 else 0) \<and>
     length (sets cp) = nsets cp \<and> length (data cp) = nsets cp * assoc cp"

text \<open>The fields the geometry and the addresses depend on.\<close>

definition same_geom :: "cache_t \<Rightarrow> cache_t \<Rightarrow> bool" where
  "same_geom cp cp' \<longleftrightarrow> set_shift cp' = set_shift cp \<and> tag_shift cp' = tag_shift cp \<and> bsize cp' = bsize cp \<and>
     nsets cp' = nsets cp \<and> assoc cp' = assoc cp \<and> blk_mask cp' = blk_mask cp \<and> set_mask cp' = set_mask cp \<and>
     tagset_mask cp' = tagset_mask cp \<and> hsize cp' = hsize cp \<and> policy cp' = policy cp \<and>
     hit_latency cp' = hit_latency cp \<and> prefetch_type cp' = prefetch_type cp \<and>
     length (sets cp') = length (sets cp) \<and> length (data cp') = length (data cp)"

lemma same_geom_refl: "same_geom cp cp"
  by (simp add: same_geom_def)

lemma same_geom_trans: "same_geom a b \<Longrightarrow> same_geom b c \<Longrightarrow> same_geom a c"
  by (simp add: same_geom_def)

lemma same_geom_sym: "same_geom a b \<Longrightarrow> same_geom b a"
  by (simp add: same_geom_def)

lemma geom_cong: "same_geom cp cp' \<Longrightarrow> geom cp' = geom cp"
  by (simp add: same_geom_def geom_def)

lemma addr_cong:
  assumes "same_geom cp cp'"
  shows "CACHE_TAG cp' = CACHE_TAG cp" "CACHE_SET cp' = CACHE_SET cp" "CACHE_TAGSET cp' = CACHE_TAGSET cp"
    "CACHE_BADDR cp' = CACHE_BADDR cp" "CACHE_MK_BADDR cp' = CACHE_MK_BADDR cp" "CACHE_HASH cp' = CACHE_HASH cp"
  using assms by (simp_all add: same_geom_def CACHE_TAG_def CACHE_SET_def CACHE_TAGSET_def CACHE_BADDR_def
      CACHE_MK_BADDR_def CACHE_HASH_def fun_eq_iff)

lemma same_geom_lists:
  "length d = length (data cp) \<Longrightarrow> length ss = length (sets cp) \<Longrightarrow> same_geom cp (cp\<lparr>data := d, sets := ss\<rparr>)"
  by (simp add: same_geom_def)

lemma ways_change_geom: "ways_change k B cp cp' \<Longrightarrow> same_geom cp cp'"
  using same_geom_lists [of "data cp'" cp "sets cp'"] by (simp add: ways_change_def)

lemma hash_change_geom: "hash_change k B cp cp' \<Longrightarrow> same_geom cp cp'"
  using same_geom_lists [of "data cp'" cp "sets cp'"] by (simp add: hash_change_def)

definition set_index :: "cache_t \<Rightarrow> md_addr \<Rightarrow> nat" where
  "set_index cp a = unat (CACHE_SET cp a)"

lemma geomD:
  assumes "geom cp"
  shows "0 < nsets cp" "0 < assoc cp" "assoc cp < 2 ^ 31" "0 < bsize cp"
    "hsize cp < 2 ^ 32" "length (sets cp) = nsets cp" "length (data cp) = nsets cp * assoc cp"
proof -
  obtain la where la: "la < 31" "assoc cp = 2 ^ la" using assms by (auto simp: geom_def)
  have "(2::nat) ^ la < 2 ^ 31" using la(1) by (rule power_strict_increasing) simp
  then show a: "assoc cp < 2 ^ 31" using la by simp
  show "0 < nsets cp" "0 < assoc cp" "0 < bsize cp" "length (sets cp) = nsets cp"
    "length (data cp) = nsets cp * assoc cp"
    using assms la by (simp_all add: geom_def)
  show "hsize cp < 2 ^ 32" using assms a by (auto simp: geom_def)
qed

lemma set_index_less:
  assumes "geom cp" shows "set_index cp a < nsets cp"
  using assms by (simp add: set_index_def CACHE_SET_def geom_def unat_and_mask)

lemma tagset_same:
  assumes g: "geom cp" and eq: "CACHE_TAGSET cp a = CACHE_TAGSET cp b"
  shows "CACHE_SET cp a = CACHE_SET cp b" and "CACHE_TAG cp a = CACHE_TAG cp b"
proof -
  have bits: "bit a n \<longleftrightarrow> bit b n" if "set_shift cp \<le> n" for n
  proof (cases "n < 32")
    case True
    have "bit (CACHE_TAGSET cp a) n = bit (CACHE_TAGSET cp b) n" using eq by simp
    then show ?thesis using that True g by (simp add: CACHE_TAGSET_def geom_def bit_simps)
  next
    case False
    then show ?thesis by (auto dest: bit_imp_le_length)
  qed
  have s: "set_shift cp \<le> tag_shift cp" using g by (simp add: geom_def)
  have "drop_bit (set_shift cp) a = drop_bit (set_shift cp) b"
    by (rule bit_word_eqI) (auto simp: bit_simps bits dest: bit_imp_le_length)
  then show "CACHE_SET cp a = CACHE_SET cp b" by (simp add: CACHE_SET_def)
  show "CACHE_TAG cp a = CACHE_TAG cp b"
    unfolding CACHE_TAG_def using s
    by (intro bit_word_eqI) (auto simp: bit_simps bits dest: bit_imp_le_length)
qed

lemma tagset_parts:
  assumes g: "geom cp"
  shows "CACHE_TAGSET cp (CACHE_TAGSET cp a) = CACHE_TAGSET cp a"
    and "CACHE_SET cp (CACHE_TAGSET cp a) = CACHE_SET cp a"
    and "CACHE_TAG cp (CACHE_TAGSET cp a) = CACHE_TAG cp a"
proof -
  show 1: "CACHE_TAGSET cp (CACHE_TAGSET cp a) = CACHE_TAGSET cp a"
    by (simp add: CACHE_TAGSET_def ac_simps)
  show "CACHE_SET cp (CACHE_TAGSET cp a) = CACHE_SET cp a" "CACHE_TAG cp (CACHE_TAGSET cp a) = CACHE_TAG cp a"
    using tagset_same [OF g 1] by simp_all
qed

text \<open>Tag and set together determine the block address.\<close>

lemma tag_set_determine:
  assumes g: "geom cp" and "CACHE_SET cp a = CACHE_SET cp b" and "CACHE_TAG cp a = CACHE_TAG cp b"
  shows "CACHE_TAGSET cp a = CACHE_TAGSET cp b"
proof (rule bit_word_eqI)
  fix n assume n: "n < LENGTH(32)"
  have "bit a n = bit b n" if "set_shift cp \<le> n" "n < tag_shift cp"
  proof -
    have "bit (CACHE_SET cp a) (n - set_shift cp) = bit (CACHE_SET cp b) (n - set_shift cp)"
      using assms(2) by simp
    moreover have "n - set_shift cp < 32" "n - set_shift cp < tag_shift cp - set_shift cp"
      using that n by auto
    ultimately show ?thesis using that g by (simp add: CACHE_SET_def geom_def bit_simps)
  qed
  moreover have "bit a n = bit b n" if "tag_shift cp \<le> n"
  proof -
    have "bit (CACHE_TAG cp a) (n - tag_shift cp) = bit (CACHE_TAG cp b) (n - tag_shift cp)"
      using assms(3) by simp
    then show ?thesis using that n by (simp add: CACHE_TAG_def bit_simps)
  qed
  ultimately have "set_shift cp \<le> n \<Longrightarrow> bit a n = bit b n" by (meson not_less)
  moreover have "tagset_mask cp = NOT (mask (set_shift cp))" using g by (simp add: geom_def)
  ultimately show "bit (CACHE_TAGSET cp a) n = bit (CACHE_TAGSET cp b) n"
    using n by (auto simp: CACHE_TAGSET_def bit_simps not_less)
qed

section \<open>The lists of all sets\<close>

definition set_blks :: "cache_t \<Rightarrow> nat \<Rightarrow> nat set" where
  "set_blks cp k = {k * assoc cp..<(k + 1) * assoc cp}"

lemma set_blks_disjoint: "x \<in> set_blks cp j \<Longrightarrow> x \<in> set_blks cp k \<Longrightarrow> j = k"
proof -
  have *: "\<not> a < b" if "x \<in> set_blks cp a" "x \<in> set_blks cp b" for a b
  proof
    assume "a < b"
    then have "(a + 1) * assoc cp \<le> b * assoc cp" by (intro mult_right_mono) simp_all
    then show False using that by (simp add: set_blks_def)
  qed
  assume "x \<in> set_blks cp j" "x \<in> set_blks cp k"
  then show "j = k" using * by (meson linorder_neqE_nat)
qed

lemma set_blks_less:
  assumes "geom cp" and "k < nsets cp" and "x \<in> set_blks cp k"
  shows "x < length (data cp)"
proof -
  have "(k + 1) * assoc cp \<le> nsets cp * assoc cp" using assms(2) by (intro mult_right_mono) simp_all
  then show ?thesis using assms(3) geomD(7) [OF assms(1)] by (simp add: set_blks_def)
qed

lemma set_blks_cong: "same_geom cp cp' \<Longrightarrow> set_blks cp' = set_blks cp"
  by (simp add: same_geom_def set_blks_def fun_eq_iff)

definition lists_ok :: "nat set \<Rightarrow> cache_t \<Rightarrow> bool" where
  "lists_ok R cp \<longleftrightarrow> (\<forall>k < nsets cp.
     (\<exists>xs. way_list k cp xs \<and> set xs = set_blks cp k) \<and>
     blks (sets cp ! k) = k * assoc cp \<and>
     (hsize cp \<noteq> 0 \<longrightarrow> buckets k (set_blks cp k - R) cp))"

lemma lists_okD:
  assumes "lists_ok R cp" and "k < nsets cp"
  obtains xs where "way_list k cp xs" and "set xs = set_blks cp k"
  using assms unfolding lists_ok_def by blast

lemma lists_ok_buckets: "lists_ok R cp \<Longrightarrow> k < nsets cp \<Longrightarrow> hsize cp \<noteq> 0 \<Longrightarrow> buckets k (set_blks cp k - R) cp"
  unfolding lists_ok_def by blast

text \<open>Caches with the same blocks and sets.\<close>

definition same_core :: "cache_t \<Rightarrow> cache_t \<Rightarrow> bool" where
  "same_core cp cp' \<longleftrightarrow> same_geom cp cp' \<and> data cp' = data cp \<and> sets cp' = sets cp"

lemma same_core_refl: "same_core cp cp"
  by (simp add: same_core_def same_geom_refl)

lemma same_core_trans: "same_core a b \<Longrightarrow> same_core b c \<Longrightarrow> same_core a c"
  unfolding same_core_def using same_geom_trans by fastforce

lemma way_list_core:
  assumes "same_core cp cp'" shows "way_list k cp' xs = way_list k cp xs"
proof -
  have "data cp' = data cp" "sets cp' = sets cp" using assms by (simp_all only: same_core_def)
  then show ?thesis unfolding way_list_def by (simp only:)
qed

lemma buckets_core:
  assumes "same_core cp cp'" shows "buckets k X cp' = buckets k X cp"
proof -
  have "data cp' = data cp" "sets cp' = sets cp" "hsize cp' = hsize cp" "CACHE_HASH cp' = CACHE_HASH cp"
    using assms addr_cong(6) [of cp cp'] by (simp_all only: same_core_def same_geom_def simp_thms)
  then show ?thesis unfolding buckets_def by (simp only:)
qed

lemma lists_ok_core:
  assumes "same_core cp cp'" shows "lists_ok R cp' = lists_ok R cp"
proof -
  have "sets cp' = sets cp" "hsize cp' = hsize cp" "nsets cp' = nsets cp" "assoc cp' = assoc cp"
    using assms by (simp_all only: same_core_def same_geom_def simp_thms)
  moreover have "set_blks cp' = set_blks cp"
    using assms by (intro set_blks_cong) (simp only: same_core_def)
  ultimately show ?thesis
    unfolding lists_ok_def way_list_core [OF assms] buckets_core [OF assms] by (simp only:)
qed

lemma way_list_frame:
  assumes "sets cp' ! j = sets cp ! j" and "length (sets cp') = length (sets cp)"
    and "length (data cp') = length (data cp)"
    and "\<And>x. x \<in> set xs \<Longrightarrow> way_next (data cp' ! x) = way_next (data cp ! x) \<and> way_prev (data cp' ! x) = way_prev (data cp ! x)"
  shows "way_list j cp' xs = way_list j cp xs"
proof -
  have "dll (nextf (data cp')) (prevf (data cp')) h t xs = dll (nextf (data cp)) (prevf (data cp)) h t xs" for h t
    using assms(4) by (intro dll_cong) simp_all
  then show ?thesis using assms(1-3) by (simp add: way_list_def)
qed

lemma buckets_frame:
  assumes "hash (sets cp' ! j) = hash (sets cp ! j)" and g: "same_geom cp cp'"
    and "\<And>x. x \<in> X \<Longrightarrow> hash_next (data cp' ! x) = hash_next (data cp ! x) \<and> tag (data cp' ! x) = tag (data cp ! x)"
    and bk: "buckets j X cp"
  shows "buckets j X cp'"
  unfolding buckets_def
proof (intro conjI allI impI)
  have 1: "j < length (sets cp)" "X \<subseteq> {..<length (data cp)}" "length (hash (sets cp ! j)) = hsize cp"
    using bk unfolding buckets_def by blast+
  have 2: "length (sets cp') = length (sets cp)" "length (data cp') = length (data cp)" "hsize cp' = hsize cp"
    using g unfolding same_geom_def by blast+
  show "j < length (sets cp')" "X \<subseteq> {..<length (data cp')}" "length (hash (sets cp' ! j)) = hsize cp'"
    using 1 by (simp_all only: 2 assms(1))
  fix i assume "i < hsize cp'"
  then have i: "i < hsize cp" by (simp only: 2)
  obtain xs where xs: "seg (hashf (data cp)) (hash (sets cp ! j) ! i) xs None"
    "set xs = {x \<in> X. CACHE_HASH cp (tag (data cp ! x)) = i}" by (rule bucketsD [OF bk i])
  have "seg (hashf (data cp')) (hash (sets cp' ! j) ! i) xs None"
  proof -
    have "hash_next (data cp' ! x) = hash_next (data cp ! x)" if "x \<in> set xs" for x
      using that assms(3) unfolding xs(2) by blast
    then have "seg (hashf (data cp')) p xs None = seg (hashf (data cp)) p xs None" for p
      by (intro seg_cong)
    then show ?thesis using xs(1) by (simp only: assms(1))
  qed
  moreover have "set xs = {x \<in> X. CACHE_HASH cp' (tag (data cp' ! x)) = i}"
  proof -
    have "tag (data cp' ! x) = tag (data cp ! x)" if "x \<in> X" for x using that assms(3) by blast
    then show ?thesis unfolding addr_cong(6) [OF g] xs(2) by (intro Collect_cong) (metis (no_types))
  qed
  ultimately show "\<exists>xs. seg (hashf (data cp')) (hash (sets cp' ! j) ! i) xs None \<and>
      set xs = {x \<in> X. CACHE_HASH cp' (tag (data cp' ! x)) = i}" by blast
qed

lemma lists_ok_ways:
  assumes ok: "lists_ok R cp" and k: "k < nsets cp" and ch: "ways_change k (set_blks cp k) cp cp'"
    and wl: "way_list k cp' ys" "set ys = set_blks cp k"
  shows "lists_ok R cp'"
  unfolding lists_ok_def
proof (intro allI impI)
  fix j assume "j < nsets cp'"
  note g = ways_change_geom [OF ch]
  then have j: "j < nsets cp" using \<open>j < nsets cp'\<close> by (simp add: same_geom_def)
  have eq: "set_blks cp' = set_blks cp" "assoc cp' = assoc cp" "hsize cp' = hsize cp"
    "length (sets cp') = length (sets cp)" "length (data cp') = length (data cp)"
    using g set_blks_cong [OF g] by (simp_all add: same_geom_def)
  have C: "hash_next (data cp' ! x) = hash_next (data cp ! x) \<and> tag (data cp' ! x) = tag (data cp ! x)" for x
    using ch unfolding ways_change_def no_ways_fields by simp
  have st: "hash (sets cp' ! j) = hash (sets cp ! j) \<and> blks (sets cp' ! j) = blks (sets cp ! j)"
    using ch unfolding ways_change_def by (cases "j = k") simp_all
  have "\<exists>xs. way_list j cp' xs \<and> set xs = set_blks cp' j"
  proof (cases "j = k")
    case True
    then show ?thesis using wl eq by auto
  next
    case False
    obtain xs where xs: "way_list j cp xs" "set xs = set_blks cp j" using lists_okD [OF ok j] .
    have "data cp' ! x = data cp ! x" if "x \<in> set xs" for x
    proof -
      have "x \<notin> set_blks cp k" using that xs(2) False set_blks_disjoint by metis
      then show ?thesis using ch unfolding ways_change_def by simp
    qed
    moreover have "sets cp' ! j = sets cp ! j" using ch False unfolding ways_change_def by simp
    ultimately have "way_list j cp' xs" using xs(1) way_list_frame [of cp' j cp xs] eq by simp
    then show ?thesis using xs(2) eq by auto
  qed
  moreover have "blks (sets cp' ! j) = j * assoc cp'"
    using st ok j eq by (simp add: lists_ok_def)
  moreover have "buckets j (set_blks cp' j - R) cp'" if "hsize cp' \<noteq> 0"
    using buckets_frame [OF _ g _ lists_ok_buckets [OF ok j]] st C that by (simp add: eq)
  ultimately show "(\<exists>xs. way_list j cp' xs \<and> set xs = set_blks cp' j) \<and>
      blks (sets cp' ! j) = j * assoc cp' \<and> (hsize cp' \<noteq> 0 \<longrightarrow> buckets j (set_blks cp' j - R) cp')" by blast
qed

lemma lists_ok_hash:
  assumes ok: "lists_ok R cp" and k: "k < nsets cp" and ch: "hash_change k X cp cp'"
    and X: "X \<subseteq> set_blks cp k" and bk: "buckets k (set_blks cp k - R') cp'"
    and R: "\<And>j. j \<noteq> k \<Longrightarrow> set_blks cp j - R' = set_blks cp j - R"
  shows "lists_ok R' cp'"
  unfolding lists_ok_def
proof (intro allI impI)
  fix j assume "j < nsets cp'"
  note g = hash_change_geom [OF ch]
  then have j: "j < nsets cp" using \<open>j < nsets cp'\<close> by (simp add: same_geom_def)
  have eq: "set_blks cp' = set_blks cp" "assoc cp' = assoc cp" "hsize cp' = hsize cp"
    "length (sets cp') = length (sets cp)" "length (data cp') = length (data cp)"
    using g set_blks_cong [OF g] by (simp_all add: same_geom_def)
  have C: "way_next (data cp' ! x) = way_next (data cp ! x)" "way_prev (data cp' ! x) = way_prev (data cp ! x)" for x
    using ch unfolding hash_change_def no_hash_fields by simp_all
  have st: "way_head (sets cp' ! j) = way_head (sets cp ! j)" "way_tail (sets cp' ! j) = way_tail (sets cp ! j)"
    "blks (sets cp' ! j) = blks (sets cp ! j)"
    using ch unfolding hash_change_def by (cases "j = k"; simp)+
  obtain xs where xs: "way_list j cp xs" "set xs = set_blks cp j" using lists_okD [OF ok j] .
  have "nextf (data cp') = nextf (data cp)" "prevf (data cp') = prevf (data cp)" using C by simp_all
  then have "way_list j cp' xs" using xs(1) st eq by (simp add: way_list_def)
  moreover have "blks (sets cp' ! j) = j * assoc cp'"
    using st ok j eq by (simp add: lists_ok_def)
  moreover have "buckets j (set_blks cp' j - R') cp'" if h: "hsize cp' \<noteq> 0"
  proof (cases "j = k")
    case True
    then show ?thesis using bk eq by simp
  next
    case False
    have "data cp' ! x = data cp ! x" if "x \<in> set_blks cp j - R" for x
    proof -
      have "x \<notin> X" using that X False set_blks_disjoint [of x cp j k] by auto
      then show ?thesis using ch unfolding hash_change_def by simp
    qed
    moreover have "hash (sets cp' ! j) = hash (sets cp ! j)" using ch False unfolding hash_change_def by simp
    ultimately have "buckets j (set_blks cp j - R) cp'"
      using buckets_frame [OF _ g _ lists_ok_buckets [OF ok j]] h eq by simp
    then show ?thesis using R [OF False] eq by simp
  qed
  ultimately show "(\<exists>xs. way_list j cp' xs \<and> set xs = set_blks cp' j) \<and>
      blks (sets cp' ! j) = j * assoc cp' \<and> (hsize cp' \<noteq> 0 \<longrightarrow> buckets j (set_blks cp' j - R') cp')"
    using xs(2) eq by auto
qed

text \<open>An update of a block that keeps its links, and its tag unless it is outside the hash chains.\<close>

lemma lists_ok_blk:
  assumes ok: "lists_ok R cp" and b: "b < length (data cp)"
    and links: "way_next c = way_next (data cp ! b)" "way_prev c = way_prev (data cp ! b)"
      "hash_next c = hash_next (data cp ! b)"
    and tg: "tag c = tag (data cp ! b) \<or> b \<in> R"
  shows "lists_ok R (cp\<lparr>data := (data cp)[b := c]\<rparr>)"
  unfolding lists_ok_def
proof (intro allI impI)
  let ?cp = "cp\<lparr>data := (data cp)[b := c]\<rparr>"
  fix j assume "j < nsets ?cp"
  then have j: "j < nsets cp" by simp
  have g: "same_geom cp ?cp" by (simp add: same_geom_def)
  obtain xs where xs: "way_list j cp xs" "set xs = set_blks cp j" using lists_okD [OF ok j] .
  have "way_list j ?cp xs = way_list j cp xs"
    by (rule way_list_frame) (use links b in \<open>auto simp: nth_list_update\<close>)
  moreover have "buckets j (set_blks cp j - R) ?cp" if "hsize cp \<noteq> 0"
    by (rule buckets_frame [OF _ g _ lists_ok_buckets [OF ok j that]])
      (use links tg b in \<open>auto simp: nth_list_update\<close>)
  ultimately show "(\<exists>xs. way_list j ?cp xs \<and> set xs = set_blks ?cp j) \<and>
      blks (sets ?cp ! j) = j * assoc ?cp \<and> (hsize ?cp \<noteq> 0 \<longrightarrow> buckets j (set_blks ?cp j - R) ?cp)"
    using xs ok j set_blks_cong [OF g] by (auto simp: lists_ok_def)
qed

section \<open>Looking a block up\<close>

definition holds :: "cache_t \<Rightarrow> md_addr \<Rightarrow> nat \<Rightarrow> bool" where
  "holds cp tg b \<longleftrightarrow> tag (data cp ! b) = tg \<and> is_valid (data cp ! b)"

lemma find_in: "find P xs = Some x \<Longrightarrow> x \<in> set xs \<and> P x"
  by (auto simp: find_Some_iff)

lemma find_blk_spec:
  assumes ok: "lists_ok {} cp" and g: "geom cp"
  shows "\<exists>r. find_blk (CACHE_SET cp a) tg cp = Inr r \<and>
    (case r of None \<Rightarrow> \<forall>x \<in> set_blks cp (set_index cp a). \<not> holds cp tg x
     | Some b \<Rightarrow> b \<in> set_blks cp (set_index cp a) \<and> holds cp tg b)"
proof -
  define k where "k = set_index cp a"
  have k: "k < nsets cp" "k < length (sets cp)" using set_index_less [OF g] geomD(6) [OF g] by (simp_all add: k_def)
  have hf: "holds cp tg = (\<lambda>b. tag (data cp ! b) = tg \<and> is_valid (data cp ! b))"
    by (simp add: holds_def fun_eq_iff)
  show ?thesis
  proof (cases "hsize cp = 0")
    case True
    obtain xs where xs: "way_list k cp xs" "set xs = set_blks cp k" by (rule lists_okD [OF ok k(1)])
    then have seg: "seg (nextf (data cp)) (way_head (sets cp ! k)) xs None" and sub: "set xs \<subseteq> {..<length (data cp)}"
      by (simp_all add: way_list_def dll_def)
    have "find_blk (CACHE_SET cp a) tg cp = Inr (find (holds cp tg) xs)"
      using True k chain_find_list [OF seg sub] by (simp add: find_blk_def hf flip: set_index_def k_def)
    then show ?thesis
      using find_in [of "holds cp tg" xs] xs(2) by (auto simp: find_None_iff k_def split: option.split)
  next
    case False
    note bk = lists_ok_buckets [OF ok k(1) False, unfolded Diff_empty]
    have h: "CACHE_HASH cp tg < hsize cp" using CACHE_HASH_less geomD(5) [OF g] False by simp
    have len: "length (hash (sets cp ! k)) = hsize cp" using bk by (simp add: buckets_def)
    obtain xs where xs: "seg (hashf (data cp)) (hash (sets cp ! k) ! CACHE_HASH cp tg) xs None"
      "set xs = {x \<in> set_blks cp k. CACHE_HASH cp (tag (data cp ! x)) = CACHE_HASH cp tg}"
      by (rule bucketsD [OF bk h])
    have sub: "set xs \<subseteq> {..<length (data cp)}" using xs(2) set_blks_less [OF g k(1)] by auto
    have "find_blk (CACHE_SET cp a) tg cp = Inr (find (holds cp tg) xs)"
      using False k h len chain_find_list [OF xs(1) sub]
      by (simp add: find_blk_def hf flip: set_index_def k_def)
    then show ?thesis
      using find_in [of "holds cp tg" xs] xs(2) by (auto simp: find_None_iff k_def holds_def split: option.split)
  qed
qed

section \<open>The invariant\<close>

definition uniq :: "cache_t \<Rightarrow> nat \<Rightarrow> bool" where
  "uniq cp k \<longleftrightarrow> (\<forall>x \<in> set_blks cp k. \<forall>y \<in> set_blks cp k. \<forall>tg. holds cp tg x \<longrightarrow> holds cp tg y \<longrightarrow> x = y)"

text \<open>The block of the last hit holds the last address.\<close>

definition last_ok :: "cache_t \<Rightarrow> bool" where
  "last_ok cp \<longleftrightarrow>
     (case last_blk cp of None \<Rightarrow> last_tagset cp = 0
      | Some b \<Rightarrow> b \<in> set_blks cp (set_index cp (last_tagset cp)) \<and> holds cp (CACHE_TAG cp (last_tagset cp)) b)"

definition rpt_ok :: "nat \<Rightarrow> rpt_t \<Rightarrow> bool" where
  "rpt_ok n r \<longleftrightarrow> length (tags r) = n \<and> length (prev_addrs r) = n \<and> length (strides r) = n \<and>
     length (is_negative r) = n \<and> length (states r) = n"

definition pf_ok :: "cache_t \<Rightarrow> bool" where
  "pf_ok cp \<longleftrightarrow>
     (2 \<le> prefetch_type cp \<longrightarrow> (\<exists>r. rpt cp = Some r \<and>
        rpt_ok (if prefetch_type cp = 2 then RPT_DEFAULT_SIZE else prefetch_type cp) r)) \<and>
     (prefetch_type cp = 2 \<longrightarrow> length (miss_queue cp) = MISS_QUEUE_MAX_SIZE)"

definition cache_ok :: "cache_t \<Rightarrow> bool" where
  "cache_ok cp \<longleftrightarrow> geom cp \<and> lists_ok {} cp \<and> (\<forall>k < nsets cp. uniq cp k) \<and> last_ok cp \<and> pf_ok cp"

lemma cache_okD:
  assumes "cache_ok cp"
  shows "geom cp" and "lists_ok {} cp" and "k < nsets cp \<Longrightarrow> uniq cp k" and "last_ok cp" and "pf_ok cp"
  using assms by (simp_all add: cache_ok_def)

lemma holds_core: "same_core cp cp' \<Longrightarrow> holds cp' = holds cp"
  by (simp add: same_core_def holds_def fun_eq_iff)

lemma uniq_core: "same_core cp cp' \<Longrightarrow> uniq cp' = uniq cp"
proof -
  assume c: "same_core cp cp'"
  then have "set_blks cp' = set_blks cp" by (intro set_blks_cong) (simp only: same_core_def)
  then show ?thesis unfolding uniq_def holds_core [OF c] by (simp only:)
qed

lemma uniqD: "uniq cp k \<Longrightarrow> x \<in> set_blks cp k \<Longrightarrow> y \<in> set_blks cp k \<Longrightarrow> holds cp tg x \<Longrightarrow> holds cp tg y \<Longrightarrow> x = y"
  unfolding uniq_def by blast

text \<open>The block a cache holds for an address, if any, as a set of at most one block.\<close>

definition present :: "cache_t \<Rightarrow> md_addr \<Rightarrow> bool" where
  "present cp a \<longleftrightarrow> (\<exists>b \<in> set_blks cp (set_index cp a). holds cp (CACHE_TAG cp a) b)"

lemma find_blk_eq:
  assumes "cache_ok cp"
  shows "find_blk (CACHE_SET cp a) (CACHE_TAG cp a) cp = Inr r \<longleftrightarrow>
    (case r of None \<Rightarrow> \<not> present cp a
     | Some b \<Rightarrow> b \<in> set_blks cp (set_index cp a) \<and> holds cp (CACHE_TAG cp a) b)"
proof -
  note g = cache_okD(1) [OF assms]
  obtain r' where r': "find_blk (CACHE_SET cp a) (CACHE_TAG cp a) cp = Inr r'"
    "case r' of None \<Rightarrow> \<forall>x \<in> set_blks cp (set_index cp a). \<not> holds cp (CACHE_TAG cp a) x
     | Some b \<Rightarrow> b \<in> set_blks cp (set_index cp a) \<and> holds cp (CACHE_TAG cp a) b"
    using find_blk_spec [OF cache_okD(2) [OF assms] g, of a "CACHE_TAG cp a"] by (elim exE conjE) (rule that)
  have u: "uniq cp (set_index cp a)" using cache_okD(3) [OF assms] set_index_less [OF g] .
  show ?thesis
  proof (cases r')
    case None
    then show ?thesis using r' by (cases r) (auto simp: present_def)
  next
    case (Some b)
    then show ?thesis using r' uniqD [OF u] by (cases r) (auto simp: present_def)
  qed
qed

lemma cache_probe_present:
  assumes "cache_ok cp" shows "cache_probe a cp = Inr (present cp a)"
proof -
  obtain r where r: "find_blk (CACHE_SET cp a) (CACHE_TAG cp a) cp = Inr r"
    using find_blk_spec [OF cache_okD(2) [OF assms] cache_okD(1) [OF assms]] by blast
  then have "(r \<noteq> None) = present cp a"
    using find_blk_eq [OF assms, of a r] by (cases r) (auto simp: present_def)
  then show ?thesis by (simp add: cache_probe_def r)
qed

text \<open>The fast path gives the block the search would find.\<close>

lemma fast_path:
  assumes ok: "cache_ok cp" and fast: "CACHE_TAGSET cp a = last_tagset cp" and b: "last_blk cp = Some b"
  shows "find_blk (CACHE_SET cp a) (CACHE_TAG cp a) cp = Inr (Some b)"
proof -
  note g = cache_okD(1) [OF ok]
  have "CACHE_SET cp (last_tagset cp) = CACHE_SET cp a" "CACHE_TAG cp (last_tagset cp) = CACHE_TAG cp a"
    using tagset_parts(2,3) [OF g] by (simp_all flip: fast)
  moreover have "b \<in> set_blks cp (set_index cp (last_tagset cp))" "holds cp (CACHE_TAG cp (last_tagset cp)) b"
    using cache_okD(4) [OF ok] b by (simp_all add: last_ok_def)
  ultimately show ?thesis unfolding find_blk_eq [OF ok] by (simp add: set_index_def)
qed

section \<open>What a cache holds, abstractly\<close>

text \<open>The blocks of a set in the order of its way list, and the contents of a block.\<close>

fun way_walk :: "nat \<Rightarrow> cache_blk_t list \<Rightarrow> blk_ptr \<Rightarrow> nat list" where
  "way_walk n d None = []"
| "way_walk 0 d (Some x) = []"
| "way_walk (Suc n) d (Some x) = x # way_walk n d (way_next (d ! x))"

definition ways :: "cache_t \<Rightarrow> nat \<Rightarrow> nat list" where
  "ways cp k = way_walk (length (data cp)) (data cp) (way_head (sets cp ! k))"

type_synonym line = "md_addr \<times> bool \<times> bool"

definition ln :: "cache_t \<Rightarrow> nat \<Rightarrow> line" where
  "ln cp b = (tag (data cp ! b), is_valid (data cp ! b), is_dirty (data cp ! b))"

lemma way_walk_seg: "seg (nextf d) p xs None \<Longrightarrow> length xs \<le> n \<Longrightarrow> way_walk n d p = xs"
proof (induction xs arbitrary: p n)
  case (Cons x xs)
  then obtain m where "n = Suc m" by (cases n) auto
  then show ?case using Cons by simp
qed simp

lemma ways_eq:
  assumes "way_list k cp xs" shows "ways cp k = xs"
proof -
  have s: "seg (nextf (data cp)) (way_head (sets cp ! k)) xs None" and sub: "set xs \<subseteq> {..<length (data cp)}"
    using assms by (simp_all add: way_list_def dll_def)
  have "length xs \<le> length (data cp)" using seg_distinct [OF s] sub distinct_bounded by blast
  then show ?thesis unfolding ways_def using way_walk_seg [OF s] by blast
qed

lemma ways_ok:
  assumes "lists_ok R cp" and "k < nsets cp"
  shows "way_list k cp (ways cp k)" and "set (ways cp k) = set_blks cp k" and "distinct (ways cp k)"
proof -
  obtain xs where xs: "way_list k cp xs" "set xs = set_blks cp k" by (rule lists_okD [OF assms])
  then show "way_list k cp (ways cp k)" "set (ways cp k) = set_blks cp k" by (simp_all add: ways_eq)
  then show "distinct (ways cp k)" by (auto simp: way_list_def dest: dll_distinct)
qed

lemma holds_ln: "holds cp tg b \<longleftrightarrow> fst (ln cp b) = tg \<and> fst (snd (ln cp b))"
  by (simp add: holds_def ln_def)

lemma ln_holds: "ln cp' = ln cp \<Longrightarrow> holds cp' = holds cp"
  by (simp add: holds_ln fun_eq_iff)

text \<open>A change of blocks and sets only.\<close>

definition core_only :: "cache_t \<Rightarrow> cache_t \<Rightarrow> bool" where
  "core_only cp cp' \<longleftrightarrow> cp' = cp\<lparr>data := data cp', sets := sets cp'\<rparr> \<and>
     length (data cp') = length (data cp) \<and> length (sets cp') = length (sets cp)"

lemma core_only_refl: "core_only cp cp"
  by (simp add: core_only_def)

lemma core_only_geom: "core_only cp cp' \<Longrightarrow> same_geom cp cp'"
  using same_geom_lists [of "data cp'" cp "sets cp'"] by (simp add: core_only_def)

lemma core_only_fields:
  assumes "core_only cp cp'"
  shows "last_tagset cp' = last_tagset cp" "last_blk cp' = last_blk cp" "rpt cp' = rpt cp"
    "miss_queue cp' = miss_queue cp" "miss_queue_size cp' = miss_queue_size cp"
    "miss_queue_head cp' = miss_queue_head cp" "bus_free cp' = bus_free cp"
    "hits cp' = hits cp" "misses cp' = misses cp" "replacements cp' = replacements cp"
    "writebacks cp' = writebacks cp" "invalidations cp' = invalidations cp"
    "read_hits cp' = read_hits cp" "read_misses cp' = read_misses cp"
    "prefetch_hits cp' = prefetch_hits cp" "prefetch_misses cp' = prefetch_misses cp"
proof -
  have "cp' = cp\<lparr>data := data cp', sets := sets cp'\<rparr>" using assms by (simp add: core_only_def)
  then obtain d s where "cp' = cp\<lparr>data := d, sets := s\<rparr>" by blast
  then show "last_tagset cp' = last_tagset cp" "last_blk cp' = last_blk cp" "rpt cp' = rpt cp"
    "miss_queue cp' = miss_queue cp" "miss_queue_size cp' = miss_queue_size cp"
    "miss_queue_head cp' = miss_queue_head cp" "bus_free cp' = bus_free cp"
    "hits cp' = hits cp" "misses cp' = misses cp" "replacements cp' = replacements cp"
    "writebacks cp' = writebacks cp" "invalidations cp' = invalidations cp"
    "read_hits cp' = read_hits cp" "read_misses cp' = read_misses cp"
    "prefetch_hits cp' = prefetch_hits cp" "prefetch_misses cp' = prefetch_misses cp"
    by simp_all
qed

lemma no_ways_ln: "(\<And>x. no_ways (data cp' ! x) = no_ways (data cp ! x)) \<Longrightarrow> ln cp' = ln cp"
  unfolding no_ways_fields by (simp add: ln_def is_valid_def is_dirty_def fun_eq_iff)

lemma no_hash_ln: "(\<And>x. no_hash (data cp' ! x) = no_hash (data cp ! x)) \<Longrightarrow> ln cp' = ln cp"
  unfolding no_hash_fields by (simp add: ln_def is_valid_def is_dirty_def fun_eq_iff)

text \<open>Moving a block of a set.\<close>

lemma move_block:
  assumes ok: "lists_ok R cp" and k: "k < nsets cp" and b: "b \<in> set_blks cp k"
  obtains cp' where "update_way_list k b loc cp = Inr cp'" and "core_only cp cp'" and "lists_ok R cp'"
    and "ln cp' = ln cp" and "ways cp' k = placed loc b (ways cp k)"
    and "\<And>j. j < nsets cp \<Longrightarrow> j \<noteq> k \<Longrightarrow> ways cp' j = ways cp j"
proof -
  note w = ways_ok [OF ok k]
  obtain cp' where cp': "update_way_list k b loc cp = Inr cp'" "ways_change k (set (ways cp k)) cp cp'"
    "way_list k cp' (placed loc b (ways cp k))"
    using update_way_list_ok [OF w(1), of b loc] b w(2) by auto
  note ch = cp'(2) [unfolded w(2)]
  have pl: "set (placed loc b (ways cp k)) = set_blks cp k"
    using b w(2,3) by (auto simp: placed_def split: list_loc_t.split)
  have lists': "lists_ok R cp'" by (rule lists_ok_ways [OF ok k ch cp'(3) pl])
  have core: "core_only cp cp'" using ch by (simp add: ways_change_def core_only_def)
  have ln': "ln cp' = ln cp" using ch by (intro no_ways_ln) (simp add: ways_change_def)
  have other: "ways cp' j = ways cp j" if j: "j < nsets cp" "j \<noteq> k" for j
  proof -
    have "data cp' ! x = data cp ! x" if "x \<in> set (ways cp j)" for x
    proof -
      have "x \<notin> set_blks cp k" using that ways_ok(2) [OF ok j(1)] j(2) set_blks_disjoint by metis
      then show ?thesis using ch unfolding ways_change_def by blast
    qed
    moreover have "sets cp' ! j = sets cp ! j" using ch j(2) unfolding ways_change_def by blast
    ultimately have "way_list j cp' (ways cp j)"
      using ways_ok(1) [OF ok j(1)] way_list_frame [of cp' j cp "ways cp j"] core
      by (simp add: core_only_def)
    then show ?thesis by (rule ways_eq)
  qed
  show thesis by (rule that [OF cp'(1) core lists' ln' ways_eq [OF cp'(3)] other])
qed

lemma hash_change_ways:
  assumes ch: "hash_change k X cp cp'" shows "ways cp' = ways cp"
proof
  fix j
  have "way_next (data cp' ! x) = way_next (data cp ! x)" for x
    using ch unfolding hash_change_def no_hash_fields by blast
  then have "way_walk n (data cp') p = way_walk n (data cp) p" for n p
    by (induction n "data cp" p rule: way_walk.induct) simp_all
  moreover have "way_head (sets cp' ! j) = way_head (sets cp ! j)" "length (data cp') = length (data cp)"
    using ch unfolding hash_change_def by (cases "j = k"; simp)+
  ultimately show "ways cp' j = ways cp j" by (simp add: ways_def)
qed

text \<open>Taking a block out of the hash chains and putting it back.\<close>

lemma unlink_block:
  assumes ok: "lists_ok {} cp" and g: "geom cp" and k: "k < nsets cp" and b: "b \<in> set_blks cp k"
  obtains cp' where "(if hsize cp \<noteq> 0 then unlink_htab_ent k b cp else Inr cp) = Inr cp'" and "core_only cp cp'"
    and "lists_ok {b} cp'" and "ln cp' = ln cp" and "ways cp' = ways cp"
proof (cases "hsize cp = 0")
  case True
  have "lists_ok {b} cp" using ok True by (simp add: lists_ok_def)
  then show thesis using True core_only_refl by (intro that [of cp]) simp_all
next
  case False
  note bk = lists_ok_buckets [OF ok k False, unfolded Diff_empty]
  obtain cp' where cp': "unlink_htab_ent k b cp = Inr cp'" "hash_change k (set_blks cp k) cp cp'"
    "buckets k (set_blks cp k - {b}) cp'"
    using unlink_htab_ent_ok [OF bk b] False geomD(5) [OF g] by blast
  have other: "set_blks cp j - {b} = set_blks cp j - {}" if "j \<noteq> k" for j
    using that b set_blks_disjoint [of b cp j k] by auto
  have "lists_ok {b} cp'" by (rule lists_ok_hash [OF ok k cp'(2) subset_refl cp'(3) other])
  moreover have "core_only cp cp'" using cp'(2) by (simp add: hash_change_def core_only_def)
  moreover have "ln cp' = ln cp" using cp'(2) by (intro no_hash_ln) (simp add: hash_change_def)
  ultimately show thesis using cp'(1) False hash_change_ways [OF cp'(2)] by (intro that [of cp']) simp_all
qed

lemma link_block:
  assumes ok: "lists_ok {b} cp" and g: "geom cp" and k: "k < nsets cp" and b: "b \<in> set_blks cp k"
  obtains cp' where "(if hsize cp \<noteq> 0 then link_htab_ent k b cp else Inr cp) = Inr cp'" and "core_only cp cp'"
    and "lists_ok {} cp'" and "ln cp' = ln cp" and "ways cp' = ways cp"
proof (cases "hsize cp = 0")
  case True
  have "lists_ok {} cp" using ok True by (simp add: lists_ok_def)
  then show thesis using True core_only_refl by (intro that [of cp]) simp_all
next
  case False
  note bk = lists_ok_buckets [OF ok k False]
  have bd: "b < length (data cp)" by (rule set_blks_less [OF g k b])
  have ins: "insert b (set_blks cp k - {b}) = set_blks cp k" using b by blast
  obtain cp' where cp': "link_htab_ent k b cp = Inr cp'" "hash_change k (set_blks cp k) cp cp'"
    "buckets k (set_blks cp k) cp'"
    using link_htab_ent_ok [OF bk _ bd] False geomD(5) [OF g] unfolding ins by blast
  have other: "set_blks cp j - {} = set_blks cp j - {b}" if "j \<noteq> k" for j
    using that b set_blks_disjoint [of b cp j k] by auto
  have "lists_ok {} cp'" by (rule lists_ok_hash [OF ok k cp'(2) subset_refl _ other]) (simp add: cp'(3))
  moreover have "core_only cp cp'" using cp'(2) by (simp add: hash_change_def core_only_def)
  moreover have "ln cp' = ln cp" using cp'(2) by (intro no_hash_ln) (simp add: hash_change_def)
  ultimately show thesis using cp'(1) False hash_change_ways [OF cp'(2)] by (intro that [of cp']) simp_all
qed

text \<open>Updating the tag, the status or the time of a block.\<close>

lemma update_block:
  assumes ok: "lists_ok R cp" and b: "b < length (data cp)"
    and links: "way_next (f (data cp ! b)) = way_next (data cp ! b)" "way_prev (f (data cp ! b)) = way_prev (data cp ! b)"
      "hash_next (f (data cp ! b)) = hash_next (data cp ! b)"
    and tg: "tag (f (data cp ! b)) = tag (data cp ! b) \<or> b \<in> R"
  obtains cp' where "upd_blk (Some b) f cp = Inr cp'" and "core_only cp cp'" and "lists_ok R cp'"
    and "ln cp' = (ln cp)(b := (tag (f (data cp ! b)), is_valid (f (data cp ! b)), is_dirty (f (data cp ! b))))"
    and "ways cp' = ways cp" and "data cp' ! b = f (data cp ! b)"
proof -
  let ?cp = "cp\<lparr>data := (data cp)[b := f (data cp ! b)]\<rparr>"
  have "way_next (data ?cp ! x) = way_next (data cp ! x)" for x
    using b links by (cases "x = b") simp_all
  then have "way_walk n (data ?cp) p = way_walk n (data cp) p" for n p
    by (induction n "data cp" p rule: way_walk.induct) simp_all
  then have "ways ?cp = ways cp" by (simp add: ways_def fun_eq_iff)
  moreover have "ln ?cp = (ln cp)(b := (tag (f (data cp ! b)), is_valid (f (data cp ! b)), is_dirty (f (data cp ! b))))"
    using b by (auto simp: ln_def fun_eq_iff)
  ultimately show thesis
    using lists_ok_blk [OF ok b links tg] b by (intro that [of ?cp]) (simp_all add: core_only_def)
qed

end
