(* ===== verification/Lab5_Access.thy ===== *)
theory Lab5_Access
  imports Lab5_Inv
begin

text \<open>
  The access of the lab 5 cache: the invariant of reachable caches and what a hit and a miss do to it,
  to the order and contents of the sets and to the counters.
\<close>

section \<open>The invariant of reachable caches\<close>

text \<open>
  Under LRU the block of the last hit is the most recent of its set; this is why the fast path may
  leave the way list alone.
\<close>

definition mru_ok :: "cache_t \<Rightarrow> bool" where
  "mru_ok cp \<longleftrightarrow> (policy cp = LRU \<longrightarrow>
     (\<forall>b. last_blk cp = Some b \<longrightarrow> hd (ways cp (set_index cp (last_tagset cp))) = b))"

definition cache_inv :: "cache_t \<Rightarrow> bool" where
  "cache_inv cp \<longleftrightarrow> cache_ok cp \<and> mru_ok cp"

lemma cache_invD:
  assumes "cache_inv cp"
  shows "cache_ok cp" "geom cp" "lists_ok {} cp" "k < nsets cp \<Longrightarrow> uniq cp k" "last_ok cp" "pf_ok cp" "mru_ok cp"
  using assms by (simp_all add: cache_inv_def cache_ok_def)

text \<open>The counters of accesses.\<close>

definition counts :: "cache_t \<Rightarrow> nat list" where
  "counts cp = [hits cp, misses cp, read_hits cp, read_misses cp, prefetch_hits cp, prefetch_misses cp]"

definition counted :: "mem_cmd \<Rightarrow> bool \<Rightarrow> bool \<Rightarrow> nat list \<Rightarrow> nat list" where
  "counted cmd pf hit c = map2 (+) c
     [of_bool (\<not> pf \<and> hit), of_bool (\<not> pf \<and> \<not> hit), of_bool (\<not> pf \<and> hit \<and> cmd = Read),
      of_bool (\<not> pf \<and> \<not> hit \<and> cmd = Read), of_bool (pf \<and> hit), of_bool (pf \<and> \<not> hit)]"

lemma counts_core: "core_only cp cp' \<Longrightarrow> counts cp' = counts cp"
  by (simp add: counts_def core_only_fields)

text \<open>Changes that leave blocks, sets, last hit and prefetcher alone.\<close>

definition quiet :: "cache_t \<Rightarrow> cache_t \<Rightarrow> bool" where
  "quiet cp cp' \<longleftrightarrow> same_core cp cp' \<and> last_tagset cp' = last_tagset cp \<and> last_blk cp' = last_blk cp \<and>
     rpt cp' = rpt cp \<and> length (miss_queue cp') = length (miss_queue cp)"

lemma quiet_geom: "quiet cp cp' \<Longrightarrow> same_geom cp cp'"
  by (simp add: quiet_def same_core_def)

lemma ways_core: "same_core cp cp' \<Longrightarrow> ways cp' = ways cp"
proof -
  assume "same_core cp cp'"
  then have "data cp' = data cp" "sets cp' = sets cp" by (simp_all only: same_core_def)
  then show ?thesis by (simp add: ways_def fun_eq_iff)
qed

lemma ln_core: "same_core cp cp' \<Longrightarrow> ln cp' = ln cp"
proof -
  assume "same_core cp cp'"
  then have "data cp' = data cp" by (simp_all only: same_core_def)
  then show ?thesis by (simp add: ln_def fun_eq_iff)
qed

lemma set_index_cong: "same_geom cp cp' \<Longrightarrow> set_index cp' = set_index cp"
  by (simp add: set_index_def addr_cong(2) fun_eq_iff)

lemma nsets_cong: "same_geom cp cp' \<Longrightarrow> nsets cp' = nsets cp"
  by (simp add: same_geom_def)

lemma pf_ok_cong:
  assumes "same_geom cp cp'" and "rpt cp' = rpt cp" and "length (miss_queue cp') = length (miss_queue cp)"
  shows "pf_ok cp' = pf_ok cp"
proof -
  have "prefetch_type cp' = prefetch_type cp" using assms(1) by (simp add: same_geom_def)
  then show ?thesis unfolding pf_ok_def assms(2,3) by (simp only:)
qed

text \<open>The general way to the invariant of a changed cache.\<close>

lemma cache_invI:
  assumes g: "same_geom cp cp'" and inv: "geom cp" and lists: "lists_ok {} cp'"
    and u: "\<And>k. k < nsets cp \<Longrightarrow> uniq cp' k"
    and l: "last_ok cp'" and p: "pf_ok cp'" and m: "mru_ok cp'"
  shows "cache_inv cp'"
  using assms geom_cong [OF g] nsets_cong [OF g] by (simp add: cache_inv_def cache_ok_def)

lemma uniq_same:
  assumes "same_geom cp cp'" and "holds cp' = holds cp" and "uniq cp k"
  shows "uniq cp' k"
  using assms(3) unfolding uniq_def assms(2) set_blks_cong [OF assms(1)] .

lemma quiet_inv:
  assumes "quiet cp cp'" and inv: "cache_inv cp" shows "cache_inv cp'"
proof -
  have c: "same_core cp cp'" and f: "last_tagset cp' = last_tagset cp" "last_blk cp' = last_blk cp"
    and p: "rpt cp' = rpt cp" "length (miss_queue cp') = length (miss_queue cp)"
    using assms(1) by (simp_all add: quiet_def)
  note g = quiet_geom [OF assms(1)]
  note I = cache_invD [OF inv]
  have h: "holds cp' = holds cp" by (rule holds_core [OF c])
  have pol: "policy cp' = policy cp" using g by (simp add: same_geom_def)
  show ?thesis
  proof (rule cache_invI [OF g I(2)])
    show "lists_ok {} cp'" using I(3) lists_ok_core [OF c] by simp
    show "uniq cp' k" if "k < nsets cp" for k by (rule uniq_same [OF g h I(4) [OF that]])
    show "last_ok cp'"
      using I(5) unfolding last_ok_def f set_index_cong [OF g] set_blks_cong [OF g] addr_cong(1) [OF g] h .
    show "pf_ok cp'" using I(6) pf_ok_cong [OF g p] by simp
    show "mru_ok cp'" using I(7) unfolding mru_ok_def f pol set_index_cong [OF g] ways_core [OF c] .
  qed
qed

lemma count_hit_quiet: "quiet cp (count_hit cmd pf cp)"
  by (simp add: count_hit_def quiet_def same_core_def same_geom_def Let_def)

lemma count_hit_counts: "counts (count_hit cmd pf cp) = counted cmd pf True (counts cp)"
  by (simp add: count_hit_def counts_def counted_def Let_def)

lemma status_bits: "is_valid b = bit (status b) 0" "is_dirty b = bit (status b) 1"
  by (simp_all add: is_valid_def is_dirty_def CACHE_BLK_VALID_def CACHE_BLK_DIRTY_def
      bit_iff_and_push_bit_not_eq_0 del: bit_0 and_one_eq)

lemma status_masks: "bit CACHE_BLK_VALID 0" "\<not> bit CACHE_BLK_VALID 1" "\<not> bit CACHE_BLK_DIRTY 0" "bit CACHE_BLK_DIRTY 1"
  by (simp_all add: CACHE_BLK_VALID_def CACHE_BLK_DIRTY_def bit_1_iff bit_2_iff)

lemmas status_masks' = status_masks status_masks [unfolded One_nat_def]

lemma status_dirty:
  "is_valid (b\<lparr>status := status b OR CACHE_BLK_DIRTY\<rparr>) = is_valid b"
  "is_dirty (b\<lparr>status := status b OR CACHE_BLK_DIRTY\<rparr>)"
  by (simp_all add: status_bits bit_or_iff status_masks' del: bit_0)

lemma status_flush:
  "\<not> is_valid (b\<lparr>status := status b AND NOT CACHE_BLK_VALID\<rparr>)"
  "is_dirty (b\<lparr>status := status b AND NOT CACHE_BLK_VALID\<rparr>) = is_dirty b"
  by (auto simp: status_bits bit_and_iff bit_not_iff status_masks' simp del: bit_0 dest: bit_imp_le_length)

lemma status_new: "is_valid (b\<lparr>tag := t, status := CACHE_BLK_VALID\<rparr>)" "\<not> is_dirty (b\<lparr>tag := t, status := CACHE_BLK_VALID\<rparr>)"
  by (simp_all add: status_bits status_masks' del: bit_0)

lemma mark_dirty_block:
  assumes ok: "lists_ok R cp" and b: "b < length (data cp)"
  obtains cp' where "mark_dirty cmd b cp = Inr cp'" and "core_only cp cp'" and "lists_ok R cp'"
    and "ln cp' = (ln cp)(b := (tag (data cp ! b), is_valid (data cp ! b), is_dirty (data cp ! b) \<or> cmd = Write))"
    and "ways cp' = ways cp"
proof (cases cmd)
  case Read
  have "ln cp = (ln cp)(b := (tag (data cp ! b), is_valid (data cp ! b), is_dirty (data cp ! b)))"
    by (simp add: ln_def fun_eq_iff)
  then show thesis using ok core_only_refl Read by (intro that [of cp]) (simp_all add: mark_dirty_def)
next
  case Write
  show thesis
    by (rule update_block [OF ok b, of "\<lambda>b. b\<lparr>status := status b OR CACHE_BLK_DIRTY\<rparr>"])
      (use Write in \<open>auto simp: status_dirty mark_dirty_def intro!: that\<close>)
qed


section \<open>Hits\<close>

text \<open>A change of blocks and sets, and a new last hit or none.\<close>

lemma core_only_trans:
  assumes "core_only a b" and "core_only b c" shows "core_only a c"
proof -
  have "b = a\<lparr>data := data b, sets := sets b\<rparr>" "c = b\<lparr>data := data c, sets := sets c\<rparr>"
    using assms by (simp_all only: core_only_def)
  then obtain d e d' e' where b: "b = a\<lparr>data := d, sets := e\<rparr>" and c: "c = b\<lparr>data := d', sets := e'\<rparr>" by blast
  show ?thesis using assms unfolding core_only_def c by (simp add: b)
qed

definition with_last :: "md_addr \<Rightarrow> blk_ptr \<Rightarrow> cache_t \<Rightarrow> cache_t" where
  "with_last ltag lb cp = cp\<lparr>last_tagset := ltag, last_blk := lb\<rparr>"

lemma with_last_core: "same_core cp (with_last ltag lb cp)"
  by (simp add: same_core_def same_geom_def with_last_def)

lemma with_last_fields:
  "last_tagset (with_last ltag lb cp) = ltag" "last_blk (with_last ltag lb cp) = lb"
  "rpt (with_last ltag lb cp) = rpt cp" "miss_queue (with_last ltag lb cp) = miss_queue cp"
  "miss_queue_size (with_last ltag lb cp) = miss_queue_size cp"
  "miss_queue_head (with_last ltag lb cp) = miss_queue_head cp"
  "counts (with_last ltag lb cp) = counts cp"
  "data (with_last ltag lb cp) = data cp" "sets (with_last ltag lb cp) = sets cp"
  by (simp_all add: with_last_def counts_def)

lemma with_last_geom: "same_geom cp (with_last ltag lb cp)"
  using with_last_core [of cp ltag lb] by (simp only: same_core_def)

text \<open>The last hit is in block \<open>b\<close> of the set of \<open>a\<close>, at the head of that set under LRU.\<close>

definition last_hit :: "md_addr \<Rightarrow> nat \<Rightarrow> cache_t \<Rightarrow> bool" where
  "last_hit a b cp \<longleftrightarrow> b \<in> set_blks cp (set_index cp a) \<and> holds cp (CACHE_TAG cp a) b \<and>
     (policy cp = LRU \<longrightarrow> hd (ways cp (set_index cp a)) = b)"

lemma inv_with_last:
  assumes g: "same_geom cp cp'" and inv: "cache_inv cp" and lists: "lists_ok {} cp'"
    and u: "\<And>k. k < nsets cp \<Longrightarrow> uniq cp' k" and p: "pf_ok cp'"
    and l: "ltag = 0 \<and> lb = None \<or> (\<exists>a b. ltag = CACHE_TAGSET cp' a \<and> lb = Some b \<and> last_hit a b cp')"
  shows "cache_inv (with_last ltag lb cp')"
proof -
  let ?cp = "with_last ltag lb cp'"
  note I = cache_invD [OF inv]
  note c = with_last_core [of cp' ltag lb] and g' = with_last_geom [of cp' ltag lb]
  note gg = same_geom_trans [OF g g']
  have G: "geom cp'" using geom_cong [OF g] I(2) by simp
  have h: "holds ?cp = holds cp'" by (rule holds_core [OF c])
  have pol: "policy ?cp = policy cp'" by (simp add: with_last_def)
  have "last_ok ?cp \<and> mru_ok ?cp"
  proof (cases "lb = None")
    case True
    then show ?thesis using l by (auto simp: last_ok_def mru_ok_def with_last_fields)
  next
    case False
    then obtain a b where ab: "ltag = CACHE_TAGSET cp' a" "lb = Some b" "last_hit a b cp'" using l by blast
    note t = tagset_parts [OF G, of a]
    have k: "set_index cp' ltag = set_index cp' a" using t by (simp add: ab set_index_def)
    have "last_ok ?cp"
      unfolding last_ok_def with_last_fields set_index_cong [OF g'] set_blks_cong [OF g'] addr_cong(1) [OF g'] h
      using ab t by (simp add: set_index_def last_hit_def)
    moreover have "mru_ok ?cp"
      unfolding mru_ok_def with_last_fields set_index_cong [OF g'] ways_core [OF c] pol k
      using ab(2,3) by (simp add: last_hit_def)
    ultimately show ?thesis by simp
  qed
  moreover have "pf_ok ?cp" using p pf_ok_cong [OF g'] by (simp add: with_last_fields)
  moreover have "lists_ok {} ?cp" using lists lists_ok_core [OF c] by simp
  moreover have "uniq ?cp k" if "k < nsets cp" for k using u [OF that] uniq_core [OF c] by simp
  ultimately show ?thesis using cache_invI [OF gg I(2)] by blast
qed

section \<open>Hits\<close>

section \<open>Hits\<close>

text \<open>The order of a set after a hit in block \<open>b\<close>.\<close>

definition touched :: "cache_policy \<Rightarrow> nat \<Rightarrow> nat list \<Rightarrow> nat list" where
  "touched pol b xs = (if pol = LRU then b # remove1 b xs else xs)"

definition same_prefetch :: "cache_t \<Rightarrow> cache_t \<Rightarrow> bool" where
  "same_prefetch cp cp' \<longleftrightarrow> rpt cp' = rpt cp \<and> miss_queue cp' = miss_queue cp \<and>
     miss_queue_size cp' = miss_queue_size cp \<and> miss_queue_head cp' = miss_queue_head cp"

definition hit_done :: "mem_cmd \<Rightarrow> md_addr \<Rightarrow> bool \<Rightarrow> nat \<Rightarrow> cache_t \<Rightarrow> cache_t \<Rightarrow> bool" where
  "hit_done cmd a pf b cp cp' \<longleftrightarrow> cache_inv cp' \<and> same_geom cp cp' \<and> same_prefetch cp cp' \<and>
     counts cp' = counted cmd pf True (counts cp) \<and>
     ln cp' = (ln cp)(b := (CACHE_TAG cp a, True, snd (snd (ln cp b)) \<or> cmd = Write)) \<and>
     (\<forall>j < nsets cp. ways cp' j =
        (if j = set_index cp a then touched (policy cp) b (ways cp j) else ways cp j))"

lemma hd_placed: "xs \<noteq> [] \<Longrightarrow> hd xs = b \<Longrightarrow> b # remove1 b xs = xs"
  by (cases xs) simp_all

lemma ways_nonempty:
  assumes "lists_ok R cp" and "k < nsets cp" and "b \<in> set_blks cp k" shows "ways cp k \<noteq> []"
  using ways_ok(2) [OF assms(1,2)] assms(3) by auto

lemma way_prev_head:
  assumes ok: "lists_ok R cp" and k: "k < nsets cp" and b: "b \<in> set_blks cp k"
    and p: "way_prev (data cp ! b) = None"
  shows "hd (ways cp k) = b"
proof -
  note w = ways_ok [OF ok k]
  have "b \<in> set (ways cp k)" using w(2) b by simp
  then obtain us vs where xs: "ways cp k = us @ b # vs" by (meson split_list)
  have "dll (nextf (data cp)) (prevf (data cp)) (way_head (sets cp ! k)) (way_tail (sets cp ! k)) (us @ b # vs)"
    using w(1) by (simp add: way_list_def xs)
  from dll_links(2) [OF this] p have "us = []" by (auto split: if_splits)
  then show ?thesis by (simp add: xs)
qed

lemma count_hit_parts: "same_core cp (count_hit cmd pf cp)" "same_prefetch cp (count_hit cmd pf cp)"
  using count_hit_quiet [of cp cmd pf] by (simp_all add: quiet_def same_prefetch_def count_hit_def Let_def)

lemma same_core_geom: "same_core cp cp' \<Longrightarrow> same_geom cp cp'"
  by (simp only: same_core_def)

lemma policy_cong: "same_geom cp cp' \<Longrightarrow> policy cp' = policy cp"
  by (simp only: same_geom_def)

text \<open>The counters and the dirty bit.\<close>

lemma hit_dirty:
  assumes inv: "cache_inv cp" and b: "b \<in> set_blks cp (set_index cp a)" and h: "holds cp (CACHE_TAG cp a) b"
  obtains cp2 where "mark_dirty cmd b (count_hit cmd pf cp) = Inr cp2" and "same_geom cp cp2"
    and "lists_ok {} cp2" and "same_prefetch cp cp2" and "counts cp2 = counted cmd pf True (counts cp)"
    and "ln cp2 = (ln cp)(b := (CACHE_TAG cp a, True, snd (snd (ln cp b)) \<or> cmd = Write))"
    and "ways cp2 = ways cp"
proof -
  define k where "k = set_index cp a"
  note I = cache_invD [OF inv]
  have k: "k < nsets cp" unfolding k_def by (rule set_index_less [OF I(2)])
  define cp1 where "cp1 = count_hit cmd pf cp"
  note c1 = count_hit_parts [of cp cmd pf, folded cp1_def]
  note g1 = same_core_geom [OF c1(1)]
  have d1: "data cp1 = data cp" using c1(1) by (simp only: same_core_def)
  have b1: "b < length (data cp1)" using set_blks_less [OF I(2) k] b by (simp add: d1 k_def)
  have l1: "lists_ok {} cp1" using lists_ok_core [OF c1(1)] I(3) by simp
  obtain cp2 where cp2: "mark_dirty cmd b cp1 = Inr cp2" "core_only cp1 cp2" "lists_ok {} cp2"
    "ln cp2 = (ln cp1)(b := (tag (data cp1 ! b), is_valid (data cp1 ! b), is_dirty (data cp1 ! b) \<or> cmd = Write))"
    "ways cp2 = ways cp1"
    by (rule mark_dirty_block [OF l1 b1])
  have "tag (data cp ! b) = CACHE_TAG cp a" "is_valid (data cp ! b)" using h by (simp_all add: holds_def)
  then have "ln cp2 = (ln cp)(b := (CACHE_TAG cp a, True, snd (snd (ln cp b)) \<or> cmd = Write))"
    using cp2(4) by (simp add: ln_core [OF c1(1)] d1) (simp add: ln_def)
  moreover have "counts cp2 = counted cmd pf True (counts cp)"
    using counts_core [OF cp2(2)] count_hit_counts by (simp add: cp1_def)
  moreover have "same_prefetch cp cp2" using c1(2) core_only_fields [OF cp2(2)] by (simp add: same_prefetch_def)
  moreover have "same_geom cp cp2" by (rule same_geom_trans [OF g1 core_only_geom [OF cp2(2)]])
  moreover have "ways cp2 = ways cp" using cp2(5) ways_core [OF c1(1)] by simp
  ultimately show thesis using cp2(1,3) by (intro that [of cp2]) (simp_all add: cp1_def)
qed

text \<open>The new last hit.\<close>

lemma hit_last:
  assumes inv: "cache_inv cp" and b: "b \<in> set_blks cp (set_index cp a)" and h: "holds cp (CACHE_TAG cp a) b"
    and g: "same_geom cp cp3" and lists: "lists_ok {} cp3" and pf3: "same_prefetch cp cp3"
    and cnt: "counts cp3 = counted cmd pf True (counts cp)"
    and ln3: "ln cp3 = (ln cp)(b := (CACHE_TAG cp a, True, snd (snd (ln cp b)) \<or> cmd = Write))"
    and w3: "\<forall>j < nsets cp. ways cp3 j =
      (if j = set_index cp a then touched (policy cp) b (ways cp j) else ways cp j)"
  shows "hit_done cmd a pf b cp (with_last (CACHE_TAGSET cp3 a) (Some b) cp3)"
proof -
  let ?cp = "with_last (CACHE_TAGSET cp3 a) (Some b) cp3"
  note I = cache_invD [OF inv]
  note c = with_last_core [of cp3 "CACHE_TAGSET cp3 a" "Some b"]
  have hold: "holds cp3 = holds cp" using h by (auto simp: fun_eq_iff holds_ln ln3)
  have k: "set_index cp a < nsets cp" by (rule set_index_less [OF I(2)])
  have last: "last_hit a b cp3"
    unfolding last_hit_def set_index_cong [OF g] set_blks_cong [OF g] addr_cong(1) [OF g] hold policy_cong [OF g]
    using b h w3 k by (simp add: touched_def)
  have "rpt cp3 = rpt cp" "length (miss_queue cp3) = length (miss_queue cp)"
    using pf3 by (simp_all add: same_prefetch_def)
  then have p: "pf_ok cp3" using pf_ok_cong [OF g] I(6) by simp
  have "cache_inv ?cp"
    by (rule inv_with_last [OF g inv lists uniq_same [OF g hold I(4)] p]) (use last in blast)+
  moreover have "same_geom cp ?cp" by (rule same_geom_trans [OF g with_last_geom])
  moreover have "same_prefetch cp ?cp" using pf3 by (simp add: same_prefetch_def with_last_fields)
  ultimately show ?thesis
    using cnt ln3 w3 by (simp add: hit_done_def with_last_fields ln_core [OF c] ways_core [OF c])
qed

text \<open>The handlers: a state that satisfies \<^const>\<open>hit_done\<close>, then the prefetcher, then the latency.\<close>

definition then_prefetch :: "(md_addr \<Rightarrow> 'w mem \<Rightarrow> 'w mem res) \<Rightarrow> bool \<Rightarrow> md_addr \<Rightarrow> 'w mem \<Rightarrow> 'w mem res" where
  "then_prefetch gen pf a m = (if \<not> pf then gen a m else Inr m)"

lemma fast_hit_step:
  assumes inv: "cache_inv cp" and fast: "CACHE_TAGSET cp a = last_tagset cp" and lb: "last_blk cp = Some b"
  obtains cp' where "hit_done cmd a pf b cp cp'"
    and "fast_hit gen cmd a now pf (last_blk cp) (cp, w) =
      res_bind (then_prefetch gen pf a (cp', w)) (\<lambda>(cp4, w1). res_bind (hit_lat b now cp4) (\<lambda>lat. Inr (lat, 0, cp4, w1)))"
proof -
  note I = cache_invD [OF inv]
  have s: "find_blk (CACHE_SET cp a) (CACHE_TAG cp a) cp = Inr (Some b)" by (rule fast_path [OF I(1) fast lb])
  have b: "b \<in> set_blks cp (set_index cp a)" "holds cp (CACHE_TAG cp a) b"
    using s unfolding find_blk_eq [OF I(1)] by simp_all
  have k: "set_index cp a < nsets cp" by (rule set_index_less [OF I(2)])
  have same: "set_index cp (last_tagset cp) = set_index cp a"
    using tagset_parts(2) [OF I(2), of a] by (simp add: set_index_def flip: fast)
  have hd: "policy cp = LRU \<Longrightarrow> touched LRU b (ways cp (set_index cp a)) = ways cp (set_index cp a)"
    using I(7) lb hd_placed [OF ways_nonempty [OF I(3) k b(1)]] by (simp add: mru_ok_def same touched_def)
  obtain cp2 where cp2: "mark_dirty cmd b (count_hit cmd pf cp) = Inr cp2" "same_geom cp cp2"
    "lists_ok {} cp2" "same_prefetch cp cp2" "counts cp2 = counted cmd pf True (counts cp)"
    "ln cp2 = (ln cp)(b := (CACHE_TAG cp a, True, snd (snd (ln cp b)) \<or> cmd = Write))"
    "ways cp2 = ways cp"
    by (rule hit_dirty [OF inv b])
  have "\<forall>j < nsets cp. ways cp2 j =
      (if j = set_index cp a then touched (policy cp) b (ways cp j) else ways cp j)"
    using hd by (simp add: cp2(7) touched_def)
  then have "hit_done cmd a pf b cp (with_last (CACHE_TAGSET cp2 a) (Some b) cp2)"
    by (rule hit_last [OF inv b cp2(2-6)])
  then show thesis
    by (rule that) (simp add: fast_hit_def Let_def lb cp2(1) with_last_def then_prefetch_def)
qed

lemma slow_hit_step:
  assumes inv: "cache_inv cp" and b: "b \<in> set_blks cp (set_index cp a)" and h: "holds cp (CACHE_TAG cp a) b"
  obtains cp' where "hit_done cmd a pf b cp cp'"
    and "slow_hit gen cmd a now pf b (cp, w) =
      res_bind (then_prefetch gen pf a (cp', w)) (\<lambda>(cp4, w1). res_bind (hit_lat b now cp4) (\<lambda>lat. Inr (lat, 0, cp4, w1)))"
proof -
  note I = cache_invD [OF inv]
  define k where "k = set_index cp a"
  have k: "k < nsets cp" unfolding k_def by (rule set_index_less [OF I(2)])
  obtain cp2 where cp2: "mark_dirty cmd b (count_hit cmd pf cp) = Inr cp2" "same_geom cp cp2"
    "lists_ok {} cp2" "same_prefetch cp cp2" "counts cp2 = counted cmd pf True (counts cp)"
    "ln cp2 = (ln cp)(b := (CACHE_TAG cp a, True, snd (snd (ln cp b)) \<or> cmd = Write))"
    "ways cp2 = ways cp"
    by (rule hit_dirty [OF inv b h])
  note g = cp2(2)
  have sb: "set_blks cp2 = set_blks cp" and ns: "nsets cp2 = nsets cp"
    using set_blks_cong [OF g] nsets_cong [OF g] by simp_all
  have b2: "b \<in> set_blks cp2 k" "k < nsets cp2" using b k by (simp_all add: sb ns k_def)
  have bl: "b < length (data cp2)"
    using set_blks_less [OF _ b2(2,1)] geom_cong [OF g] I(2) by simp
  have kk: "unat (CACHE_SET cp2 a) = k" by (simp add: addr_cong(2) [OF g] k_def set_index_def)
  have "\<exists>cp3. (if way_prev (data cp2 ! b) \<noteq> None \<and> policy cp2 = LRU then update_way_list k b Head cp2 else Inr cp2) = Inr cp3 \<and>
      hit_done cmd a pf b cp (with_last (CACHE_TAGSET cp3 a) (Some b) cp3)"
  proof (cases "way_prev (data cp2 ! b) \<noteq> None \<and> policy cp2 = LRU")
    case False
    have "policy cp = LRU \<Longrightarrow> hd (ways cp k) = b"
      using False way_prev_head [OF cp2(3) b2(2,1)] policy_cong [OF g] by (simp add: cp2(7))
    then have "policy cp = LRU \<Longrightarrow> touched LRU b (ways cp k) = ways cp k"
      using hd_placed [OF ways_nonempty [OF I(3) k, of b]] b by (simp add: touched_def k_def)
    then have "\<forall>j < nsets cp. ways cp2 j =
        (if j = set_index cp a then touched (policy cp) b (ways cp j) else ways cp j)"
      by (simp add: cp2(7) touched_def k_def)
    then have "hit_done cmd a pf b cp (with_last (CACHE_TAGSET cp2 a) (Some b) cp2)"
      by (rule hit_last [OF inv b h cp2(2-6)])
    then show ?thesis using False by auto
  next
    case True
    obtain cp3 where cp3: "update_way_list k b Head cp2 = Inr cp3" "core_only cp2 cp3" "lists_ok {} cp3"
      "ln cp3 = ln cp2" "ways cp3 k = placed Head b (ways cp2 k)"
      "\<And>j. j < nsets cp2 \<Longrightarrow> j \<noteq> k \<Longrightarrow> ways cp3 j = ways cp2 j"
      by (rule move_block [OF cp2(3) b2(2,1), where loc = Head]) blast
    have pol: "policy cp = LRU" using True policy_cong [OF g] by simp
    have w: "\<forall>j < nsets cp. ways cp3 j =
        (if j = set_index cp a then touched (policy cp) b (ways cp j) else ways cp j)"
      using cp3(5,6) ns by (simp add: cp2(7) touched_def pol placed_def k_def)
    have g3: "same_geom cp cp3" by (rule same_geom_trans [OF g core_only_geom [OF cp3(2)]])
    have p3: "same_prefetch cp cp3" using cp2(4) core_only_fields [OF cp3(2)] by (simp add: same_prefetch_def)
    have "hit_done cmd a pf b cp (with_last (CACHE_TAGSET cp3 a) (Some b) cp3)"
      by (rule hit_last [OF inv b h g3 cp3(3) p3 _ _ w])
        (use cp2(5,6) cp3(4) counts_core [OF cp3(2)] in simp_all)
    then show ?thesis using True cp3(1) by auto
  qed
  then obtain cp3 where cp3: "(if way_prev (data cp2 ! b) \<noteq> None \<and> policy cp2 = LRU then update_way_list k b Head cp2 else Inr cp2) = Inr cp3"
    "hit_done cmd a pf b cp (with_last (CACHE_TAGSET cp3 a) (Some b) cp3)" by blast
  have "(policy cp2 = LRU \<and> way_prev (data cp2 ! b) = Some p \<longrightarrow> update_way_list k b Head cp2 = Inr cp3) \<and>
      (way_prev (data cp2 ! b) = None \<or> policy cp2 \<noteq> LRU \<longrightarrow> cp3 = cp2)" for p
    using cp3(1) by auto
  then show thesis
    by (intro that [OF cp3(2)])
      (cases "way_prev (data cp2 ! b)"; cases "policy cp2 = LRU";
        simp add: slow_hit_def Let_def cp2(1) blk_at_def bl kk with_last_def then_prefetch_def)
qed

section \<open>Misses\<close>

text \<open>Changes that keep the geometry, the counters of accesses and the prefetcher.\<close>

definition calm :: "cache_t \<Rightarrow> cache_t \<Rightarrow> bool" where
  "calm cp cp' \<longleftrightarrow> same_geom cp cp' \<and> rpt cp' = rpt cp \<and> length (miss_queue cp') = length (miss_queue cp) \<and>
     counts cp' = counts cp"

lemma calm_trans: "calm a b \<Longrightarrow> calm b c \<Longrightarrow> calm a c"
  unfolding calm_def using same_geom_trans by auto

lemma calm_core: "core_only cp cp' \<Longrightarrow> calm cp cp'"
  using core_only_geom counts_core core_only_fields by (simp add: calm_def)

lemma calm_with_last: "calm cp (with_last ltag lb cp)"
  using with_last_geom by (simp add: calm_def with_last_fields)

lemma core_last: "core_only cp cp' \<Longrightarrow> last_tagset cp' = last_tagset cp \<and> last_blk cp' = last_blk cp"
  by (simp add: core_only_fields)

text \<open>The counters of a miss, and the miss queue.\<close>

definition miss_counted :: "mem_cmd \<Rightarrow> bool \<Rightarrow> cache_t \<Rightarrow> cache_t" where
  "miss_counted cmd pf cp =
     (if pf then cp\<lparr>prefetch_misses := prefetch_misses cp + 1\<rparr>
      else if cmd = Read then cp\<lparr>misses := misses cp + 1, read_misses := read_misses cp + 1\<rparr>
      else cp\<lparr>misses := misses cp + 1\<rparr>)"

lemma count_miss_eq: "count_miss cmd a pf cp =
    (if \<not> pf \<and> prefetch_type cp = 2 then miss_queue_insert a (miss_counted cmd pf cp) else Inr (miss_counted cmd pf cp))"
  by (simp add: count_miss_def miss_counted_def Let_def)

lemma miss_counted_quiet: "quiet cp (miss_counted cmd pf cp)"
  by (simp add: miss_counted_def quiet_def same_core_def same_geom_def)

lemma miss_counted_counts: "counts (miss_counted cmd pf cp) = counted cmd pf False (counts cp)"
  by (simp add: miss_counted_def counts_def counted_def)

lemma quiet_trans: "quiet a b \<Longrightarrow> quiet b c \<Longrightarrow> quiet a c"
  unfolding quiet_def using same_core_trans by auto

lemma miss_queue_insert_ok:
  assumes a: "a \<noteq> 0" and t: "prefetch_type cp = 2" and l: "length (miss_queue cp) = MISS_QUEUE_MAX_SIZE"
  obtains cp' where "miss_queue_insert a cp = Inr cp'" and "quiet cp cp'" and "counts cp' = counts cp"
proof -
  define h where "h = (if miss_queue_size cp = MISS_QUEUE_MAX_SIZE then miss_queue_head cp + 1 else miss_queue_head cp)"
  define i where "i = (h + miss_queue_size cp) mod MISS_QUEUE_MAX_SIZE"
  have i: "i < length (miss_queue cp)" unfolding l i_def by (rule mod_less_divisor) (simp add: MISS_QUEUE_MAX_SIZE_def)
  define n where "n = (if miss_queue_size cp < MISS_QUEUE_MAX_SIZE then miss_queue_size cp + 1 else miss_queue_size cp)"
  let ?cp = "cp\<lparr>miss_queue := (miss_queue cp)[i := a], miss_queue_size := n, miss_queue_head := h\<rparr>"
  have "miss_queue_insert a cp = Inr ?cp"
    using a t i unfolding miss_queue_insert_def Let_def
    by (cases "miss_queue_size cp = MISS_QUEUE_MAX_SIZE"; cases "miss_queue_size cp < MISS_QUEUE_MAX_SIZE")
      (simp_all add: h_def i_def n_def)
  moreover have "quiet cp ?cp" by (simp add: quiet_def same_core_def same_geom_def)
  moreover have "counts ?cp = counts cp" by (simp add: counts_def)
  ultimately show thesis by (rule that)
qed

lemma count_miss_ok:
  assumes p: "pf_ok cp" and a: "pf \<or> prefetch_type cp \<noteq> 2 \<or> a \<noteq> 0"
  obtains cp' where "count_miss cmd a pf cp = Inr cp'" and "quiet cp cp'"
    and "counts cp' = counted cmd pf False (counts cp)"
proof (cases "\<not> pf \<and> prefetch_type cp = 2")
  case False
  then show thesis
    by (intro that [of "miss_counted cmd pf cp"]) (auto simp: count_miss_eq miss_counted_quiet miss_counted_counts)
next
  case True
  note q = miss_counted_quiet [of cp cmd pf]
  have "prefetch_type (miss_counted cmd pf cp) = 2" using quiet_geom [OF q] True by (simp add: same_geom_def)
  moreover have "length (miss_queue (miss_counted cmd pf cp)) = MISS_QUEUE_MAX_SIZE"
    using q p True by (simp add: quiet_def pf_ok_def)
  moreover have "a \<noteq> 0" using a True by simp
  ultimately obtain cp' where "miss_queue_insert a (miss_counted cmd pf cp) = Inr cp'"
    "quiet (miss_counted cmd pf cp) cp'" "counts cp' = counts (miss_counted cmd pf cp)"
    using miss_queue_insert_ok [of a "miss_counted cmd pf cp"] by blast
  then show thesis using True quiet_trans [OF q] by (intro that [of cp']) (simp_all add: count_miss_eq miss_counted_counts)
qed

lemma count_miss_zero: "\<not> pf \<Longrightarrow> prefetch_type cp = 2 \<Longrightarrow> count_miss cmd 0 pf cp = Inl AssertFailed"
  by (simp add: count_miss_def miss_queue_insert_def)

text \<open>The replaced block, and the order of the set with it.\<close>

definition evict_order :: "cache_policy \<Rightarrow> nat list \<Rightarrow> nat list" where
  "evict_order pol xs = (if pol = Random then xs else last xs # butlast xs)"

lemma last_placed: "distinct xs \<Longrightarrow> xs \<noteq> [] \<Longrightarrow> last xs # remove1 (last xs) xs = last xs # butlast xs"
proof -
  assume "distinct xs" "xs \<noteq> []"
  then obtain ys y where "xs = ys @ [y]" "y \<notin> set ys" by (cases xs rule: rev_cases) auto
  then show ?thesis by (simp add: remove1_append)
qed

lemma random_way:
  assumes "geom cp" shows "unat ((of_nat r :: u32) AND (of_nat (assoc cp) - 1)) < assoc cp"
proof -
  obtain la where la: "la < 31" "assoc cp = 2 ^ la" using assms by (auto simp: geom_def)
  have "(of_nat (assoc cp) - 1 :: u32) = mask la" by (simp add: la mask_eq_exp_minus_1)
  moreover have "unat ((of_nat r :: u32) AND mask la) < 2 ^ la" by (simp add: unat_and_mask)
  ultimately show ?thesis by (simp add: la)
qed

lemma select_repl_ok:
  assumes g: "geom cp" and ok: "lists_ok {} cp" and k: "k < nsets cp"
  obtains r cp' where
    "select_repl env k (cp, w) = Inr (r, cp', if policy cp = Random then snd (myrand env w) else w)"
    and "r \<in> set_blks cp k" and "policy cp \<noteq> Random \<Longrightarrow> r = last (ways cp k)"
    and "core_only cp cp'" and "lists_ok {} cp'" and "ln cp' = ln cp"
    and "\<forall>j < nsets cp. ways cp' j = (if j = k then evict_order (policy cp) (ways cp j) else ways cp j)"
proof (cases "policy cp = Random")
  case True
  have st: "vec_get (sets cp) k = Inr (sets cp ! k)" using k geomD(6) [OF g] by simp
  obtain n w' where n: "myrand env w = (n, w')" by (cases "myrand env w")
  have b: "blks (sets cp ! k) = k * assoc cp" using ok k by (simp add: lists_ok_def)
  define u where "u = unat ((of_nat n :: u32) AND (of_nat (assoc cp) - 1))"
  have u: "u < assoc cp" unfolding u_def by (rule random_way [OF g])
  have "select_repl env k (cp, w) = Inr (k * assoc cp + u, cp, w')"
    by (simp add: select_repl_def st n b True flip: u_def)
  then show thesis
    by (intro that [of "k * assoc cp + u" cp])
      (use True u ok in \<open>simp_all add: n set_blks_def core_only_refl evict_order_def\<close>)
next
  case False
  have st: "vec_get (sets cp) k = Inr (sets cp ! k)" using k geomD(6) [OF g] by simp
  note w = ways_ok [OF ok k]
  have "k * assoc cp \<in> set_blks cp k" using geomD(2) [OF g] by (simp add: set_blks_def)
  then have ne: "ways cp k \<noteq> []" by (rule ways_nonempty [OF ok k])
  then have t: "way_tail (sets cp ! k) = Some (last (ways cp k))"
    using w(1) dll_ends(2) unfolding way_list_def by blast
  have r: "last (ways cp k) \<in> set_blks cp k" using last_in_set [OF ne] unfolding w(2) .
  obtain cp3 where cp3: "update_way_list k (last (ways cp k)) Head cp = Inr cp3" "core_only cp cp3" "lists_ok {} cp3"
    "ln cp3 = ln cp" "ways cp3 k = placed Head (last (ways cp k)) (ways cp k)"
    "\<And>j. j < nsets cp \<Longrightarrow> j \<noteq> k \<Longrightarrow> ways cp3 j = ways cp j"
    by (rule move_block [OF ok k r, where loc = Head]) blast
  have "select_repl env k (cp, w) = Inr (last (ways cp k), cp3, w)"
    using False by (cases "policy cp") (simp_all add: select_repl_def st t cp3(1))
  moreover have "\<forall>j < nsets cp. ways cp3 j = (if j = k then evict_order (policy cp) (ways cp j) else ways cp j)"
    using cp3(5,6) False last_placed [OF w(3) ne] by (simp add: evict_order_def placed_def)
  ultimately show thesis using False r cp3(2-4) by (intro that [of "last (ways cp k)" cp3]) simp_all
qed

text \<open>
  What the cache asks of the next level, in order, and what it can hear: \<open>served\<close> says that the requests
  were answered one after the other, \<open>handler_fails\<close> that one of them, now or later, failed.
\<close>

inductive served :: "'w env \<Rightarrow> nat \<Rightarrow> (mem_cmd \<times> md_addr) list \<Rightarrow> 'w \<Rightarrow> 'w \<Rightarrow> bool" for env n where
  served_Nil: "served env n [] w w"
| served_Cons: "blk_access_fn env c a n t pf w = Inr (l, w1) \<Longrightarrow> served env n rs w1 w2 \<Longrightarrow>
    served env n ((c, a) # rs) w w2"

inductive_cases served_NilE: "served env n [] w w'"
inductive_cases served_ConsE: "served env n (r # rs) w w'"

lemma served_append: "served env n xs w w1 \<Longrightarrow> served env n ys w1 w2 \<Longrightarrow> served env n (xs @ ys) w w2"
  by (induction rule: served.induct) (auto intro: served.intros)

lemma served_one: "blk_access_fn env c a n t pf w = Inr (l, w1) \<Longrightarrow> served env n [(c, a)] w w1"
  by (auto intro: served.intros)

text \<open>The states the next level can be in later: requests were answered, random numbers drawn.\<close>

inductive later :: "'w env \<Rightarrow> 'w \<Rightarrow> 'w \<Rightarrow> bool" for env w where
  later_refl: "later env w w"
| later_answer: "later env w w1 \<Longrightarrow> blk_access_fn env c a n t pf w1 = Inr (l, w2) \<Longrightarrow> later env w w2"
| later_random: "later env w w1 \<Longrightarrow> later env w (snd (myrand env w1))"

lemma later_trans: "later env w1 w2 \<Longrightarrow> later env w w1 \<Longrightarrow> later env w w2"
  by (induction rule: later.induct) (auto intro: later_answer later_random)

lemma served_later: "served env n rs w w' \<Longrightarrow> later env w w'"
  by (induction rule: served.induct) (blast intro: later.intros later_trans)+

definition handler_fails :: "'w env \<Rightarrow> 'w \<Rightarrow> gem5_error \<Rightarrow> bool" where
  "handler_fails env w e \<longleftrightarrow> (\<exists>w1. later env w w1 \<and> (\<exists>c a n t pf. blk_access_fn env c a n t pf w1 = Inl e))"

lemma handler_failsI: "blk_access_fn env c a n t pf w = Inl e \<Longrightarrow> handler_fails env w e"
  unfolding handler_fails_def by (intro exI conjI) (rule later_refl, assumption)

lemma handler_fails_later: "handler_fails env w1 e \<Longrightarrow> later env w w1 \<Longrightarrow> handler_fails env w e"
  unfolding handler_fails_def by (elim exE conjE, intro exI conjI) (rule later_trans, assumption+)

text \<open>Writing the replaced block back.\<close>

definition wb_req :: "cache_t \<Rightarrow> nat \<Rightarrow> line \<Rightarrow> (mem_cmd \<times> md_addr) list" where
  "wb_req cp k l = (case l of (tg, v, d) \<Rightarrow>
     if v \<and> d then [(Write, CACHE_MK_BADDR cp tg (of_nat k))] else [])"

lemma write_back_ok:
  assumes r: "r < length (data cp)"
  shows "(\<exists>e. write_back env (of_nat k) r now (cp, w) = Inl e \<and> handler_fails env w e) \<or>
    (\<exists>lat ra cp' w'. write_back env (of_nat k) r now (cp, w) = Inr (lat, ra, cp', w') \<and> quiet cp cp' \<and>
       counts cp' = counts cp \<and> served env (bsize cp) (wb_req cp k (ln cp r)) w w')"
proof -
  define b where "b = data cp ! r"
  have at: "blk_at cp (Some r) = Inr b" using r by (simp add: blk_at_def b_def)
  have l: "ln cp r = (tag b, is_valid b, is_dirty b)" by (simp add: ln_def b_def)
  define lat2 where "lat2 = (let lat1 = BOUND_POS (ready b - now) in lat1 + BOUND_POS (bus_free cp - (now + lat1)))"
  define cp2 where "cp2 = cp\<lparr>replacements := replacements cp + 1, bus_free := max (bus_free cp) (now + lat2) + 1\<rparr>"
  have q: "quiet cp cp2" "quiet cp (cp2\<lparr>writebacks := writebacks cp2 + 1\<rparr>)"
    by (simp_all add: quiet_def same_core_def same_geom_def cp2_def)
  have c: "counts cp2 = counts cp" "counts (cp2\<lparr>writebacks := writebacks cp2 + 1\<rparr>) = counts cp"
    by (simp_all add: counts_def cp2_def)
  define ra where "ra = CACHE_MK_BADDR cp (tag b) (of_nat k)"
  have wb: "write_back env (of_nat k) r now (cp, w) =
    (if is_valid b then
       if is_dirty b then
         res_bind (blk_access_fn env Write ra (bsize cp) (now + lat2) False w) (\<lambda>(l, w1).
           Inr (lat2 + l, ra, cp2\<lparr>writebacks := writebacks cp2 + 1\<rparr>, w1))
       else Inr (lat2, ra, cp2, w)
     else Inr (0, 0, cp, w))"
    unfolding write_back_def Let_def prod.case at res_bind_simps by (simp add: lat2_def cp2_def ra_def Let_def)
  show ?thesis
  proof (cases "is_valid b \<and> is_dirty b")
    case False
    then have "wb_req cp k (ln cp r) = []" by (auto simp: wb_req_def l)
    moreover have "\<exists>lat ra cp'. write_back env (of_nat k) r now (cp, w) = Inr (lat, ra, cp', w) \<and> quiet cp cp' \<and> counts cp' = counts cp"
    proof (cases "is_valid b")
      case True
      then show ?thesis using False q(1) c(1) by (auto simp: wb)
    next
      case nv: False
      have "quiet cp cp" by (simp add: quiet_def same_core_refl)
      then show ?thesis using nv by (auto simp: wb)
    qed
    ultimately show ?thesis using served_Nil by metis
  next
    case True
    have req: "wb_req cp k (ln cp r) = [(Write, ra)]" using True by (simp add: wb_req_def l ra_def)
    show ?thesis
    proof (cases "blk_access_fn env Write ra (bsize cp) (now + lat2) False w")
      case (Inl e)
      then show ?thesis using True handler_failsI [OF Inl] by (simp add: wb)
    next
      case (Inr lw)
      obtain l w1 where lw: "lw = (l, w1)" by (cases lw)
      show ?thesis
        using True Inr q(2) c(2) served_one [OF Inr [unfolded lw]] by (auto simp: wb lw req)
    qed
  qed
qed

text \<open>The state after a miss.\<close>

definition miss_done :: "mem_cmd \<Rightarrow> md_addr \<Rightarrow> bool \<Rightarrow> nat \<Rightarrow> cache_t \<Rightarrow> cache_t \<Rightarrow> bool" where
  "miss_done cmd a pf r cp cp' \<longleftrightarrow> cache_inv cp' \<and> same_geom cp cp' \<and> rpt cp' = rpt cp \<and>
     counts cp' = counted cmd pf False (counts cp) \<and>
     r \<in> set_blks cp (set_index cp a) \<and> (policy cp \<noteq> Random \<longrightarrow> r = last (ways cp (set_index cp a))) \<and>
     ln cp' = (ln cp)(r := (CACHE_TAG cp a, True, cmd = Write)) \<and>
     (\<forall>j < nsets cp. ways cp' j =
        (if j = set_index cp a then evict_order (policy cp) (ways cp j) else ways cp j))"

text \<open>Filling a block with a tag the set does not hold.\<close>

lemma uniq_fill:
  assumes u: "uniq cp k" and np: "\<forall>x \<in> set_blks cp j. \<not> holds cp tg x" and r: "r \<in> set_blks cp j"
    and g: "same_geom cp cp'" and l: "ln cp' = (ln cp)(r := (tg, True, d))"
  shows "uniq cp' k"
proof -
  have h: "holds cp' t x \<longleftrightarrow> (if x = r then t = tg else holds cp t x)" for t x
    by (auto simp: holds_ln l)
  show ?thesis
    unfolding uniq_def set_blks_cong [OF g] h
  proof (intro ballI allI impI)
    fix x y t assume xy: "x \<in> set_blks cp k" "y \<in> set_blks cp k"
      and hx: "if x = r then t = tg else holds cp t x" and hy: "if y = r then t = tg else holds cp t y"
    show "x = y"
    proof (cases "x = r \<or> y = r")
      case True
      then have "j = k" using xy r set_blks_disjoint by blast
      then show ?thesis using True hx hy np xy by (auto split: if_splits)
    next
      case False
      then show ?thesis using hx hy xy uniqD [OF u] by auto
    qed
  qed
qed

text \<open>A miss in two parts: making room, and filling the block.\<close>

definition make_room :: "'w env \<Rightarrow> md_addr \<Rightarrow> int \<Rightarrow> 'w mem \<Rightarrow> (nat \<times> int \<times> md_addr \<times> 'w mem) res" where
  "make_room env k now m =
     res_bind (select_repl env (unat k) m) (\<lambda>(repl, cp2, w2).
     res_bind (if hsize cp2 \<noteq> 0 then unlink_htab_ent (unat k) repl cp2 else Inr cp2) (\<lambda>cp3.
     res_bind (write_back env k repl now (with_last 0 None cp3, w2)) (\<lambda>(lat, repl_addr, m4).
     Inr (repl, lat, repl_addr, m4))))"

definition fill :: "'w env \<Rightarrow> mem_cmd \<Rightarrow> md_addr \<Rightarrow> bool \<Rightarrow> md_addr \<Rightarrow> md_addr \<Rightarrow> nat \<Rightarrow> int \<Rightarrow> 'w mem \<Rightarrow> (int \<times> 'w mem) res" where
  "fill env cmd addr pf tg k repl now' = (\<lambda>(cp4, w4).
     res_bind (upd_blk (Some repl) (\<lambda>b. b\<lparr>tag := tg, status := CACHE_BLK_VALID\<rparr>) cp4) (\<lambda>cp5.
     res_bind (blk_access_fn env Read (CACHE_BADDR cp5 addr) (bsize cp5) now' pf w4) (\<lambda>(l, w5).
     res_bind (mark_dirty cmd repl cp5) (\<lambda>cp6.
     res_bind (upd_blk (Some repl) (\<lambda>b. b\<lparr>ready := now' + l\<rparr>) cp6) (\<lambda>cp7.
     res_bind (if hsize cp7 \<noteq> 0 then link_htab_ent (unat k) repl cp7 else Inr cp7) (\<lambda>cp8.
     Inr (l, cp8, w5)))))))"

lemma res_bind_assoc: "res_bind (res_bind m f) g = res_bind m (\<lambda>x. res_bind (f x) g)"
  by (cases m) simp_all

lemma res_bind_prod: "(\<lambda>p. case p of (x, y) \<Rightarrow> res_bind (f x y) g) = (\<lambda>p. res_bind (case p of (x, y) \<Rightarrow> f x y) g)"
  by (simp add: fun_eq_iff split: prod.split)

lemma cache_miss_split:
  "cache_miss gen env cmd a now pf (cp, w) =
     res_bind (count_miss cmd a pf cp) (\<lambda>cp1.
     res_bind (make_room env (CACHE_SET cp a) now (cp1, w)) (\<lambda>(repl, lat, repl_addr, m4).
     res_bind (fill env cmd a pf (CACHE_TAG cp a) (CACHE_SET cp a) repl (now + lat) m4) (\<lambda>(l, m8).
     res_bind (then_prefetch gen pf a m8) (\<lambda>m. Inr (lat + l, repl_addr, m)))))"
proof -
  show ?thesis
    unfolding cache_miss_def make_room_def fill_def then_prefetch_def with_last_def
    by (simp add: Let_def res_bind_assoc split_def cong: if_cong)
qed

lemma make_room_ok:
  assumes g: "geom cp" and ok: "lists_ok {} cp" and k: "unat k < nsets cp"
  shows "(\<exists>e. make_room env k now (cp, w) = Inl e \<and> handler_fails env w e) \<or>
    (\<exists>r lat ra cp' w'. make_room env k now (cp, w) = Inr (r, lat, ra, cp', w') \<and> calm cp cp' \<and>
       r \<in> set_blks cp (unat k) \<and> (policy cp \<noteq> Random \<longrightarrow> r = last (ways cp (unat k))) \<and>
       last_tagset cp' = 0 \<and> last_blk cp' = None \<and> lists_ok {r} cp' \<and> ln cp' = ln cp \<and>
       (\<forall>j < nsets cp. ways cp' j = (if j = unat k then evict_order (policy cp) (ways cp j) else ways cp j)) \<and>
       served env (bsize cp) (wb_req cp (unat k) (ln cp r))
         (if policy cp = Random then snd (myrand env w) else w) w')"
proof -
  define w1 where "w1 = (if policy cp = Random then snd (myrand env w) else w)"
  have lw: "later env w w1" unfolding w1_def by (simp add: later_refl later_random)
  obtain r cp2 where cp2: "select_repl env (unat k) (cp, w) = Inr (r, cp2, w1)"
    "r \<in> set_blks cp (unat k)" "policy cp \<noteq> Random \<Longrightarrow> r = last (ways cp (unat k))"
    "core_only cp cp2" "lists_ok {} cp2" "ln cp2 = ln cp"
    "\<forall>j < nsets cp. ways cp2 j = (if j = unat k then evict_order (policy cp) (ways cp j) else ways cp j)"
    unfolding w1_def by (rule select_repl_ok [OF g ok k, of env w]) blast
  note g2 = core_only_geom [OF cp2(4)]
  have r2: "r \<in> set_blks cp2 (unat k)" using cp2(2) by (simp add: set_blks_cong [OF g2])
  have k2: "unat k < nsets cp2" using k by (simp add: nsets_cong [OF g2])
  have G2: "geom cp2" using geom_cong [OF g2] g by simp
  obtain cp3 where cp3: "(if hsize cp2 \<noteq> 0 then unlink_htab_ent (unat k) r cp2 else Inr cp2) = Inr cp3"
    "core_only cp2 cp3" "lists_ok {r} cp3" "ln cp3 = ln cp2" "ways cp3 = ways cp2"
    by (rule unlink_block [OF cp2(5) G2 k2 r2])
  define cp3' where "cp3' = with_last 0 None cp3"
  have c3: "same_core cp3 cp3'" unfolding cp3'_def by (rule with_last_core)
  have calm3: "calm cp cp3'"
    unfolding cp3'_def by (rule calm_trans [OF calm_trans [OF calm_core [OF cp2(4)] calm_core [OF cp3(2)]] calm_with_last])
  then have g3: "same_geom cp cp3'" by (simp add: calm_def)
  have ln3: "ln cp3' = ln cp" using ln_core [OF c3] cp3(4) cp2(6) by simp
  have rl: "r < length (data cp3')"
    using set_blks_less [OF g k cp2(2)] g3 by (simp add: same_geom_def)
  have mr: "make_room env k now (cp, w) =
      res_bind (write_back env k r now (cp3', w1)) (\<lambda>(lat, ra, m). Inr (r, lat, ra, m))"
    unfolding make_room_def cp2(1) res_bind_simps prod.case cp3(1) cp3'_def ..
  have wq: "wb_req cp3' (unat k) (ln cp3' r) = wb_req cp (unat k) (ln cp r)" and bs: "bsize cp3' = bsize cp"
    using g3 by (simp_all only: wb_req_def ln3 addr_cong(5) [OF g3] same_geom_def)
  from write_back_ok [OF rl, of env "unat k" now w1]
  show ?thesis
  proof (elim disjE exE conjE)
    fix e assume "write_back env (of_nat (unat k)) r now (cp3', w1) = Inl e" "handler_fails env w1 e"
    then show ?thesis using handler_fails_later [OF _ lw] by (simp add: mr)
  next
    fix lat ra cp4 w4
    assume wb: "write_back env (of_nat (unat k)) r now (cp3', w1) = Inr (lat, ra, cp4, w4)"
      and q: "quiet cp3' cp4" and c: "counts cp4 = counts cp3'"
      and s: "served env (bsize cp3') (wb_req cp3' (unat k) (ln cp3' r)) w1 w4"
    have c4: "same_core cp3' cp4" and f4: "last_tagset cp4 = 0" "last_blk cp4 = None"
      using q by (simp_all add: quiet_def cp3'_def with_last_fields)
    have "calm cp3' cp4" using q c quiet_geom [OF q] by (simp add: quiet_def calm_def)
    then have "calm cp cp4" by (rule calm_trans [OF calm3])
    moreover have "lists_ok {r} cp4" using cp3(3) lists_ok_core [OF c4] lists_ok_core [OF c3] by simp
    moreover have "ln cp4 = ln cp" "ways cp4 = ways cp2"
      using ln_core [OF c4] ln3 ways_core [OF c4] ways_core [OF c3] cp3(5) by simp_all
    ultimately show ?thesis using wb f4 cp2(2,3,7) s by (simp add: mr wq bs w1_def)
  qed
qed


lemma fill_ok:
  assumes g: "geom cp" and ok: "lists_ok {r} cp" and k: "unat k < nsets cp" and r: "r \<in> set_blks cp (unat k)"
  shows "(\<exists>e. fill env cmd a pf tg k r t (cp, w) = Inl e \<and> handler_fails env w e) \<or>
    (\<exists>l cp' w'. fill env cmd a pf tg k r t (cp, w) = Inr (l, cp', w') \<and> core_only cp cp' \<and> lists_ok {} cp' \<and>
       ln cp' = (ln cp)(r := (tg, True, cmd = Write)) \<and> ways cp' = ways cp \<and>
       served env (bsize cp) [(Read, CACHE_BADDR cp a)] w w')"
proof -
  have rl: "r < length (data cp)" by (rule set_blks_less [OF g k r])
  obtain cp5 where cp5: "upd_blk (Some r) (\<lambda>b. b\<lparr>tag := tg, status := CACHE_BLK_VALID\<rparr>) cp = Inr cp5"
    "core_only cp cp5" "lists_ok {r} cp5" "ln cp5 = (ln cp)(r := (tg, True, False))" "ways cp5 = ways cp"
    using update_block [OF ok rl, of "\<lambda>b. b\<lparr>tag := tg, status := CACHE_BLK_VALID\<rparr>"] by (auto simp: status_new)
  note g5 = core_only_geom [OF cp5(2)]
  have ba: "CACHE_BADDR cp5 a = CACHE_BADDR cp a" "bsize cp5 = bsize cp"
    using addr_cong(4) [OF g5] g5 by (simp_all add: same_geom_def)
  show ?thesis
  proof (cases "blk_access_fn env Read (CACHE_BADDR cp a) (bsize cp) t pf w")
    case (Inl e)
    then show ?thesis using handler_failsI [OF Inl] by (simp add: fill_def cp5(1) ba)
  next
    case (Inr lw)
    obtain l w5 where lw: "lw = (l, w5)" by (cases lw)
    have r5: "r < length (data cp5)" using rl cp5(2) by (simp add: core_only_def)
    obtain cp6 where cp6: "mark_dirty cmd r cp5 = Inr cp6" "core_only cp5 cp6" "lists_ok {r} cp6"
      "ln cp6 = (ln cp5)(r := (tag (data cp5 ! r), is_valid (data cp5 ! r), is_dirty (data cp5 ! r) \<or> cmd = Write))"
      "ways cp6 = ways cp5"
      by (rule mark_dirty_block [OF cp5(3) r5])
    have ln6: "ln cp6 = (ln cp)(r := (tg, True, cmd = Write))"
    proof -
      have "(tag (data cp5 ! r), is_valid (data cp5 ! r), is_dirty (data cp5 ! r)) = (tg, True, False)"
        using cp5(4) by (simp add: ln_def fun_eq_iff)
      then show ?thesis using cp6(4) cp5(4) by simp
    qed
    have r6: "r < length (data cp6)" using r5 cp6(2) by (simp add: core_only_def)
    obtain cp7 where cp7: "upd_blk (Some r) (\<lambda>b. b\<lparr>ready := t + l\<rparr>) cp6 = Inr cp7" "core_only cp6 cp7"
      "lists_ok {r} cp7" "ln cp7 = ln cp6" "ways cp7 = ways cp6"
    proof -
      obtain c where c: "upd_blk (Some r) (\<lambda>b. b\<lparr>ready := t + l\<rparr>) cp6 = Inr c" "core_only cp6 c" "lists_ok {r} c"
        "ln c = (ln cp6)(r := (tag (data cp6 ! r), is_valid (data cp6 ! r), is_dirty (data cp6 ! r)))" "ways c = ways cp6"
        using update_block [OF cp6(3) r6, of "\<lambda>b. b\<lparr>ready := t + l\<rparr>"] by (auto simp: is_valid_def is_dirty_def)
      have "ln c = ln cp6" using c(4) by (simp add: ln_def fun_eq_iff)
      then show thesis using c by (intro that)
    qed
    note c57 = core_only_trans [OF core_only_trans [OF cp5(2) cp6(2)] cp7(2)]
    note g7 = core_only_geom [OF c57]
    have G7: "geom cp7" "unat k < nsets cp7" "r \<in> set_blks cp7 (unat k)"
      using geom_cong [OF g7] nsets_cong [OF g7] set_blks_cong [OF g7] g k r by simp_all
    obtain cp8 where cp8: "(if hsize cp7 \<noteq> 0 then link_htab_ent (unat k) r cp7 else Inr cp7) = Inr cp8"
      "core_only cp7 cp8" "lists_ok {} cp8" "ln cp8 = ln cp7" "ways cp8 = ways cp7"
      by (rule link_block [OF cp7(3) G7])
    have "fill env cmd a pf tg k r t (cp, w) = Inr (l, cp8, w5)"
      unfolding fill_def prod.case cp5(1) res_bind_simps ba Inr lw cp6(1) cp7(1) cp8(1) ..
    moreover have "core_only cp cp8" by (rule core_only_trans [OF c57 cp8(2)])
    moreover have "ln cp8 = (ln cp)(r := (tg, True, cmd = Write))" using cp8(4) cp7(4) ln6 by simp
    moreover have "ways cp8 = ways cp" using cp8(5) cp7(5) cp6(5) cp5(5) by simp
    moreover have "served env (bsize cp) [(Read, CACHE_BADDR cp a)] w w5" by (rule served_one [OF Inr [unfolded lw]])
    ultimately show ?thesis using cp8(3) by blast
  qed
qed

lemma counted_counts: "counts cp' = counts cp \<Longrightarrow> counted c p h (counts cp') = counted c p h (counts cp)"
  by simp

text \<open>The requests of a miss: the write-back of the victim, then the fetch of the block.\<close>

definition miss_reqs :: "cache_t \<Rightarrow> md_addr \<Rightarrow> nat \<Rightarrow> (mem_cmd \<times> md_addr) list" where
  "miss_reqs cp a r = wb_req cp (set_index cp a) (ln cp r) @ [(Read, CACHE_BADDR cp a)]"

lemma miss_step:
  fixes env :: "'w env"
  assumes inv: "cache_inv cp" and np: "\<not> present cp a" and a: "pf \<or> prefetch_type cp \<noteq> 2 \<or> a \<noteq> 0"
  obtains (fails) e where "cache_miss gen env cmd a now pf (cp, w) = Inl e" and "handler_fails env w e"
  | (refilled) r lat ra cp' w' where "miss_done cmd a pf r cp cp'"
    and "served env (bsize cp) (miss_reqs cp a r) (if policy cp = Random then snd (myrand env w) else w) w'"
    and "cache_miss gen env cmd a now pf (cp, w) =
      res_bind (then_prefetch gen pf a (cp', w')) (\<lambda>m. Inr (lat, ra, m))"
proof -
  note I = cache_invD [OF inv]
  define k where "k = set_index cp a"
  have k: "k < nsets cp" unfolding k_def by (rule set_index_less [OF I(2)])
  have kw: "unat (CACHE_SET cp a) = k" by (simp add: k_def set_index_def)
  obtain cp1 where cp1: "count_miss cmd a pf cp = Inr cp1" "quiet cp cp1"
    "counts cp1 = counted cmd pf False (counts cp)"
    by (rule count_miss_ok [OF I(6) a])
  have c1: "same_core cp cp1" using cp1(2) by (simp only: quiet_def)
  note g1 = same_core_geom [OF c1]
  have rpt1: "rpt cp1 = rpt cp" "length (miss_queue cp1) = length (miss_queue cp)"
    using cp1(2) by (simp_all add: quiet_def)
  have G1: "geom cp1" "lists_ok {} cp1" "unat (CACHE_SET cp a) < nsets cp1"
    using geom_cong [OF g1] lists_ok_core [OF c1] nsets_cong [OF g1] I(2,3) k by (simp_all add: kw)
  have pol1: "policy cp1 = policy cp" by (rule policy_cong [OF g1])
  have bs1: "bsize cp1 = bsize cp" using g1 by (simp add: same_geom_def)
  have eq1: "set_blks cp1 = set_blks cp" "ways cp1 = ways cp" "ln cp1 = ln cp"
    using set_blks_cong [OF g1] ways_core [OF c1] ln_core [OF c1] by simp_all
  have wq: "wb_req cp1 = wb_req cp" unfolding wb_req_def fun_eq_iff addr_cong(5) [OF g1] by simp
  from make_room_ok [OF G1, of env now w]
  show thesis
  proof (elim disjE exE conjE)
    fix e assume "make_room env (CACHE_SET cp a) now (cp1, w) = Inl e" "handler_fails env w e"
    then show thesis by (intro fails) (simp_all add: cache_miss_split cp1(1))
  next
    fix r lat ra cp4 w4
    assume mr: "make_room env (CACHE_SET cp a) now (cp1, w) = Inr (r, lat, ra, cp4, w4)" and cm: "calm cp1 cp4"
      and r: "r \<in> set_blks cp1 (unat (CACHE_SET cp a))"
      and rl: "policy cp1 \<noteq> Random \<longrightarrow> r = last (ways cp1 (unat (CACHE_SET cp a)))"
      and last4: "last_tagset cp4 = 0" "last_blk cp4 = None" and l4: "lists_ok {r} cp4" and n4: "ln cp4 = ln cp1"
      and w4: "\<forall>j < nsets cp1. ways cp4 j =
        (if j = unat (CACHE_SET cp a) then evict_order (policy cp1) (ways cp1 j) else ways cp1 j)"
      and s4: "served env (bsize cp1) (wb_req cp1 (unat (CACHE_SET cp a)) (ln cp1 r))
         (if policy cp1 = Random then snd (myrand env w) else w) w4"
    have lw4: "later env w w4"
      by (rule later_trans [OF served_later [OF s4]]) (simp add: later_refl later_random)
    have g4: "same_geom cp cp4" using cm same_geom_trans [OF g1] by (simp add: calm_def)
    have G4: "geom cp4" "unat (CACHE_SET cp a) < nsets cp4" "r \<in> set_blks cp4 (unat (CACHE_SET cp a))"
      using geom_cong [OF g4] nsets_cong [OF g4] set_blks_cong [OF g4] I(2) k r eq1 by (simp_all add: kw)
    have bs4: "bsize cp4 = bsize cp" using g4 by (simp add: same_geom_def)
    from fill_ok [OF G4(1) l4 G4(2,3), of env cmd a pf "CACHE_TAG cp a" "now + lat" w4]
    show thesis
    proof (elim disjE exE conjE)
      fix e assume "fill env cmd a pf (CACHE_TAG cp a) (CACHE_SET cp a) r (now + lat) (cp4, w4) = Inl e"
        "handler_fails env w4 e"
      then show thesis using handler_fails_later [OF _ lw4] by (intro fails) (simp_all add: cache_miss_split cp1(1) mr)
    next
      fix l cp8 w8
      assume fl: "fill env cmd a pf (CACHE_TAG cp a) (CACHE_SET cp a) r (now + lat) (cp4, w4) = Inr (l, cp8, w8)"
        and c8: "core_only cp4 cp8" and l8: "lists_ok {} cp8"
        and n8: "ln cp8 = (ln cp4)(r := (CACHE_TAG cp a, True, cmd = Write))" and w8: "ways cp8 = ways cp4"
        and s8: "served env (bsize cp4) [(Read, CACHE_BADDR cp4 a)] w4 w8"
      have g8: "same_geom cp cp8" by (rule same_geom_trans [OF g4 core_only_geom [OF c8]])
      have rp8: "rpt cp8 = rpt cp" "length (miss_queue cp8) = length (miss_queue cp)"
        and ct8: "counts cp8 = counted cmd pf False (counts cp)"
        using calm_core [OF c8] cm rpt1 cp1(3) by (simp_all add: calm_def)
      have p8: "pf_ok cp8" using pf_ok_cong [OF g8 rp8] I(6) by simp
      have lastn: "with_last 0 None cp8 = cp8"
        using core_last [OF c8] last4 by (simp add: with_last_def)
      have n8': "ln cp8 = (ln cp)(r := (CACHE_TAG cp a, True, cmd = Write))" using n8 n4 eq1(3) by simp
      have rk: "r \<in> set_blks cp (set_index cp a)" using r eq1(1) by (simp add: kw k_def)
      have nph: "\<forall>x \<in> set_blks cp (set_index cp a). \<not> holds cp (CACHE_TAG cp a) x"
        using np by (simp add: present_def)
      have "cache_inv (with_last 0 None cp8)"
        by (rule inv_with_last [OF g8 inv l8 uniq_fill [OF I(4) nph rk g8 n8'] p8]) simp_all
      then have inv8: "cache_inv cp8" by (simp only: lastn)
      have "\<forall>j < nsets cp. ways cp8 j =
          (if j = set_index cp a then evict_order (policy cp) (ways cp j) else ways cp j)"
        using w4 nsets_cong [OF g1] by (simp add: w8 eq1(2) pol1 kw k_def)
      then have md: "miss_done cmd a pf r cp cp8"
        using inv8 g8 rp8(1) ct8 rk rl n8' unfolding miss_done_def by (simp add: eq1(2) pol1 kw k_def)
      have "served env (bsize cp) (miss_reqs cp a r) (if policy cp = Random then snd (myrand env w) else w) w8"
        unfolding miss_reqs_def
        by (rule served_append) (use s4 s8 in \<open>simp_all add: bs1 bs4 wq eq1(3) pol1 kw k_def addr_cong(4) [OF g4]\<close>)
      then show thesis
        by (rule refilled [OF md]) (simp add: cache_miss_split cp1(1) mr fl)
    qed
  qed
qed

section \<open>The access\<close>

text \<open>What the access checks first, and the null pointer the fast path follows for block 0.\<close>

definition legal :: "cache_t \<Rightarrow> md_addr \<Rightarrow> u32 \<Rightarrow> bool" where
  "legal cp a n \<longleftrightarrow> n AND (n - 1) = 0 \<and> a AND (n - 1) = 0 \<and>
     a + n \<le> (a AND NOT (blk_mask cp)) + of_nat (bsize cp)"

definition null_hit :: "cache_t \<Rightarrow> md_addr \<Rightarrow> bool" where
  "null_hit cp a \<longleftrightarrow> CACHE_TAGSET cp a = 0 \<and> last_blk cp = None"

lemma present_blk:
  assumes "present cp a"
  obtains b where "b \<in> set_blks cp (set_index cp a)" and "holds cp (CACHE_TAG cp a) b"
  using assms by (auto simp: present_def)

lemma access_cases:
  fixes env :: "'w env"
  assumes inv: "cache_inv cp"
  obtains (illegal) "\<not> legal cp a n" and "cache_access_gen gen env cmd a n now pf (cp, w) = Inl Fatal"
  | (null) cp' where "legal cp a n" and "null_hit cp a" and "cache_inv cp'" and "same_geom cp cp'"
    and "cache_access_gen gen env cmd a n now pf (cp, w) =
      (if cmd = Write then Inl OutOfRange else res_bind (then_prefetch gen pf a (cp', w)) (\<lambda>_. Inl OutOfRange))"
  | (zero) "legal cp a n" and "\<not> null_hit cp a" and "\<not> present cp a" and "\<not> pf" and "prefetch_type cp = 2" and "a = 0"
    and "cache_access_gen gen env cmd a n now pf (cp, w) = Inl AssertFailed"
  | (hit) b cp' where "legal cp a n" and "\<not> null_hit cp a" and "present cp a"
    and "b \<in> set_blks cp (set_index cp a)" and "holds cp (CACHE_TAG cp a) b" and "hit_done cmd a pf b cp cp'"
    and "cache_access_gen gen env cmd a n now pf (cp, w) =
      res_bind (then_prefetch gen pf a (cp', w)) (\<lambda>(cp4, w1). res_bind (hit_lat b now cp4) (\<lambda>lat. Inr (lat, 0, cp4, w1)))"
  | (fails) e where "legal cp a n" and "\<not> null_hit cp a" and "\<not> present cp a"
    and "cache_access_gen gen env cmd a n now pf (cp, w) = Inl e" and "handler_fails env w e"
  | (miss) r lat ra cp' w' where "legal cp a n" and "\<not> null_hit cp a" and "\<not> present cp a"
    and "miss_done cmd a pf r cp cp'"
    and "served env (bsize cp) (miss_reqs cp a r) (if policy cp = Random then snd (myrand env w) else w) w'"
    and "cache_access_gen gen env cmd a n now pf (cp, w) =
      res_bind (then_prefetch gen pf a (cp', w')) (\<lambda>m. Inr (lat, ra, m))"
proof (cases "legal cp a n")
  case False
  then show thesis by (intro illegal) (auto simp: cache_access_gen_def legal_def)
next
  case l: True
  note I = cache_invD [OF inv]
  have last0: "last_blk cp = None \<Longrightarrow> last_tagset cp = 0" using I(5) by (simp add: last_ok_def)
  have acc: "cache_access_gen gen env cmd a n now pf (cp, w) =
    (if CACHE_TAGSET cp a = last_tagset cp then fast_hit gen cmd a now pf (last_blk cp) (cp, w)
     else res_bind (find_blk (CACHE_SET cp a) (CACHE_TAG cp a) cp) (\<lambda>bp.
       (case bp of
          Some blk \<Rightarrow> slow_hit gen cmd a now pf blk (cp, w)
        | None \<Rightarrow> cache_miss gen env cmd a now pf (cp, w))))"
    using l unfolding legal_def cache_access_gen_def prod.case not_less [symmetric] by (simp cong: if_cong)
  show thesis
  proof (cases "null_hit cp a")
    case True
    define cp1 where "cp1 = count_hit cmd pf cp"
    have q: "quiet cp cp1" unfolding cp1_def by (rule count_hit_quiet)
    note g = quiet_geom [OF q]
    have "last_tagset cp1 = 0" "last_blk cp1 = None" using q True last0 by (simp_all add: quiet_def null_hit_def)
    then have e: "cp1\<lparr>last_tagset := 0, last_blk := None\<rparr> = cp1" by simp
    have "CACHE_TAGSET cp1 a = 0" using True by (simp add: null_hit_def addr_cong(3) [OF g])
    then have "cache_access_gen gen env cmd a n now pf (cp, w) =
        (if cmd = Write then Inl OutOfRange else res_bind (then_prefetch gen pf a (cp1, w)) (\<lambda>_. Inl OutOfRange))"
      using True last0 by (simp add: acc null_hit_def fast_hit_def Let_def e then_prefetch_def flip: cp1_def)
    then show thesis by (rule null [OF l True quiet_inv [OF q inv] g])
  next
    case nn: False
    show thesis
    proof (cases "CACHE_TAGSET cp a = last_tagset cp")
      case True
      then obtain b where lb: "last_blk cp = Some b" using nn last0 by (cases "last_blk cp") (auto simp: null_hit_def)
      have s: "find_blk (CACHE_SET cp a) (CACHE_TAG cp a) cp = Inr (Some b)" by (rule fast_path [OF I(1) True lb])
      then have b: "b \<in> set_blks cp (set_index cp a)" "holds cp (CACHE_TAG cp a) b"
        unfolding find_blk_eq [OF I(1)] by simp_all
      then have pr: "present cp a" by (auto simp: present_def)
      obtain cp' where cp': "hit_done cmd a pf b cp cp'" "fast_hit gen cmd a now pf (last_blk cp) (cp, w) =
        res_bind (then_prefetch gen pf a (cp', w)) (\<lambda>(cp4, w1). res_bind (hit_lat b now cp4) (\<lambda>lat. Inr (lat, 0, cp4, w1)))"
        by (rule fast_hit_step [OF inv True lb])
      show thesis by (rule hit [OF l nn pr b cp'(1)]) (simp add: acc True flip: cp'(2))
    next
      case slow: False
      show thesis
      proof (cases "present cp a")
        case True
        obtain b where b: "b \<in> set_blks cp (set_index cp a)" "holds cp (CACHE_TAG cp a) b" by (rule present_blk [OF True])
        have s: "find_blk (CACHE_SET cp a) (CACHE_TAG cp a) cp = Inr (Some b)"
          unfolding find_blk_eq [OF I(1)] using b by simp
        obtain cp' where cp': "hit_done cmd a pf b cp cp'" "slow_hit gen cmd a now pf b (cp, w) =
          res_bind (then_prefetch gen pf a (cp', w)) (\<lambda>(cp4, w1). res_bind (hit_lat b now cp4) (\<lambda>lat. Inr (lat, 0, cp4, w1)))"
          by (rule slow_hit_step [OF inv b])
        show thesis by (rule hit [OF l nn True b cp'(1)]) (simp add: acc slow s flip: cp'(2))
      next
        case np: False
        then have s: "find_blk (CACHE_SET cp a) (CACHE_TAG cp a) cp = Inr None"
          unfolding find_blk_eq [OF I(1)] by simp
        have am: "cache_access_gen gen env cmd a n now pf (cp, w) = cache_miss gen env cmd a now pf (cp, w)"
          by (simp add: acc slow s)
        show thesis
        proof (cases "pf \<or> prefetch_type cp \<noteq> 2 \<or> a \<noteq> 0")
          case False
          then have "cache_miss gen env cmd a now pf (cp, w) = Inl AssertFailed"
            by (simp add: cache_miss_split count_miss_zero)
          then show thesis using False am by (intro zero [OF l nn np]) simp_all
        next
          case True
          show thesis
            by (rule miss_step [OF inv np True, of gen env cmd now w])
              (use fails [OF l nn np] miss [OF l nn np] am in simp_all)
        qed
      qed
    qed
  qed
qed

end
