(* ===== verification/Lab5_Levels.thy ===== *)
theory Lab5_Levels
  imports Lab5_Access
begin

text \<open>
  The lab 5 cache over the level that serves its misses: the contract of that level as a locale, and
  what accesses, prefetches and flushes keep under it.
\<close>

section \<open>The contract of the next level\<close>

definition keeps :: "('w \<Rightarrow> bool) \<Rightarrow> 'w mem \<Rightarrow> 'w mem \<Rightarrow> bool" where
  "keeps J m m' \<longleftrightarrow> (cache_inv (fst m) \<and> J (snd m) \<longrightarrow>
     cache_inv (fst m') \<and> J (snd m') \<and> same_geom (fst m) (fst m'))"

definition keeping :: "('w \<Rightarrow> bool) \<Rightarrow> (md_addr \<Rightarrow> 'w mem \<Rightarrow> 'w mem res) \<Rightarrow> bool" where
  "keeping J gen \<longleftrightarrow> (\<forall>a m m'. gen a m = Inr m' \<longrightarrow> keeps J m m')"

lemma keeps_refl [simp]: "keeps J m m"
  by (simp add: keeps_def same_geom_refl)

lemma keeps_trans: "keeps J a b \<Longrightarrow> keeps J b c \<Longrightarrow> keeps J a c"
  unfolding keeps_def using same_geom_trans by blast

lemma keepingD: "keeping J gen \<Longrightarrow> gen a m = Inr m' \<Longrightarrow> keeps J m m'"
  unfolding keeping_def by blast

lemma keeping_none: "keeping J (\<lambda>_. Inr)"
  by (simp add: keeping_def)

lemma then_prefetch_keeps: "keeping J gen \<Longrightarrow> then_prefetch gen pf a m = Inr m' \<Longrightarrow> keeps J m m'"
  by (auto simp: then_prefetch_def keepingD split: if_splits)

text \<open>Replacing the prediction table.\<close>

lemma rpt_keeps:
  assumes "rpt cp = Some r" and "length (tags r') = length (tags r) \<and> length (prev_addrs r') = length (prev_addrs r) \<and>
    length (strides r') = length (strides r) \<and> length (is_negative r') = length (is_negative r) \<and>
    length (states r') = length (states r)"
  shows "keeps J (cp, w) (cp\<lparr>rpt := Some r'\<rparr>, w)"
proof -
  let ?cp = "cp\<lparr>rpt := Some r'\<rparr>"
  have c: "same_core cp ?cp" by (simp add: same_core_def same_geom_def)
  note g = same_core_geom [OF c]
  have h: "holds ?cp = holds cp" by (rule holds_core [OF c])
  have pol: "policy ?cp = policy cp" by simp
  have "cache_inv ?cp" if inv: "cache_inv cp"
  proof (rule cache_invI [OF g])
    note I = cache_invD [OF inv]
    show "geom cp" by (rule I(2))
    show "lists_ok {} ?cp" using I(3) lists_ok_core [OF c] by simp
    show "uniq ?cp k" if "k < nsets cp" for k by (rule uniq_same [OF g h I(4) [OF that]])
    have f: "last_tagset ?cp = last_tagset cp" "last_blk ?cp = last_blk cp" by simp_all
    show "last_ok ?cp"
      using I(5) unfolding last_ok_def f set_index_cong [OF g] set_blks_cong [OF g] addr_cong(1) [OF g] h .
    show "mru_ok ?cp" using I(7) unfolding mru_ok_def f pol set_index_cong [OF g] ways_core [OF c] .
    show "pf_ok ?cp" using I(6) assms by (simp add: pf_ok_def rpt_ok_def)
  qed
  then show ?thesis using g by (simp add: keeps_def)
qed

lemma rpt_new_entry_lengths:
  assumes "rpt_new_entry i tg a r = Inr r'"
  shows "length (tags r') = length (tags r) \<and> length (prev_addrs r') = length (prev_addrs r) \<and>
    length (strides r') = length (strides r) \<and> length (is_negative r') = length (is_negative r) \<and>
    length (states r') = length (states r)"
  using assms unfolding rpt_new_entry_def by (auto simp: res_simps)

text \<open>The fields of an entry after an access: stride, sign and state.\<close>

definition old_entry :: "md_addr \<Rightarrow> md_addr \<Rightarrow> md_addr \<Rightarrow> bool \<Rightarrow> rpt_state_t \<Rightarrow> md_addr \<times> bool \<times> rpt_state_t" where
  "old_entry a p s neg st =
    (let new_stride = max a p - min a p; neg' = (p > a); same = (new_stride = s \<and> neg' = neg);
         st' = get_next_rpt_state st same in
     if \<not> same \<and> (st' = Transient \<or> st' = NoPrediction) then (new_stride, neg', st') else (s, neg, st'))"

lemma rpt_old_entry_eq:
  assumes "i < length (prev_addrs r)" and "i < length (strides r)" and "i < length (is_negative r)" and "i < length (states r)"
  shows "rpt_old_entry i a r =
    (case old_entry a (prev_addrs r ! i) (strides r ! i) (is_negative r ! i) (states r ! i) of (s, neg, st) \<Rightarrow>
     Inr (r\<lparr>states := (states r)[i := st], strides := (strides r)[i := s],
       is_negative := (is_negative r)[i := neg], prev_addrs := (prev_addrs r)[i := a]\<rparr>))"
proof -
  have pick: "(if P then Inr (r\<lparr>states := (states r)[i := t], strides := (strides r)[i := u],
          is_negative := (is_negative r)[i := v], prev_addrs := y\<rparr>)
        else Inr (r\<lparr>states := (states r)[i := t], prev_addrs := y\<rparr>)) =
      (case if P then (u, v, t) else (strides r ! i, is_negative r ! i, t) of (s, neg, st) \<Rightarrow>
         Inr (r\<lparr>states := (states r)[i := st], strides := (strides r)[i := s],
           is_negative := (is_negative r)[i := neg], prev_addrs := y\<rparr>))"
    for P y u v t
    by (cases P) simp_all
  show ?thesis
    unfolding rpt_old_entry_def old_entry_def Let_def assms [THEN vec_get_in] assms [THEN vec_set_in] res_bind_simps
      pick ..
qed

lemma rpt_old_entry_range:
  assumes "rpt_old_entry i a r = Inr r'"
  shows "i < length (prev_addrs r)" "i < length (strides r)" "i < length (is_negative r)" "i < length (states r)"
proof -
  show 1: "i < length (prev_addrs r)" by (rule ccontr) (use assms in \<open>simp add: rpt_old_entry_def vec_get_def\<close>)
  show 2: "i < length (strides r)" by (rule ccontr) (use assms 1 in \<open>simp add: rpt_old_entry_def vec_get_def\<close>)
  show 3: "i < length (is_negative r)" by (rule ccontr) (use assms 1 2 in \<open>simp add: rpt_old_entry_def vec_get_def\<close>)
  show "i < length (states r)" by (rule ccontr) (use assms 1 2 3 in \<open>simp add: rpt_old_entry_def vec_get_def\<close>)
qed

lemma rpt_old_entry_lengths:
  assumes "rpt_old_entry i a r = Inr r'"
  shows "length (tags r') = length (tags r) \<and> length (prev_addrs r') = length (prev_addrs r) \<and>
    length (strides r') = length (strides r) \<and> length (is_negative r') = length (is_negative r) \<and>
    length (states r') = length (states r)"
  using assms unfolding rpt_old_entry_eq [OF rpt_old_entry_range [OF assms]] by (auto split: prod.splits)

lemma hit_done_inv: "hit_done cmd a pf b cp cp' \<Longrightarrow> keeps J (cp, w) (cp', w)"
  by (simp add: hit_done_def keeps_def)

lemma miss_done_inv: "miss_done cmd a pf r cp cp' \<Longrightarrow> (J w \<Longrightarrow> J w') \<Longrightarrow> keeps J (cp, w) (cp', w')"
  by (simp add: miss_done_def keeps_def)

locale next_level =
  fixes env :: "'w env" and J :: "'w \<Rightarrow> bool"
  assumes answer: "J w \<Longrightarrow> blk_access_fn env c a n t pf w = Inr (l, w') \<Longrightarrow> J w'"
    and random: "J w \<Longrightarrow> J (snd (myrand env w))"
begin

lemma served_keeps: "served env n rs w w' \<Longrightarrow> J w \<Longrightarrow> J w'"
  by (induction rule: served.induct) (auto intro: answer)

lemma access_gen_keeps:
  assumes gen: "keeping J gen"
    and ret: "cache_access_gen gen env cmd a n now pf m = Inr (lat, ra, m')"
  shows "keeps J m m'"
proof (cases "cache_inv (fst m) \<and> J (snd m)")
  case True
  obtain cp w where m: "m = (cp, w)" by (cases m)
  have inv: "cache_inv cp" and w: "J w" using True m by simp_all
  from inv show ?thesis
    unfolding m
  proof (cases rule: access_cases [where a = a and n = n and gen = gen and env = env and cmd = cmd and now = now and
        pf = pf and w = w])
    case (hit b cp')
    have "keeps J (cp, w) (cp', w)" by (rule hit_done_inv [OF hit(6)])
    moreover have "keeps J (cp', w) m'"
      using ret hit(7) then_prefetch_keeps [OF gen] unfolding m by (auto simp: res_simps)
    ultimately show "keeps J (cp, w) m'" by (rule keeps_trans)
  next
    case (miss r lat' ra' cp' w')
    have "J w'" by (rule served_keeps [OF miss(5)]) (use w random in auto)
    then have "keeps J (cp, w) (cp', w')" by (intro miss_done_inv [OF miss(4)])
    moreover have "keeps J (cp', w') m'"
      using ret miss(6) then_prefetch_keeps [OF gen] unfolding m by (auto simp: res_simps)
    ultimately show "keeps J (cp, w) m'" by (rule keeps_trans)
  qed (use ret in \<open>auto simp: m res_bind_eq_Inr split: if_splits\<close>)
qed (auto simp: keeps_def)

lemma prefetch_access_keeps: "prefetch_access env a m = Inr (lat, ra, m') \<Longrightarrow> keeps J m m'"
  unfolding prefetch_access_def by (cases m) (simp add: access_gen_keeps [OF keeping_none])

lemma prefetch_keeps:
  assumes "prefetch env a m = Inr m'" shows "keeps J m m'"
proof -
  obtain cp w where m: "m = (cp, w)" by (cases m)
  from assms obtain pr ba where
    "(if pr then Inr (cp, w) else res_bind (prefetch_access env ba (cp, w)) (\<lambda>(_, _, m). Inr m)) = Inr m'"
    unfolding prefetch_def m prod.case Let_def assert_that_eq_Inr res_bind_eq_Inr by blast
  then show ?thesis
    unfolding m by (cases pr) (auto simp: res_bind_eq_Inr intro: prefetch_access_keeps)
qed

lemma next_miss_keeps: "next_miss_prefetch env a m = Inr m' \<Longrightarrow> keeps J m m'"
  by (cases m) (auto simp: next_miss_prefetch_def res_simps prefetch_keeps split: if_splits)

lemma rpt_then:
  assumes "rpt cp = Some r" and "rpt_new_entry i tg a r = Inr r' \<or> rpt_old_entry i a r = Inr r'"
    and "keeps J (cp\<lparr>rpt := Some r'\<rparr>, w) m'"
  shows "keeps J (cp, w) m'"
proof (rule keeps_trans [OF _ assms(3)])
  show "keeps J (cp, w) (cp\<lparr>rpt := Some r'\<rparr>, w)"
    using assms(2) by (rule disjE) (rule rpt_keeps [OF assms(1)], erule rpt_new_entry_lengths rpt_old_entry_lengths)+
qed

lemma open_ended_keeps:
  assumes "open_ended_prefetcher env a m = Inr m'" shows "keeps J m m'"
proof -
  obtain cp w where m: "m = (cp, w)" by (cases m)
  obtain r where r: "rpt cp = Some r" using assms by (cases "rpt cp") (auto simp: open_ended_prefetcher_def m Let_def res_simps)
  define i where "i = rpt_index RPT_DEFAULT_SIZE (get_PC env)"
  from assms obtain tg old where
    "(if old \<noteq> tg then
        res_bind (rpt_new_entry i tg a r) (\<lambda>r1. next_miss_prefetch env a (cp\<lparr>rpt := Some r1\<rparr>, w))
      else
        res_bind (rpt_old_entry i a r) (\<lambda>r1.
        res_bind (vec_get (states r1) i) (\<lambda>st.
          if st = Steady then
            res_bind (rpt_target i a r1) (\<lambda>a. prefetch env a (cp\<lparr>rpt := Some r1\<rparr>, w))
          else next_miss_prefetch env a (cp\<lparr>rpt := Some r1\<rparr>, w)))) = Inr m'"
    unfolding open_ended_prefetcher_def m prod.case Let_def assert_that_eq_Inr r option.case res_bind_eq_Inr i_def by blast
  then show ?thesis
    unfolding m
    by (auto simp: res_bind_eq_Inr split: if_splits intro: rpt_then [OF r] next_miss_keeps prefetch_keeps)
qed

lemma stride_keeps:
  assumes "stride_prefetcher env a m = Inr m'" shows "keeps J m m'"
proof -
  obtain cp w where m: "m = (cp, w)" by (cases m)
  obtain r where r: "rpt cp = Some r" using assms by (cases "rpt cp") (auto simp: stride_prefetcher_def m Let_def res_simps)
  define i where "i = rpt_index (prefetch_type cp) (get_PC env)"
  from assms obtain tg old where
    "(if old \<noteq> tg then
        res_bind (rpt_new_entry i tg a r) (\<lambda>r1. Inr (cp\<lparr>rpt := Some r1\<rparr>, w))
      else
        res_bind (rpt_old_entry i a r) (\<lambda>r1.
        res_bind (vec_get (states r1) i) (\<lambda>st.
          if st \<noteq> NoPrediction then
            res_bind (rpt_target i a r1) (\<lambda>a. prefetch env a (cp\<lparr>rpt := Some r1\<rparr>, w))
          else Inr (cp\<lparr>rpt := Some r1\<rparr>, w)))) = Inr m'"
    unfolding stride_prefetcher_def m prod.case Let_def assert_that_eq_Inr r option.case res_bind_eq_Inr i_def by blast
  then show ?thesis
    unfolding m
    by (auto simp: res_bind_eq_Inr split: if_splits intro: rpt_then [OF r] prefetch_keeps)
qed

lemma generate_prefetch_keeps: "keeping J (generate_prefetch env)"
  unfolding keeping_def
  by (auto simp: generate_prefetch_def next_line_prefetcher_def prefetch_keeps open_ended_keeps stride_keeps split: if_splits)

lemma access_keeps: "cache_access env cmd a n now pf m = Inr (lat, ra, m') \<Longrightarrow> keeps J m m'"
  unfolding cache_access_def by (rule access_gen_keeps [OF generate_prefetch_keeps])

end

section \<open>Flushes\<close>

fun invalidated :: "line \<Rightarrow> line" where
  "invalidated (tg, v, d) = (tg, False, d)"

text \<open>A cache with no last hit, as the flushes leave it.\<close>

definition no_last :: "cache_t \<Rightarrow> bool" where
  "no_last cp \<longleftrightarrow> last_tagset cp = 0 \<and> last_blk cp = None"

lemma with_last_none:
  assumes inv: "cache_inv cp"
  shows "cache_inv (with_last 0 None cp)" and "no_last (with_last 0 None cp)"
proof -
  note I = cache_invD [OF inv]
  show "cache_inv (with_last 0 None cp)"
    by (rule inv_with_last [OF same_geom_refl inv I(3,4) I(6)]) simp_all
  show "no_last (with_last 0 None cp)" by (simp add: no_last_def with_last_fields)
qed

lemma inv_no_last:
  assumes g: "same_geom cp cp'" and inv: "cache_inv cp" and lists: "lists_ok {} cp'"
    and u: "\<And>k. k < nsets cp \<Longrightarrow> uniq cp' k" and p: "pf_ok cp'" and n: "no_last cp'"
  shows "cache_inv cp'"
proof -
  have "cache_inv (with_last 0 None cp')" by (rule inv_with_last [OF g inv lists u p]) simp_all
  moreover have "with_last 0 None cp' = cp'" using n by (simp add: with_last_def no_last_def)
  ultimately show ?thesis by (simp only:)
qed

text \<open>Fewer valid lines.\<close>

lemma uniq_less:
  assumes g: "same_geom cp cp'" and u: "uniq cp k"
    and l: "\<And>t x. holds cp' t x \<Longrightarrow> holds cp t x"
  shows "uniq cp' k"
  using u l unfolding uniq_def set_blks_cong [OF g] by blast

definition flush_done :: "(nat \<Rightarrow> bool) \<Rightarrow> cache_t \<Rightarrow> cache_t \<Rightarrow> bool" where
  "flush_done P cp cp' \<longleftrightarrow> cache_inv cp' \<and> calm cp cp' \<and> no_last cp' \<and> ways cp' = ways cp \<and>
     (\<forall>b. ln cp' b = (if P b then invalidated (ln cp b) else ln cp b))"

lemma flush_done_refl: "cache_inv cp \<Longrightarrow> no_last cp \<Longrightarrow> (\<And>b. P b \<Longrightarrow> invalidated (ln cp b) = ln cp b) \<Longrightarrow> flush_done P cp cp"
  by (simp add: flush_done_def calm_def same_geom_refl)

lemma flush_done_trans:
  assumes "flush_done P a b" and "flush_done Q b c" shows "flush_done (\<lambda>x. P x \<or> Q x) a c"
proof -
  have "invalidated (invalidated l) = invalidated l" for l by (cases l) simp
  then show ?thesis using assms calm_trans [of a b c] unfolding flush_done_def by auto
qed

lemma flush_blk_ok:
  assumes inv: "cache_inv cp" and n: "no_last cp" and b: "b < length (data cp)"
    and v: "fst (snd (ln cp b))"
  shows "(\<exists>e. flush_blk env (of_nat k) b now (lat, cp, w) = Inl e \<and> handler_fails env w e) \<or>
    (\<exists>lat' cp' w'. flush_blk env (of_nat k) b now (lat, cp, w) = Inr (lat', cp', w') \<and>
       flush_done (\<lambda>x. x = b) cp cp' \<and> served env (bsize cp) (wb_req cp k (ln cp b)) w w')"
proof -
  note I = cache_invD [OF inv]
  define cp0 where "cp0 = cp\<lparr>invalidations := invalidations cp + 1\<rparr>"
  have c0: "same_core cp cp0" by (simp add: cp0_def same_core_def same_geom_def)
  have calm0: "calm cp cp0" by (simp add: cp0_def calm_def same_geom_def counts_def)
  have d0: "data cp0 = data cp" by (simp add: cp0_def)
  define bk where "bk = data cp ! b"
  have lnb: "ln cp b = (tag bk, True, is_dirty bk)" using v by (simp add: ln_def bk_def)
  have l0: "lists_ok {} cp0" using lists_ok_core [OF c0] I(3) by simp
  obtain cp1 where cp1: "upd_blk (Some b) (\<lambda>b. b\<lparr>status := status b AND NOT CACHE_BLK_VALID\<rparr>) cp0 = Inr cp1"
    "core_only cp0 cp1" "lists_ok {} cp1" "ln cp1 = (ln cp0)(b := (tag bk, False, is_dirty bk))" "ways cp1 = ways cp0"
    "data cp1 ! b = bk\<lparr>status := status bk AND NOT CACHE_BLK_VALID\<rparr>"
    using update_block [OF l0, of b "\<lambda>b. b\<lparr>status := status b AND NOT CACHE_BLK_VALID\<rparr>"] b
    by (auto simp: status_flush d0 bk_def)
  have calm1: "calm cp cp1" by (rule calm_trans [OF calm0 calm_core [OF cp1(2)]])
  then have g1: "same_geom cp cp1" by (simp add: calm_def)
  have b1: "b < length (data cp1)" using b cp1(2) by (simp add: core_only_def d0)
  have n1: "no_last cp1" using n core_last [OF cp1(2)] by (simp add: no_last_def cp0_def)
  have ln1: "ln cp1 x = (if x = b then invalidated (ln cp x) else ln cp x)" for x
    using cp1(4) ln_core [OF c0] lnb by simp
  have p1: "pf_ok cp1" using pf_ok_cong [OF g1] calm1 I(6) by (simp add: calm_def)
  have u1: "uniq cp1 j" if "j < nsets cp" for j
    by (rule uniq_less [OF g1 I(4) [OF that]]) (auto simp: holds_ln ln1 lnb split: if_splits)
  have "cache_inv cp1" by (rule inv_no_last [OF g1 inv cp1(3) u1 p1 n1])
  then have fd: "flush_done (\<lambda>x. x = b) cp cp1"
    using calm1 n1 cp1(5) ways_core [OF c0] ln1 by (simp add: flush_done_def)
  have at: "blk_at cp1 (Some b) = Inr (bk\<lparr>status := status bk AND NOT CACHE_BLK_VALID\<rparr>)"
    using b1 by (simp add: blk_at_def cp1(6))
  define ra where "ra = CACHE_MK_BADDR cp (tag bk) (of_nat k)"
  have "flush_blk env (of_nat k) b now (lat, cp, w) =
    (if is_dirty bk then
       res_bind (blk_access_fn env Write ra (bsize cp) (now + lat) False w) (\<lambda>(l, w1).
         Inr (lat + l, cp1\<lparr>writebacks := writebacks cp1 + 1\<rparr>, w1))
     else Inr (lat, cp1, w))"
    using g1 unfolding flush_blk_def prod.case cp0_def [symmetric] cp1(1) res_bind_simps at status_flush
      addr_cong(5) [OF g1] by (simp add: ra_def same_geom_def)
  note fl = this
  show ?thesis
  proof (cases "is_dirty bk")
    case False
    then show ?thesis using fl fd served_Nil by (auto simp: wb_req_def lnb)
  next
    case True
    show ?thesis
    proof (cases "blk_access_fn env Write ra (bsize cp) (now + lat) False w")
      case (Inl e)
      then show ?thesis using True fl handler_failsI [OF Inl] by simp
    next
      case (Inr lw)
      obtain l w1 where lw: "lw = (l, w1)" by (cases lw)
      let ?cp = "cp1\<lparr>writebacks := writebacks cp1 + 1\<rparr>"
      have q: "quiet cp1 ?cp" by (simp add: quiet_def same_core_def same_geom_def)
      have c: "same_core cp1 ?cp" "calm cp1 ?cp" by (simp_all add: same_core_def same_geom_def calm_def counts_def)
      have "flush_done (\<lambda>x. x = b) cp ?cp"
        using fd quiet_inv [OF q] calm_trans [OF _ c(2)] ln_core [OF c(1)] ways_core [OF c(1)]
        by (simp add: flush_done_def no_last_def)
      then show ?thesis using True fl Inr served_one [OF Inr [unfolded lw]] by (auto simp: lw wb_req_def lnb ra_def)
    qed
  qed
qed


text \<open>A whole set, from its head, and the whole cache.\<close>

definition flush_reqs :: "cache_t \<Rightarrow> nat \<Rightarrow> nat list \<Rightarrow> (mem_cmd \<times> md_addr) list" where
  "flush_reqs cp k xs = concat (map (\<lambda>b. wb_req cp k (ln cp b)) xs)"

lemma wb_req_cong: "same_geom cp cp' \<Longrightarrow> wb_req cp' = wb_req cp"
  unfolding wb_req_def fun_eq_iff by (simp add: addr_cong(5))

lemma flush_doneD:
  assumes "flush_done P cp cp'"
  shows "cache_inv cp'" "calm cp cp'" "same_geom cp cp'" "no_last cp'" "ways cp' = ways cp"
    "bsize cp' = bsize cp" "length (data cp') = length (data cp)"
    "ln cp' b = (if P b then invalidated (ln cp b) else ln cp b)"
  using assms by (auto simp: flush_done_def calm_def same_geom_def)

lemma way_next_in:
  assumes ok: "lists_ok R cp" and k: "k < nsets cp" and w: "ways cp k = us @ b # xs"
  shows "way_next (data cp ! b) = (if xs = [] then None else Some (hd xs))" and "b < length (data cp)" and "b \<notin> set xs"
proof -
  have wl: "way_list k cp (us @ b # xs)" and d: "distinct (us @ b # xs)" using ways_ok [OF ok k] by (simp_all add: w)
  then show "way_next (data cp ! b) = (if xs = [] then None else Some (hd xs))"
    unfolding way_list_def using dll_links(1) [of "nextf (data cp)"] by blast
  show "b < length (data cp)" using wl by (simp add: way_list_def)
  show "b \<notin> set xs" using d by simp
qed

lemma flush_chain_ok:
  assumes "cache_inv cp" and "no_last cp" and "k < nsets cp" and "ways cp k = us @ xs"
    and "p = (if xs = [] then None else Some (hd xs))" and "length xs \<le> n"
  shows "(\<exists>e. flush_chain n env (of_nat k) now p (lat, cp, w) = Inl e \<and> handler_fails env w e) \<or>
    (\<exists>lat' cp' w'. flush_chain n env (of_nat k) now p (lat, cp, w) = Inr (lat', cp', w') \<and>
       flush_done (\<lambda>x. x \<in> set xs) cp cp' \<and> served env (bsize cp) (flush_reqs cp k xs) w w')"
  using assms
proof (induction xs arbitrary: us n cp p lat w)
  case Nil
  then show ?case
    by (cases n) (auto simp: flush_reqs_def intro!: served_Nil flush_done_refl)
next
  case (Cons b xs)
  then obtain m where n: "n = Suc m" and p: "p = Some b" and m: "length xs \<le> m" by (cases n) auto
  note I = cache_invD [OF Cons.prems(1)]
  note bl = way_next_in(2) [OF I(3) Cons.prems(3,4)] and dist = way_next_in(3) [OF I(3) Cons.prems(3,4)]
  have at: "blk_at cp (Some b) = Inr (data cp ! b)" using bl by (simp add: blk_at_def)
  have v: "is_valid (data cp ! b) \<longleftrightarrow> fst (snd (ln cp b))" by (simp add: ln_def)
  define f where "f = (if is_valid (data cp ! b) then flush_blk env (of_nat k) b now (lat, cp, w) else Inr (lat, cp, w))"
  have step: "flush_chain n env (of_nat k) now p (lat, cp, w) =
      res_bind f (\<lambda>s1. res_bind (blk_at (fst (snd s1)) (Some b)) (\<lambda>b1.
        flush_chain m env (of_nat k) now (way_next b1) s1))"
    by (simp add: n p at f_def)
  have "(\<exists>e. f = Inl e \<and> handler_fails env w e) \<or>
    (\<exists>lat1 cp1 w1. f = Inr (lat1, cp1, w1) \<and> flush_done (\<lambda>x. x = b) cp cp1 \<and>
      served env (bsize cp) (wb_req cp k (ln cp b)) w w1)"
  proof (cases "is_valid (data cp ! b)")
    case True
    then show ?thesis using flush_blk_ok [OF Cons.prems(1,2) bl, of env k now lat w] v by (simp add: f_def)
  next
    case False
    then have "wb_req cp k (ln cp b) = []" "invalidated (ln cp b) = ln cp b" by (simp_all add: wb_req_def ln_def)
    then show ?thesis using False flush_done_refl [OF Cons.prems(1,2), of "\<lambda>x. x = b"] served_Nil by (auto simp: f_def)
  qed
  then show ?case
  proof (elim disjE exE conjE)
    fix e assume "f = Inl e" "handler_fails env w e"
    then show ?thesis by (simp add: step)
  next
    fix lat1 cp1 w1
    assume f: "f = Inr (lat1, cp1, w1)" and fd: "flush_done (\<lambda>x. x = b) cp cp1"
      and s: "served env (bsize cp) (wb_req cp k (ln cp b)) w w1"
    note D = flush_doneD [OF fd]
    have at1: "blk_at cp1 (Some b) = Inr (data cp1 ! b)" using bl D(7) by (simp add: blk_at_def)
    have k1: "k < nsets cp1" using Cons.prems(3) nsets_cong [OF D(3)] by simp
    have w1: "ways cp1 k = us @ b # xs" using Cons.prems(4) by (simp add: D(5))
    have nx: "way_next (data cp1 ! b) = (if xs = [] then None else Some (hd xs))"
      by (rule way_next_in(1) [OF cache_invD(3) [OF D(1)] k1 w1])
    have w1': "ways cp1 k = (us @ [b]) @ xs" by (simp add: w1)
    have IH: "(\<exists>e. flush_chain m env (of_nat k) now (way_next (data cp1 ! b)) (lat1, cp1, w1) = Inl e \<and> handler_fails env w1 e) \<or>
      (\<exists>lat' cp' w'. flush_chain m env (of_nat k) now (way_next (data cp1 ! b)) (lat1, cp1, w1) = Inr (lat', cp', w') \<and>
       flush_done (\<lambda>x. x \<in> set xs) cp1 cp' \<and> served env (bsize cp1) (flush_reqs cp1 k xs) w1 w')"
      by (rule Cons.IH [OF D(1,4) k1 w1' nx m])
    have fr: "flush_reqs cp1 k xs = flush_reqs cp k xs"
    proof -
      have "ln cp1 x = ln cp x" if "x \<in> set xs" for x using that dist D(8) by auto
      then show ?thesis by (simp add: flush_reqs_def wb_req_cong [OF D(3)] cong: map_cong)
    qed
    have fr': "flush_reqs cp k (b # xs) = wb_req cp k (ln cp b) @ flush_reqs cp k xs" by (simp add: flush_reqs_def)
    have pe: "(\<lambda>x. x = b \<or> x \<in> set xs) = (\<lambda>x. x \<in> set (b # xs))" by auto
    show ?thesis
      using IH
    proof (elim disjE exE conjE)
      fix e assume "flush_chain m env (of_nat k) now (way_next (data cp1 ! b)) (lat1, cp1, w1) = Inl e" "handler_fails env w1 e"
      then show ?thesis using handler_fails_later [OF _ served_later [OF s]] by (simp add: step f at1)
    next
      fix lat2 cp2 w2
      assume fc: "flush_chain m env (of_nat k) now (way_next (data cp1 ! b)) (lat1, cp1, w1) = Inr (lat2, cp2, w2)"
        and fd2: "flush_done (\<lambda>x. x \<in> set xs) cp1 cp2" and s2: "served env (bsize cp1) (flush_reqs cp1 k xs) w1 w2"
      have "flush_done (\<lambda>x. x \<in> set (b # xs)) cp cp2" using flush_done_trans [OF fd fd2] by (simp only: pe)
      moreover have "served env (bsize cp) (flush_reqs cp k (b # xs)) w w2"
        unfolding fr' using served_append [OF s] s2 by (simp add: fr D(6))
      ultimately show ?thesis using fc by (simp add: step f at1)
    qed
  qed
qed

lemma flush_reqs_cong:
  assumes "same_geom cp cp'" and "\<And>x. x \<in> set xs \<Longrightarrow> ln cp' x = ln cp x"
  shows "flush_reqs cp' k xs = flush_reqs cp k xs"
  using assms(2) by (simp add: flush_reqs_def wb_req_cong [OF assms(1)] cong: map_cong)

lemma way_head_ways:
  assumes ok: "lists_ok R cp" and k: "k < nsets cp"
  shows "way_head (sets cp ! k) = (if ways cp k = [] then None else Some (hd (ways cp k)))"
    and "length (ways cp k) \<le> length (data cp)"
proof -
  have wl: "way_list k cp (ways cp k)" and d: "distinct (ways cp k)" using ways_ok [OF ok k] by simp_all
  have s: "seg (nextf (data cp)) (way_head (sets cp ! k)) (ways cp k) None" and sub: "set (ways cp k) \<subseteq> {..<length (data cp)}"
    using wl by (simp_all add: way_list_def dll_def)
  show "way_head (sets cp ! k) = (if ways cp k = [] then None else Some (hd (ways cp k)))"
    using seg_hd [OF s] by (cases "ways cp k") simp_all
  show "length (ways cp k) \<le> length (data cp)" using distinct_bounded [OF d] sub by simp
qed

lemma flush_sets_ok:
  assumes "cache_inv cp" and "no_last cp" and "i + n \<le> nsets cp"
  shows "(\<exists>e. flush_sets i n env now (lat, cp, w) = Inl e \<and> handler_fails env w e) \<or>
    (\<exists>lat' cp' w'. flush_sets i n env now (lat, cp, w) = Inr (lat', cp', w') \<and>
       flush_done (\<lambda>x. \<exists>j \<in> {i..<i + n}. x \<in> set_blks cp j) cp cp' \<and>
       served env (bsize cp) (concat (map (\<lambda>j. flush_reqs cp j (ways cp j)) [i..<i + n])) w w')"
  using assms
proof (induction n arbitrary: i lat cp w)
  case 0
  then show ?case by (auto intro!: served_Nil flush_done_refl)
next
  case (Suc n)
  note I = cache_invD [OF Suc.prems(1)]
  have i: "i < nsets cp" using Suc.prems(3) by simp
  have st: "vec_get (sets cp) i = Inr (sets cp ! i)" using i geomD(6) [OF I(2)] by simp
  note h = way_head_ways [OF I(3) i] and wi = ways_ok(2) [OF I(3) i]
  define f where "f = flush_chain (length (data cp)) env (of_nat i) now (way_head (sets cp ! i)) (lat, cp, w)"
  have step: "flush_sets i (Suc n) env now (lat, cp, w) = res_bind f (flush_sets (i + 1) n env now)"
    by (simp add: st f_def)
  have up: "[i..<i + Suc n] = i # [i + 1..<i + 1 + n]" by (simp add: upt_conv_Cons)
  from flush_chain_ok [OF Suc.prems(1,2) i _ h, of "[]" env now lat w, folded f_def]
  have "(\<exists>e. f = Inl e \<and> handler_fails env w e) \<or>
    (\<exists>lat1 cp1 w1. f = Inr (lat1, cp1, w1) \<and> flush_done (\<lambda>x. x \<in> set (ways cp i)) cp cp1 \<and>
      served env (bsize cp) (flush_reqs cp i (ways cp i)) w w1)" by simp
  then show ?case
  proof (elim disjE exE conjE)
    fix e assume "f = Inl e" "handler_fails env w e"
    then show ?thesis by (simp only: step res_bind_simps) blast
  next
    fix lat1 cp1 w1
    assume f: "f = Inr (lat1, cp1, w1)" and fd: "flush_done (\<lambda>x. x \<in> set (ways cp i)) cp cp1"
      and s: "served env (bsize cp) (flush_reqs cp i (ways cp i)) w w1"
    note D = flush_doneD [OF fd]
    note sb = set_blks_cong [OF D(3)] and ns = nsets_cong [OF D(3)]
    have "i + 1 + n \<le> nsets cp1" using Suc.prems(3) by (simp add: ns)
    note IH = Suc.IH [OF D(1,4) this, of lat1 w1, unfolded sb]
    have fr: "flush_reqs cp1 j (ways cp1 j) = flush_reqs cp j (ways cp j)" if j: "j \<in> set [i + 1..<i + 1 + n]" for j
    proof -
      have j': "j < nsets cp" "j \<noteq> i" using j Suc.prems(3) by auto
      have "ln cp1 x = ln cp x" if "x \<in> set (ways cp j)" for x
      proof -
        have "x \<notin> set (ways cp i)"
          using that ways_ok(2) [OF I(3) j'(1)] wi set_blks_disjoint [of x cp j i] j'(2) by auto
        then show ?thesis by (simp add: D(8))
      qed
      then show ?thesis using flush_reqs_cong [OF D(3), of "ways cp j" j] by (simp add: D(5))
    qed
    have m: "map (\<lambda>j. flush_reqs cp1 j (ways cp1 j)) [i + 1..<i + 1 + n] =
        map (\<lambda>j. flush_reqs cp j (ways cp j)) [i + 1..<i + 1 + n]" by (rule map_cong [OF refl fr])
    have pe: "(\<lambda>x. x \<in> set (ways cp i) \<or> (\<exists>j \<in> {i + 1..<i + 1 + n}. x \<in> set_blks cp j)) =
        (\<lambda>x. \<exists>j \<in> {i..<i + Suc n}. x \<in> set_blks cp j)"
    proof (rule ext)
      have "{i..<i + Suc n} = insert i {i + 1..<i + 1 + n}" by auto
      then show "(x \<in> set (ways cp i) \<or> (\<exists>j \<in> {i + 1..<i + 1 + n}. x \<in> set_blks cp j)) =
        (\<exists>j \<in> {i..<i + Suc n}. x \<in> set_blks cp j)" for x by (simp only: wi bex_simps)
    qed
    show ?thesis
      using IH
    proof (elim disjE exE conjE)
      fix e assume "flush_sets (i + 1) n env now (lat1, cp1, w1) = Inl e" "handler_fails env w1 e"
      then show ?thesis using handler_fails_later [OF _ served_later [OF s]] by (simp only: step f res_bind_simps) blast
    next
      fix lat2 cp2 w2
      assume fc: "flush_sets (i + 1) n env now (lat1, cp1, w1) = Inr (lat2, cp2, w2)"
        and fd2: "flush_done (\<lambda>x. \<exists>j \<in> {i + 1..<i + 1 + n}. x \<in> set_blks cp j) cp1 cp2"
        and s2: "served env (bsize cp1) (concat (map (\<lambda>j. flush_reqs cp1 j (ways cp1 j)) [i + 1..<i + 1 + n])) w1 w2"
      have "flush_done (\<lambda>x. \<exists>j \<in> {i..<i + Suc n}. x \<in> set_blks cp j) cp cp2"
        using flush_done_trans [OF fd fd2] by (simp only: pe)
      moreover have "served env (bsize cp) (concat (map (\<lambda>j. flush_reqs cp j (ways cp j)) [i..<i + Suc n])) w w2"
        unfolding up list.map concat.simps using served_append [OF s] s2 unfolding m D(6) by blast
      ultimately show ?thesis unfolding step f res_bind_simps fc by blast
    qed
  qed
qed

lemma in_some_set:
  assumes g: "geom cp" and b: "b < length (data cp)" shows "\<exists>j < nsets cp. b \<in> set_blks cp j"
proof (intro exI conjI)
  note G = geomD [OF g]
  show "b div assoc cp < nsets cp" using b by (simp add: G(7) less_mult_imp_div_less)
  show "b \<in> set_blks cp (b div assoc cp)"
    unfolding set_blks_def using G(2) dividend_less_div_times [of "assoc cp" b] by simp
qed

lemma cache_flush_ok:
  assumes inv: "cache_inv cp"
  shows "(\<exists>e. cache_flush env now (cp, w) = Inl e \<and> handler_fails env w e) \<or>
    (\<exists>lat cp' w'. cache_flush env now (cp, w) = Inr (lat, cp', w') \<and> cache_inv cp' \<and> calm cp cp' \<and> ways cp' = ways cp \<and>
       (\<forall>b < length (data cp). ln cp' b = invalidated (ln cp b)) \<and>
       served env (bsize cp) (concat (map (\<lambda>j. flush_reqs cp j (ways cp j)) [0..<nsets cp])) w w')"
proof -
  define cp0 where "cp0 = with_last 0 None cp"
  have inv0: "cache_inv cp0" "no_last cp0" using with_last_none [OF inv] by (simp_all add: cp0_def)
  have c0: "same_core cp cp0" "calm cp cp0" unfolding cp0_def by (rule with_last_core, rule calm_with_last)
  note g0 = same_core_geom [OF c0(1)]
  have n0: "nsets cp0 = nsets cp" "bsize cp0 = bsize cp" "hit_latency cp0 = hit_latency cp" "length (data cp0) = length (data cp)"
    using g0 by (simp_all add: same_geom_def)
  have w0: "ways cp0 = ways cp" "ln cp0 = ln cp" by (rule ways_core [OF c0(1)], rule ln_core [OF c0(1)])
  have fl: "cache_flush env now (cp, w) = flush_sets 0 (nsets cp0) env now (int (hit_latency cp), cp0, w)"
    by (simp add: cache_flush_def n0 cp0_def with_last_def)
  have fr: "flush_reqs cp0 = flush_reqs cp"
    unfolding flush_reqs_def fun_eq_iff by (simp add: wb_req_cong [OF g0] w0)
  have "0 + nsets cp0 \<le> nsets cp0" by simp
  from flush_sets_ok [OF inv0 this, of env now "int (hit_latency cp)" w, folded fl]
  show ?thesis
  proof (elim disjE exE conjE)
    fix lat cp' w'
    assume r: "cache_flush env now (cp, w) = Inr (lat, cp', w')"
      and fd: "flush_done (\<lambda>x. \<exists>j \<in> {0..<0 + nsets cp0}. x \<in> set_blks cp0 j) cp0 cp'"
      and s: "served env (bsize cp0) (concat (map (\<lambda>j. flush_reqs cp0 j (ways cp0 j)) [0..<0 + nsets cp0])) w w'"
    note D = flush_doneD [OF fd]
    have "ln cp' b = invalidated (ln cp b)" if "b < length (data cp)" for b
    proof -
      have "\<exists>j < nsets cp0. b \<in> set_blks cp0 j"
        by (rule in_some_set [OF cache_invD(2) [OF inv0(1)]]) (simp add: that n0)
      then have "\<exists>j \<in> {0..<0 + nsets cp0}. b \<in> set_blks cp0 j" by auto
      then show ?thesis by (simp only: D(8) if_True w0)
    qed
    moreover have "calm cp cp'" by (rule calm_trans [OF c0(2) D(2)])
    ultimately show ?thesis using r D(1,5) s by (simp add: w0 fr n0)
  qed simp_all
qed

lemma cache_flush_addr_ok:
  assumes inv: "cache_inv cp"
  shows "(\<exists>e. cache_flush_addr env a now (cp, w) = Inl e \<and> handler_fails env w e) \<or>
    (\<not> present cp a \<and> cache_flush_addr env a now (cp, w) = Inr (int (hit_latency cp), cp, w)) \<or>
    (\<exists>b lat cp' w'. b \<in> set_blks cp (set_index cp a) \<and> holds cp (CACHE_TAG cp a) b \<and>
       cache_flush_addr env a now (cp, w) = Inr (lat, cp', w') \<and> cache_inv cp' \<and> calm cp cp' \<and>
       ln cp' = (ln cp)(b := invalidated (ln cp b)) \<and>
       (\<forall>j < nsets cp. ways cp' j = (if j = set_index cp a then remove1 b (ways cp j) @ [b] else ways cp j)) \<and>
       served env (bsize cp) (wb_req cp (set_index cp a) (ln cp b)) w w')"
proof -
  note I = cache_invD [OF inv]
  define k where "k = set_index cp a"
  have k: "k < nsets cp" unfolding k_def by (rule set_index_less [OF I(2)])
  have kw: "CACHE_SET cp a = of_nat k" by (simp add: k_def set_index_def)
  show ?thesis
  proof (cases "present cp a")
    case False
    then have "find_blk (CACHE_SET cp a) (CACHE_TAG cp a) cp = Inr None" unfolding find_blk_eq [OF I(1)] by simp
    then show ?thesis using False by (simp add: cache_flush_addr_def)
  next
    case True
    obtain b where b: "b \<in> set_blks cp k" "holds cp (CACHE_TAG cp a) b"
      using present_blk [OF True] unfolding k_def by blast
    have s: "find_blk (CACHE_SET cp a) (CACHE_TAG cp a) cp = Inr (Some b)"
      unfolding find_blk_eq [OF I(1)] using b by (simp add: k_def)
    define cp0 where "cp0 = with_last 0 None cp"
    have inv0: "cache_inv cp0" "no_last cp0" using with_last_none [OF inv] by (simp_all add: cp0_def)
    have c0: "same_core cp cp0" "calm cp cp0" unfolding cp0_def by (rule with_last_core, rule calm_with_last)
    note g0 = same_core_geom [OF c0(1)]
    have w0: "ways cp0 = ways cp" "ln cp0 = ln cp" by (rule ways_core [OF c0(1)], rule ln_core [OF c0(1)])
    have bl: "b < length (data cp0)" using set_blks_less [OF I(2) k b(1)] g0 by (simp add: same_geom_def)
    have v: "fst (snd (ln cp0 b))" using b(2) by (simp add: w0 holds_ln)
    define f where "f = flush_blk env (of_nat k) b now (int (hit_latency cp), cp0, w)"
    have kk: "unat (of_nat k :: u32) = k" by (simp flip: kw add: k_def set_index_def)
    have fa: "cache_flush_addr env a now (cp, w) =
      res_bind f (\<lambda>(lat, cp1, w1). res_bind (update_way_list k b Tail cp1) (\<lambda>cp2. Inr (lat, cp2, w1)))"
      unfolding cache_flush_addr_def prod.case s res_bind_simps option.case f_def cp0_def with_last_def
      by (simp add: kw kk)
    show ?thesis
      using flush_blk_ok [OF inv0 bl v, of env k now "int (hit_latency cp)" w, folded f_def]
    proof (elim disjE exE conjE)
      fix e assume "f = Inl e" "handler_fails env w e"
      then show ?thesis by (simp add: fa)
    next
      fix lat cp1 w1
      assume f: "f = Inr (lat, cp1, w1)" and fd: "flush_done (\<lambda>x. x = b) cp0 cp1"
        and sv: "served env (bsize cp0) (wb_req cp0 k (ln cp0 b)) w w1"
      note D = flush_doneD [OF fd]
      have g1: "same_geom cp cp1" by (rule same_geom_trans [OF g0 D(3)])
      have b1: "b \<in> set_blks cp1 k" "k < nsets cp1" using b k set_blks_cong [OF g1] nsets_cong [OF g1] by simp_all
      note J = cache_invD [OF D(1)]
      obtain cp3 where cp3: "update_way_list k b Tail cp1 = Inr cp3" "core_only cp1 cp3" "lists_ok {} cp3"
        "ln cp3 = ln cp1" "ways cp3 k = placed Tail b (ways cp1 k)"
        "\<And>j. j < nsets cp1 \<Longrightarrow> j \<noteq> k \<Longrightarrow> ways cp3 j = ways cp1 j"
        by (rule move_block [OF J(3) b1(2,1), where loc = Tail]) blast
      have calm3: "calm cp1 cp3" by (rule calm_core [OF cp3(2)])
      then have g3: "same_geom cp1 cp3" by (simp add: calm_def)
      have n3: "no_last cp3" using D(4) core_last [OF cp3(2)] by (simp add: no_last_def)
      have p3: "pf_ok cp3" using pf_ok_cong [OF g3] calm3 J(6) by (simp add: calm_def)
      have "cache_inv cp3"
        by (rule inv_no_last [OF g3 D(1) cp3(3) uniq_same [OF g3 ln_holds [OF cp3(4)] J(4)] p3 n3])
      moreover have "calm cp cp3" by (rule calm_trans [OF calm_trans [OF c0(2) D(2)] calm3])
      moreover have "ln cp3 = (ln cp)(b := invalidated (ln cp b))" using D(8) by (auto simp: cp3(4) w0 fun_eq_iff)
      moreover have "\<forall>j < nsets cp. ways cp3 j = (if j = k then remove1 b (ways cp j) @ [b] else ways cp j)"
        using cp3(5,6) nsets_cong [OF g1] by (simp add: D(5) w0 placed_def)
      moreover have "served env (bsize cp) (wb_req cp k (ln cp b)) w w1"
        using sv wb_req_cong [OF g0] g0 by (simp add: w0 same_geom_def)
      moreover have "cache_flush_addr env a now (cp, w) = Inr (lat, cp3, w1)"
        by (simp add: fa f cp3(1))
      ultimately show ?thesis using b by (simp add: k_def) blast
    qed
  qed
qed

context next_level
begin

lemma flush_keeps:
  assumes "cache_flush env now m = Inr (lat, m')" shows "keeps J m m'"
proof (cases "cache_inv (fst m)")
  case True
  obtain cp w where m: "m = (cp, w)" by (cases m)
  have inv: "cache_inv cp" using True m by simp
  from cache_flush_ok [OF inv, of env now w] assms[unfolded m] obtain cp' w' ws where
    "m' = (cp', w')" "cache_inv cp'" "calm cp cp'" "served env (bsize cp) ws w w'" by auto
  then show ?thesis using served_keeps by (simp add: keeps_def m calm_def)
qed (simp add: keeps_def)

lemma flush_addr_keeps:
  assumes "cache_flush_addr env a now m = Inr (lat, m')" shows "keeps J m m'"
proof (cases "cache_inv (fst m)")
  case True
  obtain cp w where m: "m = (cp, w)" by (cases m)
  have inv: "cache_inv cp" using True m by simp
  from cache_flush_addr_ok [OF inv, of env a now w] assms[unfolded m] consider "m' = (cp, w)"
    | cp' w' ws where "m' = (cp', w')" "cache_inv cp'" "calm cp cp'" "served env (bsize cp) ws w w'" by auto
  then show ?thesis using served_keeps by cases (auto simp: keeps_def m calm_def)
qed (simp add: keeps_def)

end

section \<open>Runs of a cache\<close>

text \<open>
  One call of the interface of the cache that returns, and sequences of such calls, each on behalf of an
  instruction of its own.
\<close>

inductive cache_step :: "'w env \<Rightarrow> 'w mem \<Rightarrow> 'w mem \<Rightarrow> bool" for env where
  step_access: "cache_access env cmd a n now pf m = Inr (lat, ra, m') \<Longrightarrow> cache_step env m m'"
| step_flush: "cache_flush env now m = Inr (lat, m') \<Longrightarrow> cache_step env m m'"
| step_flush_addr: "cache_flush_addr env a now m = Inr (lat, m') \<Longrightarrow> cache_step env m m'"

inductive cache_run :: "(md_addr \<Rightarrow> 'w env) \<Rightarrow> 'w mem \<Rightarrow> 'w mem \<Rightarrow> bool" for env m where
  run_start: "cache_run env m m"
| run_step: "cache_run env m m1 \<Longrightarrow> cache_step (env pc) m1 m2 \<Longrightarrow> cache_run env m m2"

inductive_simps cache_step_iff: "cache_step env m m'"

context next_level
begin

lemma step_keeps: "cache_step env m m' \<Longrightarrow> keeps J m m'"
  by (induction rule: cache_step.induct) (rule access_keeps flush_keeps flush_addr_keeps, assumption)+

end

text \<open>
  The two levels of \<open>sim-cache\<close>: the second level over main memory, and the first level over the second,
  whose own invariant is what the first level asks of it.
\<close>

interpretation memory: next_level "dl2_env rnd pc" "\<lambda>_. True" for rnd pc
  by unfold_locales simp_all

definition level2_ok :: "cache_t option \<times> 'r \<Rightarrow> bool" where
  "level2_ok w = (case fst w of None \<Rightarrow> True | Some l2 \<Rightarrow> cache_inv l2)"

interpretation level2: next_level "dl1_env rnd pc" level2_ok for rnd :: "'r \<Rightarrow> nat \<times> 'r" and pc
proof unfold_locales
  fix w w' :: "cache_t option \<times> 'r" and c a n t pf l
  assume w: "level2_ok w" and r: "blk_access_fn (dl1_env rnd pc) c a n t pf w = Inr (l, w')"
  obtain dl2 s where ws: "w = (dl2, s)" by (cases w)
  show "level2_ok w'"
  proof (cases dl2)
    case None
    then show ?thesis using r by (auto simp: dl1_env_def dl1_access_fn_def ws level2_ok_def)
  next
    case (Some l2)
    from r obtain ra l2' s' where "cache_access (dl2_env rnd pc) c a (of_nat n) t pf (l2, s) = Inr (l, ra, l2', s')"
      and w': "w' = (Some l2', s')"
      by (auto simp: dl1_env_def dl1_access_fn_def ws Some res_bind_eq_Inr)
    from memory.access_keeps [OF this(1)] w show ?thesis by (simp add: keeps_def ws w' Some level2_ok_def)
  qed
next
  fix w :: "cache_t option \<times> 'r" assume "level2_ok w"
  then show "level2_ok (snd (myrand (dl1_env rnd pc) w))"
    by (cases w) (simp add: dl1_env_def level2_ok_def split: prod.split)
qed

lemma two_levels_keep: "cache_run (dl1_env rnd) m m' \<Longrightarrow> keeps level2_ok m m'"
  by (induction rule: cache_run.induct) (auto intro: keeps_trans level2.step_keeps)

end
