(* ===== verification/Lab5_Create.thy ===== *)
theory Lab5_Create
  imports Lab5_Levels
begin

text \<open>
  \<open>cache_create\<close> of lab 5: the lists it builds block by block, and the cache it returns.
\<close>

section \<open>Changes of one set\<close>

definition set_change :: "nat \<Rightarrow> nat set \<Rightarrow> cache_t \<Rightarrow> cache_t \<Rightarrow> bool" where
  "set_change k B cp cp' \<longleftrightarrow> core_only cp cp' \<and> (\<forall>x. x \<notin> B \<longrightarrow> data cp' ! x = data cp ! x) \<and>
     (\<forall>j. j \<noteq> k \<longrightarrow> sets cp' ! j = sets cp ! j) \<and> blks (sets cp' ! k) = blks (sets cp ! k)"

lemma set_change_trans: "set_change k B a b \<Longrightarrow> set_change k B b c \<Longrightarrow> set_change k B a c"
  unfolding set_change_def using core_only_trans by auto

lemma hash_set_change: "hash_change k X cp cp' \<Longrightarrow> X \<subseteq> B \<Longrightarrow> set_change k B cp cp'"
  unfolding set_change_def hash_change_def core_only_def by blast

text \<open>The lists of one set over the blocks \<open>X\<close>.\<close>

definition set_good :: "nat \<Rightarrow> nat set \<Rightarrow> cache_t \<Rightarrow> bool" where
  "set_good k X cp \<longleftrightarrow> (\<exists>xs. way_list k cp xs \<and> set xs = X) \<and> (hsize cp \<noteq> 0 \<longrightarrow> buckets k X cp)"

lemma set_good_frame:
  assumes c: "core_only cp cp'" and s: "sets cp' ! j = sets cp ! j"
    and d: "\<And>x. x \<in> X \<Longrightarrow> data cp' ! x = data cp ! x" and ok: "set_good j X cp"
  shows "set_good j X cp'"
proof -
  note g = core_only_geom [OF c]
  obtain xs where xs: "way_list j cp xs" "set xs = X" using ok by (auto simp: set_good_def)
  have "way_list j cp' xs = way_list j cp xs"
    by (rule way_list_frame) (use c s d xs(2) in \<open>simp_all add: core_only_def\<close>)
  moreover have "hsize cp' = hsize cp" using g by (simp add: same_geom_def)
  moreover have "buckets j X cp'" if "buckets j X cp"
    by (rule buckets_frame [OF _ g _ that]) (use s d in simp_all)
  ultimately show ?thesis using ok xs by (auto simp: set_good_def)
qed

section \<open>A block enters a set\<close>

definition push_way :: "nat \<Rightarrow> nat \<Rightarrow> cache_t \<Rightarrow> cache_t res" where
  "push_way k b cp =
     res_bind (vec_get (sets cp) k) (\<lambda>st.
     res_bind (upd_blk (Some b) (\<lambda>b. b\<lparr>way_next := way_head st, way_prev := None\<rparr>) cp) (\<lambda>cp3.
     res_bind (if way_head st \<noteq> None then upd_blk (way_head st) (\<lambda>x. x\<lparr>way_prev := Some b\<rparr>) cp3
               else Inr cp3) (\<lambda>cp4.
     upd_set k (\<lambda>st. st\<lparr>way_head := Some b,
       way_tail := (if way_tail st = None then Some b else way_tail st)\<rparr>) cp4)))"

lemma push_way_ok:
  assumes wl: "way_list k cp xs" and b: "b \<notin> set xs" "b < length (data cp)"
  shows "\<exists>cp'. push_way k b cp = Inr cp' \<and> ways_change k (insert b (set xs)) cp cp' \<and> way_list k cp' (b # xs)"
proof (cases xs)
  case Nil
  have k: "k < length (sets cp)" and e: "way_head (sets cp ! k) = None" "way_tail (sets cp ! k) = None"
    using wl by (simp_all add: way_list_def dll_def Nil)
  let ?cp = "cp\<lparr>data := (data cp)[b := (data cp ! b)\<lparr>way_next := None, way_prev := None\<rparr>],
    sets := (sets cp)[k := (sets cp ! k)\<lparr>way_head := Some b, way_tail := Some b\<rparr>]\<rparr>"
  have "push_way k b cp = Inr ?cp" using k b by (simp add: push_way_def e)
  moreover have "way_list k ?cp (b # xs)" using k b by (simp add: way_list_def dll_def Nil)
  moreover have "ways_change k (insert b (set xs)) cp ?cp"
    using k b unfolding ways_change_def by (auto simp: nth_list_update no_ways_def)
  ultimately show ?thesis by blast
next
  case (Cons y ys)
  define d where "d = data cp"
  have dll: "dll (nextf d) (prevf d) (way_head (sets cp ! k)) (way_tail (sets cp ! k)) xs"
    and k: "k < length (sets cp)" and sub: "set xs \<subseteq> {..<length d}"
    using wl by (simp_all add: way_list_def d_def)
  have h: "way_head (sets cp ! k) = Some y" "way_tail (sets cp ! k) \<noteq> None"
    using dll_ends(1,2) [OF dll] by (simp_all add: Cons)
  have y: "y < length d" "y \<in> set xs" "y \<noteq> b" using sub b(1) by (auto simp: Cons)
  define d1 where "d1 = d[b := (d ! b)\<lparr>way_next := Some y, way_prev := None\<rparr>]"
  define d2 where "d2 = d1[y := (d1 ! y)\<lparr>way_prev := Some b\<rparr>]"
  define cp' where "cp' = cp\<lparr>data := d2, sets := (sets cp)[k := (sets cp ! k)\<lparr>way_head := Some b\<rparr>]\<rparr>"
  have len: "length d2 = length d" "length d1 = length d" by (simp_all add: d2_def d1_def)
  obtain z where z: "way_tail (sets cp ! k) = Some z" using h(2) by blast
  have st: "(sets cp ! k)\<lparr>way_head := Some b, way_tail := Some z\<rparr> = (sets cp ! k)\<lparr>way_head := Some b\<rparr>"
    using z by (cases "sets cp ! k") simp
  have "push_way k b cp =
      Inr (cp\<lparr>data := d2, sets := (sets cp)[k := (sets cp ! k)\<lparr>way_head := Some b, way_tail := Some z\<rparr>]\<rparr>)"
    using k b(2) y by (simp add: push_way_def h(1) z d2_def d1_def d_def)
  then have "push_way k b cp = Inr cp'" by (simp only: st cp'_def)
  moreover have "nextf d2 = (nextf d)(b := Some y)" "prevf d2 = (prevf d)(b := None, y := Some b)"
    using b(2) y unfolding d2_def d1_def d_def
    by (simp_all add: links_update nth_list_update fun_eq_iff)
  then have "dll (nextf d2) (prevf d2) (Some b) (way_tail (sets cp ! k)) (b # xs)"
    using dll_push [OF dll b(1) h(1)] by (simp add: h(1))
  then have "way_list k cp' (b # xs)"
    using k sub b(2) by (simp add: way_list_def cp'_def len) (simp add: d_def)
  moreover have "ways_change k (insert b (set xs)) cp cp'"
    using k b(2) y unfolding ways_change_def cp'_def d2_def d1_def d_def
    by (auto simp: nth_list_update no_ways_def)
  ultimately show ?thesis by blast
qed

lemma create_blk_split: "create_blk k b cp =
    res_bind (upd_blk (Some b) (\<lambda>b. b\<lparr>status := 0, tag := 0, ready := 0\<rparr>) cp) (\<lambda>cp1.
    res_bind (if hsize cp1 \<noteq> 0 then link_htab_ent k b cp1 else Inr cp1) (push_way k b))"
  unfolding create_blk_def push_way_def ..

lemma create_blk_ok:
  assumes good: "set_good k X cp" and hs: "hsize cp < 2 ^ 32" and b: "b \<notin> X" "b < length (data cp)" and B: "insert b X \<subseteq> B"
    and inval: "\<forall>x. x \<noteq> b \<longrightarrow> fst (snd (ln cp x)) \<longrightarrow> V x"
  obtains cp' where "create_blk k b cp = Inr cp'" and "set_change k B cp cp'" and "set_good k (insert b X) cp'"
    and "\<forall>x. fst (snd (ln cp' x)) \<longrightarrow> V x"
proof -
  obtain xs where xs: "way_list k cp xs" "set xs = X" using good by (auto simp: set_good_def)
  have k: "k < length (sets cp)" using xs(1) by (simp add: way_list_def)
  define cp1 where "cp1 = cp\<lparr>data := (data cp)[b := (data cp ! b)\<lparr>status := 0, tag := 0, ready := 0\<rparr>]\<rparr>"
  have s1: "set_change k B cp cp1"
  proof -
    have "data cp1 ! x = data cp ! x" if "x \<notin> B" for x
    proof -
      have "x \<noteq> b" using that B by blast
      then show ?thesis by (simp add: cp1_def)
    qed
    then show ?thesis by (simp add: set_change_def core_only_def) (simp add: cp1_def)
  qed
  have c1: "core_only cp cp1" using s1 by (simp add: set_change_def)
  have "set_good k X cp1"
    by (rule set_good_frame [OF c1 _ _ good]) (use b in \<open>auto simp: cp1_def nth_list_update\<close>)
  note g1 = this
  have w1: "way_list k cp1 xs"
    by (subst way_list_frame [of cp1 k cp]) (use xs b in \<open>auto simp: cp1_def nth_list_update\<close>)
  have hs1: "hsize cp1 = hsize cp" and bl1: "b < length (data cp1)" using b by (simp_all add: cp1_def)
  have inv1: "\<forall>x. fst (snd (ln cp1 x)) \<longrightarrow> V x"
  proof (intro allI impI)
    fix x assume v: "fst (snd (ln cp1 x))"
    show "V x"
    proof (cases "x = b")
      case True
      then show ?thesis using v b by (simp add: cp1_def ln_def is_valid_def)
    next
      case False
      then show ?thesis using v inval by (simp add: cp1_def ln_def)
    qed
  qed
  obtain cp2 where cp2: "(if hsize cp1 \<noteq> 0 then link_htab_ent k b cp1 else Inr cp1) = Inr cp2"
    "set_change k B cp1 cp2" "way_list k cp2 xs" "hsize cp2 \<noteq> 0 \<longrightarrow> buckets k (insert b X) cp2" "ln cp2 = ln cp1"
  proof (cases "hsize cp1 = 0")
    case True
    have "set_change k B cp1 cp1" by (simp add: set_change_def core_only_refl)
    then show thesis using True w1 by (intro that [of cp1]) simp_all
  next
    case False
    have bk: "buckets k X cp1" using g1 False by (simp add: set_good_def)
    obtain cp2 where cp2: "link_htab_ent k b cp1 = Inr cp2" "hash_change k (insert b X) cp1 cp2" "buckets k (insert b X) cp2"
      using link_htab_ent_ok [OF bk b(1) bl1] False hs hs1 by auto
    have "way_next (data cp2 ! x) = way_next (data cp1 ! x)" "way_prev (data cp2 ! x) = way_prev (data cp1 ! x)" for x
      using cp2(2) unfolding hash_change_def no_hash_fields by simp_all
    moreover have "way_head (sets cp2 ! k) = way_head (sets cp1 ! k)" "way_tail (sets cp2 ! k) = way_tail (sets cp1 ! k)"
      "length (sets cp2) = length (sets cp1)" "length (data cp2) = length (data cp1)"
      using cp2(2) unfolding hash_change_def by simp_all
    ultimately have "way_list k cp2 xs" using w1 by (simp add: way_list_def)
    moreover have "ln cp2 = ln cp1" using cp2(2) by (intro no_hash_ln) (simp add: hash_change_def)
    ultimately show thesis using False cp2(1,3) hash_set_change [OF cp2(2) B] by (intro that [of cp2]) simp_all
  qed
  have bl2: "b < length (data cp2)" using bl1 cp2(2) by (simp add: set_change_def core_only_def)
  obtain cp3 where cp3: "push_way k b cp2 = Inr cp3" "ways_change k (insert b X) cp2 cp3" "way_list k cp3 (b # xs)"
    using push_way_ok [OF cp2(3) _ bl2] b(1) xs(2) by auto
  have s3: "set_change k B cp2 cp3"
    using cp3(2) B unfolding ways_change_def set_change_def core_only_def by blast
  note g3 = ways_change_geom [OF cp3(2)]
  have "buckets k (insert b X) cp3" if "hsize cp3 \<noteq> 0"
  proof (rule buckets_frame [OF _ g3])
    show "hash (sets cp3 ! k) = hash (sets cp2 ! k)" using cp3(2) by (simp add: ways_change_def)
    show "hash_next (data cp3 ! x) = hash_next (data cp2 ! x) \<and> tag (data cp3 ! x) = tag (data cp2 ! x)" for x
      using cp3(2) unfolding ways_change_def no_ways_fields by simp
    show "buckets k (insert b X) cp2" using cp2(4) that g3 by (simp add: same_geom_def)
  qed
  then have "set_good k (insert b X) cp3" using cp3(3) xs(2) unfolding set_good_def by force
  moreover have "ln cp3 = ln cp2" using cp3(2) by (intro no_ways_ln) (simp add: ways_change_def)
  moreover have "create_blk k b cp = Inr cp3"
    using b(2) cp2(1) cp3(1) by (simp add: create_blk_split flip: cp1_def)
  moreover have "set_change k B cp cp3" by (rule set_change_trans [OF set_change_trans [OF s1 cp2(2)] s3])
  ultimately show thesis using inv1 cp2(5) by (intro that [of cp3]) simp_all
qed

section \<open>The loops\<close>

lemma create_blks_ok:
  assumes "set_good k {c..<b} cp" and "hsize cp < 2 ^ 32" and "c \<le> b" and "b + j \<le> length (data cp)"
    and "{c..<b + j} \<subseteq> B" and "\<forall>x. fst (snd (ln cp x)) \<longrightarrow> V x"
  shows "\<exists>cp'. create_blks k b j cp = Inr cp' \<and> set_change k B cp cp' \<and> set_good k {c..<b + j} cp' \<and>
    (\<forall>x. fst (snd (ln cp' x)) \<longrightarrow> V x)"
  using assms
proof (induction j arbitrary: b cp)
  case 0
  then show ?case by (simp add: set_change_def core_only_refl)
next
  case (Suc j)
  have ins: "insert b {c..<b} = {c..<b + 1}" using Suc.prems(3) by auto
  have sub: "insert b {c..<b} \<subseteq> B" unfolding ins using Suc.prems(5) by auto
  obtain cp1 where cp1: "create_blk k b cp = Inr cp1" "set_change k B cp cp1" "set_good k {c..<b + 1} cp1"
    "\<forall>x. fst (snd (ln cp1 x)) \<longrightarrow> V x"
    using create_blk_ok [OF Suc.prems(1,2) _ _ sub, of V] Suc.prems(4,6) unfolding ins by auto
  have g: "same_geom cp cp1" using cp1(2) core_only_geom by (simp add: set_change_def)
  then have "hsize cp1 < 2 ^ 32" "b + 1 + j \<le> length (data cp1)" using Suc.prems(2,4) by (simp_all add: same_geom_def)
  moreover have "c \<le> b + 1" "{c..<b + 1 + j} \<subseteq> B" using Suc.prems(3,5) by auto
  ultimately obtain cp' where cp': "create_blks k (b + 1) j cp1 = Inr cp'" "set_change k B cp1 cp'"
    "set_good k {c..<b + 1 + j} cp'" "\<forall>x. fst (snd (ln cp' x)) \<longrightarrow> V x"
    using Suc.IH [OF cp1(3) _ _ _ _ cp1(4)] by blast
  then show ?case using cp1(1) set_change_trans [OF cp1(2) cp'(2)] by simp
qed

definition made :: "nat \<Rightarrow> cache_t \<Rightarrow> bool" where
  "made k cp \<longleftrightarrow> (\<forall>j < k. set_good j (set_blks cp j) cp \<and> blks (sets cp ! j) = j * assoc cp)"

lemma made_frame:
  assumes c: "core_only cp cp'" and s: "\<And>j. j < k \<Longrightarrow> sets cp' ! j = sets cp ! j"
    and d: "\<And>j x. j < k \<Longrightarrow> x \<in> set_blks cp j \<Longrightarrow> data cp' ! x = data cp ! x" and ok: "made k cp"
  shows "made k cp'"
proof -
  note g = core_only_geom [OF c]
  have "assoc cp' = assoc cp" using g by (simp add: same_geom_def)
  then show ?thesis
    using ok s set_good_frame [OF c s d] unfolding made_def set_blks_cong [OF g] by simp
qed

lemma create_sets_ok:
  assumes "made k cp" and "k + i = length (sets cp)" and "length (data cp) = length (sets cp) * assoc cp"
    and "hsize cp < 2 ^ 32" and "\<forall>x. fst (snd (ln cp x)) \<longrightarrow> V x"
  shows "if hsize cp = 0 \<or> (\<forall>j \<in> {k..<k + i}. alloc (2 + j))
    then \<exists>cp'. create_sets alloc k (k * assoc cp) i cp = Inr cp' \<and> core_only cp cp' \<and> made (k + i) cp' \<and>
      (\<forall>x. fst (snd (ln cp' x)) \<longrightarrow> V x)
    else create_sets alloc k (k * assoc cp) i cp = Inl Fatal"
  using assms
proof (induction i arbitrary: k cp)
  case 0
  then show ?case by (simp add: core_only_refl)
next
  case (Suc i)
  have k: "k < length (sets cp)" using Suc.prems(2) by simp
  define st where "st = (sets cp ! k)\<lparr>way_head := None, way_tail := None, hash := replicate (hsize cp) None, blks := k * assoc cp\<rparr>"
  define cp1 where "cp1 = cp\<lparr>sets := (sets cp)[k := st]\<rparr>"
  have c1: "core_only cp cp1" by (simp add: core_only_def cp1_def)
  have F: "assoc cp1 = assoc cp" "hsize cp1 = hsize cp" "data cp1 = data cp" "length (sets cp1) = length (sets cp)"
    "set_blks cp1 = set_blks cp" "sets cp1 ! k = st"
    using set_blks_cong [OF core_only_geom [OF c1]] k by (simp_all add: cp1_def)
  have m1: "made k cp1" by (rule made_frame [OF c1 _ _ Suc.prems(1)]) (simp_all add: cp1_def)
  have "buckets k {} cp1"
    using k by (simp add: buckets_def F st_def)
  moreover have "way_list k cp1 []" using k by (simp add: way_list_def dll_def F st_def)
  ultimately have g0: "set_good k {k * assoc cp..<k * assoc cp} cp1" by (auto simp: set_good_def)
  have "(k + 1) * assoc cp \<le> length (sets cp) * assoc cp" using k by (intro mult_right_mono) simp_all
  then have le: "k * assoc cp + assoc cp \<le> length (data cp1)" using Suc.prems(3) by (simp add: F)
  have blk: "{k * assoc cp..<k * assoc cp + assoc cp} = set_blks cp k" by (simp add: set_blks_def add.commute)
  have l1: "ln cp1 = ln cp" by (simp add: ln_def fun_eq_iff F)
  obtain cp2 where cp2: "create_blks k (k * assoc cp) (assoc cp) cp1 = Inr cp2" "set_change k (set_blks cp k) cp1 cp2"
    "set_good k (set_blks cp k) cp2" "\<forall>x. fst (snd (ln cp2 x)) \<longrightarrow> V x"
    using create_blks_ok [OF g0 _ order_refl le, of "set_blks cp k" V] Suc.prems(4,5) unfolding blk F(2) l1 by auto
  have c12: "core_only cp1 cp2" using cp2(2) by (simp add: set_change_def)
  note c2 = core_only_trans [OF c1 c12]
  note g2 = core_only_geom [OF c2]
  have G: "assoc cp2 = assoc cp" "hsize cp2 = hsize cp" "length (data cp2) = length (data cp)"
    "length (sets cp2) = length (sets cp)" "set_blks cp2 = set_blks cp"
    using g2 set_blks_cong [OF g2] by (simp_all add: same_geom_def)
  have "made k cp2"
  proof (rule made_frame [OF c12 _ _ m1])
    show "sets cp2 ! j = sets cp1 ! j" if "j < k" for j using cp2(2) that by (simp add: set_change_def)
    show "data cp2 ! x = data cp1 ! x" if "j < k" "x \<in> set_blks cp1 j" for j x
    proof -
      have "x \<notin> set_blks cp k" using that set_blks_disjoint [of x cp j k] by (auto simp: F)
      then show ?thesis using cp2(2) by (simp add: set_change_def)
    qed
  qed
  moreover have "blks (sets cp2 ! k) = k * assoc cp" using cp2(2) by (simp add: set_change_def F st_def)
  ultimately have m2: "made (k + 1) cp2" using cp2(3) unfolding made_def by (auto simp: less_Suc_eq G)
  have "(k + 1) + i = length (sets cp2)" "length (data cp2) = length (sets cp2) * assoc cp2" "hsize cp2 < 2 ^ 32"
    using Suc.prems(2-4) by (simp_all add: G)
  note IH = Suc.IH [OF m2 this cp2(4)]
  have "upd_set k (\<lambda>st. st\<lparr>way_head := None, way_tail := None, hash := replicate (hsize cp) None,
      blks := k * assoc cp\<rparr>) cp = Inr cp1"
    using k by (simp add: cp1_def st_def del: replicate.simps)
  then have "create_sets alloc k (k * assoc cp) (Suc i) cp =
      (if hsize cp \<noteq> 0 \<and> \<not> alloc (2 + k) then Inl Fatal
       else create_sets alloc (k + 1) (k * assoc cp + assoc cp) i cp2)"
    unfolding create_sets.simps by (simp only: res_bind_simps F(1) cp2(1))
  also have "k * assoc cp + assoc cp = (k + 1) * assoc cp2" by (simp add: G)
  finally have step: "create_sets alloc k (k * assoc cp) (Suc i) cp =
      (if hsize cp \<noteq> 0 \<and> \<not> alloc (2 + k) then Inl Fatal
       else create_sets alloc (k + 1) ((k + 1) * assoc cp2) i cp2)" .
  have all: "(\<forall>j \<in> {k..<k + Suc i}. alloc (2 + j)) \<longleftrightarrow> alloc (2 + k) \<and> (\<forall>j \<in> {k + 1..<k + 1 + i}. alloc (2 + j))"
  proof -
    have "{k..<k + Suc i} = insert k {k + 1..<k + 1 + i}" by auto
    then show ?thesis by simp
  qed
  show ?case
    using IH core_only_trans [OF c2] unfolding step all G(2) by (cases "hsize cp = 0"; cases "alloc (2 + k)") (auto split: if_splits)
qed

section \<open>Powers of two\<close>

lemma pow2_and: "(2 ^ m :: int) AND (2 ^ m - 1) = 0"
proof -
  have "(2 ^ m :: int) AND (2 ^ m - 1) = take_bit m (2 ^ m)" by (simp add: take_bit_eq_mask mask_eq_exp_minus_1)
  then show ?thesis by simp
qed

lemma log_loop_pow: "log_loop (2 ^ m) p = p + m"
proof (induction m arbitrary: p)
  case 0
  then show ?case by (simp add: log_loop.simps)
next
  case (Suc m)
  then show ?case by (simp add: log_loop.simps [of "2 * 2 ^ m"])
qed

lemma log_base2_pow: "log_base2 (2 ^ m) = Inr m"
  using pow2_and [of m] by (simp add: log_base2_def log_loop_pow nat_power_eq not_le)

lemma pow2I:
  assumes "0 < (n :: int)" and "n AND (n - 1) = 0" obtains m where "n = 2 ^ m"
proof -
  have "\<exists>m. n = 2 ^ m" if "0 < n" "n AND (n - 1) = 0" for n :: int
    using that
  proof (induction "nat n" arbitrary: n rule: less_induct)
    case less
    show ?case
    proof (cases "even n")
      case True
      then obtain h where h: "n = 2 * h" by blast
      have "2 * h AND (2 * h - 1) = 2 * (h AND (h - 1))"
      proof -
        have d: "(2 * h - 1) div 2 = h - 1" by linarith
        show ?thesis
        proof (rule bit_eqI)
          fix n
          show "bit (2 * h AND (2 * h - 1)) n = bit (2 * (h AND (h - 1))) n"
          proof (cases n)
            case 0
            then show ?thesis by (simp add: bit_0 even_and_iff)
          next
            case (Suc m)
            have "bit (2 * h AND (2 * h - 1)) n \<longleftrightarrow> bit h m \<and> bit (h - 1) m"
              unfolding bit_and_iff Suc by (simp add: bit_Suc d)
            moreover have "bit (2 * (h AND (h - 1))) n \<longleftrightarrow> bit h m \<and> bit (h - 1) m"
              unfolding Suc by (simp add: bit_Suc bit_and_iff)
            ultimately show ?thesis by simp
          qed
        qed
      qed
      then have "h AND (h - 1) = 0" using less.prems(2) h by simp
      moreover have "0 < h" "nat h < nat n" using less.prems(1) h by auto
      ultimately obtain m where "h = 2 ^ m" using less.hyps by blast
      then have "n = 2 ^ Suc m" using h by simp
      then show ?thesis by blast
    next
      case False
      then obtain b where b: "n = 2 * b + 1" by (elim oddE)
      have "(2 * b + 1) AND (2 * b) = 2 * b"
      proof (rule bit_eqI)
        show "bit ((2 * b + 1) AND (2 * b)) m = bit (2 * b) m" for m
          unfolding bit_and_iff by (cases m) (simp_all add: bit_0 bit_Suc)
      qed
      then have "n AND (n - 1) = n - 1" by (simp add: b)
      then have "n = 2 ^ 0" using less.prems by simp
      then show ?thesis by blast
    qed
  qed
  then show thesis using assms that by blast
qed

section \<open>The cache created\<close>

text \<open>The parameters \<open>cache_create\<close> accepts, and the bound on the size of what it indexes.\<close>

definition creatable :: "int \<Rightarrow> int \<Rightarrow> int \<Rightarrow> int \<Rightarrow> int \<Rightarrow> bool" where
  "creatable ns bs us as pt \<longleftrightarrow> 0 < ns \<and> ns AND (ns - 1) = 0 \<and> 8 \<le> bs \<and> bs AND (bs - 1) = 0 \<and> 0 \<le> us \<and>
     0 < as \<and> as AND (as - 1) = 0 \<and> 0 \<le> pt"

definition addressable :: "int \<Rightarrow> int \<Rightarrow> int \<Rightarrow> bool" where
  "addressable ns bs as \<longleftrightarrow> ns * bs < 2 ^ 32 \<and> as < 2 ^ 31"

definition blank :: "nat \<Rightarrow> nat \<Rightarrow> nat \<Rightarrow> cache_policy \<Rightarrow> nat \<Rightarrow> nat \<Rightarrow> cache_t" where
  "blank ls lb la pol hl pt =
    \<lparr>nsets = 2 ^ ls, bsize = 2 ^ lb, assoc = 2 ^ la, policy = pol, hit_latency = hl, prefetch_type = pt,
     hsize = (if (2::nat) ^ la > 4 then 2 ^ la div 4 else 0), blk_mask = mask lb, set_shift = lb,
     set_mask = mask ls, tag_shift = lb + ls,
     tagset_mask = NOT (mask lb), bus_free = 0, hits = 0, misses = 0, replacements = 0,
     writebacks = 0, invalidations = 0, read_hits = 0, read_misses = 0, prefetch_hits = 0,
     prefetch_misses = 0, last_tagset = 0, last_blk = None,
     data = replicate (2 ^ ls * 2 ^ la) zero_blk,
     rpt = (if pt \<ge> 2 then Some (new_rpt (if pt = 2 then RPT_DEFAULT_SIZE else pt)) else None),
     miss_queue = (if pt = 2 then replicate MISS_QUEUE_MAX_SIZE 0 else []),
     miss_queue_size = 0, miss_queue_head = 0,
     sets = replicate (2 ^ ls) \<lparr>hash = [], way_head = None, way_tail = None, blks = 0\<rparr>\<rparr>"

lemma of_int_mask: "(of_int (2 ^ m - 1) :: u32) = mask m"
  by (simp add: mask_eq_exp_minus_1)

lemma creatableE:
  assumes c: "creatable ns bs us as pt" and a: "addressable ns bs as"
  obtains ls lb la where "ns = 2 ^ ls" and "bs = 2 ^ lb" and "as = 2 ^ la" and "3 \<le> lb" and "lb + ls < 32" and "la < 31"
proof -
  obtain ls where ls: "ns = 2 ^ ls" using pow2I [of ns] c by (auto simp: creatable_def)
  obtain lb where lb: "bs = 2 ^ lb" using pow2I [of bs] c by (auto simp: creatable_def)
  obtain la where la: "as = 2 ^ la" using pow2I [of as] c by (auto simp: creatable_def)
  have "(2::int) ^ 3 \<le> 2 ^ lb" using c lb by (simp add: creatable_def)
  then have "3 \<le> lb" by (simp only: power_increasing_iff) 
  moreover have "(2::int) ^ (lb + ls) < 2 ^ 32" using a ls lb by (simp add: addressable_def power_add mult.commute)
  then have "lb + ls < 32" by (simp only: power_strict_increasing_iff)
  moreover have "(2::int) ^ la < 2 ^ 31" using a la by (simp add: addressable_def)
  then have "la < 31" by (simp only: power_strict_increasing_iff)
  ultimately show thesis by (rule that [OF ls lb la])
qed

lemma cache_create_blank:
  assumes c: "creatable (2 ^ ls) (2 ^ lb) us (2 ^ la) pt" and h0: "blk_fn" "alloc 0"
  shows "cache_create alloc blk_fn (2 ^ ls) (2 ^ lb) us (2 ^ la) pol hl pt =
    (if 32 < lb + ls \<or> (2 :: int) ^ 31 \<le> 2 ^ ls * 2 ^ la then Inl OutOfRange
     else if \<not> alloc 1 then Inl Fatal
     else create_sets alloc 0 0 (2 ^ ls) (blank ls lb la pol hl (nat pt)))"
proof -
  have n: "nat (2 ^ m) = 2 ^ m" for m by (simp add: nat_power_eq)
  have h: "CACHE_HIGHLY_ASSOC (2 ^ la) = ((2::nat) ^ la > 4)"
  proof -
    have "((4::int) < 2 ^ la) = (int 4 < int (2 ^ la))" by simp
    then show ?thesis unfolding CACHE_HIGHLY_ASSOC_def of_nat_less_iff by simp
  qed
  have "(\<not> (2::int) ^ ls \<le> 0)" "(\<not> (2::int) ^ la \<le> 0)" "(\<not> (2::int) ^ lb < 8)" "\<not> us < 0" "\<not> pt < 0"
    using c by (simp_all add: creatable_def not_le not_less)
  then show ?thesis
    using h0 unfolding cache_create_def Let_def pow2_and log_base2_pow res_bind_simps n h of_int_mask
    by (simp add: blank_def)
qed

lemma blank_geom:
  assumes "3 \<le> lb" and "lb + ls < 32" and "la < 31"
  shows "geom (blank ls lb la pol hl pt)"
  using assms by (auto simp: geom_def blank_def)

lemma blank_pf: "pf_ok (blank ls lb la pol hl pt)"
  by (simp add: pf_ok_def blank_def rpt_ok_def new_rpt_def)

lemma blank_made: "made 0 (blank ls lb la pol hl pt)"
  by (simp add: made_def)

definition allocated :: "(nat \<Rightarrow> bool) \<Rightarrow> int \<Rightarrow> int \<Rightarrow> bool" where
  "allocated alloc ns as \<longleftrightarrow> alloc 0 \<and> alloc 1 \<and> (4 < as \<longrightarrow> (\<forall>k<nat ns. alloc (2 + k)))"

lemma cache_create_ok:
  assumes c: "creatable ns bs us as pt" and a: "ns * bs < 2 ^ 32" "ns * as < 2 ^ 31" and fn: "blk_fn"
    and al: "allocated alloc ns as"
  obtains cp where "cache_create alloc blk_fn ns bs us as pol hl pt = Inr cp" and "cache_inv cp"
    and "nsets cp = nat ns" and "bsize cp = nat bs" and "assoc cp = nat as" and "policy cp = pol"
    and "hit_latency cp = hl" and "prefetch_type cp = nat pt" and "counts cp = [0, 0, 0, 0, 0, 0]"
    and "\<forall>b < length (data cp). \<not> fst (snd (ln cp b))" and "no_last cp"
proof -
  obtain ls lb la where p: "ns = 2 ^ ls" "bs = 2 ^ lb" "as = 2 ^ la" "3 \<le> lb" "lb + ls < 32" "la < 31"
  proof (rule creatableE [OF c])
    have "1 \<le> ns" "0 \<le> as" using c by (simp_all add: creatable_def)
    then have "as \<le> ns * as" using mult_right_mono [of 1 ns as] by simp
    then show "addressable ns bs as" using a by (simp add: addressable_def)
  qed (rule that)
  define cp0 where "cp0 = blank ls lb la pol hl (nat pt)"
  have g0: "geom cp0" unfolding cp0_def by (rule blank_geom [OF p(4-6)])
  have s0: "length (sets cp0) = nsets cp0" "nsets cp0 = 2 ^ ls" "data cp0 = replicate (2 ^ ls * 2 ^ la) zero_blk"
    by (simp_all add: cp0_def blank_def)
  have v0: "\<forall>x. fst (snd (ln cp0 x)) \<longrightarrow> \<not> x < length (data cp0)"
    by (auto simp: ln_def s0 zero_blk_def is_valid_def)
  have four: "(4 :: int) < 2 ^ la \<longleftrightarrow> (4 :: nat) < 2 ^ la"
    using of_nat_less_iff [of 4 "2 ^ la", where 'a = int] by simp
  have hs: "hsize cp0 = 0 \<or> (\<forall>j \<in> {0..<0 + 2 ^ ls}. alloc (2 + j))"
    using al four by (auto simp: allocated_def cp0_def blank_def p(1,3) nat_power_eq)
  obtain cp where cp: "create_sets alloc 0 0 (2 ^ ls) cp0 = Inr cp" "core_only cp0 cp" "made (2 ^ ls) cp"
    "\<forall>x. fst (snd (ln cp x)) \<longrightarrow> \<not> x < length (data cp0)"
    using create_sets_ok [OF blank_made _ _ geomD(5) v0 [unfolded cp0_def], of "2 ^ ls" alloc] s0 g0 geomD(7) [OF g0] hs
    unfolding cp0_def by auto
  note g = core_only_geom [OF cp(2)] and F = core_only_fields [OF cp(2)]
  have len: "length (data cp) = length (data cp0)" using g by (simp add: same_geom_def)
  have G: "geom cp" using g0 geom_cong [OF g] by simp
  have ns: "nsets cp = 2 ^ ls" using nsets_cong [OF g] s0(2) by simp
  have none: "\<not> holds cp t x" if "x < length (data cp)" for t x
    using cp(4) that by (auto simp: holds_ln len)
  have lists: "lists_ok {} cp"
    using cp(3) by (simp add: lists_ok_def made_def set_good_def ns)
  have u: "uniq cp k" if "k < nsets cp" for k
    using none set_blks_less [OF G that] unfolding uniq_def by blast
  have lastn: "no_last cp" by (simp add: no_last_def F(1,2) cp0_def blank_def)
  have "pf_ok cp" using pf_ok_cong [OF g] F(3,4) blank_pf by (simp add: cp0_def)
  moreover have "last_ok cp" "mru_ok cp" using lastn by (simp_all add: no_last_def last_ok_def mru_ok_def)
  ultimately have inv: "cache_inv cp" using G lists u by (simp add: cache_inv_def cache_ok_def)
  have "(2 :: int) ^ ls * 2 ^ la < 2 ^ 31" using a(2) by (simp add: p(1,3))
  then have created: "cache_create alloc blk_fn ns bs us as pol hl pt = Inr cp"
    using cache_create_blank [of ls lb us la pt blk_fn alloc pol hl] c fn al cp(1) p(5)
    by (simp add: p(1-3) cp0_def allocated_def)
  have "counts cp = [0, 0, 0, 0, 0, 0]" using counts_core [OF cp(2)] by (simp add: cp0_def blank_def counts_def)
  then show thesis
    by (intro that [OF created inv]) (use g cp(4) lastn len in
      \<open>auto simp: same_geom_def p(1-3) nat_power_eq cp0_def blank_def\<close>)
qed

lemma cache_create_bad:
  assumes "\<not> (creatable ns bs us as pt \<and> blk_fn \<and> alloc 0)"
  shows "cache_create alloc blk_fn ns bs us as pol hl pt = Inl Fatal"
proof (cases "creatable ns bs us as pt")
  case True
  then show ?thesis using assms unfolding creatable_def cache_create_def by auto
next
  case False
  then show ?thesis unfolding creatable_def cache_create_def by (simp add: not_le not_less) (auto simp: not_le not_less)
qed

text \<open>Parameters whose product or shift C leaves undefined, and a failing allocation.\<close>

lemma cache_create_undefined:
  assumes c: "creatable ns bs us as pt" and a: "blk_fn" "alloc 0" and big: "2 ^ 32 < ns * bs \<or> 2 ^ 31 \<le> ns * as"
  shows "cache_create alloc blk_fn ns bs us as pol hl pt = Inl OutOfRange"
proof -
  obtain ls lb la where p: "ns = 2 ^ ls" "bs = 2 ^ lb" "as = 2 ^ la"
    using pow2I [of ns] pow2I [of bs] pow2I [of as] c unfolding creatable_def by (metis not_le not_numeral_le_zero order.strict_trans1 zero_less_numeral)
  have "(2 :: int) ^ 32 < 2 ^ ls * 2 ^ lb \<longleftrightarrow> 32 < lb + ls"
    unfolding power_add [symmetric] by (subst power_strict_increasing_iff) (simp_all add: add.commute)
  then show ?thesis
    using cache_create_blank [OF c [unfolded p], of blk_fn alloc pol hl] a big by (simp add: p)
qed

lemma cache_create_unallocated:
  assumes c: "creatable ns bs us as pt" and fn: "blk_fn" "alloc 0" and b: "ns * bs < 2 ^ 32" "ns * as < 2 ^ 31"
    and al: "\<not> allocated alloc ns as"
  shows "cache_create alloc blk_fn ns bs us as pol hl pt = Inl Fatal"
proof -
  have "1 \<le> ns" "0 \<le> as" using c by (simp_all add: creatable_def)
  then have "as \<le> ns * as" using mult_right_mono [of 1 ns as] by simp
  then have "addressable ns bs as" using b by (simp add: addressable_def)
  then obtain ls lb la where p: "ns = 2 ^ ls" "bs = 2 ^ lb" "as = 2 ^ la" "3 \<le> lb" "lb + ls < 32" "la < 31"
    by (rule creatableE [OF c])
  define cp0 where "cp0 = blank ls lb la pol hl (nat pt)"
  have g0: "geom cp0" unfolding cp0_def by (rule blank_geom [OF p(4-6)])
  have s0: "length (sets cp0) = nsets cp0" "nsets cp0 = 2 ^ ls" by (simp_all add: cp0_def blank_def)
  have four: "(4 :: int) < 2 ^ la \<longleftrightarrow> (4 :: nat) < 2 ^ la"
    using of_nat_less_iff [of 4 "2 ^ la", where 'a = int] by simp
  have eq: "cache_create alloc blk_fn ns bs us as pol hl pt =
      (if alloc 1 then create_sets alloc 0 0 (2 ^ ls) cp0 else Inl Fatal)"
    using cache_create_blank [OF c [unfolded p(1-3)], of blk_fn alloc pol hl] fn b p(5) by (simp add: p(1-3) cp0_def)
  show ?thesis
  proof (cases "alloc 1")
    case True
    then have "\<not> (hsize cp0 = 0 \<or> (\<forall>j \<in> {0..<0 + 2 ^ ls}. alloc (2 + j)))"
      using al fn(2) four by (auto simp: allocated_def cp0_def blank_def p(1,3) nat_power_eq div_eq_0_iff)
    then show ?thesis
      using create_sets_ok [OF blank_made [of ls lb la pol hl "nat pt"] _ _ geomD(5), of "2 ^ ls" "\<lambda>_. True" alloc] s0 g0 geomD(7) [OF g0]
        eq True unfolding cp0_def by (simp split: if_splits)
  qed (simp add: eq)
qed

end
