(* ===== verification/Lab5_Refine.thy ===== *)
theory Lab5_Refine
  imports Lab5_Create
begin

text \<open>
  An abstract cache, a list of lines per set, and the refinement of it by the lab 5 cache without a
  prefetcher; under LRU a set holds the most recently used blocks.
\<close>

section \<open>A set as a list of lines\<close>

text \<open>
  The abstract cache: each set is the list of its lines, in the order of replacement.  A hit under LRU
  moves the line to the front, a hit under FIFO leaves the order alone; a miss drops the last line.
\<close>

definition lines :: "cache_t \<Rightarrow> nat \<Rightarrow> line list" where
  "lines cp k = map (ln cp) (ways cp k)"

definition is_line :: "md_addr \<Rightarrow> line \<Rightarrow> bool" where
  "is_line tg l \<longleftrightarrow> fst l = tg \<and> fst (snd l)"

definition in_lines :: "md_addr \<Rightarrow> line list \<Rightarrow> bool" where
  "in_lines tg ls \<longleftrightarrow> (\<exists>l \<in> set ls. is_line tg l)"

definition hit_line :: "mem_cmd \<Rightarrow> line \<Rightarrow> line" where
  "hit_line cmd l = (fst l, True, snd (snd l) \<or> cmd = Write)"

definition spec_access :: "cache_policy \<Rightarrow> mem_cmd \<Rightarrow> md_addr \<Rightarrow> line list \<Rightarrow> line list" where
  "spec_access pol cmd tg ls =
     (if in_lines tg ls then
        (if pol = LRU then map (hit_line cmd) (filter (is_line tg) ls) @ filter (\<lambda>l. \<not> is_line tg l) ls
         else map (\<lambda>l. if is_line tg l then hit_line cmd l else l) ls)
      else (tg, True, cmd = Write) # butlast ls)"

text \<open>The requests to the next level: nothing on a hit, else the write-back and the fetch.\<close>

definition spec_reqs :: "cache_t \<Rightarrow> md_addr \<Rightarrow> line list \<Rightarrow> (mem_cmd \<times> md_addr) list" where
  "spec_reqs cp a ls =
     (if in_lines (CACHE_TAG cp a) ls then []
      else wb_req cp (set_index cp a) (last ls) @ [(Read, CACHE_BADDR cp a)])"

lemma in_lines_present:
  assumes inv: "cache_inv cp"
  shows "in_lines (CACHE_TAG cp a) (lines cp (set_index cp a)) = present cp a"
proof -
  note I = cache_invD [OF inv]
  have "set (ways cp (set_index cp a)) = set_blks cp (set_index cp a)"
    by (rule ways_ok(2) [OF I(3) set_index_less [OF I(2)]])
  then show ?thesis by (auto simp: in_lines_def lines_def present_def is_line_def holds_ln)
qed

lemma map_line_upd: "b \<notin> set xs \<Longrightarrow> map (f(b := v)) xs = map f xs"
  by simp

text \<open>The line of a tag in a set, among the others.\<close>

lemma filter_line:
  assumes d: "distinct xs" and b: "b \<in> set xs" and u: "\<And>x. x \<in> set xs \<Longrightarrow> is_line tg (f x) \<longleftrightarrow> x = b"
  shows "filter (is_line tg) (map f xs) = [f b]" and "filter (\<lambda>l. \<not> is_line tg l) (map f xs) = map f (remove1 b xs)"
proof -
  obtain us vs where xs: "xs = us @ b # vs" "remove1 b xs = us @ vs" "b \<notin> set us" "b \<notin> set vs"
    by (rule split_member [OF b d])
  have u': "\<not> is_line tg (f x)" if "x \<in> set us \<union> set vs" for x using that u xs by auto
  have ub: "is_line tg (f b)" using u b by simp
  have "filter (is_line tg) (map f us) = []" "filter (is_line tg) (map f vs) = []"
    "filter (\<lambda>l. \<not> is_line tg l) (map f us) = map f us" "filter (\<lambda>l. \<not> is_line tg l) (map f vs) = map f vs"
    using u' by (auto simp: filter_empty_conv filter_id_conv)
  then show "filter (is_line tg) (map f xs) = [f b]" "filter (\<lambda>l. \<not> is_line tg l) (map f xs) = map f (remove1 b xs)"
    using ub by (simp_all add: xs(1)) (simp add: xs(2) flip: xs(1))
qed

lemma spec_hit:
  assumes inv: "cache_inv cp" and b: "b \<in> set_blks cp (set_index cp a)" and h: "holds cp (CACHE_TAG cp a) b"
    and pol: "policy cp \<noteq> Random" and d: "hit_done cmd a pf b cp cp'" and j: "j < nsets cp"
  shows "lines cp' j = (if j = set_index cp a then spec_access (policy cp) cmd (CACHE_TAG cp a) (lines cp j) else lines cp j)"
proof -
  note I = cache_invD [OF inv]
  note w = ways_ok [OF I(3) j]
  have ln': "ln cp' = (ln cp)(b := hit_line cmd (ln cp b))"
    using d h by (simp add: hit_done_def hit_line_def holds_ln)
  have wj: "ways cp' j = (if j = set_index cp a then touched (policy cp) b (ways cp j) else ways cp j)"
    using d j by (simp add: hit_done_def)
  show ?thesis
  proof (cases "j = set_index cp a")
    case False
    have "b \<notin> set (ways cp j)" using w(2) b False set_blks_disjoint by metis
    then show ?thesis using False by (simp add: lines_def wj ln')
  next
    case True
    have bj: "b \<in> set (ways cp j)" using w(2) b True by simp
    have wt: "ways cp' j = touched (policy cp) b (ways cp j)" using wj True by simp
    have u: "is_line (CACHE_TAG cp a) (ln cp x) \<longleftrightarrow> x = b" if "x \<in> set (ways cp j)" for x
      using that h w(2) uniqD [OF I(4) [OF j]] bj unfolding is_line_def holds_ln [symmetric] by auto
    have pr: "in_lines (CACHE_TAG cp a) (lines cp j)"
      using b h unfolding True in_lines_present [OF inv] present_def by blast
    show ?thesis
    proof (cases "policy cp = LRU")
      case l: True
      have "b \<notin> set (remove1 b (ways cp j))" using w(3) by simp
      then have "lines cp' j = spec_access (policy cp) cmd (CACHE_TAG cp a) (lines cp j)"
        using pr l filter_line [OF w(3) bj u] by (simp add: lines_def spec_access_def wt touched_def ln')
      then show ?thesis using True by simp
    next
      case f: False
      have "map ((ln cp)(b := hit_line cmd (ln cp b))) (ways cp j) =
          map (\<lambda>x. if is_line (CACHE_TAG cp a) (ln cp x) then hit_line cmd (ln cp x) else ln cp x) (ways cp j)"
        by (rule map_cong [OF refl]) (use u in auto)
      then have "lines cp' j = spec_access (policy cp) cmd (CACHE_TAG cp a) (lines cp j)"
        using pr f by (simp add: lines_def spec_access_def wt touched_def ln' comp_def)
      then show ?thesis using True by simp
    qed
  qed
qed

lemma spec_miss:
  assumes inv: "cache_inv cp" and np: "\<not> present cp a"
    and pol: "policy cp \<noteq> Random" and d: "miss_done cmd a pf r cp cp'" and j: "j < nsets cp"
  shows "lines cp' j = (if j = set_index cp a then spec_access (policy cp) cmd (CACHE_TAG cp a) (lines cp j) else lines cp j)"
proof -
  note I = cache_invD [OF inv]
  note w = ways_ok [OF I(3) j]
  have r: "r \<in> set_blks cp (set_index cp a)" "r = last (ways cp (set_index cp a))" using d pol unfolding miss_done_def by blast+
  have ln': "ln cp' = (ln cp)(r := (CACHE_TAG cp a, True, cmd = Write))" using d by (simp add: miss_done_def)
  have wj: "ways cp' j = (if j = set_index cp a then last (ways cp j) # butlast (ways cp j) else ways cp j)"
    using d j pol by (simp add: miss_done_def evict_order_def)
  show ?thesis
  proof (cases "j = set_index cp a")
    case False
    have "r \<notin> set (ways cp j)" using w(2) r(1) False set_blks_disjoint by metis
    then show ?thesis using False by (simp add: lines_def wj ln')
  next
    case True
    have "ways cp j \<noteq> []" using w(2) r(1) True by auto
    then obtain xs where xs: "ways cp j = xs @ [r]" using r(2) True by (metis append_butlast_last_id)
    then have "r \<notin> set xs" using w(3) by simp
    moreover have "ways cp' j = last (ways cp j) # butlast (ways cp j)" using wj True by simp
    then have "ways cp' j = r # xs" by (simp add: xs)
    moreover have "\<not> in_lines (CACHE_TAG cp a) (lines cp j)" using np in_lines_present [OF inv, of a] True by simp
    ultimately have "lines cp' j = spec_access (policy cp) cmd (CACHE_TAG cp a) (lines cp j)"
      by (simp add: lines_def spec_access_def xs ln')
    then show ?thesis using True by simp
  qed
qed

lemma last_line:
  assumes inv: "cache_inv cp" and d: "miss_done cmd a pf r cp cp'" and pol: "policy cp \<noteq> Random"
  shows "last (lines cp (set_index cp a)) = ln cp r"
proof -
  have r: "r \<in> set_blks cp (set_index cp a)" "r = last (ways cp (set_index cp a))" using d pol unfolding miss_done_def by blast+
  note I = cache_invD [OF inv]
  have "ways cp (set_index cp a) \<noteq> []"
    using ways_nonempty [OF I(3) set_index_less [OF I(2)] r(1)] .
  then show ?thesis by (simp add: lines_def last_map r(2))
qed

section \<open>Accesses without a prefetcher\<close>

lemma no_prefetch_gen:
  assumes "prefetch_type (fst m) = 0" shows "then_prefetch (generate_prefetch env) pf a m = Inr m"
  using assms by (cases m) (simp add: then_prefetch_def generate_prefetch_def)

lemma hit_lat_ok: "b < length (data cp) \<Longrightarrow> \<exists>lat. hit_lat b now cp = Inr lat"
  by (simp add: hit_lat_def)

lemma no_prefetch_cases:
  fixes env :: "'w env"
  assumes inv: "cache_inv cp" and p: "prefetch_type cp = 0"
  obtains (illegal) "\<not> legal cp a n" and "cache_access env cmd a n now pf (cp, w) = Inl Fatal"
  | (null) "legal cp a n" and "null_hit cp a" and "cache_access env cmd a n now pf (cp, w) = Inl OutOfRange"
  | (fails) e where "legal cp a n" and "\<not> null_hit cp a"
    and "cache_access env cmd a n now pf (cp, w) = Inl e" and "handler_fails env w e"
  | (hit) b lat cp' where "legal cp a n" and "\<not> null_hit cp a" and "present cp a"
    and "b \<in> set_blks cp (set_index cp a)" and "holds cp (CACHE_TAG cp a) b" and "hit_done cmd a pf b cp cp'"
    and "cache_access env cmd a n now pf (cp, w) = Inr (lat, 0, cp', w)"
  | (miss) r lat ra cp' w' where "legal cp a n" and "\<not> null_hit cp a" and "\<not> present cp a"
    and "miss_done cmd a pf r cp cp'"
    and "served env (bsize cp) (miss_reqs cp a r) (if policy cp = Random then snd (myrand env w) else w) w'"
    and "cache_access env cmd a n now pf (cp, w) = Inr (lat, ra, cp', w')"
proof -
  note I = cache_invD [OF inv]
  show thesis
    using inv
  proof (cases rule: access_cases [where a = a and n = n and gen = "generate_prefetch env" and env = env and cmd = cmd and
        now = now and pf = pf and w = w])
    case illegal': illegal
    show thesis by (rule illegal [OF illegal'(1)]) (simp add: cache_access_def illegal'(2))
  next
    case null': (null cp')
    have p': "prefetch_type (fst (cp', w)) = 0" using null'(4) p by (simp add: same_geom_def)
    show thesis by (rule null [OF null'(1,2)]) (simp add: cache_access_def null'(5) no_prefetch_gen [OF p'])
  next
    case zero
    then show thesis using p by simp
  next
    case fails': (fails e)
    show thesis by (rule fails [OF fails'(1,2) _ fails'(5)]) (simp add: cache_access_def fails'(4))
  next
    case hit': (hit b cp')
    have g: "same_geom cp cp'" using hit'(6) by (simp add: hit_done_def)
    then have p': "prefetch_type (fst (cp', w)) = 0" using p by (simp add: same_geom_def)
    have "b < length (data cp)" by (rule set_blks_less [OF I(2) set_index_less [OF I(2)] hit'(4)])
    then have "b < length (data cp')" using g by (simp add: same_geom_def)
    then obtain lat where "hit_lat b now cp' = Inr lat" using hit_lat_ok by blast
    then have "cache_access env cmd a n now pf (cp, w) = Inr (lat, 0, cp', w)"
      by (simp add: cache_access_def hit'(7) no_prefetch_gen [OF p'])
    then show thesis by (rule hit [OF hit'(1-6)])
  next
    case miss': (miss r lat ra cp' w')
    have "same_geom cp cp'" using miss'(4) by (simp add: miss_done_def)
    then have p': "prefetch_type (fst (cp', w')) = 0" using p by (simp add: same_geom_def)
    have "cache_access env cmd a n now pf (cp, w) = Inr (lat, ra, cp', w')"
      by (simp add: cache_access_def miss'(6) no_prefetch_gen [OF p'])
    then show thesis by (rule miss [OF miss'(1-5)])
  qed
qed

text \<open>The refinement, as the effect of an access that returns.\<close>

definition spec_step :: "'w env \<Rightarrow> mem_cmd \<Rightarrow> md_addr \<Rightarrow> bool \<Rightarrow> 'w mem \<Rightarrow> 'w mem \<Rightarrow> bool" where
  "spec_step env cmd a pf = (\<lambda>(cp, w) (cp', w').
     (let k = set_index cp a; tg = CACHE_TAG cp a in
      (\<forall>j < nsets cp. lines cp' j = (if j = k then spec_access (policy cp) cmd tg (lines cp k) else lines cp j)) \<and>
      counts cp' = counted cmd pf (in_lines tg (lines cp k)) (counts cp) \<and>
      served env (bsize cp) (spec_reqs cp a (lines cp k)) w w'))"

lemma access_spec:
  assumes inv: "cache_inv cp" and p: "prefetch_type cp = 0" and pol: "policy cp \<noteq> Random"
    and ret: "cache_access env cmd a n now pf (cp, w) = Inr (lat, ra, cp', w')"
  shows "spec_step env cmd a pf (cp, w) (cp', w')" and "cache_inv cp'" and "same_geom cp cp'"
proof -
  note I = cache_invD [OF inv]
  have k: "set_index cp a < nsets cp" by (rule set_index_less [OF I(2)])
  have "spec_step env cmd a pf (cp, w) (cp', w') \<and> cache_inv cp' \<and> same_geom cp cp'"
    using inv p
  proof (cases rule: no_prefetch_cases [where a = a and n = n and env = env and cmd = cmd and now = now and pf = pf and w = w])
    case (hit b lat' cp1)
    have e: "cp1 = cp'" "w = w'" using hit(7) ret by simp_all
    note d = hit(6) [unfolded e]
    have pr: "in_lines (CACHE_TAG cp a) (lines cp (set_index cp a))" using hit(3) in_lines_present [OF inv] by simp
    show ?thesis
      using d spec_hit [OF inv hit(4,5) pol d] pr
      by (auto simp: spec_step_def Let_def hit_done_def spec_reqs_def e intro: served_Nil)
  next
    case (miss r lat' ra' cp1 w1)
    have e: "cp1 = cp'" "w1 = w'" using miss(6) ret by simp_all
    note d = miss(4) [unfolded e]
    have np: "\<not> in_lines (CACHE_TAG cp a) (lines cp (set_index cp a))" using miss(3) in_lines_present [OF inv] by simp
    have "served env (bsize cp) (spec_reqs cp a (lines cp (set_index cp a))) w w'"
      using miss(5) pol np by (simp add: spec_reqs_def miss_reqs_def e last_line [OF inv d pol])
    then show ?thesis
      using d spec_miss [OF inv miss(3) pol d] np by (simp add: spec_step_def Let_def miss_done_def)
  qed (use ret in simp_all)
  then show "spec_step env cmd a pf (cp, w) (cp', w')" and "cache_inv cp'" and "same_geom cp cp'" by simp_all
qed

section \<open>Recency\<close>

text \<open>The most recently used elements of a history, which lists the last use first.\<close>

fun mru :: "'a list \<Rightarrow> 'a list" where
  "mru [] = []"
| "mru (x # xs) = x # filter (\<lambda>y. y \<noteq> x) (mru xs)"

lemma mru_distinct: "distinct (mru xs)"
  by (induction xs) simp_all

lemma take_filter_in:
  "distinct m \<Longrightarrow> x \<in> set (take (Suc n) m) \<Longrightarrow> take n (filter (\<lambda>y. y \<noteq> x) m) = filter (\<lambda>y. y \<noteq> x) (take (Suc n) m)"
proof (induction m arbitrary: n)
  case (Cons z m)
  show ?case
  proof (cases "z = x")
    case True
    then have "filter (\<lambda>y. y \<noteq> x) m = m" "filter (\<lambda>y. y \<noteq> x) (take n m) = take n m"
      using Cons.prems(1) set_take_subset [of n m] by (auto simp: filter_id_conv)
    then show ?thesis using True by simp
  next
    case False
    then obtain n' where "n = Suc n'" using Cons.prems(2) by (cases n) auto
    then show ?thesis using Cons False by simp
  qed
qed simp

lemma take_filter_out:
  assumes "x \<notin> set (take n m)" and "n \<le> length m \<or> x \<notin> set m"
  shows "take n (filter (\<lambda>y. y \<noteq> x) m) = take n m"
proof (cases "n \<le> length m")
  case True
  have "filter (\<lambda>y. y \<noteq> x) (take n m) = take n m" using assms(1) by (auto simp: filter_id_conv)
  then have "filter (\<lambda>y. y \<noteq> x) m = take n m @ filter (\<lambda>y. y \<noteq> x) (drop n m)"
    by (metis append_take_drop_id filter_append)
  then show ?thesis using True by simp
next
  case False
  then have "filter (\<lambda>y. y \<noteq> x) m = m" using assms(2) by (auto simp: filter_id_conv)
  then show ?thesis by simp
qed

definition recent_lines :: "nat \<Rightarrow> md_addr list \<Rightarrow> line list \<Rightarrow> bool" where
  "recent_lines A hist ls \<longleftrightarrow> length ls = A \<and>
     (\<exists>vs ns. ls = vs @ ns \<and> (\<forall>l \<in> set vs. fst (snd l)) \<and> (\<forall>l \<in> set ns. \<not> fst (snd l)) \<and>
        map fst vs = take A (mru hist))"

lemma recent_in_lines:
  assumes "recent_lines A hist ls" shows "in_lines tg ls \<longleftrightarrow> tg \<in> set (take A (mru hist))"
proof -
  obtain vs ns where l: "ls = vs @ ns" "\<forall>l \<in> set vs. fst (snd l)" "\<forall>l \<in> set ns. \<not> fst (snd l)"
    "map fst vs = take A (mru hist)" using assms by (auto simp: recent_lines_def)
  have "set (take A (mru hist)) = fst ` set vs" unfolding l(4) [symmetric] by simp
  moreover have "in_lines tg ls \<longleftrightarrow> (\<exists>l \<in> set vs. fst l = tg)"
    using l(2,3) by (auto simp: in_lines_def is_line_def l(1))
  ultimately show ?thesis by auto
qed

lemma recent_access:
  assumes r: "recent_lines (Suc n) hist ls"
  shows "recent_lines (Suc n) (tg # hist) (spec_access LRU cmd tg ls)"
proof -
  obtain vs ns where l: "ls = vs @ ns" "\<forall>l \<in> set vs. fst (snd l)" "\<forall>l \<in> set ns. \<not> fst (snd l)"
    "map fst vs = take (Suc n) (mru hist)" and len: "length ls = Suc n" using r by (auto simp: recent_lines_def)
  have dm: "distinct (map fst vs)" unfolding l(4) using mru_distinct distinct_take by blast
  show ?thesis
  proof (cases "in_lines tg ls")
    case True
    then have tin: "tg \<in> set (take (Suc n) (mru hist))" using recent_in_lines [OF r] by simp
    then have "tg \<in> fst ` set vs" unfolding l(4) [symmetric] by simp
    then obtain v where v: "v \<in> set vs" "fst v = tg" by auto
    have u: "is_line tg x \<longleftrightarrow> x = v" if "x \<in> set vs" for x
      using that v l(2) dm by (auto simp: is_line_def distinct_map inj_on_def)
    have dv: "distinct vs" using dm by (simp add: distinct_map)
    have nn: "filter (is_line tg) ns = []" "filter (\<lambda>l. \<not> is_line tg l) ns = ns"
      using l(3) by (auto simp: filter_empty_conv filter_id_conv is_line_def)
    have fv: "filter (is_line tg) vs = [v]" "filter (\<lambda>l. \<not> is_line tg l) vs = remove1 v vs"
      using filter_line [OF dv v(1), of tg "\<lambda>x. x"] u by simp_all
    have sp: "spec_access LRU cmd tg ls = (hit_line cmd v # remove1 v vs) @ ns"
      using True by (simp add: spec_access_def l(1) fv nn)
    have "map fst (remove1 v vs) = filter (\<lambda>y. y \<noteq> tg) (map fst vs)"
    proof -
      have "map fst (filter (\<lambda>l. \<not> is_line tg l) vs) = filter (\<lambda>y. y \<noteq> tg) (map fst vs)"
        using l(2) by (induction vs) (auto simp: is_line_def)
      then show ?thesis by (simp only: fv)
    qed
    also have "\<dots> = take n (filter (\<lambda>y. y \<noteq> tg) (mru hist))"
      unfolding l(4) by (rule take_filter_in [OF mru_distinct tin, symmetric])
    finally have "map fst (hit_line cmd v # remove1 v vs) = take (Suc n) (mru (tg # hist))"
      using v(2) by (simp add: hit_line_def)
    moreover have "\<forall>l \<in> set (hit_line cmd v # remove1 v vs). fst (snd l)"
      using l(2) set_remove1_subset [of v vs] by (auto simp: hit_line_def)
    moreover have "length (spec_access LRU cmd tg ls) = Suc n"
    proof -
      have "length vs = Suc (length (remove1 v vs))"
        using v(1) length_pos_if_in_set [OF v(1)] by (simp add: length_remove1)
      then show ?thesis using len unfolding sp by (simp add: l(1))
    qed
    ultimately show ?thesis using l(3) sp unfolding recent_lines_def by blast
  next
    case False
    then have tout: "tg \<notin> set (take (Suc n) (mru hist))" using recent_in_lines [OF r] by simp
    have sp: "spec_access LRU cmd tg ls = (tg, True, cmd = Write) # butlast ls"
      using False by (simp add: spec_access_def)
    have lv: "length vs = min (Suc n) (length (mru hist))" using arg_cong [OF l(4), of length] by simp
    have tn: "take n (filter (\<lambda>y. y \<noteq> tg) (mru hist)) = take n (mru hist)"
    proof (rule take_filter_out)
      show "tg \<notin> set (take n (mru hist))" using tout set_take_subset_set_take [of n "Suc n" "mru hist"] by auto
      show "n \<le> length (mru hist) \<or> tg \<notin> set (mru hist)"
        using tout by (cases "n \<le> length (mru hist)") auto
    qed
    show ?thesis
    proof (cases "ns = []")
      case True
      have vn: "vs \<noteq> []" using len l(1) True by auto
      have full: "length vs = Suc n" using len l(1) True by simp
      have "map fst (butlast vs) = take n (mru hist)"
        using l(4) full lv by (simp add: map_butlast butlast_take)
      then have "map fst ((tg, True, cmd = Write) # butlast vs) = take (Suc n) (mru (tg # hist))" by (simp add: tn)
      moreover have "\<forall>l \<in> set ((tg, True, cmd = Write) # butlast vs). fst (snd l)" using l(2) by (auto dest: in_set_butlastD)
      moreover have "spec_access LRU cmd tg ls = ((tg, True, cmd = Write) # butlast vs) @ []" unfolding sp by (simp add: l(1) True)
      moreover have "length (spec_access LRU cmd tg ls) = Suc n" using len by (simp add: sp)
      ultimately show ?thesis
        unfolding recent_lines_def by (intro conjI exI [of _ "(tg, True, cmd = Write) # butlast vs"] exI [of _ "[]"]) simp_all
    next
      case nne: False
      then have "length vs < Suc n" using len l(1) by (cases ns) auto
      then have "take n (mru hist) = map fst vs" using l(4) lv by (simp add: min_def split: if_splits)
      then have "map fst ((tg, True, cmd = Write) # vs) = take (Suc n) (mru (tg # hist))" by (simp add: tn)
      moreover have "\<forall>l \<in> set ((tg, True, cmd = Write) # vs). fst (snd l)" using l(2) by auto
      moreover have "\<forall>l \<in> set (butlast ns). \<not> fst (snd l)" using l(3) by (auto dest: in_set_butlastD)
      moreover have "spec_access LRU cmd tg ls = ((tg, True, cmd = Write) # vs) @ butlast ns"
        using nne unfolding sp by (simp add: l(1) butlast_append)
      moreover have "length (spec_access LRU cmd tg ls) = Suc n" using len by (simp add: sp)
      ultimately show ?thesis unfolding recent_lines_def by blast
    qed
  qed
qed

section \<open>Sequences of accesses\<close>

type_synonym request = "mem_cmd \<times> md_addr \<times> u32 \<times> int"

fun accesses :: "'w env \<Rightarrow> request list \<Rightarrow> 'w mem \<Rightarrow> 'w mem res" where
  "accesses env [] m = Inr m"
| "accesses env ((cmd, a, n, now) # rs) m =
     res_bind (cache_access env cmd a n now False m) (\<lambda>(_, _, m'). accesses env rs m')"

text \<open>The tags a sequence of accesses uses in one set, in order.\<close>

definition set_tags :: "cache_t \<Rightarrow> request list \<Rightarrow> nat \<Rightarrow> md_addr list" where
  "set_tags cp rs k = map (\<lambda>(_, a, _, _). CACHE_TAG cp a) (filter (\<lambda>(_, a, _, _). set_index cp a = k) rs)"

lemma set_tags_cong: "same_geom cp cp' \<Longrightarrow> set_tags cp' = set_tags cp"
  unfolding set_tags_def fun_eq_iff by (simp add: addr_cong(1) set_index_cong)

lemma set_tags_Cons:
  "set_tags cp ((cmd, a, n, now) # rs) k = (if set_index cp a = k then CACHE_TAG cp a # set_tags cp rs k else set_tags cp rs k)"
  by (simp add: set_tags_def)

lemma accesses_recent:
  assumes "cache_inv cp" and "prefetch_type cp = 0" and "policy cp = LRU"
    and "\<forall>k < nsets cp. recent_lines (assoc cp) (hist k) (lines cp k)"
    and "accesses env rs (cp, w) = Inr (cp', w')"
  shows "cache_inv cp' \<and> same_geom cp cp' \<and>
    (\<forall>k < nsets cp. recent_lines (assoc cp) (rev (set_tags cp rs k) @ hist k) (lines cp' k))"
  using assms
proof (induction rs arbitrary: cp w hist)
  case Nil
  then show ?case by (simp add: set_tags_def same_geom_refl)
next
  case (Cons r rs)
  obtain cmd a n now where r: "r = (cmd, a, n, now)" by (cases r)
  obtain lat ra cp1 w1 where acc: "cache_access env cmd a n now False (cp, w) = Inr (lat, ra, cp1, w1)"
    and rest: "accesses env rs (cp1, w1) = Inr (cp', w')"
    using Cons.prems(5) by (auto simp: r res_bind_eq_Inr)
  have pol: "policy cp \<noteq> Random" using Cons.prems(3) by simp
  note A = access_spec [OF Cons.prems(1,2) pol acc]
  have g: "prefetch_type cp1 = 0" "policy cp1 = LRU" "nsets cp1 = nsets cp" "assoc cp1 = assoc cp"
    using A(3) Cons.prems(2,3) by (simp_all add: same_geom_def)
  obtain m where m: "assoc cp = Suc m" using geomD(2) [OF cache_invD(2) [OF Cons.prems(1)]] gr0_implies_Suc by blast
  define hist1 where "hist1 = (\<lambda>k. if k = set_index cp a then CACHE_TAG cp a # hist k else hist k)"
  have "\<forall>k < nsets cp1. recent_lines (assoc cp1) (hist1 k) (lines cp1 k)"
  proof (intro allI impI)
    fix k assume "k < nsets cp1"
    then have k: "k < nsets cp" by (simp add: g)
    then have "lines cp1 k = (if k = set_index cp a then spec_access LRU cmd (CACHE_TAG cp a) (lines cp k) else lines cp k)"
      using A(1) Cons.prems(3) by (simp add: spec_step_def Let_def)
    then show "recent_lines (assoc cp1) (hist1 k) (lines cp1 k)"
      using Cons.prems(4) k recent_access unfolding hist1_def g m by auto
  qed
  from Cons.IH [OF A(2) g(1,2) this rest]
  have IH: "cache_inv cp'" "same_geom cp1 cp'"
    "\<forall>k < nsets cp. recent_lines (assoc cp) (rev (set_tags cp rs k) @ hist1 k) (lines cp' k)"
    by (simp_all add: g set_tags_cong [OF A(3)])
  have "rev (set_tags cp (r # rs) k) @ hist k = rev (set_tags cp rs k) @ hist1 k" for k
    by (simp add: r set_tags_Cons hist1_def)
  then show ?case using IH same_geom_trans [OF A(3)] by simp
qed

lemma blank_recent:
  assumes inv: "cache_inv cp" and none: "\<forall>b < length (data cp). \<not> fst (snd (ln cp b))" and k: "k < nsets cp"
  shows "recent_lines (assoc cp) [] (lines cp k)"
proof -
  note I = cache_invD [OF inv]
  note w = ways_ok [OF I(3) k]
  have "length (ways cp k) = card (set_blks cp k)" using distinct_card [OF w(3)] w(2) by simp
  then have "length (lines cp k) = assoc cp" by (simp add: lines_def set_blks_def)
  moreover have "\<forall>l \<in> set (lines cp k). \<not> fst (snd l)"
    using none w(2) set_blks_less [OF I(2) k] by (auto simp: lines_def)
  ultimately show ?thesis unfolding recent_lines_def by (intro conjI exI [of _ "[]"] exI [of _ "lines cp k"]) simp_all
qed

end
