(* ===== verification/Lab5_Prefetch.thy ===== *)
theory Lab5_Prefetch
  imports Lab5_Refine
begin

text \<open>
  The prefetchers of the lab 5 cache: what a prefetch brings in, what the stride table learns, and that
  no walk of an access goes on for ever.
\<close>

section \<open>Prefetching the next line\<close>

lemma hit_present:
  assumes d: "hit_done cmd a pf b cp cp'" and b: "b \<in> set_blks cp (set_index cp a)"
  shows "present cp' a"
proof -
  have g: "same_geom cp cp'" using d by (simp add: hit_done_def)
  have "holds cp' (CACHE_TAG cp a) b" using d by (simp add: hit_done_def holds_ln)
  then show ?thesis
    using b unfolding present_def set_index_cong [OF g] set_blks_cong [OF g] addr_cong(1) [OF g] by blast
qed

lemma miss_present:
  assumes d: "miss_done cmd a pf r cp cp'" shows "present cp' a"
proof -
  have g: "same_geom cp cp'" using d by (simp add: miss_done_def)
  have "holds cp' (CACHE_TAG cp a) r" "r \<in> set_blks cp (set_index cp a)" using d by (simp_all add: miss_done_def holds_ln)
  then show ?thesis
    unfolding present_def set_index_cong [OF g] set_blks_cong [OF g] addr_cong(1) [OF g] by blast
qed

lemma prefetch_access_present:
  assumes inv: "cache_inv cp" and r: "prefetch_access env a (cp, w) = Inr (lat, ra, cp', w')"
  shows "present cp' a \<and> same_geom cp cp'"
proof -
  define n where "n = (of_nat (bsize cp) :: u32)"
  have r': "cache_access_gen (\<lambda>_. Inr) env Read a n 0 True (cp, w) = Inr (lat, ra, cp', w')"
    using r by (simp add: prefetch_access_def n_def)
  show ?thesis
    using inv
  proof (cases rule: access_cases [where a = a and n = n and gen = "\<lambda>_. Inr" and env = env and cmd = Read and
        now = 0 and pf = True and w = w])
    case (hit b cp1)
    then have "res_bind (hit_lat b 0 cp1) (\<lambda>lat. Inr (lat, 0, cp1, w)) = Inr (lat, ra, cp', w')"
      using r' by (simp add: then_prefetch_def)
    then have "cp1 = cp'" by (auto simp: res_bind_eq_Inr)
    then show ?thesis using hit_present [OF hit(6,4)] hit(6) by (simp add: hit_done_def)
  next
    case (miss r lat' ra' cp1 w1)
    then have "cp1 = cp'" using r' by (simp add: then_prefetch_def)
    then show ?thesis using miss_present [OF miss(4)] miss(4) by (simp add: miss_done_def)
  next
    case (null cp1)
    show ?thesis using r' unfolding null(5) by (simp add: res_bind_eq_Inr)
  qed (use r' in simp_all)
qed

text \<open>The block address \<open>prefetch\<close> computes is the block of its argument.\<close>

lemma mk_baddr:
  assumes g: "geom cp" shows "CACHE_MK_BADDR cp (CACHE_TAG cp a) (CACHE_SET cp a) = CACHE_TAGSET cp a"
proof (rule bit_word_eqI)
  fix n assume n: "n < LENGTH(32)"
  have s: "set_shift cp \<le> tag_shift cp" "set_mask cp = mask (tag_shift cp - set_shift cp)"
    "tagset_mask cp = NOT (mask (set_shift cp))" using g by (simp_all add: geom_def)
  show "bit (CACHE_MK_BADDR cp (CACHE_TAG cp a) (CACHE_SET cp a)) n = bit (CACHE_TAGSET cp a) n"
    using n s(1) by (cases "n < tag_shift cp")
      (auto simp: CACHE_MK_BADDR_def CACHE_TAG_def CACHE_SET_def CACHE_TAGSET_def s(2,3) bit_simps not_less)
qed

lemma present_cong:
  assumes "CACHE_SET cp a = CACHE_SET cp b" and "CACHE_TAG cp a = CACHE_TAG cp b" shows "present cp a = present cp b"
  using assms by (simp add: present_def set_index_def)

lemma prefetch_present:
  assumes inv: "cache_inv cp" and r: "prefetch env a (cp, w) = Inr (cp', w')"
  shows "present cp' a"
proof -
  note I = cache_invD [OF inv]
  note mk = mk_baddr [OF I(2), of a] and tp = tagset_parts(2,3) [OF I(2), of a]
  have pb: "cache_probe (CACHE_TAGSET cp a) cp = Inr (present cp (CACHE_TAGSET cp a))"
    by (rule cache_probe_present [OF I(1)])
  have eq: "present cp (CACHE_TAGSET cp a) = present cp a" by (rule present_cong) (use tp in simp_all)
  show ?thesis
  proof (cases "present cp a")
    case True
    then have "cp' = cp" using r by (auto simp: prefetch_def Let_def mk pb eq assert_that_eq_Inr)
    then show ?thesis using True by simp
  next
    case False
    then obtain lat ra where "prefetch_access env (CACHE_TAGSET cp a) (cp, w) = Inr (lat, ra, cp', w')"
      using r by (auto simp: prefetch_def Let_def mk pb eq assert_that_eq_Inr res_bind_eq_Inr)
    from prefetch_access_present [OF inv this] have p: "present cp' (CACHE_TAGSET cp a)" and g: "same_geom cp cp'" by simp_all
    have "present cp' (CACHE_TAGSET cp a) = present cp' a"
      by (rule present_cong) (use tp addr_cong(1,2) [OF g] in simp_all)
    then show ?thesis using p by simp
  qed
qed

lemma next_line_present:
  assumes inv: "cache_inv cp" and p: "prefetch_type cp = 1"
    and r: "cache_access env cmd a n now False (cp, w) = Inr (lat, ra, cp', w')"
  shows "present cp' (a + of_nat (bsize cp))"
proof -
  have gen: "then_prefetch (generate_prefetch env) False a (cp1, w1) = prefetch env (a + of_nat (bsize cp)) (cp1, w1)"
    if "same_geom cp cp1" for cp1 w1
    using that p by (simp add: then_prefetch_def generate_prefetch_def next_line_prefetcher_def same_geom_def)
  show ?thesis
    using inv
  proof (cases rule: access_cases [where a = a and n = n and gen = "generate_prefetch env" and env = env and cmd = cmd and
        now = now and pf = False and w = w])
    case (hit b cp1)
    have g: "same_geom cp cp1" and inv1: "cache_inv cp1" using hit(6) by (simp_all add: hit_done_def)
    have "prefetch env (a + of_nat (bsize cp)) (cp1, w) = Inr (cp', w')"
      using r hit(7) by (auto simp: cache_access_def gen [OF g] res_bind_eq_Inr)
    then show ?thesis by (rule prefetch_present [OF inv1])
  next
    case (miss v lat' ra' cp1 w1)
    have g: "same_geom cp cp1" and inv1: "cache_inv cp1" using miss(4) by (simp_all add: miss_done_def)
    have "prefetch env (a + of_nat (bsize cp)) (cp1, w1) = Inr (cp', w')"
      using r miss(6) by (auto simp: cache_access_def gen [OF g] res_bind_eq_Inr)
    then show ?thesis by (rule prefetch_present [OF inv1])
  qed (use r in \<open>auto simp: cache_access_def res_bind_eq_Inr split: if_splits\<close>)
qed

section \<open>Walks that end\<close>

text \<open>An endless walk is the result \<^const>\<open>Diverges\<close> of the model.\<close>

definition ends :: "'a res \<Rightarrow> bool" where
  "ends m \<longleftrightarrow> m \<noteq> Inl Diverges"

lemma ends_bind: "ends m \<Longrightarrow> (\<And>x. m = Inr x \<Longrightarrow> ends (f x)) \<Longrightarrow> ends (res_bind m f)"
  by (cases m) (simp_all add: ends_def)

lemma ends_basic [simp]:
  "ends (Inr x)" "ends (vec_get xs i)" "ends (vec_set xs i v)" "ends (Inl OutOfRange)" "ends (Inl Fatal)"
  "ends (Inl AssertFailed)" "ends (Inl Panic)"
  by (simp_all add: ends_def vec_get_def vec_set_def)

lemma ends_if: "(P \<Longrightarrow> ends a) \<Longrightarrow> (\<not> P \<Longrightarrow> ends b) \<Longrightarrow> ends (if P then a else b)"
  by simp

lemma ends_assert: "(P \<Longrightarrow> ends a) \<Longrightarrow> ends (assert_that P a)"
  by (cases P) simp_all

lemma ends_tables:
  "ends (log_base2 n)" "ends (rpt_tag s pc)" "ends (rpt_new_entry i tg a r)" "ends (rpt_old_entry i a r)"
  "ends (rpt_target i a r)" "ends (next_miss_loop i m q a)" "ends (miss_queue_get_next_miss_addr a cp)"
  "ends (hit_lat b now cp)"
proof -
  show l: "ends (log_base2 n)" for n by (simp add: log_base2_def)
  show "ends (rpt_tag s pc)" unfolding rpt_tag_def by (intro ends_bind l ends_basic)
  show "ends (rpt_new_entry i tg a r)" unfolding rpt_new_entry_def by (intro ends_bind ends_basic)
  show "ends (rpt_old_entry i a r)" unfolding rpt_old_entry_def Let_def by (intro ends_bind ends_basic ends_if)
  show "ends (rpt_target i a r)" unfolding rpt_target_def by (intro ends_bind ends_basic)
  show n: "ends (next_miss_loop i m q a)" for i m q a
    by (induction i m q a rule: next_miss_loop.induct) (auto intro!: ends_bind)
  show "ends (miss_queue_get_next_miss_addr a cp)"
    unfolding miss_queue_get_next_miss_addr_def by (intro ends_assert n)
  show "ends (hit_lat b now cp)"
    unfolding hit_lat_def blk_at_def by (intro ends_bind) simp_all
qed

definition ending :: "('w \<Rightarrow> bool) \<Rightarrow> (md_addr \<Rightarrow> 'w mem \<Rightarrow> 'w mem res) \<Rightarrow> bool" where
  "ending J gen \<longleftrightarrow> (\<forall>a m. cache_inv (fst m) \<longrightarrow> J (snd m) \<longrightarrow> ends (gen a m))"

text \<open>A next level whose handler ends in the states the level keeps to.\<close>

locale ending_level = next_level env J for env :: "'w env" and J :: "'w \<Rightarrow> bool" +
  assumes handler_ends: "J w \<Longrightarrow> ends (blk_access_fn env c a n t pf w)"
begin

lemma later_keeps: "later env w w1 \<Longrightarrow> J w \<Longrightarrow> J w1"
  by (induction rule: later.induct) (auto intro: answer random)

lemma not_handler_diverges: "J w \<Longrightarrow> \<not> handler_fails env w Diverges"
  using handler_ends later_keeps by (auto simp: handler_fails_def ends_def)

lemma access_gen_ends:
  assumes gen: "ending J gen" and inv: "cache_inv (fst m)" and jm: "J (snd m)"
  shows "ends (cache_access_gen gen env cmd a n now pf m)"
proof -
  obtain cp w where m: "m = (cp, w)" by (cases m)
  have inv': "cache_inv cp" and jw: "J w" using inv jm by (simp_all add: m)
  have tp: "ends (then_prefetch gen pf a m')" if "cache_inv (fst m')" "J (snd m')" for m'
    using gen that by (cases m') (simp add: then_prefetch_def ending_def)
  from inv' show ?thesis
    unfolding m
  proof (cases rule: access_cases [where a = a and n = n and gen = gen and env = env and cmd = cmd and
        now = now and pf = pf and w = w])
    case (null cp1)
    then show "ends (cache_access_gen gen env cmd a n now pf (cp, w))"
      using jw unfolding null(5) by (auto intro!: ends_bind tp)
  next
    case (hit b cp1)
    have "cache_inv cp1" using hit(6) by (simp add: hit_done_def)
    then show "ends (cache_access_gen gen env cmd a n now pf (cp, w))"
      using jw unfolding hit(7) by (auto intro!: ends_bind tp ends_tables)
  next
    case (fails e)
    then show "ends (cache_access_gen gen env cmd a n now pf (cp, w))"
      using not_handler_diverges [OF jw] by (auto simp: ends_def)
  next
    case (miss r lat ra cp1 w1)
    have "J w1" using served_keeps [OF miss(5)] jw random by auto
    moreover have "cache_inv cp1" using miss(4) by (simp add: miss_done_def)
    ultimately show "ends (cache_access_gen gen env cmd a n now pf (cp, w))"
      unfolding miss(6) by (auto intro!: ends_bind tp)
  qed simp_all
qed

lemma prefetch_ends:
  assumes inv: "cache_inv (fst m)" and jm: "J (snd m)" shows "ends (prefetch env a m)"
proof -
  obtain cp w where m: "m = (cp, w)" by (cases m)
  have inv': "cache_inv cp" using inv by (simp add: m)
  have "ending J (\<lambda>_. Inr)" by (simp add: ending_def)
  then have acc: "ends (prefetch_access env b (cp, w))" for b
    unfolding prefetch_access_def prod.case by (rule access_gen_ends) (use inv jm in \<open>simp_all add: m\<close>)
  have "ends (cache_probe b cp)" for b
    using cache_probe_present [OF cache_invD(1) [OF inv'], of b] by simp
  then show ?thesis
    unfolding prefetch_def m prod.case Let_def by (auto intro!: ends_assert ends_bind ends_if acc)
qed

lemma next_miss_ends: "cache_inv (fst m) \<Longrightarrow> J (snd m) \<Longrightarrow> ends (next_miss_prefetch env a m)"
  by (cases m) (auto simp: next_miss_prefetch_def ends_tables intro!: ends_bind prefetch_ends)

lemma rpt_inv:
  assumes "cache_inv cp" and "rpt cp = Some r" and "rpt_new_entry i tg a r = Inr r' \<or> rpt_old_entry i a r = Inr r'"
  shows "cache_inv (cp\<lparr>rpt := Some r'\<rparr>)"
proof -
  have "keeps (\<lambda>_. True) (cp, ()) (cp\<lparr>rpt := Some r'\<rparr>, ())"
    using assms(3) by (rule disjE) (rule rpt_keeps [OF assms(2)], erule rpt_new_entry_lengths rpt_old_entry_lengths)+
  then show ?thesis using assms(1) by (simp add: keeps_def)
qed

lemma open_ended_ends:
  assumes inv: "cache_inv (fst m)" and jm: "J (snd m)" shows "ends (open_ended_prefetcher env a m)"
proof -
  obtain cp w where m: "m = (cp, w)" by (cases m)
  have inv': "cache_inv cp" and jw: "J w" using inv jm by (simp_all add: m)
  show ?thesis
  proof (cases "rpt cp")
    case None
    then show ?thesis
      unfolding open_ended_prefetcher_def m prod.case Let_def
      by (auto intro!: ends_assert ends_bind ends_tables)
  next
    case (Some r)
    note ri = rpt_inv [OF inv' Some]
    show ?thesis
      unfolding open_ended_prefetcher_def m prod.case Let_def Some option.case
      by (intro ends_assert ends_bind ends_if ends_basic ends_tables next_miss_ends prefetch_ends)
        (use jm in \<open>auto simp: m intro: ri [OF disjI1] ri [OF disjI2]\<close>)
  qed
qed

lemma stride_ends:
  assumes inv: "cache_inv (fst m)" and jm: "J (snd m)" shows "ends (stride_prefetcher env a m)"
proof -
  obtain cp w where m: "m = (cp, w)" by (cases m)
  have inv': "cache_inv cp" and jw: "J w" using inv jm by (simp_all add: m)
  show ?thesis
  proof (cases "rpt cp")
    case None
    then show ?thesis
      unfolding stride_prefetcher_def m prod.case Let_def
      by (auto intro!: ends_assert ends_bind ends_tables)
  next
    case (Some r)
    note ri = rpt_inv [OF inv' Some]
    show ?thesis
      unfolding stride_prefetcher_def m prod.case Let_def Some option.case
      by (intro ends_assert ends_bind ends_if ends_basic ends_tables prefetch_ends)
        (use jm in \<open>auto simp: m intro: ri [OF disjI1] ri [OF disjI2]\<close>)
  qed
qed

lemma generate_prefetch_ends: "ending J (generate_prefetch env)"
  unfolding ending_def
  by (auto simp: generate_prefetch_def next_line_prefetcher_def intro!: prefetch_ends open_ended_ends stride_ends)

lemma access_ends: "cache_inv (fst m) \<Longrightarrow> J (snd m) \<Longrightarrow> ends (cache_access env cmd a n now pf m)"
  unfolding cache_access_def by (rule access_gen_ends [OF generate_prefetch_ends])

lemma flush_ends:
  assumes "cache_inv (fst m)" and "J (snd m)" shows "ends (cache_flush env now m)" and "ends (cache_flush_addr env a now m)"
proof -
  obtain cp w where m: "m = (cp, w)" by (cases m)
  have inv: "cache_inv cp" and jw: "J w" using assms by (simp_all add: m)
  show "ends (cache_flush env now m)"
    using cache_flush_ok [OF inv, of env now w] not_handler_diverges [OF jw] unfolding m by (auto simp: ends_def)
  show "ends (cache_flush_addr env a now m)"
    using cache_flush_addr_ok [OF inv, of env a now w] not_handler_diverges [OF jw] unfolding m by (auto simp: ends_def)
qed

end

interpretation memory_ends: ending_level "dl2_env rnd pc" "\<lambda>_. True" for rnd pc
  by unfold_locales (simp add: dl2_env_def)

interpretation level2_ends: ending_level "dl1_env rnd pc" level2_ok for rnd :: "'r \<Rightarrow> nat \<times> 'r" and pc
proof unfold_locales
  fix w :: "cache_t option \<times> 'r" and c a n t pf
  assume w: "level2_ok w"
  obtain dl2 s where ws: "w = (dl2, s)" by (cases w)
  show "ends (blk_access_fn (dl1_env rnd pc) c a n t pf w)"
  proof (cases dl2)
    case None
    then show ?thesis by (simp add: ws dl1_env_def dl1_access_fn_def)
  next
    case (Some l2)
    then have "ends (cache_access (dl2_env rnd pc) c a (of_nat n) t pf (l2, s))"
      using w by (intro memory_ends.access_ends) (simp_all add: ws level2_ok_def)
    then show ?thesis by (auto simp: ws Some dl1_env_def dl1_access_fn_def intro!: ends_bind)
  qed
qed

section \<open>The miss queue\<close>

text \<open>
  The queue as a list: before it is full, an insertion appends; once full, an insertion overwrites the
  slot after the oldest entry, so that the oldest outlives the second oldest.
\<close>

lemma miss_queue_fills:
  assumes "miss_queue_insert a cp = Inr cp'" and "miss_queue_head cp = 0" and "miss_queue_size cp < MISS_QUEUE_MAX_SIZE"
    and "length (miss_queue cp) = MISS_QUEUE_MAX_SIZE"
  shows "take (miss_queue_size cp') (miss_queue cp') = take (miss_queue_size cp) (miss_queue cp) @ [a]"
    and "miss_queue_size cp' = miss_queue_size cp + 1" and "miss_queue_head cp' = 0"
    and "length (miss_queue cp') = MISS_QUEUE_MAX_SIZE"
proof -
  have "cp' = cp\<lparr>miss_queue := (miss_queue cp)[miss_queue_size cp := a], miss_queue_size := miss_queue_size cp + 1\<rparr>"
    using assms by (auto simp: miss_queue_insert_def Let_def assert_that_eq_Inr)
  then show "take (miss_queue_size cp') (miss_queue cp') = take (miss_queue_size cp) (miss_queue cp) @ [a]"
    "miss_queue_size cp' = miss_queue_size cp + 1" "miss_queue_head cp' = 0"
    "length (miss_queue cp') = MISS_QUEUE_MAX_SIZE"
    using assms(2-4) by (simp_all add: take_Suc_conv_app_nth)
qed

lemma miss_queue_overwrites_second:
  assumes "miss_queue_insert a cp = Inr cp'" and "miss_queue_head cp = 0" and "miss_queue_size cp = MISS_QUEUE_MAX_SIZE"
    and "length (miss_queue cp) = MISS_QUEUE_MAX_SIZE"
  shows "miss_queue cp' = (miss_queue cp)[1 := a]"
proof -
  have "(1 + MISS_QUEUE_MAX_SIZE) mod MISS_QUEUE_MAX_SIZE = 1" by (simp add: MISS_QUEUE_MAX_SIZE_def)
  then show ?thesis using assms by (auto simp: miss_queue_insert_def Let_def assert_that_eq_Inr res_bind_eq_Inr vec_set_eq_Inr)
qed

section \<open>The stride table\<close>

text \<open>The accesses of one load, after the one that entered it in the table.\<close>

fun rpt_trace :: "nat \<Rightarrow> md_addr list \<Rightarrow> rpt_t \<Rightarrow> rpt_t res" where
  "rpt_trace i [] r = Inr r"
| "rpt_trace i (a # as) r = res_bind (rpt_old_entry i a r) (rpt_trace i as)"

lemma rpt_trace_snoc: "rpt_trace i (as @ [a]) r = res_bind (rpt_trace i as r) (rpt_old_entry i a)"
proof (induction as arbitrary: r)
  case Nil
  have "rpt_trace i [] = Inr" by (simp add: fun_eq_iff)
  then show ?case by (cases "rpt_old_entry i a r") simp_all
next
  case (Cons b as)
  then show ?case by (cases "rpt_old_entry i b r") simp_all
qed

definition entry :: "nat \<Rightarrow> rpt_t \<Rightarrow> md_addr \<times> md_addr \<times> bool \<times> rpt_state_t" where
  "entry i r = (prev_addrs r ! i, strides r ! i, is_negative r ! i, states r ! i)"

lemma entry_old:
  assumes "rpt_old_entry i a r = Inr r'" and "entry i r = (p, s, neg, st)"
  shows "entry i r' = (a, old_entry a p s neg st)"
proof -
  note R = rpt_old_entry_range [OF assms(1)]
  show ?thesis
    using assms unfolding rpt_old_entry_eq [OF R] by (auto simp: entry_def R split: prod.splits)
qed

lemma entry_new:
  assumes "rpt_new_entry i tg a r = Inr r'" shows "entry i r' = (a, 0, False, Initial)"
  using assms unfolding rpt_new_entry_def by (auto simp: res_bind_eq_Inr vec_set_eq_Inr entry_def)

text \<open>Stepping by a stride.\<close>

lemma word_less_int:
  assumes "0 \<le> x" "x < 2 ^ 32" "0 \<le> y" "y < 2 ^ 32"
  shows "(of_int x :: u32) < of_int y \<longleftrightarrow> x < y"
  using assms by (simp add: word_less_def uint_word_of_int_eq take_bit_int_eq_self)

lemma stride_dist:
  assumes "0 \<le> P" "P < 2 ^ 32" "0 \<le> P + d" "P + d < 2 ^ 32"
  shows "max (of_int (P + d) :: u32) (of_int P) - min (of_int (P + d)) (of_int P) = of_int \<bar>d\<bar>"
    and "(of_int (P + d) < (of_int P :: u32)) = (d < 0)"
proof -
  have l: "(of_int (P + d) < (of_int P :: u32)) = (d < 0)" using word_less_int [OF assms(3,4,1,2)] by simp
  then show "(of_int (P + d) < (of_int P :: u32)) = (d < 0)" .
  show "max (of_int (P + d) :: u32) (of_int P) - min (of_int (P + d)) (of_int P) = of_int \<bar>d\<bar>"
    using l by (cases "d < 0") (auto simp: max_def min_def not_le not_less)
qed

lemma old_entry_step:
  assumes "0 \<le> P" "P < 2 ^ 32" "0 \<le> P + d" "P + d < 2 ^ 32" and d: "d \<noteq> 0"
  shows "old_entry (of_int (P + d)) (of_int P) 0 False Initial = (of_int \<bar>d\<bar>, d < 0, Transient)"
    and "st \<in> {Transient, Steady} \<Longrightarrow>
      old_entry (of_int (P + d)) (of_int P) (of_int \<bar>d\<bar>) (d < 0) st = (of_int \<bar>d\<bar>, d < 0, Steady)"
proof -
  note D = stride_dist [OF assms(1-4)]
  have "\<bar>d\<bar> < 2 ^ 32" using assms by arith
  then have nz: "(of_int \<bar>d\<bar> :: u32) \<noteq> 0" using d dvd_imp_le_int [of d "2 ^ 32"] by (auto simp: word_of_int_eq_0_iff)
  show "old_entry (of_int (P + d)) (of_int P) 0 False Initial = (of_int \<bar>d\<bar>, d < 0, Transient)"
    unfolding old_entry_def Let_def D using nz by simp
  show "st \<in> {Transient, Steady} \<Longrightarrow>
      old_entry (of_int (P + d)) (of_int P) (of_int \<bar>d\<bar>) (d < 0) st = (of_int \<bar>d\<bar>, d < 0, Steady)"
    unfolding old_entry_def Let_def D by auto
qed

lemma stride_entry:
  assumes new: "rpt_new_entry i tg (of_int A) r = Inr r1" and d: "d \<noteq> 0"
    and range: "\<And>m. m \<le> Suc k \<Longrightarrow> 0 \<le> A + int m * d \<and> A + int m * d < 2 ^ 32"
    and tr: "rpt_trace i (map (\<lambda>m. of_int (A + int m * d)) [1..<Suc (Suc k)]) r1 = Inr r'"
  shows "entry i r' = (of_int (A + int (Suc k) * d), of_int \<bar>d\<bar>, d < 0, if k = 0 then Transient else Steady)"
  using range tr
proof (induction k arbitrary: r')
  case 0
  have "0 \<le> A" "A < 2 ^ 32" "0 \<le> A + d" "A + d < 2 ^ 32" using "0.prems"(1) [of 0] "0.prems"(1) [of 1] by simp_all
  note S = old_entry_step(1) [OF this d]
  have "rpt_old_entry i (of_int (A + d)) r1 = Inr r'"
    using "0.prems"(2) by (cases "rpt_old_entry i (of_int (A + d)) r1") simp_all
  from entry_old [OF this entry_new [OF new]] S show ?case by simp
next
  case (Suc k)
  have "[1..<Suc (Suc (Suc k))] = [1..<Suc (Suc k)] @ [Suc (Suc k)]" by simp
  then obtain r2 where r2: "rpt_trace i (map (\<lambda>m. of_int (A + int m * d)) [1..<Suc (Suc k)]) r1 = Inr r2"
    "rpt_old_entry i (of_int (A + int (Suc (Suc k)) * d)) r2 = Inr r'"
    using Suc.prems(2) by (simp only: map_append list.map rpt_trace_snoc res_bind_eq_Inr) blast
  have "entry i r2 = (of_int (A + int (Suc k) * d), of_int \<bar>d\<bar>, d < 0, if k = 0 then Transient else Steady)"
    by (rule Suc.IH [OF _ r2(1)]) (use Suc.prems(1) in simp)
  note E = entry_old [OF r2(2) this]
  have nx: "A + int (Suc (Suc k)) * d = A + int (Suc k) * d + d" by (simp add: algebra_simps)
  have "0 \<le> A + int (Suc k) * d" "A + int (Suc k) * d < 2 ^ 32"
    "0 \<le> A + int (Suc k) * d + d" "A + int (Suc k) * d + d < 2 ^ 32"
    using Suc.prems(1) [of "Suc k"] Suc.prems(1) [of "Suc (Suc k)"] unfolding nx by simp_all
  from old_entry_step(2) [OF this d, of "if k = 0 then Transient else Steady"]
  show ?case using E unfolding nx by simp
qed

lemma rpt_old_entry_keeps_range:
  assumes "rpt_trace i as r = Inr r'"
  shows "length (strides r') = length (strides r) \<and> length (is_negative r') = length (is_negative r)"
  using assms
proof (induction as arbitrary: r)
  case (Cons a as)
  then obtain r1 where r1: "rpt_old_entry i a r = Inr r1" "rpt_trace i as r1 = Inr r'" by (auto simp: res_bind_eq_Inr)
  show ?case using Cons.IH [OF r1(2)] rpt_old_entry_lengths [OF r1(1)] by simp
qed simp

end
