(* ===== verification/Lab5_Props.thy ===== *)
theory Lab5_Props
  imports Lab5_Prefetch
begin

text \<open>
  The properties of the lab 5 cache, with the example caches of their witnesses.
\<close>

section \<open>Example caches\<close>

text \<open>Two sets of two blocks of eight bytes, and a level below with four sets of sixteen bytes.\<close>

definition demo :: "cache_policy \<Rightarrow> int \<Rightarrow> cache_t" where
  "demo pol pt = projr (cache_create (\<lambda>_. True) True 2 8 0 2 pol 1 pt)"

definition demo2 :: cache_t where
  "demo2 = projr (cache_create (\<lambda>_. True) True 4 16 0 1 LRU 6 0)"

definition bump :: "nat \<Rightarrow> nat \<times> nat" where
  "bump n = (n, n + 1)"

definition returns :: "'a res \<Rightarrow> bool" where
  "returns m = (case m of Inr _ \<Rightarrow> True | Inl _ \<Rightarrow> False)"

lemma returnsE: "returns m \<Longrightarrow> (\<And>x. m = Inr x \<Longrightarrow> P) \<Longrightarrow> P"
  by (cases m) (simp_all add: returns_def)

lemma demo_params: "creatable 2 8 0 2 0" "creatable 2 8 0 2 1" "addressable 2 8 2" "creatable 4 16 0 1 0" "addressable 4 16 1"
  "allocated (\<lambda>_. True) ns as"
  by (simp_all add: creatable_def addressable_def allocated_def)

lemma demo_created: "cache_create (\<lambda>_. True) True 2 8 0 2 pol 1 0 = Inr (demo pol 0)" "cache_create (\<lambda>_. True) True 2 8 0 2 pol 1 1 = Inr (demo pol 1)"
  "cache_create (\<lambda>_. True) True 4 16 0 1 LRU 6 0 = Inr demo2"
proof -
  show "cache_create (\<lambda>_. True) True 2 8 0 2 pol 1 0 = Inr (demo pol 0)"
    by (rule cache_create_ok [OF demo_params(1) _ _ TrueI demo_params(6), of pol 1]) (simp_all add: demo_def)
  show "cache_create (\<lambda>_. True) True 2 8 0 2 pol 1 1 = Inr (demo pol 1)"
    by (rule cache_create_ok [OF demo_params(2) _ _ TrueI demo_params(6), of pol 1]) (simp_all add: demo_def)
  show "cache_create (\<lambda>_. True) True 4 16 0 1 LRU 6 0 = Inr demo2"
    by (rule cache_create_ok [OF demo_params(4) _ _ TrueI demo_params(6), of LRU 6]) (simp_all add: demo2_def)
qed

lemma created_facts:
  assumes "cache_create alloc blk_fn ns bs us as pol hl pt = Inr cp" and "addressable ns bs as"
  shows "cache_inv cp" and "policy cp = pol" and "prefetch_type cp = nat pt" and "assoc cp = nat as"
    and "\<forall>b < length (data cp). \<not> fst (snd (ln cp b))" and "creatable ns bs us as pt"
proof -
  have c: "creatable ns bs us as pt \<and> blk_fn \<and> alloc 0" by (rule ccontr) (use assms(1) cache_create_bad in simp)
  then have b: "ns * bs < 2 ^ 32" "ns * as < 2 ^ 31"
    using assms cache_create_undefined [of ns bs us as pt blk_fn alloc pol hl] unfolding addressable_def by force+
  then have al: "allocated alloc ns as"
    using assms(1) c cache_create_unallocated [of ns bs us as pt blk_fn alloc pol hl] by force
  obtain cp' where cp': "cache_create alloc blk_fn ns bs us as pol hl pt = Inr cp'" "cache_inv cp'" "policy cp' = pol"
    "prefetch_type cp' = nat pt" "assoc cp' = nat as" "\<forall>b < length (data cp'). \<not> fst (snd (ln cp' b))"
    using cache_create_ok [of ns bs us as pt blk_fn alloc pol hl] c b al by metis
  have "cp' = cp" using cp'(1) assms(1) by simp
  then show "cache_inv cp" "policy cp = pol" "prefetch_type cp = nat pt" "assoc cp = nat as"
    "\<forall>b < length (data cp). \<not> fst (snd (ln cp b))" "creatable ns bs us as pt" using cp'(2-6) c by simp_all
qed

lemma demo_facts:
  "cache_inv (demo pol 0)" "policy (demo pol 0) = pol" "prefetch_type (demo pol 0) = 0"
  "cache_inv (demo pol 1)" "prefetch_type (demo pol 1) = 1"
  using created_facts(1-3) [OF demo_created(1) demo_params(3)] created_facts(1,3) [OF demo_created(2) demo_params(3)]
  by simp_all

section \<open>The properties\<close>

text \<open>C15: The outcome of \<open>cache_create\<close> for every combination of parameters, except a product of sets and block
  size of exactly 2\<open>\<^sup>3\<^sup>2\<close> (a tag shift of 32, which C leaves undefined at the first access).  Parameters it
  does not accept, no miss handler, and each failing allocation are a fatal error; a larger product, and
  one of sets and ways that leaves the range of \<open>int\<close>, are undefined.  Otherwise it returns a well-formed and
  empty cache: its geometry is that of the parameters, its way lists and hash chains hold every block of
  their set once, and it holds no address.\<close>

theorem created_cache_is_empty:
  assumes "ns * bs \<noteq> 2 ^ 32"
  shows "if \<not> (creatable ns bs us as pt \<and> blk_fn \<and> alloc 0)
    then cache_create alloc blk_fn ns bs us as pol hl pt = Inl Fatal
    else if 2 ^ 32 < ns * bs \<or> 2 ^ 31 \<le> ns * as
    then cache_create alloc blk_fn ns bs us as pol hl pt = Inl OutOfRange
    else if \<not> (alloc 1 \<and> (4 < as \<longrightarrow> (\<forall>k<nat ns. alloc (2 + k))))
    then cache_create alloc blk_fn ns bs us as pol hl pt = Inl Fatal
    else \<exists>cp. cache_create alloc blk_fn ns bs us as pol hl pt = Inr cp \<and> cache_inv cp \<and> (\<forall>a. \<not> present cp a) \<and>
      nsets cp = nat ns \<and> bsize cp = nat bs \<and> assoc cp = nat as \<and> policy cp = pol \<and> counts cp = [0, 0, 0, 0, 0, 0]"
proof -
  consider (bad) "\<not> (creatable ns bs us as pt \<and> blk_fn \<and> alloc 0)"
    | (big) "creatable ns bs us as pt" "blk_fn" "alloc 0" "2 ^ 32 < ns * bs \<or> 2 ^ 31 \<le> ns * as"
    | (unalloc) "creatable ns bs us as pt" "blk_fn" "alloc 0" "ns * bs < 2 ^ 32" "ns * as < 2 ^ 31" "\<not> allocated alloc ns as"
    | (ok) "creatable ns bs us as pt" "blk_fn" "ns * bs < 2 ^ 32" "ns * as < 2 ^ 31" "allocated alloc ns as"
    using assms by (cases "ns * bs < 2 ^ 32"; cases "ns * as < 2 ^ 31") (auto simp: allocated_def)
  then show ?thesis
  proof cases
    case bad
    then show ?thesis using bad cache_create_bad [of ns bs us as pt blk_fn alloc pol hl] by simp
  next
    case big
    then show ?thesis using big cache_create_undefined [of ns bs us as pt blk_fn alloc pol hl] by auto
  next
    case unalloc
    then show ?thesis using unalloc cache_create_unallocated [of ns bs us as pt blk_fn alloc pol hl] by (auto simp: allocated_def)
  next
    case ok
    obtain cp where cp: "cache_create alloc blk_fn ns bs us as pol hl pt = Inr cp" "cache_inv cp" "nsets cp = nat ns"
      "bsize cp = nat bs" "assoc cp = nat as" "policy cp = pol" "counts cp = [0, 0, 0, 0, 0, 0]"
      "\<forall>b < length (data cp). \<not> fst (snd (ln cp b))"
      using cache_create_ok [of ns bs us as pt blk_fn alloc pol hl] ok by metis
    note I = cache_invD [OF cp(2)]
    have "\<not> present cp a" for a
      using cp(8) set_blks_less [OF I(2) set_index_less [OF I(2)]] by (auto simp: present_def holds_ln)
    then show ?thesis using ok cp(1-7) by (auto simp: allocated_def)
  qed
qed

theorem created_cache_is_empty_witness:
  "(\<exists>cp. cache_create (\<lambda>_. True) True 2 8 0 2 LRU 1 0 = Inr cp \<and> cache_inv cp \<and> (\<forall>a. \<not> present cp a) \<and>
     nsets cp = 2 \<and> bsize cp = 8 \<and> assoc cp = 2 \<and> policy cp = LRU \<and> counts cp = [0, 0, 0, 0, 0, 0]) \<and>
   cache_create (\<lambda>_. True) True 65536 8 0 65536 LRU 1 0 = Inl OutOfRange"
proof
  show "\<exists>cp. cache_create (\<lambda>_. True) True 2 8 0 2 LRU 1 0 = Inr cp \<and> cache_inv cp \<and> (\<forall>a. \<not> present cp a) \<and>
     nsets cp = 2 \<and> bsize cp = 8 \<and> assoc cp = 2 \<and> policy cp = LRU \<and> counts cp = [0, 0, 0, 0, 0, 0]"
    using created_cache_is_empty [of 2 8 0 2 0 True "\<lambda>_. True" LRU 1] demo_params(1) by simp
  have "creatable 65536 8 0 65536 0" by (simp add: creatable_def)
  then show "cache_create (\<lambda>_. True) True 65536 8 0 65536 LRU 1 0 = Inl OutOfRange"
    using created_cache_is_empty [of 65536 8 0 65536 0 True "\<lambda>_. True" LRU 1] by simp
qed

text \<open>C8: Two levels of cache stay well formed through every sequence of accesses and flushes that the
  first level makes, the misses, write-backs and prefetches that reach the second level included.\<close>

theorem two_levels_invariant:
  assumes "cache_create alloc blk_fn ns1 bs1 us1 as1 pol1 hl1 pt1 = Inr l1" and "addressable ns1 bs1 as1"
    and "cache_create alloc2 blk_fn2 ns2 bs2 us2 as2 pol2 hl2 pt2 = Inr l2" and "addressable ns2 bs2 as2"
    and "cache_run (dl1_env rnd) (l1, Some l2, r) (l1', Some l2', r')"
  shows "cache_inv l1' \<and> cache_inv l2'"
  using two_levels_keep [OF assms(5)] created_facts(1) [OF assms(1,2)] created_facts(1) [OF assms(3,4)]
  by (simp add: keeps_def level2_ok_def)

theorem two_levels_invariant_witness:
  "\<exists>l1' l2' r'. cache_run (dl1_env bump) (demo LRU 0, Some demo2, 0) (l1', Some l2', r') \<and>
     misses l1' = 1 \<and> misses l2' = 1 \<and> cache_inv l1' \<and> cache_inv l2'"
proof -
  have "case cache_access (dl1_env bump 0) Write 24 4 0 False (demo LRU 0, Some demo2, 0) of
      Inr (lat, ra, l1', Some l2', r') \<Rightarrow> misses l1' = 1 \<and> misses l2' = 1 | _ \<Rightarrow> False" by code_simp
  then obtain lat ra l1' l2' r' where r: "cache_access (dl1_env bump 0) Write 24 4 0 False (demo LRU 0, Some demo2, 0) =
      Inr (lat, ra, l1', Some l2', r')" "misses l1' = 1" "misses l2' = 1"
    by (auto split: sum.splits option.splits)
  have run: "cache_run (dl1_env bump) (demo LRU 0, Some demo2, 0) (l1', Some l2', r')"
    by (rule run_step [where env = "dl1_env bump" and pc = 0, OF run_start step_access [OF r(1)]])
  show ?thesis
    using run r(2,3) two_levels_invariant [OF demo_created(1) demo_params(3) demo_created(3) demo_params(5) run] by blast
qed

text \<open>C11: The search of a set, through the hash chain of a highly associative cache or along the way
  list, finds the valid block with the tag, as a scan of the blocks of the set does; when the fast path
  has a block, it is that one.\<close>

theorem search_agrees:
  assumes "cache_inv cp"
  shows "find_blk (CACHE_SET cp a) (CACHE_TAG cp a) cp = Inr (find (\<lambda>b. tag (data cp ! b) = CACHE_TAG cp a \<and> is_valid (data cp ! b))
      [set_index cp a * assoc cp..<(set_index cp a + 1) * assoc cp]) \<and>
    (CACHE_TAGSET cp a = last_tagset cp \<longrightarrow> last_blk cp \<noteq> None \<longrightarrow>
      find_blk (CACHE_SET cp a) (CACHE_TAG cp a) cp = Inr (last_blk cp))"
proof -
  note I = cache_invD [OF assms]
  define f where "f = find (holds cp (CACHE_TAG cp a)) [set_index cp a * assoc cp..<(set_index cp a + 1) * assoc cp]"
  have s: "set [set_index cp a * assoc cp..<(set_index cp a + 1) * assoc cp] = set_blks cp (set_index cp a)"
    by (simp add: set_blks_def)
  have "find_blk (CACHE_SET cp a) (CACHE_TAG cp a) cp = Inr f"
    unfolding find_blk_eq [OF I(1)]
  proof (cases f)
    case None
    have "\<forall>x \<in> set_blks cp (set_index cp a). \<not> holds cp (CACHE_TAG cp a) x"
      using None unfolding f_def find_None_iff s by blast
    then show "case f of None \<Rightarrow> \<not> present cp a | Some b \<Rightarrow> b \<in> set_blks cp (set_index cp a) \<and> holds cp (CACHE_TAG cp a) b"
      using None by (simp add: present_def)
  next
    case (Some b)
    then show "case f of None \<Rightarrow> \<not> present cp a | Some b \<Rightarrow> b \<in> set_blks cp (set_index cp a) \<and> holds cp (CACHE_TAG cp a) b"
      using find_in [OF Some [unfolded f_def]] unfolding s by (simp add: Some)
  qed
  moreover have "f = find (\<lambda>b. tag (data cp ! b) = CACHE_TAG cp a \<and> is_valid (data cp ! b))
      [set_index cp a * assoc cp..<(set_index cp a + 1) * assoc cp]"
    by (simp add: f_def holds_def [abs_def])
  ultimately show ?thesis using fast_path [OF I(1)] by auto
qed

theorem search_agrees_witness:
  "find_blk (CACHE_SET (demo LRU 0) 24) (CACHE_TAG (demo LRU 0) 24) (demo LRU 0) =
     Inr (find (\<lambda>b. tag (data (demo LRU 0) ! b) = CACHE_TAG (demo LRU 0) 24 \<and> is_valid (data (demo LRU 0) ! b))
       [set_index (demo LRU 0) 24 * assoc (demo LRU 0)..<(set_index (demo LRU 0) 24 + 1) * assoc (demo LRU 0)]) \<and>
   find_blk (CACHE_SET (demo LRU 0) 24) (CACHE_TAG (demo LRU 0) 24) (demo LRU 0) = Inr None"
proof -
  have "case find_blk (CACHE_SET (demo LRU 0) 24) (CACHE_TAG (demo LRU 0) 24) (demo LRU 0) of
      Inr None \<Rightarrow> True | _ \<Rightarrow> False" by code_simp
  then have "find_blk (CACHE_SET (demo LRU 0) 24) (CACHE_TAG (demo LRU 0) 24) (demo LRU 0) = Inr None"
    by (auto split: sum.splits option.splits)
  then show ?thesis using search_agrees [OF demo_facts(1), of LRU 24] by simp
qed

text \<open>Without a prefetcher and over a level that always answers, an access fails in two cases only: a
  fatal error for a misaligned access or one that leaves its block (every access to the last block of the
  address space among them, where the bound wraps to 0), and a null pointer for the block at address 0
  while there is no last hit, since 0 is also the value that stands for no last tag and set.\<close>

theorem access_outcome:
  assumes "cache_inv cp" and "prefetch_type cp = 0"
    and answers: "\<And>c b m t p v. \<exists>l v'. blk_access_fn env c b m t p v = Inr (l, v')"
  shows "case cache_access env cmd a n now pf (cp, w) of
      Inr _ \<Rightarrow> legal cp a n \<and> \<not> null_hit cp a
    | Inl e \<Rightarrow> if legal cp a n then null_hit cp a \<and> e = OutOfRange else e = Fatal"
proof -
  have "\<not> handler_fails env w e" for e
  proof
    assume "handler_fails env w e"
    then obtain c b m t p v where "blk_access_fn env c b m t p v = Inl e" by (auto simp: handler_fails_def)
    then show False using answers [of c b m t p v] by auto
  qed
  then show ?thesis
    by (cases rule: no_prefetch_cases [OF assms(1,2), of a n env cmd now pf w]) simp_all
qed

theorem access_outcome_witness:
  "cache_access (dl2_env bump 0) Read 0 4 0 False (demo LRU 0, 0) = Inl OutOfRange \<and>
   null_hit (demo LRU 0) 0 \<and> legal (demo LRU 0) 0 4"
proof -
  have r: "cache_access (dl2_env bump 0) Read 0 4 0 False (demo LRU 0, 0) = Inl OutOfRange"
    and l: "legal (demo LRU 0) 0 4" by code_simp+
  have ans: "\<exists>l v'. blk_access_fn (dl2_env bump 0) c b m t p v = Inr (l, v')" for c b m t p v
    by (simp add: dl2_env_def)
  have "null_hit (demo LRU 0) 0"
    using access_outcome [OF demo_facts(1,3) [of LRU] ans, where cmd = Read and a = 0 and n = 4 and now = 0 and pf = False and w = 0] l unfolding r by simp
  then show ?thesis using r l by blast
qed

text \<open>C9: Without a prefetcher and with a replacement policy other than random, the cache implements a list
  of lines per set: an access changes only the set of its address, as the abstract access does; it counts
  a hit exactly when the abstract set holds the tag, and asks the level below for nothing on a hit and
  for the write-back of the last line, if it is valid and dirty, and the block on a miss.\<close>

theorem access_refines:
  assumes "cache_inv cp" and "prefetch_type cp = 0" and "policy cp \<noteq> Random"
    and "cache_access env cmd a n now pf (cp, w) = Inr (lat, ra, cp', w')"
  shows "(\<forall>k < nsets cp. lines cp' k =
      (if k = set_index cp a then spec_access (policy cp) cmd (CACHE_TAG cp a) (lines cp k) else lines cp k)) \<and>
    counts cp' = counted cmd pf (in_lines (CACHE_TAG cp a) (lines cp (set_index cp a))) (counts cp) \<and>
    served env (bsize cp) (spec_reqs cp a (lines cp (set_index cp a))) w w'"
  using access_spec(1) [OF assms] by (simp add: spec_step_def Let_def)

theorem access_refines_witness:
  "\<exists>lat ra cp' w'. cache_access (dl2_env bump 0) Write 24 4 0 False (demo FIFO 0, 0) = Inr (lat, ra, cp', w') \<and>
     lines cp' 1 = spec_access FIFO Write (CACHE_TAG (demo FIFO 0) 24) (lines (demo FIFO 0) 1) \<and>
     lines cp' 1 = [(1, True, True), (0, False, False)]"
proof -
  have "case cache_access (dl2_env bump 0) Write 24 4 0 False (demo FIFO 0, 0) of
      Inr (lat, ra, cp', w') \<Rightarrow> lines cp' 1 = [(1, True, True), (0, False, False)] | Inl _ \<Rightarrow> False" by code_simp
  then obtain lat ra cp' w' where r: "cache_access (dl2_env bump 0) Write 24 4 0 False (demo FIFO 0, 0) = Inr (lat, ra, cp', w')"
    "lines cp' 1 = [(1, True, True), (0, False, False)]"
    by (auto split: sum.splits)
  have "1 < nsets (demo FIFO 0)" "set_index (demo FIFO 0) 24 = 1" by code_simp+
  then have "lines cp' 1 = spec_access FIFO Write (CACHE_TAG (demo FIFO 0) 24) (lines (demo FIFO 0) 1)"
    using access_refines [OF demo_facts(1,3) _ r(1)] demo_facts(2) [of FIFO] by simp
  then show ?thesis using r by blast
qed

text \<open>C10: Under LRU and without a prefetcher, after any sequence of accesses to a new cache, an address is
  present exactly when its tag is among the last \<open>assoc\<close> distinct tags used in its set.\<close>

theorem lru_holds_most_recent:
  assumes "cache_create alloc blk_fn ns bs us as LRU hl 0 = Inr cp0" and "addressable ns bs as"
    and "accesses env reqs (cp0, w) = Inr (cp, w')"
  shows "present cp a \<longleftrightarrow>
    CACHE_TAG cp a \<in> set (take (nat as) (mru (rev (set_tags cp reqs (set_index cp a)))))"
proof -
  note F = created_facts [OF assms(1,2)]
  have pt: "prefetch_type cp0 = 0" using F(3) by simp
  have "\<forall>k < nsets cp0. recent_lines (assoc cp0) ((\<lambda>_. []) k) (lines cp0 k)"
    using blank_recent [OF F(1,5)] by simp
  note A = accesses_recent [OF F(1) pt F(2) this assms(3)]
  then have inv: "cache_inv cp" and g: "same_geom cp0 cp" by simp_all
  have k: "set_index cp a < nsets cp0"
    using set_index_less [OF cache_invD(2) [OF inv]] nsets_cong [OF g] by simp
  then have "recent_lines (nat as) (rev (set_tags cp reqs (set_index cp a))) (lines cp (set_index cp a))"
    using A F(4) by (simp add: set_tags_cong [OF g])
  from recent_in_lines [OF this, of "CACHE_TAG cp a"] show ?thesis unfolding in_lines_present [OF inv] .
qed

theorem lru_holds_most_recent_witness:
  "\<exists>cp w'. accesses (dl2_env bump 0) [(Write, 8, 4, 0), (Read, 24, 4, 0), (Read, 8, 4, 0), (Read, 40, 4, 0)]
       (demo LRU 0, 0) = Inr (cp, w') \<and> present cp 8 \<and> \<not> present cp 24"
proof -
  define reqs where "reqs = [(Write, 8 :: md_addr, 4 :: u32, 0 :: int), (Read, 24, 4, 0), (Read, 8, 4, 0), (Read, 40, 4, 0)]"
  have "case accesses (dl2_env bump 0) reqs (demo LRU 0, 0) of
      Inr (cp, w') \<Rightarrow> mru (rev (set_tags cp reqs (set_index cp 8))) = [2, 0, 1] \<and> set_index cp 24 = set_index cp 8 \<and>
        CACHE_TAG cp 8 = 0 \<and> CACHE_TAG cp 24 = 1 | Inl _ \<Rightarrow> False" unfolding reqs_def by code_simp
  then obtain cp w' where r: "accesses (dl2_env bump 0) reqs (demo LRU 0, 0) = Inr (cp, w')"
    "mru (rev (set_tags cp reqs (set_index cp 8))) = [2, 0, 1]" "set_index cp 24 = set_index cp 8"
    "CACHE_TAG cp 8 = 0" "CACHE_TAG cp 24 = 1" by (auto split: sum.splits)
  note L = lru_holds_most_recent [OF demo_created(1) demo_params(3) r(1)]
  have "present cp 8" "\<not> present cp 24" using L [of 8] L [of 24] r by (simp_all add: numeral_2_eq_2)
  then show ?thesis using r(1) unfolding reqs_def by blast
qed

lemma case_Inr:
  "(case m of Inl _ \<Rightarrow> False | Inr (a, b) \<Rightarrow> P a b) \<Longrightarrow> \<exists>a b. m = Inr (a, b) \<and> P a b"
  "(case n of Inl _ \<Rightarrow> False | Inr (a, b, c) \<Rightarrow> Q a b c) \<Longrightarrow> \<exists>a b c. n = Inr (a, b, c) \<and> Q a b c"
  "(case k of Inl _ \<Rightarrow> False | Inr (a, b, c, d) \<Rightarrow> R a b c d) \<Longrightarrow> \<exists>a b c d. k = Inr (a, b, c, d) \<and> R a b c d"
  by (auto split: sum.splits prod.splits)

text \<open>C12: After a flush nothing is present, and what the level below was asked is exactly the write-back of
  the lines that were valid and dirty, set by set.\<close>

theorem flush_empties:
  assumes "cache_inv cp" and "cache_flush env now (cp, w) = Inr (lat, cp', w')"
  shows "cache_inv cp' \<and> \<not> present cp' a \<and>
    served env (bsize cp) (concat (map (\<lambda>k. concat (map (wb_req cp k) (lines cp k))) [0..<nsets cp])) w w'"
proof -
  note I = cache_invD [OF assms(1)]
  from cache_flush_ok [OF assms(1), of env now w] assms(2) have R: "cache_inv cp'" "calm cp cp'"
    "\<forall>b < length (data cp). ln cp' b = invalidated (ln cp b)"
    "served env (bsize cp) (concat (map (\<lambda>j. flush_reqs cp j (ways cp j)) [0..<nsets cp])) w w'" by auto
  have g: "same_geom cp cp'" using R(2) by (simp add: calm_def)
  have "\<not> holds cp' t b" if "b < length (data cp)" for t b
  proof -
    have "ln cp' b = invalidated (ln cp b)" using R(3) that by simp
    then show ?thesis by (cases "ln cp b") (simp add: holds_ln)
  qed
  then have "\<not> present cp' a"
    using set_blks_less [OF I(2) set_index_less [OF I(2)]] unfolding present_def set_index_cong [OF g] set_blks_cong [OF g] by blast
  moreover have "flush_reqs cp j (ways cp j) = concat (map (wb_req cp j) (lines cp j))" for j
    by (simp add: flush_reqs_def lines_def comp_def)
  ultimately show ?thesis using R(1,4) by simp
qed

definition log_env :: "(mem_cmd \<times> md_addr) list env" where
  "log_env = \<lparr>blk_access_fn = (\<lambda>cmd a n t pf w. Inr (1, w @ [(cmd, a)])), myrand = (\<lambda>w. (0, w)), get_PC = 0\<rparr>"

theorem flush_empties_witness:
  "\<exists>cp w lat cp' w'. accesses log_env [(Write, 8, 4, 0), (Read, 24, 4, 0)] (demo LRU 0, []) = Inr (cp, w) \<and>
     cache_flush log_env 10 (cp, w) = Inr (lat, cp', w') \<and> present cp 8 \<and> \<not> present cp' 8 \<and>
     w' = w @ [(Write, 8)]"
proof -
  have "case accesses log_env [(Write, 8, 4, 0), (Read, 24, 4, 0)] (demo LRU 0, []) of
      Inr (cp, w) \<Rightarrow> (case cache_flush log_env 10 (cp, w) of
        Inr (lat, cp', w') \<Rightarrow> w' = w @ [(Write, 8)] \<and> cache_probe 8 cp = Inr True | Inl _ \<Rightarrow> False)
    | Inl _ \<Rightarrow> False" by code_simp
  from case_Inr(1) [OF this] obtain cp w where r1: "accesses log_env [(Write, 8, 4, 0), (Read, 24, 4, 0)] (demo LRU 0, []) = Inr (cp, w)"
    and c: "case cache_flush log_env 10 (cp, w) of
        Inr (lat, cp', w') \<Rightarrow> w' = w @ [(Write, 8)] \<and> cache_probe 8 cp = Inr True | Inl _ \<Rightarrow> False" by blast
  from case_Inr(2) [OF c] obtain lat cp' w' where r2: "cache_flush log_env 10 (cp, w) = Inr (lat, cp', w')"
    "w' = w @ [(Write, 8)]" "cache_probe 8 cp = Inr True" by blast
  note r = r1 r2
  have "\<forall>k < nsets (demo LRU 0). recent_lines (assoc (demo LRU 0)) ((\<lambda>_. []) k) (lines (demo LRU 0) k)"
    using blank_recent [OF demo_facts(1) created_facts(5) [OF demo_created(1) demo_params(3)]] by simp
  from accesses_recent [OF demo_facts(1,3,2) this r(1)] have inv: "cache_inv cp" by simp
  have "present cp 8" using cache_probe_present [OF cache_invD(1) [OF inv], of 8] r(4) by simp
  moreover have "\<not> present cp' 8" using flush_empties [OF inv r(2), of 8] by simp
  ultimately show ?thesis using r(1-3) by (intro exI conjI)
qed

text \<open>Flushing one address removes its block and no other address, writes it back if it is dirty, and
  makes its block the next to be replaced.\<close>

theorem flush_addr_removes_one:
  assumes "cache_inv cp" and "present cp a" and "cache_flush_addr env a now (cp, w) = Inr (lat, cp', w')"
  shows "\<exists>l. is_line (CACHE_TAG cp a) l \<and>
    (\<forall>b. present cp' b \<longleftrightarrow> present cp b \<and> CACHE_TAGSET cp b \<noteq> CACHE_TAGSET cp a) \<and>
    last (lines cp' (set_index cp a)) = invalidated l \<and>
    served env (bsize cp) (wb_req cp (set_index cp a) l) w w'"
proof -
  note I = cache_invD [OF assms(1)]
  define k where "k = set_index cp a"
  have k: "k < nsets cp" unfolding k_def by (rule set_index_less [OF I(2)])
  from cache_flush_addr_ok [OF assms(1), of env a now w] assms(2,3) obtain v where
    v: "v \<in> set_blks cp k" "holds cp (CACHE_TAG cp a) v" and R: "cache_inv cp'" "calm cp cp'"
    "ln cp' = (ln cp)(v := invalidated (ln cp v))" "\<forall>j < nsets cp. ways cp' j = (if j = k then remove1 v (ways cp j) @ [v] else ways cp j)"
    "served env (bsize cp) (wb_req cp k (ln cp v)) w w'" unfolding k_def by auto
  have g: "same_geom cp cp'" using R(2) by (simp add: calm_def)
  have h: "holds cp' t x \<longleftrightarrow> holds cp t x \<and> x \<noteq> v" for t x
    by (cases "ln cp v") (auto simp: holds_ln R(3))
  have "present cp' b \<longleftrightarrow> present cp b \<and> CACHE_TAGSET cp b \<noteq> CACHE_TAGSET cp a" for b
  proof
    assume "present cp' b"
    then obtain x where x: "x \<in> set_blks cp (set_index cp b)" "holds cp (CACHE_TAG cp b) x" "x \<noteq> v"
      unfolding present_def set_index_cong [OF g] set_blks_cong [OF g] addr_cong(1) [OF g] h by blast
    have "CACHE_TAGSET cp b \<noteq> CACHE_TAGSET cp a"
    proof
      assume "CACHE_TAGSET cp b = CACHE_TAGSET cp a"
      from tagset_same [OF I(2) this] have "set_index cp b = k" "CACHE_TAG cp b = CACHE_TAG cp a" by (simp_all add: set_index_def k_def)
      then show False using uniqD [OF I(4) [OF k]] x v by simp
    qed
    then show "present cp b \<and> CACHE_TAGSET cp b \<noteq> CACHE_TAGSET cp a" using x by (auto simp: present_def)
  next
    assume p: "present cp b \<and> CACHE_TAGSET cp b \<noteq> CACHE_TAGSET cp a"
    then obtain x where x: "x \<in> set_blks cp (set_index cp b)" "holds cp (CACHE_TAG cp b) x" by (auto simp: present_def)
    have "x \<noteq> v"
    proof
      assume "x = v"
      then have "set_index cp b = set_index cp a" "CACHE_TAG cp b = CACHE_TAG cp a"
        using x v set_blks_disjoint by (auto simp: k_def holds_def)
      then have "CACHE_TAGSET cp b = CACHE_TAGSET cp a"
        by (intro tag_set_determine [OF I(2)]) (simp_all add: set_index_def word_unat_eq_iff)
      then show False using p by simp
    qed
    then show "present cp' b" using x
      unfolding present_def set_index_cong [OF g] set_blks_cong [OF g] addr_cong(1) [OF g] h by blast
  qed
  moreover have "is_line (CACHE_TAG cp a) (ln cp v)" using v(2) by (simp add: is_line_def holds_ln)
  moreover have "last (lines cp' k) = invalidated (ln cp v)" using R(4) k by (simp add: lines_def R(3))
  ultimately show ?thesis using R(5) unfolding k_def by blast
qed

theorem flush_addr_removes_one_witness:
  "\<exists>cp w lat cp' w'. accesses log_env [(Write, 8, 4, 0), (Read, 24, 4, 0)] (demo LRU 0, []) = Inr (cp, w) \<and>
     cache_flush_addr log_env 24 10 (cp, w) = Inr (lat, cp', w') \<and> present cp 24 \<and> \<not> present cp' 24 \<and> present cp' 8"
proof -
  have "case accesses log_env [(Write, 8, 4, 0), (Read, 24, 4, 0)] (demo LRU 0, []) of
      Inr (cp, w) \<Rightarrow> (case cache_flush_addr log_env 24 10 (cp, w) of
        Inr (lat, cp', w') \<Rightarrow> cache_probe 8 cp = Inr True \<and> cache_probe 24 cp = Inr True \<and> CACHE_TAGSET cp 8 \<noteq> CACHE_TAGSET cp 24
      | Inl _ \<Rightarrow> False)
    | Inl _ \<Rightarrow> False" by code_simp
  from case_Inr(1) [OF this] obtain cp w where r1: "accesses log_env [(Write, 8, 4, 0), (Read, 24, 4, 0)] (demo LRU 0, []) = Inr (cp, w)"
    and c: "case cache_flush_addr log_env 24 10 (cp, w) of
        Inr (lat, cp', w') \<Rightarrow> cache_probe 8 cp = Inr True \<and> cache_probe 24 cp = Inr True \<and> CACHE_TAGSET cp 8 \<noteq> CACHE_TAGSET cp 24
      | Inl _ \<Rightarrow> False" by blast
  from case_Inr(2) [OF c] obtain lat cp' w' where r2: "cache_flush_addr log_env 24 10 (cp, w) = Inr (lat, cp', w')"
    "cache_probe 8 cp = Inr True" "cache_probe 24 cp = Inr True" "CACHE_TAGSET cp 8 \<noteq> CACHE_TAGSET cp 24" by blast
  note r = r1 r2
  have "\<forall>k < nsets (demo LRU 0). recent_lines (assoc (demo LRU 0)) ((\<lambda>_. []) k) (lines (demo LRU 0) k)"
    using blank_recent [OF demo_facts(1) created_facts(5) [OF demo_created(1) demo_params(3)]] by simp
  from accesses_recent [OF demo_facts(1,3,2) this r(1)] have inv: "cache_inv cp" by simp
  have p: "present cp 8" "present cp 24" using cache_probe_present [OF cache_invD(1) [OF inv]] r(3,4) by simp_all
  from flush_addr_removes_one [OF inv p(2) r(2)] have "\<not> present cp' 24" "present cp' 8" using p r(5) by auto
  then show ?thesis using r(1,2) p by (intro exI conjI)
qed

text \<open>C13: A load whose addresses advance by a stride that is not zero, up or down, is steady in the prediction
  table from its third access on, and from its second access on the address predicted is the next one.\<close>

theorem stride_is_learned:
  assumes "rpt_new_entry i tg (of_int A) r = Inr r1" and "d \<noteq> 0" and "1 \<le> k"
    and "\<And>m. m \<le> k \<Longrightarrow> 0 \<le> A + int m * d \<and> A + int m * d < 2 ^ 32"
    and "rpt_trace i (map (\<lambda>m. of_int (A + int m * d)) [1..<Suc k]) r1 = Inr r'"
  shows "rpt_target i (of_int (A + int k * d)) r' = Inr (of_int (A + int (Suc k) * d)) \<and>
    states r' ! i = (if k = 1 then Transient else Steady)"
proof -
  obtain m where m: "k = Suc m" using assms(3) by (cases k) auto
  from stride_entry [OF assms(1,2), of m r'] assms(4,5)
  have E: "entry i r' = (of_int (A + int k * d), of_int \<bar>d\<bar>, d < 0, if m = 0 then Transient else Steady)"
    by (simp only: m)
  have "i < length (strides r1)" "i < length (is_negative r1)"
    using assms(1) by (auto simp: rpt_new_entry_def res_bind_eq_Inr vec_set_eq_Inr)
  then have "i < length (strides r')" "i < length (is_negative r')"
    using rpt_old_entry_keeps_range [OF assms(5)] by simp_all
  then have "rpt_target i (of_int (A + int k * d)) r' =
      Inr (if d < 0 then of_int (A + int k * d) - of_int \<bar>d\<bar> else of_int (A + int k * d) + of_int \<bar>d\<bar>)"
    using E by (simp add: rpt_target_def entry_def)
  also have "\<dots> = Inr (of_int (A + int (Suc k) * d))" by (simp add: algebra_simps)
  finally show ?thesis using E by (simp add: entry_def m)
qed

theorem stride_is_learned_witness:
  "\<exists>r1 r'. rpt_new_entry 1 7 1000 (new_rpt 2) = Inr r1 \<and> rpt_trace 1 [992, 984] r1 = Inr r' \<and>
     rpt_target 1 984 r' = Inr 976 \<and> states r' ! 1 = Steady"
proof -
  have "case rpt_new_entry 1 7 1000 (new_rpt 2) of Inr r1 \<Rightarrow> returns (rpt_trace 1 [992, 984] r1) | Inl _ \<Rightarrow> False"
    by code_simp
  then obtain r1 r' where r: "rpt_new_entry 1 7 1000 (new_rpt 2) = Inr r1" "rpt_trace 1 [992, 984] r1 = Inr r'"
    by (auto split: sum.splits elim: returnsE)
  have "rpt_target 1 (of_int (1000 + int 2 * - 8)) r' = Inr (of_int (1000 + int (Suc 2) * - 8)) \<and>
    states r' ! 1 = (if (2::nat) = 1 then Transient else Steady)"
    by (rule stride_is_learned [of 1 7 1000 "new_rpt 2" r1]) (use r in \<open>simp_all add: upt_rec numeral_2_eq_2\<close>)
  then show ?thesis using r by simp
qed

text \<open>With the next-line prefetcher, when an access returns the line after its own is in the cache, by a
  prefetch if it was not there.\<close>

theorem next_line_is_prefetched:
  assumes "cache_inv cp" and "prefetch_type cp = 1"
    and "cache_access env cmd a n now False (cp, w) = Inr (lat, ra, cp', w')"
  shows "present cp' (a + of_nat (bsize cp))"
  by (rule next_line_present [OF assms])

theorem next_line_is_prefetched_witness:
  "\<exists>lat ra cp' w'. cache_access log_env Read 24 4 0 False (demo LRU 1, []) = Inr (lat, ra, cp', w') \<and>
     w' = [(Read, 24), (Read, 32)] \<and> present cp' (24 + of_nat (bsize (demo LRU 1)))"
proof -
  have "case cache_access log_env Read 24 4 0 False (demo LRU 1, []) of
      Inr (lat, ra, cp', w') \<Rightarrow> w' = [(Read, 24), (Read, 32)] | Inl _ \<Rightarrow> False" by code_simp
  then obtain lat ra cp' w' where r: "cache_access log_env Read 24 4 0 False (demo LRU 1, []) = Inr (lat, ra, cp', w')"
    "w' = [(Read, 24), (Read, 32)]" by (auto split: sum.splits)
  then show ?thesis using next_line_is_prefetched [OF demo_facts(4,5) r(1)] by blast
qed

text \<open>C14: No walk of a way list or hash chain goes on for ever: accesses with any prefetcher, probes and
  flushes of a well-formed cache end, with a result or another error, both over main memory and over a
  second level of cache that is well formed (or absent) and has any prefetcher of its own.\<close>

theorem cache_operations_end:
  assumes "cache_inv cp" and "\<forall>l2. dl2 = Some l2 \<longrightarrow> cache_inv l2"
  shows "(cache_access (dl2_env rnd pc) cmd a n now pf (cp, r) \<noteq> Inl Diverges \<and>
      cache_flush (dl2_env rnd pc) now (cp, r) \<noteq> Inl Diverges \<and>
      cache_flush_addr (dl2_env rnd pc) a now (cp, r) \<noteq> Inl Diverges) \<and>
    (cache_access (dl1_env rnd pc) cmd a n now pf (cp, dl2, r) \<noteq> Inl Diverges \<and>
      cache_flush (dl1_env rnd pc) now (cp, dl2, r) \<noteq> Inl Diverges \<and>
      cache_flush_addr (dl1_env rnd pc) a now (cp, dl2, r) \<noteq> Inl Diverges) \<and>
    cache_probe a cp \<noteq> Inl Diverges"
proof -
  have inv: "cache_inv (fst (cp, r))" "cache_inv (fst (cp, dl2, r))" using assms(1) by simp_all
  have j0: "(\<lambda>_. True) (snd (cp, r))" by simp
  have j: "level2_ok (snd (cp, dl2, r))" using assms(2) by (simp add: level2_ok_def split: option.split)
  show ?thesis
    using memory_ends.access_ends [OF inv(1) j0] memory_ends.flush_ends [OF inv(1) j0]
      level2_ends.access_ends [OF inv(2) j] level2_ends.flush_ends [OF inv(2) j]
      cache_probe_present [OF cache_invD(1) [OF assms(1)], of a] by (simp add: ends_def)
qed

theorem cache_operations_end_witness:
  "cache_access (dl1_env bump 0) Read 24 4 0 False (demo Random 1, Some demo2, 0) \<noteq> Inl Diverges \<and>
   cache_flush (dl1_env bump 0) 0 (demo Random 1, Some demo2, 0) \<noteq> Inl Diverges"
  using cache_operations_end [OF demo_facts(4) [of Random], of "Some demo2" bump 0 Read 24 4 0 False 0]
    created_facts(1) [OF demo_created(3) demo_params(5)] by simp

end
