(* ===== verification/Page_Table.thy ===== *)
theory Page_Table
  imports Int_Math
begin

text \<open>
  The page table of the syscall emulation mode: \<open>src/mem/page_table.cc\<close> and
  \<open>src/mem/page_table.hh\<close> of lab 6's gem5, on the Alpha entries of
  \<open>src/arch/alpha/pagetable.hh\<close> (\<open>TheISA\<close> of the build options of this tree).

  The hash map \<open>pTable\<close> is a map, the three most recently used entries (\<open>pTableCache\<close>) a list of
  pairs.  Entries that the code leaves unset (a default constructed \<open>TlbEntry\<close>) hold whatever the
  memory held: they are the argument \<open>junk\<close>.  Sizes are signed 64-bit values and read as
  \<^typ>\<open>int\<close>; a loop that would step by a page size of 0 does not end (\<^const>\<open>Diverges\<close>).
\<close>

section \<open>Alpha page table entries\<close>

definition PageShift :: nat where
  "PageShift = 13"

definition VMPageSize :: addr where
  "VMPageSize = push_bit 13 1"

definition ImplMask :: u64 where
  "ImplMask = push_bit 43 1 - 1"

definition vpn :: "addr \<Rightarrow> addr" where
  "vpn a = drop_bit PageShift (a AND ImplMask)"

record TlbEntry =
  te_tag :: addr
  te_ppn :: addr
  te_xre :: u8
  te_xwe :: u8
  te_asn :: u8
  te_asma :: bool
  te_fonr :: bool
  te_fonw :: bool
  te_valid :: bool

definition mkTlbEntry :: "addr \<Rightarrow> addr \<Rightarrow> addr \<Rightarrow> TlbEntry" where
  "mkTlbEntry asn vaddr paddr =
     \<lparr>te_tag = vpn vaddr, te_ppn = vpn paddr, te_xre = 15, te_xwe = 15, te_asn = ucast asn,
      te_asma = False, te_fonr = False, te_fonw = False, te_valid = True\<rparr>"

definition updateVaddr :: "addr \<Rightarrow> TlbEntry \<Rightarrow> TlbEntry" where
  "updateVaddr new_vaddr e = e\<lparr>te_tag := vpn new_vaddr\<rparr>"

definition pageStart :: "TlbEntry \<Rightarrow> addr" where
  "pageStart e = push_bit PageShift (te_ppn e)"

section \<open>The page table\<close>

record PageTable =
  pTable :: "addr \<rightharpoonup> TlbEntry"
  pTableCache :: "(addr \<times> TlbEntry) list"
  pageSize :: addr
  offsetMask :: addr
  pt_pid :: u64

definition newPageTable :: "TlbEntry \<Rightarrow> u64 \<Rightarrow> addr \<Rightarrow> PageTable res" where
  "newPageTable junk pid sz =
     res_bind (floorLog2_u64 sz) (\<lambda>l.
     assert_that (isPowerOf2 sz)
       (Inr \<lparr>pTable = Map.empty, pTableCache = [(0, junk), (0, junk), (0, junk)],
             pageSize = sz, offsetMask = bmask l, pt_pid = pid\<rparr>))"

definition pageAlign :: "PageTable \<Rightarrow> addr \<Rightarrow> addr" where
  "pageAlign pt a = a AND NOT (offsetMask pt)"

definition pageOffset :: "PageTable \<Rightarrow> addr \<Rightarrow> addr" where
  "pageOffset pt a = a AND offsetMask pt"

text \<open>The two older elements move up, the oldest is dropped.\<close>

definition updateCache :: "addr \<Rightarrow> TlbEntry \<Rightarrow> PageTable \<Rightarrow> PageTable" where
  "updateCache vaddr entry pt =
     pt\<lparr>pTableCache := (vaddr, entry) # take 2 (pTableCache pt)\<rparr>"

function map_loop :: "addr \<Rightarrow> addr \<Rightarrow> int \<Rightarrow> bool \<Rightarrow> PageTable \<Rightarrow> PageTable res" where
  "map_loop vaddr paddr sz clobber pt =
     (if sz \<le> 0 then Inr pt
      else if pageSize pt = 0 then Inl Diverges
      else if \<not> clobber \<and> pTable pt vaddr \<noteq> None then Inl Fatal
      else let e = mkTlbEntry (pt_pid pt) vaddr paddr
           in map_loop (vaddr + pageSize pt) (paddr + pageSize pt) (sz - uint (pageSize pt)) clobber
                (updateCache vaddr e (pt\<lparr>pTable := (pTable pt)(vaddr \<mapsto> e)\<rparr>)))"
  by pat_completeness auto
termination
  by (relation "measure (\<lambda>(v, p, sz, c, pt). nat sz)") (auto simp: word_neq_0_conv word_less_def)

definition pt_map :: "addr \<Rightarrow> addr \<Rightarrow> int \<Rightarrow> bool \<Rightarrow> PageTable \<Rightarrow> PageTable res" where
  "pt_map vaddr paddr sz clobber pt =
     assert_that (pageOffset pt vaddr = 0) (map_loop vaddr paddr sz clobber pt)"

text \<open>
  One page of \<open>remap\<close>: the entry is copied to the new address and the old one erased; then
  \<open>pTable[new_vaddr]\<close> is read again, which makes a default constructed entry when the erased
  address was the new one.
\<close>

definition remap_page :: "TlbEntry \<Rightarrow> addr \<Rightarrow> addr \<Rightarrow> PageTable \<Rightarrow> PageTable res" where
  "remap_page junk vaddr new_vaddr pt =
     (case pTable pt vaddr of
        None \<Rightarrow> Inl AssertFailed
      | Some old \<Rightarrow>
          let t1 = (pTable pt)(new_vaddr \<mapsto> old);
              t2 = t1(vaddr := None);
              e = (case t2 new_vaddr of None \<Rightarrow> junk | Some e \<Rightarrow> e);
              e' = updateVaddr new_vaddr e
          in Inr (updateCache new_vaddr e' (pt\<lparr>pTable := t2(new_vaddr \<mapsto> e')\<rparr>)))"

lemma remap_page_pageSize [simp]:
  "remap_page junk v n pt = Inr pt' \<Longrightarrow> pageSize pt' = pageSize pt"
  by (auto simp: remap_page_def updateCache_def Let_def split: option.splits)

function remap_loop :: "TlbEntry \<Rightarrow> addr \<Rightarrow> int \<Rightarrow> addr \<Rightarrow> PageTable \<Rightarrow> PageTable res" where
  "remap_loop junk vaddr sz new_vaddr pt =
     (if sz \<le> 0 then Inr pt
      else if pageSize pt = 0 then Inl Diverges
      else case remap_page junk vaddr new_vaddr pt of
             Inl e \<Rightarrow> Inl e
           | Inr pt' \<Rightarrow>
               remap_loop junk (vaddr + pageSize pt) (sz - uint (pageSize pt))
                 (new_vaddr + pageSize pt) pt')"
  by pat_completeness auto
termination
  by (relation "measure (\<lambda>(j, v, sz, n, pt). nat sz)") (auto simp: word_neq_0_conv word_less_def)

definition pt_remap :: "TlbEntry \<Rightarrow> addr \<Rightarrow> int \<Rightarrow> addr \<Rightarrow> PageTable \<Rightarrow> PageTable res" where
  "pt_remap junk vaddr sz new_vaddr pt =
     assert_that (pageOffset pt vaddr = 0)
       (assert_that (pageOffset pt new_vaddr = 0) (remap_loop junk vaddr sz new_vaddr pt))"

function unmap_loop :: "addr \<Rightarrow> int \<Rightarrow> PageTable \<Rightarrow> PageTable res" where
  "unmap_loop vaddr sz pt =
     (if sz \<le> 0 then Inr pt
      else if pageSize pt = 0 then Inl Diverges
      else if pTable pt vaddr = None then Inl AssertFailed
      else unmap_loop (vaddr + pageSize pt) (sz - uint (pageSize pt))
             (pt\<lparr>pTable := (pTable pt)(vaddr := None)\<rparr>))"
  by pat_completeness auto
termination
  by (relation "measure (\<lambda>(v, sz, pt). nat sz)") (auto simp: word_neq_0_conv word_less_def)

definition unmap :: "addr \<Rightarrow> int \<Rightarrow> PageTable \<Rightarrow> PageTable res" where
  "unmap vaddr sz pt = assert_that (pageOffset pt vaddr = 0) (unmap_loop vaddr sz pt)"

function isUnmapped_loop :: "addr \<Rightarrow> int \<Rightarrow> PageTable \<Rightarrow> bool res" where
  "isUnmapped_loop vaddr sz pt =
     (if sz \<le> 0 then Inr True
      else if pageSize pt = 0 then Inl Diverges
      else if pTable pt vaddr \<noteq> None then Inr False
      else isUnmapped_loop (vaddr + pageSize pt) (sz - uint (pageSize pt)) pt)"
  by pat_completeness auto
termination
  by (relation "measure (\<lambda>(v, sz, pt). nat sz)") (auto simp: word_neq_0_conv word_less_def)

definition isUnmapped :: "addr \<Rightarrow> int \<Rightarrow> PageTable \<Rightarrow> bool res" where
  "isUnmapped vaddr sz pt = assert_that (pageOffset pt vaddr = 0) (isUnmapped_loop vaddr sz pt)"

text \<open>
  \<open>lookup\<close> compares the three cached addresses in order, then searches the table and caches what it
  finds.  The comparison of a short list in order is \<^const>\<open>map_of\<close>.
\<close>

definition pt_lookup :: "addr \<Rightarrow> PageTable \<Rightarrow> TlbEntry option \<times> PageTable" where
  "pt_lookup vaddr pt =
     (let page_addr = pageAlign pt vaddr
      in case map_of (pTableCache pt) page_addr of
           Some e \<Rightarrow> (Some e, pt)
         | None \<Rightarrow>
             (case pTable pt page_addr of
                None \<Rightarrow> (None, pt)
              | Some e \<Rightarrow> (Some e, updateCache page_addr e pt)))"

definition translate :: "addr \<Rightarrow> PageTable \<Rightarrow> addr option \<times> PageTable" where
  "translate vaddr pt =
     (case pt_lookup vaddr pt of
        (None, pt') \<Rightarrow> (None, pt')
      | (Some e, pt') \<Rightarrow> (Some (pageOffset pt vaddr + pageStart e), pt'))"

datatype Fault = NoFault | GenericPageTableFault addr

text \<open>\<open>translate(RequestPtr)\<close>: the fault, and the physical address stored in the request.\<close>

definition translate_req :: "addr \<Rightarrow> u64 \<Rightarrow> PageTable \<Rightarrow> (Fault \<times> addr option \<times> PageTable) res" where
  "translate_req vaddr sz pt =
     assert_that (pageAlign pt (vaddr + sz - 1) = pageAlign pt vaddr)
       (case translate vaddr pt of
          (None, pt') \<Rightarrow> Inr (GenericPageTableFault vaddr, None, pt')
        | (Some paddr, pt') \<Rightarrow>
            if (paddr AND (pageSize pt - 1)) + sz > pageSize pt then Inl Panic
            else Inr (NoFault, Some paddr, pt'))"

declare map_loop.simps [simp del] remap_loop.simps [simp del] unmap_loop.simps [simp del]
  isUnmapped_loop.simps [simp del]

end
