(* ===== verification/Page_Table_Laws.thy ===== *)
theory Page_Table_Laws
  imports Page_Table
begin

text \<open>
  The laws of the page table: a specification by a map from pages to frames together with the set of
  pages whose cached entry is out of date, the simulation of every operation by it, the round trip of
  \<open>map\<close> and \<open>translate\<close>, and what the missing invalidation of \<open>pTableCache\<close> does.
\<close>

section \<open>The abstract page table\<close>

text \<open>
  The specification: a map from page addresses to the addresses of their frames, and the set of the
  pages whose cached entry may be out of date.  \<open>unmap\<close> and \<open>remap\<close> leave \<open>pTableCache\<close> as it is,
  so the pages they remove join that set; a page leaves it when \<open>map\<close> or \<open>remap\<close> sets it.
\<close>

type_synonym vm = "(addr \<rightharpoonup> addr) \<times> addr set"

definition frame_of :: "addr \<Rightarrow> addr" where
  "frame_of paddr = push_bit PageShift (vpn paddr)"

definition pages :: "addr \<Rightarrow> int \<Rightarrow> nat" where
  "pages ps sz = nat ((sz + uint ps - 1) div uint ps)"

fun vm_map :: "addr \<Rightarrow> addr \<Rightarrow> addr \<Rightarrow> nat \<Rightarrow> vm \<Rightarrow> vm" where
  "vm_map ps v p 0 s = s"
| "vm_map ps v p (Suc n) (m, S) = vm_map ps (v + ps) (p + ps) n (m(v \<mapsto> frame_of p), S - {v})"

fun vm_unmap :: "addr \<Rightarrow> addr \<Rightarrow> nat \<Rightarrow> vm \<Rightarrow> vm" where
  "vm_unmap ps v 0 s = s"
| "vm_unmap ps v (Suc n) (m, S) = vm_unmap ps (v + ps) n (m(v := None), insert v S)"

fun vm_remap :: "addr \<Rightarrow> addr \<Rightarrow> addr \<Rightarrow> addr \<Rightarrow> nat \<Rightarrow> vm \<Rightarrow> vm" where
  "vm_remap jf ps v n 0 s = s"
| "vm_remap jf ps v n (Suc c) (m, S) =
     vm_remap jf ps (v + ps) (n + ps) c
       (if n = v then m(n \<mapsto> jf) else m(v := None, n := m v), insert v S - {n})"

datatype pt_op =
    Map addr addr int bool
  | Remap addr int addr
  | Unmap addr int
  | Lookup addr

definition pt_step :: "TlbEntry \<Rightarrow> pt_op \<Rightarrow> PageTable \<Rightarrow> PageTable res" where
  "pt_step junk x pt = (case x of
     Map v p sz c \<Rightarrow> pt_map v p sz c pt
   | Remap v sz n \<Rightarrow> pt_remap junk v sz n pt
   | Unmap v sz \<Rightarrow> unmap v sz pt
   | Lookup v \<Rightarrow> Inr (snd (pt_lookup v pt)))"

fun pt_run :: "TlbEntry \<Rightarrow> pt_op list \<Rightarrow> PageTable \<Rightarrow> PageTable res" where
  "pt_run junk [] pt = Inr pt"
| "pt_run junk (x # xs) pt = res_bind (pt_step junk x pt) (pt_run junk xs)"

definition vm_step :: "addr \<Rightarrow> addr \<Rightarrow> pt_op \<Rightarrow> vm \<Rightarrow> vm" where
  "vm_step jf ps x = (case x of
     Map v p sz c \<Rightarrow> vm_map ps v p (pages ps sz)
   | Remap v sz n \<Rightarrow> vm_remap jf ps v n (pages ps sz)
   | Unmap v sz \<Rightarrow> vm_unmap ps v (pages ps sz)
   | Lookup v \<Rightarrow> id)"

definition vm_run :: "addr \<Rightarrow> addr \<Rightarrow> pt_op list \<Rightarrow> vm \<Rightarrow> vm" where
  "vm_run jf ps xs s = fold (vm_step jf ps) xs s"

section \<open>The simulation\<close>

text \<open>The geometry, and what a page table stands for.\<close>

definition pt_geometry :: "PageTable \<Rightarrow> bool" where
  "pt_geometry pt \<longleftrightarrow> (\<exists>k < 64. pageSize pt = 2 ^ k \<and> offsetMask pt = mask k)"

definition pt_frames :: "PageTable \<Rightarrow> addr \<rightharpoonup> addr" where
  "pt_frames pt = map_option pageStart \<circ> pTable pt"

definition pt_coherent :: "addr set \<Rightarrow> PageTable \<Rightarrow> bool" where
  "pt_coherent S pt \<longleftrightarrow> (\<forall>a e. a \<notin> S \<longrightarrow> map_of (pTableCache pt) a = Some e \<longrightarrow> pTable pt a = Some e)"

definition pt_sim :: "vm \<Rightarrow> PageTable \<Rightarrow> bool" where
  "pt_sim s pt \<longleftrightarrow> fst s = pt_frames pt \<and> pt_coherent (snd s) pt"

definition pt_same_geometry :: "PageTable \<Rightarrow> PageTable \<Rightarrow> bool" where
  "pt_same_geometry pt pt' \<longleftrightarrow> pageSize pt' = pageSize pt \<and> offsetMask pt' = offsetMask pt \<and> pt_pid pt' = pt_pid pt"

lemma pt_same_geometry_refl [simp]: "pt_same_geometry pt pt"
  by (simp add: pt_same_geometry_def)

lemma pt_same_geometry_trans:
  "pt_same_geometry pt pt' \<Longrightarrow> pt_same_geometry pt' pt'' \<Longrightarrow> pt_same_geometry pt pt''"
  by (simp add: pt_same_geometry_def)

lemma updateCache_simps [simp]:
  "pTable (updateCache v e pt) = pTable pt"
  "pageSize (updateCache v e pt) = pageSize pt"
  "offsetMask (updateCache v e pt) = offsetMask pt"
  "pt_pid (updateCache v e pt) = pt_pid pt"
  "pTableCache (updateCache v e pt) = (v, e) # take 2 (pTableCache pt)"
  by (simp_all add: updateCache_def)

lemma map_of_take: "map_of (take n xs) a = Some e \<Longrightarrow> map_of xs a = Some e"
  by (induction xs arbitrary: n) (auto split: if_splits simp: take_Cons' )

text \<open>Setting a page and caching it: the page is no longer out of date.\<close>

lemma coherent_set_page:
  assumes "pt_coherent S pt"
  shows "pt_coherent (S - {v}) (updateCache v e (pt\<lparr>pTable := (pTable pt)(v \<mapsto> e)\<rparr>))"
  using assms by (auto simp: pt_coherent_def dest: map_of_take)

lemma coherent_unset_page:
  "pt_coherent S pt \<Longrightarrow> pt_coherent (insert v S) (pt\<lparr>pTable := (pTable pt)(v := None)\<rparr>)"
  by (auto simp: pt_coherent_def)

lemma coherent_cache_page:
  "pt_coherent S pt \<Longrightarrow> pTable pt v = Some e \<Longrightarrow> pt_coherent S (updateCache v e pt)"
  by (auto simp: pt_coherent_def dest: map_of_take)

lemma pageStart_mk [simp]: "pageStart (mkTlbEntry asn v p) = frame_of p"
  by (simp add: pageStart_def mkTlbEntry_def frame_of_def)

lemma pageStart_updateVaddr [simp]: "pageStart (updateVaddr v e) = pageStart e"
  by (simp add: pageStart_def updateVaddr_def)

lemma pt_frames_set [simp]:
  "pt_frames (pt\<lparr>pTable := m\<rparr>) = map_option pageStart \<circ> m"
  "pt_frames (updateCache v e pt) = pt_frames pt"
  by (simp_all add: pt_frames_def)

lemma map_option_o_upd: "map_option f \<circ> m(a := x) = (map_option f \<circ> m)(a := map_option f x)"
  by (auto simp: fun_eq_iff)

lemma pages_0 [simp]: "sz \<le> 0 \<Longrightarrow> pages ps sz = 0"
proof -
  assume sz: "sz \<le> 0"
  have "(sz + uint ps - 1) div uint ps \<le> 0"
  proof (cases "uint ps = 0")
    case False
    then have p: "0 < uint ps" using uint_ge_0 [of ps] by linarith
    have "(sz + uint ps - 1) div uint ps \<le> (uint ps - 1) div uint ps"
      using sz p by (intro zdiv_mono1) auto
    also have "\<dots> = 0" using p by (simp add: div_pos_pos_trivial)
    finally show ?thesis .
  qed simp
  then show "pages ps sz = 0" by (simp add: pages_def)
qed

lemma pages_Suc: "0 < sz \<Longrightarrow> ps \<noteq> 0 \<Longrightarrow> pages ps sz = Suc (pages ps (sz - uint ps))"
proof -
  assume a: "0 < sz" "ps \<noteq> 0"
  then have p: "0 < uint ps" by (simp add: word_neq_0_conv word_less_def)
  have "(sz + uint ps - 1) div uint ps = (sz - 1) div uint ps + 1"
    using div_add_self2 [of "uint ps" "sz - 1"] p by (simp add: algebra_simps)
  moreover have "0 \<le> (sz - 1) div uint ps" using a p by (simp add: pos_imp_zdiv_nonneg_iff)
  ultimately show ?thesis by (simp add: pages_def nat_add_distrib)
qed

text \<open>One page of each operation simulates one step of the specification.\<close>

lemma remap_page_sim:
  assumes "pt_sim (m, S) pt" and "remap_page junk v n pt = Inr pt'"
  shows "pt_sim (if n = v then m(n \<mapsto> pageStart junk) else m(v := None, n := m v), insert v S - {n}) pt'"
    and "pt_same_geometry pt pt'"
proof -
  obtain old where old: "pTable pt v = Some old"
    using assms(2) by (auto simp: remap_page_def split: option.splits)
  define t2 where "t2 = (pTable pt)(n \<mapsto> old, v := None)"
  define e where "e = updateVaddr n (case t2 n of None \<Rightarrow> junk | Some e \<Rightarrow> e)"
  have pt': "pt' = updateCache n e (pt\<lparr>pTable := t2(n \<mapsto> e)\<rparr>)"
    using assms(2) old by (simp add: remap_page_def Let_def t2_def e_def)
  show "pt_same_geometry pt pt'" by (simp add: pt' pt_same_geometry_def)
  have "pt_coherent (insert v S - {n}) pt'"
    using assms(1) by (auto simp: pt' pt_sim_def pt_coherent_def t2_def dest: map_of_take)
  moreover have "pt_frames pt' = (if n = v then (pt_frames pt)(n \<mapsto> pageStart junk)
      else (pt_frames pt)(v := None, n := pt_frames pt v))"
    using old by (auto simp: pt' pt_frames_def e_def t2_def fun_eq_iff)
  ultimately show "pt_sim (if n = v then m(n \<mapsto> pageStart junk) else m(v := None, n := m v), insert v S - {n}) pt'"
    using assms(1) by (simp add: pt_sim_def)
qed

lemma map_loop_sim:
  assumes "map_loop v p sz c pt = Inr pt'" and "pt_sim s pt"
  shows "pt_sim (vm_map (pageSize pt) v p (pages (pageSize pt) sz) s) pt' \<and> pt_same_geometry pt pt'"
  using assms
proof (induction v p sz c pt arbitrary: s rule: map_loop.induct)
  case (1 v p sz c pt)
  show ?case
  proof (cases "sz \<le> 0")
    case True
    then show ?thesis using "1.prems" by (simp add: map_loop.simps [of v])
  next
    case False
    obtain m S where s: "s = (m, S)" by (cases s)
    define e where "e = mkTlbEntry (pt_pid pt) v p"
    define pt1 where "pt1 = updateCache v e (pt\<lparr>pTable := (pTable pt)(v \<mapsto> e)\<rparr>)"
    from False "1.prems"(1) have g: "pageSize pt \<noteq> 0" "\<not> (\<not> c \<and> pTable pt v \<noteq> None)"
      by (auto simp: map_loop.simps [of v] split: if_splits)
    with False "1.prems"(1) have l:
      "map_loop (v + pageSize pt) (p + pageSize pt) (sz - uint (pageSize pt)) c pt1 = Inr pt'"
      by (auto simp: map_loop.simps [of v] pt1_def e_def Let_def)
    have geo: "pt_same_geometry pt pt1" by (simp add: pt1_def pt_same_geometry_def)
    have "pt_sim (m(v \<mapsto> frame_of p), S - {v}) pt1"
      using "1.prems"(2) coherent_set_page [of S pt v e]
      by (auto simp: pt_sim_def s pt1_def map_option_o_upd pt_frames_def e_def)
    from "1.IH" [OF False g(1) g(2) e_def, folded pt1_def, OF l this] show ?thesis
      using False g(1) geo by (auto simp: s pages_Suc pt_same_geometry_def)
  qed
qed

lemma unmap_loop_sim:
  assumes "unmap_loop v sz pt = Inr pt'" and "pt_sim s pt"
  shows "pt_sim (vm_unmap (pageSize pt) v (pages (pageSize pt) sz) s) pt' \<and> pt_same_geometry pt pt'"
  using assms
proof (induction v sz pt arbitrary: s rule: unmap_loop.induct)
  case (1 v sz pt)
  show ?case
  proof (cases "sz \<le> 0")
    case True
    then show ?thesis using "1.prems" by (simp add: unmap_loop.simps [of v])
  next
    case False
    obtain m S where s: "s = (m, S)" by (cases s)
    define pt1 where "pt1 = pt\<lparr>pTable := (pTable pt)(v := None)\<rparr>"
    from False "1.prems"(1) have g: "pageSize pt \<noteq> 0" "pTable pt v \<noteq> None"
      by (auto simp: unmap_loop.simps [of v] split: if_splits)
    with False "1.prems"(1) have l: "unmap_loop (v + pageSize pt) (sz - uint (pageSize pt)) pt1 = Inr pt'"
      by (simp add: unmap_loop.simps [of v] pt1_def)
    have geo: "pt_same_geometry pt pt1" by (simp add: pt1_def pt_same_geometry_def)
    have "pt_sim (m(v := None), insert v S) pt1"
      using "1.prems"(2) coherent_unset_page [of S pt v]
      by (auto simp: pt_sim_def s pt1_def map_option_o_upd pt_frames_def)
    from "1.IH" [OF False g, folded pt1_def, OF l this] show ?thesis
      using False g(1) geo by (auto simp: s pages_Suc pt_same_geometry_def)
  qed
qed

lemma remap_loop_sim:
  assumes "remap_loop junk v sz n pt = Inr pt'" and "pt_sim s pt"
  shows "pt_sim (vm_remap (pageStart junk) (pageSize pt) v n (pages (pageSize pt) sz) s) pt'
    \<and> pt_same_geometry pt pt'"
  using assms
proof (induction junk v sz n pt arbitrary: s rule: remap_loop.induct)
  case (1 junk v sz n pt)
  show ?case
  proof (cases "sz \<le> 0")
    case True
    then show ?thesis using "1.prems" by (simp add: remap_loop.simps [of _ v])
  next
    case False
    obtain m S where s: "s = (m, S)" by (cases s)
    from False "1.prems"(1) obtain pt1 where g: "pageSize pt \<noteq> 0" and r: "remap_page junk v n pt = Inr pt1"
      and l: "remap_loop junk (v + pageSize pt) (sz - uint (pageSize pt)) (n + pageSize pt) pt1 = Inr pt'"
      by (auto simp: remap_loop.simps [of _ v] split: if_splits sum.splits)
    have geo: "pt_same_geometry pt pt1" using remap_page_sim(2) [OF _ r] "1.prems"(2) by (cases s) blast
    from "1.IH" [OF False g r l remap_page_sim(1) [OF "1.prems"(2) [unfolded s] r]] show ?thesis
      using False g geo by (auto simp: s pages_Suc pt_same_geometry_def)
  qed
qed

lemma pt_lookup_sim:
  assumes "pt_sim s pt" shows "pt_sim s (snd (pt_lookup v pt)) \<and> pt_same_geometry pt (snd (pt_lookup v pt))"
  using assms coherent_cache_page [of "snd s" pt "pageAlign pt v"]
  by (auto simp: pt_lookup_def pt_sim_def Let_def pt_same_geometry_def split: option.splits)

lemma pt_step_sim:
  assumes "pt_step junk x pt = Inr pt'" and "pt_sim s pt"
  shows "pt_sim (vm_step (pageStart junk) (pageSize pt) x s) pt' \<and> pt_same_geometry pt pt'"
proof (cases x)
  case (Map v p sz c)
  then show ?thesis using assms by (auto simp: pt_step_def vm_step_def pt_map_def res_simps map_loop_sim)
next
  case (Remap v sz n)
  then show ?thesis using assms by (auto simp: pt_step_def vm_step_def pt_remap_def res_simps remap_loop_sim)
next
  case (Unmap v sz)
  then show ?thesis using assms by (auto simp: pt_step_def vm_step_def unmap_def res_simps unmap_loop_sim)
next
  case (Lookup v)
  then show ?thesis using assms pt_lookup_sim [of s pt v] by (auto simp: pt_step_def vm_step_def)
qed

lemma pt_run_sim:
  assumes "pt_run junk xs pt = Inr pt'" and "pt_sim s pt"
  shows "pt_sim (vm_run (pageStart junk) (pageSize pt) xs s) pt' \<and> pt_same_geometry pt pt'"
  using assms
proof (induction xs arbitrary: pt s)
  case Nil
  then show ?case by (simp add: vm_run_def)
next
  case (Cons x xs)
  from Cons.prems(1) obtain pt1 where x: "pt_step junk x pt = Inr pt1" and xs: "pt_run junk xs pt1 = Inr pt'"
    by (auto simp: res_simps)
  from pt_step_sim [OF x Cons.prems(2)] Cons.IH [OF xs, of "vm_step (pageStart junk) (pageSize pt) x s"]
  show ?case by (auto simp: vm_run_def pt_same_geometry_def)
qed

text \<open>A new page table: empty, and page 0 is out of date because the cache starts with address 0.\<close>

lemma newPageTable_sim:
  assumes "newPageTable junk pid ps = Inr pt"
  shows "pt_sim (Map.empty, {0}) pt" and "pt_geometry pt" and "pageSize pt = ps"
proof -
  from assms obtain l where l: "floorLog2_u64 ps = Inr l" and p: "isPowerOf2 ps"
    and pt: "pt = \<lparr>pTable = Map.empty, pTableCache = [(0, junk), (0, junk), (0, junk)],
             pageSize = ps, offsetMask = bmask l, pt_pid = pid\<rparr>"
    by (auto simp: newPageTable_def res_simps)
  from isPowerOf2_pow2D [OF p] obtain k where k: "k < 64" "ps = 2 ^ k" by auto
  with l have "l = k" by (simp add: floorLog2_pow2)
  then show "pt_geometry pt" using k by (auto simp: pt pt_geometry_def bmask_eq)
  show "pt_sim (Map.empty, {0}) pt"
    by (auto simp: pt pt_sim_def pt_frames_def pt_coherent_def fun_eq_iff split: if_splits)
  show "pageSize pt = ps" by (simp add: pt)
qed

lemma translate_sim:
  assumes "pt_sim s pt" and "pageAlign pt v \<notin> snd s"
  shows "fst (translate v pt) = map_option (\<lambda>f. pageOffset pt v + f) (fst s (pageAlign pt v))"
  using assms
  by (auto simp: translate_def pt_lookup_def pt_sim_def pt_frames_def pt_coherent_def Let_def
      split: option.splits prod.splits)

section \<open>Pages of a range\<close>

lemma pages_less:
  assumes "ps = 2 ^ k" and "k < 64" and "i < pages ps sz"
  shows "int i * 2 ^ k < sz"
proof -
  have u: "uint ps = 2 ^ k" using assms word_pow2_unat [where ?'a = 64, of k] by (simp add: uint_nat)
  have "int i < (sz + 2 ^ k - 1) div 2 ^ k" using assms(3) by (simp add: pages_def u)
  then have "int i + 1 \<le> (sz + 2 ^ k - 1) div 2 ^ k" by simp
  then have "(int i + 1) * 2 ^ k \<le> (sz + 2 ^ k - 1) div 2 ^ k * 2 ^ k" by (rule mult_right_mono) simp
  also have "\<dots> \<le> sz + 2 ^ k - 1"
    using pos_mod_sign [of "2 ^ k" "sz + 2 ^ k - 1", OF zero_less_power [OF zero_less_numeral]] div_mult_mod_eq [of "sz + 2 ^ k - 1" "2 ^ k"] by linarith
  finally show ?thesis by (simp add: algebra_simps)
qed

lemma pages_index:
  assumes "ps = 2 ^ k" and "k < 64" and "int x < sz"
  shows "x div 2 ^ k < pages ps sz"
proof -
  have u: "uint ps = 2 ^ k" using assms word_pow2_unat [where ?'a = 64, of k] by (simp add: uint_nat)
  have "(int x + 2 ^ k) div 2 ^ k \<le> (sz + 2 ^ k - 1) div 2 ^ k"
    using assms(3) by (intro zdiv_mono1) auto
  moreover have "(int x + 2 ^ k) div 2 ^ k = int x div 2 ^ k + 1"
    by (rule div_add_self2) simp
  ultimately have "int x div 2 ^ k + 1 \<le> (sz + 2 ^ k - 1) div 2 ^ k" by simp
  then show ?thesis 
    by (simp add: pages_def u zless_nat_eq_int_zless zdiv_int)
qed

lemma page_inject:
  assumes "k < 64" and "i * 2 ^ k < 2 ^ 64" and "j * 2 ^ k < 2 ^ 64"
    and "(v :: addr) + of_nat i * 2 ^ k = v + of_nat j * 2 ^ k"
  shows "i = j"
proof -
  have u: "unat (of_nat m * 2 ^ k :: addr) = m * 2 ^ k" if "m * 2 ^ k < 2 ^ 64" for m
    using that unat_of_nat [where ?'a = 64, of "m * 2 ^ k"] by simp
  from assms(4) have "(of_nat i * 2 ^ k :: addr) = of_nat j * 2 ^ k" by simp
  from arg_cong [OF this, of unat] have "i * 2 ^ k = j * 2 ^ k"
    unfolding u [OF assms(2)] u [OF assms(3)] .
  then show ?thesis by simp
qed

lemma vm_map_other:
  assumes "\<forall>i < n. a \<noteq> v + of_nat i * ps"
  shows "fst (vm_map ps v p n (m, S)) a = m a \<and> (a \<in> snd (vm_map ps v p n (m, S)) \<longleftrightarrow> a \<in> S)"
  using assms
proof (induction n arbitrary: v p m S)
  case (Suc n)
  have "a \<noteq> v" using Suc.prems [rule_format, of 0] by simp
  moreover have "\<forall>i < n. a \<noteq> v + ps + of_nat i * ps"
    using Suc.prems by (auto simp: All_less_Suc2 algebra_simps)
  ultimately show ?case using Suc.IH by simp
qed simp

lemma vm_map_page:
  assumes "i < n" and "\<And>j l. j < n \<Longrightarrow> l < n \<Longrightarrow> v + of_nat j * ps = v + of_nat l * ps \<Longrightarrow> j = l"
  shows "fst (vm_map ps v p n (m, S)) (v + of_nat i * ps) = Some (frame_of (p + of_nat i * ps))
    \<and> v + of_nat i * ps \<notin> snd (vm_map ps v p n (m, S))"
  using assms
proof (induction n arbitrary: v p m S i)
  case (Suc n)
  show ?case
  proof (cases i)
    case 0
    have "v \<noteq> v + ps + of_nat j * ps" if "j < n" for j
      using Suc.prems(2) [of 0 "Suc j"] that by (auto simp: algebra_simps)
    then have "\<forall>j < n. v \<noteq> v + ps + of_nat j * ps" by blast
    from vm_map_other [OF this] 0 show ?thesis by simp
  next
    case (Suc i')
    have "j = l" if "j < n" "l < n" "v + ps + of_nat j * ps = v + ps + of_nat l * ps" for j l
      using Suc.prems(2) [of "Suc j" "Suc l"] that by (auto simp: algebra_simps)
    from Suc.IH [of i' "v + ps" "p + ps", OF _ this] Suc.prems(1) Suc show ?thesis
      by (simp add: algebra_simps)
  qed
qed simp

text \<open>The page and the offset of an address inside a range that starts at a page.\<close>

lemma and_not_mask_minus: "a AND NOT (mask k) = a - (a AND mask k)" for a :: "'a::len word"
proof -
  have "(a AND NOT (mask k)) + (a AND mask k) = a"
    by (subst disjunctive_add_eq_or) (auto intro!: bit_word_eqI simp: bit_simps)
  then show ?thesis by (metis add_diff_cancel_right')
qed

lemma offset_in_range:
  assumes "k < 64" and "(v :: addr) AND mask k = 0"
  shows "(v + of_nat x) AND mask k = of_nat (x mod 2 ^ k)"
    and "(v + of_nat x) AND NOT (mask k) = v + of_nat (x div 2 ^ k) * 2 ^ k"
proof -
  have v0: "unat v mod 2 ^ k = 0" using assms(2) unat_and_mask [of v k] by simp
  have "unat ((v + of_nat x) AND mask k) = (unat v + x) mod 2 ^ 64 mod 2 ^ k"
    by (simp add: unat_and_mask unat_word_ariths unat_of_nat mod_simps)
  also have "\<dots> = (unat v + x) mod 2 ^ k"
    using assms(1) by (intro mod_mod_cancel le_imp_power_dvd) simp
  also have "\<dots> = x mod 2 ^ k"
    using v0 by (metis add_0 mod_add_left_eq)
  also have "\<dots> = x mod 2 ^ k mod 2 ^ 64"
  proof -
    have "x mod 2 ^ k < 2 ^ k" by simp
    also have "(2 :: nat) ^ k < 2 ^ 64" using assms(1) by (rule power_strict_increasing) simp
    finally show ?thesis by simp
  qed
  finally show 1: "(v + of_nat x) AND mask k = of_nat (x mod 2 ^ k)"
    by (simp add: word_unat_eq_iff unat_of_nat)
  have "(of_nat x :: addr) = of_nat (x div 2 ^ k * 2 ^ k + x mod 2 ^ k)" by (simp only: div_mult_mod_eq)
  then have "(of_nat x :: addr) - of_nat (x mod 2 ^ k) = of_nat (x div 2 ^ k) * 2 ^ k"
    by (simp only: of_nat_add of_nat_mult of_nat_power of_nat_numeral add_diff_cancel_right')
  then show "(v + of_nat x) AND NOT (mask k) = v + of_nat (x div 2 ^ k) * 2 ^ k"
    by (simp add: and_not_mask_minus 1)
qed

lemma frame_of_page: "frame_of q AND mask PageShift = 0"
  by (rule bit_word_eqI) (simp add: frame_of_def bit_simps)

lemma frame_of_low:
  assumes "unat q < 2 ^ 43" and "q AND mask PageShift = 0"
  shows "frame_of q = q"
proof -
  have i: "ImplMask = mask 43" by (simp add: ImplMask_def mask_eq_exp_minus_1 push_bit_eq_mult)
  have "take_bit 43 q = q"
    by (rule word_unat_eq_iff [THEN iffD2]) (use assms(1) in \<open>simp add: unsigned_take_bit_eq take_bit_nat_eq_self\<close>)
  then have "q AND ImplMask = q" by (simp add: i take_bit_eq_mask)
  moreover have "push_bit PageShift (drop_bit PageShift q) = q"
  proof (rule bit_word_eqI)
    fix n assume "n < LENGTH(64)"
    moreover have "\<not> bit q n" if "n < PageShift"
    proof
      assume "bit q n"
      then have "bit (q AND mask PageShift) n"
        using that \<open>n < LENGTH(64)\<close> by (simp add: bit_simps)
      then show False by (simp add: assms(2))
    qed
    ultimately show "bit (push_bit PageShift (drop_bit PageShift q)) n = bit q n"
      by (cases "n < PageShift") (auto simp: bit_simps)
  qed
  ultimately show ?thesis by (simp add: frame_of_def vpn_def)
qed

text \<open>A range that \<open>map\<close> has set translates page by page, whatever was cached before.\<close>

lemma map_loop_translates:
  assumes geo: "pt_geometry pt" and "map_loop v p sz c pt = Inr pt'"
    and "pageOffset pt v = 0" and x: "int x < sz" and sz: "sz < 2 ^ 63"
  shows "fst (translate (v + of_nat x) pt') =
    Some (of_nat (x mod unat (pageSize pt)) + frame_of (p + of_nat (x div unat (pageSize pt)) * pageSize pt))"
proof -
  from geo obtain k where k: "k < 64" "pageSize pt = 2 ^ k" "offsetMask pt = mask k"
    by (auto simp: pt_geometry_def)
  have u: "unat (pageSize pt) = 2 ^ k" using k by (simp add: word_pow2_unat)
  define n where "n = pages (pageSize pt) sz"
  define i where "i = x div 2 ^ k"
  have "pt_sim (pt_frames pt, UNIV) pt" by (simp add: pt_sim_def pt_coherent_def)
  from map_loop_sim [OF assms(2) this] have sim: "pt_sim (vm_map (pageSize pt) v p n (pt_frames pt, UNIV)) pt'"
    and g: "offsetMask pt' = offsetMask pt" by (auto simp: n_def pt_same_geometry_def)
  have i: "i < n" unfolding n_def i_def by (rule pages_index [OF k(2) k(1) x])
  have small: "j * 2 ^ k < 2 ^ 64" if "j < n" for j
  proof -
    have "int j * 2 ^ k < sz" by (rule pages_less [OF k(2) k(1) that [unfolded n_def]])
    also note sz
    finally have "int j * 2 ^ k < 2 ^ 64" by simp
    then show ?thesis by (simp flip: of_nat_less_iff [where 'a = int])
  qed
  have inj: "j = l" if "j < n" "l < n" "v + of_nat j * pageSize pt = v + of_nat l * pageSize pt" for j l
    using page_inject [OF k(1) small [OF that(1)] small [OF that(2)]] that(3) k(2) by simp
  have v0: "v AND mask k = 0" using assms(3) k(3) by (simp add: pageOffset_def)
  have pa: "pageAlign pt' (v + of_nat x) = v + of_nat i * pageSize pt"
    and po: "pageOffset pt' (v + of_nat x) = of_nat (x mod 2 ^ k)"
    using offset_in_range [OF k(1) v0, of x] by (simp_all add: pageAlign_def pageOffset_def g k i_def)
  from vm_map_page [where m = "pt_frames pt" and S = UNIV and p = p, OF i inj] translate_sim [OF sim, of "v + of_nat x"]
  show ?thesis by (simp add: pa po u i_def)
qed

lemma map_loop_run:
  assumes "\<And>i. i < pages (pageSize pt) sz \<Longrightarrow> c \<or> pTable pt (v + of_nat i * pageSize pt) = None"
    and "pageSize pt \<noteq> 0"
    and "\<And>j l. j < pages (pageSize pt) sz \<Longrightarrow> l < pages (pageSize pt) sz \<Longrightarrow>
      v + of_nat j * pageSize pt = v + of_nat l * pageSize pt \<Longrightarrow> j = l"
  shows "\<exists>pt'. map_loop v p sz c pt = Inr pt'"
  using assms
proof (induction v p sz c pt rule: map_loop.induct)
  case (1 v p sz c pt)
  show ?case
  proof (cases "sz \<le> 0")
    case True
    then show ?thesis by (simp add: map_loop.simps [of v])
  next
    case False
    define e where "e = mkTlbEntry (pt_pid pt) v p"
    define pt1 where "pt1 = updateCache v e (pt\<lparr>pTable := (pTable pt)(v \<mapsto> e)\<rparr>)"
    have n: "pages (pageSize pt) sz = Suc (pages (pageSize pt) (sz - uint (pageSize pt)))"
      using False "1.prems"(2) by (simp add: pages_Suc)
    have v: "\<not> (\<not> c \<and> pTable pt v \<noteq> None)" using "1.prems"(1) [of 0] by (simp add: n)
    have "\<exists>pt'. map_loop (v + pageSize pt) (p + pageSize pt) (sz - uint (pageSize pt)) c pt1 = Inr pt'"
      unfolding pt1_def
    proof (rule "1.IH" [OF False "1.prems"(2) v e_def], goal_cases)
      case (1 i)
      have "v + pageSize pt + of_nat i * pageSize pt \<noteq> v"
        using "1.prems"(3) [of "Suc i" 0] 1 by (auto simp: n algebra_simps)
      then show ?case using "1.prems"(1) [of "Suc i"] 1 by (simp add: n algebra_simps)
    next
      case 2
      then show ?case using "1.prems"(2) by simp
    next
      case (3 j l)
      then show ?case using "1.prems"(3) [of "Suc j" "Suc l"] by (simp add: n algebra_simps)
    qed
    then show ?thesis using False v "1.prems"(2) by (simp add: map_loop.simps [of v] pt1_def e_def Let_def)
  qed
qed

lemma isUnmapped_loop_iff:
  assumes "pageSize pt \<noteq> 0"
  shows "isUnmapped_loop v sz pt =
    Inr (\<forall>i < pages (pageSize pt) sz. pTable pt (v + of_nat i * pageSize pt) = None)"
  using assms
proof (induction v sz pt rule: isUnmapped_loop.induct)
  case (1 v sz pt)
  show ?case
  proof (cases "sz \<le> 0")
    case True
    then show ?thesis by (simp add: isUnmapped_loop.simps [of v])
  next
    case False
    have n: "pages (pageSize pt) sz = Suc (pages (pageSize pt) (sz - uint (pageSize pt)))"
      using False "1.prems" by (simp add: pages_Suc)
    show ?thesis
    proof (cases "pTable pt v = None")
      case True
      with "1.IH" [OF False "1.prems" _ "1.prems"] False "1.prems" show ?thesis
        by (simp add: isUnmapped_loop.simps [of v] n All_less_Suc2 algebra_simps)
    qed (use False "1.prems" in \<open>auto simp: isUnmapped_loop.simps [of v] n\<close>)
  qed
qed

lemma map_loop_unmapped:
  assumes "map_loop v p sz False pt = Inr pt'" and "pageSize pt \<noteq> 0"
    and "\<And>j l. j < pages (pageSize pt) sz \<Longrightarrow> l < pages (pageSize pt) sz \<Longrightarrow>
      v + of_nat j * pageSize pt = v + of_nat l * pageSize pt \<Longrightarrow> j = l"
  shows "\<forall>i < pages (pageSize pt) sz. pTable pt (v + of_nat i * pageSize pt) = None"
  using assms
proof (induction v p sz False pt rule: map_loop.induct)
  case (1 v p sz pt)
  show ?case
  proof (cases "sz \<le> 0")
    case False
    define e where "e = mkTlbEntry (pt_pid pt) v p"
    define pt1 where "pt1 = updateCache v e (pt\<lparr>pTable := (pTable pt)(v \<mapsto> e)\<rparr>)"
    note n = pages_Suc [OF _ "1.prems"(2), of sz]
    from "1.prems"(1,2) False have v: "pTable pt v = None"
      and l: "map_loop (v + pageSize pt) (p + pageSize pt) (sz - uint (pageSize pt)) False pt1 = Inr pt'"
      by (auto simp: map_loop.simps [of v] Let_def pt1_def e_def split: if_splits)
    have ps1: "pageSize pt1 = pageSize pt" by (simp add: pt1_def)
    have "\<forall>i < pages (pageSize pt1) (sz - uint (pageSize pt)).
        pTable pt1 (v + pageSize pt + of_nat i * pageSize pt1) = None"
    proof (rule "1.hyps" [OF False "1.prems"(2) _ e_def, folded pt1_def, OF _ l])
      show "\<not> (\<not> False \<and> pTable pt v \<noteq> None)" using v by simp
      fix j l assume "j < pages (pageSize pt1) (sz - uint (pageSize pt))"
        "l < pages (pageSize pt1) (sz - uint (pageSize pt))"
        "v + pageSize pt + of_nat j * pageSize pt1 = v + pageSize pt + of_nat l * pageSize pt1"
      then show "j = l" using "1.prems"(3) [of "Suc j" "Suc l"] False by (simp add: ps1 n algebra_simps)
    qed (simp add: ps1 "1.prems"(2))
    then show ?thesis using v False
      by (auto simp: pt1_def n All_less_Suc2 algebra_simps split: if_splits)
  qed simp
qed

lemma pages_inject:
  assumes "pt_geometry pt" and "sz < 2 ^ 63"
    and j: "j < pages (pageSize pt) sz" "l < pages (pageSize pt) sz"
    and "v + of_nat j * pageSize pt = v + of_nat l * pageSize pt"
  shows "j = l"
proof -
  from assms(1) obtain k where k: "k < 64" "pageSize pt = 2 ^ k" by (auto simp: pt_geometry_def)
  have "m * 2 ^ k < 2 ^ 64" if "m < pages (pageSize pt) sz" for m
  proof -
    have "int m * 2 ^ k < sz" by (rule pages_less [OF k(2) k(1) that])
    also note assms(2)
    finally have "int m * 2 ^ k < 2 ^ 64" by simp
    then show ?thesis by (simp flip: of_nat_less_iff [where 'a = int])
  qed
  from page_inject [OF k(1) this [OF j(1)] this [OF j(2)]] assms(5) k(2) show ?thesis by simp
qed

lemma pt_geometry_pageSize: "pt_geometry pt \<Longrightarrow> pageSize pt \<noteq> 0"
  by (auto simp: pt_geometry_def word_eq_0_unat word_pow2_unat)

lemma map_loop_ok_iff:
  assumes "pt_geometry pt" and "sz < 2 ^ 63"
  shows "isUnmapped_loop v sz pt = Inr True \<longleftrightarrow> (\<exists>pt'. map_loop v p sz False pt = Inr pt')"
proof -
  note p0 = pt_geometry_pageSize [OF assms(1)] and inj = pages_inject [OF assms]
  show ?thesis
    using map_loop_run [of pt sz False v p, OF _ p0 inj] map_loop_unmapped [OF _ p0 inj, of v p]
    by (auto simp: isUnmapped_loop_iff [OF p0])
qed

text \<open>The part of \<open>translate(RequestPtr)\<close> behind its assertion.\<close>

lemma page_start_aligned:
  assumes "pageSize pt = VMPageSize"
  shows "pageStart e AND (pageSize pt - 1) = 0"
proof -
  have "(VMPageSize :: addr) - 1 = mask PageShift"
    by (simp add: VMPageSize_def PageShift_def mask_eq_exp_minus_1 push_bit_eq_mult)
  moreover have "pageStart e AND mask PageShift = 0"
    by (rule bit_word_eqI) (simp add: pageStart_def bit_simps)
  ultimately show ?thesis using assms by simp
qed

section \<open>Properties\<close>

text \<open>C25: Take any page table made by the constructor and any sequence of maps, remaps, unmaps and
  lookups that no assertion or \<open>fatal\<close> stops.  The frames of the table are those of the
  specification, and for every virtual address whose page is not among the out-of-date ones
  \<open>translate\<close> answers with the frame the specification gives the page plus the offset, or not at all
  when it gives none.  Out of date are page 0 until it is mapped (the cache starts with address 0)
  and every page that was unmapped or moved away and not set since.\<close>

theorem page_table_refines:
  assumes "newPageTable junk pid ps = Inr pt0" and "pt_run junk xs pt0 = Inr pt"
    and "vm_run (pageStart junk) ps xs (Map.empty, {0}) = (m, S)"
  shows "pt_frames pt = m \<and>
    (\<forall>v. pageAlign pt v \<notin> S \<longrightarrow>
      fst (translate v pt) = map_option (\<lambda>f. pageOffset pt v + f) (m (pageAlign pt v)))"
proof -
  note n = newPageTable_sim [OF assms(1)]
  from pt_run_sim [OF assms(2) n(1)] have sim: "pt_sim (m, S) pt"
    unfolding n(3) assms(3) by blast
  show ?thesis using translate_sim [OF sim] sim by (simp add: pt_sim_def)
qed

text \<open>An aligned address and an offset have no bit in common; what \<open>frame_of\<close> keeps of an address.\<close>

lemma bit_below:
  assumes "(y :: addr) AND mask k = 0" and "n < k"
  shows "\<not> bit y n"
proof
  assume b: "bit y n"
  then have "bit (y AND mask k) n" using assms(2) bit_imp_le_length [OF b] by (simp add: bit_simps)
  then show False by (simp add: assms(1))
qed

lemma bit_above:
  assumes "(z :: addr) AND NOT (mask k) = 0" and "\<not> n < k"
  shows "\<not> bit z n"
proof
  assume b: "bit z n"
  then have "bit (z AND NOT (mask k)) n" using assms(2) bit_imp_le_length [OF b] by (simp add: bit_simps)
  then show False by (simp add: assms(1))
qed

lemma aligned_plus:
  assumes "(y :: addr) AND mask k = 0" and "z AND NOT (mask k) = 0"
  shows "y + z = y OR z"
proof (rule disjunctive_add_eq_or)
  show "y AND z = 0"
    by (rule bit_word_eqI) (use bit_below [OF assms(1)] bit_above [OF assms(2)] in \<open>auto simp: bit_simps\<close>)
qed

lemma frame_of_offset:
  assumes y: "y AND mask PageShift = 0" and o1: "o1 AND NOT (mask PageShift) = 0" and o2: "o2 AND NOT (mask PageShift) = 0"
  shows "o2 + frame_of (y + o1) = take_bit 43 (y + o2)"
proof -
  have i: "ImplMask = mask 43" by (simp add: ImplMask_def mask_eq_exp_minus_1 push_bit_eq_mult)
  have "frame_of (y + o1) OR o2 = take_bit 43 (y + o2)"
    unfolding aligned_plus [OF y o1] aligned_plus [OF y o2]
  proof (rule bit_word_eqI)
    fix n assume n: "n < LENGTH(64)"
    show "bit (frame_of (y OR o1) OR o2) n = bit (take_bit 43 (y OR o2)) n"
      using n bit_below [OF y, of n] bit_above [OF o1, of n] bit_above [OF o2, of n]
      by (cases "n < PageShift") (auto simp: frame_of_def vpn_def i bit_simps PageShift_def)
  qed
  moreover have "frame_of (y + o1) + o2 = frame_of (y + o1) OR o2"
    by (rule aligned_plus [OF frame_of_page o2])
  ultimately show ?thesis by (simp add: add.commute)
qed

text \<open>C40: After \<open>map\<close> of a range to a target, in a page table of Alpha's page size, every address of the
  range translates to its own address of the target range, counted from the start of the target's page and
  cut to 43 bits, the width of a virtual address that the page table entry applies to the frame; so for an
  aligned target within the 43 bits, to exactly its own address of the target range.  Whatever was mapped and
  cached before plays no part.\<close>

theorem map_translate_roundtrip:
  assumes "pt_geometry pt" and "pageSize pt = VMPageSize" and "pt_map v p sz c pt = Inr pt'"
    and "sz < 2 ^ 63" and "int x < sz"
  shows "fst (translate (v + of_nat x) pt') = Some (take_bit 43 ((p AND NOT (mask PageShift)) + of_nat x))
    \<and> (p AND mask PageShift = 0 \<and> unat p + nat sz \<le> 2 ^ 43 \<longrightarrow>
        fst (translate (v + of_nat x) pt') = Some (p + of_nat x))"
proof -
  have ps: "unat (VMPageSize) = 2 ^ 13" "VMPageSize = 2 ^ 13" "PageShift = 13"
    by (simp_all add: VMPageSize_def PageShift_def)
  define i where "i = x div 2 ^ 13"
  define P where "P = p AND NOT (mask PageShift)"
  define y where "y = P + of_nat (i * 2 ^ 13)"
  define o1 where "o1 = p AND mask PageShift"
  define o2 where "o2 = (of_nat (x mod 2 ^ 13) :: addr)"
  from map_loop_translates [OF assms(1), of v p sz c pt' x] assms(3,4,5)
  have tr: "fst (translate (v + of_nat x) pt') = Some (o2 + frame_of (p + of_nat i * 2 ^ 13))"
    by (simp add: pt_map_def res_simps assms(2) ps i_def o2_def)
  have P0: "P AND mask 13 = 0" by (simp add: P_def ps and.assoc)
  have y: "y AND mask PageShift = 0"
    using offset_in_range(1) [OF _ P0, of "i * 2 ^ 13"] by (simp add: y_def ps)
  have o1: "o1 AND NOT (mask PageShift) = 0" by (simp add: o1_def and.assoc)
  have "o2 AND NOT (mask 13) = 0"
    using offset_in_range(2) [of 13 0 "x mod 2 ^ 13"] by (simp add: o2_def)
  then have o2: "o2 AND NOT (mask PageShift) = 0" by (simp add: ps)
  have pP: "p = P + o1"
    by (simp add: P_def o1_def and_not_mask_minus)
  then have py: "p + of_nat i * 2 ^ 13 = y + o1" by (simp add: y_def ac_simps)
  have "(of_nat (i * 2 ^ 13 + x mod 2 ^ 13) :: addr) = of_nat x" by (simp only: i_def div_mult_mod_eq)
  then have yx: "y + o2 = P + of_nat x" by (simp add: y_def o2_def add.assoc)
  have t: "fst (translate (v + of_nat x) pt') = Some (take_bit 43 (P + of_nat x))"
    unfolding tr py frame_of_offset [OF y o1 o2] yx ..
  have "take_bit 43 (P + of_nat x) = p + of_nat x" if a: "p AND mask PageShift = 0" "unat p + nat sz \<le> 2 ^ 43"
  proof -
    have "P = p" using pP a(1) by (simp add: o1_def)
    moreover have "unat p + x < 2 ^ 43" using a(2) assms(5) by linarith
    then have "unat (p + of_nat x) < 2 ^ 43" by (simp add: unat_word_ariths unat_of_nat)
    ultimately show ?thesis
      by (intro word_unat_eq_iff [THEN iffD2]) (simp add: unsigned_take_bit_eq take_bit_nat_eq_self)
  qed
  then show ?thesis using t unfolding P_def by simp
qed

text \<open>\<open>map\<close> without \<open>clobber\<close> succeeds exactly on the page-aligned ranges that \<open>isUnmapped\<close>
  reports as free.\<close>

theorem map_succeeds_iff_unmapped:
  assumes "pt_geometry pt" and "sz < 2 ^ 63"
  shows "isUnmapped v sz pt = Inr True \<longleftrightarrow> (\<exists>pt'. pt_map v p sz False pt = Inr pt')"
  using map_loop_ok_iff [OF assms, of v p] by (simp add: isUnmapped_def pt_map_def assert_that_def)

text \<open>\<open>unmap\<close> does not invalidate the translation cache: whenever a free page is mapped and
  unmapped again, \<open>isUnmapped\<close> reports it free and yet \<open>translate\<close> still answers with the old frame.
  Likewise page 0 of a new page table translates, to whatever the uninitialised cache entry holds.\<close>

theorem unmapped_page_translates:
  assumes "pt_geometry pt" and "pageOffset pt v = 0" and "pTable pt v = None"
    and "uint (pageSize pt) < 2 ^ 63"
  shows "\<exists>pt1 pt2. pt_map v p (uint (pageSize pt)) False pt = Inr pt1
      \<and> unmap v (uint (pageSize pt)) pt1 = Inr pt2
      \<and> isUnmapped v (uint (pageSize pt)) pt2 = Inr True
      \<and> fst (translate v pt2) = Some (frame_of p)
      \<and> (newPageTable junk pid (pageSize pt) = Inr pt0 \<longrightarrow> fst (translate 0 pt0) = Some (pageStart junk))"
proof -
  have p0: "pageSize pt \<noteq> 0" by (rule pt_geometry_pageSize [OF assms(1)])
  then have u: "0 < uint (pageSize pt)" by (simp add: word_neq_0_conv word_less_def)
  define e where "e = mkTlbEntry (pt_pid pt) v p"
  define pt1 where "pt1 = updateCache v e (pt\<lparr>pTable := (pTable pt)(v \<mapsto> e)\<rparr>)"
  define pt2 where "pt2 = pt1\<lparr>pTable := (pTable pt)(v := None)\<rparr>"
  have o: "pageOffset pt1 v = 0" "pageOffset pt2 v = 0"
    using assms(2) by (simp_all add: pageOffset_def pt1_def pt2_def)
  have al: "pageAlign pt2 v = v"
    using assms(1,2) by (auto simp: pageAlign_def pageOffset_def pt2_def pt1_def pt_geometry_def and_not_mask_minus)
  have "pt_map v p (uint (pageSize pt)) False pt = Inr pt1"
    using u p0 assms(2,3)
    by (simp add: pt_map_def map_loop.simps [of v] map_loop.simps [of "v + w" for w] pt1_def e_def Let_def)
  moreover have "unmap v (uint (pageSize pt)) pt1 = Inr pt2"
    using u p0 o by (simp add: unmap_def unmap_loop.simps [of v] unmap_loop.simps [of "v + w" for w] pt1_def pt2_def)
  moreover have "isUnmapped v (uint (pageSize pt)) pt2 = Inr True"
    using u p0 o by (simp add: isUnmapped_def isUnmapped_loop.simps [of v] isUnmapped_loop.simps [of "v + w" for w] pt1_def pt2_def)
  moreover have "fst (translate v pt2) = Some (frame_of p)"
    using o by (simp add: translate_def pt_lookup_def Let_def al) (simp add: pt2_def pt1_def e_def)
  moreover have "fst (translate 0 pt0) = Some (pageStart junk)" if "newPageTable junk pid (pageSize pt) = Inr pt0"
    using that by (auto simp: newPageTable_def res_simps translate_def pt_lookup_def pageAlign_def pageOffset_def)
  ultimately show ?thesis by blast
qed

lemma same_page_iff:
  assumes "pt_geometry pt" and "pageSize pt = VMPageSize" and "0 < n" and "n \<le> VMPageSize"
  shows "pageAlign pt (v + n - 1) = pageAlign pt v \<longleftrightarrow> unat (pageOffset pt v) + unat n \<le> unat VMPageSize"
proof -
  have ps: "VMPageSize = 2 ^ 13" "unat VMPageSize = 2 ^ 13" by (simp_all add: VMPageSize_def)
  from assms(1) obtain k where k: "k < 64" "pageSize pt = 2 ^ k" "offsetMask pt = mask k"
    by (auto simp: pt_geometry_def)
  have "unat (2 ^ k :: addr) = 2 ^ 13" using k(2) assms(2) ps by simp
  then have "k = 13" using k(1) power_inject_exp [of "2 :: nat" k 13] by (simp add: word_pow2_unat)
  with k have om: "offsetMask pt = mask 13" by simp
  define o' where "o' = unat (v AND mask 13)"
  define w where "w = v AND NOT (mask 13)"
  define x where "x = o' + (unat n - 1)"
  have o': "o' < 2 ^ 13" unfolding o'_def by (rule unat_and_mask_less)
  have n: "0 < unat n" "unat n \<le> 2 ^ 13" using assms(3,4) ps(2) by (simp_all add: word_less_nat_alt word_le_nat_alt)
  have w0: "w AND mask 13 = 0" by (rule bit_word_eqI) (simp add: w_def bit_simps)
  have "v = w + of_nat o'" by (simp add: w_def o'_def and_not_mask_minus)
  moreover have "n = of_nat (unat n - 1) + 1" using n(1) by (simp add: of_nat_diff)
  ultimately have "v + n - 1 = w + of_nat x" unfolding x_def by (metis (no_types, lifting) add.assoc add_diff_cancel_right' of_nat_add)
  then have "pageAlign pt (v + n - 1) = w + of_nat (x div 2 ^ 13) * 2 ^ 13"
    using offset_in_range(2) [OF _ w0, of x] by (simp add: pageAlign_def om)
  moreover have "pageAlign pt v = w" by (simp add: pageAlign_def om w_def)
  moreover have "x div 2 ^ 13 = (if x < 2 ^ 13 then 0 else 1)"
    using o' n(2) by (auto simp: x_def intro!: div_nat_eqI)
  ultimately have "pageAlign pt (v + n - 1) = pageAlign pt v \<longleftrightarrow> x < 2 ^ 13" by auto
  then show ?thesis using n(1) ps(2) by (auto simp: x_def pageOffset_def om o'_def)
qed

text \<open>\<open>translate(RequestPtr)\<close> on a page table with the architecture's page size, for a request of
  at least one byte: the assertion stops exactly the requests that span two pages; every other
  request gets a page fault for its address exactly when \<open>translate\<close> has no answer, and otherwise
  its physical address; the panic about spanning requests is never reached.\<close>

theorem translate_req_outcome:
  assumes "pt_geometry pt" and "pageSize pt = VMPageSize" and "0 < n" and "n \<le> VMPageSize"
  shows "translate_req v n pt =
    (if unat (pageOffset pt v) + unat n > unat VMPageSize then Inl AssertFailed
     else case translate v pt of
       (None, pt') \<Rightarrow> Inr (GenericPageTableFault v, None, pt')
     | (Some pa, pt') \<Rightarrow> Inr (NoFault, Some pa, pt'))"
proof (cases "unat (pageOffset pt v) + unat n > unat VMPageSize")
  case True
  then show ?thesis using same_page_iff [OF assms, of v] by (simp add: translate_req_def)
next
  case False
  have m: "pageSize pt - 1 = mask 13" by (simp add: assms(2) VMPageSize_def mask_eq_exp_minus_1)
  have om: "offsetMask pt = mask 13"
  proof -
    from assms(1) obtain k where "offsetMask pt = mask k" "pageSize pt = 2 ^ k" by (auto simp: pt_geometry_def)
    then show ?thesis using m by (simp add: mask_eq_exp_minus_1)
  qed
  have po: "(pageOffset pt v + pageStart e) AND (pageSize pt - 1) = pageOffset pt v" for e
  proof -
    have "pageStart e AND mask 13 = 0" using page_start_aligned [OF assms(2), of e] m by simp
    from offset_in_range(1) [OF _ this, of "unat (pageOffset pt v)"] show ?thesis
      using unat_and_mask_less [of v 13] by (simp add: m add.commute pageOffset_def om)
  qed
  have "\<not> pageOffset pt v + n > pageSize pt"
    using False assms(2) by (simp add: word_less_nat_alt unat_word_ariths VMPageSize_def)
  then show ?thesis
    using same_page_iff [OF assms, of v] False
    by (auto simp: translate_req_def translate_def po split: prod.splits option.splits)
qed

definition demo_junk :: TlbEntry where
  "demo_junk = mkTlbEntry 0 0 0xdead0000"

definition demo_pt0 :: PageTable where
  "demo_pt0 = projr (newPageTable demo_junk 7 VMPageSize)"

definition demo_pt_ops :: "pt_op list" where
  "demo_pt_ops = [Map 0x2000 0x8000 0x4000 False, Lookup 0x2010, Unmap 0x4000 0x2000, Remap 0x2000 0x2000 0x6000]"

definition demo_pt :: PageTable where
  "demo_pt = projr (pt_run demo_junk demo_pt_ops demo_pt0)"

lemma demo_pt0_new: "newPageTable demo_junk 7 VMPageSize = Inr demo_pt0"
proof -
  have "is_ok (newPageTable demo_junk 7 VMPageSize)" by code_simp
  then show ?thesis by (auto simp: is_ok_iff demo_pt0_def)
qed

lemma demo_pt_run: "pt_run demo_junk demo_pt_ops demo_pt0 = Inr demo_pt"
proof -
  have "is_ok (pt_run demo_junk demo_pt_ops demo_pt0)" by code_simp
  then show ?thesis by (auto simp: is_ok_iff demo_pt_def)
qed

lemma page_table_refines_witness:
  "fst (translate 0x6010 demo_pt) = Some 0x8010 \<and> fst (translate 0x8010 demo_pt) = None"
proof -
  have page: "pageAlign demo_pt 0x6010 = 0x6000" "pageOffset demo_pt 0x6010 = 0x10"
    "pageAlign demo_pt 0x8010 = 0x8000"
  proof -
    have "offsetMask demo_pt = offsetMask demo_pt0"
      using pt_run_sim [OF demo_pt_run newPageTable_sim(1) [OF demo_pt0_new]] by (simp add: pt_same_geometry_def)
    also have "\<dots> = 0x1fff" by code_simp
    finally show "pageAlign demo_pt 0x6010 = 0x6000" "pageOffset demo_pt 0x6010 = 0x10"
      "pageAlign demo_pt 0x8010 = 0x8000"
      by (simp_all add: pageAlign_def pageOffset_def)
  qed
  have s: "(0x6000 :: addr) \<notin> snd (vm_run (pageStart demo_junk) VMPageSize demo_pt_ops (Map.empty, {0}))"
    "(0x8000 :: addr) \<notin> snd (vm_run (pageStart demo_junk) VMPageSize demo_pt_ops (Map.empty, {0}))"
    "fst (vm_run (pageStart demo_junk) VMPageSize demo_pt_ops (Map.empty, {0})) 0x6000 = Some 0x8000"
    "fst (vm_run (pageStart demo_junk) VMPageSize demo_pt_ops (Map.empty, {0})) 0x8000 = None"
  proof -
    have "pages 0x2000 0x4000 = Suc (Suc 0)" "pages 0x2000 0x2000 = Suc 0" "VMPageSize = 0x2000"
      "frame_of 0x8000 = 0x8000"
      by (simp_all add: pages_def VMPageSize_def) code_simp
    note facts = this vm_run_def vm_step_def demo_pt_ops_def
    show "(0x6000 :: addr) \<notin> snd (vm_run (pageStart demo_junk) VMPageSize demo_pt_ops (Map.empty, {0}))"
      "(0x8000 :: addr) \<notin> snd (vm_run (pageStart demo_junk) VMPageSize demo_pt_ops (Map.empty, {0}))"
      "fst (vm_run (pageStart demo_junk) VMPageSize demo_pt_ops (Map.empty, {0})) 0x6000 = Some 0x8000"
      "fst (vm_run (pageStart demo_junk) VMPageSize demo_pt_ops (Map.empty, {0})) 0x8000 = None"
      by (simp_all add: facts)
  qed
  have "\<forall>v. pageAlign demo_pt v \<notin> snd (vm_run (pageStart demo_junk) VMPageSize demo_pt_ops (Map.empty, {0})) \<longrightarrow>
      fst (translate v demo_pt) = map_option (\<lambda>f. pageOffset demo_pt v + f)
        (fst (vm_run (pageStart demo_junk) VMPageSize demo_pt_ops (Map.empty, {0})) (pageAlign demo_pt v))"
    using page_table_refines [OF demo_pt0_new demo_pt_run prod.collapse [symmetric]] by blast
  from spec [OF this, of "0x6010"] spec [OF this, of "0x8010"] show ?thesis
    by (simp add: page s)
qed

lemma demo_pt0_geometry: "pt_geometry demo_pt0" "pageSize demo_pt0 = VMPageSize"
  using newPageTable_sim [OF demo_pt0_new] by simp_all

lemma map_translate_roundtrip_witness:
  "\<exists>pt'. pt_map 0x2000 0x8000 0x3000 False demo_pt0 = Inr pt' \<and> fst (translate (0x2000 + of_nat 0x2345) pt') = Some (0x8000 + of_nat 0x2345)"
proof -
  have "is_ok (pt_map 0x2000 0x8000 0x3000 False demo_pt0)" by code_simp
  then obtain pt' where pt': "pt_map 0x2000 0x8000 0x3000 False demo_pt0 = Inr pt'" by (auto simp: is_ok_iff)
  moreover have "(0x8000 :: addr) AND mask PageShift = 0" by code_simp
  moreover have "unat (0x8000 :: addr) + nat 0x3000 \<le> 2 ^ 43" "(0x3000 :: int) < 2 ^ 63" by simp_all
  ultimately show ?thesis
    using map_translate_roundtrip [OF demo_pt0_geometry pt', where x = "0x2345", THEN conjunct2] by simp
qed

lemma map_succeeds_iff_unmapped_witness:
  "\<exists>pt'. pt_map 0x2000 0x8000 0x3000 False demo_pt0 = Inr pt'"
proof -
  have "isUnmapped 0x2000 0x3000 demo_pt0 = Inr True" by code_simp
  then show ?thesis using map_succeeds_iff_unmapped [OF demo_pt0_geometry(1), where sz = "0x3000"] by simp
qed

lemma unmapped_page_translates_witness:
  "\<exists>pt1 pt2. pt_map 0x2000 0x8000 (uint (pageSize demo_pt0)) False demo_pt0 = Inr pt1
      \<and> unmap 0x2000 (uint (pageSize demo_pt0)) pt1 = Inr pt2
      \<and> isUnmapped 0x2000 (uint (pageSize demo_pt0)) pt2 = Inr True
      \<and> fst (translate 0x2000 pt2) = Some (frame_of 0x8000)
      \<and> fst (translate 0 demo_pt0) = Some (pageStart demo_junk)"
proof -
  have "pageOffset demo_pt0 0x2000 = 0" "pTable demo_pt0 0x2000 = None" "uint (pageSize demo_pt0) < 2 ^ 63"
    by code_simp+
  from unmapped_page_translates [OF demo_pt0_geometry(1) this, where p = "0x8000" and junk = demo_junk and pid = 7 and ?pt0.0 = demo_pt0]
  show ?thesis using demo_pt0_new demo_pt0_geometry(2) by simp
qed

lemma translate_req_outcome_witness:
  "translate_req 0x3ff8 16 demo_pt0 = Inl AssertFailed \<and>
   translate_req 0x3ff8 8 demo_pt0 = Inr (GenericPageTableFault 0x3ff8, None, snd (translate 0x3ff8 demo_pt0))"
proof -
  have "unat (pageOffset demo_pt0 0x3ff8) = 0x1ff8" by code_simp
  moreover have "fst (translate 0x3ff8 demo_pt0) = None" by code_simp
  moreover have "unat VMPageSize = 0x2000" "(16 :: addr) \<le> VMPageSize" "(8 :: addr) \<le> VMPageSize" by code_simp+
  ultimately show ?thesis
    using translate_req_outcome [OF demo_pt0_geometry, where n = 16 and v = "0x3ff8"]
      translate_req_outcome [OF demo_pt0_geometry, where n = 8 and v = "0x3ff8"]
    by (cases "translate 0x3ff8 demo_pt0") simp
qed

end
