(* ===== verification/Ruby_Address.thy ===== *)
theory Ruby_Address
  imports Int_Math
begin

text \<open>
  Physical addresses of the Ruby memory system: \<open>src/mem/ruby/common/Address.hh\<close> and
  \<open>Address.cc\<close> of lab 6's gem5, and the address arithmetic of the directory
  (\<open>src/mem/ruby/system/DirectoryMemory.cc\<close>).  Bit positions are \<open>int\<close>s as in the code; the number
  of block offset bits (\<open>RubySystem::getBlockSizeBits()\<close>) is the argument \<open>bb\<close>.  Shifting a 64-bit
  value by 64 or more places, or by a negative number, is undefined in C++ and outside the model.
\<close>

section \<open>Bit fields of an address\<close>

definition ADDRESS_WIDTH :: int where
  "ADDRESS_WIDTH = 64"

text \<open>The mask of all ones shifted up by \<open>n\<close> places.\<close>

definition ones_from :: "int \<Rightarrow> u64" where
  "ones_from n = push_bit (nat n) (- 1)"

definition bitSelect :: "int \<Rightarrow> int \<Rightarrow> addr \<Rightarrow> addr res" where
  "bitSelect small big a =
     assert_that ((word_of_int small :: u32) \<le> word_of_int big)
       (if big \<ge> ADDRESS_WIDTH - 1 then Inr (drop_bit (nat small) a)
        else let m = NOT (ones_from (big + 1)); part = a AND m
             in Inr (drop_bit (nat small) part))"

definition bitRemove :: "int \<Rightarrow> int \<Rightarrow> addr \<Rightarrow> addr res" where
  "bitRemove small big a =
     assert_that ((word_of_int small :: u32) \<le> word_of_int big)
       (if small \<ge> ADDRESS_WIDTH - 1 then Inr a
        else if big \<ge> ADDRESS_WIDTH - 1 then Inr (a AND drop_bit (nat small) (- 1))
        else if small = 0 then Inr (a AND ones_from big)
        else
          let lower_bits = a AND NOT (ones_from small);
              higher_bits = a AND ones_from (big + 1);
              higher_bits' = drop_bit (nat (big - small + 1)) higher_bits
          in Inr (higher_bits' OR lower_bits))"

definition maskLowOrderBits :: "int \<Rightarrow> addr \<Rightarrow> addr" where
  "maskLowOrderBits number a =
     (if number \<ge> ADDRESS_WIDTH - 1 then a AND - 1 else a AND ones_from number)"

definition maskHighOrderBits :: "int \<Rightarrow> addr \<Rightarrow> addr" where
  "maskHighOrderBits number a =
     (if number \<ge> ADDRESS_WIDTH - 1 then a AND - 1 else a AND drop_bit (nat number) (- 1))"

definition shiftLowOrderBits :: "int \<Rightarrow> addr \<Rightarrow> addr" where
  "shiftLowOrderBits number a = drop_bit (nat number) a"

definition getLineAddress :: "int \<Rightarrow> addr \<Rightarrow> addr res" where
  "getLineAddress bb a = bitSelect bb ADDRESS_WIDTH a"

definition getOffset :: "int \<Rightarrow> addr \<Rightarrow> addr res" where
  "getOffset bb a = bitSelect 0 (bb - 1) a"

definition makeLineAddress :: "int \<Rightarrow> addr \<Rightarrow> addr" where
  "makeLineAddress bb a = maskLowOrderBits bb a"

definition line_address :: "int \<Rightarrow> addr \<Rightarrow> addr" where
  "line_address bb a = makeLineAddress bb a"

definition makeNextStrideAddress :: "int \<Rightarrow> u64 \<Rightarrow> int \<Rightarrow> addr \<Rightarrow> addr" where
  "makeNextStrideAddress bb block_bytes stride a =
     maskLowOrderBits bb a + block_bytes * word_of_int stride"

definition setOffset :: "int \<Rightarrow> int \<Rightarrow> addr \<Rightarrow> addr" where
  "setOffset bb offset a = makeLineAddress bb a OR word_of_int offset"

section \<open>The address map of the directories\<close>

text \<open>
  The static members that all directories share: the number of directories and its logarithm, the
  total size, and the highest bit that selects a directory.
\<close>

record DirectoryStatics =
  m_num_directories :: nat
  m_num_directories_bits :: nat
  m_total_size_bytes :: u64
  m_numa_high_bit :: int

text \<open>\<open>init\<close> of one directory; \<open>mem_bits\<close> is \<open>RubySystem::getMemorySizeBits()\<close>.\<close>

definition directory_init :: "int \<Rightarrow> u64 \<Rightarrow> DirectoryStatics \<Rightarrow> DirectoryStatics res" where
  "directory_init mem_bits size_bytes g =
     (let n = m_num_directories g + 1
      in res_bind (floorLog2_u32 (of_nat n)) (\<lambda>l.
           let high = (if m_numa_high_bit g = 0 then mem_bits - 1 else m_numa_high_bit g);
               g' = g\<lparr>m_num_directories := n, m_num_directories_bits := l,
                      m_total_size_bytes := m_total_size_bytes g + size_bytes, m_numa_high_bit := high\<rparr>
           in assert_that (high \<noteq> 0) (Inr g')))"

definition mapAddressToDirectoryVersion :: "DirectoryStatics \<Rightarrow> addr \<Rightarrow> u64 res" where
  "mapAddressToDirectoryVersion g a =
     (if m_num_directories_bits g = 0 then Inr 0
      else bitSelect (m_numa_high_bit g - int (m_num_directories_bits g) + 1) (m_numa_high_bit g) a)"

definition directory_isPresent :: "DirectoryStatics \<Rightarrow> u64 \<Rightarrow> addr \<Rightarrow> bool res" where
  "directory_isPresent g version a =
     res_bind (mapAddressToDirectoryVersion g a) (\<lambda>v. Inr (v = version))"

definition mapAddressToLocalIdx :: "DirectoryStatics \<Rightarrow> int \<Rightarrow> addr \<Rightarrow> u64 res" where
  "mapAddressToLocalIdx g bb a =
     res_bind (if m_num_directories_bits g > 0
               then bitRemove (m_numa_high_bit g - int (m_num_directories_bits g) + 1) (m_numa_high_bit g) a
               else Inr a) (\<lambda>r. Inr (drop_bit (nat bb) r))"

section \<open>Laws of the bit fields\<close>

lemma bit_ones_from: "bit (ones_from n) i \<longleftrightarrow> nat n \<le> i \<and> i < 64"
  by (auto simp: ones_from_def bit_simps)

lemma u32_le_ints:
  "0 \<le> small \<Longrightarrow> small \<le> big \<Longrightarrow> big < 2 ^ 32 \<Longrightarrow> (word_of_int small :: u32) \<le> word_of_int big"
  by (simp add: word_le_def uint_word_of_int_eq take_bit_int_eq_self)

lemma bitSelect_spec:
  assumes "0 \<le> small" "small \<le> big" "big < 2 ^ 32"
  shows "\<exists>r. bitSelect small big a = Inr r \<and> (\<forall>i. bit r i \<longleftrightarrow> bit a (i + nat small) \<and> i + nat small \<le> nat big)"
proof (cases "big \<ge> 63")
  case True
  then show ?thesis
    using assms by (auto simp: bitSelect_def ADDRESS_WIDTH_def u32_le_ints bit_simps ac_simps dest: bit_imp_le_length)
next
  case False
  then show ?thesis
    using assms
    by (auto simp: bitSelect_def ADDRESS_WIDTH_def u32_le_ints bit_simps bit_ones_from Let_def ac_simps
        dest: bit_imp_le_length)
qed

lemma bitSelect_spec_nat:
  assumes "s \<le> b" "b < 2 ^ 32"
  shows "\<exists>r. bitSelect (int s) (int b) a = Inr r \<and> (\<forall>i. bit r i \<longleftrightarrow> bit a (i + s) \<and> i + s \<le> b)"
  using bitSelect_spec [of "int s" "int b" a] assms by simp

text \<open>In the case all callers need, the bits are removed and the ones above close the gap.\<close>

lemma bitRemove_spec:
  assumes "0 < s" "s \<le> b" "b < 63"
  shows "\<exists>r. bitRemove (int s) (int b) a = Inr r \<and>
    (\<forall>i. bit r i \<longleftrightarrow> (if i < s then bit a i else bit a (i + (b - s + 1))))"
proof -
  define r where "r = drop_bit (b - s + 1) (a AND ones_from (int b + 1)) OR (a AND NOT (ones_from (int s)))"
  have n: "nat (int b - int s + 1) = b - s + 1" using assms by simp
  have "bitRemove (int s) (int b) a = Inr r"
    using assms u32_le_ints [of "int s" "int b"]
    by (simp add: bitRemove_def ADDRESS_WIDTH_def Let_def r_def n)
  moreover have "bit r i \<longleftrightarrow> (if i < s then bit a i else bit a (i + (b - s + 1)))" for i
  proof (cases "i < s")
    case True
    then have "\<not> Suc b \<le> b - s + 1 + i" using assms by simp
    with True show ?thesis using assms by (auto simp: r_def bit_simps bit_ones_from nat_add_distrib)
  next
    case False
    then have "Suc b \<le> b - s + 1 + i" using assms by simp
    with False show ?thesis
      using assms bit_imp_le_length [of a "b - s + 1 + i"]
      by (auto simp: r_def bit_simps bit_ones_from nat_add_distrib ac_simps)
  qed
  ultimately show ?thesis by blast
qed

lemma line_address_bits:
  assumes "0 \<le> bb" "bb < 63"
  shows "bit (line_address bb a) i \<longleftrightarrow> nat bb \<le> i \<and> bit a i"
  using assms
  by (auto simp: line_address_def makeLineAddress_def maskLowOrderBits_def ADDRESS_WIDTH_def bit_simps
      bit_ones_from dest: bit_imp_le_length)

lemma line_address_idem:
  assumes "0 \<le> bb" "bb < 63"
  shows "line_address bb (line_address bb a) = line_address bb a"
  by (rule bit_word_eqI) (simp add: line_address_bits [OF assms])

text \<open>
  The map of the directories: the directory that owns an address and the index of its block there
  together determine the line, so no two lines share an entry.
\<close>

lemma directory_map_determines_line:
  assumes bits: "0 < m_num_directories_bits g" "m_num_directories_bits g \<le> h"
    and h: "m_numa_high_bit g = int h" "h < 63" and bb: "0 \<le> bb" "nat bb \<le> h + 1 - m_num_directories_bits g"
    and "mapAddressToDirectoryVersion g a = mapAddressToDirectoryVersion g b"
    and "mapAddressToLocalIdx g bb a = mapAddressToLocalIdx g bb b"
  shows "line_address bb a = line_address bb b"
proof -
  define s where "s = h + 1 - m_num_directories_bits g"
  have s: "0 < s" "s \<le> h" "int s = m_numa_high_bit g - int (m_num_directories_bits g) + 1"
    using bits h by (auto simp: s_def)
  obtain va vb where v: "bitSelect (int s) (int h) a = Inr va" "bitSelect (int s) (int h) b = Inr vb"
    and bv: "\<And>i. bit va i \<longleftrightarrow> bit a (i + s) \<and> i + s \<le> h" "\<And>i. bit vb i \<longleftrightarrow> bit b (i + s) \<and> i + s \<le> h"
    using bitSelect_spec_nat [OF s(2), of a] bitSelect_spec_nat [OF s(2), of b] h(2) by auto
  obtain ra rb where r: "bitRemove (int s) (int h) a = Inr ra" "bitRemove (int s) (int h) b = Inr rb"
    and br: "\<And>i. bit ra i \<longleftrightarrow> (if i < s then bit a i else bit a (i + (h - s + 1)))"
      "\<And>i. bit rb i \<longleftrightarrow> (if i < s then bit b i else bit b (i + (h - s + 1)))"
    using bitRemove_spec [OF s(1,2) h(2)] by metis
  have "va = vb" using assms(7) bits v h(1) s(3) by (simp add: mapAddressToDirectoryVersion_def)
  have "drop_bit (nat bb) ra = drop_bit (nat bb) rb"
    using assms(8) bits r h(1) s(3) by (simp add: mapAddressToLocalIdx_def)
  then have d: "bit ra (nat bb + i) \<longleftrightarrow> bit rb (nat bb + i)" for i
    by (metis bit_drop_bit_eq comp_apply)
  have "bit a i \<longleftrightarrow> bit b i" if "nat bb \<le> i" for i
  proof -
    consider "i < s" | "s \<le> i" "i \<le> h" | "h < i" by linarith
    then show ?thesis
    proof cases
      case 1
      then show ?thesis using d [of "i - nat bb"] that by (simp add: br)
    next
      case 2
      then show ?thesis using bv(1) [of "i - s"] bv(2) [of "i - s"] \<open>va = vb\<close> by simp
    next
      case 3
      then have "s \<le> i - (h - s + 1)" "i - (h - s + 1) + (h - s + 1) = i" using s by auto
      moreover have "nat bb \<le> i - (h - s + 1)" using bb(2) calculation(1) by (simp add: s_def)
      ultimately show ?thesis using d [of "i - (h - s + 1) - nat bb"] by (simp add: br)
    qed
  qed
  moreover have "bb < 63" using bb h bits by linarith
  ultimately show ?thesis using bb(1) by (intro bit_word_eqI) (auto simp: line_address_bits)
qed

text \<open>
  With the selecting bits at the bottom (\<open>small = 0\<close>), \<open>bitRemove\<close> neither removes the bit \<open>big\<close>
  nor closes the gap; with \<open>big\<close> at the top it keeps the high part of the mask instead of the low one.
\<close>

lemma bitRemove_low_wrong: "bitRemove 0 0 1 = Inr 1 \<and> bitRemove 0 1 0x4 = Inr 0x4"
  by code_simp

lemma bitRemove_high_wrong: "bitRemove 62 63 0x4 = Inr 0 \<and> bitRemove 4 63 0x10 = Inr 0x10"
  by code_simp

end
