(* ===== verification/Ruby_Replacement.thy ===== *)
theory Ruby_Replacement
  imports Gem5_Prelude
begin

text \<open>
  The replacement policies of the Ruby caches: \<open>AbstractReplacementPolicy.hh\<close>, \<open>LRUPolicy.hh\<close> and
  \<open>PseudoLRUPolicy.hh\<close> of \<open>src/mem/ruby/system\<close> in lab 6's gem5.  Set and way indices are natural
  numbers (the tests \<open>>= 0\<close> of the code hold for them), times (\<open>int64\<close>) are integers.  A tree of
  the pseudo-LRU policy is a 64-bit word, bit \<open>t\<close> is the node with index \<open>t\<close>.
\<close>

section \<open>The common state\<close>

record ReplacementPolicy =
  m_num_sets :: nat
  m_assoc :: nat
  m_last_ref :: "int list list"

definition newReplacementPolicy :: "nat \<Rightarrow> nat \<Rightarrow> ReplacementPolicy" where
  "newReplacementPolicy num_sets assoc =
     \<lparr>m_num_sets = num_sets, m_assoc = assoc, m_last_ref = replicate num_sets (replicate assoc 0)\<rparr>"

definition set_last_ref :: "nat \<Rightarrow> nat \<Rightarrow> int \<Rightarrow> ('a) ReplacementPolicy_scheme \<Rightarrow> 'a ReplacementPolicy_scheme res" where
  "set_last_ref s way time r =
     res_bind (vec_get (m_last_ref r) s) (\<lambda>row.
     res_bind (vec_set row way time) (\<lambda>row'.
     Inr (r\<lparr>m_last_ref := (m_last_ref r)[s := row']\<rparr>)))"

definition getLastAccess :: "nat \<Rightarrow> nat \<Rightarrow> 'a ReplacementPolicy_scheme \<Rightarrow> int res" where
  "getLastAccess s way r = res_bind (vec_get (m_last_ref r) s) (\<lambda>row. vec_get row way)"

section \<open>True LRU\<close>

definition lru_touch :: "nat \<Rightarrow> nat \<Rightarrow> int \<Rightarrow> ReplacementPolicy \<Rightarrow> ReplacementPolicy res" where
  "lru_touch s index time r =
     assert_that (index < m_assoc r) (assert_that (s < m_num_sets r) (set_last_ref s index time r))"

text \<open>The loop of \<open>getVictim\<close> from way \<open>i\<close>, with the smallest index and time so far.\<close>

function lru_victim_loop :: "int list \<Rightarrow> nat \<Rightarrow> nat \<Rightarrow> nat \<Rightarrow> int \<Rightarrow> nat res" where
  "lru_victim_loop row assoc i smallest_index smallest_time =
     (if i < assoc then
        res_bind (vec_get row i) (\<lambda>time.
          if time < smallest_time then lru_victim_loop row assoc (i + 1) i time
          else lru_victim_loop row assoc (i + 1) smallest_index smallest_time)
      else Inr smallest_index)"
  by pat_completeness auto
termination
  by (relation "measure (\<lambda>(row, assoc, i, k, t). assoc - i)") auto

definition lru_getVictim :: "nat \<Rightarrow> ReplacementPolicy \<Rightarrow> nat res" where
  "lru_getVictim s r =
     res_bind (vec_get (m_last_ref r) s) (\<lambda>row.
     res_bind (vec_get row 0) (\<lambda>t0.
     lru_victim_loop row (m_assoc r) 0 0 t0))"

declare lru_victim_loop.simps [simp del]

section \<open>Tree-based pseudo-LRU\<close>

record PseudoLRU = ReplacementPolicy +
  m_effective_assoc :: nat
  m_num_levels :: nat
  m_trees :: "u64 list"

text \<open>
  The constructor: the associativity is rounded up to a power of two by doubling (32-bit shifts;
  the bound on the associativity keeps them in range), its logarithm found by halving.
\<close>

function round_up_loop :: "nat \<Rightarrow> nat \<Rightarrow> nat" where
  "round_up_loop assoc eff = (if 0 < eff \<and> eff < assoc then round_up_loop assoc (2 * eff) else eff)"
  by pat_completeness auto
termination
  by (relation "measure (\<lambda>(assoc, eff). assoc - eff)") auto

fun levels_loop :: "nat \<Rightarrow> nat \<Rightarrow> nat" where
  "levels_loop assoc levels =
     (if assoc div 2 = 0 then levels else levels_loop (assoc div 2) (levels + 1))"

declare round_up_loop.simps [simp del] levels_loop.simps [simp del]

definition newPseudoLRU :: "nat \<Rightarrow> nat \<Rightarrow> PseudoLRU res" where
  "newPseudoLRU num_sets assoc =
     assert_that (num_sets > 0 \<and> assoc > 1 \<and> assoc \<le> 32)
       (let eff = round_up_loop assoc 1;
            levels = levels_loop eff 0
        in assert_that (levels < 16)
             (Inr (ReplacementPolicy.extend (newReplacementPolicy num_sets assoc)
                     \<lparr>m_effective_assoc = eff, m_num_levels = levels, m_trees = replicate num_sets 0\<rparr>)))"

text \<open>
  The loop of \<open>touch\<close> for the \<open>i\<close> lowest levels: the node on the way's path is set to the way's own
  bit, so that it points to the other half.
\<close>

fun touch_loop :: "nat \<Rightarrow> nat \<Rightarrow> nat \<Rightarrow> u64 \<Rightarrow> u64" where
  "touch_loop index 0 tree_index tree = tree"
| "touch_loop index (Suc i) tree_index tree =
     (let node_val = odd (index div 2 ^ i);
          tree' = (if node_val then tree OR push_bit tree_index 1
                   else tree AND NOT (push_bit tree_index 1))
      in touch_loop index i (if node_val then 2 * tree_index + 2 else 2 * tree_index + 1) tree')"

definition plru_touch :: "nat \<Rightarrow> nat \<Rightarrow> int \<Rightarrow> PseudoLRU \<Rightarrow> PseudoLRU res" where
  "plru_touch s index time r =
     assert_that (index < m_assoc r) (assert_that (s < m_num_sets r)
       (res_bind (vec_get (m_trees r) s) (\<lambda>tree.
        set_last_ref s index time
          (r\<lparr>m_trees := (m_trees r)[s := touch_loop index (m_num_levels r) 0 tree]\<rparr>))))"

text \<open>The loop of \<open>getVictim\<close> from level \<open>i\<close>, with the index and the node so far.\<close>

function victim_loop :: "nat \<Rightarrow> nat \<Rightarrow> u64 \<Rightarrow> nat \<Rightarrow> nat \<Rightarrow> nat \<Rightarrow> nat" where
  "victim_loop eff levels tree i index tree_index =
     (if i < levels then
        let node_val = odd (unat (drop_bit tree_index tree))
        in victim_loop eff levels tree (i + 1)
             (index + (if node_val then 0 else eff div 2 ^ (i + 1)))
             (if node_val then 2 * tree_index + 1 else 2 * tree_index + 2)
      else index)"
  by pat_completeness auto
termination
  by (relation "measure (\<lambda>(eff, levels, tree, i, k, t). levels - i)") auto

declare victim_loop.simps [simp del]

definition plru_getVictim :: "nat \<Rightarrow> PseudoLRU \<Rightarrow> nat res" where
  "plru_getVictim s r =
     res_bind (vec_get (m_trees r) s) (\<lambda>tree.
       let index = victim_loop (m_effective_assoc r) (m_num_levels r) tree 0 0 0
       in assert_that (index < m_effective_assoc r)
            (Inr (if index > m_assoc r - 1 then m_assoc r - 1 else index)))"

section \<open>Dispatch\<close>

text \<open>A cache holds a pointer to either policy and calls the virtual functions.\<close>

datatype policy = PolicyLRU ReplacementPolicy | PolicyPseudoLRU PseudoLRU

definition policy_touch :: "nat \<Rightarrow> nat \<Rightarrow> int \<Rightarrow> policy \<Rightarrow> policy res" where
  "policy_touch s way time p = (case p of
     PolicyLRU r \<Rightarrow> res_bind (lru_touch s way time r) (\<lambda>r'. Inr (PolicyLRU r'))
   | PolicyPseudoLRU r \<Rightarrow> res_bind (plru_touch s way time r) (\<lambda>r'. Inr (PolicyPseudoLRU r')))"

definition policy_getVictim :: "nat \<Rightarrow> policy \<Rightarrow> nat res" where
  "policy_getVictim s p = (case p of
     PolicyLRU r \<Rightarrow> lru_getVictim s r
   | PolicyPseudoLRU r \<Rightarrow> plru_getVictim s r)"

definition policy_getLastAccess :: "nat \<Rightarrow> nat \<Rightarrow> policy \<Rightarrow> int res" where
  "policy_getLastAccess s way p = (case p of
     PolicyLRU r \<Rightarrow> getLastAccess s way r
   | PolicyPseudoLRU r \<Rightarrow> getLastAccess s way r)"

end
