(* ===== verification/Ruby_Cache.thy ===== *)
theory Ruby_Cache
  imports Ruby_Address Ruby_Replacement
begin

text \<open>
  The cache arrays of the Ruby memory system: \<open>src/mem/ruby/system/CacheMemory.cc\<close> and
  \<open>src/mem/ruby/slicc_interface/AbstractCacheEntry.cc\<close> of lab 6's gem5, with the enumerations of
  \<open>src/mem/protocol/RubySlicc_Exports.sm\<close>.

  Entries are objects the controllers allocate, hand over in \<open>allocate\<close> and change through the
  pointer \<open>lookup\<close> returns; the array is their only owner, so the model stores them by value and
  the operations of a controller on an entry go through the array.  The data block is a type
  parameter.  The result \<open>-1\<close> of \<open>findTagInSet\<close> is \<^const>\<open>None\<close>.  The time of a touch, read from
  the global event queue, is an argument.  Profiling and printing change no state here.
\<close>

section \<open>Entries\<close>

datatype AccessPermission =
  Read_Only | Read_Write | Maybe_Stale | Backing_Store | Perm_Invalid | NotPresent | Busy

datatype RubyRequestType =
  LD | ST | ATOMIC | IFETCH | RIO | REPLACEMENT | Load_Linked | Store_Conditional | RMW_Read
  | RMW_Write | Locked_RMW_Read | Locked_RMW_Write | COMMIT | RNULL | FLUSH

record 'd AbstractCacheEntry =
  m_Address :: addr
  m_Permission :: AccessPermission
  m_locked :: int
  m_DataBlk :: 'd

definition newAbstractCacheEntry :: "'d \<Rightarrow> 'd AbstractCacheEntry" where
  "newAbstractCacheEntry d = \<lparr>m_Address = 0, m_Permission = NotPresent, m_locked = -1, m_DataBlk = d\<rparr>"

definition changePermission :: "AccessPermission \<Rightarrow> 'd AbstractCacheEntry \<Rightarrow> 'd AbstractCacheEntry" where
  "changePermission new_perm e =
     (let e1 = e\<lparr>m_Permission := new_perm\<rparr>
      in if new_perm = Perm_Invalid \<or> new_perm = NotPresent then e1\<lparr>m_locked := -1\<rparr> else e1)"

section \<open>The array\<close>

record 'd CacheMemory =
  m_cache_num_sets :: nat
  m_cache_num_set_bits :: nat
  m_cache_assoc :: nat
  m_start_index_bit :: nat
  m_block_bits :: nat
  m_is_instruction_only_cache :: bool
  m_tag_index :: "addr \<rightharpoonup> nat"
  m_cache :: "'d AbstractCacheEntry option list list"
  m_replacementPolicy :: policy

datatype policy_name = PSEUDO_LRU | LRU_NAME | OTHER_NAME

text \<open>
  \<open>init\<close>: the number of sets from the size (in bytes), the associativity and the block size, its
  logarithm, the replacement policy and the empty sets.
\<close>

definition cache_init ::
  "nat \<Rightarrow> nat \<Rightarrow> nat \<Rightarrow> policy_name \<Rightarrow> nat \<Rightarrow> bool \<Rightarrow> 'd CacheMemory res" where
  "cache_init csize assoc block_bits pname start_bit icache =
     (let num_sets = csize div assoc div 2 ^ block_bits
      in assert_that (num_sets > 1)
        (res_bind (floorLog2_u32 (of_nat num_sets)) (\<lambda>set_bits.
         assert_that (set_bits > 0)
        (res_bind (case pname of
             PSEUDO_LRU \<Rightarrow> res_bind (newPseudoLRU num_sets assoc) (\<lambda>r. Inr (PolicyPseudoLRU r))
           | LRU_NAME \<Rightarrow> Inr (PolicyLRU (newReplacementPolicy num_sets assoc))
           | OTHER_NAME \<Rightarrow> Inl AssertFailed) (\<lambda>pol.
         Inr \<lparr>m_cache_num_sets = num_sets, m_cache_num_set_bits = set_bits, m_cache_assoc = assoc,
              m_start_index_bit = start_bit, m_block_bits = block_bits,
              m_is_instruction_only_cache = icache, m_tag_index = Map.empty,
              m_cache = replicate num_sets (replicate assoc None), m_replacementPolicy = pol\<rparr>)))))"

definition is_line :: "'d CacheMemory \<Rightarrow> addr \<Rightarrow> bool" where
  "is_line c a \<longleftrightarrow> a = line_address (int (m_block_bits c)) a"

definition addressToCacheSet :: "addr \<Rightarrow> 'd CacheMemory \<Rightarrow> nat res" where
  "addressToCacheSet a c =
     assert_that (is_line c a)
       (res_bind (bitSelect (int (m_start_index_bit c))
            (int (m_start_index_bit c + m_cache_num_set_bits c) - 1) a)
          (\<lambda>i. Inr (unat i)))"

text \<open>\<open>m_cache[set][way]\<close>, and the entry behind the pointer.\<close>

definition way_ptr :: "nat \<Rightarrow> nat \<Rightarrow> 'd CacheMemory \<Rightarrow> 'd AbstractCacheEntry option res" where
  "way_ptr s w c = res_bind (vec_get (m_cache c) s) (\<lambda>ways. vec_get ways w)"

definition way_entry :: "nat \<Rightarrow> nat \<Rightarrow> 'd CacheMemory \<Rightarrow> 'd AbstractCacheEntry res" where
  "way_entry s w c =
     res_bind (way_ptr s w c) (\<lambda>p. case p of None \<Rightarrow> Inl OutOfRange | Some e \<Rightarrow> Inr e)"

definition set_way :: "nat \<Rightarrow> nat \<Rightarrow> 'd AbstractCacheEntry option \<Rightarrow> 'd CacheMemory \<Rightarrow> 'd CacheMemory res" where
  "set_way s w p c =
     res_bind (vec_get (m_cache c) s) (\<lambda>ways.
     res_bind (vec_set ways w p) (\<lambda>ways'.
     Inr (c\<lparr>m_cache := (m_cache c)[s := ways']\<rparr>)))"

definition findTagInSet :: "nat \<Rightarrow> addr \<Rightarrow> 'd CacheMemory \<Rightarrow> nat option res" where
  "findTagInSet s tag c =
     assert_that (is_line c tag)
       (case m_tag_index c tag of
          None \<Rightarrow> Inr None
        | Some w \<Rightarrow>
            res_bind (way_entry s w c) (\<lambda>e.
              Inr (if m_Permission e \<noteq> NotPresent then Some w else None)))"

definition findTagInSetIgnorePermissions :: "nat \<Rightarrow> addr \<Rightarrow> 'd CacheMemory \<Rightarrow> nat option res" where
  "findTagInSetIgnorePermissions s tag c = assert_that (is_line c tag) (Inr (m_tag_index c tag))"

definition touch_way :: "nat \<Rightarrow> nat \<Rightarrow> int \<Rightarrow> 'd CacheMemory \<Rightarrow> 'd CacheMemory res" where
  "touch_way s w time c =
     res_bind (policy_touch s w time (m_replacementPolicy c)) (\<lambda>p.
     Inr (c\<lparr>m_replacementPolicy := p\<rparr>))"

text \<open>\<open>tryCacheAccess\<close>: whether the access may proceed, with the block it may use.\<close>

definition tryCacheAccess ::
  "addr \<Rightarrow> RubyRequestType \<Rightarrow> int \<Rightarrow> 'd CacheMemory \<Rightarrow> ('d option \<times> 'd CacheMemory) res" where
  "tryCacheAccess a ty time c =
     assert_that (is_line c a)
       (res_bind (addressToCacheSet a c) (\<lambda>s.
        res_bind (findTagInSet s a c) (\<lambda>loc.
        case loc of
          None \<Rightarrow> Inr (None, c)
        | Some w \<Rightarrow>
            res_bind (way_entry s w c) (\<lambda>e.
            res_bind (touch_way s w time c) (\<lambda>c'.
            Inr (if m_Permission e = Read_Write then (Some (m_DataBlk e), c')
                 else if m_Permission e = Read_Only \<and> (ty = LD \<or> ty = IFETCH) then (Some (m_DataBlk e), c')
                 else (None, c')))))))"

definition testCacheAccess ::
  "addr \<Rightarrow> RubyRequestType \<Rightarrow> int \<Rightarrow> 'd CacheMemory \<Rightarrow> (bool \<times> 'd option \<times> 'd CacheMemory) res" where
  "testCacheAccess a ty time c =
     assert_that (is_line c a)
       (res_bind (addressToCacheSet a c) (\<lambda>s.
        res_bind (findTagInSet s a c) (\<lambda>loc.
        case loc of
          None \<Rightarrow> Inr (False, None, c)
        | Some w \<Rightarrow>
            res_bind (way_entry s w c) (\<lambda>e.
            res_bind (touch_way s w time c) (\<lambda>c'.
            Inr (m_Permission e \<noteq> NotPresent, Some (m_DataBlk e), c'))))))"

definition isTagPresent :: "addr \<Rightarrow> 'd CacheMemory \<Rightarrow> bool res" where
  "isTagPresent a c =
     assert_that (is_line c a)
       (res_bind (addressToCacheSet a c) (\<lambda>s.
        res_bind (findTagInSet s a c) (\<lambda>loc. Inr (loc \<noteq> None))))"

text \<open>The loops over the ways of a set, from way \<open>i\<close>, \<open>n\<close> ways to go.\<close>

fun avail_loop :: "addr \<Rightarrow> nat \<Rightarrow> nat \<Rightarrow> nat \<Rightarrow> 'd CacheMemory \<Rightarrow> bool res" where
  "avail_loop a s i 0 c = Inr False"
| "avail_loop a s i (Suc n) c =
     res_bind (way_ptr s i c) (\<lambda>p.
       case p of
         None \<Rightarrow> Inr True
       | Some e \<Rightarrow>
           if m_Address e = a \<or> m_Permission e = NotPresent then Inr True
           else avail_loop a s (i + 1) n c)"

definition cacheAvail :: "addr \<Rightarrow> 'd CacheMemory \<Rightarrow> bool res" where
  "cacheAvail a c =
     assert_that (is_line c a)
       (res_bind (addressToCacheSet a c) (\<lambda>s. avail_loop a s 0 (m_cache_assoc c) c))"

fun allocate_loop :: "addr \<Rightarrow> 'd AbstractCacheEntry \<Rightarrow> int \<Rightarrow> nat \<Rightarrow> nat \<Rightarrow> nat \<Rightarrow> 'd CacheMemory \<Rightarrow> 'd CacheMemory res" where
  "allocate_loop a entry time s i 0 c = Inl Panic"
| "allocate_loop a entry time s i (Suc n) c =
     res_bind (way_ptr s i c) (\<lambda>p.
       if (case p of None \<Rightarrow> True | Some e \<Rightarrow> m_Permission e = NotPresent)
       then
         res_bind (set_way s i
             (Some (entry\<lparr>m_Address := a, m_Permission := Perm_Invalid, m_locked := -1\<rparr>)) c) (\<lambda>c1.
         touch_way s i time (c1\<lparr>m_tag_index := (m_tag_index c1)(a \<mapsto> i)\<rparr>))
       else allocate_loop a entry time s (i + 1) n c)"

definition cache_allocate :: "addr \<Rightarrow> 'd AbstractCacheEntry \<Rightarrow> int \<Rightarrow> 'd CacheMemory \<Rightarrow> 'd CacheMemory res" where
  "cache_allocate a entry time c =
     assert_that (is_line c a)
       (res_bind (isTagPresent a c) (\<lambda>present.
        assert_that (\<not> present)
       (res_bind (cacheAvail a c) (\<lambda>avail.
        assert_that avail
       (res_bind (addressToCacheSet a c) (\<lambda>s.
        allocate_loop a entry time s 0 (m_cache_assoc c) c))))))"

definition cache_deallocate :: "addr \<Rightarrow> 'd CacheMemory \<Rightarrow> 'd CacheMemory res" where
  "cache_deallocate a c =
     assert_that (is_line c a)
       (res_bind (isTagPresent a c) (\<lambda>present.
        assert_that present
       (res_bind (addressToCacheSet a c) (\<lambda>s.
        res_bind (findTagInSet s a c) (\<lambda>loc.
        case loc of
          None \<Rightarrow> Inr c
        | Some w \<Rightarrow>
            res_bind (set_way s w None c) (\<lambda>c1.
            Inr (c1\<lparr>m_tag_index := (m_tag_index c1)(a := None)\<rparr>)))))))"

definition cacheProbe :: "addr \<Rightarrow> 'd CacheMemory \<Rightarrow> addr res" where
  "cacheProbe a c =
     assert_that (is_line c a)
       (res_bind (cacheAvail a c) (\<lambda>avail.
        assert_that (\<not> avail)
       (res_bind (addressToCacheSet a c) (\<lambda>s.
        res_bind (policy_getVictim s (m_replacementPolicy c)) (\<lambda>w.
        res_bind (way_entry s w c) (\<lambda>e.
        Inr (m_Address e)))))))"

definition cache_lookup :: "addr \<Rightarrow> 'd CacheMemory \<Rightarrow> 'd AbstractCacheEntry option res" where
  "cache_lookup a c =
     assert_that (is_line c a)
       (res_bind (addressToCacheSet a c) (\<lambda>s.
        res_bind (findTagInSet s a c) (\<lambda>loc.
        case loc of
          None \<Rightarrow> Inr None
        | Some w \<Rightarrow> way_ptr s w c)))"

definition setMRU :: "addr \<Rightarrow> int \<Rightarrow> 'd CacheMemory \<Rightarrow> 'd CacheMemory res" where
  "setMRU a time c =
     res_bind (addressToCacheSet a c) (\<lambda>s.
     res_bind (findTagInSet s a c) (\<lambda>loc.
     case loc of None \<Rightarrow> Inr c | Some w \<Rightarrow> touch_way s w time c))"

text \<open>
  An update of the entry an address has: \<open>setLocked\<close> and \<open>clearLocked\<close>, and the writes of a
  controller through the pointer that \<open>lookup\<close> gave it.
\<close>

definition update_entry ::
  "addr \<Rightarrow> ('d AbstractCacheEntry \<Rightarrow> 'd AbstractCacheEntry) \<Rightarrow> 'd CacheMemory \<Rightarrow> 'd CacheMemory res" where
  "update_entry a f c =
     assert_that (is_line c a)
       (res_bind (addressToCacheSet a c) (\<lambda>s.
        res_bind (findTagInSet s a c) (\<lambda>loc.
        assert_that (loc \<noteq> None)
       (res_bind (way_entry s (the loc) c) (\<lambda>e. set_way s (the loc) (Some (f e)) c)))))"

definition setLocked :: "addr \<Rightarrow> int \<Rightarrow> 'd CacheMemory \<Rightarrow> 'd CacheMemory res" where
  "setLocked a context c = update_entry a (\<lambda>e. e\<lparr>m_locked := context\<rparr>) c"

definition clearLocked :: "addr \<Rightarrow> 'd CacheMemory \<Rightarrow> 'd CacheMemory res" where
  "clearLocked a c = update_entry a (\<lambda>e. e\<lparr>m_locked := -1\<rparr>) c"

definition isLocked :: "addr \<Rightarrow> int \<Rightarrow> 'd CacheMemory \<Rightarrow> bool res" where
  "isLocked a context c =
     assert_that (is_line c a)
       (res_bind (addressToCacheSet a c) (\<lambda>s.
        res_bind (findTagInSet s a c) (\<lambda>loc.
        assert_that (loc \<noteq> None)
       (res_bind (way_entry s (the loc) c) (\<lambda>e. Inr (m_locked e = context))))))"

definition set_permission :: "addr \<Rightarrow> AccessPermission \<Rightarrow> 'd CacheMemory \<Rightarrow> 'd CacheMemory res" where
  "set_permission a perm c = update_entry a (changePermission perm) c"

definition write_block :: "addr \<Rightarrow> 'd \<Rightarrow> 'd CacheMemory \<Rightarrow> 'd CacheMemory res" where
  "write_block a d c = update_entry a (\<lambda>e. e\<lparr>m_DataBlk := d\<rparr>) c"

text \<open>
  \<open>recordCacheContents\<close>: the trace records of a warm-up checkpoint, set by set and way by way, as
  address, request, time of last access and data.
\<close>

definition record_way :: "'d CacheMemory \<Rightarrow> nat \<Rightarrow> nat \<Rightarrow> (addr \<times> RubyRequestType \<times> int \<times> 'd) list res" where
  "record_way c i j =
     res_bind (way_ptr i j c) (\<lambda>p.
       case p of
         None \<Rightarrow> Inr []
       | Some e \<Rightarrow>
           let request_type = (if m_Permission e = Read_Only
                 then (if m_is_instruction_only_cache c then IFETCH else LD)
                 else if m_Permission e = Read_Write then ST else RNULL)
           in if request_type \<noteq> RNULL
              then res_bind (policy_getLastAccess i j (m_replacementPolicy c)) (\<lambda>t.
                     Inr [(m_Address e, request_type, t, m_DataBlk e)])
              else Inr [])"

fun record_list :: "'d CacheMemory \<Rightarrow> (nat \<times> nat) list \<Rightarrow> (addr \<times> RubyRequestType \<times> int \<times> 'd) list res" where
  "record_list c [] = Inr []"
| "record_list c ((i, j) # ps) =
     res_bind (record_way c i j) (\<lambda>xs. res_bind (record_list c ps) (\<lambda>ys. Inr (xs @ ys)))"

definition recordCacheContents :: "'d CacheMemory \<Rightarrow> (addr \<times> RubyRequestType \<times> int \<times> 'd) list res" where
  "recordCacheContents c =
     record_list c (concat (map (\<lambda>i. map (Pair i) [0..<m_cache_assoc c]) [0..<m_cache_num_sets c]))"

end
