(* ===== verification/Ruby_Replacement_Laws.thy ===== *)
theory Ruby_Replacement_Laws
  imports Ruby_Replacement
begin

text \<open>
  The laws of the replacement policies: the contract a cache relies on (a locale, with both policies
  and their dispatch as instances), LRU as the first way with the least time, and the pseudo-LRU tree:
  which nodes a touch sets, which way the walk finds, and how long a touched way is protected.
\<close>

section \<open>The contract of a replacement policy\<close>

text \<open>A sequence of touches of ways of one set.\<close>

fun touch_all :: "(nat \<Rightarrow> nat \<Rightarrow> int \<Rightarrow> 'p \<Rightarrow> 'p res) \<Rightarrow> nat \<Rightarrow> (nat \<times> int) list \<Rightarrow> 'p \<Rightarrow> 'p res" where
  "touch_all touch s [] p = Inr p"
| "touch_all touch s ((w, t) # ws) p = res_bind (touch s w t p) (touch_all touch s ws)"

locale replacement_policy =
  fixes touch :: "nat \<Rightarrow> nat \<Rightarrow> int \<Rightarrow> 'p \<Rightarrow> 'p res"
    and victim :: "nat \<Rightarrow> 'p \<Rightarrow> nat res"
    and good :: "nat \<Rightarrow> nat \<Rightarrow> 'p \<Rightarrow> bool"
  assumes touch_in: "good n a p \<Longrightarrow> s < n \<Longrightarrow> w < a \<Longrightarrow> \<exists>p'. touch s w t p = Inr p' \<and> good n a p'"
    and touch_out: "good n a p \<Longrightarrow> \<not> (s < n \<and> w < a) \<Longrightarrow> touch s w t p = Inl AssertFailed"
    and victim_in: "good n a p \<Longrightarrow> s < n \<Longrightarrow> \<exists>v < a. victim s p = Inr v"
begin

lemma touch_iff:
  assumes "good n a p"
  shows "is_ok (touch s w t p) \<longleftrightarrow> s < n \<and> w < a"
  using touch_in [OF assms, of s w t] touch_out [OF assms, of s w t] by (cases "s < n \<and> w < a") (auto simp: is_ok_iff)

lemma touch_good:
  assumes "good n a p" and "touch s w t p = Inr p'"
  shows "good n a p'"
proof -
  have "s < n \<and> w < a" using touch_iff [OF assms(1), of s w t] assms(2) by simp
  then show ?thesis using touch_in [OF assms(1), of s w t] assms(2) by auto
qed

lemma touch_all_in:
  assumes "good n a p" and "s < n" and "\<forall>(w, t) \<in> set ws. w < a"
  shows "\<exists>p'. touch_all touch s ws p = Inr p' \<and> good n a p' \<and> (\<exists>v < a. victim s p' = Inr v)"
  using assms
proof (induction ws arbitrary: p)
  case Nil
  then show ?case using victim_in by simp
next
  case (Cons x ws)
  obtain w t where x: "x = (w, t)" by (cases x)
  then obtain p1 where "touch s w t p = Inr p1" "good n a p1"
    using touch_in [OF Cons.prems(1,2), of w t] Cons.prems(3) by auto
  then show ?case using Cons.IH [of p1] Cons.prems x by simp
qed

end

section \<open>True LRU\<close>

definition rows_ok :: "nat \<Rightarrow> nat \<Rightarrow> 'a ReplacementPolicy_scheme \<Rightarrow> bool" where
  "rows_ok n a r \<longleftrightarrow> m_num_sets r = n \<and> m_assoc r = a \<and> 0 < a \<and> length (m_last_ref r) = n
     \<and> (\<forall>row \<in> set (m_last_ref r). length row = a)"

lemma rows_ok_nth: "rows_ok n a r \<Longrightarrow> s < n \<Longrightarrow> length (m_last_ref r ! s) = a"
  by (auto simp: rows_ok_def)

lemma set_last_ref_ok:
  assumes "rows_ok n a r" "s < n" "w < a"
  shows "set_last_ref s w t r = Inr (r\<lparr>m_last_ref := (m_last_ref r)[s := (m_last_ref r ! s)[w := t]]\<rparr>)"
    and "rows_ok n a (r\<lparr>m_last_ref := (m_last_ref r)[s := (m_last_ref r ! s)[w := t]]\<rparr>)"
  using assms rows_ok_nth [OF assms(1,2)]
  by (auto simp: set_last_ref_def rows_ok_def dest!: set_update_subset_insert [THEN subsetD])

lemma rows_ok_new: "0 < a \<Longrightarrow> rows_ok n a (newReplacementPolicy n a)"
  by (auto simp: rows_ok_def newReplacementPolicy_def)

text \<open>The loop finds the first way with the least time.\<close>

definition first_least :: "int list \<Rightarrow> nat \<Rightarrow> bool" where
  "first_least row v \<longleftrightarrow> v < length row \<and> (\<forall>j < length row. row ! v \<le> row ! j) \<and> (\<forall>j < v. row ! v < row ! j)"

lemma lru_victim_loop_first_least:
  assumes "k < length row" and "i \<le> length row" and "k \<le> i"
    and "\<forall>j < i. row ! k \<le> row ! j" and "\<forall>j < k. row ! k < row ! j"
  shows "\<exists>v. lru_victim_loop row (length row) i k (row ! k) = Inr v \<and> first_least row v"
  using assms
proof (induction "length row - i" arbitrary: i k)
  case 0
  then show ?case by (auto simp: lru_victim_loop.simps [of row] first_least_def)
next
  case (Suc n)
  then have i: "i < length row" by simp
  show ?case
  proof (cases "row ! i < row ! k")
    case True
    have "\<exists>v. lru_victim_loop row (length row) (i + 1) i (row ! i) = Inr v \<and> first_least row v"
    proof (rule Suc.hyps(1))
      show "\<forall>j < i + 1. row ! i \<le> row ! j" using True Suc.prems(4) by (force simp: less_Suc_eq)
      show "\<forall>j < i. row ! i < row ! j" using True Suc.prems(4) by fastforce
    qed (use Suc.hyps(2) i in auto)
    then show ?thesis using True i by (subst lru_victim_loop.simps) simp
  next
    case False
    have "\<exists>v. lru_victim_loop row (length row) (i + 1) k (row ! k) = Inr v \<and> first_least row v"
    proof (rule Suc.hyps(1))
      show "\<forall>j < i + 1. row ! k \<le> row ! j" using False Suc.prems(4) by (auto simp: less_Suc_eq)
    qed (use Suc i in auto)
    then show ?thesis using False i by (subst lru_victim_loop.simps) simp
  qed
qed

lemma lru_getVictim_first_least:
  assumes "rows_ok n a r" "s < n"
  shows "\<exists>v. lru_getVictim s r = Inr v \<and> first_least (m_last_ref r ! s) v"
proof -
  have l: "length (m_last_ref r ! s) = m_assoc r" "0 < m_assoc r" "s < length (m_last_ref r)"
    using assms rows_ok_nth [OF assms] by (auto simp: rows_ok_def)
  then show ?thesis
    using lru_victim_loop_first_least [of 0 "m_last_ref r ! s" 0] by (simp add: lru_getVictim_def)
qed

lemma lru_touch_ok:
  assumes "rows_ok n a r" "s < n" "w < a"
  shows "lru_touch s w t r = Inr (r\<lparr>m_last_ref := (m_last_ref r)[s := (m_last_ref r ! s)[w := t]]\<rparr>)"
    and "rows_ok n a (r\<lparr>m_last_ref := (m_last_ref r)[s := (m_last_ref r ! s)[w := t]]\<rparr>)"
  using set_last_ref_ok [OF assms] assms by (auto simp: lru_touch_def rows_ok_def)

interpretation lru: replacement_policy lru_touch lru_getVictim rows_ok
proof
  fix n a s w t and p :: ReplacementPolicy
  show "rows_ok n a p \<Longrightarrow> s < n \<Longrightarrow> w < a \<Longrightarrow> \<exists>p'. lru_touch s w t p = Inr p' \<and> rows_ok n a p'"
    using lru_touch_ok by blast
  show "rows_ok n a p \<Longrightarrow> \<not> (s < n \<and> w < a) \<Longrightarrow> lru_touch s w t p = Inl AssertFailed"
    by (auto simp: lru_touch_def rows_ok_def assert_that_def)
  show "rows_ok n a p \<Longrightarrow> s < n \<Longrightarrow> \<exists>v < a. lru_getVictim s p = Inr v"
    using lru_getVictim_first_least [of n a p s] rows_ok_nth [of n a p s] by (auto simp: first_least_def)
qed

section \<open>The pseudo-LRU tree\<close>

text \<open>
  In a tree with \<open>L\<close> levels the path to way \<open>w\<close> has one node at every height \<open>k < L\<close>; its direction
  there is bit \<open>k\<close> of the way.  \<open>pnode\<close> is the index of that node as the code computes it.
\<close>

definition pnode :: "nat \<Rightarrow> nat \<Rightarrow> nat \<Rightarrow> nat" where
  "pnode L w k = 2 ^ (L - Suc k) - 1 + w div 2 ^ Suc k"

lemma div_pow_less: "w < 2 ^ L \<Longrightarrow> k \<le> L \<Longrightarrow> w div 2 ^ k < (2 :: nat) ^ (L - k)"
  by (simp add: less_mult_imp_div_less flip: power_add)

lemma pnode_bounds:
  assumes "w < 2 ^ L" "k < L"
  shows "2 ^ (L - Suc k) \<le> pnode L w k + 1" "pnode L w k + 1 < 2 ^ (L - k)"
proof -
  have "w div 2 ^ Suc k < 2 ^ (L - Suc k)" using assms by (intro div_pow_less) auto
  moreover have "(2 :: nat) ^ (L - k) = 2 * 2 ^ (L - Suc k)"
    using assms(2) by (simp add: Suc_diff_Suc flip: power_Suc)
  ultimately show "2 ^ (L - Suc k) \<le> pnode L w k + 1" "pnode L w k + 1 < 2 ^ (L - k)"
    by (auto simp: pnode_def)
qed

lemma pnode_eqD:
  assumes "w < 2 ^ L" "k < L" "x < 2 ^ L" "j < L" "pnode L w k = pnode L x j"
  shows "k = j" and "w div 2 ^ Suc k = x div 2 ^ Suc k"
proof -
  have "(2 :: nat) ^ (L - Suc k) < 2 ^ (L - j)"
    using pnode_bounds(1) [OF assms(1,2)] pnode_bounds(2) [OF assms(3,4)] assms(5) by linarith
  then have 1: "L - Suc k < L - j" by (rule power_less_imp_less_exp [rotated]) simp
  have "(2 :: nat) ^ (L - Suc j) < 2 ^ (L - k)"
    using pnode_bounds(2) [OF assms(1,2)] pnode_bounds(1) [OF assms(3,4)] assms(5) by linarith
  then have 2: "L - Suc j < L - k" by (rule power_less_imp_less_exp [rotated]) simp
  from 1 2 show kj: "k = j" using assms(2,4) by linarith
  show "w div 2 ^ Suc k = x div 2 ^ Suc k"
    using assms(5) unfolding kj pnode_def by (rule add_left_imp_eq)
qed

lemma pnode_root: "0 < L \<Longrightarrow> w < 2 ^ L \<Longrightarrow> pnode L w (L - 1) = 0"
  by (simp add: pnode_def)

lemma node_arith:
  "u = 2 * v + (if c then 1 else 0) \<Longrightarrow> 0 < p \<Longrightarrow>
   2 * p - 1 + u = 2 * (p - 1 + v) + (if c then 2 else 1)" for u v p :: nat
  by (cases c) auto

lemma pnode_child:
  assumes "Suc k < L"
  shows "pnode L w k = 2 * pnode L w (Suc k) + (if odd (w div 2 ^ Suc k) then 2 else 1)"
proof -
  have e: "(2 :: nat) ^ (L - Suc k) = 2 * 2 ^ (L - Suc (Suc k))"
    using assms by (simp add: Suc_diff_Suc flip: power_Suc)
  have "w div 2 ^ Suc k = 2 * (w div 2 ^ Suc (Suc k)) + (if odd (w div 2 ^ Suc k) then 1 else 0)"
  proof -
    have "w div 2 ^ Suc (Suc k) = w div 2 ^ Suc k div 2" 
      by (subst power_Suc2) (rule div_mult2_eq)
    then show ?thesis using odd_two_times_div_two_succ [of "w div 2 ^ Suc k"] by auto
  qed
  moreover have "0 < (2 :: nat) ^ (L - Suc (Suc k))" by simp
  ultimately show ?thesis unfolding pnode_def e by (rule node_arith)
qed

text \<open>A touch sets the nodes of the way's path to the way's own directions and no other node.\<close>

lemma touch_loop_bits:
  assumes "w < 2 ^ L" "L \<le> 6" "i \<le> L" and "\<And>k. i = Suc k \<Longrightarrow> t = pnode L w k"
  shows "(\<forall>k < i. bit (touch_loop w i t T) (pnode L w k) = odd (w div 2 ^ k)) \<and>
    (\<forall>n. (\<forall>k < i. n \<noteq> pnode L w k) \<longrightarrow> bit (touch_loop w i t T) n = bit T n)"
  using assms
proof (induction i arbitrary: t T)
  case (Suc i)
  have t: "t = pnode L w i" using Suc.prems(4) [of i] Suc.prems by simp
  define b where "b = odd (w div 2 ^ i)"
  define T' where "T' = (if b then T OR push_bit t 1 else T AND NOT (push_bit t 1))"
  have step: "touch_loop w (Suc i) t T = touch_loop w i (if b then 2 * t + 2 else 2 * t + 1) T'"
    by (simp add: Let_def b_def T'_def)
  have t64: "t < 64"
  proof -
    have "t + 1 < 2 ^ (L - i)" using pnode_bounds(2) [of w L i] Suc.prems by (simp add: t)
    also have "(2 :: nat) ^ (L - i) \<le> 2 ^ 6" using Suc.prems by (intro power_increasing) auto
    finally show ?thesis by simp
  qed
  have T': "bit T' n = (if n = t then b else bit T n)" for n
    using t64 by (auto simp: T'_def bit_simps dest: bit_imp_le_length)
  have child: "(if b then 2 * t + 2 else 2 * t + 1) = pnode L w j" if "i = Suc j" for j
    using pnode_child [of j L w] Suc.prems that by (simp add: t b_def)
  have fresh: "pnode L w i \<noteq> pnode L w k" if "k < i" for k
    using pnode_eqD(1) [of w L i w k] that Suc.prems by auto
  note IH = Suc.IH [OF Suc.prems(1,2) Suc_leD [OF Suc.prems(3)] child, where T = T', folded step]
  have root: "bit (touch_loop w (Suc i) t T) (pnode L w i) = b"
    using IH [THEN conjunct2, rule_format, of "pnode L w i"] fresh T' by (simp add: t)
  show ?case
  proof (intro conjI allI impI)
    fix k assume "k < Suc i"
    then show "bit (touch_loop w (Suc i) t T) (pnode L w k) = odd (w div 2 ^ k)"
      using IH root by (cases "k = i") (auto simp: b_def)
  next
    fix n assume n: "\<forall>k < Suc i. n \<noteq> pnode L w k"
    then have "bit (touch_loop w (Suc i) t T) n = bit T' n" using IH by simp
    then show "bit (touch_loop w (Suc i) t T) n = bit T n" using n T' by (simp add: t)
  qed
qed simp

definition touched :: "nat \<Rightarrow> nat \<Rightarrow> u64 \<Rightarrow> u64" where
  "touched L w T = touch_loop w L 0 T"

lemma touched_bits:
  assumes "w < 2 ^ L" "L \<le> 6"
  shows "k < L \<Longrightarrow> bit (touched L w T) (pnode L w k) = odd (w div 2 ^ k)"
    and "(\<And>k. k < L \<Longrightarrow> n \<noteq> pnode L w k) \<Longrightarrow> bit (touched L w T) n = bit T n"
proof -
  have "0 = pnode L w k" if "L = Suc k" for k
    using pnode_root [of L w] assms(1) that by simp
  from touch_loop_bits [OF assms order.refl this, where T = T]
  show "k < L \<Longrightarrow> bit (touched L w T) (pnode L w k) = odd (w div 2 ^ k)"
    and "(\<And>k. k < L \<Longrightarrow> n \<noteq> pnode L w k) \<Longrightarrow> bit (touched L w T) n = bit T n"
    by (auto simp: touched_def)
qed

text \<open>The walk of \<open>getVictim\<close> goes against the direction of every node it meets.\<close>

definition away_from :: "nat \<Rightarrow> nat \<Rightarrow> u64 \<Rightarrow> nat set" where
  "away_from L w T = {k. k < L \<and> bit T (pnode L w k) = odd (w div 2 ^ k)}"

lemma odd_unat_drop_bit: "odd (unat (drop_bit t T)) = bit T t" for T :: u64
  by (simp add: bit_word_unat unat_drop_bit_div)

lemma victim_loop_walk:
  assumes "i \<le> L" and "index < 2 ^ L" and "2 ^ (L - i) dvd index"
    and "t = 2 ^ i - 1 + index div 2 ^ (L - i)"
  shows "\<exists>v. victim_loop (2 ^ L) L T i index t = v \<and> v < 2 ^ L \<and> v div 2 ^ (L - i) = index div 2 ^ (L - i)
    \<and> (\<forall>k < L - i. bit T (pnode L v k) \<noteq> odd (v div 2 ^ k))"
  using assms
proof (induction "L - i" arbitrary: i index t)
  case 0
  then show ?case using victim_loop.simps [of "2 ^ L" L T i index t] by simp
next
  case (Suc m)
  then have i: "i < L" and m: "L - Suc i = m" "L - i = Suc m" by simp_all
  define q where "q = index div 2 ^ Suc m"
  have index: "index = q * 2 ^ Suc m" using Suc.prems(3) m by (simp add: q_def)
  define b where "b = (if bit T t then 0 else 1 :: nat)"
  define index' where "index' = (2 * q + b) * 2 ^ m"
  have L: "(2 :: nat) ^ L = 2 ^ i * 2 ^ Suc m" using i m(2) by (metis le_add_diff_inverse less_imp_le power_add)
  have q: "q < 2 ^ i" using Suc.prems(2) index L by simp
  have e: "(2 :: nat) ^ L div 2 ^ Suc i = 2 ^ m"
  proof -
    have "(2 :: nat) ^ L = 2 ^ Suc i * 2 ^ m" using L by simp
    then show ?thesis by simp
  qed
  have step: "victim_loop (2 ^ L) L T i index t = victim_loop (2 ^ L) L T (Suc i) index' (2 * t + 1 + b)"
    using i e by (subst victim_loop.simps) (simp add: odd_unat_drop_bit index'_def b_def index algebra_simps)
  have t': "2 * t + 1 + b = 2 ^ Suc i - 1 + index' div 2 ^ (L - Suc i)"
    using Suc.prems(4) node_arith [of "2 * q + b" q "b = 1" "2 ^ i"] m
    by (auto simp: index'_def index b_def)
  have "index' < 2 ^ L"
  proof -
    have "2 * q + b < 2 * 2 ^ i" using q by (simp add: b_def)
    then have "(2 * q + b) * 2 ^ m < (2 * 2 ^ i) * 2 ^ m" by (rule mult_strict_right_mono) simp
    then show ?thesis by (simp add: L index'_def)
  qed
  from Suc.hyps(1) [OF _ _ this _ t'] i m obtain v where v: "victim_loop (2 ^ L) L T (Suc i) index' (2 * t + 1 + b) = v"
    "v < 2 ^ L" "v div 2 ^ m = 2 * q + b" "\<forall>k < m. bit T (pnode L v k) \<noteq> odd (v div 2 ^ k)"
    by (auto simp: index'_def)
  have vq: "v div 2 ^ Suc m = q"
  proof -
    have "v div 2 ^ Suc m = v div 2 ^ m div 2" by (subst power_Suc2) (rule div_mult2_eq)
    then show ?thesis by (simp add: v(3) b_def)
  qed
  have "bit T (pnode L v m) \<noteq> odd (v div 2 ^ m)"
  proof -
    have "L - Suc m = i" using i m by linarith
    then have "pnode L v m = t" using Suc.prems(4) m i vq by (simp add: pnode_def q_def)
    then show ?thesis using v(3) by (simp add: b_def)
  qed
  with v(4) have "\<forall>k < Suc m. bit T (pnode L v k) \<noteq> odd (v div 2 ^ k)" by (simp add: less_Suc_eq)
  then show ?case using v(1,2) vq m by (simp add: step q_def)
qed

definition tree_victim :: "nat \<Rightarrow> u64 \<Rightarrow> nat" where
  "tree_victim L T = victim_loop (2 ^ L) L T 0 0 0"

lemma tree_victim_walk:
  "tree_victim L T < 2 ^ L" "away_from L (tree_victim L T) T = {}"
  using victim_loop_walk [of 0 L 0 0 T] by (auto simp: tree_victim_def away_from_def)

text \<open>A touch of a way turns all its nodes away from it, and at most one node of any other way towards that.\<close>

lemma away_from_touched_self:
  assumes "w < 2 ^ L" "L \<le> 6"
  shows "away_from L w (touched L w T) = {..<L}"
  using touched_bits(1) [OF assms] by (auto simp: away_from_def)

lemma away_from_touched_other:
  assumes w: "w < 2 ^ L" and x: "x < 2 ^ L" and L: "L \<le> 6"
  shows "\<exists>d. away_from L w T - {d} \<subseteq> away_from L w (touched L x T)"
proof -
  define P where "P = (\<lambda>k. w div 2 ^ Suc k = x div 2 ^ Suc k)"
  define d where "d = (LEAST k. P k)"
  have up: "P k" if "P j" "j \<le> k" for j k
  proof -
    have "y div 2 ^ Suc k = y div 2 ^ Suc j div 2 ^ (k - j)" for y :: nat
    proof -
      have "(2 :: nat) ^ Suc k = 2 ^ Suc j * 2 ^ (k - j)" using that(2) by (simp flip: power_add)
      then show ?thesis by (simp only: div_mult2_eq)
    qed
    then show ?thesis using that(1) by (simp add: P_def)
  qed
  have "k \<in> away_from L w (touched L x T)" if k: "k \<in> away_from L w T" "k \<noteq> d" for k
  proof (cases "d < k")
    case True
    have "P L" using w x by (simp add: P_def)
    then have "P d" unfolding d_def by (rule LeastI)
    then have "P k" "P (k - 1)" using up [of d k] up [of d "k - 1"] True by simp_all
    moreover have "Suc (k - 1) = k" using True by simp
    ultimately have "P k" "w div 2 ^ k = x div 2 ^ k" unfolding P_def by simp_all
    then have "pnode L w k = pnode L x k" by (simp add: pnode_def P_def)
    then show ?thesis
      using touched_bits(1) [OF x L, of k T] k(1) \<open>w div 2 ^ k = x div 2 ^ k\<close> by (simp add: away_from_def)
  next
    case False
    then have "\<not> P k" using k(2) not_less_Least [of k P] by (auto simp: d_def)
    then have "pnode L w k \<noteq> pnode L x j" if "j < L" for j
      using pnode_eqD [OF w _ x that, of k] k(1) by (auto simp: P_def away_from_def)
    from touched_bits(2) [OF x L this, of T] k(1) show ?thesis by (simp add: away_from_def)
  qed
  then show ?thesis by blast
qed

lemma card_away_touched:
  assumes "w < 2 ^ L" "x < 2 ^ L" "L \<le> 6"
  shows "card (away_from L w T) \<le> card (away_from L w (touched L x T)) + 1"
proof -
  obtain d where d: "away_from L w T - {d} \<subseteq> away_from L w (touched L x T)"
    using away_from_touched_other [OF assms] by blast
  have fin: "finite (away_from L w S)" for S by (simp add: away_from_def)
  have "card (away_from L w T) \<le> card (away_from L w T - {d}) + 1"
    using fin [of T] by (cases "d \<in> away_from L w T") (auto simp: card_Diff_singleton_if)
  also have "card (away_from L w T - {d}) \<le> card (away_from L w (touched L x T))"
    using d fin by (rule card_mono [rotated])
  finally show ?thesis by simp
qed

lemma recent_not_victim:
  assumes "\<forall>w \<in> set ws. w < 2 ^ L" and "length ws \<le> L" and "L \<le> 6"
  shows "tree_victim L (fold (touched L) ws T) \<notin> set ws"
proof
  define v where "v = tree_victim L (fold (touched L) ws T)"
  assume "tree_victim L (fold (touched L) ws T) \<in> set ws"
  then obtain xs ys where ws: "ws = xs @ v # ys" by (auto simp: v_def dest: split_list)
  have keep: "card (away_from L v S) \<le> card (away_from L v (fold (touched L) zs S)) + length zs"
    if "\<forall>w \<in> set zs. w < 2 ^ L" for zs S
    using that
  proof (induction zs arbitrary: S)
    case (Cons z zs)
    have "card (away_from L v S) \<le> card (away_from L v (touched L z S)) + 1"
      using card_away_touched [of v L z S] Cons.prems assms(1,3) ws by simp
    also have "card (away_from L v (touched L z S)) \<le> card (away_from L v (fold (touched L) zs (touched L z S))) + length zs"
      using Cons by simp
    finally show ?case by simp
  qed simp
  have "card (away_from L v (touched L v (fold (touched L) xs T))) = L"
    using away_from_touched_self [of v L] assms ws by simp
  then have "L \<le> card (away_from L v (fold (touched L) ws T)) + length ys"
    using keep [of ys "touched L v (fold (touched L) xs T)"] assms(1) ws by simp
  moreover have "away_from L v (fold (touched L) ws T) = {}"
    unfolding v_def by (rule tree_victim_walk)
  ultimately show False using assms(2) ws by simp
qed

section \<open>The pseudo-LRU policy\<close>

definition plru_ok :: "nat \<Rightarrow> nat \<Rightarrow> PseudoLRU \<Rightarrow> bool" where
  "plru_ok n a r \<longleftrightarrow> rows_ok n a r \<and> 1 < a \<and> 0 < m_num_levels r \<and> m_num_levels r \<le> 6
     \<and> m_effective_assoc r = 2 ^ m_num_levels r
     \<and> 2 ^ (m_num_levels r - 1) < a \<and> a \<le> 2 ^ m_num_levels r \<and> length (m_trees r) = n"

lemma round_up_loop_pow2:
  assumes "2 ^ j div 2 < a"
  shows "\<exists>L \<ge> j. round_up_loop a (2 ^ j) = 2 ^ L \<and> a \<le> 2 ^ L \<and> 2 ^ L div 2 < a"
  using assms
proof (induction "a - 2 ^ j" arbitrary: j rule: less_induct)
  case less
  show ?case
  proof (cases "2 ^ j < a")
    case True
    have "\<exists>L \<ge> Suc j. round_up_loop a (2 ^ Suc j) = 2 ^ L \<and> a \<le> 2 ^ L \<and> 2 ^ L div 2 < a"
      using True by (intro less.hyps) (auto intro: diff_less_mono2)
    then show ?thesis using True by (auto simp: round_up_loop.simps [of a "2 ^ j"] intro: Suc_leD)
  next
    case False
    then show ?thesis using less.prems by (auto simp: round_up_loop.simps [of a "2 ^ j"])
  qed
qed

lemma levels_loop_pow2: "levels_loop (2 ^ L) n = L + n"
  by (induction L arbitrary: n) (simp_all add: levels_loop.simps [of 1] levels_loop.simps [of "2 * 2 ^ k" for k] levels_loop.simps [of "Suc 0"])

lemma newPseudoLRU_ok:
  assumes "0 < n" "1 < a" "a \<le> 32"
  shows "\<exists>r. newPseudoLRU n a = Inr r \<and> plru_ok n a r \<and> m_trees r = replicate n 0"
proof -
  obtain L where L: "round_up_loop a 1 = 2 ^ L" "a \<le> 2 ^ L" "2 ^ L div 2 < a"
    using round_up_loop_pow2 [of 0 a] assms by auto
  have L0: "0 < L" using L(2) assms(2) by (cases L) auto
  then have L': "2 ^ (L - 1) < a" using L(3) by (cases L) auto
  have "L - 1 < 5"
  proof (rule power_less_imp_less_exp [of "2 :: nat"])
    show "(2 :: nat) ^ (L - 1) < 2 ^ 5" using L' assms(3) by simp
  qed simp
  then have "L \<le> 5" by simp
  moreover have "levels_loop (2 ^ L) 0 = L" by (simp add: levels_loop_pow2)
  ultimately show ?thesis
    using assms L L0 L' rows_ok_new [of a n]
    by (simp add: newPseudoLRU_def plru_ok_def rows_ok_def ReplacementPolicy.defs newReplacementPolicy_def)
qed

lemma newPseudoLRU_iff: "is_ok (newPseudoLRU n a) \<longleftrightarrow> 0 < n \<and> 1 < a \<and> a \<le> 32"
  using newPseudoLRU_ok [of n a] by (cases "0 < n \<and> 1 < a \<and> a \<le> 32") (auto simp: newPseudoLRU_def)

definition plru_touched :: "nat \<Rightarrow> nat \<Rightarrow> int \<Rightarrow> PseudoLRU \<Rightarrow> PseudoLRU" where
  "plru_touched s w t r = r\<lparr>m_trees := (m_trees r)[s := touched (m_num_levels r) w (m_trees r ! s)],
     m_last_ref := (m_last_ref r)[s := (m_last_ref r ! s)[w := t]]\<rparr>"

lemma rows_ok_trees [simp]: "rows_ok n a (r\<lparr>m_trees := x\<rparr>) = rows_ok n a r"
  by (simp add: rows_ok_def)

lemma plru_touch_ok:
  assumes "plru_ok n a r" "s < n" "w < a"
  shows "plru_touch s w t r = Inr (plru_touched s w t r)" and "plru_ok n a (plru_touched s w t r)"
proof -
  let ?r = "r\<lparr>m_trees := (m_trees r)[s := touched (m_num_levels r) w (m_trees r ! s)]\<rparr>"
  have "rows_ok n a ?r" using assms(1) by (simp add: plru_ok_def)
  note sl = set_last_ref_ok [OF this assms(2,3), of t]
  show "plru_touch s w t r = Inr (plru_touched s w t r)"
    using sl(1) assms by (simp add: plru_touch_def plru_touched_def plru_ok_def rows_ok_def touched_def)
  show "plru_ok n a (plru_touched s w t r)"
    using sl(2) assms(1) by (simp add: plru_touched_def plru_ok_def)
qed

lemma plru_getVictim_eq:
  assumes "plru_ok n a r" "s < n"
  shows "plru_getVictim s r = Inr (min (a - 1) (tree_victim (m_num_levels r) (m_trees r ! s)))"
  using assms tree_victim_walk(1) [of "m_num_levels r" "m_trees r ! s"]
  by (auto simp: plru_getVictim_def plru_ok_def rows_ok_def tree_victim_def Let_def min_def)

interpretation plru: replacement_policy plru_touch plru_getVictim plru_ok
proof
  fix n a s w t and p :: PseudoLRU
  show "plru_ok n a p \<Longrightarrow> s < n \<Longrightarrow> w < a \<Longrightarrow> \<exists>p'. plru_touch s w t p = Inr p' \<and> plru_ok n a p'"
    using plru_touch_ok by blast
  show "plru_ok n a p \<Longrightarrow> \<not> (s < n \<and> w < a) \<Longrightarrow> plru_touch s w t p = Inl AssertFailed"
    by (auto simp: plru_touch_def plru_ok_def rows_ok_def assert_that_def)
  show "plru_ok n a p \<Longrightarrow> s < n \<Longrightarrow> \<exists>v < a. plru_getVictim s p = Inr v"
    by (simp add: plru_getVictim_eq) (auto simp: plru_ok_def min_def)
qed

definition policy_ok :: "nat \<Rightarrow> nat \<Rightarrow> policy \<Rightarrow> bool" where
  "policy_ok n a p = (case p of PolicyLRU r \<Rightarrow> rows_ok n a r | PolicyPseudoLRU r \<Rightarrow> plru_ok n a r)"

interpretation pol: replacement_policy policy_touch policy_getVictim policy_ok
proof
  fix n a s w t p
  show "policy_ok n a p \<Longrightarrow> s < n \<Longrightarrow> w < a \<Longrightarrow> \<exists>p'. policy_touch s w t p = Inr p' \<and> policy_ok n a p'"
    using lru.touch_in [of n a _ s w t] plru.touch_in [of n a _ s w t]
    by (cases p) (fastforce simp: policy_ok_def policy_touch_def)+
  show "policy_ok n a p \<Longrightarrow> \<not> (s < n \<and> w < a) \<Longrightarrow> policy_touch s w t p = Inl AssertFailed"
    using lru.touch_out [of n a _ s w t] plru.touch_out [of n a _ s w t]
    by (cases p) (auto simp: policy_ok_def policy_touch_def)
  show "policy_ok n a p \<Longrightarrow> s < n \<Longrightarrow> \<exists>v < a. policy_getVictim s p = Inr v"
    using lru.victim_in [of n a _ s] plru.victim_in [of n a _ s]
    by (cases p) (auto simp: policy_ok_def policy_getVictim_def)
qed

text \<open>A run of touches of one set leaves the folded tree there.\<close>

lemma plru_touch_all:
  assumes "plru_ok n a r" "s < n" "\<forall>(w, t) \<in> set ws. w < a" "touch_all plru_touch s ws r = Inr r'"
  shows "plru_ok n a r' \<and> m_num_levels r' = m_num_levels r
    \<and> m_trees r' ! s = fold (touched (m_num_levels r)) (map fst ws) (m_trees r ! s)"
  using assms
proof (induction ws arbitrary: r)
  case (Cons x ws)
  obtain w t where x: "x = (w, t)" by (cases x)
  then have w: "w < a" using Cons.prems(3) by simp
  note ok = plru_touch_ok [OF Cons.prems(1,2) w, of t]
  have "touch_all plru_touch s ws (plru_touched s w t r) = Inr r'"
    using Cons.prems(4) x ok(1) by simp
  from Cons.IH [OF ok(2) Cons.prems(2) _ this] Cons.prems(3) show ?case
    using Cons.prems(1,2) x by (simp add: plru_touched_def plru_ok_def)
qed simp

lemma half_of_way:
  fixes w :: nat
  assumes "0 < L" "w < 2 ^ L"
  shows "odd (w div 2 ^ (L - 1)) \<longleftrightarrow> 2 ^ (L - 1) \<le> w"
proof -
  have e: "(2 :: nat) ^ L = 2 ^ (L - 1) * 2" using assms(1) by (cases L) simp_all
  have "w div 2 ^ (L - 1) < 2" using assms(2) unfolding e by (simp add: less_mult_imp_div_less mult.commute)
  moreover have "w div 2 ^ (L - 1) = 0 \<longleftrightarrow> w < 2 ^ (L - 1)" by (simp add: div_eq_0_iff)
  ultimately show ?thesis by (cases "w div 2 ^ (L - 1)") auto
qed

section \<open>Properties\<close>

text \<open>C38: For every associativity the constructor of the pseudo-LRU policy accepts (2 to 32) and every
  reachable state, the way touched last in a set is never the victim of the set, also when the tree is
  truncated because the associativity is not a power of two.  When it is a power of two with \<open>L\<close> levels,
  the victim is none of the last \<open>L\<close> ways touched in the set.\<close>

theorem plru_protects_recent:
  assumes new: "newPseudoLRU n a = Inr r0" and s: "s < n" and ws: "\<forall>(w, t) \<in> set ws. w < a" "ws \<noteq> []"
  shows "\<exists>r v. touch_all plru_touch s ws r0 = Inr r \<and> plru_getVictim s r = Inr v \<and> v < a
    \<and> v \<noteq> fst (last ws)
    \<and> (a = 2 ^ m_num_levels r0 \<longrightarrow>
        v \<notin> fst ` set (drop (length ws - m_num_levels r0) ws))"
proof -
  define L where "L = m_num_levels r0"
  have "0 < n \<and> 1 < a \<and> a \<le> 32" using newPseudoLRU_iff [of n a] new by simp
  then have ok0: "plru_ok n a r0" using newPseudoLRU_ok [of n a] new by auto
  from plru.touch_all_in [OF ok0 s ws(1)] obtain r v where r: "touch_all plru_touch s ws r0 = Inr r"
    and ok: "plru_ok n a r" and v: "v < a" "plru_getVictim s r = Inr v" by blast
  define T where "T = fold (touched L) (map fst (butlast ws)) (m_trees r0 ! s)"
  define w where "w = fst (last ws)"
  note run = plru_touch_all [OF ok0 s ws(1) r]
  have split: "map fst ws = map fst (butlast ws) @ [w]"
    unfolding w_def using ws(2) by (metis append_butlast_last_id list.map(1,2) map_append)
  have T: "m_num_levels r = L" "m_trees r ! s = touched L w T"
    using run split by (simp_all add: L_def T_def)
  define u where "u = tree_victim L (touched L w T)"
  have veq: "v = min (a - 1) u" using plru_getVictim_eq [OF ok s] v(2) T by (simp add: u_def)
  have wa: "w < a" using ws last_in_set [OF ws(2)] by (fastforce simp: w_def)
  have L: "0 < L" "L \<le> 6" "2 ^ (L - 1) < a" "a \<le> 2 ^ L" using ok0 by (auto simp: plru_ok_def L_def)
  have wL: "w < 2 ^ L" and uL: "u < 2 ^ L" using wa L tree_victim_walk(1) by (auto simp: u_def)
  have "odd (w div 2 ^ (L - 1)) \<noteq> odd (u div 2 ^ (L - 1))"
  proof -
    have "L - 1 \<notin> away_from L u (touched L w T)" using tree_victim_walk(2) unfolding u_def by blast
    then show ?thesis
      using touched_bits(1) [OF wL L(2), of "L - 1" T] L(1) pnode_root [OF L(1) wL] pnode_root [OF L(1) uL]
      by (simp add: away_from_def)
  qed
  then have "v \<noteq> w"
    using half_of_way [OF L(1) wL] half_of_way [OF L(1) uL] L(3) by (auto simp: veq min_def)
  moreover have "v \<notin> fst ` set (drop (length ws - L) ws)" if a: "a = 2 ^ L"
  proof -
    let ?l = "drop (length ws - L) (map fst ws)"
    have "fold (touched L) (take (length ws - L) (map fst ws) @ ?l) (m_trees r0 ! s)
        = fold (touched L) ?l (fold (touched L) (take (length ws - L) (map fst ws)) (m_trees r0 ! s))"
      by (simp only: fold_append comp_apply)
    then have "touched L w T = fold (touched L) ?l (fold (touched L) (take (length ws - L) (map fst ws)) (m_trees r0 ! s))"
      using run T(2) unfolding append_take_drop_id L_def by simp
    moreover have "\<forall>x \<in> set (map fst ws). x < 2 ^ L" using ws(1) a by fastforce
    then have "\<forall>x \<in> set ?l. x < 2 ^ L" by (blast dest: in_set_dropD)
    ultimately have "u \<notin> set ?l" unfolding u_def using recent_not_victim [of ?l L] L(2) by simp
    moreover have "v = u" using uL unfolding veq a by linarith
    ultimately show ?thesis by (simp add: drop_map)
  qed
  ultimately show ?thesis using r v by (auto simp: w_def L_def)
qed

text \<open>The victim of the LRU policy is the first way among those with the least time of last
  reference, in every state the policy can reach.\<close>

theorem lru_victim_is_oldest:
  assumes "0 < a" and "s < n" and "\<forall>(w, t) \<in> set ws. w < a"
  shows "\<exists>r v. touch_all lru_touch s ws (newReplacementPolicy n a) = Inr r \<and> lru_getVictim s r = Inr v
    \<and> (\<forall>j < a. getLastAccess s v r = getLastAccess s j r \<or>
         (\<exists>tv tj. getLastAccess s v r = Inr tv \<and> getLastAccess s j r = Inr tj \<and> tv < tj))
    \<and> (\<forall>j < v. getLastAccess s v r \<noteq> getLastAccess s j r)"
proof -
  obtain r where r: "touch_all lru_touch s ws (newReplacementPolicy n a) = Inr r" and ok: "rows_ok n a r"
    using lru.touch_all_in [OF rows_ok_new [OF assms(1)] assms(2,3)] by blast
  obtain v where v: "lru_getVictim s r = Inr v" "first_least (m_last_ref r ! s) v"
    using lru_getVictim_first_least [OF ok assms(2)] by blast
  have "getLastAccess s j r = Inr (m_last_ref r ! s ! j)" if "j < a" for j
    using that ok assms(2) rows_ok_nth [OF ok assms(2)] by (simp add: getLastAccess_def rows_ok_def)
  then show ?thesis using r v rows_ok_nth [OF ok assms(2)] by (fastforce simp: first_least_def)
qed

lemma plru_protects_recent_witness:
  "\<exists>r v. touch_all plru_touch 0 [(3, 1), (1, 2)] (projr (newPseudoLRU 2 4)) = Inr r
    \<and> plru_getVictim 0 r = Inr v \<and> v \<noteq> 1 \<and> v \<noteq> 3"
proof -
  have new: "newPseudoLRU 2 4 = Inr (projr (newPseudoLRU 2 4))" by code_simp
  have L: "m_num_levels (projr (newPseudoLRU 2 4)) = 2" by code_simp
  have "\<forall>(w, t) \<in> set [(3, 1), (1, 2 :: int)]. w < (4 :: nat)" by simp
  from plru_protects_recent [OF new _ this, of 0] show ?thesis by (auto simp: L)
qed

lemma lru_victim_is_oldest_witness:
  "\<exists>r v. touch_all lru_touch 1 [(0, 5), (2, 7), (1, 6)] (newReplacementPolicy 2 3) = Inr r
    \<and> lru_getVictim 1 r = Inr v \<and> (\<forall>j < v. getLastAccess 1 v r \<noteq> getLastAccess 1 j r)"
  using lru_victim_is_oldest [of 3 1 2 "[(0, 5), (2, 7), (1, 6)]"] by auto

text \<open>
  A touch at a time that another way already has does not protect the way under LRU: among equal
  times the first way is the victim.
\<close>

lemma lru_same_cycle_victim:
  "touch_all lru_touch 0 [(1, 9), (0, 9)] (newReplacementPolicy 2 2)
     = Inr (ReplacementPolicy.make 2 2 [[9, 9], [0, 0]]) \<and>
   lru_getVictim 0 (ReplacementPolicy.make 2 2 [[9, 9], [0, 0]]) = Inr 0"
  by code_simp

end
