(* ===== verification/Ruby_Cache_Laws.thy ===== *)
theory Ruby_Cache_Laws
  imports Ruby_Cache Ruby_Replacement_Laws
begin

text \<open>
  The laws of the Ruby cache arrays: a well-formed array stands for a map from line addresses to
  entries in which no set holds more lines than the associativity; every operation refines the
  corresponding operation of that map, failures included; the replacement protocol (probe, deallocate,
  allocate) always makes room; and what goes wrong once an entry is made \<open>NotPresent\<close>.
\<close>

section \<open>What an array stands for\<close>

text \<open>The set of an address, as a plain field of bits.\<close>

definition set_of :: "'d CacheMemory \<Rightarrow> addr \<Rightarrow> nat" where
  "set_of c a = unat (take_bit (m_cache_num_set_bits c) (drop_bit (m_start_index_bit c) a))"

definition way_at :: "'d CacheMemory \<Rightarrow> nat \<Rightarrow> nat \<Rightarrow> 'd AbstractCacheEntry option" where
  "way_at c s w = m_cache c ! s ! w"

definition geometry_ok :: "'d CacheMemory \<Rightarrow> bool" where
  "geometry_ok c \<longleftrightarrow> 0 < m_cache_num_set_bits c \<and> m_start_index_bit c + m_cache_num_set_bits c \<le> 64
     \<and> 2 ^ m_cache_num_set_bits c \<le> m_cache_num_sets c \<and> 0 < m_cache_assoc c
     \<and> length (m_cache c) = m_cache_num_sets c \<and> (\<forall>row \<in> set (m_cache c). length row = m_cache_assoc c)
     \<and> policy_ok (m_cache_num_sets c) (m_cache_assoc c) (m_replacementPolicy c)"

text \<open>The tag index and the entries agree: a tag names the way that holds its address and conversely.\<close>

definition tags_ok :: "'d CacheMemory \<Rightarrow> bool" where
  "tags_ok c \<longleftrightarrow>
     (\<forall>a w. m_tag_index c a = Some w \<longrightarrow> is_line c a \<and> w < m_cache_assoc c
        \<and> (\<exists>e. way_at c (set_of c a) w = Some e \<and> m_Address e = a \<and> m_Permission e \<noteq> NotPresent))
     \<and> (\<forall>s < m_cache_num_sets c. \<forall>w < m_cache_assoc c. \<forall>e. way_at c s w = Some e \<longrightarrow>
        set_of c (m_Address e) = s \<and> m_tag_index c (m_Address e) = Some w)"

definition cache_ok :: "'d CacheMemory \<Rightarrow> bool" where
  "cache_ok c \<longleftrightarrow> geometry_ok c \<and> tags_ok c"

text \<open>The array as a map from line addresses to entries.\<close>

definition cache_map :: "'d CacheMemory \<Rightarrow> addr \<rightharpoonup> 'd AbstractCacheEntry" where
  "cache_map c a = (case m_tag_index c a of None \<Rightarrow> None | Some w \<Rightarrow> way_at c (set_of c a) w)"

lemma tags_okD:
  assumes "tags_ok c" "m_tag_index c a = Some w"
  obtains e where "is_line c a" "w < m_cache_assoc c" "way_at c (set_of c a) w = Some e"
    "m_Address e = a" "m_Permission e \<noteq> NotPresent"
  using assms by (auto simp: tags_ok_def)

lemma tags_okD2:
  assumes "tags_ok c" "s < m_cache_num_sets c" "w < m_cache_assoc c" "way_at c s w = Some e"
  shows "set_of c (m_Address e) = s" "m_tag_index c (m_Address e) = Some w"
  using assms by (auto simp: tags_ok_def)

lemma set_of_less: "geometry_ok c \<Longrightarrow> set_of c a < m_cache_num_sets c"
  unfolding geometry_ok_def set_of_def take_bit_eq_mask
  by (blast intro: less_le_trans [OF unat_and_mask_less])

lemma addressToCacheSet_eq:
  assumes "geometry_ok c" "is_line c a"
  shows "addressToCacheSet a c = Inr (set_of c a)"
proof -
  let ?s = "m_start_index_bit c" and ?n = "m_cache_num_set_bits c"
  have g: "0 < ?n" "?s + ?n \<le> 64" using assms(1) by (auto simp: geometry_ok_def)
  then have b: "?s \<le> ?s + ?n - 1" "?s + ?n - 1 < 2 ^ 32" by auto
  obtain r where r: "bitSelect (int ?s) (int (?s + ?n - 1)) a = Inr r"
    and br: "\<And>i. bit r i \<longleftrightarrow> bit a (i + ?s) \<and> i + ?s \<le> ?s + ?n - 1"
    using bitSelect_spec_nat [OF b, of a] by blast
  have "r = take_bit ?n (drop_bit ?s a)"
    using g(1) by (intro bit_word_eqI) (auto simp: br bit_simps ac_simps)
  then have "unat r = set_of c a" by (simp only: set_of_def)
  moreover have i: "int (?s + ?n) - 1 = int (?s + ?n - 1)" using g(1) by simp
  ultimately show ?thesis
    by (simp only: addressToCacheSet_def i r assms(2) assert_that_simps(1) res_bind_simps(2))
qed

lemma way_ptr_eq:
  assumes "geometry_ok c" "s < m_cache_num_sets c" "w < m_cache_assoc c"
  shows "way_ptr s w c = Inr (way_at c s w)"
  using assms by (auto simp: way_ptr_def way_at_def geometry_ok_def)

lemma way_entry_eq:
  assumes "geometry_ok c" "s < m_cache_num_sets c" "w < m_cache_assoc c" "way_at c s w = Some e"
  shows "way_entry s w c = Inr e"
  using way_ptr_eq [OF assms(1-3)] assms(4) by (simp add: way_entry_def)

lemma findTagInSet_eq:
  assumes "cache_ok c" "is_line c a"
  shows "findTagInSet (set_of c a) a c = Inr (m_tag_index c a)"
proof (cases "m_tag_index c a")
  case (Some w)
  from assms have g: "geometry_ok c" and t: "tags_ok c" by (auto simp: cache_ok_def)
  from tags_okD [OF t Some] obtain e where e: "w < m_cache_assoc c" "way_at c (set_of c a) w = Some e"
    "m_Permission e \<noteq> NotPresent" .
  with Some show ?thesis
    using assms(2) way_entry_eq [OF g set_of_less [OF g] e(1,2)] by (simp add: findTagInSet_def)
qed (simp add: findTagInSet_def assms(2))

lemma cache_map_Some:
  assumes "cache_ok c"
  shows "cache_map c a = Some e \<longleftrightarrow> (\<exists>w. m_tag_index c a = Some w \<and> way_at c (set_of c a) w = Some e)"
  by (auto simp: cache_map_def split: option.splits)

lemma cache_map_None:
  assumes "cache_ok c"
  shows "cache_map c a = None \<longleftrightarrow> m_tag_index c a = None"
  using assms by (auto simp: cache_map_def cache_ok_def split: option.splits elim: tags_okD)

lemma cache_map_entry:
  assumes "cache_ok c" "cache_map c a = Some e"
  shows "is_line c a" "m_Address e = a" "m_Permission e \<noteq> NotPresent"
proof -
  from assms obtain w where w: "m_tag_index c a = Some w" "way_at c (set_of c a) w = Some e"
    by (auto simp: cache_map_Some)
  with assms(1) show "is_line c a" "m_Address e = a" "m_Permission e \<noteq> NotPresent"
    by (auto simp: cache_ok_def elim: tags_okD)
qed

text \<open>The lookups.\<close>

lemma cache_lookup_eq:
  assumes "cache_ok c" "is_line c a"
  shows "cache_lookup a c = Inr (cache_map c a)"
proof -
  have g: "geometry_ok c" and t: "tags_ok c" using assms by (auto simp: cache_ok_def)
  show ?thesis
  proof (cases "m_tag_index c a")
    case (Some w)
    from tags_okD [OF t Some] have "w < m_cache_assoc c" .
    with Some show ?thesis
      using assms way_ptr_eq [OF g set_of_less [OF g]]
      by (simp add: cache_lookup_def addressToCacheSet_eq [OF g] findTagInSet_eq cache_map_def)
  qed (simp add: cache_lookup_def addressToCacheSet_eq [OF g] findTagInSet_eq assms cache_map_def)
qed

lemma isTagPresent_eq:
  assumes "cache_ok c" "is_line c a"
  shows "isTagPresent a c = Inr (cache_map c a \<noteq> None)"
  using assms cache_map_None [OF assms(1)] addressToCacheSet_eq [of c a]
  by (simp add: isTagPresent_def findTagInSet_eq cache_ok_def)

lemma isTagPresent_not_line: "\<not> is_line c a \<Longrightarrow> isTagPresent a c = Inl AssertFailed"
  by (simp add: isTagPresent_def)

section \<open>Room in a set\<close>

text \<open>The lines of a set; a set is full when it holds as many lines as there are ways.\<close>

definition lines_of_set :: "'d CacheMemory \<Rightarrow> nat \<Rightarrow> addr set" where
  "lines_of_set c s = {a. cache_map c a \<noteq> None \<and> set_of c a = s}"

lemma lines_of_set_eq:
  assumes "cache_ok c" "s < m_cache_num_sets c"
  shows "lines_of_set c s = (\<lambda>w. m_Address (the (way_at c s w))) ` {w. w < m_cache_assoc c \<and> way_at c s w \<noteq> None}"
    (is "_ = ?f ` ?W")
proof (intro set_eqI iffI)
  fix a assume "a \<in> lines_of_set c s"
  then obtain e w where "m_tag_index c a = Some w" "way_at c s w = Some e" and s: "set_of c a = s"
    using assms(1) by (auto simp: lines_of_set_def cache_map_Some)
  with assms(1) have "w < m_cache_assoc c" "m_Address e = a" "way_at c s w = Some e"
    by (auto simp: cache_ok_def elim!: tags_okD)
  then show "a \<in> ?f ` ?W" by force
next
  fix a assume "a \<in> ?f ` ?W"
  then obtain w e where w: "w < m_cache_assoc c" "way_at c s w = Some e" "a = m_Address e" by auto
  with tags_okD2 [of c s w e] assms have "set_of c a = s" "m_tag_index c a = Some w"
    by (auto simp: cache_ok_def)
  with w show "a \<in> lines_of_set c s" using assms(1) by (auto simp: lines_of_set_def cache_map_Some)
qed

lemma card_lines_of_set:
  assumes "cache_ok c" "s < m_cache_num_sets c"
  shows "card (lines_of_set c s) = card {w. w < m_cache_assoc c \<and> way_at c s w \<noteq> None}"
  unfolding lines_of_set_eq [OF assms]
proof (rule card_image, rule inj_onI)
  fix v w assume v: "v \<in> {w. w < m_cache_assoc c \<and> way_at c s w \<noteq> None}"
    and w: "w \<in> {w. w < m_cache_assoc c \<and> way_at c s w \<noteq> None}"
    and eq: "m_Address (the (way_at c s v)) = m_Address (the (way_at c s w))"
  then obtain d e where "way_at c s v = Some d" "way_at c s w = Some e" by auto
  with tags_okD2(2) [of c s v d] tags_okD2(2) [of c s w e] assms v w eq show "v = w"
    by (auto simp: cache_ok_def)
qed

lemma set_full_iff:
  assumes "cache_ok c" "s < m_cache_num_sets c"
  shows "card (lines_of_set c s) \<le> m_cache_assoc c"
    and "card (lines_of_set c s) < m_cache_assoc c \<longleftrightarrow> (\<exists>w < m_cache_assoc c. way_at c s w = None)"
proof -
  let ?W = "{w. w < m_cache_assoc c \<and> way_at c s w \<noteq> None}"
  have sub: "?W \<subseteq> {..<m_cache_assoc c}" by auto
  show "card (lines_of_set c s) \<le> m_cache_assoc c"
    unfolding card_lines_of_set [OF assms] using card_mono [OF _ sub] by simp
  show "card (lines_of_set c s) < m_cache_assoc c \<longleftrightarrow> (\<exists>w < m_cache_assoc c. way_at c s w = None)"
    unfolding card_lines_of_set [OF assms]
  proof
    assume "card ?W < m_cache_assoc c"
    then have "?W \<noteq> {..<m_cache_assoc c}" by (metis card_lessThan less_irrefl)
    then show "\<exists>w < m_cache_assoc c. way_at c s w = None" by auto
  next
    assume "\<exists>w < m_cache_assoc c. way_at c s w = None"
    then have "?W \<subset> {..<m_cache_assoc c}" using sub by blast
    then show "card ?W < m_cache_assoc c" using psubset_card_mono [of "{..<m_cache_assoc c}" ?W] by simp
  qed
qed

lemma entry_present:
  assumes "cache_ok c" "s < m_cache_num_sets c" "w < m_cache_assoc c" "way_at c s w = Some e"
  shows "cache_map c (m_Address e) = Some e" "set_of c (m_Address e) = s" "m_Permission e \<noteq> NotPresent"
proof -
  have t: "set_of c (m_Address e) = s" "m_tag_index c (m_Address e) = Some w"
    using tags_okD2 [of c s w e] assms by (auto simp: cache_ok_def)
  then show 1: "cache_map c (m_Address e) = Some e" using assms by (simp add: cache_map_def)
  show "set_of c (m_Address e) = s" by (rule t)
  show "m_Permission e \<noteq> NotPresent" using cache_map_entry(3) [OF assms(1) 1] .
qed

lemma avail_loop_eq:
  assumes "cache_ok c" "s < m_cache_num_sets c" "i + n \<le> m_cache_assoc c"
  shows "avail_loop a s i n c =
    Inr (\<exists>w. i \<le> w \<and> w < i + n \<and> (case way_at c s w of None \<Rightarrow> True | Some e \<Rightarrow> m_Address e = a))"
  using assms(3)
proof (induction n arbitrary: i)
  case (Suc n)
  have p: "way_ptr s i c = Inr (way_at c s i)"
    using way_ptr_eq [of c s i] assms Suc.prems by (simp add: cache_ok_def)
  have split: "(\<exists>w. i \<le> w \<and> w < i + Suc n \<and> P w) \<longleftrightarrow> P i \<or> (\<exists>w. i + 1 \<le> w \<and> w < i + 1 + n \<and> P w)" for P
  proof
    assume "\<exists>w. i \<le> w \<and> w < i + Suc n \<and> P w"
    then obtain w where w: "i \<le> w" "w < i + Suc n" "P w" by blast
    then show "P i \<or> (\<exists>w. i + 1 \<le> w \<and> w < i + 1 + n \<and> P w)" by (cases "w = i") auto
  next
    assume "P i \<or> (\<exists>w. i + 1 \<le> w \<and> w < i + 1 + n \<and> P w)"
    then show "\<exists>w. i \<le> w \<and> w < i + Suc n \<and> P w"
    proof
      assume "P i"
      then show ?thesis by (intro exI [of _ i]) simp
    next
      assume "\<exists>w. i + 1 \<le> w \<and> w < i + 1 + n \<and> P w"
      then obtain w where "i + 1 \<le> w" "w < i + 1 + n" "P w" by blast
      then show ?thesis by (intro exI [of _ w]) simp
    qed
  qed
  show ?case
  proof (cases "way_at c s i")
    case None
    then show ?thesis by (auto simp: p)
  next
    case (Some e)
    then have "m_Permission e \<noteq> NotPresent" using entry_present(3) [OF assms(1,2) _ Some] Suc.prems by simp
    then show ?thesis unfolding split using Suc Some by (simp add: p)
  qed
qed simp

lemma cacheAvail_eq:
  assumes "cache_ok c" "is_line c a"
  shows "cacheAvail a c = Inr (cache_map c a \<noteq> None \<or> card (lines_of_set c (set_of c a)) < m_cache_assoc c)"
proof -
  have g: "geometry_ok c" using assms by (simp add: cache_ok_def)
  note s = set_of_less [OF g, of a]
  have "(\<exists>w < m_cache_assoc c. case way_at c (set_of c a) w of None \<Rightarrow> True | Some e \<Rightarrow> m_Address e = a)
    \<longleftrightarrow> cache_map c a \<noteq> None \<or> (\<exists>w < m_cache_assoc c. way_at c (set_of c a) w = None)" (is "?l = ?r")
  proof
    assume ?l
    then obtain w where w: "w < m_cache_assoc c"
      "case way_at c (set_of c a) w of None \<Rightarrow> True | Some e \<Rightarrow> m_Address e = a" by blast
    then show ?r using entry_present(1) [OF assms(1) s w(1)] by (cases "way_at c (set_of c a) w") auto
  next
    assume ?r
    then show ?l
    proof
      assume "cache_map c a \<noteq> None"
      then obtain e w where "m_tag_index c a = Some w" "way_at c (set_of c a) w = Some e"
        using assms(1) by (auto simp: cache_map_Some)
      with assms(1) show ?l by (auto simp: cache_ok_def elim!: tags_okD intro!: exI [of _ w])
    qed (auto split: option.splits)
  qed
  then show ?thesis
    using avail_loop_eq [OF assms(1) s, of 0 "m_cache_assoc c" a] assms(2) set_full_iff(2) [OF assms(1) s]
    by (simp add: cacheAvail_def addressToCacheSet_eq [OF g])
qed

section \<open>Changing one way\<close>

definition put_way :: "nat \<Rightarrow> nat \<Rightarrow> 'd AbstractCacheEntry option \<Rightarrow> 'd CacheMemory \<Rightarrow> 'd CacheMemory" where
  "put_way s w p c = c\<lparr>m_cache := (m_cache c)[s := (m_cache c ! s)[w := p]]\<rparr>"

definition same_geometry :: "'d CacheMemory \<Rightarrow> 'd CacheMemory \<Rightarrow> bool" where
  "same_geometry c c' \<longleftrightarrow> m_cache_num_sets c' = m_cache_num_sets c
     \<and> m_cache_num_set_bits c' = m_cache_num_set_bits c \<and> m_cache_assoc c' = m_cache_assoc c
     \<and> m_start_index_bit c' = m_start_index_bit c \<and> m_block_bits c' = m_block_bits c"

lemma same_geometry_refl [simp]: "same_geometry c c"
  by (simp add: same_geometry_def)

lemma same_geometry_trans: "same_geometry c c' \<Longrightarrow> same_geometry c' c'' \<Longrightarrow> same_geometry c c''"
  by (simp add: same_geometry_def)

lemma same_geometryD:
  assumes "same_geometry c c'"
  shows "set_of c' = set_of c" "is_line c' = is_line c" "m_cache_assoc c' = m_cache_assoc c"
    "m_cache_num_sets c' = m_cache_num_sets c"
  using assms by (auto simp: same_geometry_def set_of_def is_line_def fun_eq_iff)

lemma geometry_ok_row:
  "geometry_ok c \<Longrightarrow> s < m_cache_num_sets c \<Longrightarrow> length (m_cache c ! s) = m_cache_assoc c"
  by (auto simp: geometry_ok_def)

lemma set_way_eq:
  assumes "geometry_ok c" "s < m_cache_num_sets c" "w < m_cache_assoc c"
  shows "set_way s w p c = Inr (put_way s w p c)" "geometry_ok (put_way s w p c)"
    "same_geometry c (put_way s w p c)"
    "s' < m_cache_num_sets c \<Longrightarrow> way_at (put_way s w p c) s' w' = (if s' = s \<and> w' = w then p else way_at c s' w')"
    "m_tag_index (put_way s w p c) = m_tag_index c"
proof -
  note r = geometry_ok_row [OF assms(1,2)]
  show "set_way s w p c = Inr (put_way s w p c)"
    using assms r by (simp add: set_way_def put_way_def geometry_ok_def)
  show "geometry_ok (put_way s w p c)"
    using assms r by (auto simp: put_way_def geometry_ok_def dest!: set_update_subset_insert [THEN subsetD])
  show "same_geometry c (put_way s w p c)" by (simp add: put_way_def same_geometry_def)
  show "s' < m_cache_num_sets c \<Longrightarrow> way_at (put_way s w p c) s' w' = (if s' = s \<and> w' = w then p else way_at c s' w')"
    using assms r by (auto simp: put_way_def way_at_def geometry_ok_def nth_list_update)
  show "m_tag_index (put_way s w p c) = m_tag_index c" by (simp add: put_way_def)
qed

lemma touch_way_eq:
  assumes "geometry_ok c" "s < m_cache_num_sets c" "w < m_cache_assoc c"
  shows "\<exists>p. touch_way s w t c = Inr (c\<lparr>m_replacementPolicy := p\<rparr>) \<and> geometry_ok (c\<lparr>m_replacementPolicy := p\<rparr>)"
proof -
  obtain p where "policy_touch s w t (m_replacementPolicy c) = Inr p"
    and "policy_ok (m_cache_num_sets c) (m_cache_assoc c) p"
    using pol.touch_in [of "m_cache_num_sets c" "m_cache_assoc c" "m_replacementPolicy c" s w t] assms by (auto simp: geometry_ok_def)
  then show ?thesis using assms(1) by (auto simp: touch_way_def geometry_ok_def)
qed

lemma policy_upd_simps [simp]:
  "set_of (c\<lparr>m_replacementPolicy := p\<rparr>) = set_of c"
  "way_at (c\<lparr>m_replacementPolicy := p\<rparr>) = way_at c"
  "is_line (c\<lparr>m_replacementPolicy := p\<rparr>) = is_line c"
  "cache_map (c\<lparr>m_replacementPolicy := p\<rparr>) = cache_map c"
  "tags_ok (c\<lparr>m_replacementPolicy := p\<rparr>) = tags_ok c"
  "same_geometry c (c\<lparr>m_replacementPolicy := p\<rparr>)"
  by (auto simp: set_of_def way_at_def is_line_def cache_map_def tags_ok_def same_geometry_def fun_eq_iff
      split: option.splits)

text \<open>A touch keeps the array well formed and changes no entry.\<close>

lemma touch_way_keeps:
  assumes "cache_ok c" "s < m_cache_num_sets c" "w < m_cache_assoc c"
  shows "\<exists>c'. touch_way s w t c = Inr c' \<and> cache_ok c' \<and> cache_map c' = cache_map c \<and> same_geometry c c'"
  using touch_way_eq [of c s w t] assms by (auto simp: cache_ok_def)

text \<open>Putting an entry with its tag in an empty way, changing an entry in place, emptying a way.\<close>

lemma tag_upd_simps [simp]:
  "set_of (c\<lparr>m_tag_index := m\<rparr>) = set_of c"
  "way_at (c\<lparr>m_tag_index := m\<rparr>) = way_at c"
  "is_line (c\<lparr>m_tag_index := m\<rparr>) = is_line c"
  "geometry_ok (c\<lparr>m_tag_index := m\<rparr>) = geometry_ok c"
  "same_geometry c (c\<lparr>m_tag_index := m\<rparr>)"
  by (auto simp: set_of_def way_at_def is_line_def geometry_ok_def same_geometry_def fun_eq_iff)

lemma put_fresh:
  assumes ok: "cache_ok c" and a: "is_line c a" "cache_map c a = None"
    and w: "w < m_cache_assoc c" "way_at c (set_of c a) w = None"
    and e: "m_Address e = a" "m_Permission e \<noteq> NotPresent"
    and c': "c' = (put_way (set_of c a) w (Some e) c)\<lparr>m_tag_index := (m_tag_index c)(a \<mapsto> w)\<rparr>"
  shows "cache_ok c'" "cache_map c' = (cache_map c)(a \<mapsto> e)" "same_geometry c c'"
proof -
  have g: "geometry_ok c" and t: "tags_ok c" using ok by (auto simp: cache_ok_def)
  note p = set_way_eq [OF g set_of_less [OF g, of a] w(1)]
  have at: "way_at c' s' w' = (if s' = set_of c a \<and> w' = w then Some e else way_at c s' w')"
    if "s' < m_cache_num_sets c" for s' w'
    using p(4) [OF that] by (simp add: c')
  have tag: "m_tag_index c' = (m_tag_index c)(a \<mapsto> w)" by (simp add: c')
  show sg: "same_geometry c c'" using p(3) by (simp add: c' same_geometry_def)
  note sD = same_geometryD [OF sg]
  have fresh: "m_tag_index c a = None" using a(2) cache_map_None [OF ok] by simp
  have "tags_ok c'"
    unfolding tags_ok_def sD tag
  proof (intro conjI allI impI)
    fix b v assume b: "((m_tag_index c)(a \<mapsto> w)) b = Some v"
    have "is_line c b \<and> v < m_cache_assoc c \<and>
      (\<exists>e. way_at c' (set_of c b) v = Some e \<and> m_Address e = b \<and> m_Permission e \<noteq> NotPresent)"
    proof (cases "b = a")
      case True
      then show ?thesis using b a w e at [OF set_of_less [OF g]] by simp
    next
      case False
      with b have "m_tag_index c b = Some v" by simp
      from tags_okD [OF t this] obtain f where f: "is_line c b" "v < m_cache_assoc c"
        "way_at c (set_of c b) v = Some f" "m_Address f = b" "m_Permission f \<noteq> NotPresent" .
      then show ?thesis using w(2) by (auto simp: at [OF set_of_less [OF g]])
    qed
    then show "is_line c b" "v < m_cache_assoc c"
      "\<exists>e. way_at c' (set_of c b) v = Some e \<and> m_Address e = b \<and> m_Permission e \<noteq> NotPresent" by simp_all
  next
    fix s v f assume s: "s < m_cache_num_sets c" and v: "v < m_cache_assoc c" and f: "way_at c' s v = Some f"
    have "set_of c (m_Address f) = s \<and> ((m_tag_index c)(a \<mapsto> w)) (m_Address f) = Some v"
    proof (cases "s = set_of c a \<and> v = w")
      case True
      then show ?thesis using f at [OF s] e by simp
    next
      case False
      then have "way_at c s v = Some f" using f at [OF s] by auto
      from tags_okD2 [OF t s v this] fresh show ?thesis by auto
    qed
    then show "set_of c (m_Address f) = s" "((m_tag_index c)(a \<mapsto> w)) (m_Address f) = Some v" by simp_all
  qed
  then show ok': "cache_ok c'" using p(2) by (simp add: cache_ok_def c')
  show "cache_map c' = (cache_map c)(a \<mapsto> e)"
  proof
    fix b show "cache_map c' b = ((cache_map c)(a \<mapsto> e)) b"
    proof (cases "b = a")
      case False
      have "v = w \<longrightarrow> set_of c b \<noteq> set_of c a" if "m_tag_index c b = Some v" for v
        using tags_okD [OF t that] w(2) False by (metis option.distinct(1))
      with False show ?thesis
        using at [OF set_of_less [OF g, of b]] by (auto simp: cache_map_def tag sD split: option.splits)
    qed (simp add: cache_map_def tag sD at [OF set_of_less [OF g]])
  qed
qed

lemma put_same:
  assumes ok: "cache_ok c" and w: "m_tag_index c a = Some w"
    and e: "m_Address e = a" "m_Permission e \<noteq> NotPresent"
  shows "cache_ok (put_way (set_of c a) w (Some e) c)"
    "cache_map (put_way (set_of c a) w (Some e) c) = (cache_map c)(a \<mapsto> e)"
    "same_geometry c (put_way (set_of c a) w (Some e) c)"
proof -
  have g: "geometry_ok c" and t: "tags_ok c" using ok by (auto simp: cache_ok_def)
  from tags_okD [OF t w] obtain f where wf: "is_line c a" "w < m_cache_assoc c"
    "way_at c (set_of c a) w = Some f" "m_Address f = a" .
  define c' where "c' = put_way (set_of c a) w (Some e) c"
  note p = set_way_eq [OF g set_of_less [OF g, of a] wf(2)]
  have at: "way_at c' s' w' = (if s' = set_of c a \<and> w' = w then Some e else way_at c s' w')"
    if "s' < m_cache_num_sets c" for s' w'
    using p(4) [OF that] by (simp add: c'_def)
  have tag: "m_tag_index c' = m_tag_index c" unfolding c'_def by (rule p(5))
  have sg: "same_geometry c c'" unfolding c'_def by (rule p(3))
  note sD = same_geometryD [OF sg]
  have "tags_ok c'"
    unfolding tags_ok_def sD tag
  proof (intro conjI allI impI)
    fix b v assume b: "m_tag_index c b = Some v"
    from tags_okD [OF t this] obtain h where h: "is_line c b" "v < m_cache_assoc c"
      "way_at c (set_of c b) v = Some h" "m_Address h = b" "m_Permission h \<noteq> NotPresent" .
    then show "is_line c b" "v < m_cache_assoc c" by simp_all
    show "\<exists>e. way_at c' (set_of c b) v = Some e \<and> m_Address e = b \<and> m_Permission e \<noteq> NotPresent"
      using h e wf by (auto simp: at [OF set_of_less [OF g]])
  next
    fix s v h assume s: "s < m_cache_num_sets c" and v: "v < m_cache_assoc c" and h: "way_at c' s v = Some h"
    have "set_of c (m_Address h) = s \<and> m_tag_index c (m_Address h) = Some v"
      using h at [OF s, of v] e w tags_okD2 [OF t s v, of h] by (auto split: if_splits)
    then show "set_of c (m_Address h) = s" "m_tag_index c (m_Address h) = Some v" by simp_all
  qed
  then show "cache_ok (put_way (set_of c a) w (Some e) c)" using p(2) by (simp add: cache_ok_def flip: c'_def)
      (simp add: c'_def p(2))
  show "same_geometry c (put_way (set_of c a) w (Some e) c)" using sg by (simp add: c'_def)
  have "cache_map c' b = ((cache_map c)(a \<mapsto> e)) b" for b
  proof (cases "b = a")
    case False
    have "v = w \<longrightarrow> set_of c b \<noteq> set_of c a" if "m_tag_index c b = Some v" for v
      using tags_okD [OF t that] wf False by (metis option.inject)
    with False show ?thesis
      using at [OF set_of_less [OF g, of b]] by (auto simp: cache_map_def tag sD split: option.splits)
  qed (simp add: cache_map_def tag sD at [OF set_of_less [OF g]] w)
  then show "cache_map (put_way (set_of c a) w (Some e) c) = (cache_map c)(a \<mapsto> e)"
    unfolding c'_def by blast
qed

lemma put_none:
  assumes ok: "cache_ok c" and w: "m_tag_index c a = Some w"
    and c': "c' = (put_way (set_of c a) w None c)\<lparr>m_tag_index := (m_tag_index c)(a := None)\<rparr>"
  shows "cache_ok c'" "cache_map c' = (cache_map c)(a := None)" "same_geometry c c'"
proof -
  have g: "geometry_ok c" and t: "tags_ok c" using ok by (auto simp: cache_ok_def)
  from tags_okD [OF t w] obtain f where wf: "is_line c a" "w < m_cache_assoc c"
    "way_at c (set_of c a) w = Some f" "m_Address f = a" .
  note p = set_way_eq [OF g set_of_less [OF g, of a] wf(2)]
  have at: "way_at c' s' w' = (if s' = set_of c a \<and> w' = w then None else way_at c s' w')"
    if "s' < m_cache_num_sets c" for s' w'
    using p(4) [OF that] by (simp add: c')
  have tag: "m_tag_index c' = (m_tag_index c)(a := None)" by (simp add: c')
  show sg: "same_geometry c c'" using p(3) by (simp add: c' same_geometry_def)
  note sD = same_geometryD [OF sg]
  have other: "v = w \<longrightarrow> set_of c b \<noteq> set_of c a" if "m_tag_index c b = Some v" "b \<noteq> a" for b v
    using tags_okD [OF t that(1)] wf that(2) by (metis option.inject)
  have "tags_ok c'"
    unfolding tags_ok_def sD tag
  proof (intro conjI allI impI)
    fix b v assume b: "((m_tag_index c)(a := None)) b = Some v"
    then have b': "m_tag_index c b = Some v" "b \<noteq> a" by (auto split: if_splits)
    from tags_okD [OF t b'(1)] obtain h where h: "is_line c b" "v < m_cache_assoc c"
      "way_at c (set_of c b) v = Some h" "m_Address h = b" "m_Permission h \<noteq> NotPresent" .
    then show "is_line c b" "v < m_cache_assoc c" by simp_all
    show "\<exists>e. way_at c' (set_of c b) v = Some e \<and> m_Address e = b \<and> m_Permission e \<noteq> NotPresent"
      using h other [OF b'] by (auto simp: at [OF set_of_less [OF g]])
  next
    fix s v h assume s: "s < m_cache_num_sets c" and v: "v < m_cache_assoc c" and h: "way_at c' s v = Some h"
    then have h': "way_at c s v = Some h" "\<not> (s = set_of c a \<and> v = w)" using at [OF s, of v] by (auto split: if_splits)
    from tags_okD2 [OF t s v h'(1)] h'(2) w
    have "set_of c (m_Address h) = s \<and> ((m_tag_index c)(a := None)) (m_Address h) = Some v" by auto
    then show "set_of c (m_Address h) = s" "((m_tag_index c)(a := None)) (m_Address h) = Some v" by simp_all
  qed
  then show "cache_ok c'" using p(2) by (simp add: cache_ok_def c')
  show "cache_map c' = (cache_map c)(a := None)"
  proof
    fix b show "cache_map c' b = ((cache_map c)(a := None)) b"
    proof (cases "b = a")
      case False
      with other [of b] show ?thesis
        using at [OF set_of_less [OF g, of b]] by (auto simp: cache_map_def tag sD split: option.splits)
    qed (simp add: cache_map_def tag)
  qed
qed

section \<open>The operations\<close>

lemma allocate_loop_eq:
  assumes ok: "cache_ok c" and a: "is_line c a" "cache_map c a = None"
    and "i + n \<le> m_cache_assoc c" "\<exists>w \<ge> i. w < i + n \<and> way_at c (set_of c a) w = None"
  shows "\<exists>c'. allocate_loop a e t (set_of c a) i n c = Inr c' \<and> cache_ok c' \<and> same_geometry c c'
    \<and> cache_map c' = (cache_map c)(a \<mapsto> e\<lparr>m_Address := a, m_Permission := Perm_Invalid, m_locked := -1\<rparr>)"
  using assms(4,5)
proof (induction n arbitrary: i)
  case (Suc n)
  have g: "geometry_ok c" using ok by (simp add: cache_ok_def)
  note s = set_of_less [OF g, of a]
  have i: "i < m_cache_assoc c" using Suc.prems(1) by simp
  show ?case
  proof (cases "way_at c (set_of c a) i")
    case None
    define e' where "e' = e\<lparr>m_Address := a, m_Permission := Perm_Invalid, m_locked := -1\<rparr>"
    define c1 where "c1 = (put_way (set_of c a) i (Some e') c)\<lparr>m_tag_index := (m_tag_index c)(a \<mapsto> i)\<rparr>"
    have "m_Address e' = a" "m_Permission e' \<noteq> NotPresent" by (simp_all add: e'_def)
    note f = put_fresh [OF ok a i None this c1_def]
    obtain c' where c': "touch_way (set_of c a) i t c1 = Inr c'" "cache_ok c'" "cache_map c' = cache_map c1" "same_geometry c1 c'"
      using touch_way_keeps [OF f(1), of "set_of c a" i t] s i same_geometryD [OF f(3)] by auto
    have "allocate_loop a e t (set_of c a) i (Suc n) c = touch_way (set_of c a) i t c1"
      using way_ptr_eq [OF g s i] None set_way_eq(1,5) [OF g s i]
      by (simp add: c1_def e'_def)
    then show ?thesis using c' f(2) same_geometry_trans [OF f(3) c'(4)] unfolding e'_def by metis
  next
    case (Some h)
    then have np: "m_Permission h \<noteq> NotPresent" using entry_present(3) [OF ok s i] by simp
    have "\<exists>w \<ge> i + 1. w < i + 1 + n \<and> way_at c (set_of c a) w = None"
    proof -
      obtain w where w: "w \<ge> i" "w < i + Suc n" "way_at c (set_of c a) w = None" using Suc.prems(2) by blast
      with Some have "w \<noteq> i" by auto
      with w show ?thesis by (intro exI [of _ w]) simp
    qed
    with Suc.IH [of "i + 1"] Suc.prems(1) show ?thesis
      using way_ptr_eq [OF g s i] Some np by simp
  qed
qed auto

lemma cache_allocate_eq:
  assumes ok: "cache_ok c"
  shows "cache_allocate a e t c = Inl AssertFailed \<and>
      \<not> (is_line c a \<and> cache_map c a = None \<and> card (lines_of_set c (set_of c a)) < m_cache_assoc c) \<or>
    (is_line c a \<and> cache_map c a = None \<and> card (lines_of_set c (set_of c a)) < m_cache_assoc c) \<and>
    (\<exists>c'. cache_allocate a e t c = Inr c' \<and> cache_ok c' \<and> same_geometry c c'
    \<and> cache_map c' = (cache_map c)(a \<mapsto> e\<lparr>m_Address := a, m_Permission := Perm_Invalid, m_locked := -1\<rparr>))"
proof (cases "is_line c a \<and> cache_map c a = None \<and> card (lines_of_set c (set_of c a)) < m_cache_assoc c")
  case True
  have g: "geometry_ok c" using ok by (simp add: cache_ok_def)
  have "\<exists>w < m_cache_assoc c. way_at c (set_of c a) w = None"
    using set_full_iff(2) [OF ok set_of_less [OF g], of a] True by simp
  then have "\<exists>w \<ge> 0. w < 0 + m_cache_assoc c \<and> way_at c (set_of c a) w = None" by auto
  from allocate_loop_eq [OF ok _ _ _ this, of e t] True show ?thesis
    by (simp add: cache_allocate_def isTagPresent_eq [OF ok] cacheAvail_eq [OF ok] addressToCacheSet_eq [OF g])
next
  case False
  then have "cache_allocate a e t c = Inl AssertFailed"
    using isTagPresent_eq [OF ok, of a] cacheAvail_eq [OF ok, of a]
    by (auto simp: cache_allocate_def assert_that_def)
  with False show ?thesis by blast
qed

lemma cache_deallocate_eq:
  assumes ok: "cache_ok c"
  shows "cache_deallocate a c = Inl AssertFailed \<and> \<not> (is_line c a \<and> cache_map c a \<noteq> None) \<or>
    (is_line c a \<and> cache_map c a \<noteq> None) \<and>
    (\<exists>c'. cache_deallocate a c = Inr c' \<and> cache_ok c' \<and> same_geometry c c' \<and> cache_map c' = (cache_map c)(a := None))"
proof (cases "is_line c a \<and> cache_map c a \<noteq> None")
  case True
  have g: "geometry_ok c" and t: "tags_ok c" using ok by (auto simp: cache_ok_def)
  obtain w where w: "m_tag_index c a = Some w" using True cache_map_None [OF ok] by auto
  from tags_okD [OF t w] have wa: "w < m_cache_assoc c" .
  note s = set_way_eq(1,5) [OF g set_of_less [OF g] wa]
  have "cache_deallocate a c = Inr ((put_way (set_of c a) w None c)\<lparr>m_tag_index := (m_tag_index c)(a := None)\<rparr>)"
    using True w by (simp add: cache_deallocate_def isTagPresent_eq [OF ok] addressToCacheSet_eq [OF g] findTagInSet_eq [OF ok] s)
  with put_none [OF ok w refl] True show ?thesis by blast
next
  case False
  then have "cache_deallocate a c = Inl AssertFailed"
    using isTagPresent_eq [OF ok, of a] by (auto simp: cache_deallocate_def assert_that_def)
  with False show ?thesis by blast
qed

lemma update_entry_eq:
  assumes ok: "cache_ok c" and f: "\<And>e. m_Address (f e) = m_Address e" "\<And>e. m_Permission e \<noteq> NotPresent \<Longrightarrow> m_Permission (f e) \<noteq> NotPresent"
  shows "update_entry a f c = Inl AssertFailed \<and> \<not> (is_line c a \<and> cache_map c a \<noteq> None) \<or>
    (is_line c a \<and> (\<exists>e. cache_map c a = Some e \<and>
    (\<exists>c'. update_entry a f c = Inr c' \<and> cache_ok c' \<and> same_geometry c c' \<and> cache_map c' = (cache_map c)(a \<mapsto> f e))))"
proof (cases "is_line c a \<and> cache_map c a \<noteq> None")
  case True
  have g: "geometry_ok c" and t: "tags_ok c" using ok by (auto simp: cache_ok_def)
  obtain w where w: "m_tag_index c a = Some w" using True cache_map_None [OF ok] by auto
  from tags_okD [OF t w] obtain e where e: "w < m_cache_assoc c" "way_at c (set_of c a) w = Some e"
    "m_Address e = a" "m_Permission e \<noteq> NotPresent" .
  note s = set_way_eq(1) [OF g set_of_less [OF g] e(1)]
  have m: "cache_map c a = Some e" using w e by (simp add: cache_map_def)
  have "update_entry a f c = Inr (put_way (set_of c a) w (Some (f e)) c)"
    using True w by (simp add: update_entry_def addressToCacheSet_eq [OF g] findTagInSet_eq [OF ok]
        way_entry_eq [OF g set_of_less [OF g] e(1,2)] s)
  with put_same [OF ok w, of "f e"] f e m True show ?thesis by auto
next
  case False
  have g: "geometry_ok c" using ok by (simp add: cache_ok_def)
  have "update_entry a f c = Inl AssertFailed"
    using False cache_map_None [OF ok, of a]
    by (cases "is_line c a") (simp_all add: update_entry_def addressToCacheSet_eq [OF g] findTagInSet_eq [OF ok])
  with False show ?thesis by blast
qed

lemma floorLog2_u32_le:
  assumes "floorLog2_u32 (of_nat n) = Inr l" "0 < n" "n < 2 ^ 32"
  shows "2 ^ l \<le> n"
proof -
  have u: "unat (of_nat n :: u32) = n" using assms(3) by (simp add: unat_of_nat)
  then have "(of_nat n :: u32) \<noteq> 0" using assms(2) by (auto simp: word_eq_0_unat)
  from floorLog2_u32_halved [OF this] obtain s where "floorLog2_u32 (of_nat n) = Inr (fst s)" "halved (of_nat n :: u32) 1 s"
    by blast
  with halved_last [OF this(2)] u assms(1) show ?thesis by simp
qed

lemma cache_init_ok:
  assumes "cache_init csize assoc bb pname start ic = Inr c"
    and "csize < 2 ^ 31" "start + m_cache_num_set_bits c \<le> 64"
  shows "cache_ok c" "cache_map c = Map.empty"
proof -
  define n where "n = csize div assoc div 2 ^ bb"
  from assms(1) [unfolded cache_init_def Let_def, folded n_def] obtain l pol where n1: "n > 1" and l: "floorLog2_u32 (of_nat n) = Inr l" "0 < l"
    and pol: "(case pname of
             PSEUDO_LRU \<Rightarrow> res_bind (newPseudoLRU n assoc) (\<lambda>r. Inr (PolicyPseudoLRU r))
           | LRU_NAME \<Rightarrow> Inr (PolicyLRU (newReplacementPolicy n assoc))
           | OTHER_NAME \<Rightarrow> Inl AssertFailed) = Inr pol"
    and c: "c = \<lparr>m_cache_num_sets = n, m_cache_num_set_bits = l, m_cache_assoc = assoc,
              m_start_index_bit = start, m_block_bits = bb,
              m_is_instruction_only_cache = ic, m_tag_index = Map.empty,
              m_cache = replicate n (replicate assoc None), m_replacementPolicy = pol\<rparr>"
    by (auto simp: res_simps)
  have a0: "0 < assoc" using n1 by (cases assoc) (auto simp: n_def)
  have "n \<le> csize" unfolding n_def by (meson div_le_dividend le_trans)
  with assms(2) have "n < 2 ^ 32" by simp
  with l n1 have ln: "2 ^ l \<le> n" by (intro floorLog2_u32_le) simp_all
  have "policy_ok n assoc pol"
  proof (cases pname)
    case PSEUDO_LRU
    with pol obtain r where r: "newPseudoLRU n assoc = Inr r" "pol = PolicyPseudoLRU r" by (auto simp: res_simps)
    then have "0 < n \<and> 1 < assoc \<and> assoc \<le> 32" using newPseudoLRU_iff [of n assoc] by simp
    with newPseudoLRU_ok [of n assoc] r show ?thesis by (auto simp: policy_ok_def)
  qed (use pol rows_ok_new [OF a0] in \<open>auto simp: policy_ok_def\<close>)
  then have "geometry_ok c" using a0 l ln assms(3) by (auto simp: geometry_ok_def c)
  moreover have "tags_ok c" by (auto simp: tags_ok_def c way_at_def)
  ultimately show "cache_ok c" by (simp add: cache_ok_def)
  show "cache_map c = Map.empty" by (simp add: cache_map_def c fun_eq_iff)
qed

section \<open>The abstract cache\<close>

text \<open>
  The operations of a controller on its array.  The specification is a map from line addresses to
  entries; \<open>L\<close> tells which addresses are lines, \<open>S\<close> the set of an address, \<open>A\<close> the associativity.
\<close>

datatype 'd ruby_op =
    Allocate addr "'d AbstractCacheEntry"
  | Deallocate addr
  | TryAccess addr RubyRequestType
  | TestAccess addr RubyRequestType
  | SetMRU addr
  | SetLocked addr int
  | ClearLocked addr
  | SetPerm addr AccessPermission
  | WriteBlk addr 'd

definition ruby_step :: "'d ruby_op \<times> int \<Rightarrow> 'd CacheMemory \<Rightarrow> 'd CacheMemory res" where
  "ruby_step x c = (case x of (f, time) \<Rightarrow> (case f of
     Allocate a e \<Rightarrow> cache_allocate a e time c
   | Deallocate a \<Rightarrow> cache_deallocate a c
   | TryAccess a ty \<Rightarrow> res_bind (tryCacheAccess a ty time c) (\<lambda>r. Inr (snd r))
   | TestAccess a ty \<Rightarrow> res_bind (testCacheAccess a ty time c) (\<lambda>r. Inr (snd (snd r)))
   | SetMRU a \<Rightarrow> setMRU a time c
   | SetLocked a k \<Rightarrow> setLocked a k c
   | ClearLocked a \<Rightarrow> clearLocked a c
   | SetPerm a p \<Rightarrow> set_permission a p c
   | WriteBlk a d \<Rightarrow> write_block a d c))"

fun ruby_run :: "('d ruby_op \<times> int) list \<Rightarrow> 'd CacheMemory \<Rightarrow> 'd CacheMemory res" where
  "ruby_run [] c = Inr c"
| "ruby_run (x # xs) c = res_bind (ruby_step x c) (ruby_run xs)"

definition upd_if :: "bool \<Rightarrow> addr \<Rightarrow> ('e \<Rightarrow> 'e) \<Rightarrow> (addr \<rightharpoonup> 'e) \<Rightarrow> (addr \<rightharpoonup> 'e) option" where
  "upd_if l a f m = (case m a of None \<Rightarrow> None | Some e \<Rightarrow> if l then Some (m(a \<mapsto> f e)) else None)"

definition spec_step :: "(addr \<Rightarrow> bool) \<Rightarrow> (addr \<Rightarrow> nat) \<Rightarrow> nat \<Rightarrow> 'd ruby_op \<Rightarrow>
    (addr \<rightharpoonup> 'd AbstractCacheEntry) \<Rightarrow> (addr \<rightharpoonup> 'd AbstractCacheEntry) option" where
  "spec_step L S A f m = (case f of
     Allocate a e \<Rightarrow>
       if L a \<and> m a = None \<and> card {b. m b \<noteq> None \<and> S b = S a} < A
       then Some (m(a \<mapsto> e\<lparr>m_Address := a, m_Permission := Perm_Invalid, m_locked := -1\<rparr>)) else None
   | Deallocate a \<Rightarrow> if L a \<and> m a \<noteq> None then Some (m(a := None)) else None
   | TryAccess a ty \<Rightarrow> if L a then Some m else None
   | TestAccess a ty \<Rightarrow> if L a then Some m else None
   | SetMRU a \<Rightarrow> if L a then Some m else None
   | SetLocked a k \<Rightarrow> upd_if (L a) a (\<lambda>e. e\<lparr>m_locked := k\<rparr>) m
   | ClearLocked a \<Rightarrow> upd_if (L a) a (\<lambda>e. e\<lparr>m_locked := -1\<rparr>) m
   | SetPerm a p \<Rightarrow> upd_if (L a) a (changePermission p) m
   | WriteBlk a d \<Rightarrow> upd_if (L a) a (\<lambda>e. e\<lparr>m_DataBlk := d\<rparr>) m)"

fun spec_run :: "(addr \<Rightarrow> bool) \<Rightarrow> (addr \<Rightarrow> nat) \<Rightarrow> nat \<Rightarrow> ('d ruby_op \<times> int) list \<Rightarrow>
    (addr \<rightharpoonup> 'd AbstractCacheEntry) \<Rightarrow> (addr \<rightharpoonup> 'd AbstractCacheEntry) option" where
  "spec_run L S A [] m = Some m"
| "spec_run L S A (x # xs) m = Option.bind (spec_step L S A (fst x) m) (spec_run L S A xs)"

definition never_NotPresent :: "'d ruby_op \<Rightarrow> bool" where
  "never_NotPresent f \<longleftrightarrow> (\<forall>a. f \<noteq> SetPerm a NotPresent)"

text \<open>An operation of the array against its specification: both stop, or both continue and agree.\<close>

definition step_agrees :: "'d CacheMemory \<Rightarrow> 'd CacheMemory res \<Rightarrow> (addr \<rightharpoonup> 'd AbstractCacheEntry) option \<Rightarrow> bool" where
  "step_agrees c r m \<longleftrightarrow> (case m of
     None \<Rightarrow> r = Inl AssertFailed
   | Some m' \<Rightarrow> (\<exists>c'. r = Inr c' \<and> cache_ok c' \<and> same_geometry c c' \<and> cache_map c' = m'))"

lemma step_agrees_simps [simp]:
  "step_agrees c r None \<longleftrightarrow> r = Inl AssertFailed"
  "step_agrees c r (Some m') \<longleftrightarrow> (\<exists>c'. r = Inr c' \<and> cache_ok c' \<and> same_geometry c c' \<and> cache_map c' = m')"
  by (simp_all add: step_agrees_def)

lemma update_agrees:
  assumes "cache_ok c" "\<And>e. m_Address (f e) = m_Address e"
    "\<And>e. m_Permission e \<noteq> NotPresent \<Longrightarrow> m_Permission (f e) \<noteq> NotPresent"
  shows "step_agrees c (update_entry a f c) (upd_if (is_line c a) a f (cache_map c))"
  using update_entry_eq [OF assms(1), of f a] assms(2,3)
  by (cases "cache_map c a") (auto simp: upd_if_def)

lemma tag_way:
  assumes "cache_ok c" "m_tag_index c a = Some w"
  shows "w < m_cache_assoc c" "\<exists>e. way_entry (set_of c a) w c = Inr e \<and> cache_map c a = Some e"
proof -
  have g: "geometry_ok c" and t: "tags_ok c" using assms by (auto simp: cache_ok_def)
  from tags_okD [OF t assms(2)] obtain e where e: "w < m_cache_assoc c" "way_at c (set_of c a) w = Some e" .
  then show "w < m_cache_assoc c" by simp
  show "\<exists>e. way_entry (set_of c a) w c = Inr e \<and> cache_map c a = Some e"
    using way_entry_eq [OF g set_of_less [OF g] e] e(2) assms(2) by (simp add: cache_map_def)
qed

text \<open>The accesses that only touch: an access is granted to a writable entry, and to a readable one for a
  load or an instruction fetch.\<close>

definition grants :: "RubyRequestType \<Rightarrow> 'd AbstractCacheEntry \<Rightarrow> bool" where
  "grants ty e \<longleftrightarrow> m_Permission e = Read_Write \<or> m_Permission e = Read_Only \<and> (ty = LD \<or> ty = IFETCH)"

lemma touching_eq:
  assumes ok: "cache_ok c" and a: "is_line c a"
  shows "\<exists>c'. tryCacheAccess a ty t c = Inr (case cache_map c a of
         None \<Rightarrow> None | Some e \<Rightarrow> if grants ty e then Some (m_DataBlk e) else None, c')
      \<and> cache_ok c' \<and> same_geometry c c' \<and> cache_map c' = cache_map c"
    and "\<exists>c'. testCacheAccess a ty t c = Inr (cache_map c a \<noteq> None, map_option m_DataBlk (cache_map c a), c')
      \<and> cache_ok c' \<and> same_geometry c c' \<and> cache_map c' = cache_map c"
    and "\<exists>c'. setMRU a t c = Inr c' \<and> cache_ok c' \<and> same_geometry c c' \<and> cache_map c' = cache_map c"
proof -
  have g: "geometry_ok c" using ok by (auto simp: cache_ok_def)
  note fd = addressToCacheSet_eq [OF g a] findTagInSet_eq [OF ok a] a
  have "(\<exists>c'. tryCacheAccess a ty t c = Inr (case cache_map c a of
         None \<Rightarrow> None | Some e \<Rightarrow> if grants ty e then Some (m_DataBlk e) else None, c')
      \<and> cache_ok c' \<and> same_geometry c c' \<and> cache_map c' = cache_map c) \<and>
    (\<exists>c'. testCacheAccess a ty t c = Inr (cache_map c a \<noteq> None, map_option m_DataBlk (cache_map c a), c')
      \<and> cache_ok c' \<and> same_geometry c c' \<and> cache_map c' = cache_map c) \<and>
    (\<exists>c'. setMRU a t c = Inr c' \<and> cache_ok c' \<and> same_geometry c c' \<and> cache_map c' = cache_map c)"
  proof (cases "m_tag_index c a")
    case None
    then have "cache_map c a = None" by (simp add: cache_map_def)
    then show ?thesis using ok None
      by (simp add: tryCacheAccess_def testCacheAccess_def setMRU_def fd)
  next
    case (Some w)
    obtain e where e: "way_entry (set_of c a) w c = Inr e" "cache_map c a = Some e"
      using tag_way(2) [OF ok Some] by blast
    have "m_Permission e \<noteq> NotPresent" by (rule cache_map_entry(3) [OF ok e(2)])
    moreover obtain c' where "touch_way (set_of c a) w t c = Inr c'" "cache_ok c'" "cache_map c' = cache_map c" "same_geometry c c'"
      using touch_way_keeps [OF ok set_of_less [OF g] tag_way(1) [OF ok Some]] by blast
    ultimately show ?thesis using Some e
      by (auto simp: tryCacheAccess_def testCacheAccess_def setMRU_def fd grants_def)
  qed
  then show "\<exists>c'. tryCacheAccess a ty t c = Inr (case cache_map c a of
         None \<Rightarrow> None | Some e \<Rightarrow> if grants ty e then Some (m_DataBlk e) else None, c')
      \<and> cache_ok c' \<and> same_geometry c c' \<and> cache_map c' = cache_map c"
    and "\<exists>c'. testCacheAccess a ty t c = Inr (cache_map c a \<noteq> None, map_option m_DataBlk (cache_map c a), c')
      \<and> cache_ok c' \<and> same_geometry c c' \<and> cache_map c' = cache_map c"
    and "\<exists>c'. setMRU a t c = Inr c' \<and> cache_ok c' \<and> same_geometry c c' \<and> cache_map c' = cache_map c"
    by blast+
qed

lemma ruby_step_agrees:
  assumes ok: "cache_ok c" and "never_NotPresent (fst x)"
  shows "step_agrees c (ruby_step x c) (spec_step (is_line c) (set_of c) (m_cache_assoc c) (fst x) (cache_map c))"
proof -
  obtain f t where x: "x = (f, t)" by (cases x)
  have ls: "{b. (\<exists>y. cache_map c b = Some y) \<and> set_of c b = s} = lines_of_set c s" for s
    by (simp add: lines_of_set_def)
  have nl: "\<not> is_line c a \<Longrightarrow> tryCacheAccess a ty t c = Inl AssertFailed"
    "\<not> is_line c a \<Longrightarrow> testCacheAccess a ty t c = Inl AssertFailed"
    "\<not> is_line c a \<Longrightarrow> setMRU a t c = Inl AssertFailed" for a ty
    by (simp_all add: tryCacheAccess_def testCacheAccess_def setMRU_def addressToCacheSet_def)
  show ?thesis
  proof (cases f)
    case (Allocate a e)
    show ?thesis unfolding x Allocate
      using cache_allocate_eq [OF ok, of a e t] by (auto simp: ruby_step_def spec_step_def ls)
  next
    case (Deallocate a)
    show ?thesis unfolding x Deallocate
      using cache_deallocate_eq [OF ok, of a] by (auto simp: ruby_step_def spec_step_def)
  next
    case (TryAccess a ty)
    show ?thesis unfolding x TryAccess
      using touching_eq(1) [OF ok, of a ty t] nl by (auto simp: ruby_step_def spec_step_def)
  next
    case (TestAccess a ty)
    show ?thesis unfolding x TestAccess
      using touching_eq(2) [OF ok, of a ty t] nl by (auto simp: ruby_step_def spec_step_def)
  next
    case (SetMRU a)
    show ?thesis unfolding x SetMRU
      using touching_eq(3) [OF ok, of a t] nl by (auto simp: ruby_step_def spec_step_def)
  next
    case (SetLocked a k)
    show ?thesis unfolding x SetLocked
      using update_agrees [OF ok, of "\<lambda>e. e\<lparr>m_locked := k\<rparr>" a] by (simp add: ruby_step_def spec_step_def setLocked_def)
  next
    case (ClearLocked a)
    show ?thesis unfolding x ClearLocked
      using update_agrees [OF ok, of "\<lambda>e. e\<lparr>m_locked := -1\<rparr>" a] by (simp add: ruby_step_def spec_step_def clearLocked_def)
  next
    case (SetPerm a p)
    then have "p \<noteq> NotPresent" using assms(2) x by (auto simp: never_NotPresent_def)
    then show ?thesis unfolding x SetPerm
      using update_agrees [OF ok, of "changePermission p" a]
      by (simp add: ruby_step_def spec_step_def set_permission_def changePermission_def Let_def)
  next
    case (WriteBlk a d)
    show ?thesis unfolding x WriteBlk
      using update_agrees [OF ok, of "\<lambda>e. e\<lparr>m_DataBlk := d\<rparr>" a] by (simp add: ruby_step_def spec_step_def write_block_def)
  qed
qed

lemma ruby_run_agrees:
  assumes "cache_ok c" and "\<forall>x \<in> set xs. never_NotPresent (fst x)"
  shows "step_agrees c (ruby_run xs c) (spec_run (is_line c) (set_of c) (m_cache_assoc c) xs (cache_map c))"
  using assms
proof (induction xs arbitrary: c)
  case (Cons x xs)
  have s: "step_agrees c (ruby_step x c) (spec_step (is_line c) (set_of c) (m_cache_assoc c) (fst x) (cache_map c))"
    using ruby_step_agrees [OF Cons.prems(1), of x] Cons.prems(2) by simp
  show ?case
  proof (cases "spec_step (is_line c) (set_of c) (m_cache_assoc c) (fst x) (cache_map c)")
    case (Some m)
    with s obtain c1 where c1: "ruby_step x c = Inr c1" "cache_ok c1" "same_geometry c c1" "cache_map c1 = m" by auto
    have "step_agrees c1 (ruby_run xs c1) (spec_run (is_line c) (set_of c) (m_cache_assoc c) xs m)"
      using Cons.IH [OF c1(2)] Cons.prems(2) same_geometryD [OF c1(3)] c1(4) by simp
    then show ?thesis using Some c1 same_geometry_trans [OF c1(3)]
      by (auto simp: step_agrees_def split: option.splits)
  qed (use s in simp)
qed simp

section \<open>Properties\<close>

text \<open>C20: A Ruby cache array refines a map from line addresses to entries with room for the
  associativity in every set.  Take any array \<open>init\<close> accepts and any sequence of allocations,
  deallocations, accesses, lockings, permission changes and block writes in which no entry is made
  \<open>NotPresent\<close>.  If the specification refuses one of them (allocating a line that is present or whose
  set is full, or using an absent line) an assertion fails; otherwise the array answers every lookup,
  presence and availability test and access as the map does, and no set is over-full.\<close>

theorem ruby_cache_refines:
  assumes init: "cache_init csize assoc bb pname start ic = Inr c0"
    and sz: "csize < 2 ^ 31" "start + m_cache_num_set_bits c0 \<le> 64"
    and xs: "\<forall>x \<in> set xs. never_NotPresent (fst x)"
  shows "case spec_run (is_line c0) (set_of c0) assoc xs Map.empty of
      None \<Rightarrow> ruby_run xs c0 = Inl AssertFailed
    | Some m \<Rightarrow> \<exists>c. ruby_run xs c0 = Inr c \<and>
        (\<forall>s < m_cache_num_sets c0. card {a. m a \<noteq> None \<and> set_of c0 a = s} \<le> assoc) \<and>
        (\<forall>a. is_line c0 a \<longrightarrow>
          cache_lookup a c = Inr (m a) \<and> isTagPresent a c = Inr (m a \<noteq> None) \<and>
          cacheAvail a c = Inr (m a \<noteq> None \<or> card {b. m b \<noteq> None \<and> set_of c0 b = set_of c0 a} < assoc) \<and>
          (\<forall>ty t. \<exists>c'. tryCacheAccess a ty t c = Inr (case m a of None \<Rightarrow> None
             | Some e \<Rightarrow> if grants ty e then Some (m_DataBlk e) else None, c')))"
proof -
  note ok0 = cache_init_ok [OF init sz]
  have A: "m_cache_assoc c0 = assoc" using init by (auto simp: cache_init_def Let_def res_simps)
  have run: "step_agrees c0 (ruby_run xs c0) (spec_run (is_line c0) (set_of c0) assoc xs Map.empty)"
    using ruby_run_agrees [OF ok0(1) xs] ok0(2) A by simp
  show ?thesis
  proof (cases "spec_run (is_line c0) (set_of c0) assoc xs Map.empty")
    case (Some m)
    with run obtain c where c: "ruby_run xs c0 = Inr c" "cache_ok c" "same_geometry c0 c" "cache_map c = m" by auto
    note D = same_geometryD [OF c(3)]
    have ls: "{a. m a \<noteq> None \<and> set_of c0 a = s} = lines_of_set c s" for s
      by (simp add: lines_of_set_def D(1) c(4))
    have "\<exists>c'. tryCacheAccess a ty t c = Inr (case m a of None \<Rightarrow> None
             | Some e \<Rightarrow> if grants ty e then Some (m_DataBlk e) else None, c')" if "is_line c0 a" for a ty t
      using touching_eq(1) [OF c(2), of a ty t] that D(2) c(4) by auto
    then show ?thesis
      using c(1) Some set_full_iff(1) [OF c(2)] cache_lookup_eq [OF c(2)] isTagPresent_eq [OF c(2)] cacheAvail_eq [OF c(2)]
      by (simp only: option.case ls D(1) D(2) [symmetric] D(3) D(4) [symmetric] A c(4)) (simp add: D A c(4))
  qed (use run in simp)
qed

text \<open>C37: Replacement always makes room.  In every reachable array (no entry made \<open>NotPresent\<close>), when
  no way is available for a line, \<open>cacheProbe\<close> names another line of the same set that is present;
  after it is deallocated the new line can be allocated, and no lookup of any other line changes.\<close>

theorem replacement_makes_room:
  assumes init: "cache_init csize assoc bb pname start ic = Inr c0"
    and sz: "csize < 2 ^ 31" "start + m_cache_num_set_bits c0 \<le> 64"
    and xs: "\<forall>x \<in> set xs. never_NotPresent (fst x)" "ruby_run xs c0 = Inr c"
    and full: "is_line c a" "cacheAvail a c = Inr False"
  shows "\<exists>v c1 c2. cacheProbe a c = Inr v \<and> v \<noteq> a \<and> isTagPresent v c = Inr True
    \<and> addressToCacheSet v c = addressToCacheSet a c
    \<and> cache_deallocate v c = Inr c1 \<and> cacheAvail a c1 = Inr True \<and> cache_allocate a e t c1 = Inr c2
    \<and> cache_lookup a c2 = Inr (Some (e\<lparr>m_Address := a, m_Permission := Perm_Invalid, m_locked := -1\<rparr>))
    \<and> (\<forall>b. is_line c b \<and> b \<noteq> a \<and> b \<noteq> v \<longrightarrow> cache_lookup b c2 = cache_lookup b c)"
proof -
  note ok0 = cache_init_ok [OF init sz]
  have ok: "cache_ok c"
    using ruby_run_agrees [OF ok0(1) xs(1)] xs(2) by (auto simp: step_agrees_def split: option.splits)
  then have g: "geometry_ok c" by (simp add: cache_ok_def)
  note s = set_of_less [OF g]
  have absent: "cache_map c a = None" and "\<not> card (lines_of_set c (set_of c a)) < m_cache_assoc c"
    using full(2) cacheAvail_eq [OF ok full(1)] by auto
  then have all: "way_at c (set_of c a) w \<noteq> None" if "w < m_cache_assoc c" for w
    using set_full_iff(2) [OF ok s, of a] that by metis
  obtain w where w: "w < m_cache_assoc c" "policy_getVictim (set_of c a) (m_replacementPolicy c) = Inr w"
    using pol.victim_in [of "m_cache_num_sets c" "m_cache_assoc c" "m_replacementPolicy c", OF _ s [of a]] g
    by (auto simp: geometry_ok_def)
  obtain f where f: "way_at c (set_of c a) w = Some f" using all [OF w(1)] by auto
  define v where "v = m_Address f"
  note p = entry_present [OF ok s w(1) f, folded v_def]
  have probe: "cacheProbe a c = Inr v"
    using full w way_entry_eq [OF g s w(1) f] by (simp add: cacheProbe_def addressToCacheSet_eq [OF g] v_def)
  have vl: "is_line c v" by (rule cache_map_entry(1) [OF ok p(1)])
  obtain c1 where c1: "cache_deallocate v c = Inr c1" "cache_ok c1" "same_geometry c c1" "cache_map c1 = (cache_map c)(v := None)"
    using cache_deallocate_eq [OF ok, of v] vl p(1) by auto
  note D1 = same_geometryD [OF c1(3)]
  have "v \<in> lines_of_set c (set_of c a)" using p by (simp add: lines_of_set_def)
  moreover have "lines_of_set c1 (set_of c a) = lines_of_set c (set_of c a) - {v}"
    by (auto simp: lines_of_set_def D1 c1(4))
  moreover have "finite (lines_of_set c (set_of c a))" unfolding lines_of_set_eq [OF ok s] by simp
  ultimately have room: "card (lines_of_set c1 (set_of c1 a)) < m_cache_assoc c1"
    using set_full_iff(1) [OF ok s, of a] card_Diff1_less [of "lines_of_set c (set_of c a)" v] by (simp add: D1)
  have a1: "is_line c1 a" "cache_map c1 a = None" using full(1) absent by (simp_all add: D1 c1(4))
  obtain c2 where c2: "cache_allocate a e t c1 = Inr c2" "cache_ok c2" "same_geometry c1 c2"
    "cache_map c2 = (cache_map c1)(a \<mapsto> e\<lparr>m_Address := a, m_Permission := Perm_Invalid, m_locked := -1\<rparr>)"
    using cache_allocate_eq [OF c1(2), of a e t] a1 room by auto
  note D2 = same_geometryD [OF c2(3)]
  have "v \<noteq> a" using p(1) absent by auto
  moreover have "addressToCacheSet v c = addressToCacheSet a c"
    using addressToCacheSet_eq [OF g] vl full(1) p(2) by simp
  moreover have "cacheAvail a c1 = Inr True" using cacheAvail_eq [OF c1(2) a1(1)] room by simp
  moreover have "cache_lookup b c2 = Inr (cache_map c2 b)" if "is_line c b" for b
    using cache_lookup_eq [OF c2(2)] that by (simp add: D1 D2)
  moreover have "isTagPresent v c = Inr True" using isTagPresent_eq [OF ok vl] p(1) by simp
  ultimately show ?thesis
    using probe c1 c2 full(1) cache_lookup_eq [OF ok] by (intro exI [of _ v] exI [of _ c1] exI [of _ c2]) simp
qed

text \<open>
  A small array: two sets of two ways, 64-byte blocks, and a run that fills a set; the addresses
  \<open>0x000\<close>, \<open>0x080\<close> and \<open>0x100\<close> fall into set 0.
\<close>

definition demo_ruby :: "nat CacheMemory" where
  "demo_ruby = projr (cache_init 256 2 6 PSEUDO_LRU 6 False)"

definition demo_ruby_run :: "(nat ruby_op \<times> int) list" where
  "demo_ruby_run = [(Allocate 0x000 (newAbstractCacheEntry 7), 1), (SetPerm 0x000 Read_Only, 2),
     (Allocate 0x080 (newAbstractCacheEntry 8), 3), (SetPerm 0x080 Read_Write, 4), (TryAccess 0x000 LD, 5)]"

lemma demo_ruby_init: "cache_init 256 2 6 PSEUDO_LRU 6 False = Inr demo_ruby" "m_cache_num_set_bits demo_ruby = 1"
proof -
  have "is_ok (cache_init 256 2 6 PSEUDO_LRU 6 False :: nat CacheMemory res)" by code_simp
  then show "cache_init 256 2 6 PSEUDO_LRU 6 False = Inr demo_ruby" by (auto simp: is_ok_iff demo_ruby_def)
  show "m_cache_num_set_bits demo_ruby = 1" by code_simp
qed

lemma demo_ruby_run_ok: "\<forall>x \<in> set demo_ruby_run. never_NotPresent (fst x)"
  by (simp add: demo_ruby_run_def never_NotPresent_def)

lemma ruby_cache_refines_witness:
  "case spec_run (is_line demo_ruby) (set_of demo_ruby) 2 demo_ruby_run Map.empty of
     None \<Rightarrow> False | Some m \<Rightarrow> \<exists>c. ruby_run demo_ruby_run demo_ruby = Inr c \<and> cache_lookup 0x080 c = Inr (m 0x080)"
proof -
  have "is_ok (ruby_run demo_ruby_run demo_ruby)" by code_simp
  moreover have "is_line demo_ruby 0x080" by code_simp
  moreover have "6 + m_cache_num_set_bits demo_ruby \<le> 64" by (simp add: demo_ruby_init)
  ultimately show ?thesis
    using ruby_cache_refines [OF demo_ruby_init(1) _ _ demo_ruby_run_ok]
    by (auto split: option.splits)
qed

lemma replacement_makes_room_witness:
  "\<exists>c v. ruby_run demo_ruby_run demo_ruby = Inr c \<and> cacheProbe 0x100 c = Inr v \<and> v \<noteq> 0x100"
proof -
  have "is_ok (ruby_run demo_ruby_run demo_ruby)" by code_simp
  then obtain c where c: "ruby_run demo_ruby_run demo_ruby = Inr c" by (auto simp: is_ok_iff)
  have "case ruby_run demo_ruby_run demo_ruby of Inl _ \<Rightarrow> False
    | Inr c \<Rightarrow> is_line c 0x100 \<and> cacheAvail 0x100 c = Inr False" by code_simp
  then have a: "is_line c 0x100" "cacheAvail 0x100 c = Inr False" by (simp_all add: c)
  have "6 + m_cache_num_set_bits demo_ruby \<le> 64" by (simp add: demo_ruby_init)
  from replacement_makes_room [OF demo_ruby_init(1) _ this demo_ruby_run_ok c a, where e = "newAbstractCacheEntry 0" and t = 9] c
  show ?thesis by auto
qed

text \<open>
  Once an entry is \<open>NotPresent\<close>, \<open>allocate\<close> reuses its way but leaves the old tag in \<open>m_tag_index\<close>:
  the old address then finds the entry of the new one, and after that is deallocated its null pointer.
\<close>

lemma not_present_leaves_stale_tag:
  "(case ruby_run [(Allocate 0x000 (newAbstractCacheEntry 7), 1), (SetPerm 0x000 NotPresent, 2),
      (Allocate 0x080 (newAbstractCacheEntry 8), 3)] demo_ruby of
     Inl _ \<Rightarrow> False
   | Inr c \<Rightarrow> (case cache_lookup 0x000 c of Inr (Some e) \<Rightarrow> m_Address e = 0x080 | _ \<Rightarrow> False)
       \<and> (case cache_deallocate 0x080 c of Inl _ \<Rightarrow> False | Inr c1 \<Rightarrow> isTagPresent 0x000 c1 = Inl OutOfRange))"
  by code_simp

end
