(* ===== verification/Ruby_Topology.thy ===== *)
theory Ruby_Topology
  imports Gem5_Prelude "HOL-Library.AList"
begin

text \<open>
  The topology of the Ruby network: \<open>src/mem/ruby/network/Topology.cc\<close> of lab 6's gem5.  The link map
  is an association list without duplicate keys, a matrix a list of rows.  Weights, latencies and
  distances are \<open>int\<close>s (sums stay far below the 32-bit range for the latencies and weights of a
  configuration and are integers here); node numbers are natural numbers.  The number of machines of
  each type (\<open>MachineType_base_count\<close>, generated code) is the argument \<open>counts\<close>; a machine is its type
  and number.  The links are numbered by the caller; \<open>link_latency\<close> and \<open>link_weight\<close> are those of
  \<open>BasicLink\<close>.
\<close>

section \<open>The link map\<close>

definition INFINITE_LATENCY :: int where
  "INFINITE_LATENCY = 10000"

datatype LinkDirection = LinkDirection_In | LinkDirection_Out

record BasicLink =
  link_id :: nat
  link_latency :: int
  link_weight :: int

record LinkEntry =
  le_link :: BasicLink
  le_direction :: LinkDirection

type_synonym link_map = "((nat \<times> nat) \<times> LinkEntry) list"

record Topology =
  m_nodes :: nat
  m_number_of_switches :: nat
  m_link_map :: link_map

definition addLink :: "nat \<Rightarrow> nat \<Rightarrow> BasicLink \<Rightarrow> LinkDirection \<Rightarrow> Topology \<Rightarrow> Topology res" where
  "addLink src dest link dir t =
     assert_that (src \<le> m_number_of_switches t + m_nodes t + m_nodes t)
       (assert_that (dest \<le> m_number_of_switches t + m_nodes t + m_nodes t)
         (Inr (t\<lparr>m_link_map := AList.update (src, dest)
                  \<lparr>le_link = link, le_direction = dir\<rparr> (m_link_map t)\<rparr>)))"

text \<open>
  The constructor: \<open>ext_links\<close> holds for each external link the controller and the router it joins,
  \<open>int_links\<close> for each internal link its two routers.
\<close>

fun add_ext_links :: "(nat \<times> nat \<times> BasicLink) list \<Rightarrow> Topology \<Rightarrow> Topology res" where
  "add_ext_links [] t = Inr t"
| "add_ext_links ((cntrl_id, router_id, l) # ls) t =
     (let ext_idx1 = cntrl_id;
          ext_idx2 = ext_idx1 + m_nodes t;
          int_idx = router_id + 2 * m_nodes t
      in res_bind (addLink ext_idx1 int_idx l LinkDirection_In t) (\<lambda>t1.
         res_bind (addLink int_idx ext_idx2 l LinkDirection_Out t1) (add_ext_links ls)))"

fun add_int_links :: "(nat \<times> nat \<times> BasicLink) list \<Rightarrow> Topology \<Rightarrow> Topology res" where
  "add_int_links [] t = Inr t"
| "add_int_links ((router_a, router_b, l) # ls) t =
     (let a = router_a + 2 * m_nodes t;
          b = router_b + 2 * m_nodes t
      in res_bind (addLink a b l LinkDirection_In t) (\<lambda>t1.
         res_bind (addLink b a l LinkDirection_Out t1) (add_int_links ls)))"

definition newTopology ::
  "nat \<Rightarrow> nat \<Rightarrow> (nat \<times> nat \<times> BasicLink) list \<Rightarrow> (nat \<times> nat \<times> BasicLink) list \<Rightarrow> Topology res" where
  "newTopology nodes routers ext_links int_links =
     assert_that (nodes > 1)
       (if nodes \<noteq> length ext_links \<and> nodes \<noteq> length ext_links then Inl Fatal
        else res_bind (add_ext_links ext_links
               \<lparr>m_nodes = nodes, m_number_of_switches = routers, m_link_map = []\<rparr>) (add_int_links int_links))"

section \<open>All-pairs shortest paths\<close>

type_synonym matrix = "int list list"

definition mget :: "matrix \<Rightarrow> nat \<Rightarrow> nat \<Rightarrow> int res" where
  "mget M i j = res_bind (vec_get M i) (\<lambda>row. vec_get row j)"

definition mset_at :: "nat \<Rightarrow> nat \<Rightarrow> int \<Rightarrow> matrix \<Rightarrow> matrix res" where
  "mset_at i j x M =
     res_bind (vec_get M i) (\<lambda>row. res_bind (vec_set row j x) (\<lambda>row'. Inr (M[i := row'])))"

text \<open>The three matrices \<open>extend_shortest_path\<close> updates in place.\<close>

record paths =
  current_dist :: matrix
  latencies :: matrix
  inter_switches :: matrix

text \<open>
  The innermost loop for one pair, \<open>n\<close> intermediate nodes to go from \<open>k\<close> on: the minimum, its previous
  value and the intermediate switch (\<open>-1\<close> is \<^const>\<open>None\<close>) are its local variables.
\<close>

fun k_loop :: "nat \<Rightarrow> nat \<Rightarrow> nat \<Rightarrow> nat \<Rightarrow> int \<Rightarrow> int \<Rightarrow> nat option \<Rightarrow> paths \<Rightarrow> (int \<times> nat option \<times> paths) res" where
  "k_loop i j k 0 minimum previous via s = Inr (minimum, via, s)"
| "k_loop i j k (Suc n) minimum previous via s =
     res_bind (mget (current_dist s) i k) (\<lambda>dik.
     res_bind (mget (current_dist s) k j) (\<lambda>dkj.
       let minimum' = min minimum (dik + dkj)
       in if previous \<noteq> minimum'
          then res_bind (mget (inter_switches s) i k) (\<lambda>a.
               res_bind (mget (inter_switches s) k j) (\<lambda>b.
               res_bind (mset_at i j (a + b + 1) (inter_switches s)) (\<lambda>m.
               k_loop i j (k + 1) n minimum' minimum' (Some k) (s\<lparr>inter_switches := m\<rparr>))))
          else k_loop i j (k + 1) n minimum' minimum' via s))"

definition pair_step :: "nat \<Rightarrow> nat \<Rightarrow> nat \<Rightarrow> bool \<times> paths \<Rightarrow> (bool \<times> paths) res" where
  "pair_step nodes i j st = (case st of (change, s) \<Rightarrow>
     res_bind (mget (current_dist s) i j) (\<lambda>d.
     res_bind (k_loop i j 0 nodes d d None s) (\<lambda>(minimum, via, s1).
     res_bind (mget (current_dist s1) i j) (\<lambda>d1.
       if d1 \<noteq> minimum
       then res_bind (mset_at i j minimum (current_dist s1)) (\<lambda>dist'.
            res_bind (vec_get (latencies s1) i) (\<lambda>row.
            assert_that (via \<noteq> None) (assert_that (the via < length row)
            (res_bind (mget (latencies s1) i (the via)) (\<lambda>a.
             res_bind (mget (latencies s1) (the via) j) (\<lambda>b.
             res_bind (mset_at i j (a + b) (latencies s1)) (\<lambda>lat'.
             Inr (True, s1\<lparr>current_dist := dist', latencies := lat'\<rparr>))))))))
       else Inr (change, s1)))))"

fun pairs_loop :: "nat \<Rightarrow> (nat \<times> nat) list \<Rightarrow> bool \<times> paths \<Rightarrow> (bool \<times> paths) res" where
  "pairs_loop nodes [] st = Inr st"
| "pairs_loop nodes ((i, j) # ps) st = res_bind (pair_step nodes i j st) (pairs_loop nodes ps)"

definition all_pairs :: "nat \<Rightarrow> (nat \<times> nat) list" where
  "all_pairs nodes = concat (map (\<lambda>i. map (Pair i) [0..<nodes]) [0..<nodes])"

text \<open>The outer loop runs while a pass changed a distance; \<^const>\<open>None\<close> when it never ends.\<close>

partial_function (option) extend_loop :: "nat \<Rightarrow> paths \<Rightarrow> paths res option" where
  "extend_loop nodes s =
     (case pairs_loop nodes (all_pairs nodes) (False, s) of
        Inl e \<Rightarrow> Some (Inl e)
      | Inr (change, s1) \<Rightarrow> if change then extend_loop nodes s1 else Some (Inr s1))"

declare extend_loop.simps [code]

definition extend_shortest_path :: "paths \<Rightarrow> paths res option" where
  "extend_shortest_path s = extend_loop (length (current_dist s)) s"

definition shortest_path :: "matrix \<Rightarrow> matrix \<Rightarrow> matrix \<Rightarrow> paths res option" where
  "shortest_path weights lats inters =
     extend_shortest_path \<lparr>current_dist = weights, latencies = lats, inter_switches = inters\<rparr>"

section \<open>Routing tables\<close>

definition link_is_shortest_path_to_node :: "nat \<Rightarrow> nat \<Rightarrow> nat \<Rightarrow> matrix \<Rightarrow> matrix \<Rightarrow> bool res" where
  "link_is_shortest_path_to_node src nxt final weights dist =
     res_bind (mget weights src nxt) (\<lambda>w.
     res_bind (mget dist nxt final) (\<lambda>a.
     res_bind (mget dist src final) (\<lambda>b. Inr (w + a = b))))"

text \<open>The machines in the order of the two loops; the \<open>d\<close>-th is destination node \<open>d + max_machines\<close>.\<close>

definition machines :: "nat list \<Rightarrow> (nat \<times> nat) list" where
  "machines counts = concat (map (\<lambda>m. map (Pair m) [0..<counts ! m]) [0..<length counts])"

fun dest_loop :: "nat \<Rightarrow> nat \<Rightarrow> matrix \<Rightarrow> matrix \<Rightarrow> nat \<Rightarrow> (nat \<times> nat) list \<Rightarrow> nat \<Rightarrow> (nat \<times> nat) list res" where
  "dest_loop src nxt weights dist max_machines [] d = Inr []"
| "dest_loop src nxt weights dist max_machines (mach # ms) d =
     res_bind (link_is_shortest_path_to_node src nxt (d + max_machines) weights dist) (\<lambda>on_path.
     res_bind (dest_loop src nxt weights dist max_machines ms (d + 1)) (\<lambda>rest.
     Inr (if on_path then mach # rest else rest)))"

definition shortest_path_to_node ::
  "nat list \<Rightarrow> nat \<Rightarrow> nat \<Rightarrow> matrix \<Rightarrow> matrix \<Rightarrow> (nat \<times> nat) list res" where
  "shortest_path_to_node counts src nxt weights dist =
     dest_loop src nxt weights dist (sum_list counts) (machines counts) 0"

text \<open>The calls \<open>makeLink\<close> makes of the network: the two ends and the routing table entry.\<close>

datatype made_link =
    InLink nat nat LinkEntry "(nat \<times> nat) list"
  | OutLink nat nat LinkEntry "(nat \<times> nat) list"
  | InternalLink nat nat LinkEntry "(nat \<times> nat) list"

text \<open>
  A pair that is not in the map gets a default constructed entry, whose link is an uninitialised
  pointer: the accesses of the network to it are out of range.
\<close>

definition link_entry_of :: "nat \<Rightarrow> nat \<Rightarrow> Topology \<Rightarrow> LinkEntry res" where
  "link_entry_of src dest t =
     (case map_of (m_link_map t) (src, dest) of None \<Rightarrow> Inl OutOfRange | Some le \<Rightarrow> Inr le)"

definition makeLink :: "Topology \<Rightarrow> nat \<Rightarrow> nat \<Rightarrow> (nat \<times> nat) list \<Rightarrow> made_link res" where
  "makeLink t src dest entry =
     assert_that (src \<ge> 2 * m_nodes t \<or> dest \<ge> 2 * m_nodes t)
       (if src < m_nodes t
        then res_bind (link_entry_of src dest t) (\<lambda>le. Inr (InLink src (dest - 2 * m_nodes t) le entry))
        else if dest < 2 * m_nodes t
        then assert_that (dest \<ge> m_nodes t)
               (res_bind (link_entry_of src dest t) (\<lambda>le.
                Inr (OutLink (src - 2 * m_nodes t) (dest - m_nodes t) le entry)))
        else assert_that (src \<ge> 2 * m_nodes t \<and> dest \<ge> 2 * m_nodes t)
               (res_bind (link_entry_of src dest t) (\<lambda>le.
                Inr (InternalLink (src - 2 * m_nodes t) (dest - 2 * m_nodes t) le entry))))"

section \<open>createLinks\<close>

definition max_switch_id :: "link_map \<Rightarrow> nat" where
  "max_switch_id lm = fold (\<lambda>((a, b), _) m. max (max m a) b) lm 0"

fun fill_links :: "link_map \<Rightarrow> matrix \<times> matrix \<Rightarrow> (matrix \<times> matrix) res" where
  "fill_links [] M = Inr M"
| "fill_links (((src, dst), le) # ls) (W, L) =
     res_bind (mset_at src dst (link_latency (le_link le)) L) (\<lambda>L'.
     res_bind (mset_at src dst (link_weight (le_link le)) W) (\<lambda>W'. fill_links ls (W', L')))"

fun zero_diagonal :: "nat list \<Rightarrow> matrix \<Rightarrow> matrix res" where
  "zero_diagonal [] W = Inr W"
| "zero_diagonal (i # is) W = res_bind (mset_at i i 0 W) (zero_diagonal is)"

text \<open>The weights and latencies before the search.\<close>

definition initial_matrices :: "link_map \<Rightarrow> (matrix \<times> matrix \<times> matrix) res" where
  "initial_matrices lm =
     (let n = max_switch_id lm + 1
      in res_bind (zero_diagonal [0..<n] (replicate n (replicate n INFINITE_LATENCY))) (\<lambda>W0.
         res_bind (fill_links lm (W0, replicate n (replicate n (-1)))) (\<lambda>(W, L).
         Inr (W, L, replicate n (replicate n 0)))))"

fun make_links :: "Topology \<Rightarrow> nat list \<Rightarrow> matrix \<Rightarrow> matrix \<Rightarrow> (nat \<times> nat) list \<Rightarrow> made_link list res" where
  "make_links t counts W dist [] = Inr []"
| "make_links t counts W dist ((i, j) # ps) =
     res_bind (mget W i j) (\<lambda>weight.
       if weight > 0 \<and> weight \<noteq> INFINITE_LATENCY
       then res_bind (shortest_path_to_node counts i j W dist) (\<lambda>destination_set.
            res_bind (makeLink t i j destination_set) (\<lambda>l.
            res_bind (make_links t counts W dist ps) (\<lambda>ls. Inr (l # ls))))
       else make_links t counts W dist ps)"

text \<open>All of \<open>createLinks\<close>: the paths found and the links made; \<^const>\<open>None\<close> when the search never ends.\<close>

definition createLinks :: "nat list \<Rightarrow> Topology \<Rightarrow> (paths \<times> made_link list) res option" where
  "createLinks counts t =
     (case initial_matrices (m_link_map t) of
        Inl e \<Rightarrow> Some (Inl e)
      | Inr (W, L, I) \<Rightarrow>
          (case shortest_path W L I of
             None \<Rightarrow> None
           | Some (Inl e) \<Rightarrow> Some (Inl e)
           | Some (Inr p) \<Rightarrow>
               Some (res_bind (make_links t counts W (current_dist p) (all_pairs (length W)))
                       (\<lambda>ls. Inr (p, ls)))))"

end
