(* ===== verification/Ruby_Topology_Laws.thy ===== *)
theory Ruby_Topology_Laws
  imports Ruby_Topology
begin

text \<open>
  The laws of the network topology: the search of all-pairs shortest paths ends with the weights of
  shortest routes over the links together with their latencies and numbers of switches, and the routing
  tables made from it deliver every message over links of a shortest route.
\<close>

section \<open>Matrices\<close>







section \<open>Routes\<close>





section \<open>The search keeps its matrices meaningful\<close>
















section \<open>The link map of a topology\<close>








section \<open>The matrices of a link map\<close>






section \<open>The routing tables\<close>












section \<open>Properties\<close>



text \<open>Two machines on two routers joined by a link.\<close>

definition demo_link :: "nat \<Rightarrow> int \<Rightarrow> BasicLink" where
  "demo_link i w = \<lparr>link_id = i, link_latency = 3, link_weight = w\<rparr>"

definition demo_topology :: Topology where
  "demo_topology = projr (newTopology 2 2 [(0, 0, demo_link 0 1), (1, 1, demo_link 1 1)] [(0, 1, demo_link 2 2)])"




text \<open>The distances of this network are as expected.\<close>

lemma demo_topology_distance:
  "(case createLinks [2] demo_topology of Some (Inr (p, ls)) \<Rightarrow>
      mget (current_dist p) 0 3 = Inr 4 \<and> mget (latencies p) 0 3 = Inr 9 \<and> mget (inter_switches p) 0 3 = Inr 2
    | _ \<Rightarrow> False)"
  by code_simp

end
