(* ===== verification/Ruby_Buffer.thy ===== *)
theory Ruby_Buffer
  imports Gem5_Prelude
begin

text \<open>
  The message buffers between the Ruby controllers: \<open>src/mem/ruby/buffers/MessageBuffer.{cc,hh}\<close> and
  \<open>MessageBufferNode.hh\<close>, with the parts of \<open>common/Consumer.hh\<close>, \<open>eventqueue/RubyEventQueue.cc\<close>,
  \<open>eventqueue/RubyEventQueueNode.hh\<close> and \<open>slicc_interface/Message.hh\<close> (lab 6's gem5) they use.

  Times (\<open>int64\<close>) and the sizes and counts of type \<open>int\<close> are integers.  The counter that breaks ties is
  \<open>uint64\<close> but passes through an \<open>int\<close> parameter of the node's constructor, so a node holds its low 32
  bits with the sign extended.  The heap of the standard library is a list in ascending order: its front
  is the least node, and a comparison of two nodes with equal keys fails the assertion of \<open>operator>\<close>
  (an insertion into the list compares the node with every smaller one and its successor; a binary heap
  compares it with some of them).
  Messages are held by value, with the part of the message class the buffer uses; the contents are a type
  parameter.  The sources of randomness are arguments.  \<open>storeEventInfo\<close> is a hook of the consumer that
  the buffer passes its virtual network to, and does nothing to the buffer.
\<close>

section \<open>Messages, nodes and the global clock\<close>

record 'm Message =
  m_LastEnqueueTime :: int
  m_DelayedCycles :: int
  contents :: 'm

record 'm MessageBufferNode =
  m_time :: int
  m_counter :: u64
  m_msgptr :: "'m Message"

text \<open>The 64-bit counter through the \<open>int\<close> parameter.\<close>

definition node_counter :: "u64 \<Rightarrow> u64" where
  "node_counter c = scast (ucast c :: u32)"

definition newNode :: "int \<Rightarrow> u64 \<Rightarrow> 'm Message \<Rightarrow> 'm MessageBufferNode" where
  "newNode time c m = \<lparr>m_time = time, m_counter = node_counter c, m_msgptr = m\<rparr>"

definition node_greater :: "'m MessageBufferNode \<Rightarrow> 'm MessageBufferNode \<Rightarrow> bool res" where
  "node_greater n1 n2 =
     (if m_time n1 = m_time n2
      then assert_that (m_counter n1 \<noteq> m_counter n2) (Inr (m_counter n1 > m_counter n2))
      else Inr (m_time n1 > m_time n2))"

fun push_heap :: "'m MessageBufferNode \<Rightarrow> 'm MessageBufferNode list \<Rightarrow> 'm MessageBufferNode list res" where
  "push_heap n [] = Inr [n]"
| "push_heap n (x # xs) =
     res_bind (node_greater n x) (\<lambda>g.
       if g then res_bind (push_heap n xs) (\<lambda>ys. Inr (x # ys)) else Inr (n # x # xs))"

text \<open>
  The global state the buffers read: the time of the Ruby event queue, whether times are randomized and
  whether a cache trace is being replayed, and for each consumer the times of its scheduled wakeups.
\<close>

record world =
  w_time :: int
  w_randomization :: bool
  w_warmup :: bool
  w_scheduled :: "nat \<Rightarrow> int list"

definition alreadyScheduled :: "nat \<Rightarrow> int \<Rightarrow> world \<Rightarrow> bool" where
  "alreadyScheduled c t w \<longleftrightarrow> t \<in> set (w_scheduled w c)"

definition insertScheduledWakeupTime :: "nat \<Rightarrow> int \<Rightarrow> world \<Rightarrow> world" where
  "insertScheduledWakeupTime c t w = w\<lparr>w_scheduled := (w_scheduled w)(c := t # w_scheduled w c)\<rparr>"

definition removeScheduledWakeupTime :: "nat \<Rightarrow> int \<Rightarrow> world \<Rightarrow> world res" where
  "removeScheduledWakeupTime c t w =
     assert_that (alreadyScheduled c t w)
       (Inr (w\<lparr>w_scheduled := (w_scheduled w)(c := filter (\<lambda>x. x \<noteq> t) (w_scheduled w c))\<rparr>))"

text \<open>A null consumer is \<^const>\<open>None\<close>.\<close>

definition scheduleEventAbsolute :: "nat option \<Rightarrow> int \<Rightarrow> world \<Rightarrow> world res" where
  "scheduleEventAbsolute consumer t w =
     (case consumer of
        None \<Rightarrow> Inl AssertFailed
      | Some c \<Rightarrow>
          if alreadyScheduled c t w then Inr w
          else assert_that (t > w_time w) (Inr (insertScheduledWakeupTime c t w)))"

definition scheduleEvent :: "nat option \<Rightarrow> int \<Rightarrow> world \<Rightarrow> world res" where
  "scheduleEvent consumer delta w = scheduleEventAbsolute consumer (delta + w_time w) w"

section \<open>The buffer\<close>

record 'm MessageBuffer =
  m_consumer_ptr :: "nat option"
  m_prio_heap :: "'m MessageBufferNode list"
  m_stall_msg_map :: "(addr \<times> 'm Message list) list"
  m_max_size :: int
  m_size :: int
  m_time_last_time_size_checked :: int
  m_size_last_time_size_checked :: int
  m_time_last_time_enqueue :: int
  m_time_last_time_pop :: int
  m_size_at_cycle_start :: int
  m_msgs_this_cycle :: int
  m_not_avail_count :: int
  m_msg_counter :: u64
  m_strict_fifo :: bool
  m_ordering_set :: bool
  m_randomization :: bool
  m_last_arrival_time :: int
  m_recycle_latency :: int

text \<open>The constructor; the recycle latency is left unset by it.\<close>

definition newMessageBuffer :: "int \<Rightarrow> 'm MessageBuffer" where
  "newMessageBuffer junk =
     \<lparr>m_consumer_ptr = None, m_prio_heap = [], m_stall_msg_map = [], m_max_size = -1, m_size = 0,
      m_time_last_time_size_checked = 0, m_size_last_time_size_checked = 0,
      m_time_last_time_enqueue = 0, m_time_last_time_pop = 0, m_size_at_cycle_start = 0,
      m_msgs_this_cycle = 0, m_not_avail_count = 0, m_msg_counter = 0, m_strict_fifo = True,
      m_ordering_set = False, m_randomization = True, m_last_arrival_time = 0, m_recycle_latency = junk\<rparr>"

definition setOrdering :: "bool \<Rightarrow> 'm MessageBuffer \<Rightarrow> 'm MessageBuffer" where
  "setOrdering order b = b\<lparr>m_strict_fifo := order, m_ordering_set := True\<rparr>"

definition setConsumer :: "nat \<Rightarrow> 'm MessageBuffer \<Rightarrow> 'm MessageBuffer res" where
  "setConsumer c b = assert_that (m_consumer_ptr b = None) (Inr (b\<lparr>m_consumer_ptr := Some c\<rparr>))"

definition buffer_resize :: "int \<Rightarrow> 'm MessageBuffer \<Rightarrow> 'm MessageBuffer" where
  "buffer_resize n b = b\<lparr>m_max_size := n\<rparr>"

definition setRandomization :: "bool \<Rightarrow> 'm MessageBuffer \<Rightarrow> 'm MessageBuffer" where
  "setRandomization r b = b\<lparr>m_randomization := r\<rparr>"

definition setRecycleLatency :: "int \<Rightarrow> 'm MessageBuffer \<Rightarrow> 'm MessageBuffer" where
  "setRecycleLatency n b = b\<lparr>m_recycle_latency := n\<rparr>"

definition getSize :: "world \<Rightarrow> 'm MessageBuffer \<Rightarrow> int \<times> 'm MessageBuffer" where
  "getSize w b =
     (if m_time_last_time_size_checked b = w_time w then (m_size_last_time_size_checked b, b)
      else (m_size b, b\<lparr>m_time_last_time_size_checked := w_time w,
                        m_size_last_time_size_checked := m_size b\<rparr>))"

definition visible_size :: "world \<Rightarrow> 'm MessageBuffer \<Rightarrow> int" where
  "visible_size w b =
     (if m_time_last_time_pop b < w_time w then m_size b
      else if m_time_last_time_enqueue b < w_time w then m_size_at_cycle_start b
      else m_size_at_cycle_start b + m_msgs_this_cycle b)"

definition areNSlotsAvailable :: "int \<Rightarrow> world \<Rightarrow> 'm MessageBuffer \<Rightarrow> bool \<times> 'm MessageBuffer" where
  "areNSlotsAvailable n w b =
     (if m_max_size b = -1 then (True, b)
      else if visible_size w b + n \<le> m_max_size b then (True, b)
      else (False, b\<lparr>m_not_avail_count := m_not_avail_count b + 1\<rparr>))"

definition isReady :: "world \<Rightarrow> 'm MessageBuffer \<Rightarrow> bool" where
  "isReady w b = (case m_prio_heap b of [] \<Rightarrow> False | n # _ \<Rightarrow> m_time n \<le> w_time w)"

definition isEmpty :: "'m MessageBuffer \<Rightarrow> bool" where
  "isEmpty b \<longleftrightarrow> m_prio_heap b = []"

definition heap_front :: "'m MessageBuffer \<Rightarrow> 'm MessageBufferNode res" where
  "heap_front b = (case m_prio_heap b of [] \<Rightarrow> Inl OutOfRange | n # _ \<Rightarrow> Inr n)"

definition peekAtHeadOfQueue :: "world \<Rightarrow> 'm MessageBuffer \<Rightarrow> 'm Message res" where
  "peekAtHeadOfQueue w b =
     assert_that (isReady w b) (res_bind (heap_front b) (\<lambda>n. Inr (m_msgptr n)))"

text \<open>\<open>random_time\<close> from the three numbers \<open>random()\<close> would return.\<close>

definition random_time :: "u32 \<times> u32 \<times> u32 \<Rightarrow> int" where
  "random_time r = (case r of (r1, r2, r3) \<Rightarrow>
     1 + uint (r1 AND 0x3) + (if r2 AND 0x7 = 0 then 100 + uint (r3 mod 0xf) else 0))"

text \<open>The arrival time, and the last arrival time as the calculation leaves it.\<close>

definition arrival :: "u32 \<times> u32 \<times> u32 \<Rightarrow> int \<Rightarrow> world \<Rightarrow> 'm MessageBuffer \<Rightarrow> int \<times> int" where
  "arrival rnd delta w b =
     (let current_time = w_time w; last = m_last_arrival_time b
      in if \<not> w_randomization w \<or> \<not> m_randomization b then (current_time + delta, last)
         else if m_strict_fifo b
         then let last' = (if last < current_time then current_time else last)
              in (last' + random_time rnd, last')
         else (current_time + random_time rnd, last))"

definition enqueue ::
  "u32 \<times> u32 \<times> u32 \<Rightarrow> 'm Message \<Rightarrow> int \<Rightarrow> 'm MessageBuffer \<times> world \<Rightarrow> ('m MessageBuffer \<times> world) res" where
  "enqueue rnd message delta st = (case st of (b, w) \<Rightarrow>
     let now = w_time w;
         b1 = b\<lparr>m_msg_counter := m_msg_counter b + 1, m_size := m_size b + 1\<rparr>;
         b2 = (if m_time_last_time_enqueue b1 < now
               then b1\<lparr>m_msgs_this_cycle := 0, m_time_last_time_enqueue := now\<rparr> else b1);
         b3 = b2\<lparr>m_msgs_this_cycle := m_msgs_this_cycle b2 + 1\<rparr>
     in if \<not> m_ordering_set b3 then Inl Panic
        else assert_that (delta > 0)
          (case arrival rnd delta w b3 of (arrival_time, last') \<Rightarrow>
             assert_that (arrival_time > now)
               (if m_strict_fifo b3 \<and> arrival_time < last' then Inl Panic
                else
                  let b4 = b3\<lparr>m_last_arrival_time := (if \<not> w_warmup w then arrival_time else last')\<rparr>
                  in assert_that (now \<ge> m_LastEnqueueTime message)
                    (let msg = message\<lparr>m_DelayedCycles := now - m_LastEnqueueTime message + m_DelayedCycles message,
                                       m_LastEnqueueTime := arrival_time\<rparr>
                     in res_bind (push_heap (newNode arrival_time (m_msg_counter b4) msg) (m_prio_heap b4)) (\<lambda>heap.
                        let b5 = b4\<lparr>m_prio_heap := heap\<rparr>
                        in case m_consumer_ptr b5 of
                             None \<Rightarrow> Inl Panic
                           | Some c \<Rightarrow> res_bind (scheduleEventAbsolute (Some c) arrival_time w) (\<lambda>w'. Inr (b5, w')))))))"

definition pop :: "world \<Rightarrow> 'm MessageBuffer \<Rightarrow> 'm MessageBuffer res" where
  "pop w b =
     assert_that (isReady w b)
       (let b1 = b\<lparr>m_prio_heap := tl (m_prio_heap b)\<rparr>;
            b2 = (if m_time_last_time_pop b1 < w_time w
                  then b1\<lparr>m_size_at_cycle_start := m_size b1, m_time_last_time_pop := w_time w\<rparr> else b1)
        in Inr (b2\<lparr>m_size := m_size b2 - 1\<rparr>))"

text \<open>\<open>front()\<close> of an empty heap, read before the assertion of \<open>pop\<close>, is out of range.\<close>

definition dequeue :: "world \<Rightarrow> 'm MessageBuffer \<Rightarrow> ('m Message \<times> 'm MessageBuffer) res" where
  "dequeue w b =
     res_bind (heap_front b) (\<lambda>n. res_bind (pop w b) (\<lambda>b'. Inr (m_msgptr n, b')))"

definition setAndReturnDelayCycles :: "world \<Rightarrow> 'm Message \<Rightarrow> (int \<times> 'm Message) res" where
  "setAndReturnDelayCycles w m =
     assert_that (m_LastEnqueueTime m \<le> w_time w)
       (let m' = m\<lparr>m_DelayedCycles := w_time w - m_LastEnqueueTime m + m_DelayedCycles m\<rparr>
        in assert_that (m_DelayedCycles m' \<ge> 0) (Inr (m_DelayedCycles m', m')))"

text \<open>The two variants that also return the cycles the message was delayed.\<close>

definition dequeue_getDelayCycles_msg ::
  "world \<Rightarrow> 'm MessageBuffer \<Rightarrow> (int \<times> 'm Message \<times> 'm MessageBuffer) res" where
  "dequeue_getDelayCycles_msg w b =
     res_bind (dequeue w b) (\<lambda>(m, b').
     res_bind (setAndReturnDelayCycles w m) (\<lambda>(d, m').
     assert_that (d \<ge> 0) (Inr (d, m', b'))))"

definition dequeue_getDelayCycles :: "world \<Rightarrow> 'm MessageBuffer \<Rightarrow> (int \<times> 'm MessageBuffer) res" where
  "dequeue_getDelayCycles w b =
     res_bind (heap_front b) (\<lambda>n.
     res_bind (setAndReturnDelayCycles w (m_msgptr n)) (\<lambda>(d, m').
     res_bind (pop w b) (\<lambda>b'.
     assert_that (d \<ge> 0) (Inr (d, b')))))"

definition delayHead ::
  "u32 \<times> u32 \<times> u32 \<Rightarrow> 'm MessageBuffer \<times> world \<Rightarrow> ('m MessageBuffer \<times> world) res" where
  "delayHead rnd st = (case st of (b, w) \<Rightarrow>
     res_bind (heap_front b) (\<lambda>n. enqueue rnd (m_msgptr n) 1 (b\<lparr>m_prio_heap := tl (m_prio_heap b)\<rparr>, w)))"

definition recycle :: "'m MessageBuffer \<times> world \<Rightarrow> ('m MessageBuffer \<times> world) res" where
  "recycle st = (case st of (b, w) \<Rightarrow>
     assert_that (isReady w b)
       (res_bind (heap_front b) (\<lambda>node.
        let node' = node\<lparr>m_time := w_time w + m_recycle_latency b\<rparr>
        in res_bind (push_heap node' (tl (m_prio_heap b))) (\<lambda>heap.
           res_bind (scheduleEventAbsolute (m_consumer_ptr b) (w_time w + m_recycle_latency b) w) (\<lambda>w'.
           Inr (b\<lparr>m_prio_heap := heap\<rparr>, w'))))))"

section \<open>Stalled messages\<close>

text \<open>\<open>m_stall_msg_map[addr].push_back(message)\<close> in the ordered map.\<close>

fun stall_insert :: "addr \<Rightarrow> 'm Message \<Rightarrow> (addr \<times> 'm Message list) list \<Rightarrow> (addr \<times> 'm Message list) list" where
  "stall_insert a m [] = [(a, [m])]"
| "stall_insert a m ((k, ms) # r) =
     (if a = k then (k, ms @ [m]) # r
      else if a < k then (a, [m]) # (k, ms) # r
      else (k, ms) # stall_insert a m r)"

definition stallMessage :: "nat \<Rightarrow> addr \<Rightarrow> world \<Rightarrow> 'm MessageBuffer \<Rightarrow> 'm MessageBuffer res" where
  "stallMessage block_bits a w b =
     assert_that (isReady w b)
       (assert_that (a AND mask block_bits = 0)
         (res_bind (heap_front b) (\<lambda>n.
          res_bind (pop w b) (\<lambda>b'.
          Inr (b'\<lparr>m_stall_msg_map := stall_insert a (m_msgptr n) (m_stall_msg_map b')\<rparr>)))))"

text \<open>The loop that puts a list of stalled messages back, to arrive in the next cycle.\<close>

fun requeue :: "'m Message list \<Rightarrow> 'm MessageBuffer \<times> world \<Rightarrow> ('m MessageBuffer \<times> world) res" where
  "requeue [] st = Inr st"
| "requeue (m # ms) (b, w) =
     (let b1 = b\<lparr>m_msg_counter := m_msg_counter b + 1\<rparr>;
          t = w_time w + 1
      in res_bind (push_heap (newNode t (m_msg_counter b1) m) (m_prio_heap b1)) (\<lambda>heap.
         res_bind (scheduleEventAbsolute (m_consumer_ptr b1) t w) (\<lambda>w'.
         requeue ms (b1\<lparr>m_prio_heap := heap\<rparr>, w'))))"

definition reanalyzeMessages ::
  "addr \<Rightarrow> 'm MessageBuffer \<times> world \<Rightarrow> ('m MessageBuffer \<times> world) res" where
  "reanalyzeMessages a st = (case st of (b, w) \<Rightarrow>
     (case map_of (m_stall_msg_map b) a of
        None \<Rightarrow> Inl AssertFailed
      | Some ms \<Rightarrow>
          res_bind (requeue ms (b, w)) (\<lambda>(b', w').
          Inr (b'\<lparr>m_stall_msg_map := filter (\<lambda>(k, _). k \<noteq> a) (m_stall_msg_map b')\<rparr>, w'))))"

definition reanalyzeAllMessages :: "'m MessageBuffer \<times> world \<Rightarrow> ('m MessageBuffer \<times> world) res" where
  "reanalyzeAllMessages st = (case st of (b, w) \<Rightarrow>
     res_bind (requeue (concat (map snd (m_stall_msg_map b))) (b, w)) (\<lambda>(b', w').
     Inr (b'\<lparr>m_stall_msg_map := []\<rparr>, w')))"

definition buffer_clear :: "'m MessageBuffer \<Rightarrow> 'm MessageBuffer" where
  "buffer_clear b = b\<lparr>m_prio_heap := [], m_msg_counter := 0, m_size := 0, m_time_last_time_enqueue := 0,
     m_time_last_time_pop := 0, m_size_at_cycle_start := 0, m_msgs_this_cycle := 0\<rparr>"

definition buffer_clearStats :: "'m MessageBuffer \<Rightarrow> 'm MessageBuffer" where
  "buffer_clearStats b = b\<lparr>m_not_avail_count := 0, m_msg_counter := 0\<rparr>"

end
