(* ===== verification/Ruby_Buffer_Laws.thy ===== *)
theory Ruby_Buffer_Laws
  imports Ruby_Buffer "HOL-Library.Multiset"
begin

text \<open>
  The laws of the message buffers: the heap, conservation of messages, strict FIFO order behind the
  interface \<open>message_channel\<close>, scheduled wakeups, the outcome of a dequeue, and the bound on the size.
\<close>

section \<open>The heap\<close>

lemma push_heap_mset: "push_heap n xs = Inr ys \<Longrightarrow> mset ys = add_mset n (mset xs)"
  by (induction n xs arbitrary: ys rule: push_heap.induct)
    (auto simp: res_simps split: if_splits)

lemma push_heap_set: "push_heap n xs = Inr ys \<Longrightarrow> set ys = insert n (set xs)"
  by (drule push_heap_mset) (metis set_mset_add_mset_insert set_mset_mset)

lemma push_heap_length: "push_heap n xs = Inr ys \<Longrightarrow> length ys = Suc (length xs)"
  by (drule push_heap_mset) (metis size_add_mset size_mset)

definition node_less :: "'m MessageBufferNode \<Rightarrow> 'm MessageBufferNode \<Rightarrow> bool" where
  "node_less x y \<longleftrightarrow> m_time x < m_time y \<or> m_time x = m_time y \<and> m_counter x < m_counter y"

lemma node_less_trans: "node_less x y \<Longrightarrow> node_less y z \<Longrightarrow> node_less x z"
  unfolding node_less_def by auto

lemma node_greater_iff: "node_greater x y = Inr g \<Longrightarrow> (g \<longleftrightarrow> node_less y x) \<and> (\<not> g \<longleftrightarrow> node_less x y)"
  by (auto simp: node_greater_def node_less_def res_simps split: if_splits)

lemma push_heap_sorted:
  "push_heap n xs = Inr ys \<Longrightarrow> sorted_wrt node_less xs \<Longrightarrow> sorted_wrt node_less ys"
proof (induction n xs arbitrary: ys rule: push_heap.induct)
  case (2 n x xs)
  from 2(2) obtain g where g: "node_greater n x = Inr g"
    and ys: "if g then (\<exists>zs. push_heap n xs = Inr zs \<and> ys = x # zs) else ys = n # x # xs"
    by (auto simp: res_simps split: if_splits)
  show ?case
  proof (cases g)
    case True
    then obtain zs where zs: "push_heap n xs = Inr zs" "ys = x # zs" using ys by auto
    have "sorted_wrt node_less zs" using 2 g True zs by simp
    then show ?thesis using zs 2(3) push_heap_set [OF zs(1)] node_greater_iff [OF g] True by auto
  next
    case False
    then show ?thesis using ys 2(3) node_greater_iff [OF g] node_less_trans [of n x] by auto
  qed
qed simp

lemma node_less_greater: "node_less x y \<Longrightarrow> node_greater y x = Inr True"
  by (auto simp: node_greater_def node_less_def assert_that_def)

lemma push_heap_last:
  "\<forall>x\<in>set xs. node_less x n \<Longrightarrow> push_heap n xs = Inr (xs @ [n])"
  by (induction n xs rule: push_heap.induct) (simp_all add: node_less_greater)

text \<open>The tie-breaking counter is increasing up to \<open>2\<^sup>3\<^sup>2\<close> messages, across the change of sign.\<close>

lemma uint_node_counter:
  assumes "uint c < 2 ^ 32"
  shows "uint (node_counter c) = (if uint c < 2 ^ 31 then uint c else uint c + (2 ^ 64 - 2 ^ 32))"
proof -
  have c0: "0 \<le> uint c" by simp
  have u: "uint (ucast c :: u32) = uint c" using assms by (simp add: unsigned_ucast_eq take_bit_int_eq_self)
  have "sint (ucast c :: u32) = (uint c + 2 ^ 31) mod 2 ^ 32 - 2 ^ 31"
    using u by (simp add: sint_uint signed_take_bit_eq_take_bit_shift take_bit_eq_mod)
  also have "\<dots> = (if uint c < 2 ^ 31 then uint c else uint c - 2 ^ 32)"
    using assms c0 mod_pos_pos_trivial [of "uint c + 2 ^ 31" "2 ^ 32"]
      mod_pos_pos_trivial [of "uint c - 2 ^ 31" "2 ^ 32"] mod_add_self2 [of "uint c - 2 ^ 31" "2 ^ 32"]
    by (auto simp: add.commute)
  finally have s: "sint (ucast c :: u32) = (if uint c < 2 ^ 31 then uint c else uint c - 2 ^ 32)" .
  have "uint (node_counter c) = take_bit 64 (sint (ucast c :: u32))"
    unfolding node_counter_def scast_eq [of "ucast c :: u32"] by (simp only: uint_word_of_int_eq, simp)
  also have "\<dots> = sint (ucast c :: u32) mod 2 ^ 64" by (simp only: take_bit_eq_mod)
  also have "\<dots> = (if uint c < 2 ^ 31 then uint c else uint c + (2 ^ 64 - 2 ^ 32))"
  proof (cases "uint c < 2 ^ 31")
    case False
    have "(uint c - 2 ^ 32) mod 2 ^ 64 = (uint c - 2 ^ 32 + 2 ^ 64) mod 2 ^ 64" by (simp only: mod_add_self2)
    also have "\<dots> = uint c - 2 ^ 32 + 2 ^ 64" using assms c0 by (intro mod_pos_pos_trivial) auto
    finally show ?thesis using False s by simp
  qed (use s c0 in simp)
  finally show ?thesis .
qed

lemma node_counter_mono:
  assumes "c < d" "unat d < 2 ^ 32"
  shows "node_counter c < node_counter d"
proof -
  have cd: "uint c < uint d" using assms(1) by (simp add: word_less_def)
  have d: "uint d < 2 ^ 32" 
  proof -
    have "int (unat d) < int (2 ^ 32)" using assms(2) by (simp only: of_nat_less_iff)
    then show ?thesis by simp
  qed
  then have "uint c < 2 ^ 32" using cd by linarith
  then have "uint (node_counter c) < uint (node_counter d)"
    using uint_node_counter [OF d] uint_node_counter [of c] cd d by (auto split: if_splits)
  then show ?thesis by (simp only: word_less_def)
qed

section \<open>Runs of a buffer\<close>

text \<open>
  The operations the controllers perform on a buffer, and the passing of time.  A wakeup leaves the set of
  scheduled times when its time comes.
\<close>

datatype 'm buf_op =
    Enqueue "u32 \<times> u32 \<times> u32" "'m Message" int
  | Dequeue
  | Recycle
  | Stall addr
  | Reanalyze addr
  | ReanalyzeAll
  | Advance int

definition advance :: "int \<Rightarrow> world \<Rightarrow> world res" where
  "advance t w =
     (if w_time w \<le> t
      then Inr (w\<lparr>w_time := t, w_scheduled := (\<lambda>c. filter (\<lambda>s. t < s) (w_scheduled w c))\<rparr>)
      else Inl OutOfRange)"

text \<open>The messages that leave the buffer, and the state after the operation.\<close>

fun buf_step :: "nat \<Rightarrow> 'm buf_op \<Rightarrow> 'm MessageBuffer \<times> world \<Rightarrow> ('m Message list \<times> 'm MessageBuffer \<times> world) res" where
  "buf_step bits (Enqueue rnd m d) st = res_bind (enqueue rnd m d st) (\<lambda>st'. Inr ([], st'))"
| "buf_step bits Dequeue (b, w) = res_bind (dequeue w b) (\<lambda>(m, b'). Inr ([m], b', w))"
| "buf_step bits Recycle st = res_bind (recycle st) (\<lambda>st'. Inr ([], st'))"
| "buf_step bits (Stall a) (b, w) = res_bind (stallMessage bits a w b) (\<lambda>b'. Inr ([], b', w))"
| "buf_step bits (Reanalyze a) st = res_bind (reanalyzeMessages a st) (\<lambda>st'. Inr ([], st'))"
| "buf_step bits ReanalyzeAll st = res_bind (reanalyzeAllMessages st) (\<lambda>st'. Inr ([], st'))"
| "buf_step bits (Advance t) (b, w) = res_bind (advance t w) (\<lambda>w'. Inr ([], b, w'))"

fun buf_run :: "nat \<Rightarrow> 'm buf_op list \<Rightarrow> 'm MessageBuffer \<times> world \<Rightarrow> ('m Message list \<times> 'm MessageBuffer \<times> world) res" where
  "buf_run bits [] st = Inr ([], st)"
| "buf_run bits (opn # ops) st =
     res_bind (buf_step bits opn st) (\<lambda>(out, st').
     res_bind (buf_run bits ops st') (\<lambda>(outs, st''). Inr (out @ outs, st'')))"

definition initial_buffer :: "bool \<Rightarrow> bool \<Rightarrow> int \<Rightarrow> int \<Rightarrow> nat \<Rightarrow> 'm MessageBuffer" where
  "initial_buffer ordered rnd mx latency c =
     (newMessageBuffer latency)\<lparr>m_strict_fifo := ordered, m_ordering_set := True, m_randomization := rnd,
        m_max_size := mx, m_consumer_ptr := Some c\<rparr>"

lemma initial_buffer_setup:
  "setConsumer c (setRandomization rnd (setOrdering ordered (buffer_resize mx (setRecycleLatency latency (newMessageBuffer junk))))) =
     Inr (initial_buffer ordered rnd mx latency c)"
  by (simp add: setConsumer_def setRandomization_def setOrdering_def buffer_resize_def setRecycleLatency_def
      newMessageBuffer_def initial_buffer_def)

section \<open>What the operations do\<close>

lemma scheduled_after:
  assumes "scheduleEventAbsolute (Some c) t w = Inr w'"
  shows "w_time w' = w_time w" "w_warmup w' = w_warmup w" "w_randomization w' = w_randomization w"
    "t \<in> set (w_scheduled w' c)" "set (w_scheduled w d) \<subseteq> set (w_scheduled w' d)"
  using assms
  by (auto simp: scheduleEventAbsolute_def alreadyScheduled_def insertScheduledWakeupTime_def res_simps split: if_splits)

text \<open>The message as it is stored: its delay so far and its arrival time are set.\<close>

definition stamped :: "int \<Rightarrow> int \<Rightarrow> 'm Message \<Rightarrow> 'm Message" where
  "stamped now t m = m\<lparr>m_DelayedCycles := now - m_LastEnqueueTime m + m_DelayedCycles m, m_LastEnqueueTime := t\<rparr>"

lemma contents_stamped [simp]: "contents (stamped now t m) = contents m"
  by (simp add: stamped_def)

lemma arrival_update [simp]:
  "arrival rnd d w (b\<lparr>m_msg_counter := c\<rparr>) = arrival rnd d w b"
  "arrival rnd d w (b\<lparr>m_size := i\<rparr>) = arrival rnd d w b"
  "arrival rnd d w (b\<lparr>m_msgs_this_cycle := i\<rparr>) = arrival rnd d w b"
  "arrival rnd d w (b\<lparr>m_time_last_time_enqueue := i\<rparr>) = arrival rnd d w b"
  by (simp_all add: arrival_def Let_def cong: if_cong)

lemma enqueue_cases:
  assumes "enqueue rnd m d (b, w) = Inr (b', w')"
  obtains t where
    "w_time w < t" "m_strict_fifo b \<longrightarrow> snd (arrival rnd d w b) \<le> t" "t = fst (arrival rnd d w b)"
    "m_LastEnqueueTime m \<le> w_time w"
    "push_heap (newNode t (m_msg_counter b + 1) (stamped (w_time w) t m)) (m_prio_heap b) = Inr (m_prio_heap b')"
    "\<exists>c. m_consumer_ptr b = Some c \<and> scheduleEventAbsolute (Some c) t w = Inr w'"
    "m_consumer_ptr b' = m_consumer_ptr b" "m_stall_msg_map b' = m_stall_msg_map b"
    "m_size b' = m_size b + 1" "m_msg_counter b' = m_msg_counter b + 1"
    "m_strict_fifo b' = m_strict_fifo b" "m_max_size b' = m_max_size b"
    "m_last_arrival_time b' = (if w_warmup w then snd (arrival rnd d w b) else t)"
    "m_time_last_time_enqueue b' = max (m_time_last_time_enqueue b) (w_time w)"
    "m_msgs_this_cycle b' = (if m_time_last_time_enqueue b < w_time w then 0 else m_msgs_this_cycle b) + 1"
    "m_time_last_time_pop b' = m_time_last_time_pop b" "m_size_at_cycle_start b' = m_size_at_cycle_start b"
    "m_recycle_latency b' = m_recycle_latency b" "m_randomization b' = m_randomization b"
proof -
  obtain t l where tl: "arrival rnd d w b = (t, l)" by force
  show thesis
    using assms tl
    by (intro that [of t])
      (auto simp: enqueue_def Let_def res_simps stamped_def max_def split: if_splits option.splits)
qed

lemma pop_cases:
  assumes "pop w b = Inr b'"
  obtains n where "m_prio_heap b = n # m_prio_heap b'" "m_time n \<le> w_time w"
    "m_consumer_ptr b' = m_consumer_ptr b" "m_stall_msg_map b' = m_stall_msg_map b"
    "m_size b' = m_size b - 1" "m_msg_counter b' = m_msg_counter b"
    "m_strict_fifo b' = m_strict_fifo b" "m_max_size b' = m_max_size b"
    "m_last_arrival_time b' = m_last_arrival_time b"
    "m_time_last_time_enqueue b' = m_time_last_time_enqueue b" "m_msgs_this_cycle b' = m_msgs_this_cycle b"
    "m_time_last_time_pop b' = max (m_time_last_time_pop b) (w_time w)"
    "m_size_at_cycle_start b' = (if m_time_last_time_pop b < w_time w then m_size b else m_size_at_cycle_start b)"
    "m_recycle_latency b' = m_recycle_latency b" "m_randomization b' = m_randomization b"
  using assms
  by (intro that [of "hd (m_prio_heap b)"])
    (auto simp: pop_def Let_def res_simps isReady_def max_def split: if_splits list.splits)

lemma dequeue_cases:
  "dequeue w b = Inr (m, b') \<longleftrightarrow> pop w b = Inr b' \<and> (\<exists>n. m_prio_heap b = n # m_prio_heap b' \<and> m = m_msgptr n)"
proof (cases "m_prio_heap b")
  case (Cons n r)
  have "m_prio_heap b' = r" if "pop w b = Inr b'" using that Cons by (auto elim: pop_cases)
  then show ?thesis using Cons by (auto simp: dequeue_def heap_front_def res_simps)
qed (auto simp: dequeue_def heap_front_def)

definition stalled :: "'m MessageBuffer \<Rightarrow> 'm Message list" where
  "stalled b = concat (map snd (m_stall_msg_map b))"

text \<open>The stall map is in order of its keys, as a map of the library is.\<close>

definition stall_sorted :: "'m MessageBuffer \<Rightarrow> bool" where
  "stall_sorted b \<longleftrightarrow> sorted_wrt (<) (map fst (m_stall_msg_map b))"

lemma stall_insert_keys: "set (map fst (stall_insert a m ms)) = insert a (set (map fst ms))"
  by (induction a m ms rule: stall_insert.induct) auto

lemma stall_insert_sorted:
  "sorted_wrt (<) (map fst ms) \<Longrightarrow> sorted_wrt (<) (map fst (stall_insert a m ms))"
proof (induction a m ms rule: stall_insert.induct)
  case (2 a m k ms r)
  show ?case
  proof (cases "a = k \<or> a < k")
    case True
    then show ?thesis using 2(2) by (auto intro: less_trans)
  next
    case False
    then have "k < a" by auto
    then show ?thesis using 2 False stall_insert_keys [of a m r] by auto
  qed
qed simp

lemma stall_insert_mset:
  "mset (concat (map snd (stall_insert a m ms))) = add_mset m (mset (concat (map snd ms)))"
  by (induction a m ms rule: stall_insert.induct) auto

lemma stall_remove_mset:
  fixes ms :: "('a::linorder \<times> 'b list) list"
  assumes "sorted_wrt (<) (map fst ms)" "map_of ms a = Some xs"
  shows "mset (concat (map snd ms)) = mset xs + mset (concat (map snd (filter (\<lambda>(k, _). k \<noteq> a) ms)))"
  using assms
proof (induction ms)
  case (Cons p ms)
  obtain k ys where p: "p = (k, ys)" by force
  show ?case
  proof (cases "k = a")
    case True
    have "\<forall>q\<in>set ms. a < fst q" using Cons(2) p True by simp
    then have "filter (\<lambda>(k, _). k \<noteq> a) ms = ms" by (intro filter_True) fastforce
    then show ?thesis using Cons(3) p True by simp
  next
    case False
    then show ?thesis using Cons p by simp
  qed
qed simp

text \<open>The stalled messages come back one by one, each scheduled for the next cycle.\<close>

lemma requeue_spec:
  assumes "requeue ms (b, w) = Inr (b', w')" "m_consumer_ptr b = Some c"
  shows "mset (map m_msgptr (m_prio_heap b')) = mset ms + mset (map m_msgptr (m_prio_heap b))"
    "\<forall>n\<in>set (m_prio_heap b'). n \<in> set (m_prio_heap b) \<or>
       m_time n = w_time w + 1 \<and> m_time n \<in> set (w_scheduled w' c) \<and> m_msgptr n \<in> set ms"
    "sorted_wrt node_less (m_prio_heap b) \<Longrightarrow> sorted_wrt node_less (m_prio_heap b')"
    "m_consumer_ptr b' = Some c" "m_stall_msg_map b' = m_stall_msg_map b"
    "m_recycle_latency b' = m_recycle_latency b"
    "w_time w' = w_time w" "w_warmup w' = w_warmup w" "\<forall>d. set (w_scheduled w d) \<subseteq> set (w_scheduled w' d)"
    "m_size b' = m_size b"
proof -
  have "mset (map m_msgptr (m_prio_heap b')) = mset ms + mset (map m_msgptr (m_prio_heap b)) \<and>
    (\<forall>n\<in>set (m_prio_heap b'). n \<in> set (m_prio_heap b) \<or>
       m_time n = w_time w + 1 \<and> m_time n \<in> set (w_scheduled w' c) \<and> m_msgptr n \<in> set ms) \<and>
    (sorted_wrt node_less (m_prio_heap b) \<longrightarrow> sorted_wrt node_less (m_prio_heap b')) \<and>
    m_consumer_ptr b' = Some c \<and> m_stall_msg_map b' = m_stall_msg_map b \<and>
    m_recycle_latency b' = m_recycle_latency b \<and>
    w_time w' = w_time w \<and> w_warmup w' = w_warmup w \<and> (\<forall>d. set (w_scheduled w d) \<subseteq> set (w_scheduled w' d)) \<and>
    m_size b' = m_size b"
    using assms
  proof (induction ms arbitrary: b w)
    case (Cons m ms)
    obtain h w1 where h: "push_heap (newNode (w_time w + 1) (m_msg_counter b + 1) m) (m_prio_heap b) = Inr h"
      and w1: "scheduleEventAbsolute (Some c) (w_time w + 1) w = Inr w1"
      and r: "requeue ms (b\<lparr>m_msg_counter := m_msg_counter b + 1, m_prio_heap := h\<rparr>, w1) = Inr (b', w')"
      using Cons(2,3) by (auto simp: Let_def res_simps)
    note s = scheduled_after [OF w1]
    have "mset (map m_msgptr h) = add_mset m (mset (map m_msgptr (m_prio_heap b)))"
      using push_heap_mset [OF h] by (simp add: newNode_def)
    moreover have "sorted_wrt node_less (m_prio_heap b) \<longrightarrow> sorted_wrt node_less h"
      using push_heap_sorted [OF h] by simp
    moreover have "m_time (newNode (w_time w + 1) (m_msg_counter b + 1) m) = w_time w + 1"
      "m_msgptr (newNode (w_time w + 1) (m_msg_counter b + 1) m) = m" by (simp_all add: newNode_def)
    ultimately show ?case
      using Cons.IH [OF r] Cons(3) s push_heap_set [OF h] by (simp add: subset_iff) fastforce
  qed auto
  then show "mset (map m_msgptr (m_prio_heap b')) = mset ms + mset (map m_msgptr (m_prio_heap b))"
    "\<forall>n\<in>set (m_prio_heap b'). n \<in> set (m_prio_heap b) \<or>
       m_time n = w_time w + 1 \<and> m_time n \<in> set (w_scheduled w' c) \<and> m_msgptr n \<in> set ms"
    "sorted_wrt node_less (m_prio_heap b) \<Longrightarrow> sorted_wrt node_less (m_prio_heap b')"
    "m_consumer_ptr b' = Some c" "m_stall_msg_map b' = m_stall_msg_map b"
    "m_recycle_latency b' = m_recycle_latency b"
    "w_time w' = w_time w" "w_warmup w' = w_warmup w" "\<forall>d. set (w_scheduled w d) \<subseteq> set (w_scheduled w' d)"
    "m_size b' = m_size b"
    by auto
qed

section \<open>The invariant\<close>

definition heap_ok :: "nat \<Rightarrow> world \<Rightarrow> 'm MessageBufferNode list \<Rightarrow> bool" where
  "heap_ok c w h \<longleftrightarrow> sorted_wrt node_less h \<and>
     (\<forall>n\<in>set h. (w_time w < m_time n \<longrightarrow> m_time n \<in> set (w_scheduled w c)) \<and>
        m_LastEnqueueTime (m_msgptr n) \<le> m_time n \<and> 0 \<le> m_DelayedCycles (m_msgptr n))"

definition buf_ok :: "nat \<Rightarrow> 'm MessageBuffer \<times> world \<Rightarrow> bool" where
  "buf_ok c st \<longleftrightarrow> (case st of (b, w) \<Rightarrow>
     m_consumer_ptr b = Some c \<and> 0 \<le> m_recycle_latency b \<and> stall_sorted b \<and> heap_ok c w (m_prio_heap b) \<and>
     (\<forall>m\<in>set (stalled b). m_LastEnqueueTime m \<le> w_time w \<and> 0 \<le> m_DelayedCycles m))"

lemma buf_okI:
  assumes "m_consumer_ptr b = Some c" "0 \<le> m_recycle_latency b" "stall_sorted b" "heap_ok c w (m_prio_heap b)"
    "\<And>m. m \<in> set (stalled b) \<Longrightarrow> m_LastEnqueueTime m \<le> w_time w \<and> 0 \<le> m_DelayedCycles m"
  shows "buf_ok c (b, w)"
  using assms by (simp add: buf_ok_def)

definition held :: "'m MessageBuffer \<Rightarrow> 'm multiset" where
  "held b = image_mset (contents \<circ> m_msgptr) (mset (m_prio_heap b)) + image_mset contents (mset (stalled b))"

text \<open>A controller hands over messages whose delay is not negative.\<close>

fun op_ok :: "'m buf_op \<Rightarrow> bool" where
  "op_ok (Enqueue rnd m d) \<longleftrightarrow> 0 \<le> m_DelayedCycles m"
| "op_ok _ \<longleftrightarrow> True"

fun op_in :: "'m buf_op \<Rightarrow> 'm list" where
  "op_in (Enqueue rnd m d) = [contents m]"
| "op_in _ = []"

lemma heap_ok_tl: "heap_ok c w (n # h) \<Longrightarrow> heap_ok c w h"
  by (simp add: heap_ok_def)

lemma heap_ok_world:
  assumes "heap_ok c w h" "w_time w' = w_time w" "set (w_scheduled w c) \<subseteq> set (w_scheduled w' c)"
  shows "heap_ok c w' h"
  using assms by (auto simp: heap_ok_def)

lemma heap_ok_push:
  assumes "heap_ok c w h" "push_heap n h = Inr h'" "m_time n \<in> set (w_scheduled w c)"
    "m_LastEnqueueTime (m_msgptr n) \<le> m_time n" "0 \<le> m_DelayedCycles (m_msgptr n)"
  shows "heap_ok c w h'"
  using assms push_heap_sorted [OF assms(2)] push_heap_set [OF assms(2)] by (auto simp: heap_ok_def)

lemma enqueue_ok:
  assumes "enqueue rnd m d (b, w) = Inr (b', w')" "buf_ok c (b, w)" "0 \<le> m_DelayedCycles m"
  shows "buf_ok c (b', w')" "held b' = add_mset (contents m) (held b)"
proof -
  from assms(1) obtain t where t: "w_time w < t"
    "m_LastEnqueueTime m \<le> w_time w"
    "push_heap (newNode t (m_msg_counter b + 1) (stamped (w_time w) t m)) (m_prio_heap b) = Inr (m_prio_heap b')"
    "\<exists>c. m_consumer_ptr b = Some c \<and> scheduleEventAbsolute (Some c) t w = Inr w'"
    "m_consumer_ptr b' = m_consumer_ptr b" "m_stall_msg_map b' = m_stall_msg_map b"
    "m_recycle_latency b' = m_recycle_latency b"
    by (rule enqueue_cases) blast
  have b: "m_consumer_ptr b = Some c" "heap_ok c w (m_prio_heap b)" using assms(2) by (auto simp: buf_ok_def)
  then have w': "scheduleEventAbsolute (Some c) t w = Inr w'" using t(4) by simp
  note s = scheduled_after [OF w']
  have "heap_ok c w' (m_prio_heap b)" using heap_ok_world [OF b(2) s(1) s(5)] .
  then have "heap_ok c w' (m_prio_heap b')"
    by (rule heap_ok_push [OF _ t(3)]) (use s t assms(3) in \<open>simp_all add: newNode_def stamped_def\<close>)
  then show "buf_ok c (b', w')"
    using assms(2) t s by (auto simp: buf_ok_def stall_sorted_def stalled_def)
  show "held b' = add_mset (contents m) (held b)"
    using push_heap_mset [OF t(3)] t(6) by (simp add: held_def stalled_def newNode_def)
qed

lemma pop_ok:
  assumes "pop w b = Inr b'" "buf_ok c (b, w)"
  shows "buf_ok c (b', w)"
    "m_prio_heap b = n # m_prio_heap b' \<Longrightarrow> add_mset (contents (m_msgptr n)) (held b') = held b"
  by (rule pop_cases [OF assms(1)],
      use assms(2) in \<open>auto simp: buf_ok_def stall_sorted_def stalled_def held_def dest: heap_ok_tl\<close>)+

lemma recycle_ok:
  assumes "recycle (b, w) = Inr (b', w')" "buf_ok c (b, w)"
  shows "buf_ok c (b', w')" "held b' = held b"
proof -
  have b: "m_consumer_ptr b = Some c" "heap_ok c w (m_prio_heap b)" "0 \<le> m_recycle_latency b"
    using assms(2) by (auto simp: buf_ok_def)
  obtain n h where n: "m_prio_heap b = n # h" "m_time n \<le> w_time w"
    using assms(1) by (auto simp: recycle_def isReady_def res_simps split: list.splits)
  define n' where "n' = n\<lparr>m_time := w_time w + m_recycle_latency b\<rparr>"
  have h: "push_heap n' h = Inr (m_prio_heap b')"
    "scheduleEventAbsolute (Some c) (w_time w + m_recycle_latency b) w = Inr w'"
    "b' = b\<lparr>m_prio_heap := m_prio_heap b'\<rparr>"
    using assms(1) n b(1) by (auto simp: recycle_def isReady_def heap_front_def Let_def n'_def res_simps)
  note s = scheduled_after [OF h(2)]
  have hn: "heap_ok c w h" using b(2) n by (auto dest: heap_ok_tl)
  have mn: "m_LastEnqueueTime (m_msgptr n) \<le> m_time n \<and> 0 \<le> m_DelayedCycles (m_msgptr n)"
    using b(2) n by (simp add: heap_ok_def)
  have "heap_ok c w' h" by (rule heap_ok_world [OF hn s(1) s(5)])
  then have "heap_ok c w' (m_prio_heap b')"
    by (rule heap_ok_push [OF _ h(1)]) (use s n mn b(3) in \<open>simp_all add: n'_def\<close>)
  moreover have "m_consumer_ptr b' = Some c" "m_stall_msg_map b' = m_stall_msg_map b" "m_recycle_latency b' = m_recycle_latency b"
    using b(1) by (subst h(3), simp)+
  ultimately show "buf_ok c (b', w')" using assms(2) s(1) by (auto simp: buf_ok_def stall_sorted_def stalled_def)
  show "held b' = held b"
    using push_heap_mset [OF h(1)] n(1) \<open>m_stall_msg_map b' = m_stall_msg_map b\<close>
    by (simp add: held_def stalled_def n'_def)
qed

lemma stall_ok:
  assumes "stallMessage bits a w b = Inr b'" "buf_ok c (b, w)"
  shows "buf_ok c (b', w)" "held b' = held b"
proof -
  obtain n b1 where n: "heap_front b = Inr n" "pop w b = Inr b1"
    and b': "b' = b1\<lparr>m_stall_msg_map := stall_insert a (m_msgptr n) (m_stall_msg_map b1)\<rparr>"
    using assms(1) by (auto simp: stallMessage_def res_simps)
  have h: "m_prio_heap b = n # m_prio_heap b1" "m_time n \<le> w_time w"
    using pop_cases [OF n(2)] n(1) by (auto simp: heap_front_def split: list.splits)
  have "buf_ok c (b1, w)" by (rule pop_ok(1) [OF n(2) assms(2)])
  moreover have "m_LastEnqueueTime (m_msgptr n) \<le> w_time w" "0 \<le> m_DelayedCycles (m_msgptr n)"
    using assms(2) h by (auto simp: buf_ok_def heap_ok_def)
  moreover have "set (stalled b') = insert (m_msgptr n) (set (stalled b1))"
    using arg_cong [OF stall_insert_mset [of a "m_msgptr n" "m_stall_msg_map b1"], of set_mset]
    by (simp add: b' stalled_def)
  ultimately show "buf_ok c (b', w)"
    by (auto simp: buf_ok_def b' stall_sorted_def intro!: stall_insert_sorted)
  show "held b' = held b"
    using pop_ok(2) [OF n(2) assms(2) h(1)] stall_insert_mset [of a "m_msgptr n" "m_stall_msg_map b1"]
    by (simp add: held_def b' stalled_def)
qed

lemma requeue_ok:
  assumes "requeue ms (b, w) = Inr (b1, w')" "buf_ok c (b, w)" "set ms \<subseteq> set (stalled b)"
    "stall_sorted b'" "set (stalled b') \<subseteq> set (stalled b)" "mset (stalled b) = mset ms + mset (stalled b')"
    "b' = b1\<lparr>m_stall_msg_map := m_stall_msg_map b'\<rparr>"
  shows "buf_ok c (b', w')" "held b' = held b"
proof -
  have b: "m_consumer_ptr b = Some c" "heap_ok c w (m_prio_heap b)" "0 \<le> m_recycle_latency b"
    using assms(2) by (auto simp: buf_ok_def)
  have b1: "m_prio_heap b' = m_prio_heap b1" "m_consumer_ptr b' = m_consumer_ptr b1"
    "m_recycle_latency b' = m_recycle_latency b1" by (subst assms(7), simp)+
  note r = requeue_spec [OF assms(1) b(1)]
  have st: "\<forall>m\<in>set (stalled b). m_LastEnqueueTime m \<le> w_time w \<and> 0 \<le> m_DelayedCycles m"
    using assms(2) by (simp add: buf_ok_def)
  have "heap_ok c w' (m_prio_heap b')"
    unfolding heap_ok_def b1
  proof (intro conjI ballI)
    show "sorted_wrt node_less (m_prio_heap b1)" using r(3) b(2) by (simp add: heap_ok_def)
  next
    fix n assume n: "n \<in> set (m_prio_heap b1)"
    have sub: "set (w_scheduled w c) \<subseteq> set (w_scheduled w' c)" using r(9) by simp
    from bspec [OF r(2) n]
    have "(w_time w' < m_time n \<longrightarrow> m_time n \<in> set (w_scheduled w' c)) \<and>
      m_LastEnqueueTime (m_msgptr n) \<le> m_time n \<and> 0 \<le> m_DelayedCycles (m_msgptr n)"
    proof (elim disjE conjE)
      assume "n \<in> set (m_prio_heap b)"
      then show ?thesis using b(2) r(7) sub by (auto simp: heap_ok_def)
    next
      assume a: "m_time n = w_time w + 1" "m_time n \<in> set (w_scheduled w' c)" "m_msgptr n \<in> set ms"
      then have "m_msgptr n \<in> set (stalled b)" using assms(3) by blast
      then show ?thesis using st a by auto
    qed
    then show "w_time w' < m_time n \<longrightarrow> m_time n \<in> set (w_scheduled w' c)"
      "m_LastEnqueueTime (m_msgptr n) \<le> m_time n" "0 \<le> m_DelayedCycles (m_msgptr n)" by auto
  qed
  then show "buf_ok c (b', w')"
    using r b b1 assms(4,5) st by (intro buf_okI) auto
  have "image_mset (contents \<circ> m_msgptr) (mset (m_prio_heap b1)) =
    image_mset contents (mset ms) + image_mset (contents \<circ> m_msgptr) (mset (m_prio_heap b))"
    using arg_cong [OF r(1), of "image_mset contents"] by (simp add: multiset.map_comp)
  then show "held b' = held b" using b1 assms(6) by (simp add: held_def)
qed

lemma reanalyze_ok:
  assumes "reanalyzeMessages a (b, w) = Inr (b', w')" "buf_ok c (b, w)"
  shows "buf_ok c (b', w')" "held b' = held b"
proof -
  obtain ms b1 where ms: "map_of (m_stall_msg_map b) a = Some ms" "requeue ms (b, w) = Inr (b1, w')"
    and b': "b' = b1\<lparr>m_stall_msg_map := filter (\<lambda>(k, _). k \<noteq> a) (m_stall_msg_map b1)\<rparr>"
    using assms(1) by (auto simp: reanalyzeMessages_def res_simps split: option.splits)
  have so: "sorted_wrt (<) (map fst (m_stall_msg_map b))" and c: "m_consumer_ptr b = Some c"
    using assms(2) by (auto simp: buf_ok_def stall_sorted_def)
  have b1: "m_stall_msg_map b1 = m_stall_msg_map b" by (rule requeue_spec [OF ms(2) c])
  have m: "mset (stalled b) = mset ms + mset (stalled b')"
    using stall_remove_mset [OF so ms(1)] by (simp add: stalled_def b' b1)
  have "set ms \<subseteq> set (stalled b)" "set (stalled b') \<subseteq> set (stalled b)"
    using arg_cong [OF m, of set_mset] by auto
  moreover have "stall_sorted b'"
    using so by (simp add: stall_sorted_def b' b1 sorted_wrt_map sorted_wrt_filter)
  ultimately show "buf_ok c (b', w')" "held b' = held b"
    using requeue_ok [OF ms(2) assms(2) _ _ _ m] by (simp_all add: b')
qed

lemma reanalyze_all_ok:
  assumes "reanalyzeAllMessages (b, w) = Inr (b', w')" "buf_ok c (b, w)"
  shows "buf_ok c (b', w')" "held b' = held b"
proof -
  obtain b1 where ms: "requeue (stalled b) (b, w) = Inr (b1, w')"
    and b': "b' = b1\<lparr>m_stall_msg_map := []\<rparr>"
    using assms(1) by (auto simp: reanalyzeAllMessages_def stalled_def res_simps)
  have "mset (stalled b) = mset (stalled b) + mset (stalled b')" by (simp add: b' stalled_def)
  then show "buf_ok c (b', w')" "held b' = held b"
    using requeue_ok [OF ms assms(2), of b'] by (simp_all add: b' stalled_def stall_sorted_def)
qed

lemma advance_ok:
  assumes "advance t w = Inr w'" "buf_ok c (b, w)"
  shows "buf_ok c (b, w')"
  using assms by (auto simp: advance_def buf_ok_def heap_ok_def split: if_splits)

text \<open>Every operation keeps the invariant, and no message appears or is lost.\<close>

lemma buf_step_ok:
  assumes "buf_step bits opn st = Inr (out, st')" "buf_ok c st" "op_ok opn"
  shows "buf_ok c st' \<and> mset (map contents out) + held (fst st') = held (fst st) + mset (op_in opn)"
proof -
  obtain b w where st: "st = (b, w)" by force
  obtain b' w' where st': "st' = (b', w')" by force
  show ?thesis
  proof (cases opn)
    case (Enqueue r m d)
    then show ?thesis using assms st st' by (auto simp: res_simps dest: enqueue_ok)
  next
    case Dequeue
    then obtain m n where "out = [m]" "w' = w" "pop w b = Inr b'" "m_prio_heap b = n # m_prio_heap b'" "m = m_msgptr n"
      using assms(1) st st' by (auto simp: res_simps dequeue_cases)
    then show ?thesis
      using pop_ok(1) [of w b b' c] pop_ok(2) [of w b b' c n] assms(2) st st' Dequeue by simp
  next
    case Recycle
    then show ?thesis using assms st st' by (auto simp: res_simps dest: recycle_ok)
  next
    case (Stall a)
    then show ?thesis using assms st st' by (auto simp: res_simps dest: stall_ok)
  next
    case (Reanalyze a)
    then show ?thesis using assms st st' by (auto simp: res_simps dest: reanalyze_ok)
  next
    case ReanalyzeAll
    then show ?thesis using assms st st' by (auto simp: res_simps dest: reanalyze_all_ok)
  next
    case (Advance t)
    then show ?thesis using assms st st' by (auto simp: res_simps dest: advance_ok)
  qed
qed

lemma buf_run_ok:
  assumes "buf_run bits ops st = Inr (outs, st')" "buf_ok c st" "\<forall>opn\<in>set ops. op_ok opn"
  shows "buf_ok c st' \<and>
    mset (map contents outs) + held (fst st') = held (fst st) + mset (concat (map op_in ops))"
  using assms
proof (induction ops arbitrary: st outs)
  case (Cons opn ops)
  obtain out st1 outs1 where 1: "buf_step bits opn st = Inr (out, st1)"
    and 2: "buf_run bits ops st1 = Inr (outs1, st')" and o: "outs = out @ outs1"
    using Cons(2) by (auto simp: res_simps)
  have s: "buf_ok c st1 \<and> mset (map contents out) + held (fst st1) = held (fst st) + mset (op_in opn)"
    by (rule buf_step_ok [OF 1 Cons(3)]) (use Cons(4) in simp)
  then have r: "buf_ok c st' \<and> mset (map contents outs1) + held (fst st') = held (fst st1) + mset (concat (map op_in ops))"
    using Cons.IH [OF 2] Cons(4) by simp
  have "mset (map contents outs) + held (fst st') = mset (map contents out) + (mset (map contents outs1) + held (fst st'))"
    using o by simp
  also have "\<dots> = held (fst st) + mset (op_in opn) + mset (concat (map op_in ops))"
    using r s by (metis union_assoc)
  finally show ?case using r by (simp add: union_assoc)
qed simp

lemma initial_buffer_ok:
  "0 \<le> latency \<Longrightarrow> buf_ok c (initial_buffer ordered rnd mx latency c, w)"
  "held (initial_buffer ordered rnd mx latency c) = {#}"
  by (simp_all add: buf_ok_def initial_buffer_def newMessageBuffer_def stall_sorted_def heap_ok_def stalled_def held_def)

section \<open>Strict FIFO order\<close>

text \<open>
  What a controller relies on in a channel to another: messages come out in the order they were put in.
  \<open>room\<close> is how many more messages the channel may take before its promise ends.
\<close>

datatype ('i, 't) chan_op = Put 'i | Take | Tick 't

fun chan_run ::
  "('i \<Rightarrow> 's \<Rightarrow> 's res) \<Rightarrow> ('s \<Rightarrow> ('o \<times> 's) res) \<Rightarrow> ('t \<Rightarrow> 's \<Rightarrow> 's res) \<Rightarrow> ('i, 't) chan_op list \<Rightarrow> 's \<Rightarrow> ('o list \<times> 's) res"
where
  "chan_run put get tick [] s = Inr ([], s)"
| "chan_run put get tick (Put i # ops) s = res_bind (put i s) (chan_run put get tick ops)"
| "chan_run put get tick (Take # ops) s =
     res_bind (get s) (\<lambda>(x, s'). res_bind (chan_run put get tick ops s') (\<lambda>(xs, s''). Inr (x # xs, s'')))"
| "chan_run put get tick (Tick t # ops) s = res_bind (tick t s) (chan_run put get tick ops)"

fun chan_puts :: "('i, 't) chan_op list \<Rightarrow> 'i list" where
  "chan_puts [] = []"
| "chan_puts (Put i # ops) = i # chan_puts ops"
| "chan_puts (_ # ops) = chan_puts ops"

locale message_channel =
  fixes inv :: "'s \<Rightarrow> bool" and queue :: "'s \<Rightarrow> 'a list" and room :: "'s \<Rightarrow> nat"
    and put :: "'i \<Rightarrow> 's \<Rightarrow> 's res" and get :: "'s \<Rightarrow> ('o \<times> 's) res" and tick :: "'t \<Rightarrow> 's \<Rightarrow> 's res"
    and in_val :: "'i \<Rightarrow> 'a" and out_val :: "'o \<Rightarrow> 'a"
  assumes put_law: "inv s \<Longrightarrow> 0 < room s \<Longrightarrow> put i s = Inr s' \<Longrightarrow>
      inv s' \<and> queue s' = queue s @ [in_val i] \<and> room s = Suc (room s')"
    and get_law: "inv s \<Longrightarrow> get s = Inr (x, s') \<Longrightarrow> inv s' \<and> queue s = out_val x # queue s' \<and> room s' = room s"
    and tick_law: "inv s \<Longrightarrow> tick t s = Inr s' \<Longrightarrow> inv s' \<and> queue s' = queue s \<and> room s' = room s"
begin

lemma run_fifo:
  assumes "chan_run put get tick ops s = Inr (outs, s')" "inv s" "length (chan_puts ops) \<le> room s"
  shows "inv s' \<and> map out_val outs @ queue s' = queue s @ map in_val (chan_puts ops)"
  using assms
proof (induction ops arbitrary: s outs)
  case (Cons opn ops)
  show ?case
  proof (cases opn)
    case (Put i)
    then obtain s1 where 1: "put i s = Inr s1" and 2: "chan_run put get tick ops s1 = Inr (outs, s')"
      using Cons(2) by (auto simp: res_simps)
    have p: "inv s1 \<and> queue s1 = queue s @ [in_val i] \<and> room s = Suc (room s1)"
      by (rule put_law [OF Cons(3) _ 1]) (use Cons(4) Put in simp)
    then show ?thesis using Cons.IH [OF 2] Cons(4) Put by simp
  next
    case Take
    then obtain x s1 xs where 1: "get s = Inr (x, s1)" and 2: "chan_run put get tick ops s1 = Inr (xs, s')"
      and o: "outs = x # xs"
      using Cons(2) by (auto simp: res_simps)
    show ?thesis using get_law [OF Cons(3) 1] Cons.IH [OF 2] Cons(4) Take o by simp
  next
    case (Tick t)
    then obtain s1 where 1: "tick t s = Inr s1" and 2: "chan_run put get tick ops s1 = Inr (outs, s')"
      using Cons(2) by (auto simp: res_simps)
    show ?thesis using tick_law [OF Cons(3) 1] Cons.IH [OF 2] Cons(4) Tick by simp
  qed
qed simp

end

definition buffer_put :: "(u32 \<times> u32 \<times> u32) \<times> 'm Message \<times> int \<Rightarrow> 'm MessageBuffer \<times> world \<Rightarrow> ('m MessageBuffer \<times> world) res" where
  "buffer_put i st = enqueue (fst i) (fst (snd i)) (snd (snd i)) st"

definition buffer_get :: "'m MessageBuffer \<times> world \<Rightarrow> ('m Message \<times> 'm MessageBuffer \<times> world) res" where
  "buffer_get st = res_bind (dequeue (snd st) (fst st)) (\<lambda>(m, b'). Inr (m, b', snd st))"

definition buffer_tick :: "int \<Rightarrow> 'm MessageBuffer \<times> world \<Rightarrow> ('m MessageBuffer \<times> world) res" where
  "buffer_tick t st = res_bind (advance t (snd st)) (\<lambda>w'. Inr (fst st, w'))"

text \<open>
  A strict buffer outside a cache warmup: every node arrives no later than the last arrival recorded, and
  its counter came from one not above the present one, which has not passed \<open>2\<^sup>3\<^sup>2\<close>.
\<close>

definition fifo_ok :: "'m MessageBuffer \<times> world \<Rightarrow> bool" where
  "fifo_ok st \<longleftrightarrow> (case st of (b, w) \<Rightarrow>
     m_strict_fifo b \<and> \<not> w_warmup w \<and> unat (m_msg_counter b) < 2 ^ 32 \<and>
     (\<forall>n\<in>set (m_prio_heap b). m_time n \<le> m_last_arrival_time b \<and>
        (\<exists>k\<le>m_msg_counter b. m_counter n = node_counter k)))"

definition buffer_queue :: "'m MessageBuffer \<times> world \<Rightarrow> 'm list" where
  "buffer_queue st = map (contents \<circ> m_msgptr) (m_prio_heap (fst st))"

definition buffer_room :: "'m MessageBuffer \<times> world \<Rightarrow> nat" where
  "buffer_room st = 2 ^ 32 - 1 - unat (m_msg_counter (fst st))"

lemma arrival_not_before: "m_last_arrival_time b \<le> snd (arrival rnd d w b)"
  by (auto simp: arrival_def Let_def)

lemma unat_suc32: "unat (c :: u64) < 2 ^ 32 - 1 \<Longrightarrow> unat (c + 1) = Suc (unat c)"
  by (simp add: unat_word_ariths)

lemma buffer_put_fifo:
  assumes "fifo_ok st" "0 < buffer_room st" "buffer_put i st = Inr st'"
  shows "fifo_ok st' \<and> buffer_queue st' = buffer_queue st @ [contents (fst (snd i))] \<and>
    buffer_room st = Suc (buffer_room st')"
proof -
  obtain b w where st: "st = (b, w)" by force
  obtain b' w' where st': "st' = (b', w')" by force
  obtain r m d where i: "i = (r, m, d)" by (cases i)
  have ok: "m_strict_fifo b" "\<not> w_warmup w" "unat (m_msg_counter b) < 2 ^ 32"
    and nodes: "\<forall>n\<in>set (m_prio_heap b). m_time n \<le> m_last_arrival_time b \<and> (\<exists>k\<le>m_msg_counter b. m_counter n = node_counter k)"
    using assms(1) st by (auto simp: fifo_ok_def)
  have e: "enqueue r m d (b, w) = Inr (b', w')" using assms(3) st st' i by (simp add: buffer_put_def)
  obtain t where t: "snd (arrival r d w b) \<le> t"
    "push_heap (newNode t (m_msg_counter b + 1) (stamped (w_time w) t m)) (m_prio_heap b) = Inr (m_prio_heap b')"
    "m_strict_fifo b'" "m_last_arrival_time b' = t" "m_msg_counter b' = m_msg_counter b + 1" "w_warmup w' = w_warmup w"
    by (rule enqueue_cases [OF e]) (use ok in \<open>auto dest: scheduled_after(2)\<close>)
  define n where "n = newNode t (m_msg_counter b + 1) (stamped (w_time w) t m)"
  have u: "unat (m_msg_counter b + 1) = Suc (unat (m_msg_counter b))"
    by (rule unat_suc32) (use assms(2) st in \<open>simp add: buffer_room_def\<close>)
  have lt: "m_msg_counter b < m_msg_counter b + 1" using u by (simp add: word_less_nat_alt)
  have small: "unat (m_msg_counter b + 1) < 2 ^ 32" using u assms(2) st by (simp add: buffer_room_def)
  have tl: "m_last_arrival_time b \<le> t" using arrival_not_before [of b r d w] t(1) by simp
  have "\<forall>x\<in>set (m_prio_heap b). node_less x n"
  proof
    fix x assume x: "x \<in> set (m_prio_heap b)"
    then obtain k where k: "k \<le> m_msg_counter b" "m_counter x = node_counter k" and tx: "m_time x \<le> t"
      using nodes tl by fastforce
    have "node_counter k < node_counter (m_msg_counter b + 1)"
      by (rule node_counter_mono [OF le_less_trans [OF k(1) lt] small])
    then show "node_less x n" using tx k(2) by (auto simp: node_less_def n_def newNode_def)
  qed
  then have h: "m_prio_heap b' = m_prio_heap b @ [n]" using push_heap_last t(2) by (fastforce simp: n_def)
  have "\<forall>x\<in>set (m_prio_heap b'). m_time x \<le> t \<and> (\<exists>k\<le>m_msg_counter b + 1. m_counter x = node_counter k)"
  proof
    fix x assume "x \<in> set (m_prio_heap b')"
    then consider "x \<in> set (m_prio_heap b)" | "x = n" using h by auto
    then show "m_time x \<le> t \<and> (\<exists>k\<le>m_msg_counter b + 1. m_counter x = node_counter k)"
    proof cases
      case 1
      then obtain k where "k \<le> m_msg_counter b" "m_counter x = node_counter k" "m_time x \<le> t"
        using nodes tl by fastforce
      then show ?thesis using lt by (meson le_less_trans less_imp_le)
    next
      case 2
      then show ?thesis by (auto simp: n_def newNode_def)
    qed
  qed
  then have "fifo_ok st'" using t ok small st' by (simp add: fifo_ok_def)
  moreover have "buffer_queue st' = buffer_queue st @ [contents m]"
    using h st st' by (simp add: buffer_queue_def n_def newNode_def)
  moreover have "buffer_room st = Suc (buffer_room st')"
    using u t(5) small st st' by (simp add: buffer_room_def)
  ultimately show ?thesis using i by simp
qed

lemma buffer_get_fifo:
  assumes "fifo_ok st" "buffer_get st = Inr (m, st')"
  shows "fifo_ok st' \<and> buffer_queue st = contents m # buffer_queue st' \<and> buffer_room st' = buffer_room st"
proof -
  obtain b w where st: "st = (b, w)" by force
  obtain b' n where b': "st' = (b', w)" "pop w b = Inr b'" "m_prio_heap b = n # m_prio_heap b'" "m = m_msgptr n"
    using assms(2) st by (auto simp: buffer_get_def res_simps dequeue_cases)
  have "m_strict_fifo b' = m_strict_fifo b" "m_msg_counter b' = m_msg_counter b" "m_last_arrival_time b' = m_last_arrival_time b"
    using b'(2) by (auto elim: pop_cases)
  then show ?thesis using assms(1) b' st by (auto simp: fifo_ok_def buffer_queue_def buffer_room_def)
qed

lemma buffer_tick_fifo:
  assumes "fifo_ok st" "buffer_tick t st = Inr st'"
  shows "fifo_ok st' \<and> buffer_queue st' = buffer_queue st \<and> buffer_room st' = buffer_room st"
  using assms
  by (auto simp: fifo_ok_def buffer_queue_def buffer_room_def buffer_tick_def advance_def res_simps split: if_splits)

interpretation buffer: message_channel fifo_ok buffer_queue buffer_room buffer_put buffer_get buffer_tick
  "\<lambda>i. contents (fst (snd i))" contents
  by unfold_locales (erule (2) buffer_put_fifo, erule (1) buffer_get_fifo, erule (1) buffer_tick_fifo)

section \<open>The size and the free slots\<close>

text \<open>A sender that asks for a slot before it puts a message, and keeps the message when there is none.\<close>

definition buffer_offer :: "(u32 \<times> u32 \<times> u32) \<times> 'm Message \<times> int \<Rightarrow> 'm MessageBuffer \<times> world \<Rightarrow> ('m MessageBuffer \<times> world) res" where
  "buffer_offer i st = (case areNSlotsAvailable 1 (snd st) (fst st) of
     (True, b) \<Rightarrow> buffer_put i (b, snd st)
   | (False, b) \<Rightarrow> Inr (b, snd st))"

text \<open>
  The operations on a bounded buffer: an enqueue is an offer, \<open>delayHead\<close> is \<open>Inr\<close> of its random numbers.  The
  count is that of the messages a reanalysis brings back, which \<open>m_size\<close> does not know.
\<close>

definition heap_size :: "'m MessageBuffer \<times> world \<Rightarrow> nat" where
  "heap_size st = length (m_prio_heap (fst st))"

fun brings_back :: "'m buf_op \<Rightarrow> bool" where
  "brings_back (Reanalyze a) = True"
| "brings_back ReanalyzeAll = True"
| "brings_back _ = False"

fun offer_step :: "nat \<Rightarrow> 'm buf_op + u32 \<times> u32 \<times> u32 \<Rightarrow> 'm MessageBuffer \<times> world \<Rightarrow> (nat \<times> 'm MessageBuffer \<times> world) res" where
  "offer_step bits (Inr rnd) st = res_bind (delayHead rnd st) (\<lambda>st'. Inr (0, st'))"
| "offer_step bits (Inl (Enqueue rnd m d)) st = res_bind (buffer_offer (rnd, m, d) st) (\<lambda>st'. Inr (0, st'))"
| "offer_step bits (Inl opn) st =
     res_bind (buf_step bits opn st) (\<lambda>(out, st').
       Inr (if brings_back opn then heap_size st' - heap_size st else 0, st'))"

fun offer_run :: "nat \<Rightarrow> ('m buf_op + u32 \<times> u32 \<times> u32) list \<Rightarrow> 'm MessageBuffer \<times> world \<Rightarrow> (nat \<times> 'm MessageBuffer \<times> world) res" where
  "offer_run bits [] st = Inr (0, st)"
| "offer_run bits (x # xs) st =
     res_bind (offer_step bits x st) (\<lambda>(k, st').
     res_bind (offer_run bits xs st') (\<lambda>(n, st''). Inr (k + n, st'')))"

text \<open>\<open>m_size\<close> counts all but \<open>k\<close> of the messages in the heap.\<close>

definition size_ok :: "nat \<Rightarrow> 'm MessageBuffer \<times> world \<Rightarrow> bool" where
  "size_ok k st \<longleftrightarrow> (case st of (b, w) \<Rightarrow>
     int (length (m_prio_heap b)) \<le> m_size b + int k \<and> 0 \<le> m_msgs_this_cycle b \<and>
     m_time_last_time_pop b \<le> w_time w \<and> m_time_last_time_enqueue b \<le> w_time w \<and>
     (m_time_last_time_pop b = w_time w \<longrightarrow>
        m_size b \<le> m_size_at_cycle_start b +
          (if m_time_last_time_enqueue b = w_time w then m_msgs_this_cycle b else 0)))"

lemma visible_size_bound: "size_ok k (b, w) \<Longrightarrow> int (length (m_prio_heap b)) \<le> visible_size w b + int k"
  by (auto simp: size_ok_def visible_size_def split: if_splits)

lemma slots_granted:
  assumes "areNSlotsAvailable n w b = (True, b')" "size_ok k (b, w)" "m_max_size b \<noteq> -1"
  shows "b' = b \<and> int (length (m_prio_heap b)) + n \<le> m_max_size b + int k"
  using assms visible_size_bound [of k b w] by (auto simp: areNSlotsAvailable_def split: if_splits)

lemma put_size:
  assumes "enqueue r m d (b, w) = Inr (b', w')" "size_ok k (b, w)"
  shows "size_ok k (b', w') \<and> length (m_prio_heap b') = Suc (length (m_prio_heap b)) \<and> m_max_size b' = m_max_size b"
proof (rule enqueue_cases [OF assms(1)])
  fix t
  assume t: "push_heap (newNode t (m_msg_counter b + 1) (stamped (w_time w) t m)) (m_prio_heap b) = Inr (m_prio_heap b')"
    "\<exists>c. m_consumer_ptr b = Some c \<and> scheduleEventAbsolute (Some c) t w = Inr w'"
    "m_size b' = m_size b + 1" "m_max_size b' = m_max_size b"
    "m_time_last_time_enqueue b' = max (m_time_last_time_enqueue b) (w_time w)"
    "m_msgs_this_cycle b' = (if m_time_last_time_enqueue b < w_time w then 0 else m_msgs_this_cycle b) + 1"
    "m_time_last_time_pop b' = m_time_last_time_pop b" "m_size_at_cycle_start b' = m_size_at_cycle_start b"
  have "w_time w' = w_time w" using t(2) scheduled_after(1) by blast
  then show ?thesis using assms(2) t push_heap_length [OF t(1)] by (auto simp: size_ok_def split: if_splits)
qed

lemma pop_size:
  assumes "pop w b = Inr b'" "size_ok k (b, w)"
  shows "size_ok k (b', w) \<and> length (m_prio_heap b) = Suc (length (m_prio_heap b')) \<and> m_max_size b' = m_max_size b"
  by (rule pop_cases [OF assms(1)]) (use assms(2) in \<open>auto simp: size_ok_def split: if_splits\<close>)

text \<open>A bounded buffer with at most \<open>k\<close> messages more than its size.\<close>

definition within_capacity :: "int \<Rightarrow> nat \<Rightarrow> 'm MessageBuffer \<times> world \<Rightarrow> bool" where
  "within_capacity mx k st \<longleftrightarrow> size_ok k st \<and> m_max_size (fst st) = mx \<and> mx \<noteq> -1 \<and> int (heap_size st) \<le> mx + int k"

lemma offer_within:
  assumes "buffer_offer i st = Inr st'" "within_capacity mx k st"
  shows "within_capacity mx k st'"
proof -
  obtain b w where st: "st = (b, w)" by force
  obtain b' w' where st': "st' = (b', w')" by force
  obtain ok b1 where a: "areNSlotsAvailable 1 w b = (ok, b1)" by force
  show ?thesis
  proof (cases ok)
    case True
    then have g: "b1 = b \<and> int (length (m_prio_heap b)) + 1 \<le> m_max_size b + int k"
      using slots_granted [of 1 w b b1 k] a assms(2) st by (simp add: within_capacity_def)
    then have "enqueue (fst i) (fst (snd i)) (snd (snd i)) (b, w) = Inr (b', w')"
      using assms(1) a st st' True by (simp add: buffer_offer_def buffer_put_def)
    from put_size [OF this, of k] g show ?thesis
      using assms(2) st st' by (simp add: within_capacity_def heap_size_def)
  next
    case False
    then show ?thesis using assms a st
      by (auto simp: buffer_offer_def areNSlotsAvailable_def within_capacity_def size_ok_def heap_size_def split: if_splits)
  qed
qed

lemma pop_within:
  assumes "pop w b = Inr b'" "within_capacity mx k (b, w)" shows "within_capacity mx k (b', w)"
  using pop_size [OF assms(1), of k] assms(2) by (simp add: within_capacity_def heap_size_def)

lemma delayHead_within:
  assumes "delayHead rnd st = Inr st'" "within_capacity mx k st" shows "within_capacity mx k st'"
proof -
  obtain b w where st: "st = (b, w)" by force
  obtain b' w' where st': "st' = (b', w')" by force
  obtain n h where h: "m_prio_heap b = n # h" "enqueue rnd (m_msgptr n) 1 (b\<lparr>m_prio_heap := h\<rparr>, w) = Inr (b', w')"
    using assms(1) st st' by (auto simp: delayHead_def heap_front_def split: list.splits)
  have "size_ok k (b\<lparr>m_prio_heap := h\<rparr>, w)" using assms(2) h(1) st by (auto simp: within_capacity_def size_ok_def)
  from put_size [OF h(2) this] show ?thesis using assms(2) h(1) st st' by (simp add: within_capacity_def heap_size_def)
qed

lemma scheduled_time: "scheduleEventAbsolute p t w = Inr w' \<Longrightarrow> w_time w' = w_time w"
  by (auto simp: scheduleEventAbsolute_def insertScheduledWakeupTime_def res_simps split: if_splits option.splits)

lemma recycle_within:
  assumes "recycle st = Inr st'" "within_capacity mx k st" shows "within_capacity mx k st'"
proof -
  obtain b w where st: "st = (b, w)" by force
  obtain n h h' w' where h: "m_prio_heap b = n # h"
    "push_heap (n\<lparr>m_time := w_time w + m_recycle_latency b\<rparr>) h = Inr h'"
    "scheduleEventAbsolute (m_consumer_ptr b) (w_time w + m_recycle_latency b) w = Inr w'" "st' = (b\<lparr>m_prio_heap := h'\<rparr>, w')"
    using assms(1) st
    by (auto simp: recycle_def heap_front_def Let_def res_simps split: list.splits)
  show ?thesis
    using assms(2) push_heap_length [OF h(2)] scheduled_time [OF h(3)] st h(1,4)
    by (auto simp: within_capacity_def heap_size_def size_ok_def)
qed

text \<open>What comes back enters the heap and nothing else.\<close>

lemma requeue_size:
  assumes "requeue ms (b, w) = Inr (b', w')" "size_ok k (b, w)"
  shows "size_ok (k + length ms) (b', w') \<and> length (m_prio_heap b') = length (m_prio_heap b) + length ms \<and>
    m_max_size b' = m_max_size b"
  using assms
proof (induction ms arbitrary: b w k)
  case (Cons m ms)
  obtain h w1 where h: "push_heap (newNode (w_time w + 1) (m_msg_counter b + 1) m) (m_prio_heap b) = Inr h"
    and w1: "scheduleEventAbsolute (m_consumer_ptr b) (w_time w + 1) w = Inr w1"
    and r: "requeue ms (b\<lparr>m_msg_counter := m_msg_counter b + 1, m_prio_heap := h\<rparr>, w1) = Inr (b', w')"
    using Cons(2) by (auto simp: Let_def res_simps)
  have "size_ok (Suc k) (b\<lparr>m_msg_counter := m_msg_counter b + 1, m_prio_heap := h\<rparr>, w1)"
    using Cons(3) push_heap_length [OF h] scheduled_time [OF w1] by (auto simp: size_ok_def)
  from Cons.IH [OF r this] push_heap_length [OF h] show ?case by simp
qed simp

lemma stall_map_size [simp]:
  "size_ok k (b\<lparr>m_stall_msg_map := x\<rparr>, w) = size_ok k (b, w)"
  "heap_size (b\<lparr>m_stall_msg_map := x\<rparr>, w) = heap_size (b, w)"
  by (simp_all add: size_ok_def heap_size_def)

lemma requeue_within:
  assumes "requeue ms (b, w) = Inr (b', w')" "within_capacity mx k (b, w)"
  shows "within_capacity mx (k + (heap_size (b', w') - heap_size (b, w))) (b'\<lparr>m_stall_msg_map := x\<rparr>, w')"
  using requeue_size [OF assms(1), of k] assms(2) by (simp add: within_capacity_def) (simp add: heap_size_def)

lemma advance_within:
  assumes "advance t w = Inr w'" "within_capacity mx k (b, w)" shows "within_capacity mx k (b, w')"
  using assms by (auto simp: advance_def within_capacity_def size_ok_def heap_size_def split: if_splits)

lemma offer_step_within:
  assumes "offer_step bits x st = Inr (n, st')" "within_capacity mx k st"
  shows "within_capacity mx (k + n) st'"
proof -
  obtain b w where st: "st = (b, w)" by force
  show ?thesis
  proof (cases x)
    case (Inr rnd)
    then have "delayHead rnd st = Inr st'" "n = 0" using assms(1) by (auto simp: res_simps)
    then show ?thesis using assms(2) delayHead_within by simp
  next
    case (Inl opn)
    show ?thesis
    proof (cases opn)
      case (Enqueue rnd m d)
      then have "buffer_offer (rnd, m, d) st = Inr st'" "n = 0" using assms(1) Inl by (auto simp: res_simps)
      then show ?thesis using assms(2) offer_within by simp
    next
      case Dequeue
      then show ?thesis using assms Inl st pop_within by (auto simp: res_simps dequeue_cases)
    next
      case Recycle
      then have "recycle st = Inr st'" "n = 0" using assms(1) Inl by (auto simp: res_simps)
      then show ?thesis using assms(2) recycle_within by simp
    next
      case (Stall a)
      then obtain b1 y where "pop w b = Inr b1" "st' = (b1\<lparr>m_stall_msg_map := y\<rparr>, w)" "n = 0"
        using assms(1) Inl st by (auto simp: res_simps stallMessage_def)
      then show ?thesis using pop_within [of w b b1 mx k] assms(2) st by (simp add: within_capacity_def)
    next
      case (Reanalyze a)
      then obtain ms b1 w1 y where "requeue ms (b, w) = Inr (b1, w1)" "st' = (b1\<lparr>m_stall_msg_map := y\<rparr>, w1)"
        "n = heap_size (b1, w1) - heap_size (b, w)"
        using assms(1) Inl st by (auto simp: res_simps reanalyzeMessages_def split: option.splits)
      then show ?thesis using requeue_within assms(2) st by simp
    next
      case ReanalyzeAll
      then obtain ms b1 w1 y where "requeue ms (b, w) = Inr (b1, w1)" "st' = (b1\<lparr>m_stall_msg_map := y\<rparr>, w1)"
        "n = heap_size (b1, w1) - heap_size (b, w)"
        using assms(1) Inl st by (auto simp: res_simps reanalyzeAllMessages_def)
      then show ?thesis using requeue_within assms(2) st by simp
    next
      case (Advance t)
      then show ?thesis using assms Inl st advance_within by (auto simp: res_simps)
    qed
  qed
qed

lemma offer_run_within:
  assumes "offer_run bits xs st = Inr (n, st')" "within_capacity mx k st"
  shows "within_capacity mx (k + n) st'"
  using assms
proof (induction xs arbitrary: st k n)
  case (Cons x xs)
  then obtain i st1 j where "offer_step bits x st = Inr (i, st1)" "offer_run bits xs st1 = Inr (j, st')" "n = i + j"
    by (auto simp: res_simps)
  then show ?case using offer_step_within Cons.IH Cons.prems(2) by (metis add.assoc)
qed simp

lemma nothing_brought_back:
  assumes "offer_run bits xs st = Inr (n, st')" "\<forall>x\<in>set xs. \<forall>opn. x = Inl opn \<longrightarrow> \<not> brings_back opn"
  shows "n = 0"
  using assms
proof (induction xs arbitrary: st n)
  case (Cons x xs)
  then obtain i st1 j where r: "offer_step bits x st = Inr (i, st1)" "offer_run bits xs st1 = Inr (j, st')" "n = i + j"
    by (auto simp: res_simps)
  have "i = 0"
  proof (cases x)
    case (Inl opn)
    then show ?thesis using r(1) Cons.prems(2) by (cases opn) (auto simp: res_simps)
  qed (use r(1) in \<open>auto simp: res_simps\<close>)
  then show ?case using r Cons.IH [OF r(2)] Cons.prems(2) by simp
qed simp

section \<open>Concrete runs\<close>

definition world0 :: world where
  "world0 = \<lparr>w_time = 0, w_randomization = False, w_warmup = False, w_scheduled = (\<lambda>_. [])\<rparr>"

definition msg :: "nat \<Rightarrow> nat Message" where
  "msg i = \<lparr>m_LastEnqueueTime = 0, m_DelayedCycles = 0, contents = i\<rparr>"

definition fixed_random :: "u32 \<times> u32 \<times> u32" where
  "fixed_random = (0, 1, 0)"

definition demo_fifo_ops :: "((u32 \<times> u32 \<times> u32) \<times> nat Message \<times> int, int) chan_op list" where
  "demo_fifo_ops = [Put (fixed_random, msg 1, 2), Put (fixed_random, msg 2, 2), Tick 1, Put (fixed_random, msg 3, 3), Tick 2, Take, Take]"

definition demo_ops :: "nat buf_op list" where
  "demo_ops = [Enqueue fixed_random (msg 1) 1, Enqueue fixed_random (msg 2) 1, Enqueue fixed_random (msg 3) 4,
     Advance 1, Stall 0x40, Recycle, Advance 2, Reanalyze 0x40, Advance 3, Dequeue]"

definition demo_buffer :: "nat MessageBuffer" where
  "demo_buffer = initial_buffer True True 2 2 0"

lemma demo_fifo_ok: "is_ok (chan_run buffer_put buffer_get buffer_tick demo_fifo_ops (demo_buffer, world0))"
  by code_simp

lemma demo_ops_ok: "is_ok (buf_run 6 demo_ops (demo_buffer, world0))"
  by code_simp

definition demo_offers :: "(nat buf_op + u32 \<times> u32 \<times> u32) list" where
  "demo_offers = [Inl (Enqueue fixed_random (msg 1) 1), Inl (Enqueue fixed_random (msg 2) 1), Inl (Enqueue fixed_random (msg 3) 1),
     Inl (Advance 1), Inl (Stall 0x40), Inl (Enqueue fixed_random (msg 4) 1), Inl (Advance 2), Inl (Enqueue fixed_random (msg 5) 1),
     Inr fixed_random, Inl (Reanalyze 0x40)]"

lemma demo_offers_ok:
  "(case offer_run 6 demo_offers (demo_buffer, world0) of Inl _ \<Rightarrow> False | Inr (n, st) \<Rightarrow> n = 1 \<and> heap_size st = 3)"
  by code_simp

text \<open>
  At the message whose count no longer fits in the node's \<open>int\<close> the order of two messages of the same
  arrival time is reversed.
\<close>

lemma counter_wrap_reverses:
  "map_sum id (map contents \<circ> fst) (chan_run buffer_put buffer_get buffer_tick
     [Put (fixed_random, msg 1, 1), Put (fixed_random, msg 2, 1), Tick 1, Take, Take]
     (demo_buffer\<lparr>m_msg_counter := 0xFFFFFFFE\<rparr>, world0)) = Inr [2, 1]"
  by code_simp

text \<open>Resetting the statistics resets the tie-breaking counter: two messages of the same arrival time then clash.\<close>

lemma clearStats_breaks_order:
  "map_sum id (\<lambda>_. ()) (res_bind (buffer_put (fixed_random, msg 1, 1) (demo_buffer, world0))
     (\<lambda>(b, w). buffer_put (fixed_random, msg 2, 1) (buffer_clearStats b, w))) = Inl AssertFailed"
  by code_simp

text \<open>
  A message that is stalled and reanalyzed has left the size and does not enter it again: a buffer of one
  slot then holds two messages, and the size is negative when they have gone.
\<close>

lemma reanalyze_loses_size:
  "map_sum id (\<lambda>(b, w). (length (m_prio_heap b), m_size b, fst (areNSlotsAvailable 1 w b)))
     (res_bind (buf_run 6 [Enqueue fixed_random (msg 1) 1, Advance 1, Stall 0x40, Advance 2, Reanalyze 0x40]
        (buffer_resize 1 demo_buffer, world0)) (\<lambda>x. Inr (snd x))) = Inr (1, 0, True)"
  by code_simp

section \<open>The properties\<close>

lemma initial_fifo_ok:
  assumes "\<not> w_warmup w"
  shows "fifo_ok (initial_buffer True rnd mx latency c, w)"
    "buffer_queue (initial_buffer True rnd mx latency c, w) = []"
    "buffer_room (initial_buffer True rnd mx latency c, w) = 2 ^ 32 - 1"
  using assms by (simp_all add: fifo_ok_def initial_buffer_def newMessageBuffer_def buffer_queue_def buffer_room_def)

text \<open>C21: a strict buffer refines a FIFO queue: in every run of puts, takes and passing of time of a new
  ordered buffer, outside a cache warmup and for fewer than \<open>2\<^sup>3\<^sup>2\<close> messages, with or without random
  arrival times, the messages taken followed by those still in the buffer are the messages put, in order.\<close>

theorem strict_buffer_is_fifo:
  fixes st :: "'m MessageBuffer \<times> world"
  assumes "chan_run buffer_put buffer_get buffer_tick ops (initial_buffer True rnd mx latency c, w) = Inr (outs, st)"
    and "\<not> w_warmup w" "length (chan_puts ops) < 2 ^ 32"
  shows "map contents outs @ buffer_queue st = map (\<lambda>(_, m, _). contents m) (chan_puts ops)"
proof -
  have "length (chan_puts ops) \<le> buffer_room (initial_buffer True rnd mx latency c :: 'm MessageBuffer, w)"
    using assms(3) by (simp add: initial_fifo_ok(3) [OF assms(2)])
  from buffer.run_fifo [OF assms(1) initial_fifo_ok(1) [OF assms(2)] this]
  show ?thesis by (simp add: case_prod_unfold initial_fifo_ok(2) [OF assms(2)])
qed

lemma strict_buffer_is_fifo_witness:
  "\<exists>outs st. chan_run buffer_put buffer_get buffer_tick demo_fifo_ops (demo_buffer, world0) = Inr (outs, st) \<and>
     map contents outs @ buffer_queue st = [1, 2, 3]"
proof -
  obtain outs st where r: "chan_run buffer_put buffer_get buffer_tick demo_fifo_ops (demo_buffer, world0) = Inr (outs, st)"
    using demo_fifo_ok by (auto simp: is_ok_iff)
  have "map contents outs @ buffer_queue st = map (\<lambda>(_, m, _). contents m) (chan_puts demo_fifo_ops)"
    by (rule strict_buffer_is_fifo [OF r [unfolded demo_buffer_def]]) (simp_all add: world0_def demo_fifo_ops_def)
  then show ?thesis using r by (simp add: demo_fifo_ops_def msg_def)
qed

text \<open>C22: in every run of enqueues, dequeues, recycles, stalls, reanalyses and passing of time of a new
  buffer no message is lost, copied or invented (what left, what waits in the heap and what is stalled is
  what was enqueued), and no waiting message is stranded: it is ready, or a wakeup of the consumer is
  scheduled at its arrival time.\<close>

theorem buffer_conserves_messages:
  assumes "buf_run bits ops (initial_buffer ordered rnd mx latency c, w0) = Inr (outs, b, w)"
    and "0 \<le> latency" "\<forall>opn\<in>set ops. op_ok opn"
  shows "mset (map contents outs) + image_mset (contents \<circ> m_msgptr) (mset (m_prio_heap b)) +
      image_mset contents (mset (stalled b)) = mset (concat (map op_in ops)) \<and>
    (\<forall>n\<in>set (m_prio_heap b). m_time n \<le> w_time w \<or> m_time n \<in> set (w_scheduled w c))"
proof -
  have r: "buf_ok c (b, w)"
    "mset (map contents outs) + held b = held (initial_buffer ordered rnd mx latency c) + mset (concat (map op_in ops))"
    using buf_run_ok [OF assms(1) initial_buffer_ok(1) [OF assms(2)] assms(3)] by simp_all
  have "mset (map contents outs) + held b = mset (concat (map op_in ops))"
    using r(2) by (simp add: initial_buffer_ok(2))
  then show ?thesis using r(1) by (auto simp: held_def union_assoc buf_ok_def heap_ok_def not_less)
qed

lemma buffer_conserves_messages_witness:
  "\<exists>outs b w. buf_run 6 demo_ops (demo_buffer, world0) = Inr (outs, b, w) \<and>
     mset (map contents outs) + image_mset (contents \<circ> m_msgptr) (mset (m_prio_heap b)) +
       image_mset contents (mset (stalled b)) = {#1, 2, 3#} \<and>
     (\<forall>n\<in>set (m_prio_heap b). m_time n \<le> w_time w \<or> m_time n \<in> set (w_scheduled w 0))"
proof -
  obtain outs b w where r: "buf_run 6 demo_ops (demo_buffer, world0) = Inr (outs, b, w)"
    using demo_ops_ok by (auto simp: is_ok_iff)
  have o: "\<forall>opn\<in>set demo_ops. op_ok opn" by (simp add: demo_ops_def msg_def)
  show ?thesis
    using buffer_conserves_messages [OF r [unfolded demo_buffer_def] _ o] r
    by (simp add: demo_ops_def msg_def)
qed

text \<open>every branch of a dequeue after any run: an empty heap is read out of range, a message before its
  arrival time fails the assertion, and otherwise the message leaves with a delay that is not negative
  (neither assertion on delays can fail), and it is the one with the least arrival time and counter.\<close>

theorem dequeue_outcome:
  assumes "buf_run bits ops (initial_buffer ordered rnd mx latency c, w0) = Inr (outs, b, w)"
    and "0 \<le> latency" "\<forall>opn\<in>set ops. op_ok opn"
  shows "case m_prio_heap b of
      [] \<Rightarrow> dequeue_getDelayCycles w b = Inl OutOfRange
    | n # h \<Rightarrow> (\<forall>n'\<in>set h. node_less n n') \<and>
        (if w_time w < m_time n then dequeue_getDelayCycles w b = Inl AssertFailed
         else \<exists>d b'. dequeue_getDelayCycles w b = Inr (d, b') \<and> pop w b = Inr b' \<and> m_prio_heap b' = h \<and>
            d = w_time w - m_LastEnqueueTime (m_msgptr n) + m_DelayedCycles (m_msgptr n) \<and> 0 \<le> d)"
proof (cases "m_prio_heap b")
  case (Cons n h)
  have "buf_ok c (b, w)" using buf_run_ok [OF assms(1) initial_buffer_ok(1) [OF assms(2)] assms(3)] by simp
  then have ok: "heap_ok c w (n # h)" using Cons by (simp add: buf_ok_def)
  then have n: "m_LastEnqueueTime (m_msgptr n) \<le> m_time n" "0 \<le> m_DelayedCycles (m_msgptr n)"
    "\<forall>n'\<in>set h. node_less n n'" by (auto simp: heap_ok_def)
  show ?thesis
  proof (cases "w_time w < m_time n")
    case True
    then show ?thesis using Cons n
      by (auto simp: dequeue_getDelayCycles_def heap_front_def setAndReturnDelayCycles_def Let_def pop_def
          isReady_def res_bind_def assert_that_def)
  next
    case False
    then obtain b' where b': "pop w b = Inr b'" "m_prio_heap b' = h"
      using Cons by (auto simp: pop_def isReady_def Let_def)
    then show ?thesis using Cons n False
      by (simp add: dequeue_getDelayCycles_def heap_front_def setAndReturnDelayCycles_def Let_def)
  qed
qed (simp add: dequeue_getDelayCycles_def heap_front_def)

lemma demo_ready:
  "map_sum id (\<lambda>(outs, b, w). (map m_time (m_prio_heap b), w_time w))
     (buf_run 6 [Enqueue fixed_random (msg 1) 1, Advance 3] (demo_buffer, world0)) = Inr ([1], 3)"
  by code_simp

lemma dequeue_outcome_witness:
  "\<exists>outs b w d b'. buf_run 6 [Enqueue fixed_random (msg 1) 1, Advance 3] (demo_buffer, world0) = Inr (outs, b, w) \<and>
     dequeue_getDelayCycles w b = Inr (d, b') \<and> m_prio_heap b' = [] \<and> 0 \<le> d"
proof -
  obtain outs b w where r: "buf_run 6 [Enqueue fixed_random (msg 1) 1, Advance 3] (demo_buffer, world0) = Inr (outs, b, w)"
    and h: "map m_time (m_prio_heap b) = [1]" "w_time w = 3"
    using demo_ready by (cases "buf_run 6 [Enqueue fixed_random (msg 1) 1, Advance 3] (demo_buffer, world0)") auto
  then obtain n where n: "m_prio_heap b = [n]" "m_time n = 1" by auto
  have o: "\<forall>opn\<in>set [Enqueue fixed_random (msg 1) 1, Advance 3]. op_ok opn" by (simp add: msg_def)
  show ?thesis
    using dequeue_outcome [OF r [unfolded demo_buffer_def] _ o] r n h by auto
qed

text \<open>C39: a bounded buffer whose senders ask for a slot before each message: in any run of such sends, dequeues,
  recycles, stalls, reanalyses, delays of the head and passing of time, the buffer never holds more
  messages than its size and the number of messages reanalyses brought back, which \<open>m_size\<close> has forgotten;
  so never more than its size when nothing is reanalyzed.\<close>

theorem capacity_respected:
  assumes "offer_run bits xs (initial_buffer ordered rnd mx latency c, w0) = Inr (n, b, w)"
    and "0 \<le> mx" "0 \<le> w_time w0"
  shows "int (length (m_prio_heap b)) \<le> mx + int n
    \<and> ((\<forall>x\<in>set xs. \<forall>opn. x = Inl opn \<longrightarrow> \<not> brings_back opn) \<longrightarrow> int (length (m_prio_heap b)) \<le> mx)"
proof -
  have "within_capacity mx 0 (initial_buffer ordered rnd mx latency c, w0)"
    using assms(2,3) by (simp add: within_capacity_def size_ok_def heap_size_def initial_buffer_def newMessageBuffer_def)
  from offer_run_within [OF assms(1) this] nothing_brought_back [OF assms(1)] show ?thesis
    by (auto simp: within_capacity_def heap_size_def)
qed

lemma capacity_respected_witness:
  "\<exists>b w. offer_run 6 demo_offers (demo_buffer, world0) = Inr (1, b, w) \<and> length (m_prio_heap b) = 3 \<and>
     int (length (m_prio_heap b)) \<le> 2 + 1"
proof -
  obtain n b w where r: "offer_run 6 demo_offers (demo_buffer, world0) = Inr (n, b, w)" "n = 1" "heap_size (b, w) = 3"
    using demo_offers_ok by (auto split: sum.splits)
  show ?thesis using capacity_respected [OF r(1) [unfolded demo_buffer_def]] r by (simp add: world0_def heap_size_def)
qed

end
