(* ===== verification/FA_LRU.thy ===== *)
theory FA_LRU
  imports LRU_Tags
begin

text \<open>
  The fully associative LRU tag store: \<open>src/mem/cache/tags/fa_lru.{hh,cc}\<close> (lab 6's gem5).  The blocks
  are one array kept in a doubly linked list from the most to the least recently used; pointers to
  blocks are indices.  The store counts at once the hits and misses of the caches of 128K, 256K, ... up
  to its own size: a boundary pointer to the last block of each smaller cache moves along the list, and
  bit \<open>j\<close> of \<open>inCache\<close> tells that a block is within the first \<open>j\<close>-th boundary.

  The counters of the statistics package are functions of the index.  \<open>curTick()\<close> is an argument.
\<close>

section \<open>The store\<close>

record FALRUBlk = CacheBlk +
  fb_prev :: "nat option"
  fb_next :: "nat option"
  fb_isTouched :: bool
  fb_inCache :: u32

record FALRU =
  fa_blkSize :: u32
  fa_size :: u32
  fa_hitLatency :: u32
  fa_cacheBoundaries :: "nat option list"
  fa_cacheMask :: u32
  fa_numCaches :: nat
  fa_blks :: "FALRUBlk list"
  fa_head :: nat
  fa_tail :: nat
  fa_tagHash :: "addr \<Rightarrow> nat option"
  fa_hits :: "nat \<Rightarrow> nat"
  fa_misses :: "nat \<Rightarrow> nat"
  fa_accesses :: nat
  fa_replacements :: nat
  fa_tagsInUse :: int
  fa_warmedUp :: bool
  fa_warmupBound :: int
  fa_warmupCycle :: int

text \<open>A block as the constructors leave it; those of \<open>FALRUBlk\<close> itself leave its own fields unset.\<close>

definition FALRUBlk_init :: FALRUBlk where
  "FALRUBlk_init = CacheBlk.extend CacheBlk_init \<lparr>fb_prev = None, fb_next = None, fb_isTouched = False, fb_inCache = 0\<rparr>"

text \<open>Access through a pointer, and a change of the block at an index.\<close>

definition fa_deref :: "nat option \<Rightarrow> FALRU \<Rightarrow> (nat \<times> FALRUBlk) res" where
  "fa_deref p s = (case p of None \<Rightarrow> Inl OutOfRange | Some i \<Rightarrow> res_bind (vec_get (fa_blks s) i) (\<lambda>b. Inr (i, b)))"

definition fa_upd :: "nat \<Rightarrow> (FALRUBlk \<Rightarrow> FALRUBlk) \<Rightarrow> FALRU \<Rightarrow> FALRU res" where
  "fa_upd i f s = res_bind (vec_get (fa_blks s) i) (\<lambda>b. Inr (s\<lparr>fa_blks := (fa_blks s)[i := f b]\<rparr>))"

section \<open>Construction\<close>

text \<open>
  The loop over the blocks between the head and the tail: the rounds left, the block, the next boundary
  \<open>index\<close>, the number \<open>j\<close> of boundaries placed, the flags, the boundaries and the blocks so far.
\<close>

fun fa_init_loop ::
  "nat \<Rightarrow> nat \<Rightarrow> u32 \<Rightarrow> nat \<Rightarrow> u32 \<Rightarrow> nat option list \<Rightarrow> FALRUBlk list \<Rightarrow> (u32 \<times> nat \<times> nat option list \<times> FALRUBlk list) res"
where
  "fa_init_loop 0 i index j flags bs xs = Inr (index, j, bs, xs)"
| "fa_init_loop (Suc n) i index j flags bs xs =
     (let link = (\<lambda>b. b\<lparr>fb_inCache := flags, fb_prev := Some (i - 1), fb_next := Some (i + 1), fb_isTouched := False\<rparr>)
      in res_bind (vec_get xs i) (\<lambda>b.
         if of_nat i = index - 1
         then res_bind (vec_set bs j (Some i)) (\<lambda>bs'.
              fa_init_loop n (i + 1) (push_bit 1 index) (j + 1) (flags AND NOT (push_bit j 1)) bs' (xs[i := link b]))
         else fa_init_loop n (i + 1) index j flags bs (xs[i := link b])))"

text \<open>
  A size below 128K makes the unsigned number of caches wrap around, and with fewer than two blocks the
  list would be linked outside the array: both are undefined.
\<close>

definition FALRU_init :: "u32 \<Rightarrow> u32 \<Rightarrow> u32 \<Rightarrow> FALRU res" where
  "FALRU_init bsize sz lat =
     (if \<not> isPowerOf2 bsize then Inl Fatal
      else if \<not> lat > 0 then Inl Fatal
      else if \<not> isPowerOf2 sz then Inl Fatal
      else res_bind (floorLog2_u32 sz) (\<lambda>l.
        if l < 17 then Inl OutOfRange
        else let numCaches = l - 17;
                 cmask = (if numCaches > 0 then push_bit numCaches 1 - 1 else 0 :: u32);
                 n = unat (sz div bsize)
             in if n < 2 then Inl OutOfRange
                else let blks0 = replicate n FALRUBlk_init;
                         blks1 = blks0[0 := (blks0 ! 0)\<lparr>fb_prev := None, fb_next := Some 1, fb_inCache := cmask\<rparr>];
                         blks2 = blks1[n - 1 := (blks1 ! (n - 1))\<lparr>fb_prev := Some (n - 2), fb_next := None, fb_inCache := 0\<rparr>]
                     in res_bind (fa_init_loop (n - 2) 1 (push_bit 17 1 div bsize) 0 cmask (replicate numCaches None) blks2)
                          (\<lambda>(index, j, bs, blks3).
                        assert_that (j = numCaches) (assert_that (index = of_nat n)
                          (Inr \<lparr>fa_blkSize = bsize, fa_size = sz, fa_hitLatency = lat, fa_cacheBoundaries = bs,
                                fa_cacheMask = cmask, fa_numCaches = numCaches, fa_blks = blks3,
                                fa_head = 0, fa_tail = n - 1, fa_tagHash = (\<lambda>_. None),
                                fa_hits = (\<lambda>_. 0), fa_misses = (\<lambda>_. 0), fa_accesses = 0,
                                fa_replacements = 0, fa_tagsInUse = 0, fa_warmedUp = False,
                                fa_warmupBound = int n, fa_warmupCycle = 0\<rparr>)))))"

definition fa_blkAlign :: "FALRU \<Rightarrow> addr \<Rightarrow> addr" where
  "fa_blkAlign s a = a AND NOT (ucast (fa_blkSize s - 1))"

definition fa_extractTag :: "FALRU \<Rightarrow> addr \<Rightarrow> addr" where
  "fa_extractTag s a = fa_blkAlign s a"

definition fa_extractSet :: "FALRU \<Rightarrow> addr \<Rightarrow> int" where
  "fa_extractSet s a = 0"

definition fa_extractBlkOffset :: "FALRU \<Rightarrow> addr \<Rightarrow> int" where
  "fa_extractBlkOffset s a = sint (ucast (a AND ucast (fa_blkSize s - 1)) :: u32)"

definition fa_regenerateBlkAddr :: "addr \<Rightarrow> int \<Rightarrow> addr" where
  "fa_regenerateBlkAddr t st = t"

section \<open>Moving a block to the head\<close>

fun fa_boundary_loop :: "nat \<Rightarrow> u32 \<Rightarrow> nat list \<Rightarrow> FALRU \<Rightarrow> FALRU res" where
  "fa_boundary_loop blk updateMask [] s = Inr s"
| "fa_boundary_loop blk updateMask (j # js) s =
     res_bind (vec_get (fa_cacheBoundaries s) j) (\<lambda>p.
     if push_bit j 1 AND updateMask \<noteq> 0
     then res_bind (fa_deref p s) (\<lambda>(c, b).
          res_bind (fa_upd c (\<lambda>b. b\<lparr>fb_inCache := fb_inCache b AND NOT (push_bit j 1)\<rparr>) s) (\<lambda>s1.
          fa_boundary_loop blk updateMask js
            (s1\<lparr>fa_cacheBoundaries := (fa_cacheBoundaries s1)[j := fb_prev b]\<rparr>)))
     else if p = Some blk
     then res_bind (vec_get (fa_blks s) blk) (\<lambda>b.
          fa_boundary_loop blk updateMask js
            (s\<lparr>fa_cacheBoundaries := (fa_cacheBoundaries s)[j := fb_prev b]\<rparr>))
     else fa_boundary_loop blk updateMask js s)"

text \<open>The block is taken out of the list, and put before the head.\<close>

definition fa_unlink :: "nat \<Rightarrow> FALRU \<Rightarrow> FALRU res" where
  "fa_unlink blk s =
     res_bind (vec_get (fa_blks s) blk) (\<lambda>b.
     if blk = fa_tail s
     then assert_that (fb_next b = None)
            (res_bind (fa_deref (fb_prev b) s) (\<lambda>(t, _).
             fa_upd t (\<lambda>b. b\<lparr>fb_next := None\<rparr>) (s\<lparr>fa_tail := t\<rparr>)))
     else res_bind (fa_deref (fb_prev b) s) (\<lambda>(p, _).
          res_bind (fa_upd p (\<lambda>c. c\<lparr>fb_next := fb_next b\<rparr>) s) (\<lambda>s1.
          res_bind (fa_deref (fb_next b) s1) (\<lambda>(q, _).
          fa_upd q (\<lambda>c. c\<lparr>fb_prev := fb_prev b\<rparr>) s1))))"

definition fa_push_head :: "nat \<Rightarrow> FALRU \<Rightarrow> FALRU res" where
  "fa_push_head blk s =
     res_bind (fa_upd blk (\<lambda>b. b\<lparr>fb_next := Some (fa_head s), fb_prev := None\<rparr>) s) (\<lambda>s1.
     res_bind (fa_upd (fa_head s1) (\<lambda>b. b\<lparr>fb_prev := Some blk\<rparr>) s1) (\<lambda>s2.
     Inr (s2\<lparr>fa_head := blk\<rparr>)))"

definition fa_moveToHead :: "nat \<Rightarrow> FALRU \<Rightarrow> FALRU res" where
  "fa_moveToHead blk s =
     res_bind (vec_get (fa_blks s) blk) (\<lambda>b.
     res_bind (fa_boundary_loop blk (fb_inCache b XOR fa_cacheMask s) [0 ..< fa_numCaches s] s) (\<lambda>s1.
     res_bind (fa_upd blk (\<lambda>b. b\<lparr>fb_inCache := fa_cacheMask s1\<rparr>) s1) (\<lambda>s2.
     if blk \<noteq> fa_head s2
     then res_bind (fa_unlink blk s2) (fa_push_head blk)
     else Inr s2)))"

section \<open>The operations\<close>

definition fa_hashLookup :: "addr \<Rightarrow> FALRU \<Rightarrow> nat option" where
  "fa_hashLookup a s = fa_tagHash s a"

definition fa_invalidateBlk :: "nat option \<Rightarrow> FALRU \<Rightarrow> FALRU res" where
  "fa_invalidateBlk p s =
     (case p of None \<Rightarrow> Inr s
      | Some i \<Rightarrow>
          res_bind (fa_upd i (\<lambda>b. b\<lparr>status := 0, fb_isTouched := False\<rparr>) s) (\<lambda>s1.
          Inr (s1\<lparr>fa_tagsInUse := fa_tagsInUse s1 - 1\<rparr>)))"

text \<open>The block an address maps to when it is valid, after the assertion on its tag.\<close>

definition fa_valid_block :: "addr \<Rightarrow> FALRU \<Rightarrow> nat option res" where
  "fa_valid_block a s =
     (case fa_hashLookup (fa_blkAlign s a) s of
        None \<Rightarrow> Inr None
      | Some i \<Rightarrow>
          res_bind (vec_get (fa_blks s) i) (\<lambda>b.
          if isValid (CacheBlk.truncate b)
          then assert_that (tag b = fa_blkAlign s a) (Inr (Some i))
          else Inr None))"

definition count_at :: "(nat \<Rightarrow> bool) \<Rightarrow> nat list \<Rightarrow> (nat \<Rightarrow> nat) \<Rightarrow> nat \<Rightarrow> nat" where
  "count_at P js f = (\<lambda>j. if j \<in> set js \<and> P j then f j + 1 else f j)"

text \<open>The result: the block, the latency and the \<open>inCache\<close> flags.\<close>

definition fa_accessBlock :: "addr \<Rightarrow> FALRU \<Rightarrow> (nat option \<times> u32 \<times> u32 \<times> FALRU) res" where
  "fa_accessBlock a s0 =
     (let s = s0\<lparr>fa_accesses := fa_accesses s0 + 1\<rparr>; sizes = [0 ..< fa_numCaches s]; full = [fa_numCaches s]
      in res_bind (fa_valid_block a s) (\<lambda>p.
         case p of
           Some i \<Rightarrow>
             res_bind (vec_get (fa_blks s) i) (\<lambda>b.
             let held = (\<lambda>j. push_bit j 1 AND fb_inCache b \<noteq> 0);
                 s1 = s\<lparr>fa_hits := count_at (\<lambda>_. True) full (count_at held sizes (fa_hits s)),
                        fa_misses := count_at (\<lambda>j. \<not> held j) sizes (fa_misses s)\<rparr>
             in res_bind (if i \<noteq> fa_head s1 then fa_moveToHead i s1 else Inr s1) (\<lambda>s2.
                Inr (Some i, fa_hitLatency s2, fb_inCache b, s2)))
         | None \<Rightarrow>
             Inr (None, fa_hitLatency s, 0, s\<lparr>fa_misses := count_at (\<lambda>_. True) (sizes @ full) (fa_misses s)\<rparr>)))"

definition fa_findBlock :: "addr \<Rightarrow> FALRU \<Rightarrow> nat option res" where
  "fa_findBlock a s = fa_valid_block a s"

definition fa_findVictim :: "addr \<Rightarrow> int \<Rightarrow> FALRU \<Rightarrow> (nat \<times> FALRU) res" where
  "fa_findVictim a curTick s =
     (let blk = fa_tail s
      in res_bind (vec_get (fa_blks s) blk) (\<lambda>b0.
         assert_that (fb_inCache b0 = 0)
           (res_bind (fa_moveToHead blk s) (\<lambda>s1.
            res_bind (vec_get (fa_blks s1) blk) (\<lambda>b.
            let s2 = s1\<lparr>fa_tagHash := ((fa_tagHash s1)(tag b := None))(fa_blkAlign s1 a := Some blk)\<rparr>
            in if isValid (CacheBlk.truncate b)
               then Inr (blk, s2\<lparr>fa_replacements := fa_replacements s2 + 1\<rparr>)
               else res_bind (fa_upd blk (\<lambda>b. b\<lparr>fb_isTouched := True\<rparr>) (s2\<lparr>fa_tagsInUse := fa_tagsInUse s2 + 1\<rparr>)) (\<lambda>s3.
                    Inr (blk, if \<not> fa_warmedUp s3 \<and> fa_tagsInUse s3 \<ge> fa_warmupBound s3
                              then s3\<lparr>fa_warmedUp := True, fa_warmupCycle := curTick\<rparr> else s3)))))))"

definition fa_insertBlock :: "addr \<Rightarrow> nat \<Rightarrow> FALRU \<Rightarrow> FALRU" where
  "fa_insertBlock a blk s = s"

definition fa_clearLocks :: "FALRU \<Rightarrow> FALRU" where
  "fa_clearLocks s = s\<lparr>fa_blks := map (\<lambda>b. b\<lparr>lockList := []\<rparr>) (fa_blks s)\<rparr>"

text \<open>The debugging check of the boundaries, from the head along the list, with at most \<open>fuel\<close> blocks.\<close>

fun fa_check_loop :: "nat \<Rightarrow> nat option \<Rightarrow> u32 \<Rightarrow> u32 \<Rightarrow> nat \<Rightarrow> u32 \<Rightarrow> FALRU \<Rightarrow> bool res" where
  "fa_check_loop 0 p sz boundary j flags s = Inl Diverges"
| "fa_check_loop (Suc fuel) p sz boundary j flags s =
     (case p of None \<Rightarrow> Inr True
      | Some i \<Rightarrow>
          res_bind (vec_get (fa_blks s) i) (\<lambda>b.
          let sz' = sz + fa_blkSize s
          in if fb_inCache b \<noteq> flags then Inr False
             else if sz' = boundary \<and> i \<noteq> fa_tail s
             then res_bind (vec_get (fa_cacheBoundaries s) j) (\<lambda>c.
                  if c \<noteq> Some i then Inr False
                  else fa_check_loop fuel (fb_next b) sz' (push_bit 1 boundary) (j + 1)
                         (flags AND NOT (push_bit j 1)) s)
             else fa_check_loop fuel (fb_next b) sz' boundary j flags s))"

definition fa_check :: "FALRU \<Rightarrow> bool res" where
  "fa_check s = fa_check_loop (length (fa_blks s) + 1) (Some (fa_head s)) 0 (push_bit 17 1) 0 (fa_cacheMask s) s"

section \<open>The fill\<close>

text \<open>
  What \<open>Cache::handleFill\<close> (\<open>mem/cache/cache_impl.hh\<close>) does to the block it gets: \<open>insertBlock\<close>, and a
  status that is valid and readable.
\<close>

definition fa_handleFill :: "addr \<Rightarrow> int \<Rightarrow> FALRU \<Rightarrow> FALRU res" where
  "fa_handleFill a curTick s =
     res_bind (fa_findVictim a curTick s) (\<lambda>(blk, s1).
     fa_upd blk (\<lambda>b. b\<lparr>status := BlkValid OR BlkReadable\<rparr>) (fa_insertBlock a blk s1))"

end
