(* ===== verification/FA_LRU_Laws.thy ===== *)
theory FA_LRU_Laws
  imports FA_LRU
begin

text \<open>
  The laws of the fully associative tag store: the doubly linked list with its boundaries, what each operation
  does to the list and to the counters of the caches of every size, and the consistency check.
\<close>

section \<open>Doubly linked segments\<close>

fun lseg :: "(nat \<Rightarrow> nat option) \<Rightarrow> (nat \<Rightarrow> nat option) \<Rightarrow> nat option \<Rightarrow> nat list \<Rightarrow> nat option \<Rightarrow> bool" where
  "lseg f g p [] q \<longleftrightarrow> True"
| "lseg f g p (x # xs) q \<longleftrightarrow> f x = p \<and> g x = (if xs = [] then q else Some (hd xs)) \<and> lseg f g (Some x) xs q"

lemma lseg_append:
  "lseg f g p (xs @ ys) q \<longleftrightarrow>
     lseg f g p xs (if ys = [] then q else Some (hd ys)) \<and> lseg f g (if xs = [] then p else Some (last xs)) ys q"
  by (induction xs arbitrary: p) auto

lemma lseg_cong:
  "(\<And>x. x \<in> set xs \<Longrightarrow> f x = f' x \<and> g x = g' x) \<Longrightarrow> lseg f g p xs q \<longleftrightarrow> lseg f' g' p xs q"
  by (induction xs arbitrary: p) auto

lemma lseg_set_prev:
  "lseg f g p xs q \<Longrightarrow> distinct xs \<Longrightarrow> lseg (f(hd xs := p')) g p' xs q"
proof (cases xs)
  case (Cons x r)
  assume a: "lseg f g p xs q" "distinct xs"
  have "lseg (f(x := p')) g (Some x) r q = lseg f g (Some x) r q"
    using a(2) Cons by (intro lseg_cong) auto
  then show ?thesis using a(1) Cons by simp
qed simp

lemma lseg_set_next:
  assumes "lseg f g p xs q" "distinct xs"
  shows "lseg f (g(last xs := q')) p xs q'"
proof (cases xs rule: rev_cases)
  case (snoc r x)
  then have "lseg f (g(x := q')) p r (Some x) \<longleftrightarrow> lseg f g p r (Some x)"
    using assms(2) by (intro lseg_cong) auto
  then show ?thesis using assms(1) snoc by (simp add: lseg_append)
qed simp

lemma lseg_nth_prev:
  "lseg f g p xs q \<Longrightarrow> k < length xs \<Longrightarrow> f (xs ! k) = (if k = 0 then p else Some (xs ! (k - 1)))"
proof (induction xs arbitrary: p k)
  case (Cons x xs)
  then show ?case by (cases k) (auto simp: nth_Cons')
qed simp

section \<open>The list of the blocks\<close>

abbreviation prv :: "FALRU \<Rightarrow> nat \<Rightarrow> nat option" where "prv s i \<equiv> fb_prev (fa_blks s ! i)"
abbreviation nxt :: "FALRU \<Rightarrow> nat \<Rightarrow> nat option" where "nxt s i \<equiv> fb_next (fa_blks s ! i)"
abbreviation inc :: "FALRU \<Rightarrow> nat \<Rightarrow> u32" where "inc s i \<equiv> fb_inCache (fa_blks s ! i)"

text \<open>What the moves leave alone in a block, and in the store.\<close>

definition blk_core :: "FALRUBlk \<Rightarrow> CacheBlk \<times> bool" where
  "blk_core b = (CacheBlk.truncate b, fb_isTouched b)"

definition fa_rest :: "FALRU \<Rightarrow> FALRU" where
  "fa_rest s = s\<lparr>fa_blks := [], fa_cacheBoundaries := [], fa_head := 0, fa_tail := 0\<rparr>"

lemma fa_rest_simps [simp]:
  "fa_rest (s\<lparr>fa_blks := b\<rparr>) = fa_rest s" "fa_rest (s\<lparr>fa_cacheBoundaries := c\<rparr>) = fa_rest s"
  "fa_rest (s\<lparr>fa_head := h\<rparr>) = fa_rest s" "fa_rest (s\<lparr>fa_tail := h\<rparr>) = fa_rest s"
  by (simp_all add: fa_rest_def)

lemma fa_restD:
  assumes "fa_rest s' = fa_rest s"
  shows "fa_numCaches s' = fa_numCaches s" "fa_cacheMask s' = fa_cacheMask s"
    "fa_tagHash s' = fa_tagHash s" "fa_hits s' = fa_hits s" "fa_misses s' = fa_misses s" "fa_accesses s' = fa_accesses s"
    "fa_blkSize s' = fa_blkSize s" "fa_tagsInUse s' = fa_tagsInUse s" "fa_warmedUp s' = fa_warmedUp s"
    "fa_warmupBound s' = fa_warmupBound s" "fa_replacements s' = fa_replacements s" "fa_hitLatency s' = fa_hitLatency s"
  using arg_cong [OF assms, of fa_numCaches] arg_cong [OF assms, of fa_cacheMask]
    arg_cong [OF assms, of fa_tagHash] arg_cong [OF assms, of fa_hits] arg_cong [OF assms, of fa_misses]
    arg_cong [OF assms, of fa_accesses] arg_cong [OF assms, of fa_blkSize] arg_cong [OF assms, of fa_tagsInUse]
    arg_cong [OF assms, of fa_warmedUp] arg_cong [OF assms, of fa_warmupBound]
    arg_cong [OF assms, of fa_replacements] arg_cong [OF assms, of fa_hitLatency]
  by (simp_all add: fa_rest_def)

definition fa_same_core :: "FALRU \<Rightarrow> FALRU \<Rightarrow> bool" where
  "fa_same_core s s' \<longleftrightarrow> map blk_core (fa_blks s') = map blk_core (fa_blks s) \<and> fa_rest s' = fa_rest s"

lemma fa_same_core_refl [simp]: "fa_same_core s s"
  by (simp add: fa_same_core_def)

lemma fa_same_core_trans: "fa_same_core s s1 \<Longrightarrow> fa_same_core s1 s2 \<Longrightarrow> fa_same_core s s2"
  by (simp add: fa_same_core_def)

lemma fa_same_core_rest: "fa_same_core s s' \<Longrightarrow> fa_rest s' = fa_rest s"
  by (simp add: fa_same_core_def)

lemma fa_same_core_length: "fa_same_core s s' \<Longrightarrow> length (fa_blks s') = length (fa_blks s)"
  unfolding fa_same_core_def by (metis length_map)

lemma fa_same_core_blk:
  assumes "fa_same_core s s'" "i < length (fa_blks s)"
  shows "blk_core (fa_blks s' ! i) = blk_core (fa_blks s ! i)"
  using assms unfolding fa_same_core_def by (metis length_map nth_map)

text \<open>A change of a block that leaves the core.\<close>

lemma fa_upd_in: "i < length (fa_blks s) \<Longrightarrow> fa_upd i f s = Inr (s\<lparr>fa_blks := (fa_blks s)[i := f (fa_blks s ! i)]\<rparr>)"
  by (simp add: fa_upd_def)

lemma fa_same_core_upd:
  assumes "blk_core (f (fa_blks s ! i)) = blk_core (fa_blks s ! i)"
  shows "fa_same_core s (s\<lparr>fa_blks := (fa_blks s)[i := f (fa_blks s ! i)]\<rparr>)"
proof -
  have "(map blk_core (fa_blks s))[i := blk_core (fa_blks s ! i)] = map blk_core (fa_blks s)"
    by (cases "i < length (fa_blks s)") (simp_all add: list_update_same_conv list_update_beyond)
  then show ?thesis using assms by (simp add: fa_same_core_def map_update)
qed

lemma fa_same_core_fields:
  "fa_same_core s (s\<lparr>fa_cacheBoundaries := bs\<rparr>)" "fa_same_core s (s\<lparr>fa_head := h\<rparr>)" "fa_same_core s (s\<lparr>fa_tail := h\<rparr>)"
  by (simp_all add: fa_same_core_def)

lemma blk_core_simps [simp]:
  "blk_core (b\<lparr>fb_prev := p\<rparr>) = blk_core b" "blk_core (b\<lparr>fb_next := p\<rparr>) = blk_core b"
  "blk_core (b\<lparr>fb_inCache := m\<rparr>) = blk_core b"
  by (simp_all add: blk_core_def CacheBlk.truncate_def)

definition fa_linked :: "FALRU \<Rightarrow> nat list \<Rightarrow> bool" where
  "fa_linked s xs \<longleftrightarrow> distinct xs \<and> set xs = {..<length (fa_blks s)} \<and> xs \<noteq> [] \<and>
     fa_head s = hd xs \<and> fa_tail s = last xs \<and> lseg (prv s) (nxt s) None xs None"

lemma field_upd:
  assumes "i < length (fa_blks s)"
  shows "(\<lambda>k. h ((fa_blks s)[i := b] ! k)) = (\<lambda>k. h (fa_blks s ! k))(i := h b)"
  using assms by (auto simp: fun_eq_iff nth_list_update)

lemma unlink_spec:
  assumes "fa_linked s (as @ i # cs)" "as \<noteq> []"
  shows "\<exists>s'. fa_unlink i s = Inr s' \<and> fa_same_core s s' \<and> fa_cacheBoundaries s' = fa_cacheBoundaries s \<and>
    fa_head s' = hd as \<and> fa_tail s' = last (as @ cs) \<and> inc s' = inc s \<and>
    lseg (prv s') (nxt s') None (as @ cs) None"
proof -
  define n where "n = length (fa_blks s)"
  have d: "distinct (as @ i # cs)" and st: "set (as @ i # cs) = {..<n}"
    and hd: "fa_head s = hd as" and tl: "fa_tail s = last (i # cs)"
    and l: "lseg (prv s) (nxt s) None as (Some i)" "prv s i = Some (last as)"
      "nxt s i = (if cs = [] then None else Some (hd cs))" "lseg (prv s) (nxt s) (Some i) cs None"
    using assms by (auto simp: fa_linked_def lseg_append n_def)
  have i: "i < n" using st by auto
  have la: "last as < n" "last as \<noteq> i" using st d assms(2) last_in_set [OF assms(2)] by auto
  have da: "distinct as" "distinct cs" using d by auto
  show ?thesis
  proof (cases "cs = []")
    case True
    have "fa_unlink i s = Inr (s\<lparr>fa_tail := last as, fa_blks := (fa_blks s)[last as := (fa_blks s ! last as)\<lparr>fb_next := None\<rparr>]\<rparr>)"
      (is "_ = Inr ?t")
      using True tl i la l by (simp add: fa_unlink_def n_def fa_deref_def fa_upd_def)
    moreover have "fa_same_core s ?t"
      by (rule fa_same_core_trans [OF fa_same_core_fields(3) [of s "last as"]])
        (use fa_same_core_upd [of "\<lambda>b. b\<lparr>fb_next := None\<rparr>" "s\<lparr>fa_tail := last as\<rparr>" "last as"] in simp)
    moreover have "lseg (prv s) ((nxt s)(last as := None)) None as None"
      by (rule lseg_set_next [OF l(1) da(1)])
    moreover have "prv ?t = prv s" "nxt ?t = (nxt s)(last as := None)" "inc ?t = inc s"
      using la by (auto simp: fun_eq_iff nth_list_update n_def)
    ultimately show ?thesis using True hd by (intro exI [of _ ?t]) simp
  next
    case False
    obtain c cs' where cs: "cs = c # cs'" using False by (cases cs) auto
    have lin: "last as \<in> set as" using assms(2) by (rule last_in_set)
    have hc: "hd cs < n" "hd cs \<notin> set as" "last as \<notin> set cs" using st d lin cs by auto
    then have "hd cs \<noteq> last as" using lin by auto
    note hc = hc this
    have ti: "i \<noteq> fa_tail s" using tl False d by auto
    let ?b1 = "(fa_blks s)[last as := (fa_blks s ! last as)\<lparr>fb_next := nxt s i\<rparr>]"
    let ?s1 = "s\<lparr>fa_blks := ?b1\<rparr>"
    let ?t = "s\<lparr>fa_blks := ?b1[hd cs := (?b1 ! hd cs)\<lparr>fb_prev := prv s i\<rparr>]\<rparr>"
    have u: "fa_unlink i s = Inr ?t"
      using False ti i la hc l by (simp add: fa_unlink_def n_def fa_deref_def fa_upd_def)
    have c: "fa_same_core s ?t"
      by (rule fa_same_core_trans [OF fa_same_core_upd [of "\<lambda>b. b\<lparr>fb_next := nxt s i\<rparr>" s "last as"]])
        (use fa_same_core_upd [of "\<lambda>b. b\<lparr>fb_prev := prv s i\<rparr>" ?s1 "hd cs"] in simp_all)
    have p: "prv ?t = (prv s)(hd cs := Some (last as))" and q: "nxt ?t = (nxt s)(last as := Some (hd cs))"
      and m: "inc ?t = inc s"
      using la hc l False by (auto simp: fun_eq_iff nth_list_update n_def)
    have "lseg (prv s) ((nxt s)(last as := Some (hd cs))) None as (Some (hd cs))"
      by (rule lseg_set_next [OF l(1) da(1)])
    then have 1: "lseg (prv ?t) (nxt ?t) None as (Some (hd cs))"
      unfolding p q by (subst lseg_cong [of as _ "prv s"]) (use hc in auto)
    have "lseg ((prv s)(hd cs := Some (last as))) (nxt s) (Some (last as)) cs None"
      by (rule lseg_set_prev [OF l(4) da(2)])
    then have 2: "lseg (prv ?t) (nxt ?t) (Some (last as)) cs None"
      unfolding p q by (subst lseg_cong [of cs _ _ _ "nxt s"]) (use hc in auto)
    have "lseg (prv ?t) (nxt ?t) None (as @ cs) None"
      using 1 2 False assms(2) by (simp only: lseg_append if_False)
    then show ?thesis using u c m hd tl False by (intro exI [of _ ?t]) simp
  qed
qed

lemma push_head_spec:
  assumes "lseg (prv s) (nxt s) None ys None" "distinct (i # ys)" "set (i # ys) = {..<length (fa_blks s)}"
    "ys \<noteq> []" "fa_head s = hd ys" "fa_tail s = last ys"
  shows "\<exists>s'. fa_push_head i s = Inr s' \<and> fa_same_core s s' \<and> fa_cacheBoundaries s' = fa_cacheBoundaries s \<and>
    inc s' = inc s \<and> fa_linked s' (i # ys)"
proof -
  define n where "n = length (fa_blks s)"
  have hin: "hd ys \<in> set ys" using assms(4) by (rule hd_in_set)
  have mem: "\<And>k. k \<in> set (i # ys) \<Longrightarrow> k < n" unfolding assms(3) n_def by simp
  have i: "i < n" "hd ys < n" by (rule mem; simp add: hin)+
  have dy: "i \<notin> set ys" "distinct ys" using assms(2) by simp_all
  then have "hd ys \<noteq> i" using hin by metis
  note i = i this dy
  let ?b1 = "(fa_blks s)[i := (fa_blks s ! i)\<lparr>fb_next := Some (hd ys), fb_prev := None\<rparr>]"
  let ?s1 = "s\<lparr>fa_blks := ?b1\<rparr>"
  let ?b2 = "?b1[hd ys := (?b1 ! hd ys)\<lparr>fb_prev := Some i\<rparr>]"
  let ?t = "s\<lparr>fa_blks := ?b2, fa_head := i\<rparr>"
  have u: "fa_push_head i s = Inr ?t"
    using i assms(5) by (simp add: fa_push_head_def fa_upd_def n_def)
  have "fa_same_core s (s\<lparr>fa_blks := ?b2\<rparr>)"
    by (rule fa_same_core_trans [OF fa_same_core_upd [of "\<lambda>b. b\<lparr>fb_next := Some (hd ys), fb_prev := None\<rparr>" s i]])
      (use fa_same_core_upd [of "\<lambda>b. b\<lparr>fb_prev := Some i\<rparr>" ?s1 "hd ys"] in simp_all)
  then have c: "fa_same_core s ?t" by (rule fa_same_core_trans) (use fa_same_core_fields(2) [of "s\<lparr>fa_blks := ?b2\<rparr>" i] in simp)
  have p: "prv ?t = (prv s)(i := None, hd ys := Some i)" and q: "nxt ?t = (nxt s)(i := Some (hd ys))"
    and m: "inc ?t = inc s"
    using i by (auto simp: fun_eq_iff nth_list_update n_def)
  have "lseg ((prv s)(i := None, hd ys := Some i)) ((nxt s)(i := Some (hd ys))) (Some i) ys None \<longleftrightarrow>
      lseg ((prv s)(hd ys := Some i)) (nxt s) (Some i) ys None"
    using i by (intro lseg_cong) auto
  moreover have "lseg ((prv s)(hd ys := Some i)) (nxt s) (Some i) ys None"
    by (rule lseg_set_prev [OF assms(1) i(5)])
  ultimately have "lseg (prv ?t) (nxt ?t) None (i # ys) None"
    unfolding p q using i assms(4) by simp
  then have "fa_linked ?t (i # ys)"
    using assms i by (simp add: fa_linked_def)
  then show ?thesis using u c m by (intro exI [of _ ?t]) simp
qed

lemma and_push_bit_iff: "2 ^ j AND m = 0 \<longleftrightarrow> \<not> bit (m :: u32) j"
  by (simp add: and.commute [of "2 ^ j"] and_exp_eq_0_iff_not_bit)

lemma bit_clear: "bit (m AND NOT (2 ^ j) :: u32) k \<longleftrightarrow> bit m k \<and> k \<noteq> j"
  by (cases "k < 32") (auto simp: bit_simps dest: bit_imp_le_length)

text \<open>The move of the boundaries: \<open>c j\<close> is the block at boundary \<open>j\<close>.\<close>

lemma boundary_loop_spec:
  assumes "\<forall>j\<in>set js. j < 32 \<and> j < length (fa_cacheBoundaries s) \<and> c j < length (fa_blks s) \<and>
      fa_cacheBoundaries s ! j = Some (c j)" "distinct js" "blk < length (fa_blks s)"
  shows "\<exists>s'. fa_boundary_loop blk um js s = Inr s' \<and> fa_same_core s s' \<and> prv s' = prv s \<and> nxt s' = nxt s \<and>
    fa_head s' = fa_head s \<and> fa_tail s' = fa_tail s \<and>
    (\<forall>k m. bit (inc s' k) m \<longleftrightarrow> bit (inc s k) m \<and> \<not> (m \<in> set js \<and> bit um m \<and> k = c m)) \<and>
    length (fa_cacheBoundaries s') = length (fa_cacheBoundaries s) \<and>
    (\<forall>m. fa_cacheBoundaries s' ! m =
       (if m \<in> set js \<and> (bit um m \<or> c m = blk) then prv s (c m) else fa_cacheBoundaries s ! m))"
  using assms
proof (induction js arbitrary: s)
  case (Cons j js)
  have j: "j < 32" "j < length (fa_cacheBoundaries s)" "c j < length (fa_blks s)" "fa_cacheBoundaries s ! j = Some (c j)"
    using Cons(2) by auto
  define s1 where "s1 = (if bit um j then s\<lparr>fa_blks := (fa_blks s)[c j := (fa_blks s ! c j)\<lparr>fb_inCache := inc s (c j) AND NOT (push_bit j 1)\<rparr>]\<rparr> else s)"
  define s2 where "s2 = (if bit um j \<or> c j = blk then s1\<lparr>fa_cacheBoundaries := (fa_cacheBoundaries s1)[j := prv s (c j)]\<rparr> else s1)"
  have step: "fa_boundary_loop blk um (j # js) s = fa_boundary_loop blk um js s2"
    using j Cons(4) by (simp add: and_push_bit_iff s2_def s1_def fa_deref_def fa_upd_def)
  have c1: "fa_same_core s s1"
    unfolding s1_def using fa_same_core_upd [of "\<lambda>b. b\<lparr>fb_inCache := fb_inCache b AND NOT (push_bit j 1)\<rparr>" s "c j"] by simp
  have c2: "fa_same_core s s2"
    unfolding s2_def using c1 fa_same_core_trans [OF c1 fa_same_core_fields(1)] by simp
  have pn: "prv s2 = prv s" "nxt s2 = nxt s" "fa_head s2 = fa_head s" "fa_tail s2 = fa_tail s"
    using j by (auto simp: s2_def s1_def fun_eq_iff nth_list_update)
  have b2: "fa_cacheBoundaries s2 = (if bit um j \<or> c j = blk then (fa_cacheBoundaries s)[j := prv s (c j)] else fa_cacheBoundaries s)"
    by (simp add: s2_def s1_def)
  have i2: "bit (inc s2 k) m \<longleftrightarrow> bit (inc s k) m \<and> \<not> (m = j \<and> bit um j \<and> k = c j)" for k m
    using j by (auto simp: s2_def s1_def nth_list_update bit_clear)
  have l2: "length (fa_blks s2) = length (fa_blks s)" using fa_same_core_length [OF c2] .
  have "\<forall>i\<in>set js. i < 32 \<and> i < length (fa_cacheBoundaries s2) \<and> c i < length (fa_blks s2) \<and> fa_cacheBoundaries s2 ! i = Some (c i)"
    using Cons(2,3) l2 by (auto simp: b2 nth_list_update)
  then obtain s' where s': "fa_boundary_loop blk um js s2 = Inr s'" "fa_same_core s2 s'" "prv s' = prv s2" "nxt s' = nxt s2"
    "fa_head s' = fa_head s2" "fa_tail s' = fa_tail s2"
    "\<forall>k m. bit (inc s' k) m \<longleftrightarrow> bit (inc s2 k) m \<and> \<not> (m \<in> set js \<and> bit um m \<and> k = c m)"
    "length (fa_cacheBoundaries s') = length (fa_cacheBoundaries s2)"
    "\<forall>m. fa_cacheBoundaries s' ! m = (if m \<in> set js \<and> (bit um m \<or> c m = blk) then prv s2 (c m) else fa_cacheBoundaries s2 ! m)"
    using Cons.IH [of s2] Cons(3,4) l2 by auto
  have "length (fa_cacheBoundaries s2) = length (fa_cacheBoundaries s)" by (simp add: b2)
  moreover have "fa_cacheBoundaries s' ! m = (if m \<in> set (j # js) \<and> (bit um m \<or> c m = blk) then prv s (c m) else fa_cacheBoundaries s ! m)" for m
  proof (cases "m = j")
    case True
    then have "m \<notin> set js" using Cons(3) by simp
    then show ?thesis using spec [OF s'(9), of m] True j(2) by (simp add: b2)
  next
    case False
    then show ?thesis using spec [OF s'(9), of m] fun_cong [OF pn(1), of "c m"] by (auto simp: b2)
  qed
  ultimately show ?case
    using step s' pn i2 fa_same_core_trans [OF c2 s'(2)] by (intro exI [of _ s']) auto
qed auto

section \<open>The list with its boundaries\<close>

text \<open>\<open>B j\<close> is the number of blocks of the \<open>j\<close>-th smaller cache.\<close>

definition fa_ok :: "(nat \<Rightarrow> nat) \<Rightarrow> FALRU \<Rightarrow> nat list \<Rightarrow> bool" where
  "fa_ok B s xs \<longleftrightarrow> fa_linked s xs \<and> fa_numCaches s \<le> 31 \<and> length (fa_cacheBoundaries s) = fa_numCaches s \<and>
     (\<forall>j<fa_numCaches s. 2 \<le> B j \<and> B j < length xs \<and> fa_cacheBoundaries s ! j = Some (xs ! (B j - 1))) \<and>
     (\<forall>p<length xs. \<forall>j. bit (inc s (xs ! p)) j \<longleftrightarrow> j < fa_numCaches s \<and> p < B j) \<and>
     (\<forall>j. bit (fa_cacheMask s) j \<longleftrightarrow> j < fa_numCaches s)"

text \<open>Positions after the block at position \<open>length as\<close> has moved to the front.\<close>

lemma nth_moved:
  "k < length (as @ i # cs) \<Longrightarrow>
   (i # as @ cs) ! k = (if k = 0 then i else if k \<le> length as then (as @ i # cs) ! (k - 1) else (as @ i # cs) ! k)"
  by (auto simp: nth_Cons' nth_append)

lemma moveToHead_spec:
  assumes ok: "fa_ok B s xs" and i: "i \<in> set xs"
  shows "\<exists>s'. fa_moveToHead i s = Inr s' \<and> fa_same_core s s' \<and> fa_ok B s' (i # remove1 i xs)"
proof -
  obtain as cs where xs: "xs = as @ i # cs" "i \<notin> set as" using split_list_first [OF i] by blast
  define n where "n = fa_numCaches s"
  define c where "c = (\<lambda>j. xs ! (B j - 1))"
  have lk: "fa_linked s xs" and bd: "\<And>j. j < n \<Longrightarrow> 2 \<le> B j \<and> B j < length xs \<and> fa_cacheBoundaries s ! j = Some (c j)"
    and ic: "\<And>p j. p < length xs \<Longrightarrow> bit (inc s (xs ! p)) j \<longleftrightarrow> j < n \<and> p < B j"
    and cm: "\<And>j. bit (fa_cacheMask s) j \<longleftrightarrow> j < n" and n: "n \<le> 31" "length (fa_cacheBoundaries s) = n"
    using ok by (auto simp: fa_ok_def n_def c_def)
  have d: "distinct xs" and st: "set xs = {..<length (fa_blks s)}" and ls: "lseg (prv s) (nxt s) None xs None"
    using lk by (auto simp: fa_linked_def)
  have len: "length xs = length (fa_blks s)" using distinct_card [OF d] st by simp
  have il: "i < length (fa_blks s)" using i st by auto
  define p where "p = length as"
  have p: "p < length xs" "xs ! p = i" using xs by (auto simp: p_def)
  have eqi: "xs ! k = i \<longleftrightarrow> k = p" if "k < length xs" for k
    using nth_eq_iff_index_eq [OF d that p(1)] p(2) by auto
  have um: "bit (inc s i XOR fa_cacheMask s) j \<longleftrightarrow> j < n \<and> B j \<le> p" for j
    using ic [OF p(1), of j] p(2) cm [of j] by (auto simp: bit_simps)
  have cl: "c j < length (fa_blks s)" if "j < n" for j
  proof -
    have "xs ! (B j - 1) \<in> set xs" using bd [OF that] by (intro nth_mem) auto
    then show ?thesis using st by (simp add: c_def)
  qed
  have "\<exists>s1. fa_boundary_loop i (inc s i XOR fa_cacheMask s) [0..<n] s = Inr s1 \<and> fa_same_core s s1 \<and> prv s1 = prv s \<and> nxt s1 = nxt s \<and>
    fa_head s1 = fa_head s \<and> fa_tail s1 = fa_tail s \<and>
    (\<forall>k m. bit (inc s1 k) m \<longleftrightarrow> bit (inc s k) m \<and> \<not> (m \<in> set [0..<n] \<and> bit (inc s i XOR fa_cacheMask s) m \<and> k = c m)) \<and>
    length (fa_cacheBoundaries s1) = length (fa_cacheBoundaries s) \<and>
    (\<forall>m. fa_cacheBoundaries s1 ! m =
       (if m \<in> set [0..<n] \<and> (bit (inc s i XOR fa_cacheMask s) m \<or> c m = i) then prv s (c m) else fa_cacheBoundaries s ! m))"
    by (rule boundary_loop_spec) (use n bd cl il in auto)
  then obtain s1 where s1: "fa_boundary_loop i (inc s i XOR fa_cacheMask s) [0..<n] s = Inr s1" "fa_same_core s s1"
    "prv s1 = prv s" "nxt s1 = nxt s" "fa_head s1 = fa_head s" "fa_tail s1 = fa_tail s"
    "\<And>k m. bit (inc s1 k) m \<longleftrightarrow> bit (inc s k) m \<and> \<not> (m < n \<and> B m \<le> p \<and> k = c m)"
    "length (fa_cacheBoundaries s1) = n"
    "\<And>m. m < n \<Longrightarrow> fa_cacheBoundaries s1 ! m = (if B m \<le> p \<or> c m = i then prv s (c m) else Some (c m))"
    using n(2) bd by (auto simp: um)
  have l1: "length (fa_blks s1) = length (fa_blks s)" by (rule fa_same_core_length [OF s1(2)])
  note r1 = fa_restD [OF fa_same_core_rest [OF s1(2)]]
  define s2 where "s2 = s1\<lparr>fa_blks := (fa_blks s1)[i := (fa_blks s1 ! i)\<lparr>fb_inCache := fa_cacheMask s1\<rparr>]\<rparr>"
  have c2: "fa_same_core s s2"
    unfolding s2_def
    by (rule fa_same_core_trans [OF s1(2)]) (use fa_same_core_upd [of "\<lambda>b. b\<lparr>fb_inCache := fa_cacheMask s1\<rparr>" s1 i] in simp)
  have p2: "prv s2 = prv s" "nxt s2 = nxt s" "fa_head s2 = fa_head s" "fa_tail s2 = fa_tail s"
    "fa_cacheBoundaries s2 = fa_cacheBoundaries s1"
    using s1(3-6) il l1 by (auto simp: s2_def fun_eq_iff nth_list_update dest: fun_cong)
  have i2: "bit (inc s2 k) m \<longleftrightarrow> (if k = i then m < n else bit (inc s k) m \<and> \<not> (m < n \<and> B m \<le> p \<and> k = c m))" for k m
    using il l1 s1(7) [of k m] cm r1(2) by (simp add: s2_def nth_list_update)
  have l2: "length (fa_blks s2) = length (fa_blks s)" by (rule fa_same_core_length [OF c2])
  have lk2: "fa_linked s2 xs" using lk p2 l2 by (simp add: fa_linked_def)
  define ys where "ys = i # as @ cs"
  have ys: "ys = i # remove1 i xs" using xs by (simp add: ys_def remove1_append)
  have "\<exists>s'. (if i \<noteq> fa_head s2 then res_bind (fa_unlink i s2) (fa_push_head i) else Inr s2) = Inr s' \<and> fa_same_core s2 s' \<and>
    fa_cacheBoundaries s' = fa_cacheBoundaries s2 \<and> inc s' = inc s2 \<and> fa_linked s' ys"
  proof (cases "as = []")
    case True
    then show ?thesis using lk2 xs by (auto simp: fa_linked_def ys_def)
  next
    case False
    have lk2': "fa_linked s2 (as @ i # cs)" using lk2 xs by simp
    from unlink_spec [OF lk2' False] obtain s3 where s3: "fa_unlink i s2 = Inr s3" "fa_same_core s2 s3"
      "fa_cacheBoundaries s3 = fa_cacheBoundaries s2" "fa_head s3 = hd as" "fa_tail s3 = last (as @ cs)" "inc s3 = inc s2"
      "lseg (prv s3) (nxt s3) None (as @ cs) None" by blast
    have l3: "length (fa_blks s3) = length (fa_blks s)" using fa_same_core_length [OF s3(2)] l2 by simp
    have "\<exists>s'. fa_push_head i s3 = Inr s' \<and> fa_same_core s3 s' \<and> fa_cacheBoundaries s' = fa_cacheBoundaries s3 \<and>
      inc s' = inc s3 \<and> fa_linked s' (i # as @ cs)"
      by (rule push_head_spec [OF s3(7)]) (use d xs st l3 False s3 in auto)
    moreover have "i \<noteq> fa_head s2" using lk2' False xs(2) by (auto simp: fa_linked_def)
    ultimately show ?thesis using s3 fa_same_core_trans [OF s3(2)] by (auto simp: ys_def)
  qed
  then obtain s' where s': "(if i \<noteq> fa_head s2 then res_bind (fa_unlink i s2) (fa_push_head i) else Inr s2) = Inr s'"
    "fa_same_core s2 s'" "fa_cacheBoundaries s' = fa_cacheBoundaries s2" "inc s' = inc s2" "fa_linked s' ys" by blast
  have "fa_moveToHead i s = Inr s'"
    using s'(1) s1(1) il l1 by (simp add: fa_moveToHead_def n_def fa_upd_def s2_def [symmetric])
  moreover have c: "fa_same_core s s'" by (rule fa_same_core_trans [OF c2 s'(2)])
  moreover have "fa_ok B s' ys"
  proof -
    note r = fa_restD [OF fa_same_core_rest [OF c]]
    have ly: "length ys = length xs" using xs by (simp add: ys_def)
    have ny: "ys ! k = (if k = 0 then i else if k \<le> p then xs ! (k - 1) else xs ! k)" if "k < length xs" for k
      using nth_moved [of k as i cs] that xs by (simp add: ys_def p_def)
    have B: "2 \<le> B j \<and> B j < length ys \<and> fa_cacheBoundaries s' ! j = Some (ys ! (B j - 1))" if j: "j < n" for j
    proof -
      have bj: "2 \<le> B j" "B j < length xs" using bd [OF j] by auto
      have q: "B j - 1 < length xs" "B j - 1 \<noteq> 0" using bj by auto
      have pr: "prv s (c j) = Some (xs ! (B j - 2))"
        using lseg_nth_prev [OF ls q(1)] q(2) bj(1) by (simp add: c_def numeral_2_eq_2)
      have ci: "c j = i \<longleftrightarrow> B j - 1 = p" unfolding c_def by (rule eqi [OF q(1)])
      have "fa_cacheBoundaries s' ! j = Some (ys ! (B j - 1))"
      proof (cases "B j - 1 \<le> p")
        case True
        then have "B j \<le> p \<or> c j = i" using ci by auto
        then show ?thesis using s1(9) [OF j] pr s'(3) p2(5) ny [OF q(1)] True q(2) bj(1) by (simp add: numeral_2_eq_2)
      next
        case False
        then have "\<not> (B j \<le> p \<or> c j = i)" using ci by auto
        then show ?thesis using s1(9) [OF j] s'(3) p2(5) ny [OF q(1)] False q(2) by (simp add: c_def)
      qed
      then show ?thesis using bj ly by simp
    qed
    have I: "bit (inc s' (ys ! k)) j \<longleftrightarrow> j < n \<and> k < B j" if k: "k < length ys" for k j
    proof -
      have k': "k < length xs" using k ly by simp
      have e: "inc s' x = inc s2 x" for x using s'(4) by (rule fun_cong)
      consider "k = 0" | "0 < k" "k \<le> p" | "p < k" by linarith
      then show ?thesis
      proof cases
        case 1
        then show ?thesis using ny [OF k'] i2 [of i j] e bd [of j] by auto
      next
        case 2
        have y: "ys ! k = xs ! (k - 1)" using ny [OF k'] 2 by simp
        have km: "k - 1 < length xs" using k' by simp
        have "xs ! (k - 1) \<noteq> i" using eqi [OF km] 2 by auto
        moreover have "xs ! (k - 1) = c j \<longleftrightarrow> k - 1 = B j - 1" if "j < n"
          unfolding c_def using nth_eq_iff_index_eq [OF d km, of "B j - 1"] bd [OF that] by auto
        ultimately show ?thesis using i2 [of "xs ! (k - 1)" j] ic [OF km, of j] y e 2 bd [of j] by auto
      next
        case 3
        have y: "ys ! k = xs ! k" using ny [OF k'] 3 by simp
        have "xs ! k \<noteq> i" using eqi [OF k'] 3 by auto
        moreover have "xs ! k = c j \<longleftrightarrow> k = B j - 1" if "j < n"
          unfolding c_def using nth_eq_iff_index_eq [OF d k', of "B j - 1"] bd [OF that] by auto
        ultimately show ?thesis using i2 [of "xs ! k" j] ic [OF k', of j] y e 3 bd [of j] by auto
      qed
    qed
    show ?thesis
      unfolding fa_ok_def
      using s'(5) B I cm n r(1,2) s1(8) s'(3) p2(5) by (simp add: n_def [symmetric])
  qed
  ultimately show ?thesis using ys by auto
qed

section \<open>Construction\<close>

text \<open>A store of \<open>2\<^bsup>e+nc\<^esup>\<close> blocks, whose smaller caches have \<open>2\<^bsup>e+k\<^esup>\<close> blocks.\<close>

definition link_blk :: "nat \<Rightarrow> u32 \<Rightarrow> FALRUBlk \<Rightarrow> FALRUBlk" where
  "link_blk i m b = b\<lparr>fb_inCache := m, fb_prev := Some (i - 1), fb_next := Some (i + 1), fb_isTouched := False\<rparr>"

lemma of_nat_eq_pred:
  assumes "i < 2 ^ 31" "0 < m" "m \<le> 2 ^ 31"
  shows "(of_nat i = (of_nat m :: u32) - 1) \<longleftrightarrow> i + 1 = m"
proof -
  have a: "(of_nat m :: u32) - 1 = of_nat (m - 1)" using assms(2) by (simp add: of_nat_diff)
  have b: "(of_nat i = (of_nat (m - 1) :: u32)) \<longleftrightarrow> i = m - 1"
  proof
    assume "of_nat i = (of_nat (m - 1) :: u32)"
    then have "unat (of_nat i :: u32) = unat (of_nat (m - 1) :: u32)" by (rule arg_cong)
    moreover have "unat (of_nat i :: u32) = i" "unat (of_nat (m - 1) :: u32) = m - 1"
      using assms by (simp_all only: unat_of_nat) simp_all
    ultimately show "i = m - 1" by simp
  qed simp
  show ?thesis unfolding a b using assms(2) by auto
qed

lemma init_loop_spec:
  assumes "i + m = 2 ^ (e + nc) - 1" "length xs = 2 ^ (e + nc)" "length bs = nc" "e + nc \<le> 31" "1 \<le> e" "1 \<le> i"
    "\<forall>k<nc. k < j \<longleftrightarrow> 2 ^ (e + k) \<le> i" "j \<le> nc" "i < 2 ^ (e + j)" "\<forall>k<j. bs ! k = Some (2 ^ (e + k) - 1)"
    "\<forall>k. bit flags k \<longleftrightarrow> j \<le> k \<and> k < nc"
  shows "\<exists>bs' xs'. fa_init_loop m i (of_nat (2 ^ (e + j))) j flags bs xs = Inr (of_nat (2 ^ (e + nc)), nc, bs', xs') \<and>
    length bs' = nc \<and> (\<forall>k<nc. bs' ! k = Some (2 ^ (e + k) - 1)) \<and> length xs' = length xs \<and>
    (\<forall>p. (i \<le> p \<and> p < 2 ^ (e + nc) - 1 \<longrightarrow> (\<exists>f. (\<forall>k. bit f k \<longleftrightarrow> k < nc \<and> p < 2 ^ (e + k)) \<and> xs' ! p = link_blk p f (xs ! p))) \<and>
         (\<not> (i \<le> p \<and> p < 2 ^ (e + nc) - 1) \<longrightarrow> xs' ! p = xs ! p))"
  using assms
proof (induction m arbitrary: i j flags bs xs)
  case 0
  have "j = nc"
  proof (rule ccontr)
    assume "j \<noteq> nc"
    then have "j < nc" using 0 by simp
    then have "(2::nat) ^ (e + j) < 2 ^ (e + nc)" by simp
    then show False using 0(1,9) by linarith
  qed
  then show ?case using 0 by auto
next
  case (Suc m)
  define n where "n = (2::nat) ^ (e + nc)"
  have n31: "n \<le> 2 ^ 31" unfolding n_def using Suc(5) by (intro power_increasing) auto
  have i: "i < n - 1" "i < length xs" using Suc(2,3) by (auto simp: n_def)
  have bj: "(2::nat) ^ (e + j) \<le> n" using Suc(9) unfolding n_def by (intro power_increasing) auto
  have eq: "(of_nat i = (of_nat (2 ^ (e + j)) :: u32) - 1) \<longleftrightarrow> i + 1 = 2 ^ (e + j)"
    by (rule of_nat_eq_pred) (use i bj n31 in auto)
  define xs1 where "xs1 = xs[i := link_blk i flags (xs ! i)]"
  have fi: "bit flags k \<longleftrightarrow> k < nc \<and> i < 2 ^ (e + k)" for k
    using Suc(8,12) by (metis not_le)
  have rest: "(\<exists>bs' xs'. r = Inr (of_nat n, nc, bs', xs') \<and> length bs' = nc \<and> (\<forall>k<nc. bs' ! k = Some (2 ^ (e + k) - 1)) \<and>
      length xs' = length xs \<and>
      (\<forall>p. (i \<le> p \<and> p < n - 1 \<longrightarrow> (\<exists>f. (\<forall>k. bit f k \<longleftrightarrow> k < nc \<and> p < 2 ^ (e + k)) \<and> xs' ! p = link_blk p f (xs ! p))) \<and>
         (\<not> (i \<le> p \<and> p < n - 1) \<longrightarrow> xs' ! p = xs ! p)))"
    if ex: "\<exists>bs' xs'. r = Inr (of_nat n, nc, bs', xs') \<and>
      length bs' = nc \<and> (\<forall>k<nc. bs' ! k = Some (2 ^ (e + k) - 1)) \<and> length xs' = length xs1 \<and>
      (\<forall>p. (i + 1 \<le> p \<and> p < n - 1 \<longrightarrow> (\<exists>f. (\<forall>k. bit f k \<longleftrightarrow> k < nc \<and> p < 2 ^ (e + k)) \<and> xs' ! p = link_blk p f (xs1 ! p))) \<and>
         (\<not> (i + 1 \<le> p \<and> p < n - 1) \<longrightarrow> xs' ! p = xs1 ! p))"
    for r :: "(u32 \<times> nat \<times> nat option list \<times> FALRUBlk list) res"
  proof -
    from ex obtain bs' xs' where x: "r = Inr (of_nat n, nc, bs', xs')" "length bs' = nc"
      "\<forall>k<nc. bs' ! k = Some (2 ^ (e + k) - 1)" "length xs' = length xs1"
      "\<And>p. i + 1 \<le> p \<Longrightarrow> p < n - 1 \<Longrightarrow> \<exists>f. (\<forall>k. bit f k \<longleftrightarrow> k < nc \<and> p < 2 ^ (e + k)) \<and> xs' ! p = link_blk p f (xs1 ! p)"
      "\<And>p. \<not> (i + 1 \<le> p \<and> p < n - 1) \<Longrightarrow> xs' ! p = xs1 ! p" by blast
    have q: "xs1 ! p = (if p = i then link_blk i flags (xs ! i) else xs ! p)" for p
      using i(2) by (auto simp: xs1_def nth_list_update)
    have "\<exists>f. (\<forall>k. bit f k \<longleftrightarrow> k < nc \<and> p < 2 ^ (e + k)) \<and> xs' ! p = link_blk p f (xs ! p)" if "i \<le> p" "p < n - 1" for p
    proof (cases "p = i")
      case True
      then show ?thesis using x(6) [of i] q [of i] fi by (intro exI [of _ flags]) simp
    next
      case False
      then show ?thesis using x(5) [of p] that q [of p] by simp
    qed
    moreover have "xs' ! p = xs ! p" if "\<not> (i \<le> p \<and> p < n - 1)" for p
    proof -
      have "p \<noteq> i" using that i by auto
      then show ?thesis using x(6) [of p] that q [of p] by auto
    qed
    moreover have "length xs' = length xs" using x(4) by (simp add: xs1_def)
    ultimately show ?thesis using x(1-3) by blast
  qed
  have l1: "length xs1 = n" using Suc(3) by (simp add: xs1_def n_def)
  show ?case
  proof (cases "i + 1 = 2 ^ (e + j)")
    case True
    have jn: "j < nc"
    proof (rule ccontr)
      assume "\<not> j < nc"
      then have "j = nc" using Suc(9) by simp
      then show False using True i(1) by (simp add: n_def)
    qed
    have step: "fa_init_loop (Suc m) i (of_nat (2 ^ (e + j))) j flags bs xs =
        fa_init_loop m (i + 1) (of_nat (2 ^ (e + (j + 1)))) (j + 1) (flags AND NOT (2 ^ j)) (bs[j := Some i]) xs1"
    proof -
      have "push_bit 1 (of_nat (2 ^ (e + j)) :: u32) = of_nat (2 ^ (e + (j + 1)))" by (simp add: push_bit_eq_mult)
      moreover have "of_nat i = (of_nat (2 ^ (e + j)) :: u32) - 1" using eq True by simp
      ultimately show ?thesis using i(2) jn Suc(4) by (simp add: xs1_def link_blk_def mult.commute)
    qed
    have "\<forall>k<nc. k < j + 1 \<longleftrightarrow> 2 ^ (e + k) \<le> i + 1"
    proof (intro allI impI)
      fix k assume k: "k < nc"
      have "k < j + 1 \<longleftrightarrow> e + k \<le> e + j" by auto
      also have "\<dots> \<longleftrightarrow> (2::nat) ^ (e + k) \<le> 2 ^ (e + j)" by simp
      finally show "k < j + 1 \<longleftrightarrow> 2 ^ (e + k) \<le> i + 1" using True by simp
    qed
    moreover have "\<forall>k<j + 1. bs[j := Some i] ! k = Some (2 ^ (e + k) - 1)"
      using Suc(4,11) jn True by (auto simp: nth_list_update less_Suc_eq)
    moreover have "i + 1 < 2 ^ (e + (j + 1))" using True by simp
    moreover have "\<forall>k. bit (flags AND NOT (2 ^ j)) k \<longleftrightarrow> j + 1 \<le> k \<and> k < nc"
    proof
      fix k
      have "bit (flags AND NOT (2 ^ j)) k \<longleftrightarrow> (j \<le> k \<and> k < nc) \<and> k \<noteq> j"
        by (simp only: bit_clear spec [OF Suc(12), of k])
      then show "bit (flags AND NOT (2 ^ j)) k \<longleftrightarrow> j + 1 \<le> k \<and> k < nc" by linarith
    qed
    moreover have "i + 1 + m = 2 ^ (e + nc) - 1" using Suc(2) by simp
    moreover have "length xs1 = 2 ^ (e + nc)" using l1 by (simp only: n_def)
    moreover have "length (bs[j := Some i]) = nc" using Suc(4) by simp
    moreover have "1 \<le> i + 1" "j + 1 \<le> nc" using jn by simp_all
    ultimately have "\<exists>bs' xs'. fa_init_loop m (i + 1) (of_nat (2 ^ (e + (j + 1)))) (j + 1) (flags AND NOT (2 ^ j)) (bs[j := Some i]) xs1 =
        Inr (of_nat (2 ^ (e + nc)), nc, bs', xs') \<and>
      length bs' = nc \<and> (\<forall>k<nc. bs' ! k = Some (2 ^ (e + k) - 1)) \<and> length xs' = length xs1 \<and>
      (\<forall>p. (i + 1 \<le> p \<and> p < 2 ^ (e + nc) - 1 \<longrightarrow> (\<exists>f. (\<forall>k. bit f k \<longleftrightarrow> k < nc \<and> p < 2 ^ (e + k)) \<and> xs' ! p = link_blk p f (xs1 ! p))) \<and>
         (\<not> (i + 1 \<le> p \<and> p < 2 ^ (e + nc) - 1) \<longrightarrow> xs' ! p = xs1 ! p))"
      using Suc(5,6) by - (rule Suc.IH)
    then show ?thesis unfolding step n_def [symmetric] by (rule rest)
  next
    case False
    have step: "fa_init_loop (Suc m) i (of_nat (2 ^ (e + j))) j flags bs xs =
        fa_init_loop m (i + 1) (of_nat (2 ^ (e + j))) j flags bs xs1"
      using i(2) eq False by (simp add: xs1_def link_blk_def)
    have "i + 1 < 2 ^ (e + j)" using False Suc(10) by simp
    moreover have "\<forall>k<nc. k < j \<longleftrightarrow> 2 ^ (e + k) \<le> i + 1"
    proof (intro allI impI)
      fix k assume k: "k < nc"
      have "(2::nat) ^ (e + k) \<noteq> i + 1 \<or> k < j"
      proof (rule disjCI)
        assume nk: "\<not> k < j"
        then have "(2::nat) ^ (e + j) \<le> 2 ^ (e + k)" by (intro power_increasing) auto
        then show "(2::nat) ^ (e + k) \<noteq> i + 1" using \<open>i + 1 < 2 ^ (e + j)\<close> by linarith
      qed
      then show "k < j \<longleftrightarrow> 2 ^ (e + k) \<le> i + 1" using Suc(8) k by (metis le_SucE Suc_eq_plus1 le_SucI)
    qed
    moreover have "i + 1 + m = 2 ^ (e + nc) - 1" using Suc(2) by simp
    moreover have "length xs1 = 2 ^ (e + nc)" using l1 by (simp only: n_def)
    moreover have "1 \<le> i + 1" by simp
    ultimately have "\<exists>bs' xs'. fa_init_loop m (i + 1) (of_nat (2 ^ (e + j))) j flags bs xs1 =
        Inr (of_nat (2 ^ (e + nc)), nc, bs', xs') \<and>
      length bs' = nc \<and> (\<forall>k<nc. bs' ! k = Some (2 ^ (e + k) - 1)) \<and> length xs' = length xs1 \<and>
      (\<forall>p. (i + 1 \<le> p \<and> p < 2 ^ (e + nc) - 1 \<longrightarrow> (\<exists>f. (\<forall>k. bit f k \<longleftrightarrow> k < nc \<and> p < 2 ^ (e + k)) \<and> xs' ! p = link_blk p f (xs1 ! p))) \<and>
         (\<not> (i + 1 \<le> p \<and> p < 2 ^ (e + nc) - 1) \<longrightarrow> xs' ! p = xs1 ! p))"
      using Suc(4,5,6,9,11,12) by - (rule Suc.IH)
    then show ?thesis unfolding step n_def [symmetric] by (rule rest)
  qed
qed

lemma lseg_upt:
  assumes "\<And>k. m \<le> k \<Longrightarrow> k < n \<Longrightarrow> f k = (if k = m then p else Some (k - 1)) \<and> g k = (if k + 1 < n then Some (k + 1) else None)"
  shows "lseg f g p [m..<n] None"
  using assms
proof (induction "n - m" arbitrary: m p)
  case (Suc d)
  then have m: "m < n" "[m..<n] = m # [m + 1..<n]" by (simp_all add: upt_conv_Cons)
  have "lseg f g (Some m) [m + 1..<n] None"
    by (rule Suc(1)) (use Suc(2,3) in auto)
  then show ?case using m Suc(3) [of m] by (auto simp: upt_conv_Cons)
qed simp

lemma init_loop_no_boundary:
  "\<forall>k. i \<le> k \<and> k < i + m \<longrightarrow> of_nat k \<noteq> index - 1 \<Longrightarrow> i + m \<le> length xs \<Longrightarrow>
   \<exists>xs'. fa_init_loop m i index j flags bs xs = Inr (index, j, bs, xs')"
proof (induction m arbitrary: i xs)
  case (Suc m)
  have "of_nat i \<noteq> index - 1" using Suc(2) by simp
  then show ?case using Suc(3) Suc.IH [of "i + 1"] Suc(2) by (simp add: Let_def)
qed simp

lemma unat_div_pow2:
  assumes "t < 32" "b < 32"
  shows "unat ((2 :: u32) ^ t div 2 ^ b) = (if b \<le> t then 2 ^ (t - b) else 0)"
proof -
  have e: "unat ((2 :: u32) ^ t div 2 ^ b) = 2 ^ t div 2 ^ b"
    using assms by (simp add: unat_div word_pow2_unat)
  show ?thesis
  proof (cases "b \<le> t")
    case True
    then show ?thesis using e by (simp add: power_diff)
  next
    case False
    then have "(2::nat) ^ t < 2 ^ b" by (intro power_strict_increasing) auto
    then show ?thesis using e False by simp
  qed
qed

definition init_blks :: "nat \<Rightarrow> u32 \<Rightarrow> FALRUBlk list" where
  "init_blks n m = (replicate n FALRUBlk_init)
     [0 := FALRUBlk_init\<lparr>fb_prev := None, fb_next := Some 1, fb_inCache := m\<rparr>,
      n - 1 := FALRUBlk_init\<lparr>fb_prev := Some (n - 2), fb_next := None, fb_inCache := 0\<rparr>]"

lemma FALRU_init_eq:
  assumes "isPowerOf2 bsize" "lat > 0" "isPowerOf2 sz" "floorLog2_u32 sz = Inr t" "17 \<le> t"
    "n = unat (sz div bsize)" "2 \<le> n"
  shows "FALRU_init bsize sz lat =
    res_bind (fa_init_loop (n - 2) 1 (2 ^ 17 div bsize) 0 (mask (t - 17)) (replicate (t - 17) None) (init_blks n (mask (t - 17))))
      (\<lambda>(index, j, bs, blks3). assert_that (j = t - 17) (assert_that (index = of_nat n)
         (Inr \<lparr>fa_blkSize = bsize, fa_size = sz, fa_hitLatency = lat, fa_cacheBoundaries = bs,
            fa_cacheMask = mask (t - 17), fa_numCaches = t - 17, fa_blks = blks3,
            fa_head = 0, fa_tail = n - 1, fa_tagHash = (\<lambda>_. None),
            fa_hits = (\<lambda>_. 0), fa_misses = (\<lambda>_. 0), fa_accesses = 0,
            fa_replacements = 0, fa_tagsInUse = 0, fa_warmedUp = False,
            fa_warmupBound = int n, fa_warmupCycle = 0\<rparr>)))"
proof -
  show ?thesis
    using assms(1-5) assms(7)
    by (simp add: FALRU_init_def Let_def assms(6) [symmetric] not_less init_blks_def mask_eq_decr_exp)
qed

text \<open>
  The constructor succeeds exactly on powers of two with a latency, a size of at least 128K and blocks
  smaller than 128K.
\<close>

lemma init_geometry:
  assumes "FALRU_init bsize sz lat = Inr s"
  obtains b e nc where "bsize = 2 ^ b" "sz = 2 ^ (17 + nc)" "b + e = 17" "1 \<le> e" "17 + nc < 32"
proof -
  have p: "isPowerOf2 bsize" "isPowerOf2 sz" using assms by (auto simp: FALRU_init_def split: if_splits)
  obtain b where b: "b < 32" "bsize = 2 ^ b" using isPowerOf2_pow2D [OF p(1)] by auto
  obtain t where t: "t < 32" "sz = 2 ^ t" using isPowerOf2_pow2D [OF p(2)] by auto
  have fl: "floorLog2_u32 sz = Inr t" using floorLog2_pow2(2) [OF t(1)] t(2) by simp
  have t17: "17 \<le> t" using assms p fl by (auto simp: FALRU_init_def split: if_splits)
  define n where "n = unat (sz div bsize)"
  have n: "n = (if b \<le> t then 2 ^ (t - b) else 0)" unfolding n_def t(2) b(2) by (rule unat_div_pow2 [OF t(1) b(1)])
  have n2: "2 \<le> n" using assms p fl t17 by (auto simp: FALRU_init_def Let_def n_def [symmetric] split: if_splits)
  define index where "index = (2 ^ 17 div bsize :: u32)"
  have ui: "unat index = (if b \<le> 17 then 2 ^ (17 - b) else 0)"
    unfolding index_def b(2) using unat_div_pow2 [of 17 b] b(1) by simp
  have nle: "n \<le> 2 ^ 31"
  proof -
    have "(2::nat) ^ (t - b) \<le> 2 ^ 31" using t(1) by (intro power_increasing) auto
    then show ?thesis using n by auto
  qed
  have "b \<le> 16"
  proof (rule ccontr)
    assume nb: "\<not> b \<le> 16"
    have i01: "unat index \<le> 1" using ui nb by (cases "b = 17") auto
    have "of_nat k \<noteq> index - 1" if "1 \<le> k" "k < n - 1" for k
    proof
      assume k: "of_nat k = index - 1"
      have "k < 2 ^ 32" using that nle by simp
      then have uk: "unat (of_nat k :: u32) = k" by (simp add: unat_of_nat)
      have "unat index = unat (0 :: u32) \<or> unat index = unat (1 :: u32)" using i01 by auto
      then consider "index = 0" | "index = 1" by (metis unsigned_word_eqI)
      then show False
      proof cases
        case 1
        then have "k = unat (-1 :: u32)" using uk k by simp
        also have "\<dots> = 2 ^ 32 - 1" by (simp add: unsigned_minus_1_eq_mask mask_eq_exp_minus_1)
        finally show False using that nle by simp
      next
        case 2
        then show False using uk k that by simp
      qed
    qed
    then have loop: "\<exists>xs'. fa_init_loop (n - 2) 1 index 0 flags bs xs = Inr (index, 0, bs, xs')" if "length xs = n" for flags bs xs
      using that n2 by (intro init_loop_no_boundary) auto
    have lat: "lat > 0" using assms p by (auto simp: FALRU_init_def split: if_splits)
    have "length (init_blks n (mask (t - 17))) = n" by (simp add: init_blks_def)
    then obtain xs' where "fa_init_loop (n - 2) 1 index 0 (mask (t - 17)) (replicate (t - 17) None) (init_blks n (mask (t - 17))) =
        Inr (index, 0, replicate (t - 17) None, xs')" using loop by blast
    then have "index = of_nat n"
      using assms FALRU_init_eq [OF p(1) lat p(2) fl t17 n_def n2]
      by (simp add: index_def res_simps)
    then have "unat index = n" using nle by (simp add: unat_of_nat)
    then show False using i01 n2 by simp
  qed
  then show thesis using that [of b "t - 17" "17 - b"] b t t17 by simp
qed

lemma fa_ok_cong:
  assumes "fa_ok B s xs" "length (fa_blks s') = length (fa_blks s)" "prv s' = prv s" "nxt s' = nxt s" "inc s' = inc s"
    "fa_head s' = fa_head s" "fa_tail s' = fa_tail s" "fa_cacheBoundaries s' = fa_cacheBoundaries s"
    "fa_numCaches s' = fa_numCaches s" "fa_cacheMask s' = fa_cacheMask s"
  shows "fa_ok B s' xs"
proof -
  have i: "inc s' x = inc s x" for x using assms(5) by (rule fun_cong)
  have "fa_linked s' xs" using assms(1-4,6,7) unfolding fa_ok_def fa_linked_def by simp
  then show ?thesis using assms(1) unfolding fa_ok_def i assms(8-10) by simp
qed

lemma fa_ok_upd:
  assumes "fa_ok B s xs" "\<And>b. fb_prev (f b) = fb_prev b \<and> fb_next (f b) = fb_next b \<and> fb_inCache (f b) = fb_inCache b"
  shows "fa_ok B (s\<lparr>fa_blks := (fa_blks s)[i := f (fa_blks s ! i)]\<rparr>) xs"
proof (rule fa_ok_cong [OF assms(1)])
  show "prv (s\<lparr>fa_blks := (fa_blks s)[i := f (fa_blks s ! i)]\<rparr>) = prv s"
    "nxt (s\<lparr>fa_blks := (fa_blks s)[i := f (fa_blks s ! i)]\<rparr>) = nxt s"
    "inc (s\<lparr>fa_blks := (fa_blks s)[i := f (fa_blks s ! i)]\<rparr>) = inc s"
    using assms(2) by (cases "i < length (fa_blks s)"; auto simp: fun_eq_iff nth_list_update list_update_beyond)+
qed simp_all

lemma fa_ok_length: "fa_ok B s xs \<Longrightarrow> length xs = length (fa_blks s)"
  unfolding fa_ok_def fa_linked_def by (metis card_lessThan distinct_card)

lemma initial_fa_ok:
  assumes "FALRU_init bsize sz lat = Inr s"
  shows "\<exists>e. unat bsize * 2 ^ e = 2 ^ 17 \<and> 1 \<le> e \<and> fa_ok (\<lambda>j. 2 ^ (e + j)) s [0..<2 ^ (e + fa_numCaches s)] \<and>
    (\<forall>b\<in>set (fa_blks s). CacheBlk.truncate b = CacheBlk_init) \<and> fa_tagHash s = (\<lambda>_. None) \<and>
    fa_hits s = (\<lambda>_. 0) \<and> fa_misses s = (\<lambda>_. 0) \<and> fa_blkSize s = bsize \<and> unat sz = 2 ^ (17 + fa_numCaches s)"
proof -
  obtain b e nc where g: "bsize = 2 ^ b" "sz = 2 ^ (17 + nc)" "b + e = 17" "1 \<le> e" "17 + nc < 32"
    by (rule init_geometry [OF assms])
  have b: "b < 32" "b \<le> 17 + nc" "17 + nc - b = e + nc" using g(3,5) by auto
  define n where "n = (2::nat) ^ (e + nc)"
  have un: "unat (sz div bsize) = n" using unat_div_pow2 [of "17 + nc" b] g b by (simp add: n_def)
  have n31: "e + nc \<le> 31" using g(3,5) by simp
  have "(2::nat) ^ 1 \<le> 2 ^ (e + nc)" using g(4) by (intro power_increasing) auto
  then have n2: "2 \<le> n" by (simp add: n_def)
  have p: "isPowerOf2 bsize" "isPowerOf2 sz" "lat > 0" using assms by (auto simp: FALRU_init_def split: if_splits)
  have fl: "floorLog2_u32 sz = Inr (17 + nc)" using floorLog2_pow2(2) [OF g(5)] g(2) by simp
  note eq = FALRU_init_eq [OF p(1,3,2) fl _ un [symmetric] n2, simplified]
  have ix: "(2 ^ 17 div bsize :: u32) = of_nat (2 ^ (e + 0))"
  proof -
    have "unat (2 ^ 17 div bsize :: u32) = 2 ^ (17 - b)" using unat_div_pow2 [of 17 b] g by simp
    also have "17 - b = e" using g(3) by simp
    finally have "unat (2 ^ 17 div bsize :: u32) = 2 ^ e" .
    from arg_cong [OF this, of "of_nat :: nat \<Rightarrow> u32"] show ?thesis by simp
  qed
  have li: "length (init_blks n (mask nc)) = 2 ^ (e + nc)" by (simp add: init_blks_def n_def)
  have "\<exists>bs' xs'. fa_init_loop (n - 2) 1 (of_nat (2 ^ (e + 0))) 0 (mask nc) (replicate nc None) (init_blks n (mask nc)) =
      Inr (of_nat (2 ^ (e + nc)), nc, bs', xs') \<and>
    length bs' = nc \<and> (\<forall>k<nc. bs' ! k = Some (2 ^ (e + k) - 1)) \<and> length xs' = length (init_blks n (mask nc)) \<and>
    (\<forall>p. (1 \<le> p \<and> p < 2 ^ (e + nc) - 1 \<longrightarrow> (\<exists>f. (\<forall>k. bit f k \<longleftrightarrow> k < nc \<and> p < 2 ^ (e + k)) \<and> xs' ! p = link_blk p f (init_blks n (mask nc) ! p))) \<and>
         (\<not> (1 \<le> p \<and> p < 2 ^ (e + nc) - 1) \<longrightarrow> xs' ! p = init_blks n (mask nc) ! p))"
  proof (rule init_loop_spec)
    show "1 + (n - 2) = 2 ^ (e + nc) - 1" using n2 by (simp add: n_def)
    have "\<not> (2::nat) ^ (e + k) \<le> 1" for k
    proof -
      have "(2::nat) ^ 1 \<le> 2 ^ (e + k)" using g(4) by (intro power_increasing) auto
      then show ?thesis by simp
    qed
    then show "\<forall>k<nc. k < 0 \<longleftrightarrow> (2::nat) ^ (e + k) \<le> 1" by auto
    show "\<forall>k. bit (mask nc :: u32) k \<longleftrightarrow> 0 \<le> k \<and> k < nc" using g(5) by (auto simp: bit_simps)
    show "(1::nat) < 2 ^ (e + 0)" using g(4) by (intro one_less_power) auto
  qed (use li n31 g(4) in auto)
  then obtain bs' xs' where l: "fa_init_loop (n - 2) 1 (2 ^ 17 div bsize) 0 (mask nc) (replicate nc None) (init_blks n (mask nc)) =
      Inr (of_nat n, nc, bs', xs')" "length bs' = nc" "\<And>k. k < nc \<Longrightarrow> bs' ! k = Some (2 ^ (e + k) - 1)" "length xs' = n"
    "\<And>p. 1 \<le> p \<Longrightarrow> p < n - 1 \<Longrightarrow> \<exists>f. (\<forall>k. bit f k \<longleftrightarrow> k < nc \<and> p < 2 ^ (e + k)) \<and> xs' ! p = link_blk p f (init_blks n (mask nc) ! p)"
    "\<And>p. \<not> (1 \<le> p \<and> p < n - 1) \<Longrightarrow> xs' ! p = init_blks n (mask nc) ! p"
    using li unfolding ix n_def by auto
  have s: "s = \<lparr>fa_blkSize = bsize, fa_size = sz, fa_hitLatency = lat, fa_cacheBoundaries = bs',
            fa_cacheMask = mask nc, fa_numCaches = nc, fa_blks = xs',
            fa_head = 0, fa_tail = n - 1, fa_tagHash = (\<lambda>_. None),
            fa_hits = (\<lambda>_. 0), fa_misses = (\<lambda>_. 0), fa_accesses = 0,
            fa_replacements = 0, fa_tagsInUse = 0, fa_warmedUp = False,
            fa_warmupBound = int n, fa_warmupCycle = 0\<rparr>"
    using assms eq l(1) by simp
  have blk: "xs' ! p = FALRUBlk_init\<lparr>fb_prev := if p = 0 then None else Some (p - 1),
      fb_next := if p + 1 < n then Some (p + 1) else None, fb_inCache := fb_inCache (xs' ! p)\<rparr> \<and>
      (\<forall>k. bit (fb_inCache (xs' ! p)) k \<longleftrightarrow> k < nc \<and> p < 2 ^ (e + k))" if p: "p < n" for p
  proof -
    have half: "(2::nat) ^ (e + k) \<le> n - 1" if "k < nc" for k
    proof -
      have "(2::nat) ^ (e + k) < 2 ^ (e + nc)" using that by simp
      then show ?thesis unfolding n_def by linarith
    qed
    consider "p = 0" | "1 \<le> p" "p < n - 1" | "p = n - 1" "p \<noteq> 0" using p by linarith
    then show ?thesis
    proof cases
      case 1
      have "xs' ! 0 = FALRUBlk_init\<lparr>fb_prev := None, fb_next := Some 1, fb_inCache := mask nc\<rparr>"
        using l(6) [of 0] n2 by (simp add: init_blks_def)
      then show ?thesis using 1 n2 g(5) by (auto simp: bit_simps)
    next
      case 2
      then obtain f where f: "\<forall>k. bit f k \<longleftrightarrow> k < nc \<and> p < 2 ^ (e + k)" "xs' ! p = link_blk p f (init_blks n (mask nc) ! p)"
        using l(5) by blast
      have "init_blks n (mask nc) ! p = FALRUBlk_init" using 2 by (simp add: init_blks_def)
      then show ?thesis using f 2 by (simp add: link_blk_def FALRUBlk_init_def CacheBlk.defs)
    next
      case 3
      then have "xs' ! p = FALRUBlk_init\<lparr>fb_prev := Some (n - 2), fb_next := None, fb_inCache := 0\<rparr>"
        using l(6) [of p] n2 by (simp add: init_blks_def)
      moreover have "k < nc \<Longrightarrow> \<not> p < 2 ^ (e + k)" for k using half [of k] 3 by (simp add: not_less)
      moreover have "n - 2 = p - 1" "\<not> p + 1 < n" using 3 n2 by simp_all
      ultimately show ?thesis using 3(2) by auto
    qed
  qed
  have fld: "fb_prev (xs' ! p) = (if p = 0 then None else Some (p - 1))"
    "fb_next (xs' ! p) = (if p + 1 < n then Some (p + 1) else None)"
    "CacheBlk.truncate (xs' ! p) = CacheBlk_init" if p: "p < n" for p
    by (subst conjunct1 [OF blk [OF p]], simp add: FALRUBlk_init_def CacheBlk.defs CacheBlk_init_def)+
  have "lseg (\<lambda>i. fb_prev (xs' ! i)) (\<lambda>i. fb_next (xs' ! i)) None [0..<n] None"
    by (rule lseg_upt) (intro conjI fld(1,2))
  moreover have "n - 1 < n" "0 < n" using n2 by auto
  ultimately have lk: "fa_linked s [0..<n]"
    using l(4) by (auto simp: fa_linked_def s)
  have "fa_ok (\<lambda>j. 2 ^ (e + j)) s [0..<n]"
    unfolding fa_ok_def
  proof (intro conjI allI impI)
    fix j assume "j < fa_numCaches s"
    then have j: "j < nc" by (simp add: s)
    have "(2::nat) ^ 1 \<le> 2 ^ (e + j)" using g(4) by (intro power_increasing) auto
    then show "(2::nat) \<le> 2 ^ (e + j)" by simp
    have "(2::nat) ^ (e + j) < n" using j by (simp add: n_def)
    then show "2 ^ (e + j) < length [0..<n]"
      "fa_cacheBoundaries s ! j = Some ([0..<n] ! (2 ^ (e + j) - 1))" using l(3) [OF j] by (simp_all add: s)
  next
    fix p j assume "p < length [0..<n]"
    then show "bit (inc s ([0..<n] ! p)) j \<longleftrightarrow> j < fa_numCaches s \<and> p < 2 ^ (e + j)" using blk [of p] by (simp add: s)
  qed (use lk l(2) g(5) in \<open>auto simp: s bit_simps\<close>)
  moreover have "\<forall>b\<in>set xs'. CacheBlk.truncate b = CacheBlk_init" using fld(3) l(4) by (auto simp: in_set_conv_nth)
  moreover have "unat bsize * 2 ^ e = 2 ^ 17" using g(1,3) b(1) by (simp add: word_pow2_unat flip: power_add)
  moreover have "unat sz = 2 ^ (17 + nc)" using g(2,5) word_pow2_unat [of "17 + nc", where 'a = 32] by simp
  ultimately show ?thesis using g(4) by (intro exI [of _ e]) (simp add: s n_def)
qed

section \<open>The operations\<close>

definition btag :: "FALRU \<Rightarrow> nat \<Rightarrow> addr" where "btag s i = tag (fa_blks s ! i)"
definition bvalid :: "FALRU \<Rightarrow> nat \<Rightarrow> bool" where "bvalid s i = isValid (CacheBlk.truncate (fa_blks s ! i))"

lemma core_tag_valid:
  assumes "fa_same_core s s'" "i < length (fa_blks s)"
  shows "btag s' i = btag s i" "bvalid s' i = bvalid s i"
proof -
  have t: "CacheBlk.truncate (fa_blks s' ! i) = CacheBlk.truncate (fa_blks s ! i)"
    using fa_same_core_blk [OF assms] by (simp add: blk_core_def)
  from arg_cong [OF t, of tag] show "btag s' i = btag s i" by (simp add: btag_def CacheBlk.defs)
  show "bvalid s' i = bvalid s i" using t by (simp add: bvalid_def)
qed

lemma core_length: "fa_same_core s s' \<Longrightarrow> length (fa_blks s') = length (fa_blks s)"
  by (rule fa_same_core_length)

lemma victim_spec:
  assumes ok: "fa_ok B s xs"
  shows "\<exists>s'. fa_findVictim a now s = Inr (last xs, s') \<and> fa_ok B s' (last xs # remove1 (last xs) xs) \<and>
    length (fa_blks s') = length (fa_blks s) \<and> fa_numCaches s' = fa_numCaches s \<and> fa_blkSize s' = fa_blkSize s \<and>
    fa_hits s' = fa_hits s \<and> fa_misses s' = fa_misses s \<and>
    fa_tagHash s' = (fa_tagHash s)(btag s (last xs) := None, fa_blkAlign s a := Some (last xs)) \<and>
    (\<forall>k<length (fa_blks s). btag s' k = btag s k \<and> bvalid s' k = bvalid s k)"
proof -
  define i where "i = last xs"
  have xs: "xs \<noteq> []" "fa_tail s = i" "set xs = {..<length (fa_blks s)}"
    using ok by (auto simp: fa_ok_def fa_linked_def i_def)
  have i: "i \<in> set xs" using xs(1) by (simp add: i_def)
  then have il: "i < length (fa_blks s)" using xs(3) by simp
  have "inc s i = 0"
  proof (rule bit_word_eqI)
    fix j assume "j < LENGTH(32)"
    have "bit (inc s (xs ! (length xs - 1))) j \<longleftrightarrow> j < fa_numCaches s \<and> length xs - 1 < B j"
      using ok xs(1) by (simp add: fa_ok_def)
    moreover have "j < fa_numCaches s \<Longrightarrow> B j < length xs" using ok by (simp add: fa_ok_def)
    moreover have "xs ! (length xs - 1) = i" using xs(1) by (simp add: i_def last_conv_nth)
    ultimately show "bit (inc s i) j = bit (0 :: u32) j" by auto
  qed
  moreover obtain s1 where s1: "fa_moveToHead i s = Inr s1" "fa_same_core s s1" "fa_ok B s1 (i # remove1 i xs)"
    using moveToHead_spec [OF ok i] by blast
  ultimately have fv: "fa_findVictim a now s =
    (let s2 = s1\<lparr>fa_tagHash := ((fa_tagHash s1)(btag s1 i := None))(fa_blkAlign s1 a := Some i)\<rparr>
     in if bvalid s1 i
        then Inr (i, s2\<lparr>fa_replacements := fa_replacements s2 + 1\<rparr>)
        else res_bind (fa_upd i (\<lambda>b. b\<lparr>fb_isTouched := True\<rparr>) (s2\<lparr>fa_tagsInUse := fa_tagsInUse s2 + 1\<rparr>)) (\<lambda>s3.
             Inr (i, if \<not> fa_warmedUp s3 \<and> fa_tagsInUse s3 \<ge> fa_warmupBound s3
                     then s3\<lparr>fa_warmedUp := True, fa_warmupCycle := now\<rparr> else s3)))"
    using il core_length [OF s1(2)] xs(2) by (simp add: fa_findVictim_def btag_def bvalid_def Let_def)
  note r = fa_restD [OF fa_same_core_rest [OF s1(2)]]
  have ba: "fa_blkAlign s1 a = fa_blkAlign s a" by (simp add: fa_blkAlign_def r)
  have bt: "btag s1 k = btag s k" "bvalid s1 k = bvalid s k" if "k < length (fa_blks s)" for k
    using core_tag_valid [OF s1(2) that] .
  have l1: "i < length (fa_blks s1)" using il core_length [OF s1(2)] by simp
  define hs where "hs = (fa_tagHash s)(btag s i := None, fa_blkAlign s a := Some i)"
  have h: "((fa_tagHash s1)(btag s1 i := None))(fa_blkAlign s1 a := Some i) = hs" by (simp add: r ba bt il hs_def)
  show ?thesis
  proof (cases "bvalid s1 i")
    case True
    let ?s2 = "s1\<lparr>fa_tagHash := hs, fa_replacements := fa_replacements s1 + 1\<rparr>"
    have "fa_ok B ?s2 (i # remove1 i xs)" by (rule fa_ok_cong [OF s1(3)]) simp_all
    moreover have "fa_findVictim a now s = Inr (i, ?s2)" using fv True h by (simp add: Let_def)
    ultimately show ?thesis using core_length [OF s1(2)] r bt
      by (intro exI [of _ ?s2]) (simp add: i_def [symmetric] hs_def btag_def bvalid_def)
  next
    case False
    let ?b = "(fa_blks s1)[i := (fa_blks s1 ! i)\<lparr>fb_isTouched := True\<rparr>]"
    let ?s3 = "s1\<lparr>fa_tagHash := hs, fa_tagsInUse := fa_tagsInUse s1 + 1, fa_blks := ?b\<rparr>"
    define s4 where "s4 = (if \<not> fa_warmedUp ?s3 \<and> fa_tagsInUse ?s3 \<ge> fa_warmupBound ?s3
                     then ?s3\<lparr>fa_warmedUp := True, fa_warmupCycle := now\<rparr> else ?s3)"
    have "fa_findVictim a now s = Inr (i, s4)" using fv False h l1 by (simp add: Let_def fa_upd_def s4_def)
    moreover have f4: "fa_blks s4 = ?b" "fa_head s4 = fa_head s1" "fa_tail s4 = fa_tail s1" "fa_cacheBoundaries s4 = fa_cacheBoundaries s1"
      "fa_numCaches s4 = fa_numCaches s1" "fa_cacheMask s4 = fa_cacheMask s1" "fa_tagHash s4 = hs" "fa_blkSize s4 = fa_blkSize s1"
      "fa_hits s4 = fa_hits s1" "fa_misses s4 = fa_misses s1"
      by (simp_all add: s4_def)
    moreover have "fa_ok B s4 (i # remove1 i xs)"
    proof (rule fa_ok_cong [OF fa_ok_upd [OF s1(3), of "\<lambda>b. b\<lparr>fb_isTouched := True\<rparr>" i]])
    qed (simp_all add: f4)
    moreover have "CacheBlk.truncate (fa_blks s4 ! k) = CacheBlk.truncate (fa_blks s1 ! k)" for k
      using l1 by (simp add: f4 nth_list_update CacheBlk.defs)
    moreover have "btag s4 k = btag s1 k" for k
      using l1 by (simp add: f4 btag_def nth_list_update)
    ultimately show ?thesis using core_length [OF s1(2)] r bt
      by (intro exI [of _ s4]) (simp add: i_def [symmetric] hs_def bvalid_def)
  qed
qed

lemma nth_in_take:
  assumes "distinct xs" "p < length xs"
  shows "xs ! p \<in> set (take k xs) \<longleftrightarrow> p < k"
proof
  assume "xs ! p \<in> set (take k xs)"
  then obtain q where "q < k" "q < length xs" "xs ! q = xs ! p" by (auto simp: in_set_conv_nth)
  then show "p < k" using assms nth_eq_iff_index_eq by metis
next
  assume "p < k"
  then show "xs ! p \<in> set (take k xs)" using assms(2) by (auto simp: in_set_conv_nth intro!: exI [of _ p])
qed

section \<open>What the missing tag does\<close>

text \<open>
  \<open>insertBlock\<close> is empty and the controller relies on it to set the tag: the block of a fill keeps the tag
  it had, so the next access to the address fails the assertion on the tag.
\<close>

lemma filled_block_fails:
  assumes ok: "fa_ok B s xs" and t: "btag s (last xs) \<noteq> fa_blkAlign s a"
  shows "\<exists>s'. fa_handleFill a now s = Inr s' \<and> fa_accessBlock a s' = Inl AssertFailed \<and> fa_findBlock a s' = Inl AssertFailed"
proof -
  obtain s1 where s1: "fa_findVictim a now s = Inr (last xs, s1)" "length (fa_blks s1) = length (fa_blks s)"
    "fa_blkSize s1 = fa_blkSize s" "fa_tagHash s1 = (fa_tagHash s)(btag s (last xs) := None, fa_blkAlign s a := Some (last xs))"
    "\<forall>k<length (fa_blks s). btag s1 k = btag s k \<and> bvalid s1 k = bvalid s k"
    using victim_spec [OF ok, of a now] by blast
  define i where "i = last xs"
  have il: "i < length (fa_blks s1)"
    using ok last_in_set [of xs] s1(2) unfolding fa_ok_def fa_linked_def i_def by force
  define s2 where "s2 = s1\<lparr>fa_blks := (fa_blks s1)[i := (fa_blks s1 ! i)\<lparr>status := BlkValid OR BlkReadable\<rparr>]\<rparr>"
  have "fa_handleFill a now s = Inr s2"
    using s1(1) il by (simp add: fa_handleFill_def fa_upd_def fa_insertBlock_def s2_def i_def [symmetric])
  moreover have v: "fa_valid_block a (s2\<lparr>fa_accesses := x\<rparr>) = Inl AssertFailed" for x
  proof -
    have al: "fa_blkAlign (s2\<lparr>fa_accesses := x\<rparr>) a = fa_blkAlign s a" by (simp add: fa_blkAlign_def s2_def s1(3))
    have "isValid (CacheBlk.truncate (b\<lparr>status := BlkValid OR BlkReadable\<rparr>))" for b :: FALRUBlk
      by (simp add: isValid_def CacheBlk.defs BlkValid_def BlkReadable_def)
    moreover have "tag (fa_blks s1 ! i) \<noteq> fa_blkAlign s a" using s1(5) il s1(2) t by (simp add: btag_def i_def)
    ultimately show ?thesis
      unfolding fa_valid_block_def al using il s1(4)
      by (simp add: fa_hashLookup_def s2_def i_def [symmetric] assert_that_def)
  qed
  moreover have "fa_findBlock a s2 = Inl AssertFailed" using v [of "fa_accesses s2"] by (simp add: fa_findBlock_def)
  ultimately show ?thesis by (auto simp: fa_accessBlock_def Let_def)
qed

text \<open>
  Also with the tags set, taking a victim erases the hash entry of the tag the block last had.  A block that
  was never used has tag 0, and an invalidated one keeps its tag although its address may have been fetched
  again into another block: the entry erased is then that of the other block, which stays valid but is no
  longer found.
\<close>

lemma victim_hides_block:
  assumes ok: "fa_ok B s xs" and k: "k < length (fa_blks s)" "bvalid s k" "btag s k = btag s (last xs)"
    and b: "fa_blkAlign s b = btag s (last xs)" "fa_blkAlign s a \<noteq> fa_blkAlign s b"
  shows "\<exists>s'. fa_findVictim a now s = Inr (last xs, s') \<and> bvalid s' k \<and> btag s' k = fa_blkAlign s b \<and>
    fa_findBlock b s' = Inr None"
proof -
  obtain s1 where s1: "fa_findVictim a now s = Inr (last xs, s1)"
    "fa_blkSize s1 = fa_blkSize s" "fa_tagHash s1 = (fa_tagHash s)(btag s (last xs) := None, fa_blkAlign s a := Some (last xs))"
    "\<forall>k<length (fa_blks s). btag s1 k = btag s k \<and> bvalid s1 k = bvalid s k"
    using victim_spec [OF ok, of a now] by blast
  have "fa_blkAlign s1 b = btag s (last xs)" using b(1) by (simp add: fa_blkAlign_def s1(2))
  moreover have "fa_tagHash s1 (btag s (last xs)) = None" using b by (simp add: s1(3))
  ultimately have "fa_findBlock b s1 = Inr None" by (simp add: fa_findBlock_def fa_valid_block_def fa_hashLookup_def)
  then show ?thesis using s1(1,4) k b(1) by auto
qed

definition demo_blk :: "nat option \<Rightarrow> nat option \<Rightarrow> u32 \<Rightarrow> FALRUBlk" where
  "demo_blk p q m = FALRUBlk_init\<lparr>fb_prev := p, fb_next := q, fb_inCache := m\<rparr>"

text \<open>A store of eight blocks of 64K, with boundaries at 128K and 256K.\<close>

definition demo_fa :: FALRU where
  "demo_fa = \<lparr>fa_blkSize = 0x10000, fa_size = 0x80000, fa_hitLatency = 1, fa_cacheBoundaries = [Some 1, Some 3],
     fa_cacheMask = 3, fa_numCaches = 2,
     fa_blks = [demo_blk None (Some 1) 3, demo_blk (Some 0) (Some 2) 3, demo_blk (Some 1) (Some 3) 2,
       demo_blk (Some 2) (Some 4) 2, demo_blk (Some 3) (Some 5) 0, demo_blk (Some 4) (Some 6) 0,
       demo_blk (Some 5) (Some 7) 0, demo_blk (Some 6) None 0],
     fa_head = 0, fa_tail = 7, fa_tagHash = (\<lambda>_. None), fa_hits = (\<lambda>_. 0), fa_misses = (\<lambda>_. 0),
     fa_accesses = 0, fa_replacements = 0, fa_tagsInUse = 0, fa_warmedUp = False, fa_warmupBound = 8,
     fa_warmupCycle = 0\<rparr>"

lemma replicate_8: "replicate 8 x = [x, x, x, x, x, x, x, x]"
  by (simp add: eval_nat_numeral)

lemma demo_blk_link:
  "FALRUBlk_init\<lparr>fb_inCache := m, fb_prev := p, fb_next := q, fb_isTouched := False\<rparr> = demo_blk p q m"
  by (simp add: demo_blk_def FALRUBlk_init_def CacheBlk.extend_def)

lemma demo_loop:
  "fa_init_loop 6 1 2 0 3 [None, None] (init_blks 8 3) = Inr (8, 2, fa_cacheBoundaries demo_fa, fa_blks demo_fa)"
proof -
  have six: "(6 :: nat) = Suc (Suc (Suc (Suc (Suc (Suc 0)))))" by simp
  show ?thesis unfolding six 
    by (simp add: init_blks_def replicate_8 Let_def demo_fa_def demo_blk_link demo_blk_def [symmetric])
      (simp add: eval_nat_numeral)
qed

lemma demo_fa_init: "FALRU_init 0x10000 0x80000 1 = Inr demo_fa"
proof -
  have p: "isPowerOf2 (0x10000 :: u32)" "isPowerOf2 (0x80000 :: u32)"
    using isPowerOf2_pow2 [of 16, where 'a = 32] isPowerOf2_pow2 [of 19, where 'a = 32] by simp_all
  have l: "floorLog2_u32 0x80000 = Inr 19" using floorLog2_pow2(2) [of 19] by simp
  have "FALRU_init 0x10000 0x80000 1 = res_bind (fa_init_loop (8 - 2) 1 (2 ^ 17 div 0x10000) 0 (mask (19 - 17)) (replicate (19 - 17) None) (init_blks 8 (mask (19 - 17))))
      (\<lambda>(index, j, bs, blks3). assert_that (j = 19 - 17) (assert_that (index = of_nat 8)
         (Inr \<lparr>fa_blkSize = 0x10000, fa_size = 0x80000, fa_hitLatency = 1, fa_cacheBoundaries = bs,
            fa_cacheMask = mask (19 - 17), fa_numCaches = 19 - 17, fa_blks = blks3,
            fa_head = 0, fa_tail = 8 - 1, fa_tagHash = (\<lambda>_. None),
            fa_hits = (\<lambda>_. 0), fa_misses = (\<lambda>_. 0), fa_accesses = 0,
            fa_replacements = 0, fa_tagsInUse = 0, fa_warmedUp = False,
            fa_warmupBound = int 8, fa_warmupCycle = 0\<rparr>)))"
    by (rule FALRU_init_eq [OF p(1) _ p(2) l]) simp_all
  also have "(2 ^ 17 div 0x10000 :: u32) = 2" by simp
  also have "mask (19 - 17) = (3 :: u32)" by (simp add: mask_eq_decr_exp)
  also have "replicate (19 - 17) None = [None, None :: nat option]" by (simp add: numeral_2_eq_2)
  also have "8 - 2 = (6 :: nat)" by simp
  finally show ?thesis by (simp only: demo_loop) (simp add: demo_fa_def)
qed

section \<open>An access\<close>

text \<open>The valid block an address is found at.\<close>

definition fa_found :: "FALRU \<Rightarrow> addr \<Rightarrow> nat option" where
  "fa_found s a = (case fa_tagHash s (fa_blkAlign s a) of
     None \<Rightarrow> None | Some i \<Rightarrow> if bvalid s i then Some i else None)"

definition hash_ok :: "FALRU \<Rightarrow> bool" where
  "hash_ok s \<longleftrightarrow> (\<forall>t i. fa_tagHash s t = Some i \<longrightarrow> i < length (fa_blks s))"

lemma valid_block_eq:
  assumes "hash_ok s"
  shows "fa_valid_block a s = (case fa_found s a of None \<Rightarrow> Inr None
    | Some i \<Rightarrow> if btag s i = fa_blkAlign s a then Inr (Some i) else Inl AssertFailed)"
  using assms unfolding hash_ok_def
  by (auto simp: fa_valid_block_def fa_found_def fa_hashLookup_def bvalid_def btag_def assert_that_def split: option.splits)

text \<open>The counters after an access that finds \<open>p\<close> in a store whose blocks are \<open>xs\<close> in order of recency.\<close>

definition counted_at :: "(nat \<Rightarrow> nat) \<Rightarrow> nat option \<Rightarrow> nat list \<Rightarrow> FALRU \<Rightarrow> FALRU \<Rightarrow> bool" where
  "counted_at B p xs s s' \<longleftrightarrow> (\<forall>j\<le>fa_numCaches s.
     let held = (case p of None \<Rightarrow> False | Some i \<Rightarrow> i \<in> set (take (B j) xs))
     in fa_hits s' j = fa_hits s j + (if held then 1 else 0) \<and>
        fa_misses s' j = fa_misses s j + (if held then 0 else 1))"

lemma fa_access_spec:
  assumes ok: "fa_ok B s xs" and bn: "B (fa_numCaches s) = length xs" and h: "hash_ok s"
  shows "case fa_accessBlock a s of
      Inl e \<Rightarrow> e = AssertFailed \<and> (\<exists>i. fa_found s a = Some i \<and> btag s i \<noteq> fa_blkAlign s a)
    | Inr (p, l, m, s') \<Rightarrow> p = fa_found s a \<and> (\<forall>i. p = Some i \<longrightarrow> btag s i = fa_blkAlign s a) \<and>
        fa_ok B s' (case p of None \<Rightarrow> xs | Some i \<Rightarrow> i # remove1 i xs) \<and> fa_numCaches s' = fa_numCaches s \<and>
        fa_blkSize s' = fa_blkSize s \<and> length (fa_blks s') = length (fa_blks s) \<and> fa_tagHash s' = fa_tagHash s \<and>
        counted_at B p xs s s'"
proof -
  define s0 where "s0 = s\<lparr>fa_accesses := fa_accesses s + 1\<rparr>"
  have ok0: "fa_ok B s0 xs" by (rule fa_ok_cong [OF ok]) (simp_all add: s0_def)
  have bv: "btag s0 = btag s" "bvalid s0 = bvalid s" by (simp_all add: btag_def bvalid_def fun_eq_iff s0_def)
  have e0: "fa_found s0 a = fa_found s a" "btag s0 = btag s" "fa_blkAlign s0 a = fa_blkAlign s a" "hash_ok s0"
    using h bv by (simp_all only: fa_found_def fa_blkAlign_def hash_ok_def) (simp_all add: s0_def)
  have vb: "fa_valid_block a (s\<lparr>fa_accesses := Suc (fa_accesses s)\<rparr>) = (case fa_found s a of None \<Rightarrow> Inr None
    | Some i \<Rightarrow> if btag s i = fa_blkAlign s a then Inr (Some i) else Inl AssertFailed)"
    using valid_block_eq [OF e0(4), of a] unfolding e0(1-3) unfolding s0_def by simp
  show ?thesis
  proof (cases "fa_found s a")
    case None
    define s' where "s' = s0\<lparr>fa_misses := count_at (\<lambda>_. True) ([0..<fa_numCaches s] @ [fa_numCaches s]) (fa_misses s)\<rparr>"
    have "fa_accessBlock a s = Inr (None, fa_hitLatency s, 0, s')"
      using None by (simp add: vb fa_accessBlock_def Let_def s'_def s0_def)
    moreover have "fa_ok B s' xs" by (rule fa_ok_cong [OF ok0]) (simp_all add: s'_def)
    moreover have "counted_at B None xs s s'" by (auto simp: counted_at_def s'_def s0_def count_at_def)
    ultimately show ?thesis using None by (simp add: s'_def s0_def)
  next
    case (Some i)
    have il: "i < length (fa_blks s)" using Some h by (auto simp: fa_found_def hash_ok_def split: option.splits if_splits)
    show ?thesis
    proof (cases "btag s i = fa_blkAlign s a")
      case False
      then have "fa_accessBlock a s = Inl AssertFailed"
        using Some by (simp add: vb fa_accessBlock_def Let_def)
      then show ?thesis using Some False by simp
    next
      case True
      have lk: "distinct xs" "set xs = {..<length (fa_blks s)}" "xs \<noteq> []" "fa_head s = hd xs"
        using ok by (simp_all add: fa_ok_def fa_linked_def)
      have i: "i \<in> set xs" using lk(2) il by simp
      define hit where "hit = (\<lambda>j. push_bit j 1 AND inc s i \<noteq> 0)"
      define s1 where "s1 = s0\<lparr>fa_hits := count_at (\<lambda>_. True) [fa_numCaches s] (count_at hit [0..<fa_numCaches s] (fa_hits s)),
          fa_misses := count_at (\<lambda>j. \<not> hit j) [0..<fa_numCaches s] (fa_misses s)\<rparr>"
      have ok1: "fa_ok B s1 xs" by (rule fa_ok_cong [OF ok]) (simp_all add: s1_def s0_def)
      have "\<exists>s'. (if i \<noteq> fa_head s1 then fa_moveToHead i s1 else Inr s1) = Inr s' \<and> fa_same_core s1 s' \<and> fa_ok B s' (i # remove1 i xs)"
      proof (cases "i = fa_head s1")
        case True
        then have "i # remove1 i xs = xs" using lk(3,4) by (cases xs) (simp_all add: s1_def s0_def)
        then show ?thesis using ok1 True by simp
      next
        case False
        then show ?thesis using moveToHead_spec [OF ok1 i] by simp
      qed
      then obtain s' where s': "(if i \<noteq> fa_head s1 then fa_moveToHead i s1 else Inr s1) = Inr s'" "fa_same_core s1 s'"
        "fa_ok B s' (i # remove1 i xs)" by blast
      note r = fa_restD [OF fa_same_core_rest [OF s'(2)]]
      have "fa_accessBlock a s = res_bind (if i \<noteq> fa_head s1 then fa_moveToHead i s1 else Inr s1)
          (\<lambda>s2. Inr (Some i, fa_hitLatency s2, inc s i, s2))"
        using Some True il by (simp add: vb fa_accessBlock_def Let_def s1_def s0_def hit_def)
      then have acc: "fa_accessBlock a s = Inr (Some i, fa_hitLatency s', inc s i, s')" unfolding s'(1) by simp
      have "counted_at B (Some i) xs s s'"
        unfolding counted_at_def Let_def option.case
      proof (intro allI impI)
        fix j assume j: "j \<le> fa_numCaches s"
        have cs: "i \<in> set (take (B j) xs) \<longleftrightarrow> (j = fa_numCaches s \<or> hit j)"
        proof (cases "j = fa_numCaches s")
          case True
          then show ?thesis using i bn by simp
        next
          case False
          then have jn: "j < fa_numCaches s" using j by simp
          obtain p where p: "p < length xs" "xs ! p = i" using i by (auto simp: in_set_conv_nth)
          then have "bit (inc s i) j \<longleftrightarrow> p < B j" using ok jn by (auto simp: fa_ok_def)
          then show ?thesis using nth_in_take [OF lk(1) p(1), of "B j"] p(2) False by (simp add: hit_def and_push_bit_iff)
        qed
        show "fa_hits s' j = fa_hits s j + (if i \<in> set (take (B j) xs) then 1 else 0) \<and>
          fa_misses s' j = fa_misses s j + (if i \<in> set (take (B j) xs) then 0 else 1)"
          using j by (auto simp: r s1_def s0_def cs count_at_def)
      qed
      then show ?thesis using acc Some True s'(3) core_length [OF s'(2)] r by (simp add: s1_def s0_def)
    qed
  qed
qed

section \<open>The consistency check\<close>

text \<open>The blocks from a pointer on, at most \<open>n\<close>; the order of recency.\<close>

fun fa_walk :: "nat \<Rightarrow> nat option \<Rightarrow> FALRU \<Rightarrow> nat list" where
  "fa_walk 0 p s = []"
| "fa_walk (Suc n) p s = (case p of None \<Rightarrow> [] | Some i \<Rightarrow> i # fa_walk n (nxt s i) s)"

definition fa_order :: "FALRU \<Rightarrow> nat list" where
  "fa_order s = fa_walk (length (fa_blks s)) (Some (fa_head s)) s"

lemma walk_lseg:
  "lseg (prv s) (nxt s) p xs None \<Longrightarrow> length xs \<le> n \<Longrightarrow> fa_walk n (if xs = [] then None else Some (hd xs)) s = xs"
proof (induction xs arbitrary: p n)
  case Nil
  then show ?case by (cases n) simp_all
next
  case (Cons x xs)
  then show ?case by (cases n) auto
qed

lemma order_eq:
  assumes "fa_ok B s xs" shows "fa_order s = xs"
proof -
  have "lseg (prv s) (nxt s) None xs None" "xs \<noteq> []" "fa_head s = hd xs"
    using assms by (simp_all add: fa_ok_def fa_linked_def)
  then show ?thesis
    using walk_lseg [of s None xs "length (fa_blks s)"] fa_ok_length [OF assms] by (simp add: fa_order_def)
qed

lemma lseg_nth_next:
  "lseg f g p xs q \<Longrightarrow> k < length xs \<Longrightarrow> g (xs ! k) = (if Suc k = length xs then q else Some (xs ! Suc k))"
proof (induction xs arbitrary: p k)
  case (Cons x xs)
  then show ?case by (cases k) (auto simp: nth_Cons' hd_conv_nth)
qed simp

lemma check_loop_ok:
  assumes ok: "fa_ok (\<lambda>j. 2 ^ (e + j)) s xs" and len: "length xs = 2 ^ (e + fa_numCaches s)"
    and bs: "unat (fa_blkSize s) * 2 ^ e = 2 ^ 17" and nc: "17 + fa_numCaches s < 32"
  shows "\<lbrakk>p + m = length xs; j \<le> fa_numCaches s; \<forall>k<j. 2 ^ (e + k) \<le> p; p \<le> 2 ^ (e + j); p = 2 ^ (e + j) \<longrightarrow> j = fa_numCaches s;
    \<forall>k. bit flags k \<longleftrightarrow> j \<le> k \<and> k < fa_numCaches s; unat sz = p * unat (fa_blkSize s)\<rbrakk> \<Longrightarrow>
   fa_check_loop (Suc m) (if m = 0 then None else Some (xs ! p)) sz (push_bit (17 + j) 1) j flags s = Inr True"
proof (induction m arbitrary: p j flags sz)
  case (Suc m)
  note pr = Suc.prems
  have lk: "lseg (prv s) (nxt s) None xs None" "fa_tail s = last xs" "distinct xs" "set xs = {..<length (fa_blks s)}" "xs \<noteq> []"
    using ok by (simp_all add: fa_ok_def fa_linked_def)
  have p: "p < length xs" using pr(1) by simp
  have il: "xs ! p < length (fa_blks s)" using p lk(4) by (metis lessThan_iff nth_mem)
  have nx: "nxt s (xs ! p) = (if m = 0 then None else Some (xs ! (p + 1)))"
    using lseg_nth_next [OF lk(1) p] pr(1) by auto
  have fl: "inc s (xs ! p) = flags"
  proof (rule bit_word_eqI)
    fix k assume "k < LENGTH(32)"
    have "p < 2 ^ (e + k) \<longleftrightarrow> j \<le> k" if k: "k < fa_numCaches s"
    proof
      show "p < 2 ^ (e + k) \<Longrightarrow> j \<le> k" using pr(3) by (meson not_le)
      assume "j \<le> k"
      then have "(2::nat) ^ (e + j) \<le> 2 ^ (e + k)" by simp
      moreover have "p < 2 ^ (e + j)" using pr(4,5) \<open>j \<le> k\<close> k by (cases "p = 2 ^ (e + j)") auto
      ultimately show "p < 2 ^ (e + k)" by linarith
    qed
    then show "bit (inc s (xs ! p)) k = bit flags k" using ok p pr(6) by (auto simp: fa_ok_def)
  qed
  define sz' where "sz' = sz + fa_blkSize s"
  have bpos: "0 < unat (fa_blkSize s)" using bs by (metis mult_0 not_gr_zero power_not_zero zero_neq_numeral)
  have top: "(2::nat) ^ (17 + k) < 2 ^ 32" if "k \<le> fa_numCaches s" for k using that nc by (intro power_strict_increasing) auto
  have full: "2 ^ (e + k) * unat (fa_blkSize s) = 2 ^ (17 + k)" for k
    using bs by (simp add: power_add mult.commute mult.left_commute)
  have "(p + 1) * unat (fa_blkSize s) \<le> 2 ^ (e + fa_numCaches s) * unat (fa_blkSize s)"
    using p len by (intro mult_right_mono) auto
  then have le: "(p + 1) * unat (fa_blkSize s) < 2 ^ 32" using top [of "fa_numCaches s"] full [of "fa_numCaches s"] by simp
  have usz: "unat sz' = (p + 1) * unat (fa_blkSize s)"
    using pr(7) le by (simp add: sz'_def unat_word_ariths)
  have ub: "unat (push_bit (17 + k) 1 :: u32) = 2 ^ (17 + k)" if "k \<le> fa_numCaches s" for k
    using that nc word_pow2_unat [of "17 + k", where 'a = 32] by (simp add: push_bit_eq_mult)
  have at: "sz' = push_bit (17 + j) 1 \<longleftrightarrow> p + 1 = 2 ^ (e + j)"
  proof -
    have "sz' = push_bit (17 + j) 1 \<longleftrightarrow> unat sz' = unat (push_bit (17 + j) 1 :: u32)" by (simp only: word_unat_eq_iff)
    also have "\<dots> \<longleftrightarrow> (p + 1) * unat (fa_blkSize s) = 2 ^ (e + j) * unat (fa_blkSize s)"
      unfolding usz ub [OF pr(2)] full [symmetric] ..
    also have "\<dots> \<longleftrightarrow> p + 1 = 2 ^ (e + j)" using bpos by (subst mult_cancel2) simp
    finally show ?thesis .
  qed
  have lt: "xs ! p = fa_tail s \<longleftrightarrow> m = 0"
    using lk(2,3,5) p pr(1) by (simp add: last_conv_nth nth_eq_iff_index_eq) linarith
  have pb: "push_bit 1 (push_bit (17 + j) 1) = (push_bit (17 + (j + 1)) 1 :: u32)"
    by (simp add: push_bit_push_bit add.commute del: push_bit_of_1)
  have step: "fa_check_loop (Suc (Suc m)) (Some (xs ! p)) sz (push_bit (17 + j) 1) j flags s =
    (if sz' = push_bit (17 + j) 1 \<and> xs ! p \<noteq> fa_tail s
     then res_bind (vec_get (fa_cacheBoundaries s) j) (\<lambda>c.
          if c \<noteq> Some (xs ! p) then Inr False
          else fa_check_loop (Suc m) (nxt s (xs ! p)) sz' (push_bit (17 + (j + 1)) 1) (j + 1) (flags AND NOT (push_bit j 1)) s)
     else fa_check_loop (Suc m) (nxt s (xs ! p)) sz' (push_bit (17 + j) 1) j flags s)"
    unfolding pb [symmetric] using il fl by (simp add: sz'_def [symmetric] Let_def del: push_bit_of_1 push_bit_push_bit)
  show ?case
  proof (cases "p + 1 = 2 ^ (e + j) \<and> m \<noteq> 0")
    case True
    have jn: "j < fa_numCaches s"
    proof (rule ccontr)
      assume "\<not> j < fa_numCaches s"
      then have "j = fa_numCaches s" using pr(2) by simp
      then show False using True pr(1) len by simp
    qed
    have c: "vec_get (fa_cacheBoundaries s) j = Inr (Some (xs ! p))"
    proof -
      have "(2::nat) ^ (e + j) - 1 = p" using conjunct1 [OF True] by (metis add_diff_cancel_right')
      moreover have "length (fa_cacheBoundaries s) = fa_numCaches s" "fa_cacheBoundaries s ! j = Some (xs ! (2 ^ (e + j) - 1))"
        using ok jn unfolding fa_ok_def by blast+
      ultimately show ?thesis using jn by (simp only: vec_get_def if_True)
    qed
    have lt2: "(2::nat) ^ (e + j) < 2 ^ (e + Suc j)" by simp
    have "fa_check_loop (Suc m) (if m = 0 then None else Some (xs ! (p + 1))) sz' (push_bit (17 + Suc j) 1) (Suc j)
        (flags AND NOT (push_bit j 1)) s = Inr True"
    proof (rule Suc.IH)
      show "p + 1 + m = length xs" "Suc j \<le> fa_numCaches s" using pr(1) jn by simp_all
      show "\<forall>k<Suc j. 2 ^ (e + k) \<le> p + 1" using pr(3) True by (auto simp: less_Suc_eq)
      show "p + 1 \<le> 2 ^ (e + Suc j)" unfolding conjunct1 [OF True] by (rule less_imp_le [OF lt2])
      have "p + 1 \<noteq> 2 ^ (e + Suc j)" unfolding conjunct1 [OF True] by (rule less_imp_neq [OF lt2])
      then show "p + 1 = 2 ^ (e + Suc j) \<longrightarrow> Suc j = fa_numCaches s" by blast
      show "\<forall>k. bit (flags AND NOT (push_bit j 1)) k \<longleftrightarrow> Suc j \<le> k \<and> k < fa_numCaches s"
      proof
        fix k
        have "bit (flags AND NOT (push_bit j 1)) k \<longleftrightarrow> bit flags k \<and> k \<noteq> j"
          using bit_imp_le_length [of flags k]
          by (auto simp: bit_and_iff bit_not_iff bit_push_bit_iff bit_1_iff simp del: push_bit_of_1)
        then show "bit (flags AND NOT (push_bit j 1)) k \<longleftrightarrow> Suc j \<le> k \<and> k < fa_numCaches s"
          unfolding spec [OF pr(6), of k] by (simp add: Suc_le_eq) linarith
      qed
      show "unat sz' = (p + 1) * unat (fa_blkSize s)" by (rule usz)
    qed
    moreover have cond: "sz' = push_bit (17 + j) 1 \<and> xs ! p \<noteq> fa_tail s" using at lt True by blast
    ultimately have "fa_check_loop (Suc (Suc m)) (Some (xs ! p)) sz (push_bit (17 + j) 1) j flags s = Inr True"
      unfolding step if_P [OF cond] c res_bind_simps nx [symmetric] by (simp only: Suc_eq_plus1 not_True_eq_False if_False simp_thms)
    then show ?thesis by (simp only: nat.distinct if_False)
  next
    case False
    have "fa_check_loop (Suc m) (if m = 0 then None else Some (xs ! (p + 1))) sz' (push_bit (17 + j) 1) j flags s = Inr True"
    proof (rule Suc.IH)
      show "p + 1 + m = length xs" "j \<le> fa_numCaches s" using pr by simp_all
      show "\<forall>k<j. 2 ^ (e + k) \<le> p + 1" using pr(3) by (auto intro: le_SucI)
      have "p \<noteq> 2 ^ (e + j)"
      proof
        assume "p = 2 ^ (e + j)"
        then show False using pr(5) p len by simp
      qed
      then show "p + 1 \<le> 2 ^ (e + j)" using pr(4) by simp
      show "p + 1 = 2 ^ (e + j) \<longrightarrow> j = fa_numCaches s"
      proof
        assume "p + 1 = 2 ^ (e + j)"
        then have "2 ^ (e + j) = (2::nat) ^ (e + fa_numCaches s)" using False pr(1) len by simp
        then show "j = fa_numCaches s" by simp
      qed
      show "unat sz' = (p + 1) * unat (fa_blkSize s)" by (rule usz)
    qed (use pr(6) in simp)
    moreover have cond: "\<not> (sz' = push_bit (17 + j) 1 \<and> xs ! p \<noteq> fa_tail s)" using at lt False by blast
    ultimately have "fa_check_loop (Suc (Suc m)) (Some (xs ! p)) sz (push_bit (17 + j) 1) j flags s = Inr True"
      unfolding step if_not_P [OF cond] nx [symmetric] by (simp only:)
    then show ?thesis by (simp only: nat.distinct if_False)
  qed
qed simp

section \<open>Reachable stores\<close>

text \<open>
  What every operation keeps, with \<open>2 ^ e\<close> the number of blocks of the smallest size counted.
\<close>

definition fa_good :: "u32 \<Rightarrow> nat \<Rightarrow> nat \<Rightarrow> FALRU \<Rightarrow> nat list \<Rightarrow> bool" where
  "fa_good bsize e nc s xs \<longleftrightarrow> fa_ok (\<lambda>j. 2 ^ (e + j)) s xs \<and> length xs = 2 ^ (e + nc) \<and> fa_numCaches s = nc \<and>
     fa_blkSize s = bsize \<and> unat bsize * 2 ^ e = 2 ^ 17 \<and> 17 + nc < 32 \<and> hash_ok s"

text \<open>The operations of the store, and the fill of the controller, when they return.\<close>

inductive fa_step :: "FALRU \<Rightarrow> FALRU \<Rightarrow> bool" where
  fa_step_access: "fa_accessBlock a s = Inr (p, l, m, s') \<Longrightarrow> fa_step s s'"
| fa_step_victim: "fa_findVictim a now s = Inr (i, s') \<Longrightarrow> fa_step s s'"
| fa_step_insert: "fa_step s (fa_insertBlock a i s)"
| fa_step_fill: "fa_handleFill a now s = Inr s' \<Longrightarrow> fa_step s s'"
| fa_step_invalidate: "fa_invalidateBlk p s = Inr s' \<Longrightarrow> fa_step s s'"
| fa_step_clear: "fa_step s (fa_clearLocks s)"

inductive fa_reach :: "u32 \<Rightarrow> FALRU \<Rightarrow> bool" for bsize where
  fa_reach_init: "FALRU_init bsize sz lat = Inr s \<Longrightarrow> fa_reach bsize s"
| fa_reach_step: "fa_reach bsize s \<Longrightarrow> fa_step s s' \<Longrightarrow> fa_reach bsize s'"

lemma initial_good:
  assumes "FALRU_init bsize sz lat = Inr s"
  shows "\<exists>e xs. fa_good bsize e (fa_numCaches s) s xs"
proof -
  obtain e where e: "unat bsize * 2 ^ e = 2 ^ 17" "fa_ok (\<lambda>j. 2 ^ (e + j)) s [0..<2 ^ (e + fa_numCaches s)]"
    "fa_tagHash s = (\<lambda>_. None)" "fa_blkSize s = bsize" "unat sz = 2 ^ (17 + fa_numCaches s)"
    using initial_fa_ok [OF assms] by blast
  have "(2::nat) ^ (17 + fa_numCaches s) < 2 ^ 32" using unsigned_less [of sz, where 'a = nat] e(5) by simp
  then have "17 + fa_numCaches s < 32" by (simp only: power_strict_increasing_iff)
  then have "fa_good bsize e (fa_numCaches s) s [0..<2 ^ (e + fa_numCaches s)]"
    using e by (simp add: fa_good_def hash_ok_def)
  then show ?thesis by blast
qed

lemma victim_good:
  assumes g: "fa_good bsize e nc s xs"
  shows "\<exists>s'. fa_findVictim a now s = Inr (last xs, s') \<and> fa_good bsize e nc s' (last xs # butlast xs)"
proof -
  have ok: "fa_ok (\<lambda>j. 2 ^ (e + j)) s xs" using g by (simp add: fa_good_def)
  have lk: "distinct xs" "set xs = {..<length (fa_blks s)}" "xs \<noteq> []" using ok by (simp_all add: fa_ok_def fa_linked_def)
  obtain s' where s': "fa_findVictim a now s = Inr (last xs, s')" "fa_ok (\<lambda>j. 2 ^ (e + j)) s' (last xs # remove1 (last xs) xs)"
    "length (fa_blks s') = length (fa_blks s)" "fa_numCaches s' = fa_numCaches s" "fa_blkSize s' = fa_blkSize s"
    "fa_tagHash s' = (fa_tagHash s)(btag s (last xs) := None, fa_blkAlign s a := Some (last xs))"
    using victim_spec [OF ok, of a now] by blast
  have "last xs < length (fa_blks s)" using lk(2) last_in_set [OF lk(3)] by auto
  then have "hash_ok s'" using g s'(3) by (auto simp: fa_good_def hash_ok_def s'(6) split: if_splits)
  moreover have "remove1 (last xs) xs = butlast xs"
  proof -
    obtain ys y where "xs = ys @ [y]" using lk(3) by (cases xs rule: rev_cases) auto
    then show ?thesis using lk(1) by (simp add: remove1_append)
  qed
  ultimately have "fa_good bsize e nc s' (last xs # butlast xs)"
    using g s' lk(3) by (simp add: fa_good_def)
  then show ?thesis using s'(1) by blast
qed

lemma upd_good:
  assumes "fa_upd i f s = Inr s'" "fa_good bsize e nc s xs"
    "\<And>b. fb_prev (f b) = fb_prev b \<and> fb_next (f b) = fb_next b \<and> fb_inCache (f b) = fb_inCache b"
  shows "fa_good bsize e nc s' xs"
proof -
  have s': "s' = s\<lparr>fa_blks := (fa_blks s)[i := f (fa_blks s ! i)]\<rparr>"
    using assms(1) by (auto simp: fa_upd_def res_simps vec_get_def split: if_splits)
  have "fa_ok (\<lambda>j. 2 ^ (e + j)) s' xs" unfolding s' by (rule fa_ok_upd) (use assms(2,3) in \<open>simp_all add: fa_good_def\<close>)
  then show ?thesis using assms(2) by (simp add: fa_good_def hash_ok_def s')
qed

lemma fa_step_good:
  assumes "fa_step s s'" "fa_good bsize e nc s xs"
  shows "\<exists>xs'. fa_good bsize e nc s' xs'"
  using assms(1)
proof cases
  case (fa_step_access a p l m)
  have g: "fa_ok (\<lambda>j. 2 ^ (e + j)) s xs" "2 ^ (e + fa_numCaches s) = length xs" "hash_ok s"
    using assms(2) by (simp_all add: fa_good_def)
  from fa_access_spec [OF g, of a] fa_step_access have r: "fa_ok (\<lambda>j. 2 ^ (e + j)) s' (case p of None \<Rightarrow> xs | Some i \<Rightarrow> i # remove1 i xs)"
    "fa_numCaches s' = fa_numCaches s" "fa_blkSize s' = fa_blkSize s" "length (fa_blks s') = length (fa_blks s)"
    "fa_tagHash s' = fa_tagHash s" by auto
  have "length (case p of None \<Rightarrow> xs | Some i \<Rightarrow> i # remove1 i xs) = length xs"
    using fa_ok_length [OF r(1)] fa_ok_length [OF g(1)] r(4) by simp
  then have "fa_good bsize e nc s' (case p of None \<Rightarrow> xs | Some i \<Rightarrow> i # remove1 i xs)"
    using assms(2) r by (simp add: fa_good_def hash_ok_def)
  then show ?thesis by blast
next
  case (fa_step_victim a now i)
  then show ?thesis using victim_good [OF assms(2), of a now] by auto
next
  case (fa_step_insert a i)
  then show ?thesis using assms(2) by (auto simp: fa_insertBlock_def)
next
  case (fa_step_fill a now)
  obtain s1 where s1: "fa_findVictim a now s = Inr (last xs, s1)" "fa_good bsize e nc s1 (last xs # butlast xs)"
    using victim_good [OF assms(2)] by blast
  then have "fa_upd (last xs) (\<lambda>b. b\<lparr>status := BlkValid OR BlkReadable\<rparr>) s1 = Inr s'"
    using fa_step_fill by (simp add: fa_handleFill_def fa_insertBlock_def)
  then show ?thesis using upd_good [OF _ s1(2)] by fastforce
next
  case (fa_step_invalidate p)
  show ?thesis
  proof (cases p)
    case None
    then show ?thesis using fa_step_invalidate assms(2) by (auto simp: fa_invalidateBlk_def)
  next
    case (Some i)
    then obtain s1 where s1: "fa_upd i (\<lambda>b. b\<lparr>status := 0, fb_isTouched := False\<rparr>) s = Inr s1"
      "s' = s1\<lparr>fa_tagsInUse := fa_tagsInUse s1 - 1\<rparr>" using fa_step_invalidate by (auto simp: fa_invalidateBlk_def res_simps)
    have "fa_good bsize e nc s1 xs" by (rule upd_good [OF s1(1) assms(2)]) simp
    moreover have "fa_ok (\<lambda>j. 2 ^ (e + j)) s' xs"
      by (rule fa_ok_cong [of _ s1]) (use calculation in \<open>simp_all add: s1(2) fa_good_def\<close>)
    ultimately have "fa_good bsize e nc s' xs" by (simp add: s1(2) fa_good_def hash_ok_def)
    then show ?thesis by blast
  qed
next
  case fa_step_clear
  have f: "prv s' i = prv s i" "nxt s' i = nxt s i" "inc s' i = inc s i" if "i < length (fa_blks s)" for i
    using that by (simp_all add: fa_step_clear fa_clearLocks_def)
  have ok: "fa_ok (\<lambda>j. 2 ^ (e + j)) s xs" using assms(2) by (simp add: fa_good_def)
  have lk: "set xs = {..<length (fa_blks s)}" using ok by (simp add: fa_ok_def fa_linked_def)
  have "lseg (prv s') (nxt s') None xs None = lseg (prv s) (nxt s) None xs None"
    by (rule lseg_cong) (use f lk in auto)
  moreover have "inc s' (xs ! k) = inc s (xs ! k)" if "k < length xs" for k using f(3) lk that nth_mem [OF that] by auto
  ultimately have "fa_ok (\<lambda>j. 2 ^ (e + j)) s' xs"
    using ok by (simp add: fa_ok_def fa_linked_def) (simp add: fa_step_clear fa_clearLocks_def)
  then have "fa_good bsize e nc s' xs" using assms(2) by (simp add: fa_good_def hash_ok_def fa_step_clear fa_clearLocks_def)
  then show ?thesis by blast
qed

lemma fa_reach_good: "fa_reach bsize s \<Longrightarrow> \<exists>e xs. fa_good bsize e (fa_numCaches s) s xs"
proof (induction rule: fa_reach.induct)
  case (fa_reach_init sz lat s)
  then show ?case by (rule initial_good)
next
  case (fa_reach_step s s')
  then obtain e xs xs' where "fa_good bsize e (fa_numCaches s) s' xs'" using fa_step_good by blast
  then have "fa_good bsize e (fa_numCaches s') s' xs'" by (simp add: fa_good_def)
  then show ?case by blast
qed

lemma good_check:
  assumes "fa_good bsize e nc s xs" shows "fa_check s = Inr True"
proof -
  have g: "fa_ok (\<lambda>j. 2 ^ (e + j)) s xs" "length xs = 2 ^ (e + fa_numCaches s)"
    "unat (fa_blkSize s) * 2 ^ e = 2 ^ 17" "17 + fa_numCaches s < 32"
    using assms by (simp_all add: fa_good_def)
  have h: "xs \<noteq> []" "fa_head s = hd xs" "\<forall>j. bit (fa_cacheMask s) j \<longleftrightarrow> j < fa_numCaches s"
    using g(1) by (simp_all add: fa_ok_def fa_linked_def)
  have "fa_check_loop (Suc (length xs)) (if length xs = 0 then None else Some (xs ! 0)) 0 (push_bit (17 + 0) 1) 0 (fa_cacheMask s) s = Inr True"
    by (rule check_loop_ok [OF g]) (use h(3) in auto)
  moreover have "length xs = length (fa_blks s)" by (rule fa_ok_length [OF g(1)])
  moreover have "fa_blks s \<noteq> []" using calculation(2) h(1) by auto
  moreover have "fa_head s = xs ! 0" using h by (simp add: hd_conv_nth)
  ultimately show ?thesis unfolding fa_check_def by (simp del: push_bit_of_1 fa_check_loop.simps)
qed

section \<open>The property\<close>

text \<open>C24: in every store reached by accesses, victims, fills, invalidations and the clearing of locks, (1) the
  consistency check of the list, the flags and the boundaries answers true; (2) a victim is found, the
  assertion that it is in no smaller cache holds, and it moves from the end of the recency order to its
  front; (3) an access fails only with the assertion on the tag, when the address finds a valid block with
  another tag; otherwise a block found moves to the front, and the access counts for every size of 128K
  times \<open>2\<^sup>j\<close> up to the store's own a hit exactly when a block was found among the first so many of the recency
  order as a cache of that size has blocks, and a miss otherwise.\<close>

theorem falru_sizes_consistent:
  assumes "fa_reach bsize s"
  shows "fa_check s = Inr True \<and>
    (\<exists>s'. fa_findVictim a now s = Inr (last (fa_order s), s') \<and> fa_order s' = last (fa_order s) # butlast (fa_order s)) \<and>
    (case fa_accessBlock a s of
      Inl e \<Rightarrow> e = AssertFailed \<and> (\<exists>i. fa_found s a = Some i \<and> btag s i \<noteq> fa_blkAlign s a)
    | Inr (p, l, m, s') \<Rightarrow> p = fa_found s a \<and>
        fa_order s' = (case p of None \<Rightarrow> fa_order s | Some i \<Rightarrow> i # remove1 i (fa_order s)) \<and>
        (\<forall>j\<le>fa_numCaches s.
           let held = (case p of None \<Rightarrow> False | Some i \<Rightarrow> i \<in> set (take (2 ^ (17 + j) div unat bsize) (fa_order s)))
           in fa_hits s' j = fa_hits s j + (if held then 1 else 0) \<and>
              fa_misses s' j = fa_misses s j + (if held then 0 else 1)))"
proof -
  obtain e xs where g: "fa_good bsize e (fa_numCaches s) s xs" using fa_reach_good [OF assms] by blast
  then have ok: "fa_ok (\<lambda>j. 2 ^ (e + j)) s xs" "2 ^ (e + fa_numCaches s) = length xs" "hash_ok s"
    and bs: "unat bsize * 2 ^ e = 2 ^ 17" by (simp_all add: fa_good_def)
  note o = order_eq [OF ok(1)]
  have C: "2 ^ (17 + j) div unat bsize = 2 ^ (e + j)" for j
  proof -
    have "unat bsize \<noteq> 0" using bs by (metis mult_0 power_not_zero zero_neq_numeral)
    moreover have "(2::nat) ^ (17 + j) = unat bsize * 2 ^ (e + j)" unfolding power_add [of 2 17] power_add [of 2 e] bs [symmetric] by simp
    ultimately show ?thesis by simp
  qed
  have v: "\<exists>s'. fa_findVictim a now s = Inr (last xs, s') \<and> fa_order s' = last xs # butlast xs"
    using victim_good [OF g, of a now] order_eq unfolding fa_good_def by blast
  have a: "case fa_accessBlock a s of
      Inl e' \<Rightarrow> e' = AssertFailed \<and> (\<exists>i. fa_found s a = Some i \<and> btag s i \<noteq> fa_blkAlign s a)
    | Inr (p, l, m, s') \<Rightarrow> p = fa_found s a \<and>
        fa_order s' = (case p of None \<Rightarrow> xs | Some i \<Rightarrow> i # remove1 i xs) \<and> counted_at (\<lambda>j. 2 ^ (e + j)) p xs s s'"
    using fa_access_spec [OF ok, of a] by (auto split: sum.splits dest: order_eq)
  show ?thesis
    using good_check [OF g] v a unfolding o C counted_at_def by blast
qed

lemma falru_sizes_consistent_witness:
  "fa_check demo_fa = Inr True \<and> (\<exists>s'. fa_findVictim 0x1234 5 demo_fa = Inr (7, s') \<and> fa_order s' = [7, 0, 1, 2, 3, 4, 5, 6]) \<and>
   fa_order demo_fa = [0, 1, 2, 3, 4, 5, 6, 7]"
proof -
  have "fa_reach 0x10000 demo_fa" by (rule fa_reach_init [OF demo_fa_init])
  moreover have "fa_order demo_fa = [0, 1, 2, 3, 4, 5, 6, 7]"
    by (simp add: fa_order_def demo_fa_def demo_blk_def eval_nat_numeral)
  ultimately show ?thesis
    using falru_sizes_consistent [of "0x10000" demo_fa "0x1234" 5] by (auto split del: sum.split_asm)
qed

end
