(* ===== verification/Spec2Isabelle.thy ===== *)
theory Spec2Isabelle
  imports Int_Math Event_Queue_Refine BPred_Unit_Laws Store_Set_Laws O3_Rename_Laws LRU_Tags_Laws
    O3_ROB_Laws Tomasulo_Props Lab2_Laws Lab1_Laws Lab5_Props
    Page_Table_Laws Ruby_Cache_Laws Ruby_Topology_Laws Ruby_Buffer_Laws FA_LRU_Laws
begin

text \<open>
  A verification development for the course repository ece552: the assignments built on the
  SimpleScalar tool set (\<open>src/preassignment\<close>, \<open>src/lab2\<close>, \<open>src/lab4\<close>, \<open>src/lab5\<close>) and the gem5 simulator
  with its Ruby memory system (\<open>src/lab6/gem5\<close>).

  The program.  In each SimpleScalar assignment a functional simulator executes a PISA program one
  instruction at a time and feeds the executed instructions to the code of the assignment: counters of
  pipeline hazards (lab 1), branch predictors (lab 2), a cycle-accurate Tomasulo pipeline that replays
  the recorded trace (lab 4), and a cache with hardware prefetchers (lab 5).  gem5 is event driven: the
  event queue orders all activity; the out-of-order core asks the branch prediction unit for a
  direction and a target when it fetches, renames registers, predicts memory dependences with store
  sets and keeps the instructions in the reorder buffer until they commit or are squashed; its caches
  keep their blocks in a tag store, and a page table translates the addresses of a process.  In the Ruby
  memory system controllers with cache memories exchange messages through buffers, over a network whose
  routes are computed from the topology.

  The theories, with the code they model.  A theory named \<open>X\<close> holds the data and the operations, in the
  order of the source; \<open>X_Laws\<close>, \<open>X_Refine\<close>, \<open>X_Live\<close> and \<open>X_Props\<close> hold its lemmas.
  \<^item> \<open>Gem5_Prelude\<close>: machine words, the outcome \<open>'a res\<close> of an operation that can stop the simulator,
    vectors with checked indices, masks and powers of two.  \<open>Pisa_Machine\<close>: registers, opcode flags and
    instruction size of the SimpleScalar target (\<open>target-pisa/pisa.h\<close>).
  \<^item> \<open>Lab1_Hazards\<close>, \<open>Lab1_Laws\<close>: the hazard counters of lab 1's \<open>sim-safe.c\<close>.  The four tables of ready
    times share the interface \<open>ready_table\<close>; its instances make the counters equal a declarative count.
  \<^item> \<open>Lab2_Predictors\<close>, \<open>Lab2_Laws\<close>: the static, 2-bit, two-level and tournament predictors of lab 2's
    \<open>sim-safe.c\<close>; the exact effect of each on reachable tables, and what whole runs count.
  \<^item> \<open>Tomasulo\<close>, \<open>Tomasulo_Laws\<close>, \<open>Tomasulo_Live\<close>, \<open>Tomasulo_Props\<close>: lab 4's \<open>tomasulo.c\<close> and the trace
    of \<open>instr.c\<close>.  The laws hold the pipeline invariant and its preservation stage by stage, the
    liveness theory the measure of remaining work that every cycle without progress is bounded by.
  \<^item> \<open>Lab5_Cache\<close>: lab 5's \<open>cache.c\<close> and the two data cache levels of \<open>sim-cache.c\<close>; pointers to blocks are
    indices of the block array.  \<open>Lab5_Chains\<close> and \<open>Lab5_Lists\<close> hold the linked lists, \<open>Lab5_Inv\<close> the
    invariant, \<open>Lab5_Access\<close> hits and misses, \<open>Lab5_Levels\<close> the contract \<open>next_level\<close> of the level below
    (instances: main memory, and the second level of cache) with the flushes, \<open>Lab5_Create\<close> the creation,
    \<open>Lab5_Refine\<close> the abstract cache of lists of lines and LRU as recency, \<open>Lab5_Prefetch\<close> the prefetchers,
    \<open>Lab5_Props\<close> the properties.
  \<^item> \<open>Int_Math\<close>: \<open>base/intmath.hh\<close>, \<open>intmath.cc\<close> and \<open>bitfield.hh\<close>.
  \<^item> \<open>Event_Queue\<close>, \<open>Event_Queue_Refine\<close>: \<open>sim/eventq.hh\<close> and \<open>eventq.cc\<close>, the doubly linked bins as
    pointers, refined to a sorted list of events.
  \<^item> \<open>Branch_Pred\<close>, \<open>Predictor_Laws\<close>, \<open>BPred_Unit\<close>, \<open>BPred_Unit_Laws\<close>: the predictors of \<open>cpu/pred\<close>
    and the unit of \<open>cpu/o3/bpred_unit_impl.hh\<close> that keeps the history of predictions it can undo.
  \<^item> \<open>O3_Rename\<close>, \<open>Store_Set\<close>, \<open>O3_ROB\<close> with their laws: free list, rename map, scoreboard, store sets and
    reorder buffer of \<open>cpu/o3\<close>.
  \<^item> \<open>LRU_Tags\<close>, \<open>LRU_Tags_Laws\<close>: \<open>mem/cache/blk.hh\<close>, \<open>tags/cacheset.cc\<close> and \<open>tags/lru.cc\<close>.
  \<^item> \<open>FA_LRU\<close>, \<open>FA_LRU_Laws\<close>: \<open>mem/cache/tags/fa_lru.cc\<close>, the fully associative store that counts the hits of
    caches of several sizes at once; its linked list with the boundary of each size, that the
    consistency check holds in every store reached, and what each access counts for every size.
  \<^item> \<open>Page_Table\<close>, \<open>Page_Table_Laws\<close>: \<open>mem/page_table.cc\<close> with the entries of \<open>arch/alpha/pagetable.hh\<close>, refined
    to a map of pages to frames with the set of pages whose cached translation is out of date.
  \<^item> \<open>Ruby_Address\<close>: \<open>mem/ruby/common/Address.{hh,cc}\<close> and the mapping of addresses to directories
    (\<open>system/DirectoryMemory.cc\<close>).  \<open>Ruby_Replacement\<close>, \<open>Ruby_Replacement_Laws\<close>: the replacement policies
    behind the interface \<open>replacement_policy\<close> (instances: LRU, pseudo-LRU, and the choice between them).
    \<open>Ruby_Cache\<close>, \<open>Ruby_Cache_Laws\<close>: \<open>system/CacheMemory.cc\<close>, refined to a map of lines over that interface.
  \<^item> \<open>Ruby_Topology\<close>, \<open>Ruby_Topology_Laws\<close>: \<open>mem/ruby/network/Topology.cc\<close>, the links, the shortest paths and
    the routing tables; that the paths are shortest and that hop-by-hop routing arrives.
  \<^item> \<open>Ruby_Buffer\<close>, \<open>Ruby_Buffer_Laws\<close>: \<open>mem/ruby/buffers/MessageBuffer.cc\<close> with the wakeups of its consumer;
    FIFO order through the interface \<open>message_channel\<close>, conservation of messages and bounded size.


  How state and operations correspond.  A C structure or C++ class is a record with the source's field
  names; an operation is a function that takes the record and returns it updated.  A failed assertion, a
  panic, a fatal error, and an access that C leaves undefined (an index outside an array, a null
  pointer) are values \<^term>\<open>Inl\<close> of the result, so each early end of the source is a branch of the
  model.  Loops over pointers are partial functions or walks bounded by the number of nodes, and are
  proved to end.  Counters and times are unbounded; addresses, tags, histories and flags are words.
  Tracing, statistics registration and printing change no state and are left out.

  What the lemmas show, in each component: the invariant of the state and that every operation keeps it;
  the outcome of each operation on every branch; what a lookup returns after an update; that loops end;
  and, where the component has a contract (a sorted list, a bounded stack, an LRU order, independent
  counters, the order of a data-flow schedule), that the code's structure implements it.

  Bounds and parameters.  Sizes of tables are those of the source or arguments checked as the
  constructors check them.  Code outside \<open>src\<close>, code generated at build time and the functional
  execution of instructions are arguments: the table of opcode flags, the executed instructions, the
  next level of memory, the memory allocator, the random numbers, the program counter.

  Not modelled: the functional simulators, loaders, memories, statistics and options packages of
  SimpleScalar and its Alpha target; of gem5, the instruction sets (their decoders and executors are
  generated from \<open>.isa\<close> files), the SLICC compiler and the protocols it compiles, the in-order and
  simple cores, the pipeline stages of the out-of-order core, the controller of the classic cache, the
  switches and links of the Ruby networks, its sequencers and memory controller, devices, kernel models, statistics, checkpointing, Python configuration and unit tests.
\<close>

end
